(* ===== verification/Prelude.thy ===== *)
theory Prelude
  imports Main "HOL-Library.Word"
begin

text \<open>
  Shared vocabulary of the development: the machine types of the C++ code (bytes, 32-bit and
  64-bit unsigned integers, byte strings), the \<open>Status\<close> value every fallible operation
  returns (\<open>include/leveldb/status.h\<close>), the collections of rewrite rules the component
  theories extend, and generic lemmas on lists and words.
\<close>

section \<open>Machine types\<close>

type_synonym byte = "8 word"
type_synonym u16 = "16 word"
type_synonym u32 = "32 word"
type_synonym u64 = "64 word"

text \<open>A \<open>Slice\<close> or a \<open>std::string\<close> is the list of the bytes it refers to.\<close>

type_synonym bytes = "byte list"

unbundle bit_operations_syntax

text \<open>
  \<open>codec\<close> collects the parse-after-print equations of the encoders, \<open>lens\<close> the lengths of
  encodings, \<open>order_facts\<close> the facts about comparators.
\<close>

named_theorems codec \<open>parse-after-print equations\<close>
named_theorems lens \<open>lengths of encodings\<close>
named_theorems order_facts \<open>laws of the key orders\<close>

section \<open>Status\<close>

datatype status =
    OK
  | NotFound string
  | Corruption string
  | NotSupported string
  | InvalidArgument string
  | IOError string

definition status_ok :: "status \<Rightarrow> bool" where
  "status_ok s = (case s of OK \<Rightarrow> True | _ \<Rightarrow> False)"

text \<open>The two-part message of the private constructor: \<open>msg\<close>, or \<open>msg: msg2\<close>.\<close>

definition status_msg :: "string \<Rightarrow> string \<Rightarrow> string" where
  "status_msg msg msg2 = (if msg2 = [] then msg else msg @ '': '' @ msg2)"

fun status_ToString :: "status \<Rightarrow> string" where
  "status_ToString OK = ''OK''"
| "status_ToString (NotFound m) = ''NotFound: '' @ m"
| "status_ToString (Corruption m) = ''Corruption: '' @ m"
| "status_ToString (NotSupported m) = ''Not implemented: '' @ m"
| "status_ToString (InvalidArgument m) = ''Invalid argument: '' @ m"
| "status_ToString (IOError m) = ''IO error: '' @ m"

lemma status_ok_simps [simp]:
  "status_ok OK" "\<not> status_ok (NotFound m)" "\<not> status_ok (Corruption m)"
  "\<not> status_ok (NotSupported m)" "\<not> status_ok (InvalidArgument m)" "\<not> status_ok (IOError m)"
  by (simp_all add: status_ok_def)

lemma status_ok_iff: "status_ok s \<longleftrightarrow> s = OK"
  by (cases s) auto

section \<open>Lists\<close>

text \<open>\<open>Slice::starts_with\<close> and \<open>Slice::end_with\<close>: a length test and a \<open>memcmp\<close>.\<close>

definition starts_with :: "'a list \<Rightarrow> 'a list \<Rightarrow> bool" where
  "starts_with s x \<longleftrightarrow> length s \<ge> length x \<and> take (length x) s = x"

definition end_with :: "'a list \<Rightarrow> 'a list \<Rightarrow> bool" where
  "end_with s x \<longleftrightarrow> length s \<ge> length x \<and> drop (length s - length x) s = x"

lemma starts_with_append [simp]: "starts_with (x @ y) x"
  by (simp add: starts_with_def)

lemma starts_with_iff: "starts_with s x \<longleftrightarrow> (\<exists>r. s = x @ r)"
  by (metis append_eq_conv_conj append_take_drop_id length_append le_add1 starts_with_def)

lemma end_with_iff: "end_with s x \<longleftrightarrow> (\<exists>r. s = r @ x)"
  by (metis append_eq_conv_conj append_take_drop_id diff_le_self end_with_def length_append
      length_drop diff_diff_cancel le_add2 add_diff_cancel_right')

lemma take_drop_nth_window:
  "i + n \<le> length xs \<Longrightarrow> j < n \<Longrightarrow> take n (drop i xs) ! j = xs ! (i + j)"
  by simp

lemma nth_eq_take_drop:
  "i < length xs \<Longrightarrow> xs = take i xs @ xs ! i # drop (Suc i) xs"
  by (rule id_take_nth_drop)

section \<open>Words\<close>

lemma word_of_nat_less_iff_bound:
  "n < 2 ^ LENGTH('a) \<Longrightarrow> unat (word_of_nat n :: 'a::len word) = n"
  by (simp add: unat_of_nat take_bit_nat_eq_self)

lemma unat_lt: "unat (w :: 'a::len word) < 2 ^ LENGTH('a)"
  by (rule unsigned_less)

lemma unat_lt32: "unat (w :: u32) < 4294967296"
  using unat_lt [of w] by simp

lemma unat_lt64: "unat (w :: u64) < 18446744073709551616"
  using unat_lt [of w] by simp

lemma unat_ucast_up: "LENGTH('a) \<le> LENGTH('b) \<Longrightarrow> unat (ucast (v :: 'a::len word) :: 'b::len word) = unat v"
  by (simp add: unsigned_ucast_eq take_bit_nat_eq_self less_le_trans [OF unat_lt])

lemma ucast_and_255 [simp]: "ucast (w AND 0xff) = (ucast (w :: 'a::len word) :: byte)"
proof (rule bit_word_eqI)
  fix n assume n: "n < LENGTH(8)"
  have m: "(0xff :: 'a word) = mask 8" by (simp add: mask_eq_exp_minus_1)
  show "bit (ucast (w AND 0xff) :: byte) n = bit (ucast w :: byte) n"
    unfolding m using n by (auto simp: bit_ucast_iff bit_and_iff bit_mask_iff dest: bit_imp_le_length)
qed

lemma bit_ucast_byte: "bit (ucast (drop_bit k v) :: byte) n \<longleftrightarrow> n < 8 \<and> bit v (k + n)"
  for v :: "'a::len word"
  by (auto simp: bit_simps dest: bit_imp_le_length)

lemma bit_ucast_of_byte: "8 \<le> LENGTH('a) \<Longrightarrow> bit (ucast (b :: byte) :: 'a::len word) n \<longleftrightarrow> n < 8 \<and> bit b n"
  using bit_imp_le_length [of b n] by (auto simp: bit_simps)

lemma bit_127: "bit (127 :: 'a::len word) n \<longleftrightarrow> n < 7 \<and> n < LENGTH('a)"
proof -
  have m: "(127 :: 'a word) = mask 7" by (simp add: mask_eq_exp_minus_1)
  show ?thesis unfolding m by (auto simp: bit_mask_iff)
qed

lemma bit_128: "bit (128 :: 'a::len word) n \<longleftrightarrow> n = 7 \<and> n < LENGTH('a)"
proof -
  have m: "(128 :: 'a word) = 2 ^ 7" by simp
  show ?thesis unfolding m by (simp only: bit_exp_iff) auto
qed

lemma bit_127_int [simp]: "bit (127 :: int) n \<longleftrightarrow> n < 7"
proof -
  have m: "(127 :: int) = mask 7" by (simp add: mask_eq_exp_minus_1)
  show ?thesis unfolding m by (auto simp: bit_mask_iff)
qed

lemma bit_128_int [simp]: "bit (128 :: int) n \<longleftrightarrow> n = 7"
proof -
  have m: "(128 :: int) = 2 ^ 7" by simp
  show ?thesis unfolding m by (simp only: bit_exp_iff) auto
qed

lemmas wbits = bit_or_iff bit_and_iff bit_xor_iff bit_push_bit_iff bit_drop_bit_eq bit_ucast_iff
  bit_127 bit_128

lemma word_and_128_eq_0: "8 \<le> LENGTH('a) \<Longrightarrow> (x :: 'a::len word) AND 128 = 0 \<longleftrightarrow> \<not> bit x 7"
  by (auto simp: wbits intro!: bit_word_eqI dest: arg_cong [where f = "\<lambda>w. bit w 7"])

section \<open>Decimal numbers, as \<open>snprintf\<close> prints them\<close>

fun show_nat :: "nat \<Rightarrow> string" where
  "show_nat n = (if n < 10 then [char_of (48 + n)] else show_nat (n div 10) @ [char_of (48 + n mod 10)])"

declare show_nat.simps [simp del]

end
