(* ===== verification/Coding.thy ===== *)
theory Coding
  imports Prelude
begin

text \<open>
  \<open>util/coding.cpp\<close> and \<open>util/coding.h\<close>: the little-endian fixed-width encoding, the
  base-128 varint encoding and length-prefixed slices. A pointer pair \<open>p, limit\<close> is the list
  of the bytes from \<open>p\<close> to \<open>limit\<close>; a parse returns the value and the bytes that remain,
  \<open>None\<close> where the code returns \<open>NULL\<close> or \<open>false\<close>.
\<close>

section \<open>Fixed-width integers\<close>

definition EncodeFixed32 :: "u32 \<Rightarrow> bytes" where
  "EncodeFixed32 value =
     [ucast (value AND 0xff), ucast (drop_bit 8 value AND 0xff),
      ucast (drop_bit 16 value AND 0xff), ucast (drop_bit 24 value AND 0xff)]"

definition EncodeFixed64 :: "u64 \<Rightarrow> bytes" where
  "EncodeFixed64 value =
     [ucast (value AND 0xff), ucast (drop_bit 8 value AND 0xff),
      ucast (drop_bit 16 value AND 0xff), ucast (drop_bit 24 value AND 0xff),
      ucast (drop_bit 32 value AND 0xff), ucast (drop_bit 40 value AND 0xff),
      ucast (drop_bit 48 value AND 0xff), ucast (drop_bit 56 value AND 0xff)]"

definition PutFixed32 :: "bytes \<Rightarrow> u32 \<Rightarrow> bytes" where
  "PutFixed32 dst value = dst @ EncodeFixed32 value"

definition PutFixed64 :: "bytes \<Rightarrow> u64 \<Rightarrow> bytes" where
  "PutFixed64 dst value = dst @ EncodeFixed64 value"

text \<open>
  \<open>DecodeFixed32\<close> and \<open>DecodeFixed64\<close> read four and eight bytes without a bounds check;
  the callers establish the length, so the reads here are only used on long enough lists.
\<close>

definition DecodeFixed32 :: "bytes \<Rightarrow> u32" where
  "DecodeFixed32 ptr =
     ucast (ptr ! 0) OR push_bit 8 (ucast (ptr ! 1)) OR
     push_bit 16 (ucast (ptr ! 2)) OR push_bit 24 (ucast (ptr ! 3))"

definition DecodeFixed64 :: "bytes \<Rightarrow> u64" where
  "DecodeFixed64 ptr =
     (let lo = ucast (DecodeFixed32 ptr); hi = ucast (DecodeFixed32 (drop 4 ptr))
      in push_bit 32 hi OR lo)"

section \<open>Varints\<close>

definition EncodeVarint32 :: "u32 \<Rightarrow> bytes" where
  "EncodeVarint32 v =
     (if v < 2 ^ 7 then [ucast v]
      else if v < 2 ^ 14 then [ucast (v OR 128), ucast (drop_bit 7 v)]
      else if v < 2 ^ 21 then
        [ucast (v OR 128), ucast (drop_bit 7 v OR 128), ucast (drop_bit 14 v)]
      else if v < 2 ^ 28 then
        [ucast (v OR 128), ucast (drop_bit 7 v OR 128), ucast (drop_bit 14 v OR 128),
         ucast (drop_bit 21 v)]
      else
        [ucast (v OR 128), ucast (drop_bit 7 v OR 128), ucast (drop_bit 14 v OR 128),
         ucast (drop_bit 21 v OR 128), ucast (drop_bit 28 v)])"

definition PutVarint32 :: "bytes \<Rightarrow> u32 \<Rightarrow> bytes" where
  "PutVarint32 dst v = dst @ EncodeVarint32 v"

lemma unat_drop_bit_7_less: "\<not> (v :: u64) < 128 \<Longrightarrow> unat (drop_bit 7 v) < unat v"
proof -
  assume "\<not> v < 128"
  then have "v \<noteq> 0" by auto
  then have "0 < unat v" by (simp add: unat_gt_0)
  then show ?thesis by (simp add: unat_div drop_bit_eq_div)
qed

function EncodeVarint64 :: "u64 \<Rightarrow> bytes" where
  "EncodeVarint64 v =
     (if v \<ge> 128 then ucast ((v AND (128 - 1)) OR 128) # EncodeVarint64 (drop_bit 7 v)
      else [ucast v])"
  by pat_completeness auto
termination
  by (relation "measure unat")
    (auto simp: not_less[symmetric] intro: unat_drop_bit_7_less simp del: not_less)

declare EncodeVarint64.simps [simp del]

definition PutVarint64 :: "bytes \<Rightarrow> u64 \<Rightarrow> bytes" where
  "PutVarint64 dst v = dst @ EncodeVarint64 v"

function VarintLength_loop :: "u64 \<Rightarrow> nat \<Rightarrow> nat" where
  "VarintLength_loop v len =
     (if v \<ge> 128 then VarintLength_loop (drop_bit 7 v) (len + 1) else len)"
  by pat_completeness auto
termination
  by (relation "measure (\<lambda>(v, len). unat v)")
    (auto simp: not_less[symmetric] intro: unat_drop_bit_7_less simp del: not_less)

declare VarintLength_loop.simps [simp del]

definition VarintLength :: "u64 \<Rightarrow> nat" where
  "VarintLength v = VarintLength_loop v 1"

text \<open>
  The decoding loop of \<open>GetVarint32PtrFallback\<close> and of \<open>GetVarint64Ptr\<close>: the same code at
  two widths, with the largest shift 28 and 63. A byte is masked only when its continuation
  bit is set; bits shifted past the width are lost.
\<close>

function GetVarint_loop :: "nat \<Rightarrow> nat \<Rightarrow> 'a::len word \<Rightarrow> bytes \<Rightarrow> ('a word \<times> bytes) option" where
  "GetVarint_loop max_shift shift result p =
     (if shift \<le> max_shift then
        (case p of
           [] \<Rightarrow> None
         | b # p' \<Rightarrow>
             let byte = ucast b :: 'a word
             in if byte AND 128 \<noteq> 0
                then GetVarint_loop max_shift (shift + 7)
                       (result OR push_bit shift (byte AND 127)) p'
                else Some (result OR push_bit shift byte, p'))
      else None)"
  by pat_completeness auto
termination
  by (relation "measure (\<lambda>(m, s, r, p). length p)") auto

declare GetVarint_loop.simps [simp del]

definition GetVarint32PtrFallback :: "bytes \<Rightarrow> (u32 \<times> bytes) option" where
  "GetVarint32PtrFallback p = GetVarint_loop 28 0 0 p"

definition GetVarint32Ptr :: "bytes \<Rightarrow> (u32 \<times> bytes) option" where
  "GetVarint32Ptr p =
     (case p of
        [] \<Rightarrow> GetVarint32PtrFallback p
      | b # p' \<Rightarrow>
          let result = ucast b :: u32
          in if result AND 128 = 0 then Some (result, p') else GetVarint32PtrFallback p)"

definition GetVarint32 :: "bytes \<Rightarrow> (u32 \<times> bytes) option" where
  "GetVarint32 input = GetVarint32Ptr input"

definition GetVarint64Ptr :: "bytes \<Rightarrow> (u64 \<times> bytes) option" where
  "GetVarint64Ptr p = GetVarint_loop 63 0 0 p"

definition GetVarint64 :: "bytes \<Rightarrow> (u64 \<times> bytes) option" where
  "GetVarint64 input = GetVarint64Ptr input"

section \<open>Length-prefixed slices\<close>

definition PutLengthPrefixedSlice :: "bytes \<Rightarrow> bytes \<Rightarrow> bytes" where
  "PutLengthPrefixedSlice dst value =
     PutVarint32 dst (word_of_nat (length value)) @ value"

definition GetLengthPrefixedSlice :: "bytes \<Rightarrow> (bytes \<times> bytes) option" where
  "GetLengthPrefixedSlice input =
     (case GetVarint32 input of
        None \<Rightarrow> None
      | Some (len, input') \<Rightarrow>
          if length input' \<ge> unat len
          then Some (take (unat len) input', drop (unat len) input')
          else None)"

section \<open>Lengths\<close>

lemma length_EncodeFixed32 [simp, lens]: "length (EncodeFixed32 v) = 4"
  by (simp add: EncodeFixed32_def)

lemma length_EncodeFixed64 [simp, lens]: "length (EncodeFixed64 v) = 8"
  by (simp add: EncodeFixed64_def)

lemma length_EncodeVarint32_bounds:
  "1 \<le> length (EncodeVarint32 v) \<and> length (EncodeVarint32 v) \<le> 5"
  by (simp add: EncodeVarint32_def)

lemma EncodeVarint64_nonempty [simp]: "EncodeVarint64 v \<noteq> []"
  by (subst EncodeVarint64.simps) simp

lemma VarintLength_loop_eq: "VarintLength_loop v len + 1 = len + length (EncodeVarint64 v)"
proof (induction v arbitrary: len rule: EncodeVarint64.induct)
  case (1 v)
  show ?case
    using "1.IH" [of "len + 1"]
    by (simp add: VarintLength_loop.simps [of v len] EncodeVarint64.simps [of v])
qed

lemma VarintLength_eq: "VarintLength v = length (EncodeVarint64 v)"
  using VarintLength_loop_eq [of v 1] by (simp add: VarintLength_def)

section \<open>Fixed-width round trips\<close>

lemma four_cases:
  assumes "(n::nat) < 32"
  obtains "n < 8" | "8 \<le> n" "n < 16" | "16 \<le> n" "n < 24" | "24 \<le> n" "n < 32"
  using assms by linarith

lemma ucast_byte_0: "(ucast v :: byte) = ucast (drop_bit 0 v)" for v :: "'a::len word" by simp

lemma DecodeFixed32_bytes: "DecodeFixed32 ((ucast v) # (ucast (drop_bit 8 v)) # (ucast (drop_bit 16 v)) # (ucast (drop_bit 24 v)) # rest) = v"
proof (rule bit_word_eqI)
  fix n assume "n < LENGTH(32)"
  then have "n < 32" by simp
  then show "bit (DecodeFixed32 ((ucast v) # (ucast (drop_bit 8 v)) # (ucast (drop_bit 16 v)) # (ucast (drop_bit 24 v)) # rest)) n = bit v n"
    by (cases rule: four_cases)
      (auto simp: DecodeFixed32_def bit_or_iff bit_push_bit_iff bit_ucast_of_byte bit_ucast_byte
        ucast_byte_0 [of v] simp del: drop_bit_0)
qed

lemma ucast_byte_drop_ucast: "(ucast (drop_bit k (ucast w :: u32)) :: byte) = ucast (drop_bit k (w :: u64))" if "k + 8 \<le> 32"
  using that by (auto intro!: bit_word_eqI simp: bit_ucast_byte bit_ucast_iff bit_drop_bit_eq)

lemma DecodeFixed32_Encode [simp, codec]: "DecodeFixed32 (EncodeFixed32 v @ rest) = v"
  using DecodeFixed32_bytes [of v rest] by (simp add: EncodeFixed32_def)

lemma DecodeFixed32_Encode_self [simp, codec]: "DecodeFixed32 (EncodeFixed32 v) = v"
  using DecodeFixed32_Encode [of v "[]"] by simp

lemma DecodeFixed64_Encode [simp, codec]: "DecodeFixed64 (EncodeFixed64 v @ rest) = v"
proof -
  let ?lo = "ucast v :: u32" and ?hi = "ucast (drop_bit 32 v) :: u32"
  have lo: "DecodeFixed32 (EncodeFixed64 v @ rest) = ?lo"
    using DecodeFixed32_bytes [of ?lo "drop 4 (EncodeFixed64 v @ rest)"] ucast_byte_drop_ucast [of 0 v]
    by (simp add: EncodeFixed64_def ucast_byte_drop_ucast)
  have hi: "DecodeFixed32 (drop 4 (EncodeFixed64 v @ rest)) = ?hi"
    using DecodeFixed32_bytes [of ?hi rest] ucast_byte_drop_ucast [of 0 "drop_bit 32 v"]
    by (simp add: EncodeFixed64_def ucast_byte_drop_ucast)
  show ?thesis unfolding DecodeFixed64_def Let_def lo hi
    by (rule bit_word_eqI) (auto simp: bit_simps)
qed
lemma DecodeFixed64_Encode_self [simp, codec]: "DecodeFixed64 (EncodeFixed64 v) = v"
  using DecodeFixed64_Encode [of v "[]"] by simp

lemma EncodeFixed32_Decode_list: "EncodeFixed32 (DecodeFixed32 [b0, b1, b2, b3]) = [b0, b1, b2, b3]"
proof -
  let ?w = "DecodeFixed32 [b0, b1, b2, b3]"
  have b: "bit ?w n \<longleftrightarrow> (n < 8 \<and> bit b0 n) \<or> (8 \<le> n \<and> n < 16 \<and> bit b1 (n - 8)) \<or>
      (16 \<le> n \<and> n < 24 \<and> bit b2 (n - 16)) \<or> (24 \<le> n \<and> n < 32 \<and> bit b3 (n - 24))" for n
    by (auto simp: DecodeFixed32_def bit_or_iff bit_push_bit_iff bit_ucast_of_byte)
  have "(ucast ?w :: byte) = b0" "(ucast (drop_bit 8 ?w) :: byte) = b1"
    "(ucast (drop_bit 16 ?w) :: byte) = b2" "(ucast (drop_bit 24 ?w) :: byte) = b3"
    by (rule bit_word_eqI, auto simp: bit_ucast_byte b ucast_byte_0 [of ?w] simp del: drop_bit_0)+
  then show ?thesis by (simp add: EncodeFixed32_def)
qed

lemma EncodeFixed32_Decode: "length p = 4 \<Longrightarrow> EncodeFixed32 (DecodeFixed32 p) = p"
  using EncodeFixed32_Decode_list [of "p ! 0" "p ! 1" "p ! 2" "p ! 3"]
  by (auto simp: numeral_eq_Suc length_Suc_conv)

lemma EncodeFixed64_split:
  "EncodeFixed64 w = EncodeFixed32 (ucast w) @ EncodeFixed32 (ucast (drop_bit 32 w))"
  using ucast_byte_drop_ucast [of 0 w] ucast_byte_drop_ucast [of 0 "drop_bit 32 w"]
  by (simp add: EncodeFixed64_def EncodeFixed32_def ucast_byte_drop_ucast)

lemma DecodeFixed32_take: "4 \<le> n \<Longrightarrow> 4 \<le> length p \<Longrightarrow> DecodeFixed32 (take n p) = DecodeFixed32 p"
  by (simp add: DecodeFixed32_def)

lemma EncodeFixed64_Decode: "length p = 8 \<Longrightarrow> EncodeFixed64 (DecodeFixed64 p) = p"
proof -
  assume len: "length p = 8"
  have lo: "(ucast (DecodeFixed64 p) :: u32) = DecodeFixed32 p"
    by (rule bit_word_eqI) (auto simp: DecodeFixed64_def Let_def bit_simps)
  have hi: "(ucast (drop_bit 32 (DecodeFixed64 p)) :: u32) = DecodeFixed32 (drop 4 p)"
    by (rule bit_word_eqI) (auto simp: DecodeFixed64_def Let_def bit_simps dest: bit_imp_le_length)
  have "EncodeFixed32 (DecodeFixed32 p) = take 4 p"
    using EncodeFixed32_Decode [of "take 4 p"] len by (simp add: DecodeFixed32_take)
  moreover have "EncodeFixed32 (DecodeFixed32 (drop 4 p)) = drop 4 p"
    using EncodeFixed32_Decode [of "drop 4 p"] len by simp
  ultimately show ?thesis
    unfolding EncodeFixed64_split lo hi by simp
qed
section \<open>Varint round trips\<close>

lemma GetVarint_loop_Encode64:
  "8 \<le> LENGTH('a) \<Longrightarrow> shift + 7 * (length (EncodeVarint64 v) - 1) \<le> m \<Longrightarrow>
   GetVarint_loop m shift r (EncodeVarint64 v @ rest)
     = Some (r OR push_bit shift (ucast v :: 'a::len word), rest)"
proof (induction v arbitrary: shift r rule: EncodeVarint64.induct)
  case (1 v)
  show ?case
  proof (cases "v \<ge> 128")
    case True
    let ?b = "ucast ((v AND (128 - 1)) OR 128) :: byte"
    have len: "length (EncodeVarint64 v) = Suc (length (EncodeVarint64 (drop_bit 7 v)))"
      using True by (simp add: EncodeVarint64.simps [of v])
    have pos: "length (EncodeVarint64 (drop_bit 7 v)) > 0"
      by (subst EncodeVarint64.simps) simp
    have b: "(ucast ?b :: 'a word) AND 128 \<noteq> 0"
      using "1.prems"(1) by (simp add: word_and_128_eq_0 wbits)
    have sh: "7 + (n - (shift + 7)) = n - shift" if "shift + 7 \<le> n" for n
      using that by simp
    have eq: "(r OR push_bit shift ((ucast ?b :: 'a word) AND 127)) OR
          push_bit (shift + 7) (ucast (drop_bit 7 v) :: 'a word) = r OR push_bit shift (ucast v)"
      using "1.prems"(1)
      by (intro bit_word_eqI, rename_tac n, case_tac "shift + 7 \<le> n") (auto simp: wbits sh dest: bit_imp_le_length)
    have "GetVarint_loop m (shift + 7) (r OR push_bit shift ((ucast ?b :: 'a word) AND 127))
            (EncodeVarint64 (drop_bit 7 v) @ rest) =
          Some ((r OR push_bit shift ((ucast ?b :: 'a word) AND 127)) OR
            push_bit (shift + 7) (ucast (drop_bit 7 v)), rest)"
    proof (rule "1.IH" [OF True "1.prems"(1)])
      show "shift + 7 + 7 * (length (EncodeVarint64 (drop_bit 7 v)) - 1) \<le> m"
        using "1.prems"(2) len pos by arith
    qed
    then show ?thesis
      using True "1.prems" b eq
      by (simp add: EncodeVarint64.simps [of v] GetVarint_loop.simps [of m shift])
  next
    case False
    then have "v < 2 ^ 7" by simp
    then have nb: "n < 7" if "bit v n" for n
      using that less_mask_eq [OF \<open>v < 2 ^ 7\<close>] by (metis bit_and_iff bit_mask_iff)
    have "(ucast (ucast v :: byte) :: 'a word) = ucast v"
      by (rule bit_word_eqI) (use nb in \<open>force simp: wbits\<close>)
    moreover have "\<not> bit v 7" using nb [of 7] by auto
    ultimately show ?thesis
      using False "1.prems"
      by (simp add: Let_def EncodeVarint64.simps [of v] GetVarint_loop.simps [of m shift]
          word_and_128_eq_0 wbits)
  qed
qed

lemma EncodeVarint64_len: "unat v < 2 ^ (7 * k) \<Longrightarrow> 0 < k \<Longrightarrow> length (EncodeVarint64 v) \<le> k"
proof (induction v arbitrary: k rule: EncodeVarint64.induct)
  case (1 v)
  show ?case
  proof (cases "v \<ge> 128")
    case True
    then have big: "128 \<le> unat v" by (simp add: word_le_nat_alt)
    have k: "2 \<le> k"
    proof (rule ccontr)
      assume "\<not> 2 \<le> k"
      then have "k = 1" using "1.prems"(2) by simp
      with "1.prems"(1) big show False by simp
    qed
    then obtain j where j: "k = Suc j" "0 < j" by (cases k) auto
    have "unat v < 2 ^ (7 * j) * 128"
      using "1.prems"(1) j by (simp add: power_add)
    then have "unat v div 128 < 2 ^ (7 * j)" by (simp add: less_mult_imp_div_less)
    then have "length (EncodeVarint64 (drop_bit 7 v)) \<le> j"
      using "1.IH" [OF True, of j] j by (simp add: unat_div drop_bit_eq_div)
    then show ?thesis using True j by (simp add: EncodeVarint64.simps [of v])
  next
    case False
    then show ?thesis using "1.prems" by (simp add: EncodeVarint64.simps [of v])
  qed
qed

lemma EncodeVarint64_len_max: "length (EncodeVarint64 v) \<le> 10"
  using unat_lt64 [of v] by (intro EncodeVarint64_len) simp_all

lemma EncodeVarint64_len_32: "length (EncodeVarint64 (ucast (v :: u32))) \<le> 5"
proof (rule EncodeVarint64_len)
  show "unat (ucast v :: u64) < 2 ^ (7 * 5)"
    using unat_lt32 [of v] by (simp add: unat_ucast_up)
qed simp

lemma EncodeVarint32_eq_64: "EncodeVarint32 v = EncodeVarint64 (ucast v)"
proof -
  let ?w = "ucast v :: u64"
  have un: "unat ?w = unat v" by (simp add: unat_ucast_up)
  have lt: "128 \<le> drop_bit k ?w \<longleftrightarrow> 128 \<le> unat v div 2 ^ k" for k
    by (simp only: word_le_nat_alt unat_drop_bit_eq un) (simp add: drop_bit_eq_div)
  have lo: "(ucast ((drop_bit k ?w AND (128 - 1)) OR 128) :: byte) = ucast (drop_bit k v OR 128)" for k
    by (rule bit_word_eqI, rename_tac n, case_tac "n = 7") (auto simp: wbits dest: bit_imp_le_length)
  have hi: "(ucast (drop_bit k ?w) :: byte) = ucast (drop_bit k v)" for k
    by (rule bit_word_eqI) (auto simp: wbits dest: bit_imp_le_length)
  have last: "\<not> 128 \<le> drop_bit 28 ?w"
    using unat_lt32 [of v] unfolding lt by simp
  have unfold: "EncodeVarint64 (drop_bit k ?w) = (if 128 \<le> unat v div 2 ^ k
       then ucast (drop_bit k v OR 128) # EncodeVarint64 (drop_bit (k + 7) ?w)
       else [ucast (drop_bit k v)])" for k
    by (subst EncodeVarint64.simps) (simp only: lt lo hi drop_bit_drop_bit add.commute)
  have fin: "EncodeVarint64 (drop_bit 28 ?w) = [ucast (drop_bit 28 v)]"
    using last by (subst EncodeVarint64.simps) (simp only: hi if_False)
  have c: "128 \<le> unat v div 2 ^ 7 \<longleftrightarrow> \<not> unat v < 16384" "128 \<le> unat v div 2 ^ 14 \<longleftrightarrow> \<not> unat v < 2097152"
    "128 \<le> unat v div 2 ^ 21 \<longleftrightarrow> \<not> unat v < 268435456"
    by (simp, arith)+
  have l: "v < 2 ^ 7 \<longleftrightarrow> unat v < 128" "v < 2 ^ 14 \<longleftrightarrow> unat v < 16384" "v < 2 ^ 21 \<longleftrightarrow> unat v < 2097152"
    "v < 2 ^ 28 \<longleftrightarrow> unat v < 268435456"
    by (simp_all add: word_less_nat_alt)
  have u0: "EncodeVarint64 ?w = (if unat v < 128 then [ucast v]
      else ucast (v OR 128) # EncodeVarint64 (drop_bit 7 ?w))"
    using unfold [of 0] by simp
  show ?thesis
    unfolding EncodeVarint32_def l u0 using unfold [of 7] unfold [of 14] unfold [of 21]
    using fin unfolding c by simp
qed

lemma GetVarint32Fallback_Encode:
  "GetVarint32PtrFallback (EncodeVarint32 v @ rest) = Some (v, rest)"
proof -
  have "7 * (length (EncodeVarint64 (ucast v)) - 1) \<le> 28"
    using EncodeVarint64_len_32 [of v] by simp
  then have "GetVarint_loop 28 0 0 (EncodeVarint64 (ucast v) @ rest)
      = Some (0 OR push_bit 0 (ucast (ucast v :: u64) :: u32), rest)"
    by (intro GetVarint_loop_Encode64) simp_all
  also have "ucast (ucast v :: u64) = v"
    by (rule bit_word_eqI) (simp add: wbits)
  finally show ?thesis
    by (simp add: GetVarint32PtrFallback_def EncodeVarint32_eq_64)
qed

text \<open>The inlined one-byte path of \<open>GetVarint32Ptr\<close> agrees with the loop.\<close>

lemma GetVarint32Ptr_eq_Fallback: "GetVarint32Ptr p = GetVarint32PtrFallback p"
  by (cases p) (simp_all add: GetVarint32Ptr_def GetVarint32PtrFallback_def Let_def
      GetVarint_loop.simps [of 28 0])

lemma GetVarint32_Encode [simp, codec]: "GetVarint32 (EncodeVarint32 v @ rest) = Some (v, rest)"
  by (simp add: GetVarint32_def GetVarint32Ptr_eq_Fallback GetVarint32Fallback_Encode)

lemma GetVarint32_Encode_self [simp, codec]: "GetVarint32 (EncodeVarint32 v) = Some (v, [])"
  using GetVarint32_Encode [of v "[]"] by simp

lemma GetVarint64_Encode [simp, codec]: "GetVarint64 (EncodeVarint64 v @ rest) = Some (v, rest)"
proof -
  have "7 * (length (EncodeVarint64 v) - 1) \<le> 63"
    using EncodeVarint64_len_max [of v] by simp
  then have "GetVarint_loop 63 0 0 (EncodeVarint64 v @ rest)
      = Some (0 OR push_bit 0 (ucast v :: u64), rest)"
    by (intro GetVarint_loop_Encode64) simp_all
  then show ?thesis by (simp add: GetVarint64_def GetVarint64Ptr_def)
qed

lemma GetVarint64_Encode_self [simp, codec]: "GetVarint64 (EncodeVarint64 v) = Some (v, [])"
  using GetVarint64_Encode [of v "[]"] by simp

text \<open>A parse consumes at least one byte and never reads past its bound.\<close>

lemma GetVarint_loop_consumes:
  "GetVarint_loop m s r p = Some (v, rest) \<Longrightarrow>
   \<exists>pre. p = pre @ rest \<and> pre \<noteq> [] \<and> 7 * (length pre - 1) + s \<le> m"
proof (induction m s r p rule: GetVarint_loop.induct)
  case (1 m s r p)
  from "1.prems" have le: "s \<le> m" by (subst (asm) GetVarint_loop.simps) (simp split: if_splits)
  obtain b p' where p: "p = b # p'"
    using "1.prems" le by (subst (asm) GetVarint_loop.simps) (auto split: list.splits)
  show ?case
  proof (cases "(ucast b :: 'a word) AND 128 = 0")
    case True
    then show ?thesis using "1.prems" le p
      by (intro exI [of _ "[b]"]) (simp add: GetVarint_loop.simps [of m s] Let_def)
  next
    case False
    then have rec: "GetVarint_loop m (s + 7) (r OR push_bit s (ucast b AND 127)) p' = Some (v, rest)"
      using "1.prems" le p by (simp add: GetVarint_loop.simps [of m s] Let_def)
    from "1.IH" [OF le p refl _ rec] False obtain pre where
      "p' = pre @ rest" "pre \<noteq> []" "7 * (length pre - 1) + (s + 7) \<le> m" by auto
    then show ?thesis using p by (intro exI [of _ "b # pre"]) (cases pre; simp)
  qed
qed

lemma GetVarint32_consumes:
  "GetVarint32 p = Some (v, rest) \<Longrightarrow> \<exists>pre. p = pre @ rest \<and> pre \<noteq> [] \<and> length pre \<le> 5"
  unfolding GetVarint32_def GetVarint32Ptr_eq_Fallback GetVarint32PtrFallback_def
  by (drule GetVarint_loop_consumes) auto

lemma GetVarint64_consumes:
  "GetVarint64 p = Some (v, rest) \<Longrightarrow> \<exists>pre. p = pre @ rest \<and> pre \<noteq> [] \<and> length pre \<le> 10"
  unfolding GetVarint64_def GetVarint64Ptr_def by (drule GetVarint_loop_consumes) auto

lemma GetVarint32_shorter: "GetVarint32 p = Some (v, rest) \<Longrightarrow> length rest < length p"
  by (drule GetVarint32_consumes) auto

lemma GetVarint64_shorter: "GetVarint64 p = Some (v, rest) \<Longrightarrow> length rest < length p"
  by (drule GetVarint64_consumes) auto

lemma GetVarint_Nil [simp]: "GetVarint32 [] = None" "GetVarint64 [] = None"
  by (simp_all add: GetVarint32_def GetVarint32Ptr_def GetVarint32PtrFallback_def
      GetVarint64_def GetVarint64Ptr_def GetVarint_loop.simps)

section \<open>Length-prefixed slices\<close>

text \<open>
  \<open>PutVarint32\<close> truncates the size to 32 bits, so only slices below 4 GB are recovered.
\<close>

lemma GetLengthPrefixedSlice_Put [codec]:
  "length value < 2 ^ 32 \<Longrightarrow>
   GetLengthPrefixedSlice (PutLengthPrefixedSlice [] value @ rest) = Some (value, rest)"
  by (simp add: GetLengthPrefixedSlice_def PutLengthPrefixedSlice_def PutVarint32_def
      word_of_nat_less_iff_bound)

lemma PutLengthPrefixedSlice_append:
  "PutLengthPrefixedSlice dst value = dst @ PutLengthPrefixedSlice [] value"
  by (simp add: PutLengthPrefixedSlice_def PutVarint32_def)

lemma GetLengthPrefixedSlice_shorter:
  "GetLengthPrefixedSlice p = Some (v, rest) \<Longrightarrow> length v + length rest < length p"
  by (auto simp: GetLengthPrefixedSlice_def split: option.splits prod.splits if_splits
      dest!: GetVarint32_shorter)

lemma GetLengthPrefixedSlice_Nil [simp]: "GetLengthPrefixedSlice [] = None"
  by (simp add: GetLengthPrefixedSlice_def)

end
