(* ===== verification/HashBloom.thy ===== *)
theory HashBloom
  imports Coding
begin

text \<open>
  \<open>util/hash.cpp\<close> and \<open>util/bloom.cpp\<close>: the murmur-like 32-bit hash and the Bloom filter
  built on it, with the contract every filter policy has to keep
  (\<open>include/leveldb/filter_policy.h\<close>) as the locale \<open>filter_policy\<close>. \<open>size_t\<close> is 32 bits
  wide: \<open>jni/Application.mk\<close> builds for \<open>armeabi\<close>.
\<close>

section \<open>Hash\<close>

fun Hash_blocks :: "bytes \<Rightarrow> u32 \<Rightarrow> u32 \<times> bytes" where
  "Hash_blocks (b0 # b1 # b2 # b3 # data) h =
     (let w = DecodeFixed32 [b0, b1, b2, b3];
          h = h + w;
          h = h * 0xc6a4a793;
          h = h XOR drop_bit 16 h
      in Hash_blocks data h)"
| "Hash_blocks data h = (h, data)"

text \<open>The switch on the remaining bytes falls through from 3 to 2 to 1.\<close>

definition Hash_tail :: "bytes \<Rightarrow> u32 \<Rightarrow> u32" where
  "Hash_tail data h =
     (let h = (if length data = 3 then h + push_bit 16 (ucast (data ! 2)) else h);
          h = (if length data \<ge> 2 then h + push_bit 8 (ucast (data ! 1)) else h)
      in if length data \<ge> 1
         then let h = h + ucast (data ! 0);
                  h = h * 0xc6a4a793
              in h XOR drop_bit 24 h
         else h)"

definition Hash :: "bytes \<Rightarrow> u32 \<Rightarrow> u32" where
  "Hash data seed =
     (let h = seed XOR (word_of_nat (length data) * 0xc6a4a793);
          (h, rest) = Hash_blocks data h
      in Hash_tail rest h)"

lemma Hash_blocks_rest: "length (snd (Hash_blocks data h)) < 4"
  by (induction data h rule: Hash_blocks.induct) (simp_all add: Let_def)

section \<open>The contract of a filter policy\<close>

record filter_policy =
  fp_name :: string
  CreateFilter :: "bytes list \<Rightarrow> bytes \<Rightarrow> bytes"
  KeyMayMatch :: "bytes \<Rightarrow> bytes \<Rightarrow> bool"

text \<open>
  \<open>CreateFilter\<close> only appends to \<open>dst\<close>, and a key it was given matches the part it
  appended. \<open>fits\<close> bounds the key lists for which the sizes do not wrap around.
\<close>

locale filter_policy_laws =
  fixes policy :: filter_policy and fits :: "bytes list \<Rightarrow> bool"
  assumes create_appends: "CreateFilter policy keys dst = dst @ CreateFilter policy keys []"
    and no_false_negative:
      "fits keys \<Longrightarrow> k \<in> set keys \<Longrightarrow> KeyMayMatch policy k (CreateFilter policy keys [])"
begin

lemma match_after_create:
  "fits keys \<Longrightarrow> k \<in> set keys \<Longrightarrow>
   KeyMayMatch policy k (drop (length dst) (CreateFilter policy keys dst))"
  by (subst create_appends) (simp add: no_false_negative)

end

section \<open>The Bloom filter\<close>

definition BloomHash :: "bytes \<Rightarrow> u32" where
  "BloomHash key = Hash key 0xbc9f1d34"

text \<open>
  \<open>static_cast<size_t>(bits_per_key * 0.69)\<close>, clipped to 1..30. The product is at least
  0.01 away from an integer for the inputs below 44, the only ones the clipping keeps.
\<close>

definition bloom_k :: "nat \<Rightarrow> nat" where
  "bloom_k bits_per_key =
     (let k = bits_per_key * 69 div 100;
          k = (if k < 1 then 1 else k)
      in if k > 30 then 30 else k)"

definition bloom_delta :: "u32 \<Rightarrow> u32" where
  "bloom_delta h = drop_bit 17 h OR push_bit 15 h"

fun bloom_set_probes :: "nat \<Rightarrow> nat \<Rightarrow> u32 \<Rightarrow> u32 \<Rightarrow> bytes \<Rightarrow> bytes" where
  "bloom_set_probes 0 bits delta h array = array"
| "bloom_set_probes (Suc j) bits delta h array =
     (let bitpos = unat h mod bits;
          array = array[bitpos div 8 := array ! (bitpos div 8) OR push_bit (bitpos mod 8) 1]
      in bloom_set_probes j bits delta (h + delta) array)"

fun bloom_add_keys :: "nat \<Rightarrow> nat \<Rightarrow> bytes list \<Rightarrow> bytes \<Rightarrow> bytes" where
  "bloom_add_keys k bits [] array = array"
| "bloom_add_keys k bits (key # keys) array =
     (let h = BloomHash key; delta = bloom_delta h
      in bloom_add_keys k bits keys (bloom_set_probes k bits delta h array))"

definition bloom_bytes :: "nat \<Rightarrow> nat \<Rightarrow> nat" where
  "bloom_bytes bits_per_key n =
     (let bits = n * bits_per_key mod 2 ^ 32;
          bits = (if bits < 64 then 64 else bits)
      in (bits + 7) mod 2 ^ 32 div 8)"

definition Bloom_CreateFilter :: "nat \<Rightarrow> bytes list \<Rightarrow> bytes \<Rightarrow> bytes" where
  "Bloom_CreateFilter bits_per_key keys dst =
     (let bytes = bloom_bytes bits_per_key (length keys);
          bits = bytes * 8;
          k = bloom_k bits_per_key;
          array = replicate bytes 0 @ [word_of_nat k]
      in dst @ bloom_add_keys k bits keys array)"

fun bloom_test_probes :: "nat \<Rightarrow> nat \<Rightarrow> u32 \<Rightarrow> u32 \<Rightarrow> bytes \<Rightarrow> bool" where
  "bloom_test_probes 0 bits delta h array = True"
| "bloom_test_probes (Suc j) bits delta h array =
     (let bitpos = unat h mod bits
      in if array ! (bitpos div 8) AND push_bit (bitpos mod 8) 1 = 0 then False
         else bloom_test_probes j bits delta (h + delta) array)"

definition Bloom_KeyMayMatch :: "bytes \<Rightarrow> bytes \<Rightarrow> bool" where
  "Bloom_KeyMayMatch key bloom_filter =
     (let len = length bloom_filter
      in if len < 2 then False
         else let bits = (len - 1) * 8; k = unat (bloom_filter ! (len - 1))
              in if k > 30 then True
                 else let h = BloomHash key
                      in bloom_test_probes k bits (bloom_delta h) h bloom_filter)"

definition NewBloomFilterPolicy :: "nat \<Rightarrow> filter_policy" where
  "NewBloomFilterPolicy bits_per_key =
     \<lparr>fp_name = ''leveldb.BuiltinBloomFilter2'',
      CreateFilter = Bloom_CreateFilter bits_per_key,
      KeyMayMatch = Bloom_KeyMayMatch\<rparr>"

section \<open>Bits are only ever set\<close>

definition bits_le :: "bytes \<Rightarrow> bytes \<Rightarrow> bool" where
  "bits_le a b \<longleftrightarrow> length a = length b \<and> (\<forall>i j. i < length a \<longrightarrow> bit (a ! i) j \<longrightarrow> bit (b ! i) j)"

lemma bits_le_refl [simp]: "bits_le a a"
  by (simp add: bits_le_def)

lemma bits_le_trans: "bits_le a b \<Longrightarrow> bits_le b c \<Longrightarrow> bits_le a c"
  by (simp add: bits_le_def)

lemma bits_le_set: "bits_le a (a[i := a ! i OR w])"
  unfolding bits_le_def
proof (intro conjI allI impI)
  fix n j assume "n < length a" "bit (a ! n) j"
  then show "bit (a[i := a ! i OR w] ! n) j"
    by (cases "n = i") (simp_all add: bit_or_iff)
qed simp

lemma bloom_set_probes_le: "bits_le a (bloom_set_probes k bits delta h a)"
proof (induction k arbitrary: h a)
  case (Suc k)
  show ?case
    unfolding bloom_set_probes.simps Let_def by (rule bits_le_trans [OF bits_le_set Suc.IH])
qed simp

lemma bloom_add_keys_le: "bits_le a (bloom_add_keys k bits keys a)"
  by (induction keys arbitrary: a)
    (auto simp: Let_def intro: bits_le_trans [OF bloom_set_probes_le])

lemma test_bit_eq: "(w :: byte) AND 2 ^ n = 0 \<longleftrightarrow> \<not> bit w n" if "n < 8"
proof
  assume "w AND 2 ^ n = 0"
  then have "\<not> bit (w AND 2 ^ n) n" by simp
  then show "\<not> bit w n" using that by (simp add: bit_and_iff bit_exp_iff)
next
  assume "\<not> bit w n"
  then show "w AND 2 ^ n = 0"
    by (intro bit_word_eqI) (auto simp: bit_and_iff bit_exp_iff)
qed

lemma bloom_test_mono:
  assumes "bits_le a b" "0 < bits" "bits \<le> 8 * length a"
    and "bloom_test_probes k bits delta h a"
  shows "bloom_test_probes k bits delta h b"
  using assms(4)
proof (induction k arbitrary: h)
  case (Suc k)
  have "unat h mod bits div 8 < length a"
    using assms(2,3) by (simp add: less_mult_imp_div_less less_le_trans [OF mod_less_divisor] mult.commute)
  then show ?case
    using Suc assms(1) by (auto simp: Let_def test_bit_eq bits_le_def split: if_splits)
qed simp

lemma bloom_set_then_test:
  assumes "0 < bits" "bits \<le> 8 * length a"
  shows "bloom_test_probes k bits delta h (bloom_set_probes k bits delta h a)"
  using assms(2)
proof (induction k arbitrary: h a)
  case (Suc k)
  let ?p = "unat h mod bits"
  let ?a = "a[?p div 8 := a ! (?p div 8) OR push_bit (?p mod 8) 1]"
  let ?b = "bloom_set_probes k bits delta (h + delta) ?a"
  have p: "?p div 8 < length a"
    using assms(1) Suc.prems
    by (simp add: less_mult_imp_div_less less_le_trans [OF mod_less_divisor] mult.commute)
  have "bit (?a ! (?p div 8)) (?p mod 8)"
    using p by (simp add: bit_or_iff bit_exp_iff)
  then have "bit (?b ! (?p div 8)) (?p mod 8)"
    using p bloom_set_probes_le [of ?a k bits delta "h + delta"] by (simp add: bits_le_def)
  moreover have "bloom_test_probes k bits delta (h + delta) ?b"
    by (rule Suc.IH) (simp add: Suc.prems)
  ultimately show ?case by (simp add: Let_def test_bit_eq)
qed simp

lemma bloom_add_keys_test:
  "key \<in> set keys \<Longrightarrow> 0 < bits \<Longrightarrow> bits \<le> 8 * length a \<Longrightarrow>
   bloom_test_probes k bits (bloom_delta (BloomHash key)) (BloomHash key) (bloom_add_keys k bits keys a)"
proof (induction keys arbitrary: a)
  case (Cons x keys)
  have len: "length (bloom_set_probes k bits delta h a) = length a" for delta h
    using bloom_set_probes_le [of a] by (simp add: bits_le_def)
  show ?case
  proof (cases "key = x")
    case True
    show ?thesis
      using Cons.prems True len
      by (auto simp: Let_def intro!: bloom_test_mono [OF bloom_add_keys_le] bloom_set_then_test)
  next
    case False
    then show ?thesis using Cons len by (simp add: Let_def)
  qed
qed simp

text \<open>The trailing probe count is never overwritten: every bit position is below it.\<close>

lemma bloom_set_probes_snoc:
  "0 < bits \<Longrightarrow> bits \<le> 8 * length a \<Longrightarrow>
   bloom_set_probes k bits delta h (a @ [c]) = bloom_set_probes k bits delta h a @ [c]"
proof (induction k arbitrary: h a)
  case (Suc k)
  have "unat h mod bits div 8 < length a"
    using Suc.prems by (simp add: less_mult_imp_div_less less_le_trans [OF mod_less_divisor] mult.commute)
  then show ?case using Suc by (simp add: Let_def list_update_append nth_append)
qed simp

lemma bloom_add_keys_snoc:
  "0 < bits \<Longrightarrow> bits \<le> 8 * length a \<Longrightarrow>
   bloom_add_keys k bits keys (a @ [c]) = bloom_add_keys k bits keys a @ [c]"
proof (induction keys arbitrary: a)
  case (Cons x keys)
  have len: "length (bloom_set_probes k bits delta h a) = length a" for delta h
    using bloom_set_probes_le [of a] by (simp add: bits_le_def)
  show ?case using Cons len by (simp add: Let_def bloom_set_probes_snoc)
qed simp

lemma bloom_k_bounds: "1 \<le> bloom_k b \<and> bloom_k b \<le> 30"
  by (simp add: bloom_k_def Let_def)

definition bloom_fits :: "nat \<Rightarrow> bytes list \<Rightarrow> bool" where
  "bloom_fits bits_per_key keys \<longleftrightarrow> length keys * bits_per_key < 2 ^ 32 - 7"

lemma bloom_bytes_bounds:
  "bloom_fits b keys \<Longrightarrow> 8 \<le> bloom_bytes b (length keys)"
  unfolding bloom_fits_def bloom_bytes_def Let_def by (simp, arith)

interpretation bloom: filter_policy_laws "NewBloomFilterPolicy b" "bloom_fits b" for b
proof
  fix keys dst
  show "CreateFilter (NewBloomFilterPolicy b) keys dst =
      dst @ CreateFilter (NewBloomFilterPolicy b) keys []"
    by (simp add: NewBloomFilterPolicy_def Bloom_CreateFilter_def Let_def)
next
  fix keys and k :: bytes
  assume fits: "bloom_fits b keys" and mem: "k \<in> set keys"
  let ?n = "bloom_bytes b (length keys)" and ?k = "bloom_k b"
  let ?a = "bloom_add_keys ?k (?n * 8) keys (replicate ?n 0)"
  have n: "8 \<le> ?n" using fits by (rule bloom_bytes_bounds)
  have f: "CreateFilter (NewBloomFilterPolicy b) keys [] = ?a @ [word_of_nat ?k]"
    using n by (simp add: NewBloomFilterPolicy_def Bloom_CreateFilter_def Let_def bloom_add_keys_snoc)
  have len: "length ?a = ?n"
    using bloom_add_keys_le [of "replicate ?n 0"] by (simp add: bits_le_def)
  have test: "bloom_test_probes ?k (?n * 8) (bloom_delta (BloomHash k)) (BloomHash k)
      (bloom_add_keys ?k (?n * 8) keys (replicate ?n 0 @ [word_of_nat ?k]))"
    using n mem by (intro bloom_add_keys_test) auto
  have k: "unat (word_of_nat ?k :: byte) = ?k"
    using bloom_k_bounds [of b] by (intro word_of_nat_less_iff_bound) simp
  have "Bloom_KeyMayMatch k (?a @ [word_of_nat ?k])"
    using test n len k bloom_k_bounds [of b]
    by (simp add: Bloom_KeyMayMatch_def Let_def nth_append bloom_add_keys_snoc)
  then show "KeyMayMatch (NewBloomFilterPolicy b) k (CreateFilter (NewBloomFilterPolicy b) keys [])"
    unfolding f by (simp add: NewBloomFilterPolicy_def)
qed

end
