(* ===== verification/FilterBlock.thy ===== *)
theory FilterBlock
  imports HashBloom
begin

text \<open>
  \<open>table/filter_block.cpp\<close>: the filter block of a table, one filter for every 2 KB range of
  data-block offsets. The builder keeps the pending keys flattened in one string with their
  start positions, as the code does; the policy is the record the code's pointer refers to.
\<close>

section \<open>The builder\<close>

definition kFilterBaseLg :: nat where
  "kFilterBaseLg = 11"

definition kFilterBase :: nat where
  "kFilterBase = 2 ^ kFilterBaseLg"

record filter_block_builder =
  fb_keys :: bytes
  fb_start :: "nat list"
  fb_result :: bytes
  fb_filter_offsets :: "u32 list"

definition FilterBlockBuilder_new :: filter_block_builder where
  "FilterBlockBuilder_new =
     \<lparr>fb_keys = [], fb_start = [], fb_result = [], fb_filter_offsets = []\<rparr>"

text \<open>The slices that \<open>GenerateFilter\<close> cuts out of the flattened keys.\<close>

definition tmp_keys :: "bytes \<Rightarrow> nat list \<Rightarrow> bytes list" where
  "tmp_keys keys start =
     (let start' = start @ [length keys]
      in map (\<lambda>i. take (start' ! (i + 1) - start' ! i) (drop (start' ! i) keys)) [0..<length start])"

definition GenerateFilter :: "filter_policy \<Rightarrow> filter_block_builder \<Rightarrow> filter_block_builder" where
  "GenerateFilter policy b =
     (if fb_start b = [] then
        b\<lparr>fb_filter_offsets := fb_filter_offsets b @ [word_of_nat (length (fb_result b))]\<rparr>
      else
        b\<lparr>fb_filter_offsets := fb_filter_offsets b @ [word_of_nat (length (fb_result b))],
          fb_result := CreateFilter policy (tmp_keys (fb_keys b) (fb_start b)) (fb_result b),
          fb_keys := [], fb_start := []\<rparr>)"

function StartBlock_loop :: "filter_policy \<Rightarrow> nat \<Rightarrow> filter_block_builder \<Rightarrow> filter_block_builder" where
  "StartBlock_loop policy filter_index b =
     (if filter_index > length (fb_filter_offsets b)
      then StartBlock_loop policy filter_index (GenerateFilter policy b)
      else b)"
  by pat_completeness auto
termination
  by (relation "measure (\<lambda>(p, i, b). i - length (fb_filter_offsets b))")
    (auto simp: GenerateFilter_def)

declare StartBlock_loop.simps [simp del]

definition StartBlock :: "filter_policy \<Rightarrow> u64 \<Rightarrow> filter_block_builder \<Rightarrow> filter_block_builder" where
  "StartBlock policy block_offset b = StartBlock_loop policy (unat block_offset div kFilterBase) b"

definition AddKey :: "bytes \<Rightarrow> filter_block_builder \<Rightarrow> filter_block_builder" where
  "AddKey key b = b\<lparr>fb_start := fb_start b @ [length (fb_keys b)], fb_keys := fb_keys b @ key\<rparr>"

definition FilterBlock_Finish :: "filter_policy \<Rightarrow> filter_block_builder \<Rightarrow> bytes" where
  "FilterBlock_Finish policy b =
     (let b = (if fb_start b \<noteq> [] then GenerateFilter policy b else b);
          array_offset = word_of_nat (length (fb_result b));
          result = foldl PutFixed32 (fb_result b) (fb_filter_offsets b);
          result = PutFixed32 result array_offset
      in result @ [word_of_nat kFilterBaseLg])"

section \<open>The reader\<close>

record filter_block_reader =
  fr_data :: bytes
  fr_offset :: nat
  fr_num :: nat
  fr_base_lg :: nat

text \<open>A malformed block leaves \<open>num_\<close> at zero, so that every key may match.\<close>

definition FilterBlockReader_new :: "bytes \<Rightarrow> filter_block_reader" where
  "FilterBlockReader_new contents =
     (let n = length contents; none = \<lparr>fr_data = [], fr_offset = 0, fr_num = 0, fr_base_lg = 0\<rparr>
      in if n < 5 then none
         else
           let base_lg = unat (contents ! (n - 1));
               last_word = unat (DecodeFixed32 (drop (n - 5) contents))
           in if last_word > n - 5 then none\<lparr>fr_base_lg := base_lg\<rparr>
              else \<lparr>fr_data = contents, fr_offset = last_word, fr_num = (n - 5 - last_word) div 4,
                    fr_base_lg = base_lg\<rparr>)"

definition FilterBlock_KeyMayMatch ::
  "filter_policy \<Rightarrow> filter_block_reader \<Rightarrow> u64 \<Rightarrow> bytes \<Rightarrow> bool" where
  "FilterBlock_KeyMayMatch policy r block_offset key =
     (let index = unat (drop_bit (fr_base_lg r) block_offset)
      in if index < fr_num r then
           let start = unat (DecodeFixed32 (drop (fr_offset r + index * 4) (fr_data r)));
               limit = unat (DecodeFixed32 (drop (fr_offset r + index * 4 + 4) (fr_data r)))
           in if start \<le> limit \<and> limit \<le> fr_offset r then
                KeyMayMatch policy key (take (limit - start) (drop start (fr_data r)))
              else if start = limit then False
              else True
         else True)"

section \<open>A table's use of the builder\<close>

text \<open>
  The call sequence \<open>(StartBlock AddKey*)* Finish\<close> of the header comment, as
  \<open>TableBuilder\<close> makes it: a list of data-block offsets with the keys of each block.
\<close>

definition fb_block :: "filter_policy \<Rightarrow> filter_block_builder \<Rightarrow> u64 \<times> bytes list \<Rightarrow> filter_block_builder" where
  "fb_block policy b blk = foldl (\<lambda>b k. AddKey k b) (StartBlock policy (fst blk) b) (snd blk)"

definition fb_blocks :: "filter_policy \<Rightarrow> (u64 \<times> bytes list) list \<Rightarrow> filter_block_builder" where
  "fb_blocks policy blks = foldl (fb_block policy) FilterBlockBuilder_new blks"

subsection \<open>The flattened keys\<close>

fun starts_from :: "nat \<Rightarrow> bytes list \<Rightarrow> nat list" where
  "starts_from n [] = []"
| "starts_from n (k # ks) = n # starts_from (n + length k) ks"

lemma length_starts_from [simp]: "length (starts_from n ks) = length ks"
  by (induction ks arbitrary: n) simp_all

lemma starts_from_snoc: "starts_from n (ks @ [k]) = starts_from n ks @ [n + length (concat ks)]"
  by (induction ks arbitrary: n) simp_all

lemma starts_from_nth:
  "i \<le> length ks \<Longrightarrow>
   (starts_from n ks @ [n + length (concat ks)]) ! i = n + length (concat (take i ks))"
proof (induction ks arbitrary: n i)
  case (Cons k ks)
  show ?case
  proof (cases i)
    case (Suc j)
    then show ?thesis using Cons.IH [of j "n + length k"] Cons.prems by (simp add: add.assoc)
  qed simp
qed simp

lemma tmp_keys_flat: "tmp_keys (concat ks) (starts_from 0 ks) = ks"
proof (rule nth_equalityI)
  show "length (tmp_keys (concat ks) (starts_from 0 ks)) = length ks"
    by (simp add: tmp_keys_def Let_def)
next
  fix i assume "i < length (tmp_keys (concat ks) (starts_from 0 ks))"
  then have i: "i < length ks" by (simp add: tmp_keys_def Let_def)
  have "concat ks = concat (take i ks) @ ks ! i @ concat (drop (Suc i) ks)"
    using i by (metis concat_append concat.simps(2) id_take_nth_drop)
  moreover have "concat (take (Suc i) ks) = concat (take i ks) @ ks ! i"
    using i by (simp add: take_Suc_conv_app_nth)
  ultimately show "tmp_keys (concat ks) (starts_from 0 ks) ! i = ks ! i"
    using i starts_from_nth [of i ks 0] starts_from_nth [of "Suc i" ks 0]
    by (simp add: tmp_keys_def Let_def)
qed

subsection \<open>The builder's invariant\<close>

text \<open>
  \<open>G\<close> lists the key groups whose filters are in the result, \<open>P\<close> the pending keys.
\<close>

definition filter_image :: "filter_policy \<Rightarrow> bytes list \<Rightarrow> bytes" where
  "filter_image policy g = (if g = [] then [] else CreateFilter policy g [])"

definition filter_pos :: "filter_policy \<Rightarrow> bytes list list \<Rightarrow> nat \<Rightarrow> nat" where
  "filter_pos policy G i = length (concat (map (filter_image policy) (take i G)))"

definition fb_inv :: "filter_policy \<Rightarrow> filter_block_builder \<Rightarrow> bytes list list \<Rightarrow> bytes list \<Rightarrow> bool" where
  "fb_inv policy b G P \<longleftrightarrow>
     fb_keys b = concat P \<and> fb_start b = starts_from 0 P \<and>
     fb_result b = concat (map (filter_image policy) G) \<and>
     fb_filter_offsets b = map (\<lambda>i. word_of_nat (filter_pos policy G i)) [0..<length G]"

definition fb_index :: "u64 \<times> bytes list \<Rightarrow> nat" where
  "fb_index blk = unat (fst blk) div kFilterBase"

definition fb_covers :: "bytes list list \<Rightarrow> bytes list \<Rightarrow> u64 \<times> bytes list \<Rightarrow> bool" where
  "fb_covers G P blk \<longleftrightarrow>
     fb_index blk \<le> length G \<and> set (snd blk) \<subseteq> set ((G @ [P]) ! fb_index blk)"

definition fb_run_inv :: "filter_policy \<Rightarrow> (u64 \<times> bytes list) list \<Rightarrow> bytes list list \<Rightarrow> bytes list \<Rightarrow> bool" where
  "fb_run_inv policy blks G P \<longleftrightarrow>
     fb_inv policy (fb_blocks policy blks) G P \<and>
     concat (G @ [P]) = concat (map snd blks) \<and>
     list_all (fb_covers G P) blks \<and>
     length G = (if blks = [] then 0 else fb_index (last blks))"

lemma fb_inv_AddKey: "fb_inv policy b G P \<Longrightarrow> fb_inv policy (AddKey k b) G (P @ [k])"
  by (simp add: fb_inv_def AddKey_def starts_from_snoc)

lemma fb_inv_AddKeys:
  "fb_inv policy b G P \<Longrightarrow> fb_inv policy (foldl (\<lambda>b k. AddKey k b) b ks) G (P @ ks)"
proof (induction ks arbitrary: b P)
  case (Cons k ks)
  from Cons.IH [OF fb_inv_AddKey [OF Cons.prems]] show ?case by simp
qed simp

context filter_policy_laws
begin

lemma Generate_inv: "fb_inv policy b G P \<Longrightarrow> fb_inv policy (GenerateFilter policy b) (G @ [P]) []"
proof -
  assume inv: "fb_inv policy b G P"
  have pos: "filter_pos policy (G @ [P]) i = filter_pos policy G i" if "i \<le> length G" for i
    using that by (simp add: filter_pos_def)
  have len: "length (fb_result b) = filter_pos policy G (length G)"
    using inv by (simp add: fb_inv_def filter_pos_def)
  have offs: "fb_filter_offsets b @ [word_of_nat (length (fb_result b))]
      = map (\<lambda>i. word_of_nat (filter_pos policy (G @ [P]) i)) [0..<length (G @ [P])]"
    unfolding len using inv pos by (simp add: fb_inv_def)
  show ?thesis
  proof (cases "P = []")
    case True
    then show ?thesis using inv offs
      by (simp add: fb_inv_def GenerateFilter_def filter_image_def)
  next
    case False
    then have "fb_start b \<noteq> []" using inv by (cases P) (simp_all add: fb_inv_def)
    moreover have "CreateFilter policy (tmp_keys (fb_keys b) (fb_start b)) (fb_result b)
        = fb_result b @ filter_image policy P"
      using inv False by (subst create_appends) (simp add: fb_inv_def tmp_keys_flat filter_image_def)
    ultimately show ?thesis using inv offs
      by (simp add: fb_inv_def GenerateFilter_def)
  qed
qed

lemma StartBlock_loop_inv:
  "fb_inv policy b G P \<Longrightarrow> length G \<le> i \<Longrightarrow>
   \<exists>G' P'. fb_inv policy (StartBlock_loop policy i b) G' P' \<and> length G' = i \<and>
     concat (G' @ [P']) = concat (G @ [P]) \<and>
     (\<forall>j. j \<le> length G \<longrightarrow> (G' @ [P']) ! j = (G @ [P]) ! j)"
proof (induction "i - length G" arbitrary: b G P)
  case 0
  then have "\<not> i > length (fb_filter_offsets b)" by (simp add: fb_inv_def)
  then show ?case using 0 by (intro exI [of _ G] exI [of _ P]) (simp add: StartBlock_loop.simps [of policy "length G" b])
next
  case (Suc n)
  then have lt: "i > length (fb_filter_offsets b)" and n: "n = i - length (G @ [P])"
    by (simp_all add: fb_inv_def)
  have le: "length (G @ [P]) \<le> i" using Suc.hyps(2) by simp
  from Suc.hyps(1) [OF n Generate_inv [OF Suc.prems(1)] le]
  obtain G' P' where IH: "fb_inv policy (StartBlock_loop policy i (GenerateFilter policy b)) G' P'"
    "length G' = i" "concat (G' @ [P']) = concat ((G @ [P]) @ [[]])"
    "\<And>j. j \<le> length (G @ [P]) \<Longrightarrow> (G' @ [P']) ! j = ((G @ [P]) @ [[]]) ! j"
    by auto
  have "(G' @ [P']) ! j = (G @ [P]) ! j" if "j \<le> length G" for j
    using IH(4) [of j] that by (simp add: nth_append)
  then show ?case
    using IH lt by (intro exI [of _ G'] exI [of _ P']) (simp add: StartBlock_loop.simps [of policy i b])
qed

lemma fb_blocks_inv:
  "sorted (map fb_index blks) \<Longrightarrow> \<exists>G P. fb_run_inv policy blks G P"
proof (induction blks rule: rev_induct)
  case Nil
  show ?case
    by (intro exI [of _ "[]"]) (simp add: fb_run_inv_def fb_blocks_def fb_inv_def FilterBlockBuilder_new_def)
next
  case (snoc blk blks)
  then obtain G P where inv: "fb_run_inv policy blks G P" by (auto simp: sorted_append)
  have le: "length G \<le> fb_index blk"
    using inv snoc.prems by (auto simp: fb_run_inv_def sorted_append)
  from inv have "fb_inv policy (fb_blocks policy blks) G P" by (simp add: fb_run_inv_def)
  from StartBlock_loop_inv [OF this le] obtain G' P' where
    G': "fb_inv policy (StartBlock policy (fst blk) (fb_blocks policy blks)) G' P'"
      "length G' = fb_index blk" "concat (G' @ [P']) = concat (G @ [P])"
      "\<And>j. j \<le> length G \<Longrightarrow> (G' @ [P']) ! j = (G @ [P]) ! j"
    by (auto simp: StartBlock_def fb_index_def)
  have new: "fb_inv policy (fb_blocks policy (blks @ [blk])) G' (P' @ snd blk)"
    using fb_inv_AddKeys [OF G'(1)] by (simp add: fb_blocks_def fb_block_def)
  have keep: "set ((G' @ [P']) ! j) \<subseteq> set ((G' @ [P' @ snd blk]) ! j)" if "j \<le> length G'" for j
    using that by (cases "j = length G'") (auto simp: nth_append)
  have "fb_covers G' (P' @ snd blk) b" if "fb_covers G P b" for b
    using that G'(4) [of "fb_index b"] keep [of "fb_index b"] le G'(2)
    by (auto simp: fb_covers_def)
  moreover have "fb_covers G' (P' @ snd blk) blk"
    using G'(2) by (simp add: fb_covers_def nth_append)
  ultimately have "list_all (fb_covers G' (P' @ snd blk)) (blks @ [blk])"
    using inv by (auto simp: fb_run_inv_def list_all_iff)
  then have "fb_run_inv policy (blks @ [blk]) G' (P' @ snd blk)"
    using new G'(2,3) inv by (simp add: fb_run_inv_def)
  then show ?case by blast
qed

lemma fb_finish_inv:
  assumes "fb_inv policy b G P"
  shows "\<exists>b' H. FilterBlock_Finish policy b = PutFixed32 (foldl PutFixed32 (fb_result b') (fb_filter_offsets b'))
      (word_of_nat (length (fb_result b'))) @ [word_of_nat kFilterBaseLg] \<and>
    fb_inv policy b' H [] \<and> H = (if P = [] then G else G @ [P])"
proof (cases "P = []")
  case True
  then have "fb_start b = []" using assms by (simp add: fb_inv_def)
  then show ?thesis using assms True
    by (intro exI [of _ b] exI [of _ G]) (simp add: FilterBlock_Finish_def Let_def)
next
  case False
  then have "fb_start b \<noteq> []" using assms by (cases P) (simp_all add: fb_inv_def)
  then show ?thesis using False Generate_inv [OF assms]
    by (intro exI [of _ "GenerateFilter policy b"] exI [of _ "G @ [P]"]) (simp add: FilterBlock_Finish_def Let_def)
qed

end

subsection \<open>The layout of the finished block\<close>

lemma foldl_PutFixed32: "foldl PutFixed32 r vs = r @ concat (map EncodeFixed32 vs)"
  by (induction vs arbitrary: r) (simp_all add: PutFixed32_def)

lemma length_concat_Fixed32 [simp]: "length (concat (map EncodeFixed32 vs)) = 4 * length vs"
  by (induction vs) simp_all

lemma drop_concat_Fixed32:
  "i \<le> length vs \<Longrightarrow> drop (4 * i) (concat (map EncodeFixed32 vs) @ rest) = concat (map EncodeFixed32 (drop i vs)) @ rest"
proof (induction i arbitrary: vs)
  case (Suc i)
  then obtain v vs' where vs: "vs = v # vs'" by (cases vs) auto
  have "drop (4 + 4 * i) (EncodeFixed32 v @ concat (map EncodeFixed32 vs') @ rest)
      = drop (4 * i) (concat (map EncodeFixed32 vs') @ rest)"
    by (subst drop_drop [symmetric, of "4 * i" 4, unfolded add.commute [of "4 * i"]]) simp
  then show ?case using Suc vs by simp
qed simp

text \<open>
  Reading entry \<open>i\<close> of the offset array; entry \<open>length vs\<close> is the array offset itself, which
  serves as the limit of the last filter.
\<close>

lemma DecodeFixed32_array:
  assumes "i \<le> length vs"
  shows "DecodeFixed32 (drop (length r + i * 4) (r @ concat (map EncodeFixed32 vs) @ EncodeFixed32 w @ rest))
    = (vs @ [w]) ! i"
proof -
  have "drop (length r + i * 4) (r @ concat (map EncodeFixed32 vs) @ EncodeFixed32 w @ rest)
      = concat (map EncodeFixed32 (drop i vs)) @ EncodeFixed32 w @ rest"
    using drop_concat_Fixed32 [OF assms, of "EncodeFixed32 w @ rest"] by (simp add: mult.commute)
  moreover have "drop i vs = vs ! i # drop (Suc i) vs" if "i < length vs"
    using that by (simp add: Cons_nth_drop_Suc)
  ultimately show ?thesis using assms by (cases "i = length vs") (simp_all add: nth_append)
qed

lemma filter_pos_le: "i \<le> j \<Longrightarrow> filter_pos policy G i \<le> filter_pos policy G j"
proof -
  assume "i \<le> j"
  then have "take j G = take i G @ take (j - i) (drop i G)"
    by (metis le_add_diff_inverse take_add)
  then show ?thesis by (simp add: filter_pos_def)
qed

lemma filter_pos_slice:
  assumes "i < length G"
  shows "take (filter_pos policy G (Suc i) - filter_pos policy G i)
      (drop (filter_pos policy G i) (concat (map (filter_image policy) G) @ rest)) = filter_image policy (G ! i)"
proof -
  have "map (filter_image policy) G = map (filter_image policy) (take i G) @ filter_image policy (G ! i) #
      map (filter_image policy) (drop (Suc i) G)"
    using assms by (metis id_take_nth_drop list.simps(9) map_append)
  then show ?thesis
    using assms by (simp add: filter_pos_def take_Suc_conv_app_nth)
qed

locale filter_policy_bounded = filter_policy_laws +
  assumes fits_length: "fits keys \<Longrightarrow> length ks \<le> length keys \<Longrightarrow> fits ks"
begin

lemma reader_match:
  assumes inv: "fb_inv policy b G []"
    and contents: "contents = PutFixed32 (foldl PutFixed32 (fb_result b) (fb_filter_offsets b))
      (word_of_nat (length (fb_result b))) @ [word_of_nat kFilterBaseLg]"
    and small: "length contents < 2 ^ 32"
    and fits: "\<And>g. g \<in> set G \<Longrightarrow> fits g"
    and idx: "unat off div kFilterBase < length G" and mem: "k \<in> set (G ! (unat off div kFilterBase))"
  shows "FilterBlock_KeyMayMatch policy (FilterBlockReader_new contents) off k"
proof -
  let ?i = "unat off div kFilterBase" and ?r = "concat (map (filter_image policy) G)"
  let ?pos = "filter_pos policy G"
  let ?vs = "map (\<lambda>i. word_of_nat (?pos i)) [0..<length G] :: u32 list"
  let ?w = "word_of_nat (length ?r) :: u32"
  have c: "contents = ?r @ concat (map EncodeFixed32 ?vs) @ EncodeFixed32 ?w @ [word_of_nat kFilterBaseLg]"
    using inv unfolding contents by (simp add: fb_inv_def foldl_PutFixed32 PutFixed32_def)
  have len: "length contents = length ?r + 4 * length G + 5" unfolding c by (simp del: map_map)
  have r_small: "length ?r < 2 ^ 32" using small len by simp
  have pos_last: "?pos (length G) = length ?r" by (simp add: filter_pos_def)
  have pos_small: "unat (word_of_nat (?pos j) :: u32) = ?pos j" if "j \<le> length G" for j
    using filter_pos_le [OF that, of policy G] r_small pos_last
    by (intro word_of_nat_less_iff_bound) simp
  have arr: "DecodeFixed32 (drop (length ?r + j * 4) contents) = word_of_nat (?pos j)" if "j \<le> length G" for j
    using that DecodeFixed32_array [of j ?vs ?r ?w "[word_of_nat kFilterBaseLg]"] pos_last
    by (cases "j = length G") (simp_all add: c nth_append)
  have last: "DecodeFixed32 (drop (length contents - 5) contents) = ?w"
    using arr [of "length G"] pos_last len by (simp add: mult.commute)
  have w: "unat ?w = length ?r" using r_small by (intro word_of_nat_less_iff_bound) simp
  have base: "contents ! (length contents - 1) = word_of_nat kFilterBaseLg"
    by (simp add: c nth_append)
  have rd: "FilterBlockReader_new contents =
      \<lparr>fr_data = contents, fr_offset = length ?r, fr_num = length G, fr_base_lg = 11\<rparr>"
    using len last w base by (simp add: FilterBlockReader_new_def Let_def kFilterBaseLg_def)
  have index: "unat (drop_bit 11 off) = ?i"
    by (simp only: unat_drop_bit_eq) (simp add: drop_bit_eq_div kFilterBase_def kFilterBaseLg_def)
  have slice: "take (?pos (Suc ?i) - ?pos ?i) (drop (?pos ?i) contents) = filter_image policy (G ! ?i)"
    unfolding c by (rule filter_pos_slice [OF idx])
  have le: "?pos ?i \<le> ?pos (Suc ?i)" "?pos (Suc ?i) \<le> length ?r"
    using idx filter_pos_le [of ?i "Suc ?i" policy G] filter_pos_le [of "Suc ?i" "length G" policy G] pos_last
    by simp_all
  have "KeyMayMatch policy k (filter_image policy (G ! ?i))"
    using mem no_false_negative [OF fits [OF nth_mem [OF idx]] mem]
    by (auto simp: filter_image_def)
  then show ?thesis
    using idx le slice arr [of ?i] arr [of "Suc ?i"] pos_small [of ?i] pos_small [of "Suc ?i"]
    unfolding FilterBlock_KeyMayMatch_def Let_def rd
    by (simp add: index add.commute add.left_commute)
qed

lemma filter_block_no_false_negative:
  assumes sorted: "sorted (map fb_index blks)" and blk: "(off, keys) \<in> set blks" and key: "k \<in> set keys"
    and fits: "fits (concat (map snd blks))"
    and small: "length (FilterBlock_Finish policy (fb_blocks policy blks)) < 2 ^ 32"
  shows "FilterBlock_KeyMayMatch policy
      (FilterBlockReader_new (FilterBlock_Finish policy (fb_blocks policy blks))) off k"
proof -
  from fb_blocks_inv [OF sorted] obtain G P where run: "fb_run_inv policy blks G P" by blast
  then have inv: "fb_inv policy (fb_blocks policy blks) G P" by (simp add: fb_run_inv_def)
  from fb_finish_inv [OF inv] obtain b' H where fin:
    "FilterBlock_Finish policy (fb_blocks policy blks) =
       PutFixed32 (foldl PutFixed32 (fb_result b') (fb_filter_offsets b'))
         (word_of_nat (length (fb_result b'))) @ [word_of_nat kFilterBaseLg]"
    "fb_inv policy b' H []" "H = (if P = [] then G else G @ [P])" by blast
  have cov: "fb_covers G P (off, keys)" using run blk by (auto simp: fb_run_inv_def list_all_iff)
  then have i: "unat off div kFilterBase \<le> length G" and
    mem: "k \<in> set ((G @ [P]) ! (unat off div kFilterBase))"
    using key by (auto simp: fb_covers_def fb_index_def)
  have H: "unat off div kFilterBase < length H" "k \<in> set (H ! (unat off div kFilterBase))"
    using i mem fin(3) by (cases "unat off div kFilterBase = length G"; auto simp: nth_append)+
  have fit: "fits g" if "g \<in> set H" for g
  proof -
    have "g \<in> set (G @ [P])" using that fin(3) by (auto split: if_splits)
    then obtain xs ys where "G @ [P] = xs @ g # ys" by (meson split_list)
    then have "length g \<le> length (concat (G @ [P]))" by simp
    moreover have "concat (G @ [P]) = concat (map snd blks)" using run by (simp only: fb_run_inv_def)
    ultimately show ?thesis using fits_length [OF fits] by metis
  qed
  show ?thesis
    by (rule reader_match [OF fin(2) fin(1) small fit H])
qed

end

text \<open>The built-in policy meets the contract, so its filter blocks never lose a key.\<close>

interpretation bloom_block: filter_policy_bounded "NewBloomFilterPolicy b" "bloom_fits b" for b
  by unfold_locales (auto simp: bloom_fits_def intro: le_less_trans mult_le_mono1)

lemma length_Bloom_CreateFilter:
  "length (CreateFilter (NewBloomFilterPolicy b) keys dst) = length dst + bloom_bytes b (length keys) + 1"
proof -
  have "length (CreateFilter (NewBloomFilterPolicy b) keys []) = bloom_bytes b (length keys) + 1"
    using bloom_add_keys_le [of "replicate (bloom_bytes b (length keys)) 0 @ [word_of_nat (bloom_k b)]"]
    by (simp add: NewBloomFilterPolicy_def Bloom_CreateFilter_def Let_def bits_le_def)
  then show ?thesis by (subst bloom.create_appends) simp
qed

end
