(* ===== verification/ComparatorSpec.thy ===== *)
theory ComparatorSpec
  imports Prelude
begin

text \<open>
  \<open>include/leveldb/comparator.h\<close>, \<open>include/leveldb/slice.h\<close> and \<open>util/comparator.cpp\<close>: the key
  order. The locale states what the rest of the code relies on for any comparator; the
  bytewise comparator, the default of \<open>Options\<close>, is shown to provide it.
\<close>

section \<open>The comparator interface\<close>

record comparator =
  cmp_Name :: string
  Compare :: "bytes \<Rightarrow> bytes \<Rightarrow> int"
  FindShortestSeparator :: "bytes \<Rightarrow> bytes \<Rightarrow> bytes"
  FindShortSuccessor :: "bytes \<Rightarrow> bytes"

text \<open>
  \<open>ok\<close> is the set of keys the comparator is used on: every key for a user comparator, keys of
  at least eight bytes for the internal one.
\<close>

locale comparator_laws =
  fixes cmp :: comparator and ok :: "bytes \<Rightarrow> bool"
  assumes compare_refl: "ok a \<Longrightarrow> Compare cmp a a = 0"
    and compare_eq: "ok a \<Longrightarrow> ok b \<Longrightarrow> Compare cmp a b = 0 \<Longrightarrow> a = b"
    and compare_flip: "ok a \<Longrightarrow> ok b \<Longrightarrow> (Compare cmp b a > 0) = (Compare cmp a b < 0)"
    and compare_trans: "ok a \<Longrightarrow> ok b \<Longrightarrow> ok c \<Longrightarrow>
      Compare cmp a b < 0 \<Longrightarrow> Compare cmp b c < 0 \<Longrightarrow> Compare cmp a c < 0"
    and separator_ok: "ok start \<Longrightarrow> ok limit \<Longrightarrow> ok (FindShortestSeparator cmp start limit)"
    and separator_range: "ok start \<Longrightarrow> ok limit \<Longrightarrow> Compare cmp start limit < 0 \<Longrightarrow>
      Compare cmp start (FindShortestSeparator cmp start limit) \<le> 0 \<and>
      Compare cmp (FindShortestSeparator cmp start limit) limit < 0"
    and separator_noop: "ok start \<Longrightarrow> ok limit \<Longrightarrow> \<not> Compare cmp start limit < 0 \<Longrightarrow>
      FindShortestSeparator cmp start limit = start"
    and successor_ok: "ok key \<Longrightarrow> ok (FindShortSuccessor cmp key)"
    and successor_range: "ok key \<Longrightarrow> Compare cmp key (FindShortSuccessor cmp key) \<le> 0"
begin

lemma compare_eq_iff: "ok a \<Longrightarrow> ok b \<Longrightarrow> Compare cmp a b = 0 \<longleftrightarrow> a = b"
  using compare_refl compare_eq by blast

lemma compare_pos: "ok a \<Longrightarrow> ok b \<Longrightarrow> Compare cmp a b > 0 \<longleftrightarrow> Compare cmp b a < 0"
  using compare_flip by blast

lemma compare_cases:
  assumes "ok a" "ok b"
  obtains (less) "Compare cmp a b < 0" | (equal) "a = b" | (greater) "Compare cmp b a < 0"
  using assms compare_eq compare_pos by (metis linorder_neqE)

lemma compare_le_trans:
  "ok a \<Longrightarrow> ok b \<Longrightarrow> ok c \<Longrightarrow> Compare cmp a b \<le> 0 \<Longrightarrow> Compare cmp b c \<le> 0 \<Longrightarrow> Compare cmp a c \<le> 0"
  using compare_trans compare_eq by (metis order_le_less)

lemma compare_le_less_trans:
  "ok a \<Longrightarrow> ok b \<Longrightarrow> ok c \<Longrightarrow> Compare cmp a b \<le> 0 \<Longrightarrow> Compare cmp b c < 0 \<Longrightarrow> Compare cmp a c < 0"
  using compare_trans compare_eq by (metis order_le_less)

lemma compare_less_le_trans:
  "ok a \<Longrightarrow> ok b \<Longrightarrow> ok c \<Longrightarrow> Compare cmp a b < 0 \<Longrightarrow> Compare cmp b c \<le> 0 \<Longrightarrow> Compare cmp a c < 0"
  using compare_trans compare_eq by (metis order_le_less)

lemma compare_le_or_less: "ok a \<Longrightarrow> ok b \<Longrightarrow> (\<not> Compare cmp a b < 0) = (Compare cmp b a \<le> 0)"
  using compare_flip compare_eq_iff by (metis linorder_not_less order_le_less)

end

section \<open>Slice comparison\<close>

text \<open>\<open>memcmp\<close> on two regions of equal length: the sign at the first differing byte.\<close>

fun memcmp :: "bytes \<Rightarrow> bytes \<Rightarrow> int" where
  "memcmp (a # as) (b # bs) = (if a < b then -1 else if a > b then 1 else memcmp as bs)"
| "memcmp _ _ = 0"

definition Slice_compare :: "bytes \<Rightarrow> bytes \<Rightarrow> int" where
  "Slice_compare a b =
     (let min_len = (if length a < length b then length a else length b);
          r = memcmp (take min_len a) (take min_len b)
      in if r = 0 then (if length a < length b then -1 else if length a > length b then 1 else 0)
         else r)"

lemma Slice_compare_Nil [simp]:
  "Slice_compare [] [] = 0" "Slice_compare [] (b # bs) = -1" "Slice_compare (a # as) [] = 1"
  by (simp_all add: Slice_compare_def)

lemma Slice_compare_Cons [simp]:
  "Slice_compare (a # as) (b # bs) = (if a < b then -1 else if a > b then 1 else Slice_compare as bs)"
  by (simp add: Slice_compare_def Let_def)

section \<open>The bytewise comparator\<close>

text \<open>The loop that finds the length of the common prefix.\<close>

fun diff_index :: "bytes \<Rightarrow> bytes \<Rightarrow> nat" where
  "diff_index (a # as) (b # bs) = (if a = b then Suc (diff_index as bs) else 0)"
| "diff_index _ _ = 0"

definition Bytewise_FindShortestSeparator :: "bytes \<Rightarrow> bytes \<Rightarrow> bytes" where
  "Bytewise_FindShortestSeparator start limit =
     (let min_length = min (length start) (length limit); diff = diff_index start limit
      in if diff \<ge> min_length then start
         else
           let diff_byte = start ! diff
           in if diff_byte < 0xff \<and> unat diff_byte + 1 < unat (limit ! diff)
              then take (diff + 1) (start[diff := start ! diff + 1])
              else start)"

fun Bytewise_FindShortSuccessor :: "bytes \<Rightarrow> bytes" where
  "Bytewise_FindShortSuccessor [] = []"
| "Bytewise_FindShortSuccessor (byte # key) =
     (if byte \<noteq> 0xff then [byte + 1] else byte # Bytewise_FindShortSuccessor key)"

definition BytewiseComparator :: comparator where
  "BytewiseComparator =
     \<lparr>cmp_Name = ''leveldb.BytewiseComparator'', Compare = Slice_compare,
      FindShortestSeparator = Bytewise_FindShortestSeparator,
      FindShortSuccessor = Bytewise_FindShortSuccessor\<rparr>"

lemma BytewiseComparator_simps [simp]:
  "Compare BytewiseComparator = Slice_compare"
  "FindShortestSeparator BytewiseComparator = Bytewise_FindShortestSeparator"
  "FindShortSuccessor BytewiseComparator = Bytewise_FindShortSuccessor"
  by (simp_all add: BytewiseComparator_def)

lemma Slice_compare_refl [simp]: "Slice_compare a a = 0"
  by (induction a) simp_all

lemma Slice_compare_Nil_iff:
  "Slice_compare [] b = (if b = [] then 0 else -1)" "Slice_compare a [] = (if a = [] then 0 else 1)"
  by (cases b; simp) (cases a; simp)

lemma Slice_compare_eq: "Slice_compare a b = 0 \<Longrightarrow> a = b"
  by (induction a b rule: diff_index.induct) (auto simp: Slice_compare_Nil_iff split: if_splits)

lemma Slice_compare_uminus: "Slice_compare b a = - Slice_compare a b"
  by (induction a b rule: diff_index.induct) (auto simp: Slice_compare_Nil_iff)

lemma Slice_compare_trans: "Slice_compare a b < 0 \<Longrightarrow> Slice_compare b c < 0 \<Longrightarrow> Slice_compare a c < 0"
proof (induction a c arbitrary: b rule: diff_index.induct)
  case (1 x xs z zs)
  then obtain y ys where b: "b = y # ys" by (cases b) auto
  show ?case
    using 1 unfolding b by (auto split: if_splits)
qed (auto simp: Slice_compare_Nil_iff split: if_splits)

lemma Bytewise_separator_Cons:
  "Bytewise_FindShortestSeparator (a # as) (b # bs) =
     (if a = b then a # Bytewise_FindShortestSeparator as bs
      else if a < 0xff \<and> unat a + 1 < unat b then [a + 1] else a # as)"
  by (simp add: Bytewise_FindShortestSeparator_def Let_def)

lemma Bytewise_separator_Nil [simp]:
  "Bytewise_FindShortestSeparator [] b = []" "Bytewise_FindShortestSeparator a [] = a"
  by (simp_all add: Bytewise_FindShortestSeparator_def Let_def)

lemma byte_Suc: "(a :: byte) < 0xff \<Longrightarrow> unat (a + 1) = unat a + 1"
  by (simp add: unat_plus_if' word_less_nat_alt)

lemma Bytewise_separator_range:
  "Slice_compare start limit < 0 \<Longrightarrow>
   Slice_compare start (Bytewise_FindShortestSeparator start limit) \<le> 0 \<and>
   Slice_compare (Bytewise_FindShortestSeparator start limit) limit < 0"
  by (induction start limit rule: diff_index.induct)
    (auto simp: Bytewise_separator_Cons byte_Suc word_less_nat_alt split: if_splits)

lemma Bytewise_separator_noop:
  "\<not> Slice_compare start limit < 0 \<Longrightarrow> Bytewise_FindShortestSeparator start limit = start"
  by (induction start limit rule: diff_index.induct)
    (auto simp: Bytewise_separator_Cons word_less_nat_alt split: if_splits)

lemma byte_not_max: "(b :: byte) \<noteq> 0xff \<Longrightarrow> b < 0xff"
proof -
  assume "b \<noteq> 0xff"
  then have "unat b \<noteq> unat (0xff :: byte)" unfolding word_unat_eq_iff .
  then show "b < 0xff" using unat_lt [of b] by (simp add: word_less_nat_alt)
qed

lemma Bytewise_successor_range: "Slice_compare key (Bytewise_FindShortSuccessor key) \<le> 0"
  by (induction key) (auto simp: word_less_nat_alt byte_Suc [OF byte_not_max])

interpretation bytewise: comparator_laws BytewiseComparator "\<lambda>_. True"
proof
  show "Compare BytewiseComparator a b = 0 \<Longrightarrow> a = b" for a b
    by (simp add: Slice_compare_eq)
  show "(Compare BytewiseComparator b a > 0) = (Compare BytewiseComparator a b < 0)" for a b
    using Slice_compare_uminus [of b a] by simp
  show "Compare BytewiseComparator a b < 0 \<Longrightarrow> Compare BytewiseComparator b c < 0 \<Longrightarrow>
      Compare BytewiseComparator a c < 0" for a b c
    using Slice_compare_trans by simp
qed (simp_all add: Bytewise_separator_range Bytewise_separator_noop Bytewise_successor_range)

text \<open>The separator and the successor never get longer.\<close>

lemma Bytewise_separator_length:
  "length (Bytewise_FindShortestSeparator start limit) \<le> length start"
  by (auto simp: Bytewise_FindShortestSeparator_def Let_def)

lemma Bytewise_successor_length: "length (Bytewise_FindShortSuccessor key) \<le> length key"
  by (induction key) simp_all

end
