(* ===== verification/DbFormat.thy ===== *)
theory DbFormat
  imports FilterBlock ComparatorSpec
begin

text \<open>
  \<open>db/dbformat.h\<close> and \<open>db/dbformat.cpp\<close>: internal keys (a user key followed by a packed
  sequence number and value type), the comparator and the filter policy lifted to them, and the
  lookup key of \<open>Get\<close>.
\<close>

section \<open>Configuration constants\<close>

definition kNumLevels :: nat where "kNumLevels = 7"
definition kL0_CompactionTrigger :: nat where "kL0_CompactionTrigger = 4"
definition kL0_SlowdownWritesTrigger :: nat where "kL0_SlowdownWritesTrigger = 8"
definition kL0_StopWritesTrigger :: nat where "kL0_StopWritesTrigger = 12"
definition kMaxMemCompactLevel :: nat where "kMaxMemCompactLevel = 2"

section \<open>Sequence numbers and value types\<close>

text \<open>
  A \<open>ValueType\<close> is kept as the byte it is cast from: \<open>static_cast<ValueType>\<close> of an
  arbitrary byte is how the code produces values outside the enumeration.
\<close>

type_synonym ValueType = byte
type_synonym SequenceNumber = u64

definition kTypeDeletion :: ValueType where "kTypeDeletion = 0"
definition kTypeValue :: ValueType where "kTypeValue = 1"
definition kValueTypeForSeek :: ValueType where "kValueTypeForSeek = kTypeValue"
definition kMaxSequenceNumber :: SequenceNumber where "kMaxSequenceNumber = push_bit 56 1 - 1"

record ParsedInternalKey =
  pk_user_key :: bytes
  pk_sequence :: SequenceNumber
  pk_type :: ValueType

definition InternalKeyEncodingLength :: "ParsedInternalKey \<Rightarrow> nat" where
  "InternalKeyEncodingLength key = length (pk_user_key key) + 8"

definition PackSequenceAndType :: "u64 \<Rightarrow> ValueType \<Rightarrow> u64" where
  "PackSequenceAndType seq t = push_bit 8 seq OR ucast t"

definition AppendInternalKey :: "bytes \<Rightarrow> ParsedInternalKey \<Rightarrow> bytes" where
  "AppendInternalKey result key =
     PutFixed64 (result @ pk_user_key key) (PackSequenceAndType (pk_sequence key) (pk_type key))"

definition ExtractUserKey :: "bytes \<Rightarrow> bytes" where
  "ExtractUserKey internal_key = take (length internal_key - 8) internal_key"

text \<open>The eight-byte trailer, read by \<open>DecodeFixed64(data + size - 8)\<close>.\<close>

definition ExtractTag :: "bytes \<Rightarrow> u64" where
  "ExtractTag internal_key = DecodeFixed64 (drop (length internal_key - 8) internal_key)"

definition ExtractValueType :: "bytes \<Rightarrow> ValueType" where
  "ExtractValueType internal_key = ucast (ExtractTag internal_key AND 0xff)"

definition ParseInternalKey :: "bytes \<Rightarrow> ParsedInternalKey option" where
  "ParseInternalKey internal_key =
     (let n = length internal_key
      in if n < 8 then None
         else
           let num = ExtractTag internal_key;
               c = ucast (num AND 0xff) :: byte
           in if c \<le> kTypeValue
              then Some \<lparr>pk_user_key = take (n - 8) internal_key, pk_sequence = drop_bit 8 num,
                         pk_type = c\<rparr>
              else None)"

section \<open>The internal key comparator\<close>

definition InternalKey_Compare :: "comparator \<Rightarrow> bytes \<Rightarrow> bytes \<Rightarrow> int" where
  "InternalKey_Compare user akey bkey =
     (let r = Compare user (ExtractUserKey akey) (ExtractUserKey bkey)
      in if r = 0 then
           let anum = ExtractTag akey; bnum = ExtractTag bkey
           in if anum > bnum then -1 else if anum < bnum then 1 else r
         else r)"

definition InternalKey_FindShortestSeparator :: "comparator \<Rightarrow> bytes \<Rightarrow> bytes \<Rightarrow> bytes" where
  "InternalKey_FindShortestSeparator user start limit =
     (let user_start = ExtractUserKey start;
          user_limit = ExtractUserKey limit;
          tmp = FindShortestSeparator user user_start user_limit
      in if length tmp < length user_start \<and> Compare user user_start tmp < 0
         then PutFixed64 tmp (PackSequenceAndType kMaxSequenceNumber kValueTypeForSeek)
         else start)"

definition InternalKey_FindShortSuccessor :: "comparator \<Rightarrow> bytes \<Rightarrow> bytes" where
  "InternalKey_FindShortSuccessor user key =
     (let user_key = ExtractUserKey key;
          tmp = FindShortSuccessor user user_key
      in if length tmp < length user_key \<and> Compare user user_key tmp < 0
         then PutFixed64 tmp (PackSequenceAndType kMaxSequenceNumber kValueTypeForSeek)
         else key)"

definition InternalKeyComparator :: "comparator \<Rightarrow> comparator" where
  "InternalKeyComparator user =
     \<lparr>cmp_Name = ''leveldb.InternalKeyComparator'', Compare = InternalKey_Compare user,
      FindShortestSeparator = InternalKey_FindShortestSeparator user,
      FindShortSuccessor = InternalKey_FindShortSuccessor user\<rparr>"

section \<open>The internal filter policy\<close>

definition InternalFilterPolicy :: "filter_policy \<Rightarrow> filter_policy" where
  "InternalFilterPolicy user =
     \<lparr>fp_name = fp_name user,
      CreateFilter = (\<lambda>keys dst. CreateFilter user (map ExtractUserKey keys) dst),
      KeyMayMatch = (\<lambda>key f. KeyMayMatch user (ExtractUserKey key) f)\<rparr>"

section \<open>Lookup keys\<close>

text \<open>\<open>start_\<close> to \<open>end_\<close> is the memtable key, \<open>kstart_\<close> to \<open>end_\<close> the internal key.\<close>

record LookupKey =
  lk_start :: bytes
  lk_kstart :: bytes

definition LookupKey_new :: "bytes \<Rightarrow> SequenceNumber \<Rightarrow> LookupKey" where
  "LookupKey_new user_key s =
     (let dst = EncodeVarint32 (word_of_nat (length user_key + 8));
          k = user_key @ EncodeFixed64 (PackSequenceAndType s kValueTypeForSeek)
      in \<lparr>lk_start = dst @ k, lk_kstart = k\<rparr>)"

definition lk_memtable_key :: "LookupKey \<Rightarrow> bytes" where
  "lk_memtable_key k = lk_start k"

definition lk_internal_key :: "LookupKey \<Rightarrow> bytes" where
  "lk_internal_key k = lk_kstart k"

definition lk_user_key :: "LookupKey \<Rightarrow> bytes" where
  "lk_user_key k = take (length (lk_kstart k) - 8) (lk_kstart k)"

section \<open>Packing\<close>

definition ikey :: "bytes \<Rightarrow> SequenceNumber \<Rightarrow> ValueType \<Rightarrow> bytes" where
  "ikey user_key s t = AppendInternalKey [] \<lparr>pk_user_key = user_key, pk_sequence = s, pk_type = t\<rparr>"

lemma ikey_eq: "ikey u s t = u @ EncodeFixed64 (PackSequenceAndType s t)"
  by (simp add: ikey_def AppendInternalKey_def PutFixed64_def)

lemma length_ikey [simp, lens]: "length (ikey u s t) = length u + 8"
  by (simp add: ikey_eq)

lemma ExtractUserKey_ikey [simp]: "ExtractUserKey (ikey u s t) = u"
  by (simp add: ikey_eq ExtractUserKey_def)

lemma ExtractTag_ikey [simp]: "ExtractTag (ikey u s t) = PackSequenceAndType s t"
  by (simp add: ikey_eq ExtractTag_def)

lemma ExtractUserKey_append_tag [simp]: "ExtractUserKey (u @ EncodeFixed64 w) = u"
  by (simp add: ExtractUserKey_def)

lemma ExtractTag_append_tag [simp]: "ExtractTag (u @ EncodeFixed64 w) = w"
  by (simp add: ExtractTag_def)

lemma kMaxSequenceNumber_mask: "kMaxSequenceNumber = mask 56"
  by (simp add: kMaxSequenceNumber_def mask_eq_exp_minus_1)

lemma seq_bits: "s \<le> kMaxSequenceNumber \<Longrightarrow> bit s n \<Longrightarrow> n < 56"
proof -
  assume s: "s \<le> kMaxSequenceNumber" and b: "bit s n"
  have "s < 2 ^ 56"
    using s by (simp add: kMaxSequenceNumber_def word_le_nat_alt word_less_nat_alt)
  from less_mask_eq [OF this] b show "n < 56" by (metis bit_and_iff bit_mask_iff)
qed

lemma drop_bit_Pack: "s \<le> kMaxSequenceNumber \<Longrightarrow> drop_bit 8 (PackSequenceAndType s t) = s"
  by (rule bit_word_eqI)
    (auto simp: PackSequenceAndType_def bit_drop_bit_eq bit_or_iff bit_push_bit_iff bit_ucast_of_byte
      dest: seq_bits)

lemma ucast_Pack: "(ucast (PackSequenceAndType s t) :: byte) = t"
  by (rule bit_word_eqI)
    (auto simp: PackSequenceAndType_def bit_ucast_iff bit_or_iff bit_push_bit_iff)

lemma Pack_inject:
  "s \<le> kMaxSequenceNumber \<Longrightarrow> s' \<le> kMaxSequenceNumber \<Longrightarrow>
   PackSequenceAndType s t = PackSequenceAndType s' t' \<longleftrightarrow> s = s' \<and> t = t'"
  by (metis drop_bit_Pack ucast_Pack)

lemma unat_Pack: "s \<le> kMaxSequenceNumber \<Longrightarrow> unat (PackSequenceAndType s t) = unat s * 256 + unat t"
proof -
  assume s: "s \<le> kMaxSequenceNumber"
  let ?p = "PackSequenceAndType s t"
  have "unat ?p = unat ?p div 256 * 256 + unat ?p mod 256" by simp
  moreover have "unat ?p div 256 = unat s"
  proof -
    have "unat (drop_bit 8 ?p) = unat ?p div 256"
      by (simp only: unat_drop_bit_eq) (simp add: drop_bit_eq_div)
    then show ?thesis using drop_bit_Pack [OF s] by simp
  qed
  moreover have "unat ?p mod 256 = unat t"
  proof -
    have "unat (ucast ?p :: byte) = unat ?p mod 256"
      by (simp add: unsigned_ucast_eq take_bit_eq_mod)
    then show ?thesis using ucast_Pack by metis
  qed
  ultimately show ?thesis by simp
qed

lemma ParseInternalKey_ikey [simp, codec]:
  "s \<le> kMaxSequenceNumber \<Longrightarrow> t \<le> kTypeValue \<Longrightarrow>
   ParseInternalKey (ikey u s t) = Some \<lparr>pk_user_key = u, pk_sequence = s, pk_type = t\<rparr>"
  by (simp add: ParseInternalKey_def Let_def drop_bit_Pack ucast_Pack) (simp add: ikey_eq)

text \<open>An internal key is its user key followed by its tag.\<close>

lemma ikey_split: "8 \<le> length k \<Longrightarrow> k = ExtractUserKey k @ EncodeFixed64 (ExtractTag k)"
  by (simp add: ExtractUserKey_def ExtractTag_def EncodeFixed64_Decode)

lemma ikey_eqI:
  "8 \<le> length a \<Longrightarrow> 8 \<le> length b \<Longrightarrow> ExtractUserKey a = ExtractUserKey b \<Longrightarrow>
   ExtractTag a = ExtractTag b \<Longrightarrow> a = b"
  by (metis ikey_split)

section \<open>The internal comparator keeps the comparator contract\<close>

lemma InternalKeyComparator_simps [simp]:
  "Compare (InternalKeyComparator user) = InternalKey_Compare user"
  "FindShortestSeparator (InternalKeyComparator user) = InternalKey_FindShortestSeparator user"
  "FindShortSuccessor (InternalKeyComparator user) = InternalKey_FindShortSuccessor user"
  by (simp_all add: InternalKeyComparator_def)

definition internal_ok :: "(bytes \<Rightarrow> bool) \<Rightarrow> bytes \<Rightarrow> bool" where
  "internal_ok ok k \<longleftrightarrow> 8 \<le> length k \<and> ok (ExtractUserKey k)"

lemma internal_ok_ikey [simp]: "internal_ok ok (ikey u s t) \<longleftrightarrow> ok u"
  by (simp add: internal_ok_def)

lemma internal_ok_append_tag [simp]: "internal_ok ok (u @ EncodeFixed64 w) \<longleftrightarrow> ok u"
  by (simp add: internal_ok_def)

context comparator_laws
begin

lemma InternalKey_Compare_less:
  "internal_ok ok a \<Longrightarrow> internal_ok ok b \<Longrightarrow>
   InternalKey_Compare cmp a b < 0 \<longleftrightarrow>
     Compare cmp (ExtractUserKey a) (ExtractUserKey b) < 0 \<or>
     (ExtractUserKey a = ExtractUserKey b \<and> ExtractTag b < ExtractTag a)"
  using compare_eq_iff [of "ExtractUserKey a" "ExtractUserKey b"]
  by (auto simp: InternalKey_Compare_def Let_def internal_ok_def)

lemma InternalKey_Compare_eq:
  assumes "internal_ok ok a" "internal_ok ok b"
  shows "InternalKey_Compare cmp a b = 0 \<longleftrightarrow> a = b"
proof (cases "Compare cmp (ExtractUserKey a) (ExtractUserKey b) = 0")
  case True
  then have "ExtractUserKey a = ExtractUserKey b"
    using assms compare_eq by (simp add: internal_ok_def)
  then have "ExtractTag a = ExtractTag b \<longleftrightarrow> a = b"
    using assms ikey_eqI [of a b] by (auto simp: internal_ok_def)
  with True show ?thesis by (auto simp: InternalKey_Compare_def Let_def)
next
  case False
  then have "a \<noteq> b" using assms compare_refl by (auto simp: internal_ok_def)
  with False show ?thesis by (simp add: InternalKey_Compare_def Let_def)
qed

lemma InternalKey_Compare_flip:
  assumes "internal_ok ok a" "internal_ok ok b"
  shows "(InternalKey_Compare cmp b a > 0) = (InternalKey_Compare cmp a b < 0)"
proof (cases "ExtractUserKey a = ExtractUserKey b")
  case True
  then show ?thesis using assms compare_refl
    by (auto simp: InternalKey_Compare_def Let_def internal_ok_def)
next
  case False
  then have "Compare cmp (ExtractUserKey a) (ExtractUserKey b) \<noteq> 0"
    "Compare cmp (ExtractUserKey b) (ExtractUserKey a) \<noteq> 0"
    using assms compare_eq by (metis internal_ok_def)+
  then show ?thesis
    using assms compare_flip by (simp add: InternalKey_Compare_def Let_def internal_ok_def)
qed

lemma InternalKey_Compare_refl: "internal_ok ok a \<Longrightarrow> InternalKey_Compare cmp a a = 0"
  by (simp add: InternalKey_Compare_eq)

lemma InternalKey_separator:
  assumes "internal_ok ok start" "internal_ok ok limit"
  shows "internal_ok ok (InternalKey_FindShortestSeparator cmp start limit) \<and>
    (if InternalKey_Compare cmp start limit < 0
     then InternalKey_Compare cmp start (InternalKey_FindShortestSeparator cmp start limit) \<le> 0 \<and>
       InternalKey_Compare cmp (InternalKey_FindShortestSeparator cmp start limit) limit < 0
     else InternalKey_FindShortestSeparator cmp start limit = start)"
proof -
  let ?us = "ExtractUserKey start" and ?ul = "ExtractUserKey limit"
  let ?tmp = "FindShortestSeparator cmp ?us ?ul"
  have ok: "ok ?us" "ok ?ul" using assms by (simp_all add: internal_ok_def)
  show ?thesis
  proof (cases "length ?tmp < length ?us \<and> Compare cmp ?us ?tmp < 0")
    case True
    let ?new = "?tmp @ EncodeFixed64 (PackSequenceAndType kMaxSequenceNumber kValueTypeForSeek)"
    have new: "InternalKey_FindShortestSeparator cmp start limit = ?new"
      using True by (simp add: InternalKey_FindShortestSeparator_def Let_def PutFixed64_def)
    have less: "Compare cmp ?us ?ul < 0"
    proof (rule ccontr)
      assume "\<not> Compare cmp ?us ?ul < 0"
      from separator_noop [OF ok this] True show False by simp
    qed
    have tmp: "ok ?tmp" "Compare cmp ?tmp ?ul < 0"
      using separator_ok [OF ok] separator_range [OF ok less] by simp_all
    have new_ok: "internal_ok ok ?new" using tmp(1) by simp
    show ?thesis
      unfolding new using True tmp less assms new_ok
      by (simp add: InternalKey_Compare_less order_less_imp_le)
  next
    case False
    then have "InternalKey_FindShortestSeparator cmp start limit = start"
      by (auto simp: InternalKey_FindShortestSeparator_def Let_def)
    then show ?thesis using assms by (simp add: InternalKey_Compare_refl)
  qed
qed

lemma InternalKey_successor:
  assumes "internal_ok ok key"
  shows "internal_ok ok (InternalKey_FindShortSuccessor cmp key) \<and>
    InternalKey_Compare cmp key (InternalKey_FindShortSuccessor cmp key) \<le> 0"
proof -
  let ?u = "ExtractUserKey key"
  let ?tmp = "FindShortSuccessor cmp ?u"
  let ?new = "?tmp @ EncodeFixed64 (PackSequenceAndType kMaxSequenceNumber kValueTypeForSeek)"
  have ok: "ok ?u" using assms by (simp add: internal_ok_def)
  then have "ok ?tmp" by (rule successor_ok)
  then have new: "internal_ok ok ?new" by simp
  show ?thesis
  proof (cases "length ?tmp < length ?u \<and> Compare cmp ?u ?tmp < 0")
    case True
    then have "InternalKey_FindShortSuccessor cmp key = ?new"
      by (simp add: InternalKey_FindShortSuccessor_def Let_def PutFixed64_def)
    then show ?thesis
      using True new assms by (simp add: InternalKey_Compare_less order_less_imp_le)
  next
    case False
    then have "InternalKey_FindShortSuccessor cmp key = key"
      by (auto simp: InternalKey_FindShortSuccessor_def Let_def)
    then show ?thesis using assms by (simp add: InternalKey_Compare_refl)
  qed
qed

end

text \<open>
  The locale of a user comparator adds nothing to the contract; it only marks the comparator
  that internal keys are built from, whose internal comparator then keeps the contract as well.
\<close>

locale user_comparator = comparator_laws

sublocale user_comparator \<subseteq> internal: comparator_laws "InternalKeyComparator cmp" "internal_ok ok"
proof unfold_locales
  fix a b c
  assume ok: "internal_ok ok a" "internal_ok ok b" "internal_ok ok c"
    and "Compare (InternalKeyComparator cmp) a b < 0" "Compare (InternalKeyComparator cmp) b c < 0"
  then show "Compare (InternalKeyComparator cmp) a c < 0"
    using compare_trans [of "ExtractUserKey a" "ExtractUserKey b" "ExtractUserKey c"]
    by (auto simp: InternalKey_Compare_less internal_ok_def)
qed (use InternalKey_separator InternalKey_successor in
    \<open>auto simp: InternalKey_Compare_eq InternalKey_Compare_flip split: if_splits\<close>)

text \<open>
  Among the internal keys of one user key the newest comes first, and a lookup key at sequence
  number \<open>s\<close> comes before exactly the entries with a sequence number up to \<open>s\<close>.
\<close>

lemma Pack_less_iff:
  "s \<le> kMaxSequenceNumber \<Longrightarrow> s' \<le> kMaxSequenceNumber \<Longrightarrow>
   PackSequenceAndType s t < PackSequenceAndType s' t' \<longleftrightarrow> s < s' \<or> (s = s' \<and> t < t')"
  using unat_lt [of t] unat_lt [of t']
  by (auto simp: word_less_nat_alt unat_Pack word_unat_eq_iff)

lemma kValueTypeForSeek_max: "t \<le> kTypeValue \<Longrightarrow> t \<le> kValueTypeForSeek"
  by (simp add: kValueTypeForSeek_def)

context user_comparator
begin

lemma lookup_before_entry:
  assumes "ok u" "s \<le> kMaxSequenceNumber" "s' \<le> kMaxSequenceNumber" "t \<le> kTypeValue"
  shows "InternalKey_Compare cmp (ikey u s kValueTypeForSeek) (ikey u s' t) \<le> 0 \<longleftrightarrow> s' \<le> s"
proof -
  have "InternalKey_Compare cmp (ikey u s' t) (ikey u s kValueTypeForSeek) < 0 \<longleftrightarrow> s < s'"
    using assms kValueTypeForSeek_max [OF assms(4)]
    by (auto simp: InternalKey_Compare_less Pack_less_iff compare_refl)
  moreover have "\<not> InternalKey_Compare cmp (ikey u s' t) (ikey u s kValueTypeForSeek) < 0 \<longleftrightarrow>
      InternalKey_Compare cmp (ikey u s kValueTypeForSeek) (ikey u s' t) \<le> 0"
    using internal.compare_le_or_less [of "ikey u s' t" "ikey u s kValueTypeForSeek"] assms(1) by simp
  ultimately show ?thesis by auto
qed

lemma newer_entry_first:
  "ok u \<Longrightarrow> s \<le> kMaxSequenceNumber \<Longrightarrow> s' \<le> kMaxSequenceNumber \<Longrightarrow> s' < s \<Longrightarrow>
   InternalKey_Compare cmp (ikey u s t) (ikey u s' t') < 0"
  by (simp add: InternalKey_Compare_less Pack_less_iff)

lemma other_user_key_order:
  "ok u \<Longrightarrow> ok u' \<Longrightarrow> Compare cmp u u' < 0 \<Longrightarrow>
   InternalKey_Compare cmp (ikey u s t) (ikey u' s' t') < 0"
  by (simp add: InternalKey_Compare_less)

end

section \<open>The internal filter policy keeps the filter contract\<close>

locale user_filter_policy = filter_policy_bounded

sublocale user_filter_policy \<subseteq> internal: filter_policy_bounded "InternalFilterPolicy policy" fits
proof unfold_locales
  fix keys dst
  show "CreateFilter (InternalFilterPolicy policy) keys dst =
      dst @ CreateFilter (InternalFilterPolicy policy) keys []"
    unfolding InternalFilterPolicy_def by (simp add: create_appends [of _ dst])
next
  fix keys and k :: bytes
  assume "fits keys" "k \<in> set keys"
  then show "KeyMayMatch (InternalFilterPolicy policy) k (CreateFilter (InternalFilterPolicy policy) keys [])"
    using fits_length [of keys "map ExtractUserKey keys"]
    by (simp add: InternalFilterPolicy_def no_false_negative)
qed (rule fits_length)

section \<open>The default comparator and the built-in filter policy\<close>

interpretation bytewise_user: user_comparator BytewiseComparator "\<lambda>_. True"
  by unfold_locales

interpretation bloom_user: user_filter_policy "NewBloomFilterPolicy b" "bloom_fits b" for b
  by unfold_locales

section \<open>Lookup keys\<close>

lemma LookupKey_views:
  "lk_internal_key (LookupKey_new u s) = ikey u s kValueTypeForSeek"
  "lk_user_key (LookupKey_new u s) = u"
  "lk_memtable_key (LookupKey_new u s) =
     EncodeVarint32 (word_of_nat (length u + 8)) @ ikey u s kValueTypeForSeek"
  by (simp_all add: LookupKey_new_def Let_def lk_internal_key_def lk_user_key_def lk_memtable_key_def
      ikey_eq)

lemma small_sequence_numbers:
  "(1 :: u64) \<le> kMaxSequenceNumber" "(numeral n :: u64) \<le> kMaxSequenceNumber \<longleftrightarrow> (numeral n :: u64) \<le> 72057594037927935"
  by (simp_all add: kMaxSequenceNumber_def word_le_nat_alt push_bit_eq_mult)

end
