(* ===== verification/EnvFile.thy ===== *)
theory EnvFile
  imports Prelude
begin

text \<open>
  The file objects of \<open>util/env_posix.cpp\<close> over C streams. The answers of the C library are not
  under the program's control: each file carries the list of the coming answers, \<open>None\<close> for a
  call that succeeds in full and \<open>Some r\<close> for one that stops after \<open>r\<close> bytes with an error; past
  the end of the list every call succeeds.
\<close>

type_synonym libc_answers = "nat option list"

record writable_file =
  wf_name :: string
  wf_data :: bytes
  wf_answers :: libc_answers

record sequential_file =
  sf_name :: string
  sf_data :: bytes
  sf_answers :: libc_answers

definition next_answer :: "libc_answers \<Rightarrow> nat option \<times> libc_answers" where
  "next_answer as = (case as of [] \<Rightarrow> (None, []) | a # as' \<Rightarrow> (a, as'))"

text \<open>\<open>PosixWritableFile::Append\<close>: a short \<open>fwrite\<close> leaves its prefix in the file.\<close>

definition wf_Append :: "bytes \<Rightarrow> writable_file \<Rightarrow> status \<times> writable_file" where
  "wf_Append data f =
     (let (a, as) = next_answer (wf_answers f);
          r = (case a of None \<Rightarrow> length data | Some r \<Rightarrow> min r (length data));
          f = f\<lparr>wf_data := wf_data f @ take r data, wf_answers := as\<rparr>
      in if r \<noteq> length data then (IOError (wf_name f), f) else (OK, f))"

definition wf_Flush :: "writable_file \<Rightarrow> status \<times> writable_file" where
  "wf_Flush f =
     (let (a, as) = next_answer (wf_answers f); f = f\<lparr>wf_answers := as\<rparr>
      in if a \<noteq> None then (IOError (wf_name f), f) else (OK, f))"

text \<open>
  \<open>PosixSequentialFile::Read\<close>: a short \<open>fread\<close> at the end of the file is not an error, any
  other short read is. \<open>Skip\<close> is \<open>fseek\<close>, which may move past the end.
\<close>

definition sf_Read :: "nat \<Rightarrow> sequential_file \<Rightarrow> status \<times> bytes \<times> sequential_file" where
  "sf_Read n f =
     (let (a, as) = next_answer (sf_answers f);
          r = (case a of None \<Rightarrow> n | Some r \<Rightarrow> min r n);
          result = take r (sf_data f);
          f = f\<lparr>sf_data := drop r (sf_data f), sf_answers := as\<rparr>
      in if length result < n \<and> a \<noteq> None then (IOError (sf_name f), result, f)
         else (OK, result, f))"

definition sf_Skip :: "nat \<Rightarrow> sequential_file \<Rightarrow> status \<times> sequential_file" where
  "sf_Skip n f =
     (let (a, as) = next_answer (sf_answers f)
      in if a \<noteq> None then (IOError (sf_name f), f\<lparr>sf_answers := as\<rparr>)
         else (OK, f\<lparr>sf_data := drop n (sf_data f), sf_answers := as\<rparr>))"

lemma next_answer_Nil [simp]: "next_answer [] = (None, [])"
  by (simp add: next_answer_def)

lemma wf_Append_ok [simp]:
  "wf_answers f = [] \<Longrightarrow> wf_Append data f = (OK, f\<lparr>wf_data := wf_data f @ data\<rparr>)"
  by (simp add: wf_Append_def)

lemma wf_Flush_ok [simp]: "wf_answers f = [] \<Longrightarrow> wf_Flush f = (OK, f)"
  by (simp add: wf_Flush_def)

lemma sf_Read_ok [simp]:
  "sf_answers f = [] \<Longrightarrow> sf_Read n f = (OK, take n (sf_data f), f\<lparr>sf_data := drop n (sf_data f)\<rparr>)"
  by (simp add: sf_Read_def)

lemma sf_Read_data:
  "sf_Read n f = (s, result, f') \<Longrightarrow> sf_data f = result @ sf_data f' \<and> length result \<le> n"
proof -
  assume a: "sf_Read n f = (s, result, f')"
  obtain x as where n: "next_answer (sf_answers f) = (x, as)" by (cases "next_answer (sf_answers f)")
  define r where "r = (case x of None \<Rightarrow> n | Some r \<Rightarrow> min r n)"
  have "r \<le> n" by (simp add: r_def split: option.split)
  moreover have "result = take r (sf_data f) \<and> sf_data f' = drop r (sf_data f)"
    using a unfolding sf_Read_def n r_def by (simp add: Let_def split: if_splits) auto
  ultimately show ?thesis by simp
qed

end
