(* ===== verification/LogFormat.thy ===== *)
theory LogFormat
  imports EnvFile Coding Crc32c
begin

text \<open>
  \<open>db/log_format.h\<close>, \<open>db/log_writer.cpp\<close> and \<open>db/log_reader.cpp\<close>: the write-ahead log. A log is
  a sequence of 32 KB blocks; a record is cut into fragments that never cross a block boundary,
  each with a seven-byte header (masked checksum, length, type).
\<close>

section \<open>Format\<close>

definition kZeroType :: nat where "kZeroType = 0"
definition kFullType :: nat where "kFullType = 1"
definition kFirstType :: nat where "kFirstType = 2"
definition kMiddleType :: nat where "kMiddleType = 3"
definition kLastType :: nat where "kLastType = 4"
definition kMaxRecordType :: nat where "kMaxRecordType = kLastType"
definition kBlockSize :: nat where "kBlockSize = 32768"
definition kHeaderSize :: nat where "kHeaderSize = 4 + 2 + 1"

section \<open>The writer\<close>

record log_writer =
  lw_dest :: writable_file
  lw_block_offset :: nat

text \<open>\<open>type_crc_\<close>, computed once by \<open>InitTypeCrc\<close>.\<close>

definition type_crc :: "nat \<Rightarrow> u32" where
  "type_crc t = crc_Value 0 [word_of_nat t]"

definition Writer_new :: "writable_file \<Rightarrow> log_writer" where
  "Writer_new dest = \<lparr>lw_dest = dest, lw_block_offset = 0\<rparr>"

definition Writer_new_at :: "writable_file \<Rightarrow> u64 \<Rightarrow> log_writer" where
  "Writer_new_at dest dest_length =
     \<lparr>lw_dest = dest, lw_block_offset = unat dest_length mod kBlockSize\<rparr>"

definition log_header :: "nat \<Rightarrow> bytes \<Rightarrow> bytes" where
  "log_header t data =
     (let n = length data; crc = Mask (Extend 0 (type_crc t) data)
      in EncodeFixed32 crc @ [word_of_nat (n mod 256), word_of_nat (n div 256), word_of_nat t])"

definition EmitPhysicalRecord :: "nat \<Rightarrow> bytes \<Rightarrow> log_writer \<Rightarrow> status \<times> log_writer" where
  "EmitPhysicalRecord t data w =
     (let n = length data;
          (s, f) = wf_Append (log_header t data) (lw_dest w);
          (s, f) = (if status_ok s then
                      let (s, f) = wf_Append data f
                      in if status_ok s then wf_Flush f else (s, f)
                    else (s, f))
      in (s, w\<lparr>lw_dest := f, lw_block_offset := lw_block_offset w + (kHeaderSize + n)\<rparr>))"

text \<open>
  The switch to a new block at the head of the loop: the status of appending the trailer is
  not looked at.
\<close>

definition switch_block :: "log_writer \<Rightarrow> log_writer" where
  "switch_block w =
     (let leftover = kBlockSize - lw_block_offset w
      in if leftover < kHeaderSize
         then (if leftover > 0
               then w\<lparr>lw_dest := snd (wf_Append (replicate leftover 0) (lw_dest w)),
                      lw_block_offset := 0\<rparr>
               else w\<lparr>lw_block_offset := 0\<rparr>)
         else w)"

definition fragment_type :: "bool \<Rightarrow> bool \<Rightarrow> nat" where
  "fragment_type fst_frag last_frag =
     (if fst_frag \<and> last_frag then kFullType else if fst_frag then kFirstType
      else if last_frag then kLastType else kMiddleType)"

lemma switch_block_avail: "kHeaderSize \<le> kBlockSize - lw_block_offset (switch_block w)"
  by (simp add: switch_block_def Let_def kBlockSize_def kHeaderSize_def)

lemma EmitPhysicalRecord_offset:
  "lw_block_offset (snd (EmitPhysicalRecord t data w)) = lw_block_offset w + (kHeaderSize + length data)"
  by (simp add: EmitPhysicalRecord_def Let_def split: prod.split)

function AddRecord_loop :: "bool \<Rightarrow> bytes \<Rightarrow> log_writer \<Rightarrow> status \<times> log_writer" where
  "AddRecord_loop fst_frag ptr w =
     (let w = switch_block w;
          avail = kBlockSize - lw_block_offset w - kHeaderSize;
          fragment_length = (if length ptr < avail then length ptr else avail);
          last_frag = (length ptr = fragment_length);
          (s, w) = EmitPhysicalRecord (fragment_type fst_frag last_frag) (take fragment_length ptr) w;
          ptr = drop fragment_length ptr
      in if status_ok s \<and> length ptr > 0 then AddRecord_loop False ptr w else (s, w))"
  by pat_completeness auto

definition AddRecord_measure :: "bytes \<Rightarrow> log_writer \<Rightarrow> nat" where
  "AddRecord_measure ptr w =
     2 * length ptr + (if lw_block_offset (switch_block w) + kHeaderSize = kBlockSize then 1 else 0)"

termination AddRecord_loop
proof (relation "measure (\<lambda>(b, ptr, w). AddRecord_measure ptr w)", goal_cases)
  case 1
  show ?case by simp
next
  case (2 fst_frag ptr w w1 avail fl fin p s w2 ptr')
  have off: "lw_block_offset w2 = lw_block_offset w1 + (kHeaderSize + length (take fl ptr))"
    using 2(5,6) EmitPhysicalRecord_offset by (metis snd_conv)
  show ?case
  proof (cases "fl = 0")
    case True
    then have "lw_block_offset w1 + kHeaderSize = kBlockSize"
      using 2 switch_block_avail [of w] by (auto simp: kBlockSize_def kHeaderSize_def split: if_splits)
    moreover from this have "lw_block_offset (switch_block w2) = 0"
      using off True by (simp add: switch_block_def Let_def kHeaderSize_def)
    ultimately show ?thesis
      using 2(1,7) True by (simp add: AddRecord_measure_def kBlockSize_def kHeaderSize_def)
  next
    case False
    then have "length ptr' < length ptr" using 2 by (auto split: if_splits)
    then show ?thesis by (simp add: AddRecord_measure_def)
  qed
qed

declare AddRecord_loop.simps [simp del]

definition AddRecord :: "bytes \<Rightarrow> log_writer \<Rightarrow> status \<times> log_writer" where
  "AddRecord data w = AddRecord_loop True data w"

section \<open>The reader\<close>

definition kEof :: nat where "kEof = kMaxRecordType + 1"
definition kBadRecord :: nat where "kBadRecord = kMaxRecordType + 2"

text \<open>\<open>lr_reports\<close> lists the calls of \<open>Reporter::Corruption\<close> in order.\<close>

record log_reader =
  lr_file :: sequential_file
  lr_checksum :: bool
  lr_buffer :: bytes
  lr_eof :: bool
  lr_last_record_offset :: u64
  lr_end_of_buffer_offset :: u64
  lr_initial_offset :: u64
  lr_resyncing :: bool
  lr_reports :: "(nat \<times> status) list"

definition Reader_new :: "sequential_file \<Rightarrow> bool \<Rightarrow> u64 \<Rightarrow> log_reader" where
  "Reader_new file checksum initial_offset =
     \<lparr>lr_file = file, lr_checksum = checksum, lr_buffer = [], lr_eof = False,
      lr_last_record_offset = 0, lr_end_of_buffer_offset = 0,
      lr_initial_offset = initial_offset, lr_resyncing = initial_offset > 0, lr_reports = []\<rparr>"

definition ReportDrop :: "nat \<Rightarrow> status \<Rightarrow> log_reader \<Rightarrow> log_reader" where
  "ReportDrop bytes reason r =
     (if lr_end_of_buffer_offset r - word_of_nat (length (lr_buffer r)) - word_of_nat bytes
           \<ge> lr_initial_offset r
      then r\<lparr>lr_reports := lr_reports r @ [(bytes, reason)]\<rparr>
      else r)"

definition ReportCorruption :: "nat \<Rightarrow> string \<Rightarrow> log_reader \<Rightarrow> log_reader" where
  "ReportCorruption bytes reason r = ReportDrop bytes (Corruption reason) r"

definition SkipToInitialBlock :: "log_reader \<Rightarrow> bool \<times> log_reader" where
  "SkipToInitialBlock r =
     (let offset_in_block = unat (lr_initial_offset r) mod kBlockSize;
          block_start_location = lr_initial_offset r - word_of_nat offset_in_block;
          block_start_location =
            (if offset_in_block > kBlockSize - 6 then block_start_location + word_of_nat kBlockSize
             else block_start_location);
          r = r\<lparr>lr_end_of_buffer_offset := block_start_location\<rparr>
      in if block_start_location > 0 then
           let (skip_status, f) = sf_Skip (unat block_start_location) (lr_file r);
               r = r\<lparr>lr_file := f\<rparr>
           in if \<not> status_ok skip_status
              then (False, ReportDrop (unat block_start_location) skip_status r)
              else (True, r)
         else (True, r))"

text \<open>
  \<open>ReadPhysicalRecord\<close> returns the record type; \<open>result\<close> is the caller's slice, which keeps its
  value on the paths that do not assign it. The loop continues only after reading a block.
\<close>

function ReadPhysicalRecord :: "bytes \<Rightarrow> log_reader \<Rightarrow> nat \<times> bytes \<times> log_reader" where
  "ReadPhysicalRecord result r =
     (if length (lr_buffer r) < kHeaderSize then
        if \<not> lr_eof r then
          let (s, buf, f) = sf_Read kBlockSize (lr_file r);
              r = r\<lparr>lr_buffer := buf, lr_file := f,
                    lr_end_of_buffer_offset := lr_end_of_buffer_offset r + word_of_nat (length buf)\<rparr>
          in if \<not> status_ok s then
               (kEof, result, (ReportDrop kBlockSize s (r\<lparr>lr_buffer := []\<rparr>))\<lparr>lr_eof := True\<rparr>)
             else if length buf < kBlockSize then ReadPhysicalRecord result (r\<lparr>lr_eof := True\<rparr>)
             else ReadPhysicalRecord result r
        else (kEof, result, r\<lparr>lr_buffer := []\<rparr>)
      else
        let header = lr_buffer r;
            a = unat (header ! 4);
            b = unat (header ! 5);
            type = unat (header ! 6);
            len = a + b * 256
        in if kHeaderSize + len > length (lr_buffer r) then
             let drop_size = length (lr_buffer r); r = r\<lparr>lr_buffer := []\<rparr>
             in if \<not> lr_eof r then (kBadRecord, result, ReportCorruption drop_size ''bad record length'' r)
                else (kEof, result, r)
           else if type = kZeroType \<and> len = 0 then (kBadRecord, result, r\<lparr>lr_buffer := []\<rparr>)
           else if lr_checksum r \<and>
               crc_Value 0 (take (1 + len) (drop 6 header)) \<noteq> Unmask (DecodeFixed32 header) then
             (let drop_size = length (lr_buffer r); r = r\<lparr>lr_buffer := []\<rparr>
              in (kBadRecord, result, ReportCorruption drop_size ''checksum mismatch'' r))
           else
             let r = r\<lparr>lr_buffer := drop (kHeaderSize + len) (lr_buffer r)\<rparr>
             in if lr_end_of_buffer_offset r - word_of_nat (length (lr_buffer r))
                     - word_of_nat kHeaderSize - word_of_nat len < lr_initial_offset r
                then (kBadRecord, [], r)
                else (type, take len (drop kHeaderSize header), r))"
  by pat_completeness auto
termination
proof (relation "measure (\<lambda>(res, r). length (sf_data (lr_file r)) + (if lr_eof r then 0 else 1))", goal_cases)
  case (3 result r p s y buf f r')
  then have "sf_data (lr_file r) = buf @ sf_data f"
    using sf_Read_data by metis
  then show ?case using 3 by (auto simp: kBlockSize_def)
next
  case (2 result r p s y buf f r')
  then have "sf_data (lr_file r) = buf @ sf_data f"
    using sf_Read_data by metis
  then show ?case using 2 by auto
qed simp

declare ReadPhysicalRecord.simps [simp del]


definition reader_size :: "log_reader \<Rightarrow> nat" where
  "reader_size r = length (sf_data (lr_file r)) + length (lr_buffer r) + (if lr_eof r then 0 else 1)"

lemma ReportDrop_fields [simp]:
  "lr_buffer (ReportDrop n s r) = lr_buffer r" "lr_file (ReportDrop n s r) = lr_file r"
  "lr_eof (ReportDrop n s r) = lr_eof r" "lr_buffer (ReportCorruption n m r) = lr_buffer r"
  "lr_file (ReportCorruption n m r) = lr_file r" "lr_eof (ReportCorruption n m r) = lr_eof r"
  by (simp_all add: ReportDrop_def ReportCorruption_def)

lemma ReadPhysicalRecord_size:
  "ReadPhysicalRecord result r = (t, frag, r') \<Longrightarrow> t \<noteq> kEof \<Longrightarrow> reader_size r' < reader_size r"
proof (induction result r arbitrary: t frag r' rule: ReadPhysicalRecord.induct)
  case (1 result r)
  show ?case
  proof (cases "length (lr_buffer r) < kHeaderSize")
    case True
    have ne: "\<not> lr_eof r" using 1(3,4) True by (auto simp: ReadPhysicalRecord.simps [of result r])
    obtain s buf f where rd: "sf_Read kBlockSize (lr_file r) = (s, buf, f)" by (metis prod_cases3)
    then have data: "sf_data (lr_file r) = buf @ sf_data f" using sf_Read_data by blast
    define r1 where "r1 = r\<lparr>lr_buffer := buf, lr_file := f,
      lr_end_of_buffer_offset := lr_end_of_buffer_offset r + word_of_nat (length buf)\<rparr>"
    have ok: "status_ok s" using 1(3,4) True ne rd
      by (auto simp: ReadPhysicalRecord.simps [of result r] Let_def split: if_splits)
    show ?thesis
    proof (cases "length buf < kBlockSize")
      case t: True
      have "ReadPhysicalRecord result (r1\<lparr>lr_eof := True\<rparr>) = (t, frag, r')"
        using 1(3) True ne rd ok t by (simp add: ReadPhysicalRecord.simps [of result r] r1_def Let_def)
      then have "reader_size r' < reader_size (r1\<lparr>lr_eof := True\<rparr>)"
        using 1(1) [OF True ne rd [symmetric] refl refl r1_def _ t] ok 1(4) by simp
      then show ?thesis using ne data by (simp add: reader_size_def r1_def)
    next
      case t: False
      have "ReadPhysicalRecord result r1 = (t, frag, r')"
        using 1(3) True ne rd ok t by (simp add: ReadPhysicalRecord.simps [of result r] r1_def Let_def)
      then have "reader_size r' < reader_size r1"
        using 1(2) [OF True ne rd [symmetric] refl refl r1_def _ t] ok 1(4) by simp
      then show ?thesis using ne data by (simp add: reader_size_def r1_def)
    qed
  next
    case False
    then have "lr_buffer r \<noteq> []" by (auto simp: kHeaderSize_def)
    then show ?thesis using 1(3,4) False
      by (auto simp: ReadPhysicalRecord.simps [of result r] Let_def reader_size_def kHeaderSize_def
          split: if_splits)
  qed
qed

text \<open>
  \<open>ReadRecord\<close>. \<open>record\<close> is cleared on entry and assigned only on the paths that return true;
  \<open>frag\<close> is the local \<open>fragment\<close>, which survives from one turn of the loop to the next.
\<close>

function ReadRecord_loop ::
  "bytes \<Rightarrow> bool \<Rightarrow> u64 \<Rightarrow> bytes \<Rightarrow> log_reader \<Rightarrow> bool \<times> bytes \<times> log_reader" where
  "ReadRecord_loop scratch in_fragmented prospective frag r =
     (let (type, frag, r) = ReadPhysicalRecord frag r;
          physical_record_offset = lr_end_of_buffer_offset r - word_of_nat (length (lr_buffer r))
            - word_of_nat kHeaderSize - word_of_nat (length frag)
      in if lr_resyncing r \<and> type = kMiddleType then
           ReadRecord_loop scratch in_fragmented prospective frag r
         else if lr_resyncing r \<and> type = kLastType then
           ReadRecord_loop scratch in_fragmented prospective frag (r\<lparr>lr_resyncing := False\<rparr>)
         else
           let r = r\<lparr>lr_resyncing := False\<rparr> in
           if type = kFullType then
             let r = (if in_fragmented \<and> scratch \<noteq> []
                      then ReportCorruption (length scratch) ''partial record without end(1)'' r else r)
             in (True, frag, r\<lparr>lr_last_record_offset := physical_record_offset\<rparr>)
           else if type = kFirstType then
             let r = (if in_fragmented \<and> scratch \<noteq> []
                      then ReportCorruption (length scratch) ''partial record without end(2)'' r else r)
             in ReadRecord_loop frag True physical_record_offset frag r
           else if type = kMiddleType then
             if \<not> in_fragmented
             then ReadRecord_loop scratch in_fragmented prospective frag
                    (ReportCorruption (length frag) ''missing start of fragmented record(1)'' r)
             else ReadRecord_loop (scratch @ frag) in_fragmented prospective frag r
           else if type = kLastType then
             if \<not> in_fragmented
             then ReadRecord_loop scratch in_fragmented prospective frag
                    (ReportCorruption (length frag) ''missing start of fragmented record(2)'' r)
             else (True, scratch @ frag, r\<lparr>lr_last_record_offset := prospective\<rparr>)
           else if type = kEof then (False, [], r)
           else if type = kBadRecord then
             if in_fragmented
             then ReadRecord_loop [] False prospective frag
                    (ReportCorruption (length scratch) ''error in middle of record'' r)
             else ReadRecord_loop scratch in_fragmented prospective frag r
           else
             ReadRecord_loop [] False prospective frag
               (ReportCorruption (length frag + (if in_fragmented then length scratch else 0))
                  (''unknown record type '' @ show_nat type) r))"
  by pat_completeness auto

lemma reader_size_update [simp]:
  "reader_size (r\<lparr>lr_resyncing := b\<rparr>) = reader_size r"
  "reader_size (r\<lparr>lr_last_record_offset := x\<rparr>) = reader_size r"
  "reader_size (ReportCorruption n m r) = reader_size r"
  by (simp_all add: reader_size_def)

lemmas record_types = kFullType_def kFirstType_def kMiddleType_def kLastType_def kEof_def
  kBadRecord_def kMaxRecordType_def kZeroType_def

termination ReadRecord_loop
  by (relation "measure (\<lambda>(scratch, i, p, frag, r). reader_size r)")
     (auto dest!: ReadPhysicalRecord_size [OF sym] simp: record_types split: if_splits)

declare ReadRecord_loop.simps [simp del]

definition ReadRecord :: "log_reader \<Rightarrow> bool \<times> bytes \<times> log_reader" where
  "ReadRecord r =
     (let (go, r) = (if lr_last_record_offset r < lr_initial_offset r then SkipToInitialBlock r
                     else (True, r))
      in if \<not> go then (False, [], r) else ReadRecord_loop [] False 0 [] r)"

end
