(* ===== verification/LogRecovery.thy ===== *)
theory LogRecovery
  imports LogFormat
begin

text \<open>
  What the log of \<open>LogFormat\<close> promises: after a crash that keeps any prefix of the file, the
  reader returns exactly the records that were completely written, and reports no corruption.
\<close>

section \<open>Headers\<close>

lemma drop_take_append: "drop (length a) (take m (a @ b)) = take (m - length a) b"
  by (simp only: drop_take) simp

lemma length_log_header [simp]: "length (log_header t d) = 7"
  by (simp add: log_header_def Let_def)

lemma log_header_nth:
  "log_header t d ! 4 = word_of_nat (length d mod 256)" "log_header t d ! 5 = word_of_nat (length d div 256)"
  "log_header t d ! 6 = word_of_nat t" "take 4 (log_header t d) = EncodeFixed32 (Mask (Extend 0 (type_crc t) d))"
  "drop 6 (log_header t d) = [word_of_nat t]"
  by (simp_all add: log_header_def Let_def nth_append)

lemma log_header_length:
  assumes "length d < 65536"
  shows "unat (log_header t d ! 4) + unat (log_header t d ! 5) * 256 = length d"
proof -
  have "length d div 256 < 2 ^ LENGTH(8)" "length d mod 256 < 2 ^ LENGTH(8)" using assms by auto
  then show ?thesis unfolding log_header_nth by (simp add: word_of_nat_less_iff_bound del: len_of_numeral_defs)
qed

lemma log_header_crc:
  "Unmask (DecodeFixed32 (log_header t d @ rest)) = crc_Value 0 (word_of_nat t # d)"
proof -
  have "DecodeFixed32 (log_header t d @ rest) = Mask (Extend 0 (type_crc t) d)"
    by (simp add: log_header_def Let_def)
  then show ?thesis by (simp add: type_crc_def crc_Value_def Extend_Extend [where r = 0])
qed

section \<open>The position of the reader\<close>

definition next_header :: "nat \<Rightarrow> nat" where
  "next_header p = (let l = kBlockSize - p mod kBlockSize in if l < kHeaderSize then p + l else p)"

text \<open>
  \<open>reader_view T p e r\<close>: the reader has loaded the file up to the block boundary \<open>e\<close> and
  consumed it up to \<open>p\<close>.
\<close>

definition reader_view :: "bytes \<Rightarrow> nat \<Rightarrow> nat \<Rightarrow> log_reader \<Rightarrow> bool" where
  "reader_view T p e r \<longleftrightarrow>
     p \<le> e \<and> e \<le> p + kBlockSize \<and> kBlockSize dvd e \<and>
     lr_buffer r = drop p (take e T) \<and> sf_data (lr_file r) = drop e T \<and>
     lr_eof r = (length T < e) \<and> sf_answers (lr_file r) = [] \<and>
     lr_initial_offset r = 0 \<and> \<not> lr_resyncing r \<and> lr_checksum r"

lemma block_end:
  assumes "kBlockSize dvd e" "p \<le> e" "e \<le> p + kBlockSize"
  shows "next_header p = (if e - p < kHeaderSize then e else p)"
    and "p < e \<Longrightarrow> kBlockSize - p mod kBlockSize = e - p"
proof -
  obtain k where k: "e = kBlockSize * k" using assms(1) by (auto elim: dvdE)
  have main: "kBlockSize - p mod kBlockSize = e - p" if "p < e"
  proof -
    have "k > 0" using that k by (cases k) auto
    then obtain j where j: "k = Suc j" by (cases k) auto
    have lo: "kBlockSize * j \<le> p" "p < kBlockSize * j + kBlockSize" using assms k j that by auto
    have "(p - kBlockSize * j) mod kBlockSize = p mod kBlockSize"
      using lo(1) by (metis le_add_diff_inverse mod_mult_self4 add.commute mult.commute mod_mult_self2)
    moreover have "(p - kBlockSize * j) mod kBlockSize = p - kBlockSize * j" using lo by simp
    ultimately show ?thesis using k j lo by simp
  qed
  show "p < e \<Longrightarrow> kBlockSize - p mod kBlockSize = e - p" by (rule main)
  show "next_header p = (if e - p < kHeaderSize then e else p)"
  proof (cases "p < e")
    case True
    then show ?thesis using main [OF True] by (simp add: next_header_def Let_def)
  next
    case False
    then have pe: "p = e" using assms by simp
    have "p mod kBlockSize = 0" using assms(1) unfolding pe by simp
    then show ?thesis unfolding next_header_def Let_def pe by (simp add: kBlockSize_def kHeaderSize_def)
  qed
qed

lemma refill:
  assumes v: "reader_view T p e r" and short: "length (lr_buffer r) < kHeaderSize" and ne: "\<not> lr_eof r"
  shows "\<exists>r2. ReadPhysicalRecord res r = ReadPhysicalRecord res r2 \<and>
           reader_view T e (e + kBlockSize) r2 \<and> lr_reports r2 = lr_reports r"
proof -
  define buf where "buf = take kBlockSize (drop e T)"
  define r1 where "r1 = r\<lparr>lr_buffer := buf, lr_file := (lr_file r)\<lparr>sf_data := drop kBlockSize (drop e T)\<rparr>,
      lr_end_of_buffer_offset := lr_end_of_buffer_offset r + word_of_nat (length buf)\<rparr>"
  have rd: "sf_Read kBlockSize (lr_file r) = (OK, buf, (lr_file r)\<lparr>sf_data := drop kBlockSize (drop e T)\<rparr>)"
    using v by (simp add: reader_view_def buf_def)
  have le: "length T \<ge> e" using v ne by (simp add: reader_view_def)
  let ?r2 = "if length buf < kBlockSize then r1\<lparr>lr_eof := True\<rparr> else r1"
  have "ReadPhysicalRecord res r = ReadPhysicalRecord res ?r2"
    using short ne rd by (simp add: ReadPhysicalRecord.simps [of res r] r1_def)
  moreover have "reader_view T e (e + kBlockSize) ?r2"
  proof -
    have b: "buf = drop e (take (e + kBlockSize) T)" by (simp add: buf_def drop_take)
    have l: "length buf < kBlockSize \<longleftrightarrow> length T < e + kBlockSize" using le by (auto simp: buf_def)
    have d: "drop kBlockSize (drop e T) = drop (e + kBlockSize) T" by (simp add: add.commute)
    show ?thesis using v ne unfolding reader_view_def r1_def d l [symmetric] b [symmetric] by simp
  qed
  moreover have "lr_reports ?r2 = lr_reports r" by (simp add: r1_def)
  ultimately show ?thesis by blast
qed

lemma settle:
  assumes v: "reader_view T p e r" and len: "next_header p + kHeaderSize \<le> length T"
  shows "\<exists>r2 e2. ReadPhysicalRecord res r = ReadPhysicalRecord res r2 \<and>
           reader_view T (next_header p) e2 r2 \<and> next_header p + kHeaderSize \<le> e2 \<and>
           lr_reports r2 = lr_reports r"
proof -
  have e: "kBlockSize dvd e" "p \<le> e" "e \<le> p + kBlockSize" using v by (auto simp: reader_view_def)
  note nh = block_end(1) [OF e]
  show ?thesis
  proof (cases "e - p < kHeaderSize")
    case True
    then have q: "next_header p = e" by (simp add: nh)
    have "\<not> lr_eof r" "length (lr_buffer r) < kHeaderSize"
      using v len True q by (auto simp: reader_view_def)
    from refill [OF v this(2,1)] obtain r2 where
      "ReadPhysicalRecord res r = ReadPhysicalRecord res r2" "reader_view T e (e + kBlockSize) r2"
      "lr_reports r2 = lr_reports r" by blast
    moreover have "e + kHeaderSize \<le> e + kBlockSize" by (simp add: kHeaderSize_def kBlockSize_def)
    ultimately show ?thesis unfolding q by blast
  next
    case False
    then have "next_header p = p" by (simp add: nh)
    moreover have "p + kHeaderSize \<le> e" using False e by simp
    ultimately show ?thesis using v by auto
  qed
qed

lemma read_eof:
  assumes v: "reader_view T p e r" and len: "length T < next_header p + kHeaderSize"
  shows "\<exists>r2. ReadPhysicalRecord res r = (kEof, res, r2) \<and> lr_reports r2 = lr_reports r \<and> \<not> lr_resyncing r2"
proof -
  have e: "kBlockSize dvd e" "p \<le> e" "e \<le> p + kBlockSize" using v by (auto simp: reader_view_def)
  note nh = block_end(1) [OF e]
  have stop: "\<exists>r2. ReadPhysicalRecord res r = (kEof, res, r2) \<and> lr_reports r2 = lr_reports r \<and> \<not> lr_resyncing r2"
    if "length (lr_buffer r) < kHeaderSize" "lr_eof r" "\<not> lr_resyncing r" for r
    using that by (simp add: ReadPhysicalRecord.simps [of res r])
  have nr: "\<not> lr_resyncing r" using v by (simp add: reader_view_def)
  show ?thesis
  proof (cases "length T < e")
    case True
    then have "lr_eof r" using v by (simp add: reader_view_def)
    moreover have "length (lr_buffer r) < kHeaderSize"
      using v True len nh by (auto simp: reader_view_def kHeaderSize_def split: if_splits)
    ultimately show ?thesis using stop nr by blast
  next
    case False
    then have ne: "\<not> lr_eof r" using v by (simp add: reader_view_def)
    have "e - p < kHeaderSize" using False len nh e by (auto simp: kHeaderSize_def split: if_splits)
    then have q: "next_header p = e" and sh: "length (lr_buffer r) < kHeaderSize"
      using v nh by (auto simp: reader_view_def)
    from refill [OF v sh ne] obtain r2 where r2:
      "ReadPhysicalRecord res r = ReadPhysicalRecord res r2" "reader_view T e (e + kBlockSize) r2"
      "lr_reports r2 = lr_reports r" by blast
    have "length T < e + kBlockSize" using len q by (simp add: kHeaderSize_def kBlockSize_def)
    then have "lr_eof r2" "length (lr_buffer r2) < kHeaderSize" "\<not> lr_resyncing r2"
      using r2(2) len q by (auto simp: reader_view_def kHeaderSize_def)
    from stop [OF this(2,1,3)] show ?thesis using r2 by simp
  qed
qed

text \<open>A complete fragment at the next header position is returned as it was written.\<close>

lemma read_fragment:
  assumes v: "reader_view T p e r" and q: "q = next_header p"
    and here: "drop q T = log_header t d @ d @ rest"
    and fits: "q mod kBlockSize + kHeaderSize + length d \<le> kBlockSize"
    and t: "t < 256" "t \<noteq> kZeroType"
  shows "\<exists>r2 e2. ReadPhysicalRecord res r = (t, d, r2) \<and>
           reader_view T (q + kHeaderSize + length d) e2 r2 \<and> lr_reports r2 = lr_reports r"
proof -
  have "length (drop q T) = 7 + length d + length rest" using here by simp
  then have lenT: "q + 7 + length d \<le> length T" by simp
  then obtain r1 e1 where r1: "ReadPhysicalRecord res r = ReadPhysicalRecord res r1"
    and v1: "reader_view T q e1 r1" and e1: "q + kHeaderSize \<le> e1" and rep: "lr_reports r1 = lr_reports r"
    using settle [OF v, of res] lenT q unfolding kHeaderSize_def by auto
  have e: "kBlockSize dvd e1" "q \<le> e1" "e1 \<le> q + kBlockSize" using v1 by (auto simp: reader_view_def)
  have "kBlockSize - q mod kBlockSize = e1 - q" using block_end(2) [OF e] e1 by (simp add: kHeaderSize_def)
  then have inb: "q + 7 + length d \<le> e1" using fits e1 e by (simp add: kHeaderSize_def)
  define tl where "tl = drop (q + 7 + length d) (take e1 T)"
  have "lr_buffer r1 = take (e1 - q) (drop q T)" using v1 by (simp add: reader_view_def drop_take)
  also have "\<dots> = log_header t d @ d @ take (e1 - q - 7 - length d) rest" using inb unfolding here by simp
  also have "take (e1 - q - 7 - length d) rest = tl"
  proof -
    have "drop (q + 7 + length d) T = drop (7 + length d) (drop q T)" by (simp add: ac_simps)
    also have "\<dots> = rest" unfolding here by simp
    finally show ?thesis by (simp add: tl_def drop_take)
  qed
  finally have buf: "lr_buffer r1 = log_header t d @ d @ tl" .
  define r2 where "r2 = r1\<lparr>lr_buffer := tl\<rparr>"
  have d: "length d < 65536" using fits by (simp add: kBlockSize_def)
  have nth: "(log_header t d @ d @ tl) ! k = log_header t d ! k" if "k < 7" for k
    using that by (simp add: nth_append)
  have ty: "unat (word_of_nat t :: byte) = t" using t by (simp add: word_of_nat_less_iff_bound)
  have n: "unat ((log_header t d @ d @ tl) ! 4) + unat ((log_header t d @ d @ tl) ! 5) * 256 = length d"
    "unat ((log_header t d @ d @ tl) ! 6) = t"
    using log_header_length [OF d] by (simp_all add: nth log_header_nth(3) ty)
  have "lr_checksum r1" "lr_initial_offset r1 = 0" using v1 by (auto simp: reader_view_def)
  then have "ReadPhysicalRecord res r1 = (t, d, r2)"
    using n t unfolding ReadPhysicalRecord.simps [of res r1] buf Let_def
    by (simp add: kHeaderSize_def log_header_crc log_header_nth(5) kZeroType_def r2_def)
  moreover have "reader_view T (q + 7 + length d) e1 r2"
    using v1 inb e unfolding reader_view_def r2_def tl_def by simp
  ultimately show ?thesis using r1 rep by (auto simp: r2_def kHeaderSize_def)
qed

text \<open>A fragment cut short by the end of the file reads as the end of the log.\<close>

lemma read_truncated:
  assumes v: "reader_view T p e r" and q: "q = next_header p"
    and here: "drop q T = take m (log_header t d @ d)" and m: "m < kHeaderSize + length d"
    and fits: "q mod kBlockSize + kHeaderSize + length d \<le> kBlockSize"
  shows "\<exists>r2. ReadPhysicalRecord res r = (kEof, res, r2) \<and> lr_reports r2 = lr_reports r \<and> \<not> lr_resyncing r2"
proof (cases "length T < q + kHeaderSize")
  case True
  then show ?thesis using read_eof [OF v] q by simp
next
  case False
  then obtain r1 e1 where r1: "ReadPhysicalRecord res r = ReadPhysicalRecord res r1"
    and v1: "reader_view T q e1 r1" and e1: "q + kHeaderSize \<le> e1" and rep: "lr_reports r1 = lr_reports r"
    using settle [OF v, of res] False q unfolding not_less by auto
  have e: "kBlockSize dvd e1" "q \<le> e1" "e1 \<le> q + kBlockSize" using v1 by (auto simp: reader_view_def)
  have "kBlockSize - q mod kBlockSize = e1 - q" using block_end(2) [OF e] e1 by (simp add: kHeaderSize_def)
  then have inb: "q + 7 + length d \<le> e1" using fits e1 e by (simp add: kHeaderSize_def)
  have lt: "length (drop q T) = m" using here m by (simp add: kHeaderSize_def)
  then have m7: "7 \<le> m" and T: "length T = q + m" using False by (auto simp: kHeaderSize_def)
  have eof: "lr_eof r1" using v1 T m inb by (simp add: reader_view_def kHeaderSize_def)
  have "take e1 T = T" using T m inb by (simp add: kHeaderSize_def)
  then have buf: "lr_buffer r1 = log_header t d @ take (m - 7) d"
    using v1 here m7 by (simp add: reader_view_def)
  have d: "length d < 65536" using fits by (simp add: kBlockSize_def)
  have nth: "(log_header t d @ take (m - 7) d) ! k = log_header t d ! k" if "k < 7" for k
    using that by (simp add: nth_append)
  have n: "unat ((log_header t d @ take (m - 7) d) ! 4) + unat ((log_header t d @ take (m - 7) d) ! 5) * 256 = length d"
    using log_header_length [OF d] by (simp add: nth)
  have "\<not> lr_resyncing r1" using v1 by (simp add: reader_view_def)
  then show ?thesis
    using n m m7 eof rep unfolding r1 ReadPhysicalRecord.simps [of res r1] buf Let_def
    by (simp add: kHeaderSize_def)
qed

section \<open>The writer on a file that accepts every append\<close>

text \<open>\<open>block_offset_\<close> is the length of the file modulo the block size, or a full block.\<close>

definition writer_synced :: "log_writer \<Rightarrow> bool" where
  "writer_synced w \<longleftrightarrow> wf_answers (lw_dest w) = [] \<and> lw_block_offset w \<le> kBlockSize \<and>
     lw_block_offset w mod kBlockSize = length (wf_data (lw_dest w)) mod kBlockSize"

lemma switch_block_synced:
  assumes "writer_synced w"
  shows "\<exists>pad. wf_data (lw_dest (switch_block w)) = wf_data (lw_dest w) @ pad \<and>
     length (wf_data (lw_dest (switch_block w))) = next_header (length (wf_data (lw_dest w))) \<and>
     writer_synced (switch_block w) \<and>
     lw_block_offset (switch_block w) = length (wf_data (lw_dest (switch_block w))) mod kBlockSize"
proof -
  define p where "p = length (wf_data (lw_dest w))"
  define b where "b = lw_block_offset w"
  have B: "kBlockSize = 32768" "kHeaderSize = 7" by (simp_all add: kBlockSize_def kHeaderSize_def)
  have w: "wf_answers (lw_dest w) = []" "b \<le> kBlockSize" "b mod kBlockSize = p mod kBlockSize"
    using assms by (simp_all add: writer_synced_def b_def p_def)
  consider "b = kBlockSize" | "b < kBlockSize" "kBlockSize - b < kHeaderSize" | "b + kHeaderSize \<le> kBlockSize"
    using w by linarith
  then show ?thesis
  proof cases
    case 1
    then have "p mod kBlockSize = 0" using w by simp
    then show ?thesis using 1 w
      by (simp add: switch_block_def Let_def b_def [symmetric] p_def [symmetric] next_header_def
          writer_synced_def B)
  next
    case 2
    then have pm: "p mod kBlockSize = b" using w by simp
    have z: "(p + (kBlockSize - b)) mod kBlockSize = 0"
    proof -
      have "p + (kBlockSize - b) = kBlockSize * (p div kBlockSize) + (b + (kBlockSize - b))"
        using pm by (metis add.assoc mult_div_mod_eq)
      then show ?thesis using 2 by simp
    qed
    show ?thesis using 2 w pm z
      by (simp add: switch_block_def Let_def b_def [symmetric] p_def [symmetric] next_header_def
          writer_synced_def)
  next
    case 3
    then have pm: "p mod kBlockSize = b" using w B by simp
    show ?thesis using 3 w pm
      by (simp add: switch_block_def Let_def b_def [symmetric] p_def [symmetric] next_header_def
          writer_synced_def B)
  qed
qed

lemma EmitPhysicalRecord_synced:
  assumes w: "writer_synced w" and fit: "lw_block_offset w + kHeaderSize + length d \<le> kBlockSize"
  shows "fst (EmitPhysicalRecord t d w) = OK"
    and "wf_data (lw_dest (snd (EmitPhysicalRecord t d w))) = wf_data (lw_dest w) @ log_header t d @ d"
    and "writer_synced (snd (EmitPhysicalRecord t d w))"
proof -
  have m: "(lw_block_offset w + (7 + length d)) mod kBlockSize
      = (length (wf_data (lw_dest w)) + (7 + length d)) mod kBlockSize"
    using w by (metis mod_add_left_eq writer_synced_def)
  have e: "EmitPhysicalRecord t d w = (OK, w\<lparr>lw_dest := (lw_dest w)\<lparr>wf_data := wf_data (lw_dest w) @ log_header t d @ d\<rparr>,
      lw_block_offset := lw_block_offset w + (7 + length d)\<rparr>)"
    using w by (simp add: EmitPhysicalRecord_def writer_synced_def Let_def kHeaderSize_def)
  show "fst (EmitPhysicalRecord t d w) = OK"
    "wf_data (lw_dest (snd (EmitPhysicalRecord t d w))) = wf_data (lw_dest w) @ log_header t d @ d"
    by (simp_all add: e)
  show "writer_synced (snd (EmitPhysicalRecord t d w))"
    using w fit m unfolding e by (simp add: writer_synced_def kHeaderSize_def)
qed


lemma AddRecord_loop_step:
  assumes w: "writer_synced w"
  obtains w2 pad d ptr' where
    "ptr = d @ ptr'"
    "AddRecord_loop b ptr w = (if ptr' = [] then (OK, w2) else AddRecord_loop False ptr' w2)"
    "wf_data (lw_dest w2) = wf_data (lw_dest w) @ pad @ log_header (fragment_type b (ptr' = [])) d @ d"
    "length (wf_data (lw_dest w)) + length pad = next_header (length (wf_data (lw_dest w)))"
    "next_header (length (wf_data (lw_dest w))) mod kBlockSize + kHeaderSize + length d \<le> kBlockSize"
    "writer_synced w2" "ptr' \<noteq> [] \<Longrightarrow> AddRecord_measure ptr' w2 < AddRecord_measure ptr w"
proof -
  define w1 where "w1 = switch_block w"
  obtain pad where pad: "wf_data (lw_dest w1) = wf_data (lw_dest w) @ pad"
    "length (wf_data (lw_dest w1)) = next_header (length (wf_data (lw_dest w)))"
    "writer_synced w1" "lw_block_offset w1 = length (wf_data (lw_dest w1)) mod kBlockSize"
    using switch_block_synced [OF w] by (auto simp: w1_def)
  define avail where "avail = kBlockSize - lw_block_offset w1 - kHeaderSize"
  have room: "lw_block_offset w1 + kHeaderSize + avail = kBlockSize"
    using switch_block_avail [of w] by (simp add: avail_def w1_def kBlockSize_def kHeaderSize_def)
  define fl where "fl = (if length ptr < avail then length ptr else avail)"
  define d where "d = take fl ptr"
  define ptr' where "ptr' = drop fl ptr"
  define t where "t = fragment_type b (ptr' = [])"
  define w2 where "w2 = snd (EmitPhysicalRecord t d w1)"
  have last: "(length ptr = fl) = (ptr' = [])" by (auto simp: ptr'_def fl_def)
  have ld: "length d = fl" by (auto simp: d_def fl_def)
  have fit: "lw_block_offset w1 + kHeaderSize + length d \<le> kBlockSize"
    using room ld by (auto simp: fl_def split: if_splits)
  note em = EmitPhysicalRecord_synced [OF pad(3) fit, of t]
  have E: "EmitPhysicalRecord t d w1 = (OK, w2)" using em(1) by (simp add: w2_def prod_eq_iff)
  have "AddRecord_loop b ptr w = (if ptr' = [] then (OK, w2) else AddRecord_loop False ptr' w2)"
    unfolding AddRecord_loop.simps [of b ptr w] Let_def w1_def [symmetric] avail_def [symmetric]
      fl_def [symmetric] last d_def [symmetric] ptr'_def [symmetric] t_def [symmetric] E by simp
  moreover have "AddRecord_measure ptr' w2 < AddRecord_measure ptr w" if ne: "ptr' \<noteq> []"
  proof (cases "fl = 0")
    case True
    then have "avail = 0" using ne by (auto simp: fl_def ptr'_def split: if_splits)
    then have full: "lw_block_offset w1 + kHeaderSize = kBlockSize" using room by simp
    have "lw_block_offset w2 = kBlockSize"
      using EmitPhysicalRecord_offset [of t d w1] full ld True by (simp add: w2_def)
    then have "lw_block_offset (switch_block w2) = 0"
      by (simp add: switch_block_def kHeaderSize_def)
    then show ?thesis using True full
      by (simp add: AddRecord_measure_def ptr'_def w1_def [symmetric] kBlockSize_def kHeaderSize_def)
  next
    case False
    then have "length ptr' < length ptr" using last by (auto simp: ptr'_def fl_def split: if_splits)
    then show ?thesis by (simp add: AddRecord_measure_def)
  qed
  moreover have "wf_data (lw_dest w2) = wf_data (lw_dest w) @ pad @ log_header t d @ d"
    using em(2) pad(1) by (simp add: w2_def)
  moreover have "length (wf_data (lw_dest w)) + length pad = next_header (length (wf_data (lw_dest w)))"
    using pad(1,2) by simp
  moreover have "next_header (length (wf_data (lw_dest w))) mod kBlockSize + kHeaderSize + length d \<le> kBlockSize"
    using fit pad(2,4) by simp
  ultimately show thesis
    using that [of d ptr' w2 pad] em(3) by (simp add: t_def w2_def d_def ptr'_def)
qed

lemma AddRecord_loop_appends:
  assumes "writer_synced w"
  shows "\<exists>w' ext. AddRecord_loop b ptr w = (OK, w') \<and> writer_synced w' \<and> ext \<noteq> [] \<and>
           wf_data (lw_dest w') = wf_data (lw_dest w) @ ext"
  using assms
proof (induction "AddRecord_measure ptr w" arbitrary: b ptr w rule: less_induct)
  case less
  obtain w2 pad d ptr' where step: "ptr = d @ ptr'"
    "AddRecord_loop b ptr w = (if ptr' = [] then (OK, w2) else AddRecord_loop False ptr' w2)"
    "wf_data (lw_dest w2) = wf_data (lw_dest w) @ pad @ log_header (fragment_type b (ptr' = [])) d @ d"
    "writer_synced w2" "ptr' \<noteq> [] \<Longrightarrow> AddRecord_measure ptr' w2 < AddRecord_measure ptr w"
    by (rule AddRecord_loop_step [OF less.prems, of ptr b]) blast
  have ne: "log_header t d \<noteq> []" for t by (metis length_log_header list.size(3) zero_neq_numeral)
  show ?case
  proof (cases "ptr' = []")
    case True
    then show ?thesis using step ne by auto
  next
    case False
    from less.hyps [OF step(5) [OF False] step(4), of False] show ?thesis
      using False step(2,3) ne by auto
  qed
qed

lemma fragment_type_props:
  "fragment_type b l < 256" "fragment_type b l \<noteq> kZeroType"
  by (auto simp: fragment_type_def record_types)

lemma resyncing_off: "\<not> lr_resyncing r \<Longrightarrow> r\<lparr>lr_resyncing := False\<rparr> = r"
  by (cases r) simp

lemma reader_view_last [simp]:
  "reader_view T p e (r\<lparr>lr_last_record_offset := x\<rparr>) = reader_view T p e r"
  by (simp add: reader_view_def)

text \<open>How one well-formed fragment moves the reader's loop.\<close>

lemma ReadRecord_loop_fragment:
  assumes rd: "ReadPhysicalRecord frag r = (fragment_type b l, d, r2)" and "\<not> lr_resyncing r2"
  shows "\<exists>x pro' r3. (r3 = r2 \<or> r3 = r2\<lparr>lr_last_record_offset := x\<rparr>) \<and>
     ReadRecord_loop acc (\<not> b) pro frag r =
       (if l then (True, (if b then [] else acc) @ d, r3)
        else ReadRecord_loop ((if b then [] else acc) @ d) True pro' d r3)"
  by (cases b; cases l)
     (auto simp: ReadRecord_loop.simps [of acc _ pro frag r] rd Let_def resyncing_off assms(2)
        fragment_type_def record_types)

lemma read_record_complete:
  assumes "writer_synced w" "AddRecord_loop b ptr w = (s, w')"
    "reader_view (wf_data (lw_dest w') @ R) (length (wf_data (lw_dest w))) e r"
  shows "\<exists>r' e'. ReadRecord_loop acc (\<not> b) pro frag r = (True, (if b then [] else acc) @ ptr, r') \<and>
     reader_view (wf_data (lw_dest w') @ R) (length (wf_data (lw_dest w'))) e' r' \<and>
     lr_reports r' = lr_reports r"
  using assms
proof (induction "AddRecord_measure ptr w" arbitrary: b ptr w e r acc pro frag rule: less_induct)
  case less
  let ?W = "wf_data (lw_dest w)"
  let ?T = "wf_data (lw_dest w') @ R"
  obtain w2 pad d ptr' where step: "ptr = d @ ptr'"
    "AddRecord_loop b ptr w = (if ptr' = [] then (OK, w2) else AddRecord_loop False ptr' w2)"
    "wf_data (lw_dest w2) = ?W @ pad @ log_header (fragment_type b (ptr' = [])) d @ d"
    "length ?W + length pad = next_header (length ?W)"
    "next_header (length ?W) mod kBlockSize + kHeaderSize + length d \<le> kBlockSize"
    "writer_synced w2" "ptr' \<noteq> [] \<Longrightarrow> AddRecord_measure ptr' w2 < AddRecord_measure ptr w"
    by (rule AddRecord_loop_step [OF less.prems(1), of ptr b]) blast
  obtain ext where ext: "wf_data (lw_dest w') = wf_data (lw_dest w2) @ ext"
  proof (cases "ptr' = []")
    case True
    then show ?thesis using that [of "[]"] step(2) less.prems(2) by simp
  next
    case False
    then show ?thesis
      using that AddRecord_loop_appends [OF step(6), of False ptr'] step(2) less.prems(2) by auto
  qed
  have "drop (next_header (length ?W)) ?T = log_header (fragment_type b (ptr' = [])) d @ d @ ext @ R"
    unfolding ext step(3) step(4) [symmetric] by simp
  from read_fragment [OF less.prems(3) refl this step(5) fragment_type_props, of frag]
  obtain r2 e2 where r2: "ReadPhysicalRecord frag r = (fragment_type b (ptr' = []), d, r2)"
    "reader_view ?T (length (wf_data (lw_dest w2))) e2 r2" "lr_reports r2 = lr_reports r"
    unfolding step(3) step(4) [symmetric] by (auto simp: kHeaderSize_def ac_simps)
  have "\<not> lr_resyncing r2" using r2(2) by (simp add: reader_view_def)
  from ReadRecord_loop_fragment [OF r2(1) this, of acc pro]
  obtain x pro' r3 where r3: "r3 = r2 \<or> r3 = r2\<lparr>lr_last_record_offset := x\<rparr>"
    "ReadRecord_loop acc (\<not> b) pro frag r =
       (if ptr' = [] then (True, (if b then [] else acc) @ d, r3)
        else ReadRecord_loop ((if b then [] else acc) @ d) True pro' d r3)" by blast
  have v3: "reader_view ?T (length (wf_data (lw_dest w2))) e2 r3" and rep3: "lr_reports r3 = lr_reports r"
    using r3(1) r2(2,3) by auto
  show ?case
  proof (cases "ptr' = []")
    case True
    then show ?thesis using r3(2) v3 rep3 step(1,2) less.prems(2) by auto
  next
    case False
    then have "AddRecord_loop False ptr' w2 = (s, w')" using step(2) less.prems(2) by simp
    from less.hyps [OF step(7) [OF False] step(6) this v3, of "(if b then [] else acc) @ d" pro' d]
    show ?thesis using False r3(2) rep3 step(1) by simp
  qed
qed

lemma read_record_truncated:
  assumes "writer_synced w" "AddRecord_loop b ptr w = (s, w')" "T = take m (wf_data (lw_dest w'))"
    "length (wf_data (lw_dest w)) \<le> m" "m < length (wf_data (lw_dest w'))"
    "reader_view T (length (wf_data (lw_dest w))) e r"
  shows "\<exists>r'. ReadRecord_loop acc (\<not> b) pro frag r = (False, [], r') \<and> lr_reports r' = lr_reports r"
  using assms
proof (induction "AddRecord_measure ptr w" arbitrary: b ptr w e r acc pro frag rule: less_induct)
  case less
  let ?W = "wf_data (lw_dest w)"
  obtain w2 pad d ptr' where step: "ptr = d @ ptr'"
    "AddRecord_loop b ptr w = (if ptr' = [] then (OK, w2) else AddRecord_loop False ptr' w2)"
    "wf_data (lw_dest w2) = ?W @ pad @ log_header (fragment_type b (ptr' = [])) d @ d"
    "length ?W + length pad = next_header (length ?W)"
    "next_header (length ?W) mod kBlockSize + kHeaderSize + length d \<le> kBlockSize"
    "writer_synced w2" "ptr' \<noteq> [] \<Longrightarrow> AddRecord_measure ptr' w2 < AddRecord_measure ptr w"
    by (rule AddRecord_loop_step [OF less.prems(1), of ptr b]) blast
  obtain ext where ext: "wf_data (lw_dest w') = wf_data (lw_dest w2) @ ext"
  proof (cases "ptr' = []")
    case True
    then show ?thesis using that [of "[]"] step(2) less.prems(2) by simp
  next
    case False
    then show ?thesis
      using that AddRecord_loop_appends [OF step(6), of False ptr'] step(2) less.prems(2) by auto
  qed
  let ?t = "fragment_type b (ptr' = [])"
  show ?case
  proof (cases "m < length (wf_data (lw_dest w2))")
    case True
    define n where "n = m - next_header (length ?W)"
    have "T = take m ((?W @ pad) @ (log_header ?t d @ d))"
      using True unfolding less.prems(3) ext step(3) by simp
    then have "drop (next_header (length ?W)) T = take n (log_header ?t d @ d)"
      unfolding n_def step(4) [symmetric] length_append [symmetric] by (simp only: drop_take_append)
    moreover have "n < kHeaderSize + length d"
      using True unfolding step(3) n_def step(4) [symmetric] by (simp add: kHeaderSize_def)
    ultimately obtain r2 where "ReadPhysicalRecord frag r = (kEof, frag, r2)" "lr_reports r2 = lr_reports r"
      "\<not> lr_resyncing r2"
      using read_truncated [OF less.prems(6) refl _ _ step(5), of n ?t frag] by auto
    then show ?thesis
      by (simp add: ReadRecord_loop.simps [of acc _ pro frag r] Let_def resyncing_off record_types)
  next
    case False
    then have ne: "ptr' \<noteq> []" using less.prems(2,5) step(2) by auto
    obtain rest where "T = wf_data (lw_dest w2) @ rest"
      using False unfolding less.prems(3) ext by auto
    then have "drop (next_header (length ?W)) T = log_header ?t d @ d @ rest"
      unfolding step(3) step(4) [symmetric] by simp
    from read_fragment [OF less.prems(6) refl this step(5) fragment_type_props, of frag]
    obtain r2 e2 where r2: "ReadPhysicalRecord frag r = (?t, d, r2)"
      "reader_view T (length (wf_data (lw_dest w2))) e2 r2" "lr_reports r2 = lr_reports r"
      unfolding step(3) step(4) [symmetric] by (auto simp: kHeaderSize_def ac_simps)
    have "\<not> lr_resyncing r2" using r2(2) by (simp add: reader_view_def)
    from ReadRecord_loop_fragment [OF r2(1) this, of acc pro] ne
    obtain x pro' r3 where r3: "r3 = r2 \<or> r3 = r2\<lparr>lr_last_record_offset := x\<rparr>"
      "ReadRecord_loop acc (\<not> b) pro frag r = ReadRecord_loop ((if b then [] else acc) @ d) True pro' d r3"
      by auto
    have v3: "reader_view T (length (wf_data (lw_dest w2))) e2 r3" and rep3: "lr_reports r3 = lr_reports r"
      using r3(1) r2(2,3) by auto
    have "AddRecord_loop False ptr' w2 = (s, w')" using ne step(2) less.prems(2) by simp
    from less.hyps [OF step(7) [OF ne] step(6) this less.prems(3) _ less.prems(5) v3,
        of "(if b then [] else acc) @ d" pro' d] False
    show ?thesis using r3(2) rep3 by simp
  qed
qed


section \<open>Whole logs\<close>

lemma ReadRecord_loop_size:
  "ReadRecord_loop acc i pro frag r = (True, rec, r') \<Longrightarrow> reader_size r' < reader_size r"
proof (induction "reader_size r" arbitrary: acc i pro frag r rec r' rule: less_induct)
  case less
  obtain t d r1 where rd: "ReadPhysicalRecord frag r = (t, d, r1)" by (metis prod_cases3)
  show ?case
  proof (cases "t = kEof")
    case True
    then show ?thesis using less.prems rd
      by (simp add: ReadRecord_loop.simps [of acc i pro frag r] Let_def record_types)
  next
    case False
    then have sz: "reader_size r1 < reader_size r" using ReadPhysicalRecord_size [OF rd] by simp
    have IH: "reader_size r' < reader_size r"
      if "ReadRecord_loop acc i pro frag r2 = (True, rec, r')" "reader_size r2 = reader_size r1"
      for acc i pro frag r2 using less.hyps [OF _ that(1)] that(2) sz by simp
    show ?thesis using less.prems sz
      unfolding ReadRecord_loop.simps [of acc i pro frag r] rd Let_def prod.case
      by (auto split: if_splits dest!: IH simp: record_types)
  qed
qed

lemma ReadRecord_size:
  assumes "ReadRecord r = (True, rec, r')"
  shows "reader_size r' < reader_size r"
proof -
  have le: "reader_size (snd (SkipToInitialBlock r)) \<le> reader_size r"
    by (auto simp: SkipToInitialBlock_def sf_Skip_def Let_def reader_size_def split: prod.splits)
  obtain go r1 where g: "(if lr_last_record_offset r < lr_initial_offset r then SkipToInitialBlock r
     else (True, r)) = (go, r1)" by (metis surj_pair)
  have "reader_size r1 \<le> reader_size r" using g le by (auto split: if_splits)
  moreover have "ReadRecord_loop [] False 0 [] r1 = (True, rec, r')"
    using assms g by (simp add: ReadRecord_def split: if_splits)
  ultimately show ?thesis using ReadRecord_loop_size by fastforce
qed

text \<open>The loop of every client of the reader: \<open>while (reader.ReadRecord(&record, &scratch))\<close>.\<close>

function ReadAll :: "log_reader \<Rightarrow> bytes list \<times> log_reader" where
  "ReadAll r =
     (let (ok, rec, r) = ReadRecord r
      in if ok then (let (recs, r) = ReadAll r in (rec # recs, r)) else ([], r))"
  by pat_completeness auto
termination
  by (relation "measure reader_size") (auto dest!: ReadRecord_size [OF sym])

declare ReadAll.simps [simp del]

fun AddRecords :: "bytes list \<Rightarrow> log_writer \<Rightarrow> log_writer" where
  "AddRecords [] w = w"
| "AddRecords (x # xs) w = AddRecords xs (snd (AddRecord x w))"

text \<open>A new log with the records \<open>xs\<close>, and the recovery of a file with checksums on.\<close>

definition log_file :: "bytes list \<Rightarrow> bytes" where
  "log_file xs =
     wf_data (lw_dest (AddRecords xs (Writer_new \<lparr>wf_name = ''log'', wf_data = [], wf_answers = []\<rparr>)))"

definition log_recover :: "bytes \<Rightarrow> bytes list \<times> (nat \<times> status) list" where
  "log_recover data =
     (let (recs, r) = ReadAll (Reader_new \<lparr>sf_name = ''log'', sf_data = data, sf_answers = []\<rparr> True 0)
      in (recs, lr_reports r))"

lemma AddRecords_append: "AddRecords (xs @ ys) w = AddRecords ys (AddRecords xs w)"
  by (induction xs w rule: AddRecords.induct) auto

lemma AddRecord_appends:
  assumes "writer_synced w"
  shows "fst (AddRecord x w) = OK" "writer_synced (snd (AddRecord x w))"
    "\<exists>ext. ext \<noteq> [] \<and> wf_data (lw_dest (snd (AddRecord x w))) = wf_data (lw_dest w) @ ext"
  using AddRecord_loop_appends [OF assms, of True x] by (auto simp: AddRecord_def)

lemma AddRecords_appends:
  "writer_synced w \<Longrightarrow> writer_synced (AddRecords xs w) \<and>
     (\<exists>ext. wf_data (lw_dest (AddRecords xs w)) = wf_data (lw_dest w) @ ext)"
proof (induction xs w rule: AddRecords.induct)
  case (2 x xs w)
  then show ?case using AddRecord_appends [OF 2(2), of x] by auto
qed simp

lemma ReadRecord_offset0:
  "lr_initial_offset r = 0 \<Longrightarrow> ReadRecord r = ReadRecord_loop [] False 0 [] r"
  by (simp add: ReadRecord_def)

lemma ReadAll_complete:
  assumes "writer_synced w" "reader_view (wf_data (lw_dest (AddRecords xs w)) @ R) (length (wf_data (lw_dest w))) e r"
  shows "\<exists>r' e'. ReadAll r = (let (recs, r'') = ReadAll r' in (xs @ recs, r'')) \<and>
     reader_view (wf_data (lw_dest (AddRecords xs w)) @ R) (length (wf_data (lw_dest (AddRecords xs w)))) e' r' \<and>
     lr_reports r' = lr_reports r"
  using assms
proof (induction xs w arbitrary: e r rule: AddRecords.induct)
  case (1 w)
  then show ?case by auto
next
  case (2 x xs w)
  define w1 where "w1 = snd (AddRecord x w)"
  have s1: "writer_synced w1" using AddRecord_appends [OF 2(2)] by (simp add: w1_def)
  obtain ext where ext: "wf_data (lw_dest (AddRecords xs w1)) = wf_data (lw_dest w1) @ ext"
    using AddRecords_appends [OF s1] by blast
  have add: "AddRecord_loop True x w = (OK, w1)"
    using AddRecord_appends [OF 2(2)] by (simp add: w1_def AddRecord_def prod_eq_iff)
  have "reader_view (wf_data (lw_dest w1) @ ext @ R) (length (wf_data (lw_dest w))) e r"
    using 2(3) ext by (simp add: w1_def)
  from read_record_complete [OF 2(2) add this, of "[]" 0 "[]"]
  obtain r1 e1 where r1: "ReadRecord_loop [] False 0 [] r = (True, x, r1)"
    "reader_view (wf_data (lw_dest w1) @ ext @ R) (length (wf_data (lw_dest w1))) e1 r1"
    "lr_reports r1 = lr_reports r" by auto
  have "lr_initial_offset r = 0" using 2(3) by (simp add: reader_view_def)
  then have rr: "ReadRecord r = (True, x, r1)" using r1(1) by (simp add: ReadRecord_offset0)
  have "reader_view (wf_data (lw_dest (AddRecords xs w1)) @ R) (length (wf_data (lw_dest w1))) e1 r1"
    using r1(2) ext by simp
  from 2(1) [folded w1_def, OF s1 this] obtain r' e' where IH:
    "ReadAll r1 = (let (recs, r'') = ReadAll r' in (xs @ recs, r''))"
    "reader_view (wf_data (lw_dest (AddRecords xs w1)) @ R) (length (wf_data (lw_dest (AddRecords xs w1)))) e' r'"
    "lr_reports r' = lr_reports r1" by blast
  have "ReadAll r = (let (recs, r'') = ReadAll r' in ((x # xs) @ recs, r''))"
    using IH(1) rr by (simp add: ReadAll.simps [of r] Let_def split: prod.split)
  then show ?case using IH(2,3) r1(3) by (auto simp: w1_def [symmetric])
qed

lemma writer_synced_new:
  "writer_synced (Writer_new \<lparr>wf_name = n, wf_data = [], wf_answers = []\<rparr>)"
  by (simp add: writer_synced_def Writer_new_def)

lemma reader_view_new:
  "reader_view T 0 0 (Reader_new \<lparr>sf_name = n, sf_data = T, sf_answers = []\<rparr> True 0)"
  by (simp add: reader_view_def Reader_new_def)

lemma log_file_append:
  "\<exists>ext. log_file (xs @ ys) = log_file xs @ ext"
  using AddRecords_appends [OF conjunct1 [OF AddRecords_appends [OF writer_synced_new]]]
  by (simp add: log_file_def AddRecords_append)

text \<open>
  Everything up to the last complete record is recovered, whatever part of the next one
  reached the file.
\<close>

lemma log_recover_prefix:
  assumes "length (log_file xs) \<le> m" "m < length (log_file (xs @ [x]))"
  shows "log_recover (take m (log_file (xs @ x # ys))) = (xs, [])"
proof -
  let ?w0 = "Writer_new \<lparr>wf_name = ''log'', wf_data = [], wf_answers = []\<rparr>"
  let ?r0 = "\<lambda>T. Reader_new \<lparr>sf_name = ''log'', sf_data = T, sf_answers = []\<rparr> True 0"
  define w where "w = AddRecords xs ?w0"
  define w1 where "w1 = snd (AddRecord x w)"
  have s: "writer_synced w" using AddRecords_appends [OF writer_synced_new] by (simp add: w_def)
  have lf: "log_file xs = wf_data (lw_dest w)" "log_file (xs @ [x]) = wf_data (lw_dest w1)"
    by (simp_all add: log_file_def w_def w1_def AddRecords_append)
  obtain e1 where "log_file ((xs @ [x]) @ ys) = log_file (xs @ [x]) @ e1" using log_file_append by blast
  then have T: "take m (log_file (xs @ x # ys)) = take m (wf_data (lw_dest w1))"
    using assms(2) lf(2) by simp
  define T where "T = take m (wf_data (lw_dest w1))"
  obtain e2 where "wf_data (lw_dest w1) = wf_data (lw_dest w) @ e2"
    using AddRecord_appends(3) [OF s, of x] by (auto simp: w1_def)
  then have T2: "T = wf_data (lw_dest w) @ take (m - length (wf_data (lw_dest w))) e2"
    using assms(1) lf(1) by (simp add: T_def)
  have "length (wf_data (lw_dest ?w0)) = 0" by (simp add: Writer_new_def)
  from ReadAll_complete [OF writer_synced_new [of "''log''"], of xs, folded w_def,
      of "take (m - length (wf_data (lw_dest w))) e2", folded T2, unfolded this,
      OF reader_view_new [where n = "''log''"]]
  obtain r' e' where r': "ReadAll (?r0 T) = (let (recs, r'') = ReadAll r' in (xs @ recs, r''))"
    "reader_view T (length (wf_data (lw_dest w))) e' r'" "lr_reports r' = []"
    by (auto simp: Reader_new_def)
  have "AddRecord_loop True x w = (OK, w1)"
    using AddRecord_appends [OF s] by (simp add: w1_def AddRecord_def prod_eq_iff)
  from read_record_truncated [OF s this T_def _ _ r'(2), of "[]" 0 "[]"] assms lf
  obtain r2 where r2: "ReadRecord_loop [] False 0 [] r' = (False, [], r2)" "lr_reports r2 = []"
    using r'(3) by auto
  have "lr_initial_offset r' = 0" using r'(2) by (simp add: reader_view_def)
  then have "ReadAll r' = ([], r2)" using r2(1) by (simp add: ReadAll.simps [of r'] ReadRecord_offset0)
  then have "ReadAll (?r0 T) = (xs, r2)" using r'(1) by simp
  then show ?thesis unfolding T T_def [symmetric] using r2(2) by (simp add: log_recover_def)
qed

lemma log_recover_complete: "log_recover (log_file xs) = (xs, [])"
proof -
  have "log_file (xs @ [[]]) = log_file xs @ drop (length (log_file xs)) (log_file (xs @ [[]]))"
    using log_file_append [of xs "[[]]"] by auto
  moreover have "length (log_file xs) < length (log_file (xs @ [[]]))"
  proof -
    have "writer_synced (AddRecords xs (Writer_new \<lparr>wf_name = ''log'', wf_data = [], wf_answers = []\<rparr>))"
      using AddRecords_appends [OF writer_synced_new] by blast
    from AddRecord_appends(3) [OF this, of "[]"] show ?thesis
      by (auto simp: log_file_def AddRecords_append)
  qed
  ultimately have "log_recover (take (length (log_file xs)) (log_file (xs @ [[]]))) = (xs, [])"
    using log_recover_prefix [of xs "length (log_file xs)" "[]" "[]"] by simp
  then show ?thesis
    using log_file_append [of xs "[[]]"] by (metis append_eq_conv_conj)
qed

text \<open>Short records are laid out one after the other, each behind its header.\<close>

lemma AddRecord_small:
  assumes "wf_answers (lw_dest w) = []" "lw_block_offset w + kHeaderSize + length x \<le> kBlockSize"
  shows "AddRecord x w = (OK, w\<lparr>lw_dest := (lw_dest w)\<lparr>wf_data := wf_data (lw_dest w) @ log_header kFullType x @ x\<rparr>,
      lw_block_offset := lw_block_offset w + (kHeaderSize + length x)\<rparr>)"
proof -
  have B: "kBlockSize = 32768" "kHeaderSize = 7" by (simp_all add: kBlockSize_def kHeaderSize_def)
  have sw: "switch_block w = w" using assms by (simp add: switch_block_def B Let_def)
  have fl: "(if length x < kBlockSize - lw_block_offset w - kHeaderSize then length x
      else kBlockSize - lw_block_offset w - kHeaderSize) = length x"
    using assms by (auto simp: B)
  have em: "EmitPhysicalRecord kFullType x w = (OK, w\<lparr>lw_dest := (lw_dest w)\<lparr>wf_data := wf_data (lw_dest w) @ log_header kFullType x @ x\<rparr>,
      lw_block_offset := lw_block_offset w + (kHeaderSize + length x)\<rparr>)"
    using assms(1) by (simp add: EmitPhysicalRecord_def Let_def)
  show ?thesis
    unfolding AddRecord_def AddRecord_loop.simps [of True x w] Let_def sw fl
    by (simp add: fragment_type_def em)
qed

lemma AddRecords_small:
  "wf_answers (lw_dest w) = [] \<Longrightarrow>
   lw_block_offset w + sum_list (map (\<lambda>x. kHeaderSize + length x) xs) \<le> kBlockSize \<Longrightarrow>
   wf_data (lw_dest (AddRecords xs w)) = wf_data (lw_dest w) @ concat (map (\<lambda>x. log_header kFullType x @ x) xs)"
proof (induction xs arbitrary: w)
  case (Cons x xs)
  have "AddRecord x w = (OK, w\<lparr>lw_dest := (lw_dest w)\<lparr>wf_data := wf_data (lw_dest w) @ log_header kFullType x @ x\<rparr>,
      lw_block_offset := lw_block_offset w + (kHeaderSize + length x)\<rparr>)"
    by (rule AddRecord_small) (use Cons.prems in auto)
  then show ?case using Cons.prems by (simp add: Cons.IH)
qed simp

lemma log_file_small:
  "sum_list (map (\<lambda>x. kHeaderSize + length x) xs) \<le> kBlockSize \<Longrightarrow>
   log_file xs = concat (map (\<lambda>x. log_header kFullType x @ x) xs)"
  by (simp add: log_file_def Writer_new_def AddRecords_small)

end
