(* ===== verification/SkipList.thy ===== *)
theory SkipList
  imports "HOL-Library.Multiset" ComparatorSpec
begin

text \<open>
  \<open>util/random.h\<close> and \<open>db/skiplist.h\<close>. Nodes live in an arena and are never freed: a node is its
  index in \<open>sl_nodes\<close>, the head is node 0, and a node's \<open>next_\<close> array has one entry per level of
  its height. The search loops follow pointers, so they are partial functions; on a well-formed
  list they return (\<open>None\<close> would be a loop that does not end).
\<close>

section \<open>Random numbers\<close>

definition Random_new :: "u32 \<Rightarrow> u32" where
  "Random_new s =
     (let seed = s AND 0x7fffffff in if seed = 0 \<or> seed = 2147483647 then 1 else seed)"

text \<open>\<open>Random::Next\<close> returns the new seed.\<close>

definition Random_Next :: "u32 \<Rightarrow> u32" where
  "Random_Next seed =
     (let M = 2147483647 :: u32;
          product = ucast seed * 16807 :: u64;
          seed = ucast (drop_bit 31 product + (product AND ucast M))
      in if seed > M then seed - M else seed)"

section \<open>The list\<close>

record 'k skip_node =
  sn_key :: 'k
  sn_next :: "nat option list"

record 'k skiplist =
  sl_nodes :: "'k skip_node list"
  sl_max_height :: nat
  sl_rnd :: u32

definition kMaxHeight :: nat where "kMaxHeight = 12"

definition nth_next :: "'k skip_node list \<Rightarrow> nat \<Rightarrow> nat \<Rightarrow> nat option" where
  "nth_next nodes x n = sn_next (nodes ! x) ! n"

definition SetNext :: "nat \<Rightarrow> nat \<Rightarrow> nat option \<Rightarrow> 'k skip_node list \<Rightarrow> 'k skip_node list" where
  "SetNext x n v nodes = nodes[x := (nodes ! x)\<lparr>sn_next := (sn_next (nodes ! x))[n := v]\<rparr>]"

text \<open>The head's key is never compared; any key will do.\<close>

definition SkipList_new :: "'k \<Rightarrow> 'k skiplist" where
  "SkipList_new any_key =
     \<lparr>sl_nodes = [\<lparr>sn_key = any_key, sn_next = replicate kMaxHeight None\<rparr>],
      sl_max_height = 1, sl_rnd = Random_new 0xdeadbeef\<rparr>"

function RandomHeight_loop :: "nat \<Rightarrow> u32 \<Rightarrow> nat \<times> u32" where
  "RandomHeight_loop height rnd =
     (if height < kMaxHeight then
        let rnd = Random_Next rnd
        in if rnd mod 4 = 0 then RandomHeight_loop (height + 1) rnd else (height, rnd)
      else (height, rnd))"
  by pat_completeness auto
termination by (relation "measure (\<lambda>(h, r). kMaxHeight - h)") auto

declare RandomHeight_loop.simps [simp del]

definition RandomHeight :: "u32 \<Rightarrow> nat \<times> u32" where
  "RandomHeight rnd = RandomHeight_loop 1 rnd"

definition KeyIsAfterNode :: "('k \<Rightarrow> 'k \<Rightarrow> int) \<Rightarrow> 'k skiplist \<Rightarrow> 'k \<Rightarrow> nat option \<Rightarrow> bool" where
  "KeyIsAfterNode cmp sl key n =
     (case n of None \<Rightarrow> False | Some n \<Rightarrow> cmp (sn_key (sl_nodes sl ! n)) key < 0)"

text \<open>\<open>prev\<close> is an uninitialised array: \<open>None\<close> marks an entry that was not assigned.\<close>

partial_function (option) FindGreaterOrEqual_loop ::
  "('k \<Rightarrow> 'k \<Rightarrow> int) \<Rightarrow> 'k skiplist \<Rightarrow> 'k \<Rightarrow> nat \<Rightarrow> nat \<Rightarrow> nat option list \<Rightarrow>
     (nat option \<times> nat option list) option" where
  [code]: "FindGreaterOrEqual_loop cmp sl key x level prev =
     (let nxt = nth_next (sl_nodes sl) x level
      in if KeyIsAfterNode cmp sl key nxt
         then FindGreaterOrEqual_loop cmp sl key (the nxt) level prev
         else
           let prev = prev[level := Some x]
           in if level = 0 then Some (nxt, prev)
              else FindGreaterOrEqual_loop cmp sl key x (level - 1) prev)"

definition FindGreaterOrEqual ::
  "('k \<Rightarrow> 'k \<Rightarrow> int) \<Rightarrow> 'k skiplist \<Rightarrow> 'k \<Rightarrow> (nat option \<times> nat option list) option" where
  "FindGreaterOrEqual cmp sl key =
     FindGreaterOrEqual_loop cmp sl key 0 (sl_max_height sl - 1) (replicate kMaxHeight None)"

partial_function (option) FindLessThan_loop ::
  "('k \<Rightarrow> 'k \<Rightarrow> int) \<Rightarrow> 'k skiplist \<Rightarrow> 'k \<Rightarrow> nat \<Rightarrow> nat \<Rightarrow> nat option" where
  [code]: "FindLessThan_loop cmp sl key x level =
     (let nxt = nth_next (sl_nodes sl) x level
      in if nxt = None \<or> cmp (sn_key (sl_nodes sl ! the nxt)) key \<ge> 0
         then if level = 0 then Some x else FindLessThan_loop cmp sl key x (level - 1)
         else FindLessThan_loop cmp sl key (the nxt) level)"

definition FindLessThan :: "('k \<Rightarrow> 'k \<Rightarrow> int) \<Rightarrow> 'k skiplist \<Rightarrow> 'k \<Rightarrow> nat option" where
  "FindLessThan cmp sl key = FindLessThan_loop cmp sl key 0 (sl_max_height sl - 1)"

partial_function (option) FindLast_loop :: "'k skiplist \<Rightarrow> nat \<Rightarrow> nat \<Rightarrow> nat option" where
  [code]: "FindLast_loop sl x level =
     (let nxt = nth_next (sl_nodes sl) x level
      in if nxt = None
         then if level = 0 then Some x else FindLast_loop sl x (level - 1)
         else FindLast_loop sl (the nxt) level)"

definition FindLast :: "'k skiplist \<Rightarrow> nat option" where
  "FindLast sl = FindLast_loop sl 0 (sl_max_height sl - 1)"

text \<open>The loop of \<open>Insert\<close> that links the new node \<open>x\<close> in at level \<open>i\<close>.\<close>

definition link_level :: "nat \<Rightarrow> nat option list \<Rightarrow> nat \<Rightarrow> 'k skip_node list \<Rightarrow> 'k skip_node list" where
  "link_level x prev i nodes =
     (let p = the (prev ! i); nodes = SetNext x i (nth_next nodes p i) nodes
      in SetNext p i (Some x) nodes)"

definition SkipList_Insert :: "('k \<Rightarrow> 'k \<Rightarrow> int) \<Rightarrow> 'k \<Rightarrow> 'k skiplist \<Rightarrow> 'k skiplist option" where
  "SkipList_Insert cmp key sl =
     (case FindGreaterOrEqual cmp sl key of
        None \<Rightarrow> None
      | Some (_, prev) \<Rightarrow>
          let (height, rnd) = RandomHeight (sl_rnd sl);
              prev = fold (\<lambda>i prev. prev[i := Some 0]) [sl_max_height sl..<height] prev;
              x = length (sl_nodes sl);
              nodes = sl_nodes sl @ [\<lparr>sn_key = key, sn_next = replicate height None\<rparr>]
          in Some \<lparr>sl_nodes = fold (link_level x prev) [0..<height] nodes,
                   sl_max_height = max (sl_max_height sl) height, sl_rnd = rnd\<rparr>)"

definition SkipList_Contains :: "('k \<Rightarrow> 'k \<Rightarrow> int) \<Rightarrow> 'k skiplist \<Rightarrow> 'k \<Rightarrow> bool option" where
  "SkipList_Contains cmp sl key =
     (case FindGreaterOrEqual cmp sl key of
        None \<Rightarrow> None
      | Some (x, _) \<Rightarrow> Some (x \<noteq> None \<and> cmp key (sn_key (sl_nodes sl ! the x)) = 0))"

section \<open>Iterators\<close>

text \<open>An iterator is the node it is at, \<open>None\<close> when it is not valid.\<close>

definition SkipIter_key :: "'k skiplist \<Rightarrow> nat \<Rightarrow> 'k" where
  "SkipIter_key sl n = sn_key (sl_nodes sl ! n)"

definition SkipIter_Next :: "'k skiplist \<Rightarrow> nat \<Rightarrow> nat option" where
  "SkipIter_Next sl n = nth_next (sl_nodes sl) n 0"

definition not_head :: "nat \<Rightarrow> nat option" where
  "not_head n = (if n = 0 then None else Some n)"

definition SkipIter_Prev :: "('k \<Rightarrow> 'k \<Rightarrow> int) \<Rightarrow> 'k skiplist \<Rightarrow> nat \<Rightarrow> nat option option" where
  "SkipIter_Prev cmp sl n = map_option not_head (FindLessThan cmp sl (sn_key (sl_nodes sl ! n)))"

definition SkipIter_Seek :: "('k \<Rightarrow> 'k \<Rightarrow> int) \<Rightarrow> 'k skiplist \<Rightarrow> 'k \<Rightarrow> nat option option" where
  "SkipIter_Seek cmp sl target = map_option fst (FindGreaterOrEqual cmp sl target)"

definition SkipIter_SeekToFirst :: "'k skiplist \<Rightarrow> nat option" where
  "SkipIter_SeekToFirst sl = nth_next (sl_nodes sl) 0 0"

definition SkipIter_SeekToLast :: "'k skiplist \<Rightarrow> nat option option" where
  "SkipIter_SeekToLast sl = map_option not_head (FindLast sl)"

section \<open>Random numbers stay in range\<close>

lemma RandomHeight_loop_bounds:
  "1 \<le> h \<Longrightarrow> h \<le> kMaxHeight \<Longrightarrow> RandomHeight_loop h rnd = (h', rnd') \<Longrightarrow> 1 \<le> h' \<and> h' \<le> kMaxHeight"
  by (induction h rnd rule: RandomHeight_loop.induct)
    (subst (asm) RandomHeight_loop.simps, auto simp: Let_def split: if_splits)

lemma RandomHeight_bounds: "RandomHeight rnd = (h, rnd') \<Longrightarrow> 1 \<le> h \<and> h \<le> kMaxHeight"
  using RandomHeight_loop_bounds [of 1] by (simp add: RandomHeight_def kMaxHeight_def)

lemma Random_Next_mod:
  assumes "seed \<le> 2147483647"
  shows "unat (Random_Next seed) mod 2147483647 = (unat seed * 16807) mod 2147483647"
    and "Random_Next seed \<le> 2147483647"
proof -
  define s where "s = unat seed"
  have s: "s \<le> 2147483647" using assms by (simp add: word_le_nat_alt s_def)
  define p where "p = s * 16807"
  have p: "p < 2 ^ 46" using s by (simp add: p_def)
  have up: "unat (ucast seed * 16807 :: u64) = p"
    using p by (simp add: unat_word_ariths unat_ucast_up s_def p_def)
  have m: "(ucast (2147483647 :: u32) :: u64) = mask 31" by (simp add: mask_eq_exp_minus_1)
  define q where "q = p div 2147483648 + p mod 2147483648"
  have qb: "q < 4294967296" using p by (simp add: q_def)
  have "unat (drop_bit 31 (ucast seed * 16807 :: u64)) = p div 2147483648"
    by (simp only: unat_drop_bit_eq up) (simp add: drop_bit_eq_div)
  moreover have "unat ((ucast seed * 16807 :: u64) AND ucast (2147483647 :: u32)) = p mod 2147483648"
    unfolding m take_bit_eq_mask [symmetric] by (simp only: unsigned_take_bit_eq up) (simp add: take_bit_eq_mod)
  ultimately have uq: "unat (drop_bit 31 (ucast seed * 16807 :: u64)
      + ((ucast seed * 16807) AND ucast (2147483647 :: u32))) = q"
    using qb by (simp add: unat_word_ariths q_def)
  have u: "unat (ucast (drop_bit 31 (ucast seed * 16807 :: u64)
      + ((ucast seed * 16807) AND ucast (2147483647 :: u32))) :: u32) = q"
    using qb by (simp only: unsigned_ucast_eq uq) (simp add: take_bit_nat_eq_self)
  have "p = 2147483648 * (p div 2147483648) + p mod 2147483648" by simp
  then have "p = q + 2147483647 * (p div 2147483648)" by (simp add: q_def)
  then have md: "p mod 2147483647 = q mod 2147483647" by (metis mod_mult_self2)
  have "p div 2147483648 \<le> 16807" using s by (simp add: p_def)
  then have q2: "q < 2147483648 + 16807"
    unfolding q_def using mod_less_divisor [of 2147483648 p] by linarith
  define w :: u32 where "w = ucast (drop_bit 31 (ucast seed * 16807 :: u64)
      + ((ucast seed * 16807) AND ucast (2147483647 :: u32)))"
  have R: "Random_Next seed = (if w > 2147483647 then w - 2147483647 else w)"
    by (simp add: Random_Next_def w_def Let_def)
  have uw: "unat w = q" using u by (simp add: w_def)
  have "unat (Random_Next seed) = (if q > 2147483647 then q - 2147483647 else q)"
    unfolding R by (auto simp: word_less_nat_alt uw unat_sub word_le_nat_alt)
  then show "unat (Random_Next seed) mod 2147483647 = (unat seed * 16807) mod 2147483647"
    "Random_Next seed \<le> 2147483647"
    using q2 md by (auto simp: word_le_nat_alt le_mod_geq p_def s_def split: if_splits)
qed


section \<open>The order of the keys\<close>

locale key_order =
  fixes cmp :: "'k \<Rightarrow> 'k \<Rightarrow> int" and ok :: "'k \<Rightarrow> bool"
  assumes cmp_refl: "ok a \<Longrightarrow> cmp a a = 0"
    and cmp_flip: "ok a \<Longrightarrow> ok b \<Longrightarrow> (cmp b a > 0) = (cmp a b < 0)"
    and cmp_le_trans: "ok a \<Longrightarrow> ok b \<Longrightarrow> ok c \<Longrightarrow> cmp a b \<le> 0 \<Longrightarrow> cmp b c \<le> 0 \<Longrightarrow> cmp a c \<le> 0"
begin

lemma cmp_not_less: "ok a \<Longrightarrow> ok b \<Longrightarrow> (\<not> cmp a b < 0) = (cmp b a \<le> 0)"
  using cmp_flip [of a b] cmp_flip [of b a] by (metis linorder_not_less order_le_less)

lemma cmp_less_le_trans:
  "ok a \<Longrightarrow> ok b \<Longrightarrow> ok c \<Longrightarrow> cmp a b < 0 \<Longrightarrow> cmp b c \<le> 0 \<Longrightarrow> cmp a c < 0"
  using cmp_not_less [of a c] cmp_not_less [of a b] cmp_le_trans [of b c a] by auto

lemma cmp_le_less_trans:
  "ok a \<Longrightarrow> ok b \<Longrightarrow> ok c \<Longrightarrow> cmp a b \<le> 0 \<Longrightarrow> cmp b c < 0 \<Longrightarrow> cmp a c < 0"
  using cmp_not_less [of a c] cmp_not_less [of b c] cmp_le_trans [of c a b] by auto

end

section \<open>Well-formed lists\<close>

definition key_at :: "'k skip_node list \<Rightarrow> nat \<Rightarrow> 'k" where
  "key_at nodes n = sn_key (nodes ! n)"

definition height_at :: "'k skip_node list \<Rightarrow> nat \<Rightarrow> nat" where
  "height_at nodes n = length (sn_next (nodes ! n))"

text \<open>The nodes of \<open>xs\<close> that take part in level \<open>i\<close>, and the chain of level-\<open>i\<close> links from \<open>x\<close>.\<close>

definition at_level :: "'k skip_node list \<Rightarrow> nat \<Rightarrow> nat list \<Rightarrow> nat list" where
  "at_level nodes i xs = filter (\<lambda>n. i < height_at nodes n) xs"

fun linked :: "'k skip_node list \<Rightarrow> nat \<Rightarrow> nat \<Rightarrow> nat list \<Rightarrow> bool" where
  "linked nodes i x [] = (nth_next nodes x i = None)"
| "linked nodes i x (y # ys) = (nth_next nodes x i = Some y \<and> linked nodes i y ys)"

text \<open>\<open>skip_inv cmp ok sl xs\<close>: \<open>xs\<close> are the nodes of the list in order.\<close>

definition skip_inv :: "('k \<Rightarrow> 'k \<Rightarrow> int) \<Rightarrow> ('k \<Rightarrow> bool) \<Rightarrow> 'k skiplist \<Rightarrow> nat list \<Rightarrow> bool" where
  "skip_inv cmp ok sl xs \<longleftrightarrow>
     sl_nodes sl \<noteq> [] \<and> height_at (sl_nodes sl) 0 = kMaxHeight \<and>
     1 \<le> sl_max_height sl \<and> sl_max_height sl \<le> kMaxHeight \<and> distinct xs \<and>
     (\<forall>x\<in>set xs. 0 < x \<and> x < length (sl_nodes sl) \<and> 1 \<le> height_at (sl_nodes sl) x \<and>
        height_at (sl_nodes sl) x \<le> sl_max_height sl \<and> ok (key_at (sl_nodes sl) x)) \<and>
     sorted_wrt (\<lambda>a b. cmp (key_at (sl_nodes sl) a) (key_at (sl_nodes sl) b) < 0) xs \<and>
     (\<forall>i<kMaxHeight. linked (sl_nodes sl) i 0 (at_level (sl_nodes sl) i xs))"

lemma at_level_append [simp]: "at_level nodes i (xs @ ys) = at_level nodes i xs @ at_level nodes i ys"
  by (simp add: at_level_def)

lemma at_level_Nil [simp]: "at_level nodes i [] = []"
  by (simp add: at_level_def)

lemma set_at_level: "set (at_level nodes i xs) \<subseteq> set xs"
  by (auto simp: at_level_def)

lemma at_level_mono: "i \<le> j \<Longrightarrow> set (at_level nodes j xs) \<subseteq> set (at_level nodes i xs)"
  by (auto simp: at_level_def)

lemma linked_middle:
  "linked nodes i x0 ys \<Longrightarrow> x0 # ys = p @ x # s \<Longrightarrow> linked nodes i x s"
proof (induction ys arbitrary: x0 p)
  case Nil
  then show ?case by (cases p) auto
next
  case (Cons y ys)
  then show ?case by (cases p) auto
qed

definition first_of :: "nat list \<Rightarrow> nat option" where
  "first_of xs = (case xs of [] \<Rightarrow> None | y # ys \<Rightarrow> Some y)"

lemma first_of_simps [simp]: "first_of [] = None" "first_of (y # ys) = Some y"
  by (simp_all add: first_of_def)

lemma linked_next: "linked nodes i x s \<Longrightarrow> nth_next nodes x i = first_of s"
  by (cases s) auto

text \<open>
  A search descends the levels: the list splits into a part \<open>a\<close> the search passes and a part
  \<open>b\<close> it stops at. \<open>descends\<close> is what all three loops need of the list.
\<close>

definition split_at :: "'k skiplist \<Rightarrow> nat list \<Rightarrow> nat list \<Rightarrow> bool" where
  "split_at sl a b \<longleftrightarrow> sl_max_height sl \<le> kMaxHeight \<and> 1 \<le> sl_max_height sl \<and>
     (\<forall>x\<in>set (a @ b). 1 \<le> height_at (sl_nodes sl) x) \<and>
     (\<forall>i<kMaxHeight. linked (sl_nodes sl) i 0 (at_level (sl_nodes sl) i (a @ b)))"

lemma split_at_next:
  assumes "split_at sl a b" "level < kMaxHeight"
    "0 # at_level (sl_nodes sl) level a = p @ x # s"
  shows "nth_next (sl_nodes sl) x level = first_of (s @ at_level (sl_nodes sl) level b)"
proof -
  have "linked (sl_nodes sl) level 0 (at_level (sl_nodes sl) level (a @ b))"
    using assms by (simp add: split_at_def)
  moreover have "0 # at_level (sl_nodes sl) level (a @ b) = p @ x # (s @ at_level (sl_nodes sl) level b)"
    using assms(3) by simp
  ultimately show ?thesis using linked_middle linked_next by metis
qed

lemma split_at_level0: "split_at sl a b \<Longrightarrow> at_level (sl_nodes sl) 0 a = a \<and> at_level (sl_nodes sl) 0 b = b"
  by (auto simp: split_at_def at_level_def filter_id_conv Suc_le_eq)

lemma split_at_down:
  assumes "0 # at_level nodes (Suc level) a = p @ [x]"
  obtains q s where "0 # at_level nodes level a = q @ x # s"
proof -
  have "x \<in> set (0 # at_level nodes (Suc level) a)" unfolding assms by simp
  then have "x \<in> set (0 # at_level nodes level a)" using at_level_mono [of level "Suc level" nodes a] by auto
  then show thesis using that by (metis split_list)
qed

lemma split_at_advance:
  assumes "split_at sl a b" "level < kMaxHeight" "0 # at_level (sl_nodes sl) level a = p @ x # y # s"
  shows "nth_next (sl_nodes sl) x level = Some y" "y \<in> set a"
proof -
  show "nth_next (sl_nodes sl) x level = Some y" using split_at_next [OF assms] by simp
  have "y \<in> set (at_level (sl_nodes sl) level a)" using assms(3) by (cases p) auto
  then show "y \<in> set a" using set_at_level by blast
qed

lemma split_at_stop:
  assumes "split_at sl a b" "level < kMaxHeight" "0 # at_level (sl_nodes sl) level a = p @ [x]"
  obtains "nth_next (sl_nodes sl) x level = None" |
    y where "nth_next (sl_nodes sl) x level = Some y" "y \<in> set b"
  using split_at_next [OF assms] set_at_level [of "sl_nodes sl" level b]
  by (cases "at_level (sl_nodes sl) level b") auto

lemma split_at_bottom:
  assumes "split_at sl a b" "0 # at_level (sl_nodes sl) 0 a = p @ [x]"
  shows "nth_next (sl_nodes sl) x 0 = first_of b" "x = last (0 # a)"
  using split_at_next [OF assms(1) _ assms(2)] split_at_level0 [OF assms(1)] assms(2)
  by (auto simp: kMaxHeight_def)

lemma FindGreaterOrEqual_loop_result:
  assumes sp: "split_at sl a b" and lo: "\<forall>n\<in>set a. cmp (key_at (sl_nodes sl) n) key < 0"
    and hi: "\<forall>n\<in>set b. \<not> cmp (key_at (sl_nodes sl) n) key < 0"
  shows "level < kMaxHeight \<Longrightarrow> 0 # at_level (sl_nodes sl) level a = p @ x # s \<Longrightarrow>
     length prev = kMaxHeight \<Longrightarrow>
     \<exists>prev'. FindGreaterOrEqual_loop cmp sl key x level prev = Some (first_of b, prev') \<and>
     length prev' = kMaxHeight \<and>
     (\<forall>j<kMaxHeight. prev' ! j = (if j \<le> level then Some (last (0 # at_level (sl_nodes sl) j a)) else prev ! j))"
proof (induction level arbitrary: s p x prev)
  case lev: 0
  then show ?case
  proof (induction s arbitrary: p x)
    case Nil
    note nx = split_at_bottom [OF sp Nil(2)]
    have "\<not> KeyIsAfterNode cmp sl key (first_of b)"
      using hi by (cases b) (auto simp: KeyIsAfterNode_def key_at_def)
    then show ?case using Nil nx split_at_level0 [OF sp]
      by (subst FindGreaterOrEqual_loop.simps) (auto simp: Let_def nth_list_update)
  next
    case (Cons y s)
    note nx = split_at_advance [OF sp Cons.prems(1,2)]
    then have "KeyIsAfterNode cmp sl key (Some y)"
      using lo by (auto simp: KeyIsAfterNode_def key_at_def)
    then show ?case using Cons.IH [of "p @ [x]" y] Cons.prems nx
      by (subst FindGreaterOrEqual_loop.simps) (auto simp: Let_def)
  qed
next
  case (Suc level)
  from Suc.prems show ?case
  proof (induction s arbitrary: p x)
    case Nil
    have stop: "\<not> KeyIsAfterNode cmp sl key (nth_next (sl_nodes sl) x (Suc level))"
      by (rule split_at_stop [OF sp Nil(1,2)]) (use hi in \<open>auto simp: KeyIsAfterNode_def key_at_def\<close>)
    have x: "x = last (0 # at_level (sl_nodes sl) (Suc level) a)" using Nil(2) by (metis last_snoc)
    obtain q t where "0 # at_level (sl_nodes sl) level a = q @ x # t" using split_at_down [OF Nil(2)] .
    from Suc.IH [OF _ this, of "prev[Suc level := Some x]"] obtain prev' where
      "FindGreaterOrEqual_loop cmp sl key x level (prev[Suc level := Some x]) = Some (first_of b, prev')"
      "length prev' = kMaxHeight"
      "\<forall>j<kMaxHeight. prev' ! j = (if j \<le> level then Some (last (0 # at_level (sl_nodes sl) j a))
         else prev[Suc level := Some x] ! j)"
      using Nil(1,3) by auto
    then show ?case using stop Nil(1,3) x
      by (subst FindGreaterOrEqual_loop.simps) (auto simp: Let_def nth_list_update le_Suc_eq)
  next
    case (Cons y s)
    note nx = split_at_advance [OF sp Cons.prems(1,2)]
    then have "KeyIsAfterNode cmp sl key (Some y)"
      using lo by (auto simp: KeyIsAfterNode_def key_at_def)
    then show ?case using Cons.IH [of "p @ [x]" y] Cons.prems nx
      by (subst FindGreaterOrEqual_loop.simps) (auto simp: Let_def)
  qed
qed

lemma FindLessThan_loop_result:
  assumes sp: "split_at sl a b" and lo: "\<forall>n\<in>set a. cmp (key_at (sl_nodes sl) n) key < 0"
    and hi: "\<forall>n\<in>set b. \<not> cmp (key_at (sl_nodes sl) n) key < 0"
  shows "level < kMaxHeight \<Longrightarrow> 0 # at_level (sl_nodes sl) level a = p @ x # s \<Longrightarrow>
     FindLessThan_loop cmp sl key x level = Some (last (0 # a))"
proof (induction level arbitrary: s p x)
  case 0
  then show ?case
  proof (induction s arbitrary: p x)
    case Nil
    have "nth_next (sl_nodes sl) x 0 = None \<or> cmp (sn_key (sl_nodes sl ! the (nth_next (sl_nodes sl) x 0))) key \<ge> 0"
      by (rule split_at_stop [OF sp Nil(1,2)]) (use hi in \<open>auto simp: key_at_def not_less\<close>)
    then show ?case using split_at_bottom(2) [OF sp Nil(2)]
      by (subst FindLessThan_loop.simps) (simp add: Let_def)
  next
    case (Cons y s)
    note nx = split_at_advance [OF sp Cons.prems(1,2)]
    then show ?case using Cons.IH [of "p @ [x]" y] Cons.prems lo
      by (subst FindLessThan_loop.simps) (auto simp: Let_def key_at_def)
  qed
next
  case (Suc level)
  from Suc.prems show ?case
  proof (induction s arbitrary: p x)
    case Nil
    have stop: "nth_next (sl_nodes sl) x (Suc level) = None \<or>
        cmp (sn_key (sl_nodes sl ! the (nth_next (sl_nodes sl) x (Suc level)))) key \<ge> 0"
      by (rule split_at_stop [OF sp Nil(1,2)]) (use hi in \<open>auto simp: key_at_def not_less\<close>)
    obtain q t where "0 # at_level (sl_nodes sl) level a = q @ x # t" using split_at_down [OF Nil(2)] .
    from Suc.IH [OF _ this] stop Nil(1) show ?case
      by (subst FindLessThan_loop.simps) (simp add: Let_def)
  next
    case (Cons y s)
    note nx = split_at_advance [OF sp Cons.prems(1,2)]
    then show ?case using Cons.IH [of "p @ [x]" y] Cons.prems lo
      by (subst FindLessThan_loop.simps) (auto simp: Let_def key_at_def)
  qed
qed

lemma FindLast_loop_result:
  assumes sp: "split_at sl a []"
  shows "level < kMaxHeight \<Longrightarrow> 0 # at_level (sl_nodes sl) level a = p @ x # s \<Longrightarrow>
     FindLast_loop sl x level = Some (last (0 # a))"
proof (induction level arbitrary: s p x)
  case 0
  then show ?case
  proof (induction s arbitrary: p x)
    case Nil
    then show ?case using split_at_bottom [OF sp Nil(2)]
      by (subst FindLast_loop.simps) (simp add: Let_def)
  next
    case (Cons y s)
    note nx = split_at_advance [OF sp Cons.prems(1,2)]
    then show ?case using Cons.IH [of "p @ [x]" y] Cons.prems
      by (subst FindLast_loop.simps) (auto simp: Let_def)
  qed
next
  case (Suc level)
  from Suc.prems show ?case
  proof (induction s arbitrary: p x)
    case Nil
    have stop: "nth_next (sl_nodes sl) x (Suc level) = None"
      by (rule split_at_stop [OF sp Nil(1,2)]) auto
    obtain q t where "0 # at_level (sl_nodes sl) level a = q @ x # t" using split_at_down [OF Nil(2)] .
    from Suc.IH [OF _ this] stop Nil(1) show ?case
      by (subst FindLast_loop.simps) (simp add: Let_def)
  next
    case (Cons y s)
    note nx = split_at_advance [OF sp Cons.prems(1,2)]
    then show ?case using Cons.IH [of "p @ [x]" y] Cons.prems
      by (subst FindLast_loop.simps) (auto simp: Let_def)
  qed
qed


section \<open>Linking a node in\<close>

lemma nth_next_SetNext:
  assumes "x < length nodes" "i < height_at nodes x"
  shows "nth_next (SetNext x i v nodes) y j = (if y = x \<and> j = i then v else nth_next nodes y j)"
  using assms by (auto simp: nth_next_def SetNext_def height_at_def nth_list_update)

lemma nth_update_same:
  "(P (f (nodes ! x)) = P (nodes ! x)) \<Longrightarrow> P (nodes[x := f (nodes ! x)] ! y) = P (nodes ! y)"
  by (cases "x < length nodes"; cases "x = y") (auto simp: list_update_beyond)

lemma SetNext_shape [simp]:
  "length (SetNext x i v nodes) = length nodes" "height_at (SetNext x i v nodes) y = height_at nodes y"
  "key_at (SetNext x i v nodes) y = key_at nodes y"
proof -
  show "length (SetNext x i v nodes) = length nodes" by (simp add: SetNext_def)
  show "height_at (SetNext x i v nodes) y = height_at nodes y"
    unfolding SetNext_def height_at_def
    by (rule nth_update_same [where P = "\<lambda>n. length (sn_next n)"]) simp
  show "key_at (SetNext x i v nodes) y = key_at nodes y"
    unfolding SetNext_def key_at_def by (rule nth_update_same [where P = sn_key]) simp
qed

lemma linked_cong:
  "(\<And>y. y \<in> set (x # ys) \<Longrightarrow> nth_next nodes y i = nth_next nodes' y i) \<Longrightarrow>
   linked nodes i x ys = linked nodes' i x ys"
  by (induction ys arbitrary: x) auto

lemma linked_split:
  "linked nodes i x (p @ s) \<Longrightarrow> nth_next nodes (last (x # p)) i = first_of s"
proof (induction p arbitrary: x)
  case Nil
  then show ?case using linked_next by simp
next
  case (Cons y p)
  then show ?case by simp
qed

lemma linked_insert:
  assumes "linked nodes i x (p @ s)" "distinct (x # p @ s)" "n \<notin> set (x # p @ s)"
    and "\<And>y. nth_next nodes' y i =
      (if y = n then first_of s else if y = last (x # p) then Some n else nth_next nodes y i)"
  shows "linked nodes' i x (p @ n # s)"
  using assms
proof (induction p arbitrary: x)
  case Nil
  have "linked nodes' i n s"
  proof (cases s)
    case Nil
    then show ?thesis using Nil.prems by auto
  next
    case (Cons z zs)
    have "linked nodes i z zs" using Nil.prems(1) Cons by simp
    moreover have "linked nodes i z zs = linked nodes' i z zs"
      using Nil.prems Cons by (intro linked_cong) auto
    ultimately show ?thesis using Nil.prems Cons by auto
  qed
  then show ?case using Nil.prems by auto
next
  case (Cons y p)
  have nx: "last (x # y # p) = last (y # p)" "last (y # p) \<noteq> x" using Cons.prems(2)
    by (auto simp: last_in_set split: if_splits)
  have "linked nodes' i y (p @ n # s)"
    by (rule Cons.IH) (use Cons.prems in auto)
  then show ?case using Cons.prems nx by auto
qed

text \<open>After the levels below \<open>k\<close>, the node \<open>n\<close> is linked in exactly there.\<close>

lemma link_levels:
  assumes "n < length nodes" "height_at nodes n = h" "h \<le> kMaxHeight"
    and "\<And>i. i < h \<Longrightarrow> prev ! i = Some (last (0 # p i))"
    and "\<And>i. i < h \<Longrightarrow> linked nodes i 0 (p i @ s i)"
    and "\<And>i. i < h \<Longrightarrow> distinct (0 # p i @ s i)" "\<And>i. i < h \<Longrightarrow> n \<notin> set (0 # p i @ s i)"
    and "\<And>i y. i < h \<Longrightarrow> y \<in> set (0 # p i @ s i) \<Longrightarrow> y < length nodes \<and> i < height_at nodes y"
  shows "k \<le> h \<Longrightarrow> (let nodes' = fold (link_level n prev) [0..<k] nodes in
     length nodes' = length nodes \<and> (\<forall>y. height_at nodes' y = height_at nodes y \<and> key_at nodes' y = key_at nodes y) \<and>
     (\<forall>i<k. linked nodes' i 0 (p i @ n # s i)) \<and>
     (\<forall>i. k \<le> i \<longrightarrow> (\<forall>y. nth_next nodes' y i = nth_next nodes y i)))"
proof (induction k)
  case 0
  show ?case by simp
next
  case (Suc k)
  define nd where "nd = fold (link_level n prev) [0..<k] nodes"
  define nd' where "nd' = link_level n prev k nd"
  have k: "k < h" using Suc.prems by simp
  have IH: "length nd = length nodes" "\<And>y. height_at nd y = height_at nodes y" "\<And>y. key_at nd y = key_at nodes y"
    "\<And>i. i < k \<Longrightarrow> linked nd i 0 (p i @ n # s i)" "\<And>i y. k \<le> i \<Longrightarrow> nth_next nd y i = nth_next nodes y i"
    using Suc.IH k by (simp_all add: nd_def Let_def)
  define l where "l = last (0 # p k)"
  have lk: "l < length nodes \<and> k < height_at nodes l" "l \<noteq> n"
    using assms(7,8) [OF k] by (auto simp: l_def)
  have pk: "the (prev ! k) = l" using assms(4) [OF k] by (simp add: l_def)
  have fits: "n < length nd" "k < height_at nd n" "l < length nd" "k < height_at nd l"
    using lk assms(1,2) IH(1,2) k by auto
  have nd': "nd' = SetNext l k (Some n) (SetNext n k (nth_next nd l k) nd)"
    by (simp add: nd'_def link_level_def Let_def pk)
  have nx: "nth_next nd' y j = (if j = k then (if y = l then Some n else if y = n then nth_next nd l k
      else nth_next nd y k) else nth_next nd y j)" for y j
    unfolding nd' using fits by (subst nth_next_SetNext; simp add: nth_next_SetNext)
  have "nth_next nd l k = first_of (s k)"
    using linked_split [OF assms(5) [OF k]] IH(5) by (simp add: l_def)
  then have "linked nd' k 0 (p k @ n # s k)"
    using linked_insert [OF assms(5-7) [OF k], of nd'] nx IH(5) lk by (simp add: l_def)
  moreover have "linked nd' i 0 (p i @ n # s i)" if "i < k" for i
    using IH(4) [OF that] that nx linked_cong [of 0 _ nd' i nd] by simp
  ultimately have "\<forall>i<Suc k. linked nd' i 0 (p i @ n # s i)" by (simp add: less_Suc_eq)
  moreover have "length nd' = length nodes" "\<forall>y. height_at nd' y = height_at nodes y \<and> key_at nd' y = key_at nodes y"
    using IH by (simp_all add: nd'_def link_level_def Let_def)
  moreover have "fold (link_level n prev) [0..<Suc k] nodes = nd'" by (simp add: nd_def nd'_def)
  ultimately show ?case using nx IH(5) by (simp add: Let_def)
qed


section \<open>Searching and inserting\<close>

definition key_less :: "('k \<Rightarrow> 'k \<Rightarrow> int) \<Rightarrow> 'k skiplist \<Rightarrow> 'k \<Rightarrow> nat \<Rightarrow> bool" where
  "key_less cmp sl key n \<longleftrightarrow> cmp (key_at (sl_nodes sl) n) key < 0"

lemma skip_inv_split: "skip_inv cmp ok sl (a @ b) \<Longrightarrow> split_at sl a b"
  by (auto simp: skip_inv_def split_at_def)

context key_order
begin

lemma dropWhile_not_less:
  assumes inv: "skip_inv cmp ok sl xs" and key: "ok key" and n: "n \<in> set (dropWhile (key_less cmp sl key) xs)"
  shows "\<not> key_less cmp sl key n"
proof -
  let ?d = "dropWhile (key_less cmp sl key) xs"
  obtain y ys where d: "?d = y # ys" using n by (cases ?d) auto
  then have y: "\<not> key_less cmp sl key y" by (metis hd_dropWhile list.distinct(1) list.sel(1))
  show ?thesis
  proof (cases "n = y")
    case False
    have xs: "xs = takeWhile (key_less cmp sl key) xs @ y # ys" using d by (metis takeWhile_dropWhile_id)
    have "n \<in> set ys" using n d False by simp
    moreover have "sorted_wrt (\<lambda>a b. cmp (key_at (sl_nodes sl) a) (key_at (sl_nodes sl) b) < 0) (y # ys)"
      using inv xs unfolding skip_inv_def by (metis sorted_wrt_append)
    ultimately have less: "cmp (key_at (sl_nodes sl) y) (key_at (sl_nodes sl) n) < 0" by simp
    have "ok (key_at (sl_nodes sl) y)" "ok (key_at (sl_nodes sl) n)"
      using inv xs \<open>n \<in> set ys\<close> unfolding skip_inv_def by (metis in_set_conv_decomp list.set_intros(2) Un_iff set_append)+
    then show ?thesis
      using y less cmp_less_le_trans [of "key_at (sl_nodes sl) y" "key_at (sl_nodes sl) n" key] key
      by (auto simp: key_less_def)
  qed (use y in simp)
qed

lemma search_split:
  assumes "skip_inv cmp ok sl xs" "ok key"
  defines "a \<equiv> takeWhile (key_less cmp sl key) xs" and "b \<equiv> dropWhile (key_less cmp sl key) xs"
  shows "split_at sl a b" "\<forall>n\<in>set a. cmp (key_at (sl_nodes sl) n) key < 0"
    "\<forall>n\<in>set b. \<not> cmp (key_at (sl_nodes sl) n) key < 0" "xs = a @ b"
  using assms(1) skip_inv_split [of cmp ok sl a b] dropWhile_not_less [OF assms(1,2)]
  by (auto simp: a_def b_def key_less_def dest: set_takeWhileD)

lemma FindGreaterOrEqual_result:
  assumes "skip_inv cmp ok sl xs" "ok key"
  shows "\<exists>prev. FindGreaterOrEqual cmp sl key = Some (first_of (dropWhile (key_less cmp sl key) xs), prev) \<and>
     length prev = kMaxHeight \<and> (\<forall>j < sl_max_height sl. prev ! j =
       Some (last (0 # at_level (sl_nodes sl) j (takeWhile (key_less cmp sl key) xs))))"
proof -
  have h: "sl_max_height sl - 1 < kMaxHeight" "sl_max_height sl \<le> kMaxHeight" "1 \<le> sl_max_height sl"
    using assms(1) by (auto simp: skip_inv_def kMaxHeight_def)
  from FindGreaterOrEqual_loop_result [where cmp = cmp and key = key, OF search_split(1-3) [OF assms] h(1),
      of "[]" 0 _ "replicate kMaxHeight None"]
  show ?thesis using h(2,3) by (fastforce simp: FindGreaterOrEqual_def)
qed

lemma FindLessThan_result:
  assumes "skip_inv cmp ok sl xs" "ok key"
  shows "FindLessThan cmp sl key = Some (last (0 # takeWhile (key_less cmp sl key) xs))"
proof -
  have h: "sl_max_height sl - 1 < kMaxHeight" using assms(1) by (auto simp: skip_inv_def kMaxHeight_def)
  show ?thesis
    using FindLessThan_loop_result [where cmp = cmp and key = key, OF search_split(1-3) [OF assms] h, of "[]" 0] by (simp add: FindLessThan_def)
qed

lemma FindLast_result:
  assumes "skip_inv cmp ok sl xs"
  shows "FindLast sl = Some (last (0 # xs))"
proof -
  have h: "sl_max_height sl - 1 < kMaxHeight" using assms(1) by (auto simp: skip_inv_def kMaxHeight_def)
  have "split_at sl xs []" using skip_inv_split [of cmp ok sl xs "[]"] assms by simp
  from FindLast_loop_result [OF this h, of "[]" 0] show ?thesis by (simp add: FindLast_def)
qed

end

lemma fold_prev_head:
  "length prev = kMaxHeight \<Longrightarrow> h \<le> kMaxHeight \<Longrightarrow>
   length (fold (\<lambda>i prev. prev[i := Some (0 :: nat)]) [m..<h] prev) = kMaxHeight \<and>
   (\<forall>j<kMaxHeight. fold (\<lambda>i prev. prev[i := Some 0]) [m..<h] prev ! j =
      (if m \<le> j \<and> j < h then Some 0 else prev ! j))"
proof (induction h)
  case (Suc h)
  show ?case
  proof (cases "m \<le> h")
    case True
    then show ?thesis using Suc by (auto simp: nth_list_update)
  next
    case False
    then have "[m..<Suc h] = []" by simp
    then show ?thesis using Suc.prems False by (auto simp del: upt_Suc)
  qed
qed simp

lemma SkipList_new_inv: "skip_inv cmp ok (SkipList_new k) []"
  by (simp add: skip_inv_def SkipList_new_def height_at_def nth_next_def kMaxHeight_def)

lemma linked_above_height:
  assumes "skip_inv cmp ok sl xs" "sl_max_height sl \<le> i"
  shows "at_level (sl_nodes sl) i xs = []"
  using assms by (auto simp: skip_inv_def at_level_def filter_empty_conv)

lemma sorted_wrt_insert:
  "sorted_wrt R (a @ b) \<Longrightarrow> \<forall>x\<in>set a. R x n \<Longrightarrow> \<forall>x\<in>set b. R n x \<Longrightarrow> sorted_wrt R (a @ n # b)"
  by (auto simp: sorted_wrt_append)

context key_order
begin

text \<open>
  Inserting a key that equals none of the list returns, keeps the list well formed, and puts
  the new node right after the keys before it; no other node changes its key.
\<close>

lemma SkipList_Insert_inv:
  assumes inv: "skip_inv cmp ok sl xs" and key: "ok key"
    and new: "\<forall>n\<in>set xs. cmp (key_at (sl_nodes sl) n) key \<noteq> 0"
  defines "a \<equiv> takeWhile (key_less cmp sl key) xs" and "b \<equiv> dropWhile (key_less cmp sl key) xs"
    and "n \<equiv> length (sl_nodes sl)"
  shows "\<exists>sl'. SkipList_Insert cmp key sl = Some sl' \<and> skip_inv cmp ok sl' (a @ n # b) \<and>
     key_at (sl_nodes sl') n = key \<and> (\<forall>m<n. key_at (sl_nodes sl') m = key_at (sl_nodes sl) m)"
proof -
  obtain prev where prev: "FindGreaterOrEqual cmp sl key = Some (first_of b, prev)"
    "length prev = kMaxHeight" "\<And>j. j < sl_max_height sl \<Longrightarrow> prev ! j = Some (last (0 # at_level (sl_nodes sl) j a))"
    using FindGreaterOrEqual_result [OF inv key] by (auto simp: a_def b_def)
  obtain h rnd where rh: "RandomHeight (sl_rnd sl) = (h, rnd)" by (metis surj_pair)
  then have h: "1 \<le> h" "h \<le> kMaxHeight" using RandomHeight_bounds by auto
  define prev' where "prev' = fold (\<lambda>i prev. prev[i := Some 0]) [sl_max_height sl..<h] prev"
  define nodes where "nodes = sl_nodes sl @ [\<lparr>sn_key = key, sn_next = replicate h None\<rparr>]"
  define nodes' where "nodes' = fold (link_level n prev') [0..<h] nodes"
  define sl' where "sl' = \<lparr>sl_nodes = nodes', sl_max_height = max (sl_max_height sl) h, sl_rnd = rnd\<rparr>"
  have ins: "SkipList_Insert cmp key sl = Some sl'"
    by (simp add: SkipList_Insert_def prev(1) rh Let_def sl'_def nodes'_def nodes_def prev'_def n_def)
  have I: "sl_nodes sl \<noteq> []" "height_at (sl_nodes sl) 0 = kMaxHeight" "1 \<le> sl_max_height sl"
    "sl_max_height sl \<le> kMaxHeight" "distinct xs"
    "\<And>x. x \<in> set xs \<Longrightarrow> 0 < x \<and> x < n \<and> 1 \<le> height_at (sl_nodes sl) x \<and>
        height_at (sl_nodes sl) x \<le> sl_max_height sl \<and> ok (key_at (sl_nodes sl) x)"
    "sorted_wrt (\<lambda>a b. cmp (key_at (sl_nodes sl) a) (key_at (sl_nodes sl) b) < 0) xs"
    "\<And>i. i < kMaxHeight \<Longrightarrow> linked (sl_nodes sl) i 0 (at_level (sl_nodes sl) i xs)"
    using inv by (auto simp: skip_inv_def n_def)
  have xs: "xs = a @ b" by (simp add: a_def b_def)
  have n0: "0 < n" using I(1) by (simp add: n_def)
  have old: "height_at nodes y = height_at (sl_nodes sl) y" "key_at nodes y = key_at (sl_nodes sl) y"
    "nth_next nodes y i = nth_next (sl_nodes sl) y i" if "y < n" for y i
    using that by (simp_all add: nodes_def n_def height_at_def key_at_def nth_next_def nth_append)
  have fresh: "height_at nodes n = h" "key_at nodes n = key" "n < length nodes"
    by (simp_all add: nodes_def n_def height_at_def key_at_def)
  have lev: "at_level nodes i ys = at_level (sl_nodes sl) i ys" if "set ys \<subseteq> set xs" for i ys
    unfolding at_level_def by (rule filter_cong) (use that I(6) old in auto)
  have lev_ab: "at_level nodes i a = at_level (sl_nodes sl) i a" "at_level nodes i b = at_level (sl_nodes sl) i b" for i
    by (rule lev; simp add: xs)+
  have lk: "linked nodes i 0 (at_level nodes i a @ at_level nodes i b)" if "i < kMaxHeight" for i
  proof -
    have "linked nodes i 0 (at_level nodes i xs) = linked (sl_nodes sl) i 0 (at_level nodes i xs)"
      by (rule linked_cong) (use I(6) n0 old set_at_level in fastforce)
    then show ?thesis using I(8) [OF that] by (simp add: xs lev_ab)
  qed
  have pr: "prev' ! i = Some (last (0 # at_level nodes i a))" if "i < h" for i
  proof (cases "i < sl_max_height sl")
    case True
    then show ?thesis using fold_prev_head [OF prev(2) h(2), of "sl_max_height sl"] prev(3) that h(2)
      by (simp add: prev'_def lev_ab)
  next
    case False
    then have "at_level nodes i a = []"
      using linked_above_height [OF inv, of i] by (simp add: xs lev_ab)
    then show ?thesis using fold_prev_head [OF prev(2) h(2), of "sl_max_height sl"] that h(2) False
      by (simp add: prev'_def)
  qed
  have mem: "y \<in> set xs" if "y \<in> set (at_level nodes i a @ at_level nodes i b)" for y i
    using that set_at_level [of nodes i a] set_at_level [of nodes i b] by (auto simp: xs)
  have link: "length nodes' = length nodes" "\<And>y. height_at nodes' y = height_at nodes y"
    "\<And>y. key_at nodes' y = key_at nodes y"
    "\<And>i. i < h \<Longrightarrow> linked nodes' i 0 (at_level nodes i a @ n # at_level nodes i b)"
    "\<And>i y. h \<le> i \<Longrightarrow> nth_next nodes' y i = nth_next nodes y i"
  proof -
    have d: "distinct (0 # at_level nodes i a @ at_level nodes i b)" "n \<notin> set (0 # at_level nodes i a @ at_level nodes i b)" for i
    proof -
      have "distinct (at_level nodes i (a @ b))"
        using I(5) unfolding xs at_level_def by (rule distinct_filter)
      moreover have "0 \<notin> set (at_level nodes i a @ at_level nodes i b)" using mem I(6) by fastforce
      ultimately show "distinct (0 # at_level nodes i a @ at_level nodes i b)" by simp
      show "n \<notin> set (0 # at_level nodes i a @ at_level nodes i b)" using mem I(6) n0 by fastforce
    qed
    have b: "y < length nodes \<and> i < height_at nodes y"
      if "i < h" "y \<in> set (0 # at_level nodes i a @ at_level nodes i b)" for i y
    proof (cases "y = 0")
      case True
      then show ?thesis using old [OF n0] I(2) that(1) h(2) fresh(3) n0 by (auto simp: less_trans)
    next
      case False
      then have "y \<in> set xs" "i < height_at nodes y" using that mem by (auto simp: at_level_def)
      then show ?thesis using I(6) fresh(3) by fastforce
    qed
    have lk': "linked nodes i 0 (at_level nodes i a @ at_level nodes i b)" if "i < h" for i
      using lk that h(2) by simp
    note L = link_levels [OF fresh(3,1) h(2), of prev' "\<lambda>i. at_level nodes i a" "\<lambda>i. at_level nodes i b" h,
      OF pr lk' d b order_refl, folded nodes'_def, unfolded Let_def]
    show "length nodes' = length nodes" "\<And>y. height_at nodes' y = height_at nodes y"
      "\<And>y. key_at nodes' y = key_at nodes y"
      "\<And>i. i < h \<Longrightarrow> linked nodes' i 0 (at_level nodes i a @ n # at_level nodes i b)"
      "\<And>i y. h \<le> i \<Longrightarrow> nth_next nodes' y i = nth_next nodes y i"
      using L by blast+
  qed
  have lev': "at_level nodes' i ys = at_level nodes i ys" for i ys by (simp add: at_level_def link(2))
  have "linked nodes' i 0 (at_level nodes' i (a @ n # b))" if "i < kMaxHeight" for i
  proof (cases "i < h")
    case True
    then have "at_level nodes i (n # b) = n # at_level nodes i b" by (simp add: at_level_def fresh(1))
    then show ?thesis using link(4) [OF True] by (simp add: lev')
  next
    case False
    then have "at_level nodes i (n # b) = at_level nodes i b" by (simp add: at_level_def fresh(1))
    then show ?thesis using link(5) lk [OF that] False linked_cong [of 0 _ nodes' i nodes] by (simp add: lev')
  qed
  moreover have "distinct (a @ n # b)" using I(5,6) by (auto simp: xs)
  moreover have "sorted_wrt (\<lambda>a b. cmp (key_at nodes' a) (key_at nodes' b) < 0) (a @ n # b)"
  proof (rule sorted_wrt_insert)
    have k: "key_at nodes' m = key_at (sl_nodes sl) m" if "m \<in> set xs" for m
      using that I(6) old by (simp add: link(3))
    have kn: "key_at nodes' n = key" by (simp add: link(3) fresh)
    show "sorted_wrt (\<lambda>a b. cmp (key_at nodes' a) (key_at nodes' b) < 0) (a @ b)"
      unfolding xs [symmetric] by (rule sorted_wrt_mono_rel [OF _ I(7)]) (simp add: k)
    show "\<forall>x\<in>set a. cmp (key_at nodes' x) (key_at nodes' n) < 0"
      using search_split(2) [OF inv key, folded a_def] k kn by (simp add: xs)
    show "\<forall>x\<in>set b. cmp (key_at nodes' n) (key_at nodes' x) < 0"
    proof
      fix x assume x: "x \<in> set b"
      then have "x \<in> set xs" by (simp add: xs)
      moreover from this have "cmp (key_at (sl_nodes sl) x) key > 0"
        using search_split(3) [OF inv key, folded b_def] x new by fastforce
      ultimately show "cmp (key_at nodes' n) (key_at nodes' x) < 0"
        using cmp_flip [of key "key_at (sl_nodes sl) x"] I(6) key k kn by simp
    qed
  qed
  moreover have "\<forall>x\<in>set (a @ n # b). 0 < x \<and> x < length nodes' \<and> 1 \<le> height_at nodes' x \<and>
      height_at nodes' x \<le> max (sl_max_height sl) h \<and> ok (key_at nodes' x)"
  proof
    fix x assume "x \<in> set (a @ n # b)"
    then consider "x = n" | "x \<in> set xs" by (auto simp: xs)
    then show "0 < x \<and> x < length nodes' \<and> 1 \<le> height_at nodes' x \<and>
        height_at nodes' x \<le> max (sl_max_height sl) h \<and> ok (key_at nodes' x)"
    proof cases
      case 1
      then show ?thesis using n0 fresh h(1) key by (simp add: link)
    next
      case 2
      then show ?thesis using I(6) [OF 2] old fresh(3) by (auto simp: link)
    qed
  qed
  moreover have "nodes' \<noteq> []" "height_at nodes' 0 = kMaxHeight"
    using link(1) fresh(3) old(1) [OF n0] I(2) by (auto simp: link(2))
  ultimately have "skip_inv cmp ok sl' (a @ n # b)"
    using I(3,4) h by (simp add: skip_inv_def sl'_def)
  moreover have "key_at (sl_nodes sl') n = key" "\<forall>m<n. key_at (sl_nodes sl') m = key_at (sl_nodes sl) m"
    by (simp_all add: sl'_def link(3) fresh old)
  ultimately show ?thesis using ins by blast
qed

end

section \<open>The list as an ordered set\<close>

text \<open>
  The keys a forward iterator reaches. The walk needs at most one step for every node ever made,
  which bounds it.
\<close>

fun skip_walk :: "nat \<Rightarrow> 'k skiplist \<Rightarrow> nat option \<Rightarrow> 'k list" where
  "skip_walk 0 sl n = []"
| "skip_walk (Suc fuel) sl None = []"
| "skip_walk (Suc fuel) sl (Some n) = SkipIter_key sl n # skip_walk fuel sl (SkipIter_Next sl n)"

definition skip_scan :: "'k skiplist \<Rightarrow> 'k list" where
  "skip_scan sl = skip_walk (length (sl_nodes sl)) sl (SkipIter_SeekToFirst sl)"

fun SkipList_Inserts :: "('k \<Rightarrow> 'k \<Rightarrow> int) \<Rightarrow> 'k list \<Rightarrow> 'k skiplist \<Rightarrow> 'k skiplist option" where
  "SkipList_Inserts cmp [] sl = Some sl"
| "SkipList_Inserts cmp (k # ks) sl = Option.bind (SkipList_Insert cmp k sl) (SkipList_Inserts cmp ks)"

lemma skip_walk_linked:
  "linked (sl_nodes sl) 0 x xs \<Longrightarrow> length xs \<le> fuel \<Longrightarrow>
   skip_walk fuel sl (nth_next (sl_nodes sl) x 0) = map (key_at (sl_nodes sl)) xs"
proof (induction xs arbitrary: x fuel)
  case Nil
  then show ?case by (cases fuel) auto
next
  case (Cons y ys)
  then show ?case by (cases fuel) (auto simp: SkipIter_key_def key_at_def SkipIter_Next_def)
qed

lemma skip_scan_keys:
  assumes "skip_inv cmp ok sl xs"
  shows "skip_scan sl = map (key_at (sl_nodes sl)) xs"
proof -
  have x: "\<forall>x\<in>set xs. 0 < x \<and> x < length (sl_nodes sl) \<and> 1 \<le> height_at (sl_nodes sl) x" "distinct xs"
    using assms unfolding skip_inv_def by blast+
  then have "set xs \<subseteq> {0..<length (sl_nodes sl)}" by auto
  then have "length xs \<le> length (sl_nodes sl)"
    using x(2) card_mono [of "{0..<length (sl_nodes sl)}" "set xs"] by (simp add: distinct_card)
  moreover have "at_level (sl_nodes sl) 0 xs = xs" using x by (simp add: at_level_def filter_id_conv Suc_le_eq)
  moreover have "linked (sl_nodes sl) 0 0 (at_level (sl_nodes sl) 0 xs)"
    using assms by (simp add: skip_inv_def kMaxHeight_def)
  ultimately show ?thesis by (simp add: skip_scan_def SkipIter_SeekToFirst_def skip_walk_linked)
qed

context key_order
begin

lemma SkipList_Inserts_inv:
  "skip_inv cmp ok sl xs \<Longrightarrow> list_all ok keys \<Longrightarrow>
   sorted_wrt (\<lambda>a b. cmp a b \<noteq> 0) (map (key_at (sl_nodes sl)) xs @ keys) \<Longrightarrow>
   \<exists>sl' ys. SkipList_Inserts cmp keys sl = Some sl' \<and> skip_inv cmp ok sl' ys \<and>
     mset (map (key_at (sl_nodes sl')) ys) = mset (map (key_at (sl_nodes sl)) xs @ keys)"
proof (induction keys arbitrary: sl xs)
  case (Cons k ks)
  let ?a = "takeWhile (key_less cmp sl k) xs" and ?b = "dropWhile (key_less cmp sl k) xs"
  let ?n = "length (sl_nodes sl)"
  have new: "\<forall>n\<in>set xs. cmp (key_at (sl_nodes sl) n) k \<noteq> 0" and ok: "ok k"
    using Cons.prems by (auto simp: sorted_wrt_append)
  obtain sl' where sl': "SkipList_Insert cmp k sl = Some sl'" "skip_inv cmp ok sl' (?a @ ?n # ?b)"
    "key_at (sl_nodes sl') ?n = k" "\<forall>m<?n. key_at (sl_nodes sl') m = key_at (sl_nodes sl) m"
    using SkipList_Insert_inv [OF Cons.prems(1) ok new] by blast
  have xs: "\<forall>x\<in>set xs. x < ?n" using Cons.prems(1) unfolding skip_inv_def by blast
  then have "map (key_at (sl_nodes sl')) xs = map (key_at (sl_nodes sl)) xs" using sl'(4) by simp
  then have split: "map (key_at (sl_nodes sl')) ?a @ map (key_at (sl_nodes sl')) ?b = map (key_at (sl_nodes sl)) xs"
    by (metis map_append takeWhile_dropWhile_id)
  define ka kb where "ka = map (key_at (sl_nodes sl')) ?a" and "kb = map (key_at (sl_nodes sl')) ?b"
  have keys: "map (key_at (sl_nodes sl')) (?a @ ?n # ?b) = ka @ k # kb" by (simp add: ka_def kb_def sl'(3))
  have o: "sorted_wrt (\<lambda>a b. cmp a b \<noteq> 0) (ka @ kb @ k # ks)" "list_all ok ks"
    using Cons.prems(2,3) by (simp_all add: split [folded ka_def kb_def] append_assoc [symmetric] del: append_assoc)
  have okk: "\<forall>x\<in>set (ka @ kb). ok x"
    using sl'(2) by (auto simp: skip_inv_def ka_def kb_def)
  have "\<forall>x\<in>set kb. cmp k x \<noteq> 0"
  proof
    fix x assume x: "x \<in> set kb"
    then have "cmp x k \<noteq> 0" using o(1) by (auto simp: sorted_wrt_append)
    then show "cmp k x \<noteq> 0"
      using cmp_flip [of x k] cmp_flip [of k x] okk ok x by (auto simp: linorder_neq_iff)
  qed
  then have "sorted_wrt (\<lambda>a b. cmp a b \<noteq> 0) (map (key_at (sl_nodes sl')) (?a @ ?n # ?b) @ ks)"
    using o(1) unfolding keys by (auto simp: sorted_wrt_append)
  from Cons.IH [OF sl'(2) o(2) this] obtain sl'' ys where "SkipList_Inserts cmp ks sl' = Some sl''"
    "skip_inv cmp ok sl'' ys" "mset (map (key_at (sl_nodes sl'')) ys) = mset ((ka @ k # kb) @ ks)"
    unfolding keys by blast
  moreover have "mset ((ka @ k # kb) @ ks) = mset (map (key_at (sl_nodes sl)) xs @ k # ks)"
    unfolding split [symmetric] ka_def kb_def by simp
  ultimately show ?case using sl'(1) by auto
qed auto

lemma SkipList_Contains_inv:
  assumes "skip_inv cmp ok sl xs" "ok key"
  shows "SkipList_Contains cmp sl key = Some (\<exists>x\<in>set xs. cmp key (key_at (sl_nodes sl) x) = 0)"
proof -
  let ?a = "takeWhile (key_less cmp sl key) xs" and ?b = "dropWhile (key_less cmp sl key) xs"
  obtain prev where f: "FindGreaterOrEqual cmp sl key = Some (first_of ?b, prev)"
    using FindGreaterOrEqual_result [OF assms] by blast
  note s = search_split [OF assms]
  have ok: "\<forall>n\<in>set xs. ok (key_at (sl_nodes sl) n)" using assms(1) unfolding skip_inv_def by blast
  have a: "\<forall>n\<in>set ?a. cmp key (key_at (sl_nodes sl) n) \<noteq> 0"
  proof
    fix n assume n: "n \<in> set ?a"
    then have "ok (key_at (sl_nodes sl) n)" using ok by (auto dest: set_takeWhileD)
    then show "cmp key (key_at (sl_nodes sl) n) \<noteq> 0"
      using s(2) n cmp_flip [of "key_at (sl_nodes sl) n" key] assms(2) by fastforce
  qed
  have b: "cmp key (key_at (sl_nodes sl) n) \<noteq> 0" if "n \<in> set ys" "?b = y # ys" for n y ys
  proof -
    have xs: "xs = ?a @ y # ys" using that by (metis takeWhile_dropWhile_id)
    have "sorted_wrt (\<lambda>a b. cmp (key_at (sl_nodes sl) a) (key_at (sl_nodes sl) b) < 0) (?a @ y # ys)"
      using assms(1) xs unfolding skip_inv_def by metis
    then have "cmp (key_at (sl_nodes sl) y) (key_at (sl_nodes sl) n) < 0" using that by (simp add: sorted_wrt_append)
    moreover have m: "y \<in> set xs" "n \<in> set xs" using xs that by (metis in_set_conv_decomp list.set_intros(2) Un_iff set_append)+
    moreover have "cmp key (key_at (sl_nodes sl) y) \<le> 0"
      using s(3) that cmp_not_less [of "key_at (sl_nodes sl) y" key] ok m assms(2) by auto
    ultimately have "cmp key (key_at (sl_nodes sl) n) < 0"
      using cmp_le_less_trans [of key "key_at (sl_nodes sl) y" "key_at (sl_nodes sl) n"] ok assms(2) by blast
    then show ?thesis by simp
  qed
  show ?thesis
  proof (cases ?b)
    case Nil
    then have "xs = ?a" by (metis append_Nil2 takeWhile_dropWhile_id)
    then have "\<forall>n\<in>set xs. cmp key (key_at (sl_nodes sl) n) \<noteq> 0" using a by metis
    then show ?thesis unfolding SkipList_Contains_def f Nil by simp
  next
    case (Cons y ys)
    then have "set xs = set ?a \<union> insert y (set ys)" by (metis list.simps(15) set_append takeWhile_dropWhile_id)
    then show ?thesis using Cons f a b by (auto simp: SkipList_Contains_def key_at_def)
  qed
qed

lemma SkipList_ordered_set:
  assumes "list_all ok keys" "sorted_wrt (\<lambda>a b. cmp a b \<noteq> 0) keys"
  shows "\<exists>sl. SkipList_Inserts cmp keys (SkipList_new k0) = Some sl \<and> mset (skip_scan sl) = mset keys \<and>
     sorted_wrt (\<lambda>a b. cmp a b < 0) (skip_scan sl) \<and>
     (\<forall>k. ok k \<longrightarrow> SkipList_Contains cmp sl k = Some (\<exists>x\<in>set keys. cmp k x = 0))"
proof -
  obtain sl ys where r: "SkipList_Inserts cmp keys (SkipList_new k0) = Some sl" "skip_inv cmp ok sl ys"
    "mset (map (key_at (sl_nodes sl)) ys) = mset keys"
    using SkipList_Inserts_inv [OF SkipList_new_inv assms(1), of k0] assms(2) by auto
  have set: "key_at (sl_nodes sl) ` set ys = set keys" using r(3) by (metis set_map set_mset_mset)
  have "sorted_wrt (\<lambda>a b. cmp a b < 0) (skip_scan sl)"
    using r(2) by (simp add: skip_scan_keys [OF r(2)] sorted_wrt_map skip_inv_def)
  moreover have "SkipList_Contains cmp sl k = Some (\<exists>x\<in>set keys. cmp k x = 0)" if "ok k" for k
    using SkipList_Contains_inv [OF r(2) that] unfolding set [symmetric] by simp
  ultimately show ?thesis using r by (auto simp: skip_scan_keys [OF r(2)])
qed

end
end
