(* ===== verification/Arena.thy ===== *)
theory Arena
  imports Prelude
begin

text \<open>
  \<open>util/arena.h\<close> and \<open>util/arena.cpp\<close>. A block is known by its index in \<open>blocks_\<close> and a pointer
  is a block and an offset; \<open>new char[n]\<close> returns memory aligned for any object, so an address
  modulo 8 is its offset modulo 8. Pointers have 4 bytes on the target.
\<close>

definition kArenaBlockSize :: nat where "kArenaBlockSize = 4096"

record arena =
  ar_blocks :: "nat list"
  ar_ptr :: "nat \<times> nat"
  ar_remaining :: nat
  ar_usage :: nat

text \<open>The null \<open>alloc_ptr_\<close> of a new arena comes with no bytes remaining.\<close>

definition Arena_new :: arena where
  "Arena_new = \<lparr>ar_blocks = [], ar_ptr = (0, 0), ar_remaining = 0, ar_usage = 0\<rparr>"

definition AllocateNewBlock :: "nat \<Rightarrow> arena \<Rightarrow> (nat \<times> nat) \<times> arena" where
  "AllocateNewBlock block_bytes a =
     ((length (ar_blocks a), 0),
      a\<lparr>ar_blocks := ar_blocks a @ [block_bytes], ar_usage := ar_usage a + block_bytes + 4\<rparr>)"

definition AllocateFallback :: "nat \<Rightarrow> arena \<Rightarrow> (nat \<times> nat) \<times> arena" where
  "AllocateFallback bytes a =
     (if bytes > kArenaBlockSize div 4 then AllocateNewBlock bytes a
      else
        let (result, a) = AllocateNewBlock kArenaBlockSize a
        in (result, a\<lparr>ar_ptr := (fst result, snd result + bytes),
                      ar_remaining := kArenaBlockSize - bytes\<rparr>))"

definition Arena_Allocate :: "nat \<Rightarrow> arena \<Rightarrow> (nat \<times> nat) \<times> arena" where
  "Arena_Allocate bytes a =
     (if bytes \<le> ar_remaining a
      then (ar_ptr a, a\<lparr>ar_ptr := (fst (ar_ptr a), snd (ar_ptr a) + bytes),
                        ar_remaining := ar_remaining a - bytes\<rparr>)
      else AllocateFallback bytes a)"

definition Arena_AllocateAligned :: "nat \<Rightarrow> arena \<Rightarrow> (nat \<times> nat) \<times> arena" where
  "Arena_AllocateAligned bytes a =
     (let align = 8;
          current_mod = snd (ar_ptr a) mod align;
          slop = (if current_mod = 0 then 0 else align - current_mod);
          needed = bytes + slop
      in if needed \<le> ar_remaining a
         then ((fst (ar_ptr a), snd (ar_ptr a) + slop),
               a\<lparr>ar_ptr := (fst (ar_ptr a), snd (ar_ptr a) + needed),
                 ar_remaining := ar_remaining a - needed\<rparr>)
         else AllocateFallback bytes a)"

definition Arena_MemoryUsage :: "arena \<Rightarrow> nat" where
  "Arena_MemoryUsage a = ar_usage a"

text \<open>
  The regions handed out, as block, offset and size: they lie inside their blocks, apart from
  each other and from the free rest of the current block.
\<close>

definition region_apart :: "nat \<times> nat \<times> nat \<Rightarrow> nat \<times> nat \<times> nat \<Rightarrow> bool" where
  "region_apart r s = (case (r, s) of ((b, o1, n), (c, o2, m)) \<Rightarrow> b \<noteq> c \<or> o1 + n \<le> o2 \<or> o2 + m \<le> o1)"

definition arena_inv :: "arena \<Rightarrow> (nat \<times> nat \<times> nat) list \<Rightarrow> bool" where
  "arena_inv a rs \<longleftrightarrow>
     list_all (\<lambda>(b, o1, n). b < length (ar_blocks a) \<and> o1 + n \<le> ar_blocks a ! b) rs \<and>
     sorted_wrt region_apart rs \<and>
     list_all (region_apart (fst (ar_ptr a), snd (ar_ptr a), ar_remaining a)) rs \<and>
     (snd (ar_ptr a) = 0 \<and> ar_remaining a = 0 \<or>
        fst (ar_ptr a) < length (ar_blocks a) \<and>
        snd (ar_ptr a) + ar_remaining a \<le> ar_blocks a ! fst (ar_ptr a)) \<and>
     ar_usage a = sum_list (map (\<lambda>n. n + 4) (ar_blocks a))"

lemma Arena_new_inv: "arena_inv Arena_new []"
  by (simp add: arena_inv_def Arena_new_def)

lemma AllocateFallback_inv:
  assumes "arena_inv a rs" "0 < bytes" "AllocateFallback bytes a = (p, a')"
  shows "arena_inv a' ((fst p, snd p, bytes) # rs) \<and> snd p = 0"
proof -
  have old: "list_all (\<lambda>(b, o1, n). b < length (ar_blocks a) \<and> o1 + n \<le> ar_blocks a ! b) rs"
    using assms(1) by (simp add: arena_inv_def)
  then have new: "list_all (\<lambda>(b, o1, n). b < Suc (length (ar_blocks a)) \<and> o1 + n \<le> (ar_blocks a @ [k]) ! b) rs"
    and apart: "list_all (region_apart (length (ar_blocks a), x, y)) rs" for k x y
    by (auto simp: list_all_iff nth_append region_apart_def)
  show ?thesis
  proof (cases "bytes > kArenaBlockSize div 4")
    case True
    then show ?thesis using assms(1,3) new apart unfolding list_all_iff [symmetric]
      by (auto simp: AllocateFallback_def AllocateNewBlock_def arena_inv_def list_all_iff nth_append
          region_apart_def)
  next
    case False
    then show ?thesis using assms(1,3) new [of kArenaBlockSize] apart
      by (auto simp: AllocateFallback_def AllocateNewBlock_def arena_inv_def Let_def list_all_iff
          region_apart_def kArenaBlockSize_def)
  qed
qed

lemma Arena_Allocate_inv:
  assumes "arena_inv a rs" "0 < bytes" "Arena_Allocate bytes a = (p, a')"
  shows "arena_inv a' ((fst p, snd p, bytes) # rs)"
proof (cases "bytes \<le> ar_remaining a")
  case True
  then have "p = ar_ptr a" "a' = a\<lparr>ar_ptr := (fst (ar_ptr a), snd (ar_ptr a) + bytes),
      ar_remaining := ar_remaining a - bytes\<rparr>"
    using assms(3) by (auto simp: Arena_Allocate_def)
  then show ?thesis using assms(1,2) True by (auto simp: arena_inv_def list_all_iff region_apart_def)
next
  case False
  then have "AllocateFallback bytes a = (p, a')" using assms(3) by (simp add: Arena_Allocate_def)
  from AllocateFallback_inv [OF assms(1,2) this] show ?thesis by blast
qed

lemma Arena_AllocateAligned_inv:
  assumes "arena_inv a rs" "0 < bytes" "Arena_AllocateAligned bytes a = (p, a')"
  shows "arena_inv a' ((fst p, snd p, bytes) # rs)" "snd p mod 8 = 0"
proof -
  define slop where "slop = (if snd (ar_ptr a) mod 8 = 0 then 0 else 8 - snd (ar_ptr a) mod 8)"
  have al: "(snd (ar_ptr a) + slop) mod 8 = 0" unfolding slop_def by presburger
  have "arena_inv a' ((fst p, snd p, bytes) # rs) \<and> snd p mod 8 = 0"
  proof (cases "bytes + slop \<le> ar_remaining a")
    case True
    then have "p = (fst (ar_ptr a), snd (ar_ptr a) + slop)"
      "a' = a\<lparr>ar_ptr := (fst (ar_ptr a), snd (ar_ptr a) + (bytes + slop)),
         ar_remaining := ar_remaining a - (bytes + slop)\<rparr>"
      using assms(3) by (simp_all add: Arena_AllocateAligned_def Let_def slop_def [symmetric])
    then show ?thesis using assms(1,2) True al by (auto simp: arena_inv_def list_all_iff region_apart_def)
  next
    case False
    then have "AllocateFallback bytes a = (p, a')"
      using assms(3) by (simp add: Arena_AllocateAligned_def Let_def slop_def [symmetric])
    from AllocateFallback_inv [OF assms(1,2) this] show ?thesis by auto
  qed
  then show "arena_inv a' ((fst p, snd p, bytes) # rs)" "snd p mod 8 = 0" by auto
qed

end
