(* ===== verification/MemTable.thy ===== *)
theory MemTable
  imports Arena DbFormat SkipList
begin

text \<open>
  \<open>db/memtable.h\<close> and \<open>db/memtable.cpp\<close>: a skip list of encoded entries. A \<open>const char*\<close> into
  the arena is the list of the bytes from there on.
\<close>

section \<open>Entries\<close>

text \<open>
  \<open>GetVarint32Ptr(p, p + 5, &len)\<close> with the pointer it returns. The code does not test it for
  null, "we assume p is not corrupted"; the case is never reached on the entries of a table.
\<close>

definition entry_varint :: "bytes \<Rightarrow> u32 \<times> bytes" where
  "entry_varint p =
     (case GetVarint32Ptr (take 5 p) of
        None \<Rightarrow> (0, [])
      | Some (len, rest) \<Rightarrow> (len, drop (length (take 5 p) - length rest) p))"

definition entry_slice :: "bytes \<Rightarrow> bytes" where
  "entry_slice data = (let (len, p) = entry_varint data in take (unat len) p)"

definition MemTable_KeyComparator :: "comparator \<Rightarrow> bytes \<Rightarrow> bytes \<Rightarrow> int" where
  "MemTable_KeyComparator user aptr bptr =
     InternalKey_Compare user (entry_slice aptr) (entry_slice bptr)"

definition EncodeKey :: "bytes \<Rightarrow> bytes" where
  "EncodeKey target = PutVarint32 [] (word_of_nat (length target)) @ target"

section \<open>The table\<close>

record memtable =
  mt_refs :: int
  mt_arena :: arena
  mt_table :: "bytes skiplist"

text \<open>The head node takes a full array of links, 4 bytes each, after the null key.\<close>

definition MemTable_new :: memtable where
  "MemTable_new =
     \<lparr>mt_refs = 0, mt_arena = snd (Arena_AllocateAligned (8 + 4 * (kMaxHeight - 1)) Arena_new),
      mt_table = SkipList_new []\<rparr>"

definition MemTable_Ref :: "memtable \<Rightarrow> memtable" where
  "MemTable_Ref m = m\<lparr>mt_refs := mt_refs m + 1\<rparr>"

text \<open>\<open>None\<close> when the last reference goes and the table is deleted.\<close>

definition MemTable_Unref :: "memtable \<Rightarrow> memtable option" where
  "MemTable_Unref m = (if mt_refs m - 1 \<le> 0 then None else Some (m\<lparr>mt_refs := mt_refs m - 1\<rparr>))"

definition ApproximateMemoryUsage :: "memtable \<Rightarrow> nat" where
  "ApproximateMemoryUsage m = Arena_MemoryUsage (mt_arena m)"

definition memtable_entry :: "SequenceNumber \<Rightarrow> ValueType \<Rightarrow> bytes \<Rightarrow> bytes \<Rightarrow> bytes" where
  "memtable_entry s t key val =
     EncodeVarint32 (word_of_nat (length key + 8)) @ key @ EncodeFixed64 (push_bit 8 s OR ucast t) @
     EncodeVarint32 (word_of_nat (length val)) @ val"

definition memtable_encoded_len :: "bytes \<Rightarrow> bytes \<Rightarrow> nat" where
  "memtable_encoded_len key val =
     VarintLength (word_of_nat (length key + 8)) + (length key + 8) +
     VarintLength (word_of_nat (length val)) + length val"

definition MemTable_Add ::
  "comparator \<Rightarrow> SequenceNumber \<Rightarrow> ValueType \<Rightarrow> bytes \<Rightarrow> bytes \<Rightarrow> memtable \<Rightarrow> memtable option" where
  "MemTable_Add user s t key val m =
     (let (buf, arena) = Arena_Allocate (memtable_encoded_len key val) (mt_arena m)
      in case SkipList_Insert (MemTable_KeyComparator user) (memtable_entry s t key val) (mt_table m) of
           None \<Rightarrow> None
         | Some table \<Rightarrow>
             let height = length (sn_next (last (sl_nodes table)));
                 (node, arena) = Arena_AllocateAligned (8 + 4 * (height - 1)) arena
             in Some (m\<lparr>mt_arena := arena, mt_table := table\<rparr>))"

text \<open>\<open>Get\<close> returns whether it decided, and the output parameters \<open>value\<close> and \<open>s\<close>.\<close>

definition MemTable_Get ::
  "comparator \<Rightarrow> memtable \<Rightarrow> LookupKey \<Rightarrow> bytes \<Rightarrow> status \<Rightarrow> (bool \<times> bytes \<times> status) option" where
  "MemTable_Get user m key val s =
     (case SkipIter_Seek (MemTable_KeyComparator user) (mt_table m) (lk_memtable_key key) of
        None \<Rightarrow> None
      | Some None \<Rightarrow> Some (False, val, s)
      | Some (Some n) \<Rightarrow>
          let entry = SkipIter_key (mt_table m) n;
              (key_length, key_ptr) = entry_varint entry
          in if Compare user (take (unat (key_length - 8)) key_ptr) (lk_user_key key) = 0 then
               let tag = DecodeFixed64 (drop (unat (key_length - 8)) key_ptr);
                   t = ucast (tag AND 0xff) :: ValueType
               in if t = kTypeValue then Some (True, entry_slice (drop (unat key_length) key_ptr), s)
                  else if t = kTypeDeletion then Some (True, val, NotFound [])
                  else Some (False, val, s)
             else Some (False, val, s))"

section \<open>Iterators\<close>

definition MemTableIterator_Seek :: "comparator \<Rightarrow> memtable \<Rightarrow> bytes \<Rightarrow> nat option option" where
  "MemTableIterator_Seek user m k =
     SkipIter_Seek (MemTable_KeyComparator user) (mt_table m) (EncodeKey k)"

definition MemTableIterator_key :: "memtable \<Rightarrow> nat \<Rightarrow> bytes" where
  "MemTableIterator_key m n = entry_slice (SkipIter_key (mt_table m) n)"

definition MemTableIterator_value :: "memtable \<Rightarrow> nat \<Rightarrow> bytes" where
  "MemTableIterator_value m n =
     (let (len, p) = entry_varint (SkipIter_key (mt_table m) n)
      in entry_slice (drop (unat len) p))"

section \<open>Reading entries back\<close>

lemma entry_varint_Encode [simp]: "entry_varint (EncodeVarint32 v @ rest) = (v, rest)"
proof -
  have "length (EncodeVarint32 v) \<le> 5" using length_EncodeVarint32_bounds by blast
  then have "take 5 (EncodeVarint32 v @ rest) = EncodeVarint32 v @ take (5 - length (EncodeVarint32 v)) rest"
    by simp
  then show ?thesis
    using GetVarint32_Encode [of v "take (5 - length (EncodeVarint32 v)) rest"]
    by (simp add: entry_varint_def GetVarint32_def split: option.splits)
qed

lemma memtable_entry_eq:
  "memtable_entry s t key val =
     EncodeVarint32 (word_of_nat (length (ikey key s t))) @ ikey key s t @
     EncodeVarint32 (word_of_nat (length val)) @ val"
  by (simp add: memtable_entry_def ikey_eq PackSequenceAndType_def)

text \<open>An entry or an encoded key: a length prefix, an internal key, and anything after it.\<close>

definition entry_ok :: "(bytes \<Rightarrow> bool) \<Rightarrow> bytes \<Rightarrow> bool" where
  "entry_ok ok e \<longleftrightarrow> (\<exists>k rest. e = EncodeVarint32 (word_of_nat (length k)) @ k @ rest \<and>
     length k < 2 ^ 32 \<and> internal_ok ok k)"

lemma entry_slice_prefix [simp]:
  "length k < 2 ^ 32 \<Longrightarrow> entry_slice (EncodeVarint32 (word_of_nat (length k)) @ k @ rest) = k"
  by (simp add: entry_slice_def word_of_nat_less_iff_bound)

lemma entry_okE:
  assumes "entry_ok ok e"
  obtains k rest where "e = EncodeVarint32 (word_of_nat (length k)) @ k @ rest" "length k < 2 ^ 32"
    "internal_ok ok k" "entry_slice e = k"
  using assms by (auto simp: entry_ok_def)

lemma entry_ok_slice: "entry_ok ok e \<Longrightarrow> internal_ok ok (entry_slice e)"
  by (erule entry_okE) simp

lemma entry_ok_entry:
  "ok key \<Longrightarrow> length key + 8 < 2 ^ 32 \<Longrightarrow> entry_ok ok (memtable_entry s t key val)"
  unfolding entry_ok_def memtable_entry_eq
  by (intro exI [of _ "ikey key s t"] exI [of _ "EncodeVarint32 (word_of_nat (length val)) @ val"]) simp

lemma entry_ok_lookup:
  "ok u \<Longrightarrow> length u + 8 < 2 ^ 32 \<Longrightarrow> entry_ok ok (lk_memtable_key (LookupKey_new u s))"
  unfolding entry_ok_def LookupKey_views
  by (intro exI [of _ "ikey u s kValueTypeForSeek"] exI [of _ "[]"]) simp

lemma entry_slice_entry [simp]:
  "length key + 8 < 2 ^ 32 \<Longrightarrow> entry_slice (memtable_entry s t key val) = ikey key s t"
  unfolding memtable_entry_eq by (rule entry_slice_prefix) simp

lemma entry_slice_lookup [simp]:
  "length u + 8 < 2 ^ 32 \<Longrightarrow> entry_slice (lk_memtable_key (LookupKey_new u s)) = ikey u s kValueTypeForSeek"
  using entry_slice_prefix [of "ikey u s kValueTypeForSeek" "[]"] by (simp add: LookupKey_views)

locale memtable_keys = user_comparator

sublocale memtable_keys \<subseteq> table: key_order "MemTable_KeyComparator cmp" "entry_ok ok"
proof unfold_locales
  fix a b c
  assume ok: "entry_ok ok a" "entry_ok ok b" "entry_ok ok c"
    and le: "MemTable_KeyComparator cmp a b \<le> 0" "MemTable_KeyComparator cmp b c \<le> 0"
  show "MemTable_KeyComparator cmp a c \<le> 0"
    using internal.compare_le_trans [OF ok [THEN entry_ok_slice]] le by (simp add: MemTable_KeyComparator_def)
qed (use internal.compare_refl internal.compare_flip
      in \<open>simp_all add: MemTable_KeyComparator_def entry_ok_slice\<close>)

interpretation bytewise_table: memtable_keys BytewiseComparator "\<lambda>_. True"
  by unfold_locales

interpretation slice_keys: key_order Slice_compare "\<lambda>_. True"
  by unfold_locales (use bytewise.compare_pos bytewise.compare_le_trans in \<open>auto\<close>)

section \<open>Lookups\<close>

text \<open>One call of \<open>Add\<close>: sequence number, type, user key and value.\<close>

type_synonym mem_add = "SequenceNumber \<times> ValueType \<times> bytes \<times> bytes"

fun MemTable_Adds :: "comparator \<Rightarrow> mem_add list \<Rightarrow> memtable \<Rightarrow> memtable option" where
  "MemTable_Adds user [] m = Some m"
| "MemTable_Adds user ((s, t, k, v) # adds) m =
     (case MemTable_Add user s t k v m of None \<Rightarrow> None | Some m \<Rightarrow> MemTable_Adds user adds m)"

fun add_ok :: "(bytes \<Rightarrow> bool) \<Rightarrow> mem_add \<Rightarrow> bool" where
  "add_ok ok (s, t, k, v) \<longleftrightarrow>
     s \<le> kMaxSequenceNumber \<and> t \<le> kTypeValue \<and> ok k \<and> length k + 8 < 2 ^ 32 \<and> length v < 2 ^ 32"

fun add_entry :: "mem_add \<Rightarrow> bytes" where
  "add_entry (s, t, k, v) = memtable_entry s t k v"

fun add_id :: "mem_add \<Rightarrow> bytes \<times> SequenceNumber" where
  "add_id (s, t, k, v) = (k, s)"

text \<open>What a lookup at sequence number \<open>snap\<close> should see: the entry with the largest one up to it.\<close>

definition mem_newest :: "mem_add list \<Rightarrow> bytes \<Rightarrow> SequenceNumber \<Rightarrow> (SequenceNumber \<times> ValueType \<times> bytes) option" where
  "mem_newest adds u snap =
     fold (\<lambda>(s, t, k, v) best.
       if k = u \<and> s \<le> snap \<and> (case best of None \<Rightarrow> True | Some (s', _, _) \<Rightarrow> s' < s)
       then Some (s, t, v) else best) adds None"

lemma mem_newest_snoc:
  "mem_newest (adds @ [(s, t, k, v)]) u snap =
     (if k = u \<and> s \<le> snap \<and> (case mem_newest adds u snap of None \<Rightarrow> True | Some (s', _, _) \<Rightarrow> s' < s)
      then Some (s, t, v) else mem_newest adds u snap)"
  by (simp add: mem_newest_def)

lemma mem_newest_None: "mem_newest adds u snap = None \<longleftrightarrow> (\<forall>(s, t, k, v)\<in>set adds. k \<noteq> u \<or> snap < s)"
proof (induction adds rule: rev_induct)
  case (snoc a adds)
  obtain s t k v where a: "a = (s, t, k, v)" by (metis prod_cases4)
  show ?case
    by (cases "mem_newest adds u snap")
      (use snoc in \<open>auto simp: a mem_newest_snoc not_le simp del: split_paired_All\<close>)
qed (simp add: mem_newest_def)

lemma mem_newest_Some:
  "mem_newest adds u snap = Some (s, t, v) \<Longrightarrow>
   (s, t, u, v) \<in> set adds \<and> s \<le> snap \<and> (\<forall>(s', t', k, v')\<in>set adds. k = u \<and> s' \<le> snap \<longrightarrow> s' \<le> s)"
proof (induction adds arbitrary: s t v rule: rev_induct)
  case (snoc a adds)
  obtain s1 t1 k1 v1 where a: "a = (s1, t1, k1, v1)" by (metis prod_cases4)
  have step: "mem_newest (adds @ [a]) u snap =
     (if k1 = u \<and> s1 \<le> snap \<and> (case mem_newest adds u snap of None \<Rightarrow> True | Some (s', _, _) \<Rightarrow> s' < s1)
      then Some (s1, t1, v1) else mem_newest adds u snap)"
    by (simp add: mem_newest_def a)
  show ?case
  proof (cases "mem_newest adds u snap")
    case None
    then show ?thesis using snoc.prems step mem_newest_None [of adds u snap] by (auto simp: a split: if_splits)
  next
    case (Some b)
    obtain s2 t2 v2 where b: "b = (s2, t2, v2)" by (metis prod_cases3)
    note IH = snoc.IH [OF Some [unfolded b]]
    show ?thesis using snoc.prems step Some b IH by (auto simp: a split: if_splits)
  qed
qed (simp add: mem_newest_def)

definition memtable_holds :: "comparator \<Rightarrow> (bytes \<Rightarrow> bool) \<Rightarrow> memtable \<Rightarrow> mem_add list \<Rightarrow> nat list \<Rightarrow> bool" where
  "memtable_holds user ok m adds xs \<longleftrightarrow>
     skip_inv (MemTable_KeyComparator user) (entry_ok ok) (mt_table m) xs \<and>
     key_at (sl_nodes (mt_table m)) ` set xs = add_entry ` set adds \<and>
     list_all (add_ok ok) adds \<and> distinct (map add_id adds)"

lemma memtable_holds_new: "memtable_holds user ok MemTable_new [] []"
  by (simp add: memtable_holds_def MemTable_new_def SkipList_new_inv)

lemma entry_varint_entry:
  "length k + 8 < 2 ^ 32 \<Longrightarrow> entry_varint (memtable_entry s t k v) =
     (word_of_nat (length k + 8), ikey k s t @ EncodeVarint32 (word_of_nat (length v)) @ v)"
  unfolding memtable_entry_eq by simp

context memtable_keys
begin

lemma entries_equal:
  assumes "add_ok ok a" "add_ok ok b"
  shows "MemTable_KeyComparator cmp (add_entry a) (add_entry b) = 0 \<longleftrightarrow>
     add_id a = add_id b \<and> fst (snd a) = fst (snd b)"
proof -
  obtain s t k v where a: "a = (s, t, k, v)" by (metis prod_cases4)
  obtain s' t' k' v' where b: "b = (s', t', k', v')" by (metis prod_cases4)
  have "ikey k s t = ikey k' s' t' \<longleftrightarrow> k = k' \<and> s = s' \<and> t = t'"
    using assms unfolding a b by (metis add_ok.simps ExtractTag_ikey ExtractUserKey_ikey Pack_inject)
  then show ?thesis using assms internal.compare_eq_iff [of "ikey k s t" "ikey k' s' t'"]
    by (auto simp: a b MemTable_KeyComparator_def)
qed

lemma MemTable_Add_holds:
  assumes h: "memtable_holds cmp ok m adds xs" and a: "add_ok ok (s, t, k, v)" "add_id (s, t, k, v) \<notin> add_id ` set adds"
  shows "\<exists>m' ys. MemTable_Add cmp s t k v m = Some m' \<and> memtable_holds cmp ok m' (adds @ [(s, t, k, v)]) ys"
proof -
  let ?e = "memtable_entry s t k v"
  let ?nodes = "sl_nodes (mt_table m)"
  have inv: "skip_inv (MemTable_KeyComparator cmp) (entry_ok ok) (mt_table m) xs"
    and keys: "key_at ?nodes ` set xs = add_entry ` set adds"
    and ok: "list_all (add_ok ok) adds" and d: "distinct (map add_id adds)"
    using h by (simp_all add: memtable_holds_def)
  have eok: "entry_ok ok ?e" using a(1) by (intro entry_ok_entry) auto
  have "\<forall>n\<in>set xs. MemTable_KeyComparator cmp (key_at ?nodes n) ?e \<noteq> 0"
  proof
    fix n assume "n \<in> set xs"
    then obtain b where b: "b \<in> set adds" "key_at ?nodes n = add_entry b" using keys by blast
    then have "add_ok ok b" using ok by (simp add: list_all_iff)
    from entries_equal [OF this a(1)] b a(2) show "MemTable_KeyComparator cmp (key_at ?nodes n) ?e \<noteq> 0"
      by (metis add_entry.simps image_eqI)
  qed
  from table.SkipList_Insert_inv [OF inv eok this] obtain table' where t:
    "SkipList_Insert (MemTable_KeyComparator cmp) ?e (mt_table m) = Some table'"
    "skip_inv (MemTable_KeyComparator cmp) (entry_ok ok) table'
       (takeWhile (key_less (MemTable_KeyComparator cmp) (mt_table m) ?e) xs @ length ?nodes #
        dropWhile (key_less (MemTable_KeyComparator cmp) (mt_table m) ?e) xs)"
    "key_at (sl_nodes table') (length ?nodes) = ?e"
    "\<And>i. i < length ?nodes \<Longrightarrow> key_at (sl_nodes table') i = key_at ?nodes i" by blast
  let ?ys = "takeWhile (key_less (MemTable_KeyComparator cmp) (mt_table m) ?e) xs @ length ?nodes #
        dropWhile (key_less (MemTable_KeyComparator cmp) (mt_table m) ?e) xs"
  have set_ys: "set ?ys = insert (length ?nodes) (set xs)"
    by (metis (no_types, lifting) Un_insert_right list.simps(15) set_append takeWhile_dropWhile_id)
  have "key_at (sl_nodes table') ` set xs = key_at ?nodes ` set xs"
    using inv t(4) by (intro image_cong) (auto simp: skip_inv_def)
  then have "key_at (sl_nodes table') ` set ?ys = add_entry ` set (adds @ [(s, t, k, v)])"
    unfolding set_ys using keys t(3) by simp
  then have "memtable_holds cmp ok (m\<lparr>mt_arena := x, mt_table := table'\<rparr>) (adds @ [(s, t, k, v)]) ?ys" for x
    using t(2) ok d a by (simp add: memtable_holds_def del: add_ok.simps add_id.simps)
  then show ?thesis
    by (auto simp: MemTable_Add_def t(1) Let_def split: prod.splits)
qed

lemma MemTable_Adds_holds:
  "memtable_holds cmp ok m adds xs \<Longrightarrow> list_all (add_ok ok) new \<Longrightarrow> distinct (map add_id (adds @ new)) \<Longrightarrow>
   \<exists>m' ys. MemTable_Adds cmp new m = Some m' \<and> memtable_holds cmp ok m' (adds @ new) ys"
proof (induction new arbitrary: m adds xs)
  case (Cons a new)
  obtain s t k v where a: "a = (s, t, k, v)" by (metis prod_cases4)
  have "add_ok ok (s, t, k, v)" "add_id (s, t, k, v) \<notin> add_id ` set adds"
    using Cons.prems(2,3) by (auto simp: a simp del: add_ok.simps add_id.simps)
  from MemTable_Add_holds [OF Cons.prems(1) this] obtain m1 ys where
    "MemTable_Add cmp s t k v m = Some m1" "memtable_holds cmp ok m1 (adds @ [a]) ys" by (auto simp: a)
  with Cons.IH [OF this(2)] Cons.prems(2,3) show ?case by (simp add: a)
qed auto

lemma seek_entry:
  fixes snap :: SequenceNumber
  assumes h: "memtable_holds cmp ok m adds xs" and u: "ok u" "length u + 8 < 2 ^ 32"
  defines "lk \<equiv> lk_memtable_key (LookupKey_new u snap)"
  shows "(SkipIter_Seek (MemTable_KeyComparator cmp) (mt_table m) lk = Some None \<and>
       (\<forall>a\<in>set adds. MemTable_KeyComparator cmp (add_entry a) lk < 0)) \<or>
     (\<exists>n a. SkipIter_Seek (MemTable_KeyComparator cmp) (mt_table m) lk = Some (Some n) \<and>
       a \<in> set adds \<and> SkipIter_key (mt_table m) n = add_entry a \<and>
       MemTable_KeyComparator cmp lk (add_entry a) \<le> 0 \<and>
       (\<forall>b\<in>set adds. MemTable_KeyComparator cmp (add_entry b) lk < 0 \<or>
          MemTable_KeyComparator cmp (add_entry a) (add_entry b) \<le> 0))"
proof -
  let ?c = "MemTable_KeyComparator cmp" and ?nodes = "sl_nodes (mt_table m)"
  have inv: "skip_inv ?c (entry_ok ok) (mt_table m) xs" and keys: "key_at ?nodes ` set xs = add_entry ` set adds"
    using h by (simp_all add: memtable_holds_def)
  have lok: "entry_ok ok lk" unfolding lk_def using u by (rule entry_ok_lookup)
  let ?a = "takeWhile (key_less ?c (mt_table m) lk) xs" and ?b = "dropWhile (key_less ?c (mt_table m) lk) xs"
  note sp = table.search_split [OF inv lok]
  have seek: "SkipIter_Seek ?c (mt_table m) lk = Some (first_of ?b)"
    using table.FindGreaterOrEqual_result [OF inv lok] by (auto simp: SkipIter_Seek_def)
  have all: "\<exists>n\<in>set xs. add_entry b = key_at ?nodes n" if "b \<in> set adds" for b
    using that keys by blast
  show ?thesis
  proof (cases ?b)
    case Nil
    then have "set xs = set ?a" using sp(4) by (metis append_Nil2)
    then have "\<forall>a\<in>set adds. ?c (add_entry a) lk < 0" using all sp(2) by metis
    then show ?thesis using seek Nil by simp
  next
    case (Cons n b')
    have nin: "n \<in> set xs" using Cons by (metis list.set_intros(1) set_dropWhileD)
    then obtain a where a: "a \<in> set adds" "key_at ?nodes n = add_entry a" using keys by blast
    have nok: "entry_ok ok (key_at ?nodes i)" if "i \<in> set xs" for i using inv that by (simp add: skip_inv_def)
    have "?c lk (add_entry a) \<le> 0"
      using sp(3) Cons a table.cmp_not_less [OF nok [OF nin] lok] by simp
    moreover have "?c (add_entry b) lk < 0 \<or> ?c (add_entry a) (add_entry b) \<le> 0" if b: "b \<in> set adds" for b
    proof -
      obtain i where i: "i \<in> set xs" "add_entry b = key_at ?nodes i" using all [OF b] by blast
      consider "i \<in> set ?a" | "i = n" | "i \<in> set b'" using i(1) sp(4) Cons by (metis Un_iff set_ConsD set_append)
      then show ?thesis
      proof cases
        case 3
        have "sorted_wrt (\<lambda>a b. ?c (key_at ?nodes a) (key_at ?nodes b) < 0) (?a @ n # b')"
          using inv sp(4) Cons by (simp add: skip_inv_def)
        then have "?c (key_at ?nodes n) (key_at ?nodes i) < 0" using 3 by (simp add: sorted_wrt_append)
        then show ?thesis using a i by simp
      qed (use sp(2) i a table.cmp_refl [OF nok [OF nin]] in auto)
    qed
    moreover have "SkipIter_key (mt_table m) n = add_entry a" using a(2) by (simp add: SkipIter_key_def key_at_def)
    ultimately show ?thesis using seek Cons a(1)
      by (intro disjI2 exI [of _ n] exI [of _ a]) (simp del: add_entry.simps)
  qed
qed

lemma MemTable_Get_entry:
  assumes "SkipIter_Seek (MemTable_KeyComparator cmp) (mt_table m) (lk_memtable_key (LookupKey_new u snap)) = Some (Some n)"
    "SkipIter_key (mt_table m) n = memtable_entry s t k v" "add_ok ok (s, t, k, v)" "ok u"
  shows "MemTable_Get cmp m (LookupKey_new u snap) val st =
    Some (if k = u then if t = kTypeValue then (True, v, st) else (True, val, NotFound []) else (False, val, st))"
proof -
  have len: "length k + 8 < 2 ^ 32" "length v < 2 ^ 32" and t: "t \<le> kTypeValue" using assms(3) by auto
  have w: "(word_of_nat (length k + 8) :: u32) - 8 = word_of_nat (length k)" by simp
  have n: "unat (word_of_nat (length k) :: u32) = length k" "unat (word_of_nat (length k + 8) :: u32) = length k + 8"
    using len by (simp_all add: word_of_nat_less_iff_bound del: of_nat_add)
  have tt: "t = kTypeValue \<or> t = kTypeDeletion"
    using t by (auto simp: kTypeValue_def kTypeDeletion_def word_le_nat_alt le_Suc_eq word_unat_eq_iff)
  have sl: "entry_slice (EncodeVarint32 (word_of_nat (length v)) @ v) = v"
    using entry_slice_prefix [of v "[]"] len(2) by simp
  have c: "Compare cmp k u = 0 \<longleftrightarrow> k = u" using assms(3,4) compare_eq_iff by auto
  have dr: "drop (length k + 8) (ikey k s t @ EncodeVarint32 (word_of_nat (length v)) @ v) =
      EncodeVarint32 (word_of_nat (length v)) @ v" by simp
  have dt: "drop (length k) (ikey k s t @ r) = EncodeFixed64 (PackSequenceAndType s t) @ r"
    "take (length k) (ikey k s t @ r) = k" for r by (simp_all add: ikey_eq)
  have kt: "(kTypeDeletion = kTypeValue) = False" by (simp add: kTypeValue_def kTypeDeletion_def)
  show ?thesis
    using tt by (simp only: MemTable_Get_def assms(1,2) entry_varint_entry [OF len(1)] Let_def prod.case option.case w n dr sl dt c LookupKey_views(2) DecodeFixed64_Encode
        ucast_and_255 ucast_Pack) (auto simp: kt)
qed

lemma MemTable_Get_newest:
  assumes h: "memtable_holds cmp ok m adds xs" and u: "ok u" "length u + 8 < 2 ^ 32"
    and snap: "snap \<le> kMaxSequenceNumber"
  shows "MemTable_Get cmp m (LookupKey_new u snap) val st =
    Some (case mem_newest adds u snap of None \<Rightarrow> (False, val, st)
          | Some (s, t, v) \<Rightarrow> if t = kTypeValue then (True, v, st) else (True, val, NotFound []))"
proof -
  let ?c = "MemTable_KeyComparator cmp" and ?lk = "lk_memtable_key (LookupKey_new u snap)"
  have aok: "add_ok ok a" if "a \<in> set adds" for a using h that by (simp add: memtable_holds_def list_all_iff)
  have lk_le: "?c ?lk (add_entry (s, t, u, v)) \<le> 0 \<longleftrightarrow> s \<le> snap" if "add_ok ok (s, t, u, v)" for s t v
    using that lookup_before_entry [OF u(1) snap] u by (simp add: MemTable_KeyComparator_def)
  have lk_gt: "?c (add_entry a) ?lk < 0 \<longleftrightarrow> \<not> ?c ?lk (add_entry a) \<le> 0" if "a \<in> set adds" for a
    using aok [OF that] u table.cmp_not_less [of "add_entry a" ?lk]
    by (cases a) (auto simp: entry_ok_entry entry_ok_lookup)
  consider (none) "SkipIter_Seek ?c (mt_table m) ?lk = Some None" "\<forall>a\<in>set adds. ?c (add_entry a) ?lk < 0"
    | (found) n a where "SkipIter_Seek ?c (mt_table m) ?lk = Some (Some n)" "a \<in> set adds"
        "SkipIter_key (mt_table m) n = add_entry a" "?c ?lk (add_entry a) \<le> 0"
        "\<And>b. b \<in> set adds \<Longrightarrow> ?c (add_entry b) ?lk < 0 \<or> ?c (add_entry a) (add_entry b) \<le> 0"
    using seek_entry [OF h u, of snap] by blast
  then show ?thesis
  proof cases
    case none
    have "mem_newest adds u snap = None"
      unfolding mem_newest_None
    proof safe
      fix s t v assume a: "(s, t, u, v) \<in> set adds" "\<not> snap < s"
      then show False using none(2) lk_gt [OF a(1)] lk_le [OF aok [OF a(1)]] by auto
    qed
    then show ?thesis by (simp add: MemTable_Get_def none(1))
  next
    case found
    obtain s t k v where a: "a = (s, t, k, v)" by (metis prod_cases4)
    note ok_a = aok [OF found(2), unfolded a]
    note get = MemTable_Get_entry [OF found(1) found(3) [unfolded a add_entry.simps] ok_a u(1), of val st]
    show ?thesis
    proof (cases "mem_newest adds u snap")
      case None
      have "k \<noteq> u"
      proof
        assume "k = u"
        then have "s \<le> snap" using found(4) lk_le ok_a by (simp add: a)
        then show False using None \<open>k = u\<close> found(2) unfolding mem_newest_None a by auto
      qed
      then show ?thesis using get None by simp
    next
      case (Some best)
      obtain s1 t1 v1 where b: "best = (s1, t1, v1)" by (metis prod_cases3)
      note nw = mem_newest_Some [OF Some [unfolded b]]
      have b_in: "(s1, t1, u, v1) \<in> set adds" and s1: "s1 \<le> snap" using nw by auto
      have "?c (add_entry a) (add_entry (s1, t1, u, v1)) \<le> 0"
        using found(5) [OF b_in] lk_gt [OF b_in] lk_le [OF aok [OF b_in]] s1 by auto
      then have le: "InternalKey_Compare cmp (ikey k s t) (ikey u s1 t1) \<le> 0"
        using ok_a aok [OF b_in] by (simp add: a MemTable_KeyComparator_def)
      have lle: "InternalKey_Compare cmp (ikey u snap kValueTypeForSeek) (ikey k s t) \<le> 0"
        using found(4) ok_a u by (simp add: a MemTable_KeyComparator_def)
      have not_le: "\<not> InternalKey_Compare cmp x y \<le> 0"
        if "InternalKey_Compare cmp y x < 0" "internal_ok ok x" "internal_ok ok y" for x y
        using that internal.compare_le_or_less [of y x] by simp
      have ku: "k = u"
      proof (rule ccontr)
        assume "k \<noteq> u"
        then consider "Compare cmp k u < 0" | "Compare cmp u k < 0"
          using compare_cases [of k u] ok_a u(1) by auto
        then show False
        proof cases
          case 1
          then have "InternalKey_Compare cmp (ikey k s t) (ikey u snap kValueTypeForSeek) < 0"
            using other_user_key_order ok_a u(1) by simp
          from not_le [OF this] show False using lle ok_a u(1) by simp
        next
          case 2
          then have "InternalKey_Compare cmp (ikey u s1 t1) (ikey k s t) < 0"
            using other_user_key_order ok_a u(1) by simp
          from not_le [OF this] show False using le ok_a u(1) by simp
        qed
      qed
      then have "s \<le> snap" using found(4) lk_le ok_a by (simp add: a)
      then have "s \<le> s1" using nw found(2) ku by (auto simp: a)
      moreover have "\<not> s < s1"
      proof
        assume "s < s1"
        then have "InternalKey_Compare cmp (ikey u s1 t1) (ikey k s t) < 0"
          using newer_entry_first ok_a aok [OF b_in] ku by simp
        from not_le [OF this] show False using le ok_a u(1) by simp
      qed
      ultimately have "s = s1" by simp
      have "a = (s1, t1, u, v1)"
        using h found(2) b_in ku \<open>s = s1\<close>
        by (auto simp: memtable_holds_def distinct_map a dest!: inj_onD [where x = "(s, t, k, v)" and y = "(s1, t1, u, v1)"])
      then show ?thesis using get Some b by (auto simp: a)
    qed
  qed
qed

lemma MemTable_Adds_Get:
  assumes "list_all (add_ok ok) adds" "distinct (map add_id adds)"
    and "ok u" "length u + 8 < 2 ^ 32" "snap \<le> kMaxSequenceNumber"
  shows "\<exists>m. MemTable_Adds cmp adds MemTable_new = Some m \<and>
     MemTable_Get cmp m (LookupKey_new u snap) val st =
       Some (case mem_newest adds u snap of None \<Rightarrow> (False, val, st)
             | Some (s, t, v) \<Rightarrow> if t = kTypeValue then (True, v, st) else (True, val, NotFound []))"
  using MemTable_Adds_holds [OF memtable_holds_new assms(1)] assms(2) MemTable_Get_newest assms(3-5)
  by (metis append_Nil)

end

end
