(* ===== verification/WriteBatch.thy ===== *)
theory WriteBatch
  imports MemTable
begin

text \<open>
  \<open>db/write_batch.cpp\<close>: a batch of updates as one string \<open>rep_\<close>, a sequence number, a count and
  the records; its iteration by a handler, and the insertion into a memtable.
\<close>

definition kHeader :: nat where "kHeader = 12"

definition WriteBatch_Clear :: bytes where
  "WriteBatch_Clear = replicate kHeader 0"

definition WriteBatch_Count :: "bytes \<Rightarrow> int" where
  "WriteBatch_Count rep = sint (DecodeFixed32 (drop 8 rep))"

definition WriteBatch_SetCount :: "int \<Rightarrow> bytes \<Rightarrow> bytes" where
  "WriteBatch_SetCount n rep = take 8 rep @ EncodeFixed32 (word_of_int n) @ drop 12 rep"

definition WriteBatch_Sequence :: "bytes \<Rightarrow> SequenceNumber" where
  "WriteBatch_Sequence rep = DecodeFixed64 rep"

definition WriteBatch_SetSequence :: "SequenceNumber \<Rightarrow> bytes \<Rightarrow> bytes" where
  "WriteBatch_SetSequence seq rep = EncodeFixed64 seq @ drop 8 rep"

definition WriteBatch_Put :: "bytes \<Rightarrow> bytes \<Rightarrow> bytes \<Rightarrow> bytes" where
  "WriteBatch_Put key val rep =
     (let rep = WriteBatch_SetCount (WriteBatch_Count rep + 1) rep;
          rep = rep @ [kTypeValue];
          rep = PutLengthPrefixedSlice rep key
      in PutLengthPrefixedSlice rep val)"

definition WriteBatch_Delete :: "bytes \<Rightarrow> bytes \<Rightarrow> bytes" where
  "WriteBatch_Delete key rep =
     (let rep = WriteBatch_SetCount (WriteBatch_Count rep + 1) rep;
          rep = rep @ [kTypeDeletion]
      in PutLengthPrefixedSlice rep key)"

definition WriteBatch_SetContents :: "bytes \<Rightarrow> bytes" where
  "WriteBatch_SetContents contents = contents"

definition WriteBatch_Append :: "bytes \<Rightarrow> bytes \<Rightarrow> bytes" where
  "WriteBatch_Append dst src =
     (let dst = WriteBatch_SetCount (WriteBatch_Count dst + WriteBatch_Count src) dst
      in dst @ drop kHeader src)"

section \<open>Iteration\<close>

text \<open>A \<open>Handler\<close> with its state.\<close>

record 'h batch_handler =
  bh_Put :: "bytes \<Rightarrow> bytes \<Rightarrow> 'h \<Rightarrow> 'h"
  bh_Delete :: "bytes \<Rightarrow> 'h \<Rightarrow> 'h"

function Iterate_loop ::
  "'h batch_handler \<Rightarrow> bytes \<Rightarrow> int \<Rightarrow> 'h \<Rightarrow> (string + int) \<times> 'h" where
  "Iterate_loop handler input found h =
     (case input of
        [] \<Rightarrow> (Inr found, h)
      | tag # input \<Rightarrow>
          if tag = kTypeValue then
            (case GetLengthPrefixedSlice input of
               None \<Rightarrow> (Inl ''bad WriteBatch Put'', h)
             | Some (key, input1) \<Rightarrow>
                 (case GetLengthPrefixedSlice input1 of
                    None \<Rightarrow> (Inl ''bad WriteBatch Put'', h)
                  | Some (val, input2) \<Rightarrow>
                      Iterate_loop handler input2 (found + 1) (bh_Put handler key val h)))
          else if tag = kTypeDeletion then
            (case GetLengthPrefixedSlice input of
               None \<Rightarrow> (Inl ''bad WriteBatch Delete'', h)
             | Some (key, input1) \<Rightarrow>
                 Iterate_loop handler input1 (found + 1) (bh_Delete handler key h))
          else (Inl ''unknown WriteBatch tag'', h))"
  by pat_completeness auto
termination
  by (relation "measure (\<lambda>(handler, input, found, h). length input)")
     (auto dest!: GetLengthPrefixedSlice_shorter)

declare Iterate_loop.simps [simp del]

definition WriteBatch_Iterate :: "'h batch_handler \<Rightarrow> bytes \<Rightarrow> 'h \<Rightarrow> status \<times> 'h" where
  "WriteBatch_Iterate handler rep h =
     (if length rep < kHeader then (Corruption ''malformed WriteBatch (too small)'', h)
      else
        case Iterate_loop handler (drop kHeader rep) 0 h of
          (Inl msg, h) \<Rightarrow> (Corruption msg, h)
        | (Inr found, h) \<Rightarrow>
            if found \<noteq> WriteBatch_Count rep then (Corruption ''WriteBatch has wrong count'', h)
            else (OK, h))"

section \<open>Insertion into a memtable\<close>

text \<open>\<open>MemTableInserter\<close>: the next sequence number and the memtable.\<close>

type_synonym mem_inserter = "SequenceNumber \<times> memtable option"

definition MemTableInserter :: "comparator \<Rightarrow> mem_inserter batch_handler" where
  "MemTableInserter user =
     \<lparr>bh_Put = (\<lambda>key val (seq, mem).
        (seq + 1, Option.bind mem (MemTable_Add user seq kTypeValue key val))),
      bh_Delete = (\<lambda>key (seq, mem).
        (seq + 1, Option.bind mem (MemTable_Add user seq kTypeDeletion key [])))\<rparr>"

definition WriteBatch_InsertInto :: "comparator \<Rightarrow> bytes \<Rightarrow> memtable \<Rightarrow> status \<times> memtable option" where
  "WriteBatch_InsertInto user rep mem =
     (let (s, (seq, mem)) = WriteBatch_Iterate (MemTableInserter user) rep (WriteBatch_Sequence rep, Some mem)
      in (s, mem))"

section \<open>Batches as lists of operations\<close>

datatype batch_op = BPut bytes bytes | BDelete bytes

fun batch_step :: "batch_op \<Rightarrow> bytes \<Rightarrow> bytes" where
  "batch_step (BPut k v) rep = WriteBatch_Put k v rep"
| "batch_step (BDelete k) rep = WriteBatch_Delete k rep"

definition batch_of :: "batch_op list \<Rightarrow> bytes" where
  "batch_of ops = fold batch_step ops WriteBatch_Clear"

fun op_bytes :: "batch_op \<Rightarrow> bytes" where
  "op_bytes (BPut k v) = kTypeValue # PutLengthPrefixedSlice (PutLengthPrefixedSlice [] k) v"
| "op_bytes (BDelete k) = kTypeDeletion # PutLengthPrefixedSlice [] k"

fun op_ok :: "batch_op \<Rightarrow> bool" where
  "op_ok (BPut k v) \<longleftrightarrow> length k < 2 ^ 32 \<and> length v < 2 ^ 32"
| "op_ok (BDelete k) \<longleftrightarrow> length k < 2 ^ 32"

fun handle_op :: "'h batch_handler \<Rightarrow> batch_op \<Rightarrow> 'h \<Rightarrow> 'h" where
  "handle_op handler (BPut k v) h = bh_Put handler k v h"
| "handle_op handler (BDelete k) h = bh_Delete handler k h"

text \<open>The representation of a batch with sequence \<open>seq\<close>: its count is kept in 32 bits.\<close>

definition batch_rep :: "SequenceNumber \<Rightarrow> batch_op list \<Rightarrow> bytes" where
  "batch_rep seq ops =
     EncodeFixed64 seq @ EncodeFixed32 (word_of_nat (length ops)) @ concat (map op_bytes ops)"

lemma batch_rep_sizes [simp]: "kHeader \<le> length (batch_rep seq ops)" "\<not> length (batch_rep seq ops) < kHeader"
  by (simp_all add: batch_rep_def kHeader_def)

lemma batch_rep_header [simp]:
  "WriteBatch_Sequence (batch_rep seq ops) = seq"
  "drop kHeader (batch_rep seq ops) = concat (map op_bytes ops)"
  "WriteBatch_Count (batch_rep seq ops) = sint (word_of_nat (length ops) :: u32)"
  by (simp_all add: batch_rep_def WriteBatch_Sequence_def kHeader_def WriteBatch_Count_def)

lemma SetCount_batch_rep:
  "WriteBatch_SetCount n (batch_rep seq ops) =
     EncodeFixed64 seq @ EncodeFixed32 (word_of_int n) @ concat (map op_bytes ops)"
  by (simp add: WriteBatch_SetCount_def batch_rep_def)

lemma word_of_sint_Suc: "word_of_int (sint (word_of_nat n :: u32) + 1) = (word_of_nat (Suc n) :: u32)"
  by (simp add: wi_hom_add [symmetric] add.commute)

lemma word_of_sint_add:
  "word_of_int (sint (word_of_nat n :: u32) + sint (word_of_nat m :: u32)) = (word_of_nat (n + m) :: u32)"
  by (simp add: wi_hom_add [symmetric])

lemma batch_step_rep: "batch_step x (batch_rep seq ops) = batch_rep seq (ops @ [x])"
proof (cases x)
  case (BPut k v)
  then show ?thesis
    by (simp add: WriteBatch_Put_def Let_def SetCount_batch_rep word_of_sint_Suc)
      (simp add: batch_rep_def PutLengthPrefixedSlice_def PutVarint32_def add.commute)
next
  case (BDelete k)
  then show ?thesis
    by (simp add: WriteBatch_Delete_def Let_def SetCount_batch_rep word_of_sint_Suc)
      (simp add: batch_rep_def PutLengthPrefixedSlice_def PutVarint32_def add.commute)
qed

lemma WriteBatch_Clear_rep: "WriteBatch_Clear = batch_rep 0 []"
  by (simp add: WriteBatch_Clear_def batch_rep_def kHeader_def EncodeFixed64_def EncodeFixed32_def
      numeral_eq_Suc)

lemma batch_of_rep: "batch_of ops = batch_rep 0 ops"
proof -
  have "fold batch_step ops (batch_rep 0 pre) = batch_rep 0 (pre @ ops)" for pre
    by (induction ops arbitrary: pre) (simp_all add: batch_step_rep)
  from this [of "[]"] show ?thesis by (simp add: batch_of_def WriteBatch_Clear_rep)
qed

lemma SetSequence_rep: "WriteBatch_SetSequence seq (batch_rep seq' ops) = batch_rep seq ops"
  by (simp add: WriteBatch_SetSequence_def batch_rep_def)

lemma Append_rep: "WriteBatch_Append (batch_rep seq a) (batch_rep seq' b) = batch_rep seq (a @ b)"
  by (simp add: WriteBatch_Append_def Let_def SetCount_batch_rep word_of_sint_add)
    (simp add: batch_rep_def)

lemma PutLengthPrefixedSlice_Get:
  "length k < 2 ^ 32 \<Longrightarrow> GetLengthPrefixedSlice (PutLengthPrefixedSlice [] k @ rest) = Some (k, rest)"
  using GetLengthPrefixedSlice_Put by simp

lemma Iterate_loop_ops:
  "list_all op_ok ops \<Longrightarrow> Iterate_loop handler (concat (map op_bytes ops)) found h =
     (Inr (found + int (length ops)), fold (handle_op handler) ops h)"
proof (induction ops arbitrary: found h)
  case Nil
  then show ?case by (simp add: Iterate_loop.simps)
next
  case (Cons x ops)
  show ?case
  proof (cases x)
    case (BPut k v)
    have "PutLengthPrefixedSlice (PutLengthPrefixedSlice [] k) v @ r
        = PutLengthPrefixedSlice [] k @ PutLengthPrefixedSlice [] v @ r" for r
      by (simp add: PutLengthPrefixedSlice_def PutVarint32_def)
    then show ?thesis using Cons BPut
      by (simp add: Iterate_loop.simps [of _ "kTypeValue # _"] PutLengthPrefixedSlice_Get)
  next
    case (BDelete k)
    have "kTypeDeletion \<noteq> kTypeValue" by (simp add: kTypeValue_def kTypeDeletion_def)
    then show ?thesis using Cons BDelete
      by (simp add: Iterate_loop.simps [of _ "kTypeDeletion # _"] PutLengthPrefixedSlice_Get)
  qed
qed

lemma sint_count: "n < 2 ^ 31 \<Longrightarrow> sint (word_of_nat n :: u32) = int n"
  by (simp add: sint_uint unsigned_of_nat take_bit_nat_eq_self signed_take_bit_int_eq_self)

lemma WriteBatch_Iterate_rep:
  "list_all op_ok ops \<Longrightarrow> length ops < 2 ^ 31 \<Longrightarrow>
   WriteBatch_Iterate handler (batch_rep seq ops) h = (OK, fold (handle_op handler) ops h)"
  by (simp add: WriteBatch_Iterate_def Iterate_loop_ops sint_count)

text \<open>Operation \<open>i\<close> of a batch is added to the memtable with sequence number \<open>seq + i\<close>.\<close>

fun op_adds :: "SequenceNumber \<Rightarrow> batch_op list \<Rightarrow> mem_add list" where
  "op_adds seq [] = []"
| "op_adds seq (BPut k v # ops) = (seq, kTypeValue, k, v) # op_adds (seq + 1) ops"
| "op_adds seq (BDelete k # ops) = (seq, kTypeDeletion, k, []) # op_adds (seq + 1) ops"

lemma handle_inserter:
  "handle_op (MemTableInserter user) (BPut k v) (seq, m) =
     (seq + 1, Option.bind m (MemTable_Add user seq kTypeValue k v))"
  "handle_op (MemTableInserter user) (BDelete k) (seq, m) =
     (seq + 1, Option.bind m (MemTable_Add user seq kTypeDeletion k []))"
  by (simp_all add: MemTableInserter_def)

lemma bind_Adds:
  "Option.bind (Option.bind m (MemTable_Add user s t k v)) (MemTable_Adds user adds) =
     Option.bind m (MemTable_Adds user ((s, t, k, v) # adds))"
  by (cases m) (auto simp: Option.bind_def split: option.split)

lemma fold_inserter:
  "fold (handle_op (MemTableInserter user)) ops (seq, m) =
     (seq + word_of_nat (length ops), Option.bind m (MemTable_Adds user (op_adds seq ops)))"
proof (induction ops arbitrary: seq m)
  case Nil
  then show ?case by (cases m) simp_all
next
  case (Cons x ops)
  show ?case
  proof (cases x)
    case (BPut k v)
    then show ?thesis
      by (simp only: fold_Cons comp_def handle_inserter Cons.IH bind_Adds op_adds.simps)
        (simp add: ac_simps del: MemTable_Adds.simps)
  next
    case (BDelete k)
    then show ?thesis
      by (simp only: fold_Cons comp_def handle_inserter Cons.IH bind_Adds op_adds.simps)
        (simp add: ac_simps del: MemTable_Adds.simps)
  qed
qed

lemma InsertInto_rep:
  "list_all op_ok ops \<Longrightarrow> length ops < 2 ^ 31 \<Longrightarrow>
   WriteBatch_InsertInto user (batch_rep seq ops) m = (OK, MemTable_Adds user (op_adds seq ops) m)"
  by (simp add: WriteBatch_InsertInto_def WriteBatch_Iterate_rep fold_inserter)

section \<open>Reading back a batch\<close>

text \<open>The last operation of a batch on a key: \<open>Some (Some v)\<close> for a put, \<open>Some None\<close> for a deletion.\<close>

fun op_effect :: "bytes \<Rightarrow> batch_op \<Rightarrow> bytes option option \<Rightarrow> bytes option option" where
  "op_effect u (BPut k v) r = (if k = u then Some (Some v) else r)"
| "op_effect u (BDelete k) r = (if k = u then Some None else r)"

definition batch_lookup :: "batch_op list \<Rightarrow> bytes \<Rightarrow> bytes option option" where
  "batch_lookup ops u = fold (op_effect u) ops None"

fun op_fits :: "batch_op \<Rightarrow> bool" where
  "op_fits (BPut k v) \<longleftrightarrow> length k + 8 < 2 ^ 32 \<and> length v < 2 ^ 32"
| "op_fits (BDelete k) \<longleftrightarrow> length k + 8 < 2 ^ 32"

lemma op_fits_ok: "op_fits x \<Longrightarrow> op_ok x"
  by (cases x) auto

lemma op_adds_append: "op_adds seq (a @ b) = op_adds seq a @ op_adds (seq + word_of_nat (length a)) b"
  by (induction seq a rule: op_adds.induct) (simp_all add: algebra_simps)

lemma op_adds_seqs:
  "unat seq + length ops \<le> 2 ^ 64 \<Longrightarrow> map (\<lambda>a. unat (fst a)) (op_adds seq ops) = [unat seq..<unat seq + length ops]"
proof (induction seq ops rule: op_adds.induct)
  case (2 seq k v ops)
  show ?case
  proof (cases "ops = []")
    case False
    then have "unat seq + 1 < 2 ^ 64" using "2.prems" by (cases ops) auto
    then have s: "unat (seq + 1) = unat seq + 1" by (simp add: unat_word_ariths)
    have "unat (seq + 1) + length ops \<le> 2 ^ 64" using "2.prems" s by simp
    from "2.IH" [OF this] show ?thesis using s False by (simp add: upt_conv_Cons del: upt_Suc)
  qed simp
next
  case (3 seq k ops)
  show ?case
  proof (cases "ops = []")
    case False
    then have "unat seq + 1 < 2 ^ 64" using "3.prems" by (cases ops) auto
    then have s: "unat (seq + 1) = unat seq + 1" by (simp add: unat_word_ariths)
    have "unat (seq + 1) + length ops \<le> 2 ^ 64" using "3.prems" s by simp
    from "3.IH" [OF this] show ?thesis using s False by (simp add: upt_conv_Cons del: upt_Suc)
  qed simp
qed simp

lemma op_adds_distinct:
  assumes "unat seq + length ops \<le> 2 ^ 64"
  shows "distinct (map add_id (op_adds seq ops))"
proof -
  have "map (\<lambda>a. unat (fst a)) (op_adds seq ops) = map (unat \<circ> snd) (map add_id (op_adds seq ops))"
    by (auto simp: comp_def)
  then have "distinct (map (unat \<circ> snd) (map add_id (op_adds seq ops)))"
    using op_adds_seqs [OF assms] by (metis distinct_upt)
  then show ?thesis unfolding map_map [symmetric] by (metis distinct_map)
qed

lemma op_adds_ok:
  assumes "unat seq + length ops \<le> unat kMaxSequenceNumber" "list_all op_fits ops"
  shows "list_all (add_ok (\<lambda>_. True)) (op_adds seq ops)"
  using assms
proof (induction seq ops rule: op_adds.induct)
  case (2 seq k v ops)
  have b: "unat kMaxSequenceNumber < 2 ^ 64" using unsigned_less [of kMaxSequenceNumber] by simp
  then have "unat (seq + 1) = unat seq + 1" using "2.prems"(1) by (simp add: unat_word_ariths)
  then show ?case using 2 by (simp add: word_le_nat_alt kTypeValue_def)
next
  case (3 seq k ops)
  have b: "unat kMaxSequenceNumber < 2 ^ 64" using unsigned_less [of kMaxSequenceNumber] by simp
  then have "unat (seq + 1) = unat seq + 1" using "3.prems"(1) by (simp add: unat_word_ariths)
  then show ?case using 3 by (simp add: word_le_nat_alt kTypeDeletion_def kTypeValue_def)
qed simp

lemma mem_newest_ops:
  assumes "unat seq + length ops \<le> unat kMaxSequenceNumber" "unat seq + length ops \<le> unat snap + 1"
  shows "(case mem_newest (op_adds seq ops) u snap of None \<Rightarrow> batch_lookup ops u = None
     | Some (s, t, v) \<Rightarrow> unat s < unat seq + length ops \<and>
        batch_lookup ops u = Some (if t = kTypeValue then Some v else None))"
  using assms
proof (induction ops rule: rev_induct)
  case Nil
  show ?case by (simp add: mem_newest_def batch_lookup_def)
next
  case (snoc x ops)
  have b: "unat kMaxSequenceNumber < 2 ^ 64" using unsigned_less [of kMaxSequenceNumber] by simp
  define s where "s = seq + word_of_nat (length ops)"
  have s: "unat s = unat seq + length ops"
    using snoc.prems b by (simp add: s_def unat_word_ariths unat_of_nat)
  then have le: "s \<le> snap" using snoc.prems by (simp add: word_le_nat_alt)
  obtain t k v where x: "op_adds s [x] = [(s, t, k, v)]" and
    eff: "\<And>r. op_effect u x r = (if k = u then Some (if t = kTypeValue then Some v else None) else r)"
    by (cases x) (auto simp: kTypeValue_def kTypeDeletion_def)
  have n: "batch_lookup (ops @ [x]) u =
      (if k = u then Some (if t = kTypeValue then Some v else None) else batch_lookup ops u)"
    by (simp add: batch_lookup_def eff)
  have IH: "case mem_newest (op_adds seq ops) u snap of None \<Rightarrow> batch_lookup ops u = None
     | Some (s, t, v) \<Rightarrow> unat s < unat seq + length ops \<and>
        batch_lookup ops u = Some (if t = kTypeValue then Some v else None)"
    using snoc by simp
  have nw: "mem_newest (op_adds seq (ops @ [x])) u snap =
     (if k = u then Some (s, t, v) else mem_newest (op_adds seq ops) u snap)"
    unfolding op_adds_append s_def [symmetric] x mem_newest_snoc
    using IH le s by (auto simp: word_less_nat_alt split: option.splits)
  show ?case
    unfolding nw n using IH s by (auto split: option.splits)
qed

text \<open>A batch inserted into a fresh memtable reads back its last operation on every key.\<close>

lemma InsertInto_Get:
  assumes "list_all op_fits ops" "length ops < 2 ^ 31" "length u + 8 < 2 ^ 32"
    and "unat seq + length ops \<le> unat kMaxSequenceNumber"
  shows "\<exists>m. WriteBatch_InsertInto BytewiseComparator (batch_rep seq ops) MemTable_new = (OK, Some m) \<and>
     MemTable_Get BytewiseComparator m (LookupKey_new u (seq + word_of_nat (length ops))) val st =
       Some (case batch_lookup ops u of None \<Rightarrow> (False, val, st)
             | Some (Some v) \<Rightarrow> (True, v, st) | Some None \<Rightarrow> (True, val, NotFound []))"
proof -
  have b: "unat kMaxSequenceNumber < 2 ^ 64" using unsigned_less [of kMaxSequenceNumber] by simp
  define snap where "snap = seq + word_of_nat (length ops)"
  have s: "unat snap = unat seq + length ops"
    using assms b by (simp add: snap_def unat_word_ariths unat_of_nat)
  have snap: "snap \<le> kMaxSequenceNumber" using s assms(4) by (simp add: word_le_nat_alt)
  obtain m where m: "MemTable_Adds BytewiseComparator (op_adds seq ops) MemTable_new = Some m"
    "MemTable_Get BytewiseComparator m (LookupKey_new u snap) val st =
       Some (case mem_newest (op_adds seq ops) u snap of None \<Rightarrow> (False, val, st)
             | Some (s, t, v) \<Rightarrow> if t = kTypeValue then (True, v, st) else (True, val, NotFound []))"
    using bytewise_table.MemTable_Adds_Get [OF op_adds_ok op_adds_distinct TrueI assms(3) snap, of seq ops val st]
      assms b by auto
  moreover have "list_all op_ok ops" using assms(1) op_fits_ok by (auto simp: list_all_iff)
  moreover have "(case mem_newest (op_adds seq ops) u snap of None \<Rightarrow> (False, val, st)
             | Some (s, t, v) \<Rightarrow> if t = kTypeValue then (True, v, st) else (True, val, NotFound []))
     = (case batch_lookup ops u of None \<Rightarrow> (False, val, st)
             | Some (Some v) \<Rightarrow> (True, v, st) | Some None \<Rightarrow> (True, val, NotFound []))"
    using mem_newest_ops [of seq ops snap u] assms(4) s by (auto split: option.splits if_splits)
  ultimately show ?thesis using InsertInto_rep [of ops BytewiseComparator seq MemTable_new] assms(2)
    by (auto simp: snap_def)
qed

end
