(* ===== verification/Block.thy ===== *)
theory Block
  imports Coding ComparatorSpec
begin

text \<open>
  \<open>table/block_builder.cpp\<close> and \<open>table/block.cpp\<close>: sorted blocks of prefix-compressed entries
  with restart points, and their iterator. Offsets into a block are natural numbers; the 32-bit
  sums the code computes on lengths read from the block are kept at their width.
\<close>

section \<open>Block builder\<close>

record block_builder =
  bb_restart_interval :: nat
  bb_buffer :: bytes
  bb_restarts :: "nat list"
  bb_counter :: nat
  bb_finished :: bool
  bb_last_key :: bytes

definition BlockBuilder_new :: "nat \<Rightarrow> block_builder" where
  "BlockBuilder_new interval =
     \<lparr>bb_restart_interval = interval, bb_buffer = [], bb_restarts = [0], bb_counter = 0,
      bb_finished = False, bb_last_key = []\<rparr>"

definition BlockBuilder_Reset :: "block_builder \<Rightarrow> block_builder" where
  "BlockBuilder_Reset b =
     b\<lparr>bb_buffer := [], bb_restarts := [0], bb_counter := 0, bb_finished := False, bb_last_key := []\<rparr>"

definition BlockBuilder_CurrentSizeEstimate :: "block_builder \<Rightarrow> nat" where
  "BlockBuilder_CurrentSizeEstimate b = length (bb_buffer b) + length (bb_restarts b) * 4 + 4"

definition BlockBuilder_empty :: "block_builder \<Rightarrow> bool" where
  "BlockBuilder_empty b \<longleftrightarrow> bb_buffer b = []"

definition BlockBuilder_Finish :: "block_builder \<Rightarrow> bytes \<times> block_builder" where
  "BlockBuilder_Finish b =
     (let buffer = fold (\<lambda>r buf. PutFixed32 buf (word_of_nat r)) (bb_restarts b) (bb_buffer b);
          buffer = PutFixed32 buffer (word_of_nat (length (bb_restarts b)))
      in (buffer, b\<lparr>bb_buffer := buffer, bb_finished := True\<rparr>))"

fun shared_loop :: "bytes \<Rightarrow> bytes \<Rightarrow> nat" where
  "shared_loop (a # as) (b # bs) = (if a = b then Suc (shared_loop as bs) else 0)"
| "shared_loop _ _ = 0"

definition BlockBuilder_Add :: "bytes \<Rightarrow> bytes \<Rightarrow> block_builder \<Rightarrow> block_builder" where
  "BlockBuilder_Add key val b =
     (let (shared, b) =
            (if bb_counter b < bb_restart_interval b then (shared_loop (bb_last_key b) key, b)
             else (0, b\<lparr>bb_restarts := bb_restarts b @ [length (bb_buffer b)], bb_counter := 0\<rparr>));
          non_shared = length key - shared;
          buffer = PutVarint32 (bb_buffer b) (word_of_nat shared);
          buffer = PutVarint32 buffer (word_of_nat non_shared);
          buffer = PutVarint32 buffer (word_of_nat (length val));
          buffer = buffer @ drop shared key @ val
      in b\<lparr>bb_buffer := buffer, bb_last_key := take shared (bb_last_key b) @ drop shared key,
           bb_counter := bb_counter b + 1\<rparr>)"

section \<open>Blocks\<close>

record block =
  blk_data :: bytes
  blk_size :: nat
  blk_restart_offset :: nat

definition block_NumRestarts :: "bytes \<Rightarrow> nat" where
  "block_NumRestarts data = unat (DecodeFixed32 (drop (length data - 4) data))"

definition Block_new :: "bytes \<Rightarrow> block" where
  "Block_new contents =
     (let size = length contents
      in if size < 4 then \<lparr>blk_data = contents, blk_size = 0, blk_restart_offset = 0\<rparr>
         else
           let max_restarts_allowed = (size - 4) div 4
           in if block_NumRestarts contents > max_restarts_allowed
              then \<lparr>blk_data = contents, blk_size = 0, blk_restart_offset = 0\<rparr>
              else \<lparr>blk_data = contents, blk_size = size,
                    blk_restart_offset = size - (1 + block_NumRestarts contents) * 4\<rparr>)"

text \<open>
  \<open>DecodeEntry\<close> on the bytes up to the limit: the three lengths and the bytes from the key
  delta on. The final test adds the two lengths in 32 bits.
\<close>

definition DecodeEntry :: "bytes \<Rightarrow> (u32 \<times> u32 \<times> u32 \<times> bytes) option" where
  "DecodeEntry p =
     (if length p < 3 then None
      else
        let shared = ucast (p ! 0) :: u32; non_shared = ucast (p ! 1) :: u32;
            value_length = ucast (p ! 2) :: u32;
            decoded =
              (if shared OR non_shared OR value_length < 128
               then Some (shared, non_shared, value_length, drop 3 p)
               else
                 (case GetVarint32Ptr p of
                    None \<Rightarrow> None
                  | Some (shared, p) \<Rightarrow>
                      (case GetVarint32Ptr p of
                         None \<Rightarrow> None
                       | Some (non_shared, p) \<Rightarrow>
                           (case GetVarint32Ptr p of
                              None \<Rightarrow> None
                            | Some (value_length, p) \<Rightarrow> Some (shared, non_shared, value_length, p)))))
        in case decoded of
             None \<Rightarrow> None
           | Some (shared, non_shared, value_length, p) \<Rightarrow>
               if word_of_nat (length p) < non_shared + value_length then None
               else Some (shared, non_shared, value_length, p))"

section \<open>The block iterator\<close>

text \<open>\<open>bi_value_offset\<close> and \<open>bi_value_size\<close> are the slice \<open>value_\<close> into \<open>data_\<close>.\<close>

record block_iter =
  bi_data :: bytes
  bi_restarts :: nat
  bi_num_restarts :: nat
  bi_current :: nat
  bi_restart_index :: nat
  bi_key :: bytes
  bi_value_offset :: nat
  bi_value_size :: nat
  bi_status :: status

definition BlockIter_new :: "bytes \<Rightarrow> nat \<Rightarrow> nat \<Rightarrow> block_iter" where
  "BlockIter_new data restarts num_restarts =
     \<lparr>bi_data = data, bi_restarts = restarts, bi_num_restarts = num_restarts,
      bi_current = restarts, bi_restart_index = num_restarts, bi_key = [],
      bi_value_offset = 0, bi_value_size = 0, bi_status = OK\<rparr>"

definition BlockIter_Valid :: "block_iter \<Rightarrow> bool" where
  "BlockIter_Valid it \<longleftrightarrow> bi_current it < bi_restarts it"

definition BlockIter_value :: "block_iter \<Rightarrow> bytes" where
  "BlockIter_value it = take (bi_value_size it) (drop (bi_value_offset it) (bi_data it))"

definition NextEntryOffset :: "block_iter \<Rightarrow> nat" where
  "NextEntryOffset it = bi_value_offset it + bi_value_size it"

definition GetRestartPoint :: "block_iter \<Rightarrow> nat \<Rightarrow> nat" where
  "GetRestartPoint it index = unat (DecodeFixed32 (drop (bi_restarts it + index * 4) (bi_data it)))"

definition SeekToRestartPoint :: "nat \<Rightarrow> block_iter \<Rightarrow> block_iter" where
  "SeekToRestartPoint index it =
     it\<lparr>bi_key := [], bi_restart_index := index, bi_value_offset := GetRestartPoint it index,
        bi_value_size := 0\<rparr>"

definition BlockIter_CorruptionError :: "block_iter \<Rightarrow> block_iter" where
  "BlockIter_CorruptionError it =
     it\<lparr>bi_current := bi_restarts it, bi_restart_index := bi_num_restarts it,
        bi_status := Corruption ''bad entry in block'', bi_key := [],
        bi_value_offset := 0, bi_value_size := 0\<rparr>"

function restart_index_loop :: "block_iter \<Rightarrow> nat \<Rightarrow> nat" where
  "restart_index_loop it i =
     (if i + 1 < bi_num_restarts it \<and> GetRestartPoint it (i + 1) < bi_current it
      then restart_index_loop it (i + 1) else i)"
  by pat_completeness auto
termination by (relation "measure (\<lambda>(it, i). bi_num_restarts it - i)") auto

declare restart_index_loop.simps [simp del]

definition ParseNextKey :: "block_iter \<Rightarrow> bool \<times> block_iter" where
  "ParseNextKey it =
     (let it = it\<lparr>bi_current := NextEntryOffset it\<rparr>
      in if bi_current it \<ge> bi_restarts it
         then (False, it\<lparr>bi_current := bi_restarts it, bi_restart_index := bi_num_restarts it\<rparr>)
         else
           let p = drop (bi_current it) (take (bi_restarts it) (bi_data it))
           in case DecodeEntry p of
                None \<Rightarrow> (False, BlockIter_CorruptionError it)
              | Some (shared, non_shared, value_length, q) \<Rightarrow>
                  if length (bi_key it) < unat shared then (False, BlockIter_CorruptionError it)
                  else
                    let it = it\<lparr>bi_key := take (unat shared) (bi_key it) @ take (unat non_shared) q,
                               bi_value_offset := bi_restarts it - length q + unat non_shared,
                               bi_value_size := unat value_length\<rparr>
                    in (True, it\<lparr>bi_restart_index := restart_index_loop it (bi_restart_index it)\<rparr>))"

definition BlockIter_Next :: "block_iter \<Rightarrow> block_iter" where
  "BlockIter_Next it = snd (ParseNextKey it)"

lemma DecodeEntry_consumes:
  "DecodeEntry p = Some (s, n, v, q) \<Longrightarrow> length q < length p"
  by (auto simp: DecodeEntry_def Let_def GetVarint32_def [symmetric] dest!: GetVarint32_shorter
      split: if_splits option.splits)

lemma ParseNextKey_same [simp]:
  "bi_data (snd (ParseNextKey it)) = bi_data it" "bi_restarts (snd (ParseNextKey it)) = bi_restarts it"
  "bi_num_restarts (snd (ParseNextKey it)) = bi_num_restarts it"
  by (auto simp: ParseNextKey_def Let_def BlockIter_CorruptionError_def split: option.split)

lemma ParseNextKey_advances:
  assumes "ParseNextKey it = (True, it')"
  shows "bi_restarts it - NextEntryOffset it' < bi_restarts it - NextEntryOffset it"
proof -
  have lt: "NextEntryOffset it < bi_restarts it"
    using assms by (auto simp: ParseNextKey_def Let_def split: if_splits)
  let ?p = "drop (NextEntryOffset it) (take (bi_restarts it) (bi_data it))"
  obtain s n v q where d: "DecodeEntry ?p = Some (s, n, v, q)"
    and it': "bi_value_offset it' = bi_restarts it - length q + unat n" "bi_value_size it' = unat v"
    using assms by (auto simp: ParseNextKey_def Let_def split: if_splits option.splits)
  have "length q < length ?p" using DecodeEntry_consumes [OF d] .
  also have "\<dots> \<le> bi_restarts it - NextEntryOffset it" by simp
  finally show ?thesis using lt it' by (simp add: NextEntryOffset_def)
qed

text \<open>
  The loops over \<open>ParseNextKey\<close>: \<open>Prev\<close> and \<open>SeekToLast\<close> run until the next entry would start at
  or after \<open>stop\<close>, \<open>Seek\<close> until a key at or after the target.
\<close>

function parse_until_offset :: "nat \<Rightarrow> block_iter \<Rightarrow> block_iter" where
  "parse_until_offset stop it =
     (let (ok, it) = ParseNextKey it
      in if ok \<and> NextEntryOffset it < stop then parse_until_offset stop it else it)"
  by pat_completeness auto
termination
  by (relation "measure (\<lambda>(stop, it). bi_restarts it - NextEntryOffset it)")
    (auto dest: ParseNextKey_advances [OF sym], metis ParseNextKey_advances ParseNextKey_same(2) snd_conv)

declare parse_until_offset.simps [simp del]

function parse_until_key :: "comparator \<Rightarrow> bytes \<Rightarrow> block_iter \<Rightarrow> block_iter" where
  "parse_until_key cmp target it =
     (let (ok, it) = ParseNextKey it
      in if \<not> ok then it else if Compare cmp (bi_key it) target \<ge> 0 then it
         else parse_until_key cmp target it)"
  by pat_completeness auto
termination
  by (relation "measure (\<lambda>(cmp, target, it). bi_restarts it - NextEntryOffset it)")
    (auto dest: ParseNextKey_advances [OF sym], metis ParseNextKey_advances ParseNextKey_same(2) snd_conv)

declare parse_until_key.simps [simp del]

fun prev_restart_loop :: "block_iter \<Rightarrow> nat \<Rightarrow> nat \<Rightarrow> nat option" where
  "prev_restart_loop it original 0 = (if GetRestartPoint it 0 \<ge> original then None else Some 0)"
| "prev_restart_loop it original (Suc i) =
     (if GetRestartPoint it (Suc i) \<ge> original then prev_restart_loop it original i else Some (Suc i))"

definition BlockIter_Prev :: "block_iter \<Rightarrow> block_iter" where
  "BlockIter_Prev it =
     (let original = bi_current it
      in case prev_restart_loop it original (bi_restart_index it) of
           None \<Rightarrow> it\<lparr>bi_current := bi_restarts it, bi_restart_index := bi_num_restarts it\<rparr>
         | Some i \<Rightarrow> parse_until_offset original (SeekToRestartPoint i it))"

definition BlockIter_SeekToFirst :: "block_iter \<Rightarrow> block_iter" where
  "BlockIter_SeekToFirst it = snd (ParseNextKey (SeekToRestartPoint 0 it))"

definition BlockIter_SeekToLast :: "block_iter \<Rightarrow> block_iter" where
  "BlockIter_SeekToLast it =
     parse_until_offset (bi_restarts it) (SeekToRestartPoint (bi_num_restarts it - 1) it)"

text \<open>The binary search over the restart array; \<open>None\<close> is the return through \<open>CorruptionError\<close>.\<close>

function seek_search :: "comparator \<Rightarrow> block_iter \<Rightarrow> bytes \<Rightarrow> nat \<Rightarrow> nat \<Rightarrow> nat option" where
  "seek_search cmp it target left right =
     (if left < right then
        let mid = (left + right + 1) div 2;
            region_offset = GetRestartPoint it mid
        in case DecodeEntry (drop region_offset (take (bi_restarts it) (bi_data it))) of
             None \<Rightarrow> None
           | Some (shared, non_shared, value_length, q) \<Rightarrow>
               if shared \<noteq> 0 then None
               else if Compare cmp (take (unat non_shared) q) target < 0
               then seek_search cmp it target mid right
               else seek_search cmp it target left (mid - 1)
      else Some left)"
  by pat_completeness auto
termination
  by (relation "measure (\<lambda>(cmp, it, target, left, right). right - left)") auto

declare seek_search.simps [simp del]

definition BlockIter_Seek :: "comparator \<Rightarrow> bytes \<Rightarrow> block_iter \<Rightarrow> block_iter" where
  "BlockIter_Seek cmp target it =
     (case seek_search cmp it target 0 (bi_num_restarts it - 1) of
        None \<Rightarrow> BlockIter_CorruptionError it
      | Some left \<Rightarrow> parse_until_key cmp target (SeekToRestartPoint left it))"

text \<open>\<open>Block::NewIterator\<close>: an error, the empty iterator, or an iterator over the block.\<close>

datatype new_block_iter = ErrorIterator status | EmptyIterator | BlockIterator block_iter

definition Block_NewIterator :: "block \<Rightarrow> new_block_iter" where
  "Block_NewIterator b =
     (if blk_size b < 4 then ErrorIterator (Corruption ''bad block contents'')
      else
        let num_restarts = block_NumRestarts (blk_data b)
        in if num_restarts = 0 then EmptyIterator
           else BlockIterator (BlockIter_new (blk_data b) (blk_restart_offset b) num_restarts))"

end
