(* ===== verification/BlockProofs.thy ===== *)
theory BlockProofs
  imports Block DbFormat
begin

text \<open>
  A block built by \<open>BlockBuilder\<close> reads back as the sorted list of its entries: the iterator
  steps through it in both directions and \<open>Seek\<close> finds the first key at or after its target.
\<close>

section \<open>Decoding one entry\<close>

text \<open>An entry with the number of key bytes it shares with the entry before it.\<close>

type_synonym block_entry = "nat \<times> bytes \<times> bytes"

definition enc_entry :: "block_entry \<Rightarrow> bytes" where
  "enc_entry e = (case e of (sh, k, v) \<Rightarrow>
     EncodeVarint32 (word_of_nat sh) @ EncodeVarint32 (word_of_nat (length k - sh)) @
     EncodeVarint32 (word_of_nat (length v)) @ drop sh k @ v)"

lemma word_less_128_iff: "(a :: u32) < 128 \<longleftrightarrow> drop_bit 7 a = 0"
proof -
  have u: "unat (drop_bit 7 a) = unat a div 128"
    by (simp only: unat_drop_bit_eq) (simp add: drop_bit_eq_div)
  have "drop_bit 7 a = 0 \<longleftrightarrow> unat (drop_bit 7 a) = 0" by (simp only: unat_eq_zero)
  then show ?thesis by (simp add: u word_less_nat_alt div_eq_0_iff)
qed

lemma or_less_128: "(a OR b OR c :: u32) < 128 \<longleftrightarrow> a < 128 \<and> b < 128 \<and> c < 128"
  unfolding word_less_128_iff drop_bit_or by (auto simp: or_eq_0_iff)

lemma EncodeVarint32_first:
  "\<exists>rest. EncodeVarint32 v = (if v < 128 then [ucast v] else rest) \<and>
     ((\<not> v < 128) \<longrightarrow> (\<exists>b r. rest = b # r \<and> r \<noteq> [] \<and> \<not> (ucast b :: u32) < 128))"
proof (cases "v < 128")
  case False
  have "\<not> (ucast (ucast (w OR 128) :: byte) :: u32) < 128" for w :: u32
  proof -
    have "bit (ucast (ucast (w OR 128) :: byte) :: u32) 7"
      by (simp add: bit_ucast_iff bit_or_iff bit_128)
    then have "bit (drop_bit 7 (ucast (ucast (w OR 128) :: byte) :: u32)) 0" by (simp add: bit_drop_bit_eq)
    then have "drop_bit 7 (ucast (ucast (w OR 128) :: byte) :: u32) \<noteq> 0" by auto
    then show ?thesis unfolding word_less_128_iff .
  qed
  then show ?thesis using False by (auto simp: EncodeVarint32_def)
qed (simp add: EncodeVarint32_def)

lemma byte_less_128: "v < 128 \<Longrightarrow> ucast (ucast (v :: u32) :: byte) = v"
proof -
  assume "v < 128"
  then have "unat v < 256" by (simp add: word_less_nat_alt)
  then show ?thesis
    by (simp add: word_unat_eq_iff unat_ucast_up unsigned_ucast_eq unsigned_take_bit_eq take_bit_nat_eq_self)
qed

lemma GetVarint32Ptr_Encode [simp]: "GetVarint32Ptr (EncodeVarint32 v @ rest) = Some (v, rest)"
  using GetVarint32_Encode [of v rest] by (simp add: GetVarint32_def)

lemma DecodeEntry_varints:
  assumes "unat n + unat l \<le> length rest" "length rest < 2 ^ 32"
  shows "DecodeEntry (EncodeVarint32 s @ EncodeVarint32 n @ EncodeVarint32 l @ rest) = Some (s, n, l, rest)"
proof -
  let ?p = "EncodeVarint32 s @ EncodeVarint32 n @ EncodeVarint32 l @ rest"
  have ge1: "1 \<le> length (EncodeVarint32 v)" for v using length_EncodeVarint32_bounds by blast
  then have len: "\<not> length ?p < 3" using ge1 [of s] ge1 [of n] ge1 [of l]
    unfolding length_append by linarith
  have fits: "\<not> word_of_nat (length rest) < n + l"
  proof -
    have "unat (n + l) = unat n + unat l" using assms by (simp add: unat_word_ariths)
    then show ?thesis using assms by (simp add: word_less_nat_alt word_of_nat_less_iff_bound)
  qed
  let ?small = "(ucast (?p ! 0) :: u32) OR ucast (?p ! 1) OR ucast (?p ! 2) < 128"
  have one: "EncodeVarint32 v = [ucast v]" if "v < 128" for v using that by (simp add: EncodeVarint32_def)
  show ?thesis
  proof (cases "s < 128 \<and> n < 128 \<and> l < 128")
    case True
    then have p: "?p = ucast s # ucast n # ucast l # rest" using one by simp
    show ?thesis
      unfolding p using True fits by (simp add: DecodeEntry_def Let_def byte_less_128 or_less_128)
  next
    case False
    have big: "\<not> ?small"
    proof (cases "s < 128")
      case False
      then obtain b r where "EncodeVarint32 s = b # r" "\<not> (ucast b :: u32) < 128"
        using EncodeVarint32_first [of s] by auto
      then show ?thesis by (simp add: or_less_128)
    next
      case s: True
      show ?thesis
      proof (cases "n < 128")
        case False
        then obtain b r where "EncodeVarint32 n = b # r" "\<not> (ucast b :: u32) < 128"
          using EncodeVarint32_first [of n] by auto
        then show ?thesis using one [OF s] by (simp add: or_less_128)
      next
        case n: True
        then have "\<not> l < 128" using False s by simp
        then obtain b r where "EncodeVarint32 l = b # r" "\<not> (ucast b :: u32) < 128"
          using EncodeVarint32_first [of l] by auto
        then show ?thesis using one [OF s] one [OF n] by (simp add: or_less_128)
      qed
    qed
    show ?thesis
      unfolding DecodeEntry_def Let_def if_not_P [OF len] if_not_P [OF big] using fits by simp
  qed
qed

section \<open>Layout\<close>

definition ent_sh :: "block_entry \<Rightarrow> nat" where "ent_sh e = fst e"
definition ent_key :: "block_entry \<Rightarrow> bytes" where "ent_key e = fst (snd e)"
definition ent_val :: "block_entry \<Rightarrow> bytes" where "ent_val e = snd (snd e)"

definition block_bytes :: "block_entry list \<Rightarrow> bytes" where
  "block_bytes es = concat (map enc_entry es)"

definition ent_offset :: "block_entry list \<Rightarrow> nat \<Rightarrow> nat" where
  "ent_offset es i = length (block_bytes (take i es))"

definition prev_key :: "block_entry list \<Rightarrow> nat \<Rightarrow> bytes" where
  "prev_key es i = (if i = 0 then [] else ent_key (es ! (i - 1)))"

text \<open>\<open>shares e key\<close>: the entry's key can be rebuilt from \<open>key\<close> and the stored delta.\<close>

definition shares :: "block_entry \<Rightarrow> bytes \<Rightarrow> bool" where
  "shares e key \<longleftrightarrow> ent_sh e \<le> length (ent_key e) \<and> ent_sh e \<le> length key \<and>
     take (ent_sh e) key = take (ent_sh e) (ent_key e)"

definition layout_ok :: "block_entry list \<Rightarrow> bool" where
  "layout_ok es \<longleftrightarrow> (\<forall>i<length es. shares (es ! i) (prev_key es i) \<and>
     length (ent_key (es ! i)) < 2 ^ 32 \<and> length (ent_val (es ! i)) < 2 ^ 32)"

definition restarts_ok :: "block_entry list \<Rightarrow> nat list \<Rightarrow> bool" where
  "restarts_ok es idxs \<longleftrightarrow> idxs \<noteq> [] \<and> idxs ! 0 = 0 \<and> sorted_wrt (<) idxs \<and>
     (\<forall>j<length idxs. idxs ! j < length es \<and> ent_sh (es ! (idxs ! j)) = 0 \<or> es = [] \<and> j = 0)"

definition block_view :: "block_iter \<Rightarrow> block_entry list \<Rightarrow> nat list \<Rightarrow> bool" where
  "block_view it es idxs \<longleftrightarrow>
     take (bi_restarts it) (bi_data it) = block_bytes es \<and> bi_restarts it = length (block_bytes es) \<and>
     length (block_bytes es) < 2 ^ 32 \<and> bi_num_restarts it = length idxs \<and>
     (\<forall>j<length idxs. GetRestartPoint it j = ent_offset es (idxs ! j)) \<and>
     layout_ok es \<and> restarts_ok es idxs"

lemma enc_entry_ne: "enc_entry e \<noteq> []"
proof -
  have "1 \<le> length (EncodeVarint32 (word_of_nat (fst e)))" using length_EncodeVarint32_bounds by blast
  then show ?thesis by (auto simp: enc_entry_def split: prod.splits)
qed

lemma ent_offset_Suc: "i < length es \<Longrightarrow> ent_offset es (Suc i) = ent_offset es i + length (enc_entry (es ! i))"
  by (simp add: ent_offset_def block_bytes_def take_Suc_conv_app_nth)

lemma ent_offset_end: "length es \<le> i \<Longrightarrow> ent_offset es i = length (block_bytes es)"
  by (simp add: ent_offset_def)

lemma ent_offset_strict: "i < j \<Longrightarrow> j \<le> length es \<Longrightarrow> ent_offset es i < ent_offset es j"
proof (induction j)
  case (Suc j)
  have "ent_offset es j < ent_offset es (Suc j)"
    using Suc.prems enc_entry_ne by (simp add: ent_offset_Suc)
  then show ?case using Suc by (cases "i = j") auto
qed simp

lemma ent_offset_less_iff:
  "i \<le> length es \<Longrightarrow> j \<le> length es \<Longrightarrow> ent_offset es i < ent_offset es j \<longleftrightarrow> i < j"
  using ent_offset_strict by (metis linorder_neqE_nat order_less_asym order_less_irrefl)

lemma ent_offset_le: "i \<le> length es \<Longrightarrow> ent_offset es i \<le> length (block_bytes es)"
  using ent_offset_strict [of i "length es" es] ent_offset_end [of es "length es"]
  by (cases "i = length es") auto

lemma block_bytes_split:
  "i < length es \<Longrightarrow> drop (ent_offset es i) (block_bytes es) = enc_entry (es ! i) @ drop (ent_offset es (Suc i)) (block_bytes es)"
proof -
  assume i: "i < length es"
  have es: "es = take i es @ es ! i # drop (Suc i) es" using i by (rule id_take_nth_drop)
  have a: "block_bytes es = block_bytes (take i es) @ enc_entry (es ! i) @ block_bytes (drop (Suc i) es)"
    by (subst es) (simp add: block_bytes_def)
  have "drop (ent_offset es (Suc i)) (block_bytes es) = block_bytes (drop (Suc i) es)"
    unfolding ent_offset_Suc [OF i] by (subst a) (simp add: ent_offset_def)
  then show ?thesis by (subst a) (simp add: ent_offset_def)
qed

lemma decode_at:
  assumes v: "block_view it es idxs" and i: "i < length es"
  defines "e \<equiv> es ! i"
  shows "DecodeEntry (drop (ent_offset es i) (take (bi_restarts it) (bi_data it))) =
      Some (word_of_nat (ent_sh e), word_of_nat (length (ent_key e) - ent_sh e), word_of_nat (length (ent_val e)),
        drop (ent_sh e) (ent_key e) @ ent_val e @ drop (ent_offset es (Suc i)) (block_bytes es))"
    and "unat (word_of_nat (ent_sh e) :: u32) = ent_sh e"
    and "unat (word_of_nat (length (ent_key e) - ent_sh e) :: u32) = length (ent_key e) - ent_sh e"
    and "unat (word_of_nat (length (ent_val e)) :: u32) = length (ent_val e)"
proof -
  obtain sh k l where e: "e = (sh, k, l)" by (metis prod_cases3)
  have lay: "sh \<le> length k" "length k < 2 ^ 32" "length l < 2 ^ 32"
    using v i by (auto simp: block_view_def layout_ok_def shares_def e_def [symmetric] e ent_sh_def ent_key_def ent_val_def)
  show u: "unat (word_of_nat (ent_sh e) :: u32) = ent_sh e"
    "unat (word_of_nat (length (ent_key e) - ent_sh e) :: u32) = length (ent_key e) - ent_sh e"
    "unat (word_of_nat (length (ent_val e)) :: u32) = length (ent_val e)"
    using lay by (simp_all add: word_of_nat_less_iff_bound e ent_sh_def ent_key_def ent_val_def del: of_nat_diff)
  define rest where "rest = drop (ent_offset es (Suc i)) (block_bytes es)"
  have b: "take (bi_restarts it) (bi_data it) = block_bytes es" and small: "length (block_bytes es) < 2 ^ 32"
    using v unfolding block_view_def by blast+
  have dr: "drop (ent_offset es i) (block_bytes es) = enc_entry e @ rest"
    using block_bytes_split [OF i] by (simp add: e_def rest_def)
  have "length (enc_entry e @ rest) \<le> length (block_bytes es)" unfolding dr [symmetric] by simp
  then have "length (drop sh k @ l @ rest) < 2 ^ 32" using small by (simp add: e enc_entry_def)
  then show "DecodeEntry (drop (ent_offset es i) (take (bi_restarts it) (bi_data it))) =
      Some (word_of_nat (ent_sh e), word_of_nat (length (ent_key e) - ent_sh e), word_of_nat (length (ent_val e)),
        drop (ent_sh e) (ent_key e) @ ent_val e @ drop (ent_offset es (Suc i)) (block_bytes es))"
    unfolding b dr using DecodeEntry_varints [of "word_of_nat (length k - sh)" "word_of_nat (length l)"
        "drop sh k @ l @ rest" "word_of_nat sh"] u
    by (simp add: e enc_entry_def ent_sh_def ent_key_def ent_val_def rest_def)
qed

section \<open>Positions of the iterator\<close>

definition iter_ready :: "block_iter \<Rightarrow> block_entry list \<Rightarrow> nat list \<Rightarrow> nat \<Rightarrow> bool" where
  "iter_ready it es idxs i \<longleftrightarrow> block_view it es idxs \<and> i \<le> length es \<and>
     NextEntryOffset it = ent_offset es i \<and> bi_restart_index it < length idxs \<and>
     idxs ! bi_restart_index it \<le> i \<and> (i < length es \<longrightarrow> shares (es ! i) (bi_key it))"

definition iter_at :: "block_iter \<Rightarrow> block_entry list \<Rightarrow> nat list \<Rightarrow> nat \<Rightarrow> bool" where
  "iter_at it es idxs i \<longleftrightarrow> block_view it es idxs \<and> i < length es \<and> bi_current it = ent_offset es i \<and>
     bi_key it = ent_key (es ! i) \<and> BlockIter_value it = ent_val (es ! i) \<and>
     NextEntryOffset it = ent_offset es (Suc i) \<and> bi_restart_index it < length idxs \<and>
     idxs ! bi_restart_index it \<le> i"

definition iter_end :: "block_iter \<Rightarrow> block_entry list \<Rightarrow> nat list \<Rightarrow> bool" where
  "iter_end it es idxs \<longleftrightarrow> block_view it es idxs \<and> \<not> BlockIter_Valid it \<and> bi_status it = OK"

lemma iter_at_Valid: "iter_at it es idxs i \<Longrightarrow> BlockIter_Valid it"
  using ent_offset_strict [of i "length es" es] ent_offset_end [of es "length es"]
  by (auto simp: iter_at_def BlockIter_Valid_def block_view_def)

lemma iter_at_ready: "iter_at it es idxs i \<Longrightarrow> iter_ready it es idxs (Suc i)"
  by (auto simp: iter_at_def iter_ready_def block_view_def layout_ok_def prev_key_def dest: spec [where x = "Suc i"])

lemma block_view_cong:
  "bi_data it' = bi_data it \<Longrightarrow> bi_restarts it' = bi_restarts it \<Longrightarrow> bi_num_restarts it' = bi_num_restarts it \<Longrightarrow>
   block_view it' es idxs = block_view it es idxs"
  by (simp add: block_view_def GetRestartPoint_def)

lemma restart_index_loop_range:
  "i0 < length idxs \<Longrightarrow> idxs ! i0 \<le> i \<Longrightarrow> block_view it es idxs \<Longrightarrow> bi_current it = ent_offset es i \<Longrightarrow>
   i < length es \<Longrightarrow>
   restart_index_loop it i0 < length idxs \<and> idxs ! restart_index_loop it i0 \<le> i"
proof (induction it i0 rule: restart_index_loop.induct)
  case (1 it i0)
  show ?case
  proof (cases "i0 + 1 < bi_num_restarts it \<and> GetRestartPoint it (i0 + 1) < bi_current it")
    case True
    then have l: "i0 + 1 < length idxs" using 1(4) by (simp add: block_view_def)
    then have "idxs ! (i0 + 1) < length es" using 1(4,6) by (auto simp: block_view_def restarts_ok_def)
    moreover have "ent_offset es (idxs ! (i0 + 1)) < ent_offset es i"
      using True l 1(4,5) by (simp add: block_view_def)
    ultimately have "idxs ! (i0 + 1) \<le> i"
      using ent_offset_less_iff [of "idxs ! (i0 + 1)" es i] 1(6) by simp
    then show ?thesis using 1(1) [OF True l] 1(4-6) True by (simp add: restart_index_loop.simps [of it i0])
  next
    case False
    then have "restart_index_loop it i0 = i0" by (subst restart_index_loop.simps) (rule if_not_P [OF False])
    then show ?thesis using 1(2,3) by simp
  qed
qed

lemma ParseNextKey_ready:
  assumes r: "iter_ready it es idxs i"
  shows "i < length es \<Longrightarrow> \<exists>it'. ParseNextKey it = (True, it') \<and> iter_at it' es idxs i \<and> bi_status it' = bi_status it"
    and "i = length es \<Longrightarrow> bi_status it = OK \<Longrightarrow> \<exists>it'. ParseNextKey it = (False, it') \<and> iter_end it' es idxs"
proof -
  have v: "block_view it es idxs" and off: "NextEntryOffset it = ent_offset es i"
    and ri: "bi_restart_index it < length idxs" "idxs ! bi_restart_index it \<le> i"
    using r by (auto simp: iter_ready_def)
  have re: "bi_restarts it = length (block_bytes es)" using v by (simp add: block_view_def)
  {
    assume i: "i < length es"
    define e where "e = es ! i"
    define rest where "rest = drop (ent_offset es (Suc i)) (block_bytes es)"
    note dec = decode_at [OF v i, folded e_def rest_def]
    have sh: "shares e (bi_key it)" using r i by (simp add: iter_ready_def e_def)
    have lt: "\<not> ent_offset es i \<ge> length (block_bytes es)"
      using ent_offset_strict [of i "length es" es] i ent_offset_end [of es "length es"] by simp
    define q where "q = drop (ent_sh e) (ent_key e) @ ent_val e @ rest"
    have rest_len: "length rest = length (block_bytes es) - ent_offset es (Suc i)" by (simp add: rest_def)
    have Suc_le: "ent_offset es (Suc i) \<le> length (block_bytes es)" using ent_offset_le i by simp
    define it1 where "it1 = it\<lparr>bi_current := ent_offset es i,
      bi_key := take (ent_sh e) (bi_key it) @ take (length (ent_key e) - ent_sh e) q,
      bi_value_offset := bi_restarts it - length q + (length (ent_key e) - ent_sh e),
      bi_value_size := length (ent_val e)\<rparr>"
    define it2 where "it2 = it1\<lparr>bi_restart_index := restart_index_loop it1 (bi_restart_index it1)\<rparr>"
    have p: "ParseNextKey it = (True, it2)"
      using lt sh unfolding ParseNextKey_def Let_def off
      by (simp add: re dec(1) [unfolded re] dec(2-4) shares_def q_def [symmetric] it1_def it2_def re del: of_nat_diff)
    have v1: "block_view it1 es idxs" using v block_view_cong [of it1 it] by (simp add: it1_def)
    then have v2: "block_view it2 es idxs" using block_view_cong [of it2 it1] by (simp add: it2_def)
    have ql: "length q = (length (ent_key e) - ent_sh e) + length (ent_val e) + length rest"
      by (simp add: q_def)
    have enc: "ent_offset es (Suc i) = ent_offset es i + length (enc_entry e)"
      using ent_offset_Suc [OF i] by (simp add: e_def)
    have "length (drop (ent_sh e) (ent_key e) @ ent_val e) \<le> length (enc_entry e)"
      by (simp add: enc_entry_def ent_sh_def ent_key_def ent_val_def split: prod.split)
    then have voff: "bi_value_offset it2 = ent_offset es (Suc i) - length (ent_val e)"
      "length (ent_val e) \<le> ent_offset es (Suc i)"
      using ql rest_len Suc_le enc by (auto simp: it2_def it1_def re)
    have key: "bi_key it2 = ent_key e"
      using sh by (simp add: it2_def it1_def q_def shares_def)
    have next_off: "NextEntryOffset it2 = ent_offset es (Suc i)"
      using voff by (simp add: NextEntryOffset_def it2_def it1_def)
    have "BlockIter_value it2 = ent_val e"
    proof -
      have data: "take (bi_restarts it) (bi_data it2) = block_bytes es"
      proof -
        have "bi_data it2 = bi_data it" by (simp add: it2_def it1_def)
        then show ?thesis using v unfolding block_view_def by metis
      qed
      have le: "length (ent_val e) \<le> bi_restarts it - bi_value_offset it2"
        using voff Suc_le re by linarith
      have "take (length (ent_val e)) (drop (bi_value_offset it2) (bi_data it2)) =
          take (length (ent_val e)) (drop (bi_value_offset it2) (take (bi_restarts it) (bi_data it2)))"
        by (simp only: drop_take take_take min_absorb1 [OF le])
      also have "\<dots> = take (length (ent_val e)) (drop (bi_value_offset it2) (block_bytes es))"
        by (simp only: data)
      also have "drop (bi_value_offset it2) (block_bytes es) = ent_val e @ rest"
      proof -
        have "drop (ent_offset es i) (block_bytes es) = enc_entry e @ rest"
          using block_bytes_split [OF i] by (simp add: e_def rest_def)
        moreover have "enc_entry e = take (length (enc_entry e) - length (ent_val e)) (enc_entry e) @ ent_val e"
          by (simp add: enc_entry_def ent_val_def split: prod.split)
        moreover have "bi_value_offset it2 = ent_offset es i + (length (enc_entry e) - length (ent_val e))"
          using voff enc \<open>length (drop (ent_sh e) (ent_key e) @ ent_val e) \<le> length (enc_entry e)\<close> by simp
        ultimately show ?thesis
          by (metis (no_types, lifting) add.commute append_assoc append_eq_conv_conj drop_drop
              length_take diff_le_self min.absorb2)
      qed
      finally show ?thesis by (simp add: BlockIter_value_def it2_def it1_def)
    qed
    moreover have "restart_index_loop it1 (bi_restart_index it1) < length idxs \<and>
        idxs ! restart_index_loop it1 (bi_restart_index it1) \<le> i"
      using restart_index_loop_range [OF _ _ v1 _ i] ri by (simp add: it1_def)
    ultimately have "iter_at it2 es idxs i"
      using v2 i key next_off by (simp add: iter_at_def e_def [symmetric] it2_def) (simp add: it1_def)
    moreover have "bi_status it2 = bi_status it" by (simp add: it2_def it1_def)
    ultimately show "\<exists>it'. ParseNextKey it = (True, it') \<and> iter_at it' es idxs i \<and> bi_status it' = bi_status it"
      using p by blast
  }
  {
    assume "i = length es" "bi_status it = OK"
    then show "\<exists>it'. ParseNextKey it = (False, it') \<and> iter_end it' es idxs"
      using off re v ent_offset_end [of es "length es"]
      by (auto simp: ParseNextKey_def Let_def iter_end_def BlockIter_Valid_def
          intro: block_view_cong [THEN iffD1, rotated 3])
  }
qed

section \<open>The operations of the iterator\<close>

lemma seek_restart_ready:
  assumes v: "block_view it es idxs" and j: "j < length idxs"
  shows "iter_ready (SeekToRestartPoint j it) es idxs (idxs ! j)"
    and "bi_status (SeekToRestartPoint j it) = bi_status it"
proof -
  have g: "GetRestartPoint it j = ent_offset es (idxs ! j)" using v j by (simp add: block_view_def)
  have "idxs ! j \<le> length es \<and> (idxs ! j < length es \<longrightarrow> shares (es ! (idxs ! j)) [])"
  proof (cases "es = []")
    case True
    then have "j = 0 \<and> idxs ! 0 = 0" using v j by (auto simp: block_view_def restarts_ok_def)
    then show ?thesis using True by simp
  next
    case False
    then have "idxs ! j < length es" "ent_sh (es ! (idxs ! j)) = 0"
      using v j by (auto simp: block_view_def restarts_ok_def)
    then show ?thesis by (simp add: shares_def)
  qed
  then show "iter_ready (SeekToRestartPoint j it) es idxs (idxs ! j)"
    using v j g by (auto simp: iter_ready_def SeekToRestartPoint_def NextEntryOffset_def
        intro: block_view_cong [THEN iffD1, rotated 3])
  show "bi_status (SeekToRestartPoint j it) = bi_status it" by (simp add: SeekToRestartPoint_def)
qed

lemma idxs_0: "block_view it es idxs \<Longrightarrow> 0 < length idxs \<and> idxs ! 0 = 0"
  by (auto simp: block_view_def restarts_ok_def)

text \<open>\<open>iter_pos\<close>: at entry \<open>i\<close>, or past the end when there is no such entry.\<close>

definition iter_pos :: "block_iter \<Rightarrow> block_entry list \<Rightarrow> nat list \<Rightarrow> nat \<Rightarrow> bool" where
  "iter_pos it es idxs i \<longleftrightarrow>
     (if i < length es then iter_at it es idxs i \<and> bi_status it = OK else iter_end it es idxs)"

lemma parse_ready:
  assumes "iter_ready it es idxs i" "bi_status it = OK"
  shows "iter_pos (snd (ParseNextKey it)) es idxs i" "fst (ParseNextKey it) = (i < length es)"
proof -
  have "i \<le> length es" using assms(1) by (simp add: iter_ready_def)
  then have "iter_pos (snd (ParseNextKey it)) es idxs i \<and> fst (ParseNextKey it) = (i < length es)"
    using ParseNextKey_ready [OF assms(1)] assms(2) by (cases "i = length es") (auto simp: iter_pos_def)
  then show "iter_pos (snd (ParseNextKey it)) es idxs i" "fst (ParseNextKey it) = (i < length es)" by auto
qed

lemma BlockIter_SeekToFirst_pos:
  assumes "block_view it es idxs" "bi_status it = OK"
  shows "iter_pos (BlockIter_SeekToFirst it) es idxs 0"
  using parse_ready(1) [OF seek_restart_ready(1) [OF assms(1)]] idxs_0 [OF assms(1)]
    seek_restart_ready(2) [OF assms(1)] assms(2)
  by (metis BlockIter_SeekToFirst_def)

lemma BlockIter_Next_pos:
  "iter_at it es idxs i \<Longrightarrow> bi_status it = OK \<Longrightarrow> iter_pos (BlockIter_Next it) es idxs (Suc i)"
  unfolding BlockIter_Next_def by (rule parse_ready(1) [OF iter_at_ready])

lemma parse_until_offset_pos:
  "iter_ready it es idxs i \<Longrightarrow> bi_status it = OK \<Longrightarrow> i < n \<Longrightarrow> n \<le> length es \<Longrightarrow>
   iter_pos (parse_until_offset (ent_offset es n) it) es idxs (n - 1)"
proof (induction "n - i" arbitrary: it i)
  case (Suc d)
  obtain it' where p: "ParseNextKey it = (True, it')" "iter_at it' es idxs i" "bi_status it' = OK"
    using ParseNextKey_ready(1) [OF Suc.prems(1)] Suc.prems by auto
  have off: "NextEntryOffset it' < ent_offset es n \<longleftrightarrow> Suc i < n"
    using p(2) ent_offset_less_iff [of "Suc i" es n] Suc.prems by (simp add: iter_at_def)
  show ?case
  proof (cases "Suc i < n")
    case True
    then have "iter_pos (parse_until_offset (ent_offset es n) it') es idxs (n - 1)"
      using Suc.hyps(1) [OF _ iter_at_ready [OF p(2)] p(3)] Suc.hyps(2) Suc.prems by simp
    then show ?thesis using p(1) off True by (subst parse_until_offset.simps) simp
  next
    case False
    then have "i = n - 1" using Suc.prems by simp
    then show ?thesis using p off False Suc.prems
      by (subst parse_until_offset.simps) (simp add: iter_pos_def)
  qed
qed simp

lemma BlockIter_SeekToLast_pos:
  assumes v: "block_view it es idxs" and "bi_status it = OK" "es \<noteq> []"
  shows "iter_pos (BlockIter_SeekToLast it) es idxs (length es - 1)"
proof -
  let ?j = "length idxs - 1"
  have j: "?j < length idxs" using idxs_0 [OF v] by simp
  then have "idxs ! ?j < length es" using v assms(3) unfolding block_view_def restarts_ok_def by blast
  moreover have "bi_restarts it = ent_offset es (length es)" "bi_num_restarts it = length idxs"
    using v by (simp_all add: block_view_def ent_offset_end)
  ultimately show ?thesis
    using parse_until_offset_pos [OF seek_restart_ready(1) [OF v j], of "length es"]
      seek_restart_ready(2) [OF v j] assms(2) by (simp add: BlockIter_SeekToLast_def)
qed

lemma prev_restart_loop_result:
  assumes v: "block_view it es idxs" and i: "i < length es"
  shows "j < length idxs \<Longrightarrow>
    (case prev_restart_loop it (ent_offset es i) j of
       None \<Rightarrow> i = 0 | Some j' \<Rightarrow> j' < length idxs \<and> idxs ! j' < i)"
proof (induction j)
  case 0
  then have "GetRestartPoint it 0 = ent_offset es 0" using v idxs_0 [OF v] by (simp add: block_view_def)
  then show ?case using 0 idxs_0 [OF v] ent_offset_less_iff [of 0 es i] i by auto
next
  case (Suc j)
  have g: "GetRestartPoint it (Suc j) = ent_offset es (idxs ! Suc j)" "idxs ! Suc j < length es"
    using v Suc.prems i by (auto simp: block_view_def restarts_ok_def)
  then have "GetRestartPoint it (Suc j) \<ge> ent_offset es i \<longleftrightarrow> \<not> idxs ! Suc j < i"
    using ent_offset_less_iff [of "idxs ! Suc j" es i] i by auto
  then show ?case using Suc by simp
qed

lemma BlockIter_Prev_pos:
  assumes "iter_at it es idxs i" "bi_status it = OK"
  shows "if i = 0 then iter_end (BlockIter_Prev it) es idxs else iter_pos (BlockIter_Prev it) es idxs (i - 1)"
proof -
  have v: "block_view it es idxs" and i: "i < length es" and cur: "bi_current it = ent_offset es i"
    and ri: "bi_restart_index it < length idxs" using assms(1) by (auto simp: iter_at_def)
  note r = prev_restart_loop_result [OF v i ri]
  show ?thesis
  proof (cases "prev_restart_loop it (ent_offset es i) (bi_restart_index it)")
    case None
    then have "i = 0" using r by simp
    moreover have "iter_end (BlockIter_Prev it) es idxs"
      using v assms(2) None by (auto simp: BlockIter_Prev_def Let_def cur iter_end_def BlockIter_Valid_def
          intro: block_view_cong [THEN iffD1, rotated 3])
    ultimately show ?thesis by simp
  next
    case (Some j)
    then have j: "j < length idxs" "idxs ! j < i" using r by simp_all
    have "iter_pos (parse_until_offset (ent_offset es i) (SeekToRestartPoint j it)) es idxs (i - 1)"
      using parse_until_offset_pos [OF seek_restart_ready(1) [OF v j(1)] _ j(2)]
        seek_restart_ready(2) [OF v j(1)] assms(2) i by simp
    then show ?thesis using j(2) Some by (simp add: BlockIter_Prev_def Let_def cur)
  qed
qed

text \<open>The first entry whose key is not before \<open>target\<close>.\<close>

definition first_ge :: "comparator \<Rightarrow> bytes \<Rightarrow> block_entry list \<Rightarrow> nat" where
  "first_ge cmp target es = length (takeWhile (\<lambda>e. Compare cmp (ent_key e) target < 0) es)"

lemma first_ge_le: "first_ge cmp target es \<le> length es"
  by (simp add: first_ge_def length_takeWhile_le)

lemma parse_until_key_pos:
  "iter_ready it es idxs i \<Longrightarrow> bi_status it = OK \<Longrightarrow>
   \<forall>k<i. Compare cmp (ent_key (es ! k)) target < 0 \<Longrightarrow>
   iter_pos (parse_until_key cmp target it) es idxs (first_ge cmp target es)"
proof (induction "length es - i" arbitrary: it i)
  case 0
  then have i: "i = length es" by (simp add: iter_ready_def)
  obtain it' where "ParseNextKey it = (False, it')" "iter_end it' es idxs"
    using ParseNextKey_ready(2) [OF 0(2) i 0(3)] by blast
  moreover have "first_ge cmp target es = length es"
  proof -
    have "\<forall>e\<in>set es. Compare cmp (ent_key e) target < 0"
      using 0(4) unfolding i by (simp add: all_set_conv_all_nth)
    then have "takeWhile (\<lambda>e. Compare cmp (ent_key e) target < 0) es = es"
      by (rule takeWhile_eq_all_conv [THEN iffD2])
    then show ?thesis unfolding first_ge_def by (rule arg_cong)
  qed
  ultimately show ?case by (subst parse_until_key.simps) (simp add: iter_pos_def)
next
  case (Suc d)
  then have i: "i < length es" by simp
  obtain it' where p: "ParseNextKey it = (True, it')" "iter_at it' es idxs i" "bi_status it' = OK"
    using ParseNextKey_ready(1) [OF Suc.prems(1) i] Suc.prems(2) by auto
  have key: "bi_key it' = ent_key (es ! i)" using p(2) by (simp add: iter_at_def)
  show ?case
  proof (cases "Compare cmp (ent_key (es ! i)) target < 0")
    case True
    then have "\<forall>k<Suc i. Compare cmp (ent_key (es ! k)) target < 0" using Suc.prems(3) by (auto simp: less_Suc_eq)
    then have "iter_pos (parse_until_key cmp target it') es idxs (first_ge cmp target es)"
      using Suc.hyps(1) [OF _ iter_at_ready [OF p(2)] p(3)] Suc.hyps(2) by simp
    then show ?thesis using p(1) key True by (subst parse_until_key.simps) simp
  next
    case False
    have es: "es = take i es @ es ! i # drop (Suc i) es" using i by (rule id_take_nth_drop)
    have "first_ge cmp target es = i"
      unfolding first_ge_def by (subst es, subst takeWhile_append2)
        (use Suc.prems(3) i False in \<open>auto simp: in_set_conv_nth\<close>)
    then show ?thesis using p key False i
      by (subst parse_until_key.simps) (simp add: iter_pos_def)
  qed
qed

definition keys_sorted :: "comparator \<Rightarrow> block_entry list \<Rightarrow> bool" where
  "keys_sorted cmp es \<longleftrightarrow> sorted_wrt (\<lambda>a b. Compare cmp (ent_key a) (ent_key b) < 0) es"

lemma seek_search_result:
  assumes v: "block_view it es idxs" and es: "es \<noteq> []"
  shows "right < length idxs \<Longrightarrow> left \<le> right \<Longrightarrow>
    (left = 0 \<or> Compare cmp (ent_key (es ! (idxs ! left))) target < 0) \<Longrightarrow>
    (\<exists>l. seek_search cmp it target left right = Some l \<and> l < length idxs \<and>
       (l = 0 \<or> Compare cmp (ent_key (es ! (idxs ! l))) target < 0))"
proof (induction "right - left" arbitrary: left right rule: less_induct)
  case less
  show ?case
  proof (cases "left < right")
    case False
    then show ?thesis using less.prems by (subst seek_search.simps) auto
  next
    case True
    define mid where "mid = (left + right + 1) div 2"
    have mid: "left < mid" "mid \<le> right" using True by (auto simp: mid_def)
    then have im: "idxs ! mid < length es" "ent_sh (es ! (idxs ! mid)) = 0"
      "GetRestartPoint it mid = ent_offset es (idxs ! mid)"
      using v es less.prems(1) by (auto simp: block_view_def restarts_ok_def)
    let ?e = "es ! (idxs ! mid)"
    note d = decode_at [OF v im(1), unfolded im(2)]
    have step: "seek_search cmp it target left right =
      (if Compare cmp (ent_key ?e) target < 0 then seek_search cmp it target mid right
       else seek_search cmp it target left (mid - 1))"
      unfolding seek_search.simps [of cmp it target left right] Let_def mid_def [symmetric] im(3) d(1)
      using True d(2-4) by (simp del: of_nat_diff)
    show ?thesis
    proof (cases "Compare cmp (ent_key ?e) target < 0")
      case c: True
      have "right - mid < right - left" using mid True by simp
      from less.hyps [OF this less.prems(1) mid(2)] c show ?thesis unfolding step by auto
    next
      case c: False
      have "mid - 1 - left < right - left" "mid - 1 < length idxs" "left \<le> mid - 1"
        using mid True less.prems(1) by auto
      from less.hyps [OF this less.prems(3)] c show ?thesis unfolding step by auto
    qed
  qed
qed

context comparator_laws
begin

lemma BlockIter_Seek_pos:
  assumes v: "block_view it es idxs" and st: "bi_status it = OK" and sorted: "keys_sorted cmp es"
    and ok: "\<forall>e\<in>set es. ok (ent_key e)" "ok target"
  shows "iter_pos (BlockIter_Seek cmp target it) es idxs (first_ge cmp target es)"
proof -
  have num: "bi_num_restarts it = length idxs" using v by (simp add: block_view_def)
  have "\<exists>l. seek_search cmp it target 0 (length idxs - 1) = Some l \<and> l < length idxs \<and>
     (\<forall>k<idxs ! l. Compare cmp (ent_key (es ! k)) target < 0)"
  proof (cases "es = []")
    case True
    then have "length idxs \<le> 1"
    proof -
      have "\<forall>j<length idxs. j = 0" using v True by (auto simp: block_view_def restarts_ok_def)
      then show ?thesis by (metis One_nat_def not_less zero_neq_one)
    qed
    then show ?thesis using idxs_0 [OF v] by (subst seek_search.simps) simp
  next
    case False
    have r: "length idxs - 1 < length idxs" using idxs_0 [OF v] by simp
    from seek_search_result [OF v False r, of 0 cmp target] obtain l where
      l: "seek_search cmp it target 0 (length idxs - 1) = Some l" "l < length idxs"
      "l = 0 \<or> Compare cmp (ent_key (es ! (idxs ! l))) target < 0" by auto
    have il: "idxs ! l < length es" using v l(2) False by (auto simp: block_view_def restarts_ok_def)
    have "Compare cmp (ent_key (es ! k)) target < 0" if k: "k < idxs ! l" for k
    proof -
      have c: "Compare cmp (ent_key (es ! (idxs ! l))) target < 0"
        using l(3) k idxs_0 [OF v] by (cases "l = 0") auto
      have "Compare cmp (ent_key (es ! k)) (ent_key (es ! (idxs ! l))) < 0"
        using sorted k il by (simp add: keys_sorted_def sorted_wrt_iff_nth_less)
      then show ?thesis
        using compare_trans [OF _ _ ok(2) _ c] ok(1) il k by (meson nth_mem order_less_trans)
    qed
    then show ?thesis using l by blast
  qed
  then obtain l where l: "seek_search cmp it target 0 (length idxs - 1) = Some l" "l < length idxs"
    "\<forall>k<idxs ! l. Compare cmp (ent_key (es ! k)) target < 0" by blast
  show ?thesis
    using parse_until_key_pos [OF seek_restart_ready(1) [OF v l(2)] _ l(3)]
      seek_restart_ready(2) [OF v l(2)] st l(1) by (simp add: BlockIter_Seek_def num)
qed

end

section \<open>What the builder writes\<close>

definition builder_inv :: "block_builder \<Rightarrow> block_entry list \<Rightarrow> nat list \<Rightarrow> bool" where
  "builder_inv b es idxs \<longleftrightarrow> bb_buffer b = block_bytes es \<and> bb_restarts b = map (ent_offset es) idxs \<and>
     layout_ok es \<and> restarts_ok es idxs \<and> bb_last_key b = prev_key es (length es) \<and>
     1 \<le> bb_restart_interval b \<and> (es = [] \<longrightarrow> bb_counter b = 0)"

lemma shared_loop_shares: "shared_loop a b \<le> length a \<and> shared_loop a b \<le> length b \<and>
    take (shared_loop a b) a = take (shared_loop a b) b"
  by (induction a b rule: shared_loop.induct) auto

lemma ent_offset_append: "i \<le> length es \<Longrightarrow> ent_offset (es @ [e]) i = ent_offset es i"
  by (simp add: ent_offset_def)

lemma layout_ok_snoc:
  assumes "layout_ok es" "shares e (prev_key es (length es))" "length (ent_key e) < 2 ^ 32" "length (ent_val e) < 2 ^ 32"
  shows "layout_ok (es @ [e])"
  unfolding layout_ok_def
proof (intro allI impI)
  fix i assume "i < length (es @ [e])"
  then consider "i < length es" | "i = length es" by fastforce
  then show "shares ((es @ [e]) ! i) (prev_key (es @ [e]) i) \<and>
      length (ent_key ((es @ [e]) ! i)) < 2 ^ 32 \<and> length (ent_val ((es @ [e]) ! i)) < 2 ^ 32"
  proof cases
    case 1
    then have "prev_key (es @ [e]) i = prev_key es i" by (auto simp: prev_key_def nth_append)
    then show ?thesis using assms(1) 1 by (simp add: layout_ok_def nth_append)
  next
    case 2
    then have "prev_key (es @ [e]) i = prev_key es (length es)" by (auto simp: prev_key_def nth_append)
    then show ?thesis using assms 2 by simp
  qed
qed

lemma restarts_ok_keep:
  assumes "restarts_ok es idxs" "es = [] \<longrightarrow> ent_sh e = 0 \<and> idxs = [0]"
  shows "restarts_ok (es @ [e]) idxs"
  using assms by (auto simp: restarts_ok_def nth_append less_Suc_eq)

lemma restarts_ok_push:
  assumes "restarts_ok es idxs" "es \<noteq> []" "ent_sh e = 0"
  shows "restarts_ok (es @ [e]) (idxs @ [length es])"
proof -
  have r: "idxs \<noteq> []" "idxs ! 0 = 0" "sorted_wrt (<) idxs" "\<And>j. j < length idxs \<Longrightarrow> idxs ! j < length es \<and> ent_sh (es ! (idxs ! j)) = 0"
    using assms(1,2) by (auto simp: restarts_ok_def)
  have "\<forall>x\<in>set idxs. x < length es" using r(4) by (metis in_set_conv_nth)
  then show ?thesis using r assms(3)
    by (auto simp: restarts_ok_def sorted_wrt_append nth_append less_Suc_eq)
qed

lemma BlockBuilder_Add_inv:
  assumes inv: "builder_inv b es idxs" and len: "length key < 2 ^ 32" "length val < 2 ^ 32"
  shows "\<exists>sh idxs'. builder_inv (BlockBuilder_Add key val b) (es @ [(sh, key, val)]) idxs' \<and>
    bb_restart_interval (BlockBuilder_Add key val b) = bb_restart_interval b"
proof -
  define restart where "restart = (\<not> bb_counter b < bb_restart_interval b)"
  define sh where "sh = (if restart then 0 else shared_loop (bb_last_key b) key)"
  define e where "e = (sh, key, val)"
  define idxs' where "idxs' = (if restart then idxs @ [length es] else idxs)"
  have I: "bb_buffer b = block_bytes es" "bb_restarts b = map (ent_offset es) idxs" "layout_ok es"
    "restarts_ok es idxs" "bb_last_key b = prev_key es (length es)" "1 \<le> bb_restart_interval b"
    "es = [] \<Longrightarrow> bb_counter b = 0"
    using inv by (auto simp: builder_inv_def)
  have ne: "restart \<Longrightarrow> es \<noteq> []" using I(6,7) by (auto simp: restart_def)
  have sh0: "es = [] \<Longrightarrow> sh = 0" using I(5) by (simp add: sh_def prev_key_def)
  have shr: "shares e (prev_key es (length es))"
    using shared_loop_shares [of "bb_last_key b" key] I(5)
    by (simp add: shares_def e_def sh_def ent_sh_def ent_key_def)
  have b': "BlockBuilder_Add key val b = b\<lparr>bb_buffer := bb_buffer b @ enc_entry e,
      bb_restarts := (if restart then bb_restarts b @ [length (bb_buffer b)] else bb_restarts b),
      bb_last_key := take sh (bb_last_key b) @ drop sh key,
      bb_counter := (if restart then 0 else bb_counter b) + 1\<rparr>"
    by (simp add: BlockBuilder_Add_def Let_def restart_def sh_def e_def enc_entry_def PutVarint32_def)
  have "block_bytes (es @ [e]) = block_bytes es @ enc_entry e" by (simp add: block_bytes_def)
  moreover have "layout_ok (es @ [e])"
    using layout_ok_snoc [OF I(3) shr] len by (simp add: e_def ent_key_def ent_val_def)
  moreover have ro: "restarts_ok (es @ [e]) idxs'"
  proof (cases restart)
    case True
    then show ?thesis using restarts_ok_push [OF I(4) ne] by (simp add: idxs'_def e_def sh_def ent_sh_def)
  next
    case False
    have "idxs = [0]" if "es = []"
    proof -
      have "\<forall>j<length idxs. j = 0" "idxs \<noteq> []" "idxs ! 0 = 0" using I(4) that by (auto simp: restarts_ok_def)
      then have "length idxs = 1" by (metis One_nat_def Suc_lessI length_0_conv less_Suc_eq neq0_conv not_less_eq)
      then show ?thesis using \<open>idxs ! 0 = 0\<close> by (cases idxs) auto
    qed
    then show ?thesis using restarts_ok_keep [OF I(4)] sh0 False by (simp add: idxs'_def e_def ent_sh_def)
  qed
  moreover have "(if restart then bb_restarts b @ [length (bb_buffer b)] else bb_restarts b) =
      map (ent_offset (es @ [e])) idxs'"
  proof -
    have "\<forall>x\<in>set idxs. x \<le> length es"
      using I(4) by (fastforce simp: restarts_ok_def in_set_conv_nth)
    then have "map (ent_offset (es @ [e])) idxs = map (ent_offset es) idxs"
      by (simp add: ent_offset_append)
    moreover have "ent_offset (es @ [e]) (length es) = length (block_bytes es)"
      by (simp add: ent_offset_append ent_offset_end)
    ultimately show ?thesis using I(1,2) by (simp add: idxs'_def)
  qed
  moreover have "take sh (bb_last_key b) @ drop sh key = prev_key (es @ [e]) (length (es @ [e]))"
    using shr I(5) by (simp add: prev_key_def nth_append e_def ent_key_def shares_def ent_sh_def)
  ultimately have "builder_inv (BlockBuilder_Add key val b) (es @ [e]) idxs'"
    using I(1,6) by (simp add: builder_inv_def b')
  moreover have "bb_restart_interval (BlockBuilder_Add key val b) = bb_restart_interval b" by (simp add: b')
  ultimately show ?thesis unfolding e_def by blast
qed

definition ent_kv :: "block_entry \<Rightarrow> bytes \<times> bytes" where
  "ent_kv e = (ent_key e, ent_val e)"

lemma ent_kv_triple [simp]: "ent_kv (sh, k, v) = (k, v)"
  by (simp add: ent_kv_def ent_key_def ent_val_def)

definition BlockBuilder_Adds :: "(bytes \<times> bytes) list \<Rightarrow> block_builder \<Rightarrow> block_builder" where
  "BlockBuilder_Adds kvs b = fold (\<lambda>(k, v). BlockBuilder_Add k v) kvs b"

definition kv_fits :: "bytes \<times> bytes \<Rightarrow> bool" where
  "kv_fits kv \<longleftrightarrow> length (fst kv) < 2 ^ 32 \<and> length (snd kv) < 2 ^ 32"

lemma BlockBuilder_Adds_inv:
  "builder_inv b es idxs \<Longrightarrow> list_all kv_fits kvs \<Longrightarrow>
   \<exists>es' idxs'. builder_inv (BlockBuilder_Adds kvs b) (es @ es') idxs' \<and> map ent_kv es' = kvs"
proof (induction kvs arbitrary: b es idxs)
  case Nil
  then show ?case
    by (intro exI [of _ "[]"] exI [of _ idxs]) (simp add: BlockBuilder_Adds_def)
next
  case (Cons kv kvs)
  obtain k v where kv: "kv = (k, v)" by (metis surj_pair)
  obtain sh idxs1 where "builder_inv (BlockBuilder_Add k v b) (es @ [(sh, k, v)]) idxs1"
    using BlockBuilder_Add_inv [OF Cons.prems(1), of k v] Cons.prems(2) by (auto simp: kv kv_fits_def)
  from Cons.IH [OF this] Cons.prems(2) obtain es' idxs' where
    "builder_inv (BlockBuilder_Adds kvs (BlockBuilder_Add k v b)) ((es @ [(sh, k, v)]) @ es') idxs'"
    "map ent_kv es' = kvs" by auto
  then show ?case
    by (intro exI [of _ "(sh, k, v) # es'"] exI [of _ idxs'])
      (simp add: BlockBuilder_Adds_def kv)
qed

lemma BlockBuilder_new_inv: "1 \<le> interval \<Longrightarrow> builder_inv (BlockBuilder_new interval) [] [0]"
  by (simp add: builder_inv_def BlockBuilder_new_def block_bytes_def ent_offset_def layout_ok_def
      restarts_ok_def prev_key_def)

lemma BlockBuilder_Finish_bytes:
  "fst (BlockBuilder_Finish b) = bb_buffer b @ concat (map (\<lambda>r. EncodeFixed32 (word_of_nat r)) (bb_restarts b)) @
     EncodeFixed32 (word_of_nat (length (bb_restarts b)))"
proof -
  have "fold (\<lambda>r buf. PutFixed32 buf (word_of_nat r)) rs buf = buf @ concat (map (\<lambda>r. EncodeFixed32 (word_of_nat r)) rs)"
    for rs buf by (induction rs arbitrary: buf) (simp_all add: PutFixed32_def)
  then show ?thesis by (simp add: BlockBuilder_Finish_def Let_def PutFixed32_def)
qed

lemma length_concat_fixed: "length (concat (map (\<lambda>r. EncodeFixed32 (word_of_nat r)) rs)) = 4 * length rs"
  by (induction rs) simp_all

lemma drop_fixed: "drop (4 + n) (EncodeFixed32 x @ r) = drop n r"
  by (simp add: drop_append)

lemma drop_concat_fixed:
  "j < length rs \<Longrightarrow> drop (4 * j) (concat (map (\<lambda>r. EncodeFixed32 (word_of_nat r)) rs) @ z) =
     EncodeFixed32 (word_of_nat (rs ! j)) @ drop (4 * Suc j) (concat (map (\<lambda>r. EncodeFixed32 (word_of_nat r)) rs) @ z)"
proof (induction rs arbitrary: j)
  case (Cons r rs)
  show ?case
  proof (cases j)
    case (Suc i)
    then have "4 * j = 4 + 4 * i" "4 * Suc j = 4 + 4 * Suc i" by simp_all
    then show ?thesis using Cons Suc by (simp only: list.map concat.simps append_assoc drop_fixed) simp
  qed simp
qed simp

text \<open>A finished block of less than 4 GB, opened for reading.\<close>

definition build_block :: "nat \<Rightarrow> (bytes \<times> bytes) list \<Rightarrow> bytes" where
  "build_block interval kvs = fst (BlockBuilder_Finish (BlockBuilder_Adds kvs (BlockBuilder_new interval)))"

lemma Finish_view:
  assumes inv: "builder_inv b es idxs" and small: "length (fst (BlockBuilder_Finish b)) < 2 ^ 32"
  shows "\<exists>it. Block_NewIterator (Block_new (fst (BlockBuilder_Finish b))) = BlockIterator it \<and>
     block_view it es idxs \<and> bi_status it = OK"
proof -
  define data where "data = fst (BlockBuilder_Finish b)"
  define rs where "rs = map (ent_offset es) idxs"
  have I: "bb_buffer b = block_bytes es" "bb_restarts b = rs" "layout_ok es" "restarts_ok es idxs"
    using inv by (auto simp: builder_inv_def rs_def)
  define rb where "rb = concat (map (\<lambda>r. EncodeFixed32 (word_of_nat r)) rs)"
  have d: "data = block_bytes es @ rb @ EncodeFixed32 (word_of_nat (length rs))"
    by (simp add: data_def BlockBuilder_Finish_bytes I rb_def)
  have rbl: "length rb = 4 * length rs" by (simp add: rb_def length_concat_fixed)
  have len: "length data = length (block_bytes es) + 4 * length rs + 4" by (simp add: d rbl)
  have n: "block_NumRestarts data = length rs"
    using small by (simp add: block_NumRestarts_def d rbl data_def [symmetric] len word_of_nat_less_iff_bound)
  have ri: "length rs = length idxs" "length idxs > 0" using I(4) by (auto simp: rs_def restarts_ok_def)
  define it where "it = BlockIter_new data (length (block_bytes es)) (length rs)"
  have "Block_NewIterator (Block_new data) = BlockIterator it"
    using ri len by (simp add: Block_new_def Let_def n Block_NewIterator_def it_def)
  moreover have "GetRestartPoint it j = ent_offset es (idxs ! j)" if j: "j < length idxs" for j
  proof -
    have "drop (length (block_bytes es) + j * 4) data = drop (4 * j) (rb @ EncodeFixed32 (word_of_nat (length rs)))"
      by (simp add: d mult.commute)
    also have "\<dots> = EncodeFixed32 (word_of_nat (rs ! j)) @ drop (4 * Suc j) (rb @ EncodeFixed32 (word_of_nat (length rs)))"
      unfolding rb_def using j ri by (intro drop_concat_fixed) simp
    finally have g: "GetRestartPoint it j = unat (word_of_nat (rs ! j) :: u32)"
      by (simp add: GetRestartPoint_def it_def BlockIter_new_def)
    have "rs ! j = ent_offset es (idxs ! j)" using j by (simp add: rs_def)
    moreover have "idxs ! j \<le> length es" using I(4) j by (auto simp: restarts_ok_def)
    ultimately have "rs ! j < 2 ^ 32" using ent_offset_le [of "idxs ! j" es] small len by (simp add: data_def)
    then show ?thesis using g \<open>rs ! j = ent_offset es (idxs ! j)\<close> by (simp add: word_of_nat_less_iff_bound)
  qed
  moreover have "length (block_bytes es) < 2 ^ 32" using small len by (simp add: data_def)
  ultimately have "Block_NewIterator (Block_new data) = BlockIterator it \<and> block_view it es idxs \<and> bi_status it = OK"
    using I(3,4) ri by (simp add: block_view_def it_def BlockIter_new_def) (simp add: d)
  then show ?thesis by (auto simp: data_def)
qed

text \<open>The size estimate is exact, and every entry adds a bounded number of bytes to it.\<close>

lemma Finish_size: "length (fst (BlockBuilder_Finish b)) = BlockBuilder_CurrentSizeEstimate b"
  by (simp add: BlockBuilder_Finish_bytes BlockBuilder_CurrentSizeEstimate_def length_concat_fixed)

lemma BlockBuilder_Add_size:
  "BlockBuilder_CurrentSizeEstimate (BlockBuilder_Add k v b) \<le>
     BlockBuilder_CurrentSizeEstimate b + (19 + length k + length v)"
proof -
  have e: "length (EncodeVarint32 x) \<le> 5" for x using length_EncodeVarint32_bounds by blast
  show ?thesis
    using e [of "word_of_nat (shared_loop (bb_last_key b) k)"] e [of 0] e [of "word_of_nat (length v)"]
      e [of "word_of_nat (length k - shared_loop (bb_last_key b) k)"] e [of "word_of_nat (length k)"]
    by (auto simp: BlockBuilder_CurrentSizeEstimate_def BlockBuilder_Add_def Let_def PutVarint32_def
        simp del: of_nat_diff)
qed

lemma BlockBuilder_Adds_size:
  "BlockBuilder_CurrentSizeEstimate (BlockBuilder_Adds kvs b) \<le>
     BlockBuilder_CurrentSizeEstimate b + sum_list (map (\<lambda>(k, v). 19 + length k + length v) kvs)"
proof (induction kvs arbitrary: b)
  case (Cons kv kvs)
  obtain k v where kv: "kv = (k, v)" by (cases kv)
  show ?case using Cons.IH [of "BlockBuilder_Add k v b"] BlockBuilder_Add_size [of k v b]
    by (simp add: BlockBuilder_Adds_def kv)
qed (simp add: BlockBuilder_Adds_def)

lemma build_block_size:
  "length (build_block interval kvs) \<le> 8 + sum_list (map (\<lambda>(k, v). 19 + length k + length v) kvs)"
  using BlockBuilder_Adds_size [of kvs "BlockBuilder_new interval"]
  by (simp add: build_block_def Finish_size BlockBuilder_CurrentSizeEstimate_def BlockBuilder_new_def)

section \<open>Scanning a block\<close>

definition block_scan_size :: "block_iter \<Rightarrow> nat" where
  "block_scan_size it = (if BlockIter_Valid it then Suc (bi_restarts it - NextEntryOffset it) else 0)"

lemma BlockIter_Next_size:
  assumes "BlockIter_Valid it"
  shows "block_scan_size (BlockIter_Next it) < block_scan_size it"
proof (cases "ParseNextKey it")
  case (Pair r it')
  show ?thesis
  proof (cases r)
    case True
    then have p: "ParseNextKey it = (True, it')" using Pair by simp
    have "bi_restarts it' = bi_restarts it" using ParseNextKey_same(2) [of it] Pair by simp
    then show ?thesis using ParseNextKey_advances [OF p] assms Pair
      by (simp add: block_scan_size_def BlockIter_Next_def)
  next
    case False
    then have "\<not> BlockIter_Valid it'" using Pair
      by (auto simp: ParseNextKey_def Let_def BlockIter_CorruptionError_def BlockIter_Valid_def
          split: if_splits option.splits)
    then show ?thesis using assms Pair by (simp add: block_scan_size_def BlockIter_Next_def)
  qed
qed

text \<open>The client's loop \<open>for (; it->Valid(); it->Next())\<close>.\<close>

function block_scan :: "block_iter \<Rightarrow> (bytes \<times> bytes) list" where
  "block_scan it =
     (if BlockIter_Valid it then (bi_key it, BlockIter_value it) # block_scan (BlockIter_Next it) else [])"
  by pat_completeness auto
termination by (relation "measure block_scan_size") (auto intro: BlockIter_Next_size)

declare block_scan.simps [simp del]

lemma block_scan_pos:
  "iter_pos it es idxs i \<Longrightarrow> i \<le> length es \<Longrightarrow> block_scan it = drop i (map ent_kv es)"
proof (induction "length es - i" arbitrary: it i)
  case 0
  then have "iter_end it es idxs" by (simp add: iter_pos_def)
  then show ?case using 0 by (subst block_scan.simps) (simp add: iter_end_def)
next
  case (Suc d)
  then have i: "i < length es" by simp
  then have a: "iter_at it es idxs i" "bi_status it = OK" using Suc.prems(1) by (auto simp: iter_pos_def)
  have "block_scan (BlockIter_Next it) = drop (Suc i) (map ent_kv es)"
    using Suc.hyps(1) [OF _ BlockIter_Next_pos [OF a]] Suc.hyps(2) i by simp
  moreover have "drop i (map ent_kv es) = ent_kv (es ! i) # drop (Suc i) (map ent_kv es)"
    using i by (simp add: Cons_nth_drop_Suc [symmetric])
  moreover have "(bi_key it, BlockIter_value it) = ent_kv (es ! i)"
    using a(1) by (simp add: iter_at_def ent_kv_def)
  ultimately show ?case using iter_at_Valid [OF a(1)] by (subst block_scan.simps) simp
qed

text \<open>The iterator of a built block.\<close>

definition open_block :: "bytes \<Rightarrow> block_iter option" where
  "open_block data = (case Block_NewIterator (Block_new data) of BlockIterator it \<Rightarrow> Some it | _ \<Rightarrow> None)"

lemma build_block_view:
  assumes "1 \<le> interval" "list_all kv_fits kvs" "length (build_block interval kvs) < 2 ^ 32"
  shows "\<exists>it es idxs. open_block (build_block interval kvs) = Some it \<and> block_view it es idxs \<and>
    bi_status it = OK \<and> map ent_kv es = kvs"
proof -
  obtain es idxs where "builder_inv (BlockBuilder_Adds kvs (BlockBuilder_new interval)) ([] @ es) idxs" "map ent_kv es = kvs"
    using BlockBuilder_Adds_inv [OF BlockBuilder_new_inv [OF assms(1)] assms(2)] by blast
  with Finish_view [of _ "[] @ es" idxs] assms(3) show ?thesis
    by (fastforce simp: build_block_def open_block_def)
qed

lemma block_scan_first:
  assumes "1 \<le> interval" "list_all kv_fits kvs" "length (build_block interval kvs) < 2 ^ 32"
  shows "\<exists>it. open_block (build_block interval kvs) = Some it \<and> block_scan (BlockIter_SeekToFirst it) = kvs"
  using build_block_view [OF assms] BlockIter_SeekToFirst_pos block_scan_pos
  by (metis drop0 le0)

lemma block_scan_prev:
  assumes "1 \<le> interval" "list_all kv_fits kvs" "length (build_block interval kvs) < 2 ^ 32" "i < length kvs"
  shows "\<exists>it. open_block (build_block interval kvs) = Some it \<and>
    block_scan (BlockIter_Prev ((BlockIter_Next ^^ i) (BlockIter_SeekToFirst it))) =
      (if i = 0 then [] else drop (i - 1) kvs)"
proof -
  obtain it es idxs where o: "open_block (build_block interval kvs) = Some it" and v: "block_view it es idxs"
    and st: "bi_status it = OK" and kvs: "map ent_kv es = kvs" using build_block_view [OF assms(1-3)] by blast
  have len: "length es = length kvs" using kvs by auto
  have "j < length es \<Longrightarrow> iter_pos ((BlockIter_Next ^^ j) (BlockIter_SeekToFirst it)) es idxs j" for j
  proof (induction j)
    case 0
    then show ?case using BlockIter_SeekToFirst_pos [OF v st] by simp
  next
    case (Suc j)
    then have "iter_at ((BlockIter_Next ^^ j) (BlockIter_SeekToFirst it)) es idxs j"
      "bi_status ((BlockIter_Next ^^ j) (BlockIter_SeekToFirst it)) = OK" by (auto simp: iter_pos_def)
    from BlockIter_Next_pos [OF this] show ?case by simp
  qed
  then have "iter_at ((BlockIter_Next ^^ i) (BlockIter_SeekToFirst it)) es idxs i \<and>
      bi_status ((BlockIter_Next ^^ i) (BlockIter_SeekToFirst it)) = OK"
    using assms(4) len by (auto simp: iter_pos_def)
  note p = BlockIter_Prev_pos [OF conjunct1 [OF this] conjunct2 [OF this]]
  show ?thesis
  proof (cases "i = 0")
    case True
    then show ?thesis using o p by (auto simp: iter_end_def block_scan.simps [of "BlockIter_Prev _"])
  next
    case False
    then have "iter_pos (BlockIter_Prev ((BlockIter_Next ^^ i) (BlockIter_SeekToFirst it))) es idxs (i - 1)"
      using p by simp
    from block_scan_pos [OF this] have
      "block_scan (BlockIter_Prev ((BlockIter_Next ^^ i) (BlockIter_SeekToFirst it))) = drop (i - 1) kvs"
      using assms(4) len kvs by simp
    then show ?thesis using o False by simp
  qed
qed

context comparator_laws
begin

lemma block_scan_seek:
  assumes "1 \<le> interval" "list_all kv_fits kvs" "length (build_block interval kvs) < 2 ^ 32"
    and sorted: "sorted_wrt (\<lambda>a b. Compare cmp (fst a) (fst b) < 0) kvs"
    and ok: "list_all (\<lambda>kv. ok (fst kv)) kvs" "ok target"
  shows "\<exists>it. open_block (build_block interval kvs) = Some it \<and>
    block_scan (BlockIter_Seek cmp target it) = dropWhile (\<lambda>kv. Compare cmp (fst kv) target < 0) kvs"
proof -
  obtain it es idxs where o: "open_block (build_block interval kvs) = Some it" and v: "block_view it es idxs"
    and st: "bi_status it = OK" and kvs: "map ent_kv es = kvs" using build_block_view [OF assms(1-3)] by blast
  have k: "fst (ent_kv e) = ent_key e" for e by (simp add: ent_kv_def)
  have "keys_sorted cmp es"
    using sorted unfolding kvs [symmetric] by (simp add: keys_sorted_def sorted_wrt_map k)
  moreover have "\<forall>e\<in>set es. ok (ent_key e)"
    using ok(1) unfolding kvs [symmetric] by (simp add: list_all_iff k)
  ultimately have "iter_pos (BlockIter_Seek cmp target it) es idxs (first_ge cmp target es)"
    using BlockIter_Seek_pos [OF v st _ _ ok(2)] by blast
  then have "block_scan (BlockIter_Seek cmp target it) = drop (first_ge cmp target es) (map ent_kv es)"
    using block_scan_pos first_ge_le by blast
  also have "\<dots> = dropWhile (\<lambda>kv. Compare cmp (fst kv) target < 0) kvs"
    unfolding kvs [symmetric] first_ge_def dropWhile_eq_drop
    by (simp add: takeWhile_map k comp_def)
  finally show ?thesis using o by blast
qed

end

end
