(* ===== verification/TableFormat.thy ===== *)
theory TableFormat
  imports Coding Crc32c EnvFile
begin

text \<open>
  \<open>table/format.h\<close> and \<open>table/format.cpp\<close>: block handles, the footer and the checked read of a
  block; with the random-access files of \<open>util/env_posix.cpp\<close> and the Snappy entry points of
  \<open>port/port_posix.h\<close>.
\<close>

section \<open>Random-access files\<close>

text \<open>
  \<open>pread\<close> answers with a byte count, negative for an error; \<open>rf_pread\<close> is that answer for an
  offset and a size.
\<close>

record random_file =
  rf_name :: string
  rf_data :: bytes
  rf_pread :: "u64 \<Rightarrow> nat \<Rightarrow> int"

definition rf_Read :: "random_file \<Rightarrow> u64 \<Rightarrow> nat \<Rightarrow> status \<times> bytes" where
  "rf_Read f offset n =
     (let r = rf_pread f offset n;
          result = (if r < 0 then [] else take (nat r) (drop (unat offset) (rf_data f)))
      in if r < 0 then (IOError (rf_name f), result) else (OK, result))"

text \<open>A file that \<open>pread\<close> serves in full.\<close>

definition plain_file :: "string \<Rightarrow> bytes \<Rightarrow> random_file" where
  "plain_file name data =
     \<lparr>rf_name = name, rf_data = data, rf_pread = (\<lambda>offset n. int (min n (length data - unat offset)))\<rparr>"

text \<open>\<open>PosixMmapReadableFile::Read\<close>: the bound check adds in 64 bits.\<close>

definition mmap_Read :: "string \<Rightarrow> bytes \<Rightarrow> u64 \<Rightarrow> nat \<Rightarrow> status \<times> bytes" where
  "mmap_Read name region offset n =
     (if offset + word_of_nat n > word_of_nat (length region) then (IOError name, [])
      else (OK, take n (drop (unat offset) region)))"

section \<open>Snappy\<close>

record snappy =
  sn_Compress :: "bytes \<Rightarrow> bytes option"
  sn_GetUncompressedLength :: "bytes \<Rightarrow> nat option"
  sn_Uncompress :: "bytes \<Rightarrow> bytes option"

text \<open>What the table code relies on.\<close>

locale snappy_laws =
  fixes sn :: snappy
  assumes compress_length: "sn_Compress sn raw = Some c \<Longrightarrow> sn_GetUncompressedLength sn c = Some (length raw)"
    and compress_uncompress: "sn_Compress sn raw = Some c \<Longrightarrow> sn_Uncompress sn c = Some raw"

text \<open>The port without the \<open>SNAPPY\<close> macro, as the Android build has it.\<close>

definition port_snappy :: snappy where
  "port_snappy =
     \<lparr>sn_Compress = (\<lambda>_. None), sn_GetUncompressedLength = (\<lambda>_. None), sn_Uncompress = (\<lambda>_. None)\<rparr>"

interpretation port_snappy: snappy_laws port_snappy
  by unfold_locales (simp_all add: port_snappy_def)

section \<open>Block handles\<close>

record block_handle =
  bh_offset :: u64
  bh_size :: u64

definition kBlockHandleMaxEncodedLength :: nat where "kBlockHandleMaxEncodedLength = 10 + 10"

definition BlockHandle_EncodeTo :: "bytes \<Rightarrow> block_handle \<Rightarrow> bytes" where
  "BlockHandle_EncodeTo dst h = PutVarint64 (PutVarint64 dst (bh_offset h)) (bh_size h)"

text \<open>\<open>DecodeFrom\<close> with the input it leaves; \<open>None\<close> is the status \<open>bad block handle\<close>.\<close>

definition BlockHandle_DecodeFrom :: "bytes \<Rightarrow> (block_handle \<times> bytes) option" where
  "BlockHandle_DecodeFrom input =
     (case GetVarint64 input of
        None \<Rightarrow> None
      | Some (offset, input) \<Rightarrow>
          (case GetVarint64 input of
             None \<Rightarrow> None
           | Some (sz, input) \<Rightarrow> Some (\<lparr>bh_offset = offset, bh_size = sz\<rparr>, input)))"

section \<open>Footer\<close>

definition kFooterEncodedLength :: nat where "kFooterEncodedLength = 2 * kBlockHandleMaxEncodedLength + 8"
definition kTableMagicNumber :: u64 where "kTableMagicNumber = 0xdb4775248b80fb57"

record footer =
  ft_metaindex_handle :: block_handle
  ft_index_handle :: block_handle

text \<open>\<open>std::string::resize\<close>: cut off, or pad with zero bytes.\<close>

definition string_resize :: "nat \<Rightarrow> bytes \<Rightarrow> bytes" where
  "string_resize n s = take n s @ replicate (n - length s) 0"

definition Footer_EncodeTo :: "bytes \<Rightarrow> footer \<Rightarrow> bytes" where
  "Footer_EncodeTo dst f =
     (let dst = BlockHandle_EncodeTo dst (ft_metaindex_handle f);
          dst = BlockHandle_EncodeTo dst (ft_index_handle f);
          dst = string_resize (2 * kBlockHandleMaxEncodedLength) dst;
          dst = PutFixed32 dst (ucast (kTableMagicNumber AND 0xffffffff))
      in PutFixed32 dst (ucast (drop_bit 32 kTableMagicNumber)))"

text \<open>On success the input is what follows the footer.\<close>

definition Footer_DecodeFrom :: "bytes \<Rightarrow> status \<times> (footer \<times> bytes) option" where
  "Footer_DecodeFrom input =
     (let magic_ptr = drop (kFooterEncodedLength - 8) input;
          magic_lo = DecodeFixed32 magic_ptr;
          magic_hi = DecodeFixed32 (drop 4 magic_ptr);
          magic = push_bit 32 (ucast magic_hi) OR ucast magic_lo :: u64
      in if magic \<noteq> kTableMagicNumber
         then (Corruption ''not an sstable (bad magic number)'', None)
         else
           (case BlockHandle_DecodeFrom input of
              None \<Rightarrow> (Corruption ''bad block handle'', None)
            | Some (metaindex, rest) \<Rightarrow>
                (case BlockHandle_DecodeFrom rest of
                   None \<Rightarrow> (Corruption ''bad block handle'', None)
                 | Some (index, rest) \<Rightarrow>
                     (OK, Some (\<lparr>ft_metaindex_handle = metaindex, ft_index_handle = index\<rparr>,
                                drop 8 magic_ptr)))))"

section \<open>Reading a block\<close>

definition kNoCompression :: byte where "kNoCompression = 0"
definition kSnappyCompression :: byte where "kSnappyCompression = 1"
definition kBlockTrailerSize :: nat where "kBlockTrailerSize = 5"

text \<open>
  \<open>cachable\<close>: whether the data came in the caller's buffer, as it does from \<open>pread\<close>.
\<close>

record block_contents =
  bc_data :: bytes
  bc_cachable :: bool

definition ReadBlock :: "snappy \<Rightarrow> random_file \<Rightarrow> bool \<Rightarrow> block_handle \<Rightarrow> status \<times> block_contents option" where
  "ReadBlock sn file verify_checksums handle =
     (let n = unat (bh_size handle);
          (s, data) = rf_Read file (bh_offset handle) (n + kBlockTrailerSize)
      in if \<not> status_ok s then (s, None)
         else if length data \<noteq> n + kBlockTrailerSize
         then (Corruption ''truncated block read'', None)
         else if verify_checksums \<and>
           crc_Value 0 (take (n + 1) data) \<noteq> Unmask (DecodeFixed32 (drop (n + 1) data))
         then (Corruption ''block checksum mismatch'', None)
         else if data ! n = kNoCompression
         then (OK, Some \<lparr>bc_data = take n data, bc_cachable = True\<rparr>)
         else if data ! n = kSnappyCompression then
           (case sn_GetUncompressedLength sn (take n data) of
              None \<Rightarrow> (Corruption ''corrupted compressed block contents'', None)
            | Some ulength \<Rightarrow>
                (case sn_Uncompress sn (take n data) of
                   None \<Rightarrow> (Corruption ''corrupted compressed block contents'', None)
                 | Some ubuf \<Rightarrow> (OK, Some \<lparr>bc_data = take ulength ubuf, bc_cachable = True\<rparr>)))
         else (Corruption ''bad block type'', None))"

section \<open>Round trips\<close>

lemma BlockHandle_EncodeTo_eq:
  "BlockHandle_EncodeTo dst h = dst @ EncodeVarint64 (bh_offset h) @ EncodeVarint64 (bh_size h)"
  by (simp add: BlockHandle_EncodeTo_def PutVarint64_def)

lemma BlockHandle_Decode_Encode [simp, codec]:
  "BlockHandle_DecodeFrom (BlockHandle_EncodeTo [] h @ rest) = Some (h, rest)"
  by (simp add: BlockHandle_DecodeFrom_def BlockHandle_EncodeTo_eq)

lemma BlockHandle_Decode_Encode_self [simp, codec]:
  "BlockHandle_DecodeFrom (BlockHandle_EncodeTo [] h) = Some (h, [])"
  using BlockHandle_Decode_Encode [of h "[]"] by simp

lemma length_BlockHandle_EncodeTo: "length (BlockHandle_EncodeTo [] h) \<le> kBlockHandleMaxEncodedLength"
  using EncodeVarint64_len_max [of "bh_offset h"] EncodeVarint64_len_max [of "bh_size h"]
  by (simp add: BlockHandle_EncodeTo_eq kBlockHandleMaxEncodedLength_def)

lemma Footer_EncodeTo_eq:
  "Footer_EncodeTo [] f =
     (BlockHandle_EncodeTo [] (ft_metaindex_handle f) @ BlockHandle_EncodeTo [] (ft_index_handle f) @
      replicate (40 - (length (BlockHandle_EncodeTo [] (ft_metaindex_handle f)) +
        length (BlockHandle_EncodeTo [] (ft_index_handle f)))) 0) @
     EncodeFixed32 (ucast (kTableMagicNumber AND 0xffffffff)) @ EncodeFixed32 (ucast (drop_bit 32 kTableMagicNumber))"
proof -
  have "BlockHandle_EncodeTo (BlockHandle_EncodeTo [] a) b = BlockHandle_EncodeTo [] a @ BlockHandle_EncodeTo [] b" for a b
    by (simp add: BlockHandle_EncodeTo_eq)
  then show ?thesis
    using length_BlockHandle_EncodeTo [of "ft_metaindex_handle f"] length_BlockHandle_EncodeTo [of "ft_index_handle f"]
    by (simp add: Footer_EncodeTo_def Let_def PutFixed32_def string_resize_def kBlockHandleMaxEncodedLength_def)
qed

lemma length_Footer_EncodeTo [simp, lens]: "length (Footer_EncodeTo [] f) = kFooterEncodedLength"
  using length_BlockHandle_EncodeTo [of "ft_metaindex_handle f"] length_BlockHandle_EncodeTo [of "ft_index_handle f"]
  unfolding Footer_EncodeTo_eq by (simp add: kFooterEncodedLength_def kBlockHandleMaxEncodedLength_def)

lemma magic_halves:
  "(push_bit 32 (ucast (ucast (drop_bit 32 kTableMagicNumber) :: u32)) OR
     ucast (ucast (kTableMagicNumber AND 0xffffffff) :: u32) :: u64) = kTableMagicNumber"
  by (simp add: kTableMagicNumber_def)

lemma Footer_Decode_Encode [simp, codec]:
  "Footer_DecodeFrom (Footer_EncodeTo [] f @ rest) = (OK, Some (f, rest))"
proof -
  define h where "h = BlockHandle_EncodeTo [] (ft_metaindex_handle f) @ BlockHandle_EncodeTo [] (ft_index_handle f) @
      replicate (40 - (length (BlockHandle_EncodeTo [] (ft_metaindex_handle f)) +
        length (BlockHandle_EncodeTo [] (ft_index_handle f)))) 0"
  have len: "length h = 40"
    using length_BlockHandle_EncodeTo [of "ft_metaindex_handle f"] length_BlockHandle_EncodeTo [of "ft_index_handle f"]
    by (simp add: h_def kBlockHandleMaxEncodedLength_def)
  have k: "kFooterEncodedLength - 8 = length h" by (simp add: len kFooterEncodedLength_def kBlockHandleMaxEncodedLength_def)
  have e: "Footer_EncodeTo [] f @ rest = h @ EncodeFixed32 (ucast (kTableMagicNumber AND 0xffffffff)) @
      EncodeFixed32 (ucast (drop_bit 32 kTableMagicNumber)) @ rest"
    unfolding Footer_EncodeTo_eq h_def by simp
  show ?thesis
    unfolding Footer_DecodeFrom_def Let_def e k
    by (simp add: magic_halves del: len) (simp add: h_def)
qed

text \<open>What \<open>WriteRawBlock\<close> stores is what \<open>ReadBlock\<close> accepts.\<close>

definition block_trailer :: "bytes \<Rightarrow> byte \<Rightarrow> bytes" where
  "block_trailer contents type =
     type # EncodeFixed32 (Mask (Extend 0 (crc_Value 0 contents) [type]))"

lemma length_block_trailer [simp, lens]: "length (block_trailer contents type) = kBlockTrailerSize"
  by (simp add: block_trailer_def kBlockTrailerSize_def)

lemma rf_Read_plain [simp]:
  "rf_Read (plain_file name data) offset n = (OK, take n (drop (unat offset) data))"
proof -
  have "take (min n (length data - unat offset)) (drop (unat offset) data) = take n (drop (unat offset) data)"
    by (metis length_drop take_all_iff take_take linear min.absorb2 min.commute min.orderE)
  moreover have "\<not> int (min n (length data - unat offset)) < 0" "nat (int (min n (length data - unat offset))) = min n (length data - unat offset)"
    by (simp_all del: of_nat_min)
  ultimately show ?thesis by (simp add: rf_Read_def plain_file_def Let_def del: of_nat_min)
qed

lemma ReadBlock_stored:
  assumes "drop (unat (bh_offset h)) data = contents @ block_trailer contents kNoCompression @ rest"
    "length contents = unat (bh_size h)"
  shows "ReadBlock sn (plain_file name data) verify h = (OK, Some \<lparr>bc_data = contents, bc_cachable = True\<rparr>)"
proof -
  let ?n = "unat (bh_size h)"
  have "rf_Read (plain_file name data) (bh_offset h) (?n + kBlockTrailerSize) =
      (OK, contents @ block_trailer contents kNoCompression)"
    using assms by simp
  moreover have "crc_Value 0 (contents @ [kNoCompression]) =
      Unmask (DecodeFixed32 (drop 1 (block_trailer contents kNoCompression)))"
    by (simp add: block_trailer_def crc_Value_def Extend_Extend [where r = 0])
  moreover have "take (?n + 1) (contents @ block_trailer contents kNoCompression) = contents @ [kNoCompression]"
    "drop (?n + 1) (contents @ block_trailer contents kNoCompression) = drop 1 (block_trailer contents kNoCompression)"
    "(contents @ block_trailer contents kNoCompression) ! ?n = kNoCompression"
    using assms(2) by (simp_all add: block_trailer_def nth_append)
  ultimately show ?thesis using assms(2) unfolding ReadBlock_def Let_def by (simp add: kBlockTrailerSize_def)
qed

end
