(* ===== verification/Cache.thy ===== *)
theory Cache
  imports HashBloom "HOL-Library.Multiset"
begin

text \<open>
  \<open>util/cache.cpp\<close>: the sharded LRU cache. A handle is the address of its \<open>LRUHandle\<close>, a natural
  number; \<open>lc_heap\<close> holds the handles that are allocated. A circular list of handles is the list
  of its elements: the LRU list from \<open>lru_.next\<close> (oldest) to \<open>lru_.prev\<close> (newest), and one chain
  per bucket of the hash table. \<open>lc_deleted\<close> records the calls of the deleters in order.
\<close>

record 'v lru_handle =
  h_key :: bytes
  h_hash :: u32
  h_value :: 'v
  h_charge :: nat
  h_refs :: nat

type_synonym 'v handle_heap = "nat \<Rightarrow> 'v lru_handle option"

section \<open>The hash table\<close>

record handle_table =
  ht_elems :: nat
  ht_list :: "nat list list"

definition bucket_index :: "u32 \<Rightarrow> nat \<Rightarrow> nat" where
  "bucket_index hash len = unat (hash AND word_of_nat (len - 1))"

definition handle_matches :: "'v handle_heap \<Rightarrow> bytes \<Rightarrow> u32 \<Rightarrow> nat \<Rightarrow> bool" where
  "handle_matches heap key hash e = (h_hash (the (heap e)) = hash \<and> key = h_key (the (heap e)))"

text \<open>\<open>FindPointer\<close>: the matching handle of the bucket, or none for its trailing slot.\<close>

definition HandleTable_Lookup :: "'v handle_heap \<Rightarrow> bytes \<Rightarrow> u32 \<Rightarrow> handle_table \<Rightarrow> nat option" where
  "HandleTable_Lookup heap key hash t =
     find (handle_matches heap key hash) (ht_list t ! bucket_index hash (length (ht_list t)))"

fun new_length_loop :: "nat \<Rightarrow> nat \<Rightarrow> nat \<Rightarrow> nat" where
  "new_length_loop elems new_length 0 = new_length"
| "new_length_loop elems new_length (Suc n) =
     (if new_length < elems then new_length_loop elems (new_length * 2) n else new_length)"

text \<open>Doubling from 4 passes \<open>elems_\<close> after fewer than \<open>elems_\<close> steps.\<close>

definition HandleTable_Resize :: "'v handle_heap \<Rightarrow> handle_table \<Rightarrow> handle_table" where
  "HandleTable_Resize heap t =
     (let new_length = new_length_loop (ht_elems t) 4 (ht_elems t);
          push = (\<lambda>h new_list.
            let i = bucket_index (h_hash (the (heap h))) new_length
            in new_list[i := h # new_list ! i])
      in t\<lparr>ht_list := fold push (concat (ht_list t)) (replicate new_length [])\<rparr>)"

definition HandleTable_new :: handle_table where
  "HandleTable_new = \<lparr>ht_elems = 0, ht_list = replicate 4 []\<rparr>"

definition HandleTable_Insert :: "'v handle_heap \<Rightarrow> nat \<Rightarrow> handle_table \<Rightarrow> nat option \<times> handle_table" where
  "HandleTable_Insert heap h t =
     (let key = h_key (the (heap h)); hash = h_hash (the (heap h));
          i = bucket_index hash (length (ht_list t)); bucket = ht_list t ! i
      in case find (handle_matches heap key hash) bucket of
           Some old \<Rightarrow>
             (Some old, t\<lparr>ht_list := (ht_list t)[i := map (\<lambda>x. if x = old then h else x) bucket]\<rparr>)
         | None \<Rightarrow>
             let t = t\<lparr>ht_list := (ht_list t)[i := bucket @ [h]], ht_elems := ht_elems t + 1\<rparr>
             in (None, if ht_elems t > length (ht_list t) then HandleTable_Resize heap t else t))"

definition HandleTable_Remove :: "'v handle_heap \<Rightarrow> bytes \<Rightarrow> u32 \<Rightarrow> handle_table \<Rightarrow> nat option \<times> handle_table" where
  "HandleTable_Remove heap key hash t =
     (let i = bucket_index hash (length (ht_list t)); bucket = ht_list t ! i
      in case find (handle_matches heap key hash) bucket of
           Some e \<Rightarrow> (Some e, t\<lparr>ht_list := (ht_list t)[i := remove1 e bucket], ht_elems := ht_elems t - 1\<rparr>)
         | None \<Rightarrow> (None, t))"

section \<open>One shard\<close>

record 'v lru_cache =
  lc_capacity :: nat
  lc_usage :: nat
  lc_lru :: "nat list"
  lc_table :: handle_table
  lc_heap :: "'v handle_heap"
  lc_fresh :: nat
  lc_deleted :: "(bytes \<times> 'v) list"

definition LRUCache_new :: "nat \<Rightarrow> 'v lru_cache" where
  "LRUCache_new capacity =
     \<lparr>lc_capacity = capacity, lc_usage = 0, lc_lru = [], lc_table = HandleTable_new,
      lc_heap = (\<lambda>_. None), lc_fresh = 0, lc_deleted = []\<rparr>"

definition LRU_Unref :: "nat \<Rightarrow> 'v lru_cache \<Rightarrow> 'v lru_cache" where
  "LRU_Unref e c =
     (let h = the (lc_heap c e); h = h\<lparr>h_refs := h_refs h - 1\<rparr>
      in if h_refs h = 0
         then c\<lparr>lc_usage := lc_usage c - h_charge h, lc_deleted := lc_deleted c @ [(h_key h, h_value h)],
                lc_heap := (lc_heap c)(e := None)\<rparr>
         else c\<lparr>lc_heap := (lc_heap c)(e := Some h)\<rparr>)"

definition LRU_Remove :: "nat \<Rightarrow> 'v lru_cache \<Rightarrow> 'v lru_cache" where
  "LRU_Remove e c = c\<lparr>lc_lru := remove1 e (lc_lru c)\<rparr>"

definition LRU_Append :: "nat \<Rightarrow> 'v lru_cache \<Rightarrow> 'v lru_cache" where
  "LRU_Append e c = c\<lparr>lc_lru := lc_lru c @ [e]\<rparr>"

definition LRUCache_Lookup :: "bytes \<Rightarrow> u32 \<Rightarrow> 'v lru_cache \<Rightarrow> nat option \<times> 'v lru_cache" where
  "LRUCache_Lookup key hash c =
     (case HandleTable_Lookup (lc_heap c) key hash (lc_table c) of
        None \<Rightarrow> (None, c)
      | Some e \<Rightarrow>
          let h = the (lc_heap c e);
              c = c\<lparr>lc_heap := (lc_heap c)(e := Some (h\<lparr>h_refs := h_refs h + 1\<rparr>))\<rparr>
          in (Some e, LRU_Append e (LRU_Remove e c)))"

definition LRUCache_Release :: "nat \<Rightarrow> 'v lru_cache \<Rightarrow> 'v lru_cache" where
  "LRUCache_Release e c = LRU_Unref e c"

text \<open>Removes the handle \<open>e\<close> from the table by its key and hash, from the list, and drops its reference.\<close>

definition LRU_evict :: "nat \<Rightarrow> 'v lru_cache \<Rightarrow> 'v lru_cache" where
  "LRU_evict e c =
     (let c = LRU_Remove e c; h = the (lc_heap c e);
          c = c\<lparr>lc_table := snd (HandleTable_Remove (lc_heap c) (h_key h) (h_hash h) (lc_table c))\<rparr>
      in LRU_Unref e c)"

function LRU_evict_loop :: "'v lru_cache \<Rightarrow> 'v lru_cache" where
  "LRU_evict_loop c =
     (if lc_usage c > lc_capacity c \<and> lc_lru c \<noteq> []
      then LRU_evict_loop (LRU_evict (hd (lc_lru c)) c) else c)"
  by pat_completeness auto
termination
  by (relation "measure (\<lambda>c. length (lc_lru c))")
    (auto simp: LRU_evict_def LRU_Remove_def LRU_Unref_def Let_def length_remove1)

declare LRU_evict_loop.simps [simp del]

definition LRUCache_Insert :: "bytes \<Rightarrow> u32 \<Rightarrow> 'v \<Rightarrow> nat \<Rightarrow> 'v lru_cache \<Rightarrow> nat \<times> 'v lru_cache" where
  "LRUCache_Insert key hash val charge c =
     (let e = lc_fresh c;
          h = \<lparr>h_key = key, h_hash = hash, h_value = val, h_charge = charge, h_refs = 2\<rparr>;
          c = c\<lparr>lc_heap := (lc_heap c)(e := Some h), lc_fresh := e + 1\<rparr>;
          c = LRU_Append e c;
          c = c\<lparr>lc_usage := lc_usage c + charge\<rparr>;
          (old, table) = HandleTable_Insert (lc_heap c) e (lc_table c);
          c = c\<lparr>lc_table := table\<rparr>;
          c = (case old of None \<Rightarrow> c | Some old \<Rightarrow> LRU_Unref old (LRU_Remove old c))
      in (e, LRU_evict_loop c))"

definition LRUCache_Erase :: "bytes \<Rightarrow> u32 \<Rightarrow> 'v lru_cache \<Rightarrow> 'v lru_cache" where
  "LRUCache_Erase key hash c =
     (let (r, table) = HandleTable_Remove (lc_heap c) key hash (lc_table c); c = c\<lparr>lc_table := table\<rparr>
      in case r of None \<Rightarrow> c | Some e \<Rightarrow> LRU_Unref e (LRU_Remove e c))"

definition LRUCache_Prune :: "'v lru_cache \<Rightarrow> 'v lru_cache" where
  "LRUCache_Prune c =
     fold (\<lambda>e c.
       if h_refs (the (lc_heap c e)) = 1 then
         let h = the (lc_heap c e);
             c = c\<lparr>lc_table := snd (HandleTable_Remove (lc_heap c) (h_key h) (h_hash h) (lc_table c))\<rparr>
         in LRU_Unref e (LRU_Remove e c)
       else c) (lc_lru c) c"

section \<open>The sharded cache\<close>

definition kNumShardBits :: nat where "kNumShardBits = 4"
definition kNumShards :: nat where "kNumShards = 2 ^ kNumShardBits"

record 'v sharded_cache =
  sc_shard :: "'v lru_cache list"
  sc_last_id :: u64

definition HashSlice :: "bytes \<Rightarrow> u32" where
  "HashSlice s = Hash s 0"

definition Shard :: "u32 \<Rightarrow> nat" where
  "Shard hash = unat (drop_bit (32 - kNumShardBits) hash)"

definition NewLRUCache :: "nat \<Rightarrow> 'v sharded_cache" where
  "NewLRUCache capacity =
     (let per_shard = (capacity + (kNumShards - 1)) div kNumShards
      in \<lparr>sc_shard = replicate kNumShards (LRUCache_new per_shard), sc_last_id = 0\<rparr>)"

text \<open>A handle is found again in the shard of its own hash.\<close>

type_synonym cache_handle = "nat \<times> nat"

definition Cache_Insert :: "bytes \<Rightarrow> 'v \<Rightarrow> nat \<Rightarrow> 'v sharded_cache \<Rightarrow> cache_handle \<times> 'v sharded_cache" where
  "Cache_Insert key val charge c =
     (let hash = HashSlice key; s = Shard hash;
          (e, shard) = LRUCache_Insert key hash val charge (sc_shard c ! s)
      in ((s, e), c\<lparr>sc_shard := (sc_shard c)[s := shard]\<rparr>))"

definition Cache_Lookup :: "bytes \<Rightarrow> 'v sharded_cache \<Rightarrow> cache_handle option \<times> 'v sharded_cache" where
  "Cache_Lookup key c =
     (let hash = HashSlice key; s = Shard hash;
          (r, shard) = LRUCache_Lookup key hash (sc_shard c ! s)
      in (map_option (Pair s) r, c\<lparr>sc_shard := (sc_shard c)[s := shard]\<rparr>))"

definition Cache_Release :: "cache_handle \<Rightarrow> 'v sharded_cache \<Rightarrow> 'v sharded_cache" where
  "Cache_Release h c =
     (case h of (s, e) \<Rightarrow> c\<lparr>sc_shard := (sc_shard c)[s := LRUCache_Release e (sc_shard c ! s)]\<rparr>)"

definition Cache_Erase :: "bytes \<Rightarrow> 'v sharded_cache \<Rightarrow> 'v sharded_cache" where
  "Cache_Erase key c =
     (let hash = HashSlice key; s = Shard hash
      in c\<lparr>sc_shard := (sc_shard c)[s := LRUCache_Erase key hash (sc_shard c ! s)]\<rparr>)"

definition Cache_Value :: "cache_handle \<Rightarrow> 'v sharded_cache \<Rightarrow> 'v" where
  "Cache_Value h c = (case h of (s, e) \<Rightarrow> h_value (the (lc_heap (sc_shard c ! s) e)))"

definition Cache_NewId :: "'v sharded_cache \<Rightarrow> u64 \<times> 'v sharded_cache" where
  "Cache_NewId c = (sc_last_id c + 1, c\<lparr>sc_last_id := sc_last_id c + 1\<rparr>)"

definition Cache_Prune :: "'v sharded_cache \<Rightarrow> 'v sharded_cache" where
  "Cache_Prune c = c\<lparr>sc_shard := map LRUCache_Prune (sc_shard c)\<rparr>"

definition Cache_TotalCharge :: "'v sharded_cache \<Rightarrow> nat" where
  "Cache_TotalCharge c = sum_list (map lc_usage (sc_shard c))"

section \<open>The invariant of a hash table\<close>

text \<open>
  \<open>table_inv heap t S\<close>: the table holds the handles \<open>S\<close>, each once, in the bucket of its hash,
  and no two of them have the same key and hash.
\<close>

definition table_inv :: "'v handle_heap \<Rightarrow> handle_table \<Rightarrow> nat set \<Rightarrow> bool" where
  "table_inv heap t S \<longleftrightarrow>
     ht_list t \<noteq> [] \<and> set (concat (ht_list t)) = S \<and> distinct (concat (ht_list t)) \<and>
     ht_elems t = length (concat (ht_list t)) \<and>
     (\<forall>i<length (ht_list t). \<forall>e\<in>set (ht_list t ! i).
        bucket_index (h_hash (the (heap e))) (length (ht_list t)) = i) \<and>
     inj_on (\<lambda>e. (h_key (the (heap e)), h_hash (the (heap e)))) S"

lemma bucket_index_less: "0 < len \<Longrightarrow> bucket_index hash len < len"
proof -
  assume "0 < len"
  have "hash AND word_of_nat (len - 1) \<le> (word_of_nat (len - 1) :: u32)" by (rule word_and_le1)
  then have "unat (hash AND word_of_nat (len - 1)) \<le> unat (word_of_nat (len - 1) :: u32)"
    by (simp only: word_le_nat_alt)
  also have "\<dots> \<le> len - 1" by (simp add: unat_of_nat take_bit_nat_less_eq_self)
  finally show ?thesis using \<open>0 < len\<close> by (simp add: bucket_index_def)
qed

lemma HandleTable_Lookup_spec:
  assumes "table_inv heap t S"
  shows "HandleTable_Lookup heap key hash t = Some e \<longleftrightarrow>
    e \<in> S \<and> h_key (the (heap e)) = key \<and> h_hash (the (heap e)) = hash"
proof -
  let ?i = "bucket_index hash (length (ht_list t))"
  have i: "?i < length (ht_list t)" using assms bucket_index_less by (auto simp: table_inv_def)
  have sub: "set (ht_list t ! ?i) \<subseteq> S" using assms i nth_mem by (fastforce simp: table_inv_def)
  have inj: "inj_on (\<lambda>e. (h_key (the (heap e)), h_hash (the (heap e)))) S" using assms by (simp add: table_inv_def)
  have bucket: "e \<in> set (ht_list t ! ?i)" if "e \<in> S" "h_hash (the (heap e)) = hash"
  proof -
    have "e \<in> set (concat (ht_list t))" using assms that(1) by (simp add: table_inv_def)
    then obtain b where "b \<in> set (ht_list t)" "e \<in> set b" by auto
    then obtain j where "j < length (ht_list t)" "e \<in> set (ht_list t ! j)" by (metis in_set_conv_nth)
    moreover from this have "j = ?i" using assms that(2) by (auto simp: table_inv_def)
    ultimately show ?thesis by simp
  qed
  show ?thesis
  proof
    assume "HandleTable_Lookup heap key hash t = Some e"
    then have "e \<in> set (ht_list t ! ?i) \<and> handle_matches heap key hash e"
      unfolding HandleTable_Lookup_def find_Some_iff by (metis nth_mem)
    then show "e \<in> S \<and> h_key (the (heap e)) = key \<and> h_hash (the (heap e)) = hash"
      using sub by (auto simp: handle_matches_def)
  next
    assume e: "e \<in> S \<and> h_key (the (heap e)) = key \<and> h_hash (the (heap e)) = hash"
    then have "e \<in> set (ht_list t ! ?i)" "handle_matches heap key hash e" using bucket by (auto simp: handle_matches_def)
    then obtain e' where e': "find (handle_matches heap key hash) (ht_list t ! ?i) = Some e'"
      by (metis find_None_iff option.exhaust)
    then have "e' \<in> set (ht_list t ! ?i)" "handle_matches heap key hash e'"
      unfolding find_Some_iff by (metis nth_mem)+
    then have "e' = e" using e sub inj by (auto simp: handle_matches_def inj_on_def)
    then show "HandleTable_Lookup heap key hash t = Some e" using e' by (simp add: HandleTable_Lookup_def)
  qed
qed

lemma new_length_loop_ge: "0 < n \<Longrightarrow> elems \<le> n + k \<Longrightarrow> elems \<le> new_length_loop elems n k"
proof (induction k arbitrary: n)
  case (Suc k)
  then show ?case by (cases "n < elems") auto
qed simp

lemma new_length_loop_pos: "0 < n \<Longrightarrow> 0 < new_length_loop elems n k"
  by (induction k arbitrary: n) auto

text \<open>\<open>elems_ <= length_\<close> holds again after a resize.\<close>

lemma Resize_length: "ht_elems t \<le> length (ht_list (HandleTable_Resize heap t))"
proof -
  have "length (fold (\<lambda>h nl. nl[f h nl := g h nl]) hs nl) = length nl" for f g and hs :: "nat list" and nl :: "nat list list"
    by (induction hs arbitrary: nl) simp_all
  then show ?thesis
    using new_length_loop_ge [of 4 "ht_elems t" "ht_elems t"] by (simp add: HandleTable_Resize_def Let_def)
qed

lemma mset_map_replace:
  "distinct b \<Longrightarrow> x \<in> set b \<Longrightarrow> add_mset x (mset (map (\<lambda>y. if y = x then h else y) b)) = add_mset h (mset b)"
proof (induction b)
  case (Cons a b)
  show ?case
  proof (cases "a = x")
    case True
    then have "map (\<lambda>y. if y = x then h else y) b = b" using Cons.prems by (intro map_idI) auto
    then show ?thesis using True by simp
  next
    case False
    then show ?thesis using Cons by (simp add: add_mset_commute)
  qed
qed simp

lemma mset_concat_update:
  "i < length bs \<Longrightarrow> mset (concat (bs[i := b])) + mset (bs ! i) = mset (concat bs) + mset b"
proof (induction bs arbitrary: i)
  case (Cons a bs)
  then show ?case by (cases i) (auto simp: ac_simps)
qed simp

lemma table_inv_mset:
  "table_inv heap t S \<longleftrightarrow>
     ht_list t \<noteq> [] \<and> finite S \<and> mset (concat (ht_list t)) = mset_set S \<and>
     ht_elems t = card S \<and>
     (\<forall>i<length (ht_list t). \<forall>e\<in>set (ht_list t ! i).
        bucket_index (h_hash (the (heap e))) (length (ht_list t)) = i) \<and>
     inj_on (\<lambda>e. (h_key (the (heap e)), h_hash (the (heap e)))) S"
proof -
  have "set xs = S \<and> distinct xs \<and> n = length xs \<longleftrightarrow> finite S \<and> mset xs = mset_set S \<and> n = card S" for xs :: "nat list" and n
  proof
    assume "set xs = S \<and> distinct xs \<and> n = length xs"
    then show "finite S \<and> mset xs = mset_set S \<and> n = card S"
      using mset_set_set [of xs] distinct_card [of xs] by auto
  next
    assume a: "finite S \<and> mset xs = mset_set S \<and> n = card S"
    then have "set xs = S" by (metis finite_set_mset_mset_set set_mset_mset)
    moreover have l: "length xs = card S" using a by (metis size_mset size_mset_set)
    ultimately have "distinct xs" by (intro card_distinct) simp
    then show "set xs = S \<and> distinct xs \<and> n = length xs" using a l \<open>set xs = S\<close> by simp
  qed
  then show ?thesis unfolding table_inv_def by blast
qed

lemma table_invI:
  assumes "bs \<noteq> []" "finite S" "mset (concat bs) = mset_set S" "n = card S"
    "\<forall>i<length bs. \<forall>e\<in>set (bs ! i). bucket_index (h_hash (the (heap e))) (length bs) = i"
    "inj_on (\<lambda>e. (h_key (the (heap e)), h_hash (the (heap e)))) S"
    "ht_list t = bs" "ht_elems t = n"
  shows "table_inv heap t S"
  using assms unfolding table_inv_mset by blast

lemma table_invD:
  assumes "table_inv heap t S"
  shows "ht_list t \<noteq> []" "finite S" "mset (concat (ht_list t)) = mset_set S" "ht_elems t = card S"
    "\<forall>i<length (ht_list t). \<forall>e\<in>set (ht_list t ! i). bucket_index (h_hash (the (heap e))) (length (ht_list t)) = i"
    "inj_on (\<lambda>e. (h_key (the (heap e)), h_hash (the (heap e)))) S"
  using assms unfolding table_inv_mset by blast+

lemma Resize_fold:
  assumes "\<forall>i<length nl. \<forall>e\<in>set (nl ! i). bucket_index (h_hash (the (heap e))) (length nl) = i" "nl \<noteq> []"
  defines "push \<equiv> \<lambda>h new_list. let i = bucket_index (h_hash (the (heap h))) (length nl) in new_list[i := h # new_list ! i]"
  shows "length (fold push hs nl) = length nl \<and>
    mset (concat (fold push hs nl)) = mset hs + mset (concat nl) \<and>
    (\<forall>i<length nl. \<forall>e\<in>set (fold push hs nl ! i). bucket_index (h_hash (the (heap e))) (length nl) = i)"
proof -
  have "length l = length nl \<Longrightarrow>
      \<forall>i<length nl. \<forall>e\<in>set (l ! i). bucket_index (h_hash (the (heap e))) (length nl) = i \<Longrightarrow>
      length (fold push hs l) = length nl \<and> mset (concat (fold push hs l)) = mset hs + mset (concat l) \<and>
      (\<forall>i<length nl. \<forall>e\<in>set (fold push hs l ! i). bucket_index (h_hash (the (heap e))) (length nl) = i)" for l
  proof (induction hs arbitrary: l)
    case (Cons h hs)
    let ?i = "bucket_index (h_hash (the (heap h))) (length nl)"
    have i: "?i < length l" using Cons.prems(1) assms(2) bucket_index_less by simp
    have "length (push h l) = length nl" using Cons.prems(1) by (simp add: push_def Let_def)
    moreover have "\<forall>j<length nl. \<forall>e\<in>set (push h l ! j). bucket_index (h_hash (the (heap e))) (length nl) = j"
      using Cons.prems i by (auto simp: push_def Let_def nth_list_update)
    moreover have "mset (concat (push h l)) = add_mset h (mset (concat l))"
      using mset_concat_update [OF i, of "h # l ! ?i"] by (simp add: push_def Let_def)
    ultimately show ?case using Cons.IH [of "push h l"] by simp
  qed simp
  then show ?thesis using assms(1) by simp
qed

lemma HandleTable_Resize_inv:
  assumes "table_inv heap t S"
  shows "table_inv heap (HandleTable_Resize heap t) S"
proof -
  define n where "n = new_length_loop (ht_elems t) 4 (ht_elems t)"
  have n: "0 < n" by (simp add: n_def new_length_loop_pos)
  let ?nl = "replicate n [] :: nat list list"
  note R = Resize_fold [where nl = ?nl and heap = heap and hs = "concat (ht_list t)"]
  have e: "HandleTable_Resize heap t = t\<lparr>ht_list := fold (\<lambda>h new_list.
      let i = bucket_index (h_hash (the (heap h))) (length ?nl) in new_list[i := h # new_list ! i]) (concat (ht_list t)) ?nl\<rparr>"
    by (simp add: HandleTable_Resize_def Let_def n_def)
  have z: "mset (concat ?nl) = {#}" by (induction n) simp_all
  have r: "length ?nl = n" "?nl \<noteq> []" using n by simp_all
  have b: "\<forall>i<length ?nl. \<forall>e\<in>set (?nl ! i). bucket_index (h_hash (the (heap e))) (length ?nl) = i" by simp
  note R' = R [OF b r(2)]
  define FL where "FL = fold (\<lambda>h new_list.
      let i = bucket_index (h_hash (the (heap h))) (length ?nl) in new_list[i := h # new_list ! i]) (concat (ht_list t)) ?nl"
  have F: "length FL = n" "mset (concat FL) = mset (concat (ht_list t))"
    "\<forall>i<length FL. \<forall>e\<in>set (FL ! i). bucket_index (h_hash (the (heap e))) (length FL) = i"
    using R' [folded FL_def] z by auto
  note I = table_invD [OF assms]
  show ?thesis unfolding e FL_def [symmetric]
    by (rule table_invI [where bs = FL and n = "ht_elems t"]) (use F n I in auto)
qed

lemma HandleTable_Insert_inv:
  assumes inv: "table_inv heap t S" and h: "h \<notin> S"
    and "HandleTable_Insert heap h t = (old, t')"
  shows "(case old of None \<Rightarrow> table_inv heap t' (insert h S)
          | Some o' \<Rightarrow> o' \<in> S \<and> table_inv heap t' (insert h (S - {o'})))"
    and "old = HandleTable_Lookup heap (h_key (the (heap h))) (h_hash (the (heap h))) t"
proof -
  let ?key = "h_key (the (heap h))" and ?hash = "h_hash (the (heap h))"
  let ?i = "bucket_index ?hash (length (ht_list t))"
  let ?b = "ht_list t ! ?i"
  note I = table_invD [OF inv]
  have i: "?i < length (ht_list t)" using I(1) bucket_index_less by simp
  note L = HandleTable_Lookup_spec [OF inv, of ?key ?hash]
  have lk: "HandleTable_Lookup heap ?key ?hash t = find (handle_matches heap ?key ?hash) ?b"
    by (simp add: HandleTable_Lookup_def)
  show "old = HandleTable_Lookup heap ?key ?hash t"
    using assms(3) by (auto simp: HandleTable_Insert_def Let_def lk split: option.splits)
  show "(case old of None \<Rightarrow> table_inv heap t' (insert h S)
          | Some o' \<Rightarrow> o' \<in> S \<and> table_inv heap t' (insert h (S - {o'})))"
  proof (cases "find (handle_matches heap ?key ?hash) ?b")
    case None
    define t1 where "t1 = t\<lparr>ht_list := (ht_list t)[?i := ?b @ [h]], ht_elems := ht_elems t + 1\<rparr>"
    have r: "old = None" "t' = (if ht_elems t1 > length (ht_list t1) then HandleTable_Resize heap t1 else t1)"
      using assms(3) None by (auto simp: HandleTable_Insert_def Let_def t1_def)
    have "mset (concat ((ht_list t)[?i := ?b @ [h]])) = add_mset h (mset (concat (ht_list t)))"
      using mset_concat_update [OF i, of "?b @ [h]"] by simp
    then have m: "mset (concat (ht_list t1)) = mset_set (insert h S)"
      using I(2,3) h by (simp add: t1_def del: concat.simps)
    have c: "ht_elems t1 = card (insert h S)" using I(2,4) h by (simp add: t1_def)
    have ne: "\<forall>e\<in>S. (h_key (the (heap e)), h_hash (the (heap e))) \<noteq> (?key, ?hash)"
      using L lk None by auto
    have inj: "inj_on (\<lambda>e. (h_key (the (heap e)), h_hash (the (heap e)))) (insert h S)"
      using I(6) ne by (auto simp: inj_on_def)
    have bu: "\<forall>j<length (ht_list t1). \<forall>e\<in>set (ht_list t1 ! j).
        bucket_index (h_hash (the (heap e))) (length (ht_list t1)) = j"
      using I(5) i by (auto simp: t1_def nth_list_update)
    have "ht_list t1 \<noteq> []" "finite (insert h S)" using I(1,2) by (simp_all add: t1_def)
    from table_invI [OF this m c bu inj refl refl] have "table_inv heap t1 (insert h S)" .
    then show ?thesis using r HandleTable_Resize_inv by auto
  next
    case (Some o')
    then have o: "o' \<in> S" "h_key (the (heap o')) = ?key" "h_hash (the (heap o')) = ?hash" using L [of o'] lk by auto
    have r: "old = Some o'" "t' = t\<lparr>ht_list := (ht_list t)[?i := map (\<lambda>x. if x = o' then h else x) ?b]\<rparr>"
      using assms(3) Some by (auto simp: HandleTable_Insert_def Let_def)
    have ob: "o' \<in> set ?b" using Some unfolding find_Some_iff by (metis nth_mem)
    have db: "distinct ?b"
    proof -
      have "distinct (concat (ht_list t))" using inv by (simp add: table_inv_def)
      then show ?thesis using i nth_mem by (auto simp: distinct_concat_iff)
    qed
    note mb = mset_map_replace [OF db ob, of h]
    define l' where "l' = (ht_list t)[?i := map (\<lambda>x. if x = o' then h else x) ?b]"
    have "add_mset o' (mset (concat l')) + mset ?b = add_mset h (mset (concat (ht_list t))) + mset ?b"
      using mset_concat_update [OF i, of "map (\<lambda>x. if x = o' then h else x) ?b"] mb
      by (metis (no_types, lifting) l'_def union_mset_add_mset_left union_mset_add_mset_right)
    then have "add_mset o' (mset (concat l')) = add_mset h (mset_set S)" using I by simp
    also have "mset_set S = add_mset o' (mset_set (S - {o'}))"
      using I o(1) by (simp add: mset_set.remove)
    finally have m: "mset (concat l') = mset_set (insert h (S - {o'}))"
      using I h by (simp add: add_mset_commute)
    have c: "ht_elems t = card (insert h (S - {o'}))"
      using I h o(1) by (metis Diff_iff card_Suc_Diff1 card_insert_disjoint finite_Diff)
    have inj: "inj_on (\<lambda>e. (h_key (the (heap e)), h_hash (the (heap e)))) (insert h (S - {o'}))"
    proof -
      have "inj_on (\<lambda>e. (h_key (the (heap e)), h_hash (the (heap e)))) S" using I by simp
      then show ?thesis using o by (auto simp: inj_on_def)
    qed
    have bu: "\<forall>j<length l'. \<forall>e\<in>set (l' ! j). bucket_index (h_hash (the (heap e))) (length l') = j"
      using I i by (auto simp: l'_def nth_list_update)
    have "table_inv heap t' (insert h (S - {o'}))"
      unfolding r(2) l'_def [symmetric]
      by (rule table_invI [OF _ _ m c bu inj]) (use I in \<open>simp_all add: l'_def\<close>)
    then show ?thesis using r(1) o(1) by simp
  qed
qed

lemma HandleTable_Remove_inv:
  assumes inv: "table_inv heap t S" and "HandleTable_Remove heap key hash t = (r, t')"
  shows "r = HandleTable_Lookup heap key hash t"
    and "case r of None \<Rightarrow> t' = t | Some e \<Rightarrow> table_inv heap t' (S - {e})"
proof -
  let ?i = "bucket_index hash (length (ht_list t))"
  let ?b = "ht_list t ! ?i"
  note I = table_invD [OF inv]
  have i: "?i < length (ht_list t)" using I(1) bucket_index_less by simp
  have lk: "HandleTable_Lookup heap key hash t = find (handle_matches heap key hash) ?b"
    by (simp add: HandleTable_Lookup_def)
  show r: "r = HandleTable_Lookup heap key hash t"
    using assms(2) by (auto simp: HandleTable_Remove_def Let_def lk split: option.splits)
  show "case r of None \<Rightarrow> t' = t | Some e \<Rightarrow> table_inv heap t' (S - {e})"
  proof (cases "find (handle_matches heap key hash) ?b")
    case None
    then show ?thesis using assms(2) by (auto simp: HandleTable_Remove_def Let_def)
  next
    case (Some e)
    have eb: "e \<in> set ?b" using Some unfolding find_Some_iff by (metis nth_mem)
    have e: "e \<in> S" using HandleTable_Lookup_spec [OF inv] lk Some by metis
    define l' where "l' = (ht_list t)[?i := remove1 e ?b]"
    have t': "r = Some e" "t' = t\<lparr>ht_list := l', ht_elems := ht_elems t - 1\<rparr>"
      using assms(2) Some by (auto simp: HandleTable_Remove_def Let_def l'_def)
    have "mset (concat l') + mset ?b = mset (concat (ht_list t)) + (mset ?b - {#e#})"
      using mset_concat_update [OF i, of "remove1 e ?b"] by (simp add: l'_def)
    moreover have "mset ?b = add_mset e (mset ?b - {#e#})" using eb by simp
    ultimately have "add_mset e (mset (concat l')) = mset_set S"
      using I(3) by (metis add_right_cancel union_mset_add_mset_left union_mset_add_mset_right)
    then have m: "mset (concat l') = mset_set (S - {e})"
      using e I(2) by (simp add: mset_set.remove)
    have "set (remove1 e ?b) \<subseteq> set ?b" by (rule set_remove1_subset)
    then have bu: "\<forall>j<length l'. \<forall>x\<in>set (l' ! j). bucket_index (h_hash (the (heap x))) (length l') = j"
      using I(5) i by (auto simp: l'_def nth_list_update)
    have inj: "inj_on (\<lambda>e. (h_key (the (heap e)), h_hash (the (heap e)))) (S - {e})"
      using I(6) by (rule inj_on_diff)
    have c: "ht_elems t - 1 = card (S - {e})" using I(2,4) e by simp
    have "l' \<noteq> []" "finite (S - {e})" using I(1,2) by (simp_all add: l'_def)
    from table_invI [OF this m c bu inj, of t'] show ?thesis using t' by simp
  qed
qed

lemma table_inv_cong:
  assumes "table_inv heap t S" "\<And>e. e \<in> S \<Longrightarrow> h_key (the (heap' e)) = h_key (the (heap e)) \<and> h_hash (the (heap' e)) = h_hash (the (heap e))"
  shows "table_inv heap' t S"
proof -
  note I = table_invD [OF assms(1)]
  have "e \<in> S" if "i < length (ht_list t)" "e \<in> set (ht_list t ! i)" for i e
    using assms(1) that nth_mem by (fastforce simp: table_inv_def)
  then have bu: "\<forall>i<length (ht_list t). \<forall>e\<in>set (ht_list t ! i). bucket_index (h_hash (the (heap' e))) (length (ht_list t)) = i"
    using I(5) assms(2) by simp
  have "inj_on (\<lambda>e. (h_key (the (heap' e)), h_hash (the (heap' e)))) S"
    using I(6) assms(2) by (simp add: inj_on_def)
  from table_invI [OF I(1-4) bu this refl refl] show ?thesis .
qed

section \<open>The invariant of a shard\<close>

text \<open>
  \<open>heap_inv c n\<close>: handle \<open>e\<close> has \<open>n e\<close> references, is allocated exactly when it has any, and
  \<open>usage_\<close> is the total charge of what is allocated.
\<close>

definition heap_inv :: "'v lru_cache \<Rightarrow> (nat \<Rightarrow> nat) \<Rightarrow> bool" where
  "heap_inv c n \<longleftrightarrow> finite (dom (lc_heap c)) \<and> (\<forall>e. 0 < n e \<longleftrightarrow> e \<in> dom (lc_heap c)) \<and>
     (\<forall>e h. lc_heap c e = Some h \<longrightarrow> h_refs h = n e) \<and>
     lc_usage c = (\<Sum>e\<in>dom (lc_heap c). h_charge (the (lc_heap c e))) \<and>
     (\<forall>e\<in>dom (lc_heap c). e < lc_fresh c)"

text \<open>
  \<open>held\<close> is the multiset of handles returned to clients and not released. A handle has one
  reference from the cache while it is in the LRU list, and one from each client's handle.
\<close>

definition ref_count :: "'v lru_cache \<Rightarrow> nat multiset \<Rightarrow> nat \<Rightarrow> nat" where
  "ref_count c held e = (if e \<in> set (lc_lru c) then 1 else 0) + count held e"

definition cache_inv :: "'v lru_cache \<Rightarrow> nat multiset \<Rightarrow> bool" where
  "cache_inv c held \<longleftrightarrow> heap_inv c (ref_count c held) \<and> distinct (lc_lru c) \<and>
     table_inv (lc_heap c) (lc_table c) (set (lc_lru c))"

lemma LRUCache_new_inv: "cache_inv (LRUCache_new capacity) {#}"
proof -
  have "table_inv (\<lambda>_. None) HandleTable_new {}"
    by (simp add: table_inv_def HandleTable_new_def numeral_eq_Suc less_Suc_eq)
  then show ?thesis by (simp add: cache_inv_def LRUCache_new_def heap_inv_def ref_count_def)
qed

lemma LRU_Unref_fields [simp]:
  "lc_lru (LRU_Unref e c) = lc_lru c" "lc_table (LRU_Unref e c) = lc_table c"
  "lc_capacity (LRU_Unref e c) = lc_capacity c" "lc_fresh (LRU_Unref e c) = lc_fresh c"
  "x \<noteq> e \<Longrightarrow> lc_heap (LRU_Unref e c) x = lc_heap c x"
  by (simp_all add: LRU_Unref_def Let_def)

lemma heap_inv_set_refs:
  assumes inv: "heap_inv c n" and h: "lc_heap c e = Some h" and k: "0 < k"
  shows "heap_inv (c\<lparr>lc_heap := (lc_heap c)(e := Some (h\<lparr>h_refs := k\<rparr>))\<rparr>) (n(e := k))"
proof -
  let ?hp = "(lc_heap c)(e := Some (h\<lparr>h_refs := k\<rparr>))"
  have d: "dom ?hp = dom (lc_heap c)" using h by auto
  have "(\<Sum>x\<in>dom ?hp. h_charge (the (?hp x))) = (\<Sum>x\<in>dom (lc_heap c). h_charge (the (lc_heap c x)))"
    unfolding d by (rule sum.cong) (use h in auto)
  then show ?thesis using inv k h unfolding heap_inv_def
    by (simp add: d del: fun_upd_apply) (auto simp: dom_def)
qed

lemma LRU_Unref_inv:
  assumes inv: "heap_inv c n" and e: "0 < n e"
  shows "heap_inv (LRU_Unref e c) (n(e := n e - 1))"
proof -
  obtain h where h: "lc_heap c e = Some h" "h_refs h = n e" using assms by (auto simp: heap_inv_def dom_def)
  have fin: "finite (dom (lc_heap c))" and ed: "e \<in> dom (lc_heap c)" using inv h by (auto simp: heap_inv_def)
  show ?thesis
  proof (cases "n e = 1")
    case True
    have u: "LRU_Unref e c = c\<lparr>lc_usage := lc_usage c - h_charge h, lc_deleted := lc_deleted c @ [(h_key h, h_value h)],
        lc_heap := (lc_heap c)(e := None)\<rparr>" using h True by (simp add: LRU_Unref_def Let_def)
    have "(\<Sum>x\<in>dom (lc_heap c). h_charge (the (lc_heap c x))) =
        h_charge h + (\<Sum>x\<in>dom (lc_heap c) - {e}. h_charge (the (lc_heap c x)))"
      by (simp only: sum.remove [OF fin ed] h option.sel)
    moreover have "(\<Sum>x\<in>dom (lc_heap c) - {e}. h_charge (the (((lc_heap c)(e := None)) x))) =
        (\<Sum>x\<in>dom (lc_heap c) - {e}. h_charge (the (lc_heap c x)))"
      by (rule sum.cong) auto
    ultimately show ?thesis using inv True unfolding heap_inv_def u
      by (simp del: fun_upd_apply) (auto simp: dom_def)
  next
    case False
    have "LRU_Unref e c = c\<lparr>lc_heap := (lc_heap c)(e := Some (h\<lparr>h_refs := n e - 1\<rparr>))\<rparr>"
      using h False e by (simp add: LRU_Unref_def Let_def)
    then show ?thesis using heap_inv_set_refs [OF inv h(1), of "n e - 1"] e False by simp
  qed
qed

lemma heap_inv_cong:
  "heap_inv c n \<Longrightarrow> lc_heap c' = lc_heap c \<Longrightarrow> lc_usage c' = lc_usage c \<Longrightarrow> lc_fresh c' = lc_fresh c \<Longrightarrow>
   (\<And>e. n' e = n e) \<Longrightarrow> heap_inv c' n'"
  by (simp add: heap_inv_def)

text \<open>Dropping a handle from the list and from the table, and the cache's reference with it.\<close>

lemma drop_handle_inv:
  assumes inv: "cache_inv c held" and e: "e \<in> set (lc_lru c)"
    and t: "table_inv (lc_heap c) table (set (lc_lru c) - {e})"
  shows "cache_inv (LRU_Unref e (LRU_Remove e (c\<lparr>lc_table := table\<rparr>))) held"
proof -
  let ?c1 = "LRU_Remove e (c\<lparr>lc_table := table\<rparr>)"
  have I: "heap_inv c (ref_count c held)" "distinct (lc_lru c)" using inv by (simp_all add: cache_inv_def)
  have "heap_inv ?c1 (ref_count c held)" using heap_inv_cong [OF I(1)] by (simp add: LRU_Remove_def)
  then have "heap_inv (LRU_Unref e ?c1) ((ref_count c held)(e := ref_count c held e - 1))"
    by (rule LRU_Unref_inv) (simp add: ref_count_def e)
  moreover have "(ref_count c held)(e := ref_count c held e - 1) = ref_count (LRU_Unref e ?c1) held"
    using e I(2) by (auto simp: ref_count_def LRU_Remove_def fun_eq_iff)
  moreover have "table_inv (lc_heap (LRU_Unref e ?c1)) table (set (lc_lru c) - {e})"
    by (rule table_inv_cong [OF t]) (simp add: LRU_Remove_def)
  ultimately show ?thesis using I(2) by (simp add: cache_inv_def LRU_Remove_def)
qed

lemma table_lru_swap: "c\<lparr>lc_table := t, lc_lru := x\<rparr> = c\<lparr>lc_lru := x, lc_table := t\<rparr>"
  by (cases c) simp

lemma LRU_evict_inv:
  assumes inv: "cache_inv c held" and e: "e \<in> set (lc_lru c)"
  shows "cache_inv (LRU_evict e c) held" "lc_lru (LRU_evict e c) = remove1 e (lc_lru c)"
    "lc_capacity (LRU_evict e c) = lc_capacity c"
proof -
  let ?h = "the (lc_heap c e)"
  have ti: "table_inv (lc_heap c) (lc_table c) (set (lc_lru c))" using inv by (simp add: cache_inv_def)
  obtain r t' where rm: "HandleTable_Remove (lc_heap c) (h_key ?h) (h_hash ?h) (lc_table c) = (r, t')" by (metis surj_pair)
  have "r = Some e" using HandleTable_Remove_inv(1) [OF ti rm] HandleTable_Lookup_spec [OF ti] e by metis
  then have "table_inv (lc_heap c) t' (set (lc_lru c) - {e})" using HandleTable_Remove_inv(2) [OF ti rm] by simp
  from drop_handle_inv [OF inv e this] show "cache_inv (LRU_evict e c) held"
    by (simp add: LRU_evict_def Let_def LRU_Remove_def rm table_lru_swap)
  show "lc_lru (LRU_evict e c) = remove1 e (lc_lru c)" "lc_capacity (LRU_evict e c) = lc_capacity c"
    by (simp_all add: LRU_evict_def Let_def LRU_Remove_def)
qed

lemma LRU_evict_loop_inv:
  "cache_inv c held \<Longrightarrow> cache_inv (LRU_evict_loop c) held \<and>
     (\<exists>k. lc_lru (LRU_evict_loop c) = drop k (lc_lru c)) \<and> lc_capacity (LRU_evict_loop c) = lc_capacity c \<and>
     (lc_usage (LRU_evict_loop c) \<le> lc_capacity c \<or> lc_lru (LRU_evict_loop c) = [])"
proof (induction c rule: LRU_evict_loop.induct)
  case (1 c)
  show ?case
  proof (cases "lc_usage c > lc_capacity c \<and> lc_lru c \<noteq> []")
    case True
    then have hd: "hd (lc_lru c) \<in> set (lc_lru c)" by simp
    note E = LRU_evict_inv [OF 1(2) hd]
    have "remove1 (hd (lc_lru c)) (lc_lru c) = drop 1 (lc_lru c)" using True by (cases "lc_lru c") auto
    then have "drop k (lc_lru (LRU_evict (hd (lc_lru c)) c)) = drop (k + 1) (lc_lru c)" for k using E(2) by simp
    then show ?thesis using 1(1) [OF True E(1)] E(3) True
      by (subst (1 2 3 4 5) LRU_evict_loop.simps) (simp, metis)
  next
    case False
    then have "LRU_evict_loop c = c" by (subst LRU_evict_loop.simps) (rule if_not_P)
    then show ?thesis using 1(2) False by (auto intro: exI [of _ 0])
  qed
qed

text \<open>The keys and values of the allocated handles; they never change while a handle lives.\<close>

definition heap_kv :: "'v lru_cache \<Rightarrow> nat \<Rightarrow> (bytes \<times> 'v) option" where
  "heap_kv c e = map_option (\<lambda>h. (h_key h, h_value h)) (lc_heap c e)"

lemma heap_kv_dom [simp]: "dom (heap_kv c) = dom (lc_heap c)"
  by (auto simp: heap_kv_def dom_def)

lemma heap_kv_the: "lc_heap c e \<noteq> None \<Longrightarrow> heap_kv c e = Some (h_key (the (lc_heap c e)), h_value (the (lc_heap c e)))"
  by (auto simp: heap_kv_def)

lemma heap_kv_heap: "lc_heap c' = lc_heap c \<Longrightarrow> heap_kv c' = heap_kv c"
  by (simp add: heap_kv_def fun_eq_iff)

lemma heap_kv_Unref: "lc_heap c e \<noteq> None \<Longrightarrow> heap_kv (LRU_Unref e c) \<subseteq>\<^sub>m heap_kv c"
  by (auto simp: LRU_Unref_def Let_def heap_kv_def map_le_def)

lemma cache_inv_alive: "cache_inv c held \<Longrightarrow> e \<in> set (lc_lru c) \<or> e \<in># held \<Longrightarrow> lc_heap c e \<noteq> None"
proof -
  assume "cache_inv c held" and e: "e \<in> set (lc_lru c) \<or> e \<in># held"
  then have "e \<in> dom (lc_heap c) \<longleftrightarrow> 0 < ref_count c held e" by (auto simp: cache_inv_def heap_inv_def)
  then show ?thesis using e by (auto simp: ref_count_def)
qed

lemma LRU_evict_kv:
  assumes "cache_inv c held" "e \<in> set (lc_lru c)"
  shows "heap_kv (LRU_evict e c) \<subseteq>\<^sub>m heap_kv c"
  using heap_kv_Unref [of "LRU_Remove e c\<lparr>lc_table := t\<rparr>" e for t] cache_inv_alive [OF assms(1), of e] assms(2)
  by (simp add: LRU_evict_def Let_def LRU_Remove_def heap_kv_heap [of "c\<lparr>lc_lru := l, lc_table := t\<rparr>" c for l t])

lemma LRU_evict_loop_kv: "cache_inv c held \<Longrightarrow> heap_kv (LRU_evict_loop c) \<subseteq>\<^sub>m heap_kv c"
proof (induction c rule: LRU_evict_loop.induct)
  case (1 c)
  show ?case
  proof (cases "lc_usage c > lc_capacity c \<and> lc_lru c \<noteq> []")
    case True
    then have hd: "hd (lc_lru c) \<in> set (lc_lru c)" by simp
    show ?thesis
      using map_le_trans [OF 1(1) [OF True LRU_evict_inv(1) [OF 1(2) hd]] LRU_evict_kv [OF 1(2) hd]] True
      by (subst LRU_evict_loop.simps) simp
  next
    case False
    then show ?thesis by (subst LRU_evict_loop.simps) (simp add: if_not_P)
  qed
qed

section \<open>The operations keep it\<close>

lemma remove1_filter: "distinct xs \<Longrightarrow> filter (\<lambda>x. x \<noteq> e) xs = remove1 e xs"
  by (induction xs) (auto simp: filter_id_conv)

lemma LRUCache_Lookup_hit:
  assumes inv: "cache_inv c held" and "LRUCache_Lookup key hash c = (Some e, c')"
  shows "cache_inv c' (add_mset e held)" "lc_lru c' = remove1 e (lc_lru c) @ [e]" "e \<in> set (lc_lru c)"
    "h_key (the (lc_heap c e)) = key" "h_hash (the (lc_heap c e)) = hash"
    "h_value (the (lc_heap c' e)) = h_value (the (lc_heap c e))"
proof -
  have ti: "table_inv (lc_heap c) (lc_table c) (set (lc_lru c))" and hi: "heap_inv c (ref_count c held)"
    and d: "distinct (lc_lru c)" using inv by (auto simp: cache_inv_def)
  have lk: "HandleTable_Lookup (lc_heap c) key hash (lc_table c) = Some e"
    using assms(2) by (auto simp: LRUCache_Lookup_def Let_def split: option.splits)
  then have e: "e \<in> set (lc_lru c)" "h_key (the (lc_heap c e)) = key" "h_hash (the (lc_heap c e)) = hash"
    using HandleTable_Lookup_spec [OF ti] by auto
  then show "e \<in> set (lc_lru c)" "h_key (the (lc_heap c e)) = key" "h_hash (the (lc_heap c e)) = hash" by auto
  define h where "h = the (lc_heap c e)"
  have "0 < ref_count c held e" using e(1) by (simp add: ref_count_def)
  then have h: "lc_heap c e = Some h" "h_refs h = ref_count c held e"
    using hi by (auto simp: heap_inv_def h_def)
  have c': "c' = c\<lparr>lc_heap := (lc_heap c)(e := Some (h\<lparr>h_refs := h_refs h + 1\<rparr>)),
      lc_lru := remove1 e (lc_lru c) @ [e]\<rparr>"
    using assms(2) lk by (simp add: LRUCache_Lookup_def Let_def LRU_Append_def LRU_Remove_def h_def)
  show lru: "lc_lru c' = remove1 e (lc_lru c) @ [e]" by (simp add: c')
  show "h_value (the (lc_heap c' e)) = h_value (the (lc_heap c e))" by (simp add: c' h_def)
  have set_lru: "set (lc_lru c') = set (lc_lru c)" "distinct (lc_lru c')"
    using e(1) d by (auto simp: lru)
  have "table_inv (lc_heap c') (lc_table c') (set (lc_lru c'))"
  proof -
    have "lc_table c' = lc_table c" by (simp add: c')
    moreover have "table_inv (lc_heap c') (lc_table c) (set (lc_lru c))"
      by (rule table_inv_cong [OF ti]) (simp add: c' h_def)
    ultimately show ?thesis unfolding set_lru by simp
  qed
  moreover have "heap_inv c' (ref_count c' (add_mset e held))"
  proof -
    have "heap_inv c' ((ref_count c held)(e := h_refs h + 1))"
      by (rule heap_inv_cong [OF heap_inv_set_refs [OF hi h(1), of "h_refs h + 1"]]) (simp_all add: c')
    moreover have "(ref_count c held)(e := h_refs h + 1) = ref_count c' (add_mset e held)"
      using set_lru(1) h(2) by (simp add: ref_count_def fun_eq_iff)
    ultimately show ?thesis by simp
  qed
  ultimately show "cache_inv c' (add_mset e held)" using set_lru(2) by (simp add: cache_inv_def)
qed

lemma LRUCache_Lookup_miss:
  assumes "cache_inv c held" "LRUCache_Lookup key hash c = (None, c')"
  shows "c' = c" "\<forall>e\<in>set (lc_lru c). \<not> (h_key (the (lc_heap c e)) = key \<and> h_hash (the (lc_heap c e)) = hash)"
proof -
  have ti: "table_inv (lc_heap c) (lc_table c) (set (lc_lru c))" using assms(1) by (simp add: cache_inv_def)
  have n: "HandleTable_Lookup (lc_heap c) key hash (lc_table c) = None" "c' = c"
    using assms(2) by (auto simp: LRUCache_Lookup_def Let_def split: option.splits)
  show "\<forall>e\<in>set (lc_lru c). \<not> (h_key (the (lc_heap c e)) = key \<and> h_hash (the (lc_heap c e)) = hash)"
    using HandleTable_Lookup_spec [OF ti, of key hash] n(1) by (metis option.distinct(1))
  show "c' = c" by (rule n(2))
qed

lemma LRUCache_Release_inv:
  assumes "cache_inv c held" "e \<in># held"
  shows "cache_inv (LRUCache_Release e c) (held - {#e#})"
proof -
  have I: "heap_inv c (ref_count c held)" "distinct (lc_lru c)" "table_inv (lc_heap c) (lc_table c) (set (lc_lru c))"
    using assms(1) by (auto simp: cache_inv_def)
  have "0 < ref_count c held e" using assms(2) by (simp add: ref_count_def)
  note H = LRU_Unref_inv [OF I(1) this]
  have "(ref_count c held)(e := ref_count c held e - 1) = ref_count (LRU_Unref e c) (held - {#e#})"
    using assms(2) by (auto simp: ref_count_def fun_eq_iff simp flip: count_greater_zero_iff)
  moreover have "table_inv (lc_heap (LRU_Unref e c)) (lc_table c) (set (lc_lru c))"
  proof (rule table_inv_cong [OF I(3)])
    fix x assume x: "x \<in> set (lc_lru c)"
    show "h_key (the (lc_heap (LRU_Unref e c) x)) = h_key (the (lc_heap c x)) \<and>
        h_hash (the (lc_heap (LRU_Unref e c) x)) = h_hash (the (lc_heap c x))"
    proof (cases "x = e")
      case True
      have "2 \<le> ref_count c held e" using assms(2) x True
        by (simp add: ref_count_def Suc_le_eq)
      then have "2 \<le> h_refs (the (lc_heap c e))"
        using I(1) by (auto simp: heap_inv_def dom_def) (metis gr0I not_numeral_le_zero option.sel)
      then show ?thesis using True by (simp add: LRU_Unref_def Let_def)
    qed simp
  qed
  ultimately show ?thesis using H I(2) by (simp add: cache_inv_def LRUCache_Release_def)
qed

lemma LRUCache_Erase_inv:
  assumes inv: "cache_inv c held"
  shows "cache_inv (LRUCache_Erase key hash c) held"
    "lc_lru (LRUCache_Erase key hash c) =
       filter (\<lambda>e. \<not> (h_key (the (lc_heap c e)) = key \<and> h_hash (the (lc_heap c e)) = hash)) (lc_lru c)"
proof -
  have ti: "table_inv (lc_heap c) (lc_table c) (set (lc_lru c))" and d: "distinct (lc_lru c)"
    using inv by (simp_all add: cache_inv_def)
  obtain r t' where rm: "HandleTable_Remove (lc_heap c) key hash (lc_table c) = (r, t')" by (metis surj_pair)
  note R = HandleTable_Remove_inv [OF ti rm]
  have both: "cache_inv (LRUCache_Erase key hash c) held \<and> lc_lru (LRUCache_Erase key hash c) =
       filter (\<lambda>e. \<not> (h_key (the (lc_heap c e)) = key \<and> h_hash (the (lc_heap c e)) = hash)) (lc_lru c)"
  proof (cases r)
    case None
    then have "LRUCache_Erase key hash c = c" using R(2) rm by (simp add: LRUCache_Erase_def)
    moreover have "\<forall>e\<in>set (lc_lru c). \<not> (h_key (the (lc_heap c e)) = key \<and> h_hash (the (lc_heap c e)) = hash)"
      using R(1) None HandleTable_Lookup_spec [OF ti, of key hash] by auto
    ultimately show ?thesis using inv by (simp add: filter_id_conv)
  next
    case (Some e)
    then have e: "e \<in> set (lc_lru c)" "h_key (the (lc_heap c e)) = key" "h_hash (the (lc_heap c e)) = hash"
      using R(1) HandleTable_Lookup_spec [OF ti, of key hash] by auto
    have "LRUCache_Erase key hash c = LRU_Unref e (LRU_Remove e (c\<lparr>lc_table := t'\<rparr>))"
      using rm Some by (simp add: LRUCache_Erase_def)
    moreover have "filter (\<lambda>e. \<not> (h_key (the (lc_heap c e)) = key \<and> h_hash (the (lc_heap c e)) = hash)) (lc_lru c)
        = remove1 e (lc_lru c)"
    proof -
      have "x = e" if "x \<in> set (lc_lru c)" "h_key (the (lc_heap c x)) = key" "h_hash (the (lc_heap c x)) = hash" for x
        using table_invD(6) [OF ti] that e by (auto simp: inj_on_def)
      with e have "filter (\<lambda>e. \<not> (h_key (the (lc_heap c e)) = key \<and> h_hash (the (lc_heap c e)) = hash)) (lc_lru c)
          = filter (\<lambda>x. x \<noteq> e) (lc_lru c)" by (intro filter_cong refl) blast
      from trans [OF this remove1_filter [OF d]] show ?thesis .
    qed
    ultimately show ?thesis
      using drop_handle_inv [OF inv e(1), of t'] R(2) Some by (simp add: LRU_Remove_def)
  qed
  show "cache_inv (LRUCache_Erase key hash c) held" using both by simp
  show "lc_lru (LRUCache_Erase key hash c) =
       filter (\<lambda>e. \<not> (h_key (the (lc_heap c e)) = key \<and> h_hash (the (lc_heap c e)) = hash)) (lc_lru c)"
    using both by simp
qed

text \<open>
  \<open>Insert\<close> replaces the entry of the same key, appends the new one as the newest, and evicts the
  oldest entries until the capacity is respected or nothing is left.
\<close>

lemma LRUCache_Insert_inv:
  assumes inv: "cache_inv c held" and ins: "LRUCache_Insert key hash val charge c = (e, c')"
  shows "cache_inv c' (add_mset e held)"
    and "\<exists>k. lc_lru c' = drop k (filter (\<lambda>e. \<not> (h_key (the (lc_heap c e)) = key \<and> h_hash (the (lc_heap c e)) = hash)) (lc_lru c) @ [e])"
    and "lc_usage c' \<le> lc_capacity c \<or> lc_lru c' = []" "lc_heap c e = None"
    and "heap_kv c' \<subseteq>\<^sub>m (heap_kv c)(e \<mapsto> (key, val))" "heap_kv c' e = Some (key, val)"
proof -
  define h where "h = \<lparr>h_key = key, h_hash = hash, h_value = val, h_charge = charge, h_refs = 2\<rparr>"
  define c1 where "c1 = c\<lparr>lc_heap := (lc_heap c)(lc_fresh c := Some h), lc_fresh := lc_fresh c + 1,
    lc_lru := lc_lru c @ [lc_fresh c], lc_usage := lc_usage c + charge\<rparr>"
  obtain old table where tb: "HandleTable_Insert (lc_heap c1) (lc_fresh c) (lc_table c) = (old, table)" by (metis surj_pair)
  define c2 where "c2 = c1\<lparr>lc_table := table\<rparr>"
  define c3 where "c3 = (case old of None \<Rightarrow> c2 | Some old \<Rightarrow> LRU_Unref old (LRU_Remove old c2))"
  have e: "e = lc_fresh c" and c': "c' = LRU_evict_loop c3"
  proof -
    have tb': "HandleTable_Insert ((lc_heap c)(lc_fresh c := Some h)) (lc_fresh c) (lc_table c) = (old, table)"
      using tb by (simp add: c1_def)
    have "LRUCache_Insert key hash val charge c = (lc_fresh c, LRU_evict_loop c3)"
      unfolding LRUCache_Insert_def Let_def LRU_Append_def h_def [symmetric]
      by (cases old) (simp_all add: tb' c3_def c2_def c1_def)
    then show "e = lc_fresh c" "c' = LRU_evict_loop c3"
      using ins by simp_all
  qed
  have I: "heap_inv c (ref_count c held)" "distinct (lc_lru c)" "table_inv (lc_heap c) (lc_table c) (set (lc_lru c))"
    using inv by (auto simp: cache_inv_def)
  have fresh: "lc_heap c e = None" using I(1) by (auto simp: heap_inv_def e dom_def)
  then show "lc_heap c e = None" .
  then have "ref_count c held e = 0" using I(1) by (auto simp: heap_inv_def dom_def) (metis gr0I option.distinct(1))
  then have en: "e \<notin> set (lc_lru c)" "count held e = 0" by (auto simp: ref_count_def split: if_splits)
  have hi1: "heap_inv c1 (ref_count c1 (add_mset e held))"
  proof -
    have dm: "dom (lc_heap c1) = insert e (dom (lc_heap c))" by (auto simp: c1_def e)
    have "(\<Sum>x\<in>dom (lc_heap c). h_charge (the (lc_heap c1 x))) = (\<Sum>x\<in>dom (lc_heap c). h_charge (the (lc_heap c x)))"
      by (rule sum.cong) (use fresh in \<open>auto simp: c1_def e\<close>)
    then have "(\<Sum>x\<in>dom (lc_heap c1). h_charge (the (lc_heap c1 x))) = charge + (\<Sum>x\<in>dom (lc_heap c). h_charge (the (lc_heap c x)))"
      unfolding dm using I(1) fresh by (subst sum.insert) (auto simp: heap_inv_def c1_def e h_def dom_def)
    moreover have "ref_count c1 (add_mset e held) x = (if x = e then 2 else ref_count c held x)" for x
      using en by (auto simp: ref_count_def c1_def e)
    ultimately show ?thesis using I(1) fresh unfolding heap_inv_def dm
      by (auto simp: c1_def e h_def dom_def less_SucI)
  qed
  have ti1: "table_inv (lc_heap c1) (lc_table c) (set (lc_lru c))"
    by (rule table_inv_cong [OF I(3)]) (use en in \<open>auto simp: c1_def e\<close>)
  have hk: "h_key (the (lc_heap c1 e)) = key" "h_hash (the (lc_heap c1 e)) = hash" by (simp_all add: c1_def e h_def)
  note T = HandleTable_Insert_inv [OF ti1 en(1) tb [folded e], unfolded hk]
  note L = HandleTable_Lookup_spec [OF ti1, of key hash]
  let ?keep = "\<lambda>x. \<not> (h_key (the (lc_heap c x)) = key \<and> h_hash (the (lc_heap c x)) = hash)"
  have same: "lc_heap c1 x = lc_heap c x" if "x \<in> set (lc_lru c)" for x using that en(1) by (auto simp: c1_def e)
  have c3: "cache_inv c3 (add_mset e held) \<and> lc_lru c3 = filter ?keep (lc_lru c) @ [e] \<and> lc_capacity c3 = lc_capacity c"
  proof (cases old)
    case None
    have hi2: "heap_inv c2 (ref_count c2 (add_mset e held))"
      by (rule heap_inv_cong [OF hi1]) (simp_all add: c2_def ref_count_def)
    have "table_inv (lc_heap c2) (lc_table c2) (set (lc_lru c2))"
      using T(1) None by (simp add: c2_def c1_def e)
    moreover have "\<forall>x\<in>set (lc_lru c). ?keep x" using L T(2) None same by auto
    ultimately show ?thesis using hi2 None I(2) en by (simp add: c3_def cache_inv_def c2_def c1_def e filter_id_conv)
  next
    case (Some o')
    then have o: "o' \<in> set (lc_lru c)" "h_key (the (lc_heap c o')) = key" "h_hash (the (lc_heap c o')) = hash"
      using L T(2) same by auto
    have oe: "o' \<noteq> e" using o(1) en(1) by auto
    have tt: "table_inv (lc_heap c1) table (insert e (set (lc_lru c) - {o'}))" using T(1) Some by simp
    have hi2: "heap_inv (LRU_Remove o' c2) (ref_count c1 (add_mset e held))"
      by (rule heap_inv_cong [OF hi1]) (simp_all add: c2_def LRU_Remove_def)
    have "0 < ref_count c1 (add_mset e held) o'" using o(1) by (simp add: ref_count_def c1_def)
    note U = LRU_Unref_inv [OF hi2 this]
    have lru3: "lc_lru c3 = remove1 o' (lc_lru c) @ [e]"
      using o(1) Some by (simp add: c3_def LRU_Remove_def c2_def c1_def e remove1_append)
    have rc: "(ref_count c1 (add_mset e held))(o' := ref_count c1 (add_mset e held) o' - 1) = ref_count c3 (add_mset e held)"
      using o(1) I(2) oe by (auto simp: ref_count_def lru3 fun_eq_iff) (auto simp: c1_def e)
    have "heap_inv c3 (ref_count c3 (add_mset e held))" using U Some unfolding rc by (simp add: c3_def)
    moreover have "table_inv (lc_heap c3) (lc_table c3) (set (lc_lru c3))"
    proof -
      have "set (lc_lru c3) = insert e (set (lc_lru c) - {o'})" using lru3 I(2) by auto
      moreover have "table_inv (lc_heap c3) table (insert e (set (lc_lru c) - {o'}))"
        by (rule table_inv_cong [OF tt]) (use oe Some in \<open>auto simp: c3_def LRU_Remove_def c2_def\<close>)
      ultimately show ?thesis using Some by (simp add: c3_def LRU_Remove_def c2_def)
    qed
    moreover have "distinct (lc_lru c3)" using lru3 I(2) en(1) by auto
    moreover have "filter ?keep (lc_lru c) = remove1 o' (lc_lru c)"
    proof -
      have "x = o'" if "x \<in> set (lc_lru c)" "\<not> ?keep x" for x
        using table_invD(6) [OF I(3)] that o by (auto simp: inj_on_def)
      with o have "filter ?keep (lc_lru c) = filter (\<lambda>x. x \<noteq> o') (lc_lru c)"
        by (intro filter_cong refl) blast
      from trans [OF this remove1_filter [OF I(2)]] show ?thesis .
    qed
    ultimately show ?thesis using lru3 Some by (simp add: cache_inv_def c3_def LRU_Remove_def c2_def c1_def)
  qed
  note E = LRU_evict_loop_inv [OF conjunct1 [OF c3]]
  show "cache_inv c' (add_mset e held)" using E c' by simp
  show "\<exists>k. lc_lru c' = drop k (filter ?keep (lc_lru c) @ [e])" using E c3 c' by auto
  show "lc_usage c' \<le> lc_capacity c \<or> lc_lru c' = []" using E c3 c' by auto
  have kv1: "heap_kv c1 = (heap_kv c)(e \<mapsto> (key, val))" by (simp add: heap_kv_def c1_def e h_def fun_eq_iff)
  have "heap_kv c3 \<subseteq>\<^sub>m heap_kv c1"
  proof (cases old)
    case (Some o')
    then have "lc_heap c1 o' \<noteq> None"
      using L T(2) same cache_inv_alive [OF inv, of o'] by auto
    then show ?thesis using Some heap_kv_Unref [of "LRU_Remove o' c2" o'] heap_kv_heap [of "LRU_Remove o' c2" c1]
      by (simp add: c3_def LRU_Remove_def c2_def)
  qed (simp add: c3_def c2_def heap_kv_def map_le_def)
  then show kv: "heap_kv c' \<subseteq>\<^sub>m (heap_kv c)(e \<mapsto> (key, val))"
    using map_le_trans [OF LRU_evict_loop_kv [OF conjunct1 [OF c3]]] c' kv1 by simp
  have "e \<in> dom (heap_kv c')" using cache_inv_alive [of c' "add_mset e held" e] E c' by auto
  then show "heap_kv c' e = Some (key, val)" using kv by (auto simp: map_le_def)
qed

text \<open>\<open>Prune\<close> drops exactly the entries no client holds.\<close>

definition prune_step :: "nat \<Rightarrow> 'v lru_cache \<Rightarrow> 'v lru_cache" where
  "prune_step e c =
     (if h_refs (the (lc_heap c e)) = 1 then
        let h = the (lc_heap c e);
            c = c\<lparr>lc_table := snd (HandleTable_Remove (lc_heap c) (h_key h) (h_hash h) (lc_table c))\<rparr>
        in LRU_Unref e (LRU_Remove e c)
      else c)"

lemma prune_step_inv:
  assumes inv: "cache_inv c held" and e: "e \<in> set (lc_lru c)"
  shows "cache_inv (prune_step e c) held"
    "lc_lru (prune_step e c) = (if e \<in># held then lc_lru c else remove1 e (lc_lru c))"
proof -
  let ?h = "the (lc_heap c e)"
  have ti: "table_inv (lc_heap c) (lc_table c) (set (lc_lru c))" and hi: "heap_inv c (ref_count c held)"
    using inv by (simp_all add: cache_inv_def)
  have "0 < ref_count c held e" using e by (simp add: ref_count_def)
  then have "h_refs ?h = ref_count c held e" using hi by (auto simp: heap_inv_def)
  then have r1: "h_refs ?h = 1 \<longleftrightarrow> e \<notin># held" using e by (simp add: ref_count_def count_eq_zero_iff)
  obtain r t' where rm: "HandleTable_Remove (lc_heap c) (h_key ?h) (h_hash ?h) (lc_table c) = (r, t')" by (metis surj_pair)
  have "r = Some e" using HandleTable_Remove_inv(1) [OF ti rm] HandleTable_Lookup_spec [OF ti] e by metis
  then have "table_inv (lc_heap c) t' (set (lc_lru c) - {e})" using HandleTable_Remove_inv(2) [OF ti rm] by simp
  from drop_handle_inv [OF inv e this] show "cache_inv (prune_step e c) held"
    using inv by (simp add: prune_step_def Let_def rm)
  show "lc_lru (prune_step e c) = (if e \<in># held then lc_lru c else remove1 e (lc_lru c))"
    using r1 by (simp add: prune_step_def Let_def LRU_Remove_def)
qed

lemma LRUCache_Prune_inv:
  assumes inv: "cache_inv c held"
  shows "cache_inv (LRUCache_Prune c) held" "lc_lru (LRUCache_Prune c) = filter (\<lambda>e. e \<in># held) (lc_lru c)"
proof -
  have "cache_inv c held \<Longrightarrow> lc_lru c = filter (\<lambda>e. e \<in># held) done @ todo \<Longrightarrow>
    cache_inv (fold prune_step todo c) held \<and>
    lc_lru (fold prune_step todo c) = filter (\<lambda>e. e \<in># held) (done @ todo)" for "done" todo c
  proof (induction todo arbitrary: c "done")
    case (Cons e todo)
    have e: "e \<in> set (lc_lru c)" and d: "distinct (lc_lru c)" using Cons.prems by (simp_all add: cache_inv_def)
    note P = prune_step_inv [OF Cons.prems(1) e]
    have "lc_lru (prune_step e c) = filter (\<lambda>e. e \<in># held) (done @ [e]) @ todo"
    proof (cases "e \<in># held")
      case False
      have "e \<notin> set (filter (\<lambda>e. e \<in># held) done)" using False by simp
      then show ?thesis using P(2) False Cons.prems(2) by (simp add: remove1_append)
    qed (use P(2) Cons.prems(2) in simp)
    from Cons.IH [OF P(1) this] show ?case by simp
  qed simp
  from this [OF inv, of "[]" "lc_lru c"] show
    "cache_inv (LRUCache_Prune c) held" "lc_lru (LRUCache_Prune c) = filter (\<lambda>e. e \<in># held) (lc_lru c)"
    by (simp_all add: LRUCache_Prune_def prune_step_def [abs_def])
qed

section \<open>Clients of a shard\<close>

text \<open>
  The calls a client can make, with the handles it holds: it releases only handles it was given.
\<close>

inductive cache_step :: "'v lru_cache \<times> nat multiset \<Rightarrow> 'v lru_cache \<times> nat multiset \<Rightarrow> bool" where
  insert: "LRUCache_Insert key hash val charge c = (e, c') \<Longrightarrow> cache_step (c, held) (c', add_mset e held)"
| lookup_hit: "LRUCache_Lookup key hash c = (Some e, c') \<Longrightarrow> cache_step (c, held) (c', add_mset e held)"
| lookup_miss: "LRUCache_Lookup key hash c = (None, c') \<Longrightarrow> cache_step (c, held) (c', held)"
| release: "e \<in># held \<Longrightarrow> cache_step (c, held) (LRUCache_Release e c, held - {#e#})"
| erase: "cache_step (c, held) (LRUCache_Erase key hash c, held)"
| prune: "cache_step (c, held) (LRUCache_Prune c, held)"

inductive_cases cache_stepE: "cache_step (c, held) (c', held')"

lemma cache_step_inv: "cache_step (c, held) (c', held') \<Longrightarrow> cache_inv c held \<Longrightarrow> cache_inv c' held'"
  by (erule cache_stepE)
    (auto dest: LRUCache_Insert_inv(1) LRUCache_Lookup_hit(1) LRUCache_Lookup_miss(1)
      intro: LRUCache_Release_inv LRUCache_Erase_inv LRUCache_Prune_inv)

definition cache_reachable :: "nat \<Rightarrow> 'v lru_cache \<Rightarrow> nat multiset \<Rightarrow> bool" where
  "cache_reachable capacity c held \<longleftrightarrow> cache_step\<^sup>*\<^sup>* (LRUCache_new capacity, {#}) (c, held)"

lemma cache_reachable_inv:
  assumes "cache_reachable capacity c held"
  shows "cache_inv c held"
proof -
  have "cache_step\<^sup>*\<^sup>* s s' \<Longrightarrow> cache_inv (fst s) (snd s) \<Longrightarrow> cache_inv (fst s') (snd s')"
    for s s' :: "'a lru_cache \<times> nat multiset"
    by (induction rule: rtranclp_induct) (use cache_step_inv in \<open>force+\<close>)
  note run = this [of "(LRUCache_new capacity, {#})" "(c, held)"]
  have "cache_inv (LRUCache_new capacity :: 'a lru_cache) {#}" by (rule LRUCache_new_inv)
  then show ?thesis using run assms by (simp add: cache_reachable_def)
qed

text \<open>An entry a client holds is never freed, and everything not held is only what the cache lists.\<close>

lemma cache_held_alive:
  assumes "cache_reachable capacity c held"
  shows "e \<in># held \<Longrightarrow> lc_heap c e \<noteq> None"
    and "lc_heap c e \<noteq> None \<Longrightarrow> e \<in> set (lc_lru c) \<or> e \<in># held"
    and "lc_usage c = (\<Sum>e\<in>dom (lc_heap c). h_charge (the (lc_heap c e)))"
proof -
  have h: "heap_inv c (ref_count c held)" using cache_reachable_inv [OF assms] by (simp add: cache_inv_def)
  show "lc_heap c e \<noteq> None" if "e \<in># held"
  proof -
    have "0 < ref_count c held e" using that by (simp add: ref_count_def)
    then show ?thesis using h by (auto simp: heap_inv_def)
  qed
  show "e \<in> set (lc_lru c) \<or> e \<in># held" if "lc_heap c e \<noteq> None"
  proof -
    have "0 < ref_count c held e" using h that by (auto simp: heap_inv_def)
    then show ?thesis by (auto simp: ref_count_def count_greater_zero_iff split: if_splits)
  qed
  show "lc_usage c = (\<Sum>e\<in>dom (lc_heap c). h_charge (the (lc_heap c e)))" using h by (simp add: heap_inv_def)
qed

end
