(* ===== verification/DbOptions.thy ===== *)
theory DbOptions
  imports ComparatorSpec TableFormat HashBloom
begin

text \<open>
  The options of \<open>include/leveldb/options.h\<close> and \<open>util/options.cpp\<close>. The environment and the
  info log are effects and have no field; the block cache is state of its own and is passed to the
  operations that use it. A \<open>NULL\<close> filter policy is \<open>None\<close>.
\<close>

record options =
  opt_comparator :: comparator
  opt_create_if_missing :: bool
  opt_error_if_exists :: bool
  opt_paranoid_checks :: bool
  opt_write_buffer_size :: nat
  opt_max_open_files :: int
  opt_block_size :: nat
  opt_block_restart_interval :: nat
  opt_compression :: byte
  opt_reuse_logs :: bool
  opt_filter_policy :: "filter_policy option"
  opt_read_only :: bool
  opt_write_only :: bool

definition Options_default :: options where
  "Options_default =
     \<lparr>opt_comparator = BytewiseComparator, opt_create_if_missing = False,
      opt_error_if_exists = False, opt_paranoid_checks = False,
      opt_write_buffer_size = push_bit 20 4, opt_max_open_files = 1000, opt_block_size = 4096,
      opt_block_restart_interval = 16, opt_compression = kSnappyCompression,
      opt_reuse_logs = False, opt_filter_policy = None,
      opt_read_only = False, opt_write_only = False\<rparr>"

text \<open>\<open>ReadOptions\<close>; the snapshot is \<open>None\<close> or the sequence number it was taken at.\<close>

record read_options =
  ro_verify_checksums :: bool
  ro_fill_cache :: bool
  ro_snapshot :: "u64 option"

definition ReadOptions_default :: read_options where
  "ReadOptions_default = \<lparr>ro_verify_checksums = False, ro_fill_cache = True, ro_snapshot = None\<rparr>"

end
