(* ===== verification/TableBuilder.thy ===== *)
theory TableBuilder
  imports BlockProofs DbOptions FilterBlock
begin

text \<open>
  \<open>table/table_builder.cpp\<close>: the writer of sorted tables. Data blocks are flushed when they reach
  the block size; the index entry of a block waits in \<open>pending_handle\<close> for the first key of the
  next block, so that a short separator can be used. The filter block builder keeps the policy it
  was made with, whatever \<open>ChangeOptions\<close> does to the options later.
\<close>

record table_builder =
  tb_options :: options
  tb_file :: writable_file
  tb_offset :: u64
  tb_status :: status
  tb_data_block :: block_builder
  tb_index_block :: block_builder
  tb_last_key :: bytes
  tb_num_entries :: nat
  tb_closed :: bool
  tb_filter_block :: "(filter_policy \<times> filter_block_builder) option"
  tb_pending_index_entry :: bool
  tb_pending_handle :: block_handle

definition BlockHandle_new :: block_handle where
  "BlockHandle_new = \<lparr>bh_offset = NOT 0, bh_size = NOT 0\<rparr>"

definition TableBuilder_new :: "options \<Rightarrow> writable_file \<Rightarrow> table_builder" where
  "TableBuilder_new opt f =
     \<lparr>tb_options = opt, tb_file = f, tb_offset = 0, tb_status = OK,
      tb_data_block = BlockBuilder_new (opt_block_restart_interval opt),
      tb_index_block = BlockBuilder_new 1, tb_last_key = [], tb_num_entries = 0, tb_closed = False,
      tb_filter_block = map_option (\<lambda>policy. (policy, StartBlock policy 0 FilterBlockBuilder_new)) (opt_filter_policy opt),
      tb_pending_index_entry = False, tb_pending_handle = BlockHandle_new\<rparr>"

definition TableBuilder_ok :: "table_builder \<Rightarrow> bool" where
  "TableBuilder_ok r = status_ok (tb_status r)"

text \<open>
  \<open>ChangeOptions\<close>. The block builders point to the options they were made with and see the
  change; the comparison of the two comparators is one of addresses, here of names.
\<close>

definition ChangeOptions :: "options \<Rightarrow> table_builder \<Rightarrow> status \<times> table_builder" where
  "ChangeOptions opt r =
     (if cmp_Name (opt_comparator opt) \<noteq> cmp_Name (opt_comparator (tb_options r))
      then (InvalidArgument ''changing comparator while building table'', r)
      else (OK, r\<lparr>tb_options := opt,
                  tb_data_block := (tb_data_block r)\<lparr>bb_restart_interval := opt_block_restart_interval opt\<rparr>\<rparr>))"

definition WriteRawBlock :: "bytes \<Rightarrow> byte \<Rightarrow> table_builder \<Rightarrow> block_handle \<times> table_builder" where
  "WriteRawBlock block_contents type r =
     (let handle = \<lparr>bh_offset = tb_offset r, bh_size = word_of_nat (length block_contents)\<rparr>;
          (s, f) = wf_Append block_contents (tb_file r);
          r = r\<lparr>tb_file := f, tb_status := s\<rparr>
      in if status_ok s then
           let crc = Extend 0 (crc_Value 0 block_contents) [type];
               trailer = type # EncodeFixed32 (Mask crc);
               (s, f) = wf_Append trailer (tb_file r);
               r = r\<lparr>tb_file := f, tb_status := s\<rparr>
           in (handle,
               if status_ok s
               then r\<lparr>tb_offset := tb_offset r + word_of_nat (length block_contents + kBlockTrailerSize)\<rparr>
               else r)
         else (handle, r))"

definition WriteBlock :: "snappy \<Rightarrow> block_builder \<Rightarrow> table_builder \<Rightarrow> block_handle \<times> block_builder \<times> table_builder" where
  "WriteBlock sn block r =
     (let (raw, block) = BlockBuilder_Finish block;
          (contents, type) =
            (if opt_compression (tb_options r) = kSnappyCompression then
               (case sn_Compress sn raw of
                  Some compressed \<Rightarrow>
                    if length compressed < length raw - length raw div 8
                    then (compressed, kSnappyCompression) else (raw, kNoCompression)
                | None \<Rightarrow> (raw, kNoCompression))
             else (raw, kNoCompression));
          (handle, r) = WriteRawBlock contents type r
      in (handle, BlockBuilder_Reset block, r))"

definition TableBuilder_Flush :: "snappy \<Rightarrow> table_builder \<Rightarrow> table_builder" where
  "TableBuilder_Flush sn r =
     (if \<not> TableBuilder_ok r then r
      else if BlockBuilder_empty (tb_data_block r) then r
      else
        let (handle, block, r) = WriteBlock sn (tb_data_block r) r;
            r = r\<lparr>tb_data_block := block, tb_pending_handle := handle\<rparr>;
            r = (if TableBuilder_ok r then
                   let (s, f) = wf_Flush (tb_file r)
                   in r\<lparr>tb_pending_index_entry := True, tb_file := f, tb_status := s\<rparr>
                 else r)
        in r\<lparr>tb_filter_block :=
               map_option (\<lambda>(policy, b). (policy, StartBlock policy (tb_offset r) b)) (tb_filter_block r)\<rparr>)"

definition TableBuilder_Add :: "snappy \<Rightarrow> bytes \<Rightarrow> bytes \<Rightarrow> table_builder \<Rightarrow> table_builder" where
  "TableBuilder_Add sn key val r =
     (if \<not> TableBuilder_ok r then r
      else
        let r = (if tb_pending_index_entry r then
                   let last_key = FindShortestSeparator (opt_comparator (tb_options r)) (tb_last_key r) key;
                       handle_encoding = BlockHandle_EncodeTo [] (tb_pending_handle r)
                   in r\<lparr>tb_last_key := last_key,
                        tb_index_block := BlockBuilder_Add last_key handle_encoding (tb_index_block r),
                        tb_pending_index_entry := False\<rparr>
                 else r);
            r = r\<lparr>tb_filter_block := map_option (\<lambda>(policy, b). (policy, AddKey key b)) (tb_filter_block r),
                  tb_last_key := key, tb_num_entries := tb_num_entries r + 1,
                  tb_data_block := BlockBuilder_Add key val (tb_data_block r)\<rparr>
        in if BlockBuilder_CurrentSizeEstimate (tb_data_block r) \<ge> opt_block_size (tb_options r)
           then TableBuilder_Flush sn r else r)"

text \<open>\<open>filter.\<close> followed by the name of the policy.\<close>

definition filter_meta_key :: "filter_policy \<Rightarrow> bytes" where
  "filter_meta_key policy = map of_char (''filter.'' @ fp_name policy)"

definition TableBuilder_Finish :: "snappy \<Rightarrow> table_builder \<Rightarrow> status \<times> table_builder" where
  "TableBuilder_Finish sn r =
     (let r = TableBuilder_Flush sn r;
          r = r\<lparr>tb_closed := True\<rparr>;
          (filter_handle, r) =
            (case tb_filter_block r of
               Some (policy, b) \<Rightarrow>
                 if TableBuilder_ok r then WriteRawBlock (FilterBlock_Finish policy b) kNoCompression r
                 else (BlockHandle_new, r)
             | None \<Rightarrow> (BlockHandle_new, r));
          (metaindex_handle, r) =
            (if TableBuilder_ok r then
               let meta = BlockBuilder_new (opt_block_restart_interval (tb_options r));
                   meta = (case opt_filter_policy (tb_options r) of
                             Some policy \<Rightarrow>
                               if tb_filter_block r \<noteq> None
                               then BlockBuilder_Add (filter_meta_key policy) (BlockHandle_EncodeTo [] filter_handle) meta
                               else meta
                           | None \<Rightarrow> meta);
                   (h, meta, r) = WriteBlock sn meta r
               in (h, r)
             else (BlockHandle_new, r));
          (index_handle, r) =
            (if TableBuilder_ok r then
               let r = (if tb_pending_index_entry r then
                          let last_key = FindShortSuccessor (opt_comparator (tb_options r)) (tb_last_key r)
                          in r\<lparr>tb_last_key := last_key,
                               tb_index_block := BlockBuilder_Add last_key
                                 (BlockHandle_EncodeTo [] (tb_pending_handle r)) (tb_index_block r),
                               tb_pending_index_entry := False\<rparr>
                        else r);
                   (h, block, r) = WriteBlock sn (tb_index_block r) r
               in (h, r\<lparr>tb_index_block := block\<rparr>)
             else (BlockHandle_new, r));
          r = (if TableBuilder_ok r then
                 let encoding = Footer_EncodeTo [] \<lparr>ft_metaindex_handle = metaindex_handle, ft_index_handle = index_handle\<rparr>;
                     (s, f) = wf_Append encoding (tb_file r);
                     r = r\<lparr>tb_file := f, tb_status := s\<rparr>
                 in if status_ok s then r\<lparr>tb_offset := tb_offset r + word_of_nat (length encoding)\<rparr> else r
               else r)
      in (tb_status r, r))"

definition TableBuilder_Abandon :: "table_builder \<Rightarrow> table_builder" where
  "TableBuilder_Abandon r = r\<lparr>tb_closed := True\<rparr>"

definition TableBuilder_NumEntries :: "table_builder \<Rightarrow> nat" where
  "TableBuilder_NumEntries r = tb_num_entries r"

definition TableBuilder_FileSize :: "table_builder \<Rightarrow> u64" where
  "TableBuilder_FileSize r = tb_offset r"

end
