(* ===== verification/Table.thy ===== *)
theory Table
  imports TableBuilder Cache
begin

text \<open>
  \<open>table/table.cpp\<close>: opening a table, reading its blocks through the block cache, and point
  lookups.
\<close>

record table =
  tab_options :: options
  tab_file :: random_file
  tab_cache_id :: u64
  tab_filter :: "filter_block_reader option"
  tab_metaindex_handle :: block_handle
  tab_index_block :: block

section \<open>Iterators over a block that may be in error\<close>

definition nbi_Seek :: "comparator \<Rightarrow> bytes \<Rightarrow> new_block_iter \<Rightarrow> new_block_iter" where
  "nbi_Seek cmp target it =
     (case it of BlockIterator b \<Rightarrow> BlockIterator (BlockIter_Seek cmp target b) | _ \<Rightarrow> it)"

definition nbi_status :: "new_block_iter \<Rightarrow> status" where
  "nbi_status it = (case it of ErrorIterator s \<Rightarrow> s | EmptyIterator \<Rightarrow> OK | BlockIterator b \<Rightarrow> bi_status b)"

text \<open>The key and value of a valid iterator.\<close>

definition nbi_entry :: "new_block_iter \<Rightarrow> (bytes \<times> bytes) option" where
  "nbi_entry it =
     (case it of
        BlockIterator b \<Rightarrow> if BlockIter_Valid b then Some (bi_key b, BlockIter_value b) else None
      | _ \<Rightarrow> None)"

section \<open>Opening\<close>

definition ReadFilter :: "snappy \<Rightarrow> bytes \<Rightarrow> table \<Rightarrow> table" where
  "ReadFilter sn v t =
     (case BlockHandle_DecodeFrom v of
        None \<Rightarrow> t
      | Some (filter_handle, _) \<Rightarrow>
          (case ReadBlock sn (tab_file t) (opt_paranoid_checks (tab_options t)) filter_handle of
             (s, Some block) \<Rightarrow>
               if status_ok s then t\<lparr>tab_filter := Some (FilterBlockReader_new (bc_data block))\<rparr> else t
           | _ \<Rightarrow> t))"

definition ReadMeta :: "snappy \<Rightarrow> footer \<Rightarrow> table \<Rightarrow> table" where
  "ReadMeta sn footer t =
     (case opt_filter_policy (tab_options t) of
        None \<Rightarrow> t
      | Some policy \<Rightarrow>
          (case ReadBlock sn (tab_file t) (opt_paranoid_checks (tab_options t)) (ft_metaindex_handle footer) of
             (s, Some contents) \<Rightarrow>
               if \<not> status_ok s then t
               else
                 let meta = Block_new (bc_data contents);
                     key = filter_meta_key policy;
                     iter = nbi_Seek BytewiseComparator key (Block_NewIterator meta)
                 in (case nbi_entry iter of
                       Some (k, v) \<Rightarrow> if k = key then ReadFilter sn v t else t
                     | None \<Rightarrow> t)
           | _ \<Rightarrow> t))"

text \<open>\<open>cache_id\<close> is the block cache's \<open>NewId()\<close>, or 0 without a block cache.\<close>

definition Table_Open ::
  "snappy \<Rightarrow> options \<Rightarrow> random_file \<Rightarrow> u64 \<Rightarrow> u64 \<Rightarrow> status \<times> table option" where
  "Table_Open sn opt file fsize cache_id =
     (if fsize < word_of_nat kFooterEncodedLength
      then (Corruption ''file is too short to be an sstable'', None)
      else
        let (s, footer_input) = rf_Read file (fsize - word_of_nat kFooterEncodedLength) kFooterEncodedLength
        in if \<not> status_ok s then (s, None)
           else
             (case Footer_DecodeFrom footer_input of
                (s, None) \<Rightarrow> (s, None)
              | (s, Some (footer, _)) \<Rightarrow>
                  (case ReadBlock sn file (opt_paranoid_checks opt) (ft_index_handle footer) of
                     (s, None) \<Rightarrow> (s, None)
                   | (s, Some contents) \<Rightarrow>
                       let t = \<lparr>tab_options = opt, tab_file = file, tab_cache_id = cache_id,
                                tab_filter = None, tab_metaindex_handle = ft_metaindex_handle footer,
                                tab_index_block = Block_new (bc_data contents)\<rparr>
                       in (s, Some (ReadMeta sn footer t)))))"

section \<open>Reading blocks\<close>

type_synonym block_cache = "block sharded_cache option"

definition block_cache_key :: "u64 \<Rightarrow> block_handle \<Rightarrow> bytes" where
  "block_cache_key cache_id handle = EncodeFixed64 cache_id @ EncodeFixed64 (bh_offset handle)"

text \<open>
  \<open>BlockReader\<close> returns the iterator, the cache handle its cleanup releases, and the cache.
\<close>

definition BlockReader ::
  "snappy \<Rightarrow> read_options \<Rightarrow> table \<Rightarrow> bytes \<Rightarrow> block_cache \<Rightarrow>
     new_block_iter \<times> cache_handle option \<times> block_cache" where
  "BlockReader sn ropt t index_value cache =
     (case BlockHandle_DecodeFrom index_value of
        None \<Rightarrow> (ErrorIterator (Corruption ''bad block handle''), None, cache)
      | Some (handle, _) \<Rightarrow>
          (case cache of
             None \<Rightarrow>
               (case ReadBlock sn (tab_file t) (ro_verify_checksums ropt) handle of
                  (s, None) \<Rightarrow> (ErrorIterator s, None, None)
                | (s, Some contents) \<Rightarrow> (Block_NewIterator (Block_new (bc_data contents)), None, None))
           | Some c \<Rightarrow>
               let key = block_cache_key (tab_cache_id t) handle;
                   (hit, c) = Cache_Lookup key c
               in (case hit of
                     Some h \<Rightarrow> (Block_NewIterator (Cache_Value h c), Some h, Some c)
                   | None \<Rightarrow>
                       (case ReadBlock sn (tab_file t) (ro_verify_checksums ropt) handle of
                          (s, None) \<Rightarrow> (ErrorIterator s, None, Some c)
                        | (s, Some contents) \<Rightarrow>
                            let block = Block_new (bc_data contents)
                            in if bc_cachable contents \<and> ro_fill_cache ropt
                               then (let (h, c) = Cache_Insert key block (blk_size block) c
                                     in (Block_NewIterator block, Some h, Some c))
                               else (Block_NewIterator block, None, Some c)))))"

definition release_block :: "cache_handle option \<Rightarrow> block_cache \<Rightarrow> block_cache" where
  "release_block h cache =
     (case (h, cache) of (Some h, Some c) \<Rightarrow> Some (Cache_Release h c) | _ \<Rightarrow> cache)"

section \<open>Point lookups\<close>

text \<open>The entry handed to \<open>saver\<close>, if any, with the status and the cache.\<close>

definition Table_InternalGet ::
  "snappy \<Rightarrow> read_options \<Rightarrow> table \<Rightarrow> bytes \<Rightarrow> block_cache \<Rightarrow>
     status \<times> (bytes \<times> bytes) option \<times> block_cache" where
  "Table_InternalGet sn ropt t k cache =
     (let cmp = opt_comparator (tab_options t);
          iiter = nbi_Seek cmp k (Block_NewIterator (tab_index_block t));
          (s, saved, cache) =
            (case nbi_entry iiter of
               None \<Rightarrow> (OK, None, cache)
             | Some (_, handle_value) \<Rightarrow>
                 if (case (tab_filter t, BlockHandle_DecodeFrom handle_value, opt_filter_policy (tab_options t)) of
                       (Some flt, Some (handle, _), Some policy) \<Rightarrow>
                         \<not> FilterBlock_KeyMayMatch policy flt (bh_offset handle) k
                     | _ \<Rightarrow> False)
                 then (OK, None, cache)
                 else
                   let (block_iter, h, cache) = BlockReader sn ropt t handle_value cache;
                       block_iter = nbi_Seek cmp k block_iter
                   in (nbi_status block_iter, nbi_entry block_iter, release_block h cache))
      in (if status_ok s then nbi_status iiter else s, saved, cache))"

definition ApproximateOffsetOf :: "table \<Rightarrow> bytes \<Rightarrow> u64" where
  "ApproximateOffsetOf t key =
     (let index_iter = nbi_Seek (opt_comparator (tab_options t)) key (Block_NewIterator (tab_index_block t))
      in case nbi_entry index_iter of
           Some (_, v) \<Rightarrow>
             (case BlockHandle_DecodeFrom v of
                Some (handle, _) \<Rightarrow> bh_offset handle
              | None \<Rightarrow> bh_offset (tab_metaindex_handle t))
         | None \<Rightarrow> bh_offset (tab_metaindex_handle t))"

end
