(* ===== verification/VersionEdit.thy ===== *)
theory VersionEdit
  imports DbFormat
begin

text \<open>
  \<open>db/version_edit.h\<close> and \<open>db/version_edit.cpp\<close>: the records of the manifest. A version edit is
  written as a sequence of tagged fields. The \<open>std::set\<close> of deleted files is the list of its members
  in increasing order. Levels are small non-negative \<open>int\<close>s and natural numbers here.
\<close>

section \<open>Edits\<close>

record file_meta =
  fm_refs :: nat
  fm_allowed_seeks :: int
  fm_number :: u64
  fm_file_size :: u64
  fm_smallest :: bytes
  fm_largest :: bytes

definition FileMetaData_new :: "u64 \<Rightarrow> u64 \<Rightarrow> bytes \<Rightarrow> bytes \<Rightarrow> file_meta" where
  "FileMetaData_new number sz smallest largest =
     \<lparr>fm_refs = 0, fm_allowed_seeks = push_bit 30 1, fm_number = number, fm_file_size = sz,
      fm_smallest = smallest, fm_largest = largest\<rparr>"

record version_edit =
  ve_comparator :: bytes
  ve_log_number :: u64
  ve_prev_log_number :: u64
  ve_next_file_number :: u64
  ve_last_sequence :: SequenceNumber
  ve_has_comparator :: bool
  ve_has_log_number :: bool
  ve_has_prev_log_number :: bool
  ve_has_next_file_number :: bool
  ve_has_last_sequence :: bool
  ve_compact_pointers :: "(nat \<times> bytes) list"
  ve_deleted_files :: "(nat \<times> u64) list"
  ve_new_files :: "(nat \<times> file_meta) list"

text \<open>\<open>Clear\<close> does not touch the compaction pointers.\<close>

definition VersionEdit_Clear :: "version_edit \<Rightarrow> version_edit" where
  "VersionEdit_Clear e =
     e\<lparr>ve_comparator := [], ve_log_number := 0, ve_prev_log_number := 0, ve_last_sequence := 0,
       ve_next_file_number := 0, ve_has_comparator := False, ve_has_log_number := False,
       ve_has_prev_log_number := False, ve_has_next_file_number := False,
       ve_has_last_sequence := False, ve_deleted_files := [], ve_new_files := []\<rparr>"

definition VersionEdit_new :: version_edit where
  "VersionEdit_new =
     \<lparr>ve_comparator = [], ve_log_number = 0, ve_prev_log_number = 0, ve_next_file_number = 0,
      ve_last_sequence = 0, ve_has_comparator = False, ve_has_log_number = False,
      ve_has_prev_log_number = False, ve_has_next_file_number = False,
      ve_has_last_sequence = False, ve_compact_pointers = [], ve_deleted_files = [],
      ve_new_files = []\<rparr>"

definition SetComparatorName :: "bytes \<Rightarrow> version_edit \<Rightarrow> version_edit" where
  "SetComparatorName name e = e\<lparr>ve_has_comparator := True, ve_comparator := name\<rparr>"

definition SetLogNumber :: "u64 \<Rightarrow> version_edit \<Rightarrow> version_edit" where
  "SetLogNumber num e = e\<lparr>ve_has_log_number := True, ve_log_number := num\<rparr>"

definition SetPrevLogNumber :: "u64 \<Rightarrow> version_edit \<Rightarrow> version_edit" where
  "SetPrevLogNumber num e = e\<lparr>ve_has_prev_log_number := True, ve_prev_log_number := num\<rparr>"

definition SetNextFile :: "u64 \<Rightarrow> version_edit \<Rightarrow> version_edit" where
  "SetNextFile num e = e\<lparr>ve_has_next_file_number := True, ve_next_file_number := num\<rparr>"

definition SetLastSequence :: "SequenceNumber \<Rightarrow> version_edit \<Rightarrow> version_edit" where
  "SetLastSequence seq e = e\<lparr>ve_has_last_sequence := True, ve_last_sequence := seq\<rparr>"

definition SetCompactPointer :: "nat \<Rightarrow> bytes \<Rightarrow> version_edit \<Rightarrow> version_edit" where
  "SetCompactPointer level key e = e\<lparr>ve_compact_pointers := ve_compact_pointers e @ [(level, key)]\<rparr>"

definition AddFile :: "nat \<Rightarrow> u64 \<Rightarrow> u64 \<Rightarrow> bytes \<Rightarrow> bytes \<Rightarrow> version_edit \<Rightarrow> version_edit" where
  "AddFile level number sz smallest largest e =
     e\<lparr>ve_new_files := ve_new_files e @ [(level, FileMetaData_new number sz smallest largest)]\<rparr>"

text \<open>The order of \<open>std::pair<int, uint64_t>\<close>, and insertion into a set ordered by it.\<close>

definition file_less :: "nat \<times> u64 \<Rightarrow> nat \<times> u64 \<Rightarrow> bool" where
  "file_less x y \<longleftrightarrow> fst x < fst y \<or> (fst x = fst y \<and> snd x < snd y)"

fun file_insert :: "nat \<times> u64 \<Rightarrow> (nat \<times> u64) list \<Rightarrow> (nat \<times> u64) list" where
  "file_insert x [] = [x]"
| "file_insert x (y # ys) =
     (if file_less x y then x # y # ys else if file_less y x then y # file_insert x ys else y # ys)"

definition DeleteFile :: "nat \<Rightarrow> u64 \<Rightarrow> version_edit \<Rightarrow> version_edit" where
  "DeleteFile level number e =
     e\<lparr>ve_deleted_files := file_insert (level, number) (ve_deleted_files e)\<rparr>"

section \<open>Encoding\<close>

definition kComparator :: u32 where "kComparator = 1"
definition kLogNumber :: u32 where "kLogNumber = 2"
definition kNextFileNumber :: u32 where "kNextFileNumber = 3"
definition kLastSequence :: u32 where "kLastSequence = 4"
definition kCompactPointer :: u32 where "kCompactPointer = 5"
definition kDeletedFile :: u32 where "kDeletedFile = 6"
definition kNewFile :: u32 where "kNewFile = 7"
definition kPrevLogNumber :: u32 where "kPrevLogNumber = 9"

definition encode_pointer :: "nat \<times> bytes \<Rightarrow> bytes \<Rightarrow> bytes" where
  "encode_pointer p dst =
     PutLengthPrefixedSlice (PutVarint32 (PutVarint32 dst kCompactPointer) (word_of_nat (fst p))) (snd p)"

definition encode_deleted :: "nat \<times> u64 \<Rightarrow> bytes \<Rightarrow> bytes" where
  "encode_deleted p dst =
     PutVarint64 (PutVarint32 (PutVarint32 dst kDeletedFile) (word_of_nat (fst p))) (snd p)"

definition encode_new_file :: "nat \<times> file_meta \<Rightarrow> bytes \<Rightarrow> bytes" where
  "encode_new_file p dst =
     (let f = snd p;
          dst = PutVarint32 dst kNewFile;
          dst = PutVarint32 dst (word_of_nat (fst p));
          dst = PutVarint64 dst (fm_number f);
          dst = PutVarint64 dst (fm_file_size f);
          dst = PutLengthPrefixedSlice dst (fm_smallest f)
      in PutLengthPrefixedSlice dst (fm_largest f))"

definition VersionEdit_EncodeTo :: "bytes \<Rightarrow> version_edit \<Rightarrow> bytes" where
  "VersionEdit_EncodeTo dst e =
     (let dst = (if ve_has_comparator e
                 then PutLengthPrefixedSlice (PutVarint32 dst kComparator) (ve_comparator e) else dst);
          dst = (if ve_has_log_number e
                 then PutVarint64 (PutVarint32 dst kLogNumber) (ve_log_number e) else dst);
          dst = (if ve_has_prev_log_number e
                 then PutVarint64 (PutVarint32 dst kPrevLogNumber) (ve_prev_log_number e) else dst);
          dst = (if ve_has_next_file_number e
                 then PutVarint64 (PutVarint32 dst kNextFileNumber) (ve_next_file_number e) else dst);
          dst = (if ve_has_last_sequence e
                 then PutVarint64 (PutVarint32 dst kLastSequence) (ve_last_sequence e) else dst);
          dst = fold encode_pointer (ve_compact_pointers e) dst;
          dst = fold encode_deleted (ve_deleted_files e) dst
      in fold encode_new_file (ve_new_files e) dst)"

section \<open>Decoding\<close>

definition GetInternalKey :: "bytes \<Rightarrow> (bytes \<times> bytes) option" where
  "GetInternalKey input = GetLengthPrefixedSlice input"

definition GetLevel :: "bytes \<Rightarrow> (nat \<times> bytes) option" where
  "GetLevel input =
     (case GetVarint32 input of
        None \<Rightarrow> None
      | Some (v, input) \<Rightarrow> if v < word_of_nat kNumLevels then Some (unat v, input) else None)"

text \<open>The body of the switch: the message of the failure, or the rest of the input and the edit.\<close>

definition decode_field :: "u32 \<Rightarrow> bytes \<Rightarrow> version_edit \<Rightarrow> string + (bytes \<times> version_edit)" where
  "decode_field tag input e =
     (if tag = kComparator then
        (case GetLengthPrefixedSlice input of
           Some (str, input) \<Rightarrow> Inr (input, SetComparatorName str e)
         | None \<Rightarrow> Inl ''comparator name'')
      else if tag = kLogNumber then
        (case GetVarint64 input of
           Some (n, input) \<Rightarrow> Inr (input, SetLogNumber n e)
         | None \<Rightarrow> Inl ''log number'')
      else if tag = kPrevLogNumber then
        (case GetVarint64 input of
           Some (n, input) \<Rightarrow> Inr (input, SetPrevLogNumber n e)
         | None \<Rightarrow> Inl ''previous log number'')
      else if tag = kNextFileNumber then
        (case GetVarint64 input of
           Some (n, input) \<Rightarrow> Inr (input, SetNextFile n e)
         | None \<Rightarrow> Inl ''next file number'')
      else if tag = kLastSequence then
        (case GetVarint64 input of
           Some (n, input) \<Rightarrow> Inr (input, SetLastSequence n e)
         | None \<Rightarrow> Inl ''last sequence number'')
      else if tag = kCompactPointer then
        (case Option.bind (GetLevel input) (\<lambda>(level, input).
                Option.bind (GetInternalKey input) (\<lambda>(key, input). Some (level, key, input))) of
           Some (level, key, input) \<Rightarrow> Inr (input, SetCompactPointer level key e)
         | None \<Rightarrow> Inl ''compaction pointer'')
      else if tag = kDeletedFile then
        (case Option.bind (GetLevel input) (\<lambda>(level, input).
                Option.bind (GetVarint64 input) (\<lambda>(number, input). Some (level, number, input))) of
           Some (level, number, input) \<Rightarrow> Inr (input, DeleteFile level number e)
         | None \<Rightarrow> Inl ''deleted file'')
      else if tag = kNewFile then
        (case Option.bind (GetLevel input) (\<lambda>(level, input).
                Option.bind (GetVarint64 input) (\<lambda>(number, input).
                Option.bind (GetVarint64 input) (\<lambda>(sz, input).
                Option.bind (GetInternalKey input) (\<lambda>(smallest, input).
                Option.bind (GetInternalKey input) (\<lambda>(largest, input).
                  Some (level, number, sz, smallest, largest, input)))))) of
           Some (level, number, sz, smallest, largest, input) \<Rightarrow>
             Inr (input, AddFile level number sz smallest largest e)
         | None \<Rightarrow> Inl ''new-file entry'')
      else Inl ''unknown tag'')"

lemma GetLevel_shorter: "GetLevel p = Some (v, rest) \<Longrightarrow> length rest < length p"
  by (auto simp: GetLevel_def dest: GetVarint32_shorter split: option.splits if_splits)

lemma decode_field_shorter: "decode_field tag input e = Inr (rest, e') \<Longrightarrow> length rest < length input"
  unfolding decode_field_def
  by (fastforce simp: GetInternalKey_def bind_eq_Some_conv split: if_splits option.splits
      dest: GetLevel_shorter GetVarint64_shorter GetLengthPrefixedSlice_shorter)

function decode_loop :: "bytes \<Rightarrow> version_edit \<Rightarrow> string option \<times> bytes \<times> version_edit" where
  "decode_loop input e =
     (case GetVarint32 input of
        None \<Rightarrow> (None, input, e)
      | Some (tag, input) \<Rightarrow>
          (case decode_field tag input e of
             Inl msg \<Rightarrow> (Some msg, input, e)
           | Inr (input, e) \<Rightarrow> decode_loop input e))"
  by pat_completeness auto
termination decode_loop
  by (relation "measure (length \<circ> fst)") (auto dest!: GetVarint32_shorter decode_field_shorter)

declare decode_loop.simps [simp del]

definition VersionEdit_DecodeFrom :: "bytes \<Rightarrow> version_edit \<Rightarrow> status \<times> version_edit" where
  "VersionEdit_DecodeFrom src e =
     (let (msg, input, e) = decode_loop src (VersionEdit_Clear e);
          msg = (if msg = None \<and> input \<noteq> [] then Some ''invalid tag'' else msg)
      in case msg of
           None \<Rightarrow> (OK, e)
         | Some msg \<Rightarrow> (Corruption (status_msg ''VersionEdit'' msg), e))"

section \<open>Edits read back\<close>

text \<open>
  What the setters keep: fields that were not set are at their defaults, keys fit a length prefix,
  levels are in range, the deleted files are in order and new files are fresh.
\<close>

fun new_file_ok :: "nat \<times> file_meta \<Rightarrow> bool" where
  "new_file_ok (level, f) \<longleftrightarrow>
     level < kNumLevels \<and> length (fm_smallest f) < 2 ^ 32 \<and> length (fm_largest f) < 2 ^ 32 \<and>
     f = FileMetaData_new (fm_number f) (fm_file_size f) (fm_smallest f) (fm_largest f)"

fun pointer_ok :: "nat \<times> bytes \<Rightarrow> bool" where
  "pointer_ok (level, key) \<longleftrightarrow> level < kNumLevels \<and> length key < 2 ^ 32"

definition edit_ok :: "version_edit \<Rightarrow> bool" where
  "edit_ok e \<longleftrightarrow>
     length (ve_comparator e) < 2 ^ 32 \<and>
     (ve_has_comparator e \<or> ve_comparator e = []) \<and> (ve_has_log_number e \<or> ve_log_number e = 0) \<and>
     (ve_has_prev_log_number e \<or> ve_prev_log_number e = 0) \<and>
     (ve_has_next_file_number e \<or> ve_next_file_number e = 0) \<and>
     (ve_has_last_sequence e \<or> ve_last_sequence e = 0) \<and>
     list_all pointer_ok (ve_compact_pointers e) \<and> list_all (\<lambda>p. fst p < kNumLevels) (ve_deleted_files e) \<and>
     sorted_wrt file_less (ve_deleted_files e) \<and> list_all new_file_ok (ve_new_files e)"

lemma GetVarint64_Put [simp]: "GetVarint64 (PutVarint64 [] v @ rest) = Some (v, rest)"
  by (simp add: PutVarint64_def)

lemma GetVarint32_Put [simp]: "GetVarint32 (PutVarint32 [] v @ rest) = Some (v, rest)"
  by (simp add: PutVarint32_def)

lemma GetLevel_Put [simp]:
  "level < kNumLevels \<Longrightarrow> GetLevel (PutVarint32 [] (word_of_nat level) @ rest) = Some (level, rest)"
proof -
  assume l: "level < kNumLevels"
  then have u: "unat (word_of_nat level :: u32) = level" by (simp add: kNumLevels_def unat_of_nat)
  have "(word_of_nat level :: u32) < word_of_nat kNumLevels"
    using l by (simp add: word_less_nat_alt u) (simp add: kNumLevels_def)
  then show ?thesis by (simp add: GetLevel_def u)
qed

lemma GetInternalKey_Put [simp]:
  "length k < 2 ^ 32 \<Longrightarrow> GetInternalKey (PutLengthPrefixedSlice [] k @ rest) = Some (k, rest)"
  by (simp add: GetInternalKey_def GetLengthPrefixedSlice_Put)

lemma Put_prefix:
  "PutVarint32 dst v = dst @ PutVarint32 [] v" "PutVarint64 dst w = dst @ PutVarint64 [] w"
  by (simp_all add: PutVarint32_def PutVarint64_def)

text \<open>One field at the head of the input is one turn of the loop.\<close>

lemma decode_loop_field:
  "decode_field tag p e = Inr (rest, e') \<Longrightarrow>
   decode_loop (PutVarint32 [] tag @ p) e = decode_loop rest e'"
  by (subst decode_loop.simps) simp

lemmas tags = kComparator_def kLogNumber_def kNextFileNumber_def kLastSequence_def kCompactPointer_def
  kDeletedFile_def kNewFile_def kPrevLogNumber_def

lemma decode_scalars:
  "length c < 2 ^ 32 \<Longrightarrow> decode_field kComparator (PutLengthPrefixedSlice [] c @ rest) e = Inr (rest, SetComparatorName c e)"
  "decode_field kLogNumber (PutVarint64 [] n @ rest) e = Inr (rest, SetLogNumber n e)"
  "decode_field kPrevLogNumber (PutVarint64 [] n @ rest) e = Inr (rest, SetPrevLogNumber n e)"
  "decode_field kNextFileNumber (PutVarint64 [] n @ rest) e = Inr (rest, SetNextFile n e)"
  "decode_field kLastSequence (PutVarint64 [] n @ rest) e = Inr (rest, SetLastSequence n e)"
  by (simp_all add: decode_field_def tags GetLengthPrefixedSlice_Put)

lemma fold_append_bytes:
  "(\<And>x dst. f x dst = dst @ f x ([] :: bytes)) \<Longrightarrow> fold f xs dst = dst @ concat (map (\<lambda>x. f x []) xs)"
proof (induction xs arbitrary: dst)
  case (Cons x xs)
  have "fold f (x # xs) dst = fold f xs (dst @ f x [])"
    by (simp only: fold_simps Cons.prems [of x dst, symmetric])
  then show ?case by (simp add: Cons.IH [OF Cons.prems])
next
  case Nil
  show ?case by simp
qed

lemma encode_prefix:
  "encode_pointer p dst = dst @ encode_pointer p []"
  "encode_deleted q dst = dst @ encode_deleted q []"
  "encode_new_file r dst = dst @ encode_new_file r []"
  by (simp_all add: encode_pointer_def encode_deleted_def encode_new_file_def Let_def PutVarint32_def
      PutVarint64_def PutLengthPrefixedSlice_append [of "_ @ _"])

lemma decode_loop_list:
  "(\<And>x rest e. x \<in> set xs \<Longrightarrow> decode_loop (f x @ rest) e = decode_loop rest (upd x e)) \<Longrightarrow>
   decode_loop (concat (map f xs) @ rest) e = decode_loop rest (fold upd xs e)"
  by (induction xs arbitrary: e) simp_all

lemma decode_pointer:
  "pointer_ok p \<Longrightarrow> decode_loop (encode_pointer p [] @ rest) e = decode_loop rest (SetCompactPointer (fst p) (snd p) e)"
proof -
  assume "pointer_ok p"
  then have ok: "fst p < kNumLevels" "length (snd p) < 2 ^ 32" by (cases p; simp)+
  have enc: "encode_pointer p [] @ rest =
      PutVarint32 [] kCompactPointer @ PutVarint32 [] (word_of_nat (fst p)) @ PutLengthPrefixedSlice [] (snd p) @ rest"
    by (simp add: encode_pointer_def PutVarint32_def PutLengthPrefixedSlice_append [of "_ @ _"])
  show ?thesis
    unfolding enc by (rule decode_loop_field) (use ok in \<open>simp add: decode_field_def tags\<close>)
qed

lemma decode_deleted:
  "fst p < kNumLevels \<Longrightarrow> decode_loop (encode_deleted p [] @ rest) e = decode_loop rest (DeleteFile (fst p) (snd p) e)"
proof -
  assume ok: "fst p < kNumLevels"
  have enc: "encode_deleted p [] @ rest =
      PutVarint32 [] kDeletedFile @ PutVarint32 [] (word_of_nat (fst p)) @ PutVarint64 [] (snd p) @ rest"
    by (simp add: encode_deleted_def PutVarint32_def PutVarint64_def)
  show ?thesis
    unfolding enc by (rule decode_loop_field) (use ok in \<open>simp add: decode_field_def tags\<close>)
qed

lemma decode_new_file:
  "new_file_ok (l, f) \<Longrightarrow> decode_loop (encode_new_file (l, f) [] @ rest) e =
     decode_loop rest (AddFile l (fm_number f) (fm_file_size f) (fm_smallest f) (fm_largest f) e)"
proof -
  assume ok: "new_file_ok (l, f)"
  have enc: "encode_new_file (l, f) [] @ rest =
      PutVarint32 [] kNewFile @ PutVarint32 [] (word_of_nat l) @ PutVarint64 [] (fm_number f) @
      PutVarint64 [] (fm_file_size f) @ PutLengthPrefixedSlice [] (fm_smallest f) @
      PutLengthPrefixedSlice [] (fm_largest f) @ rest"
    by (simp add: encode_new_file_def Let_def PutVarint32_def PutVarint64_def PutLengthPrefixedSlice_append [of "_ @ _"])
  show ?thesis
    unfolding enc by (rule decode_loop_field) (use ok in \<open>simp add: decode_field_def tags\<close>)
qed

text \<open>Rebuilding the three lists of an edit.\<close>

lemma fold_pointers:
  "fold (\<lambda>p. SetCompactPointer (fst p) (snd p)) ps e = e\<lparr>ve_compact_pointers := ve_compact_pointers e @ ps\<rparr>"
  by (induction ps arbitrary: e) (simp_all add: SetCompactPointer_def)

lemma fold_new_files:
  "list_all new_file_ok fs \<Longrightarrow>
   fold (\<lambda>(l, f). AddFile l (fm_number f) (fm_file_size f) (fm_smallest f) (fm_largest f)) fs e =
     e\<lparr>ve_new_files := ve_new_files e @ fs\<rparr>"
  by (induction fs arbitrary: e) (auto simp: AddFile_def)

lemma file_less_trans: "file_less x y \<Longrightarrow> file_less y z \<Longrightarrow> file_less x z"
  by (auto simp: file_less_def)

lemma file_insert_last:
  "\<forall>y\<in>set ys. file_less y x \<Longrightarrow> file_insert x ys = ys @ [x]"
  by (induction ys) (auto simp: file_less_def)

lemma fold_deleted:
  "sorted_wrt file_less (ve_deleted_files e @ ds) \<Longrightarrow>
   fold (\<lambda>p. DeleteFile (fst p) (snd p)) ds e = e\<lparr>ve_deleted_files := ve_deleted_files e @ ds\<rparr>"
proof (induction ds arbitrary: e)
  case (Cons d ds)
  then have "file_insert d (ve_deleted_files e) = ve_deleted_files e @ [d]"
    by (intro file_insert_last) (auto simp: sorted_wrt_append)
  then show ?case using Cons.prems Cons.IH [of "DeleteFile (fst d) (snd d) e"] by (simp add: DeleteFile_def)
qed simp

lemma VersionEdit_EncodeTo_eq:
  "VersionEdit_EncodeTo [] e =
     (if ve_has_comparator e then PutVarint32 [] kComparator @ PutLengthPrefixedSlice [] (ve_comparator e) else []) @
     (if ve_has_log_number e then PutVarint32 [] kLogNumber @ PutVarint64 [] (ve_log_number e) else []) @
     (if ve_has_prev_log_number e then PutVarint32 [] kPrevLogNumber @ PutVarint64 [] (ve_prev_log_number e) else []) @
     (if ve_has_next_file_number e then PutVarint32 [] kNextFileNumber @ PutVarint64 [] (ve_next_file_number e) else []) @
     (if ve_has_last_sequence e then PutVarint32 [] kLastSequence @ PutVarint64 [] (ve_last_sequence e) else []) @
     concat (map (\<lambda>p. encode_pointer p []) (ve_compact_pointers e)) @
     concat (map (\<lambda>p. encode_deleted p []) (ve_deleted_files e)) @
     concat (map (\<lambda>p. encode_new_file p []) (ve_new_files e))"
  unfolding VersionEdit_EncodeTo_def Let_def
  by (subst (1 2 3) fold_append_bytes; (rule encode_prefix)?)
     (simp add: PutVarint32_def PutVarint64_def PutLengthPrefixedSlice_def)

lemma VersionEdit_Decode_Encode:
  assumes "edit_ok e"
  shows "VersionEdit_DecodeFrom (VersionEdit_EncodeTo [] e) e0 =
    (OK, e\<lparr>ve_compact_pointers := ve_compact_pointers e0 @ ve_compact_pointers e\<rparr>)"
proof -
  have ok: "length (ve_comparator e) < 2 ^ 32" "list_all pointer_ok (ve_compact_pointers e)"
    "list_all (\<lambda>p. fst p < kNumLevels) (ve_deleted_files e)" "sorted_wrt file_less (ve_deleted_files e)"
    "list_all new_file_ok (ve_new_files e)"
    using assms by (simp_all add: edit_ok_def)
  have ptr: "decode_loop (concat (map (\<lambda>p. encode_pointer p []) (ve_compact_pointers e)) @ rest) e' =
      decode_loop rest (e'\<lparr>ve_compact_pointers := ve_compact_pointers e' @ ve_compact_pointers e\<rparr>)" for rest e'
    unfolding fold_pointers [symmetric]
    by (rule decode_loop_list) (rule decode_pointer, use ok(2) in \<open>auto simp: list_all_iff\<close>)
  have del: "decode_loop (concat (map (\<lambda>p. encode_deleted p []) (ve_deleted_files e)) @ rest) e' =
      decode_loop rest (fold (\<lambda>p. DeleteFile (fst p) (snd p)) (ve_deleted_files e) e')" for rest e'
    by (rule decode_loop_list) (rule decode_deleted, use ok(3) in \<open>auto simp: list_all_iff\<close>)
  have nw: "decode_loop (concat (map (\<lambda>p. encode_new_file p []) (ve_new_files e)) @ rest) e' =
      decode_loop rest (e'\<lparr>ve_new_files := ve_new_files e' @ ve_new_files e\<rparr>)" for rest e'
    unfolding fold_new_files [OF ok(5), symmetric]
    by (rule decode_loop_list) (use ok(5) in \<open>auto simp: list_all_iff intro: decode_new_file\<close>)
  have fin: "decode_loop [] e' = (None, [], e')" for e' by (simp add: decode_loop.simps)
  define e1 where "e1 = (\<lambda>e'. if ve_has_comparator e then SetComparatorName (ve_comparator e) e' else e')"
  define e2 where "e2 = (\<lambda>e'. if ve_has_log_number e then SetLogNumber (ve_log_number e) e' else e')"
  define e3 where "e3 = (\<lambda>e'. if ve_has_prev_log_number e then SetPrevLogNumber (ve_prev_log_number e) e' else e')"
  define e4 where "e4 = (\<lambda>e'. if ve_has_next_file_number e then SetNextFile (ve_next_file_number e) e' else e')"
  define e5 where "e5 = (\<lambda>e'. if ve_has_last_sequence e then SetLastSequence (ve_last_sequence e) e' else e')"
  note scalar = decode_loop_field [OF decode_scalars(1) [OF ok(1)]] decode_scalars(2-5) [THEN decode_loop_field]
  have o1: "decode_loop ((if ve_has_comparator e then PutVarint32 [] kComparator @ PutLengthPrefixedSlice [] (ve_comparator e) else []) @ rest) e'
      = decode_loop rest (e1 e')" for rest e' by (simp add: e1_def scalar)
  have o2: "decode_loop ((if ve_has_log_number e then PutVarint32 [] kLogNumber @ PutVarint64 [] (ve_log_number e) else []) @ rest) e'
      = decode_loop rest (e2 e')" for rest e' by (simp add: e2_def scalar)
  have o3: "decode_loop ((if ve_has_prev_log_number e then PutVarint32 [] kPrevLogNumber @ PutVarint64 [] (ve_prev_log_number e) else []) @ rest) e'
      = decode_loop rest (e3 e')" for rest e' by (simp add: e3_def scalar)
  have o4: "decode_loop ((if ve_has_next_file_number e then PutVarint32 [] kNextFileNumber @ PutVarint64 [] (ve_next_file_number e) else []) @ rest) e'
      = decode_loop rest (e4 e')" for rest e' by (simp add: e4_def scalar)
  have o5: "decode_loop ((if ve_has_last_sequence e then PutVarint32 [] kLastSequence @ PutVarint64 [] (ve_last_sequence e) else []) @ rest) e'
      = decode_loop rest (e5 e')" for rest e' by (simp add: e5_def scalar)
  define s where "s = e5 (e4 (e3 (e2 (e1 (VersionEdit_Clear e0)))))"
  have u1: "ve_comparator e' = [] \<Longrightarrow> \<not> ve_has_comparator e' \<Longrightarrow>
      e1 e' = e'\<lparr>ve_has_comparator := ve_has_comparator e, ve_comparator := ve_comparator e\<rparr>" for e'
    using assms by (cases e') (auto simp: e1_def SetComparatorName_def edit_ok_def)
  have u2: "ve_log_number e' = 0 \<Longrightarrow> \<not> ve_has_log_number e' \<Longrightarrow>
      e2 e' = e'\<lparr>ve_has_log_number := ve_has_log_number e, ve_log_number := ve_log_number e\<rparr>" for e'
    using assms by (cases e') (auto simp: e2_def SetLogNumber_def edit_ok_def)
  have u3: "ve_prev_log_number e' = 0 \<Longrightarrow> \<not> ve_has_prev_log_number e' \<Longrightarrow>
      e3 e' = e'\<lparr>ve_has_prev_log_number := ve_has_prev_log_number e, ve_prev_log_number := ve_prev_log_number e\<rparr>" for e'
    using assms by (cases e') (auto simp: e3_def SetPrevLogNumber_def edit_ok_def)
  have u4: "ve_next_file_number e' = 0 \<Longrightarrow> \<not> ve_has_next_file_number e' \<Longrightarrow>
      e4 e' = e'\<lparr>ve_has_next_file_number := ve_has_next_file_number e, ve_next_file_number := ve_next_file_number e\<rparr>" for e'
    using assms by (cases e') (auto simp: e4_def SetNextFile_def edit_ok_def)
  have u5: "ve_last_sequence e' = 0 \<Longrightarrow> \<not> ve_has_last_sequence e' \<Longrightarrow>
      e5 e' = e'\<lparr>ve_has_last_sequence := ve_has_last_sequence e, ve_last_sequence := ve_last_sequence e\<rparr>" for e'
    using assms by (cases e') (auto simp: e5_def SetLastSequence_def edit_ok_def)
  have s: "s = e\<lparr>ve_compact_pointers := ve_compact_pointers e0, ve_deleted_files := [], ve_new_files := []\<rparr>"
    by (simp add: s_def VersionEdit_Clear_def u1 u2 u3 u4 u5)
  have "decode_loop (VersionEdit_EncodeTo [] e @ []) (VersionEdit_Clear e0) =
      decode_loop (concat (map (\<lambda>p. encode_pointer p []) (ve_compact_pointers e)) @
        concat (map (\<lambda>p. encode_deleted p []) (ve_deleted_files e)) @
        concat (map (\<lambda>p. encode_new_file p []) (ve_new_files e)) @ []) s"
    unfolding VersionEdit_EncodeTo_eq append_assoc o1 o2 o3 o4 o5 s_def ..
  also have "\<dots> = (None, [], e\<lparr>ve_compact_pointers := ve_compact_pointers e0 @ ve_compact_pointers e\<rparr>)"
    unfolding ptr del nw fin s using ok(4) by (simp add: fold_deleted)
  finally show ?thesis by (simp add: VersionEdit_DecodeFrom_def)
qed

text \<open>Every edit made by the setters from a fresh one is well-formed.\<close>

lemma file_insert_set: "set (file_insert x ys) = insert x (set ys)"
  by (induction ys) (auto simp: file_less_def prod_eq_iff)

lemma file_insert_sorted: "sorted_wrt file_less ys \<Longrightarrow> sorted_wrt file_less (file_insert x ys)"
proof (induction ys)
  case (Cons y ys)
  then show ?case
    by (auto simp: file_insert_set intro: file_less_trans)
qed simp

lemma edit_ok_new: "edit_ok VersionEdit_new"
  by (simp add: edit_ok_def VersionEdit_new_def)

lemma edit_ok_setters:
  assumes "edit_ok e"
  shows "length name < 2 ^ 32 \<Longrightarrow> edit_ok (SetComparatorName name e)"
    "edit_ok (SetLogNumber n e)" "edit_ok (SetPrevLogNumber n e)" "edit_ok (SetNextFile n e)"
    "edit_ok (SetLastSequence s e)"
    "level < kNumLevels \<Longrightarrow> length key < 2 ^ 32 \<Longrightarrow> edit_ok (SetCompactPointer level key e)"
    "level < kNumLevels \<Longrightarrow> edit_ok (DeleteFile level n e)"
    "level < kNumLevels \<Longrightarrow> length smallest < 2 ^ 32 \<Longrightarrow> length largest < 2 ^ 32 \<Longrightarrow>
       edit_ok (AddFile level n sz smallest largest e)"
  using assms
  by (simp_all add: edit_ok_def SetComparatorName_def SetLogNumber_def SetPrevLogNumber_def SetNextFile_def
      SetLastSequence_def SetCompactPointer_def DeleteFile_def AddFile_def FileMetaData_new_def
      file_insert_sorted list_all_iff file_insert_set)

end
