(* ===== verification/FileNames.thy ===== *)
theory FileNames
  imports Prelude
begin

text \<open>
  \<open>util/logging.cpp\<close> and \<open>db/filename.cpp\<close>: numbers as text, and the names of the files of a
  database. This repository names files \<open><db>.<number>.<suffix>\<close> instead of putting them into a
  directory of their own.
\<close>

section \<open>Numbers and escapes\<close>

definition AppendNumberTo :: "string \<Rightarrow> u64 \<Rightarrow> string" where
  "AppendNumberTo str num = str @ show_nat (unat num)"

definition NumberToString :: "u64 \<Rightarrow> string" where
  "NumberToString num = AppendNumberTo [] num"

definition char_code :: "char \<Rightarrow> nat" where
  "char_code c = of_char c"

definition hex_digit :: "nat \<Rightarrow> char" where
  "hex_digit n = char_of (if n < 10 then 48 + n else 87 + n)"

text \<open>A \<open>char\<close> is signed, so that bytes from 128 on are below the blank.\<close>

definition escape_char :: "char \<Rightarrow> string" where
  "escape_char c =
     (if 32 \<le> char_code c \<and> char_code c \<le> 126 then [c]
      else CHR 0x5C # CHR ''x'' # [hex_digit (char_code c div 16), hex_digit (char_code c mod 16)])"

definition AppendEscapedStringTo :: "string \<Rightarrow> string \<Rightarrow> string" where
  "AppendEscapedStringTo str val = fold (\<lambda>c s. s @ escape_char c) val str"

definition EscapeString :: "string \<Rightarrow> string" where
  "EscapeString val = AppendEscapedStringTo [] val"

definition is_digit :: "char \<Rightarrow> bool" where
  "is_digit c \<longleftrightarrow> 48 \<le> char_code c \<and> char_code c \<le> 57"

definition digit_value :: "char \<Rightarrow> nat" where
  "digit_value c = char_code c - 48"

definition kMaxUint64 :: u64 where "kMaxUint64 = NOT 0"

text \<open>
  The loop over the digits: \<open>None\<close> on overflow, else the number and how many digits it had; and what
  is left of the input.
\<close>

fun decimal_loop :: "u64 \<Rightarrow> nat \<Rightarrow> string \<Rightarrow> (u64 \<times> nat) option \<times> string" where
  "decimal_loop v digits [] = (Some (v, digits), [])"
| "decimal_loop v digits (c # cs) =
     (if is_digit c then
        let delta = word_of_nat (digit_value c)
        in if v > kMaxUint64 div 10 \<or> (v = kMaxUint64 div 10 \<and> delta > kMaxUint64 mod 10)
           then (None, c # cs)
           else decimal_loop (v * 10 + delta) (digits + 1) cs
      else (Some (v, digits), c # cs))"

text \<open>The result, the value written to \<open>*val\<close> if any, and the rest of the input.\<close>

definition ConsumeDecimalNumber :: "string \<Rightarrow> bool \<times> u64 option \<times> string" where
  "ConsumeDecimalNumber input =
     (case decimal_loop 0 0 input of
        (None, rest) \<Rightarrow> (False, None, rest)
      | (Some (v, digits), rest) \<Rightarrow> (digits > 0, Some v, rest))"

section \<open>Searching for dots\<close>

fun find_first_of :: "char \<Rightarrow> string \<Rightarrow> nat option" where
  "find_first_of c [] = None"
| "find_first_of c (x # xs) = (if x = c then Some 0 else map_option Suc (find_first_of c xs))"

fun find_last_of :: "char \<Rightarrow> string \<Rightarrow> nat option" where
  "find_last_of c [] = None"
| "find_last_of c (x # xs) =
     (case find_last_of c xs of Some n \<Rightarrow> Some (Suc n) | None \<Rightarrow> if x = c then Some 0 else None)"

definition GetFileSuffix :: "string \<Rightarrow> string option" where
  "GetFileSuffix filename =
     (case find_last_of CHR ''.'' filename of
        None \<Rightarrow> None
      | Some dotPos \<Rightarrow>
          if dotPos \<le> 0 \<or> dotPos \<ge> length filename - 1 then None
          else Some (drop (dotPos + 1) filename))"

definition GetFileNumber :: "string \<Rightarrow> bool \<times> u64 option" where
  "GetFileNumber filename =
     (case find_first_of CHR ''.'' filename of
        None \<Rightarrow> (False, None)
      | Some index \<Rightarrow>
          (case decimal_loop 0 0 (drop (index + 1) filename) of
             (None, _) \<Rightarrow> (False, None)
           | (Some (v, digits), _) \<Rightarrow> (digits > 0, Some v)))"

text \<open>The lower-case \<open>parseFileName\<close>, which also splits at the last dot.\<close>

definition parseFileName :: "string \<Rightarrow> string option" where
  "parseFileName path =
     (case find_last_of CHR ''.'' path of
        None \<Rightarrow> None
      | Some slashPos \<Rightarrow>
          if slashPos \<le> 0 \<or> slashPos \<ge> length path - 1 then None
          else Some (drop (slashPos + 1) path))"

section \<open>File names\<close>

datatype file_type =
  kLogFile | kDBLockFile | kTableFile | kDescriptorFile | kCurrentFile | kTempFile | kInfoLogFile

definition FILENUMBER_LDB :: u64 where "FILENUMBER_LDB = 0"

text \<open>\<open>snprintf\<close> into a buffer of 1024 bytes: \<open>%s\<close> stops at a NUL, \<open>%06llu\<close> pads with zeros.\<close>

definition c_string :: "string \<Rightarrow> string" where
  "c_string s = takeWhile (\<lambda>c. c \<noteq> CHR 0x00) s"

definition pad6 :: "u64 \<Rightarrow> string" where
  "pad6 n = (let s = show_nat (unat n) in replicate (6 - length s) CHR ''0'' @ s)"

definition snprintf1024 :: "string \<Rightarrow> string" where
  "snprintf1024 s = take 1023 s"

definition MakeNumberedFileName :: "string \<Rightarrow> string \<Rightarrow> u64 \<Rightarrow> string \<Rightarrow> string" where
  "MakeNumberedFileName dbpath name number suffix =
     snprintf1024 (c_string dbpath @ c_string name @ ''.'' @ pad6 number @ ''.'' @ suffix)"

definition MakeFileName :: "string \<Rightarrow> string \<Rightarrow> string \<Rightarrow> string" where
  "MakeFileName dbpath dbname suffix =
     snprintf1024 (c_string dbpath @ c_string dbname @ ''.'' @ suffix)"

definition LogFileName :: "string \<Rightarrow> string \<Rightarrow> u64 \<Rightarrow> string" where
  "LogFileName dbpath dbname number = MakeNumberedFileName dbpath dbname number ''log''"

definition TableFileName :: "string \<Rightarrow> string \<Rightarrow> u64 \<Rightarrow> string" where
  "TableFileName dbpath dbname number =
     (if number = FILENUMBER_LDB then MakeFileName dbpath dbname ''ldb''
      else MakeNumberedFileName dbpath dbname number ''ldb'')"

definition SSTTableFileName :: "string \<Rightarrow> string \<Rightarrow> u64 \<Rightarrow> string" where
  "SSTTableFileName dbpath dbname number = MakeNumberedFileName dbpath dbname number ''sst''"

definition DescriptorFileName :: "string \<Rightarrow> string \<Rightarrow> u64 \<Rightarrow> string" where
  "DescriptorFileName dbpath dbname number = MakeFileName dbpath dbname ''manifest''"

definition CurrentFileName :: "string \<Rightarrow> string \<Rightarrow> string" where
  "CurrentFileName dbpath dbname = MakeFileName dbpath dbname ''current''"

definition LockFileName :: "string \<Rightarrow> string \<Rightarrow> string" where
  "LockFileName dbpath dbname = MakeFileName dbpath dbname ''lock''"

definition TempFileName :: "string \<Rightarrow> string \<Rightarrow> u64 \<Rightarrow> string" where
  "TempFileName dbpath dbname number = MakeNumberedFileName dbpath dbname number ''dbtmp''"

definition InfoLogFileName :: "string \<Rightarrow> string \<Rightarrow> string" where
  "InfoLogFileName dbpath dbname = MakeFileName dbpath dbname ''lg''"

definition OldInfoLogFileName :: "string \<Rightarrow> string \<Rightarrow> string" where
  "OldInfoLogFileName dbpath dbname = MakeFileName dbpath dbname ''oldlg''"

text \<open>
  The text up to and including the first dot. \<open>ParseFileName\<close> uses it after \<open>GetFileSuffix\<close> has found
  a dot.
\<close>

definition upto_dot :: "string \<Rightarrow> string" where
  "upto_dot fname = (case find_first_of CHR ''.'' fname of None \<Rightarrow> [] | Some i \<Rightarrow> take (i + 1) fname)"

definition ParseFileName :: "string \<Rightarrow> (u64 \<times> file_type) option" where
  "ParseFileName fname =
     (case GetFileSuffix fname of
        None \<Rightarrow> None
      | Some suffix \<Rightarrow>
          if suffix = ''current'' then Some (0, kCurrentFile)
          else if suffix = ''lock'' then Some (0, kDBLockFile)
          else if suffix = ''lg'' \<or> suffix = ''oldlg'' then Some (0, kInfoLogFile)
          else if suffix = ''manifest'' then
            if upto_dot fname @ ''manifest'' \<noteq> fname then None else Some (1, kDescriptorFile)
          else if suffix = ''ldb'' then
            if upto_dot fname @ ''ldb'' \<noteq> fname then None else Some (FILENUMBER_LDB, kTableFile)
          else
            (case ConsumeDecimalNumber (drop (length (upto_dot fname)) fname) of
               (True, Some num, _) \<Rightarrow>
                 if suffix = ''log'' then Some (num, kLogFile)
                 else if suffix = ''sst'' \<or> suffix = ''ldb'' then Some (num, kTableFile)
                 else if suffix = ''dbtmp'' then Some (num, kTempFile)
                 else None
             | _ \<Rightarrow> None))"

definition SetCurrentFile :: "string \<Rightarrow> string \<Rightarrow> u64 \<Rightarrow> status" where
  "SetCurrentFile dbpath dbname descriptor_number = OK"

section \<open>Decimal numbers are read exactly, and overflow is detected exactly\<close>

definition dec_value :: "nat \<Rightarrow> string \<Rightarrow> nat" where
  "dec_value n s = fold (\<lambda>c n. n * 10 + digit_value c) s n"

lemma dec_value_ge: "n \<le> dec_value n s"
proof (induction s arbitrary: n)
  case (Cons c s)
  have "n * 10 + digit_value c \<le> dec_value n (c # s)"
    using Cons.IH [of "n * 10 + digit_value c"] by (simp add: dec_value_def)
  then show ?case by simp
qed (simp add: dec_value_def)

lemma digit_value_le: "is_digit c \<Longrightarrow> digit_value c \<le> 9"
  unfolding is_digit_def digit_value_def by arith

lemma overflow_test:
  assumes "d \<le> 9"
  shows "(v > kMaxUint64 div 10 \<or> (v = kMaxUint64 div 10 \<and> word_of_nat d > kMaxUint64 mod 10)) \<longleftrightarrow>
     2 ^ 64 \<le> unat v * 10 + d"
proof -
  have m: "unat (kMaxUint64 div 10) = 1844674407370955161" "unat (kMaxUint64 mod 10) = 5"
    by (simp_all add: kMaxUint64_def unat_div unat_mod)
  have d: "unat (word_of_nat d :: u64) = d" using assms by (simp add: unat_of_nat)
  show ?thesis
    unfolding word_less_nat_alt word_unat_eq_iff m d
    using assms by (cases "unat v" "1844674407370955161 :: nat" rule: linorder_cases) auto
qed

lemma decimal_loop_digits:
  "list_all is_digit s \<Longrightarrow> rest = [] \<or> \<not> is_digit (hd rest) \<Longrightarrow>
   (if dec_value (unat v) s < 2 ^ 64
    then decimal_loop v d (s @ rest) = (Some (word_of_nat (dec_value (unat v) s), d + length s), rest)
    else fst (decimal_loop v d (s @ rest)) = None)"
proof (induction s arbitrary: v d)
  case Nil
  show ?case using Nil.prems unsigned_less [of v] by (cases rest) (simp_all add: dec_value_def)
next
  case (Cons c s)
  define k where "k = digit_value c"
  have k: "k \<le> 9" "is_digit c" using Cons.prems(1) digit_value_le by (auto simp: k_def)
  have dv: "dec_value (unat v) (c # s) = dec_value (unat v * 10 + k) s" by (simp add: dec_value_def k_def)
  show ?case
  proof (cases "2 ^ 64 \<le> unat v * 10 + k")
    case True
    then have "\<not> dec_value (unat v) (c # s) < 2 ^ 64" using dec_value_ge [of "unat v * 10 + k" s] dv by simp
    moreover have "decimal_loop v d ((c # s) @ rest) = (None, (c # s) @ rest)"
      using True overflow_test [OF k(1), of v] k(2) by (simp add: k_def Let_def)
    ultimately show ?thesis by simp
  next
    case False
    have u: "unat (v * 10 + word_of_nat k) = unat v * 10 + k"
      using False k(1) by (simp add: unat_word_ariths unat_of_nat)
    have step: "decimal_loop v d ((c # s) @ rest) = decimal_loop (v * 10 + word_of_nat k) (d + 1) (s @ rest)"
      unfolding append_Cons decimal_loop.simps(2) Let_def k_def [symmetric] overflow_test [OF k(1)]
      by (simp only: k(2) False if_True if_False)
    show ?thesis
      using Cons.IH [of "v * 10 + word_of_nat k" "Suc d"] Cons.prems unfolding step dv u by simp
  qed
qed

lemma ConsumeDecimalNumber_exact:
  assumes "list_all is_digit s" "s \<noteq> []" "rest = [] \<or> \<not> is_digit (hd rest)"
  shows "if dec_value 0 s < 2 ^ 64
    then ConsumeDecimalNumber (s @ rest) = (True, Some (word_of_nat (dec_value 0 s)), rest)
    else fst (ConsumeDecimalNumber (s @ rest)) = False"
proof -
  have "0 < length s" using assms(2) by simp
  then show ?thesis
    using decimal_loop_digits [OF assms(1,3), of 0 0]
    by (auto simp: ConsumeDecimalNumber_def split: prod.split option.split if_splits)
qed

text \<open>What \<open>snprintf\<close> prints is read back.\<close>

lemma char_code_of: "n < 256 \<Longrightarrow> char_code (char_of n) = n"
  by (simp add: char_code_def)

lemma is_digit_char_of: "(k :: nat) < 10 \<Longrightarrow> is_digit (char_of (48 + k))"
  by (simp add: is_digit_def char_code_of)

lemma show_nat_digits: "list_all is_digit (show_nat n) \<and> show_nat n \<noteq> []"
proof (induction n rule: show_nat.induct)
  case (1 n)
  then show ?case
    by (subst (1 2) show_nat.simps) (auto simp: is_digit_char_of)
qed

lemma dec_value_show: "dec_value 0 (show_nat n) = n"
proof (induction n rule: show_nat.induct)
  case (1 n)
  then show ?case
    by (subst show_nat.simps) (auto simp: dec_value_def digit_value_def char_code_of)
qed

lemma dec_value_zeros: "dec_value 0 (replicate k CHR ''0'' @ s) = dec_value 0 s"
  by (induction k) (simp_all add: dec_value_def digit_value_def char_code_def)

lemma ConsumeDecimalNumber_pad6:
  assumes "rest = [] \<or> \<not> is_digit (hd rest)"
  shows "ConsumeDecimalNumber (pad6 n @ rest) = (True, Some n, rest)"
proof -
  have z: "is_digit CHR ''0''" by (simp add: is_digit_def char_code_def)
  have "list_all is_digit (pad6 n)" "pad6 n \<noteq> []" "dec_value 0 (pad6 n) = unat n"
    using show_nat_digits [of "unat n"] z
    by (auto simp: pad6_def Let_def dec_value_zeros dec_value_show list_all_iff)
  then show ?thesis
    using ConsumeDecimalNumber_exact [of "pad6 n" rest] assms unat_lt64 [of n] by simp
qed

section \<open>Parsing the names that were made\<close>

text \<open>A database name in this layout: no dot and no NUL, and short enough for the buffer.\<close>

definition plain_name :: "string \<Rightarrow> bool" where
  "plain_name s \<longleftrightarrow> CHR ''.'' \<notin> set s \<and> CHR 0x00 \<notin> set s \<and> length s < 900"

lemma find_first_dot: "c \<notin> set a \<Longrightarrow> find_first_of c (a @ c # b) = Some (length a)"
  by (induction a) auto

lemma find_last_dot: "c \<notin> set b \<Longrightarrow> find_last_of c (a @ c # b) = Some (length a)"
proof -
  assume b: "c \<notin> set b"
  have n: "find_last_of c b = None" using b by (induction b) auto
  show ?thesis by (induction a) (simp_all add: n)
qed

lemma suffix_of: "CHR ''.'' \<notin> set suffix \<Longrightarrow> suffix \<noteq> [] \<Longrightarrow> a \<noteq> [] \<Longrightarrow>
   GetFileSuffix (a @ CHR ''.'' # suffix) = Some suffix"
  by (simp add: GetFileSuffix_def find_last_dot)

lemma upto_dot_name: "CHR ''.'' \<notin> set a \<Longrightarrow> upto_dot (a @ CHR ''.'' # b) = a @ ''.''"
  by (simp add: upto_dot_def find_first_dot)

lemma length_pad6: "length (pad6 n) \<le> 20"
proof -
  have s: "length (show_nat m) \<le> Suc k" if "m < 10 ^ Suc k" for m k
    using that
  proof (induction k arbitrary: m)
    case (Suc k)
    have "length (show_nat (m div 10)) \<le> Suc k" using Suc.prems by (intro Suc.IH) auto
    then show ?case by (subst show_nat.simps) simp
  qed (simp add: show_nat.simps)
  have "unat n < 10 ^ Suc 19" using unat_lt64 [of n] by simp
  from s [OF this] show ?thesis by (simp add: pad6_def Let_def)
qed

lemma pad6_no_dot: "CHR ''.'' \<notin> set (pad6 n)"
proof -
  have "\<not> is_digit CHR ''.''" by (simp add: is_digit_def char_code_def)
  then show ?thesis using show_nat_digits [of "unat n"] by (auto simp: pad6_def Let_def list_all_iff)
qed

lemma c_string_plain: "plain_name s \<Longrightarrow> c_string s = s"
  by (auto simp: plain_name_def c_string_def intro: takeWhile_eq_all_conv [THEN iffD2])

lemma numbered_name:
  assumes "plain_name db" "length suffix \<le> 8"
  shows "MakeNumberedFileName [] db n suffix = db @ CHR ''.'' # pad6 n @ CHR ''.'' # suffix"
proof -
  have "length db < 900" using assms(1) by (simp add: plain_name_def)
  then have "length (db @ CHR ''.'' # pad6 n @ CHR ''.'' # suffix) \<le> 1023"
    using length_pad6 [of n] assms(2) by simp
  then show ?thesis
    unfolding MakeNumberedFileName_def snprintf1024_def c_string_plain [OF assms(1)]
    by (simp add: c_string_def)
qed

lemma unnumbered_name:
  assumes "plain_name db" "length suffix \<le> 8"
  shows "MakeFileName [] db suffix = db @ CHR ''.'' # suffix"
proof -
  have "length db < 900" using assms(1) by (simp add: plain_name_def)
  then show ?thesis
    using assms(2) unfolding MakeFileName_def snprintf1024_def c_string_plain [OF assms(1)]
    by (simp add: c_string_def)
qed

lemma Parse_numbered:
  assumes "plain_name db" "length suffix \<le> 8" "CHR ''.'' \<notin> set suffix" "suffix \<noteq> []"
    and "f = MakeNumberedFileName [] db n suffix"
  shows "GetFileSuffix f = Some suffix" "upto_dot f = db @ ''.''"
    "ConsumeDecimalNumber (drop (length (upto_dot f)) f) = (True, Some n, CHR ''.'' # suffix)"
proof -
  have f: "f = db @ CHR ''.'' # pad6 n @ CHR ''.'' # suffix"
    unfolding assms(5) by (rule numbered_name) (use assms in auto)
  show s: "GetFileSuffix f = Some suffix"
    using suffix_of [of suffix "db @ CHR ''.'' # pad6 n"] assms by (simp add: f)
  show u: "upto_dot f = db @ ''.''" using assms(1) by (simp add: f upto_dot_name plain_name_def)
  show "ConsumeDecimalNumber (drop (length (upto_dot f)) f) = (True, Some n, CHR ''.'' # suffix)"
    unfolding u by (simp add: f ConsumeDecimalNumber_pad6 is_digit_def char_code_def)
qed

lemma Parse_numbered_files:
  assumes "plain_name db"
  shows "ParseFileName (LogFileName [] db n) = Some (n, kLogFile)"
    "ParseFileName (SSTTableFileName [] db n) = Some (n, kTableFile)"
    "ParseFileName (TempFileName [] db n) = Some (n, kTempFile)"
  using Parse_numbered [OF assms, of "''log''" _ n, OF _ _ _ refl] Parse_numbered [OF assms, of "''sst''" _ n, OF _ _ _ refl]
    Parse_numbered [OF assms, of "''dbtmp''" _ n, OF _ _ _ refl]
  by (simp_all add: ParseFileName_def LogFileName_def SSTTableFileName_def TempFileName_def)

lemma Parse_unnumbered_files:
  assumes "plain_name db" "db \<noteq> []"
  shows "ParseFileName (DescriptorFileName [] db n) = Some (1, kDescriptorFile)"
    "ParseFileName (CurrentFileName [] db) = Some (0, kCurrentFile)"
    "ParseFileName (LockFileName [] db) = Some (0, kDBLockFile)"
    "ParseFileName (InfoLogFileName [] db) = Some (0, kInfoLogFile)"
    "ParseFileName (OldInfoLogFileName [] db) = Some (0, kInfoLogFile)"
  using assms suffix_of [of _ db]
  by (simp_all add: ParseFileName_def DescriptorFileName_def CurrentFileName_def LockFileName_def
      InfoLogFileName_def OldInfoLogFileName_def unnumbered_name upto_dot_name plain_name_def)

text \<open>
  A table file with a number other than \<open>FILENUMBER_LDB\<close> gets a numbered name, which the parser
  refuses: its branch for the suffix accepts the name without a number only.
\<close>

lemma Parse_table_file:
  assumes "plain_name db" "db \<noteq> []"
  shows "ParseFileName (TableFileName [] db n) = (if n = FILENUMBER_LDB then Some (0, kTableFile) else None)"
proof (cases "n = FILENUMBER_LDB")
  case True
  then show ?thesis
    using assms suffix_of [of "''ldb''" db]
    by (simp add: ParseFileName_def TableFileName_def unnumbered_name upto_dot_name plain_name_def FILENUMBER_LDB_def)
next
  case False
  have "MakeNumberedFileName [] db n ''ldb'' \<noteq> (db @ ''.'') @ ''ldb''"
    using numbered_name [OF assms(1), of "''ldb''" n] show_nat_digits [of "unat n"]
    by (auto simp: pad6_def Let_def append_eq_Cons_conv)
  then show ?thesis
    using False Parse_numbered [OF assms(1), of "''ldb''" _ n, OF _ _ _ refl]
    by (auto simp: ParseFileName_def TableFileName_def)
qed

text \<open>A dot in the name of the database makes its log files unreadable for the parser.\<close>

lemma Parse_dotted:
  assumes "CHR ''.'' \<notin> set a" "CHR ''.'' \<notin> set suffix" "\<not> is_digit c" "suffix \<notin> {''current'', ''lock'', ''lg'', ''oldlg'', ''manifest'', ''ldb''}"
    "suffix \<noteq> []"
  shows "ParseFileName (a @ CHR ''.'' # c # b @ CHR ''.'' # suffix) = None"
proof -
  let ?f = "a @ CHR ''.'' # c # b @ CHR ''.'' # suffix"
  have "GetFileSuffix ?f = Some suffix" using suffix_of [of suffix "a @ CHR ''.'' # c # b"] assms by simp
  moreover have "drop (length (upto_dot ?f)) ?f = c # b @ CHR ''.'' # suffix" using assms(1) by (simp add: upto_dot_name)
  moreover have "ConsumeDecimalNumber (c # b @ CHR ''.'' # suffix) = (False, Some 0, c # b @ CHR ''.'' # suffix)"
    using assms(3) by (simp add: ConsumeDecimalNumber_def)
  ultimately show ?thesis using assms(4) by (simp add: ParseFileName_def)
qed

end
