(* ===== verification/IteratorSpec.thy ===== *)
theory IteratorSpec
  imports ComparatorSpec "HOL-Library.Monad_Syntax"
begin

text \<open>
  \<open>include/leveldb/iterator.h\<close>, \<open>table/iterator.cpp\<close> and \<open>table/iterator_wrapper.h\<close>: the iterator
  interface. A virtual class is a record of its methods over the type of its state; a movement is
  \<open>None\<close> when it does not return or calls a method whose assertion fails. The locale states what an
  iterator over a fixed sorted sequence of entries promises, in terms of the entry it stands at.
\<close>

section \<open>The interface\<close>

type_synonym kv = "bytes \<times> bytes"

record 's iter_ops =
  it_Valid :: "'s \<Rightarrow> bool"
  it_key :: "'s \<Rightarrow> bytes"
  it_value :: "'s \<Rightarrow> bytes"
  it_status :: "'s \<Rightarrow> status"
  it_SeekToFirst :: "'s \<Rightarrow> 's option"
  it_SeekToLast :: "'s \<Rightarrow> 's option"
  it_Seek :: "bytes \<Rightarrow> 's \<Rightarrow> 's option"
  it_Next :: "'s \<Rightarrow> 's option"
  it_Prev :: "'s \<Rightarrow> 's option"

text \<open>The first entry at or past a target; entries in the order of their keys.\<close>

definition seek_pos :: "comparator \<Rightarrow> kv list \<Rightarrow> bytes \<Rightarrow> nat" where
  "seek_pos cmp kvs t = length (takeWhile (\<lambda>e. Compare cmp (fst e) t < 0) kvs)"

definition kvs_sorted :: "comparator \<Rightarrow> kv list \<Rightarrow> bool" where
  "kvs_sorted cmp kvs \<longleftrightarrow> sorted_wrt (\<lambda>a b. Compare cmp (fst a) (fst b) < 0) kvs"

definition keys_ok :: "(bytes \<Rightarrow> bool) \<Rightarrow> kv list \<Rightarrow> bool" where
  "keys_ok ok kvs \<longleftrightarrow> (\<forall>e\<in>set kvs. ok (fst e))"

text \<open>
  \<open>at s kvs i\<close>: in state \<open>s\<close> the iterator is over \<open>kvs\<close> and stands at entry \<open>i\<close>, or is not valid when
  \<open>i\<close> is the number of entries.
\<close>

locale iterator = comparator_laws cmp ok
  for cmp :: comparator and ok :: "bytes \<Rightarrow> bool" +
  fixes ops :: "'s iter_ops" and at :: "'s \<Rightarrow> kv list \<Rightarrow> nat \<Rightarrow> bool"
  assumes at_bound: "at s kvs i \<Longrightarrow> i \<le> length kvs"
    and at_sorted: "at s kvs i \<Longrightarrow> kvs_sorted cmp kvs"
    and at_ok: "at s kvs i \<Longrightarrow> keys_ok ok kvs"
    and Valid_at: "at s kvs i \<Longrightarrow> it_Valid ops s = (i < length kvs)"
    and key_at: "at s kvs i \<Longrightarrow> i < length kvs \<Longrightarrow> it_key ops s = fst (kvs ! i)"
    and value_at: "at s kvs i \<Longrightarrow> i < length kvs \<Longrightarrow> it_value ops s = snd (kvs ! i)"
    and status_at: "at s kvs i \<Longrightarrow> it_status ops s = OK"
    and SeekToFirst_at: "at s kvs i \<Longrightarrow> \<exists>s'. it_SeekToFirst ops s = Some s' \<and> at s' kvs 0"
    and SeekToLast_at: "at s kvs i \<Longrightarrow> \<exists>s'. it_SeekToLast ops s = Some s' \<and> at s' kvs (length kvs - 1)"
    and Seek_at: "at s kvs i \<Longrightarrow> ok t \<Longrightarrow> \<exists>s'. it_Seek ops t s = Some s' \<and> at s' kvs (seek_pos cmp kvs t)"
    and Next_at: "at s kvs i \<Longrightarrow> i < length kvs \<Longrightarrow> \<exists>s'. it_Next ops s = Some s' \<and> at s' kvs (Suc i)"
    and Prev_at: "at s kvs i \<Longrightarrow> i < length kvs \<Longrightarrow>
      \<exists>s'. it_Prev ops s = Some s' \<and> at s' kvs (if i = 0 then length kvs else i - 1)"

section \<open>Positions in sorted sequences\<close>

lemma seek_pos_le: "seek_pos cmp kvs t \<le> length kvs"
  by (simp add: seek_pos_def length_takeWhile_le)

lemma length_takeWhile_eqI:
  assumes "q \<le> length xs" "\<And>m. m < q \<Longrightarrow> P (xs ! m)" "q < length xs \<Longrightarrow> \<not> P (xs ! q)"
  shows "length (takeWhile P xs) = q"
proof -
  have "takeWhile P xs = take q xs"
    using assms by (cases "q = length xs") (auto intro: takeWhile_eq_take_P_nth simp: all_set_conv_all_nth takeWhile_eq_all_conv)
  then show ?thesis using assms(1) by simp
qed

lemma kvs_sorted_nth:
  "kvs_sorted cmp kvs \<Longrightarrow> m < n \<Longrightarrow> n < length kvs \<Longrightarrow> Compare cmp (fst (kvs ! m)) (fst (kvs ! n)) < 0"
  by (auto simp: kvs_sorted_def sorted_wrt_iff_nth_less)

lemma keys_ok_nth: "keys_ok ok kvs \<Longrightarrow> m < length kvs \<Longrightarrow> ok (fst (kvs ! m))"
  by (simp add: keys_ok_def)

context comparator_laws
begin

lemma kvs_sorted_nth_iff:
  assumes "kvs_sorted cmp kvs" "keys_ok ok kvs" "m < length kvs" "n < length kvs"
  shows "Compare cmp (fst (kvs ! m)) (fst (kvs ! n)) < 0 \<longleftrightarrow> m < n"
proof
  assume less: "Compare cmp (fst (kvs ! m)) (fst (kvs ! n)) < 0"
  have ok: "ok (fst (kvs ! m))" "ok (fst (kvs ! n))" using assms by (auto intro: keys_ok_nth)
  show "m < n"
  proof (rule ccontr)
    assume "\<not> m < n"
    then consider "m = n" | "n < m" by linarith
    then show False
    proof cases
      case 1 then show ?thesis using less compare_refl ok by simp
    next
      case 2
      then have "Compare cmp (fst (kvs ! n)) (fst (kvs ! m)) < 0" using kvs_sorted_nth assms by blast
      then show ?thesis using less compare_flip [OF ok] by simp
    qed
  qed
qed (use kvs_sorted_nth assms in blast)

text \<open>The entries below a target are those before \<open>seek_pos\<close>.\<close>

lemma seek_pos_iff:
  assumes "kvs_sorted cmp kvs" "keys_ok ok kvs" "ok t" "m < length kvs"
  shows "Compare cmp (fst (kvs ! m)) t < 0 \<longleftrightarrow> m < seek_pos cmp kvs t"
proof
  assume less: "Compare cmp (fst (kvs ! m)) t < 0"
  show "m < seek_pos cmp kvs t"
  proof (rule ccontr)
    assume "\<not> m < seek_pos cmp kvs t"
    then have le: "seek_pos cmp kvs t \<le> m" by simp
    then have q: "seek_pos cmp kvs t < length kvs" using assms(4) by simp
    have "\<not> Compare cmp (fst (kvs ! seek_pos cmp kvs t)) t < 0"
      using q nth_length_takeWhile [of "\<lambda>e. Compare cmp (fst e) t < 0" kvs] by (simp add: seek_pos_def)
    moreover have "Compare cmp (fst (kvs ! seek_pos cmp kvs t)) t < 0"
    proof (cases "seek_pos cmp kvs t = m")
      case False
      then have "Compare cmp (fst (kvs ! seek_pos cmp kvs t)) (fst (kvs ! m)) < 0"
        using le kvs_sorted_nth [OF assms(1)] assms(4) by simp
      then show ?thesis using compare_trans less assms(2,3,4) q keys_ok_nth by blast
    qed (use less in simp)
    ultimately show False by simp
  qed
next
  assume "m < seek_pos cmp kvs t"
  then show "Compare cmp (fst (kvs ! m)) t < 0"
    using nth_mem [of m "takeWhile (\<lambda>e. Compare cmp (fst e) t < 0) kvs"] takeWhile_nth [of m "\<lambda>e. Compare cmp (fst e) t < 0" kvs]
    by (auto simp: seek_pos_def dest: set_takeWhileD)
qed

lemma seek_pos_eqI:
  assumes "q \<le> length kvs" "\<And>m. m < q \<Longrightarrow> Compare cmp (fst (kvs ! m)) t < 0"
    "q < length kvs \<Longrightarrow> \<not> Compare cmp (fst (kvs ! q)) t < 0"
  shows "seek_pos cmp kvs t = q"
  unfolding seek_pos_def using assms by (intro length_takeWhile_eqI) auto

lemma seek_pos_self:
  assumes "kvs_sorted cmp kvs" "keys_ok ok kvs" "m < length kvs"
  shows "seek_pos cmp kvs (fst (kvs ! m)) = m"
  using assms kvs_sorted_nth_iff [OF assms(1,2)] by (intro seek_pos_eqI) auto

end

section \<open>The empty iterator\<close>

text \<open>Its state is the status it reports; it is also the error iterator.\<close>

definition empty_iterator_ops :: "status iter_ops" where
  "empty_iterator_ops =
     \<lparr>it_Valid = (\<lambda>s. False), it_key = (\<lambda>s. []), it_value = (\<lambda>s. []), it_status = (\<lambda>s. s),
      it_SeekToFirst = Some, it_SeekToLast = Some, it_Seek = (\<lambda>t. Some),
      it_Next = (\<lambda>s. None), it_Prev = (\<lambda>s. None)\<rparr>"

definition NewEmptyIterator :: status where "NewEmptyIterator = OK"

definition NewErrorIterator :: "status \<Rightarrow> status" where "NewErrorIterator s = s"

definition empty_at :: "status \<Rightarrow> kv list \<Rightarrow> nat \<Rightarrow> bool" where
  "empty_at s kvs i \<longleftrightarrow> s = OK \<and> kvs = [] \<and> i = 0"

context comparator_laws
begin

lemma empty_iterator: "iterator cmp ok empty_iterator_ops empty_at"
  by unfold_locales (auto simp: empty_at_def empty_iterator_ops_def kvs_sorted_def keys_ok_def seek_pos_def)

end

section \<open>Dynamic dispatch\<close>

text \<open>A pointer to one of two classes of iterators.\<close>

definition either_ops :: "'a iter_ops \<Rightarrow> 'b iter_ops \<Rightarrow> ('a + 'b) iter_ops" where
  "either_ops a b =
     \<lparr>it_Valid = case_sum (it_Valid a) (it_Valid b), it_key = case_sum (it_key a) (it_key b),
      it_value = case_sum (it_value a) (it_value b), it_status = case_sum (it_status a) (it_status b),
      it_SeekToFirst = case_sum (map_option Inl \<circ> it_SeekToFirst a) (map_option Inr \<circ> it_SeekToFirst b),
      it_SeekToLast = case_sum (map_option Inl \<circ> it_SeekToLast a) (map_option Inr \<circ> it_SeekToLast b),
      it_Seek = (\<lambda>t. case_sum (map_option Inl \<circ> it_Seek a t) (map_option Inr \<circ> it_Seek b t)),
      it_Next = case_sum (map_option Inl \<circ> it_Next a) (map_option Inr \<circ> it_Next b),
      it_Prev = case_sum (map_option Inl \<circ> it_Prev a) (map_option Inr \<circ> it_Prev b)\<rparr>"

lemma either_iterator:
  assumes "iterator cmp ok a at_a" "iterator cmp ok b at_b"
  shows "iterator cmp ok (either_ops a b) (case_sum at_a at_b)"
proof (rule iterator.intro [OF iterator.axioms(1) [OF assms(1)]], unfold_locales)
  fix s kvs i t
  show "case_sum at_a at_b s kvs i \<Longrightarrow> i \<le> length kvs"
    using iterator.at_bound [OF assms(1), of "projl s" kvs i] iterator.at_bound [OF assms(2), of "projr s" kvs i]
    by (cases s) (auto simp: either_ops_def)
  show "case_sum at_a at_b s kvs i \<Longrightarrow> kvs_sorted cmp kvs"
    using iterator.at_sorted [OF assms(1), of "projl s" kvs i] iterator.at_sorted [OF assms(2), of "projr s" kvs i]
    by (cases s) (auto simp: either_ops_def)
  show "case_sum at_a at_b s kvs i \<Longrightarrow> keys_ok ok kvs"
    using iterator.at_ok [OF assms(1), of "projl s" kvs i] iterator.at_ok [OF assms(2), of "projr s" kvs i]
    by (cases s) (auto simp: either_ops_def)
  show "case_sum at_a at_b s kvs i \<Longrightarrow> it_Valid (either_ops a b) s = (i < length kvs)"
    using iterator.Valid_at [OF assms(1), of "projl s" kvs i] iterator.Valid_at [OF assms(2), of "projr s" kvs i]
    by (cases s) (auto simp: either_ops_def)
  show "case_sum at_a at_b s kvs i \<Longrightarrow> i < length kvs \<Longrightarrow> it_key (either_ops a b) s = fst (kvs ! i)"
    using iterator.key_at [OF assms(1), of "projl s" kvs i] iterator.key_at [OF assms(2), of "projr s" kvs i]
    by (cases s) (auto simp: either_ops_def)
  show "case_sum at_a at_b s kvs i \<Longrightarrow> i < length kvs \<Longrightarrow> it_value (either_ops a b) s = snd (kvs ! i)"
    using iterator.value_at [OF assms(1), of "projl s" kvs i] iterator.value_at [OF assms(2), of "projr s" kvs i]
    by (cases s) (auto simp: either_ops_def)
  show "case_sum at_a at_b s kvs i \<Longrightarrow> it_status (either_ops a b) s = OK"
    using iterator.status_at [OF assms(1), of "projl s" kvs i] iterator.status_at [OF assms(2), of "projr s" kvs i]
    by (cases s) (auto simp: either_ops_def)
  show "case_sum at_a at_b s kvs i \<Longrightarrow> \<exists>s'. it_SeekToFirst (either_ops a b) s = Some s' \<and> case_sum at_a at_b s' kvs 0"
    using iterator.SeekToFirst_at [OF assms(1), of "projl s" kvs i] iterator.SeekToFirst_at [OF assms(2), of "projr s" kvs i]
    by (cases s) (auto simp: either_ops_def)
  show "case_sum at_a at_b s kvs i \<Longrightarrow> \<exists>s'. it_SeekToLast (either_ops a b) s = Some s' \<and> case_sum at_a at_b s' kvs (length kvs - 1)"
    using iterator.SeekToLast_at [OF assms(1), of "projl s" kvs i] iterator.SeekToLast_at [OF assms(2), of "projr s" kvs i]
    by (cases s) (auto simp: either_ops_def)
  show "case_sum at_a at_b s kvs i \<Longrightarrow> ok t \<Longrightarrow> \<exists>s'. it_Seek (either_ops a b) t s = Some s' \<and> case_sum at_a at_b s' kvs (seek_pos cmp kvs t)"
    using iterator.Seek_at [OF assms(1), of "projl s" kvs i t] iterator.Seek_at [OF assms(2), of "projr s" kvs i t]
    by (cases s) (auto simp: either_ops_def)
  show "case_sum at_a at_b s kvs i \<Longrightarrow> i < length kvs \<Longrightarrow> \<exists>s'. it_Next (either_ops a b) s = Some s' \<and> case_sum at_a at_b s' kvs (Suc i)"
    using iterator.Next_at [OF assms(1), of "projl s" kvs i] iterator.Next_at [OF assms(2), of "projr s" kvs i]
    by (cases s) (auto simp: either_ops_def)
  show "case_sum at_a at_b s kvs i \<Longrightarrow> i < length kvs \<Longrightarrow> \<exists>s'. it_Prev (either_ops a b) s = Some s' \<and> case_sum at_a at_b s' kvs (if i = 0 then length kvs else i - 1)"
    using iterator.Prev_at [OF assms(1), of "projl s" kvs i] iterator.Prev_at [OF assms(2), of "projr s" kvs i]
    by (cases s) (auto simp: either_ops_def)
qed

section \<open>The iterator wrapper\<close>

text \<open>
  \<open>IteratorWrapper\<close> caches \<open>Valid()\<close> and \<open>key()\<close> of the iterator it holds, which may be \<open>NULL\<close>. A
  method that asserts an iterator is \<open>None\<close> without one.
\<close>

record 's iterator_wrapper =
  iw_iter :: "'s option"
  iw_valid :: bool
  iw_key :: bytes

definition IteratorWrapper_null :: "'s iterator_wrapper" where
  "IteratorWrapper_null = \<lparr>iw_iter = None, iw_valid = False, iw_key = []\<rparr>"

definition IteratorWrapper_Update :: "'s iter_ops \<Rightarrow> 's \<Rightarrow> 's iterator_wrapper \<Rightarrow> 's iterator_wrapper" where
  "IteratorWrapper_Update ops s w =
     (if it_Valid ops s then w\<lparr>iw_iter := Some s, iw_valid := True, iw_key := it_key ops s\<rparr>
      else w\<lparr>iw_iter := Some s, iw_valid := False\<rparr>)"

definition IteratorWrapper_Set :: "'s iter_ops \<Rightarrow> 's option \<Rightarrow> 's iterator_wrapper \<Rightarrow> 's iterator_wrapper" where
  "IteratorWrapper_Set ops iter w =
     (case iter of
        None \<Rightarrow> w\<lparr>iw_iter := None, iw_valid := False\<rparr>
      | Some s \<Rightarrow> IteratorWrapper_Update ops s w)"

definition IteratorWrapper_new :: "'s iter_ops \<Rightarrow> 's \<Rightarrow> 's iterator_wrapper" where
  "IteratorWrapper_new ops s = IteratorWrapper_Set ops (Some s) IteratorWrapper_null"

definition wrapper_move ::
  "'s iter_ops \<Rightarrow> ('s \<Rightarrow> 's option) \<Rightarrow> 's iterator_wrapper \<Rightarrow> 's iterator_wrapper option" where
  "wrapper_move ops f w =
     do { s \<leftarrow> iw_iter w; s' \<leftarrow> f s; Some (IteratorWrapper_Update ops s' w) }"

definition wrapper_ops :: "'s iter_ops \<Rightarrow> 's iterator_wrapper iter_ops" where
  "wrapper_ops ops =
     \<lparr>it_Valid = iw_valid, it_key = iw_key,
      it_value = (\<lambda>w. case iw_iter w of Some s \<Rightarrow> it_value ops s | None \<Rightarrow> []),
      it_status = (\<lambda>w. case iw_iter w of Some s \<Rightarrow> it_status ops s | None \<Rightarrow> OK),
      it_SeekToFirst = wrapper_move ops (it_SeekToFirst ops),
      it_SeekToLast = wrapper_move ops (it_SeekToLast ops),
      it_Seek = (\<lambda>t. wrapper_move ops (it_Seek ops t)),
      it_Next = wrapper_move ops (it_Next ops), it_Prev = wrapper_move ops (it_Prev ops)\<rparr>"

text \<open>What the wrapper caches is what the iterator says.\<close>

definition wrapper_at ::
  "'s iter_ops \<Rightarrow> ('s \<Rightarrow> kv list \<Rightarrow> nat \<Rightarrow> bool) \<Rightarrow> 's iterator_wrapper \<Rightarrow> kv list \<Rightarrow> nat \<Rightarrow> bool" where
  "wrapper_at ops at w kvs i \<longleftrightarrow>
     (\<exists>s. iw_iter w = Some s \<and> at s kvs i \<and> iw_valid w = it_Valid ops s \<and>
          (iw_valid w \<longrightarrow> iw_key w = it_key ops s))"

lemma wrapper_at_Update: "at s kvs i \<Longrightarrow> wrapper_at ops at (IteratorWrapper_Update ops s w) kvs i"
  by (simp add: wrapper_at_def IteratorWrapper_Update_def)

lemma wrapper_at_new: "at s kvs i \<Longrightarrow> wrapper_at ops at (IteratorWrapper_new ops s) kvs i"
  by (simp add: IteratorWrapper_new_def IteratorWrapper_Set_def wrapper_at_Update)

lemma wrapper_move_at:
  assumes "wrapper_at ops at w kvs i" "\<And>s. at s kvs i \<Longrightarrow> \<exists>s'. f s = Some s' \<and> at s' kvs j"
  shows "\<exists>w'. wrapper_move ops f w = Some w' \<and> wrapper_at ops at w' kvs j"
proof -
  obtain s where s: "iw_iter w = Some s" "at s kvs i" using assms(1) by (auto simp: wrapper_at_def)
  then obtain s' where "f s = Some s'" "at s' kvs j" using assms(2) by blast
  then show ?thesis using s by (auto simp: wrapper_move_def wrapper_at_Update)
qed

context iterator
begin

lemma wrapper_iterator: "iterator cmp ok (wrapper_ops ops) (wrapper_at ops at)"
proof unfold_locales
  fix w kvs i t
  assume at: "wrapper_at ops at w kvs i"
  then obtain s where s: "iw_iter w = Some s" "at s kvs i" "iw_valid w = it_Valid ops s"
    "iw_valid w \<Longrightarrow> iw_key w = it_key ops s" by (auto simp: wrapper_at_def)
  show "i \<le> length kvs" "kvs_sorted cmp kvs" "keys_ok ok kvs"
    using s(2) at_bound at_sorted at_ok by blast+
  show "it_Valid (wrapper_ops ops) w = (i < length kvs)" "it_status (wrapper_ops ops) w = OK"
    using s Valid_at status_at by (auto simp: wrapper_ops_def)
  show "it_key (wrapper_ops ops) w = fst (kvs ! i)" "it_value (wrapper_ops ops) w = snd (kvs ! i)"
    if "i < length kvs"
    using that s Valid_at key_at value_at by (auto simp: wrapper_ops_def)
  show "\<exists>w'. it_SeekToFirst (wrapper_ops ops) w = Some w' \<and> wrapper_at ops at w' kvs 0"
    "\<exists>w'. it_SeekToLast (wrapper_ops ops) w = Some w' \<and> wrapper_at ops at w' kvs (length kvs - 1)"
    using wrapper_move_at [OF at] SeekToFirst_at SeekToLast_at by (simp_all add: wrapper_ops_def)
  show "\<exists>w'. it_Seek (wrapper_ops ops) t w = Some w' \<and> wrapper_at ops at w' kvs (seek_pos cmp kvs t)"
    if "ok t"
    using wrapper_move_at [OF at] Seek_at that by (simp add: wrapper_ops_def)
  show "\<exists>w'. it_Next (wrapper_ops ops) w = Some w' \<and> wrapper_at ops at w' kvs (Suc i)"
    "\<exists>w'. it_Prev (wrapper_ops ops) w = Some w' \<and> wrapper_at ops at w' kvs (if i = 0 then length kvs else i - 1)"
    if "i < length kvs"
    using wrapper_move_at [OF at] Next_at Prev_at that by (simp_all add: wrapper_ops_def)
qed

end

section \<open>Runs of movements\<close>

text \<open>
  What a client sees after a sequence of movements, and the cursor over the sorted entries that an
  iterator simulates. \<open>Next\<close> and \<open>Prev\<close> may only be called on a valid iterator.
\<close>

datatype move = ToFirst | ToLast | To bytes | Forward | Backward

definition do_move :: "'s iter_ops \<Rightarrow> move \<Rightarrow> 's \<Rightarrow> 's option" where
  "do_move ops m =
     (case m of ToFirst \<Rightarrow> it_SeekToFirst ops | ToLast \<Rightarrow> it_SeekToLast ops | To t \<Rightarrow> it_Seek ops t
      | Forward \<Rightarrow> it_Next ops | Backward \<Rightarrow> it_Prev ops)"

definition it_entry :: "'s iter_ops \<Rightarrow> 's \<Rightarrow> kv option" where
  "it_entry ops s = (if it_Valid ops s then Some (it_key ops s, it_value ops s) else None)"

fun run_moves :: "'s iter_ops \<Rightarrow> move list \<Rightarrow> 's \<Rightarrow> kv option list option" where
  "run_moves ops [] s = Some []"
| "run_moves ops (m # ms) s =
     do { s \<leftarrow> do_move ops m s; es \<leftarrow> run_moves ops ms s; Some (it_entry ops s # es) }"

definition cursor_move :: "comparator \<Rightarrow> kv list \<Rightarrow> move \<Rightarrow> nat \<Rightarrow> nat option" where
  "cursor_move cmp kvs m i =
     (case m of
        ToFirst \<Rightarrow> Some 0
      | ToLast \<Rightarrow> Some (length kvs - 1)
      | To t \<Rightarrow> Some (seek_pos cmp kvs t)
      | Forward \<Rightarrow> if i < length kvs then Some (Suc i) else None
      | Backward \<Rightarrow> if i < length kvs then Some (if i = 0 then length kvs else i - 1) else None)"

definition cursor_entry :: "kv list \<Rightarrow> nat \<Rightarrow> kv option" where
  "cursor_entry kvs i = (if i < length kvs then Some (kvs ! i) else None)"

fun cursor_run :: "comparator \<Rightarrow> kv list \<Rightarrow> move list \<Rightarrow> nat \<Rightarrow> kv option list option" where
  "cursor_run cmp kvs [] i = Some []"
| "cursor_run cmp kvs (m # ms) i =
     do { i \<leftarrow> cursor_move cmp kvs m i; es \<leftarrow> cursor_run cmp kvs ms i; Some (cursor_entry kvs i # es) }"

definition move_ok :: "(bytes \<Rightarrow> bool) \<Rightarrow> move \<Rightarrow> bool" where
  "move_ok ok m = (case m of To t \<Rightarrow> ok t | _ \<Rightarrow> True)"

context iterator
begin

lemma entry_at: "at s kvs i \<Longrightarrow> it_entry ops s = cursor_entry kvs i"
  by (simp add: it_entry_def cursor_entry_def Valid_at key_at value_at)

lemma move_at:
  assumes at: "at s kvs i" and m: "move_ok ok m" "cursor_move cmp kvs m i = Some j"
  shows "\<exists>s'. do_move ops m s = Some s' \<and> at s' kvs j"
proof (cases m)
  case ToFirst
  then show ?thesis using SeekToFirst_at [OF at] m by (simp add: do_move_def cursor_move_def)
next
  case ToLast
  then show ?thesis using SeekToLast_at [OF at] m by (simp add: do_move_def cursor_move_def)
next
  case (To t)
  then show ?thesis using Seek_at [OF at, of t] m by (simp add: do_move_def cursor_move_def move_ok_def)
next
  case Forward
  then show ?thesis using Next_at [OF at] m by (simp add: do_move_def cursor_move_def split: if_splits)
next
  case Backward
  then show ?thesis using Prev_at [OF at] m by (simp add: do_move_def cursor_move_def split: if_splits)
qed

text \<open>An iterator simulates the cursor over its entries.\<close>

lemma run_at:
  "at s kvs i \<Longrightarrow> list_all (move_ok ok) ms \<Longrightarrow> cursor_run cmp kvs ms i = Some es \<Longrightarrow> run_moves ops ms s = Some es"
proof (induction ms arbitrary: s i es)
  case (Cons m ms)
  obtain j es' where j: "cursor_move cmp kvs m i = Some j" "cursor_run cmp kvs ms j = Some es'"
    "es = cursor_entry kvs j # es'"
    using Cons.prems(3) by (auto split: bind_splits)
  obtain s' where s': "do_move ops m s = Some s'" "at s' kvs j"
    using move_at [OF Cons.prems(1) _ j(1)] Cons.prems(2) by auto
  then show ?case using Cons.IH [OF s'(2) _ j(2)] Cons.prems(2) j(3) entry_at [OF s'(2)] by simp
qed simp

end
end
