(* ===== verification/TwoLevel.thy ===== *)
theory TwoLevel
  imports IteratorSpec DbOptions
begin

text \<open>
  \<open>table/two_level_iterator.cpp\<close>: an index iterator whose values are block handles, and an iterator over
  the block of the current one. The block function gets the object it is called on as an explicit
  state, which it may change (a table with its block cache). The blocks may be empty; the loops that
  skip them may not end over an arbitrary index, so they are partial functions.
\<close>

section \<open>The two-level iterator\<close>

type_synonym ('d, 'a) block_function = "'a \<Rightarrow> read_options \<Rightarrow> bytes \<Rightarrow> 'd \<times> 'a"

record ('i, 'd, 'a) two_level =
  tl_arg :: 'a
  tl_options :: read_options
  tl_status :: status
  tl_index :: "'i iterator_wrapper"
  tl_data :: "'d iterator_wrapper"
  tl_handle :: bytes

definition NewTwoLevelIterator :: "'i iter_ops \<Rightarrow> 'i \<Rightarrow> 'a \<Rightarrow> read_options \<Rightarrow> ('i, 'd, 'a) two_level" where
  "NewTwoLevelIterator iops index_iter arg options =
     \<lparr>tl_arg = arg, tl_options = options, tl_status = OK, tl_index = IteratorWrapper_new iops index_iter,
      tl_data = IteratorWrapper_null, tl_handle = []\<rparr>"

definition SaveError :: "status \<Rightarrow> ('i, 'd, 'a) two_level \<Rightarrow> ('i, 'd, 'a) two_level" where
  "SaveError st s = (if status_ok (tl_status s) \<and> \<not> status_ok st then s\<lparr>tl_status := st\<rparr> else s)"

definition SetDataIterator ::
  "'d iter_ops \<Rightarrow> 'd option \<Rightarrow> ('i, 'd, 'a) two_level \<Rightarrow> ('i, 'd, 'a) two_level" where
  "SetDataIterator dops data_iter s =
     (let s = (if iw_iter (tl_data s) \<noteq> None then SaveError (it_status (wrapper_ops dops) (tl_data s)) s else s)
      in s\<lparr>tl_data := IteratorWrapper_Set dops data_iter (tl_data s)\<rparr>)"

definition InitDataBlock ::
  "'i iter_ops \<Rightarrow> 'd iter_ops \<Rightarrow> ('d, 'a) block_function \<Rightarrow> ('i, 'd, 'a) two_level \<Rightarrow> ('i, 'd, 'a) two_level" where
  "InitDataBlock iops dops bf s =
     (if \<not> iw_valid (tl_index s) then SetDataIterator dops None s
      else
        let handle = it_value (wrapper_ops iops) (tl_index s)
        in if iw_iter (tl_data s) \<noteq> None \<and> Slice_compare handle (tl_handle s) = 0 then s
           else
             let (iter, arg) = bf (tl_arg s) (tl_options s) handle
             in SetDataIterator dops (Some iter) (s\<lparr>tl_arg := arg, tl_handle := handle\<rparr>))"

text \<open>A call on the data iterator if there is one.\<close>

definition data_move ::
  "('d iterator_wrapper \<Rightarrow> 'd iterator_wrapper option) \<Rightarrow> ('i, 'd, 'a) two_level \<Rightarrow> ('i, 'd, 'a) two_level option" where
  "data_move f s =
     (if iw_iter (tl_data s) \<noteq> None then do { d \<leftarrow> f (tl_data s); Some (s\<lparr>tl_data := d\<rparr>) } else Some s)"

partial_function (option) SkipEmptyDataBlocksForward ::
  "'i iter_ops \<Rightarrow> 'd iter_ops \<Rightarrow> ('d, 'a) block_function \<Rightarrow> ('i, 'd, 'a) two_level \<Rightarrow> ('i, 'd, 'a) two_level option" where
  "SkipEmptyDataBlocksForward iops dops bf s =
     (if iw_iter (tl_data s) = None \<or> \<not> iw_valid (tl_data s) then
        if \<not> iw_valid (tl_index s) then Some (SetDataIterator dops None s)
        else do {
          index \<leftarrow> it_Next (wrapper_ops iops) (tl_index s);
          s \<leftarrow> data_move (it_SeekToFirst (wrapper_ops dops)) (InitDataBlock iops dops bf (s\<lparr>tl_index := index\<rparr>));
          SkipEmptyDataBlocksForward iops dops bf s }
      else Some s)"

partial_function (option) SkipEmptyDataBlocksBackward ::
  "'i iter_ops \<Rightarrow> 'd iter_ops \<Rightarrow> ('d, 'a) block_function \<Rightarrow> ('i, 'd, 'a) two_level \<Rightarrow> ('i, 'd, 'a) two_level option" where
  "SkipEmptyDataBlocksBackward iops dops bf s =
     (if iw_iter (tl_data s) = None \<or> \<not> iw_valid (tl_data s) then
        if \<not> iw_valid (tl_index s) then Some (SetDataIterator dops None s)
        else do {
          index \<leftarrow> it_Prev (wrapper_ops iops) (tl_index s);
          s \<leftarrow> data_move (it_SeekToLast (wrapper_ops dops)) (InitDataBlock iops dops bf (s\<lparr>tl_index := index\<rparr>));
          SkipEmptyDataBlocksBackward iops dops bf s }
      else Some s)"

definition TwoLevel_Seek ::
  "'i iter_ops \<Rightarrow> 'd iter_ops \<Rightarrow> ('d, 'a) block_function \<Rightarrow> bytes \<Rightarrow> ('i, 'd, 'a) two_level \<Rightarrow> ('i, 'd, 'a) two_level option" where
  "TwoLevel_Seek iops dops bf target s =
     do {
       index \<leftarrow> it_Seek (wrapper_ops iops) target (tl_index s);
       s \<leftarrow> data_move (it_Seek (wrapper_ops dops) target) (InitDataBlock iops dops bf (s\<lparr>tl_index := index\<rparr>));
       SkipEmptyDataBlocksForward iops dops bf s }"

definition TwoLevel_SeekToFirst ::
  "'i iter_ops \<Rightarrow> 'd iter_ops \<Rightarrow> ('d, 'a) block_function \<Rightarrow> ('i, 'd, 'a) two_level \<Rightarrow> ('i, 'd, 'a) two_level option" where
  "TwoLevel_SeekToFirst iops dops bf s =
     do {
       index \<leftarrow> it_SeekToFirst (wrapper_ops iops) (tl_index s);
       s \<leftarrow> data_move (it_SeekToFirst (wrapper_ops dops)) (InitDataBlock iops dops bf (s\<lparr>tl_index := index\<rparr>));
       SkipEmptyDataBlocksForward iops dops bf s }"

definition TwoLevel_SeekToLast ::
  "'i iter_ops \<Rightarrow> 'd iter_ops \<Rightarrow> ('d, 'a) block_function \<Rightarrow> ('i, 'd, 'a) two_level \<Rightarrow> ('i, 'd, 'a) two_level option" where
  "TwoLevel_SeekToLast iops dops bf s =
     do {
       index \<leftarrow> it_SeekToLast (wrapper_ops iops) (tl_index s);
       s \<leftarrow> data_move (it_SeekToLast (wrapper_ops dops)) (InitDataBlock iops dops bf (s\<lparr>tl_index := index\<rparr>));
       SkipEmptyDataBlocksBackward iops dops bf s }"

definition TwoLevel_Next ::
  "'i iter_ops \<Rightarrow> 'd iter_ops \<Rightarrow> ('d, 'a) block_function \<Rightarrow> ('i, 'd, 'a) two_level \<Rightarrow> ('i, 'd, 'a) two_level option" where
  "TwoLevel_Next iops dops bf s =
     do {
       d \<leftarrow> it_Next (wrapper_ops dops) (tl_data s);
       SkipEmptyDataBlocksForward iops dops bf (s\<lparr>tl_data := d\<rparr>) }"

definition TwoLevel_Prev ::
  "'i iter_ops \<Rightarrow> 'd iter_ops \<Rightarrow> ('d, 'a) block_function \<Rightarrow> ('i, 'd, 'a) two_level \<Rightarrow> ('i, 'd, 'a) two_level option" where
  "TwoLevel_Prev iops dops bf s =
     do {
       d \<leftarrow> it_Prev (wrapper_ops dops) (tl_data s);
       SkipEmptyDataBlocksBackward iops dops bf (s\<lparr>tl_data := d\<rparr>) }"

definition TwoLevel_status :: "'i iter_ops \<Rightarrow> 'd iter_ops \<Rightarrow> ('i, 'd, 'a) two_level \<Rightarrow> status" where
  "TwoLevel_status iops dops s =
     (if \<not> status_ok (it_status (wrapper_ops iops) (tl_index s)) then it_status (wrapper_ops iops) (tl_index s)
      else if iw_iter (tl_data s) \<noteq> None \<and> \<not> status_ok (it_status (wrapper_ops dops) (tl_data s))
      then it_status (wrapper_ops dops) (tl_data s)
      else tl_status s)"

definition two_level_ops ::
  "'i iter_ops \<Rightarrow> 'd iter_ops \<Rightarrow> ('d, 'a) block_function \<Rightarrow> ('i, 'd, 'a) two_level iter_ops" where
  "two_level_ops iops dops bf =
     \<lparr>it_Valid = (\<lambda>s. iw_valid (tl_data s)), it_key = (\<lambda>s. iw_key (tl_data s)),
      it_value = (\<lambda>s. it_value (wrapper_ops dops) (tl_data s)), it_status = TwoLevel_status iops dops,
      it_SeekToFirst = TwoLevel_SeekToFirst iops dops bf, it_SeekToLast = TwoLevel_SeekToLast iops dops bf,
      it_Seek = TwoLevel_Seek iops dops bf, it_Next = TwoLevel_Next iops dops bf,
      it_Prev = TwoLevel_Prev iops dops bf\<rparr>"

section \<open>The sequence of all blocks\<close>

text \<open>
  \<open>content\<close> gives the entries of the block with a given handle, \<open>block_start\<close> the number of entries before
  block \<open>n\<close>. In a layout, the key of an index entry is at least every key of its block and less than
  the keys of all later blocks.
\<close>

definition blk :: "(bytes \<Rightarrow> kv list option) \<Rightarrow> kv list \<Rightarrow> nat \<Rightarrow> kv list" where
  "blk content idx n = the (content (snd (idx ! n)))"

definition all_blocks :: "(bytes \<Rightarrow> kv list option) \<Rightarrow> kv list \<Rightarrow> kv list" where
  "all_blocks content idx = concat (map (blk content idx) [0..<length idx])"

definition block_start :: "(bytes \<Rightarrow> kv list option) \<Rightarrow> kv list \<Rightarrow> nat \<Rightarrow> nat" where
  "block_start content idx n = length (concat (map (blk content idx) [0..<n]))"

definition layout :: "comparator \<Rightarrow> (bytes \<Rightarrow> kv list option) \<Rightarrow> kv list \<Rightarrow> bool" where
  "layout cmp content idx \<longleftrightarrow>
     (\<forall>n<length idx. content (snd (idx ! n)) \<noteq> None) \<and>
     (\<forall>n<length idx. \<forall>e\<in>set (blk content idx n). Compare cmp (fst e) (fst (idx ! n)) \<le> 0) \<and>
     (\<forall>n m. n < m \<longrightarrow> m < length idx \<longrightarrow>
        (\<forall>e\<in>set (blk content idx m). Compare cmp (fst (idx ! n)) (fst e) < 0))"

lemma block_start_0 [simp]: "block_start content idx 0 = 0"
  by (simp add: block_start_def)

lemma block_start_Suc: "block_start content idx (Suc n) = block_start content idx n + length (blk content idx n)"
  by (simp add: block_start_def)

lemma length_all_blocks: "length (all_blocks content idx) = block_start content idx (length idx)"
  by (simp add: all_blocks_def block_start_def)

lemma block_start_mono: "n \<le> m \<Longrightarrow> block_start content idx n \<le> block_start content idx m"
  using lift_Suc_mono_le [of "block_start content idx"] by (simp add: block_start_Suc)

lemma all_blocks_split:
  assumes "n < length idx"
  shows "all_blocks content idx = concat (map (blk content idx) [0..<n]) @ blk content idx n @
    concat (map (blk content idx) [Suc n..<length idx])"
proof -
  have "[0..<length idx] = [0..<n] @ n # [Suc n..<length idx]"
    using assms upt_add_eq_append [of 0 n "length idx - n"] by (simp add: upt_conv_Cons)
  then show ?thesis by (simp add: all_blocks_def)
qed

lemma all_blocks_nth:
  "n < length idx \<Longrightarrow> p < length (blk content idx n) \<Longrightarrow>
   all_blocks content idx ! (block_start content idx n + p) = blk content idx n ! p"
  using all_blocks_split [of n idx content] by (simp add: block_start_def nth_append)

lemma block_start_bound:
  "n < length idx \<Longrightarrow> block_start content idx n + length (blk content idx n) \<le> length (all_blocks content idx)"
  using block_start_mono [of "Suc n" "length idx" content idx] by (simp add: length_all_blocks block_start_Suc)

section \<open>The interface\<close>

locale two_level =
  index: iterator cmp ok iops iat + data: iterator cmp ok dops dat
  for cmp :: comparator and ok :: "bytes \<Rightarrow> bool"
    and iops :: "'i iter_ops" and iat :: "'i \<Rightarrow> kv list \<Rightarrow> nat \<Rightarrow> bool"
    and dops :: "'d iter_ops" and dat :: "'d \<Rightarrow> kv list \<Rightarrow> nat \<Rightarrow> bool" +
  fixes bf :: "('d, 'a) block_function" and arg_ok :: "'a \<Rightarrow> bool"
    and content :: "bytes \<Rightarrow> kv list option"
  assumes block: "arg_ok a \<Longrightarrow> content h = Some kvs \<Longrightarrow>
    arg_ok (snd (bf a options h)) \<and> (\<exists>i. dat (fst (bf a options h)) kvs i)"

sublocale two_level \<subseteq> iw: iterator cmp ok "wrapper_ops iops" "wrapper_at iops iat"
  by (rule index.wrapper_iterator)

sublocale two_level \<subseteq> dw: iterator cmp ok "wrapper_ops dops" "wrapper_at dops dat"
  by (rule data.wrapper_iterator)

context two_level
begin

text \<open>What holds in every state: the data iterator, if any, is over the block of the saved handle.\<close>

definition tl_inv :: "('i, 'd, 'a) two_level \<Rightarrow> bool" where
  "tl_inv s \<longleftrightarrow> arg_ok (tl_arg s) \<and> tl_status s = OK \<and>
     (iw_iter (tl_data s) = None \<and> \<not> iw_valid (tl_data s) \<or>
      (\<exists>kvs p. content (tl_handle s) = Some kvs \<and> wrapper_at dops dat (tl_data s) kvs p))"

text \<open>At entry \<open>p\<close> of block \<open>n\<close>, or past the end of the block.\<close>

definition tl_raw :: "('i, 'd, 'a) two_level \<Rightarrow> kv list \<Rightarrow> nat \<Rightarrow> nat \<Rightarrow> bool" where
  "tl_raw s idx n p \<longleftrightarrow> tl_inv s \<and> n < length idx \<and> wrapper_at iops iat (tl_index s) idx n \<and>
     content (tl_handle s) = Some (blk content idx n) \<and> wrapper_at dops dat (tl_data s) (blk content idx n) p"

definition tl_none :: "('i, 'd, 'a) two_level \<Rightarrow> kv list \<Rightarrow> bool" where
  "tl_none s idx \<longleftrightarrow> tl_inv s \<and> wrapper_at iops iat (tl_index s) idx (length idx) \<and>
     iw_iter (tl_data s) = None"

definition tl_pos :: "('i, 'd, 'a) two_level \<Rightarrow> kv list \<Rightarrow> nat \<Rightarrow> bool" where
  "tl_pos s idx i \<longleftrightarrow>
     (\<exists>n p. tl_raw s idx n p \<and> p < length (blk content idx n) \<and> i = block_start content idx n + p) \<or>
     (tl_none s idx \<and> i = length (all_blocks content idx))"

text \<open>A new iterator has no data iterator; its index iterator may stand anywhere.\<close>

definition tl_at :: "('i, 'd, 'a) two_level \<Rightarrow> kv list \<Rightarrow> nat \<Rightarrow> bool" where
  "tl_at s kvs i \<longleftrightarrow>
     (\<exists>idx. layout cmp content idx \<and> kvs = all_blocks content idx \<and> kvs_sorted cmp kvs \<and> keys_ok ok kvs \<and>
        (tl_pos s idx i \<or>
         tl_inv s \<and> i = length kvs \<and> iw_iter (tl_data s) = None \<and> (\<exists>n. wrapper_at iops iat (tl_index s) idx n)))"

lemma wrapper_at_iter: "wrapper_at dops dat w kvs i \<Longrightarrow> iw_iter w \<noteq> None"
  by (auto simp: wrapper_at_def)

lemma wrapper_valid:
  "wrapper_at dops dat w kvs p \<Longrightarrow> iw_valid w \<longleftrightarrow> p < length kvs"
  "wrapper_at iops iat v kvs p \<Longrightarrow> iw_valid v \<longleftrightarrow> p < length kvs"
  using dw.Valid_at iw.Valid_at by (simp_all add: wrapper_ops_def)

lemma SetDataIterator_fields:
  assumes "tl_inv s"
  shows "SetDataIterator dops d s = s\<lparr>tl_data := IteratorWrapper_Set dops d (tl_data s)\<rparr>"
  using assms dw.status_at
  by (auto simp: SetDataIterator_def Let_def tl_inv_def SaveError_def wrapper_at_iter)

lemma SetDataIterator_None:
  assumes "tl_inv s" "wrapper_at iops iat (tl_index s) idx (length idx)"
  shows "tl_none (SetDataIterator dops None s) idx"
  using assms by (auto simp: SetDataIterator_fields tl_none_def tl_inv_def IteratorWrapper_Set_def)

lemma InitDataBlock_none:
  assumes "tl_inv s" "wrapper_at iops iat (tl_index s) idx (length idx)"
  shows "tl_none (InitDataBlock iops dops bf s) idx"
  using assms wrapper_valid(2) [OF assms(2)] SetDataIterator_None by (simp add: InitDataBlock_def)

lemma Slice_compare_0: "Slice_compare a b = 0 \<longleftrightarrow> a = b"
  using bytewise.compare_eq_iff by simp

lemma InitDataBlock_block:
  assumes inv: "tl_inv s" and at: "wrapper_at iops iat (tl_index s) idx n" and n: "n < length idx"
    and c: "content (snd (idx ! n)) \<noteq> None"
  shows "\<exists>p. tl_raw (InitDataBlock iops dops bf s) idx n p"
proof -
  have v: "iw_valid (tl_index s)" using wrapper_valid(2) [OF at] n by simp
  have h: "it_value (wrapper_ops iops) (tl_index s) = snd (idx ! n)" by (rule iw.value_at [OF at n])
  have blk: "content (snd (idx ! n)) = Some (blk content idx n)" using c by (auto simp: blk_def)
  show ?thesis
  proof (cases "iw_iter (tl_data s) \<noteq> None \<and> snd (idx ! n) = tl_handle s")
    case True
    then obtain p where "wrapper_at dops dat (tl_data s) (blk content idx n) p"
      using inv blk by (auto simp: tl_inv_def)
    then have "tl_raw s idx n p" using True inv at n blk by (simp add: tl_raw_def)
    moreover have "InitDataBlock iops dops bf s = s"
      using True v h by (simp add: InitDataBlock_def Slice_compare_0)
    ultimately show ?thesis by auto
  next
    case False
    obtain d a where bf: "bf (tl_arg s) (tl_options s) (snd (idx ! n)) = (d, a)" by fastforce
    obtain i where a: "arg_ok a" "dat d (blk content idx n) i"
      using block [OF _ blk, of "tl_arg s" "tl_options s"] inv bf by (auto simp: tl_inv_def)
    let ?s = "s\<lparr>tl_arg := a, tl_handle := snd (idx ! n)\<rparr>"
    have set: "SetDataIterator dops (Some d) ?s = ?s\<lparr>tl_data := IteratorWrapper_Set dops (Some d) (tl_data s)\<rparr>"
      using inv dw.status_at by (auto simp: SetDataIterator_def Let_def tl_inv_def SaveError_def wrapper_at_iter)
    have "wrapper_at dops dat (IteratorWrapper_Set dops (Some d) (tl_data s)) (blk content idx n) i"
      using a(2) by (simp add: IteratorWrapper_Set_def wrapper_at_Update)
    then have "tl_raw (SetDataIterator dops (Some d) ?s) idx n i"
      using inv at n a(1) blk by (auto simp: set tl_raw_def tl_inv_def)
    moreover have "InitDataBlock iops dops bf s = SetDataIterator dops (Some d) ?s"
      unfolding InitDataBlock_def Let_def h bf Slice_compare_0 using v False by auto
    ultimately show ?thesis by auto
  qed
qed

end

section \<open>Skipping empty blocks\<close>

context two_level
begin

lemma data_move_raw:
  assumes r: "tl_raw s idx n p"
    and f: "\<And>w. wrapper_at dops dat w (blk content idx n) p \<Longrightarrow>
      \<exists>w'. f w = Some w' \<and> wrapper_at dops dat w' (blk content idx n) p'"
  shows "\<exists>s'. data_move f s = Some s' \<and> tl_raw s' idx n p'"
proof -
  obtain w' where w': "f (tl_data s) = Some w'" "wrapper_at dops dat w' (blk content idx n) p'"
    using f r by (auto simp: tl_raw_def)
  have "tl_raw (s\<lparr>tl_data := w'\<rparr>) idx n p'" using r w'(2) by (auto simp: tl_raw_def tl_inv_def)
  moreover have "data_move f s = Some (s\<lparr>tl_data := w'\<rparr>)"
    using r w'(1) wrapper_at_iter [of "tl_data s"] by (fastforce simp: data_move_def tl_raw_def)
  ultimately show ?thesis by blast
qed

lemma data_move_none: "tl_none s idx \<Longrightarrow> data_move f s = Some s"
  by (simp add: data_move_def tl_none_def)

lemma tl_inv_index [simp]: "tl_inv (s\<lparr>tl_index := x\<rparr>) = tl_inv s"
  by (simp add: tl_inv_def)

lemma tl_none_pos: "tl_none s idx \<Longrightarrow> tl_pos s idx (length (all_blocks content idx))"
  by (simp add: tl_pos_def)

lemma tl_raw_pos: "tl_raw s idx n p \<Longrightarrow> p < length (blk content idx n) \<Longrightarrow> tl_pos s idx (block_start content idx n + p)"
  unfolding tl_pos_def by blast

lemma tl_raw_data: "tl_raw s idx n p \<Longrightarrow> iw_iter (tl_data s) \<noteq> None \<and> (iw_valid (tl_data s) \<longleftrightarrow> p < length (blk content idx n)) \<and>
    p \<le> length (blk content idx n) \<and> iw_valid (tl_index s)"
  using wrapper_valid dw.at_bound wrapper_at_iter unfolding tl_raw_def by blast

lemma tl_none_skip:
  assumes "tl_none s idx"
  shows "\<exists>s'. SkipEmptyDataBlocksForward iops dops bf s = Some s' \<and> tl_none s' idx"
    "\<exists>s'. SkipEmptyDataBlocksBackward iops dops bf s = Some s' \<and> tl_none s' idx"
proof -
  have n: "iw_iter (tl_data s) = None" "\<not> iw_valid (tl_index s)"
    using assms wrapper_valid(2) by (auto simp: tl_none_def)
  have "tl_none (SetDataIterator dops None s) idx"
    using assms by (intro SetDataIterator_None) (simp_all add: tl_none_def)
  then show "\<exists>s'. SkipEmptyDataBlocksForward iops dops bf s = Some s' \<and> tl_none s' idx"
    "\<exists>s'. SkipEmptyDataBlocksBackward iops dops bf s = Some s' \<and> tl_none s' idx"
    using n by (simp_all add: SkipEmptyDataBlocksForward.simps SkipEmptyDataBlocksBackward.simps)
qed

text \<open>The block under the index iterator, entered by a movement \<open>f\<close> of the data iterator.\<close>

lemma enter_block:
  assumes "layout cmp content idx" "tl_inv s" "wrapper_at iops iat w idx n" "n < length idx"
    and f: "\<And>w p. wrapper_at dops dat w (blk content idx n) p \<Longrightarrow>
      \<exists>w'. f w = Some w' \<and> wrapper_at dops dat w' (blk content idx n) q"
  shows "\<exists>s'. data_move f (InitDataBlock iops dops bf (s\<lparr>tl_index := w\<rparr>)) = Some s' \<and> tl_raw s' idx n q"
proof -
  have c: "content (snd (idx ! n)) \<noteq> None" using assms(1,4) unfolding layout_def by blast
  obtain p where "tl_raw (InitDataBlock iops dops bf (s\<lparr>tl_index := w\<rparr>)) idx n p"
    using InitDataBlock_block [of "s\<lparr>tl_index := w\<rparr>" idx n] assms c by auto
  then show ?thesis using data_move_raw f by blast
qed

lemma leave_blocks:
  assumes "tl_inv s" "wrapper_at iops iat w idx (length idx)"
  shows "\<exists>s'. data_move f (InitDataBlock iops dops bf (s\<lparr>tl_index := w\<rparr>)) = Some s' \<and> tl_none s' idx"
  using InitDataBlock_none [of "s\<lparr>tl_index := w\<rparr>" idx] data_move_none assms by simp

lemma SkipForward_pos:
  assumes l: "layout cmp content idx" and r: "tl_raw s idx n p"
  shows "\<exists>s'. SkipEmptyDataBlocksForward iops dops bf s = Some s' \<and> tl_pos s' idx (block_start content idx n + p)"
  using r
proof (induction "length idx - n" arbitrary: s n p rule: less_induct)
  case less
  note r = less.prems
  have d: "iw_iter (tl_data s) \<noteq> None" "iw_valid (tl_data s) \<longleftrightarrow> p < length (blk content idx n)"
    "p \<le> length (blk content idx n)" "iw_valid (tl_index s)" using tl_raw_data [OF r] by auto
  have n: "n < length idx" "tl_inv s" using r by (simp_all add: tl_raw_def)
  show ?case
  proof (cases "p < length (blk content idx n)")
    case True
    have "SkipEmptyDataBlocksForward iops dops bf s = Some s"
      by (subst SkipEmptyDataBlocksForward.simps) (simp add: d(1,2) True)
    then show ?thesis using True r by (auto simp: tl_pos_def)
  next
    case False
    then have eq: "block_start content idx n + p = block_start content idx (Suc n)" using d(3) by (simp add: block_start_Suc)
    obtain w where w: "it_Next (wrapper_ops iops) (tl_index s) = Some w" "wrapper_at iops iat w idx (Suc n)"
      using iw.Next_at [of "tl_index s" idx n] r by (auto simp: tl_raw_def)
    have step: "SkipEmptyDataBlocksForward iops dops bf s =
        do { s \<leftarrow> data_move (it_SeekToFirst (wrapper_ops dops)) (InitDataBlock iops dops bf (s\<lparr>tl_index := w\<rparr>));
             SkipEmptyDataBlocksForward iops dops bf s }"
      by (subst SkipEmptyDataBlocksForward.simps) (simp add: d False w(1))
    show ?thesis
    proof (cases "Suc n < length idx")
      case True
      obtain s1 where s1: "data_move (it_SeekToFirst (wrapper_ops dops)) (InitDataBlock iops dops bf (s\<lparr>tl_index := w\<rparr>)) = Some s1"
        "tl_raw s1 idx (Suc n) 0"
        using enter_block [OF l n(2) w(2) True, of "it_SeekToFirst (wrapper_ops dops)" 0] dw.SeekToFirst_at by blast
      then show ?thesis using less.hyps [OF _ s1(2)] True eq by (simp add: step)
    next
      case last: False
      then have "Suc n = length idx" using n(1) by simp
      then obtain s1 where "data_move (it_SeekToFirst (wrapper_ops dops)) (InitDataBlock iops dops bf (s\<lparr>tl_index := w\<rparr>)) = Some s1"
        "tl_none s1 idx" using leave_blocks [OF n(2)] w(2) by force
      moreover have "block_start content idx n + p = length (all_blocks content idx)"
        using eq \<open>Suc n = length idx\<close> by (simp add: length_all_blocks)
      ultimately show ?thesis using tl_none_skip(1) tl_none_pos by (fastforce simp: step)
    qed
  qed
qed

text \<open>Backward from a block that has no entry left: to the entry before the block, if any.\<close>

lemma SkipBackward_pos:
  assumes l: "layout cmp content idx" and r: "tl_raw s idx n (length (blk content idx n))"
  shows "\<exists>s'. SkipEmptyDataBlocksBackward iops dops bf s = Some s' \<and>
    tl_pos s' idx (if block_start content idx n = 0 then length (all_blocks content idx) else block_start content idx n - 1)"
  using r
proof (induction n arbitrary: s)
  case (0 s)
  have d: "iw_iter (tl_data s) \<noteq> None" "\<not> iw_valid (tl_data s)" "iw_valid (tl_index s)" "tl_inv s"
    using tl_raw_data [OF 0] 0 by (auto simp: tl_raw_def)
  obtain w where w: "it_Prev (wrapper_ops iops) (tl_index s) = Some w" "wrapper_at iops iat w idx (length idx)"
    using iw.Prev_at [of "tl_index s" idx 0] 0 by (auto simp: tl_raw_def)
  obtain s1 where s1: "data_move (it_SeekToLast (wrapper_ops dops)) (InitDataBlock iops dops bf (s\<lparr>tl_index := w\<rparr>)) = Some s1"
    "tl_none s1 idx" using leave_blocks [OF d(4) w(2)] by blast
  have "SkipEmptyDataBlocksBackward iops dops bf s = SkipEmptyDataBlocksBackward iops dops bf s1"
    by (subst SkipEmptyDataBlocksBackward.simps) (simp add: d w(1) s1(1))
  then show ?case using tl_none_skip(2) [OF s1(2)] tl_none_pos by auto
next
  case (Suc n s)
  have d: "iw_iter (tl_data s) \<noteq> None" "\<not> iw_valid (tl_data s)" "iw_valid (tl_index s)" "tl_inv s" "n < length idx"
    using tl_raw_data [OF Suc.prems] Suc.prems by (auto simp: tl_raw_def)
  obtain w where w: "it_Prev (wrapper_ops iops) (tl_index s) = Some w" "wrapper_at iops iat w idx n"
    using iw.Prev_at [of "tl_index s" idx "Suc n"] Suc.prems by (auto simp: tl_raw_def)
  obtain s1 where s1: "data_move (it_SeekToLast (wrapper_ops dops)) (InitDataBlock iops dops bf (s\<lparr>tl_index := w\<rparr>)) = Some s1"
    "tl_raw s1 idx n (length (blk content idx n) - 1)"
    using enter_block [OF l d(4) w(2) d(5), of "it_SeekToLast (wrapper_ops dops)"] dw.SeekToLast_at by blast
  have step: "SkipEmptyDataBlocksBackward iops dops bf s = SkipEmptyDataBlocksBackward iops dops bf s1"
    by (subst SkipEmptyDataBlocksBackward.simps) (simp add: d w(1) s1(1))
  show ?case
  proof (cases "blk content idx n = []")
    case True
    then show ?thesis using Suc.IH [of s1] s1(2) by (simp add: step block_start_Suc split: if_splits)
  next
    case False
    then have "iw_iter (tl_data s1) \<noteq> None" "iw_valid (tl_data s1)" using tl_raw_data [OF s1(2)] by simp_all
    then have "SkipEmptyDataBlocksBackward iops dops bf s1 = Some s1"
      by (subst SkipEmptyDataBlocksBackward.simps) auto
    moreover have "block_start content idx (Suc n) - 1 = block_start content idx n + (length (blk content idx n) - 1)"
      "block_start content idx (Suc n) \<noteq> 0"
      using False by (cases "blk content idx n"; simp add: block_start_Suc)+
    ultimately show ?thesis using tl_raw_pos [OF s1(2)] False by (simp add: step)
  qed
qed

end

section \<open>The two-level iterator is an iterator\<close>

lemma find_block:
  assumes "m < length (all_blocks content idx)"
  obtains n p where "n < length idx" "p < length (blk content idx n)" "m = block_start content idx n + p"
proof -
  have "\<exists>n p. n < k \<and> p < length (blk content idx n) \<and> m = block_start content idx n + p"
    if "m < block_start content idx k" for k
    using that
  proof (induction k)
    case (Suc k)
    show ?case
    proof (cases "m < block_start content idx k")
      case True then show ?thesis using Suc.IH less_SucI by blast
    next
      case False
      then show ?thesis using Suc.prems by (intro exI [of _ k] exI [of _ "m - block_start content idx k"]) (auto simp: block_start_Suc)
    qed
  qed simp
  then show ?thesis using that assms unfolding length_all_blocks by blast
qed

lemma block_order:
  assumes "p' < length (blk content idx n')" "p \<le> length (blk content idx n)"
  shows "block_start content idx n' + p' < block_start content idx n + p \<longleftrightarrow> n' < n \<or> n' = n \<and> p' < p"
proof (cases n' n rule: linorder_cases)
  case less
  then show ?thesis using block_start_mono [of "Suc n'" n content idx] assms(1) by (simp add: block_start_Suc)
next
  case greater
  then show ?thesis using block_start_mono [of "Suc n" n' content idx] assms(2) by (simp add: block_start_Suc)
qed auto

context two_level
begin

lemma blk_laws:
  assumes "layout cmp content idx" "n < length idx" "arg_ok a"
  shows "kvs_sorted cmp (blk content idx n)" "keys_ok ok (blk content idx n)"
proof -
  have "content (snd (idx ! n)) \<noteq> None" using assms(1,2) unfolding layout_def by blast
  then have "content (snd (idx ! n)) = Some (blk content idx n)" by (auto simp: blk_def)
  then obtain d i where "dat d (blk content idx n) i" using block [OF assms(3)] by blast
  then show "kvs_sorted cmp (blk content idx n)" "keys_ok ok (blk content idx n)"
    using data.at_sorted data.at_ok by blast+
qed

text \<open>Searching the index and then the block finds the first entry at or past the target.\<close>

lemma two_level_seek_pos:
  assumes l: "layout cmp content idx" and a: "arg_ok a" and s: "kvs_sorted cmp idx" "keys_ok ok idx"
    and t: "ok t" and k: "keys_ok ok (all_blocks content idx)"
  shows "seek_pos cmp (all_blocks content idx) t =
    (if seek_pos cmp idx t < length idx
     then block_start content idx (seek_pos cmp idx t) + seek_pos cmp (blk content idx (seek_pos cmp idx t)) t
     else length (all_blocks content idx))"
proof -
  let ?n = "seek_pos cmp idx t"
  have below: "Compare cmp (fst (blk content idx n' ! p')) t < 0 \<longleftrightarrow>
      n' < ?n \<or> (n' = ?n \<and> p' < seek_pos cmp (blk content idx n') t)"
    if n': "n' < length idx" "p' < length (blk content idx n')" for n' p'
  proof -
    let ?e = "blk content idx n' ! p'"
    have e: "?e \<in> set (blk content idx n')" using n'(2) by simp
    have oke: "ok (fst ?e)" using blk_laws(2) [OF l n'(1) a] keys_ok_nth n'(2) by blast
    have okn: "ok (fst (idx ! m))" if "m < length idx" for m using keys_ok_nth [OF s(2) that] .
    consider "n' < ?n" | "n' = ?n" | "?n < n'" by linarith
    then show ?thesis
    proof cases
      case 1
      have "Compare cmp (fst ?e) (fst (idx ! n')) \<le> 0" using l n'(1) e unfolding layout_def by blast
      moreover have "Compare cmp (fst (idx ! n')) t < 0" using index.seek_pos_iff [OF s t n'(1)] 1 by blast
      ultimately show ?thesis using 1 index.compare_le_less_trans [OF oke okn [OF n'(1)] t] by simp
    next
      case 2
      then show ?thesis using index.seek_pos_iff [OF blk_laws [OF l n'(1) a] t n'(2)] by simp
    next
      case 3
      then have n: "?n < length idx" using n'(1) by simp
      have "Compare cmp (fst (idx ! ?n)) (fst ?e) < 0" using l 3 n'(1) e unfolding layout_def by blast
      moreover have "\<not> Compare cmp (fst (idx ! ?n)) t < 0" using index.seek_pos_iff [OF s t n] by simp
      ultimately have "\<not> Compare cmp (fst ?e) t < 0"
        using index.compare_trans [OF okn [OF n] oke t] by blast
      then show ?thesis using 3 by simp
    qed
  qed
  show ?thesis
  proof (cases "?n < length idx")
    case True
    let ?p = "seek_pos cmp (blk content idx ?n) t"
    have p: "?p \<le> length (blk content idx ?n)" by (rule seek_pos_le)
    have iff: "Compare cmp (fst (all_blocks content idx ! m)) t < 0 \<longleftrightarrow> m < block_start content idx ?n + ?p"
      if m: "m < length (all_blocks content idx)" for m
    proof -
      obtain n' p' where n': "n' < length idx" "p' < length (blk content idx n')" "m = block_start content idx n' + p'"
        using find_block [OF m] .
      show ?thesis using below [OF n'(1,2)] block_order [OF n'(2) p] n' by (auto simp: all_blocks_nth)
    qed
    have "block_start content idx ?n + ?p \<le> length (all_blocks content idx)" using block_start_bound [OF True, of content] p by simp
    then show ?thesis using True iff by (simp add: index.seek_pos_eqI)
  next
    case False
    have "Compare cmp (fst (all_blocks content idx ! m)) t < 0" if m: "m < length (all_blocks content idx)" for m
    proof -
      obtain n' p' where n': "n' < length idx" "p' < length (blk content idx n')" "m = block_start content idx n' + p'"
        using find_block [OF m] .
      then show ?thesis using below [OF n'(1,2)] False by (simp add: all_blocks_nth)
    qed
    then show ?thesis using False by (simp add: index.seek_pos_eqI)
  qed
qed

lemma tl_at_index:
  assumes "tl_at s kvs i"
  obtains idx n where "layout cmp content idx" "kvs = all_blocks content idx" "kvs_sorted cmp kvs" "keys_ok ok kvs"
    "tl_inv s" "wrapper_at iops iat (tl_index s) idx n" "i \<le> length kvs"
    "tl_pos s idx i \<or> i = length kvs \<and> iw_iter (tl_data s) = None"
proof -
  obtain idx where idx: "layout cmp content idx" "kvs = all_blocks content idx" "kvs_sorted cmp kvs" "keys_ok ok kvs"
    "tl_pos s idx i \<or> tl_inv s \<and> i = length kvs \<and> iw_iter (tl_data s) = None \<and> (\<exists>n. wrapper_at iops iat (tl_index s) idx n)"
    using assms unfolding tl_at_def by blast
  show ?thesis
  proof (cases "tl_pos s idx i")
    case True
    then obtain n where "tl_inv s" "wrapper_at iops iat (tl_index s) idx n" "i \<le> length kvs"
      using block_start_bound [of _ idx content] unfolding tl_pos_def tl_raw_def tl_none_def idx(2) by fastforce
    then show ?thesis using that [OF idx(1-4)] True by blast
  next
    case False
    then show ?thesis using that [OF idx(1-4)] idx(5) by blast
  qed
qed

lemma tl_at_pos:
  "layout cmp content idx \<Longrightarrow> kvs = all_blocks content idx \<Longrightarrow> kvs_sorted cmp kvs \<Longrightarrow> keys_ok ok kvs \<Longrightarrow>
   tl_pos s idx i \<Longrightarrow> tl_at s kvs i"
  unfolding tl_at_def by blast

lemma tl_at_raw:
  assumes "tl_at s kvs i" "i < length kvs"
  obtains idx n p where "layout cmp content idx" "kvs = all_blocks content idx" "kvs_sorted cmp kvs" "keys_ok ok kvs"
    "tl_raw s idx n p" "n < length idx" "p < length (blk content idx n)" "i = block_start content idx n + p"
    "wrapper_at dops dat (tl_data s) (blk content idx n) p"
  using assms unfolding tl_at_def tl_pos_def tl_raw_def by (metis order_less_irrefl)

text \<open>The first call of a scan: a movement of the index, then of the data iterator.\<close>

lemma seek_forward:
  assumes l: "layout cmp content idx" and inv: "tl_inv s" and w: "wrapper_at iops iat w idx n"
    and f: "\<And>w p. n < length idx \<Longrightarrow> wrapper_at dops dat w (blk content idx n) p \<Longrightarrow>
      \<exists>w'. f w = Some w' \<and> wrapper_at dops dat w' (blk content idx n) q"
  shows "\<exists>s'. do { s \<leftarrow> data_move f (InitDataBlock iops dops bf (s\<lparr>tl_index := w\<rparr>));
      SkipEmptyDataBlocksForward iops dops bf s } = Some s' \<and>
    tl_pos s' idx (if n < length idx then block_start content idx n + q else length (all_blocks content idx))"
proof (cases "n < length idx")
  case True
  obtain s1 where "data_move f (InitDataBlock iops dops bf (s\<lparr>tl_index := w\<rparr>)) = Some s1" "tl_raw s1 idx n q"
    using enter_block [OF l inv w True] f [OF True] by blast
  then show ?thesis using SkipForward_pos [OF l] True by simp
next
  case False
  then have "n = length idx" using iw.at_bound [OF w] by simp
  then obtain s1 where "data_move f (InitDataBlock iops dops bf (s\<lparr>tl_index := w\<rparr>)) = Some s1" "tl_none s1 idx"
    using leave_blocks [OF inv] w by blast
  then show ?thesis using tl_none_skip(1) tl_none_pos False by fastforce
qed

end

context two_level
begin

lemma TwoLevel_SeekToFirst_at:
  assumes "tl_at s kvs i"
  shows "\<exists>s'. TwoLevel_SeekToFirst iops dops bf s = Some s' \<and> tl_at s' kvs 0"
proof -
  obtain idx n where s: "layout cmp content idx" "kvs = all_blocks content idx" "kvs_sorted cmp kvs" "keys_ok ok kvs"
    "tl_inv s" "wrapper_at iops iat (tl_index s) idx n" using tl_at_index [OF assms] .
  obtain w where w: "it_SeekToFirst (wrapper_ops iops) (tl_index s) = Some w" "wrapper_at iops iat w idx 0"
    using iw.SeekToFirst_at [OF s(6)] by blast
  have zero: "(if 0 < length idx then block_start content idx 0 + 0 else length (all_blocks content idx)) = 0"
    by (simp add: all_blocks_def)
  have "\<exists>s'. do { s \<leftarrow> data_move (it_SeekToFirst (wrapper_ops dops)) (InitDataBlock iops dops bf (s\<lparr>tl_index := w\<rparr>));
      SkipEmptyDataBlocksForward iops dops bf s } = Some s' \<and>
      tl_pos s' idx (if 0 < length idx then block_start content idx 0 + 0 else length (all_blocks content idx))"
    by (rule seek_forward [OF s(1,5) w(2)]) (use dw.SeekToFirst_at in blast)
  then obtain s' where "do { s \<leftarrow> data_move (it_SeekToFirst (wrapper_ops dops)) (InitDataBlock iops dops bf (s\<lparr>tl_index := w\<rparr>));
      SkipEmptyDataBlocksForward iops dops bf s } = Some s'" "tl_pos s' idx 0" unfolding zero by blast
  then show ?thesis using tl_at_pos [OF s(1-4)] by (simp add: TwoLevel_SeekToFirst_def w(1))
qed

lemma TwoLevel_Seek_at:
  assumes "tl_at s kvs i" and t: "ok t"
  shows "\<exists>s'. TwoLevel_Seek iops dops bf t s = Some s' \<and> tl_at s' kvs (seek_pos cmp kvs t)"
proof -
  obtain idx n where s: "layout cmp content idx" "kvs = all_blocks content idx" "kvs_sorted cmp kvs" "keys_ok ok kvs"
    "tl_inv s" "wrapper_at iops iat (tl_index s) idx n" using tl_at_index [OF assms(1)] .
  obtain w where w: "it_Seek (wrapper_ops iops) t (tl_index s) = Some w" "wrapper_at iops iat w idx (seek_pos cmp idx t)"
    using iw.Seek_at [OF s(6) t] by blast
  have a: "arg_ok (tl_arg s)" using s(5) by (simp add: tl_inv_def)
  let ?n = "seek_pos cmp idx t"
  have pos: "(if ?n < length idx then block_start content idx ?n + seek_pos cmp (blk content idx ?n) t
      else length (all_blocks content idx)) = seek_pos cmp kvs t"
    using two_level_seek_pos [OF s(1) a iw.at_sorted [OF s(6)] iw.at_ok [OF s(6)] t] s(2,4) by simp
  have "\<exists>s'. do { s \<leftarrow> data_move (it_Seek (wrapper_ops dops) t) (InitDataBlock iops dops bf (s\<lparr>tl_index := w\<rparr>));
      SkipEmptyDataBlocksForward iops dops bf s } = Some s' \<and>
      tl_pos s' idx (if ?n < length idx then block_start content idx ?n + seek_pos cmp (blk content idx ?n) t
        else length (all_blocks content idx))"
    by (rule seek_forward [OF s(1,5) w(2)]) (use dw.Seek_at [OF _ t] in blast)
  then obtain s' where s': "do { s \<leftarrow> data_move (it_Seek (wrapper_ops dops) t) (InitDataBlock iops dops bf (s\<lparr>tl_index := w\<rparr>));
      SkipEmptyDataBlocksForward iops dops bf s } = Some s'" "tl_pos s' idx (seek_pos cmp kvs t)" unfolding pos by blast
  then show ?thesis using tl_at_pos [OF s(1-4) s'(2)] by (simp add: TwoLevel_Seek_def w(1))
qed

lemma TwoLevel_Next_at:
  assumes "tl_at s kvs i" "i < length kvs"
  shows "\<exists>s'. TwoLevel_Next iops dops bf s = Some s' \<and> tl_at s' kvs (Suc i)"
proof -
  obtain idx n p where s: "layout cmp content idx" "kvs = all_blocks content idx" "kvs_sorted cmp kvs" "keys_ok ok kvs"
    "tl_raw s idx n p" "n < length idx" "p < length (blk content idx n)" "i = block_start content idx n + p"
    "wrapper_at dops dat (tl_data s) (blk content idx n) p" using tl_at_raw [OF assms] .
  obtain w where w: "it_Next (wrapper_ops dops) (tl_data s) = Some w" "wrapper_at dops dat w (blk content idx n) (Suc p)"
    using dw.Next_at [OF s(9,7)] by blast
  have "tl_raw (s\<lparr>tl_data := w\<rparr>) idx n (Suc p)" using s(5) w(2) by (auto simp: tl_raw_def tl_inv_def)
  from SkipForward_pos [OF s(1) this] obtain s' where
    "SkipEmptyDataBlocksForward iops dops bf (s\<lparr>tl_data := w\<rparr>) = Some s'" "tl_pos s' idx (Suc i)" by (auto simp: s(8))
  then show ?thesis using tl_at_pos [OF s(1-4)] by (simp add: TwoLevel_Next_def w(1))
qed

lemma backward_at:
  assumes s: "layout cmp content idx" "kvs = all_blocks content idx" "kvs_sorted cmp kvs" "keys_ok ok kvs"
    and r: "tl_raw s idx n (if p = 0 then length (blk content idx n) else p - 1)" and p: "p \<le> length (blk content idx n)"
  shows "\<exists>s'. SkipEmptyDataBlocksBackward iops dops bf s = Some s' \<and>
    tl_at s' kvs (if block_start content idx n + p = 0 then length kvs else block_start content idx n + p - 1)"
proof (cases "p = 0")
  case True
  then show ?thesis using SkipBackward_pos [OF s(1), of s n] r tl_at_pos [OF s] by (auto simp: s(2))
next
  case False
  then have v: "iw_iter (tl_data s) \<noteq> None" "iw_valid (tl_data s)" using tl_raw_data [OF r] p by auto
  then have "SkipEmptyDataBlocksBackward iops dops bf s = Some s"
    by (subst SkipEmptyDataBlocksBackward.simps) auto
  moreover have "tl_pos s idx (block_start content idx n + p - 1)"
    using False r p unfolding tl_pos_def by (intro disjI1 exI [of _ n] exI [of _ "p - 1"]) auto
  ultimately show ?thesis using False tl_at_pos [OF s] by simp
qed

lemma TwoLevel_Prev_at:
  assumes "tl_at s kvs i" "i < length kvs"
  shows "\<exists>s'. TwoLevel_Prev iops dops bf s = Some s' \<and> tl_at s' kvs (if i = 0 then length kvs else i - 1)"
proof -
  obtain idx n p where s: "layout cmp content idx" "kvs = all_blocks content idx" "kvs_sorted cmp kvs" "keys_ok ok kvs"
    "tl_raw s idx n p" "n < length idx" "p < length (blk content idx n)" "i = block_start content idx n + p"
    "wrapper_at dops dat (tl_data s) (blk content idx n) p" using tl_at_raw [OF assms] .
  let ?q = "if p = 0 then length (blk content idx n) else p - 1"
  obtain w where w: "it_Prev (wrapper_ops dops) (tl_data s) = Some w" "wrapper_at dops dat w (blk content idx n) ?q"
    using dw.Prev_at [OF s(9,7)] by blast
  have "tl_raw (s\<lparr>tl_data := w\<rparr>) idx n ?q" using s(5) w(2) unfolding tl_raw_def tl_inv_def by auto
  from backward_at [OF s(1-4) this] show ?thesis using s(7) unfolding TwoLevel_Prev_def w(1) s(8) bind.simps by simp
qed

lemma TwoLevel_SeekToLast_at:
  assumes "tl_at s kvs i"
  shows "\<exists>s'. TwoLevel_SeekToLast iops dops bf s = Some s' \<and> tl_at s' kvs (length kvs - 1)"
proof -
  obtain idx n where s: "layout cmp content idx" "kvs = all_blocks content idx" "kvs_sorted cmp kvs" "keys_ok ok kvs"
    "tl_inv s" "wrapper_at iops iat (tl_index s) idx n" using tl_at_index [OF assms] .
  obtain w where w: "it_SeekToLast (wrapper_ops iops) (tl_index s) = Some w" "wrapper_at iops iat w idx (length idx - 1)"
    using iw.SeekToLast_at [OF s(6)] by blast
  show ?thesis
  proof (cases "idx = []")
    case True
    obtain s1 where s1: "data_move (it_SeekToLast (wrapper_ops dops)) (InitDataBlock iops dops bf (s\<lparr>tl_index := w\<rparr>)) = Some s1"
      "tl_none s1 idx"
      using leave_blocks [OF s(5), of w idx "it_SeekToLast (wrapper_ops dops)"] w(2) True by auto
    moreover obtain s2 where s2: "SkipEmptyDataBlocksBackward iops dops bf s1 = Some s2" "tl_none s2 idx"
      using tl_none_skip(2) [OF s1(2)] by blast
    moreover have "length kvs = 0" using True s(2) by (simp add: all_blocks_def)
    ultimately show ?thesis using tl_at_pos [OF s(1-4) ] tl_none_pos [OF s2(2)] s(2)
      by (simp add: TwoLevel_SeekToLast_def w(1))
  next
    case False
    let ?n = "length idx - 1"
    have n: "?n < length idx" "length idx = Suc ?n" using False by simp_all
    have len: "length kvs = block_start content idx ?n + length (blk content idx ?n)"
      using block_start_Suc [of content idx ?n] n(2) s(2) by (simp add: length_all_blocks)
    obtain s1 where s1: "data_move (it_SeekToLast (wrapper_ops dops)) (InitDataBlock iops dops bf (s\<lparr>tl_index := w\<rparr>)) = Some s1"
      "tl_raw s1 idx ?n (length (blk content idx ?n) - 1)"
      using enter_block [OF s(1,5) w(2) n(1), of "it_SeekToLast (wrapper_ops dops)"] dw.SeekToLast_at by blast
    have eq: "(if length (blk content idx ?n) = 0 then length (blk content idx ?n) else length (blk content idx ?n) - 1) =
        length (blk content idx ?n) - 1"
      "(if block_start content idx ?n + length (blk content idx ?n) = 0 then length kvs
        else block_start content idx ?n + length (blk content idx ?n) - 1) = length kvs - 1"
      by (simp_all add: len)
    have "\<exists>s'. SkipEmptyDataBlocksBackward iops dops bf s1 = Some s' \<and> tl_at s' kvs (length kvs - 1)"
      using backward_at [OF s(1-4), of s1 ?n "length (blk content idx ?n)", unfolded eq, OF s1(2)] by simp
    then show ?thesis unfolding TwoLevel_SeekToLast_def w(1) s1(1) bind.simps .
  qed
qed

lemma tl_at_end:
  assumes "tl_at s kvs (length kvs)"
  shows "iw_iter (tl_data s) = None"
proof -
  obtain idx where idx: "kvs = all_blocks content idx"
    "tl_pos s idx (length kvs) \<or> iw_iter (tl_data s) = None"
    using assms unfolding tl_at_def by blast
  have "length kvs \<noteq> block_start content idx n + p" if "tl_raw s idx n p" "p < length (blk content idx n)" for n p
    using that block_start_bound [of n idx content] unfolding idx(1) tl_raw_def by simp
  then show ?thesis using idx(2) unfolding tl_pos_def tl_none_def by blast
qed

lemma two_level_iterator: "iterator cmp ok (two_level_ops iops dops bf) tl_at"
proof unfold_locales
  fix s kvs i t
  assume at: "tl_at s kvs i"
  obtain idx n where s: "kvs_sorted cmp kvs" "keys_ok ok kvs" "i \<le> length kvs" "tl_inv s"
    "wrapper_at iops iat (tl_index s) idx n" "tl_pos s idx i \<or> i = length kvs \<and> iw_iter (tl_data s) = None"
    using tl_at_index [OF at] by metis
  show "kvs_sorted cmp kvs" "keys_ok ok kvs" "i \<le> length kvs" by (fact s)+
  show "it_status (two_level_ops iops dops bf) s = OK"
    using s(4) iw.status_at [OF s(5)] dw.status_at
    by (auto simp: two_level_ops_def TwoLevel_status_def tl_inv_def)
  have "iw_valid (tl_data s) = (i < length kvs)"
  proof (cases "i < length kvs")
    case True
    then obtain idx n p where "p < length (blk content idx n)" "wrapper_at dops dat (tl_data s) (blk content idx n) p"
      using tl_at_raw [OF at] by metis
    then show ?thesis using True wrapper_valid(1) by simp
  next
    case False
    then have "i = length kvs" using s(3) by simp
    then have "iw_iter (tl_data s) = None" using tl_at_end at by simp
    then show ?thesis using False s(4) wrapper_at_iter [of "tl_data s"] unfolding tl_inv_def by blast
  qed
  then show "it_Valid (two_level_ops iops dops bf) s = (i < length kvs)" by (simp add: two_level_ops_def)
  show "it_key (two_level_ops iops dops bf) s = fst (kvs ! i)" "it_value (two_level_ops iops dops bf) s = snd (kvs ! i)"
    if i: "i < length kvs"
  proof -
    obtain idx n p where s: "kvs = all_blocks content idx" "n < length idx" "p < length (blk content idx n)"
      "i = block_start content idx n + p" "wrapper_at dops dat (tl_data s) (blk content idx n) p" using tl_at_raw [OF at i] by metis
    show "it_key (two_level_ops iops dops bf) s = fst (kvs ! i)" "it_value (two_level_ops iops dops bf) s = snd (kvs ! i)"
      using dw.key_at [OF s(5,3)] dw.value_at [OF s(5,3)] all_blocks_nth [OF s(2,3)] s(1,4)
      by (simp_all add: two_level_ops_def wrapper_ops_def)
  qed
qed (simp_all add: two_level_ops_def TwoLevel_SeekToFirst_at TwoLevel_SeekToLast_at [simplified] TwoLevel_Seek_at
    TwoLevel_Next_at TwoLevel_Prev_at)

text \<open>A new two-level iterator is over all blocks.\<close>

lemma NewTwoLevelIterator_at:
  assumes "iat it idx n" "arg_ok arg" "layout cmp content idx"
    and "kvs_sorted cmp (all_blocks content idx)" "keys_ok ok (all_blocks content idx)"
  shows "tl_at (NewTwoLevelIterator iops it arg options) (all_blocks content idx) (length (all_blocks content idx))"
  unfolding tl_at_def
  by (rule exI [of _ idx]) (use assms wrapper_at_new [of iat it idx n iops] in
    \<open>auto simp: NewTwoLevelIterator_def tl_inv_def IteratorWrapper_null_def\<close>)

end
end
