(* ===== verification/DBIter.thy ===== *)
theory DBIter
  imports IteratorSpec DbFormat SkipList
begin

text \<open>
  \<open>db/db_iter.cpp\<close>: the iterator of a database, which turns the entries (user key, sequence, type) of
  an internal iterator into the user keys and values visible at a snapshot. It draws random sampling
  points; the keys it hands to \<open>RecordReadSample\<close> are kept in a list.
\<close>

section \<open>The database iterator\<close>

record 's dbiter =
  di_iter :: 's
  di_sequence :: SequenceNumber
  di_status :: status
  di_saved_key :: bytes
  di_saved_value :: bytes
  di_forward :: bool
  di_valid :: bool
  di_rnd :: u32
  di_bytes_counter :: int
  di_samples :: "bytes list"

definition kReadBytesPeriod :: nat where "kReadBytesPeriod = 1048576"

text \<open>\<open>Random::Uniform(2*config::kReadBytesPeriod)\<close>: the next seed modulo the argument.\<close>

definition Random_Uniform :: "nat \<Rightarrow> u32 \<Rightarrow> u32 \<times> u32" where
  "Random_Uniform n rnd = (let rnd = Random_Next rnd in (rnd mod word_of_nat n, rnd))"

definition RandomPeriod :: "'s dbiter \<Rightarrow> int \<times> 's dbiter" where
  "RandomPeriod d =
     (let (r, rnd) = Random_Uniform (2 * kReadBytesPeriod) (di_rnd d) in (uint r, d\<lparr>di_rnd := rnd\<rparr>))"

definition NewDBIterator :: "'s \<Rightarrow> SequenceNumber \<Rightarrow> u32 \<Rightarrow> 's dbiter" where
  "NewDBIterator iter s seed =
     (let d = \<lparr>di_iter = iter, di_sequence = s, di_status = OK, di_saved_key = [], di_saved_value = [],
               di_forward = True, di_valid = False, di_rnd = Random_new seed, di_bytes_counter = 0,
               di_samples = []\<rparr>;
          (period, d) = RandomPeriod d
      in d\<lparr>di_bytes_counter := period\<rparr>)"

text \<open>The sampling loop of \<open>ParseKey\<close>.\<close>

partial_function (option) sample_loop :: "bytes \<Rightarrow> 's dbiter \<Rightarrow> 's dbiter option" where
  "sample_loop k d =
     (if di_bytes_counter d < 0 then
        let (period, d) = RandomPeriod d
        in sample_loop k (d\<lparr>di_bytes_counter := di_bytes_counter d + period, di_samples := di_samples d @ [k]\<rparr>)
      else Some d)"

definition DBIter_ParseKey :: "'s iter_ops \<Rightarrow> 's dbiter \<Rightarrow> (ParsedInternalKey option \<times> 's dbiter) option" where
  "DBIter_ParseKey ops d =
     (let k = it_key ops (di_iter d);
          n = int (length k + length (it_value ops (di_iter d)))
      in do {
        d \<leftarrow> sample_loop k (d\<lparr>di_bytes_counter := di_bytes_counter d - n\<rparr>);
        Some (case ParseInternalKey k of
            None \<Rightarrow> (None, d\<lparr>di_status := Corruption ''corrupted internal key in DBIter''\<rparr>)
          | Some ik \<Rightarrow> (Some ik, d)) })"

text \<open>
  What \<open>FindNextUserEntry\<close> does with an entry: whether it is yielded, whether entries are skipped from
  here on, and the new state. The key to skip is \<open>saved_key_\<close>.
\<close>

definition next_entry :: "comparator \<Rightarrow> ParsedInternalKey option \<Rightarrow> bool \<Rightarrow> 's dbiter \<Rightarrow> bool \<times> bool \<times> 's dbiter" where
  "next_entry user key skipping d =
     (case key of
        None \<Rightarrow> (False, skipping, d)
      | Some ik \<Rightarrow>
          if pk_sequence ik \<le> di_sequence d then
            if pk_type ik = kTypeDeletion then (False, True, d\<lparr>di_saved_key := pk_user_key ik\<rparr>)
            else if skipping \<and> Compare user (pk_user_key ik) (di_saved_key d) \<le> 0 then (False, skipping, d)
            else (True, skipping, d\<lparr>di_valid := True, di_saved_key := []\<rparr>)
          else (False, skipping, d))"

partial_function (option) FindNextUserEntry ::
  "comparator \<Rightarrow> 's iter_ops \<Rightarrow> bool \<Rightarrow> 's dbiter \<Rightarrow> 's dbiter option" where
  "FindNextUserEntry user ops skipping d =
     do {
       (key, d) \<leftarrow> DBIter_ParseKey ops d;
       let (yield, skipping, d) = next_entry user key skipping d;
       if yield then Some d
       else do {
         it \<leftarrow> it_Next ops (di_iter d);
         if it_Valid ops it then FindNextUserEntry user ops skipping (d\<lparr>di_iter := it\<rparr>)
         else Some (d\<lparr>di_iter := it, di_saved_key := [], di_valid := False\<rparr>) } }"

text \<open>What \<open>FindPrevUserEntry\<close> does with an entry: whether it stops, the value type and the new state.\<close>

definition prev_entry ::
  "comparator \<Rightarrow> 's iter_ops \<Rightarrow> ParsedInternalKey option \<Rightarrow> ValueType \<Rightarrow> 's dbiter \<Rightarrow> bool \<times> ValueType \<times> 's dbiter" where
  "prev_entry user ops key value_type d =
     (case key of
        None \<Rightarrow> (False, value_type, d)
      | Some ik \<Rightarrow>
          if pk_sequence ik \<le> di_sequence d then
            if value_type \<noteq> kTypeDeletion \<and> Compare user (pk_user_key ik) (di_saved_key d) < 0
            then (True, value_type, d)
            else if pk_type ik = kTypeDeletion
            then (False, pk_type ik, d\<lparr>di_saved_key := [], di_saved_value := []\<rparr>)
            else (False, pk_type ik, d\<lparr>di_saved_key := ExtractUserKey (it_key ops (di_iter d)),
                                        di_saved_value := it_value ops (di_iter d)\<rparr>)
          else (False, value_type, d))"

partial_function (option) FindPrev_loop ::
  "comparator \<Rightarrow> 's iter_ops \<Rightarrow> ValueType \<Rightarrow> 's dbiter \<Rightarrow> (ValueType \<times> 's dbiter) option" where
  "FindPrev_loop user ops value_type d =
     do {
       (key, d) \<leftarrow> DBIter_ParseKey ops d;
       let (stop, value_type, d) = prev_entry user ops key value_type d;
       if stop then Some (value_type, d)
       else do {
         it \<leftarrow> it_Prev ops (di_iter d);
         if it_Valid ops it then FindPrev_loop user ops value_type (d\<lparr>di_iter := it\<rparr>)
         else Some (value_type, d\<lparr>di_iter := it\<rparr>) } }"

definition FindPrevUserEntry :: "comparator \<Rightarrow> 's iter_ops \<Rightarrow> 's dbiter \<Rightarrow> 's dbiter option" where
  "FindPrevUserEntry user ops d =
     do {
       (value_type, d) \<leftarrow> (if it_Valid ops (di_iter d) then FindPrev_loop user ops kTypeDeletion d
                           else Some (kTypeDeletion, d));
       Some (if value_type = kTypeDeletion
             then d\<lparr>di_valid := False, di_saved_key := [], di_saved_value := [], di_forward := True\<rparr>
             else d\<lparr>di_valid := True\<rparr>) }"

definition DBIter_key :: "'s iter_ops \<Rightarrow> 's dbiter \<Rightarrow> bytes" where
  "DBIter_key ops d = (if di_forward d then ExtractUserKey (it_key ops (di_iter d)) else di_saved_key d)"

definition DBIter_value :: "'s iter_ops \<Rightarrow> 's dbiter \<Rightarrow> bytes" where
  "DBIter_value ops d = (if di_forward d then it_value ops (di_iter d) else di_saved_value d)"

definition DBIter_status :: "'s iter_ops \<Rightarrow> 's dbiter \<Rightarrow> status" where
  "DBIter_status ops d = (if status_ok (di_status d) then it_status ops (di_iter d) else di_status d)"

definition DBIter_Next :: "comparator \<Rightarrow> 's iter_ops \<Rightarrow> 's dbiter \<Rightarrow> 's dbiter option" where
  "DBIter_Next user ops d =
     (if \<not> di_valid d then None
      else if \<not> di_forward d then do {
        it \<leftarrow> (if \<not> it_Valid ops (di_iter d) then it_SeekToFirst ops (di_iter d) else it_Next ops (di_iter d));
        let d = d\<lparr>di_forward := True, di_iter := it\<rparr>;
        if \<not> it_Valid ops it then Some (d\<lparr>di_valid := False, di_saved_key := []\<rparr>)
        else FindNextUserEntry user ops True d }
      else FindNextUserEntry user ops True (d\<lparr>di_saved_key := ExtractUserKey (it_key ops (di_iter d))\<rparr>))"

text \<open>
  The scan of \<open>Prev\<close> backwards out of the entries of the current key: \<open>Inl\<close> when the beginning was
  reached, \<open>Inr\<close> at an entry of an earlier key.
\<close>

partial_function (option) leave_key :: "comparator \<Rightarrow> 's iter_ops \<Rightarrow> 's dbiter \<Rightarrow> ('s dbiter + 's dbiter) option" where
  "leave_key user ops d =
     do {
       it \<leftarrow> it_Prev ops (di_iter d);
       let d = d\<lparr>di_iter := it\<rparr>;
       if \<not> it_Valid ops it
       then Some (Inl (d\<lparr>di_valid := False, di_saved_key := [], di_saved_value := []\<rparr>))
       else if Compare user (ExtractUserKey (it_key ops it)) (di_saved_key d) < 0 then Some (Inr d)
       else leave_key user ops d }"

definition DBIter_Prev :: "comparator \<Rightarrow> 's iter_ops \<Rightarrow> 's dbiter \<Rightarrow> 's dbiter option" where
  "DBIter_Prev user ops d =
     (if \<not> di_valid d then None
      else if di_forward d then do {
        r \<leftarrow> leave_key user ops (d\<lparr>di_saved_key := ExtractUserKey (it_key ops (di_iter d))\<rparr>);
        case r of
          Inl d \<Rightarrow> Some d
        | Inr d \<Rightarrow> FindPrevUserEntry user ops (d\<lparr>di_forward := False\<rparr>) }
      else FindPrevUserEntry user ops d)"

definition DBIter_Seek :: "comparator \<Rightarrow> 's iter_ops \<Rightarrow> bytes \<Rightarrow> 's dbiter \<Rightarrow> 's dbiter option" where
  "DBIter_Seek user ops target d =
     (let saved = AppendInternalKey [] \<lparr>pk_user_key = target, pk_sequence = di_sequence d, pk_type = kValueTypeForSeek\<rparr>
      in do {
        it \<leftarrow> it_Seek ops saved (di_iter d);
        let d = d\<lparr>di_forward := True, di_saved_value := [], di_saved_key := saved, di_iter := it\<rparr>;
        if it_Valid ops it then FindNextUserEntry user ops False d else Some (d\<lparr>di_valid := False\<rparr>) })"

definition DBIter_SeekToFirst :: "comparator \<Rightarrow> 's iter_ops \<Rightarrow> 's dbiter \<Rightarrow> 's dbiter option" where
  "DBIter_SeekToFirst user ops d =
     do {
       it \<leftarrow> it_SeekToFirst ops (di_iter d);
       let d = d\<lparr>di_forward := True, di_saved_value := [], di_iter := it\<rparr>;
       if it_Valid ops it then FindNextUserEntry user ops False d else Some (d\<lparr>di_valid := False\<rparr>) }"

definition DBIter_SeekToLast :: "comparator \<Rightarrow> 's iter_ops \<Rightarrow> 's dbiter \<Rightarrow> 's dbiter option" where
  "DBIter_SeekToLast user ops d =
     do {
       it \<leftarrow> it_SeekToLast ops (di_iter d);
       FindPrevUserEntry user ops (d\<lparr>di_forward := False, di_saved_value := [], di_iter := it\<rparr>) }"

definition dbiter_ops :: "comparator \<Rightarrow> 's iter_ops \<Rightarrow> 's dbiter iter_ops" where
  "dbiter_ops user ops =
     \<lparr>it_Valid = di_valid, it_key = DBIter_key ops, it_value = DBIter_value ops, it_status = DBIter_status ops,
      it_SeekToFirst = DBIter_SeekToFirst user ops, it_SeekToLast = DBIter_SeekToLast user ops,
      it_Seek = DBIter_Seek user ops, it_Next = DBIter_Next user ops, it_Prev = DBIter_Prev user ops\<rparr>"

section \<open>The sampling loop ends\<close>

text \<open>A seed of the generator; the seeds that give a period of zero are never two in a row.\<close>

definition seed_ok :: "u32 \<Rightarrow> bool" where
  "seed_ok r \<longleftrightarrow> 0 < unat r \<and> unat r < 2147483647"

lemma minstd_nonzero:
  assumes "0 < s" "s < (2147483647 :: nat)"
  shows "(s * 16807) mod 2147483647 \<noteq> 0"
proof
  assume "(s * 16807) mod 2147483647 = 0"
  then have "(s * 16807) * 1407677000 mod 2147483647 = 0" by (metis mod_mult_left_eq mult_zero_left mod_0)
  moreover have "(s * 16807) * 1407677000 = s + 2147483647 * (11017 * s)"  by simp
  ultimately have "s mod 2147483647 = 0" by (metis mod_mult_self2)
  then show False using assms by simp
qed

lemma Random_Next_range:
  assumes "seed_ok r"
  shows "unat (Random_Next r) = (unat r * 16807) mod 2147483647" "seed_ok (Random_Next r)"
proof -
  have le: "r \<le> 2147483647" using assms by (simp add: seed_ok_def word_le_nat_alt)
  have m: "unat (Random_Next r) mod 2147483647 = (unat r * 16807) mod 2147483647"
    by (rule Random_Next_mod [OF le])
  have nz: "(unat r * 16807) mod 2147483647 \<noteq> 0" using assms minstd_nonzero by (simp add: seed_ok_def)
  have "unat (Random_Next r) \<le> 2147483647" using Random_Next_mod(2) [OF le] by (simp add: word_le_nat_alt)
  moreover have "unat (Random_Next r) \<noteq> 2147483647" using m nz by auto
  ultimately have "unat (Random_Next r) < 2147483647" by simp
  then show "unat (Random_Next r) = (unat r * 16807) mod 2147483647" using m by simp
  then show "seed_ok (Random_Next r)" using nz by (simp add: seed_ok_def)
qed

lemma period_not_zero_twice:
  assumes "seed_ok r" "unat r mod 2097152 = 0"
  shows "unat (Random_Next r) mod 2097152 \<noteq> 0"
proof -
  obtain k where k: "unat r = 2097152 * k" using assms(2) by (auto elim: dvdE [OF mod_0_imp_dvd])
  then have kb: "0 < k" "k < 1024" using assms(1) by (auto simp: seed_ok_def)
  define a b where "a = (16807 * k) div 1024" and "b = (16807 * k) mod 1024"
  have ab: "16807 * k = 1024 * a + b" "b < 1024" by (simp_all add: a_def b_def)
  have a: "16 \<le> a" "a < 16807" using kb ab by linarith+
  have "unat r * 16807 = (2097152 * b + a) + 2147483647 * a" using k ab by simp
  then have "unat (Random_Next r) = (2097152 * b + a) mod 2147483647"
    using Random_Next_range(1) [OF assms(1)] by (metis mod_mult_self2)
  also have "\<dots> = 2097152 * b + a" using ab(2) a by (intro mod_less) simp
  finally show ?thesis using a by simp
qed

lemma unat_numeral_2097152: "unat (2097152 :: u32) = 2097152"
  by simp

lemma RandomPeriod_eq:
  "RandomPeriod d = (int (unat (Random_Next (di_rnd d)) mod 2097152), d\<lparr>di_rnd := Random_Next (di_rnd d)\<rparr>)"
proof -
  have "uint (r mod 2097152 :: u32) = int (unat r mod 2097152)" for r
    using unat_mod [of r 2097152] by (metis of_nat_unat unat_numeral_2097152)
  then show ?thesis by (simp add: RandomPeriod_def Random_Uniform_def kReadBytesPeriod_def Let_def)
qed

text \<open>The samples and the state of the generator do not matter to what the iterator yields.\<close>

definition same_scan :: "'s dbiter \<Rightarrow> 's dbiter \<Rightarrow> bool" where
  "same_scan d d' \<longleftrightarrow>
     (\<exists>r c xs. d' = d\<lparr>di_rnd := r, di_bytes_counter := c, di_samples := xs\<rparr> \<and> (seed_ok (di_rnd d) \<longrightarrow> seed_ok r))"

lemma same_scan_refl: "same_scan d d"
  unfolding same_scan_def
  by (intro exI [of _ "di_rnd d"] exI [of _ "di_bytes_counter d"] exI [of _ "di_samples d"]) simp

lemma sample_loop_ends:
  "seed_ok (di_rnd d) \<Longrightarrow> \<exists>d'. sample_loop k d = Some d' \<and> same_scan d d'"
proof (induction "2 * nat (- di_bytes_counter d) +
      (if unat (Random_Next (di_rnd d)) mod 2097152 = 0 then 1 else 0)" arbitrary: d rule: less_induct)
  case less
  show ?case
  proof (cases "di_bytes_counter d < 0")
    case True
    let ?r = "Random_Next (di_rnd d)"
    let ?d = "d\<lparr>di_rnd := ?r, di_bytes_counter := di_bytes_counter d + int (unat ?r mod 2097152),
        di_samples := di_samples d @ [k]\<rparr>"
    have r: "seed_ok ?r" by (rule Random_Next_range(2) [OF less.prems])
    have step: "sample_loop k d = sample_loop k ?d"
      by (subst sample_loop.simps) (simp add: True RandomPeriod_eq)
    have "2 * nat (- di_bytes_counter ?d) + (if unat (Random_Next (di_rnd ?d)) mod 2097152 = 0 then 1 else 0) <
        2 * nat (- di_bytes_counter d) + (if unat ?r mod 2097152 = 0 then 1 else (0 :: nat))"
      using True period_not_zero_twice [OF r] by (cases "unat ?r mod 2097152 = 0") auto
    from less.hyps [OF this] r obtain d' where "sample_loop k ?d = Some d'" "same_scan ?d d'" by auto
    then show ?thesis using step r by (auto simp: same_scan_def)
  next
    case False
    then have "sample_loop k d = Some d" by (subst sample_loop.simps) simp
    then show ?thesis using same_scan_refl by blast
  qed
qed

section \<open>Selecting entries\<close>

text \<open>The number of selected indices before \<open>i\<close>, and the selected indices below \<open>n\<close>.\<close>

definition rank :: "(nat \<Rightarrow> bool) \<Rightarrow> nat \<Rightarrow> nat" where
  "rank P i = length (filter P [0..<i])"

lemma rank_0 [simp]: "rank P 0 = 0"
  by (simp add: rank_def)

lemma rank_Suc: "rank P (Suc i) = rank P i + (if P i then 1 else 0)"
  by (simp add: rank_def)

lemma rank_mono: "i \<le> j \<Longrightarrow> rank P i \<le> rank P j"
  using lift_Suc_mono_le [of "rank P"] by (simp add: rank_Suc)

lemma rank_none: "i \<le> j \<Longrightarrow> (\<And>m. i \<le> m \<Longrightarrow> m < j \<Longrightarrow> \<not> P m) \<Longrightarrow> rank P j = rank P i"
proof (induction j)
  case (Suc j)
  then show ?case by (cases "i = Suc j") (auto simp: rank_Suc)
qed simp

lemma rank_less: "P m \<Longrightarrow> m < n \<Longrightarrow> rank P m < rank P n"
  using rank_mono [of "Suc m" n P] by (simp add: rank_Suc)

lemma rank_less_iff: "P m \<Longrightarrow> rank P m < rank P n \<longleftrightarrow> m < n"
  using rank_less [of P m n] rank_mono [of n m P] by (meson linorder_not_less)

lemma sel_rank: "P m \<Longrightarrow> m < n \<Longrightarrow> filter P [0..<n] ! rank P m = m"
proof -
  assume m: "P m" "m < n"
  then have "[0..<n] = [0..<m] @ m # [Suc m..<n]"
    using upt_add_eq_append [of 0 m "n - m"] by (simp add: upt_conv_Cons)
  then show ?thesis using m by (simp add: rank_def nth_append)
qed

lemma rank_ex: "k < rank P n \<Longrightarrow> \<exists>m<n. P m \<and> rank P m = k"
proof (induction n)
  case (Suc n)
  show ?case
  proof (cases "k < rank P n")
    case True
    then show ?thesis using Suc.IH less_SucI by blast
  next
    case False
    then have "P n \<and> rank P n = k" using Suc.prems by (auto simp: rank_Suc split: if_splits)
    then show ?thesis by blast
  qed
qed simp

section \<open>The view at a snapshot\<close>

definition ent_user :: "kv list \<Rightarrow> nat \<Rightarrow> bytes" where
  "ent_user kvs i = ExtractUserKey (fst (kvs ! i))"

definition ent_seq :: "kv list \<Rightarrow> nat \<Rightarrow> SequenceNumber" where
  "ent_seq kvs i = drop_bit 8 (ExtractTag (fst (kvs ! i)))"

definition ent_type :: "kv list \<Rightarrow> nat \<Rightarrow> ValueType" where
  "ent_type kvs i = ExtractValueType (fst (kvs ! i))"

text \<open>
  An entry is visible up to the snapshot's sequence number; it is shown when it is a value and no
  entry of its user key before it (a newer one) is visible.
\<close>

definition visible :: "SequenceNumber \<Rightarrow> kv list \<Rightarrow> nat \<Rightarrow> bool" where
  "visible snap kvs i \<longleftrightarrow> ent_seq kvs i \<le> snap"

definition shown :: "SequenceNumber \<Rightarrow> kv list \<Rightarrow> nat \<Rightarrow> bool" where
  "shown snap kvs i \<longleftrightarrow> visible snap kvs i \<and> ent_type kvs i = kTypeValue \<and>
     (\<forall>j<i. ent_user kvs j = ent_user kvs i \<longrightarrow> \<not> visible snap kvs j)"

definition db_view :: "SequenceNumber \<Rightarrow> kv list \<Rightarrow> kv list" where
  "db_view snap kvs = map (\<lambda>i. (ent_user kvs i, snd (kvs ! i))) (filter (shown snap kvs) [0..<length kvs])"

definition internal_entries :: "kv list \<Rightarrow> bool" where
  "internal_entries kvs \<longleftrightarrow> (\<forall>e\<in>set kvs. ParseInternalKey (fst e) \<noteq> None)"

lemma length_db_view: "length (db_view snap kvs) = rank (shown snap kvs) (length kvs)"
  by (simp add: db_view_def rank_def)

lemma db_view_nth:
  assumes "shown snap kvs m" "m < length kvs"
  shows "db_view snap kvs ! rank (shown snap kvs) m = (ent_user kvs m, snd (kvs ! m))"
proof -
  have "rank (shown snap kvs) m < length (filter (shown snap kvs) [0..<length kvs])"
    using rank_less [of "shown snap kvs", OF assms] by (simp add: rank_def)
  then show ?thesis using sel_rank [of "shown snap kvs", OF assms] by (simp add: db_view_def)
qed

lemma rank_shown_less: "shown snap kvs m \<Longrightarrow> m < length kvs \<Longrightarrow> rank (shown snap kvs) m < length (db_view snap kvs)"
  by (simp add: length_db_view rank_less)

lemma db_view_index:
  assumes "k < length (db_view snap kvs)"
  obtains m where "m < length kvs" "shown snap kvs m" "rank (shown snap kvs) m = k"
  using rank_ex [of k "shown snap kvs" "length kvs"] assms that by (auto simp: length_db_view)

lemma Parse_entry:
  assumes "internal_entries kvs" "m < length kvs"
  shows "ParseInternalKey (fst (kvs ! m)) =
    Some \<lparr>pk_user_key = ent_user kvs m, pk_sequence = ent_seq kvs m, pk_type = ent_type kvs m\<rparr>"
    "ent_type kvs m \<le> kTypeValue"
proof -
  have p: "ParseInternalKey (fst (kvs ! m)) \<noteq> None" using assms by (simp add: internal_entries_def)
  then show "ParseInternalKey (fst (kvs ! m)) =
      Some \<lparr>pk_user_key = ent_user kvs m, pk_sequence = ent_seq kvs m, pk_type = ent_type kvs m\<rparr>"
    "ent_type kvs m \<le> kTypeValue"
    by (auto simp: ParseInternalKey_def Let_def ent_user_def ent_seq_def ent_type_def ExtractUserKey_def
        ExtractValueType_def split: if_splits)
qed

lemma ent_type_cases:
  assumes "internal_entries kvs" "m < length kvs"
  obtains "ent_type kvs m = kTypeDeletion" | "ent_type kvs m = kTypeValue"
proof -
  have "unat (ent_type kvs m) \<le> 1" using Parse_entry(2) [OF assms] by (simp add: word_le_nat_alt kTypeValue_def)
  then have "ent_type kvs m = 0 \<or> ent_type kvs m = 1" by (auto simp: word_unat_eq_iff le_Suc_eq)
  then show ?thesis using that by (auto simp: kTypeDeletion_def kTypeValue_def)
qed

lemma type_distinct: "kTypeValue \<noteq> kTypeDeletion"
  by (simp add: kTypeValue_def kTypeDeletion_def)

section \<open>The contract of the internal iterator\<close>

locale db_iterator =
  user_comparator cmp ok + inner: iterator "InternalKeyComparator cmp" "internal_ok ok" ops at
  for cmp :: comparator and ok :: "bytes \<Rightarrow> bool" and ops :: "'s iter_ops" and at

text \<open>
  Where the internal iterator stands: at the shown entry when moving forward; when moving backward
  before the entries of the saved key, with only invisible entries in between.
\<close>

definition before_pos :: "kv list \<Rightarrow> nat \<Rightarrow> nat" where
  "before_pos kvs q = (if q = 0 then length kvs else q - 1)"

definition dbiter_at ::
  "comparator \<Rightarrow> ('s \<Rightarrow> kv list \<Rightarrow> nat \<Rightarrow> bool) \<Rightarrow> 's dbiter \<Rightarrow> kv list \<Rightarrow> nat \<Rightarrow> bool" where
  "dbiter_at user at d view i \<longleftrightarrow>
     (\<exists>kvs. view = db_view (di_sequence d) kvs \<and> internal_entries kvs \<and> di_status d = OK \<and> seed_ok (di_rnd d) \<and>
        di_sequence d \<le> kMaxSequenceNumber \<and> i \<le> length view \<and> di_valid d = (i < length view) \<and>
        (if i < length view then
           (\<exists>c<length kvs. shown (di_sequence d) kvs c \<and> rank (shown (di_sequence d) kvs) c = i \<and>
              (if di_forward d then at (di_iter d) kvs c
               else di_saved_key d = ent_user kvs c \<and> di_saved_value d = snd (kvs ! c) \<and>
                 (\<exists>q\<le>c. at (di_iter d) kvs (before_pos kvs q) \<and>
                   (\<forall>j. q \<le> j \<longrightarrow> j < c \<longrightarrow> \<not> visible (di_sequence d) kvs j) \<and>
                   (0 < q \<longrightarrow> Compare user (ent_user kvs (q - 1)) (ent_user kvs c) < 0))))
         else (\<exists>p. at (di_iter d) kvs p)))"

context db_iterator
begin

lemma entries:
  assumes "at it kvs p"
  shows "kvs_sorted (InternalKeyComparator cmp) kvs" "keys_ok (internal_ok ok) kvs"
  using inner.at_sorted [OF assms] inner.at_ok [OF assms] by simp_all

lemma user_ok: "keys_ok (internal_ok ok) kvs \<Longrightarrow> m < length kvs \<Longrightarrow> ok (ent_user kvs m)"
  using keys_ok_nth [of "internal_ok ok" kvs m] by (simp add: internal_ok_def ent_user_def)

text \<open>The user keys do not decrease along the entries.\<close>

lemma user_mono:
  assumes s: "kvs_sorted (InternalKeyComparator cmp) kvs" "keys_ok (internal_ok ok) kvs"
    and m: "m \<le> n" "n < length kvs"
  shows "Compare cmp (ent_user kvs m) (ent_user kvs n) \<le> 0"
proof (cases "m = n")
  case True
  then show ?thesis using compare_refl user_ok [OF s(2) m(2)] by simp
next
  case False
  then have mn: "m < n" "m < length kvs" using m by simp_all
  have ik: "internal_ok ok (fst (kvs ! m))" "internal_ok ok (fst (kvs ! n))" using keys_ok_nth [OF s(2)] mn m by simp_all
  have "InternalKey_Compare cmp (fst (kvs ! m)) (fst (kvs ! n)) < 0"
    using kvs_sorted_nth [OF s(1) mn(1) m(2)] by simp
  then show ?thesis using InternalKey_Compare_less [OF ik] compare_refl user_ok [OF s(2) m(2)]
    by (auto simp: ent_user_def)
qed

lemma user_between:
  assumes s: "kvs_sorted (InternalKeyComparator cmp) kvs" "keys_ok (internal_ok ok) kvs"
    and m: "m \<le> n" "n < length kvs" "Compare cmp (ent_user kvs n) (ent_user kvs m) \<le> 0"
  shows "ent_user kvs m = ent_user kvs n"
proof -
  have ok: "ok (ent_user kvs m)" "ok (ent_user kvs n)" using user_ok [OF s(2)] m by simp_all
  have "Compare cmp (ent_user kvs m) (ent_user kvs n) \<le> 0" by (rule user_mono [OF s m(1,2)])
  then show ?thesis using compare_eq [OF ok] compare_flip [OF ok] m(3) by (metis order_le_less not_less)
qed

text \<open>Of a user key, only the newest visible entry can be shown.\<close>

lemma not_shown: "j < m \<Longrightarrow> visible snap kvs j \<Longrightarrow> ent_user kvs j = ent_user kvs m \<Longrightarrow> \<not> shown snap kvs m"
  by (auto simp: shown_def)

lemma view_sorted:
  assumes s: "kvs_sorted (InternalKeyComparator cmp) kvs" "keys_ok (internal_ok ok) kvs"
  shows "kvs_sorted cmp (db_view snap kvs)" "keys_ok ok (db_view snap kvs)"
proof -
  have "Compare cmp (fst (db_view snap kvs ! a)) (fst (db_view snap kvs ! b)) < 0"
    if ab: "a < b" "b < length (db_view snap kvs)" for a b
  proof -
    obtain m where m: "m < length kvs" "shown snap kvs m" "rank (shown snap kvs) m = a"
      using db_view_index [of a snap kvs] ab by auto
    obtain n where n: "n < length kvs" "shown snap kvs n" "rank (shown snap kvs) n = b"
      using db_view_index [OF ab(2)] .
    have mn: "m < n" using ab(1) m(2,3) n(3) rank_less_iff [of "shown snap kvs" m n] by simp
    have "ent_user kvs m \<noteq> ent_user kvs n" using not_shown [OF mn] m(2) n(2) by (auto simp: shown_def)
    then have "Compare cmp (ent_user kvs m) (ent_user kvs n) < 0"
      using user_mono [OF s, of m n] compare_eq user_ok [OF s(2)] m(1) n(1) mn by (metis order_le_less order_less_imp_le)
    then show ?thesis using db_view_nth [OF m(2,1)] db_view_nth [OF n(2,1)] m(3) n(3) by simp
  qed
  then show "kvs_sorted cmp (db_view snap kvs)" by (simp add: kvs_sorted_def sorted_wrt_iff_nth_less)
  show "keys_ok ok (db_view snap kvs)" using user_ok [OF s(2)] by (auto simp: keys_ok_def db_view_def)
qed

lemma ParseKey_at:
  assumes a: "at (di_iter d) kvs j" and j: "j < length kvs" and e: "internal_entries kvs" and r: "seed_ok (di_rnd d)"
  shows "\<exists>d'. DBIter_ParseKey ops d = Some (Some \<lparr>pk_user_key = ent_user kvs j, pk_sequence = ent_seq kvs j,
      pk_type = ent_type kvs j\<rparr>, d') \<and> same_scan d d'"
proof -
  let ?n = "int (length (fst (kvs ! j)) + length (snd (kvs ! j)))"
  obtain d' where d': "sample_loop (fst (kvs ! j)) (d\<lparr>di_bytes_counter := di_bytes_counter d - ?n\<rparr>) = Some d'"
    "same_scan (d\<lparr>di_bytes_counter := di_bytes_counter d - ?n\<rparr>) d'"
    using sample_loop_ends [of "d\<lparr>di_bytes_counter := di_bytes_counter d - ?n\<rparr>"] r by auto
  have "same_scan d d'" using d'(2) by (auto simp: same_scan_def)
  then show ?thesis
    using d'(1) Parse_entry(1) [OF e j] inner.key_at [OF a j] inner.value_at [OF a j]
    by (simp add: DBIter_ParseKey_def Let_def)
qed

end

section \<open>Scanning forward\<close>

text \<open>
  The forward scan looks for the first shown entry from \<open>L\<close> on and stands at \<open>j\<close>. An entry from \<open>j\<close> on
  is skipped when its user key had a visible entry before \<open>j\<close>, and only then, but for the entry
  just before \<open>L\<close> that the scan may start at.
\<close>

definition next_inv ::
  "comparator \<Rightarrow> SequenceNumber \<Rightarrow> kv list \<Rightarrow> nat \<Rightarrow> nat \<Rightarrow> bool \<Rightarrow> bytes \<Rightarrow> bool" where
  "next_inv user snap kvs L j skipping skip \<longleftrightarrow>
     (\<forall>m j'. j \<le> m \<longrightarrow> m < length kvs \<longrightarrow> j' < j \<longrightarrow> visible snap kvs m \<longrightarrow> visible snap kvs j' \<longrightarrow>
        ent_user kvs j' = ent_user kvs m \<longrightarrow> skipping \<and> Compare user (ent_user kvs m) skip \<le> 0) \<and>
     (\<forall>m. j \<le> m \<longrightarrow> L \<le> m \<longrightarrow> m < length kvs \<longrightarrow> visible snap kvs m \<longrightarrow>
        skipping \<and> Compare user (ent_user kvs m) skip \<le> 0 \<longrightarrow> \<not> shown snap kvs m) \<and>
     (\<forall>m. L \<le> m \<longrightarrow> m < j \<longrightarrow> \<not> shown snap kvs m) \<and>
     (\<forall>m. j \<le> m \<longrightarrow> m < L \<longrightarrow> m < length kvs \<longrightarrow> visible snap kvs m \<longrightarrow>
        skipping \<and> Compare user (ent_user kvs m) skip \<le> 0 \<and> ent_type kvs m = kTypeValue \<and> Suc m = L)"

lemma next_invD:
  assumes "next_inv user snap kvs L j skipping skip"
  shows "j \<le> m \<Longrightarrow> m < length kvs \<Longrightarrow> j' < j \<Longrightarrow> visible snap kvs m \<Longrightarrow> visible snap kvs j' \<Longrightarrow>
      ent_user kvs j' = ent_user kvs m \<Longrightarrow> skipping \<and> Compare user (ent_user kvs m) skip \<le> 0"
    and "j \<le> m \<Longrightarrow> L \<le> m \<Longrightarrow> m < length kvs \<Longrightarrow> visible snap kvs m \<Longrightarrow> skipping \<Longrightarrow>
      Compare user (ent_user kvs m) skip \<le> 0 \<Longrightarrow> \<not> shown snap kvs m"
    and "L \<le> m \<Longrightarrow> m < j \<Longrightarrow> \<not> shown snap kvs m"
    and "j \<le> m \<Longrightarrow> m < L \<Longrightarrow> m < length kvs \<Longrightarrow> visible snap kvs m \<Longrightarrow>
      skipping \<and> Compare user (ent_user kvs m) skip \<le> 0 \<and> ent_type kvs m = kTypeValue \<and> Suc m = L"
  using assms unfolding next_inv_def by blast+

text \<open>Passing over entry \<open>j\<close> without a change of the key to skip.\<close>

lemma next_inv_pass:
  assumes inv: "next_inv user snap kvs L j skipping skip"
    and hid: "visible snap kvs j \<Longrightarrow> skipping \<and> Compare user (ent_user kvs j) skip \<le> 0"
    and ns: "L \<le> j \<Longrightarrow> \<not> shown snap kvs j"
  shows "next_inv user snap kvs L (Suc j) skipping skip"
  unfolding next_inv_def
proof (intro conjI allI impI)
  fix m j' assume m: "Suc j \<le> m" "m < length kvs" "j' < Suc j" "visible snap kvs m" "visible snap kvs j'"
    "ent_user kvs j' = ent_user kvs m"
  have "skipping \<and> Compare user (ent_user kvs m) skip \<le> 0"
    using next_invD(1) [OF inv, of m j'] m hid by (cases "j' = j") auto
  then show "skipping" "Compare user (ent_user kvs m) skip \<le> 0" by auto
next
  fix m assume "L \<le> m" "m < Suc j"
  then show "\<not> shown snap kvs m" using next_invD(3) [OF inv, of m] ns by (cases "m = j") auto
qed (use next_invD(2,4) [OF inv, OF Suc_leD] in blast)+

context db_iterator
begin

lemma next_inv_delete:
  assumes inv: "next_inv cmp snap kvs L j skipping skip"
    and s: "kvs_sorted (InternalKeyComparator cmp) kvs" "keys_ok (internal_ok ok) kvs"
    and j: "j < length kvs" "visible snap kvs j" "ent_type kvs j = kTypeDeletion"
  shows "next_inv cmp snap kvs L (Suc j) True (ent_user kvs j)"
  unfolding next_inv_def
proof (intro conjI allI impI TrueI)
  have L: "L \<le> j" using next_invD(4) [OF inv order_refl _ j(1,2)] j(3) type_distinct by (metis linorder_not_less)
  fix m assume m: "Suc j \<le> m" "m < length kvs"
  {
    fix j' assume "j' < Suc j" "ent_user kvs j' = ent_user kvs m"
    then show "Compare cmp (ent_user kvs m) (ent_user kvs j) \<le> 0"
      using user_mono [OF s, of j' j] j(1) by simp
  next
    assume "L \<le> m" "True \<and> Compare cmp (ent_user kvs m) (ent_user kvs j) \<le> 0"
    then have "ent_user kvs j = ent_user kvs m" using user_between [OF s, of j m] m by simp
    then show "\<not> shown snap kvs m" using not_shown [of j m snap kvs] m j by simp
  }
  {
    assume "m < L"
    then show "Compare cmp (ent_user kvs m) (ent_user kvs j) \<le> 0" "ent_type kvs m = kTypeValue" "Suc m = L"
      using L m by simp_all
  }
next
  fix m assume m: "L \<le> m" "m < Suc j"
  then show "\<not> shown snap kvs m"
    using next_invD(3) [OF inv, of m] j(3) type_distinct by (cases "m = j") (auto simp: shown_def)
qed

text \<open>What one entry does to the scan.\<close>

lemma next_entry_at:
  assumes inv: "next_inv cmp (di_sequence d) kvs L j skipping (di_saved_key d)"
    and s: "kvs_sorted (InternalKeyComparator cmp) kvs" "keys_ok (internal_ok ok) kvs"
    and j: "j < length kvs" and e: "internal_entries kvs"
    and n: "next_entry cmp (Some \<lparr>pk_user_key = ent_user kvs j, pk_sequence = ent_seq kvs j, pk_type = ent_type kvs j\<rparr>)
      skipping d = (yield, skipping', d')"
  shows "if yield then shown (di_sequence d) kvs j \<and> L \<le> j \<and> d' = d\<lparr>di_valid := True, di_saved_key := []\<rparr>
    else (\<exists>k. d' = d\<lparr>di_saved_key := k\<rparr> \<and> next_inv cmp (di_sequence d) kvs L (Suc j) skipping' k)"
proof (cases "visible (di_sequence d) kvs j")
  case False
  then have "yield = False" "skipping' = skipping" "d' = d"
    using n by (auto simp: next_entry_def visible_def)
  moreover have "next_inv cmp (di_sequence d) kvs L (Suc j) skipping (di_saved_key d)"
    by (rule next_inv_pass [OF inv]) (use False in \<open>auto simp: shown_def\<close>)
  ultimately show ?thesis by (auto intro!: exI [of _ "di_saved_key d"])
next
  case v: True
  show ?thesis
  proof (rule ent_type_cases [OF e j])
    assume t: "ent_type kvs j = kTypeDeletion"
    then have "yield = False" "skipping' = True" "d' = d\<lparr>di_saved_key := ent_user kvs j\<rparr>"
      using n v by (auto simp: next_entry_def visible_def)
    then show ?thesis using next_inv_delete [OF inv s j v t] by auto
  next
    assume t: "ent_type kvs j = kTypeValue"
    show ?thesis
    proof (cases "skipping \<and> Compare cmp (ent_user kvs j) (di_saved_key d) \<le> 0")
      case True
      then have "yield = False" "skipping' = skipping" "d' = d"
        using n v t type_distinct by (auto simp: next_entry_def visible_def)
      moreover have "next_inv cmp (di_sequence d) kvs L (Suc j) skipping (di_saved_key d)"
        by (rule next_inv_pass [OF inv]) (use True next_invD(2) [OF inv order_refl _ j v] in auto)
      ultimately show ?thesis by (auto intro!: exI [of _ "di_saved_key d"])
    next
      case False
      have "yield" "d' = d\<lparr>di_valid := True, di_saved_key := []\<rparr>"
        using False n v t type_distinct by (auto simp: next_entry_def visible_def)
      moreover have "L \<le> j" using next_invD(4) [OF inv order_refl _ j v] False by (metis linorder_not_less)
      moreover have "shown (di_sequence d) kvs j"
        unfolding shown_def using v t next_invD(1) [OF inv order_refl j _ v] False by metis
      ultimately show ?thesis by simp
    qed
  qed
qed

text \<open>The scan ends at the first shown entry from \<open>L\<close> on, or at the end.\<close>

definition scan_result :: "kv list \<Rightarrow> SequenceNumber \<Rightarrow> nat \<Rightarrow> 's dbiter \<Rightarrow> bool" where
  "scan_result kvs snap L d \<longleftrightarrow>
     di_sequence d = snap \<and> di_status d = OK \<and> seed_ok (di_rnd d) \<and> di_forward d \<and>
     (di_valid d \<and> (\<exists>c<length kvs. shown snap kvs c \<and> L \<le> c \<and> (\<forall>m. L \<le> m \<longrightarrow> m < c \<longrightarrow> \<not> shown snap kvs m) \<and>
        at (di_iter d) kvs c) \<or>
      \<not> di_valid d \<and> (\<forall>m. L \<le> m \<longrightarrow> m < length kvs \<longrightarrow> \<not> shown snap kvs m) \<and> (\<exists>p. at (di_iter d) kvs p))"

lemma FindNextUserEntry_at:
  assumes "at (di_iter d) kvs j" "j < length kvs" "internal_entries kvs" "seed_ok (di_rnd d)" "di_status d = OK"
    "di_forward d" "next_inv cmp (di_sequence d) kvs L j skipping (di_saved_key d)"
  shows "\<exists>d'. FindNextUserEntry cmp ops skipping d = Some d' \<and> scan_result kvs (di_sequence d) L d'"
  using assms
proof (induction "length kvs - j" arbitrary: d j skipping rule: less_induct)
  case less
  note s = entries [OF less.prems(1)]
  let ?pk = "\<lparr>pk_user_key = ent_user kvs j, pk_sequence = ent_seq kvs j, pk_type = ent_type kvs j\<rparr>"
  obtain d1 where d1: "DBIter_ParseKey ops d = Some (Some ?pk, d1)" "same_scan d d1"
    using ParseKey_at [OF less.prems(1-4)] by blast
  then have f: "di_iter d1 = di_iter d" "di_sequence d1 = di_sequence d" "di_saved_key d1 = di_saved_key d"
    "di_status d1 = OK" "di_forward d1" "seed_ok (di_rnd d1)"
    using less.prems(4-6) by (auto simp: same_scan_def)
  obtain y sk d2 where n: "next_entry cmp (Some ?pk) skipping d1 = (y, sk, d2)" by (cases "next_entry cmp (Some ?pk) skipping d1")
  have e: "if y then shown (di_sequence d) kvs j \<and> L \<le> j \<and> d2 = d1\<lparr>di_valid := True, di_saved_key := []\<rparr>
      else (\<exists>k. d2 = d1\<lparr>di_saved_key := k\<rparr> \<and> next_inv cmp (di_sequence d) kvs L (Suc j) sk k)"
    using next_entry_at [of d1 kvs L j skipping y sk d2, OF _ s less.prems(2,3) n] less.prems(7)
    unfolding f(2,3) by blast
  show ?case
  proof (cases y)
    case True
    have "FindNextUserEntry cmp ops skipping d = Some d2"
      by (subst FindNextUserEntry.simps) (simp add: d1(1) n True)
    moreover have "scan_result kvs (di_sequence d) L d2"
      using e True less.prems(1,2) next_invD(3) [OF less.prems(7)] by (auto simp: scan_result_def f)
    ultimately show ?thesis by blast
  next
    case False
    obtain k where k: "d2 = d1\<lparr>di_saved_key := k\<rparr>" "next_inv cmp (di_sequence d) kvs L (Suc j) sk k"
      using e False by auto
    obtain it where it: "it_Next ops (di_iter d) = Some it" "at it kvs (Suc j)"
      using inner.Next_at [OF less.prems(1,2)] by blast
    have v: "it_Valid ops it \<longleftrightarrow> Suc j < length kvs" by (rule inner.Valid_at [OF it(2)])
    let ?d = "d2\<lparr>di_iter := it\<rparr>"
    show ?thesis
    proof (cases "Suc j < length kvs")
      case True
      have "\<exists>d'. FindNextUserEntry cmp ops sk ?d = Some d' \<and> scan_result kvs (di_sequence ?d) L d'"
        by (rule less.hyps [of "Suc j"]) (use True it(2) less.prems(2,3) k f in simp_all)
      moreover have "FindNextUserEntry cmp ops skipping d = FindNextUserEntry cmp ops sk ?d"
        by (subst FindNextUserEntry.simps) (simp add: d1(1) n False k(1) f it(1) v True)
      ultimately show ?thesis by (simp add: k(1) f)
    next
      case last: False
      have "FindNextUserEntry cmp ops skipping d = Some (d2\<lparr>di_iter := it, di_saved_key := [], di_valid := False\<rparr>)"
        by (subst FindNextUserEntry.simps) (simp add: d1(1) n False k(1) f it(1) v last)
      moreover have "\<not> shown (di_sequence d) kvs m" if "L \<le> m" "m < length kvs" for m
        using next_invD(3) [OF k(2) that(1)] that(2) last by simp
      ultimately show ?thesis using it(2) by (auto simp: scan_result_def k(1) f)
    qed
  qed
qed

end

section \<open>Forward movements\<close>

lemma Pack_tag: "PackSequenceAndType (drop_bit 8 tag) (ucast (tag AND 0xff)) = tag"
proof -
  have m: "(0xff :: u64) = mask 8" by (simp add: mask_eq_exp_minus_1)
  show ?thesis
    unfolding m
  proof (rule bit_word_eqI)
    fix n assume "n < LENGTH(64)"
    then show "bit (PackSequenceAndType (drop_bit 8 tag) (ucast (tag AND mask 8))) n = bit tag n"
      by (cases "n < 8") (auto simp: PackSequenceAndType_def bit_or_iff bit_push_bit_iff bit_drop_bit_eq bit_ucast_iff
          bit_and_iff bit_mask_iff)
  qed
qed

lemma seq_le_max: "drop_bit 8 (tag :: u64) \<le> kMaxSequenceNumber"
proof -
  have "unat (drop_bit 8 tag) = unat tag div 256"
    by (simp only: unat_drop_bit_eq) (simp add: drop_bit_eq_div)
  then show ?thesis using unat_lt64 [of tag] by (simp add: word_le_nat_alt kMaxSequenceNumber_def)
qed

text \<open>Which entries come before a lookup key at the snapshot.\<close>

lemma tag_after_snapshot:
  assumes "internal_entries kvs" "m < length kvs" "snap \<le> kMaxSequenceNumber"
  shows "PackSequenceAndType snap kValueTypeForSeek < ExtractTag (fst (kvs ! m)) \<longleftrightarrow> \<not> visible snap kvs m"
proof -
  let ?tag = "ExtractTag (fst (kvs ! m))"
  have t: "ent_type kvs m \<le> kTypeValue" by (rule Parse_entry(2) [OF assms(1,2)])
  have "?tag = PackSequenceAndType (ent_seq kvs m) (ent_type kvs m)"
    using Pack_tag [of ?tag] by (simp only: ent_seq_def ent_type_def ExtractValueType_def)
  then have "PackSequenceAndType snap kValueTypeForSeek < ?tag \<longleftrightarrow>
      snap < ent_seq kvs m \<or> (snap = ent_seq kvs m \<and> kValueTypeForSeek < ent_type kvs m)"
    using Pack_less_iff [OF assms(3), of "ent_seq kvs m" kValueTypeForSeek "ent_type kvs m"] seq_le_max
    by (simp add: ent_seq_def)
  then show ?thesis using t by (auto simp: visible_def kValueTypeForSeek_def)
qed

context db_iterator
begin

lemma scan_result_at:
  assumes "scan_result kvs snap L d" "internal_entries kvs" "snap \<le> kMaxSequenceNumber" "L \<le> length kvs"
  shows "dbiter_at cmp at d (db_view snap kvs) (rank (shown snap kvs) L)"
proof (cases "di_valid d")
  case True
  then obtain c where c: "c < length kvs" "shown snap kvs c" "L \<le> c" "\<forall>m. L \<le> m \<longrightarrow> m < c \<longrightarrow> \<not> shown snap kvs m"
    "at (di_iter d) kvs c" using assms(1) by (auto simp: scan_result_def)
  have r: "rank (shown snap kvs) c = rank (shown snap kvs) L" using rank_none [OF c(3)] c(4) by blast
  then have "rank (shown snap kvs) L < length (db_view snap kvs)" using rank_shown_less [OF c(2,1)] by simp
  then show ?thesis using True assms c r by (auto simp: dbiter_at_def scan_result_def)
next
  case False
  then have "\<forall>m. L \<le> m \<longrightarrow> m < length kvs \<longrightarrow> \<not> shown snap kvs m" "\<exists>p. at (di_iter d) kvs p"
    using assms(1) by (auto simp: scan_result_def)
  moreover then have "rank (shown snap kvs) L = length (db_view snap kvs)"
    using rank_none [OF assms(4), of "shown snap kvs"] by (simp add: length_db_view)
  ultimately show ?thesis using False assms by (auto simp: dbiter_at_def scan_result_def)
qed

lemma dbiter_atD:
  assumes "dbiter_at cmp at d view i"
  obtains kvs p where "view = db_view (di_sequence d) kvs" "internal_entries kvs" "di_status d = OK"
    "seed_ok (di_rnd d)" "di_sequence d \<le> kMaxSequenceNumber" "at (di_iter d) kvs p"
    "di_valid d = (i < length view)" "i \<le> length view"
proof -
  obtain kvs where k: "view = db_view (di_sequence d) kvs" "internal_entries kvs" "di_status d = OK"
    "seed_ok (di_rnd d)" "di_sequence d \<le> kMaxSequenceNumber" "i \<le> length view" "di_valid d = (i < length view)"
    "\<exists>p. at (di_iter d) kvs p"
    using assms unfolding dbiter_at_def by (metis (no_types, lifting))
  then show ?thesis using that by blast
qed

lemma dbiter_at_current:
  assumes "dbiter_at cmp at d view i" "i < length view"
  obtains kvs c where "view = db_view (di_sequence d) kvs" "internal_entries kvs" "di_status d = OK"
    "seed_ok (di_rnd d)" "di_sequence d \<le> kMaxSequenceNumber" "di_valid d"
    "c < length kvs" "shown (di_sequence d) kvs c" "rank (shown (di_sequence d) kvs) c = i"
    "di_forward d \<longrightarrow> at (di_iter d) kvs c"
    "\<not> di_forward d \<longrightarrow> di_saved_key d = ent_user kvs c \<and> di_saved_value d = snd (kvs ! c) \<and>
      (\<exists>q\<le>c. at (di_iter d) kvs (before_pos kvs q) \<and>
        (\<forall>j. q \<le> j \<longrightarrow> j < c \<longrightarrow> \<not> visible (di_sequence d) kvs j) \<and>
        (0 < q \<longrightarrow> Compare cmp (ent_user kvs (q - 1)) (ent_user kvs c) < 0))"
  using assms unfolding dbiter_at_def by (auto split: if_splits)

lemma end_at:
  assumes "internal_entries kvs" "di_status d = OK" "seed_ok (di_rnd d)" "di_sequence d \<le> kMaxSequenceNumber"
    "at (di_iter d) kvs p" "\<not> di_valid d"
  shows "dbiter_at cmp at d (db_view (di_sequence d) kvs) (length (db_view (di_sequence d) kvs))"
  using assms by (auto simp: dbiter_at_def)

lemma FindNextUserEntry_pos:
  assumes "at (di_iter d) kvs j" "j < length kvs" "internal_entries kvs" "seed_ok (di_rnd d)" "di_status d = OK"
    "di_forward d" "next_inv cmp (di_sequence d) kvs L j skipping (di_saved_key d)" "L \<le> length kvs"
    "di_sequence d \<le> kMaxSequenceNumber"
  shows "\<exists>d'. FindNextUserEntry cmp ops skipping d = Some d' \<and>
    dbiter_at cmp at d' (db_view (di_sequence d) kvs) (rank (shown (di_sequence d) kvs) L)"
  using FindNextUserEntry_at [OF assms(1-7)] scan_result_at [OF _ assms(3,9,8)] by blast

lemma DBIter_SeekToFirst_at:
  assumes "dbiter_at cmp at d view i"
  shows "\<exists>d'. DBIter_SeekToFirst cmp ops d = Some d' \<and> dbiter_at cmp at d' view 0"
proof -
  obtain kvs p where d: "view = db_view (di_sequence d) kvs" "internal_entries kvs" "di_status d = OK"
    "seed_ok (di_rnd d)" "di_sequence d \<le> kMaxSequenceNumber" "at (di_iter d) kvs p" using dbiter_atD [OF assms] by metis
  obtain it where it: "it_SeekToFirst ops (di_iter d) = Some it" "at it kvs 0" using inner.SeekToFirst_at [OF d(6)] by blast
  let ?d = "d\<lparr>di_forward := True, di_saved_value := [], di_iter := it\<rparr>"
  show ?thesis
  proof (cases "kvs = []")
    case True
    then have "dbiter_at cmp at (?d\<lparr>di_valid := False\<rparr>) view (length view)"
      using end_at [of kvs "?d\<lparr>di_valid := False\<rparr>" 0] d it(2) by simp
    moreover have "length view = 0" using True d(1) by (simp add: db_view_def)
    ultimately show ?thesis using it True inner.Valid_at [OF it(2)] by (simp add: DBIter_SeekToFirst_def)
  next
    case False
    have inv: "next_inv cmp (di_sequence ?d) kvs 0 0 False (di_saved_key ?d)" by (simp add: next_inv_def)
    show ?thesis
      using FindNextUserEntry_pos [of ?d kvs 0 0 False] inv d it(2) False inner.Valid_at [OF it(2)]
      by (simp add: DBIter_SeekToFirst_def it(1))
  qed
qed

lemma before_lookup:
  assumes "kvs_sorted (InternalKeyComparator cmp) kvs" "keys_ok (internal_ok ok) kvs" "internal_entries kvs" "ok t"
    "snap \<le> kMaxSequenceNumber" "m < length kvs"
  shows "m < seek_pos (InternalKeyComparator cmp) kvs (ikey t snap kValueTypeForSeek) \<longleftrightarrow>
    Compare cmp (ent_user kvs m) t < 0 \<or> (ent_user kvs m = t \<and> \<not> visible snap kvs m)"
proof -
  have ik: "internal_ok ok (fst (kvs ! m))" "internal_ok ok (ikey t snap kValueTypeForSeek)"
    using keys_ok_nth [OF assms(2,6)] assms(4) by simp_all
  have "m < seek_pos (InternalKeyComparator cmp) kvs (ikey t snap kValueTypeForSeek) \<longleftrightarrow>
      InternalKey_Compare cmp (fst (kvs ! m)) (ikey t snap kValueTypeForSeek) < 0"
    using internal.seek_pos_iff [OF assms(1,2) ik(2) assms(6)] by simp
  also have "\<dots> \<longleftrightarrow> Compare cmp (ent_user kvs m) t < 0 \<or>
      (ent_user kvs m = t \<and> PackSequenceAndType snap kValueTypeForSeek < ExtractTag (fst (kvs ! m)))"
    unfolding InternalKey_Compare_less [OF ik] by (simp add: ent_user_def)
  finally show ?thesis using tag_after_snapshot [OF assms(3,6,5)] by simp
qed

lemma view_seek_pos:
  assumes "kvs_sorted (InternalKeyComparator cmp) kvs" "keys_ok (internal_ok ok) kvs" "internal_entries kvs" "ok t"
    "snap \<le> kMaxSequenceNumber"
  shows "seek_pos cmp (db_view snap kvs) t =
    rank (shown snap kvs) (seek_pos (InternalKeyComparator cmp) kvs (ikey t snap kValueTypeForSeek))"
proof (rule seek_pos_eqI)
  let ?L = "seek_pos (InternalKeyComparator cmp) kvs (ikey t snap kValueTypeForSeek)"
  show "rank (shown snap kvs) ?L \<le> length (db_view snap kvs)"
    unfolding length_db_view by (intro rank_mono seek_pos_le)
  have iff: "Compare cmp (fst (db_view snap kvs ! k)) t < 0 \<longleftrightarrow> k < rank (shown snap kvs) ?L"
    if k: "k < length (db_view snap kvs)" for k
  proof -
    obtain m where m: "m < length kvs" "shown snap kvs m" "rank (shown snap kvs) m = k" using db_view_index [OF k] .
    have "m < ?L \<longleftrightarrow> Compare cmp (ent_user kvs m) t < 0"
      using before_lookup [OF assms m(1)] m(2) by (auto simp: shown_def)
    then show ?thesis using db_view_nth [OF m(2,1)] m(3) rank_less_iff [of "shown snap kvs" m ?L] m(2) by simp
  qed
  show "Compare cmp (fst (db_view snap kvs ! k)) t < 0" if "k < rank (shown snap kvs) ?L" for k
    using iff [of k] that \<open>rank (shown snap kvs) ?L \<le> length (db_view snap kvs)\<close> by simp
  show "\<not> Compare cmp (fst (db_view snap kvs ! rank (shown snap kvs) ?L)) t < 0"
    if "rank (shown snap kvs) ?L < length (db_view snap kvs)"
    using iff [OF that] by simp
qed

lemma DBIter_Seek_at:
  assumes "dbiter_at cmp at d view i" "ok t"
  shows "\<exists>d'. DBIter_Seek cmp ops t d = Some d' \<and> dbiter_at cmp at d' view (seek_pos cmp view t)"
proof -
  obtain kvs p where d: "view = db_view (di_sequence d) kvs" "internal_entries kvs" "di_status d = OK"
    "seed_ok (di_rnd d)" "di_sequence d \<le> kMaxSequenceNumber" "at (di_iter d) kvs p" using dbiter_atD [OF assms(1)] by metis
  note s = entries [OF d(6)]
  let ?k = "ikey t (di_sequence d) kValueTypeForSeek"
  let ?L = "seek_pos (InternalKeyComparator cmp) kvs ?k"
  obtain it where it: "it_Seek ops ?k (di_iter d) = Some it" "at it kvs ?L"
    using inner.Seek_at [OF d(6), of ?k] assms(2) by auto
  let ?d = "d\<lparr>di_forward := True, di_saved_value := [], di_saved_key := ?k, di_iter := it\<rparr>"
  have step: "DBIter_Seek cmp ops t d =
      (if ?L < length kvs then FindNextUserEntry cmp ops False ?d else Some (?d\<lparr>di_valid := False\<rparr>))"
    using it(1) inner.Valid_at [OF it(2)] by (simp add: DBIter_Seek_def ikey_def)
  note pos = view_seek_pos [OF s d(2) assms(2) d(5)]
  show ?thesis
  proof (cases "?L < length kvs")
    case False
    then have L: "?L = length kvs" using seek_pos_le [of "InternalKeyComparator cmp" kvs ?k] by simp
    have "dbiter_at cmp at (?d\<lparr>di_valid := False\<rparr>) view (length view)"
      using end_at [of kvs "?d\<lparr>di_valid := False\<rparr>" ?L] d it(2) by simp
    moreover have "seek_pos cmp view t = length view" using pos L by (simp add: d(1) length_db_view)
    ultimately show ?thesis using step False by simp
  next
    case True
    have "\<not> (ent_user kvs j' = ent_user kvs m \<and> visible (di_sequence d) kvs j')"
      if m: "?L \<le> m" "m < length kvs" "j' < ?L" for m j'
    proof
      assume eq: "ent_user kvs j' = ent_user kvs m \<and> visible (di_sequence d) kvs j'"
      have "Compare cmp (ent_user kvs j') t < 0"
        using before_lookup [OF s d(2) assms(2) d(5), of j'] m eq by simp
      then show False using before_lookup [OF s d(2) assms(2) d(5), of m] m eq by simp
    qed
    then have inv: "next_inv cmp (di_sequence ?d) kvs ?L ?L False (di_saved_key ?d)"
      unfolding next_inv_def by auto
    show ?thesis
      using FindNextUserEntry_pos [of ?d kvs ?L ?L False, OF _ _ _ _ _ _ inv] d it(2) True step pos by simp
  qed
qed

end

section \<open>Scanning backward\<close>

text \<open>
  The backward scan has passed the entries from \<open>lo\<close> up to \<open>q\<close>: it has seen no visible one, or the first
  visible one \<open>c\<close> of them is what it keeps, and none after \<open>c\<close> is shown.
\<close>

definition prev_inv ::
  "SequenceNumber \<Rightarrow> kv list \<Rightarrow> nat \<Rightarrow> nat \<Rightarrow> ValueType \<Rightarrow> bytes \<Rightarrow> bytes \<Rightarrow> bool" where
  "prev_inv snap kvs q lo value_type saved_key saved_value \<longleftrightarrow>
     (value_type = kTypeDeletion \<and> (\<forall>m. lo \<le> m \<longrightarrow> m < q \<longrightarrow> \<not> visible snap kvs m)) \<or>
     (\<exists>c. lo \<le> c \<and> c < q \<and> visible snap kvs c \<and> (\<forall>m. lo \<le> m \<longrightarrow> m < c \<longrightarrow> \<not> visible snap kvs m) \<and>
        value_type = ent_type kvs c \<and>
        (ent_type kvs c = kTypeValue \<longrightarrow> saved_key = ent_user kvs c \<and> saved_value = snd (kvs ! c)) \<and>
        (\<forall>m. c < m \<longrightarrow> m < q \<longrightarrow> \<not> shown snap kvs m))"

lemma prev_inv_invisible:
  assumes "prev_inv snap kvs q (Suc j) vt k v" "\<not> visible snap kvs j"
  shows "prev_inv snap kvs q j vt k v"
proof -
  have step: "\<forall>m. j \<le> m \<longrightarrow> m < b \<longrightarrow> \<not> visible snap kvs m"
    if "\<forall>m. Suc j \<le> m \<longrightarrow> m < b \<longrightarrow> \<not> visible snap kvs m" for b
    using that assms(2) by (metis Suc_leI order_le_less)
  from assms(1) show ?thesis
    unfolding prev_inv_def
  proof (elim disjE exE conjE, goal_cases)
    case 1
    then show ?case using step [of q] by simp
  next
    case (2 c)
    then show ?case using step [of c] by (intro disjI2 exI [of _ c]) auto
  qed
qed

context db_iterator
begin

lemma prev_entry_at:
  assumes inv: "prev_inv (di_sequence d) kvs q (Suc j) vt (di_saved_key d) (di_saved_value d)"
    and a: "at (di_iter d) kvs j" and j: "j < length kvs" "j < q" "q \<le> length kvs" and e: "internal_entries kvs"
    and n: "prev_entry cmp ops (Some \<lparr>pk_user_key = ent_user kvs j, pk_sequence = ent_seq kvs j, pk_type = ent_type kvs j\<rparr>)
      vt d = (stop, vt', d')"
  shows "if stop then vt' = vt \<and> d' = d \<and> vt \<noteq> kTypeDeletion \<and> visible (di_sequence d) kvs j \<and>
      Compare cmp (ent_user kvs j) (di_saved_key d) < 0
    else (\<exists>k v. d' = d\<lparr>di_saved_key := k, di_saved_value := v\<rparr> \<and> prev_inv (di_sequence d) kvs q j vt' k v)"
proof (cases "visible (di_sequence d) kvs j")
  case False
  then have st: "stop = False" "vt' = vt" "d' = d" using n by (auto simp: prev_entry_def visible_def)
  have "\<exists>k v. d' = d\<lparr>di_saved_key := k, di_saved_value := v\<rparr> \<and> prev_inv (di_sequence d) kvs q j vt' k v"
    by (rule exI [of _ "di_saved_key d"], rule exI [of _ "di_saved_value d"])
      (use prev_inv_invisible [OF inv False] st in simp)
  then show ?thesis using st(1) by simp
next
  case v: True
  note s = entries [OF a]
  show ?thesis
  proof (cases "vt \<noteq> kTypeDeletion \<and> Compare cmp (ent_user kvs j) (di_saved_key d) < 0")
    case True
    then show ?thesis using n v by (auto simp: prev_entry_def visible_def)
  next
    case False
    have later: "\<not> shown (di_sequence d) kvs m" if m: "j < m" "m < q" for m
    proof -
      have inv': "(vt = kTypeDeletion \<and> (\<forall>m. Suc j \<le> m \<longrightarrow> m < q \<longrightarrow> \<not> visible (di_sequence d) kvs m)) \<or>
          (\<exists>c. Suc j \<le> c \<and> c < q \<and> (\<forall>m. Suc j \<le> m \<longrightarrow> m < c \<longrightarrow> \<not> visible (di_sequence d) kvs m) \<and>
            vt = ent_type kvs c \<and> (ent_type kvs c = kTypeValue \<longrightarrow> di_saved_key d = ent_user kvs c) \<and>
            (\<forall>m. c < m \<longrightarrow> m < q \<longrightarrow> \<not> shown (di_sequence d) kvs m))"
        using inv unfolding prev_inv_def by blast
      then show ?thesis
      proof (elim disjE exE conjE)
        assume "\<forall>m. Suc j \<le> m \<longrightarrow> m < q \<longrightarrow> \<not> visible (di_sequence d) kvs m"
        then show ?thesis using m by (simp add: shown_def)
      next
        fix c assume c: "Suc j \<le> c" "c < q" "\<forall>m. Suc j \<le> m \<longrightarrow> m < c \<longrightarrow> \<not> visible (di_sequence d) kvs m"
          "vt = ent_type kvs c" "ent_type kvs c = kTypeValue \<longrightarrow> di_saved_key d = ent_user kvs c"
          "\<forall>m. c < m \<longrightarrow> m < q \<longrightarrow> \<not> shown (di_sequence d) kvs m"
        have cl: "c < length kvs" using c(2) j(3) by simp
        have "\<not> shown (di_sequence d) kvs c"
        proof (rule ent_type_cases [OF e cl])
          assume "ent_type kvs c = kTypeDeletion"
          then show ?thesis using type_distinct by (simp add: shown_def)
        next
          assume t: "ent_type kvs c = kTypeValue"
          then have "\<not> Compare cmp (ent_user kvs j) (ent_user kvs c) < 0" using False c(4,5) type_distinct by simp
          then have "Compare cmp (ent_user kvs c) (ent_user kvs j) \<le> 0"
            using compare_le_or_less [OF user_ok [OF s(2) j(1)] user_ok [OF s(2) cl]] by simp
          then have "ent_user kvs j = ent_user kvs c" using user_between [OF s, of j c] c(1) cl by simp
          then show ?thesis using not_shown [of j c "di_sequence d" kvs] v c(1) by simp
        qed
        then show ?thesis using c m by (cases m c rule: linorder_cases) (auto simp: shown_def)
      qed
    qed
    have vt': "stop = False" "vt' = ent_type kvs j"
      "\<exists>k v. d' = d\<lparr>di_saved_key := k, di_saved_value := v\<rparr> \<and>
        (ent_type kvs j = kTypeValue \<longrightarrow> k = ent_user kvs j \<and> v = snd (kvs ! j))"
      using n v False type_distinct inner.key_at [OF a j(1)] inner.value_at [OF a j(1)]
      by (auto simp: prev_entry_def visible_def ent_user_def split: if_splits)
    then obtain k v' where k: "d' = d\<lparr>di_saved_key := k, di_saved_value := v'\<rparr>"
      "ent_type kvs j = kTypeValue \<longrightarrow> k = ent_user kvs j \<and> v' = snd (kvs ! j)" by blast
    have "prev_inv (di_sequence d) kvs q j vt' k v'"
      unfolding prev_inv_def using v j(2) later k(2) vt'(2) by (intro disjI2 exI [of _ j]) auto
    then show ?thesis using vt'(1) k(1) by auto
  qed
qed

lemma FindPrev_loop_at:
  assumes "at (di_iter d) kvs j" "j < q" "q \<le> length kvs" "internal_entries kvs" "seed_ok (di_rnd d)"
    "di_status d = OK" "prev_inv (di_sequence d) kvs q (Suc j) vt (di_saved_key d) (di_saved_value d)"
  shows "\<exists>vt' d' lo. FindPrev_loop cmp ops vt d = Some (vt', d') \<and> lo \<le> q \<and> di_sequence d' = di_sequence d \<and>
    di_status d' = OK \<and> seed_ok (di_rnd d') \<and> di_forward d' = di_forward d \<and> at (di_iter d') kvs (before_pos kvs lo) \<and>
    prev_inv (di_sequence d) kvs q lo vt' (di_saved_key d') (di_saved_value d') \<and>
    (lo = 0 \<or> vt' \<noteq> kTypeDeletion \<and> Compare cmp (ent_user kvs (lo - 1)) (di_saved_key d') < 0)"
  using assms
proof (induction j arbitrary: d vt)
  case (0 d vt)
  let ?pk = "\<lparr>pk_user_key = ent_user kvs 0, pk_sequence = ent_seq kvs 0, pk_type = ent_type kvs 0\<rparr>"
  have len: "0 < length kvs" using "0.prems"(2,3) by linarith
  obtain d1 where d1: "DBIter_ParseKey ops d = Some (Some ?pk, d1)" "same_scan d d1"
    using ParseKey_at [OF "0.prems"(1) len "0.prems"(4,5)] by blast
  then have f: "di_iter d1 = di_iter d" "di_sequence d1 = di_sequence d" "di_saved_key d1 = di_saved_key d"
    "di_saved_value d1 = di_saved_value d" "di_status d1 = OK" "di_forward d1 = di_forward d" "seed_ok (di_rnd d1)"
    using "0.prems"(5,6) by (auto simp: same_scan_def)
  obtain stop vt' d2 where n: "prev_entry cmp ops (Some ?pk) vt d1 = (stop, vt', d2)"
    by (cases "prev_entry cmp ops (Some ?pk) vt d1")
  note e = prev_entry_at [of d1 kvs q 0 vt stop vt' d2, unfolded f, OF "0.prems"(7,1) len "0.prems"(2,3,4) n]
  show ?case
  proof (cases stop)
    case True
    then have "FindPrev_loop cmp ops vt d = Some (vt', d2)" by (subst FindPrev_loop.simps) (simp add: d1(1) n)
    then show ?thesis
      using e True "0.prems" f by (intro exI [of _ vt'] exI [of _ d2] exI [of _ 1]) (simp add: before_pos_def)
  next
    case False
    then obtain k v where k: "d2 = d1\<lparr>di_saved_key := k, di_saved_value := v\<rparr>" "prev_inv (di_sequence d) kvs q 0 vt' k v"
      using e by auto
    obtain it where it: "it_Prev ops (di_iter d) = Some it" "at it kvs (length kvs)"
      using inner.Prev_at [OF "0.prems"(1) len] by auto
    have "FindPrev_loop cmp ops vt d = Some (vt', d2\<lparr>di_iter := it\<rparr>)"
      by (subst FindPrev_loop.simps) (simp add: d1(1) n False k(1) f it(1) inner.Valid_at [OF it(2)])
    then show ?thesis
      using k f it(2) by (intro exI [of _ vt'] exI [of _ "d2\<lparr>di_iter := it\<rparr>"] exI [of _ 0]) (simp add: before_pos_def)
  qed
next
  case (Suc j d vt)
  let ?pk = "\<lparr>pk_user_key = ent_user kvs (Suc j), pk_sequence = ent_seq kvs (Suc j), pk_type = ent_type kvs (Suc j)\<rparr>"
  have len: "Suc j < length kvs" using Suc.prems(2,3) by simp
  obtain d1 where d1: "DBIter_ParseKey ops d = Some (Some ?pk, d1)" "same_scan d d1"
    using ParseKey_at [OF Suc.prems(1) len Suc.prems(4,5)] by blast
  then have f: "di_iter d1 = di_iter d" "di_sequence d1 = di_sequence d" "di_saved_key d1 = di_saved_key d"
    "di_saved_value d1 = di_saved_value d" "di_status d1 = OK" "di_forward d1 = di_forward d" "seed_ok (di_rnd d1)"
    using Suc.prems(5,6) by (auto simp: same_scan_def)
  obtain stop vt' d2 where n: "prev_entry cmp ops (Some ?pk) vt d1 = (stop, vt', d2)"
    by (cases "prev_entry cmp ops (Some ?pk) vt d1")
  note e = prev_entry_at [of d1 kvs q "Suc j" vt stop vt' d2, unfolded f, OF Suc.prems(7,1) len Suc.prems(2,3,4) n]
  show ?case
  proof (cases stop)
    case True
    then have "FindPrev_loop cmp ops vt d = Some (vt', d2)" by (subst FindPrev_loop.simps) (simp add: d1(1) n)
    then show ?thesis
      using e True Suc.prems f by (intro exI [of _ vt'] exI [of _ d2] exI [of _ "Suc (Suc j)"]) (simp add: before_pos_def)
  next
    case False
    then obtain k v where k: "d2 = d1\<lparr>di_saved_key := k, di_saved_value := v\<rparr>"
      "prev_inv (di_sequence d) kvs q (Suc j) vt' k v" using e by auto
    obtain it where it: "it_Prev ops (di_iter d) = Some it" "at it kvs j"
      using inner.Prev_at [OF Suc.prems(1) len] by auto
    have "FindPrev_loop cmp ops vt d = FindPrev_loop cmp ops vt' (d2\<lparr>di_iter := it\<rparr>)"
      using len by (subst FindPrev_loop.simps) (simp add: d1(1) n False k(1) f it(1) inner.Valid_at [OF it(2)])
    then show ?thesis
      using Suc.IH [of "d2\<lparr>di_iter := it\<rparr>" vt'] Suc.prems(2-4) k f it(2) by simp
  qed
qed

end

section \<open>The database iterator is an iterator over the view\<close>

context db_iterator
begin

lemma reverse_at:
  assumes "internal_entries kvs" "di_status d = OK" "seed_ok (di_rnd d)" "di_sequence d \<le> kMaxSequenceNumber"
    "di_valid d" "\<not> di_forward d" and c: "c < length kvs" "shown (di_sequence d) kvs c"
    and saved: "di_saved_key d = ent_user kvs c" "di_saved_value d = snd (kvs ! c)"
    and q: "q \<le> c" "at (di_iter d) kvs (before_pos kvs q)" "\<forall>j. q \<le> j \<longrightarrow> j < c \<longrightarrow> \<not> visible (di_sequence d) kvs j"
      "0 < q \<longrightarrow> Compare cmp (ent_user kvs (q - 1)) (ent_user kvs c) < 0"
  shows "dbiter_at cmp at d (db_view (di_sequence d) kvs) (rank (shown (di_sequence d) kvs) c)"
proof -
  let ?i = "rank (shown (di_sequence d) kvs) c"
  have i: "?i < length (db_view (di_sequence d) kvs)" by (rule rank_shown_less [OF c(2,1)])
  have "\<exists>c'<length kvs. shown (di_sequence d) kvs c' \<and> rank (shown (di_sequence d) kvs) c' = ?i \<and>
      (if di_forward d then at (di_iter d) kvs c'
       else di_saved_key d = ent_user kvs c' \<and> di_saved_value d = snd (kvs ! c') \<and>
         (\<exists>q\<le>c'. at (di_iter d) kvs (before_pos kvs q) \<and>
           (\<forall>j. q \<le> j \<longrightarrow> j < c' \<longrightarrow> \<not> visible (di_sequence d) kvs j) \<and>
           (0 < q \<longrightarrow> Compare cmp (ent_user kvs (q - 1)) (ent_user kvs c') < 0)))"
    using assms(6) c saved q by (intro exI [of _ c]) auto
  then show ?thesis unfolding dbiter_at_def using assms(1-5) i by (intro exI [of _ kvs]) simp
qed

lemma FindPrevUserEntry_pos:
  assumes a: "at (di_iter d) kvs (before_pos kvs q)" and q: "q \<le> length kvs" and e: "internal_entries kvs"
    and r: "seed_ok (di_rnd d)" and st: "di_status d = OK" and fw: "\<not> di_forward d"
    and mx: "di_sequence d \<le> kMaxSequenceNumber"
  shows "\<exists>d'. FindPrevUserEntry cmp ops d = Some d' \<and>
    dbiter_at cmp at d' (db_view (di_sequence d) kvs)
      (if rank (shown (di_sequence d) kvs) q = 0 then length (db_view (di_sequence d) kvs)
       else rank (shown (di_sequence d) kvs) q - 1)"
proof -
  let ?P = "shown (di_sequence d) kvs"
  note s = entries [OF a]
  define res where "res = (if it_Valid ops (di_iter d) then FindPrev_loop cmp ops kTypeDeletion d else Some (kTypeDeletion, d))"
  have "\<exists>vt' d' lo. res = Some (vt', d') \<and> lo \<le> q \<and> di_sequence d' = di_sequence d \<and>
    di_status d' = OK \<and> seed_ok (di_rnd d') \<and> \<not> di_forward d' \<and> at (di_iter d') kvs (before_pos kvs lo) \<and>
    prev_inv (di_sequence d) kvs q lo vt' (di_saved_key d') (di_saved_value d') \<and>
    (lo = 0 \<or> vt' \<noteq> kTypeDeletion \<and> Compare cmp (ent_user kvs (lo - 1)) (di_saved_key d') < 0)"
  proof (cases "q = 0")
    case True
    then have "\<not> it_Valid ops (di_iter d)" using inner.Valid_at [OF a] by (simp add: before_pos_def)
    then show ?thesis using True a r st fw by (auto simp: res_def prev_inv_def intro!: exI [of _ 0])
  next
    case False
    then have a': "at (di_iter d) kvs (q - 1)" "q - 1 < q" "q - 1 < length kvs" using a q by (simp_all add: before_pos_def)
    have "prev_inv (di_sequence d) kvs q (Suc (q - 1)) kTypeDeletion (di_saved_key d) (di_saved_value d)"
      using False by (simp add: prev_inv_def)
    from FindPrev_loop_at [OF a'(1,2) q e r st this] show ?thesis
      using fw a'(3) inner.Valid_at [OF a'(1)] by (simp add: res_def)
  qed
  then obtain vt' d' lo where d': "res = Some (vt', d')" "lo \<le> q" "di_sequence d' = di_sequence d" "di_status d' = OK"
    "seed_ok (di_rnd d')" "\<not> di_forward d'" "at (di_iter d') kvs (before_pos kvs lo)"
    "prev_inv (di_sequence d) kvs q lo vt' (di_saved_key d') (di_saved_value d')"
    "lo = 0 \<or> vt' \<noteq> kTypeDeletion \<and> Compare cmp (ent_user kvs (lo - 1)) (di_saved_key d') < 0" by blast
  show ?thesis
  proof (cases "vt' = kTypeDeletion")
    case True
    then have "lo = 0" using d'(9) by blast
    have "\<not> ?P m" if "m < q" for m
      using d'(8) that unfolding prev_inv_def True \<open>lo = 0\<close>
    proof (elim disjE exE conjE)
      fix c assume c: "\<forall>m\<ge>0. m < c \<longrightarrow> \<not> visible (di_sequence d) kvs m" "kTypeDeletion = ent_type kvs c"
        "\<forall>m>c. m < q \<longrightarrow> \<not> ?P m"
      show ?thesis using c that type_distinct by (cases m c rule: linorder_cases) (auto simp: shown_def)
    qed (auto simp: shown_def)
    then have "rank ?P q = 0" using rank_none [of 0 q ?P] by simp
    moreover have "FindPrevUserEntry cmp ops d =
        Some (d'\<lparr>di_valid := False, di_saved_key := [], di_saved_value := [], di_forward := True\<rparr>)"
      unfolding FindPrevUserEntry_def res_def [symmetric] d'(1) by (simp add: True)
    moreover have "dbiter_at cmp at (d'\<lparr>di_valid := False, di_saved_key := [], di_saved_value := [], di_forward := True\<rparr>)
        (db_view (di_sequence d) kvs) (length (db_view (di_sequence d) kvs))"
      using end_at [of kvs "d'\<lparr>di_valid := False, di_saved_key := [], di_saved_value := [], di_forward := True\<rparr>"]
        e d' mx by simp
    ultimately show ?thesis by simp
  next
    case False
    then obtain c where c: "lo \<le> c" "c < q" "visible (di_sequence d) kvs c"
      "\<forall>m. lo \<le> m \<longrightarrow> m < c \<longrightarrow> \<not> visible (di_sequence d) kvs m" "vt' = ent_type kvs c"
      "ent_type kvs c = kTypeValue \<longrightarrow> di_saved_key d' = ent_user kvs c \<and> di_saved_value d' = snd (kvs ! c)"
      "\<forall>m. c < m \<longrightarrow> m < q \<longrightarrow> \<not> ?P m"
      using d'(8) unfolding prev_inv_def by blast
    have cl: "c < length kvs" using c(2) q by simp
    have t: "ent_type kvs c = kTypeValue" using ent_type_cases [OF e cl] False c(5) by metis
    then have saved: "di_saved_key d' = ent_user kvs c" "di_saved_value d' = snd (kvs ! c)" using c(6) by auto
    have low: "0 < lo \<longrightarrow> Compare cmp (ent_user kvs (lo - 1)) (ent_user kvs c) < 0" using d'(9) saved by auto
    have "?P c"
      unfolding shown_def
    proof (intro conjI allI impI c(3) t)
      fix m assume m: "m < c" "ent_user kvs m = ent_user kvs c"
      show "\<not> visible (di_sequence d) kvs m"
      proof (cases "lo \<le> m")
        case True then show ?thesis using c(4) m(1) by blast
      next
        case False
        then have l: "0 < lo" "m \<le> lo - 1" "lo - 1 < length kvs" using c(1) cl by simp_all
        have "Compare cmp (ent_user kvs m) (ent_user kvs (lo - 1)) \<le> 0" by (rule user_mono [OF s l(2,3)])
        then have "Compare cmp (ent_user kvs m) (ent_user kvs c) < 0"
          using low l compare_le_less_trans user_ok [OF s(2)] m(1) cl by (metis order_less_trans)
        then show ?thesis using m(2) compare_refl user_ok [OF s(2) cl] by simp
      qed
    qed
    moreover have "rank ?P q = Suc (rank ?P c)"
      using rank_none [of "Suc c" q ?P] c(2,7) \<open>?P c\<close> by (simp add: rank_Suc)
    moreover have "FindPrevUserEntry cmp ops d = Some (d'\<lparr>di_valid := True\<rparr>)"
      unfolding FindPrevUserEntry_def res_def [symmetric] d'(1) by (simp add: False)
    moreover have "dbiter_at cmp at (d'\<lparr>di_valid := True\<rparr>) (db_view (di_sequence d) kvs) (rank ?P c)"
      using reverse_at [of kvs "d'\<lparr>di_valid := True\<rparr>" c lo] e d' mx cl \<open>?P c\<close> saved c(1,4) low by simp
    ultimately show ?thesis by simp
  qed
qed

lemma DBIter_SeekToLast_at:
  assumes "dbiter_at cmp at d view i"
  shows "\<exists>d'. DBIter_SeekToLast cmp ops d = Some d' \<and> dbiter_at cmp at d' view (length view - 1)"
proof -
  obtain kvs p where d: "view = db_view (di_sequence d) kvs" "internal_entries kvs" "di_status d = OK"
    "seed_ok (di_rnd d)" "di_sequence d \<le> kMaxSequenceNumber" "at (di_iter d) kvs p" using dbiter_atD [OF assms] by metis
  obtain it where it: "it_SeekToLast ops (di_iter d) = Some it" "at it kvs (length kvs - 1)"
    using inner.SeekToLast_at [OF d(6)] by blast
  have "before_pos kvs (length kvs) = length kvs - 1" by (simp add: before_pos_def)
  then show ?thesis
    using FindPrevUserEntry_pos [of "d\<lparr>di_forward := False, di_saved_value := [], di_iter := it\<rparr>" kvs "length kvs"] d it(2)
    by (auto simp: DBIter_SeekToLast_def it(1) length_db_view split: if_splits)
qed

lemma DBIter_Next_at:
  assumes "dbiter_at cmp at d view i" "i < length view"
  shows "\<exists>d'. DBIter_Next cmp ops d = Some d' \<and> dbiter_at cmp at d' view (Suc i)"
proof -
  obtain kvs c where d: "view = db_view (di_sequence d) kvs" "internal_entries kvs" "di_status d = OK"
    "seed_ok (di_rnd d)" "di_sequence d \<le> kMaxSequenceNumber" "di_valid d"
    "c < length kvs" "shown (di_sequence d) kvs c" "rank (shown (di_sequence d) kvs) c = i"
    and fwd: "di_forward d \<longrightarrow> at (di_iter d) kvs c"
    and rev: "\<not> di_forward d \<longrightarrow> di_saved_key d = ent_user kvs c \<and> di_saved_value d = snd (kvs ! c) \<and>
      (\<exists>q\<le>c. at (di_iter d) kvs (before_pos kvs q) \<and>
        (\<forall>j. q \<le> j \<longrightarrow> j < c \<longrightarrow> \<not> visible (di_sequence d) kvs j) \<and>
        (0 < q \<longrightarrow> Compare cmp (ent_user kvs (q - 1)) (ent_user kvs c) < 0))"
    using dbiter_at_current [OF assms] .
  let ?snap = "di_sequence d"
  have pos: "rank (shown ?snap kvs) (Suc c) = Suc i" using d(8,9) by (simp add: rank_Suc)
  have inv: "next_inv cmp ?snap kvs (Suc c) q True (ent_user kvs c)"
    if s: "kvs_sorted (InternalKeyComparator cmp) kvs" "keys_ok (internal_ok ok) kvs" and q: "q \<le> c"
      and gap: "\<And>j. q \<le> j \<Longrightarrow> j < c \<Longrightarrow> \<not> visible ?snap kvs j" for q
    unfolding next_inv_def
  proof (intro conjI allI impI TrueI)
    fix m j' assume "j' < q" "ent_user kvs j' = ent_user kvs m"
    then show "Compare cmp (ent_user kvs m) (ent_user kvs c) \<le> 0" using user_mono [OF s, of j' c] q d(7) by simp
  next
    fix m assume m: "Suc c \<le> m" "m < length kvs" "True \<and> Compare cmp (ent_user kvs m) (ent_user kvs c) \<le> 0"
    then have "ent_user kvs c = ent_user kvs m" using user_between [OF s, of c m] by simp
    then show "\<not> shown ?snap kvs m" using not_shown [of c m ?snap kvs] m(1) d(8) by (simp add: shown_def)
  next
    fix m assume "q \<le> m" "m < Suc c" "visible ?snap kvs m"
    then have "m = c" using gap [of m] by (metis less_antisym)
    then show "Compare cmp (ent_user kvs m) (ent_user kvs c) \<le> 0" "ent_type kvs m = kTypeValue" "Suc m = Suc c"
      using user_mono [OF s order_refl d(7)] d(8) by (simp_all add: shown_def)
  qed (use q in simp)
  show ?thesis
  proof (cases "di_forward d")
    case True
    note a = fwd [rule_format, OF True]
    have key: "ExtractUserKey (it_key ops (di_iter d)) = ent_user kvs c"
      using inner.key_at [OF a d(7)] by (simp add: ent_user_def)
    show ?thesis
      using FindNextUserEntry_pos [of "d\<lparr>di_saved_key := ent_user kvs c\<rparr>" kvs c "Suc c" True] a d pos True
        inv [OF entries [OF a], of c]
      by (simp add: DBIter_Next_def key)
  next
    case False
    then obtain q where q: "di_saved_key d = ent_user kvs c" "q \<le> c" "at (di_iter d) kvs (before_pos kvs q)"
      "\<forall>j. q \<le> j \<longrightarrow> j < c \<longrightarrow> \<not> visible ?snap kvs j" using rev by blast
    have ql: "q < length kvs" using q(2) d(7) by simp
    obtain it where it: "(if \<not> it_Valid ops (di_iter d) then it_SeekToFirst ops (di_iter d) else it_Next ops (di_iter d)) = Some it"
      "at it kvs q"
    proof (cases "q = 0")
      case True
      then show ?thesis
        using that inner.SeekToFirst_at [OF q(3)] inner.Valid_at [OF q(3)] by (auto simp: before_pos_def)
    next
      case False
      then have "before_pos kvs q < length kvs" "Suc (before_pos kvs q) = q" using ql by (simp_all add: before_pos_def)
      then show ?thesis using that inner.Next_at [OF q(3)] inner.Valid_at [OF q(3)] by auto
    qed
    show ?thesis
      using FindNextUserEntry_pos [of "d\<lparr>di_forward := True, di_iter := it\<rparr>" kvs q "Suc c" True] it(2) d pos ql q
        inv [OF entries [OF it(2)] q(2)] inner.Valid_at [OF it(2)] False
      by (simp add: DBIter_Next_def it(1))
  qed
qed

text \<open>Leaving the entries of the current user key backwards.\<close>

lemma leave_key_at:
  assumes "at (di_iter d) kvs j" "j \<le> c" "c < length kvs" "di_saved_key d = ent_user kvs c"
    "\<forall>m. j \<le> m \<longrightarrow> m \<le> c \<longrightarrow> ent_user kvs m = ent_user kvs c"
  shows "(\<exists>it. leave_key cmp ops d =
        Some (Inl (d\<lparr>di_iter := it, di_valid := False, di_saved_key := [], di_saved_value := []\<rparr>)) \<and>
        at it kvs (length kvs) \<and> (\<forall>m\<le>c. ent_user kvs m = ent_user kvs c)) \<or>
    (\<exists>it p. leave_key cmp ops d = Some (Inr (d\<lparr>di_iter := it\<rparr>)) \<and> at it kvs p \<and> p < c \<and>
        Compare cmp (ent_user kvs p) (ent_user kvs c) < 0 \<and>
        (\<forall>m. p < m \<longrightarrow> m \<le> c \<longrightarrow> ent_user kvs m = ent_user kvs c))"
  using assms
proof (induction j arbitrary: d)
  case (0 d)
  obtain it where it: "it_Prev ops (di_iter d) = Some it" "at it kvs (length kvs)"
    using inner.Prev_at [OF "0.prems"(1)] "0.prems"(2,3) by fastforce
  have "leave_key cmp ops d =
      Some (Inl (d\<lparr>di_iter := it, di_valid := False, di_saved_key := [], di_saved_value := []\<rparr>))"
    by (subst leave_key.simps) (simp add: it(1) inner.Valid_at [OF it(2)])
  moreover have "\<forall>m\<le>c. ent_user kvs m = ent_user kvs c" using "0.prems"(5) le0 by blast
  ultimately show ?case using it(2) by blast
next
  case (Suc j d)
  note s = entries [OF Suc.prems(1)]
  have jl: "Suc j < length kvs" "j < length kvs" "j < c" using Suc.prems(2,3) by simp_all
  obtain it where it: "it_Prev ops (di_iter d) = Some it" "at it kvs j"
    using inner.Prev_at [OF Suc.prems(1) jl(1)] by auto
  have key: "ExtractUserKey (it_key ops it) = ent_user kvs j" "it_Valid ops it"
    using inner.key_at [OF it(2) jl(2)] inner.Valid_at [OF it(2)] jl(2) by (simp_all add: ent_user_def)
  show ?case
  proof (cases "Compare cmp (ent_user kvs j) (ent_user kvs c) < 0")
    case True
    then have "leave_key cmp ops d = Some (Inr (d\<lparr>di_iter := it\<rparr>))"
      by (subst leave_key.simps) (simp add: it(1) key Suc.prems(4))
    moreover have "\<forall>m. j < m \<longrightarrow> m \<le> c \<longrightarrow> ent_user kvs m = ent_user kvs c"
      using Suc.prems(5) Suc_leI by blast
    ultimately show ?thesis using it(2) jl(3) True by blast
  next
    case False
    then have "Compare cmp (ent_user kvs c) (ent_user kvs j) \<le> 0"
      using compare_le_or_less [OF user_ok [OF s(2) jl(2)] user_ok [OF s(2) Suc.prems(3)]] by simp
    then have "ent_user kvs j = ent_user kvs c" using user_between [OF s, of j c] jl(3) Suc.prems(3) by simp
    then have same: "\<forall>m. j \<le> m \<longrightarrow> m \<le> c \<longrightarrow> ent_user kvs m = ent_user kvs c"
      using Suc.prems(5) by (metis Suc_leI order_le_less)
    have step: "leave_key cmp ops d = leave_key cmp ops (d\<lparr>di_iter := it\<rparr>)"
      using False by (subst leave_key.simps) (simp add: it(1) key Suc.prems(4))
    have at: "at (di_iter (d\<lparr>di_iter := it\<rparr>)) kvs j" "j \<le> c"
      "di_saved_key (d\<lparr>di_iter := it\<rparr>) = ent_user kvs c"
      using it(2) jl(3) Suc.prems(4) by simp_all
    have upd: "d\<lparr>di_iter := it, di_iter := x\<rparr> = d\<lparr>di_iter := x\<rparr>" for x by simp
    show ?thesis using Suc.IH [OF at(1,2) Suc.prems(3) at(3) same] unfolding step upd .
  qed
qed

lemma rank_same_user:
  assumes c: "shown snap kvs c" and p: "p \<le> c" "\<forall>m. p \<le> m \<longrightarrow> m \<le> c \<longrightarrow> ent_user kvs m = ent_user kvs c"
  shows "rank (shown snap kvs) p = rank (shown snap kvs) c"
proof -
  have "\<not> shown snap kvs m" if m: "p \<le> m" "m < c" for m
  proof
    assume "shown snap kvs m"
    then have "visible snap kvs m" by (simp add: shown_def)
    moreover have "ent_user kvs m = ent_user kvs c" using p(2) m order_less_imp_le by blast
    ultimately show False using not_shown [OF m(2)] c by blast
  qed
  then show ?thesis using rank_none [OF p(1), of "shown snap kvs"] by simp
qed

lemma DBIter_Prev_at:
  assumes "dbiter_at cmp at d view i" "i < length view"
  shows "\<exists>d'. DBIter_Prev cmp ops d = Some d' \<and> dbiter_at cmp at d' view (if i = 0 then length view else i - 1)"
proof -
  obtain kvs c where d: "view = db_view (di_sequence d) kvs" "internal_entries kvs" "di_status d = OK"
    "seed_ok (di_rnd d)" "di_sequence d \<le> kMaxSequenceNumber" "di_valid d"
    "c < length kvs" "shown (di_sequence d) kvs c" "rank (shown (di_sequence d) kvs) c = i"
    and fwd: "di_forward d \<longrightarrow> at (di_iter d) kvs c"
    and rev: "\<not> di_forward d \<longrightarrow> di_saved_key d = ent_user kvs c \<and> di_saved_value d = snd (kvs ! c) \<and>
      (\<exists>q\<le>c. at (di_iter d) kvs (before_pos kvs q) \<and>
        (\<forall>j. q \<le> j \<longrightarrow> j < c \<longrightarrow> \<not> visible (di_sequence d) kvs j) \<and>
        (0 < q \<longrightarrow> Compare cmp (ent_user kvs (q - 1)) (ent_user kvs c) < 0))"
    using dbiter_at_current [OF assms] .
  let ?P = "shown (di_sequence d) kvs"
  show ?thesis
  proof (cases "di_forward d")
    case False
    then obtain q where q: "q \<le> c" "at (di_iter d) kvs (before_pos kvs q)"
      "\<forall>j. q \<le> j \<longrightarrow> j < c \<longrightarrow> \<not> visible (di_sequence d) kvs j" using rev by blast
    have "rank ?P q = i" using rank_none [OF q(1), of ?P] q(3) d(9) by (simp add: shown_def)
    then show ?thesis
      using FindPrevUserEntry_pos [OF q(2) _ d(2,4,3) False d(5)] q(1) d(1,6,7) False
      by (simp add: DBIter_Prev_def split: if_splits)
  next
    case True
    note a = fwd [rule_format, OF True]
    let ?d = "d\<lparr>di_saved_key := ent_user kvs c\<rparr>"
    have key: "ExtractUserKey (it_key ops (di_iter d)) = ent_user kvs c"
      using inner.key_at [OF a d(7)] by (simp add: ent_user_def)
    have same: "\<forall>m. c \<le> m \<longrightarrow> m \<le> c \<longrightarrow> ent_user kvs m = ent_user kvs c" by (metis order_antisym)
    have "at (di_iter ?d) kvs c" "di_saved_key ?d = ent_user kvs c" using a by simp_all
    from leave_key_at [OF this(1) order_refl d(7) this(2) same] consider
      (first) it where "leave_key cmp ops ?d =
          Some (Inl (?d\<lparr>di_iter := it, di_valid := False, di_saved_key := [], di_saved_value := []\<rparr>))"
        "at it kvs (length kvs)" "\<forall>m\<le>c. ent_user kvs m = ent_user kvs c"
      | (earlier) it p where "leave_key cmp ops ?d = Some (Inr (?d\<lparr>di_iter := it\<rparr>))" "at it kvs p" "p < c"
        "\<forall>m. p < m \<longrightarrow> m \<le> c \<longrightarrow> ent_user kvs m = ent_user kvs c"
      by blast
    then show ?thesis
    proof cases
      case first
      have "\<forall>m. 0 \<le> m \<longrightarrow> m \<le> c \<longrightarrow> ent_user kvs m = ent_user kvs c" using first(3) by blast
      from rank_same_user [OF d(8) _ this] have "i = 0" using d(9) by simp
      moreover have "dbiter_at cmp at (d\<lparr>di_iter := it, di_valid := False, di_saved_key := [], di_saved_value := []\<rparr>) view (length view)"
        using end_at [of kvs "d\<lparr>di_iter := it, di_valid := False, di_saved_key := [], di_saved_value := []\<rparr>"] d first(2) by simp
      ultimately show ?thesis unfolding DBIter_Prev_def key first(1) using True d(6) by simp
    next
      case earlier
      have "\<forall>m. Suc p \<le> m \<longrightarrow> m \<le> c \<longrightarrow> ent_user kvs m = ent_user kvs c" using earlier(4) Suc_le_lessD by blast
      from rank_same_user [OF d(8) _ this] have rank: "rank ?P (Suc p) = i" using earlier(3) d(9) by simp
      have "before_pos kvs (Suc p) = p" by (simp add: before_pos_def)
      then show ?thesis
        using FindPrevUserEntry_pos [of "?d\<lparr>di_iter := it, di_forward := False\<rparr>" kvs "Suc p"] earlier(1-3) d(1-7) True rank
        by (simp add: DBIter_Prev_def key split: if_splits)
    qed
  qed
qed

lemma dbiter_iterator: "iterator cmp ok (dbiter_ops cmp ops) (dbiter_at cmp at)"
proof unfold_locales
  fix d view i t
  assume at: "dbiter_at cmp at d view i"
  obtain kvs p where d: "view = db_view (di_sequence d) kvs" "di_status d = OK" "at (di_iter d) kvs p"
    "di_valid d = (i < length view)" "i \<le> length view" using dbiter_atD [OF at] by metis
  show "i \<le> length view" by (fact d(5))
  show "kvs_sorted cmp view" "keys_ok ok view" using view_sorted [OF entries [OF d(3)]] d(1) by simp_all
  show "it_Valid (dbiter_ops cmp ops) d = (i < length view)" using d(4) by (simp add: dbiter_ops_def)
  show "it_status (dbiter_ops cmp ops) d = OK" using d(2) inner.status_at [OF d(3)] by (simp add: dbiter_ops_def DBIter_status_def)
  show "it_key (dbiter_ops cmp ops) d = fst (view ! i)" "it_value (dbiter_ops cmp ops) d = snd (view ! i)"
    if i: "i < length view"
  proof -
    obtain kvs c where c: "view = db_view (di_sequence d) kvs" "c < length kvs" "shown (di_sequence d) kvs c"
      "rank (shown (di_sequence d) kvs) c = i"
      "di_forward d \<longrightarrow> at (di_iter d) kvs c"
      "\<not> di_forward d \<longrightarrow> di_saved_key d = ent_user kvs c \<and> di_saved_value d = snd (kvs ! c)"
      using dbiter_at_current [OF at i] by metis
    have "view ! i = (ent_user kvs c, snd (kvs ! c))" using db_view_nth [OF c(3,2)] c(1,4) by simp
    then show "it_key (dbiter_ops cmp ops) d = fst (view ! i)" "it_value (dbiter_ops cmp ops) d = snd (view ! i)"
      using c(5,6) inner.key_at [OF _ c(2)] inner.value_at [OF _ c(2)]
      by (auto simp: dbiter_ops_def DBIter_key_def DBIter_value_def ent_user_def)
  qed
qed (simp_all add: dbiter_ops_def DBIter_SeekToFirst_at DBIter_SeekToLast_at [simplified] DBIter_Seek_at
    DBIter_Next_at DBIter_Prev_at)

text \<open>A new database iterator is over the view of its internal iterator's entries.\<close>

lemma NewDBIterator_at:
  assumes "at it kvs p" "internal_entries kvs" "s \<le> kMaxSequenceNumber"
  shows "dbiter_at cmp at (NewDBIterator it s seed) (db_view s kvs) (length (db_view s kvs))"
proof -
  have "seed_ok (Random_new seed)"
  proof -
    have m: "(0x7fffffff :: u32) = mask 31" by (simp add: mask_eq_exp_minus_1)
    have "unat (seed AND 0x7fffffff) < 2 ^ 31"
      unfolding m take_bit_eq_mask [symmetric] by (simp only: unsigned_take_bit_eq take_bit_nat_less_exp)
    then show ?thesis
      by (auto simp: Random_new_def seed_ok_def Let_def word_unat_eq_iff simp del: unat_eq_zero)
  qed
  then show ?thesis
    using assms Random_Next_range(2) by (auto simp: NewDBIterator_def Let_def RandomPeriod_eq dbiter_at_def)
qed

end
end
