(* ===== verification/TableIter.thy ===== *)
theory TableIter
  imports Table TwoLevel DBIter
begin

text \<open>
  The iterators of a table (\<open>Block::NewIterator\<close>, \<open>Table::NewIterator\<close>): the block iterators and the
  two-level iterator over the blocks of a table keep the contract of iterators, so the merging, the
  two-level and the database iterator may run on them.
\<close>

section \<open>Block iterators\<close>

text \<open>\<open>Next\<close> and \<open>Prev\<close> assert a valid iterator.\<close>

definition nbi_valid :: "new_block_iter \<Rightarrow> bool" where
  "nbi_valid it = (case it of BlockIterator b \<Rightarrow> BlockIter_Valid b | _ \<Rightarrow> False)"

definition nbi_move :: "(block_iter \<Rightarrow> block_iter) \<Rightarrow> new_block_iter \<Rightarrow> new_block_iter" where
  "nbi_move f it = (case it of BlockIterator b \<Rightarrow> BlockIterator (f b) | _ \<Rightarrow> it)"

definition nbi_ops :: "comparator \<Rightarrow> new_block_iter iter_ops" where
  "nbi_ops cmp =
     \<lparr>it_Valid = nbi_valid,
      it_key = (\<lambda>it. case it of BlockIterator b \<Rightarrow> bi_key b | _ \<Rightarrow> []),
      it_value = (\<lambda>it. case it of BlockIterator b \<Rightarrow> BlockIter_value b | _ \<Rightarrow> []),
      it_status = nbi_status,
      it_SeekToFirst = (\<lambda>it. Some (nbi_move BlockIter_SeekToFirst it)),
      it_SeekToLast = (\<lambda>it. Some (nbi_move BlockIter_SeekToLast it)),
      it_Seek = (\<lambda>t it. Some (nbi_Seek cmp t it)),
      it_Next = (\<lambda>it. if nbi_valid it then Some (nbi_move BlockIter_Next it) else None),
      it_Prev = (\<lambda>it. if nbi_valid it then Some (nbi_move BlockIter_Prev it) else None)\<rparr>"

text \<open>The position of a block iterator over well-formed entries.\<close>

definition nbi_at ::
  "comparator \<Rightarrow> (bytes \<Rightarrow> bool) \<Rightarrow> new_block_iter \<Rightarrow> kv list \<Rightarrow> nat \<Rightarrow> bool" where
  "nbi_at cmp ok it kvs i \<longleftrightarrow> kvs_sorted cmp kvs \<and> keys_ok ok kvs \<and> i \<le> length kvs \<and>
     (case it of
        BlockIterator b \<Rightarrow> \<exists>es idxs. map ent_kv es = kvs \<and> iter_pos b es idxs i
      | EmptyIterator \<Rightarrow> kvs = []
      | ErrorIterator s \<Rightarrow> False)"

lemma iter_pos_view: "iter_pos b es idxs i \<Longrightarrow> block_view b es idxs \<and> bi_status b = OK"
  by (auto simp: iter_pos_def iter_at_def iter_end_def split: if_splits)

lemma iter_pos_valid: "iter_pos b es idxs i \<Longrightarrow> i \<le> length es \<Longrightarrow> BlockIter_Valid b = (i < length es)"
  by (auto simp: iter_pos_def iter_end_def dest: iter_at_Valid split: if_splits)

text \<open>\<open>SeekToLast\<close> on a block without entries.\<close>

lemma BlockIter_SeekToLast_empty:
  assumes "block_view b [] idxs" "bi_status b = OK"
  shows "iter_pos (BlockIter_SeekToLast b) [] idxs 0"
proof -
  have z: "bi_restarts b = 0" using assms(1) by (simp add: block_view_def block_bytes_def)
  have "iter_end (BlockIter_SeekToLast b) [] idxs"
    using assms z unfolding BlockIter_SeekToLast_def
    by (subst parse_until_offset.simps)
      (auto simp: ParseNextKey_def SeekToRestartPoint_def Let_def iter_end_def BlockIter_Valid_def
        intro: block_view_cong [THEN iffD1, rotated 3])
  then show ?thesis by (simp add: iter_pos_def)
qed

context comparator_laws
begin

lemma kvs_sorted_keys: "kvs_sorted cmp (map ent_kv es) = keys_sorted cmp es"
  by (simp add: kvs_sorted_def keys_sorted_def sorted_wrt_map ent_kv_def)

lemma first_ge_seek_pos: "first_ge cmp t es = seek_pos cmp (map ent_kv es) t"
  by (simp add: first_ge_def seek_pos_def takeWhile_map comp_def ent_kv_def)

lemma nbi_at_block:
  "nbi_at cmp ok (BlockIterator b) kvs i \<Longrightarrow>
   \<exists>es idxs. map ent_kv es = kvs \<and> iter_pos b es idxs i \<and> keys_sorted cmp es \<and> (\<forall>e\<in>set es. ok (ent_key e)) \<and>
     length es = length kvs \<and> kvs_sorted cmp kvs \<and> keys_ok ok kvs \<and> i \<le> length kvs"
  using kvs_sorted_keys by (fastforce simp: nbi_at_def keys_ok_def ent_kv_def)

lemma nbi_at_intro:
  "map ent_kv es = kvs \<Longrightarrow> iter_pos b es idxs i \<Longrightarrow> kvs_sorted cmp kvs \<Longrightarrow> keys_ok ok kvs \<Longrightarrow> i \<le> length kvs \<Longrightarrow>
   nbi_at cmp ok (BlockIterator b) kvs i"
  by (auto simp: nbi_at_def)

lemma nbi_iterator: "iterator cmp ok (nbi_ops cmp) (nbi_at cmp ok)"
proof unfold_locales
  fix s kvs i t
  assume at: "nbi_at cmp ok s kvs i"
  show "i \<le> length kvs" "kvs_sorted cmp kvs" "keys_ok ok kvs" using at by (auto simp: nbi_at_def)
  have none: "(kvs = [] \<and> i = 0) \<or> (\<exists>b. s = BlockIterator b)" using at by (cases s) (auto simp: nbi_at_def)
  show "it_Valid (nbi_ops cmp) s = (i < length kvs)"
  proof (cases s)
    case (BlockIterator b)
    from nbi_at_block [OF at [unfolded this]] obtain es idxs where
      e: "iter_pos b es idxs i" "length es = length kvs" "i \<le> length kvs" by blast
    then show ?thesis using iter_pos_valid [OF e(1)] BlockIterator by (simp add: nbi_ops_def nbi_valid_def)
  qed (use at in \<open>auto simp: nbi_at_def nbi_ops_def nbi_valid_def\<close>)
  show "it_status (nbi_ops cmp) s = OK"
    using at by (cases s) (auto simp: nbi_ops_def nbi_status_def nbi_at_def dest: iter_pos_view)
  show "\<exists>s'. it_SeekToFirst (nbi_ops cmp) s = Some s' \<and> nbi_at cmp ok s' kvs 0"
  proof (cases s)
    case (BlockIterator b)
    from nbi_at_block [OF at [unfolded this]] obtain es idxs where
      e: "map ent_kv es = kvs" "iter_pos b es idxs i" "kvs_sorted cmp kvs" "keys_ok ok kvs" by blast
    then have "iter_pos (BlockIter_SeekToFirst b) es idxs 0"
      using BlockIter_SeekToFirst_pos iter_pos_view by blast
    then show ?thesis using nbi_at_intro [OF e(1) _ e(3,4)] BlockIterator by (simp add: nbi_ops_def nbi_move_def)
  qed (use at in \<open>auto simp: nbi_at_def nbi_ops_def nbi_move_def\<close>)
  show "\<exists>s'. it_SeekToLast (nbi_ops cmp) s = Some s' \<and> nbi_at cmp ok s' kvs (length kvs - 1)"
  proof (cases s)
    case (BlockIterator b)
    from nbi_at_block [OF at [unfolded this]] obtain es idxs where
      e: "map ent_kv es = kvs" "iter_pos b es idxs i" "kvs_sorted cmp kvs" "keys_ok ok kvs" "length es = length kvs" by blast
    then have "iter_pos (BlockIter_SeekToLast b) es idxs (length kvs - 1)"
      using BlockIter_SeekToLast_pos [of b es idxs] BlockIter_SeekToLast_empty [of b idxs] iter_pos_view [OF e(2)]
      by (cases "es = []") auto
    then show ?thesis using nbi_at_intro [OF e(1) _ e(3,4)] BlockIterator by (simp add: nbi_ops_def nbi_move_def)
  qed (use at in \<open>auto simp: nbi_at_def nbi_ops_def nbi_move_def\<close>)
  show "\<exists>s'. it_Seek (nbi_ops cmp) t s = Some s' \<and> nbi_at cmp ok s' kvs (seek_pos cmp kvs t)" if t: "ok t"
  proof (cases s)
    case (BlockIterator b)
    from nbi_at_block [OF at [unfolded this]] obtain es idxs where
      e: "map ent_kv es = kvs" "iter_pos b es idxs i" "kvs_sorted cmp kvs" "keys_ok ok kvs" "length es = length kvs"
      "keys_sorted cmp es" "\<forall>e\<in>set es. ok (ent_key e)" by blast
    then have "iter_pos (BlockIter_Seek cmp t b) es idxs (seek_pos cmp kvs t)"
      using BlockIter_Seek_pos [OF _ _ e(6,7) t, of b idxs] iter_pos_view [OF e(2)] first_ge_seek_pos [of t es] by simp
    then show ?thesis using nbi_at_intro [OF e(1) _ e(3,4) seek_pos_le] BlockIterator
      by (simp add: nbi_ops_def nbi_Seek_def)
  qed (use at in \<open>auto simp: nbi_at_def nbi_ops_def nbi_Seek_def seek_pos_def\<close>)
  assume i: "i < length kvs"
  then obtain b where b: "s = BlockIterator b" using none by auto
  from nbi_at_block [OF at [unfolded this]] obtain es idxs where
    e: "map ent_kv es = kvs" "iter_pos b es idxs i" "kvs_sorted cmp kvs" "keys_ok ok kvs" "length es = length kvs" by blast
  have a: "iter_at b es idxs i" "bi_status b = OK" using e(2,5) i by (simp_all add: iter_pos_def)
  have kv: "kvs ! i = ent_kv (es ! i)" using e(1,5) i by auto
  show "it_key (nbi_ops cmp) s = fst (kvs ! i)" "it_value (nbi_ops cmp) s = snd (kvs ! i)"
    using a(1) kv by (simp_all add: b nbi_ops_def iter_at_def ent_kv_def)
  show "\<exists>s'. it_Next (nbi_ops cmp) s = Some s' \<and> nbi_at cmp ok s' kvs (Suc i)"
    using nbi_at_intro [OF e(1) BlockIter_Next_pos [OF a] e(3,4)] i iter_at_Valid [OF a(1)]
    by (simp add: b nbi_ops_def nbi_move_def nbi_valid_def)
  have "iter_pos (BlockIter_Prev b) es idxs (if i = 0 then length kvs else i - 1)"
    using BlockIter_Prev_pos [OF a] e(5) by (auto simp: iter_pos_def)
  then show "\<exists>s'. it_Prev (nbi_ops cmp) s = Some s' \<and> nbi_at cmp ok s' kvs (if i = 0 then length kvs else i - 1)"
    using nbi_at_intro [OF e(1) _ e(3,4), of "BlockIter_Prev b" idxs "if i = 0 then length kvs else i - 1"] i
      iter_at_Valid [OF a(1)]
    by (simp add: b nbi_ops_def nbi_move_def nbi_valid_def split: if_splits)
qed

text \<open>A new iterator over a built block.\<close>

lemma build_block_nbi:
  assumes "1 \<le> interval" "list_all kv_fits kvs" "length (build_block interval kvs) < 2 ^ 32"
    and "kvs_sorted cmp kvs" "keys_ok ok kvs"
  shows "nbi_at cmp ok (Block_NewIterator (Block_new (build_block interval kvs))) kvs (length kvs)"
proof -
  obtain b es idxs where b: "open_block (build_block interval kvs) = Some b" "block_view b es idxs"
    "bi_status b = OK" "map ent_kv es = kvs" using build_block_view [OF assms(1-3)] by blast
  then have n: "Block_NewIterator (Block_new (build_block interval kvs)) = BlockIterator b"
    by (auto simp: open_block_def split: new_block_iter.splits)
  then have "\<not> BlockIter_Valid b"
    by (auto simp: Block_NewIterator_def Let_def BlockIter_Valid_def BlockIter_new_def split: if_splits)
  then have "iter_pos b es idxs (length kvs)" using b(2-4) by (auto simp: iter_pos_def iter_end_def)
  then show ?thesis using nbi_at_intro [OF b(4) _ assms(4,5)] n by simp
qed

end

section \<open>Table iterators\<close>

text \<open>
  \<open>Table::NewIterator\<close> of a table opened without a block cache: the table is the argument of the
  block function. With a cache, the iterator over a block comes from the same \<open>BlockReader\<close>.
\<close>

definition table_block_function :: "snappy \<Rightarrow> (new_block_iter, table) block_function" where
  "table_block_function sn t ropt h = (fst (BlockReader sn ropt t h None), t)"

definition Table_NewIterator ::
  "read_options \<Rightarrow> table \<Rightarrow> (new_block_iter, new_block_iter, table) two_level" where
  "Table_NewIterator ropt t =
     NewTwoLevelIterator (nbi_ops (opt_comparator (tab_options t))) (Block_NewIterator (tab_index_block t)) t ropt"

definition table_iter_ops :: "snappy \<Rightarrow> comparator \<Rightarrow> (new_block_iter, new_block_iter, table) two_level iter_ops" where
  "table_iter_ops sn cmp = two_level_ops (nbi_ops cmp) (nbi_ops cmp) (table_block_function sn)"

text \<open>
  The entries of the block a handle stands for, when the block can be read with its checksum verified
  and is well formed.
\<close>

definition nbi_entries :: "new_block_iter \<Rightarrow> kv list" where
  "nbi_entries it = (case it of BlockIterator b \<Rightarrow> block_scan (BlockIter_SeekToFirst b) | _ \<Rightarrow> [])"

definition verified :: read_options where
  "verified = ReadOptions_default\<lparr>ro_verify_checksums := True\<rparr>"

definition block_content ::
  "snappy \<Rightarrow> comparator \<Rightarrow> (bytes \<Rightarrow> bool) \<Rightarrow> table \<Rightarrow> bytes \<Rightarrow> kv list option" where
  "block_content sn cmp ok t h =
     (let it = fst (BlockReader sn verified t h None)
      in if nbi_at cmp ok it (nbi_entries it) (length (nbi_entries it)) then Some (nbi_entries it) else None)"

text \<open>Reading without verifying gives the same contents when the checksum is right.\<close>

lemma ReadBlock_unverified:
  "ReadBlock sn f True h = (s, Some c) \<Longrightarrow> ReadBlock sn f v h = (s, Some c)"
  by (cases v) (auto simp: ReadBlock_def Let_def split: if_splits prod.splits option.splits)

lemma BlockReader_unverified:
  assumes "fst (BlockReader sn verified t h None) = it" "\<And>s. it \<noteq> ErrorIterator s"
  shows "fst (BlockReader sn ropt t h None) = it"
proof (cases "BlockHandle_DecodeFrom h")
  case None
  then show ?thesis using assms by (auto simp: BlockReader_def)
next
  case (Some hd)
  obtain handle rest where hd: "hd = (handle, rest)" by (cases hd)
  obtain s c where r: "ReadBlock sn (tab_file t) True handle = (s, c)" by (cases "ReadBlock sn (tab_file t) True handle")
  show ?thesis
  proof (cases c)
    case None
    then show ?thesis using assms(1) assms(2) [of s] r \<open>BlockHandle_DecodeFrom h = Some hd\<close>
      by (simp add: BlockReader_def hd verified_def)
  next
    case (Some contents)
    then show ?thesis using assms(1) r ReadBlock_unverified [of sn "tab_file t" handle s contents] \<open>BlockHandle_DecodeFrom h = Some hd\<close>
      by (simp add: BlockReader_def hd verified_def)
  qed
qed

lemma block_content_at:
  assumes "block_content sn cmp ok t h = Some kvs"
  shows "nbi_at cmp ok (fst (BlockReader sn ropt t h None)) kvs (length kvs)"
proof -
  let ?it = "fst (BlockReader sn verified t h None)"
  have at: "nbi_at cmp ok ?it kvs (length kvs)"
    using assms by (auto simp: block_content_def Let_def split: if_splits)
  then have "?it \<noteq> ErrorIterator s" for s by (auto simp: nbi_at_def)
  then show ?thesis using BlockReader_unverified [of sn t h ?it ropt] at by simp
qed

text \<open>The converse: a block that reads as well-formed entries has them as its content.\<close>

lemma nbi_entries_at:
  assumes "nbi_at cmp ok it kvs i"
  shows "nbi_entries it = kvs"
proof (cases it)
  case (BlockIterator b)
  then obtain es idxs where e: "map ent_kv es = kvs" "iter_pos b es idxs i" using assms by (auto simp: nbi_at_def)
  then have "iter_pos (BlockIter_SeekToFirst b) es idxs 0" using BlockIter_SeekToFirst_pos iter_pos_view by blast
  from block_scan_pos [OF this] show ?thesis using e(1) BlockIterator by (simp add: nbi_entries_def)
qed (use assms in \<open>auto simp: nbi_at_def nbi_entries_def\<close>)

lemma block_contentI:
  "nbi_at cmp ok (fst (BlockReader sn verified t h None)) kvs (length kvs) \<Longrightarrow>
   block_content sn cmp ok t h = Some kvs"
  by (frule nbi_entries_at) (simp add: block_content_def Let_def)

context comparator_laws
begin

lemma table_two_level:
  "two_level cmp ok (nbi_ops cmp) (nbi_at cmp ok) (nbi_ops cmp) (nbi_at cmp ok)
     (table_block_function sn) (\<lambda>a. a = t) (block_content sn cmp ok t)"
proof (intro two_level.intro two_level_axioms.intro nbi_iterator)
  fix a options h kvs
  assume "a = t" "block_content sn cmp ok t h = Some kvs"
  then show "snd (table_block_function sn a options h) = t \<and>
      (\<exists>i. nbi_at cmp ok (fst (table_block_function sn a options h)) kvs i)"
    using block_content_at [of sn cmp ok t h kvs options] by (auto simp: table_block_function_def)
qed

end

text \<open>Over internal keys of the bytewise order, as the database uses tables.\<close>

interpretation block_iter: iterator "InternalKeyComparator BytewiseComparator" "internal_ok (\<lambda>_. True)"
  "nbi_ops (InternalKeyComparator BytewiseComparator)"
  "nbi_at (InternalKeyComparator BytewiseComparator) (internal_ok (\<lambda>_. True))"
  by (rule bytewise_user.internal.nbi_iterator)

interpretation table_iter: two_level "InternalKeyComparator BytewiseComparator" "internal_ok (\<lambda>_. True)"
  "nbi_ops (InternalKeyComparator BytewiseComparator)"
  "nbi_at (InternalKeyComparator BytewiseComparator) (internal_ok (\<lambda>_. True))"
  "nbi_ops (InternalKeyComparator BytewiseComparator)"
  "nbi_at (InternalKeyComparator BytewiseComparator) (internal_ok (\<lambda>_. True))"
  "table_block_function sn" "\<lambda>a. a = t"
  "block_content sn (InternalKeyComparator BytewiseComparator) (internal_ok (\<lambda>_. True)) t" for sn t
  by (rule bytewise_user.internal.table_two_level)

text \<open>A database iterator directly over one table, as over a database with a single sorted run.\<close>

interpretation table_db: db_iterator BytewiseComparator "\<lambda>_. True"
  "table_iter_ops sn (InternalKeyComparator BytewiseComparator)" "table_iter.tl_at t sn" for sn t
  unfolding table_iter_ops_def by (intro db_iterator.intro bytewise_user.user_comparator_axioms table_iter.two_level_iterator)

interpretation block_db: db_iterator BytewiseComparator "\<lambda>_. True"
  "nbi_ops (InternalKeyComparator BytewiseComparator)"
  "nbi_at (InternalKeyComparator BytewiseComparator) (internal_ok (\<lambda>_. True))"
  by unfold_locales

end
