(* ===== verification/TableCache.thy ===== *)
theory TableCache
  imports TableIter FileNames
begin

text \<open>
  \<open>db/table_cache.cpp\<close>: open tables kept in a cache of their own. The files of the environment are a
  function from names to the result of \<open>NewRandomAccessFile\<close>. The block cache belongs to the options
  and is kept here, since every table read goes through this object. Deleting an iterator, which
  releases the handle of its table, is not modelled: the handle is returned with the iterator.
\<close>

type_synonym file_opener = "string \<Rightarrow> status + random_file"

record table_cache =
  tc_dbpath :: string
  tc_dbname :: string
  tc_options :: options
  tc_cache :: "table sharded_cache"
  tc_block_cache :: block_cache

definition TableCache_new :: "string \<Rightarrow> string \<Rightarrow> options \<Rightarrow> nat \<Rightarrow> block_cache \<Rightarrow> table_cache" where
  "TableCache_new dbpath dbname opt entries blocks =
     \<lparr>tc_dbpath = dbpath, tc_dbname = dbname, tc_options = opt, tc_cache = NewLRUCache entries,
      tc_block_cache = blocks\<rparr>"

definition table_cache_key :: "u64 \<Rightarrow> bytes" where
  "table_cache_key file_number = EncodeFixed64 file_number"

text \<open>\<open>FindTable\<close> overwrites the number it is asked for.\<close>

definition open_table_file :: "file_opener \<Rightarrow> u64 \<Rightarrow> table_cache \<Rightarrow> status + random_file" where
  "open_table_file files file_number tc =
     (case files (TableFileName (tc_dbpath tc) (tc_dbname tc) file_number) of
        Inr f \<Rightarrow> Inr f
      | Inl s \<Rightarrow>
          (case files (SSTTableFileName (tc_dbpath tc) (tc_dbname tc) file_number) of
             Inr f \<Rightarrow> Inr f
           | Inl _ \<Rightarrow> Inl s))"

definition new_block_cache_id :: "block_cache \<Rightarrow> u64 \<times> block_cache" where
  "new_block_cache_id blocks =
     (case blocks of None \<Rightarrow> (0, None) | Some c \<Rightarrow> (let (i, c) = Cache_NewId c in (i, Some c)))"

definition FindTable ::
  "snappy \<Rightarrow> file_opener \<Rightarrow> u64 \<Rightarrow> u64 \<Rightarrow> table_cache \<Rightarrow> status \<times> cache_handle option \<times> table_cache" where
  "FindTable sn files file_number file_size tc =
     (let file_number = FILENUMBER_LDB; key = table_cache_key file_number;
          (hit, cache) = Cache_Lookup key (tc_cache tc); tc = tc\<lparr>tc_cache := cache\<rparr>
      in case hit of
           Some h \<Rightarrow> (OK, Some h, tc)
         | None \<Rightarrow>
             (case open_table_file files file_number tc of
                Inl s \<Rightarrow> (s, None, tc)
              | Inr f \<Rightarrow>
                  let (cache_id, blocks) = new_block_cache_id (tc_block_cache tc)
                  in (case Table_Open sn (tc_options tc) f file_size cache_id of
                        (s, None) \<Rightarrow> (s, None, tc)
                      | (s, Some t) \<Rightarrow>
                          let (h, cache) = Cache_Insert key t 1 (tc_cache tc)
                          in (s, Some h, tc\<lparr>tc_cache := cache, tc_block_cache := blocks\<rparr>))))"

text \<open>The iterator of a table, or of an error; with the handle it pins and the table.\<close>

type_synonym table_iter = "status + (new_block_iter, new_block_iter, table) two_level"

definition TableCache_NewIterator ::
  "snappy \<Rightarrow> file_opener \<Rightarrow> read_options \<Rightarrow> u64 \<Rightarrow> u64 \<Rightarrow> table_cache \<Rightarrow>
     table_iter \<times> (cache_handle \<times> table) option \<times> table_cache" where
  "TableCache_NewIterator sn files ropt file_number file_size tc =
     (case FindTable sn files file_number file_size tc of
        (s, None, tc) \<Rightarrow> (Inl (NewErrorIterator s), None, tc)
      | (s, Some h, tc) \<Rightarrow>
          let t = Cache_Value h (tc_cache tc) in (Inr (Table_NewIterator ropt t), Some (h, t), tc))"

text \<open>The entry is the one handed to \<open>saver\<close>, if any.\<close>

definition TableCache_Get ::
  "snappy \<Rightarrow> file_opener \<Rightarrow> read_options \<Rightarrow> u64 \<Rightarrow> u64 \<Rightarrow> bytes \<Rightarrow> table_cache \<Rightarrow>
     status \<times> (bytes \<times> bytes) option \<times> table_cache" where
  "TableCache_Get sn files ropt file_number file_size k tc =
     (case FindTable sn files file_number file_size tc of
        (s, None, tc) \<Rightarrow> (s, None, tc)
      | (s, Some h, tc) \<Rightarrow>
          let t = Cache_Value h (tc_cache tc);
              (s, saved, blocks) = Table_InternalGet sn ropt t k (tc_block_cache tc)
          in (s, saved, tc\<lparr>tc_block_cache := blocks, tc_cache := Cache_Release h (tc_cache tc)\<rparr>))"

definition TableCache_Evict :: "u64 \<Rightarrow> table_cache \<Rightarrow> table_cache" where
  "TableCache_Evict file_number tc =
     tc\<lparr>tc_cache := Cache_Erase (table_cache_key file_number) (tc_cache tc)\<rparr>"

definition table_iter_class :: "snappy \<Rightarrow> comparator \<Rightarrow> table_iter iter_ops" where
  "table_iter_class sn cmp = either_ops empty_iterator_ops (table_iter_ops sn cmp)"

end
