(* ===== verification/Merging.thy ===== *)
theory Merging
  imports IteratorSpec
begin

text \<open>
  \<open>table/merger.cpp\<close>: the iterator that merges its children, which are wrapped iterators. The children
  are given by their indices. The abstraction assigns every entry of the merged sequence to the child
  that owns it; a child then stands at the number of its entries before the current position, or one
  entry before that when the iterator moves backward.
\<close>

section \<open>The merging iterator\<close>

record 's merging =
  mi_children :: "'s list"
  mi_current :: "nat option"
  mi_forward :: bool

text \<open>A call on each child in turn; the index of the child is an argument.\<close>

fun each_child :: "(nat \<Rightarrow> 's \<Rightarrow> 's option) \<Rightarrow> nat \<Rightarrow> 's list \<Rightarrow> 's list option" where
  "each_child f i [] = Some []"
| "each_child f i (c # cs) = do { c' \<leftarrow> f i c; cs' \<leftarrow> each_child f (i + 1) cs; Some (c' # cs') }"

definition smaller_child :: "comparator \<Rightarrow> 's iter_ops \<Rightarrow> 's list \<Rightarrow> nat \<Rightarrow> nat option \<Rightarrow> nat option" where
  "smaller_child cmp ops cs i smallest =
     (if it_Valid ops (cs ! i) then
        (case smallest of
           None \<Rightarrow> Some i
         | Some s \<Rightarrow> if Compare cmp (it_key ops (cs ! i)) (it_key ops (cs ! s)) < 0 then Some i else smallest)
      else smallest)"

definition FindSmallest :: "comparator \<Rightarrow> 's iter_ops \<Rightarrow> 's merging \<Rightarrow> 's merging" where
  "FindSmallest cmp ops m =
     m\<lparr>mi_current := fold (smaller_child cmp ops (mi_children m)) [0..<length (mi_children m)] None\<rparr>"

definition larger_child :: "comparator \<Rightarrow> 's iter_ops \<Rightarrow> 's list \<Rightarrow> nat \<Rightarrow> nat option \<Rightarrow> nat option" where
  "larger_child cmp ops cs i largest =
     (if it_Valid ops (cs ! i) then
        (case largest of
           None \<Rightarrow> Some i
         | Some l \<Rightarrow> if Compare cmp (it_key ops (cs ! i)) (it_key ops (cs ! l)) > 0 then Some i else largest)
      else largest)"

definition FindLargest :: "comparator \<Rightarrow> 's iter_ops \<Rightarrow> 's merging \<Rightarrow> 's merging" where
  "FindLargest cmp ops m =
     m\<lparr>mi_current := fold (larger_child cmp ops (mi_children m)) (rev [0..<length (mi_children m)]) None\<rparr>"

definition MergingIterator_new :: "'s list \<Rightarrow> 's merging" where
  "MergingIterator_new children = \<lparr>mi_children = children, mi_current = None, mi_forward = True\<rparr>"

definition Merging_Valid :: "'s merging \<Rightarrow> bool" where
  "Merging_Valid m \<longleftrightarrow> mi_current m \<noteq> None"

definition Merging_key :: "'s iter_ops \<Rightarrow> 's merging \<Rightarrow> bytes" where
  "Merging_key ops m = (case mi_current m of Some c \<Rightarrow> it_key ops (mi_children m ! c) | None \<Rightarrow> [])"

definition Merging_value :: "'s iter_ops \<Rightarrow> 's merging \<Rightarrow> bytes" where
  "Merging_value ops m = (case mi_current m of Some c \<Rightarrow> it_value ops (mi_children m ! c) | None \<Rightarrow> [])"

fun first_error :: "status list \<Rightarrow> status" where
  "first_error [] = OK"
| "first_error (s # ss) = (if status_ok s then first_error ss else s)"

definition Merging_status :: "'s iter_ops \<Rightarrow> 's merging \<Rightarrow> status" where
  "Merging_status ops m = first_error (map (it_status ops) (mi_children m))"

definition Merging_SeekToFirst :: "comparator \<Rightarrow> 's iter_ops \<Rightarrow> 's merging \<Rightarrow> 's merging option" where
  "Merging_SeekToFirst cmp ops m =
     do { cs \<leftarrow> each_child (\<lambda>i. it_SeekToFirst ops) 0 (mi_children m);
          Some ((FindSmallest cmp ops (m\<lparr>mi_children := cs\<rparr>))\<lparr>mi_forward := True\<rparr>) }"

definition Merging_SeekToLast :: "comparator \<Rightarrow> 's iter_ops \<Rightarrow> 's merging \<Rightarrow> 's merging option" where
  "Merging_SeekToLast cmp ops m =
     do { cs \<leftarrow> each_child (\<lambda>i. it_SeekToLast ops) 0 (mi_children m);
          Some ((FindLargest cmp ops (m\<lparr>mi_children := cs\<rparr>))\<lparr>mi_forward := False\<rparr>) }"

definition Merging_Seek :: "comparator \<Rightarrow> 's iter_ops \<Rightarrow> bytes \<Rightarrow> 's merging \<Rightarrow> 's merging option" where
  "Merging_Seek cmp ops target m =
     do { cs \<leftarrow> each_child (\<lambda>i. it_Seek ops target) 0 (mi_children m);
          Some ((FindSmallest cmp ops (m\<lparr>mi_children := cs\<rparr>))\<lparr>mi_forward := True\<rparr>) }"

text \<open>Turning around: a child other than the current one goes past the key, or before it.\<close>

definition child_after :: "comparator \<Rightarrow> 's iter_ops \<Rightarrow> bytes \<Rightarrow> nat \<Rightarrow> nat \<Rightarrow> 's \<Rightarrow> 's option" where
  "child_after cmp ops key current i child =
     (if i = current then Some child
      else do {
        child \<leftarrow> it_Seek ops key child;
        if it_Valid ops child \<and> Compare cmp key (it_key ops child) = 0 then it_Next ops child
        else Some child })"

definition child_before :: "'s iter_ops \<Rightarrow> bytes \<Rightarrow> nat \<Rightarrow> nat \<Rightarrow> 's \<Rightarrow> 's option" where
  "child_before ops key current i child =
     (if i = current then Some child
      else do {
        child \<leftarrow> it_Seek ops key child;
        if it_Valid ops child then it_Prev ops child else it_SeekToLast ops child })"

definition Merging_Next :: "comparator \<Rightarrow> 's iter_ops \<Rightarrow> 's merging \<Rightarrow> 's merging option" where
  "Merging_Next cmp ops m =
     do {
       current \<leftarrow> mi_current m;
       m \<leftarrow> (if mi_forward m then Some m
            else do {
              cs \<leftarrow> each_child (child_after cmp ops (Merging_key ops m) current) 0 (mi_children m);
              Some (m\<lparr>mi_children := cs, mi_forward := True\<rparr>) });
       child \<leftarrow> it_Next ops (mi_children m ! current);
       Some (FindSmallest cmp ops (m\<lparr>mi_children := (mi_children m)[current := child]\<rparr>)) }"

definition Merging_Prev :: "comparator \<Rightarrow> 's iter_ops \<Rightarrow> 's merging \<Rightarrow> 's merging option" where
  "Merging_Prev cmp ops m =
     do {
       current \<leftarrow> mi_current m;
       m \<leftarrow> (if \<not> mi_forward m then Some m
            else do {
              cs \<leftarrow> each_child (child_before ops (Merging_key ops m) current) 0 (mi_children m);
              Some (m\<lparr>mi_children := cs, mi_forward := False\<rparr>) });
       child \<leftarrow> it_Prev ops (mi_children m ! current);
       Some (FindLargest cmp ops (m\<lparr>mi_children := (mi_children m)[current := child]\<rparr>)) }"

definition merging_ops :: "comparator \<Rightarrow> 's iter_ops \<Rightarrow> 's merging iter_ops" where
  "merging_ops cmp ops =
     \<lparr>it_Valid = Merging_Valid, it_key = Merging_key ops, it_value = Merging_value ops,
      it_status = Merging_status ops, it_SeekToFirst = Merging_SeekToFirst cmp ops,
      it_SeekToLast = Merging_SeekToLast cmp ops, it_Seek = Merging_Seek cmp ops,
      it_Next = Merging_Next cmp ops, it_Prev = Merging_Prev cmp ops\<rparr>"

text \<open>\<open>NewMergingIterator\<close>: the empty iterator, the only child itself, or a merging iterator.\<close>

type_synonym 's merged = "status + 's + 's iterator_wrapper merging"

definition NewMergingIterator :: "'s iter_ops \<Rightarrow> 's list \<Rightarrow> 's merged" where
  "NewMergingIterator ops list =
     (case list of
        [] \<Rightarrow> Inl NewEmptyIterator
      | [s] \<Rightarrow> Inr (Inl s)
      | _ \<Rightarrow> Inr (Inr (MergingIterator_new (map (IteratorWrapper_new ops) list))))"

definition merged_ops :: "comparator \<Rightarrow> 's iter_ops \<Rightarrow> 's merged iter_ops" where
  "merged_ops cmp ops =
     either_ops empty_iterator_ops (either_ops ops (merging_ops cmp (wrapper_ops ops)))"

section \<open>Owned entries\<close>

text \<open>Owner \<open>j\<close> has the entries at the indices \<open>m\<close> with \<open>os ! m = j\<close>.\<close>

definition own :: "nat list \<Rightarrow> kv list \<Rightarrow> nat \<Rightarrow> kv list" where
  "own os kvs j = map (nth kvs) (filter (\<lambda>m. os ! m = j) [0..<length kvs])"

definition cnt :: "nat list \<Rightarrow> nat \<Rightarrow> nat \<Rightarrow> nat" where
  "cnt os j i = length (filter (\<lambda>m. os ! m = j) [0..<i])"

text \<open>Where a child stands in a backward scan: at its last entry before \<open>i\<close>.\<close>

definition back_pos :: "nat list \<Rightarrow> kv list \<Rightarrow> nat \<Rightarrow> nat \<Rightarrow> nat" where
  "back_pos os kvs j i = (if cnt os j i = 0 then length (own os kvs j) else cnt os j i - 1)"

lemma cnt_0 [simp]: "cnt os j 0 = 0"
  by (simp add: cnt_def)

lemma cnt_Suc: "cnt os j (Suc i) = cnt os j i + (if os ! i = j then 1 else 0)"
  by (simp add: cnt_def)

lemma length_own: "length (own os kvs j) = cnt os j (length kvs)"
  by (simp add: own_def cnt_def)

lemma cnt_mono: "i \<le> i' \<Longrightarrow> cnt os j i \<le> cnt os j i'"
  using lift_Suc_mono_le [of "cnt os j"] by (simp add: cnt_Suc)

lemma cnt_le: "i \<le> length kvs \<Longrightarrow> cnt os j i \<le> length (own os kvs j)"
  by (simp add: length_own cnt_mono)

lemma own_split:
  assumes "i \<le> length kvs"
  shows "own os kvs j = map (nth kvs) (filter (\<lambda>m. os ! m = j) [0..<i]) @
    map (nth kvs) (filter (\<lambda>m. os ! m = j) [i..<length kvs])"
proof -
  have "[0..<length kvs] = [0..<i] @ [i..<length kvs]" using assms upt_add_eq_append [of 0 i "length kvs - i"] by simp
  then show ?thesis by (simp add: own_def)
qed

text \<open>The entries of an owner before and after a position of the merged sequence.\<close>

lemma own_after:
  assumes "i \<le> length kvs" "cnt os j i \<le> p" "p < length (own os kvs j)"
  obtains m where "i \<le> m" "m < length kvs" "os ! m = j" "own os kvs j ! p = kvs ! m"
proof -
  let ?xs = "filter (\<lambda>m. os ! m = j) [i..<length kvs]"
  have l: "p - cnt os j i < length ?xs" using assms own_split [OF assms(1), of os j] by (simp add: cnt_def)
  then have "?xs ! (p - cnt os j i) \<in> set ?xs" by (rule nth_mem)
  moreover have "own os kvs j ! p = kvs ! (?xs ! (p - cnt os j i))"
    using assms l own_split [OF assms(1), of os j] by (simp add: cnt_def nth_append)
  ultimately show ?thesis using that by auto
qed

lemma own_before:
  assumes "i \<le> length kvs" "p < cnt os j i"
  obtains m where "m < i" "os ! m = j" "own os kvs j ! p = kvs ! m"
proof -
  let ?xs = "filter (\<lambda>m. os ! m = j) [0..<i]"
  have l: "p < length ?xs" using assms by (simp add: cnt_def)
  then have "?xs ! p \<in> set ?xs" by (rule nth_mem)
  moreover have "own os kvs j ! p = kvs ! (?xs ! p)"
    using l own_split [OF assms(1), of os j] by (simp add: nth_append)
  ultimately show ?thesis using that by auto
qed

lemma own_current: "i < length kvs \<Longrightarrow> own os kvs (os ! i) ! cnt os (os ! i) i = kvs ! i"
  using own_split [of i kvs os "os ! i"] by (simp add: cnt_def nth_append upt_conv_Cons)

lemma cnt_current_less: "i < length kvs \<Longrightarrow> cnt os (os ! i) i < length (own os kvs (os ! i))"
  using cnt_mono [of "Suc i" "length kvs" os "os ! i"] by (simp add: length_own cnt_Suc)

lemma own_prev_current:
  "i < length kvs \<Longrightarrow> back_pos os kvs (os ! i) (Suc i) = cnt os (os ! i) i"
  by (simp add: back_pos_def cnt_Suc)

lemma back_pos_skip: "os ! i \<noteq> j \<Longrightarrow> back_pos os kvs j (Suc i) = back_pos os kvs j i"
  by (simp add: back_pos_def cnt_Suc)

section \<open>Choosing a child\<close>

context comparator_laws
begin

lemma own_sorted: "kvs_sorted cmp kvs \<Longrightarrow> kvs_sorted cmp (own os kvs j)"
proof -
  assume s: "kvs_sorted cmp kvs"
  have "sorted_wrt (<) (filter (\<lambda>m. os ! m = j) [0..<length kvs])" by (intro sorted_wrt_filter) simp
  then have "sorted_wrt (\<lambda>m n. Compare cmp (fst (kvs ! m)) (fst (kvs ! n)) < 0)
      (filter (\<lambda>m. os ! m = j) [0..<length kvs])"
    by (rule sorted_wrt_mono_rel [rotated]) (use s in \<open>auto intro: kvs_sorted_nth\<close>)
  then show ?thesis by (simp add: kvs_sorted_def own_def sorted_wrt_map)
qed

lemma own_ok: "keys_ok ok kvs \<Longrightarrow> keys_ok ok (own os kvs j)"
  by (auto simp: keys_ok_def own_def)

lemma own_below:
  assumes "i \<le> length kvs" "p < length (own os kvs j)"
    and "\<And>m. m < i \<Longrightarrow> P (kvs ! m)" "\<And>m. i \<le> m \<Longrightarrow> m < length kvs \<Longrightarrow> \<not> P (kvs ! m)"
  shows "P (own os kvs j ! p) \<longleftrightarrow> p < cnt os j i"
proof (cases "p < cnt os j i")
  case True
  then obtain m where "m < i" "own os kvs j ! p = kvs ! m" using own_before [OF assms(1)] by metis
  then show ?thesis using True assms(3) by simp
next
  case False
  then obtain m where "i \<le> m" "m < length kvs" "own os kvs j ! p = kvs ! m"
    using own_after [OF assms(1)] assms(2) by (metis linorder_not_less)
  then show ?thesis using False assms(4) by simp
qed

lemma own_seek_pos:
  assumes "kvs_sorted cmp kvs" "keys_ok ok kvs" "ok t"
  shows "seek_pos cmp (own os kvs j) t = cnt os j (seek_pos cmp kvs t)"
proof -
  have q: "seek_pos cmp kvs t \<le> length kvs" by (rule seek_pos_le)
  have below: "Compare cmp (fst (own os kvs j ! p)) t < 0 \<longleftrightarrow> p < cnt os j (seek_pos cmp kvs t)"
    if "p < length (own os kvs j)" for p
    by (rule own_below [OF q that, of "\<lambda>e. Compare cmp (fst e) t < 0"])
      (use q seek_pos_iff [OF assms] in force)+
  show ?thesis using cnt_le [OF q, of os j] below by (intro seek_pos_eqI) auto
qed

lemma fold_smaller_child:
  assumes "it_Valid ops (cs ! c)"
    and "\<forall>j\<in>set xs. it_Valid ops (cs ! j) \<longrightarrow> ok (it_key ops (cs ! j)) \<and>
      (j \<noteq> c \<longrightarrow> Compare cmp (it_key ops (cs ! c)) (it_key ops (cs ! j)) < 0)"
    and "acc = None \<or> acc = Some c \<or>
      (\<exists>s. acc = Some s \<and> Compare cmp (it_key ops (cs ! c)) (it_key ops (cs ! s)) < 0)"
    and "c \<in> set xs \<or> acc = Some c" "ok (it_key ops (cs ! c))"
  shows "fold (smaller_child cmp ops cs) xs acc = Some c"
  using assms(2-4)
proof (induction xs arbitrary: acc)
  case (Cons j js)
  have flip: "\<not> Compare cmp (it_key ops (cs ! j)) (it_key ops (cs ! c)) < 0"
    if "it_Valid ops (cs ! j)"
    using Cons.prems(1) that assms(5) compare_flip [of "it_key ops (cs ! j)" "it_key ops (cs ! c)"]
      compare_refl by (cases "j = c") auto
  show ?case
    unfolding fold.simps comp_apply
    by (rule Cons.IH) (use Cons.prems flip assms(1) in \<open>auto simp: smaller_child_def split: if_splits option.splits\<close>)
qed simp

lemma fold_larger_child:
  assumes "it_Valid ops (cs ! c)"
    and "\<forall>j\<in>set xs. it_Valid ops (cs ! j) \<longrightarrow> ok (it_key ops (cs ! j)) \<and>
      (j \<noteq> c \<longrightarrow> Compare cmp (it_key ops (cs ! j)) (it_key ops (cs ! c)) < 0)"
    and "acc = None \<or> acc = Some c \<or>
      (\<exists>s. acc = Some s \<and> ok (it_key ops (cs ! s)) \<and> Compare cmp (it_key ops (cs ! s)) (it_key ops (cs ! c)) < 0)"
    and "c \<in> set xs \<or> acc = Some c" "ok (it_key ops (cs ! c))"
  shows "fold (larger_child cmp ops cs) xs acc = Some c"
  using assms(2-4)
proof (induction xs arbitrary: acc)
  case (Cons j js)
  have flip: "\<not> Compare cmp (it_key ops (cs ! j)) (it_key ops (cs ! c)) > 0"
    if "it_Valid ops (cs ! j)"
    using Cons.prems(1) that assms(5) compare_refl by (cases "j = c") auto
  have gt: "Compare cmp (it_key ops (cs ! c)) (it_key ops (cs ! s)) > 0"
    if "ok (it_key ops (cs ! s))" "Compare cmp (it_key ops (cs ! s)) (it_key ops (cs ! c)) < 0" for s
    using that assms(5) compare_flip by blast
  show ?case
    unfolding fold.simps comp_apply
    by (rule Cons.IH) (use Cons.prems flip gt assms(1) in \<open>auto simp: larger_child_def split: if_splits option.splits\<close>)
qed simp

lemma fold_no_child:
  "\<forall>j\<in>set xs. \<not> it_Valid ops (cs ! j) \<Longrightarrow> fold (smaller_child cmp ops cs) xs None = None"
  "\<forall>j\<in>set xs. \<not> it_Valid ops (cs ! j) \<Longrightarrow> fold (larger_child cmp ops cs) xs None = None"
  by (induction xs) (auto simp: smaller_child_def larger_child_def)

end

lemma each_child_result:
  "(\<And>k. k < length cs \<Longrightarrow> \<exists>c'. f (i + k) (cs ! k) = Some c' \<and> P k c') \<Longrightarrow>
   \<exists>cs'. each_child f i cs = Some cs' \<and> length cs' = length cs \<and> (\<forall>k<length cs. P k (cs' ! k))"
proof (induction cs arbitrary: i P)
  case (Cons c cs)
  obtain c' where c': "f i c = Some c'" "P 0 c'" using Cons.prems [of 0] by auto
  obtain cs' where cs': "each_child f (i + 1) cs = Some cs'" "length cs' = length cs"
      "\<forall>k<length cs. P (Suc k) (cs' ! k)"
    using Cons.IH [of "i + 1" "\<lambda>k. P (Suc k)"] Cons.prems [of "Suc _"] by auto
  then show ?case using c' by (auto simp: less_Suc_eq_0_disj intro!: exI [of _ "c' # cs'"])
qed simp

section \<open>The merging iterator is an iterator\<close>

definition children_at :: "('s \<Rightarrow> kv list \<Rightarrow> nat \<Rightarrow> bool) \<Rightarrow> 's list \<Rightarrow> nat list \<Rightarrow> kv list \<Rightarrow> (nat \<Rightarrow> nat) \<Rightarrow> bool" where
  "children_at at cs os kvs pos \<longleftrightarrow> (\<forall>j<length cs. at (cs ! j) (own os kvs j) (pos j))"

text \<open>Where the children stand: all past the entries before \<open>i\<close>, or before it when moving backward.\<close>

definition turn_pos :: "bool \<Rightarrow> nat list \<Rightarrow> kv list \<Rightarrow> nat \<Rightarrow> nat \<Rightarrow> nat" where
  "turn_pos forward os kvs i j =
     (if forward \<or> j = os ! i then cnt os j i else back_pos os kvs j i)"

definition merging_at ::
  "comparator \<Rightarrow> (bytes \<Rightarrow> bool) \<Rightarrow> ('s \<Rightarrow> kv list \<Rightarrow> nat \<Rightarrow> bool) \<Rightarrow> 's merging \<Rightarrow> kv list \<Rightarrow> nat \<Rightarrow> bool" where
  "merging_at cmp ok at m kvs i \<longleftrightarrow>
     kvs_sorted cmp kvs \<and> keys_ok ok kvs \<and> i \<le> length kvs \<and>
     (\<exists>os. (\<forall>k<length kvs. os ! k < length (mi_children m)) \<and>
        mi_current m = (if i < length kvs then Some (os ! i) else None) \<and>
        (\<exists>pos. children_at at (mi_children m) os kvs pos \<and>
           (i < length kvs \<longrightarrow> (\<forall>j. pos j = turn_pos (mi_forward m) os kvs i j))))"

context iterator
begin

lemma children_key:
  assumes "children_at at cs os kvs pos" "j < length cs" "it_Valid ops (cs ! j)"
  shows "pos j < length (own os kvs j)" "it_key ops (cs ! j) = fst (own os kvs j ! pos j)"
proof -
  have a: "at (cs ! j) (own os kvs j) (pos j)" using assms by (simp add: children_at_def)
  then show "pos j < length (own os kvs j)" using Valid_at assms(3) by simp
  then show "it_key ops (cs ! j) = fst (own os kvs j ! pos j)" using key_at [OF a] by simp
qed

text \<open>All children past the entries before \<open>i\<close>: the smallest is the owner of entry \<open>i\<close>.\<close>

lemma FindSmallest_at:
  assumes c: "children_at at (mi_children m) os kvs (\<lambda>j. cnt os j i)" and i: "i \<le> length kvs"
    and own: "\<forall>k<length kvs. os ! k < length (mi_children m)" and s: "kvs_sorted cmp kvs" "keys_ok ok kvs"
  shows "merging_at cmp ok at ((FindSmallest cmp ops m)\<lparr>mi_forward := True\<rparr>) kvs i"
proof -
  let ?cs = "mi_children m"
  have after: "\<exists>k\<ge>i. k < length kvs \<and> os ! k = j \<and> it_key ops (?cs ! j) = fst (kvs ! k)"
    if "j < length ?cs" "it_Valid ops (?cs ! j)" for j
    using children_key [OF c that] own_after [OF i order_refl, of os j] by metis
  have "fold (smaller_child cmp ops ?cs) [0..<length ?cs] None = (if i < length kvs then Some (os ! i) else None)"
  proof (cases "i < length kvs")
    case True
    have n: "os ! i < length ?cs" using own True by simp
    have at: "at (?cs ! (os ! i)) (own os kvs (os ! i)) (cnt os (os ! i) i)" using c n by (simp add: children_at_def)
    have v: "it_Valid ops (?cs ! (os ! i))" and k: "it_key ops (?cs ! (os ! i)) = fst (kvs ! i)"
      using Valid_at [OF at] key_at [OF at] cnt_current_less [OF True, of os] own_current [OF True, of os] by auto
    have "fold (smaller_child cmp ops ?cs) [0..<length ?cs] None = Some (os ! i)"
    proof (rule fold_smaller_child [of ops ?cs "os ! i"])
      show "\<forall>j\<in>set [0..<length ?cs]. it_Valid ops (?cs ! j) \<longrightarrow> ok (it_key ops (?cs ! j)) \<and>
          (j \<noteq> os ! i \<longrightarrow> Compare cmp (it_key ops (?cs ! (os ! i))) (it_key ops (?cs ! j)) < 0)"
      proof (intro ballI impI conjI)
        fix j assume j: "j \<in> set [0..<length ?cs]" "it_Valid ops (?cs ! j)"
        then obtain k' where k': "i \<le> k'" "k' < length kvs" "os ! k' = j" "it_key ops (?cs ! j) = fst (kvs ! k')"
          using after [of j] by auto
        show "ok (it_key ops (?cs ! j))" using k' keys_ok_nth [OF s(2)] by simp
        assume "j \<noteq> os ! i"
        then have "i < k'" using k' by (metis order_le_less)
        then show "Compare cmp (it_key ops (?cs ! (os ! i))) (it_key ops (?cs ! j)) < 0"
          using k' k kvs_sorted_nth [OF s(1)] by simp
      qed
    qed (use v k n True keys_ok_nth [OF s(2)] in simp_all)
    then show ?thesis using True by simp
  next
    case False
    then have none: "\<forall>j\<in>set [0..<length ?cs]. \<not> it_Valid ops (?cs ! j)" using after by fastforce
    show ?thesis using False fold_no_child(1) [OF none] by simp
  qed
  then show ?thesis
    using c i own s by (auto simp: merging_at_def FindSmallest_def turn_pos_def children_at_def intro!: exI [of _ os])
qed

text \<open>All children at their last entry before \<open>i\<close>: the largest is the owner of the entry before \<open>i\<close>.\<close>

lemma FindLargest_at:
  assumes c: "children_at at (mi_children m) os kvs (\<lambda>j. back_pos os kvs j i)" and i: "i \<le> length kvs"
    and own: "\<forall>k<length kvs. os ! k < length (mi_children m)" and s: "kvs_sorted cmp kvs" "keys_ok ok kvs"
  shows "merging_at cmp ok at ((FindLargest cmp ops m)\<lparr>mi_forward := False\<rparr>) kvs
    (if i = 0 then length kvs else i - 1)"
proof -
  let ?cs = "mi_children m"
  have before: "\<exists>k<i. os ! k = j \<and> it_key ops (?cs ! j) = fst (kvs ! k)"
    if "j < length ?cs" "it_Valid ops (?cs ! j)" for j
  proof -
    have "cnt os j i \<noteq> 0" "back_pos os kvs j i < cnt os j i"
      using children_key(1) [OF c that] by (auto simp: back_pos_def split: if_splits)
    then show ?thesis using children_key(2) [OF c that] own_before [OF i, of "back_pos os kvs j i" os j] by metis
  qed
  have fold: "fold (larger_child cmp ops ?cs) (rev [0..<length ?cs]) None = (if i = 0 then None else Some (os ! (i - 1)))"
  proof (cases i)
    case (Suc i')
    have i': "i' < length kvs" using Suc i by simp
    have n: "os ! i' < length ?cs" using own i' by simp
    have at: "at (?cs ! (os ! i')) (own os kvs (os ! i')) (cnt os (os ! i') i')"
      using c n own_prev_current [OF i', of os] Suc by (metis children_at_def)
    have v: "it_Valid ops (?cs ! (os ! i'))" and k: "it_key ops (?cs ! (os ! i')) = fst (kvs ! i')"
      using Valid_at [OF at] key_at [OF at] cnt_current_less [OF i', of os] own_current [OF i', of os] by auto
    have "fold (larger_child cmp ops ?cs) (rev [0..<length ?cs]) None = Some (os ! i')"
    proof (rule fold_larger_child [of ops ?cs "os ! i'"])
      show "\<forall>j\<in>set (rev [0..<length ?cs]). it_Valid ops (?cs ! j) \<longrightarrow> ok (it_key ops (?cs ! j)) \<and>
          (j \<noteq> os ! i' \<longrightarrow> Compare cmp (it_key ops (?cs ! j)) (it_key ops (?cs ! (os ! i'))) < 0)"
      proof (intro ballI impI conjI)
        fix j assume j: "j \<in> set (rev [0..<length ?cs])" "it_Valid ops (?cs ! j)"
        then obtain k' where k': "k' < i" "os ! k' = j" "it_key ops (?cs ! j) = fst (kvs ! k')" using before [of j] by auto
        show "ok (it_key ops (?cs ! j))" using k' i keys_ok_nth [OF s(2)] by simp
        assume "j \<noteq> os ! i'"
        then have "k' < i'" using k' Suc by (metis less_antisym)
        then show "Compare cmp (it_key ops (?cs ! j)) (it_key ops (?cs ! (os ! i'))) < 0"
          using k' k kvs_sorted_nth [OF s(1)] i' by simp
      qed
    qed (use v k n i' keys_ok_nth [OF s(2)] in simp_all)
    then show ?thesis using Suc by simp
  next
    case 0
    then have none: "\<forall>j\<in>set (rev [0..<length ?cs]). \<not> it_Valid ops (?cs ! j)" using before by fastforce
    show ?thesis using 0 fold_no_child(2) [OF none] by simp
  qed
  show ?thesis
  proof (cases i)
    case 0
    then show ?thesis using fold c own s by (auto simp: merging_at_def FindLargest_def intro!: exI [of _ os])
  next
    case (Suc i')
    then have i': "i' < length kvs" using i by simp
    have "back_pos os kvs j i = turn_pos False os kvs i' j" for j
      using own_prev_current [OF i', of os] back_pos_skip [of os i' j kvs] Suc by (auto simp: turn_pos_def)
    then show ?thesis using fold c own s i' Suc by (auto simp: merging_at_def FindLargest_def intro!: exI [of _ os])
  qed
qed

end

text \<open>A call on every child, and the call on the current one.\<close>

lemma each_child_at:
  assumes "children_at at cs os kvs pos"
    and "\<And>j c. j < length cs \<Longrightarrow> at c (own os kvs j) (pos j) \<Longrightarrow> \<exists>c'. f j c = Some c' \<and> at c' (own os kvs j) (pos' j)"
  shows "\<exists>cs'. each_child f 0 cs = Some cs' \<and> length cs' = length cs \<and> children_at at cs' os kvs pos'"
proof -
  have "\<exists>c'. f (0 + j) (cs ! j) = Some c' \<and> at c' (own os kvs j) (pos' j)" if "j < length cs" for j
    using assms(2) [OF that] assms(1) that by (simp add: children_at_def)
  then show ?thesis
    using each_child_result [of cs f 0 "\<lambda>j c'. at c' (own os kvs j) (pos' j)"] by (auto simp: children_at_def)
qed

lemma children_at_update:
  assumes "children_at at cs os kvs pos" "at c' (own os kvs c) (pos' c)" "\<And>j. j \<noteq> c \<Longrightarrow> pos' j = pos j"
  shows "children_at at (cs[c := c']) os kvs pos'"
  unfolding children_at_def
proof (intro allI impI)
  fix j assume "j < length (cs[c := c'])"
  then show "at (cs[c := c'] ! j) (own os kvs j) (pos' j)"
    using assms by (cases "j = c") (simp_all add: children_at_def)
qed

lemma first_error_OK: "\<forall>s\<in>set ss. s = OK \<Longrightarrow> first_error ss = OK"
  by (induction ss) auto

context iterator
begin

lemma Merging_status_at:
  assumes "children_at at (mi_children m) os kvs pos"
  shows "Merging_status ops m = OK"
proof -
  have "it_status ops c = OK" if "c \<in> set (mi_children m)" for c
    using that assms status_at by (auto simp: children_at_def in_set_conv_nth)
  then have "\<forall>s\<in>set (map (it_status ops) (mi_children m)). s = OK" by simp
  then show ?thesis unfolding Merging_status_def by (rule first_error_OK)
qed

lemma merging_current:
  assumes "merging_at cmp ok at m kvs i" "i < length kvs"
  obtains os where "\<forall>k<length kvs. os ! k < length (mi_children m)" "mi_current m = Some (os ! i)"
    "children_at at (mi_children m) os kvs (turn_pos (mi_forward m) os kvs i)"
    "at (mi_children m ! (os ! i)) (own os kvs (os ! i)) (cnt os (os ! i) i)"
    "Merging_key ops m = fst (kvs ! i)" "Merging_value ops m = snd (kvs ! i)"
proof -
  obtain os pos where os: "\<forall>k<length kvs. os ! k < length (mi_children m)" "mi_current m = Some (os ! i)"
    "children_at at (mi_children m) os kvs pos" "\<forall>j. pos j = turn_pos (mi_forward m) os kvs i j"
    using assms by (auto simp: merging_at_def)
  then have pos: "pos = turn_pos (mi_forward m) os kvs i" by auto
  have a: "at (mi_children m ! (os ! i)) (own os kvs (os ! i)) (cnt os (os ! i) i)"
    using os(1,3) assms(2) by (auto simp: children_at_def pos turn_pos_def)
  have kv: "Merging_key ops m = fst (kvs ! i)" "Merging_value ops m = snd (kvs ! i)"
    using key_at [OF a cnt_current_less [OF assms(2)]] value_at [OF a cnt_current_less [OF assms(2)]]
    by (simp_all add: Merging_key_def Merging_value_def os(2) own_current [OF assms(2)])
  show ?thesis using that [OF os(1,2) os(3) [unfolded pos] a kv] .
qed

text \<open>Turning around.\<close>

lemma child_after_at:
  assumes s: "kvs_sorted cmp kvs" "keys_ok ok kvs" and i: "i < length kvs"
    and at: "at c (own os kvs j) (turn_pos forward os kvs i j)"
  shows "\<exists>c'. child_after cmp ops (fst (kvs ! i)) (os ! i) j c = Some c' \<and> at c' (own os kvs j) (cnt os j i)"
proof (cases "j = os ! i")
  case True
  then show ?thesis using at by (simp add: child_after_def turn_pos_def)
next
  case False
  have ok: "ok (fst (kvs ! i))" by (rule keys_ok_nth [OF s(2) i])
  obtain c' where c': "it_Seek ops (fst (kvs ! i)) c = Some c'" "at c' (own os kvs j) (cnt os j i)"
    using Seek_at [OF at ok] own_seek_pos [OF s ok] seek_pos_self [OF s i] by auto
  have "\<not> (it_Valid ops c' \<and> Compare cmp (fst (kvs ! i)) (it_key ops c') = 0)"
  proof
    assume v: "it_Valid ops c' \<and> Compare cmp (fst (kvs ! i)) (it_key ops c') = 0"
    then have l: "cnt os j i < length (own os kvs j)" using Valid_at [OF c'(2)] by simp
    then obtain k where k: "i \<le> k" "k < length kvs" "os ! k = j" "own os kvs j ! cnt os j i = kvs ! k"
      using own_after [of i kvs os j "cnt os j i"] i by auto
    then have "i < k" using False by (metis order_le_less)
    then show False using kvs_sorted_nth [OF s(1)] k v key_at [OF c'(2) l] by fastforce
  qed
  then show ?thesis using False c' by (auto simp: child_after_def)
qed

lemma child_before_at:
  assumes s: "kvs_sorted cmp kvs" "keys_ok ok kvs" and i: "i < length kvs"
    and at: "at c (own os kvs j) (turn_pos forward os kvs i j)"
  shows "\<exists>c'. child_before ops (fst (kvs ! i)) (os ! i) j c = Some c' \<and>
    at c' (own os kvs j) (turn_pos False os kvs i j)"
proof (cases "j = os ! i")
  case True
  then show ?thesis using at by (simp add: child_before_def turn_pos_def)
next
  case False
  have ok: "ok (fst (kvs ! i))" by (rule keys_ok_nth [OF s(2) i])
  obtain c' where c': "it_Seek ops (fst (kvs ! i)) c = Some c'" "at c' (own os kvs j) (cnt os j i)"
    using Seek_at [OF at ok] own_seek_pos [OF s ok] seek_pos_self [OF s i] by auto
  have le: "cnt os j i \<le> length (own os kvs j)" by (rule cnt_le) (use i in simp)
  show ?thesis
  proof (cases "it_Valid ops c'")
    case True
    then have "cnt os j i < length (own os kvs j)" using Valid_at [OF c'(2)] by simp
    then show ?thesis
      using Prev_at [OF c'(2)] False c' True by (auto simp: child_before_def turn_pos_def back_pos_def)
  next
    case invalid: False
    then have "cnt os j i = length (own os kvs j)" using Valid_at [OF c'(2)] le by simp
    then show ?thesis
      using SeekToLast_at [OF c'(2)] False c' invalid by (auto simp: child_before_def turn_pos_def back_pos_def)
  qed
qed

end

text \<open>Every movement of the merging iterator moves over the merged sequence.\<close>

context iterator
begin

lemma merging_children:
  assumes "merging_at cmp ok at m kvs i"
  obtains os pos where "kvs_sorted cmp kvs" "keys_ok ok kvs" "i \<le> length kvs"
    "\<forall>k<length kvs. os ! k < length (mi_children m)" "children_at at (mi_children m) os kvs pos"
  using assms by (auto simp: merging_at_def)

lemma Merging_SeekToFirst_at:
  assumes "merging_at cmp ok at m kvs i"
  shows "\<exists>m'. Merging_SeekToFirst cmp ops m = Some m' \<and> merging_at cmp ok at m' kvs 0"
proof -
  obtain os pos where m: "kvs_sorted cmp kvs" "keys_ok ok kvs"
    "\<forall>k<length kvs. os ! k < length (mi_children m)" "children_at at (mi_children m) os kvs pos"
    using merging_children [OF assms] .
  obtain cs where cs: "each_child (\<lambda>i. it_SeekToFirst ops) 0 (mi_children m) = Some cs"
    "length cs = length (mi_children m)" "children_at at cs os kvs (\<lambda>j. cnt os j 0)"
    using each_child_at [OF m(4), of "\<lambda>i. it_SeekToFirst ops" "\<lambda>j. cnt os j 0"] SeekToFirst_at by auto
  show ?thesis
    using FindSmallest_at [of "m\<lparr>mi_children := cs\<rparr>" os kvs 0] cs m by (simp add: Merging_SeekToFirst_def)
qed

lemma Merging_SeekToLast_at:
  assumes "merging_at cmp ok at m kvs i"
  shows "\<exists>m'. Merging_SeekToLast cmp ops m = Some m' \<and> merging_at cmp ok at m' kvs (length kvs - 1)"
proof -
  obtain os pos where m: "kvs_sorted cmp kvs" "keys_ok ok kvs"
    "\<forall>k<length kvs. os ! k < length (mi_children m)" "children_at at (mi_children m) os kvs pos"
    using merging_children [OF assms] .
  have last: "back_pos os kvs j (length kvs) = length (own os kvs j) - 1" for j
    by (simp add: back_pos_def length_own)
  obtain cs where cs: "each_child (\<lambda>i. it_SeekToLast ops) 0 (mi_children m) = Some cs"
    "length cs = length (mi_children m)" "children_at at cs os kvs (\<lambda>j. back_pos os kvs j (length kvs))"
    using each_child_at [OF m(4), of "\<lambda>i. it_SeekToLast ops" "\<lambda>j. back_pos os kvs j (length kvs)"] SeekToLast_at
    unfolding last by blast
  show ?thesis
    using FindLargest_at [of "m\<lparr>mi_children := cs\<rparr>" os kvs "length kvs"] cs m
    by (simp add: Merging_SeekToLast_def split: if_splits)
qed

lemma Merging_Seek_at:
  assumes "merging_at cmp ok at m kvs i" "ok t"
  shows "\<exists>m'. Merging_Seek cmp ops t m = Some m' \<and> merging_at cmp ok at m' kvs (seek_pos cmp kvs t)"
proof -
  obtain os pos where m: "kvs_sorted cmp kvs" "keys_ok ok kvs"
    "\<forall>k<length kvs. os ! k < length (mi_children m)" "children_at at (mi_children m) os kvs pos"
    using merging_children [OF assms(1)] .
  obtain cs where cs: "each_child (\<lambda>i. it_Seek ops t) 0 (mi_children m) = Some cs"
    "length cs = length (mi_children m)" "children_at at cs os kvs (\<lambda>j. cnt os j (seek_pos cmp kvs t))"
    using each_child_at [OF m(4), of "\<lambda>i. it_Seek ops t" "\<lambda>j. cnt os j (seek_pos cmp kvs t)"]
      Seek_at [OF _ assms(2)] unfolding own_seek_pos [OF m(1,2) assms(2), symmetric] by blast
  show ?thesis
    using FindSmallest_at [of "m\<lparr>mi_children := cs\<rparr>" os kvs "seek_pos cmp kvs t"] cs m seek_pos_le
    by (simp add: Merging_Seek_def)
qed

lemma Merging_Next_at:
  assumes at: "merging_at cmp ok at m kvs i" and i: "i < length kvs"
  shows "\<exists>m'. Merging_Next cmp ops m = Some m' \<and> merging_at cmp ok at m' kvs (Suc i)"
proof -
  have s: "kvs_sorted cmp kvs" "keys_ok ok kvs" using at by (simp_all add: merging_at_def)
  obtain os where m: "\<forall>k<length kvs. os ! k < length (mi_children m)" "mi_current m = Some (os ! i)"
    "children_at at (mi_children m) os kvs (turn_pos (mi_forward m) os kvs i)" "Merging_key ops m = fst (kvs ! i)"
    using merging_current [OF at i] by metis
  define m1 where "m1 = (if mi_forward m then Some m
      else do { cs \<leftarrow> each_child (child_after cmp ops (Merging_key ops m) (os ! i)) 0 (mi_children m);
                Some (m\<lparr>mi_children := cs, mi_forward := True\<rparr>) })"
  have "\<exists>m'. m1 = Some m' \<and> mi_forward m' \<and> length (mi_children m') = length (mi_children m) \<and>
      children_at at (mi_children m') os kvs (\<lambda>j. cnt os j i)"
  proof (cases "mi_forward m")
    case True
    then show ?thesis using m(3) by (simp add: m1_def turn_pos_def [abs_def])
  next
    case False
    obtain cs where cs: "each_child (child_after cmp ops (fst (kvs ! i)) (os ! i)) 0 (mi_children m) = Some cs"
      "length cs = length (mi_children m)" "children_at at cs os kvs (\<lambda>j. cnt os j i)"
      using each_child_at [OF m(3), of "child_after cmp ops (fst (kvs ! i)) (os ! i)" "\<lambda>j. cnt os j i"]
        child_after_at [OF s i] by blast
    then show ?thesis using False m(4) by (simp add: m1_def)
  qed
  then obtain m' where m': "m1 = Some m'" "mi_forward m'" "length (mi_children m') = length (mi_children m)"
    "children_at at (mi_children m') os kvs (\<lambda>j. cnt os j i)" by blast
  have "at (mi_children m' ! (os ! i)) (own os kvs (os ! i)) (cnt os (os ! i) i)"
    using m'(3,4) m(1) i by (simp add: children_at_def)
  from Next_at [OF this cnt_current_less [OF i]]
  obtain c' where c': "it_Next ops (mi_children m' ! (os ! i)) = Some c'"
    "at c' (own os kvs (os ! i)) (Suc (cnt os (os ! i) i))" by blast
  let ?m = "m'\<lparr>mi_children := (mi_children m')[os ! i := c']\<rparr>"
  have "children_at at (mi_children ?m) os kvs (\<lambda>j. cnt os j (Suc i))"
    using children_at_update [OF m'(4), of c' "os ! i" "\<lambda>j. cnt os j (Suc i)"] c'(2) by (simp add: cnt_Suc)
  from FindSmallest_at [OF this] have "merging_at cmp ok at ((FindSmallest cmp ops ?m)\<lparr>mi_forward := True\<rparr>) kvs (Suc i)"
    using i m(1) m'(3) s by simp
  moreover have "(FindSmallest cmp ops ?m)\<lparr>mi_forward := True\<rparr> = FindSmallest cmp ops ?m"
    using m'(2) by (simp add: FindSmallest_def)
  moreover have "Merging_Next cmp ops m = Some (FindSmallest cmp ops ?m)"
    unfolding Merging_Next_def m(2) bind.simps m1_def [symmetric] m'(1) c'(1) ..
  ultimately show ?thesis by simp
qed

lemma Merging_Prev_at:
  assumes at: "merging_at cmp ok at m kvs i" and i: "i < length kvs"
  shows "\<exists>m'. Merging_Prev cmp ops m = Some m' \<and> merging_at cmp ok at m' kvs (if i = 0 then length kvs else i - 1)"
proof -
  have s: "kvs_sorted cmp kvs" "keys_ok ok kvs" using at by (simp_all add: merging_at_def)
  obtain os where m: "\<forall>k<length kvs. os ! k < length (mi_children m)" "mi_current m = Some (os ! i)"
    "children_at at (mi_children m) os kvs (turn_pos (mi_forward m) os kvs i)" "Merging_key ops m = fst (kvs ! i)"
    using merging_current [OF at i] by metis
  define m1 where "m1 = (if \<not> mi_forward m then Some m
      else do { cs \<leftarrow> each_child (child_before ops (Merging_key ops m) (os ! i)) 0 (mi_children m);
                Some (m\<lparr>mi_children := cs, mi_forward := False\<rparr>) })"
  have "\<exists>m'. m1 = Some m' \<and> \<not> mi_forward m' \<and> length (mi_children m') = length (mi_children m) \<and>
      children_at at (mi_children m') os kvs (turn_pos False os kvs i)"
  proof (cases "mi_forward m")
    case False
    then show ?thesis using m(3) by (simp add: m1_def)
  next
    case True
    obtain cs where cs: "each_child (child_before ops (fst (kvs ! i)) (os ! i)) 0 (mi_children m) = Some cs"
      "length cs = length (mi_children m)" "children_at at cs os kvs (turn_pos False os kvs i)"
      using each_child_at [OF m(3), of "child_before ops (fst (kvs ! i)) (os ! i)" "turn_pos False os kvs i"]
        child_before_at [OF s i] by blast
    then show ?thesis using True m(4) by (simp add: m1_def)
  qed
  then obtain m' where m': "m1 = Some m'" "\<not> mi_forward m'" "length (mi_children m') = length (mi_children m)"
    "children_at at (mi_children m') os kvs (turn_pos False os kvs i)" by blast
  have "at (mi_children m' ! (os ! i)) (own os kvs (os ! i)) (cnt os (os ! i) i)"
    using m'(3,4) m(1) i by (auto simp: children_at_def turn_pos_def)
  from Prev_at [OF this cnt_current_less [OF i]]
  obtain c' where c': "it_Prev ops (mi_children m' ! (os ! i)) = Some c'"
    "at c' (own os kvs (os ! i)) (back_pos os kvs (os ! i) i)" unfolding back_pos_def by blast
  let ?m = "m'\<lparr>mi_children := (mi_children m')[os ! i := c']\<rparr>"
  have "children_at at (mi_children ?m) os kvs (\<lambda>j. back_pos os kvs j i)"
    using children_at_update [OF m'(4), of c' "os ! i" "\<lambda>j. back_pos os kvs j i"] c'(2) by (simp add: turn_pos_def)
  from FindLargest_at [OF this]
  have "merging_at cmp ok at ((FindLargest cmp ops ?m)\<lparr>mi_forward := False\<rparr>) kvs (if i = 0 then length kvs else i - 1)"
    using i m(1) m'(3) s by simp
  moreover have "(FindLargest cmp ops ?m)\<lparr>mi_forward := False\<rparr> = FindLargest cmp ops ?m"
    using m'(2) by (simp add: FindLargest_def)
  moreover have "Merging_Prev cmp ops m = Some (FindLargest cmp ops ?m)"
    unfolding Merging_Prev_def m(2) bind.simps m1_def [symmetric] m'(1) c'(1) ..
  ultimately show ?thesis by simp
qed

lemma merging_iterator: "iterator cmp ok (merging_ops cmp ops) (merging_at cmp ok at)"
proof unfold_locales
  fix m kvs i t
  assume at: "merging_at cmp ok at m kvs i"
  show "i \<le> length kvs" "kvs_sorted cmp kvs" "keys_ok ok kvs" using at by (simp_all add: merging_at_def)
  show "it_Valid (merging_ops cmp ops) m = (i < length kvs)"
    using at by (auto simp: merging_at_def merging_ops_def Merging_Valid_def split: if_splits)
  obtain os pos where "children_at at (mi_children m) os kvs pos" using merging_children [OF at] .
  then show "it_status (merging_ops cmp ops) m = OK" using Merging_status_at by (simp add: merging_ops_def)
  show "it_key (merging_ops cmp ops) m = fst (kvs ! i)" "it_value (merging_ops cmp ops) m = snd (kvs ! i)"
    if "i < length kvs"
    using merging_current [OF at that] by (simp_all add: merging_ops_def) metis+
qed (simp_all add: merging_ops_def Merging_SeekToFirst_at Merging_SeekToLast_at [simplified] Merging_Seek_at Merging_Next_at
    Merging_Prev_at)

end

section \<open>Merging given sequences\<close>

text \<open>
  \<open>merge_of kvss kvs\<close>: \<open>kvs\<close> is sorted and is a shuffle of the sequences \<open>kvss\<close>, each of which keeps its
  order.
\<close>

definition merge_of :: "comparator \<Rightarrow> kv list list \<Rightarrow> kv list \<Rightarrow> bool" where
  "merge_of cmp kvss kvs \<longleftrightarrow>
     kvs_sorted cmp kvs \<and>
     (\<exists>os. (\<forall>k<length kvs. os ! k < length kvss) \<and> (\<forall>j<length kvss. own os kvs j = kvss ! j))"

definition merged_at ::
  "comparator \<Rightarrow> (bytes \<Rightarrow> bool) \<Rightarrow> 's iter_ops \<Rightarrow> ('s \<Rightarrow> kv list \<Rightarrow> nat \<Rightarrow> bool) \<Rightarrow> 's merged \<Rightarrow> kv list \<Rightarrow> nat \<Rightarrow> bool" where
  "merged_at cmp ok ops at = case_sum empty_at (case_sum at (merging_at cmp ok (wrapper_at ops at)))"

lemma own_all: "\<forall>k<length kvs. os ! k = j \<Longrightarrow> own os kvs j = kvs"
  by (simp add: own_def filter_id_conv [THEN iffD2] map_nth)

lemma own_set: "\<forall>k<length kvs. os ! k < n \<Longrightarrow> set kvs = (\<Union>j<n. set (own os kvs j))"
proof (intro equalityI subsetI)
  fix e assume own: "\<forall>k<length kvs. os ! k < n" and "e \<in> set kvs"
  then obtain i where "i < length kvs" "kvs ! i = e" by (auto simp: in_set_conv_nth)
  then show "e \<in> (\<Union>j<n. set (own os kvs j))"
    using own by (auto simp: own_def intro!: bexI [of _ "os ! i"])
qed (auto simp: own_def)

context iterator
begin

lemma merged_iterator: "iterator cmp ok (merged_ops cmp ops) (merged_at cmp ok ops at)"
  unfolding merged_ops_def merged_at_def
  by (intro either_iterator empty_iterator iterator.merging_iterator [OF wrapper_iterator] iterator_axioms)

text \<open>A new merging iterator over children that are over \<open>kvss\<close> is over their merge.\<close>

lemma NewMergingIterator_at:
  assumes m: "merge_of cmp kvss kvs"
    and c: "list_all2 (\<lambda>s kvs. \<exists>i. at s kvs i) ss kvss"
  shows "\<exists>i. merged_at cmp ok ops at (NewMergingIterator ops ss) kvs i"
proof -
  obtain os where os: "kvs_sorted cmp kvs" "\<forall>k<length kvs. os ! k < length kvss" "\<forall>j<length kvss. own os kvs j = kvss ! j"
    using m by (auto simp: merge_of_def)
  have len: "length ss = length kvss" using c by (rule list_all2_lengthD)
  have each: "\<exists>i. at (ss ! j) (kvss ! j) i" if "j < length ss" for j using c that by (simp add: list_all2_conv_all_nth)
  consider "ss = []" | s where "ss = [s]" | s1 s2 ss' where "ss = s1 # s2 # ss'"
    by (cases ss rule: remdups_adj.cases) auto
  then show ?thesis
  proof cases
    case 1
    then have "kvs = []" using os(2) len by (cases kvs) auto
    then show ?thesis using 1 by (simp add: NewMergingIterator_def NewEmptyIterator_def merged_at_def empty_at_def)
  next
    case 2
    then have "\<forall>k<length kvs. os ! k = 0" using os(2) len [symmetric] by simp
    then have "kvss ! 0 = kvs" using own_all [of kvs os 0] os(3) 2 len [symmetric] by simp
    then show ?thesis using each [of 0] 2 by (simp add: NewMergingIterator_def merged_at_def)
  next
    case 3
    let ?cs = "map (IteratorWrapper_new ops) ss"
    obtain pos where pos: "\<forall>j<length ss. at (ss ! j) (kvss ! j) (pos j)" using each by metis
    have "children_at (wrapper_at ops at) ?cs os kvs pos"
      using pos os(3) len wrapper_at_new by (fastforce simp: children_at_def)
    moreover have "keys_ok ok kvs"
    proof -
      have "keys_ok ok (own os kvs j)" if "j < length kvss" for j
        using pos that len os(3) at_ok by metis
      then show ?thesis using own_set [OF os(2)] by (auto simp: keys_ok_def)
    qed
    ultimately have "merging_at cmp ok (wrapper_at ops at) (MergingIterator_new ?cs) kvs (length kvs)"
      using os len by (auto simp: merging_at_def MergingIterator_new_def)
    then show ?thesis using 3 by (auto simp: NewMergingIterator_def merged_at_def)
  qed
qed

end

section \<open>Merges exist and are unique\<close>

context comparator_laws
begin

lemma kvs_sorted_unique:
  "kvs_sorted cmp xs \<Longrightarrow> kvs_sorted cmp ys \<Longrightarrow> keys_ok ok xs \<Longrightarrow> set xs = set ys \<Longrightarrow> xs = ys"
proof (induction xs arbitrary: ys)
  case (Cons x xs)
  then obtain y ys' where ys: "ys = y # ys'" by (cases ys) auto
  have ok: "ok (fst x)" "ok (fst y)" using Cons.prems(3,4) ys by (auto simp: keys_ok_def)
  have irrefl: "\<not> Compare cmp (fst x) (fst x) < 0" using compare_refl ok by simp
  have xy: "x = y"
  proof (rule ccontr)
    assume "x \<noteq> y"
    then have "Compare cmp (fst x) (fst y) < 0" "Compare cmp (fst y) (fst x) < 0"
      using Cons.prems(1,2,4) ys by (auto simp: kvs_sorted_def)
    then show False using compare_trans ok irrefl by blast
  qed
  have "x \<notin> set xs" "x \<notin> set ys'" using Cons.prems(1,2) ys xy irrefl by (auto simp: kvs_sorted_def)
  then have "set xs = set ys'" using Cons.prems(4) ys xy by auto
  then have "xs = ys'" using Cons.prems(1-3) ys by (intro Cons.IH) (auto simp: kvs_sorted_def keys_ok_def)
  then show ?case using ys xy by simp
qed simp

text \<open>Sequences without a common entry are merged by any sorted sequence of all their entries.\<close>

lemma merge_ofI:
  assumes kvs: "kvs_sorted cmp kvs" "keys_ok ok kvs" "set kvs = (\<Union>xs\<in>set kvss. set xs)"
    and each: "\<And>xs. xs \<in> set kvss \<Longrightarrow> kvs_sorted cmp xs"
    and disjoint: "\<And>i j. i < length kvss \<Longrightarrow> j < length kvss \<Longrightarrow> i \<noteq> j \<Longrightarrow> set (kvss ! i) \<inter> set (kvss ! j) = {}"
  shows "merge_of cmp kvss kvs"
proof -
  have "\<exists>j. j < length kvss \<and> kvs ! k \<in> set (kvss ! j)" if "k < length kvs" for k
  proof -
    have "kvs ! k \<in> set kvs" using that by (rule nth_mem)
    then obtain xs where "xs \<in> set kvss" "kvs ! k \<in> set xs" using kvs(3) by auto
    moreover then obtain j where "j < length kvss" "kvss ! j = xs" by (auto simp: in_set_conv_nth)
    ultimately show ?thesis by blast
  qed
  then obtain f where f: "\<And>k. k < length kvs \<Longrightarrow> f k < length kvss \<and> kvs ! k \<in> set (kvss ! f k)" by metis
  let ?os = "map f [0..<length kvs]"
  have "own ?os kvs j = kvss ! j" if j: "j < length kvss" for j
  proof (rule kvs_sorted_unique)
    show "kvs_sorted cmp (own ?os kvs j)" "keys_ok ok (own ?os kvs j)" "kvs_sorted cmp (kvss ! j)"
      using kvs each j by (simp_all add: own_sorted own_ok)
    show "set (own ?os kvs j) = set (kvss ! j)"
    proof (intro equalityI subsetI)
      fix e assume "e \<in> set (own ?os kvs j)"
      then show "e \<in> set (kvss ! j)" using f by (auto simp: own_def)
    next
      fix e assume e: "e \<in> set (kvss ! j)"
      then have "e \<in> set kvs" using kvs(3) j by auto
      then obtain k where k: "k < length kvs" "kvs ! k = e" by (auto simp: in_set_conv_nth)
      have "f k = j" using f [OF k(1)] disjoint [OF _ j] e k(2) by blast
      then show "e \<in> set (own ?os kvs j)" using k by (force simp: own_def)
    qed
  qed
  then show ?thesis using kvs(1) f unfolding merge_of_def by (intro conjI exI [of _ ?os]) auto
qed

end
end
