(* ===== verification/Versions.thy ===== *)
theory Versions
  imports Complex_Main VersionEdit IteratorSpec
begin

text \<open>
  The \<open>Version\<close> part of \<open>db/version_set.cpp\<close>: the files of each level, the searches over them and
  point lookups. A \<open>FileMetaData*\<close> is an address into a heap of \<open>file_meta\<close>, since versions share
  their files and change their seek counters. A \<open>NULL\<close> key is \<open>None\<close>.
\<close>

section \<open>Sizes\<close>

definition kTargetFileSize :: nat where "kTargetFileSize = 2 * 1048576"
definition kMaxGrandParentOverlapBytes :: int where "kMaxGrandParentOverlapBytes = 10 * int kTargetFileSize"
definition kExpandedCompactionByteSizeLimit :: int where
  "kExpandedCompactionByteSizeLimit = 25 * int kTargetFileSize"

text \<open>The doubles of \<open>MaxBytesForLevel\<close> are integers below \<open>2\<^sup>5\<^sup>3\<close>, hence exact.\<close>

fun MaxBytesForLevel :: "nat \<Rightarrow> nat" where
  "MaxBytesForLevel level = (if level > 1 then 10 * MaxBytesForLevel (level - 1) else 10 * 1048576)"

declare MaxBytesForLevel.simps [simp del]

definition MaxFileSizeForLevel :: "nat \<Rightarrow> u64" where
  "MaxFileSizeForLevel level = word_of_nat kTargetFileSize"

text \<open>The sum wraps at 64 bits and is read as signed.\<close>

definition TotalFileSize :: "file_meta list \<Rightarrow> int" where
  "TotalFileSize files = sint (fold (\<lambda>f sum. sum + fm_file_size f) files 0)"

section \<open>Searching the files of a level\<close>

type_synonym fptr = nat
type_synonym file_heap = "fptr \<Rightarrow> file_meta"

function FindFile_loop :: "comparator \<Rightarrow> file_meta list \<Rightarrow> bytes \<Rightarrow> nat \<Rightarrow> nat \<Rightarrow> nat" where
  "FindFile_loop cmp files key left right =
     (if left < right then
        let mid = (left + right) div 2; f = files ! mid
        in if InternalKey_Compare cmp (fm_largest f) key < 0
           then FindFile_loop cmp files key (mid + 1) right
           else FindFile_loop cmp files key left mid
      else right)"
  by pat_completeness auto
termination
  by (relation "measure (\<lambda>(cmp, files, key, left, right). right - left)") auto

declare FindFile_loop.simps [simp del]

definition FindFile :: "comparator \<Rightarrow> file_meta list \<Rightarrow> bytes \<Rightarrow> nat" where
  "FindFile cmp files key = FindFile_loop cmp files key 0 (length files)"

definition smallest_user :: "file_meta \<Rightarrow> bytes" where
  "smallest_user f = ExtractUserKey (fm_smallest f)"

definition largest_user :: "file_meta \<Rightarrow> bytes" where
  "largest_user f = ExtractUserKey (fm_largest f)"

definition AfterFile :: "comparator \<Rightarrow> bytes option \<Rightarrow> file_meta \<Rightarrow> bool" where
  "AfterFile ucmp user_key f =
     (case user_key of None \<Rightarrow> False | Some k \<Rightarrow> Compare ucmp k (largest_user f) > 0)"

definition BeforeFile :: "comparator \<Rightarrow> bytes option \<Rightarrow> file_meta \<Rightarrow> bool" where
  "BeforeFile ucmp user_key f =
     (case user_key of None \<Rightarrow> False | Some k \<Rightarrow> Compare ucmp k (smallest_user f) < 0)"

definition SomeFileOverlapsRange ::
  "comparator \<Rightarrow> bool \<Rightarrow> file_meta list \<Rightarrow> bytes option \<Rightarrow> bytes option \<Rightarrow> bool" where
  "SomeFileOverlapsRange cmp disjoint_sorted_files files smallest_user_key largest_user_key =
     (if \<not> disjoint_sorted_files then
        list_ex (\<lambda>f. \<not> (AfterFile cmp smallest_user_key f \<or> BeforeFile cmp largest_user_key f)) files
      else
        let index = (case smallest_user_key of
                       None \<Rightarrow> 0
                     | Some k \<Rightarrow> FindFile cmp files (ikey k kMaxSequenceNumber kValueTypeForSeek))
        in if index \<ge> length files then False
           else \<not> BeforeFile cmp largest_user_key (files ! index))"

section \<open>The iterator over the files of a level\<close>

record level_iter =
  li_flist :: "file_meta list"
  li_index :: nat

definition LevelFileNumIterator_new :: "file_meta list \<Rightarrow> level_iter" where
  "LevelFileNumIterator_new flist = \<lparr>li_flist = flist, li_index = length flist\<rparr>"

definition LevelFileNum_Valid :: "level_iter \<Rightarrow> bool" where
  "LevelFileNum_Valid it \<longleftrightarrow> li_index it < length (li_flist it)"

definition level_value :: "file_meta \<Rightarrow> bytes" where
  "level_value f = EncodeFixed64 (fm_number f) @ EncodeFixed64 (fm_file_size f)"

definition level_iter_ops :: "comparator \<Rightarrow> level_iter iter_ops" where
  "level_iter_ops cmp =
     \<lparr>it_Valid = LevelFileNum_Valid,
      it_key = (\<lambda>it. fm_largest (li_flist it ! li_index it)),
      it_value = (\<lambda>it. level_value (li_flist it ! li_index it)),
      it_status = (\<lambda>it. OK),
      it_SeekToFirst = (\<lambda>it. Some (it\<lparr>li_index := 0\<rparr>)),
      it_SeekToLast = (\<lambda>it. Some (it\<lparr>li_index := if li_flist it = [] then 0 else length (li_flist it) - 1\<rparr>)),
      it_Seek = (\<lambda>t it. Some (it\<lparr>li_index := FindFile cmp (li_flist it) t\<rparr>)),
      it_Next = (\<lambda>it. if LevelFileNum_Valid it then Some (it\<lparr>li_index := li_index it + 1\<rparr>) else None),
      it_Prev = (\<lambda>it. if LevelFileNum_Valid it
                      then Some (it\<lparr>li_index := if li_index it = 0 then length (li_flist it) else li_index it - 1\<rparr>)
                      else None)\<rparr>"

section \<open>Versions\<close>

text \<open>The scores are doubles in the code, and the exact quotients here.\<close>

record version =
  ver_refs :: nat
  ver_files :: "fptr list list"
  ver_file_to_compact :: "fptr option"
  ver_file_to_compact_level :: int
  ver_compaction_score :: rat
  ver_compaction_level :: int

definition Version_new :: version where
  "Version_new =
     \<lparr>ver_refs = 0, ver_files = replicate kNumLevels [], ver_file_to_compact = None,
      ver_file_to_compact_level = -1, ver_compaction_score = -1, ver_compaction_level = -1\<rparr>"

definition level_files :: "version \<Rightarrow> nat \<Rightarrow> fptr list" where
  "level_files v level = ver_files v ! level"

definition Version_NumFiles :: "version \<Rightarrow> nat \<Rightarrow> nat" where
  "Version_NumFiles v level = length (level_files v level)"

definition level_metas :: "file_heap \<Rightarrow> version \<Rightarrow> nat \<Rightarrow> file_meta list" where
  "level_metas fs v level = map fs (level_files v level)"

section \<open>Point lookups\<close>

datatype saver_state = kNotFound | kFound | kDeleted | kCorrupt

text \<open>\<open>SaveValue\<close> on the entry the table found: the new state, and the value when it is stored.\<close>

definition SaveValue :: "comparator \<Rightarrow> bytes \<Rightarrow> kv \<Rightarrow> saver_state \<times> bytes option" where
  "SaveValue ucmp user_key entry =
     (case ParseInternalKey (fst entry) of
        None \<Rightarrow> (kCorrupt, None)
      | Some parsed \<Rightarrow>
          if Compare ucmp (pk_user_key parsed) user_key = 0
          then (if pk_type parsed = kTypeValue then (kFound, Some (snd entry)) else (kDeleted, None))
          else (kNotFound, None))"

text \<open>
  \<open>std::sort\<close> with \<open>NewestFirst\<close>: decreasing numbers. Files with equal numbers may come in any order;
  here they keep theirs.
\<close>

definition NewestFirst :: "file_meta \<Rightarrow> file_meta \<Rightarrow> bool" where
  "NewestFirst a b \<longleftrightarrow> fm_number a > fm_number b"

definition sort_newest_first :: "file_heap \<Rightarrow> fptr list \<Rightarrow> fptr list" where
  "sort_newest_first fs files = sort_key (\<lambda>f. - uint (fm_number (fs f))) files"

text \<open>The files of a level that a lookup of \<open>user_key\<close> reads, in order.\<close>

definition level0_candidates :: "comparator \<Rightarrow> file_heap \<Rightarrow> fptr list \<Rightarrow> bytes \<Rightarrow> fptr list" where
  "level0_candidates ucmp fs files user_key =
     sort_newest_first fs
       (filter (\<lambda>f. Compare ucmp user_key (smallest_user (fs f)) \<ge> 0 \<and>
                    Compare ucmp user_key (largest_user (fs f)) \<le> 0) files)"

definition level_candidate :: "comparator \<Rightarrow> file_heap \<Rightarrow> fptr list \<Rightarrow> bytes \<Rightarrow> bytes \<Rightarrow> fptr list" where
  "level_candidate ucmp fs files user_key internal_key =
     (let index = FindFile ucmp (map fs files) internal_key
      in if index \<ge> length files then []
         else if Compare ucmp user_key (smallest_user (fs (files ! index))) < 0 then []
         else [files ! index])"

definition candidates :: "comparator \<Rightarrow> file_heap \<Rightarrow> version \<Rightarrow> bytes \<Rightarrow> bytes \<Rightarrow> nat \<Rightarrow> fptr list" where
  "candidates ucmp fs v user_key internal_key level =
     (if level_files v level = [] then []
      else if level = 0 then level0_candidates ucmp fs (level_files v level) user_key
      else level_candidate ucmp fs (level_files v level) user_key internal_key)"

text \<open>\<open>ForEachOverlapping\<close>: \<open>func\<close> returns whether to go on.\<close>

fun call_until :: "('a \<Rightarrow> 'x \<Rightarrow> bool \<times> 'a) \<Rightarrow> 'x list \<Rightarrow> 'a \<Rightarrow> 'a" where
  "call_until func [] a = a"
| "call_until func (x # xs) a = (case func a x of (go, a) \<Rightarrow> if go then call_until func xs a else a)"

definition ForEachOverlapping ::
  "comparator \<Rightarrow> file_heap \<Rightarrow> version \<Rightarrow> bytes \<Rightarrow> bytes \<Rightarrow> ('a \<Rightarrow> nat \<times> fptr \<Rightarrow> bool \<times> 'a) \<Rightarrow> 'a \<Rightarrow> 'a" where
  "ForEachOverlapping ucmp fs v user_key internal_key func a =
     call_until func
       (concat (map (\<lambda>level. map (Pair level) (candidates ucmp fs v user_key internal_key level)) [0..<kNumLevels])) a"

record get_stats =
  gs_seek_file :: "fptr option"
  gs_seek_file_level :: int

text \<open>
  One table after another, with the file read last. \<open>tget\<close> is \<open>TableCache::Get\<close> of a number, a size
  and an internal key. \<open>Some\<close> is the return with a status and the value that was stored.
\<close>

type_synonym 'c table_get = "u64 \<Rightarrow> u64 \<Rightarrow> bytes \<Rightarrow> 'c \<Rightarrow> status \<times> kv option \<times> 'c"
type_synonym 'c get_state = "(fptr \<times> nat) option \<times> get_stats \<times> 'c"

fun Get_files ::
  "comparator \<Rightarrow> file_heap \<Rightarrow> 'c table_get \<Rightarrow> bytes \<Rightarrow> bytes \<Rightarrow> (nat \<times> fptr) list \<Rightarrow> 'c get_state \<Rightarrow>
     (status \<times> bytes option) option \<times> 'c get_state" where
  "Get_files ucmp fs tget user_key internal_key [] st = (None, st)"
| "Get_files ucmp fs tget user_key internal_key ((level, f) # rest) (last_file_read, stats, c) =
     (let stats = (case last_file_read of
                     Some (l, lv) \<Rightarrow> if gs_seek_file stats = None
                                    then \<lparr>gs_seek_file = Some l, gs_seek_file_level = int lv\<rparr> else stats
                   | None \<Rightarrow> stats);
          last_file_read = Some (f, level);
          (s, saved, c) = tget (fm_number (fs f)) (fm_file_size (fs f)) internal_key c;
          st = (last_file_read, stats, c)
      in if \<not> status_ok s then
           (Some (s, case saved of None \<Rightarrow> None | Some e \<Rightarrow> snd (SaveValue ucmp user_key e)), st)
         else
           (case saved of
              None \<Rightarrow> Get_files ucmp fs tget user_key internal_key rest st
            | Some e \<Rightarrow>
                (case SaveValue ucmp user_key e of
                   (kNotFound, _) \<Rightarrow> Get_files ucmp fs tget user_key internal_key rest st
                 | (kFound, val) \<Rightarrow> (Some (s, val), st)
                 | (kDeleted, _) \<Rightarrow> (Some (NotFound [], None), st)
                 | (kCorrupt, _) \<Rightarrow> (Some (Corruption (status_msg ''corrupted key for '' (map (char_of \<circ> unat) user_key)), None), st))))"

definition Version_Get ::
  "comparator \<Rightarrow> file_heap \<Rightarrow> 'c table_get \<Rightarrow> version \<Rightarrow> LookupKey \<Rightarrow> 'c \<Rightarrow>
     status \<times> bytes option \<times> get_stats \<times> 'c" where
  "Version_Get ucmp fs tget v k c =
     (let internal_key = lk_internal_key k; user_key = lk_user_key k;
          files = concat (map (\<lambda>level. map (Pair level) (candidates ucmp fs v user_key internal_key level)) [0..<kNumLevels]);
          (result, _, stats, c) =
            Get_files ucmp fs tget user_key internal_key files (None, \<lparr>gs_seek_file = None, gs_seek_file_level = -1\<rparr>, c)
      in case result of
           Some (s, val) \<Rightarrow> (s, val, stats, c)
         | None \<Rightarrow> (NotFound [], None, stats, c))"

section \<open>Seek compactions\<close>

definition UpdateStats :: "get_stats \<Rightarrow> version \<Rightarrow> file_heap \<Rightarrow> bool \<times> version \<times> file_heap" where
  "UpdateStats stats v fs =
     (case gs_seek_file stats of
        None \<Rightarrow> (False, v, fs)
      | Some f \<Rightarrow>
          let fs = fs(f := (fs f)\<lparr>fm_allowed_seeks := fm_allowed_seeks (fs f) - 1\<rparr>)
          in if fm_allowed_seeks (fs f) \<le> 0 \<and> ver_file_to_compact v = None
             then (True, v\<lparr>ver_file_to_compact := Some f, ver_file_to_compact_level := gs_seek_file_level stats\<rparr>, fs)
             else (False, v, fs))"

definition sample_match :: "get_stats \<times> nat \<Rightarrow> nat \<times> fptr \<Rightarrow> bool \<times> get_stats \<times> nat" where
  "sample_match state entry =
     (case (state, entry) of ((stats, matches), (level, f)) \<Rightarrow>
        let matches = matches + 1;
            stats = (if matches = 1 then \<lparr>gs_seek_file = Some f, gs_seek_file_level = int level\<rparr> else stats)
        in (matches < 2, stats, matches))"

definition RecordReadSample ::
  "comparator \<Rightarrow> bytes \<Rightarrow> version \<Rightarrow> file_heap \<Rightarrow> bool \<times> version \<times> file_heap" where
  "RecordReadSample ucmp internal_key v fs =
     (case ParseInternalKey internal_key of
        None \<Rightarrow> (False, v, fs)
      | Some parsed \<Rightarrow>
          let (stats, matches) =
            ForEachOverlapping ucmp fs v (pk_user_key parsed) internal_key sample_match
              (\<lparr>gs_seek_file = None, gs_seek_file_level = -1\<rparr>, 0)
          in if matches \<ge> 2 then UpdateStats stats v fs else (False, v, fs))"

section \<open>Overlapping files\<close>

definition OverlapInLevel ::
  "comparator \<Rightarrow> file_heap \<Rightarrow> version \<Rightarrow> nat \<Rightarrow> bytes option \<Rightarrow> bytes option \<Rightarrow> bool" where
  "OverlapInLevel cmp fs v level smallest_user_key largest_user_key =
     SomeFileOverlapsRange cmp (level > 0) (level_metas fs v level) smallest_user_key largest_user_key"

text \<open>
  The loop of \<open>GetOverlappingInputs\<close> over the files from \<open>i\<close> on; at level 0 it starts again when a file
  extends the range.
\<close>

partial_function (option) overlap_loop ::
  "comparator \<Rightarrow> file_heap \<Rightarrow> bool \<Rightarrow> fptr list \<Rightarrow> nat \<Rightarrow> bytes option \<Rightarrow> bytes option \<Rightarrow> fptr list \<Rightarrow>
     fptr list option" where
  "overlap_loop cmp fs level0 files i user_begin user_end inputs =
     (if i < length files then
        let f = files ! i;
            file_start = smallest_user (fs f);
            file_limit = largest_user (fs f)
        in if (case user_begin of None \<Rightarrow> False | Some b \<Rightarrow> Compare cmp file_limit b < 0)
           then overlap_loop cmp fs level0 files (i + 1) user_begin user_end inputs
           else if (case user_end of None \<Rightarrow> False | Some e \<Rightarrow> Compare cmp file_start e > 0)
           then overlap_loop cmp fs level0 files (i + 1) user_begin user_end inputs
           else if level0 \<and> (case user_begin of None \<Rightarrow> False | Some b \<Rightarrow> Compare cmp file_start b < 0)
           then overlap_loop cmp fs level0 files 0 (Some file_start) user_end []
           else if level0 \<and> (case user_end of None \<Rightarrow> False | Some e \<Rightarrow> Compare cmp file_limit e > 0)
           then overlap_loop cmp fs level0 files 0 user_begin (Some file_limit) []
           else overlap_loop cmp fs level0 files (i + 1) user_begin user_end (inputs @ [f])
      else Some inputs)"

definition GetOverlappingInputs ::
  "comparator \<Rightarrow> file_heap \<Rightarrow> version \<Rightarrow> nat \<Rightarrow> bytes option \<Rightarrow> bytes option \<Rightarrow> fptr list option" where
  "GetOverlappingInputs cmp fs v level begin_key end_key =
     overlap_loop cmp fs (level = 0) (level_files v level) 0
       (map_option ExtractUserKey begin_key) (map_option ExtractUserKey end_key) []"

function PickLevel_loop ::
  "comparator \<Rightarrow> file_heap \<Rightarrow> version \<Rightarrow> bytes \<Rightarrow> bytes \<Rightarrow> nat \<Rightarrow> nat option" where
  "PickLevel_loop cmp fs v smallest_user_key largest_user_key level =
     (if level < kMaxMemCompactLevel then
        if OverlapInLevel cmp fs v (level + 1) (Some smallest_user_key) (Some largest_user_key) then Some level
        else if level + 2 < kNumLevels then
          (case GetOverlappingInputs cmp fs v (level + 2)
                  (Some (ikey smallest_user_key kMaxSequenceNumber kValueTypeForSeek))
                  (Some (ikey largest_user_key 0 0)) of
             None \<Rightarrow> None
           | Some overlaps \<Rightarrow>
               if TotalFileSize (map fs overlaps) > kMaxGrandParentOverlapBytes then Some level
               else PickLevel_loop cmp fs v smallest_user_key largest_user_key (level + 1))
        else PickLevel_loop cmp fs v smallest_user_key largest_user_key (level + 1)
      else Some level)"
  by pat_completeness auto
termination
  by (relation "measure (\<lambda>(cmp, fs, v, s, l, level). kMaxMemCompactLevel - level)") auto

declare PickLevel_loop.simps [simp del]

definition PickLevelForMemTableOutput ::
  "comparator \<Rightarrow> file_heap \<Rightarrow> version \<Rightarrow> bytes \<Rightarrow> bytes \<Rightarrow> nat option" where
  "PickLevelForMemTableOutput cmp fs v smallest_user_key largest_user_key =
     (if \<not> OverlapInLevel cmp fs v 0 (Some smallest_user_key) (Some largest_user_key)
      then PickLevel_loop cmp fs v smallest_user_key largest_user_key 0
      else Some 0)"

end
