(* ===== verification/VersionProofs.thy ===== *)
theory VersionProofs
  imports Versions
begin

text \<open>
  Correctness of the searches of \<open>Versions\<close>: the binary search, the overlap tests, the iterator over
  the files of a level, the overlapping inputs and the level chosen for a new table.
\<close>

section \<open>Well-formed levels\<close>

definition file_ok :: "comparator \<Rightarrow> (bytes \<Rightarrow> bool) \<Rightarrow> file_meta \<Rightarrow> bool" where
  "file_ok cmp ok f \<longleftrightarrow> internal_ok ok (fm_smallest f) \<and> internal_ok ok (fm_largest f) \<and>
     InternalKey_Compare cmp (fm_smallest f) (fm_largest f) \<le> 0 \<and> ParseInternalKey (fm_largest f) \<noteq> None"

definition files_ok :: "comparator \<Rightarrow> (bytes \<Rightarrow> bool) \<Rightarrow> file_meta list \<Rightarrow> bool" where
  "files_ok cmp ok files \<longleftrightarrow> (\<forall>f\<in>set files. file_ok cmp ok f)"

definition level_sorted :: "comparator \<Rightarrow> file_meta list \<Rightarrow> bool" where
  "level_sorted cmp files \<longleftrightarrow>
     sorted_wrt (\<lambda>a b. InternalKey_Compare cmp (fm_largest a) (fm_smallest b) < 0) files"

definition file_overlaps :: "comparator \<Rightarrow> bytes option \<Rightarrow> bytes option \<Rightarrow> file_meta \<Rightarrow> bool" where
  "file_overlaps cmp lo hi f \<longleftrightarrow> \<not> AfterFile cmp lo f \<and> \<not> BeforeFile cmp hi f"

lemma files_ok_nth: "files_ok cmp ok files \<Longrightarrow> i < length files \<Longrightarrow> file_ok cmp ok (files ! i)"
  by (simp add: files_ok_def)

lemma level_sorted_nth:
  "level_sorted cmp files \<Longrightarrow> i < j \<Longrightarrow> j < length files \<Longrightarrow>
   InternalKey_Compare cmp (fm_largest (files ! i)) (fm_smallest (files ! j)) < 0"
  by (simp add: level_sorted_def sorted_wrt_iff_nth_less)

section \<open>The binary search\<close>

lemma FindFile_loop_spec:
  assumes mono: "\<And>i j. i \<le> j \<Longrightarrow> j < length files \<Longrightarrow> InternalKey_Compare cmp (fm_largest (files ! j)) key < 0 \<Longrightarrow>
      InternalKey_Compare cmp (fm_largest (files ! i)) key < 0"
  shows "left \<le> right \<Longrightarrow> right \<le> length files \<Longrightarrow>
    (\<forall>i<left. InternalKey_Compare cmp (fm_largest (files ! i)) key < 0) \<Longrightarrow>
    (right < length files \<longrightarrow> \<not> InternalKey_Compare cmp (fm_largest (files ! right)) key < 0) \<Longrightarrow>
    FindFile_loop cmp files key left right =
      length (takeWhile (\<lambda>f. InternalKey_Compare cmp (fm_largest f) key < 0) files)"
proof (induction "right - left" arbitrary: left right rule: less_induct)
  case less
  show ?case
  proof (cases "left < right")
    case False
    then have "left = right" using less.prems(1) by simp
    then have "length (takeWhile (\<lambda>f. InternalKey_Compare cmp (fm_largest f) key < 0) files) = right"
      using less.prems by (intro length_takeWhile_eqI) auto
    then show ?thesis using False by (subst FindFile_loop.simps) simp
  next
    case True
    define mid where "mid = (left + right) div 2"
    have mid: "left \<le> mid" "mid < right" using True by (auto simp: mid_def)
    have step: "FindFile_loop cmp files key left right =
        (if InternalKey_Compare cmp (fm_largest (files ! mid)) key < 0
         then FindFile_loop cmp files key (mid + 1) right else FindFile_loop cmp files key left mid)"
      using True by (subst FindFile_loop.simps) (simp add: mid_def)
    show ?thesis
    proof (cases "InternalKey_Compare cmp (fm_largest (files ! mid)) key < 0")
      case c: True
      have "\<forall>i<mid + 1. InternalKey_Compare cmp (fm_largest (files ! i)) key < 0"
        using mono [of _ mid] c mid less.prems(2) by simp
      then show ?thesis using less.hyps [of right "mid + 1"] mid less.prems c step by simp
    next
      case c: False
      then show ?thesis using less.hyps [of mid left] mid less.prems step by simp
    qed
  qed
qed

context user_comparator
begin

lemma largest_mono:
  assumes "level_sorted cmp files" "files_ok cmp ok files" "i < j" "j < length files"
  shows "InternalKey_Compare cmp (fm_largest (files ! i)) (fm_largest (files ! j)) < 0"
proof -
  have ok: "file_ok cmp ok (files ! i)" "file_ok cmp ok (files ! j)" using files_ok_nth [OF assms(2)] assms(3,4) by simp_all
  show ?thesis
    using internal.compare_less_le_trans [of "fm_largest (files ! i)" "fm_smallest (files ! j)" "fm_largest (files ! j)"]
      level_sorted_nth [OF assms(1,3,4)] ok by (simp add: file_ok_def)
qed

lemma FindFile_spec:
  assumes "level_sorted cmp files" "files_ok cmp ok files" "internal_ok ok key"
  shows "FindFile cmp files key = length (takeWhile (\<lambda>f. InternalKey_Compare cmp (fm_largest f) key < 0) files)"
  unfolding FindFile_def
proof (rule FindFile_loop_spec)
  fix i j
  assume ij: "i \<le> j" "j < length files" "InternalKey_Compare cmp (fm_largest (files ! j)) key < 0"
  show "InternalKey_Compare cmp (fm_largest (files ! i)) key < 0"
  proof (cases "i = j")
    case False
    then have l: "InternalKey_Compare cmp (fm_largest (files ! i)) (fm_largest (files ! j)) < 0"
      using largest_mono [OF assms(1,2)] ij by simp
    have "file_ok cmp ok (files ! i)" "file_ok cmp ok (files ! j)" using files_ok_nth [OF assms(2)] ij by simp_all
    then show ?thesis
      using internal.compare_trans [of "fm_largest (files ! i)" "fm_largest (files ! j)" key] l ij(3) assms(3)
      by (simp add: file_ok_def)
  qed (use ij in simp)
qed simp_all

lemma FindFile_le:
  "level_sorted cmp files \<Longrightarrow> files_ok cmp ok files \<Longrightarrow> internal_ok ok key \<Longrightarrow> FindFile cmp files key \<le> length files"
  by (simp add: FindFile_spec length_takeWhile_le)

lemma FindFile_before:
  assumes "level_sorted cmp files" "files_ok cmp ok files" "internal_ok ok key" "i < FindFile cmp files key"
  shows "InternalKey_Compare cmp (fm_largest (files ! i)) key < 0"
  using assms(4) unfolding FindFile_spec [OF assms(1-3)]
  by (metis nth_mem set_takeWhileD takeWhile_nth)

lemma FindFile_at:
  assumes "level_sorted cmp files" "files_ok cmp ok files" "internal_ok ok key" "FindFile cmp files key < length files"
  shows "\<not> InternalKey_Compare cmp (fm_largest (files ! FindFile cmp files key)) key < 0"
  using assms(4) unfolding FindFile_spec [OF assms(1-3)] by (rule nth_length_takeWhile)

section \<open>Overlap with a range\<close>

text \<open>The lookup key of a user key at the largest sequence number is before all its entries.\<close>

lemma seek_key_first:
  assumes "ok k" "internal_ok ok l" "ParseInternalKey l \<noteq> None"
  shows "InternalKey_Compare cmp l (ikey k kMaxSequenceNumber kValueTypeForSeek) < 0 \<longleftrightarrow>
    Compare cmp (ExtractUserKey l) k < 0"
proof -
  have t: "ExtractTag l \<le> PackSequenceAndType kMaxSequenceNumber kValueTypeForSeek"
  proof -
    let ?t = "ExtractTag l"
    have type: "(ucast ?t :: byte) \<le> kTypeValue"
      using assms(3) by (auto simp: ParseInternalKey_def Let_def ExtractTag_def split: if_splits)
    have "unat ?t = unat ?t div 256 * 256 + unat ?t mod 256" by simp
    moreover have "unat ?t mod 256 = unat (ucast ?t :: byte)" by (simp add: unsigned_ucast_eq take_bit_eq_mod)
    moreover have "unat (ucast ?t :: byte) \<le> 1" using type by (simp add: word_le_nat_alt kTypeValue_def)
    moreover have "unat ?t div 256 \<le> 2 ^ 56 - 1" using unat_lt [of ?t] by simp
    moreover have "unat (PackSequenceAndType kMaxSequenceNumber kValueTypeForSeek) = (2 ^ 56 - 1) * 256 + 1"
      by (simp add: unat_Pack kMaxSequenceNumber_def kValueTypeForSeek_def kTypeValue_def)
    ultimately show ?thesis unfolding word_le_nat_alt by linarith
  qed
  then show ?thesis
    using InternalKey_Compare_less [OF assms(2), of "ikey k kMaxSequenceNumber kValueTypeForSeek"] assms(1) by auto
qed

lemma user_le_of_internal:
  assumes "internal_ok ok a" "internal_ok ok b" "InternalKey_Compare cmp a b \<le> 0"
  shows "Compare cmp (ExtractUserKey a) (ExtractUserKey b) \<le> 0"
proof (cases "a = b")
  case True
  then show ?thesis using assms(1) compare_refl by (simp add: internal_ok_def)
next
  case False
  then have "InternalKey_Compare cmp a b < 0" using InternalKey_Compare_eq [OF assms(1,2)] assms(3) by auto
  then show ?thesis using InternalKey_Compare_less [OF assms(1,2)] compare_refl assms(1) by (auto simp: internal_ok_def)
qed

lemma file_user_keys:
  assumes "file_ok cmp ok f"
  shows "ok (smallest_user f)" "ok (largest_user f)" "Compare cmp (smallest_user f) (largest_user f) \<le> 0"
  using assms user_le_of_internal by (auto simp: file_ok_def internal_ok_def smallest_user_def largest_user_def)

lemma level_user_mono:
  assumes "level_sorted cmp files" "files_ok cmp ok files" "i < j" "j < length files"
  shows "Compare cmp (largest_user (files ! i)) (smallest_user (files ! j)) \<le> 0"
    "Compare cmp (smallest_user (files ! i)) (smallest_user (files ! j)) \<le> 0"
proof -
  have ok: "file_ok cmp ok (files ! i)" "file_ok cmp ok (files ! j)" using files_ok_nth [OF assms(2)] assms(3,4) by simp_all
  show l: "Compare cmp (largest_user (files ! i)) (smallest_user (files ! j)) \<le> 0"
    using user_le_of_internal level_sorted_nth [OF assms(1,3,4)] ok
    by (simp add: file_ok_def largest_user_def smallest_user_def)
  show "Compare cmp (smallest_user (files ! i)) (smallest_user (files ! j)) \<le> 0"
    using compare_le_trans [OF _ _ _ _ l] file_user_keys [OF ok(1)] file_user_keys [OF ok(2)] by blast
qed

lemma SomeFileOverlapsRange_iff:
  assumes "disjoint \<Longrightarrow> level_sorted cmp files" "files_ok cmp ok files"
    and lo: "\<And>k. lo = Some k \<Longrightarrow> ok k" and hi: "\<And>k. hi = Some k \<Longrightarrow> ok k"
  shows "SomeFileOverlapsRange cmp disjoint files lo hi \<longleftrightarrow> (\<exists>f\<in>set files. file_overlaps cmp lo hi f)"
proof (cases disjoint)
  case False
  then show ?thesis by (auto simp: SomeFileOverlapsRange_def file_overlaps_def list_ex_iff)
next
  case True
  note s = assms(1) [OF True] assms(2)
  define n where "n = (case lo of None \<Rightarrow> 0 | Some k \<Rightarrow> FindFile cmp files (ikey k kMaxSequenceNumber kValueTypeForSeek))"
  have seek: "InternalKey_Compare cmp (fm_largest (files ! i)) (ikey k kMaxSequenceNumber kValueTypeForSeek) < 0 \<longleftrightarrow>
      AfterFile cmp lo (files ! i)" if "lo = Some k" "i < length files" for i k
  proof -
    have f: "file_ok cmp ok (files ! i)" using files_ok_nth [OF s(2) that(2)] .
    show ?thesis
      using seek_key_first [OF lo [OF that(1)], of "fm_largest (files ! i)"] f that(1)
        compare_flip [of "largest_user (files ! i)" k] lo [OF that(1)] file_user_keys(2) [OF f]
      by (simp add: AfterFile_def file_ok_def largest_user_def)
  qed
  have nlen: "n \<le> length files"
    using FindFile_le [OF s] lo by (auto simp: n_def split: option.split)
  have before: "AfterFile cmp lo (files ! i)" if "i < n" for i
  proof (cases lo)
    case (Some k)
    then show ?thesis
      using FindFile_before [OF s, of "ikey k kMaxSequenceNumber kValueTypeForSeek" i] seek [OF Some, of i] lo [OF Some]
        that nlen by (simp add: n_def)
  qed (use that in \<open>simp add: n_def\<close>)
  have at: "\<not> AfterFile cmp lo (files ! n)" if "n < length files"
  proof (cases lo)
    case (Some k)
    then show ?thesis
      using FindFile_at [OF s, of "ikey k kMaxSequenceNumber kValueTypeForSeek"] seek [OF Some, of n] lo [OF Some]
        that by (simp add: n_def)
  qed (simp add: AfterFile_def)
  have later: "BeforeFile cmp hi (files ! j)" if "BeforeFile cmp hi (files ! i)" "i \<le> j" "j < length files" for i j
  proof (cases "i = j")
    case False
    then have m: "Compare cmp (smallest_user (files ! i)) (smallest_user (files ! j)) \<le> 0"
      using level_user_mono(2) [OF s] that(2,3) by simp
    note b = that(1)
    obtain h where h: "hi = Some h" "Compare cmp h (smallest_user (files ! i)) < 0"
      using b by (cases hi) (auto simp: BeforeFile_def)
    have "ok (smallest_user (files ! i))" "ok (smallest_user (files ! j))"
      using file_user_keys(1) files_ok_nth [OF s(2)] that(2,3) by simp_all
    then show ?thesis using compare_less_le_trans [OF _ _ _ h(2) m] h(1) hi by (simp add: BeforeFile_def)
  qed (use that in simp)
  have "SomeFileOverlapsRange cmp disjoint files lo hi \<longleftrightarrow> n < length files \<and> \<not> BeforeFile cmp hi (files ! n)"
    using True by (auto simp: SomeFileOverlapsRange_def Let_def n_def)
  also have "\<dots> \<longleftrightarrow> (\<exists>i<length files. file_overlaps cmp lo hi (files ! i))"
  proof
    assume "n < length files \<and> \<not> BeforeFile cmp hi (files ! n)"
    then show "\<exists>i<length files. file_overlaps cmp lo hi (files ! i)" using at by (auto simp: file_overlaps_def)
  next
    assume "\<exists>i<length files. file_overlaps cmp lo hi (files ! i)"
    then obtain i where i: "i < length files" "\<not> AfterFile cmp lo (files ! i)" "\<not> BeforeFile cmp hi (files ! i)"
      by (auto simp: file_overlaps_def)
    then have "n \<le> i" using before by (metis linorder_not_le)
    then show "n < length files \<and> \<not> BeforeFile cmp hi (files ! n)" using i later by (meson order_le_less_trans)
  qed
  finally show ?thesis by (auto simp: in_set_conv_nth Bex_def)
qed

end

section \<open>The iterator over a level\<close>

definition level_entries :: "file_meta list \<Rightarrow> kv list" where
  "level_entries files = map (\<lambda>f. (fm_largest f, level_value f)) files"

definition level_at :: "comparator \<Rightarrow> (bytes \<Rightarrow> bool) \<Rightarrow> level_iter \<Rightarrow> kv list \<Rightarrow> nat \<Rightarrow> bool" where
  "level_at cmp ok it kvs i \<longleftrightarrow> level_sorted cmp (li_flist it) \<and> files_ok cmp ok (li_flist it) \<and>
     kvs = level_entries (li_flist it) \<and> li_index it = i \<and> i \<le> length kvs"

context user_comparator
begin

lemma level_entries_sorted:
  assumes "level_sorted cmp files" "files_ok cmp ok files"
  shows "kvs_sorted (InternalKeyComparator cmp) (level_entries files)"
    "keys_ok (internal_ok ok) (level_entries files)"
  using assms(2) largest_mono [OF assms]
  by (auto simp: kvs_sorted_def level_entries_def sorted_wrt_map sorted_wrt_iff_nth_less keys_ok_def files_ok_def
      file_ok_def)

lemma level_seek_pos:
  assumes "level_sorted cmp files" "files_ok cmp ok files" "internal_ok ok t"
  shows "FindFile cmp files t = seek_pos (InternalKeyComparator cmp) (level_entries files) t"
  using FindFile_spec [OF assms] by (simp add: seek_pos_def level_entries_def takeWhile_map comp_def)

lemma level_iterator:
  "iterator (InternalKeyComparator cmp) (internal_ok ok) (level_iter_ops cmp) (level_at cmp ok)"
proof unfold_locales
  fix s kvs i t
  assume at: "level_at cmp ok s kvs i"
  then have s: "level_sorted cmp (li_flist s)" "files_ok cmp ok (li_flist s)" "kvs = level_entries (li_flist s)"
    "li_index s = i" "i \<le> length kvs" "length kvs = length (li_flist s)" by (auto simp: level_at_def level_entries_def)
  show "i \<le> length kvs" by (fact s(5))
  show "kvs_sorted (InternalKeyComparator cmp) kvs" "keys_ok (internal_ok ok) kvs"
    using level_entries_sorted [OF s(1,2)] s(3) by simp_all
  show "it_Valid (level_iter_ops cmp) s = (i < length kvs)" "it_status (level_iter_ops cmp) s = OK"
    using s by (simp_all add: level_iter_ops_def LevelFileNum_Valid_def)
  show "\<exists>s'. it_SeekToFirst (level_iter_ops cmp) s = Some s' \<and> level_at cmp ok s' kvs 0"
    using at by (simp add: level_iter_ops_def level_at_def)
  show "\<exists>s'. it_SeekToLast (level_iter_ops cmp) s = Some s' \<and> level_at cmp ok s' kvs (length kvs - 1)"
    using at s(6) by (auto simp: level_iter_ops_def level_at_def)
  show "\<exists>s'. it_Seek (level_iter_ops cmp) t s = Some s' \<and>
      level_at cmp ok s' kvs (seek_pos (InternalKeyComparator cmp) kvs t)" if "internal_ok ok t"
    using at s(3) level_seek_pos [OF s(1,2) that] by (simp add: level_iter_ops_def level_at_def seek_pos_le)
  assume i: "i < length kvs"
  then have "kvs ! i = (fm_largest (li_flist s ! i), level_value (li_flist s ! i))"
    using s(3,6) by (simp add: level_entries_def)
  then show "it_key (level_iter_ops cmp) s = fst (kvs ! i)" "it_value (level_iter_ops cmp) s = snd (kvs ! i)"
    using s(4) by (simp_all add: level_iter_ops_def)
  show "\<exists>s'. it_Next (level_iter_ops cmp) s = Some s' \<and> level_at cmp ok s' kvs (Suc i)"
    "\<exists>s'. it_Prev (level_iter_ops cmp) s = Some s' \<and> level_at cmp ok s' kvs (if i = 0 then length kvs else i - 1)"
    using at s(4,6) i by (auto simp: level_iter_ops_def level_at_def LevelFileNum_Valid_def)
qed

end

interpretation level_iter: iterator "InternalKeyComparator BytewiseComparator" "internal_ok (\<lambda>_. True)"
  "level_iter_ops BytewiseComparator" "level_at BytewiseComparator (\<lambda>_. True)"
  by (rule bytewise_user.level_iterator)

section \<open>Overlapping inputs\<close>

text \<open>A file inside a range extends it on no side.\<close>

definition file_within :: "comparator \<Rightarrow> bytes option \<Rightarrow> bytes option \<Rightarrow> file_meta \<Rightarrow> bool" where
  "file_within cmp lo hi f \<longleftrightarrow>
     (case lo of None \<Rightarrow> True | Some b \<Rightarrow> \<not> Compare cmp (smallest_user f) b < 0) \<and>
     (case hi of None \<Rightarrow> True | Some e \<Rightarrow> \<not> Compare cmp (largest_user f) e > 0)"

definition range_extends :: "comparator \<Rightarrow> bytes option \<Rightarrow> bytes option \<Rightarrow> bytes option \<Rightarrow> bytes option \<Rightarrow> bool" where
  "range_extends cmp lo' hi' lo hi \<longleftrightarrow>
     (case lo of None \<Rightarrow> lo' = None | Some b \<Rightarrow> \<exists>b'. lo' = Some b' \<and> Compare cmp b' b \<le> 0) \<and>
     (case hi of None \<Rightarrow> hi' = None | Some e \<Rightarrow> \<exists>e'. hi' = Some e' \<and> Compare cmp e e' \<le> 0)"

lemma length_filter_strict:
  "(\<And>x. x \<in> set xs \<Longrightarrow> P x \<Longrightarrow> Q x) \<Longrightarrow> x \<in> set xs \<Longrightarrow> Q x \<Longrightarrow> \<not> P x \<Longrightarrow>
   length (filter P xs) < length (filter Q xs)"
proof -
  assume a: "\<And>x. x \<in> set xs \<Longrightarrow> P x \<Longrightarrow> Q x" "x \<in> set xs" "Q x" "\<not> P x"
  have "filter P xs = filter P (filter Q xs)" using a(1) by (auto intro: filter_cong)
  then show ?thesis using a(2-4) length_filter_less [of x "filter Q xs" P] by simp
qed

definition below_count :: "comparator \<Rightarrow> file_meta list \<Rightarrow> bytes option \<Rightarrow> nat" where
  "below_count cmp files lo =
     (case lo of None \<Rightarrow> 0 | Some b \<Rightarrow> length (filter (\<lambda>f. Compare cmp (smallest_user f) b < 0) files))"

definition above_count :: "comparator \<Rightarrow> file_meta list \<Rightarrow> bytes option \<Rightarrow> nat" where
  "above_count cmp files hi =
     (case hi of None \<Rightarrow> 0 | Some e \<Rightarrow> length (filter (\<lambda>f. Compare cmp (largest_user f) e > 0) files))"

definition key_ok :: "(bytes \<Rightarrow> bool) \<Rightarrow> bytes option \<Rightarrow> bool" where
  "key_ok ok k = (case k of None \<Rightarrow> True | Some k \<Rightarrow> ok k)"

definition overlap_result ::
  "comparator \<Rightarrow> (bytes \<Rightarrow> bool) \<Rightarrow> file_heap \<Rightarrow> fptr list \<Rightarrow> bytes option \<Rightarrow> bytes option \<Rightarrow> fptr list \<Rightarrow> bool" where
  "overlap_result cmp ok fs files lo hi r \<longleftrightarrow>
     (\<exists>lo' hi'. range_extends cmp lo' hi' lo hi \<and> key_ok ok lo' \<and> key_ok ok hi' \<and>
        r = filter (\<lambda>f. file_overlaps cmp lo' hi' (fs f)) files \<and> (\<forall>f\<in>set r. file_within cmp lo' hi' (fs f)))"

definition files_apart :: "comparator \<Rightarrow> file_meta \<Rightarrow> file_meta \<Rightarrow> bool" where
  "files_apart cmp f g \<longleftrightarrow> Compare cmp (largest_user g) (smallest_user f) < 0 \<or> Compare cmp (largest_user f) (smallest_user g) < 0"

text \<open>Of each level but 0, the files are in order and apart.\<close>

definition version_ok :: "comparator \<Rightarrow> (bytes \<Rightarrow> bool) \<Rightarrow> file_heap \<Rightarrow> version \<Rightarrow> bool" where
  "version_ok cmp ok fs v \<longleftrightarrow> length (ver_files v) = kNumLevels \<and>
     (\<forall>level<kNumLevels. files_ok cmp ok (level_metas fs v level) \<and>
        (level > 0 \<longrightarrow> level_sorted cmp (level_metas fs v level)))"

lemma version_ok_small:
  assumes "length (ver_files v) = kNumLevels" "\<And>f. file_ok cmp ok (fs f)"
    and "\<And>level. 0 < level \<Longrightarrow> level < kNumLevels \<Longrightarrow> length (level_files v level) \<le> 1"
  shows "version_ok cmp ok fs v"
proof -
  have "level_sorted cmp (level_metas fs v level)" if "0 < level" "level < kNumLevels" for level
    using assms(3) [OF that] by (cases "level_files v level") (auto simp: level_sorted_def level_metas_def)
  then show ?thesis using assms(1,2) by (auto simp: version_ok_def files_ok_def level_metas_def)
qed

definition user_key_of :: "bytes option \<Rightarrow> bytes option" where
  "user_key_of k = map_option ExtractUserKey k"

context user_comparator
begin

lemma below_count_less:
  assumes "files_ok cmp ok files" "f \<in> set files" "ok b" "Compare cmp (smallest_user f) b < 0"
  shows "below_count cmp files (Some (smallest_user f)) < below_count cmp files (Some b)"
proof -
  have ok: "ok (smallest_user x)" if "x \<in> set files" for x
    using assms(1) that file_user_keys(1) by (auto simp: files_ok_def)
  have f: "ok (smallest_user f)" using ok assms(2) .
  show ?thesis
    unfolding below_count_def option.case
  proof (rule length_filter_strict [OF _ assms(2)])
    show "Compare cmp (smallest_user x) b < 0" if "x \<in> set files" "Compare cmp (smallest_user x) (smallest_user f) < 0" for x
      using compare_trans [OF ok [OF that(1)] f assms(3) that(2) assms(4)] .
  qed (use assms(4) compare_refl f in simp_all)
qed

lemma above_count_less:
  assumes "files_ok cmp ok files" "f \<in> set files" "ok e" "Compare cmp (largest_user f) e > 0"
  shows "above_count cmp files (Some (largest_user f)) < above_count cmp files (Some e)"
proof -
  have ok: "ok (largest_user x)" if "x \<in> set files" for x
    using assms(1) that file_user_keys(2) by (auto simp: files_ok_def)
  have f: "ok (largest_user f)" using ok assms(2) .
  have ef: "Compare cmp e (largest_user f) < 0" using assms(4) compare_flip [OF assms(3) f] by simp
  show ?thesis
    unfolding above_count_def option.case
  proof (rule length_filter_strict [OF _ assms(2)])
    fix x assume x: "x \<in> set files" "Compare cmp (largest_user x) (largest_user f) > 0"
    have "Compare cmp (largest_user f) (largest_user x) < 0" using x(2) compare_flip [OF f ok [OF x(1)]] by simp
    then have "Compare cmp e (largest_user x) < 0" using compare_trans [OF assms(3) f ok [OF x(1)] ef] by simp
    then show "Compare cmp (largest_user x) e > 0" using compare_flip [OF assms(3) ok [OF x(1)]] by simp
  qed (use assms(4) compare_refl f in simp_all)
qed

lemma range_extends_refl: "key_ok ok lo \<Longrightarrow> key_ok ok hi \<Longrightarrow> range_extends cmp lo hi lo hi"
  by (auto simp: range_extends_def key_ok_def compare_refl split: option.splits)

lemma range_extends_lower:
  assumes "range_extends cmp lo' hi' (Some s) hi" "Compare cmp s b < 0" "ok s" "ok b" "key_ok ok lo'"
  shows "range_extends cmp lo' hi' (Some b) hi"
proof -
  obtain b' where b': "lo' = Some b'" "Compare cmp b' s \<le> 0" using assms(1) by (auto simp: range_extends_def)
  then have "Compare cmp b' b \<le> 0"
    using compare_le_less_trans [of b' s b] assms(2-5) by (simp add: key_ok_def)
  then show ?thesis using assms(1) b' by (simp add: range_extends_def)
qed

lemma range_extends_upper:
  assumes "range_extends cmp lo' hi' lo (Some l)" "Compare cmp l e > 0" "ok l" "ok e" "key_ok ok hi'"
  shows "range_extends cmp lo' hi' lo (Some e)"
proof -
  obtain e' where e': "hi' = Some e'" "Compare cmp l e' \<le> 0" using assms(1) by (auto simp: range_extends_def)
  have "Compare cmp e l < 0" using compare_flip assms(2-4) by blast
  then have "Compare cmp e e' \<le> 0"
    using compare_less_le_trans [of e l e'] e' assms(3-5) by (simp add: key_ok_def)
  then show ?thesis using assms(1) e' by (simp add: range_extends_def)
qed

lemma overlap_tests:
  assumes f: "file_ok cmp ok f" and k: "key_ok ok lo" "key_ok ok hi"
  shows "(case lo of None \<Rightarrow> False | Some b \<Rightarrow> Compare cmp (largest_user f) b < 0) = AfterFile cmp lo f"
    "(case hi of None \<Rightarrow> False | Some e \<Rightarrow> Compare cmp (smallest_user f) e > 0) = BeforeFile cmp hi f"
    "(case lo of None \<Rightarrow> False | Some b \<Rightarrow> Compare cmp (smallest_user f) b < 0) \<or>
     (case hi of None \<Rightarrow> False | Some e \<Rightarrow> Compare cmp (largest_user f) e > 0) \<longleftrightarrow> \<not> file_within cmp lo hi f"
proof -
  have flip: "Compare cmp y x > 0 \<longleftrightarrow> Compare cmp x y < 0" if "ok x" "ok y" for x y using compare_flip [OF that] .
  note u = file_user_keys [OF f]
  show "(case lo of None \<Rightarrow> False | Some b \<Rightarrow> Compare cmp (largest_user f) b < 0) = AfterFile cmp lo f"
    using k(1) u(2) by (auto simp: AfterFile_def key_ok_def flip split: option.splits)
  show "(case hi of None \<Rightarrow> False | Some e \<Rightarrow> Compare cmp (smallest_user f) e > 0) = BeforeFile cmp hi f"
    using k(2) u(1) by (auto simp: BeforeFile_def key_ok_def flip split: option.splits)
qed (auto simp: file_within_def split: option.splits)

lemma overlap_loop_plain:
  assumes "files_ok cmp ok (map fs files)" "key_ok ok lo" "key_ok ok hi"
  shows "overlap_loop cmp fs False files i lo hi inputs =
    Some (inputs @ filter (\<lambda>f. file_overlaps cmp lo hi (fs f)) (drop i files))"
proof (induction "length files - i" arbitrary: i inputs)
  case 0
  then show ?case by (subst overlap_loop.simps) simp
next
  case (Suc n)
  then have i: "i < length files" by simp
  have f: "file_ok cmp ok (fs (files ! i))" using files_ok_nth [OF assms(1), of i] i by simp
  have d: "drop i files = files ! i # drop (Suc i) files" using i by (simp add: Cons_nth_drop_Suc)
  show ?case
    using Suc.hyps(1) [of "i + 1"] Suc.hyps(2) i
    by (subst overlap_loop.simps) (simp add: Let_def overlap_tests(1,2) [OF f assms(2,3)] d file_overlaps_def)
qed

lemma overlap_loop_level0:
  assumes files: "files_ok cmp ok (map fs files)"
  shows "key_ok ok lo \<Longrightarrow> key_ok ok hi \<Longrightarrow> i \<le> length files \<Longrightarrow>
    inputs = filter (\<lambda>f. file_overlaps cmp lo hi (fs f)) (take i files) \<Longrightarrow>
    (\<forall>f\<in>set inputs. file_within cmp lo hi (fs f)) \<Longrightarrow>
    \<exists>r. overlap_loop cmp fs True files i lo hi inputs = Some r \<and> overlap_result cmp ok fs files lo hi r"
proof (induction "(below_count cmp (map fs files) lo + above_count cmp (map fs files) hi) * Suc (length files) +
    (length files - i)" arbitrary: i lo hi inputs rule: less_induct)
  case less
  let ?c = "below_count cmp (map fs files) lo + above_count cmp (map fs files) hi"
  note k = less.prems(1,2)
  show ?case
  proof (cases "i < length files")
    case False
    then have "inputs = filter (\<lambda>f. file_overlaps cmp lo hi (fs f)) files" using less.prems(3,4) by simp
    then have "overlap_result cmp ok fs files lo hi inputs"
      using k range_extends_refl [OF k] less.prems(5) unfolding overlap_result_def by blast
    then show ?thesis using False by (subst overlap_loop.simps) simp
  next
    case i: True
    let ?f = "fs (files ! i)"
    have f: "file_ok cmp ok ?f" "?f \<in> set (map fs files)" using files_ok_nth [OF files, of i] i by simp_all
    note u = file_user_keys [OF f(1)]
    note t = overlap_tests [OF f(1) k]
    have restart: "(c * Suc (length files) + (length files - 0)) < ?c * Suc (length files) + (length files - i)"
      if "c < ?c" for c
    proof -
      have "Suc c * Suc (length files) \<le> ?c * Suc (length files)" using that by (intro mult_le_mono1) simp
      then show ?thesis by simp
    qed
    have next_i: "take (i + 1) files = take i files @ [files ! i]" using i by (simp add: take_Suc_conv_app_nth)
    consider (out) "\<not> file_overlaps cmp lo hi ?f"
      | (lower) b where "file_overlaps cmp lo hi ?f" "lo = Some b" "Compare cmp (smallest_user ?f) b < 0"
      | (upper) e where "file_overlaps cmp lo hi ?f" "\<forall>b. lo = Some b \<longrightarrow> \<not> Compare cmp (smallest_user ?f) b < 0"
          "hi = Some e" "Compare cmp (largest_user ?f) e > 0"
      | (within) "file_overlaps cmp lo hi ?f" "file_within cmp lo hi ?f"
      by (cases lo; cases hi) (auto simp: file_within_def)
    then show ?thesis
    proof cases
      case out
      have step: "overlap_loop cmp fs True files i lo hi inputs = overlap_loop cmp fs True files (i + 1) lo hi inputs"
        using i out unfolding file_overlaps_def by (subst overlap_loop.simps) (auto simp: Let_def t(1,2))
      show ?thesis unfolding step
        by (rule less.hyps) (use less.prems i out next_i in simp_all)
    next
      case lower
      have step: "overlap_loop cmp fs True files i lo hi inputs =
          overlap_loop cmp fs True files 0 (Some (smallest_user ?f)) hi []"
        using i lower t(1,2) unfolding file_overlaps_def by (subst overlap_loop.simps) (simp add: Let_def)
      have b: "ok b" using k(1) lower(2) by (simp add: key_ok_def)
      have "\<exists>r. overlap_loop cmp fs True files 0 (Some (smallest_user ?f)) hi [] = Some r \<and>
          overlap_result cmp ok fs files (Some (smallest_user ?f)) hi r"
        by (rule less.hyps [OF restart])
          (use below_count_less [OF files f(2) b lower(3)] lower(2) k(2) u in \<open>simp_all add: key_ok_def\<close>)
      then obtain r where r: "overlap_loop cmp fs True files 0 (Some (smallest_user ?f)) hi [] = Some r"
        "overlap_result cmp ok fs files (Some (smallest_user ?f)) hi r" by blast
      have "overlap_result cmp ok fs files lo hi r"
        using r(2) range_extends_lower [OF _ lower(3) u(1) b] unfolding overlap_result_def lower(2) by blast
      then show ?thesis using step r(1) by simp
    next
      case upper
      have step: "overlap_loop cmp fs True files i lo hi inputs =
          overlap_loop cmp fs True files 0 lo (Some (largest_user ?f)) []"
        using i upper t(1,2) unfolding file_overlaps_def
        by (subst overlap_loop.simps) (auto simp add: Let_def split: option.splits)
      have e: "ok e" using k(2) upper(3) by (simp add: key_ok_def)
      have "\<exists>r. overlap_loop cmp fs True files 0 lo (Some (largest_user ?f)) [] = Some r \<and>
          overlap_result cmp ok fs files lo (Some (largest_user ?f)) r"
        by (rule less.hyps [OF restart])
          (use above_count_less [OF files f(2) e upper(4)] upper(3) k(1) u in \<open>simp_all add: key_ok_def\<close>)
      then obtain r where r: "overlap_loop cmp fs True files 0 lo (Some (largest_user ?f)) [] = Some r"
        "overlap_result cmp ok fs files lo (Some (largest_user ?f)) r" by blast
      have "overlap_result cmp ok fs files lo hi r"
        using r(2) range_extends_upper [OF _ upper(4) u(2) e] unfolding overlap_result_def upper(3) by blast
      then show ?thesis using step r(1) by simp
    next
      case within
      have "\<not> (case lo of None \<Rightarrow> False | Some b \<Rightarrow> Compare cmp (smallest_user ?f) b < 0)"
        "\<not> (case hi of None \<Rightarrow> False | Some e \<Rightarrow> Compare cmp (largest_user ?f) e > 0)"
        using t(3) within(2) by blast+
      then have step: "overlap_loop cmp fs True files i lo hi inputs =
          overlap_loop cmp fs True files (i + 1) lo hi (inputs @ [files ! i])"
        using i within t(1,2) unfolding file_overlaps_def by (subst overlap_loop.simps) (simp add: Let_def)
      show ?thesis unfolding step
        by (rule less.hyps) (use less.prems i within next_i in auto)
    qed
  qed
qed

lemma overlaps_extend:
  assumes "range_extends cmp lo' hi' lo hi" "file_overlaps cmp lo hi f" "file_ok cmp ok f"
    and k: "key_ok ok lo" "key_ok ok hi" "key_ok ok lo'" "key_ok ok hi'"
  shows "file_overlaps cmp lo' hi' f"
proof -
  note u = file_user_keys [OF assms(3)]
  have "\<not> AfterFile cmp lo' f"
  proof
    assume a: "AfterFile cmp lo' f"
    then obtain b' where b': "lo' = Some b'" "Compare cmp b' (largest_user f) > 0" by (cases lo') (auto simp: AfterFile_def)
    then obtain b where b: "lo = Some b" "Compare cmp b' b \<le> 0"
      using assms(1) by (cases lo) (auto simp: range_extends_def)
    have "Compare cmp (largest_user f) b' < 0" using b'(2) compare_flip [OF u(2), of b'] k(3) b'(1) by (simp add: key_ok_def)
    then have "Compare cmp (largest_user f) b < 0"
      using compare_less_le_trans [of "largest_user f" b' b] u(2) k(1,3) b b' by (simp add: key_ok_def)
    then have "AfterFile cmp lo f" using compare_flip [OF u(2), of b] k(1) b(1) by (simp add: AfterFile_def key_ok_def)
    then show False using assms(2) by (simp add: file_overlaps_def)
  qed
  moreover have "\<not> BeforeFile cmp hi' f"
  proof
    assume a: "BeforeFile cmp hi' f"
    then obtain e' where e': "hi' = Some e'" "Compare cmp e' (smallest_user f) < 0" by (cases hi') (auto simp: BeforeFile_def)
    then obtain e where e: "hi = Some e" "Compare cmp e e' \<le> 0"
      using assms(1) by (cases hi) (auto simp: range_extends_def)
    have "Compare cmp e (smallest_user f) < 0"
      using compare_le_less_trans [of e e' "smallest_user f"] u(1) k(2,4) e e' by (simp add: key_ok_def)
    then show False using assms(2) e(1) by (simp add: file_overlaps_def BeforeFile_def)
  qed
  ultimately show ?thesis by (simp add: file_overlaps_def)
qed

lemma outside_apart:
  assumes f: "file_within cmp lo hi f" "file_ok cmp ok f" and g: "\<not> file_overlaps cmp lo hi g" "file_ok cmp ok g"
    and k: "key_ok ok lo" "key_ok ok hi"
  shows "files_apart cmp f g"
proof (cases "AfterFile cmp lo g")
  case True
  then obtain b where b: "lo = Some b" "Compare cmp b (largest_user g) > 0" by (cases lo) (auto simp: AfterFile_def)
  have okb: "ok b" using k(1) b(1) by (simp add: key_ok_def)
  have "Compare cmp (largest_user g) b < 0" using b(2) compare_flip [OF file_user_keys(2) [OF g(2)] okb] by simp
  moreover have "Compare cmp b (smallest_user f) \<le> 0"
    using f(1) b(1) compare_flip [OF file_user_keys(1) [OF f(2)] okb] by (auto simp: file_within_def)
  ultimately show ?thesis
    using compare_less_le_trans [OF file_user_keys(2) [OF g(2)] okb file_user_keys(1) [OF f(2)]] by (simp add: files_apart_def)
next
  case False
  then have "BeforeFile cmp hi g" using g(1) by (simp add: file_overlaps_def)
  then obtain e where e: "hi = Some e" "Compare cmp e (smallest_user g) < 0" by (cases hi) (auto simp: BeforeFile_def)
  have oke: "ok e" using k(2) e(1) by (simp add: key_ok_def)
  have "Compare cmp (largest_user f) e \<le> 0" using f(1) e(1) by (auto simp: file_within_def)
  then show ?thesis
    using compare_le_less_trans [OF file_user_keys(2) [OF f(2)] oke file_user_keys(1) [OF g(2)]] e(2) by (simp add: files_apart_def)
qed

lemma GetOverlappingInputs_plain:
  assumes "version_ok cmp ok fs v" "level < kNumLevels" "0 < level" "key_ok ok (user_key_of lo)" "key_ok ok (user_key_of hi)"
  shows "GetOverlappingInputs cmp fs v level lo hi =
    Some (filter (\<lambda>f. file_overlaps cmp (user_key_of lo) (user_key_of hi) (fs f)) (level_files v level))"
  using overlap_loop_plain [of fs "level_files v level" "user_key_of lo" "user_key_of hi" 0 "[]"] assms
  by (simp add: GetOverlappingInputs_def version_ok_def level_metas_def user_key_of_def)

text \<open>
  Every file of the level that meets the range is returned; at level 0, every file that is not
  returned lies apart from every file that is.
\<close>

lemma GetOverlappingInputs_spec:
  assumes v: "version_ok cmp ok fs v" "level < kNumLevels" and k: "key_ok ok (user_key_of lo)" "key_ok ok (user_key_of hi)"
  shows "\<exists>r. GetOverlappingInputs cmp fs v level lo hi = Some r \<and> set r \<subseteq> set (level_files v level) \<and>
    (\<forall>f\<in>set (level_files v level). file_overlaps cmp (user_key_of lo) (user_key_of hi) (fs f) \<longrightarrow> f \<in> set r) \<and>
    (level = 0 \<longrightarrow> (\<forall>f\<in>set r. \<forall>g\<in>set (level_files v level). g \<notin> set r \<longrightarrow> files_apart cmp (fs f) (fs g)))"
proof (cases "level = 0")
  case False
  then show ?thesis using GetOverlappingInputs_plain [OF v _ k] by auto
next
  case True
  let ?files = "level_files v 0"
  have files: "files_ok cmp ok (map fs ?files)" using v True by (simp add: version_ok_def level_metas_def)
  have ok: "file_ok cmp ok (fs f)" if "f \<in> set ?files" for f using files that by (simp add: files_ok_def)
  obtain r where r: "overlap_loop cmp fs True ?files 0 (user_key_of lo) (user_key_of hi) [] = Some r"
    "overlap_result cmp ok fs ?files (user_key_of lo) (user_key_of hi) r"
    using overlap_loop_level0 [OF files k, of 0 "[]"] by auto
  obtain lo' hi' where e: "range_extends cmp lo' hi' (user_key_of lo) (user_key_of hi)" "key_ok ok lo'" "key_ok ok hi'"
    "r = filter (\<lambda>f. file_overlaps cmp lo' hi' (fs f)) ?files" "\<forall>f\<in>set r. file_within cmp lo' hi' (fs f)"
    using r(2) by (auto simp: overlap_result_def)
  have "\<forall>f\<in>set ?files. file_overlaps cmp (user_key_of lo) (user_key_of hi) (fs f) \<longrightarrow> f \<in> set r"
    using overlaps_extend [OF e(1) _ ok k e(2,3)] e(4) by simp
  moreover have "\<forall>f\<in>set r. \<forall>g\<in>set ?files. g \<notin> set r \<longrightarrow> files_apart cmp (fs f) (fs g)"
    using outside_apart [OF _ ok _ ok e(2,3)] e(4,5) by simp
  ultimately show ?thesis using r(1) True e(4) by (simp add: GetOverlappingInputs_def user_key_of_def)
qed

section \<open>The level of a new table\<close>

lemma OverlapInLevel_iff:
  assumes "version_ok cmp ok fs v" "level < kNumLevels" "ok lo" "ok hi"
  shows "OverlapInLevel cmp fs v level (Some lo) (Some hi) \<longleftrightarrow>
    (\<exists>f\<in>set (level_files v level). file_overlaps cmp (Some lo) (Some hi) (fs f))"
  using SomeFileOverlapsRange_iff [of "0 < level" "level_metas fs v level" "Some lo" "Some hi"] assms
  by (auto simp: OverlapInLevel_def version_ok_def level_metas_def)

lemma PickLevel_loop_spec:
  assumes v: "version_ok cmp ok fs v" and k: "ok lo" "ok hi"
  shows "level \<le> kMaxMemCompactLevel \<Longrightarrow>
    \<exists>n. PickLevel_loop cmp fs v lo hi level = Some n \<and> level \<le> n \<and> n \<le> kMaxMemCompactLevel \<and>
      (\<forall>l. level < l \<and> l \<le> n \<longrightarrow> \<not> OverlapInLevel cmp fs v l (Some lo) (Some hi))"
proof (induction "kMaxMemCompactLevel - level" arbitrary: level)
  case 0
  then show ?case by (subst PickLevel_loop.simps) auto
next
  case (Suc d)
  then have l: "level < kMaxMemCompactLevel" "level + 2 < kNumLevels" by (simp_all add: kMaxMemCompactLevel_def kNumLevels_def)
  obtain overlaps where o: "GetOverlappingInputs cmp fs v (level + 2)
      (Some (ikey lo kMaxSequenceNumber kValueTypeForSeek)) (Some (ikey hi 0 0)) = Some overlaps"
    using GetOverlappingInputs_spec [OF v l(2), of "Some (ikey lo kMaxSequenceNumber kValueTypeForSeek)" "Some (ikey hi 0 0)"] k
    by (auto simp: key_ok_def user_key_of_def)
  consider (stop) "PickLevel_loop cmp fs v lo hi level = Some level"
    | (go) "PickLevel_loop cmp fs v lo hi level = PickLevel_loop cmp fs v lo hi (level + 1)"
        "\<not> OverlapInLevel cmp fs v (level + 1) (Some lo) (Some hi)"
    using l o by (cases "OverlapInLevel cmp fs v (level + 1) (Some lo) (Some hi)";
        cases "TotalFileSize (map fs overlaps) > kMaxGrandParentOverlapBytes")
      (auto simp: PickLevel_loop.simps [of cmp fs v lo hi level])
  then show ?case
  proof cases
    case stop
    then show ?thesis using l by auto
  next
    case go
    obtain n where n: "PickLevel_loop cmp fs v lo hi (level + 1) = Some n" "level + 1 \<le> n" "n \<le> kMaxMemCompactLevel"
      "\<forall>l. level + 1 < l \<and> l \<le> n \<longrightarrow> \<not> OverlapInLevel cmp fs v l (Some lo) (Some hi)"
    proof -
      have "d = kMaxMemCompactLevel - (level + 1)" "level + 1 \<le> kMaxMemCompactLevel" using Suc.hyps(2) l(1) by simp_all
      then show ?thesis using Suc.hyps(1) [of "level + 1"] that by blast
    qed
    have "\<not> OverlapInLevel cmp fs v m (Some lo) (Some hi)" if "level < m" "m \<le> n" for m
      using n(4) go(2) that by (cases "m = level + 1") auto
    then show ?thesis using n go(1) by auto
  qed
qed

lemma PickLevel_spec:
  assumes "version_ok cmp ok fs v" "ok lo" "ok hi"
  shows "\<exists>n. PickLevelForMemTableOutput cmp fs v lo hi = Some n \<and> n \<le> kMaxMemCompactLevel \<and>
    (0 < n \<longrightarrow> (\<forall>l\<le>n. \<forall>f\<in>set (level_files v l). \<not> file_overlaps cmp (Some lo) (Some hi) (fs f)))"
proof (cases "OverlapInLevel cmp fs v 0 (Some lo) (Some hi)")
  case True
  then show ?thesis by (simp add: PickLevelForMemTableOutput_def)
next
  case False
  obtain n where n: "PickLevel_loop cmp fs v lo hi 0 = Some n" "n \<le> kMaxMemCompactLevel"
    "\<forall>l. 0 < l \<and> l \<le> n \<longrightarrow> \<not> OverlapInLevel cmp fs v l (Some lo) (Some hi)"
    using PickLevel_loop_spec [OF assms, of 0] by auto
  have "\<not> file_overlaps cmp (Some lo) (Some hi) (fs f)" if "l \<le> n" "f \<in> set (level_files v l)" for l f
  proof -
    have "l < kNumLevels" using that(1) n(2) by (simp add: kMaxMemCompactLevel_def kNumLevels_def)
    moreover have "\<not> OverlapInLevel cmp fs v l (Some lo) (Some hi)" using n(3) False that(1) by (cases "l = 0") auto
    ultimately show ?thesis using OverlapInLevel_iff [OF assms(1) _ assms(2,3)] that(2) by blast
  qed
  then show ?thesis using n(1,2) False by (simp add: PickLevelForMemTableOutput_def)
qed

end
end
