(* ===== verification/VersionSet.thy ===== *)
theory VersionSet
  imports VersionProofs LogRecovery DbOptions FileNames
begin

text \<open>
  The \<open>VersionSet\<close> part of \<open>db/version_set.cpp\<close>: the list of live versions with the references they
  hold on files, the builder that applies edits, the manifest log and its recovery.

  A \<open>Version*\<close> and a \<open>FileMetaData*\<close> are addresses; \<open>vs_versions\<close> is the linked list from
  \<open>dummy_versions_.next_\<close> on, and \<open>vs_files\<close> the allocated files. \<open>descriptor_file_\<close> is the file inside
  \<open>descriptor_log_\<close>.
\<close>

record version_set =
  vs_dbpath :: string
  vs_dbname :: string
  vs_options :: options
  vs_cmp :: comparator
  vs_next_file_number :: u64
  vs_manifest_file_number :: u64
  vs_last_sequence :: u64
  vs_log_number :: u64
  vs_prev_log_number :: u64
  vs_descriptor_log :: "log_writer option"
  vs_versions :: "(nat \<times> version) list"
  vs_current :: "nat option"
  vs_fresh_version :: nat
  vs_files :: "fptr \<Rightarrow> file_meta option"
  vs_fresh_file :: fptr
  vs_compact_pointer :: "bytes list"

definition file_at :: "version_set \<Rightarrow> file_heap" where
  "file_at vs f = the (vs_files vs f)"

definition version_at :: "version_set \<Rightarrow> nat \<Rightarrow> version" where
  "version_at vs v = the (map_of (vs_versions vs) v)"

definition vs_current_version :: "version_set \<Rightarrow> version" where
  "vs_current_version vs = version_at vs (the (vs_current vs))"

section \<open>References\<close>

definition ref_file :: "fptr \<Rightarrow> version_set \<Rightarrow> version_set" where
  "ref_file f vs = (let m = file_at vs f in vs\<lparr>vs_files := (vs_files vs)(f := Some (m\<lparr>fm_refs := fm_refs m + 1\<rparr>))\<rparr>)"

definition unref_file :: "fptr \<Rightarrow> version_set \<Rightarrow> version_set" where
  "unref_file f vs =
     (let m = file_at vs f; m = m\<lparr>fm_refs := fm_refs m - 1\<rparr>
      in vs\<lparr>vs_files := (vs_files vs)(f := if fm_refs m \<le> 0 then None else Some m)\<rparr>)"

definition update_version :: "nat \<Rightarrow> version \<Rightarrow> version_set \<Rightarrow> version_set" where
  "update_version a v vs = vs\<lparr>vs_versions := map (\<lambda>(b, w). (b, if b = a then v else w)) (vs_versions vs)\<rparr>"

definition Version_Ref :: "nat \<Rightarrow> version_set \<Rightarrow> version_set" where
  "Version_Ref a vs = (let v = version_at vs a in update_version a (v\<lparr>ver_refs := ver_refs v + 1\<rparr>) vs)"

text \<open>The destructor takes the version out of the list and drops its files, level by level.\<close>

definition Version_delete :: "nat \<Rightarrow> version_set \<Rightarrow> version_set" where
  "Version_delete a vs =
     (let v = version_at vs a
      in fold unref_file (concat (ver_files v))
           (vs\<lparr>vs_versions := filter (\<lambda>(b, w). b \<noteq> a) (vs_versions vs)\<rparr>))"

definition Version_Unref :: "nat \<Rightarrow> version_set \<Rightarrow> version_set" where
  "Version_Unref a vs =
     (let v = version_at vs a; v = v\<lparr>ver_refs := ver_refs v - 1\<rparr>; vs = update_version a v vs
      in if ver_refs v = 0 then Version_delete a vs else vs)"

definition AppendVersion :: "version \<Rightarrow> version_set \<Rightarrow> version_set" where
  "AppendVersion v vs =
     (let vs = (case vs_current vs of None \<Rightarrow> vs | Some c \<Rightarrow> Version_Unref c vs);
          a = vs_fresh_version vs
      in vs\<lparr>vs_current := Some a, vs_fresh_version := a + 1,
            vs_versions := vs_versions vs @ [(a, v\<lparr>ver_refs := ver_refs v + 1\<rparr>)]\<rparr>)"

definition VersionSet_new :: "string \<Rightarrow> string \<Rightarrow> options \<Rightarrow> comparator \<Rightarrow> version_set" where
  "VersionSet_new dbpath dbname opt cmp =
     AppendVersion Version_new
       \<lparr>vs_dbpath = dbpath, vs_dbname = dbname, vs_options = opt, vs_cmp = cmp,
        vs_next_file_number = 2, vs_manifest_file_number = 0, vs_last_sequence = 0, vs_log_number = 0,
        vs_prev_log_number = 0, vs_descriptor_log = None, vs_versions = [], vs_current = None,
        vs_fresh_version = 0, vs_files = (\<lambda>_. None), vs_fresh_file = 0,
        vs_compact_pointer = replicate kNumLevels []\<rparr>"

section \<open>Numbers\<close>

definition NewFileNumber :: "version_set \<Rightarrow> u64 \<times> version_set" where
  "NewFileNumber vs = (vs_next_file_number vs, vs\<lparr>vs_next_file_number := vs_next_file_number vs + 1\<rparr>)"

definition ReuseFileNumber :: "u64 \<Rightarrow> version_set \<Rightarrow> version_set" where
  "ReuseFileNumber file_number vs =
     (if vs_next_file_number vs = file_number + 1 then vs\<lparr>vs_next_file_number := file_number\<rparr> else vs)"

definition MarkFileNumberUsed :: "u64 \<Rightarrow> version_set \<Rightarrow> version_set" where
  "MarkFileNumberUsed number vs =
     (if vs_next_file_number vs \<le> number then vs\<lparr>vs_next_file_number := number + 1\<rparr> else vs)"

definition VersionSet_SetLastSequence :: "u64 \<Rightarrow> version_set \<Rightarrow> version_set" where
  "VersionSet_SetLastSequence s vs = vs\<lparr>vs_last_sequence := s\<rparr>"

section \<open>The builder\<close>

text \<open>The \<open>std::set\<close>s are lists of their members: of numbers, and of files in the order of \<open>BySmallestKey\<close>.\<close>

record level_state =
  ls_deleted_files :: "u64 list"
  ls_added_files :: "fptr list"

record vs_builder =
  b_base :: nat
  b_levels :: "level_state list"

definition BySmallestKey :: "comparator \<Rightarrow> file_meta \<Rightarrow> file_meta \<Rightarrow> bool" where
  "BySmallestKey cmp f1 f2 =
     (let r = InternalKey_Compare cmp (fm_smallest f1) (fm_smallest f2)
      in if r \<noteq> 0 then r < 0 else fm_number f1 < fm_number f2)"

fun set_insert :: "('a \<Rightarrow> 'a \<Rightarrow> bool) \<Rightarrow> 'a \<Rightarrow> 'a list \<Rightarrow> 'a list" where
  "set_insert lt x [] = [x]"
| "set_insert lt x (y # ys) =
     (if lt x y then x # y # ys else if lt y x then y # set_insert lt x ys else y # ys)"

definition Builder_new :: "version_set \<Rightarrow> vs_builder \<times> version_set" where
  "Builder_new vs =
     (let base = the (vs_current vs)
      in (\<lparr>b_base = base, b_levels = replicate kNumLevels \<lparr>ls_deleted_files = [], ls_added_files = []\<rparr>\<rparr>,
          Version_Ref base vs))"

definition update_level :: "nat \<Rightarrow> (level_state \<Rightarrow> level_state) \<Rightarrow> vs_builder \<Rightarrow> vs_builder" where
  "update_level level f b = b\<lparr>b_levels := (b_levels b)[level := f (b_levels b ! level)]\<rparr>"

definition apply_deleted :: "nat \<times> u64 \<Rightarrow> vs_builder \<Rightarrow> vs_builder" where
  "apply_deleted p b =
     update_level (fst p) (\<lambda>l. l\<lparr>ls_deleted_files := List.insert (snd p) (ls_deleted_files l)\<rparr>) b"

text \<open>The number of seeks is the size divided by 16384 as an \<open>int\<close>, and at least 100.\<close>

definition initial_seeks :: "u64 \<Rightarrow> int" where
  "initial_seeks sz = (let n = sint (ucast (sz div 16384) :: 32 word) in if n < 100 then 100 else n)"

definition apply_new_file :: "nat \<times> file_meta \<Rightarrow> vs_builder \<times> version_set \<Rightarrow> vs_builder \<times> version_set" where
  "apply_new_file p st =
     (case st of (b, vs) \<Rightarrow>
        let level = fst p;
            m = (snd p)\<lparr>fm_refs := 1, fm_allowed_seeks := initial_seeks (fm_file_size (snd p))\<rparr>;
            f = vs_fresh_file vs;
            vs = vs\<lparr>vs_files := (vs_files vs)(f := Some m), vs_fresh_file := f + 1\<rparr>;
            b = update_level level (\<lambda>l. l\<lparr>ls_deleted_files := remove1 (fm_number m) (ls_deleted_files l)\<rparr>) b;
            b = update_level level
                  (\<lambda>l. l\<lparr>ls_added_files :=
                      set_insert (\<lambda>x y. BySmallestKey (vs_cmp vs) (file_at vs x) (file_at vs y)) f (ls_added_files l)\<rparr>) b
        in (b, vs))"

definition apply_pointer :: "nat \<times> bytes \<Rightarrow> version_set \<Rightarrow> version_set" where
  "apply_pointer p vs = vs\<lparr>vs_compact_pointer := (vs_compact_pointer vs)[fst p := snd p]\<rparr>"

definition Builder_Apply :: "version_edit \<Rightarrow> vs_builder \<times> version_set \<Rightarrow> vs_builder \<times> version_set" where
  "Builder_Apply edit st =
     (case st of (b, vs) \<Rightarrow>
        let vs = fold apply_pointer (ve_compact_pointers edit) vs;
            b = fold apply_deleted (ve_deleted_files edit) b
        in fold apply_new_file (ve_new_files edit) (b, vs))"

text \<open>The new version's files of a level, with the references taken. \<open>upper_bound\<close> runs over a sorted range.\<close>

definition MaybeAddFile :: "level_state \<Rightarrow> fptr \<Rightarrow> fptr list \<times> version_set \<Rightarrow> fptr list \<times> version_set" where
  "MaybeAddFile l f st =
     (case st of (files, vs) \<Rightarrow>
        if fm_number (file_at vs f) \<in> set (ls_deleted_files l) then (files, vs)
        else (files @ [f], ref_file f vs))"

fun merge_files :: "('a \<Rightarrow> 'a \<Rightarrow> bool) \<Rightarrow> 'a list \<Rightarrow> 'a list \<Rightarrow> 'a list" where
  "merge_files lt base [] = base"
| "merge_files lt base (a # added) =
     takeWhile (\<lambda>f. \<not> lt a f) base @ a # merge_files lt (dropWhile (\<lambda>f. \<not> lt a f) base) added"

definition save_level :: "comparator \<Rightarrow> level_state \<Rightarrow> fptr list \<Rightarrow> version_set \<Rightarrow> fptr list \<times> version_set" where
  "save_level cmp l base_files vs =
     fold (MaybeAddFile l)
       (merge_files (\<lambda>x y. BySmallestKey cmp (file_at vs x) (file_at vs y)) base_files (ls_added_files l)) ([], vs)"

fun save_levels ::
  "comparator \<Rightarrow> level_state list \<Rightarrow> fptr list list \<Rightarrow> version_set \<Rightarrow> fptr list list \<times> version_set" where
  "save_levels cmp (l # ls) (files # rest) vs =
     (let (fs, vs) = save_level cmp l files vs; (fss, vs) = save_levels cmp ls rest vs in (fs # fss, vs))"
| "save_levels cmp _ _ vs = ([], vs)"

definition Builder_SaveTo :: "vs_builder \<Rightarrow> version \<Rightarrow> version_set \<Rightarrow> version \<times> version_set" where
  "Builder_SaveTo b v vs =
     (let (files, vs) = save_levels (vs_cmp vs) (b_levels b) (ver_files (version_at vs (b_base b))) vs
      in (v\<lparr>ver_files := files\<rparr>, vs))"

definition Builder_delete :: "vs_builder \<Rightarrow> version_set \<Rightarrow> version_set" where
  "Builder_delete b vs =
     Version_Unref (b_base b) (fold unref_file (concat (map ls_added_files (b_levels b))) vs)"

section \<open>Scores\<close>

definition level_score :: "file_heap \<Rightarrow> version \<Rightarrow> nat \<Rightarrow> rat" where
  "level_score fs v level =
     (if level = 0 then of_nat (length (level_files v 0)) / of_nat kL0_CompactionTrigger
      else of_int (uint (word_of_int (TotalFileSize (level_metas fs v level)) :: u64)) / of_nat (MaxBytesForLevel level))"

definition best_step :: "file_heap \<Rightarrow> version \<Rightarrow> nat \<Rightarrow> int \<times> rat \<Rightarrow> int \<times> rat" where
  "best_step fs v level best =
     (if level_score fs v level > snd best then (int level, level_score fs v level) else best)"

definition Finalize :: "file_heap \<Rightarrow> version \<Rightarrow> version" where
  "Finalize fs v =
     (let best = fold (best_step fs v) [0..<kNumLevels - 1] (-1, -1)
      in v\<lparr>ver_compaction_level := fst best, ver_compaction_score := snd best\<rparr>)"

definition NeedsCompaction :: "version_set \<Rightarrow> bool" where
  "NeedsCompaction vs =
     (let v = vs_current_version vs in ver_compaction_score v \<ge> 1 \<or> ver_file_to_compact v \<noteq> None)"

section \<open>The manifest\<close>

text \<open>
  \<open>PosixWritableFile::Sync\<close>: the directory of a manifest first, then the file; each takes one
  answer of the system.
\<close>

definition wf_Sync :: "writable_file \<Rightarrow> status \<times> writable_file" where
  "wf_Sync f =
     (let base = rev (takeWhile (\<lambda>c. c \<noteq> CHR ''/'') (rev (wf_name f)));
          has_dir = CHR ''/'' \<in> set (wf_name f);
          dir = (if has_dir then take (length (wf_name f) - length base - 1) (wf_name f) else ''.'')
      in if end_with base ''manifest'' then
           (let (a, as) = next_answer (wf_answers f); f = f\<lparr>wf_answers := as\<rparr>
            in if a \<noteq> None then (IOError dir, f) else wf_Flush f)
         else wf_Flush f)"

definition WriteSnapshot :: "log_writer \<Rightarrow> version_set \<Rightarrow> status \<times> log_writer" where
  "WriteSnapshot dlog vs =
     (let edit = SetComparatorName (map of_char (cmp_Name (vs_cmp vs))) VersionEdit_new;
          edit = fold (\<lambda>level e.
                   if vs_compact_pointer vs ! level \<noteq> [] then SetCompactPointer level (vs_compact_pointer vs ! level) e else e)
                   [0..<kNumLevels] edit;
          v = vs_current_version vs;
          edit = fold (\<lambda>level. fold (\<lambda>f.
                   AddFile level (fm_number (file_at vs f)) (fm_file_size (file_at vs f)) (fm_smallest (file_at vs f))
                     (fm_largest (file_at vs f))) (level_files v level)) [0..<kNumLevels] edit
      in AddRecord (VersionEdit_EncodeTo [] edit) dlog)"

text \<open>The calls on the environment, by file name.\<close>

record env_files =
  env_NewSequentialFile :: "string \<Rightarrow> status + sequential_file"
  env_NewWritableFile :: "string \<Rightarrow> status + writable_file"
  env_NewAppendableFile :: "string \<Rightarrow> status + writable_file"
  env_GetFileSize :: "string \<Rightarrow> u64 option"

text \<open>The fields of the edit that \<open>LogAndApply\<close> fills in.\<close>

definition complete_edit :: "version_set \<Rightarrow> version_edit \<Rightarrow> version_edit" where
  "complete_edit vs edit =
     (let edit = (if ve_has_log_number edit then edit else SetLogNumber (vs_log_number vs) edit);
          edit = (if ve_has_prev_log_number edit then edit else SetPrevLogNumber (vs_prev_log_number vs) edit)
      in SetLastSequence (vs_last_sequence vs) (SetNextFile (vs_next_file_number vs) edit))"

text \<open>
  The version the edit makes from the current one; it is not yet in the list. The mutex is released
  during the write of the manifest, while no other thread calls \<open>LogAndApply\<close>.
\<close>

definition apply_edit :: "version_edit \<Rightarrow> version_set \<Rightarrow> version \<times> version_set" where
  "apply_edit edit vs =
     (let (b, vs) = Builder_new vs;
          (b, vs) = Builder_Apply edit (b, vs);
          (v, vs) = Builder_SaveTo b Version_new vs;
          vs = Builder_delete b vs
      in (Finalize (file_at vs) v, vs))"

text \<open>The first call makes a manifest with a snapshot of the current version.\<close>

definition open_manifest :: "env_files \<Rightarrow> version_set \<Rightarrow> status \<times> string option \<times> log_writer option" where
  "open_manifest env vs =
     (case vs_descriptor_log vs of
        Some dlog \<Rightarrow> (OK, None, Some dlog)
      | None \<Rightarrow>
          let name = DescriptorFileName (vs_dbpath vs) (vs_dbname vs) (vs_manifest_file_number vs)
          in (case env_NewWritableFile env name of
                Inl s \<Rightarrow> (s, Some name, None)
              | Inr f \<Rightarrow> (let (s, dlog) = WriteSnapshot (Writer_new f) vs in (s, Some name, Some dlog))))"

definition write_manifest :: "version_edit \<Rightarrow> log_writer \<Rightarrow> status \<times> log_writer" where
  "write_manifest edit dlog =
     (let (s, dlog) = AddRecord (VersionEdit_EncodeTo [] edit) dlog
      in if status_ok s then (let (s, f) = wf_Sync (lw_dest dlog) in (s, dlog\<lparr>lw_dest := f\<rparr>)) else (s, dlog))"

text \<open>The third part of the result lists the names of the files that are deleted.\<close>

definition LogAndApply ::
  "env_files \<Rightarrow> version_edit \<Rightarrow> version_set \<Rightarrow> status \<times> version_set \<times> string list" where
  "LogAndApply env edit vs =
     (let edit = complete_edit vs edit;
          (v, vs) = apply_edit edit vs;
          (s, new_manifest_file, dlog) = open_manifest env vs;
          (s, dlog) = (case dlog of
                        Some l \<Rightarrow> if status_ok s then (let (s, l) = write_manifest edit l in (s, Some l)) else (s, Some l)
                      | None \<Rightarrow> (s, None));
          s = (if status_ok s \<and> new_manifest_file \<noteq> None
               then SetCurrentFile (vs_dbpath vs) (vs_dbname vs) (vs_manifest_file_number vs) else s);
          vs = vs\<lparr>vs_descriptor_log := dlog\<rparr>
      in if status_ok s then
           (s, (AppendVersion v vs)\<lparr>vs_log_number := ve_log_number edit, vs_prev_log_number := ve_prev_log_number edit\<rparr>, [])
         else
           (let vs = fold unref_file (concat (ver_files v)) vs
            in case new_manifest_file of
                 Some name \<Rightarrow> (s, vs\<lparr>vs_descriptor_log := None\<rparr>, [name])
               | None \<Rightarrow> (s, vs, [])))"

section \<open>Recovery\<close>

text \<open>What the records of the manifest have set so far; \<open>None\<close> for a \<open>have_\<close> flag that is false.\<close>

record recovered =
  rc_log_number :: "u64 option"
  rc_prev_log_number :: "u64 option"
  rc_next_file :: "u64 option"
  rc_last_sequence :: "u64 option"

definition field_set :: "bool \<Rightarrow> u64 \<Rightarrow> u64 option \<Rightarrow> u64 option" where
  "field_set has n old = (if has then Some n else old)"

type_synonym recover_state = "status \<times> recovered \<times> vs_builder \<times> version_set"

text \<open>One record: the numbers of the edit are taken even when it does not decode.\<close>

definition recover_record :: "bytes \<Rightarrow> recover_state \<Rightarrow> recover_state" where
  "recover_record rec st =
     (case st of (s, n, b, vs) \<Rightarrow>
        let (s, edit) = VersionEdit_DecodeFrom rec VersionEdit_new;
            s = (if status_ok s \<and> ve_has_comparator edit \<and> ve_comparator edit \<noteq> map of_char (cmp_Name (vs_cmp vs))
                 then InvalidArgument (status_msg
                   (map (char_of \<circ> unat) (ve_comparator edit) @ '' does not match existing comparator '') (cmp_Name (vs_cmp vs)))
                 else s);
            (b, vs) = (if status_ok s then Builder_Apply edit (b, vs) else (b, vs));
            n = \<lparr>rc_log_number = field_set (ve_has_log_number edit) (ve_log_number edit) (rc_log_number n),
                 rc_prev_log_number = field_set (ve_has_prev_log_number edit) (ve_prev_log_number edit) (rc_prev_log_number n),
                 rc_next_file = field_set (ve_has_next_file_number edit) (ve_next_file_number edit) (rc_next_file n),
                 rc_last_sequence = field_set (ve_has_last_sequence edit) (ve_last_sequence edit) (rc_last_sequence n)\<rparr>
        in (s, n, b, vs))"

text \<open>The reporter keeps the first corruption, and only while the status is ok.\<close>

definition reported :: "log_reader \<Rightarrow> log_reader \<Rightarrow> status \<Rightarrow> status" where
  "reported r r' s =
     (if status_ok s then
        (case drop (length (lr_reports r)) (lr_reports r') of [] \<Rightarrow> s | (_, e) # _ \<Rightarrow> e)
      else s)"

function recover_loop :: "log_reader \<Rightarrow> recover_state \<Rightarrow> recover_state" where
  "recover_loop r st =
     (let (ok, rec, r') = ReadRecord r; (s, n, b, vs) = st; s = reported r r' s
      in if ok \<and> status_ok s then recover_loop r' (recover_record rec (s, n, b, vs)) else (s, n, b, vs))"
  by pat_completeness auto
termination
  by (relation "measure (\<lambda>(r, st). reader_size r)") (auto dest!: ReadRecord_size [OF sym])

declare recover_loop.simps [simp del]

text \<open>
  \<open>ReuseManifest\<close> puts the path in front of a name that already has it. The new descriptor log starts
  at the manifest's size.
\<close>

definition ReuseManifest :: "env_files \<Rightarrow> string \<Rightarrow> version_set \<Rightarrow> bool \<times> version_set" where
  "ReuseManifest env dscname vs =
     (if \<not> opt_reuse_logs (vs_options vs) then (False, vs)
      else
        (case env_GetFileSize env (vs_dbpath vs @ dscname) of
           None \<Rightarrow> (False, vs)
         | Some manifest_size \<Rightarrow>
             if manifest_size \<ge> word_of_nat kTargetFileSize then (False, vs)
             else
               (case env_NewAppendableFile env (vs_dbpath vs @ dscname) of
                  Inl s \<Rightarrow> (False, vs)
                | Inr f \<Rightarrow>
                    (True, vs\<lparr>vs_descriptor_log := Some (Writer_new_at f manifest_size), vs_manifest_file_number := 1\<rparr>))))"

definition recovered_status :: "recovered \<Rightarrow> status" where
  "recovered_status n =
     (if rc_next_file n = None then Corruption ''no meta-nextfile entry in descriptor''
      else if rc_log_number n = None then Corruption ''no meta-lognumber entry in descriptor''
      else if rc_last_sequence n = None then Corruption ''no last-sequence-number entry in descriptor''
      else OK)"

definition number_or_zero :: "u64 option \<Rightarrow> u64" where
  "number_or_zero n = (case n of None \<Rightarrow> 0 | Some n \<Rightarrow> n)"

text \<open>The result: the status, whether \<open>*save_manifest\<close> was set, and the state.\<close>

definition VersionSet_Recover :: "env_files \<Rightarrow> version_set \<Rightarrow> status \<times> bool \<times> version_set" where
  "VersionSet_Recover env vs =
     (let dscname = DescriptorFileName (vs_dbpath vs) (vs_dbname vs) 1
      in case env_NewSequentialFile env dscname of
           Inl s \<Rightarrow> (s, False, vs)
         | Inr file \<Rightarrow>
             let (b, vs) = Builder_new vs;
                 none = \<lparr>rc_log_number = None, rc_prev_log_number = None, rc_next_file = None, rc_last_sequence = None\<rparr>;
                 (s, n, b, vs) = recover_loop (Reader_new file True 0) (OK, none, b, vs);
                 (s, vs) = (if status_ok s then
                              (recovered_status n,
                               MarkFileNumberUsed (number_or_zero (rc_log_number n))
                                 (MarkFileNumberUsed (number_or_zero (rc_prev_log_number n)) vs))
                            else (s, vs))
             in if status_ok s then
                  let (v, vs) = Builder_SaveTo b Version_new vs;
                      vs = AppendVersion (Finalize (file_at vs) v) vs;
                      next_file = number_or_zero (rc_next_file n);
                      vs = vs\<lparr>vs_manifest_file_number := next_file, vs_next_file_number := next_file + 1,
                              vs_last_sequence := number_or_zero (rc_last_sequence n),
                              vs_log_number := number_or_zero (rc_log_number n),
                              vs_prev_log_number := number_or_zero (rc_prev_log_number n)\<rparr>;
                      (reused, vs) = ReuseManifest env dscname vs
                  in (s, \<not> reused, Builder_delete b vs)
                else (s, False, Builder_delete b vs))"

section \<open>Queries\<close>

definition NumLevelFiles :: "version_set \<Rightarrow> nat \<Rightarrow> nat" where
  "NumLevelFiles vs level = length (level_files (vs_current_version vs) level)"

definition NumLevelBytes :: "version_set \<Rightarrow> nat \<Rightarrow> int" where
  "NumLevelBytes vs level = TotalFileSize (level_metas (file_at vs) (vs_current_version vs) level)"

definition LevelSummary :: "version_set \<Rightarrow> string" where
  "LevelSummary vs =
     take 99 (''files[ '' @ concat (map (\<lambda>level. show_nat (NumLevelFiles vs level) @ '' '') [0..<kNumLevels]) @ '']'')"

text \<open>The set of numbers as the list of insertions.\<close>

definition AddLiveFiles :: "version_set \<Rightarrow> u64 list \<Rightarrow> u64 list" where
  "AddLiveFiles vs live =
     fold (\<lambda>(a, v). fold (\<lambda>f. List.insert (fm_number (file_at vs f))) (concat (ver_files v))) (vs_versions vs) live"

text \<open>\<open>offset\<close> is \<open>ApproximateOffsetOf\<close> of the table with a number and size, when it can be opened.\<close>

fun offset_files :: "comparator \<Rightarrow> (u64 \<Rightarrow> u64 \<Rightarrow> u64 option) \<Rightarrow> nat \<Rightarrow> bytes \<Rightarrow> file_meta list \<Rightarrow> u64 \<Rightarrow> u64" where
  "offset_files cmp offset level key [] result = result"
| "offset_files cmp offset level key (f # rest) result =
     (if InternalKey_Compare cmp (fm_largest f) key \<le> 0
      then offset_files cmp offset level key rest (result + fm_file_size f)
      else if InternalKey_Compare cmp (fm_smallest f) key > 0
      then (if level > 0 then result else offset_files cmp offset level key rest result)
      else
        offset_files cmp offset level key rest
          (case offset (fm_number f) (fm_file_size f) of None \<Rightarrow> result | Some n \<Rightarrow> result + n))"

definition VersionSet_ApproximateOffsetOf ::
  "(u64 \<Rightarrow> u64 \<Rightarrow> u64 option) \<Rightarrow> version_set \<Rightarrow> version \<Rightarrow> bytes \<Rightarrow> u64" where
  "VersionSet_ApproximateOffsetOf offset vs v key =
     fold (\<lambda>level. offset_files (vs_cmp vs) offset level key (level_metas (file_at vs) v level)) [0..<kNumLevels] 0"

text \<open>\<open>None\<close> when a search for overlapping files does not end.\<close>

definition MaxNextLevelOverlappingBytes :: "version_set \<Rightarrow> int option" where
  "MaxNextLevelOverlappingBytes vs =
     (let v = vs_current_version vs
      in fold (\<lambda>level result. fold (\<lambda>f result. do {
             best \<leftarrow> result;
             overlaps \<leftarrow> GetOverlappingInputs (vs_cmp vs) (file_at vs) v (level + 1)
               (Some (fm_smallest (file_at vs f))) (Some (fm_largest (file_at vs f)));
             Some (max best (TotalFileSize (map (file_at vs) overlaps))) }) (level_files v level) result)
           [1..<kNumLevels - 1] (Some 0))"

end
