(* ===== verification/VersionRefs.thy ===== *)
theory VersionRefs
  imports VersionSet "HOL-Library.Multiset"
begin

text \<open>
  The references of a version set: a version lives while it is referenced, and the files of a live
  version are allocated. \<open>extra\<close> are the references on files held outside versions (by a builder, or
  by a version that is not in the list yet), \<open>pins\<close> those on versions: the current one, and those
  of builders, compactions, readers and iterators.
\<close>

definition refs_held :: "version_set \<Rightarrow> fptr \<Rightarrow> nat" where
  "refs_held vs f = sum_list (map (\<lambda>(a, v). count_list (concat (ver_files v)) f) (vs_versions vs))"

definition vs_inv :: "version_set \<Rightarrow> fptr multiset \<Rightarrow> nat multiset \<Rightarrow> bool" where
  "vs_inv vs extra pins \<longleftrightarrow>
     distinct (map fst (vs_versions vs)) \<and> (\<forall>a\<in>fst ` set (vs_versions vs). a < vs_fresh_version vs) \<and>
     (\<forall>(a, v)\<in>set (vs_versions vs). 0 < ver_refs v \<and> count pins a \<le> ver_refs v) \<and>
     set_mset pins \<subseteq> fst ` set (vs_versions vs) \<and>
     (\<forall>f. 0 < refs_held vs f + count extra f \<longrightarrow>
        (\<exists>m. vs_files vs f = Some m \<and> refs_held vs f + count extra f \<le> fm_refs m)) \<and>
     (\<forall>f. vs_fresh_file vs \<le> f \<longrightarrow> vs_files vs f = None)"

lemma vs_invD:
  assumes "vs_inv vs extra pins"
  shows "distinct (map fst (vs_versions vs))" "a \<in> fst ` set (vs_versions vs) \<Longrightarrow> a < vs_fresh_version vs"
    "(a, v) \<in> set (vs_versions vs) \<Longrightarrow> 0 < ver_refs v \<and> count pins a \<le> ver_refs v"
    "a \<in># pins \<Longrightarrow> a \<in> fst ` set (vs_versions vs)"
    "0 < refs_held vs f + count extra f \<Longrightarrow> \<exists>m. vs_files vs f = Some m \<and> refs_held vs f + count extra f \<le> fm_refs m"
    "vs_fresh_file vs \<le> f \<Longrightarrow> vs_files vs f = None"
  using assms by (auto simp: vs_inv_def)

lemma vs_inv_filesI:
  assumes "vs_inv vs extra pins" "vs_versions vs' = vs_versions vs" "vs_fresh_version vs' = vs_fresh_version vs"
    and "\<And>f. 0 < refs_held vs f + count extra' f \<Longrightarrow> \<exists>m. vs_files vs' f = Some m \<and> refs_held vs f + count extra' f \<le> fm_refs m"
    and "\<And>f. vs_fresh_file vs' \<le> f \<Longrightarrow> vs_files vs' f = None"
  shows "vs_inv vs' extra' pins"
proof -
  have "refs_held vs' = refs_held vs" by (simp add: refs_held_def assms(2) fun_eq_iff)
  then show ?thesis using assms unfolding vs_inv_def by (simp only:) blast
qed

lemma vs_inv_mono: "vs_inv vs extra pins \<Longrightarrow> extra' \<subseteq># extra \<Longrightarrow> vs_inv vs extra' pins"
proof -
  assume i: "vs_inv vs extra pins" and le: "extra' \<subseteq># extra"
  have "count extra' f \<le> count extra f" for f using le by (simp add: subseteq_mset_def)
  moreover have "\<exists>m. vs_files vs f = Some m \<and> refs_held vs f + count extra' f \<le> fm_refs m"
    if p: "0 < refs_held vs f + count extra' f" for f
  proof -
    have "count extra' f \<le> count extra f" using le by (simp add: subseteq_mset_def)
    then show ?thesis using vs_invD(5) [OF i, of f] p by fastforce
  qed
  ultimately show ?thesis using i by (simp add: vs_inv_def)
qed

lemma vs_inv_pins_mono: "vs_inv vs extra pins \<Longrightarrow> pins' \<subseteq># pins \<Longrightarrow> vs_inv vs extra pins'"
proof -
  assume i: "vs_inv vs extra pins" and le: "pins' \<subseteq># pins"
  have "count pins' a \<le> count pins a" for a using le by (simp add: subseteq_mset_def)
  then have "\<forall>(a, v)\<in>set (vs_versions vs). 0 < ver_refs v \<and> count pins' a \<le> ver_refs v"
    using vs_invD(3) [OF i] by (fastforce intro: order_trans)
  then show ?thesis using i set_mset_mono [OF le] by (auto simp: vs_inv_def)
qed

section \<open>Files\<close>

lemma refs_held_files [simp]: "refs_held (vs\<lparr>vs_files := x\<rparr>) f = refs_held vs f"
  by (simp add: refs_held_def)

lemma unref_file_inv: "vs_inv vs (add_mset f extra) pins \<Longrightarrow> vs_inv (unref_file f vs) extra pins"
proof -
  assume i: "vs_inv vs (add_mset f extra) pins"
  obtain m where m: "vs_files vs f = Some m" "refs_held vs f + count extra f + 1 \<le> fm_refs m"
    using vs_invD(5) [OF i, of f] by auto
  have "\<exists>m. vs_files (unref_file f vs) g = Some m \<and> refs_held vs g + count extra g \<le> fm_refs m"
    if "0 < refs_held vs g + count extra g" for g
  proof (cases "g = f")
    case True
    have "0 < refs_held vs f + count extra f" using that True by (simp only:)
    then have "1 < fm_refs m" using m(2) by linarith
    then show ?thesis using True m by (simp add: unref_file_def file_at_def Let_def)
  next
    case False
    then show ?thesis using vs_invD(5) [OF i, of g] that by (simp add: unref_file_def file_at_def Let_def)
  qed
  moreover have "vs_files (unref_file f vs) g = None" if "vs_fresh_file vs \<le> g" for g
    using vs_invD(6) [OF i that] m(1) by (auto simp: unref_file_def Let_def)
  ultimately show ?thesis using i by (simp add: vs_inv_def unref_file_def Let_def)
qed

lemma unref_files_inv: "vs_inv vs (mset fs + extra) pins \<Longrightarrow> vs_inv (fold unref_file fs vs) extra pins"
  by (induction fs arbitrary: vs) (auto intro: unref_file_inv)

lemma ref_file_inv:
  assumes i: "vs_inv vs extra pins" and f: "0 < refs_held vs f + count extra f"
  shows "vs_inv (ref_file f vs) (add_mset f extra) pins"
proof -
  obtain m where m: "vs_files vs f = Some m" "refs_held vs f + count extra f \<le> fm_refs m" using vs_invD(5) [OF i f] by auto
  have "\<exists>m. vs_files (ref_file f vs) g = Some m \<and> refs_held vs g + count (add_mset f extra) g \<le> fm_refs m"
    if "0 < refs_held vs g + count (add_mset f extra) g" for g
  proof (cases "g = f")
    case True
    then show ?thesis using m by (simp add: ref_file_def file_at_def Let_def)
  next
    case False
    then show ?thesis using vs_invD(5) [OF i, of g] that by (simp add: ref_file_def file_at_def Let_def)
  qed
  moreover have "vs_files (ref_file f vs) g = None" if "vs_fresh_file vs \<le> g" for g
    using vs_invD(6) [OF i that] m(1) by (auto simp: ref_file_def Let_def)
  ultimately show ?thesis using i by (simp add: vs_inv_def ref_file_def Let_def)
qed

text \<open>What a file says about its table does not change while it is allocated.\<close>

definition file_info :: "file_meta \<Rightarrow> u64 \<times> u64 \<times> bytes \<times> bytes" where
  "file_info m = (fm_number m, fm_file_size m, fm_smallest m, fm_largest m)"

definition same_files :: "version_set \<Rightarrow> version_set \<Rightarrow> bool" where
  "same_files vs vs' \<longleftrightarrow> (\<forall>f m m'. vs_files vs f = Some m \<longrightarrow> vs_files vs' f = Some m' \<longrightarrow> file_info m' = file_info m) \<and>
     (\<forall>f. vs_files vs f = None \<longrightarrow> f < vs_fresh_file vs \<longrightarrow> vs_files vs' f = None) \<and> vs_fresh_file vs \<le> vs_fresh_file vs'"

lemma same_files_refl [simp]: "same_files vs vs"
  by (simp add: same_files_def)

lemma same_files_trans:
  assumes "same_files a b" "same_files b c" "\<forall>f. vs_fresh_file a \<le> f \<longrightarrow> vs_files a f = None"
  shows "same_files a c"
proof -
  have "file_info m' = file_info m" if m: "vs_files a f = Some m" "vs_files c f = Some m'" for f m m'
  proof -
    have f: "f < vs_fresh_file b" using m(1) assms by (metis linorder_not_le option.distinct(1) same_files_def order_trans)
    show ?thesis
    proof (cases "vs_files b f")
      case None
      then show ?thesis using assms(2) f m(2) by (simp add: same_files_def)
    next
      case (Some n)
      then show ?thesis using assms(1,2) m by (metis same_files_def)
    qed
  qed
  moreover have "vs_files c f = None" if "vs_files a f = None" "f < vs_fresh_file a" for f
    using assms(1,2) that unfolding same_files_def by (meson order_less_le_trans)
  ultimately show ?thesis using assms(1,2) unfolding same_files_def by (meson order_trans)
qed

lemma file_info_refs [simp]: "file_info (m\<lparr>fm_refs := n\<rparr>) = file_info m"
  by (simp add: file_info_def)

lemma same_files_unref: "vs_files vs f \<noteq> None \<Longrightarrow> same_files vs (unref_file f vs)"
  by (auto simp: same_files_def unref_file_def Let_def file_at_def)

lemma same_files_ref: "vs_files vs f \<noteq> None \<Longrightarrow> same_files vs (ref_file f vs)"
  by (auto simp: same_files_def ref_file_def Let_def file_at_def)

lemma unref_files_same:
  "vs_inv vs (mset fs + extra) pins \<Longrightarrow> same_files vs (fold unref_file fs vs)"
proof (induction fs arbitrary: vs)
  case (Cons f fs)
  have i: "vs_inv (unref_file f vs) (mset fs + extra) pins" by (rule unref_file_inv) (use Cons.prems in simp)
  have "vs_files vs f \<noteq> None" using vs_invD(5) [OF Cons.prems, of f] by auto
  then show ?case using same_files_trans [OF same_files_unref Cons.IH [OF i]] vs_invD(6) [OF Cons.prems] by simp
qed simp

section \<open>Versions\<close>

lemma version_at_in: "a \<in> fst ` set (vs_versions vs) \<Longrightarrow> (a, version_at vs a) \<in> set (vs_versions vs)"
  by (metis map_of_SomeD map_of_eq_None_iff option.collapse version_at_def)

lemma version_at_eq:
  "distinct (map fst (vs_versions vs)) \<Longrightarrow> (a, v) \<in> set (vs_versions vs) \<Longrightarrow> version_at vs a = v"
  by (simp add: version_at_def)

lemma refs_held_in: "(a, v) \<in> set (vs_versions vs) \<Longrightarrow> f \<in> set (concat (ver_files v)) \<Longrightarrow> 0 < refs_held vs f"
proof -
  assume a: "(a, v) \<in> set (vs_versions vs)" "f \<in> set (concat (ver_files v))"
  then have "0 < count_list (concat (ver_files v)) f" by (simp only: count_list_0_iff neq0_conv [symmetric]) simp
  moreover have "count_list (concat (ver_files v)) f \<le> refs_held vs f"
    unfolding refs_held_def by (rule member_le_sum_list) (use a in force, simp)
  ultimately show ?thesis by simp
qed

text \<open>The files of a live version are allocated.\<close>

lemma live_files:
  "vs_inv vs extra pins \<Longrightarrow> (a, v) \<in> set (vs_versions vs) \<Longrightarrow> f \<in> set (concat (ver_files v)) \<Longrightarrow>
   \<exists>m. vs_files vs f = Some m \<and> 0 < fm_refs m"
proof -
  assume i: "vs_inv vs extra pins" and a: "(a, v) \<in> set (vs_versions vs)" "f \<in> set (concat (ver_files v))"
  have "0 < refs_held vs f" by (rule refs_held_in [OF a])
  then show ?thesis using vs_invD(5) [OF i, of f] by fastforce
qed

lemma update_version_list:
  "vs_versions (update_version a w vs) = map (\<lambda>(b, v). (b, if b = a then w else v)) (vs_versions vs)"
  by (simp add: update_version_def)

lemma fst_update_version [simp]: "map fst (vs_versions (update_version a w vs)) = map fst (vs_versions vs)"
  by (auto simp: update_version_def)

lemma refs_held_update_version:
  "distinct (map fst (vs_versions vs)) \<Longrightarrow> ver_files w = ver_files (version_at vs a) \<Longrightarrow>
   refs_held (update_version a w vs) f = refs_held vs f"
proof -
  assume d: "distinct (map fst (vs_versions vs))" and w: "ver_files w = ver_files (version_at vs a)"
  have "map (\<lambda>(b, v). count_list (concat (ver_files v)) f) (vs_versions (update_version a w vs)) =
      map (\<lambda>(b, v). count_list (concat (ver_files v)) f) (vs_versions vs)"
    unfolding update_version_list map_map
    by (rule map_cong [OF refl]) (use version_at_eq [OF d] w in auto)
  then show ?thesis by (simp add: refs_held_def)
qed

lemma update_refs_inv:
  assumes i: "vs_inv vs extra pins" and r: "0 < n" "count pins' a \<le> n"
    and p: "\<And>b. b \<noteq> a \<Longrightarrow> count pins' b \<le> count pins b" "a \<in> fst ` set (vs_versions vs)"
  shows "vs_inv (update_version a ((version_at vs a)\<lparr>ver_refs := n\<rparr>) vs) extra pins'"
proof -
  let ?vs = "update_version a ((version_at vs a)\<lparr>ver_refs := n\<rparr>) vs"
  have fsts: "fst ` set (vs_versions ?vs) = fst ` set (vs_versions vs)"
    using arg_cong [OF fst_update_version, of set] by (simp only: set_map)
  have h: "refs_held ?vs = refs_held vs" using refs_held_update_version [OF vs_invD(1) [OF i]] by (simp add: fun_eq_iff)
  have "0 < ver_refs v \<and> count pins' b \<le> ver_refs v" if bv: "(b, v) \<in> set (vs_versions ?vs)" for b v
  proof (cases "b = a")
    case True
    then show ?thesis using bv r by (auto simp: update_version_list)
  next
    case False
    then have "(b, v) \<in> set (vs_versions vs)" using bv by (auto simp: update_version_list)
    then show ?thesis using vs_invD(3) [OF i] p(1) [OF False] by (meson order_trans)
  qed
  moreover have "set_mset pins' \<subseteq> fst ` set (vs_versions ?vs)"
  proof
    fix b assume b: "b \<in># pins'"
    show "b \<in> fst ` set (vs_versions ?vs)"
    proof (cases "b = a")
      case False
      have "0 < count pins' b" using b by simp
      then have "0 < count pins b" using p(1) [OF False] by linarith
      then have "b \<in># pins" by simp
      then show ?thesis using vs_invD(4) [OF i] fsts by blast
    qed (use p(2) fsts in simp)
  qed
  moreover have "vs_files ?vs = vs_files vs" "vs_fresh_file ?vs = vs_fresh_file vs" "vs_fresh_version ?vs = vs_fresh_version vs"
    by (simp_all add: update_version_def)
  ultimately show ?thesis
    using i unfolding vs_inv_def fsts h fst_update_version by auto
qed

lemma Version_Ref_inv:
  assumes "vs_inv vs extra pins" "a \<in> fst ` set (vs_versions vs)"
  shows "vs_inv (Version_Ref a vs) extra (add_mset a pins)"
  unfolding Version_Ref_def Let_def
  by (rule update_refs_inv [OF assms(1)]) (use vs_invD(3) [OF assms(1) version_at_in [OF assms(2)]] assms(2) in auto)

lemma refs_held_remove:
  assumes "distinct (map fst (vs_versions vs))" "a \<in> fst ` set (vs_versions vs)"
  shows "refs_held (vs\<lparr>vs_versions := filter (\<lambda>(b, w). b \<noteq> a) (vs_versions vs)\<rparr>) f + count (mset (concat (ver_files (version_at vs a)))) f = refs_held vs f"
proof -
  have "sum_list (map g (filter (\<lambda>(b, w). b \<noteq> a) xs)) + g (a, the (map_of xs a)) = sum_list (map g xs)"
    if "distinct (map fst xs)" "a \<in> fst ` set xs" for xs :: "(nat \<times> version) list" and g :: "nat \<times> version \<Rightarrow> nat"
    using that
  proof (induction xs)
    case (Cons x xs)
    show ?case
    proof (cases "fst x = a")
      case True
      have "b \<noteq> a" if "(b, w) \<in> set xs" for b w
        using True Cons.prems(1) that by (metis distinct.simps(2) fst_conv image_eqI list.map(2) list.set_map)
      then have "filter (\<lambda>(b, w). b \<noteq> a) xs = xs" by (auto simp: filter_id_conv)
      then show ?thesis using True by (cases x) auto
    next
      case False
      then show ?thesis using Cons by (cases x) auto
    qed
  qed simp
  from this [OF assms, of "\<lambda>(b, v). count_list (concat (ver_files v)) f"] show ?thesis
    by (simp add: refs_held_def version_at_def count_mset)
qed

lemma Version_delete_inv:
  assumes i: "vs_inv vs extra pins" and a: "a \<in> fst ` set (vs_versions vs)" "a \<notin># pins"
  shows "vs_inv (Version_delete a vs) extra pins"
    "same_files vs (Version_delete a vs)"
proof -
  let ?fs = "concat (ver_files (version_at vs a))"
  let ?vs = "vs\<lparr>vs_versions := filter (\<lambda>(b, w). b \<noteq> a) (vs_versions vs)\<rparr>"
  have h: "refs_held ?vs f + count (mset ?fs + extra) f = refs_held vs f + count extra f" for f
    using refs_held_remove [OF vs_invD(1) [OF i] a(1), of f] by simp
  have p: "set_mset pins \<subseteq> fst ` set (vs_versions ?vs)"
  proof
    fix b assume b: "b \<in># pins"
    then have "(b, version_at vs b) \<in> set (vs_versions vs)" using vs_invD(4) [OF i] version_at_in by blast
    then show "b \<in> fst ` set (vs_versions ?vs)" using b a(2) by force
  qed
  have j: "vs_inv ?vs (mset ?fs + extra) pins"
    unfolding vs_inv_def h using i p by (auto simp: vs_inv_def distinct_map_filter)
  show "vs_inv (Version_delete a vs) extra pins"
    unfolding Version_delete_def Let_def by (rule unref_files_inv [OF j])
  have "same_files ?vs (fold unref_file ?fs ?vs)" by (rule unref_files_same [OF j])
  then show "same_files vs (Version_delete a vs)" by (simp add: Version_delete_def Let_def same_files_def)
qed

text \<open>The rest of the state.\<close>

definition vs_frame :: "version_set \<Rightarrow> version_set \<Rightarrow> bool" where
  "vs_frame vs vs' \<longleftrightarrow> vs'\<lparr>vs_versions := vs_versions vs, vs_files := vs_files vs\<rparr> = vs"

lemma vs_frame_refl [simp]: "vs_frame vs vs"
  by (simp add: vs_frame_def)

lemma vs_frameD:
  assumes "vs_frame vs vs'"
  shows "vs_dbpath vs' = vs_dbpath vs" "vs_dbname vs' = vs_dbname vs" "vs_options vs' = vs_options vs"
    "vs_cmp vs' = vs_cmp vs" "vs_next_file_number vs' = vs_next_file_number vs"
    "vs_manifest_file_number vs' = vs_manifest_file_number vs" "vs_last_sequence vs' = vs_last_sequence vs"
    "vs_log_number vs' = vs_log_number vs" "vs_prev_log_number vs' = vs_prev_log_number vs"
    "vs_descriptor_log vs' = vs_descriptor_log vs" "vs_current vs' = vs_current vs"
    "vs_fresh_version vs' = vs_fresh_version vs" "vs_fresh_file vs' = vs_fresh_file vs"
    "vs_compact_pointer vs' = vs_compact_pointer vs"
proof -
  have e: "f (vs'\<lparr>vs_versions := vs_versions vs, vs_files := vs_files vs\<rparr>) = f vs" for f :: "version_set \<Rightarrow> 'a"
    using assms by (simp only: vs_frame_def)
  show "vs_dbpath vs' = vs_dbpath vs" using e [of vs_dbpath] by simp
  show "vs_dbname vs' = vs_dbname vs" using e [of vs_dbname] by simp
  show "vs_options vs' = vs_options vs" using e [of vs_options] by simp
  show "vs_cmp vs' = vs_cmp vs" using e [of vs_cmp] by simp
  show "vs_next_file_number vs' = vs_next_file_number vs" using e [of vs_next_file_number] by simp
  show "vs_manifest_file_number vs' = vs_manifest_file_number vs" using e [of vs_manifest_file_number] by simp
  show "vs_last_sequence vs' = vs_last_sequence vs" using e [of vs_last_sequence] by simp
  show "vs_log_number vs' = vs_log_number vs" using e [of vs_log_number] by simp
  show "vs_prev_log_number vs' = vs_prev_log_number vs" using e [of vs_prev_log_number] by simp
  show "vs_descriptor_log vs' = vs_descriptor_log vs" using e [of vs_descriptor_log] by simp
  show "vs_current vs' = vs_current vs" using e [of vs_current] by simp
  show "vs_fresh_version vs' = vs_fresh_version vs" using e [of vs_fresh_version] by simp
  show "vs_fresh_file vs' = vs_fresh_file vs" using e [of vs_fresh_file] by simp
  show "vs_compact_pointer vs' = vs_compact_pointer vs" using e [of vs_compact_pointer] by simp
qed

lemma vs_frame_trans: "vs_frame a b \<Longrightarrow> vs_frame b c \<Longrightarrow> vs_frame a c"
  unfolding vs_frame_def by (cases a; cases b; cases c; simp)

lemma unref_file_frame [simp]: "vs_frame vs (unref_file f vs)"
  by (simp add: vs_frame_def unref_file_def Let_def)

lemma ref_file_frame [simp]: "vs_frame vs (ref_file f vs)"
  by (simp add: vs_frame_def ref_file_def Let_def)

lemma unref_files_frame [simp]: "vs_frame vs (fold unref_file fs vs)"
  by (induction fs arbitrary: vs) (auto intro: vs_frame_trans [OF unref_file_frame])

lemma update_version_frame [simp]: "vs_frame vs (update_version a v vs)"
  by (simp add: vs_frame_def update_version_def)

lemma Version_delete_frame [simp]: "vs_frame vs (Version_delete a vs)"
  unfolding Version_delete_def Let_def by (rule vs_frame_trans [OF _ unref_files_frame]) (simp add: vs_frame_def)

lemma Version_Unref_frame [simp]: "vs_frame vs (Version_Unref a vs)"
  by (auto simp: Version_Unref_def Let_def intro: vs_frame_trans [OF update_version_frame Version_delete_frame])

lemma Version_Ref_frame [simp]: "vs_frame vs (Version_Ref a vs)"
  by (simp add: Version_Ref_def Let_def)

lemma version_at_update:
  assumes "a \<in> fst ` set (vs_versions vs)"
  shows "version_at (update_version a w vs) a = w"
proof -
  have "map_of (map (\<lambda>(b, v). (b, if b = a then w else v)) xs) a = Some w" if "a \<in> fst ` set xs" for xs :: "(nat \<times> version) list"
    using that by (induction xs) auto
  then show ?thesis using assms by (simp add: update_version_def version_at_def)
qed

lemma version_at_update_other:
  assumes "b \<noteq> a"
  shows "version_at (update_version a w vs) b = version_at vs b"
proof -
  have "map_of (map (\<lambda>(b, v). (b, if b = a then w else v)) xs) b = map_of xs b" for xs :: "(nat \<times> version) list"
    using assms by (induction xs) auto
  then show ?thesis by (simp add: update_version_def version_at_def)
qed

lemma Version_delete_update:
  assumes "a \<in> fst ` set (vs_versions vs)"
  shows "Version_delete a (update_version a ((version_at vs a)\<lparr>ver_refs := n\<rparr>) vs) = Version_delete a vs"
proof -
  have "filter (\<lambda>(b, w). b \<noteq> a) (map (\<lambda>(b, v). (b, if b = a then x else v)) xs) = filter (\<lambda>(b, w). b \<noteq> a) xs"
    for xs :: "(nat \<times> version) list" and x by (induction xs) auto
  then show ?thesis
    unfolding Version_delete_def Let_def version_at_update [OF assms] by (simp add: update_version_def)
qed

text \<open>Dropping a reference on a version.\<close>

lemma Version_Unref_inv:
  assumes i: "vs_inv vs extra (add_mset a pins)"
  shows "vs_inv (Version_Unref a vs) extra pins" "same_files vs (Version_Unref a vs)"
proof -
  have a: "a \<in> fst ` set (vs_versions vs)" using vs_invD(4) [OF i] by simp
  let ?v = "version_at vs a"
  have refs: "count pins a + 1 \<le> ver_refs ?v" using vs_invD(3) [OF i version_at_in [OF a]] by simp
  have ip: "vs_inv vs extra pins" by (rule vs_inv_pins_mono [OF i]) simp
  have "vs_inv (Version_Unref a vs) extra pins \<and> same_files vs (Version_Unref a vs)"
  proof (cases "ver_refs ?v - 1 = 0")
    case True
    then have "a \<notin># pins" using refs by (metis add_le_cancel_right count_eq_zero_iff diff_is_0_eq le_0_eq le_add_diff_inverse2 add_leD2)
    moreover have "Version_Unref a vs = Version_delete a vs"
      using True Version_delete_update [OF a] by (simp add: Version_Unref_def Let_def)
    ultimately show ?thesis using Version_delete_inv [OF ip a] by simp
  next
    case False
    then have "Version_Unref a vs = update_version a (?v\<lparr>ver_refs := ver_refs ?v - 1\<rparr>) vs"
      by (simp add: Version_Unref_def Let_def)
    moreover have "vs_inv (update_version a (?v\<lparr>ver_refs := ver_refs ?v - 1\<rparr>) vs) extra pins"
      by (rule update_refs_inv [OF ip]) (use False refs a in auto)
    moreover have "same_files vs (update_version a (?v\<lparr>ver_refs := ver_refs ?v - 1\<rparr>) vs)"
      by (simp add: same_files_def update_version_def)
    ultimately show ?thesis by simp
  qed
  then show "vs_inv (Version_Unref a vs) extra pins" "same_files vs (Version_Unref a vs)" by simp_all
qed

definition cur_pins :: "version_set \<Rightarrow> nat multiset \<Rightarrow> nat multiset" where
  "cur_pins vs pins = (case vs_current vs of None \<Rightarrow> pins | Some c \<Rightarrow> add_mset c pins)"

lemma AppendVersion_inv:
  assumes i: "vs_inv vs (mset (concat (ver_files v)) + extra) (cur_pins vs pins)"
  shows "vs_inv (AppendVersion v vs) extra (cur_pins (AppendVersion v vs) pins)"
    "same_files vs (AppendVersion v vs)" "vs_current (AppendVersion v vs) = Some (vs_fresh_version vs)"
    "vs_current_version (AppendVersion v vs) = v\<lparr>ver_refs := ver_refs v + 1\<rparr>"
proof -
  define vs1 where "vs1 = (case vs_current vs of None \<Rightarrow> vs | Some c \<Rightarrow> Version_Unref c vs)"
  have i1: "vs_inv vs1 (mset (concat (ver_files v)) + extra) pins" "same_files vs vs1" "vs_frame vs vs1"
    using i Version_Unref_inv [of vs "mset (concat (ver_files v)) + extra" _ pins]
    by (auto simp: vs1_def cur_pins_def split: option.splits)
  let ?a = "vs_fresh_version vs1"
  let ?v = "v\<lparr>ver_refs := ver_refs v + 1\<rparr>"
  let ?vs = "vs1\<lparr>vs_current := Some ?a, vs_fresh_version := ?a + 1, vs_versions := vs_versions vs1 @ [(?a, ?v)]\<rparr>"
  have app: "AppendVersion v vs = ?vs" by (simp add: AppendVersion_def Let_def vs1_def)
  have fresh: "?a \<notin> fst ` set (vs_versions vs1)" using vs_invD(2) [OF i1(1)] by blast
  then have np: "?a \<notin># pins" using vs_invD(4) [OF i1(1)] by blast
  have h: "refs_held ?vs f + count extra f = refs_held vs1 f + count (mset (concat (ver_files v)) + extra) f" for f
    by (simp add: refs_held_def count_mset)
  have vers: "0 < ver_refs w \<and> count (add_mset ?a pins) b \<le> ver_refs w" if "(b, w) \<in> set (vs_versions ?vs)" for b w
  proof (cases "(b, w) \<in> set (vs_versions vs1)")
    case True
    then have "b \<noteq> ?a" using fresh by force
    then show ?thesis using vs_invD(3) [OF i1(1) True] by simp
  next
    case False
    then have "b = ?a" "w = ?v" using that by auto
    then show ?thesis using np by (simp add: not_in_iff)
  qed
  have "vs_inv ?vs extra (add_mset ?a pins)"
    unfolding vs_inv_def h
  proof (intro conjI)
    show "\<forall>(b, w)\<in>set (vs_versions ?vs). 0 < ver_refs w \<and> count (add_mset ?a pins) b \<le> ver_refs w"
      using vers by blast
  qed (use i1(1) fresh in \<open>auto simp: vs_inv_def less_Suc_eq\<close>)
  then show "vs_inv (AppendVersion v vs) extra (cur_pins (AppendVersion v vs) pins)"
    unfolding app by (simp add: cur_pins_def)
  show "same_files vs (AppendVersion v vs)" using i1(2) by (simp add: app same_files_def)
  show "vs_current (AppendVersion v vs) = Some (vs_fresh_version vs)" using vs_frameD(12) [OF i1(3)] by (simp add: app)
  have "map_of (vs_versions vs1) ?a = None" using fresh by (simp add: map_of_eq_None_iff)
  then show "vs_current_version (AppendVersion v vs) = ?v"
    by (simp add: app vs_current_version_def version_at_def map_add_def)
qed

lemma VersionSet_new_inv: "vs_inv (VersionSet_new dbpath dbname opt cmp) {#} (cur_pins (VersionSet_new dbpath dbname opt cmp) {#})"
  unfolding VersionSet_new_def
  by (rule AppendVersion_inv(1)) (simp add: vs_inv_def refs_held_def cur_pins_def Version_new_def)

section \<open>The builder\<close>

definition builder_files :: "vs_builder \<Rightarrow> fptr multiset" where
  "builder_files b = mset (concat (map ls_added_files (b_levels b)))"

lemma vs_inv_cong:
  "vs_inv vs extra pins \<Longrightarrow> vs_versions vs' = vs_versions vs \<Longrightarrow> vs_files vs' = vs_files vs \<Longrightarrow>
   vs_fresh_version vs' = vs_fresh_version vs \<Longrightarrow> vs_fresh_file vs' = vs_fresh_file vs \<Longrightarrow> vs_inv vs' extra pins"
proof -
  assume e: "vs_inv vs extra pins" "vs_versions vs' = vs_versions vs" "vs_files vs' = vs_files vs"
    "vs_fresh_version vs' = vs_fresh_version vs" "vs_fresh_file vs' = vs_fresh_file vs"
  have "refs_held vs' = refs_held vs" by (simp add: refs_held_def e(2) fun_eq_iff)
  then show ?thesis using e by (simp add: vs_inv_def)
qed

lemma alloc_file_inv:
  assumes i: "vs_inv vs extra pins" and m: "fm_refs m = 1" and f: "f = vs_fresh_file vs"
  shows "vs_inv (vs\<lparr>vs_files := (vs_files vs)(f := Some m), vs_fresh_file := f + 1\<rparr>) (add_mset f extra) pins" (is "vs_inv ?vs _ _")
    "same_files vs (vs\<lparr>vs_files := (vs_files vs)(f := Some m), vs_fresh_file := f + 1\<rparr>)"
proof -
  have none: "vs_files vs f = None" using vs_invD(6) [OF i, of f] f by simp
  then have z: "refs_held vs f + count extra f = 0" using vs_invD(5) [OF i, of f] by fastforce
  have "\<exists>n. vs_files ?vs g = Some n \<and> refs_held vs g + count (add_mset f extra) g \<le> fm_refs n"
    if p: "0 < refs_held vs g + count (add_mset f extra) g" for g
  proof (cases "g = f")
    case True
    then show ?thesis using z m by simp
  next
    case False
    then show ?thesis using vs_invD(5) [OF i, of g] p by simp
  qed
  moreover have "vs_files ?vs g = None" if "vs_fresh_file ?vs \<le> g" for g
    using vs_invD(6) [OF i, of g] that f by simp
  ultimately show "vs_inv ?vs (add_mset f extra) pins" by (intro vs_inv_filesI [OF i]) simp_all
  show "same_files vs ?vs" using none f by (auto simp: same_files_def)
qed

lemma set_insert_subset: "mset (set_insert lt x ys) \<subseteq># add_mset x (mset ys)"
  by (induction ys) (auto simp: add_mset_commute [of x])

lemma builder_files_update_same:
  assumes "\<And>l. ls_added_files (g l) = ls_added_files l"
  shows "builder_files (update_level level g b) = builder_files b"
proof -
  have "map ls_added_files ((b_levels b)[level := g (b_levels b ! level)]) = map ls_added_files (b_levels b)"
    by (rule nth_equalityI) (simp_all, metis assms nth_list_update list_update_beyond linorder_not_less)
  then show ?thesis by (simp add: builder_files_def update_level_def)
qed

lemma concat_update_subset:
  assumes "mset (g (xs ! i)) \<subseteq># add_mset x (mset (xs ! i))"
  shows "mset (concat (xs[i := g (xs ! i)])) \<subseteq># add_mset x (mset (concat xs))"
proof (cases "i < length xs")
  case True
  have e: "concat (xs[i := ys]) = concat (take i xs) @ ys @ concat (drop (Suc i) xs)" for ys
    using True by (simp add: upd_conv_take_nth_drop)
  have "mset (concat xs) = mset (concat (take i xs)) + mset (xs ! i) + mset (concat (drop (Suc i) xs))"
    using e [of "xs ! i"] by simp
  then show ?thesis unfolding e using assms by (simp add: ac_simps subset_mset.add_left_mono)
next
  case False
  then have "xs[i := g (xs ! i)] = xs" by (simp add: list_update_beyond)
  then show ?thesis by (metis add_mset_add_single mset_subset_eq_add_left)
qed

lemma builder_files_added:
  "builder_files (update_level level (\<lambda>l. l\<lparr>ls_added_files := set_insert lt f (ls_added_files l)\<rparr>) b) \<subseteq># add_mset f (builder_files b)"
proof (cases "level < length (b_levels b)")
  case True
  have "map ls_added_files ((b_levels b)[level := (b_levels b ! level)\<lparr>ls_added_files := set_insert lt f (ls_added_files (b_levels b ! level))\<rparr>])
      = (map ls_added_files (b_levels b))[level := set_insert lt f (map ls_added_files (b_levels b) ! level)]"
    using True by (simp add: map_update)
  moreover have "b_levels (update_level level g b) = (b_levels b)[level := g (b_levels b ! level)]" for g
    by (simp add: update_level_def)
  ultimately show ?thesis
    unfolding builder_files_def
    by (simp only: concat_update_subset [where g = "set_insert lt f", OF set_insert_subset])
next
  case False
  then have "builder_files (update_level level g b) = builder_files b" for g
    by (simp add: builder_files_def update_level_def list_update_beyond)
  then show ?thesis by (metis add_mset_add_single mset_subset_eq_add_left)
qed

lemma update_level_base [simp]: "b_base (update_level level g b) = b_base b"
  by (simp add: update_level_def)

text \<open>The invariant of a builder: its base is pinned, and it owns a reference on each file it added.\<close>

definition builder_inv :: "vs_builder \<Rightarrow> version_set \<Rightarrow> fptr multiset \<Rightarrow> nat multiset \<Rightarrow> bool" where
  "builder_inv b vs extra pins \<longleftrightarrow> vs_inv vs (builder_files b + extra) (add_mset (b_base b) pins)"

definition vs_keeps :: "version_set \<Rightarrow> version_set \<Rightarrow> bool" where
  "vs_keeps vs vs' \<longleftrightarrow> same_files vs vs' \<and> vs_versions vs' = vs_versions vs \<and> vs_current vs' = vs_current vs \<and>
     vs_fresh_version vs' = vs_fresh_version vs \<and> vs_cmp vs' = vs_cmp vs \<and> vs_descriptor_log vs' = vs_descriptor_log vs \<and>
     vs_options vs' = vs_options vs \<and> vs_dbpath vs' = vs_dbpath vs \<and> vs_dbname vs' = vs_dbname vs \<and>
     vs_next_file_number vs' = vs_next_file_number vs \<and> vs_manifest_file_number vs' = vs_manifest_file_number vs \<and>
     vs_last_sequence vs' = vs_last_sequence vs \<and> vs_log_number vs' = vs_log_number vs \<and>
     vs_prev_log_number vs' = vs_prev_log_number vs"

lemma vs_keeps_refl [simp]: "vs_keeps vs vs"
  by (simp add: vs_keeps_def)

lemma vs_keeps_trans: "vs_keeps a b \<Longrightarrow> vs_keeps b c \<Longrightarrow> vs_inv a extra pins \<Longrightarrow> vs_keeps a c"
  using same_files_trans [of a b c] vs_invD(6) [of a extra pins] by (auto simp: vs_keeps_def)

lemma apply_new_file_inv:
  assumes i: "builder_inv b vs extra pins" and e: "apply_new_file p (b, vs) = (b', vs')"
  shows "builder_inv b' vs' extra pins" "vs_keeps vs vs'" "b_base b' = b_base b" "length (b_levels b') = length (b_levels b)"
proof -
  let ?f = "vs_fresh_file vs"
  let ?m = "(snd p)\<lparr>fm_refs := 1, fm_allowed_seeks := initial_seeks (fm_file_size (snd p))\<rparr>"
  let ?vs = "vs\<lparr>vs_files := (vs_files vs)(?f := Some ?m), vs_fresh_file := ?f + 1\<rparr>"
  let ?b1 = "update_level (fst p) (\<lambda>l. l\<lparr>ls_deleted_files := remove1 (fm_number ?m) (ls_deleted_files l)\<rparr>) b"
  have b': "b' = update_level (fst p) (\<lambda>l. l\<lparr>ls_added_files :=
      set_insert (\<lambda>x y. BySmallestKey (vs_cmp ?vs) (file_at ?vs x) (file_at ?vs y)) ?f (ls_added_files l)\<rparr>) ?b1" and vs': "vs' = ?vs"
    using e unfolding apply_new_file_def Let_def prod.case prod.inject by blast+
  have b1: "builder_files ?b1 = builder_files b" by (rule builder_files_update_same) simp
  have "builder_files b' \<subseteq># add_mset ?f (builder_files b)" unfolding b' b1 [symmetric] by (rule builder_files_added)
  then have le: "builder_files b' + extra \<subseteq># add_mset ?f (builder_files b + extra)"
    by (metis add_mset_add_single add.commute add.left_commute mset_subset_eq_mono_add_right_cancel)
  have a: "vs_inv ?vs (add_mset ?f (builder_files b + extra)) (add_mset (b_base b) pins)" "same_files vs ?vs"
    using alloc_file_inv [of vs "builder_files b + extra" "add_mset (b_base b) pins" ?m ?f] i by (simp_all add: builder_inv_def)
  show base: "b_base b' = b_base b" by (simp add: b')
  show "builder_inv b' vs' extra pins" unfolding builder_inv_def base vs' by (rule vs_inv_mono [OF a(1) le])
  show "vs_keeps vs vs'" using a(2) by (simp add: vs_keeps_def vs')
  show "length (b_levels b') = length (b_levels b)" by (simp add: b' update_level_def)
qed

lemma apply_new_files_inv:
  assumes "builder_inv b vs extra pins" "fold apply_new_file ps (b, vs) = (b', vs')"
  shows "builder_inv b' vs' extra pins \<and> vs_keeps vs vs' \<and> b_base b' = b_base b \<and> length (b_levels b') = length (b_levels b)"
  using assms
proof (induction ps arbitrary: b vs)
  case (Cons p ps)
  obtain b1 vs1 where e: "apply_new_file p (b, vs) = (b1, vs1)" by (cases "apply_new_file p (b, vs)")
  note s = apply_new_file_inv [OF Cons.prems(1) e]
  have "builder_inv b' vs' extra pins \<and> vs_keeps vs1 vs' \<and> b_base b' = b_base b1 \<and> length (b_levels b') = length (b_levels b1)"
    by (rule Cons.IH [OF s(1)]) (use Cons.prems(2) e in simp)
  then show ?case using s vs_keeps_trans [OF s(2)] Cons.prems(1) by (auto simp: builder_inv_def)
qed simp

lemma apply_deleted_files: "builder_files (apply_deleted p b) = builder_files b"
  unfolding apply_deleted_def by (rule builder_files_update_same) simp

lemma fold_apply_deleted:
  "builder_files (fold apply_deleted ps b) = builder_files b \<and> b_base (fold apply_deleted ps b) = b_base b \<and>
   length (b_levels (fold apply_deleted ps b)) = length (b_levels b)"
proof (induction ps arbitrary: b)
  case (Cons p ps)
  show ?case using Cons [of "apply_deleted p b"] apply_deleted_files [of p b] by (simp add: apply_deleted_def) (simp add: update_level_def)
qed simp

lemma fold_apply_pointer:
  "\<exists>ptrs. fold apply_pointer ps vs = vs\<lparr>vs_compact_pointer := ptrs\<rparr> \<and> length ptrs = length (vs_compact_pointer vs)"
proof (induction ps arbitrary: vs)
  case Nil
  show ?case by (rule exI [of _ "vs_compact_pointer vs"]) simp
next
  case (Cons p ps)
  show ?case using Cons [of "apply_pointer p vs"] by (auto simp: apply_pointer_def)
qed

lemma Builder_Apply_inv:
  assumes i: "builder_inv b vs extra pins" and e: "Builder_Apply edit (b, vs) = (b', vs')"
  shows "builder_inv b' vs' extra pins" "vs_keeps vs vs'" "b_base b' = b_base b" "length (b_levels b') = length (b_levels b)"
proof -
  obtain ptrs where p: "fold apply_pointer (ve_compact_pointers edit) vs = vs\<lparr>vs_compact_pointer := ptrs\<rparr>"
    using fold_apply_pointer [of "ve_compact_pointers edit" vs] by auto
  let ?vs = "vs\<lparr>vs_compact_pointer := ptrs\<rparr>"
  let ?b = "fold apply_deleted (ve_deleted_files edit) b"
  note d = fold_apply_deleted [of "ve_deleted_files edit" b]
  have j: "builder_inv ?b ?vs extra pins"
    using i d unfolding builder_inv_def by (metis (no_types, lifting) vs_inv_cong version_set.select_convs(11,13,14,15) version_set.surjective version_set.update_convs(16))
  have f: "fold apply_new_file (ve_new_files edit) (?b, ?vs) = (b', vs')" using e p by (simp add: Builder_Apply_def Let_def)
  have k: "vs_keeps vs ?vs" by (simp add: vs_keeps_def same_files_def)
  note g = apply_new_files_inv [OF j f]
  show "builder_inv b' vs' extra pins" using g by simp
  show "vs_keeps vs vs'" using g vs_keeps_trans [OF k] i by (auto simp: builder_inv_def)
  show "b_base b' = b_base b" "length (b_levels b') = length (b_levels b)" using g d by simp_all
qed

section \<open>Saving a version\<close>

lemma ref_file_keeps: "vs_files vs f \<noteq> None \<Longrightarrow> vs_keeps vs (ref_file f vs)"
  using vs_frameD [OF ref_file_frame [of vs f]] same_files_ref [of vs f]
  by (simp add: vs_keeps_def) (simp add: ref_file_def Let_def)

lemma keeps_refs_held: "vs_keeps vs vs' \<Longrightarrow> refs_held vs' = refs_held vs"
  by (simp add: vs_keeps_def refs_held_def fun_eq_iff)

lemma MaybeAddFile_inv:
  assumes i: "vs_inv vs (mset acc + extra) pins" and f: "\<forall>f\<in>set fs. 0 < refs_held vs f + count extra f"
    and e: "fold (MaybeAddFile l) fs (acc, vs) = (acc', vs')"
  shows "vs_inv vs' (mset acc' + extra) pins \<and> vs_keeps vs vs'"
  using i f e
proof (induction fs arbitrary: acc vs)
  case (Cons f fs)
  show ?case
  proof (cases "fm_number (file_at vs f) \<in> set (ls_deleted_files l)")
    case True
    then have "MaybeAddFile l f (acc, vs) = (acc, vs)" by (simp add: MaybeAddFile_def)
    then have "fold (MaybeAddFile l) fs (acc, vs) = (acc', vs')" using Cons.prems(3) by simp
    then show ?thesis using Cons.IH Cons.prems(1,2) by simp
  next
    case False
    have p: "0 < refs_held vs f + count extra f" using Cons.prems(2) by simp
    then have p': "0 < refs_held vs f + count (mset acc + extra) f" unfolding count_union by linarith
    have j: "vs_inv (ref_file f vs) (mset (acc @ [f]) + extra) pins" using ref_file_inv [OF Cons.prems(1) p'] by simp
    have k: "vs_keeps vs (ref_file f vs)" using vs_invD(5) [OF Cons.prems(1) p'] by (auto intro: ref_file_keeps)
    have "MaybeAddFile l f (acc, vs) = (acc @ [f], ref_file f vs)" using False by (simp add: MaybeAddFile_def)
    then have "vs_inv vs' (mset acc' + extra) pins \<and> vs_keeps (ref_file f vs) vs'"
      by (intro Cons.IH [OF j]) (use Cons.prems(2,3) keeps_refs_held [OF k] in simp_all)
    then show ?thesis using vs_keeps_trans [OF k] Cons.prems(1) by blast
  qed
qed simp

lemma set_merge_files: "set (merge_files lt base added) = set base \<union> set added"
proof (induction lt base added rule: merge_files.induct)
  case (2 lt base a added)
  have "set (takeWhile (\<lambda>f. \<not> lt a f) base) \<union> set (dropWhile (\<lambda>f. \<not> lt a f) base) = set base"
    by (metis set_append takeWhile_dropWhile_id)
  then show ?case using 2 by auto
qed simp

lemma save_levels_inv:
  assumes i: "vs_inv vs (acc + extra) pins"
    and f: "\<forall>files\<in>set base. \<forall>f\<in>set files. 0 < refs_held vs f" "\<forall>l\<in>set ls. \<forall>f\<in>set (ls_added_files l). f \<in># extra"
    and e: "save_levels cmp ls base vs = (files, vs')"
  shows "vs_inv vs' (mset (concat files) + acc + extra) pins \<and> vs_keeps vs vs'"
  using i f e
proof (induction cmp ls base vs arbitrary: files vs' acc rule: save_levels.induct)
  case (1 cmp l ls fs rest vs)
  obtain gs vs1 where l: "save_level cmp l fs vs = (gs, vs1)" by (cases "save_level cmp l fs vs")
  obtain gss vs2 where r: "save_levels cmp ls rest vs1 = (gss, vs2)" by (cases "save_levels cmp ls rest vs1")
  have res: "files = gs # gss" "vs' = vs2" using "1.prems"(4) l r by simp_all
  have "\<forall>f\<in>set (merge_files (\<lambda>x y. BySmallestKey cmp (file_at vs x) (file_at vs y)) fs (ls_added_files l)).
      0 < refs_held vs f + count (acc + extra) f"
    using "1.prems"(2,3) by (auto simp: set_merge_files)
  then have a: "vs_inv vs1 (mset gs + (acc + extra)) pins" "vs_keeps vs vs1"
    using MaybeAddFile_inv [of vs "[]" "acc + extra" pins _ l gs vs1] "1.prems"(1) l unfolding save_level_def by auto
  have "vs_inv vs2 (mset (concat gss) + (mset gs + acc) + extra) pins \<and> vs_keeps vs1 vs2"
  proof (rule "1.IH" [OF l [symmetric] refl _ _ _ r])
    show "vs_inv vs1 (mset gs + acc + extra) pins" using a(1) by (simp add: ac_simps)
  qed (use "1.prems"(2,3) keeps_refs_held [OF a(2)] in auto)
  then show ?case unfolding res using a(2) vs_keeps_trans "1.prems"(1) by (simp add: ac_simps)
qed simp_all

lemma Builder_SaveTo_inv:
  assumes i: "builder_inv b vs extra pins" and e: "Builder_SaveTo b v vs = (v', vs')"
  shows "builder_inv b vs' (mset (concat (ver_files v')) + extra) pins" "vs_keeps vs vs'"
proof -
  let ?base = "ver_files (version_at vs (b_base b))"
  obtain files where s: "save_levels (vs_cmp vs) (b_levels b) ?base vs = (files, vs')" and v': "v' = v\<lparr>ver_files := files\<rparr>"
    using e by (auto simp: Builder_SaveTo_def split: prod.splits)
  have "b_base b \<in> fst ` set (vs_versions vs)" using i vs_invD(4) by (metis builder_inv_def union_single_eq_member)
  then have m: "(b_base b, version_at vs (b_base b)) \<in> set (vs_versions vs)" by (rule version_at_in)
  have h: "\<forall>files\<in>set ?base. \<forall>f\<in>set files. 0 < refs_held vs f" using refs_held_in [OF m] by auto
  have j: "vs_inv vs (extra + builder_files b) (add_mset (b_base b) pins)" using i by (simp add: builder_inv_def ac_simps)
  have "\<forall>l\<in>set (b_levels b). \<forall>f\<in>set (ls_added_files l). f \<in># builder_files b" by (auto simp: builder_files_def)
  then have r: "vs_inv vs' (mset (concat files) + extra + builder_files b) (add_mset (b_base b) pins)" "vs_keeps vs vs'"
    using save_levels_inv [OF j h _ s] by auto
  show "builder_inv b vs' (mset (concat (ver_files v')) + extra) pins" using r(1) by (simp add: builder_inv_def v' ac_simps)
  show "vs_keeps vs vs'" by (rule r(2))
qed

lemma unref_files_keeps:
  assumes "vs_inv vs (mset fs + extra) pins"
  shows "vs_keeps vs (fold unref_file fs vs)"
proof -
  have "vs_versions (fold unref_file fs vs) = vs_versions vs"
    by (induction fs arbitrary: vs) (simp_all add: unref_file_def Let_def)
  then show ?thesis
    using vs_frameD [OF unref_files_frame [of vs fs]] unref_files_same [OF assms] by (simp add: vs_keeps_def)
qed

lemma Builder_new_inv:
  assumes i: "vs_inv vs extra (cur_pins vs pins)" and c: "vs_current vs = Some c" and e: "Builder_new vs = (b, vs')"
  shows "builder_inv b vs' extra (cur_pins vs pins)" "vs' = Version_Ref c vs" "b_base b = c" "length (b_levels b) = kNumLevels"
    "builder_files b = {#}"
proof -
  have b: "b = \<lparr>b_base = c, b_levels = replicate kNumLevels \<lparr>ls_deleted_files = [], ls_added_files = []\<rparr>\<rparr>" "vs' = Version_Ref c vs"
    using e c by (simp_all add: Builder_new_def Let_def)
  have m: "c \<in> fst ` set (vs_versions vs)" using vs_invD(4) [OF i, of c] c by (simp add: cur_pins_def)
  show f: "builder_files b = {#}" by (simp add: b builder_files_def)
  show "b_base b = c" by (simp add: b)
  then show "builder_inv b vs' extra (cur_pins vs pins)" using Version_Ref_inv [OF i m] by (simp add: builder_inv_def f b(2))
  show "vs' = Version_Ref c vs" "length (b_levels b) = kNumLevels" by (simp_all add: b)
qed

text \<open>Taking the base and dropping it leaves the versions as they were.\<close>

lemma Version_Ref_Unref:
  assumes "a \<in> fst ` set (vs_versions vs)" "distinct (map fst (vs_versions vs))" "0 < ver_refs (version_at vs a)"
    and k: "vs_keeps (Version_Ref a vs) vs'"
  shows "vs_versions (Version_Unref a vs') = vs_versions vs" "vs_files (Version_Unref a vs') = vs_files vs'"
proof -
  let ?v = "version_at vs a"
  have vers: "vs_versions vs' = vs_versions (Version_Ref a vs)" using k by (simp add: vs_keeps_def)
  have at: "version_at vs' a = ?v\<lparr>ver_refs := ver_refs ?v + 1\<rparr>"
    using version_at_update [OF assms(1)] vers by (simp add: version_at_def Version_Ref_def Let_def)
  have u: "Version_Unref a vs' = update_version a ?v vs'" using assms(3) at by (simp add: Version_Unref_def Let_def)
  have "map (\<lambda>(b, w). (b, if b = a then ?v else w)) (vs_versions (Version_Ref a vs)) = vs_versions vs"
    unfolding Version_Ref_def Let_def update_version_list map_map
    by (rule map_idI) (use version_at_eq [OF assms(2)] in auto)
  then show "vs_versions (Version_Unref a vs') = vs_versions vs" unfolding u update_version_list vers .
  show "vs_files (Version_Unref a vs') = vs_files vs'" by (simp add: u update_version_def)
qed

lemma Finalize_files [simp]: "ver_files (Finalize fs v) = ver_files v"
  by (simp add: Finalize_def Let_def)

lemma cur_pins_add: "cur_pins vs (add_mset a pins) = add_mset a (cur_pins vs pins)"
  by (simp add: cur_pins_def add_mset_commute split: option.splits)

lemma cur_pins_cong: "vs_current vs' = vs_current vs \<Longrightarrow> cur_pins vs' pins = cur_pins vs pins"
  by (simp add: cur_pins_def)

lemma Version_Ref_current [simp]: "vs_current (Version_Ref a vs) = vs_current vs"
  by (rule vs_frameD(11)) simp

lemma Builder_delete_inv:
  assumes i: "builder_inv b vs extra pins"
  shows "vs_inv (Builder_delete b vs) extra pins" "same_files vs (Builder_delete b vs)"
    "vs_frame vs (Builder_delete b vs)"
proof -
  let ?fs = "concat (map ls_added_files (b_levels b))"
  have j: "vs_inv vs (mset ?fs + extra) (add_mset (b_base b) pins)" using i by (simp add: builder_inv_def builder_files_def)
  have u: "vs_inv (fold unref_file ?fs vs) extra (add_mset (b_base b) pins)" by (rule unref_files_inv [OF j])
  show "vs_inv (Builder_delete b vs) extra pins" unfolding Builder_delete_def by (rule Version_Unref_inv(1) [OF u])
  show "same_files vs (Builder_delete b vs)" unfolding Builder_delete_def
    by (rule same_files_trans [OF unref_files_same [OF j] Version_Unref_inv(2) [OF u]]) (use vs_invD(6) [OF j] in blast)
  show "vs_frame vs (Builder_delete b vs)" unfolding Builder_delete_def
    by (rule vs_frame_trans [OF unref_files_frame Version_Unref_frame])
qed

text \<open>An edit makes a version whose files are referenced for it, and leaves the rest of the state alone.\<close>

lemma apply_edit_inv:
  assumes i: "vs_inv vs extra (cur_pins vs pins)" and c: "vs_current vs = Some c"
    and e: "apply_edit edit vs = (v, vs')"
  shows "vs_inv vs' (mset (concat (ver_files v)) + extra) (cur_pins vs pins)" "vs_keeps vs vs'"
proof -
  obtain b vs1 where b: "Builder_new vs = (b, vs1)" by (cases "Builder_new vs")
  obtain b2 vs2 where a: "Builder_Apply edit (b, vs1) = (b2, vs2)" by (cases "Builder_Apply edit (b, vs1)")
  obtain w vs3 where t: "Builder_SaveTo b2 Version_new vs2 = (w, vs3)" by (cases "Builder_SaveTo b2 Version_new vs2")
  have res: "ver_files v = ver_files w" "vs' = Builder_delete b2 vs3" using e b a t by (auto simp: apply_edit_def Let_def)
  note n = Builder_new_inv [OF i c b]
  note ap = Builder_Apply_inv [OF n(1) a]
  note sv = Builder_SaveTo_inv [OF ap(1) t]
  note dl = Builder_delete_inv [OF sv(1)]
  show "vs_inv vs' (mset (concat (ver_files v)) + extra) (cur_pins vs pins)" unfolding res by (rule dl(1))
  have m: "c \<in> fst ` set (vs_versions vs)" using vs_invD(4) [OF i, of c] c by (simp add: cur_pins_def)
  have i1: "vs_inv vs1 (builder_files b + extra) (add_mset (b_base b) (cur_pins vs pins))" using n(1) by (simp add: builder_inv_def)
  have k: "vs_keeps (Version_Ref c vs) vs3" using vs_keeps_trans [OF ap(2) sv(2) i1] n(2) by simp
  let ?fs = "concat (map ls_added_files (b_levels b2))"
  let ?extra = "mset (concat (ver_files w)) + extra"
  have j: "vs_inv vs3 (mset ?fs + ?extra) (add_mset c (cur_pins vs pins))"
    using sv(1) ap(3) n(3) by (simp add: builder_inv_def builder_files_def)
  have i1': "vs_inv (Version_Ref c vs) (builder_files b + extra) (add_mset (b_base b) (cur_pins vs pins))" using i1 n(2) by simp
  have k4: "vs_keeps (Version_Ref c vs) (fold unref_file ?fs vs3)" by (rule vs_keeps_trans [OF k unref_files_keeps [OF j] i1'])
  have base: "b_base b2 = c" using ap(3) n(3) by simp
  have vers: "vs_versions vs' = vs_versions vs"
    unfolding res Builder_delete_def base
    by (rule Version_Ref_Unref(1) [OF m vs_invD(1) [OF i] _ k4]) (use vs_invD(3) [OF i version_at_in [OF m]] in blast)
  have sf: "same_files vs vs'"
  proof -
    have r: "same_files vs (Version_Ref c vs)" by (simp add: same_files_def Version_Ref_def Let_def update_version_def)
    have f1: "\<forall>f. vs_fresh_file vs \<le> f \<longrightarrow> vs_files vs f = None" using vs_invD(6) [OF i] by blast
    have f2: "\<forall>f. vs_fresh_file vs3 \<le> f \<longrightarrow> vs_files vs3 f = None" using vs_invD(6) [OF j] by blast
    have f3: "\<forall>f. vs_fresh_file (Version_Ref c vs) \<le> f \<longrightarrow> vs_files (Version_Ref c vs) f = None" using vs_invD(6) [OF i1'] by blast
    have "same_files (Version_Ref c vs) vs'" unfolding res
      by (rule same_files_trans [OF _ dl(2) f3]) (use k in \<open>simp add: vs_keeps_def\<close>)
    then show ?thesis by (rule same_files_trans [OF r _ f1])
  qed
  show "vs_keeps vs vs'"
    using vers sf k vs_frameD [OF dl(3)] vs_frameD [OF Version_Ref_frame [of vs c]] unfolding vs_keeps_def res by simp
qed

section \<open>The operations\<close>

text \<open>
  \<open>LogAndApply\<close> keeps the references right on every path: with a new current version when the manifest
  could be written, with the old one, its numbers and its versions when not.
\<close>

lemma LogAndApply_inv:
  assumes i: "vs_inv vs extra (cur_pins vs pins)" and c: "vs_current vs = Some c"
    and e: "LogAndApply env edit vs = (s, vs', deleted)"
  shows "vs_inv vs' extra (cur_pins vs' pins)" "same_files vs vs'" "\<exists>c. vs_current vs' = Some c"
    "\<not> status_ok s \<Longrightarrow> vs_keeps (vs\<lparr>vs_descriptor_log := vs_descriptor_log vs'\<rparr>) vs'"
proof -
  let ?edit = "complete_edit vs edit"
  obtain v vs1 where a: "apply_edit ?edit vs = (v, vs1)" by (cases "apply_edit ?edit vs")
  note ap = apply_edit_inv [OF i c a]
  obtain s1 new l1 where o: "open_manifest env vs1 = (s1, new, l1)" by (cases "open_manifest env vs1")
  obtain s2 l2 where w: "(case l1 of
        Some l \<Rightarrow> if status_ok s1 then (case write_manifest ?edit l of (s, l) \<Rightarrow> (s, Some l)) else (s1, Some l)
      | None \<Rightarrow> (s1, None)) = (s2, l2)" by (cases "case l1 of
        Some l \<Rightarrow> if status_ok s1 then (case write_manifest ?edit l of (s, l) \<Rightarrow> (s, Some l)) else (s1, Some l)
      | None \<Rightarrow> (s1, None)")
  define s3 where "s3 = (if status_ok s2 \<and> new \<noteq> None
      then SetCurrentFile (vs_dbpath vs1) (vs_dbname vs1) (vs_manifest_file_number vs1) else s2)"
  let ?vs = "vs1\<lparr>vs_descriptor_log := l2\<rparr>"
  have run: "(s, vs', deleted) =
      (if status_ok s3 then
         (s3, (AppendVersion v ?vs)\<lparr>vs_log_number := ve_log_number ?edit, vs_prev_log_number := ve_prev_log_number ?edit\<rparr>, [])
       else (let vs = fold unref_file (concat (ver_files v)) ?vs
             in case new of Some name \<Rightarrow> (s3, vs\<lparr>vs_descriptor_log := None\<rparr>, [name]) | None \<Rightarrow> (s3, vs, [])))"
    using e unfolding LogAndApply_def Let_def a o prod.case w s3_def by (rule sym)
  have k: "vs_keeps (vs\<lparr>vs_descriptor_log := l\<rparr>) (vs1\<lparr>vs_descriptor_log := l\<rparr>)" for l
    using ap(2) by (simp add: vs_keeps_def same_files_def)
  have i2: "vs_inv ?vs (mset (concat (ver_files v)) + extra) (cur_pins ?vs pins)"
    by (rule vs_inv_cong [of vs1]) (use ap in \<open>simp_all add: vs_keeps_def cur_pins_def\<close>)
  have "vs_inv vs' extra (cur_pins vs' pins) \<and> same_files vs vs' \<and> (\<exists>c. vs_current vs' = Some c) \<and>
      (\<not> status_ok s \<longrightarrow> vs_keeps (vs\<lparr>vs_descriptor_log := vs_descriptor_log vs'\<rparr>) vs')"
  proof (cases "status_ok s3")
    case True
    note app = AppendVersion_inv [OF i2]
    have f: "\<forall>f. vs_fresh_file vs \<le> f \<longrightarrow> vs_files vs f = None" using vs_invD(6) [OF i] by blast
    have "same_files vs ?vs" using ap(2) by (simp add: vs_keeps_def same_files_def)
    then have sf: "same_files vs (AppendVersion v ?vs)" by (rule same_files_trans [OF _ app(2) f])
    have v': "vs' = (AppendVersion v ?vs)\<lparr>vs_log_number := ve_log_number ?edit, vs_prev_log_number := ve_prev_log_number ?edit\<rparr>" "s = s3"
      using run True by simp_all
    have "vs_inv vs' extra (cur_pins vs' pins)"
      by (rule vs_inv_cong [of "AppendVersion v ?vs"]) (use app(1) in \<open>simp_all add: v' cur_pins_def\<close>)
    then show ?thesis using sf True app(3) by (simp add: v' same_files_def)
  next
    case False
    let ?fs = "concat (ver_files v)"
    let ?w = "fold unref_file ?fs ?vs"
    have s: "s = s3" and v': "vs' = ?w \<or> vs' = ?w\<lparr>vs_descriptor_log := None\<rparr>"
      using run False by (auto simp: Let_def split: option.splits)
    have u: "vs_inv ?w extra (cur_pins ?vs pins)" by (rule unref_files_inv [OF i2])
    have kw: "vs_keeps ?vs ?w" by (rule unref_files_keeps [OF i2])
    have j: "vs_inv (vs\<lparr>vs_descriptor_log := l2\<rparr>) extra (cur_pins vs pins)" by (rule vs_inv_cong [OF i]) simp_all
    have kk: "vs_keeps (vs\<lparr>vs_descriptor_log := l2\<rparr>) ?w" by (rule vs_keeps_trans [OF k kw j])
    have cur: "vs_current ?w = vs_current vs" using kk by (simp add: vs_keeps_def)
    have "vs_inv vs' extra (cur_pins vs' pins)"
    proof -
      have "cur_pins vs' pins = cur_pins ?vs pins" using v' kw by (auto simp: vs_keeps_def cur_pins_def)
      then show ?thesis using v' u by (auto intro: vs_inv_cong [OF u])
    qed
    moreover have "same_files vs vs'" using v' kk by (auto simp: vs_keeps_def same_files_def)
    moreover have "vs_keeps (vs\<lparr>vs_descriptor_log := vs_descriptor_log vs'\<rparr>) vs'"
      using v' kk by (auto simp: vs_keeps_def same_files_def)
    moreover have "vs_current vs' = Some c" using v' cur c by auto
    ultimately show ?thesis by simp
  qed
  then show "vs_inv vs' extra (cur_pins vs' pins)" "same_files vs vs'" "\<exists>c. vs_current vs' = Some c"
    "\<not> status_ok s \<Longrightarrow> vs_keeps (vs\<lparr>vs_descriptor_log := vs_descriptor_log vs'\<rparr>) vs'" by blast+
qed

text \<open>Recovery: the records are applied to one builder, whose version becomes the current one.\<close>

lemma recover_record_inv:
  assumes i: "builder_inv b vs extra pins" and e: "recover_record rec (s, n, b, vs) = (s', n', b', vs')"
  shows "builder_inv b' vs' extra pins \<and> vs_keeps vs vs'"
proof -
  obtain s1 edit where d: "VersionEdit_DecodeFrom rec VersionEdit_new = (s1, edit)" by (cases "VersionEdit_DecodeFrom rec VersionEdit_new")
  have "(b', vs') = Builder_Apply edit (b, vs) \<or> (b', vs') = (b, vs)"
    using e d by (auto simp: recover_record_def Let_def split: if_splits prod.splits)
  then show ?thesis
  proof
    assume "(b', vs') = Builder_Apply edit (b, vs)"
    then show ?thesis using Builder_Apply_inv(1,2) [OF i sym] by blast
  qed (use i in simp)
qed

lemma recover_loop_inv:
  "builder_inv (fst (snd (snd st))) (snd (snd (snd st))) extra pins \<Longrightarrow> recover_loop r st = (s', n', b', vs') \<Longrightarrow>
   builder_inv b' vs' extra pins \<and> vs_keeps (snd (snd (snd st))) vs'"
proof (induction r st arbitrary: s' n' b' vs' rule: recover_loop.induct)
  case (1 r st)
  obtain ok rec r' where rd: "ReadRecord r = (ok, rec, r')" by (cases "ReadRecord r")
  obtain s n b vs where st: "st = (s, n, b, vs)" by (cases st)
  have i: "builder_inv b vs extra pins" using "1.prems"(1) st by simp
  let ?s = "reported r r' s"
  show ?case
  proof (cases "ok \<and> status_ok ?s")
    case True
    obtain s1 n1 b1 vs1 where rr: "recover_record rec (?s, n, b, vs) = (s1, n1, b1, vs1)" by (cases "recover_record rec (?s, n, b, vs)")
    note step = recover_record_inv [OF i rr]
    have "recover_loop r' (recover_record rec (?s, n, b, vs)) = (s', n', b', vs')"
      using "1.prems"(2) True by (subst (asm) recover_loop.simps) (simp add: rd st Let_def)
    then have "builder_inv b' vs' extra pins \<and> vs_keeps vs1 vs'"
      using "1.IH" [OF refl rd [symmetric] refl refl st [symmetric] refl refl refl True] step rr rd by simp
    then show ?thesis using step vs_keeps_trans [of vs vs1 vs'] i st by (auto simp: builder_inv_def)
  next
    case False
    then have "(s', n', b', vs') = (?s, n, b, vs)" using "1.prems"(2) by (subst (asm) recover_loop.simps) (auto simp: rd st Let_def split: if_splits)
    then show ?thesis using i st by simp
  qed
qed

lemma ReuseManifest_fields:
  "ReuseManifest env d vs = (r, vs') \<Longrightarrow> vs_versions vs' = vs_versions vs \<and> vs_files vs' = vs_files vs \<and>
   vs_fresh_version vs' = vs_fresh_version vs \<and> vs_fresh_file vs' = vs_fresh_file vs \<and> vs_current vs' = vs_current vs"
  by (auto simp: ReuseManifest_def split: if_splits option.splits sum.splits)

lemma MarkFileNumberUsed_fields:
  "MarkFileNumberUsed n vs = vs\<lparr>vs_next_file_number := vs_next_file_number (MarkFileNumberUsed n vs)\<rparr>"
  by (simp add: MarkFileNumberUsed_def)

lemma builder_inv_cong:
  "builder_inv b vs extra pins \<Longrightarrow> vs_versions vs' = vs_versions vs \<Longrightarrow> vs_files vs' = vs_files vs \<Longrightarrow>
   vs_fresh_version vs' = vs_fresh_version vs \<Longrightarrow> vs_fresh_file vs' = vs_fresh_file vs \<Longrightarrow> builder_inv b vs' extra pins"
  unfolding builder_inv_def by (rule vs_inv_cong)

lemma VersionSet_Recover_inv:
  assumes i: "vs_inv vs extra (cur_pins vs pins)" and c: "vs_current vs = Some c"
    and e: "VersionSet_Recover env vs = (s, save, vs')"
  shows "vs_inv vs' extra (cur_pins vs' pins)" "same_files vs vs'" "\<exists>c. vs_current vs' = Some c"
proof -
  let ?name = "DescriptorFileName (vs_dbpath vs) (vs_dbname vs) 1"
  have "vs_inv vs' extra (cur_pins vs' pins) \<and> same_files vs vs' \<and> (\<exists>c. vs_current vs' = Some c)"
  proof (cases "env_NewSequentialFile env ?name")
    case (Inl x)
    then have "vs' = vs" using e by (simp add: VersionSet_Recover_def Let_def)
    then show ?thesis using i c by simp
  next
    case (Inr fil)
    obtain b vs1 where b: "Builder_new vs = (b, vs1)" by (cases "Builder_new vs")
    let ?none = "\<lparr>rc_log_number = None, rc_prev_log_number = None, rc_next_file = None, rc_last_sequence = None\<rparr>"
    obtain s2 n b2 vs2 where l: "recover_loop (Reader_new fil True 0) (OK, ?none, b, vs1) = (s2, n, b2, vs2)"
      by (cases "recover_loop (Reader_new fil True 0) (OK, ?none, b, vs1)")
    note nw = Builder_new_inv [OF i c b]
    have i2: "builder_inv b2 vs2 extra (cur_pins vs pins)" and k: "vs_keeps vs1 vs2"
      using recover_loop_inv [OF _ l, of extra "cur_pins vs pins"] nw(1) by simp_all
    have r: "same_files vs vs1" by (simp add: nw(2) same_files_def Version_Ref_def Let_def update_version_def)
    have f1: "\<forall>f. vs_fresh_file vs \<le> f \<longrightarrow> vs_files vs f = None" using vs_invD(6) [OF i] by blast
    have s12: "same_files vs vs2" by (rule same_files_trans [OF r _ f1]) (use k in \<open>simp add: vs_keeps_def\<close>)
    have c2: "vs_current vs2 = Some c" using k nw(2) c by (simp add: vs_keeps_def)
    show ?thesis
    proof (cases "status_ok s2 \<and> status_ok (recovered_status n)")
      case False
      define vs3 where "vs3 = (if status_ok s2 then MarkFileNumberUsed (number_or_zero (rc_log_number n))
                                 (MarkFileNumberUsed (number_or_zero (rc_prev_log_number n)) vs2) else vs2)"
      have v': "vs' = Builder_delete b2 vs3"
        using e Inr b l False by (cases "status_ok s2") (simp_all add: VersionSet_Recover_def Let_def vs3_def)
      have fl: "vs_versions vs3 = vs_versions vs2" "vs_files vs3 = vs_files vs2" "vs_fresh_version vs3 = vs_fresh_version vs2"
          "vs_fresh_file vs3 = vs_fresh_file vs2" "vs_current vs3 = vs_current vs2"
        by (simp_all add: vs3_def MarkFileNumberUsed_def)
      have i3: "builder_inv b2 vs3 extra (cur_pins vs pins)" by (rule builder_inv_cong [OF i2 fl(1-4)])
      note d = Builder_delete_inv [OF i3]
      have cur: "vs_current vs' = Some c" using vs_frameD(11) [OF d(3)] fl(5) c2 v' by simp
      have "same_files vs vs3" using s12 fl by (simp add: same_files_def)
      then have "same_files vs vs'" unfolding v' by (rule same_files_trans [OF _ d(2) f1])
      then show ?thesis using d(1) cur c by (simp add: v' cur_pins_def)
    next
      case True
      define vs3 where "vs3 = MarkFileNumberUsed (number_or_zero (rc_log_number n))
                                 (MarkFileNumberUsed (number_or_zero (rc_prev_log_number n)) vs2)"
      obtain v vs4 where sv: "Builder_SaveTo b2 Version_new vs3 = (v, vs4)" by (cases "Builder_SaveTo b2 Version_new vs3")
      let ?v = "Finalize (file_at vs4) v"
      let ?app = "AppendVersion ?v vs4"
      let ?next = "number_or_zero (rc_next_file n)"
      let ?vs5 = "?app\<lparr>vs_manifest_file_number := ?next, vs_next_file_number := ?next + 1,
                      vs_last_sequence := number_or_zero (rc_last_sequence n),
                      vs_log_number := number_or_zero (rc_log_number n),
                      vs_prev_log_number := number_or_zero (rc_prev_log_number n)\<rparr>"
      obtain ru vs6 where ru: "ReuseManifest env ?name ?vs5 = (ru, vs6)" by (cases "ReuseManifest env ?name ?vs5")
      have v': "vs' = Builder_delete b2 vs6"
        using e unfolding VersionSet_Recover_def Let_def Inr sum.case b prod.case l using True
        by (simp add: vs3_def [symmetric] sv ru)
      have fl: "vs_versions vs3 = vs_versions vs2" "vs_files vs3 = vs_files vs2" "vs_fresh_version vs3 = vs_fresh_version vs2"
          "vs_fresh_file vs3 = vs_fresh_file vs2" "vs_current vs3 = vs_current vs2"
        by (simp_all add: vs3_def MarkFileNumberUsed_def)
      have i3: "builder_inv b2 vs3 extra (cur_pins vs pins)" by (rule builder_inv_cong [OF i2 fl(1-4)])
      note sc = Builder_SaveTo_inv [OF i3 sv]
      have c4: "vs_current vs4 = Some c" using sc(2) fl(5) c2 by (simp add: vs_keeps_def)
      let ?pins = "add_mset (b_base b2) pins"
      have i4: "vs_inv vs4 (mset (concat (ver_files ?v)) + (builder_files b2 + extra)) (cur_pins vs4 ?pins)"
        using sc(1) c4 c by (simp add: builder_inv_def cur_pins_def ac_simps add_mset_commute)
      note ap = AppendVersion_inv [OF i4]
      note rf = ReuseManifest_fields [OF ru, simplified]
      have "vs_inv vs6 (builder_files b2 + extra) (cur_pins ?app ?pins)" by (rule vs_inv_cong [OF ap(1)]) (use rf in simp_all)
      then have i6: "builder_inv b2 vs6 extra (cur_pins ?app pins)" by (simp add: builder_inv_def cur_pins_add)
      note d = Builder_delete_inv [OF i6]
      have cur: "vs_current vs' = vs_current ?app" using vs_frameD(11) [OF d(3)] rf v' by simp
      have sA: "same_files vs vs3" using s12 fl by (simp add: same_files_def)
      have sB: "same_files vs vs4" by (rule same_files_trans [OF sA _ f1]) (use sc(2) in \<open>simp add: vs_keeps_def\<close>)
      have sC: "same_files vs ?app" by (rule same_files_trans [OF sB ap(2) f1])
      have sD: "same_files vs vs6" using sC rf by (simp add: same_files_def)
      have "same_files vs vs'" unfolding v' by (rule same_files_trans [OF sD d(2) f1])
      then show ?thesis using d(1) cur ap(3) by (simp add: v' cur_pins_def)
    qed
  qed
  then show "vs_inv vs' extra (cur_pins vs' pins)" "same_files vs vs'" "\<exists>c. vs_current vs' = Some c" by blast+
qed

section \<open>Reachable states\<close>

text \<open>
  What the database does with its version set: edits, recovery, numbers, and references on the current
  version by readers, iterators and compactions, kept in \<open>pins\<close> until they are dropped.
\<close>

inductive vs_step :: "version_set \<times> nat multiset \<Rightarrow> version_set \<times> nat multiset \<Rightarrow> bool" where
  log: "LogAndApply env edit vs = (s, vs', deleted) \<Longrightarrow> vs_step (vs, pins) (vs', pins)"
| recover: "VersionSet_Recover env vs = (s, save, vs') \<Longrightarrow> vs_step (vs, pins) (vs', pins)"
| ref: "vs_current vs = Some c \<Longrightarrow> vs_step (vs, pins) (Version_Ref c vs, add_mset c pins)"
| unref: "a \<in># pins \<Longrightarrow> vs_step (vs, pins) (Version_Unref a vs, pins - {#a#})"
| new_number: "NewFileNumber vs = (n, vs') \<Longrightarrow> vs_step (vs, pins) (vs', pins)"
| reuse_number: "vs_step (vs, pins) (ReuseFileNumber n vs, pins)"
| mark_number: "vs_step (vs, pins) (MarkFileNumberUsed n vs, pins)"
| sequence: "vs_step (vs, pins) (VersionSet_SetLastSequence n vs, pins)"

inductive_cases vs_step_elim: "vs_step (vs, pins) st"

inductive vs_reachable :: "version_set \<times> nat multiset \<Rightarrow> bool" where
  init: "vs_reachable (VersionSet_new dbpath dbname opt cmp, {#})"
| step: "vs_reachable st \<Longrightarrow> vs_step st st' \<Longrightarrow> vs_reachable st'"

definition vs_ok :: "version_set \<times> nat multiset \<Rightarrow> bool" where
  "vs_ok st \<longleftrightarrow> vs_inv (fst st) {#} (cur_pins (fst st) (snd st)) \<and> vs_current (fst st) \<noteq> None"

lemma vs_ok_frame:
  "vs_ok (vs, pins) \<Longrightarrow> vs_versions vs' = vs_versions vs \<Longrightarrow> vs_files vs' = vs_files vs \<Longrightarrow>
   vs_fresh_version vs' = vs_fresh_version vs \<Longrightarrow> vs_fresh_file vs' = vs_fresh_file vs \<Longrightarrow> vs_current vs' = vs_current vs \<Longrightarrow>
   vs_ok (vs', pins) \<and> same_files vs vs'"
  using vs_inv_cong [of vs "{#}" "cur_pins vs pins" vs'] by (auto simp: vs_ok_def cur_pins_def same_files_def)

lemma vs_step_ok:
  assumes ok: "vs_ok st" and step: "vs_step st st'"
  shows "vs_ok st' \<and> same_files (fst st) (fst st')"
  using step
proof cases
  case (log env edit vs s vs' deleted pins)
  obtain c where c: "vs_current vs = Some c" using ok log by (auto simp: vs_ok_def)
  show ?thesis using LogAndApply_inv [OF _ c log(3), of "{#}" pins] ok log by (auto simp: vs_ok_def)
next
  case (recover env vs s save vs' pins)
  obtain c where c: "vs_current vs = Some c" using ok recover by (auto simp: vs_ok_def)
  show ?thesis using VersionSet_Recover_inv [OF _ c recover(3), of "{#}" pins] ok recover by (auto simp: vs_ok_def)
next
  case (ref vs c pins)
  have i: "vs_inv vs {#} (cur_pins vs pins)" using ok ref by (simp add: vs_ok_def)
  have "c \<in> fst ` set (vs_versions vs)" using vs_invD(4) [OF i, of c] ref by (simp add: cur_pins_def)
  then have "vs_inv (Version_Ref c vs) {#} (add_mset c (cur_pins vs pins))" by (rule Version_Ref_inv [OF i])
  moreover have "same_files vs (Version_Ref c vs)" by (simp add: same_files_def Version_Ref_def Let_def update_version_def)
  ultimately show ?thesis using ref by (simp add: vs_ok_def cur_pins_def add_mset_commute)
next
  case (unref a pins vs)
  have i: "vs_inv vs {#} (add_mset a (cur_pins vs (pins - {#a#})))"
    using ok unref by (simp add: vs_ok_def cur_pins_add [symmetric])
  have "vs_current (Version_Unref a vs) = vs_current vs" by (rule vs_frameD(11)) simp
  then show ?thesis using Version_Unref_inv [OF i] ok unref by (simp add: vs_ok_def cur_pins_def)
qed (use vs_ok_frame ok in \<open>auto simp: NewFileNumber_def ReuseFileNumber_def MarkFileNumberUsed_def VersionSet_SetLastSequence_def\<close>)

lemma vs_reachable_ok: "vs_reachable st \<Longrightarrow> vs_ok st"
proof (induction rule: vs_reachable.induct)
  case (init dbpath dbname opt cmp)
  have "vs_current (VersionSet_new dbpath dbname opt cmp) \<noteq> None" by (simp add: VersionSet_new_def AppendVersion_def Let_def)
  then show ?case using VersionSet_new_inv [of dbpath dbname opt cmp] by (simp add: vs_ok_def)
qed (use vs_step_ok in blast)

end
