(* ===== verification/Compaction.thy ===== *)
theory Compaction
  imports VersionSet
begin

text \<open>
  Compactions in \<open>db/version_set.cpp\<close>: which files are compacted, and the tests the compaction makes
  while it writes its outputs. A search for overlapping files that does not end is \<open>None\<close>.
\<close>

record compaction =
  c_level :: nat
  c_max_output_file_size :: u64
  c_input_version :: "nat option"
  c_edit :: version_edit
  c_inputs0 :: "fptr list"
  c_inputs1 :: "fptr list"
  c_grandparents :: "fptr list"
  c_grandparent_index :: nat
  c_seen_key :: bool
  c_overlapped_bytes :: u64
  c_level_ptrs :: "nat list"

definition Compaction_new :: "nat \<Rightarrow> compaction" where
  "Compaction_new level =
     \<lparr>c_level = level, c_max_output_file_size = MaxFileSizeForLevel level, c_input_version = None,
      c_edit = VersionEdit_new, c_inputs0 = [], c_inputs1 = [], c_grandparents = [], c_grandparent_index = 0,
      c_seen_key = False, c_overlapped_bytes = 0, c_level_ptrs = replicate kNumLevels 0\<rparr>"

section \<open>Ranges\<close>

definition extend_range :: "comparator \<Rightarrow> file_meta \<Rightarrow> bytes \<times> bytes \<Rightarrow> bytes \<times> bytes" where
  "extend_range cmp f r =
     (if InternalKey_Compare cmp (fm_smallest f) (fst r) < 0 then fm_smallest f else fst r,
      if InternalKey_Compare cmp (fm_largest f) (snd r) > 0 then fm_largest f else snd r)"

definition GetRange :: "comparator \<Rightarrow> file_meta list \<Rightarrow> bytes \<times> bytes" where
  "GetRange cmp inputs =
     (case inputs of [] \<Rightarrow> ([], []) | f # fs \<Rightarrow> fold (extend_range cmp) fs (fm_smallest f, fm_largest f))"

definition GetRange2 :: "comparator \<Rightarrow> file_meta list \<Rightarrow> file_meta list \<Rightarrow> bytes \<times> bytes" where
  "GetRange2 cmp inputs1 inputs2 = GetRange cmp (inputs1 @ inputs2)"

section \<open>Inputs\<close>

text \<open>The attempt to take more files of the level without taking more of the next one.\<close>

definition expand_inputs ::
  "comparator \<Rightarrow> file_heap \<Rightarrow> version \<Rightarrow> nat \<Rightarrow> bytes \<times> bytes \<Rightarrow> fptr list \<times> fptr list \<Rightarrow>
     (fptr list \<times> fptr list \<times> bytes) option" where
  "expand_inputs cmp fs v level all inputs =
     (case inputs of (inputs0, inputs1) \<Rightarrow>
        let largest = snd (GetRange cmp (map fs inputs0))
        in if inputs1 = [] then Some (inputs0, inputs1, largest)
           else do {
             expanded0 \<leftarrow> GetOverlappingInputs cmp fs v level (Some (fst all)) (Some (snd all));
             let inputs1_size = TotalFileSize (map fs inputs1);
             let expanded0_size = TotalFileSize (map fs expanded0);
             if length expanded0 > length inputs0 \<and>
                sint (word_of_int inputs1_size + word_of_int expanded0_size :: u64) < kExpandedCompactionByteSizeLimit
             then do {
               let new = GetRange cmp (map fs expanded0);
               expanded1 \<leftarrow> GetOverlappingInputs cmp fs v (level + 1) (Some (fst new)) (Some (snd new));
               if length expanded1 = length inputs1 then Some (expanded0, expanded1, snd new)
               else Some (inputs0, inputs1, largest) }
             else Some (inputs0, inputs1, largest) })"

definition SetupOtherInputs :: "compaction \<Rightarrow> version_set \<Rightarrow> (compaction \<times> version_set) option" where
  "SetupOtherInputs c vs =
     (let cmp = vs_cmp vs; fs = file_at vs; v = vs_current_version vs; level = c_level c;
          range0 = GetRange cmp (map fs (c_inputs0 c))
      in do {
        inputs1 \<leftarrow> GetOverlappingInputs cmp fs v (level + 1) (Some (fst range0)) (Some (snd range0));
        let all = GetRange2 cmp (map fs (c_inputs0 c)) (map fs inputs1);
        (inputs0, inputs1, largest) \<leftarrow> expand_inputs cmp fs v level all (c_inputs0 c, inputs1);
        let all = GetRange2 cmp (map fs inputs0) (map fs inputs1);
        grandparents \<leftarrow> (if level + 2 < kNumLevels
                         then GetOverlappingInputs cmp fs v (level + 2) (Some (fst all)) (Some (snd all))
                         else Some (c_grandparents c));
        Some (c\<lparr>c_inputs0 := inputs0, c_inputs1 := inputs1, c_grandparents := grandparents,
                c_edit := SetCompactPointer level largest (c_edit c)\<rparr>,
              vs\<lparr>vs_compact_pointer := (vs_compact_pointer vs)[level := largest]\<rparr>) })"

text \<open>The first file past the compaction pointer, or the first file of the level.\<close>

definition pick_file :: "version_set \<Rightarrow> nat \<Rightarrow> fptr" where
  "pick_file vs level =
     (let files = level_files (vs_current_version vs) level; p = vs_compact_pointer vs ! level
      in case find (\<lambda>f. p = [] \<or> InternalKey_Compare (vs_cmp vs) (fm_largest (file_at vs f)) p > 0) files of
           Some f \<Rightarrow> f
         | None \<Rightarrow> files ! 0)"

text \<open>\<open>None\<close> inside: no compaction to do.\<close>

definition PickCompaction :: "version_set \<Rightarrow> (compaction option \<times> version_set) option" where
  "PickCompaction vs =
     (let v = vs_current_version vs;
          picked =
            (if ver_compaction_score v \<ge> 1 then
               (let level = nat (ver_compaction_level v) in Some (level, pick_file vs level))
             else
               (case ver_file_to_compact v of
                  Some f \<Rightarrow> Some (nat (ver_file_to_compact_level v), f)
                | None \<Rightarrow> None))
      in case picked of
           None \<Rightarrow> Some (None, vs)
         | Some (level, f) \<Rightarrow> do {
             let c = (Compaction_new level)\<lparr>c_inputs0 := [f], c_input_version := vs_current vs\<rparr>;
             let vs = Version_Ref (the (vs_current vs)) vs;
             inputs0 \<leftarrow> (if level = 0 then
                           (let r = GetRange (vs_cmp vs) (map (file_at vs) (c_inputs0 c))
                            in GetOverlappingInputs (vs_cmp vs) (file_at vs) (vs_current_version vs) 0
                                 (Some (fst r)) (Some (snd r)))
                         else Some (c_inputs0 c));
             (c, vs) \<leftarrow> SetupOtherInputs (c\<lparr>c_inputs0 := inputs0\<rparr>) vs;
             Some (Some c, vs) })"

text \<open>The files up to the one with which the total size reaches the limit.\<close>

fun limit_inputs :: "u64 \<Rightarrow> (fptr \<Rightarrow> file_meta) \<Rightarrow> fptr list \<Rightarrow> u64 \<Rightarrow> fptr list" where
  "limit_inputs limit fs [] tot = []"
| "limit_inputs limit fs (f # rest) tot =
     (let tot = tot + fm_file_size (fs f)
      in f # (if tot \<ge> limit then [] else limit_inputs limit fs rest tot))"

definition VersionSet_CompactRange ::
  "nat \<Rightarrow> bytes option \<Rightarrow> bytes option \<Rightarrow> version_set \<Rightarrow> (compaction option \<times> version_set) option" where
  "VersionSet_CompactRange level begin_key end_key vs =
     do {
       inputs \<leftarrow> GetOverlappingInputs (vs_cmp vs) (file_at vs) (vs_current_version vs) level begin_key end_key;
       if inputs = [] then Some (None, vs)
       else do {
         let inputs = (if level > 0 then limit_inputs (MaxFileSizeForLevel level) (file_at vs) inputs 0 else inputs);
         let c = (Compaction_new level)\<lparr>c_inputs0 := inputs, c_input_version := vs_current vs\<rparr>;
         (c, vs) \<leftarrow> SetupOtherInputs c (Version_Ref (the (vs_current vs)) vs);
         Some (Some c, vs) } }"

section \<open>While compacting\<close>

definition IsTrivialMove :: "file_heap \<Rightarrow> compaction \<Rightarrow> bool" where
  "IsTrivialMove fs c \<longleftrightarrow> length (c_inputs0 c) = 1 \<and> length (c_inputs1 c) = 0 \<and>
     TotalFileSize (map fs (c_grandparents c)) \<le> kMaxGrandParentOverlapBytes"

definition AddInputDeletions :: "file_heap \<Rightarrow> compaction \<Rightarrow> version_edit \<Rightarrow> version_edit" where
  "AddInputDeletions fs c edit =
     fold (\<lambda>f. DeleteFile (c_level c + 1) (fm_number (fs f))) (c_inputs1 c)
       (fold (\<lambda>f. DeleteFile (c_level c) (fm_number (fs f))) (c_inputs0 c) edit)"

text \<open>The inner loop over the files of one level: whether the key is in a file's range, and the new index.\<close>

function base_level_loop :: "comparator \<Rightarrow> bytes \<Rightarrow> file_meta list \<Rightarrow> nat \<Rightarrow> bool \<times> nat" where
  "base_level_loop cmp user_key files ptr =
     (if ptr < length files then
        if Compare cmp user_key (largest_user (files ! ptr)) \<le> 0
        then (Compare cmp user_key (smallest_user (files ! ptr)) \<ge> 0, ptr)
        else base_level_loop cmp user_key files (ptr + 1)
      else (False, ptr))"
  by pat_completeness auto
termination by (relation "measure (\<lambda>(cmp, k, files, ptr). length files - ptr)") auto

declare base_level_loop.simps [simp del]

fun base_levels :: "comparator \<Rightarrow> (nat \<Rightarrow> file_meta list) \<Rightarrow> bytes \<Rightarrow> nat list \<Rightarrow> nat list \<Rightarrow> bool \<times> nat list" where
  "base_levels cmp files user_key [] ptrs = (True, ptrs)"
| "base_levels cmp files user_key (lvl # lvls) ptrs =
     (let (inside, ptr) = base_level_loop cmp user_key (files lvl) (ptrs ! lvl); ptrs = ptrs[lvl := ptr]
      in if inside then (False, ptrs) else base_levels cmp files user_key lvls ptrs)"

definition IsBaseLevelForKey :: "version_set \<Rightarrow> bytes \<Rightarrow> compaction \<Rightarrow> bool \<times> compaction" where
  "IsBaseLevelForKey vs user_key c =
     (let v = version_at vs (the (c_input_version c));
          (r, ptrs) = base_levels (vs_cmp vs) (level_metas (file_at vs) v) user_key [c_level c + 2..<kNumLevels] (c_level_ptrs c)
      in (r, c\<lparr>c_level_ptrs := ptrs\<rparr>))"

function grandparent_loop :: "comparator \<Rightarrow> file_heap \<Rightarrow> bytes \<Rightarrow> compaction \<Rightarrow> compaction" where
  "grandparent_loop cmp fs internal_key c =
     (if c_grandparent_index c < length (c_grandparents c) \<and>
         InternalKey_Compare cmp internal_key (fm_largest (fs (c_grandparents c ! c_grandparent_index c))) > 0
      then grandparent_loop cmp fs internal_key
             (c\<lparr>c_overlapped_bytes :=
                  (if c_seen_key c
                   then c_overlapped_bytes c + fm_file_size (fs (c_grandparents c ! c_grandparent_index c))
                   else c_overlapped_bytes c),
                c_grandparent_index := c_grandparent_index c + 1\<rparr>)
      else c)"
  by pat_completeness auto
termination
  by (relation "measure (\<lambda>(cmp, fs, k, c). length (c_grandparents c) - c_grandparent_index c)") auto

declare grandparent_loop.simps [simp del]

definition ShouldStopBefore :: "comparator \<Rightarrow> file_heap \<Rightarrow> bytes \<Rightarrow> compaction \<Rightarrow> bool \<times> compaction" where
  "ShouldStopBefore cmp fs internal_key c =
     (let c = (grandparent_loop cmp fs internal_key c)\<lparr>c_seen_key := True\<rparr>
      in if sint (c_overlapped_bytes c) > kMaxGrandParentOverlapBytes
         then (True, c\<lparr>c_overlapped_bytes := 0\<rparr>) else (False, c))"

definition ReleaseInputs :: "compaction \<Rightarrow> version_set \<Rightarrow> compaction \<times> version_set" where
  "ReleaseInputs c vs =
     (case c_input_version c of
        Some v \<Rightarrow> (c\<lparr>c_input_version := None\<rparr>, Version_Unref v vs)
      | None \<Rightarrow> (c, vs))"

end
