(* ===== verification/CompactionProofs.thy ===== *)
theory CompactionProofs
  imports Compaction
begin

text \<open>
  The inputs of a compaction cover what overlaps them, and the test for the base level of a key is
  exact along a sequence of keys that does not decrease.
\<close>

section \<open>Ranges cover their files\<close>

definition range_covers :: "comparator \<Rightarrow> bytes \<times> bytes \<Rightarrow> file_meta \<Rightarrow> bool" where
  "range_covers cmp r f \<longleftrightarrow>
     InternalKey_Compare cmp (fst r) (fm_smallest f) \<le> 0 \<and> InternalKey_Compare cmp (fm_largest f) (snd r) \<le> 0"

definition range_ok :: "(bytes \<Rightarrow> bool) \<Rightarrow> bytes \<times> bytes \<Rightarrow> bool" where
  "range_ok ok r \<longleftrightarrow> internal_ok ok (fst r) \<and> internal_ok ok (snd r)"

context user_comparator
begin

lemma extend_range_covers:
  assumes "file_ok cmp ok f" "range_ok ok r"
  shows "range_ok ok (extend_range cmp f r)" "range_covers cmp (extend_range cmp f r) f"
    "file_ok cmp ok g \<Longrightarrow> range_covers cmp r g \<Longrightarrow> range_covers cmp (extend_range cmp f r) g"
proof -
  have ok: "internal_ok ok (fm_smallest f)" "internal_ok ok (fm_largest f)" "internal_ok ok (fst r)" "internal_ok ok (snd r)"
    using assms by (simp_all add: file_ok_def range_ok_def)
  show "range_ok ok (extend_range cmp f r)" using ok by (simp add: extend_range_def range_ok_def)
  have lo: "InternalKey_Compare cmp (fst (extend_range cmp f r)) (fm_smallest f) \<le> 0"
    "InternalKey_Compare cmp (fst (extend_range cmp f r)) (fst r) \<le> 0"
    using internal.compare_refl internal.compare_flip [of "fm_smallest f" "fst r"] ok
    by (auto simp: extend_range_def)
  have hi: "InternalKey_Compare cmp (fm_largest f) (snd (extend_range cmp f r)) \<le> 0"
    "InternalKey_Compare cmp (snd r) (snd (extend_range cmp f r)) \<le> 0"
    using internal.compare_refl internal.compare_flip [of "snd r" "fm_largest f"] ok
    by (auto simp: extend_range_def)
  show "range_covers cmp (extend_range cmp f r) f" using lo hi by (simp add: range_covers_def)
  have e: "internal_ok ok (fst (extend_range cmp f r))" "internal_ok ok (snd (extend_range cmp f r))"
    using ok by (simp_all add: extend_range_def)
  show "range_covers cmp (extend_range cmp f r) g" if g: "file_ok cmp ok g" "range_covers cmp r g"
    using internal.compare_le_trans [of "fst (extend_range cmp f r)" "fst r" "fm_smallest g"]
      internal.compare_le_trans [of "fm_largest g" "snd r" "snd (extend_range cmp f r)"] lo hi e ok g
    by (simp add: range_covers_def file_ok_def)
qed

lemma fold_extend_range:
  "files_ok cmp ok fs \<Longrightarrow> range_ok ok r \<Longrightarrow>
   range_ok ok (fold (extend_range cmp) fs r) \<and> (\<forall>f\<in>set fs. range_covers cmp (fold (extend_range cmp) fs r) f) \<and>
   (\<forall>g. file_ok cmp ok g \<longrightarrow> range_covers cmp r g \<longrightarrow> range_covers cmp (fold (extend_range cmp) fs r) g)"
proof (induction fs arbitrary: r)
  case (Cons f fs)
  have f: "file_ok cmp ok f" "files_ok cmp ok fs" using Cons.prems(1) by (simp_all add: files_ok_def)
  note e = extend_range_covers [OF f(1) Cons.prems(2)]
  note IH = Cons.IH [OF f(2) e(1)]
  show ?case using IH e(2,3) f(1) by auto
qed simp

lemma GetRange_covers:
  assumes "files_ok cmp ok fs" "fs \<noteq> []"
  shows "range_ok ok (GetRange cmp fs)" "f \<in> set fs \<Longrightarrow> range_covers cmp (GetRange cmp fs) f"
proof -
  obtain g gs where fs: "fs = g # gs" using assms(2) by (cases fs) auto
  have g: "file_ok cmp ok g" "files_ok cmp ok gs" using assms(1) fs by (simp_all add: files_ok_def)
  have r: "range_ok ok (fm_smallest g, fm_largest g)" "range_covers cmp (fm_smallest g, fm_largest g) g"
    using g(1) internal.compare_refl by (auto simp: range_ok_def range_covers_def file_ok_def)
  note e = fold_extend_range [OF g(2) r(1)]
  show "range_ok ok (GetRange cmp fs)" using e by (simp add: GetRange_def fs)
  show "range_covers cmp (GetRange cmp fs) f" if "f \<in> set fs"
    using e g(1) r(2) that by (auto simp: GetRange_def fs)
qed

text \<open>A file within a range overlaps it.\<close>

lemma covers_overlaps:
  assumes "range_covers cmp r f" "file_ok cmp ok f" "range_ok ok r"
  shows "file_overlaps cmp (user_key_of (Some (fst r))) (user_key_of (Some (snd r))) f"
proof -
  have ok: "internal_ok ok (fm_smallest f)" "internal_ok ok (fm_largest f)" "internal_ok ok (fst r)" "internal_ok ok (snd r)"
    using assms by (simp_all add: file_ok_def range_ok_def)
  note u = file_user_keys [OF assms(2)]
  have uk: "ok (ExtractUserKey (fst r))" "ok (ExtractUserKey (snd r))" using ok by (simp_all add: internal_ok_def)
  have lo: "Compare cmp (ExtractUserKey (fst r)) (smallest_user f) \<le> 0"
    using user_le_of_internal [OF ok(3,1)] assms(1) by (simp add: range_covers_def smallest_user_def)
  have hi: "Compare cmp (largest_user f) (ExtractUserKey (snd r)) \<le> 0"
    using user_le_of_internal [OF ok(2,4)] assms(1) by (simp add: range_covers_def largest_user_def)
  have a: "Compare cmp (ExtractUserKey (fst r)) (largest_user f) \<le> 0"
    using compare_le_trans [OF uk(1) u(1,2) lo u(3)] .
  have b: "Compare cmp (smallest_user f) (ExtractUserKey (snd r)) \<le> 0"
    using compare_le_trans [OF u(1,2) uk(2) u(3) hi] .
  show ?thesis using a b compare_flip [OF u(1) uk(2)]
    by (auto simp: file_overlaps_def AfterFile_def BeforeFile_def user_key_of_def)
       (use compare_flip [OF uk(2) u(1)] in simp)
qed

lemma near_overlaps:
  assumes "range_covers cmp r f" "file_ok cmp ok f" "range_ok ok r" "file_ok cmp ok g" "\<not> files_apart cmp f g"
  shows "file_overlaps cmp (user_key_of (Some (fst r))) (user_key_of (Some (snd r))) g"
proof -
  have ok: "internal_ok ok (fm_smallest f)" "internal_ok ok (fm_largest f)" "internal_ok ok (fst r)" "internal_ok ok (snd r)"
    using assms(1-3) by (simp_all add: file_ok_def range_ok_def)
  note u = file_user_keys [OF assms(2)] file_user_keys [OF assms(4)]
  have uk: "ok (ExtractUserKey (fst r))" "ok (ExtractUserKey (snd r))" using ok by (simp_all add: internal_ok_def)
  have lo: "Compare cmp (ExtractUserKey (fst r)) (smallest_user f) \<le> 0"
    using user_le_of_internal [OF ok(3,1)] assms(1) by (simp add: range_covers_def smallest_user_def)
  have hi: "Compare cmp (largest_user f) (ExtractUserKey (snd r)) \<le> 0"
    using user_le_of_internal [OF ok(2,4)] assms(1) by (simp add: range_covers_def largest_user_def)
  have "\<not> Compare cmp (ExtractUserKey (fst r)) (largest_user g) > 0"
    using compare_less_le_trans [OF u(5) uk(1) u(1) _ lo] compare_flip [OF u(5) uk(1)] assms(5)
    by (auto simp: files_apart_def)
  moreover have "\<not> Compare cmp (ExtractUserKey (snd r)) (smallest_user g) < 0"
    using compare_le_less_trans [OF u(2) uk(2) u(4) hi] assms(5) by (auto simp: files_apart_def)
  ultimately show ?thesis by (simp add: file_overlaps_def AfterFile_def BeforeFile_def user_key_of_def)
qed

end

section \<open>Inputs that cover what overlaps them\<close>

text \<open>
  \<open>inputs_closed\<close>: no file of the level outside shares user keys with an input (asked at level 0,
  where files may overlap); \<open>inputs_cover\<close>: every file of the next level that does is an input.
\<close>

definition inputs_closed :: "comparator \<Rightarrow> file_heap \<Rightarrow> version \<Rightarrow> nat \<Rightarrow> fptr list \<Rightarrow> bool" where
  "inputs_closed cmp fs v level inputs0 \<longleftrightarrow>
     (level = 0 \<longrightarrow> (\<forall>f\<in>set inputs0. \<forall>g\<in>set (level_files v 0). g \<notin> set inputs0 \<longrightarrow> files_apart cmp (fs f) (fs g)))"

definition inputs_cover :: "comparator \<Rightarrow> file_heap \<Rightarrow> version \<Rightarrow> nat \<Rightarrow> fptr list \<Rightarrow> fptr list \<Rightarrow> bool" where
  "inputs_cover cmp fs v level inputs0 inputs1 \<longleftrightarrow>
     (\<forall>f\<in>set inputs0. \<forall>g\<in>set (level_files v (level + 1)). g \<notin> set inputs1 \<longrightarrow> files_apart cmp (fs f) (fs g))"

text \<open>What a compaction may rely on: the inputs of a level below the last, with all that overlaps them.\<close>

definition compaction_ok :: "version_set \<Rightarrow> version \<Rightarrow> compaction \<Rightarrow> bool" where
  "compaction_ok vs v c \<longleftrightarrow> c_inputs0 c \<noteq> [] \<and>
     set (c_inputs0 c) \<subseteq> set (level_files v (c_level c)) \<and> set (c_inputs1 c) \<subseteq> set (level_files v (c_level c + 1)) \<and>
     inputs_closed (vs_cmp vs) (file_at vs) v (c_level c) (c_inputs0 c) \<and>
     inputs_cover (vs_cmp vs) (file_at vs) v (c_level c) (c_inputs0 c) (c_inputs1 c)"

text \<open>
  A picked compaction, when the size of a level or a seek asks for one: its level has a file, and a
  file to compact is a file of its level.
\<close>

definition pick_ready :: "version_set \<Rightarrow> bool" where
  "pick_ready vs \<longleftrightarrow>
     (let v = vs_current_version vs
      in (\<exists>a. vs_current vs = Some a \<and> a \<in> fst ` set (vs_versions vs)) \<and>
         (ver_compaction_score v \<ge> 1 \<longrightarrow> 0 \<le> ver_compaction_level v \<and> nat (ver_compaction_level v) + 1 < kNumLevels \<and>
            level_files v (nat (ver_compaction_level v)) \<noteq> []) \<and>
         (\<forall>f. ver_file_to_compact v = Some f \<longrightarrow> 0 \<le> ver_file_to_compact_level v \<and>
            nat (ver_file_to_compact_level v) + 1 < kNumLevels \<and>
            f \<in> set (level_files v (nat (ver_file_to_compact_level v)))))"

context user_comparator
begin

lemma level_files_ok:
  assumes "version_ok cmp ok fs v" "level < kNumLevels" "set files \<subseteq> set (level_files v level)"
  shows "files_ok cmp ok (map fs files)"
  using assms by (auto simp: version_ok_def level_metas_def files_ok_def)

text \<open>The files that overlap the range of some files.\<close>

lemma overlapping_range:
  assumes v: "version_ok cmp ok fs v" and l: "level < kNumLevels"
    and r: "range_ok ok r"
  shows "\<exists>out. GetOverlappingInputs cmp fs v level (Some (fst r)) (Some (snd r)) = Some out \<and>
    set out \<subseteq> set (level_files v level) \<and> inputs_closed cmp fs v level out \<and>
    (\<forall>f\<in>set (level_files v level). range_covers cmp r (fs f) \<longrightarrow> f \<in> set out) \<and>
    (\<forall>f. file_ok cmp ok f \<longrightarrow> range_covers cmp r f \<longrightarrow>
       (\<forall>g\<in>set (level_files v level). g \<notin> set out \<longrightarrow> files_apart cmp f (fs g)))"
proof -
  have k: "key_ok ok (user_key_of (Some (fst r)))" "key_ok ok (user_key_of (Some (snd r)))"
    using r by (simp_all add: key_ok_def user_key_of_def range_ok_def internal_ok_def)
  obtain out where o: "GetOverlappingInputs cmp fs v level (Some (fst r)) (Some (snd r)) = Some out"
    "set out \<subseteq> set (level_files v level)"
    "\<forall>f\<in>set (level_files v level). file_overlaps cmp (user_key_of (Some (fst r))) (user_key_of (Some (snd r))) (fs f) \<longrightarrow> f \<in> set out"
    "level = 0 \<longrightarrow> (\<forall>f\<in>set out. \<forall>g\<in>set (level_files v level). g \<notin> set out \<longrightarrow> files_apart cmp (fs f) (fs g))"
    using GetOverlappingInputs_spec [OF v l k] by blast
  have fok: "file_ok cmp ok (fs f)" if "f \<in> set (level_files v level)" for f
    using v l that by (auto simp: version_ok_def level_metas_def files_ok_def)
  have "\<forall>f\<in>set (level_files v level). range_covers cmp r (fs f) \<longrightarrow> f \<in> set out"
    using o(3) covers_overlaps [OF _ fok r] by blast
  moreover have "\<forall>f. file_ok cmp ok f \<longrightarrow> range_covers cmp r f \<longrightarrow>
      (\<forall>g\<in>set (level_files v level). g \<notin> set out \<longrightarrow> files_apart cmp f (fs g))"
    using o(3) near_overlaps [OF _ _ r fok] by blast
  ultimately show ?thesis using o by (auto simp: inputs_closed_def)
qed

lemma expand_inputs_cover:
  assumes v: "version_ok cmp ok fs v" and l: "level + 1 < kNumLevels"
    and i0: "inputs0 \<noteq> []" "set inputs0 \<subseteq> set (level_files v level)" "inputs_closed cmp fs v level inputs0"
    and i1: "set inputs1 \<subseteq> set (level_files v (level + 1))" "inputs_cover cmp fs v level inputs0 inputs1"
  defines "all \<equiv> GetRange2 cmp (map fs inputs0) (map fs inputs1)"
  shows "\<exists>out0 out1 largest. expand_inputs cmp fs v level all (inputs0, inputs1) = Some (out0, out1, largest) \<and>
    set inputs0 \<subseteq> set out0 \<and> set out0 \<subseteq> set (level_files v level) \<and> set out1 \<subseteq> set (level_files v (level + 1)) \<and>
    inputs_closed cmp fs v level out0 \<and> inputs_cover cmp fs v level out0 out1 \<and>
    largest = snd (GetRange cmp (map fs out0))"
proof -
  let ?keep = "\<exists>out0 out1 largest. Some (inputs0, inputs1, snd (GetRange cmp (map fs inputs0))) = Some (out0, out1, largest) \<and>
    set inputs0 \<subseteq> set out0 \<and> set out0 \<subseteq> set (level_files v level) \<and> set out1 \<subseteq> set (level_files v (level + 1)) \<and>
    inputs_closed cmp fs v level out0 \<and> inputs_cover cmp fs v level out0 out1 \<and>
    largest = snd (GetRange cmp (map fs out0))"
  have keep: ?keep using i0 i1 by blast
  have l0: "level < kNumLevels" using l by simp
  have ok0: "files_ok cmp ok (map fs inputs0)" by (rule level_files_ok [OF v l0 i0(2)])
  have ok1: "files_ok cmp ok (map fs inputs1)" by (rule level_files_ok [OF v l i1(1)])
  have okall: "files_ok cmp ok (map fs inputs0 @ map fs inputs1)" using ok0 ok1 by (auto simp: files_ok_def)
  note all = GetRange_covers [OF okall, folded GetRange2_def, folded all_def]
  have r: "range_ok ok all" using all(1) i0(1) by simp
  obtain e0 where e0: "GetOverlappingInputs cmp fs v level (Some (fst all)) (Some (snd all)) = Some e0"
    "set e0 \<subseteq> set (level_files v level)" "inputs_closed cmp fs v level e0"
    "\<forall>f\<in>set (level_files v level). range_covers cmp all (fs f) \<longrightarrow> f \<in> set e0"
    using overlapping_range [OF v l0 r] by blast
  have sub: "set inputs0 \<subseteq> set e0"
  proof
    fix f assume f: "f \<in> set inputs0"
    then have "range_covers cmp all (fs f)" using all(2) [of "fs f"] i0(1) by simp
    then show "f \<in> set e0" using e0(4) f i0(2) by blast
  qed
  then have ne: "map fs e0 \<noteq> []" using i0(1) by (cases e0) auto
  have ok2: "files_ok cmp ok (map fs e0)" by (rule level_files_ok [OF v l0 e0(2)])
  note new = GetRange_covers [OF ok2 ne]
  obtain e1 where e1: "GetOverlappingInputs cmp fs v (level + 1) (Some (fst (GetRange cmp (map fs e0)))) (Some (snd (GetRange cmp (map fs e0)))) = Some e1"
    "set e1 \<subseteq> set (level_files v (level + 1))"
    "\<forall>f. file_ok cmp ok f \<longrightarrow> range_covers cmp (GetRange cmp (map fs e0)) f \<longrightarrow>
       (\<forall>g\<in>set (level_files v (level + 1)). g \<notin> set e1 \<longrightarrow> files_apart cmp f (fs g))"
    using overlapping_range [OF v l new(1)] by blast
  have cover: "inputs_cover cmp fs v level e0 e1"
    unfolding inputs_cover_def using e1(3) new(2) ok2 by (auto simp: files_ok_def)
  show ?thesis
    unfolding expand_inputs_def Let_def prod.case e0(1) bind.bind_lunit e1(1)
    using keep sub e0 e1 cover by (auto simp: e0(1) e1(1))
qed

lemma SetupOtherInputs_cover:
  assumes vs: "vs_cmp vs = cmp" "version_ok cmp ok (file_at vs) (vs_current_version vs)"
    and l: "c_level c + 1 < kNumLevels"
    and i0: "c_inputs0 c \<noteq> []" "set (c_inputs0 c) \<subseteq> set (level_files (vs_current_version vs) (c_level c))"
      "inputs_closed cmp (file_at vs) (vs_current_version vs) (c_level c) (c_inputs0 c)"
  shows "\<exists>c' p. SetupOtherInputs c vs = Some (c', vs\<lparr>vs_compact_pointer := p\<rparr>) \<and> c_level c' = c_level c \<and>
    c_input_version c' = c_input_version c \<and>
    set (c_inputs0 c) \<subseteq> set (c_inputs0 c') \<and> compaction_ok vs (vs_current_version vs) c'"
proof -
  let ?fs = "file_at vs" and ?v = "vs_current_version vs" and ?l = "c_level c"
  have l0: "?l < kNumLevels" using l by simp
  note ok0 = level_files_ok [OF vs(2) l0 i0(2)]
  have ne: "map ?fs (c_inputs0 c) \<noteq> []" using i0(1) by simp
  note r0 = GetRange_covers [OF ok0 ne]
  obtain i1 where i1: "GetOverlappingInputs cmp ?fs ?v (?l + 1) (Some (fst (GetRange cmp (map ?fs (c_inputs0 c)))))
      (Some (snd (GetRange cmp (map ?fs (c_inputs0 c))))) = Some i1"
    "set i1 \<subseteq> set (level_files ?v (?l + 1))"
    "\<forall>f. file_ok cmp ok f \<longrightarrow> range_covers cmp (GetRange cmp (map ?fs (c_inputs0 c))) f \<longrightarrow>
       (\<forall>g\<in>set (level_files ?v (?l + 1)). g \<notin> set i1 \<longrightarrow> files_apart cmp f (?fs g))"
    using overlapping_range [OF vs(2) l r0(1)] by blast
  have cover: "inputs_cover cmp ?fs ?v ?l (c_inputs0 c) i1"
    unfolding inputs_cover_def using i1(3) r0(2) ok0 by (auto simp: files_ok_def)
  obtain out0 out1 largest where e: "expand_inputs cmp ?fs ?v ?l (GetRange2 cmp (map ?fs (c_inputs0 c)) (map ?fs i1)) (c_inputs0 c, i1) =
      Some (out0, out1, largest)"
    "set (c_inputs0 c) \<subseteq> set out0" "set out0 \<subseteq> set (level_files ?v ?l)" "set out1 \<subseteq> set (level_files ?v (?l + 1))"
    "inputs_closed cmp ?fs ?v ?l out0" "inputs_cover cmp ?fs ?v ?l out0 out1"
    using expand_inputs_cover [OF vs(2) l i0 i1(2) cover] by blast
  have out0: "out0 \<noteq> []" using e(2) i0(1) by (cases out0) auto
  have okall: "files_ok cmp ok (map ?fs out0 @ map ?fs out1)"
    using level_files_ok [OF vs(2) l0 e(3)] level_files_ok [OF vs(2) l e(4)] by (auto simp: files_ok_def)
  have "\<exists>gp. (if ?l + 2 < kNumLevels
      then GetOverlappingInputs cmp ?fs ?v (?l + 2) (Some (fst (GetRange2 cmp (map ?fs out0) (map ?fs out1))))
        (Some (snd (GetRange2 cmp (map ?fs out0) (map ?fs out1))))
      else Some (c_grandparents c)) = Some gp"
    using overlapping_range [OF vs(2), of "?l + 2" "GetRange2 cmp (map ?fs out0) (map ?fs out1)"]
      GetRange_covers(1) [OF okall] out0 by (auto simp: GetRange2_def)
  then obtain gp where gp: "(if ?l + 2 < kNumLevels
      then GetOverlappingInputs cmp ?fs ?v (?l + 2) (Some (fst (GetRange2 cmp (map ?fs out0) (map ?fs out1))))
        (Some (snd (GetRange2 cmp (map ?fs out0) (map ?fs out1))))
      else Some (c_grandparents c)) = Some gp" ..
  have "SetupOtherInputs c vs = Some (c\<lparr>c_inputs0 := out0, c_inputs1 := out1, c_grandparents := gp,
      c_edit := SetCompactPointer ?l largest (c_edit c)\<rparr>,
      vs\<lparr>vs_compact_pointer := (vs_compact_pointer vs)[?l := largest]\<rparr>)"
    unfolding SetupOtherInputs_def Let_def vs(1) i1(1) bind.bind_lunit e(1) prod.case gp ..
  then show ?thesis using e out0 vs(1) by (auto simp: compaction_ok_def)
qed

text \<open>The list of versions and the files do not change when a version is referenced, except for the count.\<close>

lemma Version_Ref_same [simp]:
  "vs_cmp (Version_Ref a vs) = vs_cmp vs" "file_at (Version_Ref a vs) = file_at vs"
  "vs_current (Version_Ref a vs) = vs_current vs" "vs_compact_pointer (Version_Ref a vs) = vs_compact_pointer vs"
  by (simp_all add: Version_Ref_def update_version_def Let_def file_at_def fun_eq_iff)

lemma Version_Ref_files:
  "version_at vs a = v \<Longrightarrow> a \<in> fst ` set (vs_versions vs) \<Longrightarrow>
   version_at (Version_Ref a vs) a = v\<lparr>ver_refs := ver_refs v + 1\<rparr>"
proof -
  assume v: "version_at vs a = v" "a \<in> fst ` set (vs_versions vs)"
  have "map_of (map (\<lambda>(b, w). (b, if b = a then x else w)) xs) a = Some x" if "a \<in> fst ` set xs" for xs :: "(nat \<times> version) list" and x
    using that by (induction xs) auto
  then show ?thesis using v by (simp add: Version_Ref_def update_version_def version_at_def Let_def)
qed

lemma version_ok_refs [simp]: "version_ok cmp ok fs (v\<lparr>ver_refs := n\<rparr>) = version_ok cmp ok fs v"
  by (simp add: version_ok_def level_metas_def level_files_def)

lemma pick_file_in: "level_files (vs_current_version vs) level \<noteq> [] \<Longrightarrow>
    pick_file vs level \<in> set (level_files (vs_current_version vs) level)"
  by (auto simp: pick_file_def Let_def find_Some_iff split: option.split)

lemma PickCompaction_cover:
  assumes vs: "vs_cmp vs = cmp" "version_ok cmp ok (file_at vs) (vs_current_version vs)" "pick_ready vs"
  shows "\<exists>r vs'. PickCompaction vs = Some (r, vs') \<and> (r = None \<longleftrightarrow> \<not> NeedsCompaction vs) \<and>
    (\<forall>c. r = Some c \<longrightarrow> c_level c + 1 < kNumLevels \<and> compaction_ok vs (vs_current_version vs) c \<and>
       c_input_version c = vs_current vs)"
proof -
  let ?v = "vs_current_version vs"
  let ?picked = "if ver_compaction_score ?v \<ge> 1 then
               (let level = nat (ver_compaction_level ?v) in Some (level, pick_file vs level))
             else
               (case ver_file_to_compact ?v of
                  Some f \<Rightarrow> Some (nat (ver_file_to_compact_level ?v), f)
                | None \<Rightarrow> None)"
  obtain a where a: "vs_current vs = Some a" "a \<in> fst ` set (vs_versions vs)"
    using vs(3) by (auto simp: pick_ready_def Let_def)
  show ?thesis
  proof (cases ?picked)
    case None
    then have "PickCompaction vs = Some (None, vs)" unfolding PickCompaction_def Let_def by simp
    moreover have "\<not> NeedsCompaction vs" using None by (auto simp: NeedsCompaction_def Let_def split: if_splits option.splits)
    ultimately show ?thesis by simp
  next
    case (Some lf)
    obtain level f where lf: "lf = (level, f)" by (cases lf)
    have needs: "NeedsCompaction vs" using Some by (auto simp: NeedsCompaction_def Let_def split: if_splits option.splits)
    have f: "level + 1 < kNumLevels" "f \<in> set (level_files ?v level)"
      using Some lf vs(3) pick_file_in [of vs] by (auto simp: pick_ready_def Let_def split: if_splits option.splits)
    define vs1 where "vs1 = Version_Ref a vs"
    have v1: "vs_current_version vs1 = ?v\<lparr>ver_refs := ver_refs ?v + 1\<rparr>"
      using Version_Ref_files [OF refl a(2)] a(1) by (simp add: vs_current_version_def vs1_def)
    have same: "level_files (vs_current_version vs1) = level_files ?v" "vs_cmp vs1 = cmp" "file_at vs1 = file_at vs"
      "vs_current vs1 = Some a"
      by (simp_all add: v1 level_files_def fun_eq_iff) (simp_all add: vs1_def vs(1) a(1))
    have ok1: "version_ok cmp ok (file_at vs1) (vs_current_version vs1)" using vs(2) by (simp add: v1 same)
    define c0 where "c0 = (Compaction_new level)\<lparr>c_inputs0 := [f], c_input_version := vs_current vs\<rparr>"
    have l0: "level < kNumLevels" using f(1) by simp
    have okf: "files_ok cmp ok (map (file_at vs1) [f])" using level_files_ok [OF ok1 l0, of "[f]"] f(2) same(1) by simp
    note rf = GetRange_covers [OF okf]
    have "\<exists>i0. (if level = 0 then
                 (let r = GetRange (vs_cmp vs1) (map (file_at vs1) (c_inputs0 c0))
                  in GetOverlappingInputs (vs_cmp vs1) (file_at vs1) (vs_current_version vs1) 0 (Some (fst r)) (Some (snd r)))
               else Some (c_inputs0 c0)) = Some i0 \<and> set i0 \<subseteq> set (level_files ?v level) \<and>
        inputs_closed cmp (file_at vs1) (vs_current_version vs1) level i0 \<and> f \<in> set i0"
    proof (cases "level = 0")
      case True
      have "range_ok ok (GetRange cmp (map (file_at vs1) [f]))" using rf by simp
      from overlapping_range [OF ok1 l0 this] obtain i0 where
        "GetOverlappingInputs cmp (file_at vs1) (vs_current_version vs1) level
           (Some (fst (GetRange cmp (map (file_at vs1) [f])))) (Some (snd (GetRange cmp (map (file_at vs1) [f])))) = Some i0"
        "set i0 \<subseteq> set (level_files ?v level)" "inputs_closed cmp (file_at vs1) (vs_current_version vs1) level i0" "f \<in> set i0"
        using rf(2) [of "file_at vs1 f"] f(2) same(1) by auto
      then show ?thesis using True by (simp add: c0_def Let_def same(2))
    qed (use f in \<open>simp add: c0_def inputs_closed_def\<close>)
    then obtain i0 where i0: "(if level = 0 then
                 (let r = GetRange (vs_cmp vs1) (map (file_at vs1) (c_inputs0 c0))
                  in GetOverlappingInputs (vs_cmp vs1) (file_at vs1) (vs_current_version vs1) 0 (Some (fst r)) (Some (snd r)))
               else Some (c_inputs0 c0)) = Some i0" "set i0 \<subseteq> set (level_files ?v level)"
        "inputs_closed cmp (file_at vs1) (vs_current_version vs1) level i0" "f \<in> set i0" by blast
    have "\<exists>c' p. SetupOtherInputs (c0\<lparr>c_inputs0 := i0\<rparr>) vs1 = Some (c', vs1\<lparr>vs_compact_pointer := p\<rparr>) \<and>
        c_level c' = c_level (c0\<lparr>c_inputs0 := i0\<rparr>) \<and> c_input_version c' = c_input_version (c0\<lparr>c_inputs0 := i0\<rparr>) \<and>
        set (c_inputs0 (c0\<lparr>c_inputs0 := i0\<rparr>)) \<subseteq> set (c_inputs0 c') \<and> compaction_ok vs1 (vs_current_version vs1) c'"
      by (rule SetupOtherInputs_cover [OF same(2) ok1])
        (use f i0 same in \<open>auto simp: c0_def Compaction_new_def\<close>)
    then obtain c' p where c': "SetupOtherInputs (c0\<lparr>c_inputs0 := i0\<rparr>) vs1 = Some (c', vs1\<lparr>vs_compact_pointer := p\<rparr>)"
      "c_level c' = level" "c_input_version c' = vs_current vs" "compaction_ok vs1 (vs_current_version vs1) c'"
      by (auto simp: c0_def Compaction_new_def)
    have "PickCompaction vs = Some (Some c', vs1\<lparr>vs_compact_pointer := p\<rparr>)"
    proof -
      have the: "the (vs_current vs) = a" using a(1) by simp
      show ?thesis
        unfolding PickCompaction_def Let_def Some [unfolded lf Let_def] option.case prod.case the
          vs1_def [symmetric] c0_def [symmetric] i0(1) [unfolded Let_def] bind.bind_lunit c'(1) ..
    qed
    moreover have "compaction_ok vs ?v c'"
      using c'(4) vs(1) by (simp add: compaction_ok_def inputs_closed_def inputs_cover_def same)
    ultimately show ?thesis using c'(2,3) f(1) needs by auto
  qed
qed

end

section \<open>The base level of a key\<close>

definition key_in_file :: "comparator \<Rightarrow> bytes \<Rightarrow> file_meta \<Rightarrow> bool" where
  "key_in_file cmp k f \<longleftrightarrow> Compare cmp k (smallest_user f) \<ge> 0 \<and> Compare cmp k (largest_user f) \<le> 0"

text \<open>The indices have only passed files that end before the key.\<close>

definition ptrs_before :: "comparator \<Rightarrow> (nat \<Rightarrow> file_meta list) \<Rightarrow> nat set \<Rightarrow> nat list \<Rightarrow> bytes \<Rightarrow> bool" where
  "ptrs_before cmp files lvls ptrs k \<longleftrightarrow>
     (\<forall>lvl\<in>lvls. \<forall>i<ptrs ! lvl. i < length (files lvl) \<longrightarrow> Compare cmp k (largest_user (files lvl ! i)) > 0)"

text \<open>The indices of a compaction, for the next keys from \<open>k\<close> on.\<close>

definition ptrs_inv :: "comparator \<Rightarrow> version_set \<Rightarrow> compaction \<Rightarrow> bytes \<Rightarrow> bool" where
  "ptrs_inv cmp vs c k \<longleftrightarrow> length (c_level_ptrs c) = kNumLevels \<and>
     ptrs_before cmp (level_metas (file_at vs) (version_at vs (the (c_input_version c)))) {c_level c + 2..<kNumLevels}
       (c_level_ptrs c) k"

context user_comparator
begin

lemma base_level_loop_spec:
  assumes srt: "level_sorted cmp files" "files_ok cmp ok files" and k: "ok k"
  shows "\<forall>i<ptr. i < length files \<longrightarrow> Compare cmp k (largest_user (files ! i)) > 0 \<Longrightarrow>
    base_level_loop cmp k files ptr = (inside, ptr') \<Longrightarrow>
    inside = (\<exists>f\<in>set files. key_in_file cmp k f) \<and>
    (\<forall>i<ptr'. i < length files \<longrightarrow> Compare cmp k (largest_user (files ! i)) > 0)"
proof (induction "length files - ptr" arbitrary: ptr rule: less_induct)
  case less
  have before: "\<not> key_in_file cmp k (files ! i)" if "i < ptr" "i < length files" for i
    using less.prems(1) that by (auto simp: key_in_file_def not_le [symmetric])
  show ?case
  proof (cases "ptr < length files")
    case False
    then have "inside = False" "ptr' = ptr" using less.prems(2) by (simp_all add: base_level_loop.simps [of cmp k files ptr])
    moreover have "\<not> (\<exists>f\<in>set files. key_in_file cmp k f)" using before False by (auto simp: in_set_conv_nth)
    ultimately show ?thesis using less.prems(1) by simp
  next
    case True
    show ?thesis
    proof (cases "Compare cmp k (largest_user (files ! ptr)) \<le> 0")
      case le: True
      then have r: "inside = (Compare cmp k (smallest_user (files ! ptr)) \<ge> 0)" "ptr' = ptr"
        using less.prems(2) True by (auto simp: base_level_loop.simps [of cmp k files ptr])
      have after: "\<not> key_in_file cmp k (files ! i)" if "ptr < i" "i < length files" "\<not> Compare cmp k (smallest_user (files ! ptr)) \<ge> 0" for i
      proof -
        have "Compare cmp (smallest_user (files ! ptr)) (smallest_user (files ! i)) \<le> 0"
          using level_user_mono(2) [OF srt that(1,2)] .
        then have "Compare cmp k (smallest_user (files ! i)) < 0"
          using compare_less_le_trans [of k "smallest_user (files ! ptr)" "smallest_user (files ! i)"] that
            file_user_keys(1) files_ok_nth [OF srt(2)] True k by simp
        then show ?thesis by (simp add: key_in_file_def)
      qed
      have "inside = (\<exists>f\<in>set files. key_in_file cmp k f)"
      proof
        assume inside
        then have "key_in_file cmp k (files ! ptr)" using r(1) le by (simp add: key_in_file_def)
        then show "\<exists>f\<in>set files. key_in_file cmp k f" using True nth_mem by blast
      next
        assume "\<exists>f\<in>set files. key_in_file cmp k f"
        then obtain i where i: "i < length files" "key_in_file cmp k (files ! i)" by (auto simp: in_set_conv_nth)
        then have "ptr \<le> i" using before by (metis linorder_not_le)
        then consider "i = ptr" | "ptr < i" by linarith
        then show inside
        proof cases
          case 1
          then show ?thesis using i(2) r(1) by (simp add: key_in_file_def)
        next
          case 2
          then show ?thesis using after i r(1) by blast
        qed
      qed
      then show ?thesis using less.prems(1) r(2) by simp
    next
      case False
      then have "base_level_loop cmp k files (ptr + 1) = (inside, ptr')"
        using less.prems(2) True by (simp add: base_level_loop.simps [of cmp k files ptr])
      moreover have "\<forall>i<ptr + 1. i < length files \<longrightarrow> Compare cmp k (largest_user (files ! i)) > 0"
        using less.prems(1) False by (auto simp: less_Suc_eq)
      ultimately show ?thesis using less.hyps [of "ptr + 1"] True by simp
    qed
  qed
qed

lemma base_levels_spec:
  assumes srt: "\<And>lvl. lvl \<in> set lvls \<Longrightarrow> level_sorted cmp (files lvl) \<and> files_ok cmp ok (files lvl) \<and> lvl < kNumLevels"
    and k: "ok k" and dist: "distinct lvls" "set lvls \<subseteq> L"
  shows "length ptrs = kNumLevels \<Longrightarrow> ptrs_before cmp files L ptrs k \<Longrightarrow> base_levels cmp files k lvls ptrs = (r, ptrs') \<Longrightarrow>
    r = (\<forall>lvl\<in>set lvls. \<forall>f\<in>set (files lvl). \<not> key_in_file cmp k f) \<and> length ptrs' = kNumLevels \<and>
    ptrs_before cmp files L ptrs' k"
  using srt dist
proof (induction lvls arbitrary: ptrs)
  case Nil
  then show ?case by simp
next
  case (Cons lvl lvls)
  obtain inside ptr where b: "base_level_loop cmp k (files lvl) (ptrs ! lvl) = (inside, ptr)"
    by (cases "base_level_loop cmp k (files lvl) (ptrs ! lvl)")
  have lv: "level_sorted cmp (files lvl)" "files_ok cmp ok (files lvl)" "lvl < kNumLevels" using Cons.prems(4) by simp_all
  have i: "inside = (\<exists>f\<in>set (files lvl). key_in_file cmp k f)"
      "\<forall>i<ptr. i < length (files lvl) \<longrightarrow> Compare cmp k (largest_user (files lvl ! i)) > 0"
    using base_level_loop_spec [OF lv(1,2) k _ b] Cons.prems(2,6) by (auto simp: ptrs_before_def)
  have p: "length (ptrs[lvl := ptr]) = kNumLevels" "ptrs_before cmp files L (ptrs[lvl := ptr]) k"
    using Cons.prems(1,2) i(2) lv(3) by (auto simp: ptrs_before_def nth_list_update)
  show ?case
  proof (cases inside)
    case True
    then have "r = False" "ptrs' = ptrs[lvl := ptr]" using Cons.prems(3) b by simp_all
    then show ?thesis using True i(1) p by auto
  next
    case False
    then have step: "base_levels cmp files k lvls (ptrs[lvl := ptr]) = (r, ptrs')" using Cons.prems(3) b by simp
    have "r = (\<forall>lvl\<in>set lvls. \<forall>f\<in>set (files lvl). \<not> key_in_file cmp k f) \<and> length ptrs' = kNumLevels \<and>
        ptrs_before cmp files L ptrs' k"
      by (rule Cons.IH [OF p step]) (use Cons.prems(4-6) in auto)
    then show ?thesis using False i(1) by auto
  qed
qed

text \<open>
  Along keys that do not decrease, \<open>IsBaseLevelForKey\<close> says exactly whether no file two or more levels
  down has the key in its range.
\<close>

lemma IsBaseLevelForKey_spec:
  assumes vs: "vs_cmp vs = cmp" "version_ok cmp ok (file_at vs) (version_at vs (the (c_input_version c)))"
    and k: "ok k" "ok k'" "Compare cmp k k' \<le> 0" and inv: "ptrs_inv cmp vs c k"
  shows "\<exists>c'. IsBaseLevelForKey vs k' c =
      ((\<forall>lvl<kNumLevels. c_level c + 2 \<le> lvl \<longrightarrow>
          (\<forall>f\<in>set (level_files (version_at vs (the (c_input_version c))) lvl). \<not> key_in_file cmp k' (file_at vs f))), c') \<and>
    ptrs_inv cmp vs c' k' \<and> c_level c' = c_level c \<and> c_input_version c' = c_input_version c"
proof -
  let ?v = "version_at vs (the (c_input_version c))"
  let ?files = "level_metas (file_at vs) ?v" and ?L = "{c_level c + 2..<kNumLevels}"
  have srt: "level_sorted cmp (?files lvl) \<and> files_ok cmp ok (?files lvl) \<and> lvl < kNumLevels" if "lvl \<in> ?L" for lvl
    using vs(2) that by (auto simp: version_ok_def)
  have "ptrs_before cmp ?files ?L (c_level_ptrs c) k'"
    unfolding ptrs_before_def
  proof (intro ballI allI impI)
    fix lvl i assume i: "lvl \<in> ?L" "i < c_level_ptrs c ! lvl" "i < length (?files lvl)"
    then have gt: "Compare cmp k (largest_user (?files lvl ! i)) > 0" using inv by (auto simp: ptrs_inv_def ptrs_before_def)
    have u: "ok (largest_user (?files lvl ! i))" using file_user_keys(2) files_ok_nth srt [OF i(1)] i(3) by blast
    have "Compare cmp (largest_user (?files lvl ! i)) k < 0" using gt compare_flip [OF u k(1)] by simp
    then have "Compare cmp (largest_user (?files lvl ! i)) k' < 0" using compare_less_le_trans [OF u k(1,2) _ k(3)] by simp
    then show "Compare cmp k' (largest_user (?files lvl ! i)) > 0" using compare_flip [OF u k(2)] by simp
  qed
  moreover obtain r ptrs' where b: "base_levels cmp ?files k' [c_level c + 2..<kNumLevels] (c_level_ptrs c) = (r, ptrs')"
    by (cases "base_levels cmp ?files k' [c_level c + 2..<kNumLevels] (c_level_ptrs c)")
  moreover have "length (c_level_ptrs c) = kNumLevels" using inv by (simp add: ptrs_inv_def)
  ultimately have s: "r = (\<forall>lvl\<in>?L. \<forall>f\<in>set (?files lvl). \<not> key_in_file cmp k' f) \<and> length ptrs' = kNumLevels \<and>
      ptrs_before cmp ?files ?L ptrs' k'"
    using base_levels_spec [of "[c_level c + 2..<kNumLevels]" ?files k' ?L "c_level_ptrs c" r ptrs'] srt k(2) by auto
  have "IsBaseLevelForKey vs k' c = (r, c\<lparr>c_level_ptrs := ptrs'\<rparr>)"
    using b vs(1) by (simp add: IsBaseLevelForKey_def Let_def)
  moreover have "r = (\<forall>lvl<kNumLevels. c_level c + 2 \<le> lvl \<longrightarrow> (\<forall>f\<in>set (level_files ?v lvl). \<not> key_in_file cmp k' (file_at vs f)))"
    using s by (auto simp: level_metas_def)
  ultimately show ?thesis using s by (auto simp: ptrs_inv_def)
qed

lemma ptrs_inv_new: "c_level_ptrs c = replicate kNumLevels 0 \<Longrightarrow> c_level c < kNumLevels \<Longrightarrow> ptrs_inv cmp vs c k"
  by (auto simp: ptrs_inv_def ptrs_before_def)

end
end
