(* ===== verification/CacheValues.thy ===== *)
theory CacheValues
  imports Cache
begin

text \<open>
  What clients of the sharded cache rely on: a value stays with its key, and a lookup finds nothing but
  values that were inserted under the key. The table cache and the block cache are its clients.
\<close>

section \<open>Values of one shard\<close>

definition heap_vals :: "(bytes \<Rightarrow> 'v \<Rightarrow> bool) \<Rightarrow> 'v lru_cache \<Rightarrow> bool" where
  "heap_vals P c \<longleftrightarrow> (\<forall>e key v. heap_kv c e = Some (key, v) \<longrightarrow> P key v)"

lemma heap_vals_le: "heap_vals P c \<Longrightarrow> heap_kv c' \<subseteq>\<^sub>m heap_kv c \<Longrightarrow> heap_vals P c'"
  by (fastforce simp: heap_vals_def map_le_def dom_def)

lemma LRUCache_Lookup_vals:
  assumes inv: "cache_inv c held" and v: "heap_vals P c" and l: "LRUCache_Lookup key hash c = (Some e, c')"
  shows "cache_inv c' (add_mset e held)" "heap_vals P c'" "heap_kv c' e = Some (key, h_value (the (lc_heap c' e)))"
    "P key (h_value (the (lc_heap c' e)))"
proof -
  note hit = LRUCache_Lookup_hit [OF inv l]
  show i: "cache_inv c' (add_mset e held)" by (rule hit(1))
  have e: "lc_heap c e \<noteq> None" by (rule cache_inv_alive [OF inv]) (use hit(3) in simp)
  have "heap_kv c' = heap_kv c"
    using l e by (auto simp: LRUCache_Lookup_def Let_def LRU_Append_def LRU_Remove_def heap_kv_def fun_eq_iff split: option.splits)
  then show vals: "heap_vals P c'" using v by (simp add: heap_vals_def)
  show "heap_kv c' e = Some (key, h_value (the (lc_heap c' e)))"
    using \<open>heap_kv c' = heap_kv c\<close> heap_kv_the [OF e] hit(4,6) by simp
  then show "P key (h_value (the (lc_heap c' e)))" using vals by (simp add: heap_vals_def)
qed

lemma LRUCache_Insert_vals:
  assumes inv: "cache_inv c held" and v: "heap_vals P c" and p: "P key val"
    and i: "LRUCache_Insert key hash val charge c = (e, c')"
  shows "cache_inv c' (add_mset e held)" "heap_vals P c'" "heap_kv c' e = Some (key, val)"
proof -
  note ins = LRUCache_Insert_inv [OF inv i]
  show "cache_inv c' (add_mset e held)" "heap_kv c' e = Some (key, val)" by (rule ins)+
  show "heap_vals P c'" unfolding heap_vals_def
  proof (intro allI impI)
    fix e' k' v'
    assume "heap_kv c' e' = Some (k', v')"
    then have "((heap_kv c)(e \<mapsto> (key, val))) e' = Some (k', v')" using ins(5) by (metis domI map_le_def)
    then show "P k' v'" using v p by (auto simp: heap_vals_def split: if_splits)
  qed
qed

lemma LRUCache_Release_vals:
  assumes "cache_inv c held" "e \<in># held" "heap_vals P c"
  shows "heap_vals P (LRUCache_Release e c)"
  using heap_vals_le [OF assms(3) heap_kv_Unref] cache_inv_alive [OF assms(1)] assms(2) by (simp add: LRUCache_Release_def)

section \<open>The sharded cache\<close>

text \<open>The handles a client holds, and those of them in one shard.\<close>

definition shard_held :: "cache_handle multiset \<Rightarrow> nat \<Rightarrow> nat multiset" where
  "shard_held held s = image_mset snd (filter_mset (\<lambda>h. fst h = s) held)"

definition cache_holds :: "(bytes \<Rightarrow> 'v \<Rightarrow> bool) \<Rightarrow> 'v sharded_cache \<Rightarrow> cache_handle multiset \<Rightarrow> bool" where
  "cache_holds P c held \<longleftrightarrow> length (sc_shard c) = kNumShards \<and>
     (\<forall>s<kNumShards. cache_inv (sc_shard c ! s) (shard_held held s) \<and> heap_vals P (sc_shard c ! s))"

lemma shard_held_add [simp]:
  "shard_held (add_mset (s, e) held) t = (if s = t then add_mset e (shard_held held t) else shard_held held t)"
  by (simp add: shard_held_def)

lemma shard_held_empty [simp]: "shard_held {#} s = {#}"
  by (simp add: shard_held_def)

lemma shard_held_remove:
  assumes "(s, e) \<in># held"
  shows "shard_held (held - {#(s, e)#}) t = (if s = t then shard_held held t - {#e#} else shard_held held t)"
proof -
  obtain rest where "held = add_mset (s, e) rest" using assms by (metis insert_DiffM)
  then show ?thesis by simp
qed

lemma shard_held_mem: "(s, e) \<in># held \<Longrightarrow> e \<in># shard_held held s"
  by (force simp: shard_held_def)

lemma Shard_less: "Shard hash < kNumShards"
proof -
  have "unat (drop_bit (32 - kNumShardBits) hash) = unat hash div 2 ^ 28"
    by (simp only: unat_drop_bit_eq) (simp add: drop_bit_eq_div kNumShardBits_def)
  also have "\<dots> < 16" using unat_lt32 [of hash] by (simp add: less_mult_imp_div_less)
  finally show ?thesis by (simp add: Shard_def kNumShards_def kNumShardBits_def)
qed

lemma cache_holds_update:
  assumes "cache_holds P c held" "s < kNumShards" "cache_inv x (shard_held held' s)" "heap_vals P x"
    "\<And>t. t \<noteq> s \<Longrightarrow> shard_held held' t = shard_held held t"
  shows "cache_holds P (c\<lparr>sc_shard := (sc_shard c)[s := x]\<rparr>) held'"
  using assms by (auto simp: cache_holds_def nth_list_update)

lemma NewLRUCache_holds: "cache_holds P (NewLRUCache capacity) {#}"
proof -
  have "heap_vals P (LRUCache_new n)" for n by (simp add: heap_vals_def heap_kv_def LRUCache_new_def)
  then show ?thesis by (simp add: cache_holds_def NewLRUCache_def Let_def LRUCache_new_inv)
qed

text \<open>What a lookup finds was inserted under the key; the caller holds the handle then.\<close>

lemma Cache_Lookup_holds:
  assumes h: "cache_holds P c held" and l: "Cache_Lookup key c = (r, c')"
  shows "r = None \<Longrightarrow> cache_holds P c' held"
    "r = Some e \<Longrightarrow> cache_holds P c' (add_mset e held) \<and> P key (Cache_Value e c')"
    "sc_last_id c' = sc_last_id c"
proof -
  let ?s = "Shard (HashSlice key)"
  have s: "?s < kNumShards" by (rule Shard_less)
  obtain q x where q: "LRUCache_Lookup key (HashSlice key) (sc_shard c ! ?s) = (q, x)" by fastforce
  have c': "c' = c\<lparr>sc_shard := (sc_shard c)[?s := x]\<rparr>" "r = map_option (Pair ?s) q"
    using l q by (simp_all add: Cache_Lookup_def Let_def)
  have i: "cache_inv (sc_shard c ! ?s) (shard_held held ?s)" "heap_vals P (sc_shard c ! ?s)" "length (sc_shard c) = kNumShards"
    using h s by (simp_all add: cache_holds_def)
  show "sc_last_id c' = sc_last_id c" by (simp add: c')
  show "cache_holds P c' held" if "r = None"
  proof -
    have "q = None" using that c' by simp
    then have "x = sc_shard c ! ?s" using LRUCache_Lookup_miss(1) [OF i(1)] q by blast
    then show ?thesis using h c' by simp
  qed
  show "cache_holds P c' (add_mset e held) \<and> P key (Cache_Value e c')" if "r = Some e"
  proof -
    obtain e0 where e0: "q = Some e0" "e = (?s, e0)" using \<open>r = Some e\<close> c'(2) by (cases q) auto
    note v = LRUCache_Lookup_vals [OF i(1,2) q [unfolded e0(1)]]
    have "cache_holds P c' (add_mset e held)"
      unfolding c'(1) e0(2) by (rule cache_holds_update [OF h s]) (use v in auto)
    then show ?thesis using v(4) s i(3) by (simp add: Cache_Value_def c'(1) e0(2))
  qed
qed

lemma Cache_Insert_holds:
  assumes h: "cache_holds P c held" and p: "P key val" and i: "Cache_Insert key val charge c = (e, c')"
  shows "cache_holds P c' (add_mset e held)" "Cache_Value e c' = val" "sc_last_id c' = sc_last_id c"
proof -
  let ?s = "Shard (HashSlice key)"
  have s: "?s < kNumShards" by (rule Shard_less)
  obtain e0 x where x: "LRUCache_Insert key (HashSlice key) val charge (sc_shard c ! ?s) = (e0, x)" by fastforce
  have c': "c' = c\<lparr>sc_shard := (sc_shard c)[?s := x]\<rparr>" "e = (?s, e0)"
    using i x by (simp_all add: Cache_Insert_def Let_def)
  have inv: "cache_inv (sc_shard c ! ?s) (shard_held held ?s)" "heap_vals P (sc_shard c ! ?s)" "length (sc_shard c) = kNumShards"
    using h s by (simp_all add: cache_holds_def)
  note v = LRUCache_Insert_vals [where P = P, OF inv(1,2) p x]
  show "cache_holds P c' (add_mset e held)"
    unfolding c' by (rule cache_holds_update [OF h s]) (use v in auto)
  show "sc_last_id c' = sc_last_id c" by (simp add: c')
  show "Cache_Value e c' = val" using v(3) s inv(3) by (auto simp: Cache_Value_def c' heap_kv_def)
qed

lemma Cache_Release_holds:
  assumes h: "cache_holds P c held" and e: "e \<in># held"
  shows "cache_holds P (Cache_Release e c) (held - {#e#})" "sc_last_id (Cache_Release e c) = sc_last_id c"
proof -
  obtain s e0 where se: "e = (s, e0)" by (cases e)
  have m: "e0 \<in># shard_held held s" using shard_held_mem e se by simp
  show "sc_last_id (Cache_Release e c) = sc_last_id c" by (simp add: Cache_Release_def se)
  show "cache_holds P (Cache_Release e c) (held - {#e#})"
  proof (cases "s < kNumShards")
    case True
    then have inv: "cache_inv (sc_shard c ! s) (shard_held held s)" "heap_vals P (sc_shard c ! s)"
      using h by (simp_all add: cache_holds_def)
    show ?thesis
      unfolding Cache_Release_def se prod.case
      by (rule cache_holds_update [OF h True])
        (use LRUCache_Release_inv [OF inv(1) m] LRUCache_Release_vals [OF inv(1) m inv(2)] shard_held_remove e se in auto)
  next
    case False
    then have "(sc_shard c)[s := x] = sc_shard c" for x
      using h False by (intro list_update_beyond) (simp add: cache_holds_def)
    then have "Cache_Release e c = c" by (simp add: Cache_Release_def se)
    moreover have "shard_held (held - {#e#}) t = shard_held held t" if "t < kNumShards" for t
      using shard_held_remove [of s e0 held t] e se False that by auto
    ultimately show ?thesis using h by (simp add: cache_holds_def)
  qed
qed

text \<open>A value that a client holds stays.\<close>

lemma Cache_NewId_holds: "cache_holds P c held \<Longrightarrow> cache_holds P (snd (Cache_NewId c)) held"
  by (simp add: cache_holds_def Cache_NewId_def)

end
