(* ===== verification/TableProofs.thy ===== *)
theory TableProofs
  imports TableIter
begin

text \<open>
  The round trip of tables: what \<open>TableBuilder\<close> writes for sorted entries, \<open>Table::Open\<close> opens, its
  iterator runs over, and \<open>InternalGet\<close> finds. The file is described by the partition of the entries
  into data blocks; the offsets and handles follow from it.
\<close>

section \<open>Stored blocks\<close>

text \<open>The form in which a block is stored: compressed when that saves an eighth.\<close>

definition stored_form :: "snappy \<Rightarrow> byte \<Rightarrow> bytes \<Rightarrow> bytes \<times> byte" where
  "stored_form sn compression raw =
     (if compression = kSnappyCompression then
        (case sn_Compress sn raw of
           Some compressed \<Rightarrow>
             if length compressed < length raw - length raw div 8 then (compressed, kSnappyCompression)
             else (raw, kNoCompression)
         | None \<Rightarrow> (raw, kNoCompression))
      else (raw, kNoCompression))"

definition raw_image :: "bytes \<times> byte \<Rightarrow> bytes" where
  "raw_image ct = fst ct @ block_trailer (fst ct) (snd ct)"

definition raw_handle :: "nat \<Rightarrow> bytes \<times> byte \<Rightarrow> block_handle" where
  "raw_handle off ct = \<lparr>bh_offset = word_of_nat off, bh_size = word_of_nat (length (fst ct))\<rparr>"

lemma length_raw_image: "length (raw_image ct) = length (fst ct) + kBlockTrailerSize"
  by (simp add: raw_image_def)

lemma ReadBlock_typed:
  assumes d: "drop (unat (bh_offset h)) data = contents @ block_trailer contents type @ rest"
    and n: "length contents = unat (bh_size h)"
  shows "ReadBlock sn (plain_file name data) verify h =
    (if type = kNoCompression then (OK, Some \<lparr>bc_data = contents, bc_cachable = True\<rparr>)
     else if type = kSnappyCompression then
       (case sn_GetUncompressedLength sn contents of
          None \<Rightarrow> (Corruption ''corrupted compressed block contents'', None)
        | Some ulength \<Rightarrow>
            (case sn_Uncompress sn contents of
               None \<Rightarrow> (Corruption ''corrupted compressed block contents'', None)
             | Some ubuf \<Rightarrow> (OK, Some \<lparr>bc_data = take ulength ubuf, bc_cachable = True\<rparr>)))
     else (Corruption ''bad block type'', None))"
proof -
  let ?n = "unat (bh_size h)"
  have r: "rf_Read (plain_file name data) (bh_offset h) (?n + kBlockTrailerSize) = (OK, contents @ block_trailer contents type)"
    using d n by simp
  have crc: "crc_Value 0 (contents @ [type]) = Unmask (DecodeFixed32 (drop 1 (block_trailer contents type)))"
    by (simp add: block_trailer_def crc_Value_def Extend_Extend [where r = 0])
  have parts: "take (?n + 1) (contents @ block_trailer contents type) = contents @ [type]"
    "take ?n (contents @ block_trailer contents type) = contents"
    "drop (?n + 1) (contents @ block_trailer contents type) = drop 1 (block_trailer contents type)"
    "(contents @ block_trailer contents type) ! ?n = type"
    using n by (simp_all add: block_trailer_def nth_append)
  show ?thesis unfolding ReadBlock_def Let_def r prod.case parts crc
    using n by (simp add: kBlockTrailerSize_def split: option.split)
qed

context snappy_laws
begin

text \<open>A block stored anywhere in a file of less than \<open>2\<^sup>6\<^sup>4\<close> bytes reads back.\<close>

lemma ReadBlock_image:
  assumes d: "data = pre @ raw_image (stored_form sn c raw) @ post" and l: "length data < 2 ^ 64"
  shows "ReadBlock sn (plain_file name data) verify (raw_handle (length pre) (stored_form sn c raw)) =
    (OK, Some \<lparr>bc_data = raw, bc_cachable = True\<rparr>)"
proof -
  obtain contents type where ct: "stored_form sn c raw = (contents, type)" by (cases "stored_form sn c raw")
  have pre: "unat (word_of_nat (length pre) :: u64) = length pre"
    by (rule word_of_nat_less_iff_bound) (use d l in simp)
  have len: "unat (word_of_nat (length contents) :: u64) = length contents"
    by (rule word_of_nat_less_iff_bound) (use d l ct in \<open>simp add: raw_image_def\<close>)
  have "drop (unat (bh_offset (raw_handle (length pre) (contents, type)))) data = contents @ block_trailer contents type @ post"
    by (simp add: raw_handle_def pre d ct raw_image_def)
  note r = ReadBlock_typed [OF this, of sn name verify]
  have t: "type = kNoCompression \<and> contents = raw \<or> type = kSnappyCompression \<and> sn_Compress sn raw = Some contents"
    using ct by (auto simp: stored_form_def split: if_splits option.splits)
  have ne: "kSnappyCompression \<noteq> kNoCompression" by (simp add: kSnappyCompression_def kNoCompression_def)
  show ?thesis unfolding ct using r t ne compress_length compress_uncompress len by (auto simp: raw_handle_def)
qed

lemma ReadBlock_raw_image:
  assumes d: "data = pre @ raw_image (raw, kNoCompression) @ post" and l: "length data < 2 ^ 64"
  shows "ReadBlock sn (plain_file name data) verify (raw_handle (length pre) (raw, kNoCompression)) =
    (OK, Some \<lparr>bc_data = raw, bc_cachable = True\<rparr>)"
proof -
  have "stored_form sn kNoCompression raw = (raw, kNoCompression)"
    by (simp add: stored_form_def kSnappyCompression_def kNoCompression_def)
  then show ?thesis using ReadBlock_image [of data pre kNoCompression raw post] assms by simp
qed

end

section \<open>Writing blocks\<close>

text \<open>A builder whose file has only good answers, with the data written so far.\<close>

definition tb_good :: "table_builder \<Rightarrow> bytes \<Rightarrow> bool" where
  "tb_good r data \<longleftrightarrow> tb_status r = OK \<and> wf_answers (tb_file r) = [] \<and> wf_data (tb_file r) = data \<and>
     tb_offset r = word_of_nat (length data)"

definition tb_wrote :: "table_builder \<Rightarrow> bytes \<Rightarrow> table_builder" where
  "tb_wrote r data = r\<lparr>tb_file := (tb_file r)\<lparr>wf_data := data\<rparr>, tb_offset := word_of_nat (length data)\<rparr>"

lemma tb_wrote_good: "tb_good r data \<Longrightarrow> tb_good (tb_wrote r data') data'"
  by (simp add: tb_good_def tb_wrote_def)

lemma tb_wrote_fields [simp]:
  "tb_options (tb_wrote r d) = tb_options r" "tb_data_block (tb_wrote r d) = tb_data_block r"
  "tb_index_block (tb_wrote r d) = tb_index_block r" "tb_last_key (tb_wrote r d) = tb_last_key r"
  "tb_filter_block (tb_wrote r d) = tb_filter_block r" "tb_pending_index_entry (tb_wrote r d) = tb_pending_index_entry r"
  "tb_pending_handle (tb_wrote r d) = tb_pending_handle r" "tb_num_entries (tb_wrote r d) = tb_num_entries r"
  "tb_offset (tb_wrote r d) = word_of_nat (length d)" "tb_status (tb_wrote r d) = tb_status r"
  "tb_closed (tb_wrote r d) = tb_closed r"
  by (simp_all add: tb_wrote_def)

lemma WriteRawBlock_good:
  assumes g: "tb_good r data"
  shows "WriteRawBlock contents type r =
    (raw_handle (length data) (contents, type), tb_wrote r (data @ raw_image (contents, type)))"
proof -
  have t: "type # EncodeFixed32 (Mask (Extend 0 (crc_Value 0 contents) [type])) = block_trailer contents type"
    by (simp add: block_trailer_def)
  have a: "wf_Append bs f = (OK, f\<lparr>wf_data := wf_data f @ bs\<rparr>)" if "wf_answers f = []" for bs f
    using that by (simp add: wf_Append_def next_answer_def)
  show ?thesis
    using g unfolding WriteRawBlock_def Let_def t tb_good_def
    by (simp add: a tb_wrote_def raw_handle_def raw_image_def of_nat_add)
qed

lemma Reset_Finish:
  "BlockBuilder_Reset (snd (BlockBuilder_Finish b)) = BlockBuilder_new (bb_restart_interval b)"
  by (simp add: BlockBuilder_Reset_def BlockBuilder_Finish_def BlockBuilder_new_def Let_def)

lemma WriteBlock_good:
  assumes g: "tb_good r data"
  shows "WriteBlock sn block r =
    (let ct = stored_form sn (opt_compression (tb_options r)) (fst (BlockBuilder_Finish block))
     in (raw_handle (length data) ct, BlockBuilder_new (bb_restart_interval block), tb_wrote r (data @ raw_image ct)))"
proof -
  obtain raw b where f: "BlockBuilder_Finish block = (raw, b)" by (cases "BlockBuilder_Finish block")
  obtain contents type where ct: "stored_form sn (opt_compression (tb_options r)) raw = (contents, type)"
    by (cases "stored_form sn (opt_compression (tb_options r)) raw")
  have b: "BlockBuilder_Reset b = BlockBuilder_new (bb_restart_interval block)" using Reset_Finish [of block] f by simp
  show ?thesis
    unfolding WriteBlock_def Let_def f prod.case stored_form_def [symmetric] ct WriteRawBlock_good [OF g] b
    by (simp add: ct)
qed

section \<open>The run of a builder\<close>

text \<open>
  The data blocks \<open>kvss\<close> are written, the entries \<open>cur\<close> are in the data block builder, and \<open>seps\<close> are the
  keys of the index entries made so far: one for every written block, but for the last one when the
  data block builder is empty.
\<close>

definition data_form :: "snappy \<Rightarrow> options \<Rightarrow> kv list \<Rightarrow> bytes \<times> byte" where
  "data_form sn opt b = stored_form sn (opt_compression opt) (build_block (opt_block_restart_interval opt) b)"

definition data_image :: "snappy \<Rightarrow> options \<Rightarrow> kv list list \<Rightarrow> bytes" where
  "data_image sn opt kvss = concat (map (\<lambda>b. raw_image (data_form sn opt b)) kvss)"

definition data_offset :: "snappy \<Rightarrow> options \<Rightarrow> kv list list \<Rightarrow> nat \<Rightarrow> nat" where
  "data_offset sn opt kvss i = length (data_image sn opt (take i kvss))"

definition data_handle :: "snappy \<Rightarrow> options \<Rightarrow> kv list list \<Rightarrow> nat \<Rightarrow> block_handle" where
  "data_handle sn opt kvss i = raw_handle (data_offset sn opt kvss i) (data_form sn opt (kvss ! i))"

definition index_entries :: "snappy \<Rightarrow> options \<Rightarrow> kv list list \<Rightarrow> bytes list \<Rightarrow> kv list" where
  "index_entries sn opt kvss seps =
     map (\<lambda>i. (seps ! i, BlockHandle_EncodeTo [] (data_handle sn opt kvss i))) [0..<length seps]"

definition filter_runs :: "snappy \<Rightarrow> options \<Rightarrow> kv list list \<Rightarrow> kv list \<Rightarrow> (u64 \<times> bytes list) list" where
  "filter_runs sn opt kvss cur =
     map (\<lambda>i. (word_of_nat (data_offset sn opt kvss i), map fst (kvss ! i))) [0..<length kvss] @
     [(word_of_nat (length (data_image sn opt kvss)), map fst cur)]"

definition tb_inv :: "snappy \<Rightarrow> options \<Rightarrow> table_builder \<Rightarrow> kv list list \<Rightarrow> kv list \<Rightarrow> bytes list \<Rightarrow> bool" where
  "tb_inv sn opt r kvss cur seps \<longleftrightarrow>
     tb_good r (data_image sn opt kvss) \<and> tb_options r = opt \<and>
     tb_data_block r = BlockBuilder_Adds cur (BlockBuilder_new (opt_block_restart_interval opt)) \<and>
     tb_index_block r = BlockBuilder_Adds (index_entries sn opt kvss seps) (BlockBuilder_new 1) \<and>
     (\<forall>b\<in>set kvss. b \<noteq> []) \<and> length seps = (if cur = [] then length kvss - 1 else length kvss) \<and>
     (tb_pending_index_entry r \<longleftrightarrow> cur = [] \<and> kvss \<noteq> []) \<and>
     (tb_pending_index_entry r \<longrightarrow> tb_pending_handle r = data_handle sn opt kvss (length kvss - 1)) \<and>
     (\<forall>i<length seps. seps ! i = FindShortestSeparator (opt_comparator opt)
        (fst (last (kvss ! i))) (fst (hd ((kvss @ [cur]) ! Suc i)))) \<and>
     (concat kvss @ cur \<noteq> [] \<longrightarrow> tb_last_key r = fst (last (concat kvss @ cur))) \<and>
     tb_filter_block r = map_option (\<lambda>p. (p, fb_blocks p (filter_runs sn opt kvss cur))) (opt_filter_policy opt)"

lemma Adds_interval [simp]: "bb_restart_interval (BlockBuilder_Adds kvs b) = bb_restart_interval b"
proof (induction kvs arbitrary: b)
  case (Cons kv kvs)
  obtain k v where kv: "kv = (k, v)" by (cases kv)
  have "bb_restart_interval (BlockBuilder_Add k v b) = bb_restart_interval b" by (simp add: BlockBuilder_Add_def Let_def)
  then show ?case using Cons [of "BlockBuilder_Add k v b"] by (simp add: BlockBuilder_Adds_def kv)
qed (simp add: BlockBuilder_Adds_def)

lemma new_interval [simp]: "bb_restart_interval (BlockBuilder_new n) = n"
  by (simp add: BlockBuilder_new_def)

lemma Adds_snoc: "BlockBuilder_Adds (kvs @ [(k, v)]) b = BlockBuilder_Add k v (BlockBuilder_Adds kvs b)"
  by (simp add: BlockBuilder_Adds_def)

lemma Adds_empty: "BlockBuilder_empty (BlockBuilder_Adds kvs (BlockBuilder_new n)) \<longleftrightarrow> kvs = []"
proof -
  have ne: "bb_buffer (BlockBuilder_Add k v b) \<noteq> []" for k v b
    using length_EncodeVarint32_bounds [of "word_of_nat (length v)"]
    by (auto simp: BlockBuilder_Add_def Let_def PutVarint32_def)
  show ?thesis
  proof (cases kvs rule: rev_cases)
    case (snoc ys y)
    then show ?thesis using ne by (cases y) (simp add: Adds_snoc BlockBuilder_empty_def)
  qed (simp add: BlockBuilder_Adds_def BlockBuilder_empty_def BlockBuilder_new_def)
qed

lemma data_image_snoc: "data_image sn opt (kvss @ [b]) = data_image sn opt kvss @ raw_image (data_form sn opt b)"
  by (simp add: data_image_def)

lemma data_offset_snoc: "i \<le> length kvss \<Longrightarrow> data_offset sn opt (kvss @ [b]) i = data_offset sn opt kvss i"
  by (simp add: data_offset_def)

lemma data_handle_snoc: "i < length kvss \<Longrightarrow> data_handle sn opt (kvss @ [b]) i = data_handle sn opt kvss i"
  by (simp add: data_handle_def data_offset_snoc nth_append)

lemma index_entries_snoc:
  "length seps \<le> length kvss \<Longrightarrow> index_entries sn opt (kvss @ [b]) seps = index_entries sn opt kvss seps"
  by (simp add: index_entries_def data_handle_snoc)

lemma index_entries_add:
  "index_entries sn opt kvss (seps @ [k]) =
   index_entries sn opt kvss seps @ [(k, BlockHandle_EncodeTo [] (data_handle sn opt kvss (length seps)))]"
  by (simp add: index_entries_def nth_append)

lemma filter_runs_snoc:
  "filter_runs sn opt (kvss @ [b]) [] = filter_runs sn opt kvss b @ [(word_of_nat (length (data_image sn opt (kvss @ [b]))), [])]"
  by (simp add: filter_runs_def data_offset_snoc nth_append) (simp add: data_offset_def)

lemma fb_blocks_start: "fb_blocks p (runs @ [(off, [])]) = StartBlock p off (fb_blocks p runs)"
  by (simp add: fb_blocks_def fb_block_def)

lemma fb_blocks_add: "fb_blocks p (filter_runs sn opt kvss (cur @ [(k, v)])) = AddKey k (fb_blocks p (filter_runs sn opt kvss cur))"
  by (simp add: filter_runs_def fb_blocks_def fb_block_def)

text \<open>A flush writes the entries of the data block builder as the next block.\<close>

lemma Flush_inv:
  assumes i: "tb_inv sn opt r kvss cur seps" and ne: "cur \<noteq> []"
  shows "tb_inv sn opt (TableBuilder_Flush sn r) (kvss @ [cur]) [] seps"
proof -
  let ?D = "data_image sn opt kvss" and ?ct = "data_form sn opt cur"
  have g: "tb_good r ?D" and opt: "tb_options r = opt"
    and blk: "tb_data_block r = BlockBuilder_Adds cur (BlockBuilder_new (opt_block_restart_interval opt))"
    using i by (simp_all add: tb_inv_def)
  have ok: "TableBuilder_ok r" using g by (simp add: TableBuilder_ok_def tb_good_def)
  have raw: "stored_form sn (opt_compression opt) (fst (BlockBuilder_Finish (tb_data_block r))) = ?ct"
    by (simp add: data_form_def build_block_def blk)
  let ?w = "tb_wrote r (data_image sn opt (kvss @ [cur]))"
  have W: "WriteBlock sn (tb_data_block r) r =
      (raw_handle (length ?D) ?ct, BlockBuilder_new (opt_block_restart_interval opt), ?w)"
    unfolding WriteBlock_good [OF g] opt raw Let_def by (simp add: blk data_image_snoc)
  have gw: "tb_good ?w (data_image sn opt (kvss @ [cur]))" by (rule tb_wrote_good [OF g])
  have F: "TableBuilder_Flush sn r =
      ?w\<lparr>tb_data_block := BlockBuilder_new (opt_block_restart_interval opt), tb_pending_handle := raw_handle (length ?D) ?ct,
         tb_pending_index_entry := True,
         tb_filter_block := map_option (\<lambda>(policy, b). (policy, StartBlock policy (tb_offset ?w) b)) (tb_filter_block r)\<rparr>"
    using ok gw blk Adds_empty [of cur "opt_block_restart_interval opt"] ne
    unfolding TableBuilder_Flush_def W by (simp add: Let_def TableBuilder_ok_def tb_good_def)
  have h: "data_handle sn opt (kvss @ [cur]) (length kvss) = raw_handle (length ?D) ?ct"
    by (simp add: data_handle_def data_offset_def)
  have filt: "map_option (\<lambda>(policy, b). (policy, StartBlock policy (tb_offset ?w) b)) (tb_filter_block r) =
      map_option (\<lambda>p. (p, fb_blocks p (filter_runs sn opt (kvss @ [cur]) []))) (opt_filter_policy opt)"
    using i by (simp add: tb_inv_def option.map_comp comp_def filter_runs_snoc fb_blocks_start)
  have len: "length seps = length kvss" using i ne by (simp add: tb_inv_def)
  have seps: "\<forall>i<length seps. seps ! i = FindShortestSeparator (opt_comparator opt)
        (fst (last ((kvss @ [cur]) ! i))) (fst (hd (((kvss @ [cur]) @ [[]]) ! Suc i)))"
    using i len by (simp add: tb_inv_def nth_append)
  have "tb_good (TableBuilder_Flush sn r) (data_image sn opt (kvss @ [cur]))" using gw by (simp add: F tb_good_def)
  moreover have "tb_last_key (TableBuilder_Flush sn r) = fst (last (concat (kvss @ [cur]) @ []))"
    using i ne by (simp add: F tb_inv_def)
  ultimately show ?thesis
    unfolding tb_inv_def using i ne filt seps len h
    by (simp add: F tb_inv_def index_entries_snoc) (simp add: BlockBuilder_Adds_def)
qed

text \<open>Adding an entry: first the index entry of the block before, when it waits for a key.\<close>

lemma Add_pending_inv:
  assumes i: "tb_inv sn opt r kvss cur seps"
  shows "\<exists>seps'. tb_inv sn opt (TableBuilder_Add sn k v r) kvss (cur @ [(k, v)]) seps' \<or>
    tb_inv sn opt (TableBuilder_Add sn k v r) (kvss @ [cur @ [(k, v)]]) [] seps'"
proof -
  let ?bi = "opt_block_restart_interval opt"
  define seps' where "seps' = (if tb_pending_index_entry r
      then seps @ [FindShortestSeparator (opt_comparator opt) (tb_last_key r) k] else seps)"
  define r1 where "r1 = (if tb_pending_index_entry r then
                   let last_key = FindShortestSeparator (opt_comparator (tb_options r)) (tb_last_key r) k;
                       handle_encoding = BlockHandle_EncodeTo [] (tb_pending_handle r)
                   in r\<lparr>tb_last_key := last_key,
                        tb_index_block := BlockBuilder_Add last_key handle_encoding (tb_index_block r),
                        tb_pending_index_entry := False\<rparr>
                 else r)"
  define r2 where "r2 = r1\<lparr>tb_filter_block := map_option (\<lambda>(policy, b). (policy, AddKey k b)) (tb_filter_block r1),
                  tb_last_key := k, tb_num_entries := tb_num_entries r1 + 1,
                  tb_data_block := BlockBuilder_Add k v (tb_data_block r1)\<rparr>"
  have ok: "TableBuilder_ok r" using i by (simp add: tb_inv_def tb_good_def TableBuilder_ok_def)
  have A: "TableBuilder_Add sn k v r =
      (if BlockBuilder_CurrentSizeEstimate (tb_data_block r2) \<ge> opt_block_size (tb_options r2) then TableBuilder_Flush sn r2 else r2)"
    using ok by (simp add: TableBuilder_Add_def r2_def r1_def Let_def)
  have opt: "tb_options r = opt" using i by (simp add: tb_inv_def)
  have len': "length seps' = length kvss"
    using i by (cases kvss) (auto simp: tb_inv_def seps'_def)
  have good: "tb_good r2 (data_image sn opt kvss)" using i by (simp add: tb_inv_def r2_def r1_def tb_good_def Let_def)
  have idx: "tb_index_block r2 = BlockBuilder_Adds (index_entries sn opt kvss seps') (BlockBuilder_new 1)"
    using i by (simp add: r2_def r1_def Let_def tb_inv_def seps'_def index_entries_add Adds_snoc)
  have filt: "tb_filter_block r2 = map_option (\<lambda>p. (p, fb_blocks p (filter_runs sn opt kvss (cur @ [(k, v)])))) (opt_filter_policy opt)"
    using i by (simp add: r2_def r1_def Let_def tb_inv_def option.map_comp comp_def fb_blocks_add)
  have old: "seps ! j = FindShortestSeparator (opt_comparator opt) (fst (last (kvss ! j))) (fst (hd ((kvss @ [cur @ [(k, v)]]) ! Suc j)))"
    if j: "j < length seps" for j
  proof -
    have e: "seps ! j = FindShortestSeparator (opt_comparator opt) (fst (last (kvss ! j))) (fst (hd ((kvss @ [cur]) ! Suc j)))"
      using i j by (simp add: tb_inv_def)
    show ?thesis
    proof (cases "cur = []")
      case True
      then have "Suc j < length kvss" using i j by (simp add: tb_inv_def)
      then show ?thesis using e by (simp add: nth_append)
    next
      case False
      then have "hd ((kvss @ [cur @ [(k, v)]]) ! Suc j) = hd ((kvss @ [cur]) ! Suc j)"
        using i j by (cases "Suc j = length kvss") (auto simp: tb_inv_def nth_append)
      then show ?thesis using e by simp
    qed
  qed
  have sep: "seps' ! j = FindShortestSeparator (opt_comparator opt) (fst (last (kvss ! j))) (fst (hd ((kvss @ [cur @ [(k, v)]]) ! Suc j)))"
    if j: "j < length seps'" for j
  proof (cases "j < length seps")
    case True
    then show ?thesis using old by (simp add: seps'_def nth_append)
  next
    case False
    then have p: "tb_pending_index_entry r" and jl: "j = length seps" using j by (auto simp: seps'_def split: if_splits)
    then have cur: "cur = []" "kvss \<noteq> []" "length seps = length kvss - 1" using i by (simp_all add: tb_inv_def)
    then obtain xs b where kvss: "kvss = xs @ [b]" by (cases kvss rule: rev_cases) auto
    have b: "b \<noteq> []" using i kvss by (simp add: tb_inv_def)
    then have "tb_last_key r = fst (last b)" using i kvss cur by (simp add: tb_inv_def)
    then show ?thesis using p jl cur kvss by (simp add: seps'_def nth_append)
  qed
  have I: "tb_inv sn opt r2 kvss (cur @ [(k, v)]) seps'"
  proof -
    have "\<not> tb_pending_index_entry r2" "tb_options r2 = opt" "tb_last_key r2 = k" "\<forall>b\<in>set kvss. b \<noteq> []"
      "tb_data_block r2 = BlockBuilder_Adds (cur @ [(k, v)]) (BlockBuilder_new ?bi)"
      using i by (simp_all add: tb_inv_def r2_def r1_def Let_def Adds_snoc)
    then show ?thesis unfolding tb_inv_def using good idx filt sep len' by simp
  qed
  show ?thesis
  proof (cases "BlockBuilder_CurrentSizeEstimate (tb_data_block r2) \<ge> opt_block_size (tb_options r2)")
    case True
    then show ?thesis using Flush_inv [OF I] A by auto
  next
    case False
    then show ?thesis using I A by auto
  qed
qed

definition TableBuilder_Adds :: "snappy \<Rightarrow> kv list \<Rightarrow> table_builder \<Rightarrow> table_builder" where
  "TableBuilder_Adds sn kvs r = fold (\<lambda>(k, v). TableBuilder_Add sn k v) kvs r"

lemma Adds_inv:
  "tb_inv sn opt r kvss cur seps \<Longrightarrow>
   \<exists>kvss' cur' seps'. tb_inv sn opt (TableBuilder_Adds sn kvs r) kvss' cur' seps' \<and> concat kvss' @ cur' = concat kvss @ cur @ kvs"
proof (induction kvs arbitrary: r kvss cur seps)
  case Nil
  then show ?case by (auto simp: TableBuilder_Adds_def)
next
  case (Cons kv kvs)
  obtain k v where kv: "kv = (k, v)" by (cases kv)
  have step: "TableBuilder_Adds sn (kv # kvs) r = TableBuilder_Adds sn kvs (TableBuilder_Add sn k v r)"
    by (simp add: TableBuilder_Adds_def kv)
  obtain kvss1 cur1 seps1 where s: "tb_inv sn opt (TableBuilder_Add sn k v r) kvss1 cur1 seps1"
    "concat kvss1 @ cur1 = concat kvss @ cur @ [(k, v)]"
    using Add_pending_inv [OF Cons.prems, of k v] by fastforce
  obtain kvss' cur' seps' where "tb_inv sn opt (TableBuilder_Adds sn kvs (TableBuilder_Add sn k v r)) kvss' cur' seps'"
    "concat kvss' @ cur' = concat kvss1 @ cur1 @ kvs" using Cons.IH [OF s(1)] by blast
  moreover have "concat kvss1 @ cur1 @ kvs = concat kvss @ cur @ kv # kvs" using arg_cong [OF s(2), of "\<lambda>x. x @ kvs"] kv by simp
  ultimately show ?case unfolding step by auto
qed

lemma TableBuilder_new_inv:
  "wf_data f = [] \<Longrightarrow> wf_answers f = [] \<Longrightarrow> tb_inv sn opt (TableBuilder_new opt f) [] [] []"
  by (simp add: tb_inv_def TableBuilder_new_def tb_good_def data_image_def BlockBuilder_Adds_def index_entries_def
      filter_runs_def fb_blocks_def fb_block_def option.map_comp comp_def)

section \<open>The finished file\<close>

text \<open>
  After the data blocks come the filter block, the metaindex block, the index block and the footer.
  \<open>seps\<close> are now the keys of all index entries.
\<close>

definition filter_part :: "snappy \<Rightarrow> options \<Rightarrow> kv list list \<Rightarrow> filter_policy \<Rightarrow> bytes \<times> byte" where
  "filter_part sn opt kvss p = (FilterBlock_Finish p (fb_blocks p (filter_runs sn opt kvss [])), kNoCompression)"

definition filter_block_image :: "snappy \<Rightarrow> options \<Rightarrow> kv list list \<Rightarrow> bytes" where
  "filter_block_image sn opt kvss =
     (case opt_filter_policy opt of None \<Rightarrow> [] | Some p \<Rightarrow> raw_image (filter_part sn opt kvss p))"

definition filter_handle :: "snappy \<Rightarrow> options \<Rightarrow> kv list list \<Rightarrow> filter_policy \<Rightarrow> block_handle" where
  "filter_handle sn opt kvss p = raw_handle (length (data_image sn opt kvss)) (filter_part sn opt kvss p)"

definition meta_entries :: "snappy \<Rightarrow> options \<Rightarrow> kv list list \<Rightarrow> kv list" where
  "meta_entries sn opt kvss =
     (case opt_filter_policy opt of None \<Rightarrow> []
      | Some p \<Rightarrow> [(filter_meta_key p, BlockHandle_EncodeTo [] (filter_handle sn opt kvss p))])"

definition meta_form :: "snappy \<Rightarrow> options \<Rightarrow> kv list list \<Rightarrow> bytes \<times> byte" where
  "meta_form sn opt kvss =
     stored_form sn (opt_compression opt) (build_block (opt_block_restart_interval opt) (meta_entries sn opt kvss))"

definition meta_start :: "snappy \<Rightarrow> options \<Rightarrow> kv list list \<Rightarrow> bytes" where
  "meta_start sn opt kvss = data_image sn opt kvss @ filter_block_image sn opt kvss"

definition index_form :: "snappy \<Rightarrow> options \<Rightarrow> kv list list \<Rightarrow> bytes list \<Rightarrow> bytes \<times> byte" where
  "index_form sn opt kvss seps =
     stored_form sn (opt_compression opt) (build_block 1 (index_entries sn opt kvss seps))"

definition table_footer :: "snappy \<Rightarrow> options \<Rightarrow> kv list list \<Rightarrow> bytes list \<Rightarrow> footer" where
  "table_footer sn opt kvss seps =
     \<lparr>ft_metaindex_handle = raw_handle (length (meta_start sn opt kvss)) (meta_form sn opt kvss),
      ft_index_handle = raw_handle (length (meta_start sn opt kvss @ raw_image (meta_form sn opt kvss))) (index_form sn opt kvss seps)\<rparr>"

definition table_bytes :: "snappy \<Rightarrow> options \<Rightarrow> kv list list \<Rightarrow> bytes list \<Rightarrow> bytes" where
  "table_bytes sn opt kvss seps =
     meta_start sn opt kvss @ raw_image (meta_form sn opt kvss) @ raw_image (index_form sn opt kvss seps) @
     Footer_EncodeTo [] (table_footer sn opt kvss seps)"

text \<open>The keys of the index: separators between the blocks, a successor of the last key.\<close>

definition table_seps :: "comparator \<Rightarrow> kv list list \<Rightarrow> bytes list" where
  "table_seps cmp kvss =
     map (\<lambda>i. if Suc i < length kvss
              then FindShortestSeparator cmp (fst (last (kvss ! i))) (fst (hd (kvss ! Suc i)))
              else FindShortSuccessor cmp (fst (last (kvss ! i)))) [0..<length kvss]"

lemma Flush_all:
  assumes "tb_inv sn opt r kvss cur seps"
  shows "\<exists>kvss'. tb_inv sn opt (TableBuilder_Flush sn r) kvss' [] seps \<and> concat kvss' = concat kvss @ cur"
proof (cases "cur = []")
  case True
  then have "BlockBuilder_empty (tb_data_block r)" using assms by (simp add: tb_inv_def Adds_empty)
  then have "TableBuilder_Flush sn r = r" by (simp add: TableBuilder_Flush_def)
  then show ?thesis using assms True by auto
next
  case False
  then show ?thesis using Flush_inv [OF assms] by (intro exI [of _ "kvss @ [cur]"]) simp
qed

lemma table_seps_last:
  assumes i: "tb_inv sn opt r kvss [] seps" and k: "cmp = opt_comparator opt"
  shows "table_seps cmp kvss = (if kvss = [] then [] else seps @ [FindShortSuccessor cmp (fst (last (concat kvss)))])"
proof (cases kvss rule: rev_cases)
  case (snoc xs b)
  have len: "length seps = length xs" using i snoc by (simp add: tb_inv_def)
  have b: "b \<noteq> []" using i snoc by (simp add: tb_inv_def)
  have "seps ! j = FindShortestSeparator cmp (fst (last (kvss ! j))) (fst (hd (kvss ! Suc j)))" if "j < length xs" for j
    using i that len snoc k by (simp add: tb_inv_def nth_append)
  then show ?thesis using len b snoc by (auto intro!: nth_equalityI simp: table_seps_def nth_append less_Suc_eq)
qed (use i in \<open>simp add: table_seps_def\<close>)

lemma Finish_file:
  assumes i: "tb_inv sn opt r kvss cur seps"
  shows "\<exists>kvss' r'. TableBuilder_Finish sn r = (OK, r') \<and> concat kvss' = concat kvss @ cur \<and> (\<forall>b\<in>set kvss'. b \<noteq> []) \<and>
    wf_data (tb_file r') = table_bytes sn opt kvss' (table_seps (opt_comparator opt) kvss') \<and>
    TableBuilder_FileSize r' = word_of_nat (length (wf_data (tb_file r'))) \<and> TableBuilder_ok r'"
proof -
  let ?cmp = "opt_comparator opt"
  obtain ks where ks: "tb_inv sn opt (TableBuilder_Flush sn r) ks [] seps" "concat ks = concat kvss @ cur"
    using Flush_all [OF i] by blast
  define r1 where "r1 = (TableBuilder_Flush sn r)\<lparr>tb_closed := True\<rparr>"
  have opt: "tb_options r1 = opt" using ks(1) by (simp add: tb_inv_def r1_def)
  have g1: "tb_good r1 (data_image sn opt ks)" using ks(1) by (simp add: tb_inv_def r1_def tb_good_def)
  have f1: "tb_filter_block r1 = map_option (\<lambda>p. (p, fb_blocks p (filter_runs sn opt ks []))) (opt_filter_policy opt)"
    using ks(1) by (simp add: tb_inv_def r1_def)
  define r2 where "r2 = tb_wrote r1 (meta_start sn opt ks)"
  have g2: "tb_good r2 (meta_start sn opt ks)" using g1 by (simp add: r2_def tb_wrote_good)
  have ok: "TableBuilder_ok x" if "tb_good x d" for x d using that by (simp add: TableBuilder_ok_def tb_good_def)
  let ?fh = "case opt_filter_policy opt of None \<Rightarrow> BlockHandle_new | Some p \<Rightarrow> filter_handle sn opt ks p"
  have same: "tb_wrote r1 (data_image sn opt ks) = r1" using g1 by (simp add: tb_wrote_def tb_good_def)
  have s2: "(case tb_filter_block r1 of
               Some (policy, b) \<Rightarrow>
                 if TableBuilder_ok r1 then WriteRawBlock (FilterBlock_Finish policy b) kNoCompression r1
                 else (BlockHandle_new, r1)
             | None \<Rightarrow> (BlockHandle_new, r1)) = (?fh, r2)"
    unfolding f1 using ok [OF g1] WriteRawBlock_good [OF g1] same
    by (simp add: r2_def meta_start_def filter_block_image_def filter_handle_def filter_part_def split: option.split)
  define r3 where "r3 = tb_wrote r2 (meta_start sn opt ks @ raw_image (meta_form sn opt ks))"
  have g3: "tb_good r3 (meta_start sn opt ks @ raw_image (meta_form sn opt ks))" using g2 by (simp add: r3_def tb_wrote_good)
  let ?meta = "case opt_filter_policy opt of
       Some policy \<Rightarrow> if tb_filter_block r2 \<noteq> None
         then BlockBuilder_Add (filter_meta_key policy) (BlockHandle_EncodeTo [] ?fh) (BlockBuilder_new (opt_block_restart_interval opt))
         else BlockBuilder_new (opt_block_restart_interval opt)
     | None \<Rightarrow> BlockBuilder_new (opt_block_restart_interval opt)"
  have meta: "?meta = BlockBuilder_Adds (meta_entries sn opt ks) (BlockBuilder_new (opt_block_restart_interval opt))"
    using f1 by (simp add: r2_def meta_entries_def BlockBuilder_Adds_def split: option.split)
  have opt2: "tb_options r2 = opt" "tb_options r3 = opt" by (simp_all add: r2_def r3_def opt)
  have s3: "WriteBlock sn ?meta r2 =
      (raw_handle (length (meta_start sn opt ks)) (meta_form sn opt ks), BlockBuilder_new (opt_block_restart_interval opt), r3)"
    unfolding meta WriteBlock_good [OF g2] by (simp add: Let_def opt2 meta_form_def build_block_def r3_def)
  have p3: "tb_pending_index_entry r3 = (ks \<noteq> [])" "tb_index_block r3 = BlockBuilder_Adds (index_entries sn opt ks seps) (BlockBuilder_new 1)"
    "ks \<noteq> [] \<Longrightarrow> tb_pending_handle r3 = data_handle sn opt ks (length ks - 1)"
    "ks \<noteq> [] \<Longrightarrow> tb_last_key r3 = fst (last (concat ks))" "length seps = length ks - 1"
    using ks(1) by (auto simp: tb_inv_def r3_def r2_def r1_def concat_eq_Nil_conv)
  define r4 where "r4 = (if tb_pending_index_entry r3 then
                          let last_key = FindShortSuccessor (opt_comparator (tb_options r3)) (tb_last_key r3)
                          in r3\<lparr>tb_last_key := last_key,
                               tb_index_block := BlockBuilder_Add last_key
                                 (BlockHandle_EncodeTo [] (tb_pending_handle r3)) (tb_index_block r3),
                               tb_pending_index_entry := False\<rparr>
                        else r3)"
  have g4: "tb_good r4 (meta_start sn opt ks @ raw_image (meta_form sn opt ks))" using g3 by (simp add: r4_def tb_good_def Let_def)
  have opt4: "tb_options r4 = opt" by (simp add: r4_def Let_def opt2)
  have i4: "tb_index_block r4 = BlockBuilder_Adds (index_entries sn opt ks (table_seps ?cmp ks)) (BlockBuilder_new 1)"
  proof (cases "ks = []")
    case True
    then show ?thesis using p3 by (simp add: r4_def table_seps_def)
  next
    case False
    then show ?thesis
      using p3 table_seps_last [OF ks(1) refl] opt2 by (simp add: r4_def Let_def index_entries_add Adds_snoc)
  qed
  let ?img = "meta_start sn opt ks @ raw_image (meta_form sn opt ks) @ raw_image (index_form sn opt ks (table_seps ?cmp ks))"
  define r5 where "r5 = (tb_wrote r4 ?img)\<lparr>tb_index_block := BlockBuilder_new 1\<rparr>"
  have g5: "tb_good r5 ?img" using g4 tb_wrote_good [OF g4, of ?img] by (simp add: r5_def tb_good_def)
  have s5: "WriteBlock sn (tb_index_block r4) r4 =
      (raw_handle (length (meta_start sn opt ks @ raw_image (meta_form sn opt ks))) (index_form sn opt ks (table_seps ?cmp ks)),
       BlockBuilder_new 1, tb_wrote r4 ?img)"
    unfolding i4 WriteBlock_good [OF g4] by (simp add: Let_def opt4 index_form_def build_block_def)
  let ?foot = "Footer_EncodeTo [] (table_footer sn opt ks (table_seps ?cmp ks))"
  define r6 where "r6 = tb_wrote r5 (?img @ ?foot)"
  have a: "wf_Append ?foot (tb_file r5) = (OK, (tb_file r5)\<lparr>wf_data := ?img @ ?foot\<rparr>)"
    using g5 by (simp add: tb_good_def wf_Append_def next_answer_def)
  have r6: "r5\<lparr>tb_file := (tb_file r5)\<lparr>wf_data := ?img @ ?foot\<rparr>, tb_status := OK, tb_offset := tb_offset r5 + word_of_nat (length ?foot)\<rparr> = r6"
    using g5 by (simp add: r6_def tb_wrote_def tb_good_def of_nat_add)
  have fin: "TableBuilder_Finish sn r = (OK, r6)"
    unfolding TableBuilder_Finish_def Let_def r1_def [symmetric] s2 prod.case opt if_P [OF ok [OF g2]] opt2 s3
      if_P [OF ok [OF g3]] r4_def [unfolded Let_def opt2, symmetric] s5 r5_def [symmetric] if_P [OF ok [OF g5]]
      table_footer_def [symmetric] a prod.case
    using r6 g5 by (simp add: r6_def tb_good_def)
  show ?thesis
    by (rule exI [of _ ks], rule exI [of _ r6]) (use fin ks g5 in \<open>auto simp: r6_def tb_wrote_def table_bytes_def TableBuilder_FileSize_def TableBuilder_ok_def tb_good_def tb_inv_def\<close>)
qed

section \<open>Opening the file\<close>

text \<open>The sizes stay below those of 32-bit offsets.\<close>

definition block_fits :: "nat \<Rightarrow> kv list \<Rightarrow> bool" where
  "block_fits interval kvs \<longleftrightarrow> list_all kv_fits kvs \<and> length (build_block interval kvs) < 2 ^ 32"

definition table_fits :: "snappy \<Rightarrow> options \<Rightarrow> kv list list \<Rightarrow> bool" where
  "table_fits sn opt kvss \<longleftrightarrow> 1 \<le> opt_block_restart_interval opt \<and>
     (\<forall>b\<in>set kvss. block_fits (opt_block_restart_interval opt) b) \<and>
     block_fits (opt_block_restart_interval opt) (meta_entries sn opt kvss) \<and>
     block_fits 1 (index_entries sn opt kvss (table_seps (opt_comparator opt) kvss)) \<and>
     length (table_bytes sn opt kvss (table_seps (opt_comparator opt) kvss)) < 2 ^ 32"

text \<open>The table that the reader makes of the file.\<close>

definition opened_table :: "snappy \<Rightarrow> options \<Rightarrow> options \<Rightarrow> kv list list \<Rightarrow> string \<Rightarrow> u64 \<Rightarrow> table" where
  "opened_table sn opt ropt kvss name cache_id =
     (let seps = table_seps (opt_comparator opt) kvss
      in \<lparr>tab_options = ropt, tab_file = plain_file name (table_bytes sn opt kvss seps), tab_cache_id = cache_id,
          tab_filter = map_option (\<lambda>p. FilterBlockReader_new (fst (filter_part sn opt kvss p))) (opt_filter_policy opt),
          tab_metaindex_handle = ft_metaindex_handle (table_footer sn opt kvss seps),
          tab_index_block = Block_new (build_block 1 (index_entries sn opt kvss seps))\<rparr>)"

lemma nbi_entry_it: "nbi_entry it = it_entry (nbi_ops cmp) it"
  by (cases it) (auto simp: nbi_entry_def it_entry_def nbi_ops_def nbi_valid_def)

lemma meta_lookup:
  assumes "1 \<le> interval" "block_fits interval [(key, v)]"
  shows "nbi_entry (nbi_Seek BytewiseComparator key (Block_NewIterator (Block_new (build_block interval [(key, v)])))) = Some (key, v)"
proof -
  let ?it = "Block_NewIterator (Block_new (build_block interval [(key, v)]))"
  have at: "nbi_at BytewiseComparator (\<lambda>_. True) ?it [(key, v)] 1"
    using bytewise.build_block_nbi [of interval "[(key, v)]"] assms by (simp add: block_fits_def kvs_sorted_def keys_ok_def)
  note it = bytewise.nbi_iterator
  obtain it' where s: "it_Seek (nbi_ops BytewiseComparator) key ?it = Some it'"
    "nbi_at BytewiseComparator (\<lambda>_. True) it' [(key, v)] (seek_pos BytewiseComparator [(key, v)] key)"
    using iterator.Seek_at [OF it at] by blast
  have "seek_pos BytewiseComparator [(key, v)] key = 0" using bytewise.compare_refl [of key] by (simp add: seek_pos_def)
  then have "it_entry (nbi_ops BytewiseComparator) it' = Some (key, v)"
    using iterator.entry_at [OF it s(2)] by (simp add: cursor_entry_def)
  moreover have "it' = nbi_Seek BytewiseComparator key ?it" using s(1) by (simp add: nbi_ops_def)
  ultimately show ?thesis by (simp add: nbi_entry_it [of _ BytewiseComparator])
qed

context snappy_laws
begin

lemma Table_Open_file:
  assumes fits: "table_fits sn opt kvss" and pol: "opt_filter_policy ropt = opt_filter_policy opt"
  defines "data \<equiv> table_bytes sn opt kvss (table_seps (opt_comparator opt) kvss)"
  shows "Table_Open sn ropt (plain_file name data) (word_of_nat (length data)) cache_id =
    (OK, Some (opened_table sn opt ropt kvss name cache_id))"
proof -
  let ?seps = "table_seps (opt_comparator opt) kvss" and ?f = "plain_file name data"
  let ?foot = "table_footer sn opt kvss ?seps"
  have len: "length data < 2 ^ 32" using fits by (simp add: table_fits_def data_def)
  then have len64: "length data < 2 ^ 64" by simp
  have foot: "data = (meta_start sn opt kvss @ raw_image (meta_form sn opt kvss) @ raw_image (index_form sn opt kvss ?seps)) @
      Footer_EncodeTo [] ?foot" by (simp add: data_def table_bytes_def)
  have k: "kFooterEncodedLength \<le> length data" using arg_cong [OF foot, of length] by simp
  have u: "unat (word_of_nat (length data) :: u64) = length data" by (rule word_of_nat_less_iff_bound) (use len64 in simp)
  have k64: "unat (word_of_nat kFooterEncodedLength :: u64) = kFooterEncodedLength"
    by (simp add: kFooterEncodedLength_def kBlockHandleMaxEncodedLength_def)
  have not_short: "\<not> (word_of_nat (length data) :: u64) < word_of_nat kFooterEncodedLength"
    using u k64 k by (simp add: word_less_nat_alt)
  have pos: "unat (word_of_nat (length data) - word_of_nat kFooterEncodedLength :: u64) = length data - kFooterEncodedLength"
    using u k64 k not_short by (subst unat_sub) (simp_all add: word_le_nat_alt)
  have input: "rf_Read ?f (word_of_nat (length data) - word_of_nat kFooterEncodedLength) kFooterEncodedLength =
      (OK, Footer_EncodeTo [] ?foot)"
    unfolding rf_Read_plain pos using arg_cong [OF foot, of "drop (length data - kFooterEncodedLength)"] arg_cong [OF foot, of length]
    by simp
  have dec: "Footer_DecodeFrom (Footer_EncodeTo [] ?foot) = (OK, Some (?foot, []))"
    using Footer_Decode_Encode [of ?foot "[]"] by simp
  have index: "ReadBlock sn ?f v (ft_index_handle ?foot) =
      (OK, Some \<lparr>bc_data = build_block 1 (index_entries sn opt kvss ?seps), bc_cachable = True\<rparr>)" for v
    unfolding table_footer_def footer.select_convs index_form_def
    by (rule ReadBlock_image [where post = "Footer_EncodeTo [] ?foot", OF _ len64]) (simp add: data_def table_bytes_def index_form_def)
  let ?t = "\<lparr>tab_options = ropt, tab_file = ?f, tab_cache_id = cache_id, tab_filter = None,
      tab_metaindex_handle = ft_metaindex_handle ?foot,
      tab_index_block = Block_new (build_block 1 (index_entries sn opt kvss ?seps))\<rparr>"
  have open0: "Table_Open sn ropt ?f (word_of_nat (length data)) cache_id = (OK, Some (ReadMeta sn ?foot ?t))"
    unfolding Table_Open_def if_not_P [OF not_short] input Let_def prod.case dec option.case index by simp
  have opened: "opened_table sn opt ropt kvss name cache_id =
      ?t\<lparr>tab_filter := map_option (\<lambda>p. FilterBlockReader_new (fst (filter_part sn opt kvss p))) (opt_filter_policy opt)\<rparr>"
    by (simp add: opened_table_def data_def Let_def)
  have "ReadMeta sn ?foot ?t = opened_table sn opt ropt kvss name cache_id"
  proof (cases "opt_filter_policy opt")
    case None
    then show ?thesis using pol by (simp add: ReadMeta_def opened_table_def Let_def data_def)
  next
    case (Some p)
    let ?key = "filter_meta_key p" and ?v = "BlockHandle_EncodeTo [] (filter_handle sn opt kvss p)"
    have meta: "meta_entries sn opt kvss = [(?key, ?v)]" using Some by (simp add: meta_entries_def)
    have rm: "ReadBlock sn ?f v (ft_metaindex_handle ?foot) =
        (OK, Some \<lparr>bc_data = build_block (opt_block_restart_interval opt) [(?key, ?v)], bc_cachable = True\<rparr>)" for v
      unfolding table_footer_def footer.select_convs meta_form_def meta
      by (rule ReadBlock_image [where post = "raw_image (index_form sn opt kvss ?seps) @ Footer_EncodeTo [] ?foot", OF _ len64])
        (simp add: data_def table_bytes_def meta_form_def meta)
    have "block_fits (opt_block_restart_interval opt) [(?key, ?v)]" "1 \<le> opt_block_restart_interval opt"
      using fits meta by (simp_all add: table_fits_def)
    then have e: "nbi_entry (nbi_Seek BytewiseComparator ?key (Block_NewIterator (Block_new
        (build_block (opt_block_restart_interval opt) [(?key, ?v)])))) = Some (?key, ?v)" using meta_lookup by blast
    have rf: "ReadBlock sn ?f v (filter_handle sn opt kvss p) =
        (OK, Some \<lparr>bc_data = fst (filter_part sn opt kvss p), bc_cachable = True\<rparr>)" for v
      unfolding filter_handle_def filter_part_def fst_conv
      by (rule ReadBlock_raw_image [where post = "raw_image (meta_form sn opt kvss) @ raw_image (index_form sn opt kvss ?seps) @
            Footer_EncodeTo [] ?foot", OF _ len64])
        (simp add: data_def table_bytes_def meta_start_def filter_block_image_def filter_part_def Some)
    show ?thesis
      using pol Some by (simp add: ReadMeta_def rm e ReadFilter_def rf opened del: One_nat_def)
  qed
  then show ?thesis using open0 by simp
qed

end

section \<open>Reading the blocks\<close>

text \<open>The blocks of a table partition its sorted entries.\<close>

definition blocks_ok :: "comparator \<Rightarrow> (bytes \<Rightarrow> bool) \<Rightarrow> kv list list \<Rightarrow> bool" where
  "blocks_ok cmp ok kvss \<longleftrightarrow> kvs_sorted cmp (concat kvss) \<and> keys_ok ok (concat kvss) \<and> (\<forall>b\<in>set kvss. b \<noteq> [])"

lemma concat_split_at: "j < length xss \<Longrightarrow> concat xss = concat (take j xss) @ xss ! j @ concat (drop (Suc j) xss)"
  by (subst id_take_nth_drop [of j xss]) simp_all

lemma blocks_less:
  assumes "blocks_ok cmp ok kvss" "i < j" "j < length kvss" "x \<in> set (kvss ! i)" "y \<in> set (kvss ! j)"
  shows "Compare cmp (fst x) (fst y) < 0"
proof -
  have "kvss ! i \<in> set (take j kvss)" using assms(2,3) nth_mem [of i "take j kvss"] by simp
  then have "x \<in> set (concat (take j kvss))" using assms(4) by auto
  then show ?thesis
    using assms(1,5) concat_split_at [OF assms(3)] by (auto simp: blocks_ok_def kvs_sorted_def sorted_wrt_append)
qed

lemma blocks_nth:
  assumes "blocks_ok cmp ok kvss" "j < length kvss"
  shows "kvs_sorted cmp (kvss ! j)" "keys_ok ok (kvss ! j)" "kvss ! j \<noteq> []" "last (kvss ! j) \<in> set (kvss ! j)"
    "hd (kvss ! j) \<in> set (kvss ! j)"
  using assms concat_split_at [OF assms(2)] by (auto simp: blocks_ok_def kvs_sorted_def sorted_wrt_append keys_ok_def)

lemma sorted_wrt_last: "sorted_wrt R xs \<Longrightarrow> x \<in> set xs \<Longrightarrow> x = last xs \<or> R x (last xs)"
  by (cases xs rule: rev_cases) (auto simp: sorted_wrt_append)

lemma sorted_wrt_hd: "sorted_wrt R xs \<Longrightarrow> x \<in> set xs \<Longrightarrow> x = hd xs \<or> R (hd xs) x"
  by (cases xs) auto

lemma length_table_seps [simp]: "length (table_seps cmp kvss) = length kvss"
  by (simp add: table_seps_def)

context comparator_laws
begin

lemma block_last:
  assumes b: "blocks_ok cmp ok kvss" "j < length kvss" "e \<in> set (kvss ! j)"
  shows "Compare cmp (fst e) (fst (last (kvss ! j))) \<le> 0" "ok (fst e)"
proof -
  show o: "ok (fst e)" using b by (auto simp: blocks_ok_def keys_ok_def)
  show "Compare cmp (fst e) (fst (last (kvss ! j))) \<le> 0"
    using sorted_wrt_last [OF blocks_nth(1) [OF b(1,2), unfolded kvs_sorted_def] b(3)] compare_refl [OF o] by auto
qed

lemma table_seps_laws:
  assumes b: "blocks_ok cmp ok kvss" and i: "i < length kvss"
  shows "ok (table_seps cmp kvss ! i)"
    "\<And>e. e \<in> set (kvss ! i) \<Longrightarrow> Compare cmp (fst e) (table_seps cmp kvss ! i) \<le> 0"
    "\<And>j e. i < j \<Longrightarrow> j < length kvss \<Longrightarrow> e \<in> set (kvss ! j) \<Longrightarrow> Compare cmp (table_seps cmp kvss ! i) (fst e) < 0"
proof -
  let ?l = "fst (last (kvss ! i))" and ?s = "table_seps cmp kvss ! i"
  have l: "ok ?l" by (rule block_last(2) [OF b i blocks_nth(4) [OF b i]])
  have "ok ?s \<and> Compare cmp ?l ?s \<le> 0 \<and> (\<forall>j e. i < j \<longrightarrow> j < length kvss \<longrightarrow> e \<in> set (kvss ! j) \<longrightarrow> Compare cmp ?s (fst e) < 0)"
  proof (cases "Suc i < length kvss")
    case True
    let ?h = "fst (hd (kvss ! Suc i))"
    have s: "?s = FindShortestSeparator cmp ?l ?h" using True by (simp add: table_seps_def)
    have h: "ok ?h" by (rule block_last(2) [OF b True blocks_nth(5) [OF b True]])
    have lh: "Compare cmp ?l ?h < 0"
      by (rule blocks_less [OF b _ True blocks_nth(4) [OF b i] blocks_nth(5) [OF b True]]) simp
    have r: "ok ?s" "Compare cmp ?l ?s \<le> 0" "Compare cmp ?s ?h < 0"
      using separator_ok [OF l h] separator_range [OF l h lh] by (simp_all add: s)
    have "Compare cmp ?s (fst e) < 0" if j: "i < j" "j < length kvss" "e \<in> set (kvss ! j)" for j e
    proof -
      have e: "ok (fst e)" by (rule block_last(2) [OF b j(2,3)])
      show ?thesis
      proof (cases "j = Suc i")
        case True
        then have "e = hd (kvss ! Suc i) \<or> Compare cmp ?h (fst e) < 0"
          using sorted_wrt_hd [OF blocks_nth(1) [OF b j(2), unfolded kvs_sorted_def] j(3)] by auto
        then show ?thesis using r(3) compare_trans [OF r(1) h e] by auto
      next
        case False
        then have "Compare cmp ?h (fst e) < 0"
          using j(1) by (intro blocks_less [OF b _ j(2) blocks_nth(5) [OF b True] j(3)]) simp
        then show ?thesis using r(3) compare_trans [OF r(1) h e] by simp
      qed
    qed
    then show ?thesis using r by blast
  next
    case False
    then have "?s = FindShortSuccessor cmp ?l" using i by (simp add: table_seps_def)
    then show ?thesis using successor_ok [OF l] successor_range [OF l] False by auto
  qed
  then have r: "ok ?s" "Compare cmp ?l ?s \<le> 0"
    "\<And>j e. i < j \<Longrightarrow> j < length kvss \<Longrightarrow> e \<in> set (kvss ! j) \<Longrightarrow> Compare cmp ?s (fst e) < 0" by blast+
  show "ok ?s" by (rule r(1))
  show "Compare cmp ?s (fst e) < 0" if "i < j" "j < length kvss" "e \<in> set (kvss ! j)" for j e by (rule r(3) [OF that])
  show "Compare cmp (fst e) ?s \<le> 0" if e: "e \<in> set (kvss ! i)" for e
    using compare_le_trans [OF block_last(2) [OF b i e] l r(1) block_last(1) [OF b i e] r(2)] .
qed

lemma table_seps_sorted:
  assumes b: "blocks_ok cmp ok kvss" and ij: "i < j" "j < length kvss"
  shows "Compare cmp (table_seps cmp kvss ! i) (table_seps cmp kvss ! j) < 0"
proof -
  have i: "i < length kvss" using ij by simp
  note e = blocks_nth(4) [OF b ij(2)]
  show ?thesis
    using compare_less_le_trans [OF table_seps_laws(1) [OF b i] block_last(2) [OF b ij(2) e] table_seps_laws(1) [OF b ij(2)]]
      table_seps_laws(3) [OF b i ij e] table_seps_laws(2) [OF b ij(2) e] by simp
qed

end

text \<open>A handle of the index decodes to itself, and the block it names reads back.\<close>

context snappy_laws
begin

lemma ReadBlock_data:
  assumes fits: "table_fits sn opt kvss" and i: "i < length kvss"
  shows "ReadBlock sn (tab_file (opened_table sn opt ropt kvss name cache_id)) v (data_handle sn opt kvss i) =
    (OK, Some \<lparr>bc_data = build_block (opt_block_restart_interval opt) (kvss ! i), bc_cachable = True\<rparr>)"
proof -
  let ?data = "table_bytes sn opt kvss (table_seps (opt_comparator opt) kvss)"
  have len: "length ?data < 2 ^ 64" using fits by (simp add: table_fits_def)
  have "data_image sn opt kvss = data_image sn opt (take i kvss) @ raw_image (data_form sn opt (kvss ! i)) @
      data_image sn opt (drop (Suc i) kvss)"
    unfolding data_image_def by (subst id_take_nth_drop [OF i]) simp
  then obtain post where d: "?data = data_image sn opt (take i kvss) @ raw_image (data_form sn opt (kvss ! i)) @ post"
    by (simp add: table_bytes_def meta_start_def)
  have "ReadBlock sn (plain_file name ?data) v (data_handle sn opt kvss i) =
      (OK, Some \<lparr>bc_data = build_block (opt_block_restart_interval opt) (kvss ! i), bc_cachable = True\<rparr>)"
    unfolding data_handle_def data_offset_def data_form_def
    by (rule ReadBlock_image [OF _ len]) (use d in \<open>simp add: data_form_def\<close>)
  then show ?thesis by (simp add: opened_table_def Let_def)
qed

lemma BlockReader_data:
  assumes fits: "table_fits sn opt kvss" and i: "i < length kvss"
  shows "fst (BlockReader sn ro (opened_table sn opt ropt kvss name cache_id)
      (BlockHandle_EncodeTo [] (data_handle sn opt kvss i)) None) =
    Block_NewIterator (Block_new (build_block (opt_block_restart_interval opt) (kvss ! i)))"
  by (simp add: BlockReader_def ReadBlock_data [OF fits i])

end

lemma opened_table_fields [simp]:
  "tab_options (opened_table sn opt ropt kvss name cache_id) = ropt"
  "tab_index_block (opened_table sn opt ropt kvss name cache_id) =
     Block_new (build_block 1 (index_entries sn opt kvss (table_seps (opt_comparator opt) kvss)))"
  "tab_filter (opened_table sn opt ropt kvss name cache_id) =
     map_option (\<lambda>p. FilterBlockReader_new (fst (filter_part sn opt kvss p))) (opt_filter_policy opt)"
  by (simp_all add: opened_table_def Let_def)

lemma length_index_entries [simp]: "length (index_entries sn opt kvss seps) = length seps"
  by (simp add: index_entries_def)

lemma index_entries_nth: "i < length seps \<Longrightarrow>
  index_entries sn opt kvss seps ! i = (seps ! i, BlockHandle_EncodeTo [] (data_handle sn opt kvss i))"
  by (simp add: index_entries_def)

context comparator_laws
begin

lemma index_nbi:
  assumes fits: "table_fits sn opt kvss" and c: "opt_comparator opt = cmp" and b: "blocks_ok cmp ok kvss"
  shows "nbi_at cmp ok (Block_NewIterator (tab_index_block (opened_table sn opt ropt kvss name cache_id)))
      (index_entries sn opt kvss (table_seps cmp kvss)) (length kvss)"
proof -
  let ?idx = "index_entries sn opt kvss (table_seps cmp kvss)"
  have "kvs_sorted cmp ?idx"
    using table_seps_sorted [OF b] by (simp add: kvs_sorted_def sorted_wrt_iff_nth_less index_entries_nth)
  moreover have "keys_ok ok ?idx"
    using table_seps_laws(1) [OF b] by (auto simp: keys_ok_def in_set_conv_nth index_entries_nth)
  moreover have "block_fits 1 ?idx" using fits c by (simp add: table_fits_def)
  ultimately show ?thesis using build_block_nbi [of 1 ?idx] c by (simp add: block_fits_def)
qed

lemma data_nbi:
  assumes fits: "table_fits sn opt kvss" and b: "blocks_ok cmp ok kvss" and i: "i < length kvss"
  shows "nbi_at cmp ok (Block_NewIterator (Block_new (build_block (opt_block_restart_interval opt) (kvss ! i)))) (kvss ! i)
    (length (kvss ! i))"
  using build_block_nbi [of "opt_block_restart_interval opt" "kvss ! i"] fits nth_mem [OF i] blocks_nth(1,2) [OF b i]
  by (simp add: table_fits_def block_fits_def)

lemma data_content:
  assumes "snappy_laws sn" "table_fits sn opt kvss" "blocks_ok cmp ok kvss" "i < length kvss"
  shows "block_content sn cmp ok (opened_table sn opt ropt kvss name cache_id)
    (BlockHandle_EncodeTo [] (data_handle sn opt kvss i)) = Some (kvss ! i)"
  by (rule block_contentI) (simp add: snappy_laws.BlockReader_data [OF assms(1,2,4)] data_nbi [OF assms(2-4)])

lemma table_layout:
  fixes ropt :: options and name :: string and cache_id :: u64
  assumes sn: "snappy_laws sn" and fits: "table_fits sn opt kvss" and b: "blocks_ok cmp ok kvss"
  defines "content \<equiv> block_content sn cmp ok (opened_table sn opt ropt kvss name cache_id)"
    and "idx \<equiv> index_entries sn opt kvss (table_seps cmp kvss)"
  shows "layout cmp content idx" "all_blocks content idx = concat kvss"
proof -
  have len: "length idx = length kvss" by (simp add: idx_def)
  have nth: "idx ! n = (table_seps cmp kvss ! n, BlockHandle_EncodeTo [] (data_handle sn opt kvss n))"
    "content (snd (idx ! n)) = Some (kvss ! n)" "blk content idx n = kvss ! n" if "n < length kvss" for n
    using data_content [OF sn fits b that] that by (simp_all add: idx_def index_entries_nth content_def blk_def)
  show "layout cmp content idx"
    unfolding layout_def len using table_seps_laws [OF b] nth by simp
  have "map (blk content idx) [0..<length idx] = kvss" by (rule nth_equalityI) (simp_all add: len nth)
  then show "all_blocks content idx = concat kvss" by (simp add: all_blocks_def)
qed

text \<open>The iterator of the table is a cursor over all its entries.\<close>

lemma Table_NewIterator_at:
  fixes name :: string and cache_id :: u64
  assumes sn: "snappy_laws sn" and fits: "table_fits sn opt kvss" and c: "opt_comparator opt = cmp" "opt_comparator ropt = cmp"
    and b: "blocks_ok cmp ok kvss"
  defines "t \<equiv> opened_table sn opt ropt kvss name cache_id"
  shows "two_level.tl_at cmp ok (nbi_ops cmp) (nbi_at cmp ok) (nbi_ops cmp) (nbi_at cmp ok) (\<lambda>a. a = t) (block_content sn cmp ok t)
    (Table_NewIterator ro t) (concat kvss) (length (concat kvss))"
proof -
  note two = table_two_level [of sn t]
  note l = table_layout [OF sn fits b, of ropt name cache_id, folded t_def]
  show ?thesis
    using two_level.NewTwoLevelIterator_at [OF two index_nbi [OF fits c(1) b, of ropt name cache_id, folded t_def] refl l(1), of ro] b c
    unfolding l(2) by (simp add: Table_NewIterator_def t_def blocks_ok_def)
qed

end

section \<open>Sizes\<close>

text \<open>Entries of less than 4 GB in all, and separators no longer than keys, fit.\<close>

definition raw_size :: "kv list \<Rightarrow> nat" where
  "raw_size kvs = sum_list (map (\<lambda>(k, v). 64 + length k + length v) kvs)"

lemma raw_size_concat: "raw_size (concat kvss) = sum_list (map raw_size kvss)"
  by (induction kvss) (simp_all add: raw_size_def)

lemma raw_size_mem: "e \<in> set kvs \<Longrightarrow> 64 + length (fst e) + length (snd e) \<le> raw_size kvs"
  by (induction kvs) (auto simp: raw_size_def)

lemma build_block_raw: "length (build_block interval kvs) \<le> 8 + raw_size kvs"
proof -
  have "sum_list (map (\<lambda>(k, v). 19 + length k + length v) kvs) \<le> raw_size kvs" by (induction kvs) (auto simp: raw_size_def)
  then show ?thesis using build_block_size [of interval kvs] by linarith
qed

lemma block_fits_raw: "raw_size kvs + 8 < 2 ^ 32 \<Longrightarrow> block_fits interval kvs"
  using raw_size_mem [of _ kvs] build_block_raw [of interval kvs]
  by (fastforce simp: block_fits_def list_all_iff kv_fits_def)

definition short_separators :: "comparator \<Rightarrow> bool" where
  "short_separators cmp \<longleftrightarrow> (\<forall>a b. length (FindShortestSeparator cmp a b) \<le> length a) \<and>
     (\<forall>a. length (FindShortSuccessor cmp a) \<le> length a)"

lemma bytewise_short: "short_separators BytewiseComparator"
  by (simp add: short_separators_def Bytewise_separator_length Bytewise_successor_length)

lemma internal_short: "short_separators (InternalKeyComparator cmp)"
  by (auto simp: short_separators_def InternalKey_FindShortestSeparator_def InternalKey_FindShortSuccessor_def Let_def
      PutFixed64_def ExtractUserKey_def)

lemma length_handle: "length (BlockHandle_EncodeTo [] h) \<le> 20"
  using length_BlockHandle_EncodeTo [of h] by (simp add: kBlockHandleMaxEncodedLength_def)

lemma index_raw_size:
  assumes "short_separators cmp" "\<forall>b\<in>set kvss. b \<noteq> []"
  shows "raw_size (index_entries sn opt kvss (table_seps cmp kvss)) \<le> 64 * length kvss + raw_size (concat kvss)"
proof -
  let ?e = "\<lambda>i. 64 + length (table_seps cmp kvss ! i) + length (BlockHandle_EncodeTo [] (data_handle sn opt kvss i))"
  have e: "?e i \<le> 64 + raw_size (kvss ! i)" if "i \<in> set [0..<length kvss]" for i
  proof -
    have "length (table_seps cmp kvss ! i) \<le> length (fst (last (kvss ! i)))"
      using assms(1) that by (simp add: table_seps_def short_separators_def)
    then show ?thesis using raw_size_mem [of "last (kvss ! i)" "kvss ! i"] assms(2) that length_handle [of "data_handle sn opt kvss i"] by force
  qed
  have "raw_size (index_entries sn opt kvss (table_seps cmp kvss)) = sum_list (map ?e [0..<length kvss])"
    by (simp add: raw_size_def index_entries_def comp_def add.assoc)
  also have "\<dots> \<le> sum_list (map (\<lambda>i. 64 + raw_size (kvss ! i)) [0..<length kvss])" by (rule sum_list_mono) (rule e)
  also have "\<dots> = 64 * length kvss + sum_list (map (\<lambda>i. raw_size (kvss ! i)) [0..<length kvss])"
    by (simp add: sum_list_addf sum_list_triv)
  also have "map (\<lambda>i. raw_size (kvss ! i)) [0..<length kvss] = map raw_size kvss" by (rule nth_equalityI) simp_all
  finally show ?thesis by (simp add: raw_size_concat)
qed

lemma blocks_count: "\<forall>b\<in>set kvss. b \<noteq> [] \<Longrightarrow> 64 * length kvss \<le> raw_size (concat kvss)"
proof (induction kvss)
  case (Cons b kvss)
  then have "64 \<le> raw_size b" by (cases b) (auto simp: raw_size_def)
  then show ?case using Cons by (simp add: raw_size_def)
qed simp

lemma table_fits_size:
  assumes i: "1 \<le> opt_block_restart_interval opt" and s: "short_separators (opt_comparator opt)" and ne: "\<forall>b\<in>set kvss. b \<noteq> []"
    and r: "2 * raw_size (concat kvss) + 8 < 2 ^ 32"
    and n: "\<And>p. opt_filter_policy opt = Some p \<Longrightarrow> length (fp_name p) < 2 ^ 31"
    and l: "length (table_bytes sn opt kvss (table_seps (opt_comparator opt) kvss)) < 2 ^ 32"
  shows "table_fits sn opt kvss"
proof -
  have "raw_size b \<le> raw_size (concat kvss)" if "b \<in> set kvss" for b
    using that unfolding raw_size_concat by (simp add: member_le_sum_list)
  then have "block_fits j b" if "b \<in> set kvss" for b j using that r by (intro block_fits_raw) (metis add_le_mono1 le_less_trans mult_2 trans_le_add1)
  moreover have "block_fits j (meta_entries sn opt kvss)" for j
  proof (rule block_fits_raw, cases "opt_filter_policy opt")
    case (Some p)
    then show "raw_size (meta_entries sn opt kvss) + 8 < 2 ^ 32"
      using n [OF Some] length_handle [of "filter_handle sn opt kvss p"] by (simp add: meta_entries_def raw_size_def filter_meta_key_def)
  qed (simp add: meta_entries_def raw_size_def)
  moreover have "block_fits 1 (index_entries sn opt kvss (table_seps (opt_comparator opt) kvss))"
    using index_raw_size [OF s ne, of sn opt] blocks_count [OF ne] r by (intro block_fits_raw) linarith
  ultimately show ?thesis using i l by (simp add: table_fits_def)
qed

end
