(* ===== verification/TableGet.thy ===== *)
theory TableGet
  imports TableProofs CacheValues "HOL-Library.Monad_Syntax"
begin

text \<open>
  Point lookups in a built table: with or without a block cache and a filter, \<open>InternalGet\<close> hands over
  the first entry at or after the lookup key whenever that entry has the user key of the lookup key.
\<close>

section \<open>What a lookup may hand over\<close>

definition entry_user :: "kv \<Rightarrow> bytes" where
  "entry_user e = ExtractUserKey (fst e)"

text \<open>
  The first entry at or after the lookup key, when it has its user key. Otherwise nothing or an entry of
  another user key, which \<open>SaveValue\<close> ignores: the separators of the index and the filter may stop the
  search before the next entry.
\<close>

definition lookup_result :: "comparator \<Rightarrow> kv list \<Rightarrow> bytes \<Rightarrow> kv option \<Rightarrow> bool" where
  "lookup_result cmp kvs k saved \<longleftrightarrow>
     (let i = seek_pos (InternalKeyComparator cmp) kvs k
      in if i < length kvs \<and> entry_user (kvs ! i) = ExtractUserKey k then saved = Some (kvs ! i)
         else case saved of None \<Rightarrow> True | Some e \<Rightarrow> e \<in> set kvs \<and> entry_user e \<noteq> ExtractUserKey k)"

lemma lookup_result_Some:
  assumes "kvs = xs @ e # ys" "\<And>x. x \<in> set xs \<Longrightarrow> InternalKey_Compare cmp (fst x) k < 0"
    "\<not> InternalKey_Compare cmp (fst e) k < 0"
  shows "lookup_result cmp kvs k (Some e)"
proof -
  have "seek_pos (InternalKeyComparator cmp) kvs k = length xs"
    using assms by (simp add: seek_pos_def takeWhile_append2)
  then show ?thesis using assms(1) by (auto simp: lookup_result_def Let_def)
qed

lemma lookup_result_None:
  assumes "\<And>e. e \<in> set kvs \<Longrightarrow> InternalKey_Compare cmp (fst e) k < 0 \<or> entry_user e \<noteq> ExtractUserKey k"
  shows "lookup_result cmp kvs k None"
proof -
  let ?i = "seek_pos (InternalKeyComparator cmp) kvs k"
  have "\<not> (?i < length kvs \<and> entry_user (kvs ! ?i) = ExtractUserKey k)"
  proof
    assume a: "?i < length kvs \<and> entry_user (kvs ! ?i) = ExtractUserKey k"
    then have "\<not> InternalKey_Compare cmp (fst (kvs ! ?i)) k < 0"
      using nth_length_takeWhile [of "\<lambda>e. InternalKey_Compare cmp (fst e) k < 0" kvs] by (simp add: seek_pos_def)
    then show False using assms [of "kvs ! ?i"] a by simp
  qed
  then show ?thesis unfolding lookup_result_def Let_def by simp
qed

section \<open>The block cache\<close>

text \<open>
  A block cached under the offset of a data block of the file is that block. All openings of the file
  have the same blocks, so the cache id does not matter.
\<close>

definition block_cached :: "snappy \<Rightarrow> options \<Rightarrow> kv list list \<Rightarrow> bytes \<Rightarrow> block \<Rightarrow> bool" where
  "block_cached sn opt kvss key b \<longleftrightarrow>
     (\<forall>cache_id. \<forall>i<length kvss. key = block_cache_key cache_id (data_handle sn opt kvss i) \<longrightarrow>
        b = Block_new (build_block (opt_block_restart_interval opt) (kvss ! i)))"

definition blocks_cached ::
  "snappy \<Rightarrow> options \<Rightarrow> kv list list \<Rightarrow> block_cache \<Rightarrow> cache_handle multiset \<Rightarrow> bool" where
  "blocks_cached sn opt kvss cache held \<longleftrightarrow>
     (case cache of None \<Rightarrow> True | Some c \<Rightarrow> cache_holds (block_cached sn opt kvss) c held)"

lemma blocks_cached_simps [simp]:
  "blocks_cached sn opt kvss None held"
  "blocks_cached sn opt kvss (Some c) held \<longleftrightarrow> cache_holds (block_cached sn opt kvss) c held"
  by (simp_all add: blocks_cached_def)

lemma EncodeFixed64_inject: "EncodeFixed64 a = EncodeFixed64 b \<longleftrightarrow> a = b"
  by (metis DecodeFixed64_Encode_self)

lemma data_image_length: "length (table_bytes sn opt kvss seps) \<ge> length (data_image sn opt kvss)"
  by (simp add: table_bytes_def meta_start_def)

lemma data_offset_less:
  assumes "i < j" "j \<le> length kvss"
  shows "data_offset sn opt kvss i < data_offset sn opt kvss j"
proof -
  have i: "i < length (take j kvss)" using assms by simp
  have "take j kvss = take i kvss @ kvss ! i # drop (Suc i) (take j kvss)"
    using id_take_nth_drop [OF i] assms by (simp add: min_def)
  from arg_cong [OF this, of "\<lambda>x. length (data_image sn opt x)"] show ?thesis
    by (simp add: data_offset_def data_image_def length_raw_image kBlockTrailerSize_def)
qed

lemma unat_data_offset:
  assumes fits: "table_fits sn opt kvss" and i: "i \<le> length kvss"
  shows "unat (word_of_nat (data_offset sn opt kvss i) :: u64) = data_offset sn opt kvss i"
proof (rule word_of_nat_less_iff_bound)
  have "data_offset sn opt kvss i \<le> data_offset sn opt kvss (length kvss)"
    using data_offset_less [of i "length kvss" kvss sn opt] i by (cases "i = length kvss") auto
  also have "\<dots> = length (data_image sn opt kvss)" by (simp add: data_offset_def)
  finally show "data_offset sn opt kvss i < 2 ^ LENGTH(64)"
    using fits data_image_length [of sn opt kvss "table_seps (opt_comparator opt) kvss"] by (simp add: table_fits_def)
qed

lemma block_cached_own:
  assumes fits: "table_fits sn opt kvss" and i: "i < length kvss"
  shows "block_cached sn opt kvss (block_cache_key cache_id (data_handle sn opt kvss i))
    (Block_new (build_block (opt_block_restart_interval opt) (kvss ! i)))"
  unfolding block_cached_def
proof (intro allI impI)
  fix cache_id' j
  assume j: "j < length kvss" and key: "block_cache_key cache_id (data_handle sn opt kvss i) =
      block_cache_key cache_id' (data_handle sn opt kvss j)"
  then have "bh_offset (data_handle sn opt kvss i) = bh_offset (data_handle sn opt kvss j)"
    by (simp add: block_cache_key_def EncodeFixed64_inject)
  then have "(word_of_nat (data_offset sn opt kvss i) :: u64) = word_of_nat (data_offset sn opt kvss j)"
    by (simp add: data_handle_def raw_handle_def)
  from arg_cong [OF this, of unat] have "data_offset sn opt kvss i = data_offset sn opt kvss j"
    unfolding unat_data_offset [OF fits less_imp_le [OF i]] unat_data_offset [OF fits less_imp_le [OF j]] .
  then have "i = j" using data_offset_less [of i j kvss sn opt] data_offset_less [of j i kvss sn opt] i j by (cases i j rule: linorder_cases) auto
  then show "Block_new (build_block (opt_block_restart_interval opt) (kvss ! i)) =
      Block_new (build_block (opt_block_restart_interval opt) (kvss ! j))" by simp
qed


text \<open>The reader of a data block, with or without a cache; the caller releases what it holds.\<close>

context snappy_laws
begin

lemma BlockReader_cached:
  assumes fits: "table_fits sn opt kvss" and i: "i < length kvss" and c: "blocks_cached sn opt kvss cache held"
  shows "\<exists>h cache'. BlockReader sn ro (opened_table sn opt ropt kvss name cache_id)
      (BlockHandle_EncodeTo [] (data_handle sn opt kvss i)) cache =
      (Block_NewIterator (Block_new (build_block (opt_block_restart_interval opt) (kvss ! i))), h, cache') \<and>
    blocks_cached sn opt kvss (release_block h cache') held"
proof (cases cache)
  case None
  then show ?thesis by (simp add: BlockReader_def ReadBlock_data [OF fits i] release_block_def)
next
  case (Some c0)
  let ?t = "opened_table sn opt ropt kvss name cache_id" and ?h = "data_handle sn opt kvss i"
  let ?key = "block_cache_key (tab_cache_id ?t) ?h" and ?P = "block_cached sn opt kvss"
  let ?b = "Block_new (build_block (opt_block_restart_interval opt) (kvss ! i))"
  have h0: "cache_holds ?P c0 held" using c Some by simp
  obtain hit c1 where l: "Cache_Lookup ?key c0 = (hit, c1)" by fastforce
  note holds = Cache_Lookup_holds [OF h0 l]
  show ?thesis
  proof (cases hit)
    case (Some e)
    have "cache_holds ?P c1 (add_mset e held)" "?P ?key (Cache_Value e c1)" using holds(2) Some by simp_all
    then have "Cache_Value e c1 = ?b" "cache_holds ?P (Cache_Release e c1) held"
      using i Cache_Release_holds(1) [of ?P c1 "add_mset e held" e] by (auto simp: block_cached_def)
    then show ?thesis using l Some \<open>cache = Some c0\<close> by (simp add: BlockReader_def Let_def release_block_def)
  next
    case None
    note h1 = holds(1) [OF None]
    have own: "?P ?key ?b" by (rule block_cached_own [OF fits i])
    obtain e c2 where ins: "Cache_Insert ?key ?b (blk_size ?b) c1 = (e, c2)" by fastforce
    have "cache_holds ?P (Cache_Release e c2) held"
      using Cache_Insert_holds(1) [where P = ?P, OF h1 own ins] Cache_Release_holds(1) [of ?P c2 "add_mset e held" e] by simp
    then show ?thesis
      using l None \<open>cache = Some c0\<close> ins h1 ReadBlock_data [OF fits i, of ropt name cache_id]
      by (simp add: BlockReader_def Let_def release_block_def)
  qed
qed

end

section \<open>The filter\<close>

text \<open>The filter a table is read with, and the keys it is good for.\<close>

definition filter_fits :: "filter_policy option \<Rightarrow> bytes list \<Rightarrow> bool" where
  "filter_fits q keys \<longleftrightarrow> (case q of None \<Rightarrow> True | Some q \<Rightarrow> \<exists>fits. user_filter_policy q fits \<and> fits keys)"

context user_filter_policy
begin

lemma internal_bounded: "filter_policy_bounded (InternalFilterPolicy policy) fits"
  by (rule internal.filter_policy_bounded_axioms)

end

lemma KeyMayMatch_user:
  "ExtractUserKey a = ExtractUserKey b \<Longrightarrow>
   FilterBlock_KeyMayMatch (InternalFilterPolicy q) r off a = FilterBlock_KeyMayMatch (InternalFilterPolicy q) r off b"
  by (simp add: FilterBlock_KeyMayMatch_def InternalFilterPolicy_def Let_def)

lemma filter_runs_keys: "concat (map snd (filter_runs sn opt kvss [])) = map fst (concat kvss)"
proof -
  have "map (\<lambda>i. map fst (kvss ! i)) [0..<length kvss] = map (map fst) kvss" by (rule nth_equalityI) simp_all
  then show ?thesis by (simp add: filter_runs_def comp_def map_concat)
qed

lemma filter_runs_sorted:
  assumes fits: "table_fits sn opt kvss"
  shows "sorted (map fb_index (filter_runs sn opt kvss []))"
proof -
  have runs: "map fb_index (filter_runs sn opt kvss []) =
      map (\<lambda>i. data_offset sn opt kvss i div kFilterBase) [0..<Suc (length kvss)]"
    using unat_data_offset [OF fits]
    by (simp add: filter_runs_def fb_index_def) (metis data_offset_def order_refl take_all)
  show ?thesis unfolding runs
    by (auto simp: sorted_wrt_iff_nth_less less_Suc_eq_le simp del: upt_Suc intro!: div_le_mono less_imp_le [OF data_offset_less])
qed

lemma filter_hit:
  assumes fits: "table_fits sn opt kvss" and p: "opt_filter_policy opt = Some (InternalFilterPolicy q)"
    and q: "filter_fits (Some q) (map fst (concat kvss))" and i: "i < length kvss"
    and e: "e \<in> set (kvss ! i)" "entry_user e = ExtractUserKey k"
  shows "FilterBlock_KeyMayMatch (InternalFilterPolicy q) (FilterBlockReader_new (fst (filter_part sn opt kvss (InternalFilterPolicy q))))
      (bh_offset (data_handle sn opt kvss i)) k"
proof -
  obtain ft where u: "user_filter_policy q ft" "ft (map fst (concat kvss))" using q by (auto simp: filter_fits_def)
  let ?p = "InternalFilterPolicy q" and ?runs = "filter_runs sn opt kvss []"
  have run: "(word_of_nat (data_offset sn opt kvss i), map fst (kvss ! i)) \<in> set ?runs"
    using i by (auto simp: filter_runs_def)
  have small: "length (FilterBlock_Finish ?p (fb_blocks ?p ?runs)) < 2 ^ 32"
  proof -
    have "length (FilterBlock_Finish ?p (fb_blocks ?p ?runs)) \<le>
        length (table_bytes sn opt kvss (table_seps (opt_comparator opt) kvss))"
      using p by (simp add: table_bytes_def meta_start_def filter_block_image_def filter_part_def length_raw_image)
    then show ?thesis using fits by (simp add: table_fits_def)
  qed
  have "FilterBlock_KeyMayMatch ?p (FilterBlockReader_new (FilterBlock_Finish ?p (fb_blocks ?p ?runs)))
      (word_of_nat (data_offset sn opt kvss i)) (fst e)"
    using filter_policy_bounded.filter_block_no_false_negative
      [OF user_filter_policy.internal_bounded [OF u(1)] filter_runs_sorted [OF fits] run _ _ small, of "fst e"]
      u(2) e(1) by (simp add: filter_runs_keys)
  then show ?thesis
    using KeyMayMatch_user [of "fst e" k] e(2) by (simp add: filter_part_def data_handle_def raw_handle_def entry_user_def)
qed

section \<open>The lookup\<close>

context comparator_laws
begin

text \<open>Where the seek in the index leads.\<close>

lemma index_seek:
  assumes fits: "table_fits sn opt kvss" and b: "blocks_ok cmp ok kvss" and c: "opt_comparator opt = cmp" and k: "ok k"
  defines "i \<equiv> seek_pos cmp (index_entries sn opt kvss (table_seps cmp kvss)) k"
  shows "i \<le> length kvss" "\<And>j e. j < i \<Longrightarrow> e \<in> set (kvss ! j) \<Longrightarrow> Compare cmp (fst e) k < 0"
    "i < length kvss \<Longrightarrow> \<not> Compare cmp (table_seps cmp kvss ! i) k < 0"
    "\<exists>s. nbi_Seek cmp k (Block_NewIterator (tab_index_block (opened_table sn opt ropt kvss name cache_id))) = s \<and>
       nbi_status s = OK \<and> nbi_entry s = (if i < length kvss
         then Some (table_seps cmp kvss ! i, BlockHandle_EncodeTo [] (data_handle sn opt kvss i)) else None)"
proof -
  let ?idx = "index_entries sn opt kvss (table_seps cmp kvss)"
  let ?it = "Block_NewIterator (tab_index_block (opened_table sn opt ropt kvss name cache_id))"
  have at: "nbi_at cmp ok ?it ?idx (length kvss)" by (rule index_nbi [OF fits c b])
  then have srt: "kvs_sorted cmp ?idx" "keys_ok ok ?idx" by (simp_all add: nbi_at_def)
  show i: "i \<le> length kvss" using seek_pos_le [of cmp ?idx k] by (simp add: i_def)
  have iff: "Compare cmp (table_seps cmp kvss ! j) k < 0 \<longleftrightarrow> j < i" if "j < length kvss" for j
    using seek_pos_iff [OF srt k, of j] that by (simp add: i_def index_entries_nth)
  show "Compare cmp (fst e) k < 0" if j: "j < i" "e \<in> set (kvss ! j)" for j e
  proof -
    have l: "j < length kvss" using j(1) i by simp
    show ?thesis
      using compare_le_less_trans [OF block_last(2) [OF b l j(2)] table_seps_laws(1) [OF b l] k table_seps_laws(2) [OF b l j(2)]]
        iff [OF l] j(1) by simp
  qed
  show "i < length kvss \<Longrightarrow> \<not> Compare cmp (table_seps cmp kvss ! i) k < 0" using iff by simp
  note it = nbi_iterator
  obtain s where s: "it_Seek (nbi_ops cmp) k ?it = Some s" "nbi_at cmp ok s ?idx i"
    using iterator.Seek_at [OF it at k] unfolding i_def by blast
  have "nbi_entry s = cursor_entry ?idx i" using iterator.entry_at [OF it s(2)] by (simp add: nbi_entry_it [of _ cmp])
  moreover have "nbi_status s = OK" using iterator.status_at [OF it s(2)] by (simp add: nbi_ops_def)
  moreover have "s = nbi_Seek cmp k ?it" using s(1) by (simp add: nbi_ops_def)
  ultimately show "\<exists>s. nbi_Seek cmp k ?it = s \<and> nbi_status s = OK \<and> nbi_entry s = (if i < length kvss
      then Some (table_seps cmp kvss ! i, BlockHandle_EncodeTo [] (data_handle sn opt kvss i)) else None)"
    by (simp add: cursor_entry_def index_entries_nth)
qed

lemma data_seek:
  assumes fits: "table_fits sn opt kvss" and b: "blocks_ok cmp ok kvss" and i: "i < length kvss" and k: "ok k"
  defines "s \<equiv> nbi_Seek cmp k (Block_NewIterator (Block_new (build_block (opt_block_restart_interval opt) (kvss ! i))))"
  shows "nbi_status s = OK" "nbi_entry s = cursor_entry (kvss ! i) (seek_pos cmp (kvss ! i) k)"
proof -
  note at = data_nbi [OF fits b i] and it = nbi_iterator
  obtain s' where s: "it_Seek (nbi_ops cmp) k (Block_NewIterator (Block_new (build_block (opt_block_restart_interval opt) (kvss ! i)))) = Some s'"
    "nbi_at cmp ok s' (kvss ! i) (seek_pos cmp (kvss ! i) k)" using iterator.Seek_at [OF it at k] by blast
  have "s' = s" using s(1) by (simp add: nbi_ops_def s_def)
  then show "nbi_status s = OK" "nbi_entry s = cursor_entry (kvss ! i) (seek_pos cmp (kvss ! i) k)"
    using iterator.status_at [OF it s(2)] iterator.entry_at [OF it s(2)] by (simp_all add: nbi_ops_def nbi_entry_it [of _ cmp])
qed

end

text \<open>Internal keys: a separator that was shortened has a user key below that of the next block.\<close>

lemma cursor_entry_split:
  assumes "p = seek_pos cmp kvs k"
  shows "case cursor_entry kvs p of
      None \<Rightarrow> \<forall>e\<in>set kvs. Compare cmp (fst e) k < 0
    | Some e \<Rightarrow> \<exists>xs ys. kvs = xs @ e # ys \<and> (\<forall>x\<in>set xs. Compare cmp (fst x) k < 0) \<and> \<not> Compare cmp (fst e) k < 0"
proof (cases "p < length kvs")
  case True
  have "kvs = take p kvs @ kvs ! p # drop (Suc p) kvs" by (rule id_take_nth_drop [OF True])
  moreover have "take p kvs = takeWhile (\<lambda>e. Compare cmp (fst e) k < 0) kvs"
    unfolding assms seek_pos_def by (rule takeWhile_eq_take [symmetric])
  moreover have "\<not> Compare cmp (fst (kvs ! p)) k < 0"
    using True nth_length_takeWhile [of "\<lambda>e. Compare cmp (fst e) k < 0" kvs] by (simp add: assms seek_pos_def)
  ultimately show ?thesis using True by (auto simp: cursor_entry_def dest: set_takeWhileD)
next
  case False
  then have "p = length kvs" using seek_pos_le [of cmp kvs k] assms by simp
  then have "takeWhile (\<lambda>e. Compare cmp (fst e) k < 0) kvs = take (length kvs) kvs"
    unfolding assms seek_pos_def by (metis takeWhile_eq_take)
  then have "takeWhile (\<lambda>e. Compare cmp (fst e) k < 0) kvs = kvs" by simp
  then show ?thesis using False by (auto simp: cursor_entry_def takeWhile_eq_all_conv)
qed

context user_comparator
begin

lemma separator_user:
  assumes "internal_ok ok a" "internal_ok ok b"
  shows "InternalKey_FindShortestSeparator cmp a b = a \<or>
    Compare cmp (ExtractUserKey (InternalKey_FindShortestSeparator cmp a b)) (ExtractUserKey b) < 0"
proof -
  let ?a = "ExtractUserKey a" and ?b = "ExtractUserKey b"
  have o: "ok ?a" "ok ?b" using assms by (simp_all add: internal_ok_def)
  show ?thesis
  proof (cases "Compare cmp ?a ?b < 0")
    case True
    then show ?thesis using separator_range [OF o]
      by (simp add: InternalKey_FindShortestSeparator_def Let_def PutFixed64_def)
  next
    case False
    then show ?thesis using separator_noop [OF o] by (simp add: InternalKey_FindShortestSeparator_def Let_def)
  qed
qed

lemma user_le: "internal_ok ok a \<Longrightarrow> internal_ok ok b \<Longrightarrow> \<not> InternalKey_Compare cmp b a < 0 \<Longrightarrow>
   Compare cmp (ExtractUserKey a) (ExtractUserKey b) \<le> 0"
  using InternalKey_Compare_less [of b a] compare_le_or_less [of "ExtractUserKey b" "ExtractUserKey a"] by (auto simp: internal_ok_def)

lemma user_between:
  assumes "internal_ok ok k" "internal_ok ok x" "internal_ok ok e" "\<not> InternalKey_Compare cmp x k < 0"
    "InternalKey_Compare cmp x e < 0" "ExtractUserKey e = ExtractUserKey k"
  shows "ExtractUserKey x = ExtractUserKey k"
proof -
  have "\<not> InternalKey_Compare cmp e x < 0" using InternalKey_Compare_flip [OF assms(2,3)] assms(5) by simp
  then have "Compare cmp (ExtractUserKey x) (ExtractUserKey k) \<le> 0" using user_le [OF assms(2,3)] assms(6) by simp
  moreover have "Compare cmp (ExtractUserKey k) (ExtractUserKey x) \<le> 0" by (rule user_le [OF assms(1,2,4)])
  moreover have "ok (ExtractUserKey x)" "ok (ExtractUserKey k)" using assms(1,2) by (simp_all add: internal_ok_def)
  ultimately show ?thesis using compare_cases compare_flip by (metis linorder_not_less)
qed

text \<open>An entry behind the block the index leads to, of a user key that is not the one looked for.\<close>

lemma gap_user:
  assumes b: "blocks_ok (InternalKeyComparator cmp) (internal_ok ok) kvss" and i: "i < length kvss" and k: "internal_ok ok k"
    and below: "\<forall>e\<in>set (kvss ! i). InternalKey_Compare cmp (fst e) k < 0"
    and sep: "\<not> InternalKey_Compare cmp (table_seps (InternalKeyComparator cmp) kvss ! i) k < 0"
    and j: "i < j" "j < length kvss" "e \<in> set (kvss ! j)"
  shows "entry_user e \<noteq> ExtractUserKey k"
proof -
  let ?ic = "InternalKeyComparator cmp"
  have si: "Suc i < length kvss" using j by simp
  let ?l = "fst (last (kvss ! i))" and ?h = "fst (hd (kvss ! Suc i))" and ?s = "table_seps (InternalKeyComparator cmp) kvss ! i"
  have s: "?s = InternalKey_FindShortestSeparator cmp ?l ?h" using si i by (simp add: table_seps_def)
  note okl = internal.block_last(2) [OF b i blocks_nth(4) [OF b i]]
    and okh = internal.block_last(2) [OF b si blocks_nth(5) [OF b si]] and oke = internal.block_last(2) [OF b j(2,3)]
    and oks = internal.table_seps_laws(1) [OF b i]
  have "InternalKey_Compare cmp ?l k < 0" using below blocks_nth(4) [OF b i] by blast
  then have "?s \<noteq> ?l" using sep by auto
  then have sh: "Compare cmp (ExtractUserKey ?s) (ExtractUserKey ?h) < 0" using separator_user [OF okl okh] s by simp
  have ks: "Compare cmp (ExtractUserKey k) (ExtractUserKey ?s) \<le> 0" by (rule user_le [OF k oks sep])
  have "\<not> InternalKey_Compare cmp (fst e) ?h < 0"
  proof (cases "j = Suc i")
    case True
    then show ?thesis
      using sorted_wrt_hd [OF blocks_nth(1) [OF b j(2), unfolded kvs_sorted_def] j(3)] InternalKey_Compare_refl [OF okh]
        InternalKey_Compare_flip [OF okh oke] by auto
  next
    case False
    then have "InternalKey_Compare cmp ?h (fst e) < 0"
      using blocks_less [OF b _ j(2) blocks_nth(5) [OF b si] j(3)] j(1) by simp
    then show ?thesis using InternalKey_Compare_flip [OF okh oke] by simp
  qed
  then have he: "Compare cmp (ExtractUserKey ?h) (ExtractUserKey (fst e)) \<le> 0" by (rule user_le [OF okh oke])
  have o: "ok (ExtractUserKey k)" "ok (ExtractUserKey ?s)" "ok (ExtractUserKey ?h)" "ok (ExtractUserKey (fst e))"
    using k oks okh oke by (simp_all add: internal_ok_def)
  have "Compare cmp (ExtractUserKey k) (ExtractUserKey (fst e)) < 0"
    using compare_less_le_trans [OF o(1,3,4) compare_le_less_trans [OF o(1-3) ks sh] he] .
  then show ?thesis using compare_refl [OF o(1)] by (auto simp: entry_user_def)
qed

theorem InternalGet_lookup:
  assumes sn: "snappy_laws sn" and fits: "table_fits sn opt kvss"
    and c: "opt_comparator opt = InternalKeyComparator cmp" "opt_comparator ropt = InternalKeyComparator cmp"
    and p: "opt_filter_policy opt = map_option InternalFilterPolicy q" "opt_filter_policy ropt = map_option InternalFilterPolicy q"
    and ff: "filter_fits q (map fst (concat kvss))"
    and b: "blocks_ok (InternalKeyComparator cmp) (internal_ok ok) kvss" and k: "internal_ok ok k"
    and bc: "blocks_cached sn opt kvss cache held"
  shows "\<exists>saved cache'. Table_InternalGet sn ro (opened_table sn opt ropt kvss name cache_id) k cache = (OK, saved, cache') \<and>
    blocks_cached sn opt kvss cache' held \<and> lookup_result cmp (concat kvss) k saved"
proof -
  let ?ic = "InternalKeyComparator cmp" and ?t = "opened_table sn opt ropt kvss name cache_id"
  define i where "i = seek_pos ?ic (index_entries sn opt kvss (table_seps ?ic kvss)) k"
  note iss = internal.index_seek [OF fits b c(1) k, folded i_def]
  obtain s where s: "nbi_Seek ?ic k (Block_NewIterator (tab_index_block ?t)) = s" "nbi_status s = OK"
    "nbi_entry s = (if i < length kvss
       then Some (table_seps ?ic kvss ! i, BlockHandle_EncodeTo [] (data_handle sn opt kvss i)) else None)"
    using iss(4) [of ropt name cache_id] by blast
  show ?thesis
  proof (cases "i < length kvss")
    case False
    then have "\<forall>e\<in>set (concat kvss). InternalKey_Compare cmp (fst e) k < 0"
      using iss(1,2) by (fastforce simp: in_set_conv_nth [of _ kvss])
    then have "lookup_result cmp (concat kvss) k None" by (intro lookup_result_None) blast
    then show ?thesis using False s bc by (simp add: Table_InternalGet_def c Let_def)
  next
    case True
    let ?B = "kvss ! i"
    define saved where "saved = cursor_entry ?B (seek_pos ?ic ?B k)"
    define skip where "skip = (case q of None \<Rightarrow> False | Some q' \<Rightarrow> \<not> FilterBlock_KeyMayMatch (InternalFilterPolicy q')
        (FilterBlockReader_new (fst (filter_part sn opt kvss (InternalFilterPolicy q')))) (bh_offset (data_handle sn opt kvss i)) k)"
    have none: "lookup_result cmp (concat kvss) k None"
      if B: "\<And>e. e \<in> set ?B \<Longrightarrow> InternalKey_Compare cmp (fst e) k < 0 \<or> entry_user e \<noteq> ExtractUserKey k"
        and later: "\<And>j e. i < j \<Longrightarrow> j < length kvss \<Longrightarrow> e \<in> set (kvss ! j) \<Longrightarrow> entry_user e \<noteq> ExtractUserKey k"
    proof (rule lookup_result_None)
      fix e
      assume "e \<in> set (concat kvss)"
      then obtain j where j: "j < length kvss" "e \<in> set (kvss ! j)" by (auto simp: in_set_conv_nth [of _ kvss])
      show "InternalKey_Compare cmp (fst e) k < 0 \<or> entry_user e \<noteq> ExtractUserKey k"
        using iss(2) [of j e] B later j by (cases i j rule: linorder_cases) auto
    qed
    note split = cursor_entry_split [of "seek_pos ?ic ?B k" ?ic ?B k, OF refl, folded saved_def]
    show ?thesis
    proof (cases skip)
      case skipped: True
      then obtain q' where q': "q = Some q'" by (auto simp: skip_def split: option.splits)
      have "Table_InternalGet sn ro ?t k cache = (OK, None, cache)"
        using s True skipped q' by (simp add: Table_InternalGet_def c Let_def p skip_def)
      moreover have "lookup_result cmp (concat kvss) k None"
      proof -
        have hit: "entry_user e \<noteq> ExtractUserKey k" if "e \<in> set ?B" for e
          using filter_hit [OF fits _ _ True that, of q'] p(1) ff skipped q' by (auto simp: skip_def)
        have "entry_user e \<noteq> ExtractUserKey k" if j: "i < j" "j < length kvss" "e \<in> set (kvss ! j)" for j e
        proof (cases "\<forall>x\<in>set ?B. InternalKey_Compare cmp (fst x) k < 0")
          case below: True
          show ?thesis by (rule gap_user [OF b True k below iss(3) [OF True, simplified] j])
        next
          case False
          then obtain x where x: "x \<in> set ?B" "\<not> InternalKey_Compare cmp (fst x) k < 0" by blast
          have "InternalKey_Compare cmp (fst x) (fst e) < 0" using blocks_less [OF b j(1,2) x(1) j(3)] by simp
          note between = user_between [OF k internal.block_last(2) [OF b True x(1)] internal.block_last(2) [OF b j(2,3)] x(2) this]
          show ?thesis using hit [OF x(1)] between by (auto simp: entry_user_def)
        qed
        then show ?thesis using hit by (intro none) auto
      qed
      ultimately show ?thesis using bc by blast
    next
      case read: False
      obtain h cache' where r: "BlockReader sn ro ?t (BlockHandle_EncodeTo [] (data_handle sn opt kvss i)) cache =
          (Block_NewIterator (Block_new (build_block (opt_block_restart_interval opt) ?B)), h, cache')"
        "blocks_cached sn opt kvss (release_block h cache') held"
        using snappy_laws.BlockReader_cached [OF sn fits True bc] by blast
      note d = internal.data_seek [OF fits b True k, folded saved_def]
      have "Table_InternalGet sn ro ?t k cache = (OK, saved, release_block h cache')"
        using s True read r(1) d by (cases q) (simp_all add: Table_InternalGet_def c Let_def p skip_def)
      moreover have "lookup_result cmp (concat kvss) k saved"
      proof (cases saved)
        case None
        then have below: "\<forall>e\<in>set ?B. InternalKey_Compare cmp (fst e) k < 0" using split by simp
        then show ?thesis unfolding None
          by (intro none) (use gap_user [OF b True k below iss(3) [OF True, simplified]] in auto)
      next
        case (Some e)
        then obtain xs ys where e: "?B = xs @ e # ys" "\<forall>x\<in>set xs. InternalKey_Compare cmp (fst x) k < 0"
          "\<not> InternalKey_Compare cmp (fst e) k < 0" using split by auto
        show ?thesis unfolding Some
        proof (rule lookup_result_Some [OF _ _ e(3)])
          show "concat kvss = (concat (take i kvss) @ xs) @ e # ys @ concat (drop (Suc i) kvss)"
            using concat_split_at [OF True] e(1) by simp
          fix x
          assume "x \<in> set (concat (take i kvss) @ xs)"
          then have "x \<in> set xs \<or> (\<exists>j<i. x \<in> set (kvss ! j))" by (auto simp: in_set_conv_nth [of _ "take i kvss"])
          then show "InternalKey_Compare cmp (fst x) k < 0" using e(2) iss(2) [of _ x] by auto
        qed
      qed
      ultimately show ?thesis using r(2) by blast
    qed
  qed
qed

end

section \<open>Written and read back\<close>

text \<open>The entries an iterator runs over: \<open>SeekToFirst\<close>, then \<open>Next\<close>, at most \<open>n\<close> entries.\<close>

fun it_collect :: "'s iter_ops \<Rightarrow> nat \<Rightarrow> 's \<Rightarrow> kv list option" where
  "it_collect ops 0 s = Some []"
| "it_collect ops (Suc n) s =
     (if it_Valid ops s then
        do { s' \<leftarrow> it_Next ops s; rest \<leftarrow> it_collect ops n s'; Some ((it_key ops s, it_value ops s) # rest) }
      else Some [])"

definition it_scan :: "'s iter_ops \<Rightarrow> nat \<Rightarrow> 's \<Rightarrow> kv list option" where
  "it_scan ops n s = do { s \<leftarrow> it_SeekToFirst ops s; it_collect ops n s }"

context iterator
begin

lemma it_collect_at: "at s kvs i \<Longrightarrow> length kvs - i \<le> n \<Longrightarrow> it_collect ops n s = Some (drop i kvs)"
proof (induction n arbitrary: s i)
  case 0
  then show ?case using at_bound [of s kvs i] by simp
next
  case (Suc n)
  show ?case
  proof (cases "i < length kvs")
    case True
    obtain s' where s': "it_Next ops s = Some s'" "at s' kvs (Suc i)" using Next_at [OF Suc.prems(1) True] by blast
    have "it_collect ops n s' = Some (drop (Suc i) kvs)" using Suc.IH [OF s'(2)] Suc.prems(2) by simp
    then show ?thesis
      using s'(1) True Suc.prems(1) Cons_nth_drop_Suc [OF True] by (simp add: Valid_at key_at value_at)
  qed (use Suc.prems(1) Valid_at at_bound in auto)
qed

lemma it_scan_at: "at s kvs i \<Longrightarrow> length kvs \<le> n \<Longrightarrow> it_scan ops n s = Some kvs"
  using SeekToFirst_at [of s kvs i] it_collect_at [of _ kvs 0 n] by (auto simp: it_scan_def)

text \<open>Seeking gives the first entry at or after the target.\<close>

lemma it_seek_at:
  "at s kvs i \<Longrightarrow> ok t \<Longrightarrow> \<exists>s'. it_Seek ops t s = Some s' \<and> it_entry ops s' = cursor_entry kvs (seek_pos cmp kvs t)"
  using Seek_at [of s kvs i t] entry_at by blast

end

definition table_input ::
  "comparator \<Rightarrow> (bytes \<Rightarrow> bool) \<Rightarrow> options \<Rightarrow> writable_file \<Rightarrow> kv list \<Rightarrow> bool" where
  "table_input cmp ok opt f kvs \<longleftrightarrow>
     opt_comparator opt = cmp \<and> 1 \<le> opt_block_restart_interval opt \<and>
     (case opt_filter_policy opt of None \<Rightarrow> True | Some p \<Rightarrow> length (fp_name p) < 2 ^ 31) \<and>
     kvs_sorted cmp kvs \<and> keys_ok ok kvs \<and> 2 * raw_size kvs + 8 < 2 ^ 32 \<and> wf_data f = [] \<and> wf_answers f = []"

lemma built_table:
  assumes i: "table_input cmp ok opt f kvs" and s: "short_separators cmp"
    and fin: "TableBuilder_Finish sn (TableBuilder_Adds sn kvs (TableBuilder_new opt f)) = (s, r)"
    and l: "length (wf_data (tb_file r)) < 2 ^ 32"
  shows "s = OK \<and> (\<exists>kvss. concat kvss = kvs \<and> blocks_ok cmp ok kvss \<and> table_fits sn opt kvss \<and>
    wf_data (tb_file r) = table_bytes sn opt kvss (table_seps cmp kvss) \<and>
    TableBuilder_FileSize r = word_of_nat (length (wf_data (tb_file r))))"
proof -
  have i0: "tb_inv sn opt (TableBuilder_new opt f) [] [] []" using i by (intro TableBuilder_new_inv) (simp_all add: table_input_def)
  obtain kvss cur seps where tb: "tb_inv sn opt (TableBuilder_Adds sn kvs (TableBuilder_new opt f)) kvss cur seps"
    "concat kvss @ cur = kvs" using Adds_inv [OF i0, of kvs] by auto
  obtain kvss' r' where e: "TableBuilder_Finish sn (TableBuilder_Adds sn kvs (TableBuilder_new opt f)) = (OK, r')"
    "concat kvss' = kvs" "\<forall>b\<in>set kvss'. b \<noteq> []"
    "wf_data (tb_file r') = table_bytes sn opt kvss' (table_seps cmp kvss')"
    "TableBuilder_FileSize r' = word_of_nat (length (wf_data (tb_file r')))"
    using Finish_file [OF tb(1)] tb(2) i by (auto simp: table_input_def)
  have "table_fits sn opt kvss'"
    by (rule table_fits_size) (use i s e fin l in \<open>auto simp: table_input_def split: option.splits\<close>)
  moreover have "blocks_ok cmp ok kvss'" using i e by (simp add: blocks_ok_def table_input_def)
  ultimately show ?thesis using e fin by auto
qed

text \<open>Without a filter, the size of the file is bounded by that of the entries.\<close>

lemma stored_form_length: "length (raw_image (stored_form sn c raw)) \<le> length raw + 5"
  by (auto simp: raw_image_def stored_form_def kBlockTrailerSize_def split: option.split)

lemma table_bytes_small:
  assumes "opt_filter_policy opt = None" "short_separators (opt_comparator opt)" "\<forall>b\<in>set kvss. b \<noteq> []"
  shows "length (table_bytes sn opt kvss (table_seps (opt_comparator opt) kvss)) \<le> 4 * raw_size (concat kvss) + 100"
proof -
  have d: "length (data_image sn opt kvss) \<le> 13 * length kvss + raw_size (concat kvss)"
  proof (induction kvss)
    case (Cons b kvss)
    have "length (raw_image (data_form sn opt b)) \<le> 13 + raw_size b"
      using stored_form_length [of sn "opt_compression opt" "build_block (opt_block_restart_interval opt) b"]
        build_block_raw [of "opt_block_restart_interval opt" b] by (simp add: data_form_def)
    then show ?case using Cons by (simp add: data_image_def raw_size_def)
  qed (simp add: data_image_def raw_size_def)
  have m: "length (raw_image (meta_form sn opt kvss)) \<le> 13"
    using stored_form_length [of sn "opt_compression opt" "build_block (opt_block_restart_interval opt) []"]
      build_block_raw [of "opt_block_restart_interval opt" "[]"] assms(1) by (simp add: meta_form_def meta_entries_def raw_size_def)
  have "length (raw_image (index_form sn opt kvss (table_seps (opt_comparator opt) kvss))) \<le>
      13 + raw_size (index_entries sn opt kvss (table_seps (opt_comparator opt) kvss))"
    using stored_form_length [of sn "opt_compression opt" "build_block 1 (index_entries sn opt kvss (table_seps (opt_comparator opt) kvss))"]
      build_block_raw [of 1 "index_entries sn opt kvss (table_seps (opt_comparator opt) kvss)"] by (simp add: index_form_def)
  then have x: "length (raw_image (index_form sn opt kvss (table_seps (opt_comparator opt) kvss))) \<le>
      13 + 64 * length kvss + raw_size (concat kvss)" using index_raw_size [OF assms(2,3), of sn opt] by linarith
  have f: "length (Footer_EncodeTo [] foot) = 48" for foot
    by (simp add: kFooterEncodedLength_def kBlockHandleMaxEncodedLength_def)
  show ?thesis using d m x f blocks_count [OF assms(3)] assms(1)
    by (simp add: table_bytes_def meta_start_def filter_block_image_def)
qed

lemma built_table_small:
  assumes i: "table_input cmp ok opt f kvs" and s: "short_separators cmp" and p: "opt_filter_policy opt = None"
    and r: "4 * raw_size kvs + 100 < 2 ^ 32"
    and fin: "TableBuilder_Finish sn (TableBuilder_Adds sn kvs (TableBuilder_new opt f)) = (s, r)"
  shows "length (wf_data (tb_file r)) < 2 ^ 32"
proof -
  have i0: "tb_inv sn opt (TableBuilder_new opt f) [] [] []" using i by (intro TableBuilder_new_inv) (simp_all add: table_input_def)
  obtain kvss cur seps where tb: "tb_inv sn opt (TableBuilder_Adds sn kvs (TableBuilder_new opt f)) kvss cur seps"
    "concat kvss @ cur = kvs" using Adds_inv [OF i0, of kvs] by auto
  obtain kvss' where e: "concat kvss' = kvs" "\<forall>b\<in>set kvss'. b \<noteq> []"
    "wf_data (tb_file r) = table_bytes sn opt kvss' (table_seps (opt_comparator opt) kvss')"
    using Finish_file [OF tb(1)] tb(2) fin by auto
  have "short_separators (opt_comparator opt)" using i s by (simp add: table_input_def)
  from table_bytes_small [OF p this e(2), of sn] show ?thesis using e(1,3) r by simp
qed

lemma InternalGet_no_cache: "Table_InternalGet sn ro t k None = (s, saved, cache) \<Longrightarrow> cache = None"
  by (auto simp: Table_InternalGet_def BlockReader_def release_block_def Let_def split: option.splits if_splits prod.splits)

definition new_file :: "string \<Rightarrow> writable_file" where
  "new_file name = \<lparr>wf_name = name, wf_data = [], wf_answers = []\<rparr>"

context comparator_laws
begin

lemma built_table_scan:
  assumes sn: "snappy_laws sn" and i: "table_input cmp ok opt f kvs" and sh: "short_separators cmp"
    and ro: "opt_comparator ropt = cmp" "opt_filter_policy ropt = opt_filter_policy opt"
    and fin: "TableBuilder_Finish sn (TableBuilder_Adds sn kvs (TableBuilder_new opt f)) = (s, r)"
    and l: "length (wf_data (tb_file r)) < 2 ^ 32"
  shows "s = OK \<and> (\<exists>t. Table_Open sn ropt (plain_file name (wf_data (tb_file r))) (TableBuilder_FileSize r) cache_id = (OK, Some t) \<and>
    (\<forall>n\<ge>length kvs. it_scan (table_iter_ops sn cmp) n (Table_NewIterator rd t) = Some kvs) \<and>
    (\<forall>k. ok k \<longrightarrow> (\<exists>it. it_Seek (table_iter_ops sn cmp) k (Table_NewIterator rd t) = Some it \<and>
       it_entry (table_iter_ops sn cmp) it = cursor_entry kvs (seek_pos cmp kvs k))))"
proof -
  obtain kvss where b: "s = OK" "concat kvss = kvs" "blocks_ok cmp ok kvss" "table_fits sn opt kvss"
    "wf_data (tb_file r) = table_bytes sn opt kvss (table_seps cmp kvss)"
    "TableBuilder_FileSize r = word_of_nat (length (wf_data (tb_file r)))"
    using built_table [OF i sh fin l] by blast
  have c: "opt_comparator opt = cmp" using i by (simp add: table_input_def)
  let ?t = "opened_table sn opt ropt kvss name cache_id"
  have o: "Table_Open sn ropt (plain_file name (wf_data (tb_file r))) (TableBuilder_FileSize r) cache_id = (OK, Some ?t)"
    using snappy_laws.Table_Open_file [OF sn b(4) ro(2), of name cache_id] b(5,6) c by simp
  note at = Table_NewIterator_at [OF sn b(4) c ro(1) b(3), of name cache_id rd, unfolded b(2)]
  note it = two_level.two_level_iterator [OF table_two_level [of sn ?t], folded table_iter_ops_def]
  show ?thesis using b(1) o iterator.it_scan_at [OF it at] iterator.it_seek_at [OF it at] by blast
qed

end

end
