(* ===== verification/VersionGet.thy ===== *)
theory VersionGet
  imports VersionProofs TableCache TableGet
begin

text \<open>
  Point lookups in a version: over tables that answer for their own entries, \<open>Version::Get\<close> returns
  the newest entry of the user key that the snapshot of the lookup key can see.
\<close>

section \<open>Entries\<close>

definition entry_seq :: "kv \<Rightarrow> SequenceNumber" where
  "entry_seq e = drop_bit 8 (ExtractTag (fst e))"

definition entry_type :: "kv \<Rightarrow> ValueType" where
  "entry_type e = ExtractValueType (fst e)"

definition visible_to :: "bytes \<Rightarrow> SequenceNumber \<Rightarrow> kv \<Rightarrow> bool" where
  "visible_to u s e \<longleftrightarrow> entry_user e = u \<and> entry_seq e \<le> s"

definition entries_ok :: "comparator \<Rightarrow> (bytes \<Rightarrow> bool) \<Rightarrow> kv list \<Rightarrow> bool" where
  "entries_ok cmp ok kvs \<longleftrightarrow> kvs_sorted (InternalKeyComparator cmp) kvs \<and> keys_ok (internal_ok ok) kvs \<and>
     (\<forall>e\<in>set kvs. ParseInternalKey (fst e) \<noteq> None)"

lemma Parse_parts:
  assumes "ParseInternalKey k \<noteq> None"
  shows "ParseInternalKey k = Some \<lparr>pk_user_key = ExtractUserKey k, pk_sequence = drop_bit 8 (ExtractTag k),
      pk_type = ExtractValueType k\<rparr>"
    "ExtractValueType k \<le> kTypeValue"
  using assms by (auto simp: ParseInternalKey_def Let_def ExtractUserKey_def ExtractValueType_def split: if_splits)

lemma tag_split: "unat t = unat (drop_bit 8 t) * 256 + unat (ucast (t :: u64) :: byte)"
proof -
  have "unat (drop_bit 8 t) = unat t div 256" by (simp only: unat_drop_bit_eq) (simp add: drop_bit_eq_div)
  moreover have "unat (ucast t :: byte) = unat t mod 256" by (simp add: unsigned_ucast_eq take_bit_eq_mod)
  ultimately show ?thesis by simp
qed

lemma tag_seq_le_max: "drop_bit 8 (t :: u64) \<le> kMaxSequenceNumber"
proof -
  have "unat (drop_bit 8 t) = unat t div 256" by (simp only: unat_drop_bit_eq) (simp add: drop_bit_eq_div)
  then show ?thesis using unat_lt [of t] by (simp add: word_le_nat_alt kMaxSequenceNumber_def)
qed

context user_comparator
begin

text \<open>The lookup key at \<open>s\<close> is after an entry of its user key exactly when the entry is newer.\<close>

lemma lookup_less_iff:
  assumes "ok u" "s \<le> kMaxSequenceNumber" "internal_ok ok k" "ParseInternalKey k \<noteq> None"
  shows "InternalKey_Compare cmp k (ikey u s kValueTypeForSeek) < 0 \<longleftrightarrow>
    Compare cmp (ExtractUserKey k) u < 0 \<or> ExtractUserKey k = u \<and> s < drop_bit 8 (ExtractTag k)"
proof -
  let ?q = "drop_bit 8 (ExtractTag k)" and ?t = "ExtractValueType k"
  have "unat ?t \<le> 1" using Parse_parts(2) [OF assms(4)] by (simp add: word_le_nat_alt kTypeValue_def)
  moreover have "unat (ExtractTag k) = unat ?q * 256 + unat ?t"
    using tag_split [of "ExtractTag k"] by (simp add: ExtractValueType_def ExtractTag_def)
  moreover have "unat (PackSequenceAndType s kValueTypeForSeek) = unat s * 256 + 1"
    using assms(2) by (simp add: unat_Pack kValueTypeForSeek_def kTypeValue_def)
  ultimately have "PackSequenceAndType s kValueTypeForSeek < ExtractTag k \<longleftrightarrow> s < ?q"
    unfolding word_less_nat_alt by (auto simp: not_less)
  then show ?thesis using InternalKey_Compare_less [OF assms(3), of "ikey u s kValueTypeForSeek"] assms(1) by auto
qed

lemma entry_less_newer:
  assumes "internal_ok ok (fst a)" "internal_ok ok (fst b)" "InternalKey_Compare cmp (fst a) (fst b) < 0"
    "entry_user a = entry_user b"
  shows "entry_seq b \<le> entry_seq a"
proof -
  have "ExtractTag (fst b) < ExtractTag (fst a)"
    using InternalKey_Compare_less [OF assms(1,2)] assms(3,4) compare_refl assms(1)
    by (auto simp: entry_user_def internal_ok_def)
  then have "unat (ExtractTag (fst b)) div 256 \<le> unat (ExtractTag (fst a)) div 256"
    by (intro div_le_mono) (simp add: word_less_nat_alt)
  moreover have "unat (drop_bit 8 t) = unat t div 256" for t :: u64
    by (simp only: unat_drop_bit_eq) (simp add: drop_bit_eq_div)
  ultimately show ?thesis by (simp add: entry_seq_def word_le_nat_alt)
qed

text \<open>What a search finds in one table: the newest visible entry, if there is one.\<close>

lemma seek_entry:
  assumes e: "entries_ok cmp ok kvs" and u: "ok u" "s \<le> kMaxSequenceNumber"
  defines "i \<equiv> seek_pos (InternalKeyComparator cmp) kvs (ikey u s kValueTypeForSeek)"
  shows "(i < length kvs \<and> entry_user (kvs ! i) = u) = (\<exists>x\<in>set kvs. visible_to u s x)"
    "i < length kvs \<Longrightarrow> entry_user (kvs ! i) = u \<Longrightarrow>
      visible_to u s (kvs ! i) \<and> (\<forall>x\<in>set kvs. visible_to u s x \<longrightarrow> entry_seq x \<le> entry_seq (kvs ! i))"
proof -
  let ?k = "ikey u s kValueTypeForSeek"
  have sorted: "kvs_sorted (InternalKeyComparator cmp) kvs" "keys_ok (internal_ok ok) kvs"
    and parse: "\<And>j. j < length kvs \<Longrightarrow> ParseInternalKey (fst (kvs ! j)) \<noteq> None"
    using e by (auto simp: entries_ok_def)
  have kok: "internal_ok ok ?k" using u by simp
  have less: "j < i \<longleftrightarrow> Compare cmp (entry_user (kvs ! j)) u < 0 \<or> entry_user (kvs ! j) = u \<and> s < entry_seq (kvs ! j)"
    if "j < length kvs" for j
    using internal.seek_pos_iff [OF sorted kok that] lookup_less_iff [OF u keys_ok_nth [OF sorted(2) that] parse [OF that]]
    by (simp add: i_def entry_user_def entry_seq_def)
  have refl: "\<not> Compare cmp u u < 0" using compare_refl u(1) by simp
  have vis: "i \<le> j" if "j < length kvs" "visible_to u s (kvs ! j)" for j
    using less [OF that(1)] that(2) refl by (force simp: visible_to_def)
  have user_mono: "Compare cmp (entry_user (kvs ! i)) (entry_user (kvs ! j)) \<le> 0" if "i \<le> j" "j < length kvs" for j
  proof (cases "i = j")
    case True
    then show ?thesis using keys_ok_nth [OF sorted(2) that(2)] compare_refl by (simp add: internal_ok_def entry_user_def)
  next
    case False
    then have "InternalKey_Compare cmp (fst (kvs ! i)) (fst (kvs ! j)) < 0"
      using kvs_sorted_nth [OF sorted(1), of i j] that by simp
    then show ?thesis
      using user_le_of_internal [of "fst (kvs ! i)" "fst (kvs ! j)"] keys_ok_nth [OF sorted(2)] that by (simp add: entry_user_def)
  qed
  have hit: "entry_user (kvs ! i) = u" if "j < length kvs" "visible_to u s (kvs ! j)" for j
  proof -
    have ij: "i \<le> j" "i < length kvs" using vis [OF that] that(1) by simp_all
    have "Compare cmp (entry_user (kvs ! i)) u \<le> 0" using user_mono [OF ij(1) that(1)] that(2) by (simp add: visible_to_def)
    moreover have "\<not> Compare cmp (entry_user (kvs ! i)) u < 0" using less [OF ij(2)] by simp
    ultimately show ?thesis
      using compare_eq [of "entry_user (kvs ! i)" u] keys_ok_nth [OF sorted(2) ij(2)] u(1) by (simp add: internal_ok_def entry_user_def)
  qed
  have at: "visible_to u s (kvs ! i)" if "i < length kvs" "entry_user (kvs ! i) = u"
    using less [OF that(1)] that(2) by (auto simp: visible_to_def)
  show "(i < length kvs \<and> entry_user (kvs ! i) = u) = (\<exists>x\<in>set kvs. visible_to u s x)"
  proof
    assume "i < length kvs \<and> entry_user (kvs ! i) = u"
    then show "\<exists>x\<in>set kvs. visible_to u s x" using at nth_mem by blast
  next
    assume "\<exists>x\<in>set kvs. visible_to u s x"
    then obtain j where "j < length kvs" "visible_to u s (kvs ! j)" by (auto simp: in_set_conv_nth)
    then show "i < length kvs \<and> entry_user (kvs ! i) = u" using vis hit by (meson order_le_less_trans)
  qed
  show "visible_to u s (kvs ! i) \<and> (\<forall>x\<in>set kvs. visible_to u s x \<longrightarrow> entry_seq x \<le> entry_seq (kvs ! i))"
    if a: "i < length kvs" "entry_user (kvs ! i) = u"
  proof (intro conjI ballI impI)
    show "visible_to u s (kvs ! i)" by (rule at [OF a])
    fix x assume "x \<in> set kvs" "visible_to u s x"
    then obtain j where j: "j < length kvs" "x = kvs ! j" "visible_to u s (kvs ! j)" by (auto simp: in_set_conv_nth)
    show "entry_seq x \<le> entry_seq (kvs ! i)"
    proof (cases "i = j")
      case False
      then have "InternalKey_Compare cmp (fst (kvs ! i)) (fst (kvs ! j)) < 0"
        using kvs_sorted_nth [OF sorted(1), of i j] vis [OF j(1,3)] j(1) by simp
      then show ?thesis
        using entry_less_newer [of "kvs ! i" "kvs ! j"] keys_ok_nth [OF sorted(2)] a j by (simp add: visible_to_def)
    qed (use j in simp)
  qed
qed

end

section \<open>The contract of the tables\<close>

text \<open>
  \<open>tget\<close> looks a key up in the table with a given number and size, over a state for which \<open>tinv\<close> holds.
\<close>

locale table_lookup = user_comparator cmp ok
  for cmp :: comparator and ok :: "bytes \<Rightarrow> bool" +
  fixes tget :: "'c table_get" and tinv :: "'c \<Rightarrow> bool" and live :: "u64 \<Rightarrow> u64 \<Rightarrow> bool"
    and content :: "u64 \<Rightarrow> kv list"
  assumes content_ok: "live n sz \<Longrightarrow> entries_ok cmp ok (content n)"
    and lookup: "tinv c \<Longrightarrow> live n sz \<Longrightarrow> internal_ok ok k \<Longrightarrow>
      \<exists>saved c'. tget n sz k c = (OK, saved, c') \<and> tinv c' \<and> lookup_result cmp (content n) k saved"

text \<open>The tables of a version are live and keep within the keys of their files.\<close>

definition version_tables ::
  "comparator \<Rightarrow> (u64 \<Rightarrow> u64 \<Rightarrow> bool) \<Rightarrow> (u64 \<Rightarrow> kv list) \<Rightarrow> file_heap \<Rightarrow> version \<Rightarrow> bool" where
  "version_tables cmp live content fs v \<longleftrightarrow>
     (\<forall>level<kNumLevels. \<forall>f\<in>set (level_files v level).
        live (fm_number (fs f)) (fm_file_size (fs f)) \<and>
        (\<forall>e\<in>set (content (fm_number (fs f))).
           InternalKey_Compare cmp (fm_smallest (fs f)) (fst e) \<le> 0 \<and> InternalKey_Compare cmp (fst e) (fm_largest (fs f)) \<le> 0) \<and>
        (\<exists>e\<in>set (content (fm_number (fs f))). fst e = fm_largest (fs f)))"

definition newer_than :: "kv list \<Rightarrow> kv list \<Rightarrow> bool" where
  "newer_than xs ys \<longleftrightarrow> (\<forall>a\<in>set xs. \<forall>b\<in>set ys. entry_user a = entry_user b \<longrightarrow> entry_seq b < entry_seq a)"

text \<open>Entries never hop over newer ones: lower levels, and larger numbers at level 0, are newer.\<close>

definition version_recent :: "(u64 \<Rightarrow> kv list) \<Rightarrow> file_heap \<Rightarrow> version \<Rightarrow> bool" where
  "version_recent content fs v \<longleftrightarrow>
     (\<forall>l l'. l < l' \<longrightarrow> l' < kNumLevels \<longrightarrow> (\<forall>f\<in>set (level_files v l). \<forall>g\<in>set (level_files v l').
        newer_than (content (fm_number (fs f))) (content (fm_number (fs g))))) \<and>
     (\<forall>f\<in>set (level_files v 0). \<forall>g\<in>set (level_files v 0). fm_number (fs g) < fm_number (fs f) \<longrightarrow>
        newer_than (content (fm_number (fs f))) (content (fm_number (fs g))))"

definition version_entries :: "(u64 \<Rightarrow> kv list) \<Rightarrow> file_heap \<Rightarrow> version \<Rightarrow> kv set" where
  "version_entries content fs v =
     (\<Union>level<kNumLevels. \<Union>f\<in>set (level_files v level). set (content (fm_number (fs f))))"

definition get_result :: "kv \<Rightarrow> status \<times> bytes option" where
  "get_result e = (if entry_type e = kTypeValue then (OK, Some (snd e)) else (NotFound [], None))"

definition search_hit :: "comparator \<Rightarrow> kv list \<Rightarrow> bytes \<Rightarrow> SequenceNumber \<Rightarrow> kv option" where
  "search_hit cmp kvs u s =
     (let i = seek_pos (InternalKeyComparator cmp) kvs (ikey u s kValueTypeForSeek)
      in if i < length kvs \<and> entry_user (kvs ! i) = u then Some (kvs ! i) else None)"

fun first_hit :: "comparator \<Rightarrow> (fptr \<Rightarrow> kv list) \<Rightarrow> bytes \<Rightarrow> SequenceNumber \<Rightarrow> (nat \<times> fptr) list \<Rightarrow> kv option" where
  "first_hit cmp tables u s [] = None"
| "first_hit cmp tables u s ((l, f) # rest) =
     (case search_hit cmp (tables f) u s of Some e \<Rightarrow> Some e | None \<Rightarrow> first_hit cmp tables u s rest)"

lemma first_hit_split:
  "first_hit cmp tables u s files = Some e \<Longrightarrow>
   \<exists>xs l f ys. files = xs @ (l, f) # ys \<and> search_hit cmp (tables f) u s = Some e \<and>
     (\<forall>p\<in>set xs. search_hit cmp (tables (snd p)) u s = None)"
proof (induction cmp tables u s files rule: first_hit.induct)
  case (2 cmp tables u s l f rest)
  show ?case
  proof (cases "search_hit cmp (tables f) u s")
    case None
    then obtain xs l' f' ys where "rest = xs @ (l', f') # ys" "search_hit cmp (tables f') u s = Some e"
      "\<forall>p\<in>set xs. search_hit cmp (tables (snd p)) u s = None" using 2 by auto
    then show ?thesis using None by (intro exI [of _ "(l, f) # xs"]) auto
  next
    case (Some x)
    then show ?thesis using 2(2) by (intro exI [of _ "[]"]) auto
  qed
qed simp

lemma first_hit_None:
  "first_hit cmp tables u s files = None \<longleftrightarrow> (\<forall>p\<in>set files. search_hit cmp (tables (snd p)) u s = None)"
  by (induction cmp tables u s files rule: first_hit.induct) (auto split: option.splits)

section \<open>The files a lookup reads\<close>

definition search_files :: "comparator \<Rightarrow> file_heap \<Rightarrow> version \<Rightarrow> bytes \<Rightarrow> bytes \<Rightarrow> (nat \<times> fptr) list" where
  "search_files cmp fs v u k = concat (map (\<lambda>level. map (Pair level) (candidates cmp fs v u k level)) [0..<kNumLevels])"

definition search_before :: "file_heap \<Rightarrow> nat \<times> fptr \<Rightarrow> nat \<times> fptr \<Rightarrow> bool" where
  "search_before fs p q \<longleftrightarrow> fst p < fst q \<or>
     fst p = 0 \<and> fst q = 0 \<and> fm_number (fs (snd q)) \<le> fm_number (fs (snd p))"

lemma set_candidates: "set (candidates cmp fs v u k level) \<subseteq> set (level_files v level)"
  by (auto simp: candidates_def level0_candidates_def level_candidate_def sort_newest_first_def Let_def
      not_le split: if_splits)

lemma candidates_sorted: "sorted_wrt (search_before fs) (map (Pair level) (candidates cmp fs v u k level))"
proof (cases "level = 0")
  case True
  have "sorted (map (\<lambda>f. - uint (fm_number (fs f))) (level0_candidates cmp fs (level_files v 0) u))"
    unfolding level0_candidates_def sort_newest_first_def by (rule sorted_sort_key)
  then have "sorted_wrt (\<lambda>f g. fm_number (fs g) \<le> fm_number (fs f)) (level0_candidates cmp fs (level_files v 0) u)"
    by (simp add: sorted_map word_le_def)
  then show ?thesis using True by (auto simp: candidates_def sorted_wrt_map search_before_def)
next
  case False
  have "length (candidates cmp fs v u k level) \<le> 1" using False by (simp add: candidates_def level_candidate_def Let_def)
  then have "candidates cmp fs v u k level = [] \<or> (\<exists>f. candidates cmp fs v u k level = [f])"
    by (cases "candidates cmp fs v u k level") auto
  then show ?thesis by auto
qed

lemma search_before_less: "fst p < fst q \<Longrightarrow> search_before fs p q"
  by (simp add: search_before_def)

lemma search_files_sorted: "sorted_wrt (search_before fs) (search_files cmp fs v u k)"
proof -
  have "sorted_wrt (search_before fs) (concat (map (\<lambda>level. map (Pair level) (candidates cmp fs v u k level)) [0..<n]))" for n
    by (induction n) (auto simp: sorted_wrt_append candidates_sorted intro: search_before_less)
  then show ?thesis by (simp add: search_files_def)
qed

lemma search_files_levels:
  "(l, f) \<in> set (search_files cmp fs v u k) \<Longrightarrow> l < kNumLevels \<and> f \<in> set (candidates cmp fs v u k l)"
  by (auto simp: search_files_def)

section \<open>What a lookup returns\<close>

context user_comparator
begin

lemma search_hit_iff:
  assumes "entries_ok cmp ok kvs" "ok u" "s \<le> kMaxSequenceNumber"
  shows "search_hit cmp kvs u s = None \<longleftrightarrow> (\<forall>x\<in>set kvs. \<not> visible_to u s x)"
    "search_hit cmp kvs u s = Some e \<Longrightarrow> e \<in> set kvs \<and> visible_to u s e \<and>
       (\<forall>x\<in>set kvs. visible_to u s x \<longrightarrow> entry_seq x \<le> entry_seq e)"
  using seek_entry [OF assms] nth_mem [of "seek_pos (InternalKeyComparator cmp) kvs (ikey u s kValueTypeForSeek)" kvs]
  by (auto simp: search_hit_def Let_def split: if_splits)

text \<open>A file of level 0 with a visible entry is read.\<close>

lemma level0_read:
  assumes "f \<in> set (level_files v 0)" "file_ok cmp ok (fs f)" "ok u" "internal_ok ok k" "ExtractUserKey k = u"
    "InternalKey_Compare cmp (fm_smallest (fs f)) k \<le> 0" "InternalKey_Compare cmp k (fm_largest (fs f)) \<le> 0"
  shows "f \<in> set (candidates cmp fs v u ik 0)"
proof -
  have r: "internal_ok ok (fm_smallest (fs f))" "internal_ok ok (fm_largest (fs f))" using assms(2) by (simp_all add: file_ok_def)
  have "Compare cmp (smallest_user (fs f)) u \<le> 0" "Compare cmp u (largest_user (fs f)) \<le> 0"
    using user_le_of_internal [OF r(1) assms(4,6)] user_le_of_internal [OF assms(4) r(2) assms(7)] assms(5)
    by (simp_all add: smallest_user_def largest_user_def)
  moreover have "Compare cmp u (smallest_user (fs f)) < 0 \<longleftrightarrow> Compare cmp (smallest_user (fs f)) u > 0"
    using compare_flip [OF assms(3) file_user_keys(1) [OF assms(2)]] by simp
  moreover have "level_files v 0 \<noteq> []" using assms(1) by auto
  ultimately show ?thesis using assms(1)
    by (auto simp: candidates_def level0_candidates_def sort_newest_first_def not_less [symmetric])
qed

text \<open>
  At a lower level the one file that is read holds the lookup key's user key, when any file does: it
  is the file of the entry, or its largest key is a newer entry of the same user key.
\<close>

lemma level_read:
  assumes v: "level_sorted cmp (map fs files)" "files_ok cmp ok (map fs files)" and j: "j < length files"
    and e: "internal_ok ok k" "ExtractUserKey k = u" "InternalKey_Compare cmp k (ikey u s kValueTypeForSeek) \<ge> 0"
      "InternalKey_Compare cmp (fm_smallest (fs (files ! j))) k \<le> 0"
      "InternalKey_Compare cmp k (fm_largest (fs (files ! j))) \<le> 0"
    and u: "ok u"
  defines "i \<equiv> FindFile cmp (map fs files) (ikey u s kValueTypeForSeek)"
  shows "level_candidate cmp fs files u (ikey u s kValueTypeForSeek) = [files ! i] \<and> i \<le> j \<and>
    (i < j \<longrightarrow> largest_user (fs (files ! i)) = u \<and>
      InternalKey_Compare cmp (fm_largest (fs (files ! i))) (ikey u s kValueTypeForSeek) \<ge> 0)"
proof -
  let ?k = "ikey u s kValueTypeForSeek"
  have kok: "internal_ok ok ?k" using u by simp
  have fok: "file_ok cmp ok (fs (files ! m))" if "m < length files" for m using files_ok_nth [OF v(2), of m] that by simp
  have r: "internal_ok ok (fm_smallest (fs (files ! m)))" "internal_ok ok (fm_largest (fs (files ! m)))" if "m < length files" for m
    using fok [OF that] by (simp_all add: file_ok_def)
  have "InternalKey_Compare cmp ?k k \<le> 0" using InternalKey_Compare_flip [OF e(1) kok] e(3) by auto
  then have kj: "InternalKey_Compare cmp ?k (fm_largest (fs (files ! j))) \<le> 0"
    using internal.compare_le_trans [of ?k k "fm_largest (fs (files ! j))"] kok e(1,5) r(2) [OF j] by simp
  then have "\<not> InternalKey_Compare cmp (fm_largest (fs (files ! j))) ?k < 0"
    using InternalKey_Compare_flip [OF r(2) [OF j] kok] by simp
  then have ij: "i \<le> j"
    using FindFile_before [OF v kok, of j] j unfolding i_def by (metis linorder_not_le nth_map)
  then have il: "i < length files" using j by simp
  have li: "\<not> InternalKey_Compare cmp (fm_largest (fs (files ! i))) ?k < 0"
    using FindFile_at [OF v kok] il unfolding i_def by simp
  have small: "InternalKey_Compare cmp (fm_smallest (fs (files ! i))) k \<le> 0 \<and>
      (i < j \<longrightarrow> InternalKey_Compare cmp (fm_largest (fs (files ! i))) k < 0)"
  proof (cases "i = j")
    case True
    then show ?thesis using e(4) by simp
  next
    case False
    then have "InternalKey_Compare cmp (fm_largest (fs (files ! i))) (fm_smallest (fs (files ! j))) < 0"
      using level_sorted_nth [OF v(1), of i j] ij j il by simp
    then have l: "InternalKey_Compare cmp (fm_largest (fs (files ! i))) k < 0"
      using internal.compare_less_le_trans [of "fm_largest (fs (files ! i))" "fm_smallest (fs (files ! j))" k] r il j e(1,4) by simp
    have "InternalKey_Compare cmp (fm_smallest (fs (files ! i))) (fm_largest (fs (files ! i))) \<le> 0"
      using fok [OF il] by (simp add: file_ok_def)
    then have "InternalKey_Compare cmp (fm_smallest (fs (files ! i))) k < 0"
      using internal.compare_le_less_trans [of "fm_smallest (fs (files ! i))" "fm_largest (fs (files ! i))" k] r [OF il] e(1) l by simp
    then show ?thesis using l by simp
  qed
  have "Compare cmp (smallest_user (fs (files ! i))) u \<le> 0"
    using user_le_of_internal [OF r(1) [OF il] e(1)] small e(2) by (simp add: smallest_user_def)
  then have "\<not> Compare cmp u (smallest_user (fs (files ! i))) < 0"
    using compare_flip [OF u file_user_keys(1) [OF fok [OF il]]] by simp
  then have c: "level_candidate cmp fs files u ?k = [files ! i]" using il by (simp add: level_candidate_def i_def)
  have "largest_user (fs (files ! i)) = u" if "i < j"
  proof -
    have "InternalKey_Compare cmp ?k (fm_largest (fs (files ! i))) \<le> 0"
      using li InternalKey_Compare_flip [OF kok r(2) [OF il]] InternalKey_Compare_flip [OF r(2) [OF il] kok] by auto
    then have a: "Compare cmp u (largest_user (fs (files ! i))) \<le> 0"
      using user_le_of_internal [OF kok r(2) [OF il]] by (simp add: largest_user_def)
    have b: "Compare cmp (largest_user (fs (files ! i))) u \<le> 0"
      using user_le_of_internal [OF r(2) [OF il] e(1)] small that e(2) by (simp add: largest_user_def)
    note ok2 = file_user_keys(2) [OF fok [OF il]]
    show ?thesis using compare_eq [OF ok2 u] compare_flip [OF u ok2] compare_flip [OF ok2 u] a b by auto
  qed
  then show ?thesis using c ij li by auto
qed

end

context table_lookup
begin

lemma visible_lookup:
  assumes "entries_ok cmp ok kvs" "e \<in> set kvs" "visible_to u s e" "ok u" "s \<le> kMaxSequenceNumber"
  shows "internal_ok ok (fst e)" "ExtractUserKey (fst e) = u"
    "InternalKey_Compare cmp (fst e) (ikey u s kValueTypeForSeek) \<ge> 0"
proof -
  show o: "internal_ok ok (fst e)" using assms(1,2) by (auto simp: entries_ok_def keys_ok_def)
  show u: "ExtractUserKey (fst e) = u" using assms(3) by (simp add: visible_to_def entry_user_def)
  have "\<not> InternalKey_Compare cmp (fst e) (ikey u s kValueTypeForSeek) < 0"
    using lookup_less_iff [OF assms(4,5) o] assms(1-3) u compare_refl assms(4)
    by (auto simp: entries_ok_def visible_to_def entry_seq_def not_less [symmetric])
  then show "InternalKey_Compare cmp (fst e) (ikey u s kValueTypeForSeek) \<ge> 0" by simp
qed

lemma visible_back:
  assumes "entries_ok cmp ok kvs" "e \<in> set kvs" "ExtractUserKey (fst e) = u" "ok u" "s \<le> kMaxSequenceNumber"
    "InternalKey_Compare cmp (fst e) (ikey u s kValueTypeForSeek) \<ge> 0"
  shows "visible_to u s e"
proof -
  have o: "internal_ok ok (fst e)" "ParseInternalKey (fst e) \<noteq> None" using assms(1,2) by (auto simp: entries_ok_def keys_ok_def)
  show ?thesis using lookup_less_iff [OF assms(4,5) o] assms(3,6) by (auto simp: visible_to_def entry_user_def entry_seq_def)
qed

lemma visible_read:
  assumes v: "version_ok cmp ok fs v" "version_tables cmp live content fs v" and l: "l < kNumLevels"
    and f: "f \<in> set (level_files v l)" and e: "e \<in> set (content (fm_number (fs f)))" "visible_to u s e"
    and u: "ok u" "s \<le> kMaxSequenceNumber"
  shows "\<exists>g x. g \<in> set (candidates cmp fs v u (ikey u s kValueTypeForSeek) l) \<and>
    search_hit cmp (content (fm_number (fs g))) u s = Some x \<and> entry_seq e \<le> entry_seq x"
proof -
  let ?k = "ikey u s kValueTypeForSeek"
  have t: "live (fm_number (fs g)) (fm_file_size (fs g))"
    "\<And>e. e \<in> set (content (fm_number (fs g))) \<Longrightarrow>
      InternalKey_Compare cmp (fm_smallest (fs g)) (fst e) \<le> 0 \<and> InternalKey_Compare cmp (fst e) (fm_largest (fs g)) \<le> 0"
    "\<exists>e\<in>set (content (fm_number (fs g))). fst e = fm_largest (fs g)" if "g \<in> set (level_files v l)" for g
    using v(2) l that by (auto simp: version_tables_def)
  have eok: "entries_ok cmp ok (content (fm_number (fs g)))" if "g \<in> set (level_files v l)" for g
    using content_ok t(1) [OF that] by blast
  have fok: "files_ok cmp ok (map fs (level_files v l))" using v(1) l by (simp add: version_ok_def level_metas_def)
  note vis = visible_lookup [OF eok [OF f] e u]
  have hit: "\<exists>x. search_hit cmp (content (fm_number (fs g))) u s = Some x \<and> entry_seq y \<le> entry_seq x"
    if "g \<in> set (level_files v l)" "y \<in> set (content (fm_number (fs g)))" "visible_to u s y" for g y
    using search_hit_iff [OF eok [OF that(1)] u] that(2,3) by (cases "search_hit cmp (content (fm_number (fs g))) u s") auto
  show ?thesis
  proof (cases "l = 0")
    case True
    have "f \<in> set (candidates cmp fs v u ?k 0)"
      by (rule level0_read [OF _ _ u(1) vis(1,2)]) (use f True fok t(2) [OF f e(1)] in \<open>auto simp: files_ok_def\<close>)
    then show ?thesis using hit [OF f e] True by blast
  next
    case False
    let ?files = "level_files v l"
    have srt: "level_sorted cmp (map fs ?files)" using v(1) l False by (simp add: version_ok_def level_metas_def)
    obtain j where j: "j < length ?files" "f = ?files ! j" using f by (auto simp: in_set_conv_nth)
    define i where "i = FindFile cmp (map fs ?files) ?k"
    have r: "level_candidate cmp fs ?files u ?k = [?files ! i]" "i \<le> j"
      "i < j \<Longrightarrow> largest_user (fs (?files ! i)) = u" "i < j \<Longrightarrow> InternalKey_Compare cmp (fm_largest (fs (?files ! i))) ?k \<ge> 0"
      using level_read [OF srt fok j(1) vis _ _ u(1)] t(2) [OF f e(1)] j(2) unfolding i_def by auto
    have g: "?files ! i \<in> set ?files" using r(2) j(1) by simp
    have c: "?files ! i \<in> set (candidates cmp fs v u ?k l)" using r(1) False f by (auto simp: candidates_def)
    show ?thesis
    proof (cases "i = j")
      case True
      then show ?thesis using hit [OF f e] c j(2) by auto
    next
      case ne: False
      then have ij: "i < j" using r(2) by simp
      obtain y where y: "y \<in> set (content (fm_number (fs (?files ! i))))" "fst y = fm_largest (fs (?files ! i))"
        using t(3) [OF g] by blast
      have yu: "ExtractUserKey (fst y) = u" using r(3) [OF ij] y(2) by (simp add: largest_user_def)
      have yv: "visible_to u s y" using visible_back [OF eok [OF g] y(1) yu u] r(4) [OF ij] y(2) by simp
      have ok: "internal_ok ok (fm_smallest (fs (?files ! j)))" "internal_ok ok (fm_largest (fs (?files ! i)))"
        using files_ok_nth [OF fok, of j] files_ok_nth [OF fok, of i] j(1) ij by (simp_all add: file_ok_def)
      have "InternalKey_Compare cmp (fm_largest (fs (?files ! i))) (fm_smallest (fs (?files ! j))) < 0"
        using level_sorted_nth [OF srt ij] j(1) ij by simp
      then have "InternalKey_Compare cmp (fst y) (fst e) < 0"
        using internal.compare_less_le_trans [of "fm_largest (fs (?files ! i))" "fm_smallest (fs (?files ! j))" "fst e"]
          ok vis(1) t(2) [OF f e(1)] j(2) y(2) by simp
      then have "entry_seq e \<le> entry_seq y"
        using entry_less_newer [of y e] ok(2) y(2) vis(1,2) yu by (simp add: entry_user_def)
      moreover obtain x where "search_hit cmp (content (fm_number (fs (?files ! i)))) u s = Some x" "entry_seq y \<le> entry_seq x"
        using hit [OF g y(1) yv] by blast
      ultimately show ?thesis using c order_trans by blast
    qed
  qed
qed

lemma Get_files_first_hit:
  assumes u: "ok u" "s \<le> kMaxSequenceNumber"
  shows "tinv c \<Longrightarrow> \<forall>p\<in>set files. live (fm_number (fs (snd p))) (fm_file_size (fs (snd p))) \<Longrightarrow>
    \<exists>last' stats' c'. Get_files cmp fs tget u (ikey u s kValueTypeForSeek) files (lst, stats, c) =
      (map_option get_result (first_hit cmp (\<lambda>f. content (fm_number (fs f))) u s files), last', stats', c') \<and> tinv c'"
proof (induction files arbitrary: lst stats c)
  case (Cons p rest)
  obtain l f where p: "p = (l, f)" by (cases p)
  let ?k = "ikey u s kValueTypeForSeek" and ?kvs = "content (fm_number (fs f))"
  have live: "live (fm_number (fs f)) (fm_file_size (fs f))" using Cons.prems(2) p by simp
  note eok = content_ok [OF live]
  have kok: "internal_ok ok ?k" using u by simp
  obtain saved c' where g: "tget (fm_number (fs f)) (fm_file_size (fs f)) ?k c = (OK, saved, c')" "tinv c'"
    "lookup_result cmp ?kvs ?k saved" using lookup [OF Cons.prems(1) live kok] by blast
  have parse: "ParseInternalKey (fst e) = Some \<lparr>pk_user_key = entry_user e, pk_sequence = entry_seq e, pk_type = entry_type e\<rparr>"
    if "e \<in> set ?kvs" for e
    using Parse_parts(1) [of "fst e"] eok that by (simp add: entries_ok_def entry_user_def entry_seq_def entry_type_def)
  have same: "Compare cmp (entry_user e) u = 0 \<longleftrightarrow> entry_user e = u" if "e \<in> set ?kvs" for e
    using compare_eq_iff [of "entry_user e" u] u(1) eok that by (auto simp: entries_ok_def keys_ok_def internal_ok_def entry_user_def)
  show ?case
  proof (cases "search_hit cmp ?kvs u s")
    case None
    define last1 where "last1 = Some (f, l)"
    define stats1 where "stats1 = (case lst of
        Some (x, lv) \<Rightarrow> if gs_seek_file stats = None then \<lparr>gs_seek_file = Some x, gs_seek_file_level = int lv\<rparr> else stats
      | None \<Rightarrow> stats)"
    have "saved = None \<or> (\<exists>e. saved = Some e \<and> e \<in> set ?kvs \<and> entry_user e \<noteq> u)"
      using g(3) None by (auto simp: lookup_result_def search_hit_def Let_def split: if_splits option.splits)
    then have "Get_files cmp fs tget u ?k (p # rest) (lst, stats, c) = Get_files cmp fs tget u ?k rest (last1, stats1, c')"
      using parse same by (auto simp: p g(1) SaveValue_def last1_def stats1_def Let_def)
    then show ?thesis using Cons.IH [OF g(2)] Cons.prems(2) None by (simp add: p)
  next
    case (Some e)
    then have e: "saved = Some e" "e \<in> set ?kvs" "entry_user e = u"
      using g(3) search_hit_iff(2) [OF eok u Some] by (auto simp: lookup_result_def search_hit_def Let_def visible_to_def split: if_splits)
    then have "SaveValue cmp u e = (if entry_type e = kTypeValue then (kFound, Some (snd e)) else (kDeleted, None))"
      using parse [OF e(2)] same [OF e(2)] by (simp add: SaveValue_def)
    then show ?thesis using e(1) g Some by (auto simp: p Let_def get_result_def)
  qed
qed simp

text \<open>The result of a lookup is the newest entry the snapshot can see.\<close>

lemma Version_Get_newest:
  assumes v: "version_ok cmp ok fs v" "version_tables cmp live content fs v" "version_recent content fs v"
    and c: "tinv c" and u: "ok u" "s \<le> kMaxSequenceNumber"
  shows "\<exists>st val stats c'. Version_Get cmp fs tget v (LookupKey_new u s) c = (st, val, stats, c') \<and> tinv c' \<and>
    (if \<exists>e\<in>version_entries content fs v. visible_to u s e
     then \<exists>e\<in>version_entries content fs v. visible_to u s e \<and> (st, val) = get_result e \<and>
       (\<forall>x\<in>version_entries content fs v. visible_to u s x \<longrightarrow> entry_seq x \<le> entry_seq e)
     else (st, val) = (NotFound [], None))"
proof -
  let ?k = "ikey u s kValueTypeForSeek"
  let ?tables = "\<lambda>f. content (fm_number (fs f))"
  define files where "files = search_files cmp fs v u ?k"
  have in_level: "p \<in> set files \<Longrightarrow> fst p < kNumLevels \<and> snd p \<in> set (level_files v (fst p)) \<and>
      snd p \<in> set (candidates cmp fs v u ?k (fst p))" for p
    using search_files_levels [of "fst p" "snd p" cmp fs v u ?k] set_candidates [of cmp fs v u ?k "fst p"] by (auto simp: files_def)
  have live: "\<forall>p\<in>set files. live (fm_number (fs (snd p))) (fm_file_size (fs (snd p)))"
    using in_level v(2) by (auto simp: version_tables_def)
  obtain last' stats' c' where g: "Get_files cmp fs tget u ?k files (None, \<lparr>gs_seek_file = None, gs_seek_file_level = -1\<rparr>, c) =
      (map_option get_result (first_hit cmp ?tables u s files), last', stats', c')" "tinv c'"
    using Get_files_first_hit [OF u c live] by blast
  have eok: "entries_ok cmp ok (?tables f)" if "l < kNumLevels" "f \<in> set (level_files v l)" for l f
  proof -
    have "live (fm_number (fs f)) (fm_file_size (fs f))" using v(2) that by (simp add: version_tables_def)
    then show ?thesis by (rule content_ok)
  qed
  have read: "\<exists>p\<in>set files. \<exists>x. search_hit cmp (?tables (snd p)) u s = Some x \<and> entry_seq e \<le> entry_seq x"
    if e: "e \<in> version_entries content fs v" "visible_to u s e" for e
  proof -
    obtain l f where lf: "l < kNumLevels" "f \<in> set (level_files v l)" "e \<in> set (?tables f)"
      using e(1) by (auto simp: version_entries_def)
    obtain g x where gx: "g \<in> set (candidates cmp fs v u ?k l)" "search_hit cmp (?tables g) u s = Some x" "entry_seq e \<le> entry_seq x"
      using visible_read [OF v(1,2) lf e(2) u] by blast
    have "(l, g) \<in> set files" using gx(1) lf(1) by (auto simp: files_def search_files_def)
    then show ?thesis using gx(2,3) by (intro bexI [of _ "(l, g)"]) auto
  qed
  show ?thesis
  proof (cases "first_hit cmp ?tables u s files")
    case None
    then have "\<not> (\<exists>e\<in>version_entries content fs v. visible_to u s e)" using read first_hit_None by fastforce
    moreover have "Version_Get cmp fs tget v (LookupKey_new u s) c = (NotFound [], None, stats', c')"
      using g(1) None by (simp add: Version_Get_def LookupKey_views files_def search_files_def)
    ultimately show ?thesis using g(2) by auto
  next
    case (Some h)
    obtain xs l f ys where sp: "files = xs @ (l, f) # ys" "search_hit cmp (?tables f) u s = Some h"
      "\<forall>p\<in>set xs. search_hit cmp (?tables (snd p)) u s = None" using first_hit_split [OF Some] by blast
    have lf: "l < kNumLevels" "f \<in> set (level_files v l)" using in_level [of "(l, f)"] sp(1) by simp_all
    note hf = search_hit_iff(2) [OF eok [OF lf] u sp(2)]
    have hv: "h \<in> version_entries content fs v" "visible_to u s h" using hf lf by (auto simp: version_entries_def)
    have "entry_seq x \<le> entry_seq h" if x: "x \<in> version_entries content fs v" "visible_to u s x" for x
    proof -
      obtain p y where p: "p \<in> set files" "search_hit cmp (?tables (snd p)) u s = Some y" "entry_seq x \<le> entry_seq y"
        using read [OF x] by blast
      note pl = in_level [OF p(1)]
      have y: "y \<in> set (?tables (snd p))" "visible_to u s y"
        using search_hit_iff(2) [OF eok u p(2)] pl by blast+
      have "p \<notin> set xs" using sp(3) p(2) by auto
      then consider "p = (l, f)" | "p \<in> set ys" using p(1) sp(1) by auto
      then have "entry_seq y \<le> entry_seq h"
      proof cases
        case 1
        then show ?thesis using p(2) sp(2) by simp
      next
        case 2
        have "search_before fs (l, f) p"
          using search_files_sorted [of fs cmp v u ?k] sp(1) 2 by (simp add: files_def sorted_wrt_append)
        then consider "l < fst p" | "l = 0" "fst p = 0" "fm_number (fs (snd p)) \<le> fm_number (fs f)"
          by (auto simp: search_before_def)
        then show ?thesis
        proof cases
          case 1
          then have "newer_than (?tables f) (?tables (snd p))" using v(3) lf(2) pl by (auto simp: version_recent_def)
          then show ?thesis using hf y by (auto simp: newer_than_def visible_to_def intro: order_less_imp_le)
        next
          case 2
          show ?thesis
          proof (cases "fm_number (fs (snd p)) = fm_number (fs f)")
            case True
            then show ?thesis using p(2) sp(2) by simp
          next
            case False
            then have "newer_than (?tables f) (?tables (snd p))" using v(3) lf(2) pl 2 by (auto simp: version_recent_def)
            then show ?thesis using hf y by (auto simp: newer_than_def visible_to_def intro: order_less_imp_le)
          qed
        qed
      qed
      then show ?thesis using p(3) by simp
    qed
    moreover have "Version_Get cmp fs tget v (LookupKey_new u s) c = (fst (get_result h), snd (get_result h), stats', c')"
      using g(1) Some by (simp add: Version_Get_def LookupKey_views files_def search_files_def prod.case_eq_if)
    ultimately show ?thesis using g(2) hv by (auto intro!: bexI [of _ h])
  qed
qed

end
section \<open>The tables of the database\<close>

text \<open>
  \<open>FindTable\<close> opens the one unnumbered table whatever number it is asked for, so the tables of the model
  answer for the entries \<open>concat kvss\<close> of that file under every number. The file is one that the table
  builder wrote; the options may have a filter policy whose filters do not lose the keys.
\<close>

definition stored_table ::
  "snappy \<Rightarrow> file_opener \<Rightarrow> string \<Rightarrow> string \<Rightarrow> options \<Rightarrow> kv list list \<Rightarrow> u64 \<Rightarrow> bool" where
  "stored_table sn files dbpath dbname opt kvss fsize \<longleftrightarrow>
     (let data = table_bytes sn opt kvss (table_seps (opt_comparator opt) kvss);
          name = TableFileName dbpath dbname FILENUMBER_LDB
      in snappy_laws sn \<and> table_fits sn opt kvss \<and> opt_comparator opt = InternalKeyComparator BytewiseComparator \<and>
         (\<exists>q. opt_filter_policy opt = map_option InternalFilterPolicy q \<and> filter_fits q (map fst (concat kvss))) \<and>
         entries_ok BytewiseComparator (\<lambda>_. True) (concat kvss) \<and> (\<forall>b\<in>set kvss. b \<noteq> []) \<and>
         fsize = word_of_nat (length data) \<and> files name = Inr (plain_file name data))"

text \<open>What the caches hold: under the key of that table only openings of it, and its blocks.\<close>

definition table_cached :: "snappy \<Rightarrow> string \<Rightarrow> string \<Rightarrow> options \<Rightarrow> kv list list \<Rightarrow> bytes \<Rightarrow> table \<Rightarrow> bool" where
  "table_cached sn dbpath dbname opt kvss key t \<longleftrightarrow>
     (key = table_cache_key FILENUMBER_LDB \<longrightarrow>
      (\<exists>cache_id. t = opened_table sn opt opt kvss (TableFileName dbpath dbname FILENUMBER_LDB) cache_id))"

definition table_cache_ok :: "snappy \<Rightarrow> string \<Rightarrow> string \<Rightarrow> options \<Rightarrow> kv list list \<Rightarrow> table_cache \<Rightarrow> bool" where
  "table_cache_ok sn dbpath dbname opt kvss tc \<longleftrightarrow>
     tc_dbpath tc = dbpath \<and> tc_dbname tc = dbname \<and> tc_options tc = opt \<and>
     (\<exists>held. cache_holds (table_cached sn dbpath dbname opt kvss) (tc_cache tc) held) \<and>
     (\<exists>held. blocks_cached sn opt kvss (tc_block_cache tc) held)"

lemma TableCache_new_ok:
  "blocks_cached sn opt kvss blocks held \<Longrightarrow>
   table_cache_ok sn dbpath dbname opt kvss (TableCache_new dbpath dbname opt entries blocks)"
  using NewLRUCache_holds by (auto simp: table_cache_ok_def TableCache_new_def)

lemma FindTable_stored:
  assumes st: "stored_table sn files dbpath dbname opt kvss fsize"
    and tc: "tc_dbpath tc = dbpath" "tc_dbname tc = dbname" "tc_options tc = opt"
    and holds: "cache_holds (table_cached sn dbpath dbname opt kvss) (tc_cache tc) held"
    and blocks: "blocks_cached sn opt kvss (tc_block_cache tc) bheld"
  shows "\<exists>h tc' cache_id. FindTable sn files n fsize tc = (OK, Some h, tc') \<and>
    Cache_Value h (tc_cache tc') = opened_table sn opt opt kvss (TableFileName dbpath dbname FILENUMBER_LDB) cache_id \<and>
    tc_dbpath tc' = dbpath \<and> tc_dbname tc' = dbname \<and> tc_options tc' = opt \<and>
    cache_holds (table_cached sn dbpath dbname opt kvss) (tc_cache tc') (add_mset h held) \<and>
    blocks_cached sn opt kvss (tc_block_cache tc') bheld"
proof -
  let ?P = "table_cached sn dbpath dbname opt kvss" and ?key = "table_cache_key FILENUMBER_LDB"
  let ?name = "TableFileName dbpath dbname FILENUMBER_LDB"
  obtain hit c1 where l: "Cache_Lookup ?key (tc_cache tc) = (hit, c1)" by fastforce
  note lk = Cache_Lookup_holds [OF holds l]
  show ?thesis
  proof (cases hit)
    case (Some h)
    then have "FindTable sn files n fsize tc = (OK, Some h, tc\<lparr>tc_cache := c1\<rparr>)" using l by (simp add: FindTable_def Let_def)
    then show ?thesis using lk(2) [OF Some] tc blocks by (auto simp: table_cached_def)
  next
    case None
    have sn: "snappy_laws sn" and fits: "table_fits sn opt kvss" using st by (simp_all add: stored_table_def Let_def)
    let ?data = "table_bytes sn opt kvss (table_seps (opt_comparator opt) kvss)"
    have f: "files ?name = Inr (plain_file ?name ?data)" "fsize = word_of_nat (length ?data)"
      using st by (simp_all add: stored_table_def Let_def)
    obtain cache_id blocks' where b: "new_block_cache_id (tc_block_cache tc) = (cache_id, blocks')" by fastforce
    let ?t = "opened_table sn opt opt kvss ?name cache_id"
    have o: "Table_Open sn opt (plain_file ?name ?data) fsize cache_id = (OK, Some ?t)"
      unfolding f(2) by (rule snappy_laws.Table_Open_file [OF sn fits refl])
    obtain h c2 where ins: "Cache_Insert ?key ?t 1 c1 = (h, c2)" by fastforce
    have own: "?P ?key ?t" by (auto simp: table_cached_def)
    note i = Cache_Insert_holds [where P = ?P, OF lk(1) [OF None] own ins]
    have "blocks_cached sn opt kvss blocks' bheld"
      using b blocks Cache_NewId_holds by (fastforce simp: new_block_cache_id_def split: option.splits prod.splits)
    moreover have "FindTable sn files n fsize tc = (OK, Some h, tc\<lparr>tc_cache := c2, tc_block_cache := blocks'\<rparr>)"
      using l None f(1) b o ins tc by (simp add: FindTable_def Let_def open_table_file_def)
    ultimately show ?thesis using i tc by auto
  qed
qed

lemma TableCache_Get_stored:
  assumes ok: "table_cache_ok sn dbpath dbname opt kvss tc" and st: "stored_table sn files dbpath dbname opt kvss fsize"
    and k: "internal_ok (\<lambda>_. True) k"
  shows "\<exists>saved tc'. TableCache_Get sn files ro n fsize k tc = (OK, saved, tc') \<and>
    table_cache_ok sn dbpath dbname opt kvss tc' \<and> lookup_result BytewiseComparator (concat kvss) k saved"
proof -
  let ?P = "table_cached sn dbpath dbname opt kvss"
  obtain held bheld where tc: "tc_dbpath tc = dbpath" "tc_dbname tc = dbname" "tc_options tc = opt"
    and holds: "cache_holds ?P (tc_cache tc) held" and blocks: "blocks_cached sn opt kvss (tc_block_cache tc) bheld"
    using ok by (auto simp: table_cache_ok_def)
  obtain h tc1 cache_id where f: "FindTable sn files n fsize tc = (OK, Some h, tc1)"
    "Cache_Value h (tc_cache tc1) = opened_table sn opt opt kvss (TableFileName dbpath dbname FILENUMBER_LDB) cache_id"
    "tc_dbpath tc1 = dbpath" "tc_dbname tc1 = dbname" "tc_options tc1 = opt"
    "cache_holds ?P (tc_cache tc1) (add_mset h held)" "blocks_cached sn opt kvss (tc_block_cache tc1) bheld"
    using FindTable_stored [OF st tc holds blocks, of n] by blast
  obtain q where q: "opt_filter_policy opt = map_option InternalFilterPolicy q" "filter_fits q (map fst (concat kvss))"
    and sn: "snappy_laws sn" "table_fits sn opt kvss" "opt_comparator opt = InternalKeyComparator BytewiseComparator"
    and b: "blocks_ok (InternalKeyComparator BytewiseComparator) (internal_ok (\<lambda>_. True)) kvss"
    using st by (auto simp: stored_table_def Let_def entries_ok_def blocks_ok_def)
  obtain saved blocks' where g: "Table_InternalGet sn ro (Cache_Value h (tc_cache tc1)) k (tc_block_cache tc1) = (OK, saved, blocks')"
    "blocks_cached sn opt kvss blocks' bheld" "lookup_result BytewiseComparator (concat kvss) k saved"
    using bytewise_user.InternalGet_lookup [OF sn(1,2,3,3) q(1,1,2) b k f(7), of ro] unfolding f(2) by blast
  have "cache_holds ?P (Cache_Release h (tc_cache tc1)) held"
    using Cache_Release_holds(1) [OF f(6), of h] by simp
  then have "table_cache_ok sn dbpath dbname opt kvss (tc1\<lparr>tc_block_cache := blocks', tc_cache := Cache_Release h (tc_cache tc1)\<rparr>)"
    using f(3-5) g(2) by (auto simp: table_cache_ok_def)
  then show ?thesis using f(1) g(1,3) by (auto simp: TableCache_Get_def Let_def)
qed

interpretation table_get: table_lookup BytewiseComparator "\<lambda>_. True" "TableCache_Get sn files ro"
  "table_cache_ok sn dbpath dbname opt kvss" "\<lambda>n fsize. stored_table sn files dbpath dbname opt kvss fsize" "\<lambda>n. concat kvss"
  for sn files ro dbpath dbname opt kvss
proof unfold_locales
  show "entries_ok BytewiseComparator (\<lambda>_. True) (concat kvss)" if "stored_table sn files dbpath dbname opt kvss sz" for sz
    using that by (simp add: stored_table_def Let_def)
qed (rule TableCache_Get_stored)

section \<open>A version with one table\<close>

text \<open>Two entries in the table of one file at level 0.\<close>

definition example_opt :: options where
  "example_opt = Options_default\<lparr>opt_comparator := InternalKeyComparator BytewiseComparator\<rparr>"

definition example_kvs :: "kv list" where
  "example_kvs = [(ikey [1] 9 kTypeValue, [7]), (ikey [4] 8 kTypeValue, [6])]"

definition example_data :: bytes where
  "example_data = table_bytes port_snappy example_opt [example_kvs] (table_seps (opt_comparator example_opt) [example_kvs])"

definition example_files :: file_opener where
  "example_files = (\<lambda>name. Inr (plain_file name example_data))"

definition example_meta :: file_meta where
  "example_meta = FileMetaData_new 7 (word_of_nat (length example_data)) (ikey [1] 9 kTypeValue) (ikey [4] 8 kTypeValue)"

definition example_version :: version where
  "example_version = Version_new\<lparr>ver_files := [0] # replicate 6 []\<rparr>"

lemma example_stored:
  "stored_table port_snappy example_files ''p'' ''d'' example_opt [example_kvs] (word_of_nat (length example_data))"
proof -
  have len: "length example_data < 2 ^ 32"
    using table_bytes_small [of example_opt "[example_kvs]" port_snappy] internal_short
    by (simp add: Options_default_def raw_size_def example_opt_def example_kvs_def example_data_def)
  have fits: "table_fits port_snappy example_opt [example_kvs]"
    by (rule table_fits_size)
      (use len internal_short in \<open>auto simp: Options_default_def raw_size_def example_opt_def example_kvs_def example_data_def\<close>)
  have "entries_ok BytewiseComparator (\<lambda>_. True) example_kvs"
    by (simp add: example_kvs_def entries_ok_def kvs_sorted_def keys_ok_def InternalKey_Compare_def small_sequence_numbers kTypeValue_def)
  then show ?thesis
    using fits port_snappy.snappy_laws_axioms unfolding stored_table_def Let_def example_files_def example_data_def [symmetric]
    by (auto simp: Options_default_def filter_fits_def example_opt_def example_kvs_def intro!: exI [of _ None])
qed

lemma example_level_files: "level < kNumLevels \<Longrightarrow> level_files example_version level = (if level = 0 then [0] else [])"
  by (auto simp: example_version_def level_files_def nth_Cons' kNumLevels_def)

lemma example_version_facts:
  "version_ok BytewiseComparator (\<lambda>_. True) (\<lambda>_. example_meta) example_version"
  "version_tables BytewiseComparator (\<lambda>n fsize. stored_table port_snappy example_files ''p'' ''d'' example_opt [example_kvs] fsize)
     (\<lambda>n. concat [example_kvs]) (\<lambda>_. example_meta) example_version"
  "version_recent (\<lambda>n. concat [example_kvs]) (\<lambda>_. example_meta) example_version"
  "version_entries (\<lambda>n. concat [example_kvs]) (\<lambda>_. example_meta) example_version = set example_kvs"
proof -
  have "length (ver_files example_version) = kNumLevels" by (simp add: example_version_def kNumLevels_def)
  then show "version_ok BytewiseComparator (\<lambda>_. True) (\<lambda>_. example_meta) example_version"
    by (rule version_ok_small) (auto simp: example_level_files file_ok_def FileMetaData_new_def InternalKey_Compare_def example_meta_def
        kMaxSequenceNumber_def kTypeValue_def)
  show "version_tables BytewiseComparator (\<lambda>n fsize. stored_table port_snappy example_files ''p'' ''d'' example_opt [example_kvs] fsize)
     (\<lambda>n. concat [example_kvs]) (\<lambda>_. example_meta) example_version"
    unfolding version_tables_def using example_stored
    by (auto simp: example_level_files FileMetaData_new_def InternalKey_Compare_def example_meta_def example_kvs_def)
  show "version_recent (\<lambda>n. concat [example_kvs]) (\<lambda>_. example_meta) example_version"
    by (auto simp: version_recent_def example_level_files kNumLevels_def)
  show "version_entries (\<lambda>n. concat [example_kvs]) (\<lambda>_. example_meta) example_version = set example_kvs"
    by (auto simp: version_entries_def example_level_files kNumLevels_def split: if_splits)
qed

lemma example_table_cache:
  "table_cache_ok port_snappy ''p'' ''d'' example_opt [example_kvs] (TableCache_new ''p'' ''d'' example_opt 100 None)"
  by (rule TableCache_new_ok [where held = "{#}"]) simp

end
