(* ===== verification/MemIter.thy ===== *)
theory MemIter
  imports MemTable IteratorSpec
begin

text \<open>
  \<open>MemTableIterator\<close> of \<open>db/memtable.cpp\<close> as an iterator: its state is the memtable and the node of the
  skip list it stands at. It keeps the contract of iterators over the entries added to the memtable,
  in the order of their internal keys.
\<close>

type_synonym mem_iter = "memtable \<times> nat option"

definition MemTable_NewIterator :: "memtable \<Rightarrow> mem_iter" where
  "MemTable_NewIterator m = (m, None)"

text \<open>\<open>Next\<close> and \<open>Prev\<close> assert a valid iterator; the status is always \<open>OK\<close>.\<close>

definition mem_iter_ops :: "comparator \<Rightarrow> mem_iter iter_ops" where
  "mem_iter_ops user =
     \<lparr>it_Valid = (\<lambda>(m, p). p \<noteq> None),
      it_key = (\<lambda>(m, p). MemTableIterator_key m (the p)),
      it_value = (\<lambda>(m, p). MemTableIterator_value m (the p)),
      it_status = (\<lambda>_. OK),
      it_SeekToFirst = (\<lambda>(m, p). Some (m, SkipIter_SeekToFirst (mt_table m))),
      it_SeekToLast = (\<lambda>(m, p). map_option (Pair m) (SkipIter_SeekToLast (mt_table m))),
      it_Seek = (\<lambda>k (m, p). map_option (Pair m) (MemTableIterator_Seek user m k)),
      it_Next = (\<lambda>(m, p). case p of None \<Rightarrow> None | Some n \<Rightarrow> Some (m, SkipIter_Next (mt_table m) n)),
      it_Prev = (\<lambda>(m, p). case p of None \<Rightarrow> None
                          | Some n \<Rightarrow> map_option (Pair m) (SkipIter_Prev (MemTable_KeyComparator user) (mt_table m) n))\<rparr>"

section \<open>The entries of a memtable\<close>

fun add_kv :: "mem_add \<Rightarrow> kv" where
  "add_kv (s, t, k, v) = (ikey k s t, v)"

definition mem_kv :: "memtable \<Rightarrow> nat \<Rightarrow> kv" where
  "mem_kv m n = (MemTableIterator_key m n, MemTableIterator_value m n)"

lemma mem_kv_entry:
  assumes "key_at (sl_nodes (mt_table m)) n = add_entry a" "add_ok ok a"
  shows "mem_kv m n = add_kv a"
proof -
  obtain s t k v where a: "a = (s, t, k, v)" by (metis prod_cases4)
  have l: "length k + 8 < 2 ^ 32" "length v < 2 ^ 32" using assms(2) a by auto
  have e: "SkipIter_key (mt_table m) n = memtable_entry s t k v" using assms(1) a by (simp add: SkipIter_key_def key_at_def)
  have n: "unat (word_of_nat (length k + 8) :: u32) = length k + 8" by (rule word_of_nat_less_iff_bound) (use l in simp)
  have v: "entry_slice (EncodeVarint32 (word_of_nat (length v)) @ v) = v" using entry_slice_prefix [of v "[]"] l by simp
  show ?thesis
    unfolding mem_kv_def MemTableIterator_key_def MemTableIterator_value_def e entry_varint_entry [OF l(1)] Let_def prod.case n a add_kv.simps
    using l v entry_slice_entry [OF l(1), of s t v] by (simp add: ikey_eq)
qed

text \<open>The state of an iterator over \<open>kvs\<close>, the entries of its memtable in order, at entry \<open>i\<close>.\<close>

definition mem_at :: "comparator \<Rightarrow> (bytes \<Rightarrow> bool) \<Rightarrow> mem_iter \<Rightarrow> kv list \<Rightarrow> nat \<Rightarrow> bool" where
  "mem_at user ok s kvs i \<longleftrightarrow> (case s of (m, p) \<Rightarrow>
     \<exists>adds xs. memtable_holds user ok m adds xs \<and> kvs = map (mem_kv m) xs \<and> i \<le> length xs \<and>
       p = (if i < length xs then Some (xs ! i) else None))"

text \<open>Keys that fit the length prefix of an entry.\<close>

locale short_keys = memtable_keys +
  assumes short: "ok u \<Longrightarrow> length u + 8 < 2 ^ 32"

context memtable_keys
begin

lemma holds_nodes:
  assumes "memtable_holds cmp ok m adds xs" "n \<in> set xs"
  shows "\<exists>a\<in>set adds. key_at (sl_nodes (mt_table m)) n = add_entry a \<and> add_ok ok a \<and> mem_kv m n = add_kv a"
proof -
  have img: "key_at (sl_nodes (mt_table m)) ` set xs = add_entry ` set adds" and ok: "list_all (add_ok ok) adds"
    using assms(1) by (simp_all add: memtable_holds_def)
  have "key_at (sl_nodes (mt_table m)) n \<in> add_entry ` set adds" unfolding img [symmetric] by (rule imageI [OF assms(2)])
  then obtain a where a: "a \<in> set adds" "key_at (sl_nodes (mt_table m)) n = add_entry a" by blast
  then have "add_ok ok a" using ok by (simp add: list_all_iff)
  then show ?thesis using a mem_kv_entry [OF a(2)] by blast
qed

lemma holds_key:
  assumes "memtable_holds cmp ok m adds xs" "n \<in> set xs"
  shows "fst (mem_kv m n) = entry_slice (key_at (sl_nodes (mt_table m)) n)" "internal_ok ok (fst (mem_kv m n))"
proof -
  obtain a where a: "add_ok ok a" "key_at (sl_nodes (mt_table m)) n = add_entry a" "mem_kv m n = add_kv a"
    using holds_nodes [OF assms] by blast
  obtain s t k v where "a = (s, t, k, v)" by (metis prod_cases4)
  then show "fst (mem_kv m n) = entry_slice (key_at (sl_nodes (mt_table m)) n)" "internal_ok ok (fst (mem_kv m n))"
    using a by auto
qed

lemma holds_sorted:
  assumes "memtable_holds cmp ok m adds xs"
  shows "kvs_sorted (InternalKeyComparator cmp) (map (mem_kv m) xs)" "keys_ok (internal_ok ok) (map (mem_kv m) xs)"
proof -
  have "sorted_wrt (\<lambda>a b. MemTable_KeyComparator cmp (key_at (sl_nodes (mt_table m)) a) (key_at (sl_nodes (mt_table m)) b) < 0) xs"
    using assms by (simp add: memtable_holds_def skip_inv_def)
  then show "kvs_sorted (InternalKeyComparator cmp) (map (mem_kv m) xs)"
    unfolding kvs_sorted_def sorted_wrt_map
    by (rule sorted_wrt_mono_rel [rotated]) (use holds_key(1) [OF assms] in \<open>simp add: MemTable_KeyComparator_def\<close>)
  show "keys_ok (internal_ok ok) (map (mem_kv m) xs)" using holds_key(2) [OF assms] by (auto simp: keys_ok_def)
qed

text \<open>The entries are those added.\<close>

lemma holds_entries: "memtable_holds cmp ok m adds xs \<Longrightarrow> set (map (mem_kv m) xs) = set (map add_kv adds)"
proof -
  assume h: "memtable_holds cmp ok m adds xs"
  have "\<exists>n\<in>set xs. mem_kv m n = add_kv a" if "a \<in> set adds" for a
  proof -
    have img: "key_at (sl_nodes (mt_table m)) ` set xs = add_entry ` set adds" and ok: "list_all (add_ok ok) adds"
      using h by (simp_all add: memtable_holds_def)
    have "add_entry a \<in> key_at (sl_nodes (mt_table m)) ` set xs" unfolding img by (rule imageI [OF that])
    then obtain n where n: "n \<in> set xs" "key_at (sl_nodes (mt_table m)) n = add_entry a" by auto
    have "add_ok ok a" using ok that by (simp add: list_all_iff)
    then show ?thesis using n mem_kv_entry [OF n(2)] by blast
  qed
  then have "set (map add_kv adds) \<subseteq> set (map (mem_kv m) xs)" by force
  moreover have "set (map (mem_kv m) xs) \<subseteq> set (map add_kv adds)" using holds_nodes [OF h] by force
  ultimately show ?thesis by blast
qed

lemma holds_link:
  assumes "memtable_holds cmp ok m adds xs"
  shows "linked (sl_nodes (mt_table m)) 0 0 xs"
proof -
  have "\<forall>i<kMaxHeight. linked (sl_nodes (mt_table m)) i 0 (at_level (sl_nodes (mt_table m)) i xs)"
    "\<forall>x\<in>set xs. 1 \<le> height_at (sl_nodes (mt_table m)) x"
    using assms by (simp_all add: memtable_holds_def skip_inv_def)
  moreover from this(2) have "at_level (sl_nodes (mt_table m)) 0 xs = xs" by (auto simp: at_level_def filter_id_conv Suc_le_eq)
  ultimately show ?thesis by (metis kMaxHeight_def zero_less_numeral)
qed

lemma first_of_drop: "first_of (drop i xs) = (if i < length xs then Some (xs ! i) else None)"
  by (auto simp: first_of_def Cons_nth_drop_Suc [symmetric])

lemma last_before: "0 \<notin> set xs \<Longrightarrow> i \<le> length xs \<Longrightarrow>
    not_head (last (0 # take i xs)) = (if i = 0 then None else Some (xs ! (i - 1)))"
  by (cases i) (auto simp: not_head_def take_Suc_conv_app_nth in_set_conv_nth)

lemma mem_at_intro:
  "memtable_holds cmp ok m adds xs \<Longrightarrow> i \<le> length xs \<Longrightarrow> p = (if i < length xs then Some (xs ! i) else None) \<Longrightarrow>
   mem_at cmp ok (m, p) (map (mem_kv m) xs) i"
  by (auto simp: mem_at_def)

text \<open>Where the searches by key stop.\<close>

lemma less_split:
  assumes h: "memtable_holds cmp ok m adds xs" and e: "entry_ok ok e"
  defines "j \<equiv> seek_pos (InternalKeyComparator cmp) (map (mem_kv m) xs) (entry_slice e)"
  shows "takeWhile (key_less (MemTable_KeyComparator cmp) (mt_table m) e) xs = take j xs"
    "dropWhile (key_less (MemTable_KeyComparator cmp) (mt_table m) e) xs = drop j xs"
proof -
  let ?P = "key_less (MemTable_KeyComparator cmp) (mt_table m) e"
  have "?P n \<longleftrightarrow> InternalKey_Compare cmp (fst (mem_kv m n)) (entry_slice e) < 0" if "n \<in> set xs" for n
    using holds_key(1) [OF h that] by (simp add: key_less_def MemTable_KeyComparator_def)
  then have tw: "takeWhile ?P xs = takeWhile (\<lambda>n. InternalKey_Compare cmp (fst (mem_kv m n)) (entry_slice e) < 0) xs"
    by (rule takeWhile_cong [OF refl])
  have j: "j = length (takeWhile ?P xs)" by (simp add: j_def seek_pos_def takeWhile_map comp_def tw)
  show "takeWhile ?P xs = take j xs" unfolding j by (rule takeWhile_eq_take)
  show "dropWhile ?P xs = drop j xs" unfolding j by (rule dropWhile_eq_drop)
qed

end

context short_keys
begin

lemma entry_ok_key: "internal_ok ok k \<Longrightarrow> entry_ok ok (EncodeKey k)" "internal_ok ok k \<Longrightarrow> entry_slice (EncodeKey k) = k"
proof -
  assume k: "internal_ok ok k"
  have l: "length k < 2 ^ 32" using k short [of "ExtractUserKey k"] by (simp add: internal_ok_def ExtractUserKey_def)
  show "entry_ok ok (EncodeKey k)" unfolding entry_ok_def
    by (intro exI [of _ k] exI [of _ "[]"]) (use l k in \<open>simp add: EncodeKey_def PutVarint32_def\<close>)
  show "entry_slice (EncodeKey k) = k" using entry_slice_prefix [OF l, of "[]"] by (simp add: EncodeKey_def PutVarint32_def)
qed

lemma mem_iterator: "iterator (InternalKeyComparator cmp) (internal_ok ok) (mem_iter_ops cmp) (mem_at cmp ok)"
proof unfold_locales
  fix s kvs i t
  assume "mem_at cmp ok s kvs i"
  then obtain m p adds xs where s: "s = (m, p)" and h: "memtable_holds cmp ok m adds xs" and kvs: "kvs = map (mem_kv m) xs"
    and i: "i \<le> length xs" and p: "p = (if i < length xs then Some (xs ! i) else None)"
    by (auto simp: mem_at_def)
  have inv: "skip_inv (MemTable_KeyComparator cmp) (entry_ok ok) (mt_table m) xs" using h by (simp add: memtable_holds_def)
  have pos: "0 \<notin> set xs" using inv by (auto simp: skip_inv_def)
  note intro = mem_at_intro [OF h, folded kvs]
  show "i \<le> length kvs" "kvs_sorted (InternalKeyComparator cmp) kvs" "keys_ok (internal_ok ok) kvs"
    using i holds_sorted [OF h] by (simp_all add: kvs)
  show "it_Valid (mem_iter_ops cmp) s = (i < length kvs)" by (simp add: mem_iter_ops_def s p kvs)
  show "it_status (mem_iter_ops cmp) s = OK" by (simp add: mem_iter_ops_def)
  show "\<exists>s'. it_SeekToFirst (mem_iter_ops cmp) s = Some s' \<and> mem_at cmp ok s' kvs 0"
    using linked_next [OF holds_link [OF h]] first_of_drop [of 0 xs]
    by (auto simp: mem_iter_ops_def s SkipIter_SeekToFirst_def intro!: intro)
  show "\<exists>s'. it_SeekToLast (mem_iter_ops cmp) s = Some s' \<and> mem_at cmp ok s' kvs (length kvs - 1)"
    using table.FindLast_result [OF inv] last_before [OF pos, of "length xs"] intro [of "length xs - 1"]
    by (cases "xs = []") (simp_all add: mem_iter_ops_def s SkipIter_SeekToLast_def kvs)
  show "\<exists>s'. it_Seek (mem_iter_ops cmp) t s = Some s' \<and> mem_at cmp ok s' kvs (seek_pos (InternalKeyComparator cmp) kvs t)"
    if t: "internal_ok ok t"
  proof -
    note e = entry_ok_key [OF t]
    let ?j = "seek_pos (InternalKeyComparator cmp) kvs t"
    have "MemTableIterator_Seek cmp m t = Some (first_of (drop ?j xs))"
      using table.FindGreaterOrEqual_result [OF inv e(1)] less_split(2) [OF h e(1)]
      by (auto simp: MemTableIterator_Seek_def SkipIter_Seek_def e(2) kvs)
    then show ?thesis using seek_pos_le [of "InternalKeyComparator cmp" kvs t]
      by (auto simp: mem_iter_ops_def s first_of_drop kvs intro!: intro [unfolded kvs])
  qed
  assume "i < length kvs"
  then have il: "i < length xs" and pn: "p = Some (xs ! i)" using p by (simp_all add: kvs)
  show "it_key (mem_iter_ops cmp) s = fst (kvs ! i)" "it_value (mem_iter_ops cmp) s = snd (kvs ! i)"
    using il by (simp_all add: mem_iter_ops_def s pn kvs mem_kv_def)
  have "nth_next (sl_nodes (mt_table m)) (xs ! i) 0 = first_of (drop (Suc i) xs)"
    using linked_middle [OF holds_link [OF h], of "0 # take i xs" "xs ! i" "drop (Suc i) xs"] id_take_nth_drop [OF il] linked_next by auto
  then show "\<exists>s'. it_Next (mem_iter_ops cmp) s = Some s' \<and> mem_at cmp ok s' kvs (Suc i)"
    using il by (auto simp: mem_iter_ops_def s pn SkipIter_Next_def first_of_drop intro!: intro)
  have "entry_ok ok (key_at (sl_nodes (mt_table m)) (xs ! i))" using inv il by (simp add: skip_inv_def)
  note split = less_split(1) [OF h this] and res = table.FindLessThan_result [OF inv this]
  have "seek_pos (InternalKeyComparator cmp) kvs (fst (kvs ! i)) = i"
    by (rule internal.seek_pos_self) (use holds_sorted [OF h] il in \<open>simp_all add: kvs\<close>)
  then have sp: "seek_pos (InternalKeyComparator cmp) (map (mem_kv m) xs) (entry_slice (key_at (sl_nodes (mt_table m)) (xs ! i))) = i"
    using holds_key(1) [OF h nth_mem [OF il]] il by (simp add: kvs)
  then have "SkipIter_Prev (MemTable_KeyComparator cmp) (mt_table m) (xs ! i) = Some (if i = 0 then None else Some (xs ! (i - 1)))"
    using res last_before [OF pos i] unfolding split [unfolded sp] unfolding SkipIter_Prev_def key_at_def
    by (simp only: option.map)
  then show "\<exists>s'. it_Prev (mem_iter_ops cmp) s = Some s' \<and> mem_at cmp ok s' kvs (if i = 0 then length kvs else i - 1)"
    using il by (auto simp: mem_iter_ops_def s pn kvs intro!: intro [unfolded kvs])
qed

lemma NewIterator_at:
  "memtable_holds cmp ok m adds xs \<Longrightarrow> mem_at cmp ok (MemTable_NewIterator m) (map (mem_kv m) xs) (length xs)"
  by (auto simp: MemTable_NewIterator_def intro!: mem_at_intro)

end

text \<open>Keys of the bytewise order below 4 GB.\<close>

definition short_key :: "bytes \<Rightarrow> bool" where
  "short_key u \<longleftrightarrow> length u + 8 < 2 ^ 32"

interpretation bytewise_short: short_keys BytewiseComparator short_key
proof unfold_locales
  show "short_key (FindShortestSeparator BytewiseComparator a b)" if "short_key a" for a b
    using that Bytewise_separator_length [of a b] by (simp add: short_key_def)
  show "short_key (FindShortSuccessor BytewiseComparator a)" if "short_key a" for a
    using that Bytewise_successor_length [of a] by (simp add: short_key_def)
qed (use bytewise.compare_refl bytewise.compare_eq bytewise.compare_flip bytewise.compare_trans bytewise.separator_range
      bytewise.separator_noop bytewise.successor_range in \<open>auto simp: short_key_def\<close>)

interpretation memtable_iter: iterator "InternalKeyComparator BytewiseComparator" "internal_ok short_key"
  "mem_iter_ops BytewiseComparator" "mem_at BytewiseComparator short_key"
  by (rule bytewise_short.mem_iterator)

end
