(* ===== verification/DbImpl.thy ===== *)
theory DbImpl
  imports Compaction TableCache WriteBatch LogFormat VersionSet
begin

text \<open>
  The state of \<open>DBImpl\<close> (\<open>db/db_impl.h\<close>), its construction, the list of snapshots (\<open>db/snapshot.h\<close>)
  and the small operations of \<open>db/db_impl.cpp\<close>. The mutex and the condition variables have no state here:
  a handler is the code between two points at which the mutex is released. Memtables and table iterators
  are values, so what an iterator pins is a copy. The info log is output only and left out.
\<close>

section \<open>Snapshots\<close>

text \<open>The circular list from \<open>list_.next_\<close>, the oldest; a snapshot is its address and its number.\<close>

record snapshot_list =
  sl_items :: "(nat \<times> SequenceNumber) list"
  sl_fresh :: nat

definition SnapshotList_new :: snapshot_list where
  "SnapshotList_new = \<lparr>sl_items = [], sl_fresh = 0\<rparr>"

definition SnapshotList_empty :: "snapshot_list \<Rightarrow> bool" where
  "SnapshotList_empty l = (sl_items l = [])"

definition SnapshotList_oldest :: "snapshot_list \<Rightarrow> SequenceNumber" where
  "SnapshotList_oldest l = snd (hd (sl_items l))"

definition SnapshotList_newest :: "snapshot_list \<Rightarrow> SequenceNumber" where
  "SnapshotList_newest l = snd (last (sl_items l))"

definition SnapshotList_New :: "SequenceNumber \<Rightarrow> snapshot_list \<Rightarrow> nat \<times> snapshot_list" where
  "SnapshotList_New seq l =
     (sl_fresh l, l\<lparr>sl_items := sl_items l @ [(sl_fresh l, seq)], sl_fresh := sl_fresh l + 1\<rparr>)"

definition SnapshotList_Delete :: "nat \<Rightarrow> snapshot_list \<Rightarrow> snapshot_list" where
  "SnapshotList_Delete s l = l\<lparr>sl_items := filter (\<lambda>x. fst x \<noteq> s) (sl_items l)\<rparr>"

section \<open>Options\<close>

definition kNumNonTableCacheFiles :: int where "kNumNonTableCacheFiles = 10"

text \<open>\<open>ClipToRange\<close> on an \<open>int\<close>, and on a \<open>size_t\<close> whose value is cast to \<open>int\<close> for the comparisons.\<close>

definition ClipToRange :: "int \<Rightarrow> int \<Rightarrow> int \<Rightarrow> int" where
  "ClipToRange x minvalue maxvalue =
     (let x = (if x > maxvalue then maxvalue else x) in if x < minvalue then minvalue else x)"

definition as_int :: "nat \<Rightarrow> int" where
  "as_int n = sint (word_of_nat n :: u32)"

definition ClipToRange_size :: "nat \<Rightarrow> nat \<Rightarrow> nat \<Rightarrow> nat" where
  "ClipToRange_size x minvalue maxvalue =
     (let x = (if as_int x > int maxvalue then maxvalue else x) in if as_int x < int minvalue then minvalue else x)"

text \<open>The block cache of the options, or a new one of 8 MB. The user's filter policy gets the internal wrapper.\<close>

definition SanitizeOptions :: "options \<Rightarrow> block_cache \<Rightarrow> options \<times> block_cache" where
  "SanitizeOptions src cache =
     (src\<lparr>opt_comparator := InternalKeyComparator (opt_comparator src),
          opt_filter_policy := map_option InternalFilterPolicy (opt_filter_policy src),
          opt_max_open_files := ClipToRange (opt_max_open_files src) (64 + kNumNonTableCacheFiles) 50000,
          opt_write_buffer_size := ClipToRange_size (opt_write_buffer_size src) (push_bit 10 64) (push_bit 30 1),
          opt_block_size := ClipToRange_size (opt_block_size src) (push_bit 10 1) (push_bit 20 4)\<rparr>,
      case cache of None \<Rightarrow> Some (NewLRUCache (push_bit 20 8)) | Some c \<Rightarrow> Some c)"

section \<open>The state\<close>

text \<open>A waiting writer; a \<open>NULL\<close> batch asks for a new memtable.\<close>

record writer =
  w_id :: nat
  w_batch :: "bytes option"
  w_sync :: bool
  w_done :: bool
  w_status :: status

record manual_compaction =
  mc_level :: nat
  mc_done :: bool
  mc_begin :: "bytes option"
  mc_end :: "bytes option"

record compaction_stats =
  cs_micros :: int
  cs_bytes_read :: int
  cs_bytes_written :: int

definition CompactionStats_new :: compaction_stats where
  "CompactionStats_new = \<lparr>cs_micros = 0, cs_bytes_read = 0, cs_bytes_written = 0\<rparr>"

definition CompactionStats_Add :: "compaction_stats \<Rightarrow> compaction_stats \<Rightarrow> compaction_stats" where
  "CompactionStats_Add c s =
     s\<lparr>cs_micros := cs_micros s + cs_micros c, cs_bytes_read := cs_bytes_read s + cs_bytes_read c,
       cs_bytes_written := cs_bytes_written s + cs_bytes_written c\<rparr>"

text \<open>\<open>db_log\<close> is the log writer with its file, \<open>None\<close> for the null pointers; \<open>db_done\<close> are the writers that were answered.\<close>

record db =
  db_user :: comparator
  db_options :: options
  db_path :: string
  db_name :: string
  db_table_cache :: table_cache
  db_lock :: "string option"
  db_shutting_down :: bool
  db_mem :: "memtable option"
  db_imm :: "memtable option"
  db_log :: "log_writer option"
  db_logfile_number :: u64
  db_seed :: u32
  db_writers :: "writer list"
  db_done :: "writer list"
  db_tmp_batch :: bytes
  db_snapshots :: snapshot_list
  db_pending_outputs :: "u64 list"
  db_bg_scheduled :: bool
  db_manual :: "manual_compaction option"
  db_versions :: version_set
  db_bg_error :: status
  db_stats :: "compaction_stats list"

definition DBImpl_new :: "options \<Rightarrow> block_cache \<Rightarrow> string \<Rightarrow> string \<Rightarrow> db" where
  "DBImpl_new raw cache dbpath dbname =
     (let (opt, blocks) = SanitizeOptions raw cache;
          table_cache_size = nat (opt_max_open_files opt - kNumNonTableCacheFiles)
      in \<lparr>db_user = opt_comparator raw, db_options = opt, db_path = dbpath, db_name = dbname,
          db_table_cache = TableCache_new dbpath dbname opt table_cache_size blocks,
          db_lock = None, db_shutting_down = False, db_mem = None, db_imm = None, db_log = None, db_logfile_number = 0,
          db_seed = 0, db_writers = [], db_done = [], db_tmp_batch = WriteBatch_Clear,
          db_snapshots = SnapshotList_new, db_pending_outputs = [], db_bg_scheduled = False,
          db_manual = None, db_versions = VersionSet_new dbpath dbname opt (opt_comparator raw),
          db_bg_error = OK, db_stats = replicate kNumLevels CompactionStats_new\<rparr>)"

section \<open>Errors and background work\<close>

definition MaybeIgnoreError :: "db \<Rightarrow> status \<Rightarrow> status" where
  "MaybeIgnoreError d s = (if status_ok s \<or> opt_paranoid_checks (db_options d) then s else OK)"

definition RecordBackgroundError :: "status \<Rightarrow> db \<Rightarrow> db" where
  "RecordBackgroundError s d = (if status_ok (db_bg_error d) then d\<lparr>db_bg_error := s\<rparr> else d)"

definition MaybeScheduleCompaction :: "db \<Rightarrow> db" where
  "MaybeScheduleCompaction d =
     (if db_bg_scheduled d then d
      else if db_shutting_down d then d
      else if \<not> status_ok (db_bg_error d) then d
      else if db_imm d = None \<and> db_manual d = None \<and> \<not> NeedsCompaction (db_versions d) then d
      else d\<lparr>db_bg_scheduled := True\<rparr>)"

definition GetSnapshot :: "db \<Rightarrow> nat \<times> db" where
  "GetSnapshot d =
     (let (s, l) = SnapshotList_New (vs_last_sequence (db_versions d)) (db_snapshots d) in (s, d\<lparr>db_snapshots := l\<rparr>))"

definition ReleaseSnapshot :: "nat \<Rightarrow> db \<Rightarrow> db" where
  "ReleaseSnapshot s d = d\<lparr>db_snapshots := SnapshotList_Delete s (db_snapshots d)\<rparr>"

section \<open>Statistics of the current version\<close>

text \<open>A result over the version and the files, put back into the version set.\<close>

definition put_version :: "nat \<Rightarrow> version \<Rightarrow> file_heap \<Rightarrow> version_set \<Rightarrow> version_set" where
  "put_version a v fs vs =
     (update_version a v vs)\<lparr>vs_files := (\<lambda>f. map_option (\<lambda>_. fs f) (vs_files vs f))\<rparr>"

definition DB_RecordReadSample :: "bytes \<Rightarrow> db \<Rightarrow> db" where
  "DB_RecordReadSample key d =
     (let vs = db_versions d; a = the (vs_current vs);
          (wants, v, fs) = RecordReadSample (db_user d) key (vs_current_version vs) (file_at vs);
          d = d\<lparr>db_versions := put_version a v fs vs\<rparr>
      in if wants then MaybeScheduleCompaction d else d)"

section \<open>Deleting files\<close>

text \<open>Whether a file of the directory is kept, by its kind and number; the manifest has number 1.\<close>

definition keep_file :: "version_set \<Rightarrow> u64 list \<Rightarrow> u64 \<Rightarrow> file_type \<Rightarrow> bool" where
  "keep_file vs live number type =
     (case type of
        kLogFile \<Rightarrow> number \<ge> vs_log_number vs \<or> number = vs_prev_log_number vs
      | kDescriptorFile \<Rightarrow> number = 1
      | kTableFile \<Rightarrow> True
      | kTempFile \<Rightarrow> number \<in> set live
      | kCurrentFile \<Rightarrow> True
      | kDBLockFile \<Rightarrow> True
      | kInfoLogFile \<Rightarrow> True)"

text \<open>\<open>children\<close> are the names in the directory. The result lists the names deleted, and evicts their tables.\<close>

definition DeleteObsoleteFiles :: "string list \<Rightarrow> db \<Rightarrow> string list \<times> db" where
  "DeleteObsoleteFiles children d =
     (if \<not> status_ok (db_bg_error d) then ([], d)
      else
        let live = AddLiveFiles (db_versions d) (db_pending_outputs d)
        in fold (\<lambda>name (deleted, d).
             case ParseFileName name of
               None \<Rightarrow> (deleted, d)
             | Some (number, type) \<Rightarrow>
                 if keep_file (db_versions d) live number type then (deleted, d)
                 else
                   let d = (if type = kTableFile
                            then d\<lparr>db_table_cache := TableCache_Evict number (db_table_cache d)\<rparr> else d)
                   in (deleted @ [db_path d @ ''/'' @ name], d)) children ([], d))"

section \<open>Properties\<close>

text \<open>
  \<open>GetProperty\<close>: the number of files of a level and the memory in use. The table of statistics is
  formatted with floating point numbers and \<open>sstables\<close> is a debug string: both are given as arguments.
\<close>

definition GetProperty :: "string \<Rightarrow> string \<Rightarrow> string \<Rightarrow> db \<Rightarrow> string option" where
  "GetProperty stats sstables property d =
     (let prefix = ''leveldb.'' in
      if \<not> starts_with property prefix then None
      else
        let rest = drop (length prefix) property; files = ''num-files-at-level'' in
        if starts_with rest files then
          (case ConsumeDecimalNumber (drop (length files) rest) of
             (True, Some level, []) \<Rightarrow>
               if level \<ge> word_of_nat kNumLevels then None
               else Some (show_nat (NumLevelFiles (db_versions d) (unat level)))
           | _ \<Rightarrow> None)
        else if rest = ''stats'' then Some stats
        else if rest = ''sstables'' then Some sstables
        else if rest = ''approximate-memory-usage'' then
          (let usage = Cache_TotalCharge (the (tc_block_cache (db_table_cache d)));
               usage = usage + (case db_mem d of None \<Rightarrow> 0 | Some m \<Rightarrow> ApproximateMemoryUsage m);
               usage = usage + (case db_imm d of None \<Rightarrow> 0 | Some m \<Rightarrow> ApproximateMemoryUsage m)
           in Some (show_nat usage))
        else None)"

text \<open>\<open>offset\<close> is \<open>ApproximateOffsetOf\<close> of a table, as for the version set.\<close>

definition GetApproximateSizes ::
  "(u64 \<Rightarrow> u64 \<Rightarrow> bytes \<Rightarrow> u64 option) \<Rightarrow> (bytes \<times> bytes) list \<Rightarrow> db \<Rightarrow> u64 list" where
  "GetApproximateSizes offset ranges d =
     (let vs = db_versions d; v = vs_current_version vs in
      map (\<lambda>(start, limit).
        let k1 = ikey start kMaxSequenceNumber kValueTypeForSeek;
            k2 = ikey limit kMaxSequenceNumber kValueTypeForSeek;
            start = VersionSet_ApproximateOffsetOf (\<lambda>n sz. offset n sz k1) vs v k1;
            limit = VersionSet_ApproximateOffsetOf (\<lambda>n sz. offset n sz k2) vs v k2
        in if limit \<ge> start then limit - start else 0) ranges)"

section \<open>The oldest snapshot\<close>

text \<open>Snapshots are taken at sequence numbers that never go back, so the oldest has the smallest number.\<close>

definition snapshots_ok :: "db \<Rightarrow> bool" where
  "snapshots_ok d \<longleftrightarrow> sorted (map snd (sl_items (db_snapshots d))) \<and>
     (\<forall>x\<in>set (sl_items (db_snapshots d)). snd x \<le> vs_last_sequence (db_versions d) \<and> fst x < sl_fresh (db_snapshots d)) \<and>
     distinct (map fst (sl_items (db_snapshots d)))"

lemma DBImpl_new_snapshots: "snapshots_ok (DBImpl_new raw cache dbpath dbname)"
  by (simp add: snapshots_ok_def DBImpl_new_def SnapshotList_new_def split: prod.split)

lemma GetSnapshot_ok: "snapshots_ok d \<Longrightarrow> snapshots_ok (snd (GetSnapshot d))"
  by (auto simp: snapshots_ok_def GetSnapshot_def SnapshotList_New_def sorted_append less_Suc_eq)

lemma ReleaseSnapshot_ok: "snapshots_ok d \<Longrightarrow> snapshots_ok (ReleaseSnapshot s d)"
  by (auto simp: snapshots_ok_def ReleaseSnapshot_def SnapshotList_Delete_def sorted_wrt_map
      intro: sorted_wrt_filter distinct_map_filter)

lemma snapshots_ok_cong:
  "snapshots_ok d \<Longrightarrow> db_snapshots d' = db_snapshots d \<Longrightarrow> vs_last_sequence (db_versions d) \<le> vs_last_sequence (db_versions d') \<Longrightarrow>
   snapshots_ok d'"
  by (fastforce simp: snapshots_ok_def)

text \<open>The sequence number below which a compaction may forget: the oldest snapshot, or the last sequence.\<close>

definition smallest_snapshot :: "db \<Rightarrow> SequenceNumber" where
  "smallest_snapshot d =
     (if SnapshotList_empty (db_snapshots d) then vs_last_sequence (db_versions d)
      else SnapshotList_oldest (db_snapshots d))"

lemma smallest_snapshot_le:
  assumes "snapshots_ok d"
  shows "smallest_snapshot d \<le> vs_last_sequence (db_versions d)"
    "\<And>x. x \<in> set (sl_items (db_snapshots d)) \<Longrightarrow> smallest_snapshot d \<le> snd x"
  using assms
  by (cases "sl_items (db_snapshots d)";
      force simp: snapshots_ok_def smallest_snapshot_def SnapshotList_empty_def SnapshotList_oldest_def)+

end
