(* ===== verification/DbWrite.thy ===== *)
theory DbWrite
  imports DbImpl
begin

text \<open>
  The write path of \<open>db/db_impl.cpp\<close>. A call of \<open>Write\<close> appends its writer to the queue; the writer at the
  front, once there is room, commits a group of writers from the front of the queue: one log record, one
  run of insertions into the memtable, one answer for all of them. The steps of one call are separate
  definitions, with the places where it waits as values.
\<close>

section \<open>The group\<close>

text \<open>
  The loop of \<open>BuildBatchGroup\<close> over the writers after the first. \<open>tmp\<close> is the temporary batch once it is
  in use; the count is of the writers in the group.
\<close>

fun group_loop :: "writer \<Rightarrow> bytes \<Rightarrow> nat \<Rightarrow> nat \<Rightarrow> writer list \<Rightarrow> bytes option \<Rightarrow> nat \<Rightarrow> bytes option \<times> nat" where
  "group_loop first tmp_batch max_size sz [] tmp n = (tmp, n)"
| "group_loop first tmp_batch max_size sz (w # ws) tmp n =
     (if w_sync w \<and> \<not> w_sync first then (tmp, n)
      else
        case w_batch w of
          None \<Rightarrow> group_loop first tmp_batch max_size sz ws tmp (n + 1)
        | Some b \<Rightarrow>
            let sz = sz + length b in
            if sz > max_size then (tmp, n)
            else
              let result = (case tmp of None \<Rightarrow> WriteBatch_Append tmp_batch (the (w_batch first)) | Some r \<Rightarrow> r)
              in group_loop first tmp_batch max_size sz ws (Some (WriteBatch_Append result b)) (n + 1))"

text \<open>The limit of a group: 1 MB, and no more than 128 KB above a small first batch.\<close>

definition group_limit :: "nat \<Rightarrow> nat" where
  "group_limit sz = (if sz \<le> push_bit 10 128 then sz + push_bit 10 128 else push_bit 20 1)"

text \<open>The batch, the temporary batch when the result is in it, and the number of writers of the group.\<close>

definition BuildBatchGroup :: "db \<Rightarrow> bytes \<times> bytes option \<times> nat" where
  "BuildBatchGroup d =
     (let first = hd (db_writers d); result = the (w_batch first); sz = length result;
          (tmp, n) = group_loop first (db_tmp_batch d) (group_limit sz) sz (tl (db_writers d)) None 1
      in (case tmp of None \<Rightarrow> result | Some r \<Rightarrow> r, tmp, n))"

section \<open>Room for a write\<close>

datatype room = RoomDone status | RoomSleep | RoomWait | RoomAgain

text \<open>The switch to a new log file and a new memtable; the old memtable waits to be compacted.\<close>

definition switch_memtable :: "u64 \<Rightarrow> version_set \<Rightarrow> writable_file option \<Rightarrow> db \<Rightarrow> db" where
  "switch_memtable new_log_number vs lfile d =
     MaybeScheduleCompaction
       (d\<lparr>db_versions := vs, db_logfile_number := new_log_number, db_log := map_option Writer_new lfile,
          db_imm := db_mem d, db_mem := Some (MemTable_Ref MemTable_new)\<rparr>)"

text \<open>
  One turn of the loop of \<open>MakeRoomForWrite\<close>, with \<open>force\<close> and \<open>allow_delay\<close>: done with a status, a sleep
  of a millisecond, a wait for the background work, or another turn after a switch to a new memtable.
\<close>

definition MakeRoom_turn :: "env_files \<Rightarrow> bool \<Rightarrow> bool \<Rightarrow> db \<Rightarrow> room \<times> bool \<times> bool \<times> db" where
  "MakeRoom_turn env force allow_delay d =
     (if \<not> status_ok (db_bg_error d) then (RoomDone (db_bg_error d), force, allow_delay, d)
      else if allow_delay \<and> NumLevelFiles (db_versions d) 0 \<ge> kL0_SlowdownWritesTrigger
      then (RoomSleep, force, False, d)
      else if \<not> force \<and> ApproximateMemoryUsage (the (db_mem d)) \<le> opt_write_buffer_size (db_options d)
      then (RoomDone OK, force, allow_delay, d)
      else if db_imm d \<noteq> None then (RoomWait, force, allow_delay, d)
      else if NumLevelFiles (db_versions d) 0 \<ge> kL0_StopWritesTrigger then (RoomWait, force, allow_delay, d)
      else
        let (new_log_number, vs) = NewFileNumber (db_versions d) in
        if opt_read_only (db_options d)
        then (RoomAgain, False, allow_delay, switch_memtable new_log_number vs None d)
        else
          (case env_NewWritableFile env (LogFileName (db_path d) (db_name d) new_log_number) of
             Inl s \<Rightarrow> (RoomDone s, force, allow_delay, d\<lparr>db_versions := ReuseFileNumber new_log_number vs\<rparr>)
           | Inr f \<Rightarrow> (RoomAgain, False, allow_delay, switch_memtable new_log_number vs (Some f) d)))"

text \<open>The turns until the loop is done, sleeps or waits.\<close>

partial_function (option) MakeRoomForWrite :: "env_files \<Rightarrow> bool \<Rightarrow> bool \<Rightarrow> db \<Rightarrow> (room \<times> bool \<times> bool \<times> db) option" where
  "MakeRoomForWrite env force allow_delay d =
     (case MakeRoom_turn env force allow_delay d of
        (r, force, allow_delay, d) \<Rightarrow>
          if r = RoomAgain then MakeRoomForWrite env force allow_delay d else Some (r, force, allow_delay, d))"

section \<open>Writing\<close>

text \<open>A call of \<open>Write\<close> joins the queue, unless the database is read-only.\<close>

definition Write_enqueue :: "nat \<Rightarrow> bool \<Rightarrow> bytes option \<Rightarrow> db \<Rightarrow> status \<times> db" where
  "Write_enqueue i sync batch d =
     (if opt_read_only (db_options d) then (NotSupported ''read only mode, can not wirte'', d)
      else (OK, d\<lparr>db_writers := db_writers d @
             [\<lparr>w_id = i, w_batch = batch, w_sync = sync, w_done = False, w_status = OK\<rparr>]\<rparr>))"

text \<open>The log record, the sync and the insertions; the status and whether the sync failed.\<close>

definition commit_batch :: "bool \<Rightarrow> bytes \<Rightarrow> db \<Rightarrow> status \<times> bool \<times> db" where
  "commit_batch sync updates d =
     (let (s, lw) = AddRecord updates (the (db_log d)); d = d\<lparr>db_log := Some lw\<rparr>;
          (s, sync_error, d) =
            (if status_ok s \<and> sync then
               let (s, f) = wf_Sync (lw_dest lw) in (s, \<not> status_ok s, d\<lparr>db_log := Some (lw\<lparr>lw_dest := f\<rparr>)\<rparr>)
             else (s, False, d))
      in if status_ok s
         then (let (s, m) = WriteBatch_InsertInto (db_user d) updates (the (db_mem d)) in (s, sync_error, d\<lparr>db_mem := m\<rparr>))
         else (s, sync_error, d))"

text \<open>
  The writer at the front after \<open>MakeRoomForWrite\<close> returned \<open>s\<close>: it commits its group, answers the writers
  of the group and leaves the queue with them. The batch of the caller is not kept after its call.
\<close>

definition Write_front :: "status \<Rightarrow> db \<Rightarrow> status \<times> db" where
  "Write_front s d =
     (let w = hd (db_writers d); last_sequence = vs_last_sequence (db_versions d);
          (s, n, d) =
            (if status_ok s \<and> w_batch w \<noteq> None then
               let (updates, tmp, n) = BuildBatchGroup d;
                   updates = WriteBatch_SetSequence (last_sequence + 1) updates;
                   last_sequence = last_sequence + word_of_int (WriteBatch_Count updates);
                   (s, sync_error, d) = commit_batch (w_sync w) updates d;
                   d = (if sync_error then RecordBackgroundError s d else d);
                   d = (if tmp \<noteq> None then d\<lparr>db_tmp_batch := WriteBatch_Clear\<rparr> else d)
               in (s, n, d\<lparr>db_versions := VersionSet_SetLastSequence last_sequence (db_versions d)\<rparr>)
             else (s, 1, d))
      in (s, d\<lparr>db_done := db_done d @ map (\<lambda>w. w\<lparr>w_status := s, w_done := True\<rparr>) (take n (db_writers d)),
               db_writers := drop n (db_writers d)\<rparr>))"

text \<open>\<open>DB::Put\<close> and \<open>DB::Delete\<close> make a batch of one operation; \<open>DBImpl\<close> puts the test for read-only mode before them.\<close>

definition DB_Put :: "nat \<Rightarrow> bool \<Rightarrow> bytes \<Rightarrow> bytes \<Rightarrow> db \<Rightarrow> status \<times> db" where
  "DB_Put i sync key val d = Write_enqueue i sync (Some (WriteBatch_Put key val WriteBatch_Clear)) d"

definition DB_Delete :: "nat \<Rightarrow> bool \<Rightarrow> bytes \<Rightarrow> db \<Rightarrow> status \<times> db" where
  "DB_Delete i sync key d = Write_enqueue i sync (Some (WriteBatch_Delete key WriteBatch_Clear)) d"

definition DBImpl_Put :: "nat \<Rightarrow> bool \<Rightarrow> bytes \<Rightarrow> bytes \<Rightarrow> db \<Rightarrow> status \<times> db" where
  "DBImpl_Put i sync key val d =
     (if opt_read_only (db_options d) then (NotSupported ''read only mode, can not put'', d) else DB_Put i sync key val d)"

definition DBImpl_Delete :: "nat \<Rightarrow> bool \<Rightarrow> bytes \<Rightarrow> db \<Rightarrow> status \<times> db" where
  "DBImpl_Delete i sync key d =
     (if opt_read_only (db_options d) then (NotSupported ''read only mode, can not delete'', d) else DB_Delete i sync key d)"

section \<open>The turns end\<close>

text \<open>After a switch the memtable before it waits to be compacted, so there is at most one switch.\<close>

lemma switch_memtable_fields [simp]:
  "db_imm (switch_memtable n vs f d) = db_mem d" "db_mem (switch_memtable n vs f d) = Some (MemTable_Ref MemTable_new)"
  "db_options (switch_memtable n vs f d) = db_options d" "db_bg_error (switch_memtable n vs f d) = db_bg_error d"
  "db_writers (switch_memtable n vs f d) = db_writers d" "db_user (switch_memtable n vs f d) = db_user d"
  "db_log (switch_memtable n vs f d) = map_option Writer_new f" "db_versions (switch_memtable n vs f d) = vs"
  "db_snapshots (switch_memtable n vs f d) = db_snapshots d" "db_logfile_number (switch_memtable n vs f d) = n"
  by (simp_all add: switch_memtable_def MaybeScheduleCompaction_def)

lemma MakeRoom_again:
  assumes "MakeRoom_turn env force allow_delay d = (RoomAgain, force', allow_delay', d')"
  shows "\<not> force' \<and> db_imm d = None \<and> db_bg_error d = OK \<and>
    (\<exists>f. d' = switch_memtable (vs_next_file_number (db_versions d)) (snd (NewFileNumber (db_versions d))) f d \<and>
       (f = None \<longleftrightarrow> opt_read_only (db_options d)))"
  using assms
  by (auto simp: MakeRoom_turn_def NewFileNumber_def status_ok_iff split: if_splits sum.splits)

lemma MakeRoomForWrite_ends:
  assumes m: "db_mem d \<noteq> None"
  shows "\<exists>r. MakeRoomForWrite env force allow_delay d = Some r"
proof -
  obtain r f a d' where t: "MakeRoom_turn env force allow_delay d = (r, f, a, d')" by (metis prod_cases4)
  show ?thesis
  proof (cases "r = RoomAgain")
    case True
    note ag = MakeRoom_again [OF t [unfolded True]]
    obtain r' f' a' d'' where t': "MakeRoom_turn env f a d' = (r', f', a', d'')" by (metis prod_cases4)
    have "db_imm d' \<noteq> None" using ag m by auto
    then have "r' \<noteq> RoomAgain" using MakeRoom_again [of env f a d' f' a' d''] t' by auto
    then show ?thesis using t t' True by (subst MakeRoomForWrite.simps, simp, subst MakeRoomForWrite.simps, simp)
  qed (use t in \<open>subst MakeRoomForWrite.simps, simp\<close>)
qed

text \<open>
  What holds of the result: a write goes on only without a background error and with room in the memtable,
  and at most one switch was made.
\<close>

lemma MakeRoom_done:
  assumes "MakeRoom_turn env force allow_delay d = (RoomDone OK, force', allow_delay', d')"
  shows "d' = d \<and> db_bg_error d = OK \<and> \<not> force \<and> ApproximateMemoryUsage (the (db_mem d)) \<le> opt_write_buffer_size (db_options d) \<or>
    (\<exists>name. env_NewWritableFile env name = Inl OK)"
  using assms
  by (auto simp: MakeRoom_turn_def NewFileNumber_def status_ok_iff split: if_splits sum.splits)

end
