(* ===== verification/DbWriteProofs.thy ===== *)
theory DbWriteProofs
  imports DbWrite MemIter LogRecovery
begin

text \<open>
  Group commit: the batches of the writers at the front of the queue become one log record and one run of
  insertions with consecutive sequence numbers, in the order of the queue.
\<close>

section \<open>The batch of a group\<close>

text \<open>The operations a writer brings; a writer without a batch brings none.\<close>

definition writer_has :: "writer \<Rightarrow> batch_op list \<Rightarrow> bool" where
  "writer_has w ops \<longleftrightarrow> (case w_batch w of None \<Rightarrow> ops = [] | Some b \<Rightarrow> \<exists>q. b = batch_rep q ops)"

definition writer_size :: "writer \<Rightarrow> nat" where
  "writer_size w = (case w_batch w of None \<Rightarrow> 0 | Some b \<Rightarrow> length b)"

text \<open>Why a group ends before a writer: a sync write behind an unsynced one, or the limit on the size.\<close>

definition group_stops :: "writer \<Rightarrow> nat \<Rightarrow> nat \<Rightarrow> writer \<Rightarrow> bool" where
  "group_stops first max_size sz w \<longleftrightarrow>
     w_sync w \<and> \<not> w_sync first \<or> (w_batch w \<noteq> None \<and> sz + writer_size w > max_size)"

definition group_holds :: "bytes \<Rightarrow> bytes option \<Rightarrow> batch_op list \<Rightarrow> bool" where
  "group_holds first_batch tmp ops \<longleftrightarrow> (\<exists>q. (case tmp of None \<Rightarrow> first_batch | Some r \<Rightarrow> r) = batch_rep q ops)"

lemma group_loop_spec:
  assumes "w_batch first = Some (batch_rep q0 ops0)" "list_all2 writer_has ws opss"
    "tmp = None \<Longrightarrow> acc = ops0" "group_holds (batch_rep q0 ops0) tmp acc"
  shows "\<exists>tmp' m. group_loop first WriteBatch_Clear max_size sz ws tmp n = (tmp', n + m) \<and> m \<le> length ws \<and>
    group_holds (batch_rep q0 ops0) tmp' (acc @ concat (take m opss)) \<and>
    (\<forall>w\<in>set (take m ws). w_sync w \<longrightarrow> w_sync first) \<and>
    (\<forall>j<m. w_batch (ws ! j) \<noteq> None \<longrightarrow> sz + sum_list (map writer_size (take (Suc j) ws)) \<le> max_size) \<and>
    (m < length ws \<longrightarrow> group_stops first max_size (sz + sum_list (map writer_size (take m ws))) (ws ! m))"
  using assms(2-4)
proof (induction ws arbitrary: sz tmp acc n opss)
  case Nil
  then show ?case by simp
next
  case (Cons w ws)
  obtain ops opss' where o: "opss = ops # opss'" "writer_has w ops" "list_all2 writer_has ws opss'"
    using Cons.prems(1) by (auto simp: list_all2_Cons1)
  show ?case
  proof (cases "group_stops first max_size sz w")
    case True
    then have "group_loop first WriteBatch_Clear max_size sz (w # ws) tmp n = (tmp, n)"
      by (auto simp: group_stops_def writer_size_def Let_def split: option.splits)
    then show ?thesis using Cons.prems True by (intro exI [of _ tmp] exI [of _ 0]) simp
  next
    case go: False
    then have sync: "w_sync w \<longrightarrow> w_sync first" by (auto simp: group_stops_def)
    have step: "\<exists>tmp1. group_loop first WriteBatch_Clear max_size sz (w # ws) tmp n =
        group_loop first WriteBatch_Clear max_size (sz + writer_size w) ws tmp1 (n + 1) \<and>
        group_holds (batch_rep q0 ops0) tmp1 (acc @ ops) \<and> (tmp1 = None \<longrightarrow> acc @ ops = ops0)"
    proof (cases "w_batch w")
      case None
      then show ?thesis using go sync o(2) Cons.prems(2,3) by (auto simp: group_stops_def writer_size_def writer_has_def)
    next
      case (Some b)
      obtain q where b: "b = batch_rep q ops" using o(2) Some by (auto simp: writer_has_def)
      define r where "r = (case tmp of None \<Rightarrow> WriteBatch_Append WriteBatch_Clear (the (w_batch first)) | Some r \<Rightarrow> r)"
      have "\<exists>q'. r = batch_rep q' acc"
      proof (cases tmp)
        case None
        then show ?thesis using Cons.prems(2) assms(1) Append_rep [of 0 "[]" q0 ops0] by (auto simp: r_def WriteBatch_Clear_rep)
      qed (use Cons.prems(3) in \<open>auto simp: r_def group_holds_def\<close>)
      then obtain q' where "WriteBatch_Append r b = batch_rep q' (acc @ ops)" using b Append_rep by metis
      then have "group_holds (batch_rep q0 ops0) (Some (WriteBatch_Append r b)) (acc @ ops)" by (auto simp: group_holds_def)
      moreover have "group_loop first WriteBatch_Clear max_size sz (w # ws) tmp n =
          group_loop first WriteBatch_Clear max_size (sz + writer_size w) ws (Some (WriteBatch_Append r b)) (n + 1)"
        using go sync Some by (auto simp: group_stops_def writer_size_def Let_def r_def)
      ultimately show ?thesis by blast
    qed
    then obtain tmp1 where s: "group_loop first WriteBatch_Clear max_size sz (w # ws) tmp n =
        group_loop first WriteBatch_Clear max_size (sz + writer_size w) ws tmp1 (n + 1)"
      "group_holds (batch_rep q0 ops0) tmp1 (acc @ ops)" "tmp1 = None \<Longrightarrow> acc @ ops = ops0" by blast
    obtain tmp' m where IH: "group_loop first WriteBatch_Clear max_size (sz + writer_size w) ws tmp1 (n + 1) = (tmp', n + 1 + m)"
      "m \<le> length ws" "group_holds (batch_rep q0 ops0) tmp' ((acc @ ops) @ concat (take m opss'))"
      "\<forall>w\<in>set (take m ws). w_sync w \<longrightarrow> w_sync first"
      "\<forall>j<m. w_batch (ws ! j) \<noteq> None \<longrightarrow> sz + writer_size w + sum_list (map writer_size (take (Suc j) ws)) \<le> max_size"
      "m < length ws \<longrightarrow> group_stops first max_size (sz + writer_size w + sum_list (map writer_size (take m ws))) (ws ! m)"
      using Cons.IH [OF o(3) s(3,2)] by blast
    have "\<forall>j<Suc m. w_batch ((w # ws) ! j) \<noteq> None \<longrightarrow> sz + sum_list (map writer_size (take (Suc j) (w # ws))) \<le> max_size"
      using IH(5) go by (auto simp: less_Suc_eq_0_disj group_stops_def add.assoc)
    then show ?thesis
      using s(1) IH sync by (intro exI [of _ tmp'] exI [of _ "Suc m"]) (simp add: o(1) add.assoc)
  qed
qed

text \<open>The group of a queue, with the operations each writer brings.\<close>

lemma BuildBatchGroup_spec:
  assumes q: "db_writers d = w # ws" and b: "w_batch w = Some (batch_rep q0 ops0)" and has: "list_all2 writer_has ws opss"
    and tmp: "db_tmp_batch d = WriteBatch_Clear"
  shows "\<exists>q tmp' m. BuildBatchGroup d = (batch_rep q (concat (ops0 # take m opss)), tmp', Suc m) \<and> m \<le> length ws \<and>
    (\<forall>x\<in>set (take m ws). w_sync x \<longrightarrow> w_sync w) \<and>
    (\<forall>j<m. w_batch (ws ! j) \<noteq> None \<longrightarrow>
       writer_size w + sum_list (map writer_size (take (Suc j) ws)) \<le> group_limit (writer_size w)) \<and>
    (m < length ws \<longrightarrow>
       group_stops w (group_limit (writer_size w)) (writer_size w + sum_list (map writer_size (take m ws))) (ws ! m))"
proof -
  let ?sz = "writer_size w"
  have sz: "?sz = length (batch_rep q0 ops0)" by (simp add: writer_size_def b)
  have first: "group_holds (batch_rep q0 ops0) None ops0" by (auto simp: group_holds_def)
  obtain tmp' m where g: "group_loop w WriteBatch_Clear (group_limit ?sz) ?sz ws None 1 = (tmp', 1 + m)" "m \<le> length ws"
    "group_holds (batch_rep q0 ops0) tmp' (ops0 @ concat (take m opss))" "\<forall>x\<in>set (take m ws). w_sync x \<longrightarrow> w_sync w"
    "\<forall>j<m. w_batch (ws ! j) \<noteq> None \<longrightarrow> ?sz + sum_list (map writer_size (take (Suc j) ws)) \<le> group_limit ?sz"
    "m < length ws \<longrightarrow> group_stops w (group_limit ?sz) (?sz + sum_list (map writer_size (take m ws))) (ws ! m)"
    using group_loop_spec [OF b has refl, of None "group_limit ?sz" ?sz 1] first by blast
  obtain q where "(case tmp' of None \<Rightarrow> batch_rep q0 ops0 | Some r \<Rightarrow> r) = batch_rep q (ops0 @ concat (take m opss))"
    using g(3) by (auto simp: group_holds_def)
  moreover have "BuildBatchGroup d = (case tmp' of None \<Rightarrow> batch_rep q0 ops0 | Some r \<Rightarrow> r, tmp', Suc m)"
    using g(1) q tmp by (simp add: BuildBatchGroup_def b sz)
  ultimately show ?thesis using g(2,4,5,6) by auto
qed

section \<open>The log\<close>

text \<open>What a writer of records puts into its file does not depend on the name of the file.\<close>

definition rename_log :: "string \<Rightarrow> log_writer \<Rightarrow> log_writer" where
  "rename_log n w = w\<lparr>lw_dest := (lw_dest w)\<lparr>wf_name := n\<rparr>\<rparr>"

lemma rename_log_simps [simp]:
  "wf_data (lw_dest (rename_log n w)) = wf_data (lw_dest w)" "wf_answers (lw_dest (rename_log n w)) = wf_answers (lw_dest w)"
  "lw_block_offset (rename_log n w) = lw_block_offset w"
  by (simp_all add: rename_log_def)

lemma switch_block_rename:
  assumes "wf_answers (lw_dest w) = []"
  shows "switch_block (rename_log n w) = rename_log n (switch_block w)" "wf_answers (lw_dest (switch_block w)) = []"
  using assms by (simp_all add: switch_block_def rename_log_def Let_def)

lemma Emit_rename:
  assumes "wf_answers (lw_dest w) = []"
  shows "EmitPhysicalRecord t x (rename_log n w) = (OK, rename_log n (snd (EmitPhysicalRecord t x w)))"
    "fst (EmitPhysicalRecord t x w) = OK" "wf_answers (lw_dest (snd (EmitPhysicalRecord t x w))) = []"
  using assms by (simp_all add: EmitPhysicalRecord_def rename_log_def Let_def)

lemma AddRecord_loop_rename:
  assumes "wf_answers (lw_dest w) = []"
  shows "AddRecord_loop b x (rename_log n w) = (OK, rename_log n (snd (AddRecord_loop b x w))) \<and>
    wf_answers (lw_dest (snd (AddRecord_loop b x w))) = []"
  using assms
proof (induction b x w rule: AddRecord_loop.induct)
  case (1 b x w)
  define fl where "fl = (if length x < kBlockSize - lw_block_offset (switch_block w) - kHeaderSize then length x
    else kBlockSize - lw_block_offset (switch_block w) - kHeaderSize)"
  define w1 where "w1 = snd (EmitPhysicalRecord (fragment_type b (length x = fl)) (take fl x) (switch_block w))"
  note sw = switch_block_rename [OF 1(2)]
  have e: "EmitPhysicalRecord (fragment_type b (length x = fl)) (take fl x) (switch_block w) = (OK, w1)"
    using Emit_rename(2) [OF sw(2)] by (simp add: w1_def prod_eq_iff)
  have e': "EmitPhysicalRecord (fragment_type b (length x = fl)) (take fl x) (rename_log n (switch_block w)) = (OK, rename_log n w1)"
    using Emit_rename(1) [OF sw(2)] by (simp add: w1_def)
  have a: "wf_answers (lw_dest w1) = []" using Emit_rename(3) [OF sw(2)] by (simp add: w1_def)
  have IH: "AddRecord_loop False (drop fl x) (rename_log n w1) = (OK, rename_log n (snd (AddRecord_loop False (drop fl x) w1))) \<and>
    wf_answers (lw_dest (snd (AddRecord_loop False (drop fl x) w1))) = []" if "0 < length (drop fl x)"
    using 1(1) [OF refl refl, OF fl_def refl e [symmetric] refl refl _ a] that by simp
  show ?case
    unfolding AddRecord_loop.simps [of b x w] AddRecord_loop.simps [of b x "rename_log n w"] Let_def sw(1) rename_log_simps
      fl_def [symmetric] e e' prod.case
    using IH a by auto
qed

lemma AddRecords_rename:
  "wf_answers (lw_dest w) = [] \<Longrightarrow> AddRecords xs (rename_log n w) = rename_log n (AddRecords xs w)"
proof (induction xs w rule: AddRecords.induct)
  case (2 x xs w)
  then show ?case using AddRecord_loop_rename [of w True x n] by (simp add: AddRecord_def)
qed simp

lemma AddRecords_log_file:
  assumes "wf_data f = []" "wf_answers f = []"
  shows "wf_data (lw_dest (AddRecords xs (Writer_new f))) = log_file xs"
proof -
  have "Writer_new f = rename_log (wf_name f) (Writer_new \<lparr>wf_name = ''log'', wf_data = [], wf_answers = []\<rparr>)"
    using assms by (cases f) (simp add: Writer_new_def rename_log_def)
  then show ?thesis by (simp add: log_file_def AddRecords_rename Writer_new_def)
qed

lemma wf_Sync_ok: "wf_answers f = [] \<Longrightarrow> wf_Sync f = (OK, f)"
  by (cases f) (simp add: wf_Sync_def wf_Flush_def Let_def)

section \<open>Committing a group\<close>

text \<open>
  The state between two writes: the log holds one record for each batch that was committed to it, the
  memtable holds the operations of the same batches with consecutive sequence numbers, and the last
  sequence number is at or after all of them.
\<close>

type_synonym commit = "SequenceNumber \<times> batch_op list"

definition commit_adds :: "commit list \<Rightarrow> mem_add list" where
  "commit_adds cs = concat (map (\<lambda>(q, ops). op_adds q ops) cs)"

definition commit_records :: "commit list \<Rightarrow> bytes list" where
  "commit_records cs = map (\<lambda>(q, ops). batch_rep q ops) cs"

fun commits_from :: "nat \<Rightarrow> commit list \<Rightarrow> nat \<Rightarrow> bool" where
  "commits_from lo [] hi \<longleftrightarrow> lo \<le> hi + 1"
| "commits_from lo ((q, ops) # cs) hi \<longleftrightarrow> lo \<le> unat q \<and> list_all op_fits ops \<and> length ops < 2 ^ 31 \<and>
     commits_from (unat q + length ops) cs hi"

definition db_holds :: "db \<Rightarrow> commit list \<Rightarrow> bool" where
  "db_holds d cs \<longleftrightarrow> db_user d = BytewiseComparator \<and> db_tmp_batch d = WriteBatch_Clear \<and>
     (\<exists>m xs. db_mem d = Some m \<and> memtable_holds BytewiseComparator short_key m (commit_adds cs) xs) \<and>
     (\<exists>f. wf_data f = [] \<and> wf_answers f = [] \<and> db_log d = Some (AddRecords (commit_records cs) (Writer_new f))) \<and>
     commits_from 1 cs (unat (vs_last_sequence (db_versions d))) \<and>
     vs_last_sequence (db_versions d) < kMaxSequenceNumber"

lemma commits_from_append:
  "commits_from lo cs hi \<Longrightarrow> hi < unat q \<Longrightarrow> list_all op_fits ops \<Longrightarrow> length ops < 2 ^ 31 \<Longrightarrow> unat q + length ops \<le> hi' + 1 \<Longrightarrow>
   commits_from lo (cs @ [(q, ops)]) hi'"
  by (induction lo cs hi rule: commits_from.induct) auto

lemma kMax_unat: "unat kMaxSequenceNumber = 2 ^ 56 - 1"
  by (simp add: kMaxSequenceNumber_def)

lemma commits_from_bounds:
  "commits_from lo cs hi \<Longrightarrow> lo \<le> hi + 1 \<and> (\<forall>(q, ops)\<in>set cs. lo \<le> unat q \<and> unat q + length ops \<le> hi + 1 \<and> list_all op_fits ops \<and> length ops < 2 ^ 31)"
  by (induction lo cs hi rule: commits_from.induct) fastforce+

lemma commit_adds_bounds:
  assumes "commits_from lo cs hi" "hi \<le> unat kMaxSequenceNumber" "a \<in> set (commit_adds cs)"
  shows "lo \<le> unat (fst a) \<and> unat (fst a) \<le> hi"
proof -
  obtain q ops where c: "(q, ops) \<in> set cs" "a \<in> set (op_adds q ops)" using assms(3) by (auto simp: commit_adds_def)
  have b: "lo \<le> unat q" "unat q + length ops \<le> hi + 1" using commits_from_bounds [OF assms(1)] c(1) by auto
  have "unat (fst a) \<in> set (map (\<lambda>a. unat (fst a)) (op_adds q ops))" using c(2) by auto
  also have "\<dots> = {unat q..<unat q + length ops}"
    using b assms(2) by (subst op_adds_seqs) (auto simp: kMax_unat)
  finally show ?thesis using b by auto
qed

lemma add_ok_short: "add_ok (\<lambda>_. True) a \<Longrightarrow> add_ok short_key a"
  by (cases a) (simp add: short_key_def)

text \<open>One batch goes into the log and the memtable.\<close>

lemma commit_batch_holds:
  assumes h: "db_holds d cs" and fit: "list_all op_fits ops" "length ops < 2 ^ 31"
    and room: "unat (vs_last_sequence (db_versions d)) + length ops < unat kMaxSequenceNumber"
  defines "l \<equiv> vs_last_sequence (db_versions d)"
  shows "\<exists>d'. commit_batch sync (batch_rep (l + 1) ops) d = (OK, False, d') \<and>
    db_holds (d'\<lparr>db_versions := VersionSet_SetLastSequence (l + word_of_nat (length ops)) (db_versions d')\<rparr>) (cs @ [(l + 1, ops)]) \<and>
    db_writers d' = db_writers d \<and> db_done d' = db_done d \<and> db_versions d' = db_versions d \<and> db_tmp_batch d' = db_tmp_batch d \<and>
    db_imm d' = db_imm d"
proof -
  obtain m xs f where m: "db_mem d = Some m" "memtable_holds BytewiseComparator short_key m (commit_adds cs) xs"
    and f: "wf_data f = []" "wf_answers f = []" "db_log d = Some (AddRecords (commit_records cs) (Writer_new f))"
    and u: "db_user d = BytewiseComparator" "db_tmp_batch d = WriteBatch_Clear"
    and c: "commits_from 1 cs (unat l)" using h by (auto simp: db_holds_def l_def)
  have u1: "unat (l + 1) = unat l + 1" "unat (l + word_of_nat (length ops)) = unat l + length ops"
    using room fit(2) by (auto simp: l_def kMax_unat unat_word_ariths unat_of_nat)
  define lw where "lw = AddRecords (commit_records cs) (Writer_new f)"
  have "writer_synced lw"
    using AddRecords_appends [of "Writer_new f"] f by (simp add: lw_def writer_synced_def Writer_new_def)
  note ap = AddRecord_appends [OF this, of "batch_rep (l + 1) ops"]
  define lw' where "lw' = snd (AddRecord (batch_rep (l + 1) ops) lw)"
  have add: "AddRecord (batch_rep (l + 1) ops) lw = (OK, lw')" using ap(1) by (simp add: lw'_def prod_eq_iff)
  have ans: "wf_answers (lw_dest lw') = []" using ap(2) by (simp add: lw'_def writer_synced_def)
  have lw': "lw' = AddRecords (commit_records (cs @ [(l + 1, ops)])) (Writer_new f)"
    by (simp add: lw'_def lw_def commit_records_def AddRecords_append)
  have ok: "list_all (add_ok short_key) (op_adds (l + 1) ops)"
    using op_adds_ok [of "l + 1" ops] room fit(1) u1(1) by (auto simp: list_all_iff l_def intro: add_ok_short)
  have max: "unat l \<le> unat kMaxSequenceNumber" "unat kMaxSequenceNumber < 2 ^ 64 - 2" using room by (simp_all add: l_def kMax_unat)
  have fst_old: "unat (fst a) \<le> unat l" if "a \<in> set (commit_adds cs)" for a
    using commit_adds_bounds [OF c max(1) that] by simp
  have fst_new: "unat l < unat (fst a)" if "a \<in> set (op_adds (l + 1) ops)" for a
  proof -
    have "unat (fst a) \<in> set (map (\<lambda>a. unat (fst a)) (op_adds (l + 1) ops))" using that by auto
    moreover have "unat (l + 1) + length ops \<le> 2 ^ 64" using room max(2) u1(1) by (simp add: l_def)
    ultimately have "unat (fst a) \<in> set [unat (l + 1)..<unat (l + 1) + length ops]" by (simp only: op_adds_seqs)
    then show ?thesis using u1(1) by (simp only: set_upt) simp
  qed
  have "distinct (map add_id (commit_adds cs))" using m(2) by (simp add: memtable_holds_def)
  moreover have "distinct (map add_id (op_adds (l + 1) ops))"
    by (rule op_adds_distinct) (use room max(2) u1(1) in \<open>simp add: l_def\<close>)
  moreover have "add_id a \<noteq> add_id b" if "a \<in> set (commit_adds cs)" "b \<in> set (op_adds (l + 1) ops)" for a b
  proof -
    have "fst a = fst b" if "add_id a = add_id b" using that by (cases a; cases b) auto
    then show ?thesis using fst_old [OF that(1)] fst_new [OF that(2)] by auto
  qed
  ultimately have dist: "distinct (map add_id (commit_adds cs @ op_adds (l + 1) ops))" by force
  from bytewise_short.MemTable_Adds_holds [OF m(2) ok this] obtain m' ys where
    m': "MemTable_Adds BytewiseComparator (op_adds (l + 1) ops) m = Some m'"
      "memtable_holds BytewiseComparator short_key m' (commit_adds cs @ op_adds (l + 1) ops) ys" by blast
  have "list_all op_ok ops" using fit(1) op_fits_ok by (auto simp: list_all_iff)
  note ins = InsertInto_rep [OF this fit(2), of BytewiseComparator "l + 1" m, unfolded m'(1)]
  define d' where "d' = d\<lparr>db_log := Some lw', db_mem := Some m'\<rparr>"
  have "commit_batch sync (batch_rep (l + 1) ops) d = (OK, False, d')"
    using add ans f(3) ins m(1) u(1) by (simp add: commit_batch_def lw_def d'_def wf_Sync_ok Let_def)
  moreover have "db_holds (d'\<lparr>db_versions := VersionSet_SetLastSequence (l + word_of_nat (length ops)) (db_versions d')\<rparr>) (cs @ [(l + 1, ops)])"
  proof -
    have "commits_from 1 (cs @ [(l + 1, ops)]) (unat (l + word_of_nat (length ops)))"
      by (rule commits_from_append [OF c _ fit]) (simp_all add: u1)
    moreover have "l + word_of_nat (length ops) < kMaxSequenceNumber" using room u1(2) by (simp add: l_def word_less_nat_alt)
    moreover have "commit_adds (cs @ [(l + 1, ops)]) = commit_adds cs @ op_adds (l + 1) ops" by (simp add: commit_adds_def)
    ultimately show ?thesis
      unfolding db_holds_def using u m'(2) lw' f(1,2) by (auto simp: d'_def VersionSet_SetLastSequence_def)
  qed
  ultimately show ?thesis by (auto simp: d'_def)
qed

text \<open>A group: the front of the queue in one commit, all its writers answered \<open>OK\<close>, the queue without them.\<close>

lemma Write_front_commits:
  assumes h: "db_holds d cs" and q: "db_writers d = w # ws"
    and b: "w_batch w = Some (batch_rep q0 ops0)" and has: "list_all2 writer_has ws opss"
    and fit: "list_all op_fits (concat (ops0 # opss))" "length (concat (ops0 # opss)) < 2 ^ 31"
    and room: "unat (vs_last_sequence (db_versions d)) + length (concat (ops0 # opss)) < unat kMaxSequenceNumber"
  shows "\<exists>m d'. Write_front OK d = (OK, d') \<and> m \<le> length ws \<and>
    db_holds d' (cs @ [(vs_last_sequence (db_versions d) + 1, concat (ops0 # take m opss))]) \<and>
    unat (vs_last_sequence (db_versions d')) = unat (vs_last_sequence (db_versions d)) + length (concat (ops0 # take m opss)) \<and>
    db_writers d' = drop m ws \<and>
    db_done d' = db_done d @ map (\<lambda>x. x\<lparr>w_status := OK, w_done := True\<rparr>) (w # take m ws) \<and>
    (\<forall>x\<in>set (take m ws). w_sync x \<longrightarrow> w_sync w)"
proof -
  have tmp: "db_tmp_batch d = WriteBatch_Clear" using h by (simp add: db_holds_def)
  obtain qn tmp' m where g: "BuildBatchGroup d = (batch_rep qn (concat (ops0 # take m opss)), tmp', Suc m)" "m \<le> length ws"
    "\<forall>x\<in>set (take m ws). w_sync x \<longrightarrow> w_sync w"
    using BuildBatchGroup_spec [OF q b has tmp] by blast
  define ops where "ops = concat (ops0 # take m opss)"
  have "set ops \<subseteq> set (concat (ops0 # opss))" by (auto simp: ops_def dest: in_set_takeD)
  then have f: "list_all op_fits ops" using fit(1) by (auto simp: list_all_iff)
  have "concat (ops0 # opss) = ops @ concat (drop m opss)"
    unfolding ops_def by (metis append_Cons append_take_drop_id concat_append)
  then have len: "length ops \<le> length (concat (ops0 # opss))" by simp
  define l where "l = vs_last_sequence (db_versions d)"
  have l: "length ops < 2 ^ 31" "unat l + length ops < unat kMaxSequenceNumber" using len fit(2) room by (simp_all add: l_def)
  obtain d1 where d1: "commit_batch (w_sync w) (batch_rep (l + 1) ops) d = (OK, False, d1)"
    "db_holds (d1\<lparr>db_versions := VersionSet_SetLastSequence (l + word_of_nat (length ops)) (db_versions d1)\<rparr>) (cs @ [(l + 1, ops)])"
    "db_writers d1 = db_writers d" "db_done d1 = db_done d" "db_versions d1 = db_versions d" "db_tmp_batch d1 = db_tmp_batch d"
    using commit_batch_holds [OF h f l(1) l(2) [unfolded l_def], of "w_sync w", folded l_def] by blast
  define d2 where "d2 = d1\<lparr>db_versions := VersionSet_SetLastSequence (l + word_of_nat (length ops)) (db_versions d1)\<rparr>"
  have cnt: "word_of_int (WriteBatch_Count (batch_rep (l + 1) ops)) = (word_of_nat (length ops) :: u64)"
    using l(1) by (simp add: sint_count)
  have t: "d1\<lparr>db_tmp_batch := WriteBatch_Clear\<rparr> = d1" using d1(6) tmp by (cases d1) simp
  have w: "Write_front OK d = (OK, d2\<lparr>db_done := db_done d2 @ map (\<lambda>w. w\<lparr>w_status := OK, w_done := True\<rparr>) (take (Suc m) (db_writers d2)),
      db_writers := drop (Suc m) (db_writers d2)\<rparr>)"
    unfolding Write_front_def Let_def g(1) [folded ops_def] prod.case SetSequence_rep l_def [symmetric]
    using t by (simp add: q b d1(1,5) cnt d2_def del: batch_rep_header(3))
  have "unat (l + word_of_nat (length ops)) = unat l + length ops"
    using l by (auto simp: kMax_unat unat_word_ariths unat_of_nat)
  moreover define d3 where "d3 = d2\<lparr>db_done := db_done d2 @ map (\<lambda>w. w\<lparr>w_status := OK, w_done := True\<rparr>) (take (Suc m) (db_writers d2)),
      db_writers := drop (Suc m) (db_writers d2)\<rparr>"
  moreover have "db_holds d3 (cs @ [(l + 1, ops)])"
    using d1(2) unfolding d2_def [symmetric] by (simp add: db_holds_def d3_def)
  moreover have "db_writers d3 = drop m ws" "db_done d3 = db_done d @ map (\<lambda>x. x\<lparr>w_status := OK, w_done := True\<rparr>) (w # take m ws)"
    "vs_last_sequence (db_versions d3) = l + word_of_nat (length ops)"
    using d1(3,4) q by (simp_all add: d3_def d2_def VersionSet_SetLastSequence_def)
  ultimately show ?thesis unfolding l_def [symmetric] ops_def [symmetric] using w [folded d3_def] g(2,3)
    by (intro exI [of _ m] exI [of _ d3]) (simp add: ops_def)
qed

section \<open>A database to write to\<close>

text \<open>A database with default options after \<open>DB::Open\<close> made it: an empty log and an empty memtable.\<close>

definition example_db :: "writer list \<Rightarrow> db" where
  "example_db ws = (DBImpl_new Options_default None ''path'' ''name'')
     \<lparr>db_mem := Some MemTable_new, db_log := Some (Writer_new \<lparr>wf_name = ''name'', wf_data = [], wf_answers = []\<rparr>), db_writers := ws\<rparr>"

lemma example_db_writers: "db_writers (example_db ws) = ws"
  by (simp add: example_db_def)

lemma example_db_sequence: "vs_last_sequence (db_versions (example_db ws)) = 0"
  by (simp add: example_db_def DBImpl_new_def VersionSet_new_def AppendVersion_def Let_def split: prod.split)

lemma example_db_holds: "db_holds (example_db ws) []"
proof -
  have "(0 :: SequenceNumber) < kMaxSequenceNumber" by (simp only: word_less_nat_alt kMax_unat) simp
  then show ?thesis
    unfolding db_holds_def example_db_sequence
    using memtable_holds_new
    by (auto simp: example_db_def DBImpl_new_def commit_adds_def commit_records_def Options_default_def split: prod.split
      intro!: exI [of _ "\<lparr>wf_name = ''name'', wf_data = [], wf_answers = []\<rparr>"])
qed

end
