(* ===== verification/DbGet.thy ===== *)
theory DbGet
  imports DbImpl MemIter VersionGet
begin

text \<open>
  Reading: \<open>DBImpl::Get\<close> of \<open>db/db_impl.cpp\<close> looks into the memtable, the memtable that is being
  compacted and the current version, in this order. Since each is newer than the ones after it, the first
  hit is the newest entry of the key that the snapshot can see.
\<close>

section \<open>The operation\<close>

text \<open>
  The references are taken before and dropped after the lookups. \<open>val\<close> is the caller's string, which keeps
  its contents unless a value is found. The outer option is the one of the memtable lookup.
\<close>

definition get_refs :: "nat \<Rightarrow> db \<Rightarrow> db" where
  "get_refs current d =
     d\<lparr>db_mem := map_option MemTable_Ref (db_mem d), db_imm := map_option MemTable_Ref (db_imm d),
       db_versions := Version_Ref current (db_versions d)\<rparr>"

definition get_unrefs :: "nat \<Rightarrow> db \<Rightarrow> db" where
  "get_unrefs current d =
     d\<lparr>db_mem := Option.bind (db_mem d) MemTable_Unref, db_imm := Option.bind (db_imm d) MemTable_Unref,
       db_versions := Version_Unref current (db_versions d)\<rparr>"

definition get_from_version ::
  "snappy \<Rightarrow> file_opener \<Rightarrow> read_options \<Rightarrow> nat \<Rightarrow> LookupKey \<Rightarrow> bytes \<Rightarrow> db \<Rightarrow> status \<times> bytes \<times> db" where
  "get_from_version sn files ro current lkey val d =
     (let vs = db_versions d;
          (s, found, stats, tc) =
            Version_Get (db_user d) (file_at vs) (TableCache_Get sn files ro) (version_at vs current) lkey (db_table_cache d);
          (wants, v, fs) = UpdateStats stats (version_at vs current) (file_at vs);
          d = d\<lparr>db_table_cache := tc, db_versions := put_version current v fs vs\<rparr>;
          d = (if wants then MaybeScheduleCompaction d else d)
      in (s, case found of None \<Rightarrow> val | Some v \<Rightarrow> v, d))"

definition read_snapshot :: "read_options \<Rightarrow> db \<Rightarrow> SequenceNumber" where
  "read_snapshot ro d = (case ro_snapshot ro of Some s \<Rightarrow> s | None \<Rightarrow> vs_last_sequence (db_versions d))"

definition DB_Get :: "snappy \<Rightarrow> file_opener \<Rightarrow> read_options \<Rightarrow> bytes \<Rightarrow> bytes \<Rightarrow> db \<Rightarrow> (status \<times> bytes \<times> db) option" where
  "DB_Get sn files ro key val d =
     (let snapshot = read_snapshot ro d;
          mem = the (db_mem d); imm = db_imm d; current = the (vs_current (db_versions d));
          d = get_refs current d; lkey = LookupKey_new key snapshot
      in case MemTable_Get (db_user d) mem lkey val OK of
           None \<Rightarrow> None
         | Some (True, val, s) \<Rightarrow> Some (s, val, get_unrefs current d)
         | Some (False, val, s) \<Rightarrow>
             (case (case imm of None \<Rightarrow> Some (False, val, s) | Some imm \<Rightarrow> MemTable_Get (db_user d) imm lkey val s) of
                None \<Rightarrow> None
              | Some (True, val, s) \<Rightarrow> Some (s, val, get_unrefs current d)
              | Some (False, val, s) \<Rightarrow>
                  let (s, val, d) = get_from_version sn files ro current lkey val d in Some (s, val, get_unrefs current d)))"

section \<open>The entries of a memtable\<close>

definition entries_newest :: "kv set \<Rightarrow> bytes \<Rightarrow> SequenceNumber \<Rightarrow> kv \<Rightarrow> bool" where
  "entries_newest es u s e \<longleftrightarrow> e \<in> es \<and> visible_to u s e \<and> (\<forall>x\<in>es. visible_to u s x \<longrightarrow> entry_seq x \<le> entry_seq e)"

text \<open>What a lookup answers for the entry it found, or for none.\<close>

definition get_answer :: "bytes \<Rightarrow> kv option \<Rightarrow> status \<times> bytes" where
  "get_answer val r =
     (case r of None \<Rightarrow> (NotFound [], val) | Some e \<Rightarrow> if entry_type e = kTypeValue then (OK, snd e) else (NotFound [], val))"

definition newest_answer :: "kv set \<Rightarrow> bytes \<Rightarrow> SequenceNumber \<Rightarrow> bytes \<Rightarrow> status \<times> bytes \<Rightarrow> bool" where
  "newest_answer es u s val a \<longleftrightarrow>
     (if \<exists>e\<in>es. visible_to u s e then \<exists>e. entries_newest es u s e \<and> a = get_answer val (Some e) else a = get_answer val None)"

lemma add_kv_parts:
  assumes "add_ok ok (s, t, k, v)"
  shows "entry_user (add_kv (s, t, k, v)) = k" "entry_seq (add_kv (s, t, k, v)) = s" "entry_type (add_kv (s, t, k, v)) = t"
  using assms by (auto simp: entry_user_def entry_seq_def entry_type_def ExtractValueType_def drop_bit_Pack ucast_Pack)

lemma visible_add:
  assumes "add_ok ok a"
  shows "visible_to u s (add_kv a) \<longleftrightarrow> fst (snd (snd a)) = u \<and> fst a \<le> s" "entry_seq (add_kv a) = fst a"
proof -
  obtain q t k v where a: "a = (q, t, k, v)" by (metis prod_cases4)
  show "visible_to u s (add_kv a) \<longleftrightarrow> fst (snd (snd a)) = u \<and> fst a \<le> s" "entry_seq (add_kv a) = fst a"
    using add_kv_parts [OF assms [unfolded a]] by (simp_all add: a visible_to_def)
qed

lemma mem_newest_entries:
  assumes "list_all (add_ok ok) adds"
  shows "case mem_newest adds u s of
      None \<Rightarrow> \<forall>e\<in>set (map add_kv adds). \<not> visible_to u s e
    | Some (q, t, v) \<Rightarrow> add_ok ok (q, t, u, v) \<and> entries_newest (set (map add_kv adds)) u s (add_kv (q, t, u, v))"
proof -
  have ok: "add_ok ok a" if "a \<in> set adds" for a using assms that by (simp add: list_all_iff)
  show ?thesis
  proof (cases "mem_newest adds u s")
    case None
    have "\<not> visible_to u s (add_kv a)" if "a \<in> set adds" for a
      using None that visible_add(1) [OF ok [OF that]] by (cases a) (auto simp: mem_newest_None not_le)
    then show ?thesis using None by simp
  next
    case (Some r)
    obtain q t v where r: "r = (q, t, v)" by (metis prod_cases3)
    note n = mem_newest_Some [OF Some [unfolded r]]
    have x: "add_ok ok (q, t, u, v)" using ok n by blast
    have "entry_seq (add_kv a) \<le> q" if "a \<in> set adds" "visible_to u s (add_kv a)" for a
      using n that visible_add [OF ok [OF that(1)]] by (cases a) auto
    then have "entries_newest (set (map add_kv adds)) u s (add_kv (q, t, u, v))"
      unfolding entries_newest_def using n visible_add [OF x] by (auto simp del: add_kv.simps)
    then show ?thesis using Some r x by simp
  qed
qed

text \<open>A lookup in a memtable: the newest visible entry of its own, or a miss.\<close>

lemma MemTable_Get_entries:
  assumes h: "memtable_holds BytewiseComparator short_key m adds xs" and u: "length u + 8 < 2 ^ 32" and s: "s \<le> kMaxSequenceNumber"
  shows "(\<forall>e\<in>set (map add_kv adds). \<not> visible_to u s e) \<and>
      MemTable_Get BytewiseComparator m (LookupKey_new u s) val OK = Some (False, val, OK) \<or>
    (\<exists>e. entries_newest (set (map add_kv adds)) u s e \<and>
      (\<exists>st v. MemTable_Get BytewiseComparator m (LookupKey_new u s) val OK = Some (True, v, st) \<and> (st, v) = get_answer val (Some e)))"
proof -
  have ok: "list_all (add_ok short_key) adds" using h by (simp add: memtable_holds_def)
  have "short_key u" using u by (simp add: short_key_def)
  note g = bytewise_short.MemTable_Get_newest [OF h this u s, of val OK]
  show ?thesis
  proof (cases "mem_newest adds u s")
    case None
    then show ?thesis using g mem_newest_entries [OF ok, of u s] by simp
  next
    case (Some r)
    obtain q t v where r: "r = (q, t, v)" by (metis prod_cases3)
    note n = mem_newest_entries [OF ok, of u s, unfolded Some option.case r prod.case]
    have "entry_type (add_kv (q, t, u, v)) = t" "snd (add_kv (q, t, u, v)) = v"
      using add_kv_parts(3) [of short_key q t u v] n by simp_all
    then show ?thesis using g Some r n
      by (intro disjI2 exI [of _ "add_kv (q, t, u, v)"]) (auto simp: get_answer_def simp del: add_kv.simps)
  qed
qed

section \<open>The layers\<close>

text \<open>
  A database with its entries: the memtables were filled by additions, the version lists tables that hold
  \<open>content\<close>, and each layer has newer entries than the ones after it.
\<close>

definition set_newer :: "kv set \<Rightarrow> kv set \<Rightarrow> bool" where
  "set_newer xs ys \<longleftrightarrow> (\<forall>a\<in>xs. \<forall>b\<in>ys. entry_user a = entry_user b \<longrightarrow> entry_seq b < entry_seq a)"

definition db_tables :: "snappy \<Rightarrow> file_opener \<Rightarrow> kv list list \<Rightarrow> db \<Rightarrow> bool" where
  "db_tables sn files kvss d \<longleftrightarrow>
     (let fs = file_at (db_versions d); v = vs_current_version (db_versions d); tc = db_table_cache d in
      (\<exists>c. vs_current (db_versions d) = Some c \<and> map_of (vs_versions (db_versions d)) c \<noteq> None) \<and> version_ok BytewiseComparator (\<lambda>_. True) fs v \<and>
      version_tables BytewiseComparator
        (\<lambda>n fsize. stored_table sn files (tc_dbpath tc) (tc_dbname tc) (tc_options tc) kvss fsize) (\<lambda>n. concat kvss) fs v \<and>
      version_recent (\<lambda>n. concat kvss) fs v \<and> table_cache_ok sn (tc_dbpath tc) (tc_dbname tc) (tc_options tc) kvss tc)"

definition version_set_entries :: "kv list list \<Rightarrow> db \<Rightarrow> kv set" where
  "version_set_entries kvss d = version_entries (\<lambda>n. concat kvss) (file_at (db_versions d)) (vs_current_version (db_versions d))"

definition db_memtables :: "db \<Rightarrow> mem_add list \<Rightarrow> mem_add list \<Rightarrow> bool" where
  "db_memtables d adds iadds \<longleftrightarrow>
     (\<exists>m xs. db_mem d = Some m \<and> memtable_holds BytewiseComparator short_key m adds xs) \<and>
     (case db_imm d of None \<Rightarrow> iadds = [] | Some im \<Rightarrow> \<exists>xs. memtable_holds BytewiseComparator short_key im iadds xs)"

definition db_entries :: "kv list list \<Rightarrow> db \<Rightarrow> mem_add list \<Rightarrow> mem_add list \<Rightarrow> kv set" where
  "db_entries kvss d adds iadds = set (map add_kv adds) \<union> set (map add_kv iadds) \<union> version_set_entries kvss d"

definition db_layered :: "kv list list \<Rightarrow> db \<Rightarrow> mem_add list \<Rightarrow> mem_add list \<Rightarrow> bool" where
  "db_layered kvss d adds iadds \<longleftrightarrow>
     set_newer (set (map add_kv adds)) (set (map add_kv iadds) \<union> version_set_entries kvss d) \<and>
     set_newer (set (map add_kv iadds)) (version_set_entries kvss d)"

lemma newest_in_front:
  assumes "entries_newest xs u s e" "set_newer xs ys"
  shows "entries_newest (xs \<union> ys) u s e"
proof -
  have "entry_seq y < entry_seq e" if "y \<in> ys" "visible_to u s y" for y
    using assms that by (auto simp: entries_newest_def set_newer_def visible_to_def)
  then show ?thesis using assms(1) by (auto simp: entries_newest_def intro: less_imp_le)
qed

lemma newest_behind:
  "\<forall>e\<in>xs. \<not> visible_to u s e \<Longrightarrow> newest_answer ys u s val a \<Longrightarrow> newest_answer (xs \<union> ys) u s val a"
  by (auto simp: newest_answer_def entries_newest_def split: if_splits)

lemma newest_answerI: "entries_newest es u s e \<Longrightarrow> newest_answer es u s val (get_answer val (Some e))"
  unfolding newest_answer_def using entries_newest_def by metis

section \<open>The newest entry\<close>

lemma map_of_update: "map_of (map (\<lambda>(b, w). (b, if b = a then v else w)) xs) a = map_option (\<lambda>_. v) (map_of xs a)"
  by (induction xs) auto

lemma version_at_Ref:
  assumes "map_of (vs_versions vs) c \<noteq> None"
  shows "version_at (Version_Ref c vs) c = (version_at vs c)\<lparr>ver_refs := ver_refs (version_at vs c) + 1\<rparr>"
    "file_at (Version_Ref c vs) = file_at vs"
  using assms by (auto simp: Version_Ref_def version_at_def update_version_def map_of_update file_at_def fun_eq_iff Let_def)

lemma version_refs_irrelevant:
  "version_ok cmp ok fs (v\<lparr>ver_refs := n\<rparr>) = version_ok cmp ok fs v"
  "version_tables cmp live content fs (v\<lparr>ver_refs := n\<rparr>) = version_tables cmp live content fs v"
  "version_recent content fs (v\<lparr>ver_refs := n\<rparr>) = version_recent content fs v"
  "version_entries content fs (v\<lparr>ver_refs := n\<rparr>) = version_entries content fs v"
  by (simp_all add: version_ok_def version_tables_def version_recent_def version_entries_def level_metas_def level_files_def)

lemma get_from_version_newest:
  assumes t: "db_tables sn files kvss d" and u: "db_user d = BytewiseComparator" and s: "s \<le> kMaxSequenceNumber"
  defines "c \<equiv> the (vs_current (db_versions d))"
  shows "\<exists>st v d'. get_from_version sn files ro c (LookupKey_new u s) val (get_refs c d) = (st, v, d') \<and>
    newest_answer (version_set_entries kvss d) u s val (st, v) \<and>
    table_cache_ok sn (tc_dbpath (db_table_cache d)) (tc_dbname (db_table_cache d)) (tc_options (db_table_cache d)) kvss (db_table_cache d')"
proof -
  let ?v = "version_at (db_versions d) c" and ?fs = "file_at (db_versions d)" and ?tc = "db_table_cache d"
  let ?v' = "?v\<lparr>ver_refs := ver_refs ?v + 1\<rparr>"
  have c: "vs_current (db_versions d) = Some c" "map_of (vs_versions (db_versions d)) c \<noteq> None"
    using t by (auto simp: db_tables_def c_def Let_def)
  have v: "vs_current_version (db_versions d) = ?v" by (simp add: vs_current_version_def c(1))
  note T = t [unfolded db_tables_def Let_def v]
  obtain st found stats tc' where g:
    "Version_Get BytewiseComparator ?fs (TableCache_Get sn files ro) ?v' (LookupKey_new u s) ?tc = (st, found, stats, tc')"
    "table_cache_ok sn (tc_dbpath ?tc) (tc_dbname ?tc) (tc_options ?tc) kvss tc'"
    "if \<exists>e\<in>version_entries (\<lambda>n. concat kvss) ?fs ?v'. visible_to u s e
     then \<exists>e\<in>version_entries (\<lambda>n. concat kvss) ?fs ?v'. visible_to u s e \<and> (st, found) = get_result e \<and>
       (\<forall>x\<in>version_entries (\<lambda>n. concat kvss) ?fs ?v'. visible_to u s x \<longrightarrow> entry_seq x \<le> entry_seq e)
     else (st, found) = (NotFound [], None)"
    using table_get.Version_Get_newest [of ?fs ?v' sn files "tc_dbpath ?tc" "tc_dbname ?tc" "tc_options ?tc" kvss ?tc s ro u]
      T s unfolding version_refs_irrelevant by blast
  have a: "newest_answer (version_set_entries kvss d) u s val (st, case found of None \<Rightarrow> val | Some v \<Rightarrow> v)"
  proof (cases "\<exists>e\<in>version_set_entries kvss d. visible_to u s e")
    case True
    then obtain e where e: "entries_newest (version_set_entries kvss d) u s e" "(st, found) = get_result e"
      using g(3) unfolding version_refs_irrelevant version_set_entries_def v entries_newest_def by auto
    then have "(st, case found of None \<Rightarrow> val | Some v \<Rightarrow> v) = get_answer val (Some e)"
      by (auto simp: get_result_def get_answer_def split: if_splits)
    then show ?thesis using newest_answerI [OF e(1)] by simp
  next
    case False
    then show ?thesis using g(3) unfolding version_refs_irrelevant version_set_entries_def v newest_answer_def
      by (auto simp: get_answer_def)
  qed
  obtain w v1 fs1 where us: "UpdateStats stats ?v' ?fs = (w, v1, fs1)" by (metis prod_cases3)
  have r: "db_user (get_refs c d) = BytewiseComparator" "db_table_cache (get_refs c d) = ?tc"
    "db_versions (get_refs c d) = Version_Ref c (db_versions d)" by (simp_all add: get_refs_def u)
  show ?thesis
    unfolding get_from_version_def r version_at_Ref [OF c(2)] g(1) Let_def prod.case us
    using a g(2) by (auto simp: MaybeScheduleCompaction_def)
qed

lemma db_user_refs [simp]: "db_user (get_refs c d) = db_user d" "db_table_cache (get_refs c d) = db_table_cache d"
  "db_table_cache (get_unrefs c d) = db_table_cache d"
  by (simp_all add: get_refs_def get_unrefs_def)

lemma DB_Get_newest:
  assumes m: "db_memtables d adds iadds" and t: "db_tables sn files kvss d" and l: "db_layered kvss d adds iadds"
    and u: "db_user d = BytewiseComparator" "length key + 8 < 2 ^ 32"
    and s: "read_snapshot ro d \<le> kMaxSequenceNumber"
  shows "\<exists>st v d'. DB_Get sn files ro key val d = Some (st, v, d') \<and>
    newest_answer (db_entries kvss d adds iadds) key (read_snapshot ro d) val (st, v) \<and>
    table_cache_ok sn (tc_dbpath (db_table_cache d)) (tc_dbname (db_table_cache d)) (tc_options (db_table_cache d)) kvss (db_table_cache d')"
proof -
  let ?A = "set (map add_kv adds)" and ?I = "set (map add_kv iadds)" and ?V = "version_set_entries kvss d"
  define c where "c = the (vs_current (db_versions d))"
  define snap where "snap = read_snapshot ro d"
  note s = s [folded snap_def]
  have tc: "table_cache_ok sn (tc_dbpath (db_table_cache d)) (tc_dbname (db_table_cache d)) (tc_options (db_table_cache d)) kvss (db_table_cache d)"
    using t by (simp add: db_tables_def Let_def)
  obtain m xs where mm: "db_mem d = Some m" "memtable_holds BytewiseComparator short_key m adds xs" using m by (auto simp: db_memtables_def)
  have dg: "DB_Get sn files ro key val d =
     (case MemTable_Get BytewiseComparator m (LookupKey_new key snap) val OK of
           None \<Rightarrow> None
         | Some (True, val, s) \<Rightarrow> Some (s, val, get_unrefs c (get_refs c d))
         | Some (False, val, s) \<Rightarrow>
             (case (case db_imm d of None \<Rightarrow> Some (False, val, s) | Some imm \<Rightarrow> MemTable_Get BytewiseComparator imm (LookupKey_new key snap) val s) of
                None \<Rightarrow> None
              | Some (True, val, s) \<Rightarrow> Some (s, val, get_unrefs c (get_refs c d))
              | Some (False, val, s) \<Rightarrow>
                  let (s, val, d) = get_from_version sn files ro c (LookupKey_new key snap) val (get_refs c d)
                  in Some (s, val, get_unrefs c d)))"
    unfolding DB_Get_def Let_def snap_def c_def mm(1) option.sel db_user_refs u(1) ..
  from MemTable_Get_entries [OF mm(2) u(2) s, of val] show ?thesis
  proof
    assume miss: "(\<forall>e\<in>?A. \<not> visible_to key snap e) \<and> MemTable_Get BytewiseComparator m (LookupKey_new key snap) val OK = Some (False, val, OK)"
    obtain st v d' where g: "get_from_version sn files ro c (LookupKey_new key snap) val (get_refs c d) = (st, v, d')"
      "newest_answer ?V key snap val (st, v)"
      "table_cache_ok sn (tc_dbpath (db_table_cache d)) (tc_dbname (db_table_cache d)) (tc_options (db_table_cache d)) kvss (db_table_cache d')"
      using get_from_version_newest [OF t u(1) s] unfolding c_def by blast
    consider (none) "\<forall>e\<in>?I. \<not> visible_to key snap e"
        "(case db_imm d of None \<Rightarrow> Some (False, val, OK) | Some imm \<Rightarrow> MemTable_Get BytewiseComparator imm (LookupKey_new key snap) val OK) =
          Some (False, val, OK)"
      | (hit) e st v where "entries_newest ?I key snap e" "(st, v) = get_answer val (Some e)"
        "(case db_imm d of None \<Rightarrow> Some (False, val, OK) | Some imm \<Rightarrow> MemTable_Get BytewiseComparator imm (LookupKey_new key snap) val OK) =
          Some (True, v, st)"
    proof (cases "db_imm d")
      case None
      then show ?thesis using that(1) m by (auto simp: db_memtables_def)
    next
      case (Some im)
      then obtain ys where "memtable_holds BytewiseComparator short_key im iadds ys" using m by (auto simp: db_memtables_def)
      from MemTable_Get_entries [OF this u(2) s, of val] show ?thesis using that Some by auto
    qed
    then show ?thesis
    proof cases
      case none
      have "newest_answer (?A \<union> (?I \<union> ?V)) key snap val (st, v)"
        using newest_behind miss none(1) g(2) by (intro newest_behind) blast+
      then show ?thesis using miss none(2) g dg by (auto simp: db_entries_def Un_assoc snap_def)
    next
      case (hit e st v)
      have "entries_newest (?I \<union> ?V) key snap e" using newest_in_front [OF hit(1)] l by (simp add: db_layered_def)
      then have "newest_answer (?A \<union> (?I \<union> ?V)) key snap val (st, v)"
        using newest_behind [of ?A key snap "?I \<union> ?V"] miss newest_answerI hit(2) by metis
      then show ?thesis using miss hit(3) dg tc by (auto simp: db_entries_def Un_assoc snap_def)
    qed
  next
    assume "\<exists>e. entries_newest ?A key snap e \<and> (\<exists>st v. MemTable_Get BytewiseComparator m (LookupKey_new key snap) val OK = Some (True, v, st) \<and>
      (st, v) = get_answer val (Some e))"
    then obtain e st v where e: "entries_newest ?A key snap e" "(st, v) = get_answer val (Some e)"
      "MemTable_Get BytewiseComparator m (LookupKey_new key snap) val OK = Some (True, v, st)" by blast
    have "entries_newest (db_entries kvss d adds iadds) key snap e"
      using newest_in_front [OF e(1), of "?I \<union> ?V"] l by (simp add: db_layered_def db_entries_def Un_assoc)
    then show ?thesis using newest_answerI [of _ key snap e val] e(2,3) dg tc by (auto simp: snap_def)
  qed
qed

end
