(* ===== verification/BuildLoop.thy ===== *)
theory BuildLoop
  imports IteratorSpec TableProofs
begin

text \<open>
  The loop of \<open>BuildTable\<close> (\<open>db/builder.cpp\<close>) over any iterator that keeps its contract.
\<close>

text \<open>The loop over the input: the largest key so far, and the builder. It may not end for a broken iterator.\<close>

partial_function (option) BuildTable_loop ::
  "'s iter_ops \<Rightarrow> snappy \<Rightarrow> 's \<Rightarrow> bytes \<Rightarrow> table_builder \<Rightarrow> ('s \<times> bytes \<times> table_builder) option" where
  "BuildTable_loop ops sn it largest builder =
     (if it_Valid ops it
      then (case it_Next ops it of
              None \<Rightarrow> None
            | Some it' \<Rightarrow> BuildTable_loop ops sn it' (it_key ops it) (TableBuilder_Add sn (it_key ops it) (it_value ops it) builder))
      else Some (it, largest, builder))"

context iterator
begin

lemma BuildTable_loop_at:
  "at it kvs i \<Longrightarrow> \<exists>it'. BuildTable_loop ops sn it largest b =
     Some (it', if i < length kvs then fst (last kvs) else largest, TableBuilder_Adds sn (drop i kvs) b) \<and> at it' kvs (length kvs)"
proof (induction "length kvs - i" arbitrary: it i largest b)
  case 0
  then have "i = length kvs" using at_bound by fastforce
  then show ?case using 0(2) Valid_at [OF 0(2)] by (subst BuildTable_loop.simps) (simp add: TableBuilder_Adds_def)
next
  case (Suc n)
  then have il: "i < length kvs" by simp
  obtain it1 where n: "it_Next ops it = Some it1" "at it1 kvs (Suc i)" using Next_at [OF Suc(3) il] by blast
  have d: "drop i kvs = kvs ! i # drop (Suc i) kvs" using il by (simp add: Cons_nth_drop_Suc)
  have la: "(if Suc i < length kvs then fst (last kvs) else it_key ops it) = fst (last kvs)"
  proof (cases "Suc i = length kvs")
    case True
    then have "kvs \<noteq> []" "length kvs - 1 = i" using il by auto
    then show ?thesis using True key_at [OF Suc(3) il] last_conv_nth [of kvs] by simp
  qed (use il in simp)
  obtain it' where IH: "BuildTable_loop ops sn it1 (it_key ops it) (TableBuilder_Add sn (it_key ops it) (it_value ops it) b) =
     Some (it', if Suc i < length kvs then fst (last kvs) else it_key ops it,
       TableBuilder_Adds sn (drop (Suc i) kvs) (TableBuilder_Add sn (it_key ops it) (it_value ops it) b))" "at it' kvs (length kvs)"
    using Suc(1) [of "Suc i" it1] Suc(2) n(2) by fastforce
  have "TableBuilder_Adds sn (drop i kvs) b = TableBuilder_Adds sn (drop (Suc i) kvs) (TableBuilder_Add sn (it_key ops it) (it_value ops it) b)"
    unfolding d using key_at [OF Suc(3) il] value_at [OF Suc(3) il] by (simp add: TableBuilder_Adds_def case_prod_beta)
  then show ?case using IH il Valid_at [OF Suc(3)] n(1) la by (subst BuildTable_loop.simps) auto
qed

end

end
