(* ===== verification/PosixEnv.thy ===== *)
theory PosixEnv
  imports VersionSet TableCache
begin

text \<open>
  \<open>PosixEnv\<close> of \<open>util/env_posix.cpp\<close> over a file system: the files with their contents in the order of the
  directory, the names the system refuses, the answers of the C library to the calls on a file, and the
  locks. A writer's bytes are in the file system when its file is closed. Error texts of the system are
  left out of the status, and directories have no state.
\<close>

record disk =
  dk_files :: "(string \<times> bytes) list"
  dk_denied :: "string \<Rightarrow> bool"
  dk_io :: "string \<Rightarrow> libc_answers"
  dk_locks :: "string list"
  dk_busy :: "string \<Rightarrow> bool"

definition disk_file :: "disk \<Rightarrow> string \<Rightarrow> bytes option" where
  "disk_file k name = map_of (dk_files k) name"

text \<open>Creating a file, or replacing the contents of one.\<close>

definition disk_put :: "string \<Rightarrow> bytes \<Rightarrow> disk \<Rightarrow> disk" where
  "disk_put name data k =
     (if disk_file k name = None then k\<lparr>dk_files := dk_files k @ [(name, data)]\<rparr>
      else k\<lparr>dk_files := map (\<lambda>(n, x). (n, if n = name then data else x)) (dk_files k)\<rparr>)"

definition disk_remove :: "string \<Rightarrow> disk \<Rightarrow> disk" where
  "disk_remove name k = k\<lparr>dk_files := filter (\<lambda>(n, x). n \<noteq> name) (dk_files k)\<rparr>"

section \<open>Opening files\<close>

definition Posix_NewSequentialFile :: "disk \<Rightarrow> string \<Rightarrow> status + sequential_file" where
  "Posix_NewSequentialFile k fname =
     (case disk_file k fname of
        Some data \<Rightarrow> if dk_denied k fname then Inl (IOError fname)
                    else Inr \<lparr>sf_name = fname, sf_data = data, sf_answers = dk_io k fname\<rparr>
      | None \<Rightarrow> Inl (IOError fname))"

text \<open>A mapped file answers as \<open>pread\<close> does for ranges within the file.\<close>

definition Posix_NewRandomAccessFile :: "disk \<Rightarrow> file_opener" where
  "Posix_NewRandomAccessFile k fname =
     (case disk_file k fname of
        Some data \<Rightarrow> if dk_denied k fname then Inl (IOError fname) else Inr (plain_file fname data)
      | None \<Rightarrow> Inl (IOError fname))"

definition Posix_NewWritableFile :: "string \<Rightarrow> disk \<Rightarrow> (status + writable_file) \<times> disk" where
  "Posix_NewWritableFile fname k =
     (if dk_denied k fname then (Inl (IOError fname), k)
      else (Inr \<lparr>wf_name = fname, wf_data = [], wf_answers = dk_io k fname\<rparr>, disk_put fname [] k))"

definition Posix_NewAppendableFile :: "string \<Rightarrow> disk \<Rightarrow> (status + writable_file) \<times> disk" where
  "Posix_NewAppendableFile fname k =
     (if dk_denied k fname then (Inl (IOError fname), k)
      else
        let data = (case disk_file k fname of None \<Rightarrow> [] | Some data \<Rightarrow> data)
        in (Inr \<lparr>wf_name = fname, wf_data = data, wf_answers = dk_io k fname\<rparr>, disk_put fname data k))"

text \<open>\<open>Close\<close> of a writer, and its destructor, which ignores the answer of \<open>fclose\<close>.\<close>

definition wf_Close :: "writable_file \<Rightarrow> disk \<Rightarrow> status \<times> disk" where
  "wf_Close f k =
     (let (a, as) = next_answer (wf_answers f)
      in (if a \<noteq> None then IOError (wf_name f) else OK, disk_put (wf_name f) (wf_data f) k))"

definition wf_release :: "writable_file \<Rightarrow> disk \<Rightarrow> disk" where
  "wf_release f k = disk_put (wf_name f) (wf_data f) k"

section \<open>Files and directories\<close>

definition Posix_FileExists :: "disk \<Rightarrow> string \<Rightarrow> bool" where
  "Posix_FileExists k fname \<longleftrightarrow> disk_file k fname \<noteq> None"

text \<open>The entries of a directory whose names start with the name of the database.\<close>

definition in_directory :: "string \<Rightarrow> string \<Rightarrow> string option" where
  "in_directory dir path =
     (let n = drop (length dir + 1) path
      in if starts_with path (dir @ ''/'') \<and> CHR ''/'' \<notin> set n then Some n else None)"

definition Posix_GetChildren :: "disk \<Rightarrow> string \<Rightarrow> string \<Rightarrow> status \<times> string list" where
  "Posix_GetChildren k dir dbname =
     (if dk_denied k dir then (IOError dir, [])
      else (OK, filter (\<lambda>n. starts_with n dbname)
                  ([''.'', ''..''] @ List.map_filter (in_directory dir) (map fst (dk_files k)))))"

definition Posix_DeleteFile :: "string \<Rightarrow> disk \<Rightarrow> status \<times> disk" where
  "Posix_DeleteFile fname k =
     (if dk_denied k fname \<or> disk_file k fname = None then (IOError fname, k) else (OK, disk_remove fname k))"

definition Posix_GetFileSize :: "disk \<Rightarrow> string \<Rightarrow> u64 option" where
  "Posix_GetFileSize k fname =
     (if dk_denied k fname then None else map_option (\<lambda>data. word_of_nat (length data)) (disk_file k fname))"

definition Posix_RenameFile :: "string \<Rightarrow> string \<Rightarrow> disk \<Rightarrow> status \<times> disk" where
  "Posix_RenameFile src target k =
     (case disk_file k src of
        Some data \<Rightarrow> if dk_denied k src \<or> dk_denied k target then (IOError src, k)
                    else (OK, disk_put target data (disk_remove src k))
      | None \<Rightarrow> (IOError src, k))"

section \<open>Locks\<close>

text \<open>The table of locks of this process, and \<open>dk_busy\<close> for the locks of other processes.\<close>

definition LockTable_Insert :: "string \<Rightarrow> string list \<Rightarrow> bool \<times> string list" where
  "LockTable_Insert fname l = (if fname \<in> set l then (False, l) else (True, fname # l))"

definition LockTable_Remove :: "string \<Rightarrow> string list \<Rightarrow> string list" where
  "LockTable_Remove fname l = filter (\<lambda>n. n \<noteq> fname) l"

definition Posix_LockFile :: "string \<Rightarrow> disk \<Rightarrow> status \<times> string option \<times> disk" where
  "Posix_LockFile fname k =
     (if dk_denied k fname then (IOError fname, None, k)
      else
        let k = (if disk_file k fname = None then disk_put fname [] k else k);
            (inserted, locks) = LockTable_Insert fname (dk_locks k)
        in if \<not> inserted then (IOError (''lock '' @ fname), None, k)
           else if dk_busy k fname then (IOError (''lock '' @ fname), None, k\<lparr>dk_locks := LockTable_Remove fname locks\<rparr>)
           else (OK, Some fname, k\<lparr>dk_locks := locks\<rparr>))"

definition Posix_UnlockFile :: "string \<Rightarrow> disk \<Rightarrow> status \<times> disk" where
  "Posix_UnlockFile fname k =
     (if dk_denied k fname then IOError ''unlock'' else OK, k\<lparr>dk_locks := LockTable_Remove fname (dk_locks k)\<rparr>)"

section \<open>The environment of the version set\<close>

text \<open>
  The calls that \<open>LogAndApply\<close> and \<open>Recover\<close> make, as functions of the file system they start from.
\<close>

definition posix_env :: "disk \<Rightarrow> env_files" where
  "posix_env k =
     \<lparr>env_NewSequentialFile = Posix_NewSequentialFile k,
      env_NewWritableFile = (\<lambda>fname. fst (Posix_NewWritableFile fname k)),
      env_NewAppendableFile = (\<lambda>fname. fst (Posix_NewAppendableFile fname k)),
      env_GetFileSize = Posix_GetFileSize k\<rparr>"

section \<open>Laws\<close>

lemma map_of_set: "map_of (map (\<lambda>(n, x). (n, if n = name then data else x)) fs) m =
    (if m = name then map_option (\<lambda>_. data) (map_of fs m) else map_of fs m)"
  by (induction fs) auto

lemma map_of_remove: "map_of (filter (\<lambda>(n, x). n \<noteq> name) fs) m = (if m = name then None else map_of fs m)"
  by (induction fs) auto

lemma disk_file_put [simp]: "disk_file (disk_put name data k) n = (if n = name then Some data else disk_file k n)"
  by (auto simp: disk_file_def disk_put_def map_of_set map_add_def split: option.splits)

lemma disk_file_remove [simp]: "disk_file (disk_remove name k) n = (if n = name then None else disk_file k n)"
  by (simp add: disk_file_def disk_remove_def map_of_remove)

lemma disk_put_fields [simp]:
  "dk_denied (disk_put name data k) = dk_denied k" "dk_io (disk_put name data k) = dk_io k"
  "dk_locks (disk_put name data k) = dk_locks k" "dk_busy (disk_put name data k) = dk_busy k"
  "dk_denied (disk_remove name k) = dk_denied k" "dk_io (disk_remove name k) = dk_io k"
  "dk_locks (disk_remove name k) = dk_locks k" "dk_busy (disk_remove name k) = dk_busy k"
  by (simp_all add: disk_put_def disk_remove_def)

text \<open>A lock is exclusive: while it is held, no one gets it again.\<close>

lemma LockFile_exclusive:
  assumes "Posix_LockFile fname k = (s, Some l, k')"
  shows "fst (Posix_LockFile fname k') \<noteq> OK" "l = fname" "fname \<notin> set (dk_locks k)"
  using assms by (auto simp: Posix_LockFile_def LockTable_Insert_def Let_def split: if_splits)

lemma Lock_Unlock:
  "Posix_LockFile fname k = (s, Some l, k') \<Longrightarrow> dk_locks (snd (Posix_UnlockFile l k')) = dk_locks k"
  by (auto simp: Posix_LockFile_def Posix_UnlockFile_def LockTable_Insert_def LockTable_Remove_def Let_def
      filter_id_conv split: if_splits)

end
