(* ===== verification/DbFlush.thy ===== *)
theory DbFlush
  imports BuildLoop PosixEnv DbWrite MemIter TableGet
begin

text \<open>
  Writing a memtable to a table: \<open>BuildTable\<close> of \<open>db/builder.cpp\<close>, \<open>WriteLevel0Table\<close> and \<open>CompactMemTable\<close>
  of \<open>db/db_impl.cpp\<close>. The file system is part of the state. Times are the argument \<open>micros\<close>.
\<close>

section \<open>\<open>BuildTable\<close>\<close>

text \<open>
  The whole of a table file: the builder's file is closed, or only released after an error. The table is
  then opened through the table cache.
\<close>

definition write_table ::
  "'s iter_ops \<Rightarrow> snappy \<Rightarrow> options \<Rightarrow> 's \<Rightarrow> writable_file \<Rightarrow> file_meta \<Rightarrow> table_cache \<Rightarrow> disk \<Rightarrow>
     (status \<times> 's \<times> file_meta \<times> table_cache \<times> disk) option" where
  "write_table ops sn opt it file meta tc k =
     (case BuildTable_loop ops sn it (fm_largest meta) (TableBuilder_new opt file) of
        None \<Rightarrow> None
      | Some (it', largest, builder) \<Rightarrow>
          let meta = meta\<lparr>fm_smallest := it_key ops it, fm_largest := largest\<rparr>;
              (s, builder) = TableBuilder_Finish sn builder;
              meta = (if status_ok s then meta\<lparr>fm_file_size := TableBuilder_FileSize builder\<rparr> else meta);
              (s, f) = (if status_ok s then wf_Sync (tb_file builder) else (s, tb_file builder));
              (s, k) = (if status_ok s then wf_Close f k else (s, wf_release f k))
          in Some
            (if status_ok s then
               (case TableCache_NewIterator sn (Posix_NewRandomAccessFile k) ReadOptions_default (fm_number meta) (fm_file_size meta) tc of
                  (t, h, tc) \<Rightarrow>
                    (it_status (table_iter_class sn (opt_comparator opt)) t, it', meta,
                     (case h of None \<Rightarrow> tc | Some (h, _) \<Rightarrow> tc\<lparr>tc_cache := Cache_Release h (tc_cache tc)\<rparr>), k))
             else (s, it', meta, tc, k)))"

definition BuildTable ::
  "'s iter_ops \<Rightarrow> snappy \<Rightarrow> string \<Rightarrow> string \<Rightarrow> options \<Rightarrow> 's \<Rightarrow> file_meta \<Rightarrow> table_cache \<Rightarrow> disk \<Rightarrow>
     (status \<times> file_meta \<times> table_cache \<times> disk) option" where
  "BuildTable ops sn dbpath dbname opt it meta tc k =
     (let meta = meta\<lparr>fm_file_size := 0\<rparr>;
          fname = TableFileName dbpath dbname FILENUMBER_LDB
      in case it_SeekToFirst ops it of
           None \<Rightarrow> None
         | Some it \<Rightarrow>
             if it_Valid ops it then
               (case Posix_NewWritableFile fname k of
                  (Inl s, k) \<Rightarrow> Some (s, meta, tc, k)
                | (Inr file, k) \<Rightarrow>
                    (case write_table ops sn opt it file meta tc k of
                       None \<Rightarrow> None
                     | Some (s, it, meta, tc, k) \<Rightarrow>
                         let s = (if status_ok (it_status ops it) then s else it_status ops it);
                             k = (if status_ok s \<and> fm_file_size meta > 0 then k else snd (Posix_DeleteFile fname k))
                         in Some (s, meta, tc, k)))
             else
               (let s = it_status ops it; k = snd (Posix_DeleteFile fname k) in Some (s, meta, tc, k)))"

section \<open>\<open>WriteLevel0Table\<close> and \<open>CompactMemTable\<close>\<close>

definition add_stats :: "nat \<Rightarrow> compaction_stats \<Rightarrow> db \<Rightarrow> db" where
  "add_stats level c d = d\<lparr>db_stats := (db_stats d)[level := CompactionStats_Add c (db_stats d ! level)]\<rparr>"

text \<open>\<open>base\<close> is the version that helps to choose the level, if any.\<close>

definition WriteLevel0Table ::
  "snappy \<Rightarrow> int \<Rightarrow> memtable \<Rightarrow> version_edit \<Rightarrow> version option \<Rightarrow> db \<Rightarrow> disk \<Rightarrow> (status \<times> version_edit \<times> db \<times> disk) option" where
  "WriteLevel0Table sn micros mem edit base d k =
     (let meta = FileMetaData_new FILENUMBER_LDB 0 [] []
      in case BuildTable (mem_iter_ops (db_user d)) sn (db_path d) (db_name d) (db_options d) (MemTable_NewIterator mem) meta
                (db_table_cache d) k of
           None \<Rightarrow> None
         | Some (s, meta, tc, k) \<Rightarrow>
             let d = d\<lparr>db_table_cache := tc, db_pending_outputs := filter (\<lambda>n. n \<noteq> fm_number meta) (db_pending_outputs d)\<rparr>;
                 keep = (status_ok s \<and> fm_file_size meta > 0)
             in (case (if keep then
                         (case base of
                            None \<Rightarrow> Some 0
                          | Some v \<Rightarrow> PickLevelForMemTableOutput (vs_cmp (db_versions d)) (file_at (db_versions d)) v
                                        (ExtractUserKey (fm_smallest meta)) (ExtractUserKey (fm_largest meta)))
                       else Some 0) of
                   None \<Rightarrow> None
                 | Some level \<Rightarrow>
                     let edit = (if keep then AddFile level (fm_number meta) (fm_file_size meta) (fm_smallest meta) (fm_largest meta) edit
                                 else edit);
                         stats = \<lparr>cs_micros = micros, cs_bytes_read = 0, cs_bytes_written = uint (fm_file_size meta)\<rparr>
                     in Some (s, edit, add_stats level stats d, k)))"

text \<open>\<open>LogAndApply\<close> with the manifest it creates, and the file it deletes after an error.\<close>

definition db_LogAndApply :: "version_edit \<Rightarrow> db \<Rightarrow> disk \<Rightarrow> status \<times> db \<times> disk" where
  "db_LogAndApply edit d k =
     (let (s, vs, deleted) = LogAndApply (posix_env k) edit (db_versions d);
          name = DescriptorFileName (db_path d) (db_name d) (vs_manifest_file_number (db_versions d));
          k = (if vs_descriptor_log (db_versions d) = None then snd (Posix_NewWritableFile name k) else k);
          k = fold (\<lambda>n k. snd (Posix_DeleteFile n k)) deleted k
      in (s, d\<lparr>db_versions := vs\<rparr>, k))"

definition db_DeleteObsoleteFiles :: "db \<Rightarrow> disk \<Rightarrow> db \<times> disk" where
  "db_DeleteObsoleteFiles d k =
     (let (deleted, d) = DeleteObsoleteFiles (snd (Posix_GetChildren k (db_path d) (db_name d))) d
      in (d, fold (\<lambda>n k. snd (Posix_DeleteFile n k)) deleted k))"

definition CompactMemTable :: "snappy \<Rightarrow> int \<Rightarrow> db \<Rightarrow> disk \<Rightarrow> (db \<times> disk) option" where
  "CompactMemTable sn micros d k =
     (let base = the (vs_current (db_versions d));
          d = d\<lparr>db_versions := Version_Ref base (db_versions d)\<rparr>
      in case WriteLevel0Table sn micros (the (db_imm d)) VersionEdit_new (Some (version_at (db_versions d) base)) d k of
           None \<Rightarrow> None
         | Some (s, edit, d, k) \<Rightarrow>
             let d = d\<lparr>db_versions := Version_Unref base (db_versions d)\<rparr>;
                 s = (if status_ok s \<and> db_shutting_down d then IOError ''Deleting DB during memtable compaction'' else s);
                 (s, d, k) = (if status_ok s
                              then db_LogAndApply (SetLogNumber (db_logfile_number d) (SetPrevLogNumber 0 edit)) d k
                              else (s, d, k))
             in Some (if status_ok s then db_DeleteObsoleteFiles (d\<lparr>db_imm := None\<rparr>) k
                      else (RecordBackgroundError s d, k)))"

end
