(* ===== verification/DbFlushProofs.thy ===== *)
theory DbFlushProofs
  imports DbFlush VersionGet
begin

text \<open>
  A memtable that is flushed in a new session is a stored table with exactly its entries.
\<close>

section \<open>The file of a builder\<close>

lemma wf_step_file:
  "wf_name (snd (wf_Append x f)) = wf_name f" "wf_name (snd (wf_Flush f)) = wf_name f"
  "wf_answers f = [] \<Longrightarrow> wf_answers (snd (wf_Append x f)) = []" "wf_answers f = [] \<Longrightarrow> wf_answers (snd (wf_Flush f)) = []"
  by (simp_all add: wf_Append_def wf_Flush_def Let_def split: prod.splits)

text \<open>A builder keeps the name of its file, and that no call on it fails.\<close>

definition same_file :: "writable_file \<Rightarrow> writable_file \<Rightarrow> bool" where
  "same_file f g \<longleftrightarrow> wf_name g = wf_name f \<and> (wf_answers f = [] \<longrightarrow> wf_answers g = [])"

lemma same_file_trans: "same_file f g \<Longrightarrow> same_file g h \<Longrightarrow> same_file f h"
  by (simp add: same_file_def)

lemma same_file_Append: "wf_Append x f = (s, g) \<Longrightarrow> same_file f g"
  using wf_step_file(1) [of x f] wf_step_file(3) [of f x] by (simp add: same_file_def)

lemma same_file_Flush: "wf_Flush f = (s, g) \<Longrightarrow> same_file f g"
  using wf_step_file(2) [of f] wf_step_file(4) [of f] by (simp add: same_file_def)

lemma WriteRawBlock_file: "WriteRawBlock c t r = (h, r') \<Longrightarrow> same_file (tb_file r) (tb_file r')"
  by (auto simp: WriteRawBlock_def Let_def split: prod.splits if_splits
      dest!: same_file_Append intro: same_file_trans)

lemma WriteBlock_file: "WriteBlock sn b r = (h, b', r') \<Longrightarrow> same_file (tb_file r) (tb_file r')"
  by (auto simp: WriteBlock_def Let_def split: prod.splits dest!: WriteRawBlock_file)

lemma Flush_file: "same_file (tb_file r) (tb_file (TableBuilder_Flush sn r))"
proof -
  have [simp]: "same_file f f" for f by (simp add: same_file_def)
  show ?thesis
    by (auto simp: TableBuilder_Flush_def Let_def split: prod.splits dest!: WriteBlock_file same_file_Flush intro: same_file_trans)
qed

lemma Add_file: "same_file (tb_file r) (tb_file (TableBuilder_Add sn k v r))"
proof -
  have [simp]: "same_file f f" for f by (simp add: same_file_def)
  have F: "tb_file r' = f \<Longrightarrow> same_file f (tb_file (TableBuilder_Flush sn r'))" for r' f using Flush_file by blast
  show ?thesis by (auto simp: TableBuilder_Add_def Let_def intro!: F)
qed

lemma Adds_file: "same_file (tb_file r) (tb_file (TableBuilder_Adds sn kvs r))"
proof (induction kvs arbitrary: r)
  case (Cons e kvs)
  have "same_file (tb_file (TableBuilder_Add sn (fst e) (snd e) r)) (tb_file (TableBuilder_Adds sn kvs (TableBuilder_Add sn (fst e) (snd e) r)))"
    by (rule Cons)
  then show ?case using Add_file [of r sn "fst e" "snd e"] same_file_trans by (auto simp: TableBuilder_Adds_def case_prod_beta)
qed (simp add: TableBuilder_Adds_def same_file_def)

lemma Finish_file_same:
  assumes "TableBuilder_Finish sn r = (s, r')"
  shows "same_file (tb_file r) (tb_file r')"
proof -
  have refl: "same_file f f" for f by (simp add: same_file_def)
  define r0 where "r0 = (TableBuilder_Flush sn r)\<lparr>tb_closed := True\<rparr>"
  have f0: "same_file (tb_file r) (tb_file r0)" using Flush_file by (simp add: r0_def)
  obtain fh r1 where s1: "(case tb_filter_block r0 of
      Some (policy, b) \<Rightarrow> if TableBuilder_ok r0 then WriteRawBlock (FilterBlock_Finish policy b) kNoCompression r0 else (BlockHandle_new, r0)
    | None \<Rightarrow> (BlockHandle_new, r0)) = (fh, r1)" by fastforce
  have f1: "same_file (tb_file r0) (tb_file r1)"
    using s1 refl by (auto split: option.splits if_splits dest!: WriteRawBlock_file)
  obtain mh r2 where s2: "(if TableBuilder_ok r1 then
         let meta = BlockBuilder_new (opt_block_restart_interval (tb_options r1));
             meta = (case opt_filter_policy (tb_options r1) of
                       Some policy \<Rightarrow>
                         if tb_filter_block r1 \<noteq> None
                         then BlockBuilder_Add (filter_meta_key policy) (BlockHandle_EncodeTo [] fh) meta
                         else meta
                     | None \<Rightarrow> meta);
             (h, meta, r) = WriteBlock sn meta r1
         in (h, r)
       else (BlockHandle_new, r1)) = (mh, r2)" by fastforce
  have f2: "same_file (tb_file r1) (tb_file r2)"
    using s2 refl by (auto simp: Let_def split: prod.splits if_splits dest!: WriteBlock_file)
  obtain ih r3 where s3: "(if TableBuilder_ok r2 then
         let r = (if tb_pending_index_entry r2 then
                    let last_key = FindShortSuccessor (opt_comparator (tb_options r2)) (tb_last_key r2)
                    in r2\<lparr>tb_last_key := last_key,
                         tb_index_block := BlockBuilder_Add last_key
                           (BlockHandle_EncodeTo [] (tb_pending_handle r2)) (tb_index_block r2),
                         tb_pending_index_entry := False\<rparr>
                  else r2);
             (h, block, r) = WriteBlock sn (tb_index_block r) r
         in (h, r\<lparr>tb_index_block := block\<rparr>)
       else (BlockHandle_new, r2)) = (ih, r3)" by fastforce
  have f3: "same_file (tb_file r2) (tb_file r3)"
    using s3 refl by (auto simp: Let_def split: prod.splits if_splits dest!: WriteBlock_file)
  have "same_file (tb_file r3) (tb_file r')"
    using assms refl unfolding TableBuilder_Finish_def Let_def r0_def [symmetric] s1 prod.case s2 [unfolded Let_def] s3 [unfolded Let_def]
    by (auto split: prod.splits if_splits dest!: same_file_Append)
  then show ?thesis using f0 f1 f2 f3 same_file_trans by blast
qed

section \<open>Flushing a memtable\<close>

text \<open>
  What a flush relies on: the options are those the database made from the user's, the entries fit a table
  file, and no call on that file fails.
\<close>

definition flush_fits :: "snappy \<Rightarrow> options \<Rightarrow> kv list \<Rightarrow> bool" where
  "flush_fits sn opt kvs \<longleftrightarrow> snappy_laws sn \<and> opt_comparator opt = InternalKeyComparator BytewiseComparator \<and>
     1 \<le> opt_block_restart_interval opt \<and>
     (\<exists>q. opt_filter_policy opt = map_option InternalFilterPolicy q \<and> filter_fits q (map fst kvs)) \<and>
     (case opt_filter_policy opt of None \<Rightarrow> True | Some p \<Rightarrow> length (fp_name p) < 2 ^ 31) \<and>
     2 * raw_size kvs + 8 < 2 ^ 32 \<and>
     (\<forall>kvss. concat kvss = kvs \<longrightarrow> (\<forall>b\<in>set kvss. b \<noteq> []) \<longrightarrow>
        length (table_bytes sn opt kvss (table_seps (opt_comparator opt) kvss)) < 2 ^ 32)"

definition disk_works :: "disk \<Rightarrow> string \<Rightarrow> bool" where
  "disk_works k fname \<longleftrightarrow> \<not> dk_denied k fname \<and> dk_io k fname = []"

lemma flush_fits_plain:
  assumes "opt_comparator opt = InternalKeyComparator BytewiseComparator" "1 \<le> opt_block_restart_interval opt"
    "opt_filter_policy opt = None" "4 * raw_size kvs + 100 < 2 ^ 32"
  shows "flush_fits port_snappy opt kvs"
proof -
  have "length (table_bytes port_snappy opt kvss (table_seps (opt_comparator opt) kvss)) < 2 ^ 32"
    if "concat kvss = kvs" "\<forall>b\<in>set kvss. b \<noteq> []" for kvss
    using table_bytes_small [OF assms(3) _ that(2), of port_snappy] internal_short assms(1,4) that(1) by fastforce
  then show ?thesis
    using assms port_snappy.snappy_laws_axioms by (auto simp: flush_fits_def filter_fits_def intro: exI [of _ None])
qed

text \<open>One entry has one order.\<close>

lemma kvs_sorted_single:
  assumes "kvs_sorted cmp kvs" "set kvs = {e}" "\<not> Compare cmp (fst e) (fst e) < 0"
  shows "kvs = [e]"
proof -
  obtain a xs where x: "kvs = a # xs" "a = e" using assms(2) by (cases kvs) auto
  have "xs = []" using assms x by (cases xs) (auto simp: kvs_sorted_def)
  then show ?thesis using x by simp
qed

lemma holds_entries_ok:
  assumes h: "memtable_holds BytewiseComparator short_key mem adds xs"
  shows "entries_ok BytewiseComparator (\<lambda>_. True) (map (mem_kv mem) xs)"
proof -
  note s = bytewise_short.holds_sorted [OF h]
  have "ParseInternalKey (fst (mem_kv mem n)) \<noteq> None" if n: "n \<in> set xs" for n
  proof -
    obtain a where a: "add_ok short_key a" "mem_kv mem n = add_kv a" using bytewise_short.holds_nodes [OF h n] by blast
    then show ?thesis by (cases a) simp
  qed
  moreover have "internal_ok (\<lambda>_. True) k" if "internal_ok short_key k" for k using that by (simp add: internal_ok_def)
  ultimately show ?thesis using s by (auto simp: entries_ok_def keys_ok_def)
qed

lemma built_from_entries:
  assumes fit: "flush_fits sn opt kvs" and e: "entries_ok BytewiseComparator (\<lambda>_. True) kvs"
    and f: "wf_data f = []" "wf_answers f = []"
    and fin: "TableBuilder_Finish sn (TableBuilder_Adds sn kvs (TableBuilder_new opt f)) = (s, r)"
  shows "s = OK \<and> same_file f (tb_file r) \<and> (\<exists>kvss. concat kvss = kvs \<and> (\<forall>b\<in>set kvss. b \<noteq> []) \<and> table_fits sn opt kvss \<and>
    wf_data (tb_file r) = table_bytes sn opt kvss (table_seps (opt_comparator opt) kvss) \<and>
    TableBuilder_FileSize r = word_of_nat (length (wf_data (tb_file r))) \<and> 0 < TableBuilder_FileSize r)"
proof -
  let ?cmp = "InternalKeyComparator BytewiseComparator"
  have i: "table_input ?cmp (internal_ok (\<lambda>_. True)) opt f kvs"
    using fit e f by (simp add: table_input_def flush_fits_def entries_ok_def)
  have i0: "tb_inv sn opt (TableBuilder_new opt f) [] [] []" using i by (intro TableBuilder_new_inv) (simp_all add: table_input_def)
  obtain kvss cur seps where tb: "tb_inv sn opt (TableBuilder_Adds sn kvs (TableBuilder_new opt f)) kvss cur seps"
    "concat kvss @ cur = kvs" using Adds_inv [OF i0, of kvs] by auto
  have l: "length (wf_data (tb_file r)) < 2 ^ 32"
    using Finish_file [OF tb(1)] tb(2) fin fit by (auto simp: flush_fits_def)
  obtain kvss where b: "s = OK" "concat kvss = kvs" "blocks_ok ?cmp (internal_ok (\<lambda>_. True)) kvss" "table_fits sn opt kvss"
    "wf_data (tb_file r) = table_bytes sn opt kvss (table_seps ?cmp kvss)"
    "TableBuilder_FileSize r = word_of_nat (length (wf_data (tb_file r)))"
    using built_table [OF i internal_short fin l] by blast
  have "kFooterEncodedLength \<le> length (wf_data (tb_file r))" unfolding b(5) by (simp add: table_bytes_def)
  moreover have "unat (word_of_nat (length (wf_data (tb_file r))) :: u64) = length (wf_data (tb_file r))"
    by (rule word_of_nat_less_iff_bound) (use l in simp)
  ultimately have "0 < TableBuilder_FileSize r" unfolding b(6) by (auto simp: word_less_nat_alt kFooterEncodedLength_def kBlockHandleMaxEncodedLength_def)
  moreover have "same_file f (tb_file r)"
    using same_file_trans [OF Adds_file Finish_file_same [OF fin]] by (simp add: TableBuilder_new_def)
  moreover have "opt_comparator opt = ?cmp" using fit by (simp add: flush_fits_def)
  ultimately show ?thesis using b by (auto simp: blocks_ok_def)
qed

text \<open>The iterator that \<open>BuildTable\<close> opens on the finished table.\<close>

lemma TableCache_NewIterator_stored:
  assumes ok: "table_cache_ok sn dbpath dbname opt kvss tc" and st: "stored_table sn files dbpath dbname opt kvss fsize"
  shows "\<exists>t h tc1 tc2. TableCache_NewIterator sn files ro n fsize tc = (t, Some h, tc1) \<and>
    it_status (table_iter_class sn (opt_comparator opt)) t = OK \<and> tc2 = tc1\<lparr>tc_cache := Cache_Release (fst h) (tc_cache tc1)\<rparr> \<and>
    table_cache_ok sn dbpath dbname opt kvss tc2"
proof -
  let ?P = "table_cached sn dbpath dbname opt kvss"
  obtain held bheld where tc: "tc_dbpath tc = dbpath" "tc_dbname tc = dbname" "tc_options tc = opt"
    and holds: "cache_holds ?P (tc_cache tc) held" and blocks: "blocks_cached sn opt kvss (tc_block_cache tc) bheld"
    using ok by (auto simp: table_cache_ok_def)
  obtain h tc1 cache_id where f: "FindTable sn files n fsize tc = (OK, Some h, tc1)"
    "Cache_Value h (tc_cache tc1) = opened_table sn opt opt kvss (TableFileName dbpath dbname FILENUMBER_LDB) cache_id"
    "tc_dbpath tc1 = dbpath" "tc_dbname tc1 = dbname" "tc_options tc1 = opt"
    "cache_holds ?P (tc_cache tc1) (add_mset h held)" "blocks_cached sn opt kvss (tc_block_cache tc1) bheld"
    using FindTable_stored [OF st tc holds blocks, of n] by blast
  have sn: "snappy_laws sn" "table_fits sn opt kvss" and c: "opt_comparator opt = InternalKeyComparator BytewiseComparator"
    and b: "blocks_ok (InternalKeyComparator BytewiseComparator) (internal_ok (\<lambda>_. True)) kvss"
    using st by (auto simp: stored_table_def Let_def entries_ok_def blocks_ok_def)
  let ?t = "Cache_Value h (tc_cache tc1)"
  note at = bytewise_user.internal.Table_NewIterator_at [OF sn c c b, of "TableFileName dbpath dbname FILENUMBER_LDB" cache_id ro, folded f(2)]
  note it = two_level.two_level_iterator [OF bytewise_user.internal.table_two_level [of sn ?t], folded table_iter_ops_def]
  have "it_status (table_iter_class sn (opt_comparator opt)) (Inr (Table_NewIterator ro ?t)) = OK"
    using iterator.status_at [OF it at] by (simp add: table_iter_class_def either_ops_def c)
  moreover have "cache_holds ?P (Cache_Release h (tc_cache tc1)) held" using Cache_Release_holds(1) [OF f(6), of h] by simp
  then have "table_cache_ok sn dbpath dbname opt kvss (tc1\<lparr>tc_cache := Cache_Release h (tc_cache tc1)\<rparr>)"
    using f(3-5,7) by (auto simp: table_cache_ok_def)
  ultimately show ?thesis using f(1) by (auto simp: TableCache_NewIterator_def Let_def)
qed

definition fresh_blocks :: "block_cache \<Rightarrow> bool" where
  "fresh_blocks blocks \<longleftrightarrow> (case blocks of None \<Rightarrow> True | Some c \<Rightarrow> \<exists>n. c = NewLRUCache n)"

lemma fresh_blocks_cached: "fresh_blocks blocks \<Longrightarrow> blocks_cached sn opt kvss blocks {#}"
  by (cases blocks) (auto simp: fresh_blocks_def NewLRUCache_holds)

lemma BuildTable_stores:
  assumes h: "memtable_holds BytewiseComparator short_key mem adds xs" and ne: "adds \<noteq> []"
    and fit: "flush_fits sn opt (map (mem_kv mem) xs)" and k: "disk_works k (TableFileName dbpath dbname FILENUMBER_LDB)"
    and tc: "tc = TableCache_new dbpath dbname opt entries blocks" "fresh_blocks blocks"
  shows "\<exists>meta' tc' k' kvss. BuildTable (mem_iter_ops BytewiseComparator) sn dbpath dbname opt (MemTable_NewIterator mem) meta tc k =
      Some (OK, meta', tc', k') \<and> concat kvss = map (mem_kv mem) xs \<and>
    stored_table sn (Posix_NewRandomAccessFile k') dbpath dbname opt kvss (fm_file_size meta') \<and>
    table_cache_ok sn dbpath dbname opt kvss tc' \<and> 0 < fm_file_size meta' \<and> fm_number meta' = fm_number meta \<and>
    fm_smallest meta' = fst (mem_kv mem (hd xs)) \<and> fm_largest meta' = fst (mem_kv mem (last xs)) \<and>
    (\<forall>n. n \<noteq> TableFileName dbpath dbname FILENUMBER_LDB \<longrightarrow> disk_file k' n = disk_file k n)"
proof -
  let ?ops = "mem_iter_ops BytewiseComparator" and ?kvs = "map (mem_kv mem) xs" and ?at = "mem_at BytewiseComparator short_key"
  let ?fname = "TableFileName dbpath dbname FILENUMBER_LDB"
  note e = holds_entries_ok [OF h]
  have xs: "xs \<noteq> []" using bytewise_short.holds_entries [OF h] ne by auto
  obtain it where it: "it_SeekToFirst ?ops (MemTable_NewIterator mem) = Some it" "?at it ?kvs 0"
    using memtable_iter.SeekToFirst_at [OF bytewise_short.NewIterator_at [OF h]] by blast
  have v: "it_Valid ?ops it" "it_key ?ops it = fst (mem_kv mem (hd xs))"
    using memtable_iter.Valid_at [OF it(2)] memtable_iter.key_at [OF it(2)] xs by (simp_all add: hd_conv_nth)
  let ?f = "\<lparr>wf_name = ?fname, wf_data = [], wf_answers = []\<rparr>"
  define k1 where "k1 = disk_put ?fname [] k"
  have nw: "Posix_NewWritableFile ?fname k = (Inr ?f, k1)" using k by (simp add: Posix_NewWritableFile_def disk_works_def k1_def)
  have lp: "\<exists>it'. BuildTable_loop ?ops sn it l (TableBuilder_new opt ?f) =
      Some (it', fst (mem_kv mem (last xs)), TableBuilder_Adds sn ?kvs (TableBuilder_new opt ?f)) \<and> ?at it' ?kvs (length ?kvs)" for l
    using iterator.BuildTable_loop_at [OF memtable_iter.iterator_axioms it(2), of sn l "TableBuilder_new opt ?f"] xs by (auto simp: last_map)
  obtain s r where fin: "TableBuilder_Finish sn (TableBuilder_Adds sn ?kvs (TableBuilder_new opt ?f)) = (s, r)" by fastforce
  obtain kvss where b: "s = OK" "same_file ?f (tb_file r)" "concat kvss = ?kvs" "\<forall>b\<in>set kvss. b \<noteq> []" "table_fits sn opt kvss"
    "wf_data (tb_file r) = table_bytes sn opt kvss (table_seps (opt_comparator opt) kvss)"
    "TableBuilder_FileSize r = word_of_nat (length (wf_data (tb_file r)))" "0 < TableBuilder_FileSize r"
    using built_from_entries [OF fit e _ _ fin] by auto
  have named: "wf_name (tb_file r) = ?fname" "wf_answers (tb_file r) = []" using b(2) by (simp_all add: same_file_def)
  define data where "data = wf_data (tb_file r)"
  define k2 where "k2 = disk_put ?fname data k1"
  have sync: "wf_Sync (tb_file r) = (OK, tb_file r)"
    using named(2) by (cases "tb_file r") (simp add: wf_Sync_def wf_Flush_def Let_def)
  have close: "wf_Close (tb_file r) k1 = (OK, k2)" using named by (simp add: wf_Close_def k2_def data_def)
  have opener: "Posix_NewRandomAccessFile k2 ?fname = Inr (plain_file ?fname data)"
    using k by (simp add: Posix_NewRandomAccessFile_def k2_def k1_def disk_works_def)
  have st: "stored_table sn (Posix_NewRandomAccessFile k2) dbpath dbname opt kvss (TableBuilder_FileSize r)"
    using fit b(3-7) e opener by (simp add: stored_table_def Let_def flush_fits_def data_def)
  have tok: "table_cache_ok sn dbpath dbname opt kvss tc" unfolding tc(1) by (rule TableCache_new_ok [OF fresh_blocks_cached [OF tc(2)]])
  obtain t h tc1 tc2 where ni:
    "TableCache_NewIterator sn (Posix_NewRandomAccessFile k2) ReadOptions_default (fm_number meta) (TableBuilder_FileSize r) tc = (t, Some h, tc1)"
    "it_status (table_iter_class sn (opt_comparator opt)) t = OK" "tc2 = tc1\<lparr>tc_cache := Cache_Release (fst h) (tc_cache tc1)\<rparr>"
    "table_cache_ok sn dbpath dbname opt kvss tc2"
    using TableCache_NewIterator_stored [OF tok st, of ReadOptions_default "fm_number meta"] by blast
  define meta' where "meta' = meta\<lparr>fm_file_size := TableBuilder_FileSize r, fm_smallest := fst (mem_kv mem (hd xs)),
      fm_largest := fst (mem_kv mem (last xs))\<rparr>"
  obtain it' where wt: "write_table ?ops sn opt it ?f (meta\<lparr>fm_file_size := 0\<rparr>) tc k1 = Some (OK, it', meta', tc2, k2)" "?at it' ?kvs (length ?kvs)"
  proof -
    obtain it' where l: "BuildTable_loop ?ops sn it (fm_largest meta) (TableBuilder_new opt ?f) =
      Some (it', fst (mem_kv mem (last xs)), TableBuilder_Adds sn ?kvs (TableBuilder_new opt ?f))" "?at it' ?kvs (length ?kvs)"
      using lp [of "fm_largest meta"] by blast
    obtain h1 h2 where hh: "h = (h1, h2)" by fastforce
    have "write_table ?ops sn opt it ?f (meta\<lparr>fm_file_size := 0\<rparr>) tc k1 = Some (OK, it', meta', tc2, k2)"
      using l(1) fin b(1) sync close ni v(2)
      by (simp add: write_table_def meta'_def hh)
    then show ?thesis using that l(2) by blast
  qed
  have "it_status ?ops it' = OK" by (rule memtable_iter.status_at [OF wt(2)])
  then have "BuildTable ?ops sn dbpath dbname opt (MemTable_NewIterator mem) meta tc k = Some (OK, meta', tc2, k2)"
    using it(1) v(1) nw wt(1) b(8) by (simp add: BuildTable_def Let_def meta'_def)
  then show ?thesis using st ni(4) b(3,8) by (auto simp: meta'_def k2_def k1_def)
qed

end
