(* ===== verification/DbOpen.thy ===== *)
theory DbOpen
  imports DbFlush LogRecovery "HOL-Library.List_Lexorder"
begin

text \<open>
  Opening a database (\<open>db/db_impl.cpp\<close>): \<open>NewDB\<close>, the recovery of the logs, \<open>Recover\<close>, \<open>DB::Open\<close>, the
  destructor's effects on the files, and \<open>DestroyDB\<close>. The file system is part of the state. The outer
  option is the one of memtable insertions and table building.
\<close>

section \<open>A new database\<close>

definition NewDB :: "db \<Rightarrow> disk \<Rightarrow> status \<times> disk" where
  "NewDB d k =
     (let new_db = SetLastSequence 0 (SetNextFile 2 (SetLogNumber 0
            (SetComparatorName (map of_char (cmp_Name (db_user d))) VersionEdit_new)));
          manifest = DescriptorFileName (db_path d) (db_name d) 1
      in case Posix_NewWritableFile manifest k of
           (Inl s, k) \<Rightarrow> (s, k)
         | (Inr file, k) \<Rightarrow>
             let (s, log) = AddRecord (VersionEdit_EncodeTo [] new_db) (Writer_new file);
                 (s, k) = (if status_ok s then wf_Close (lw_dest log) k else (s, wf_release (lw_dest log) k))
             in if status_ok s then (SetCurrentFile (db_path d) (db_name d) 1, k)
                else (s, snd (Posix_DeleteFile manifest k)))"

section \<open>Recovering a log\<close>

text \<open>What \<open>RecoverLogFile\<close> keeps while it reads: its variables, the database and the file system.\<close>

record log_recovery =
  rl_status :: status
  rl_mem :: "memtable option"
  rl_compactions :: nat
  rl_save_manifest :: bool
  rl_edit :: version_edit
  rl_max_sequence :: SequenceNumber
  rl_db :: db
  rl_disk :: disk

text \<open>A memtable that is not kept goes to a table of level 0.\<close>

definition flush_recovered :: "snappy \<Rightarrow> int \<Rightarrow> memtable \<Rightarrow> log_recovery \<Rightarrow> log_recovery option" where
  "flush_recovered sn micros mem st =
     (case WriteLevel0Table sn micros mem (rl_edit st) None (rl_db st) (rl_disk st) of
        None \<Rightarrow> None
      | Some (s, edit, d, k) \<Rightarrow>
          Some (st\<lparr>rl_status := s, rl_mem := None, rl_save_manifest := True, rl_edit := edit, rl_db := d, rl_disk := k\<rparr>))"

text \<open>One record that is long enough; the flag tells that the loop is left.\<close>

definition recover_batch :: "snappy \<Rightarrow> int \<Rightarrow> bytes \<Rightarrow> log_recovery \<Rightarrow> (bool \<times> log_recovery) option" where
  "recover_batch sn micros rec st =
     (let batch = WriteBatch_SetContents rec;
          mem = (case rl_mem st of None \<Rightarrow> MemTable_Ref MemTable_new | Some m \<Rightarrow> m);
          (s, mem) = WriteBatch_InsertInto (db_user (rl_db st)) batch mem;
          s = MaybeIgnoreError (rl_db st) s
      in case mem of
           None \<Rightarrow> None
         | Some mem \<Rightarrow>
             let st = st\<lparr>rl_status := s, rl_mem := Some mem\<rparr>
             in if \<not> status_ok s then Some (True, st)
                else
                  let last_seq = WriteBatch_Sequence batch + word_of_int (WriteBatch_Count batch) - 1;
                      st = (if last_seq > rl_max_sequence st then st\<lparr>rl_max_sequence := last_seq\<rparr> else st)
                  in if ApproximateMemoryUsage mem > opt_write_buffer_size (db_options (rl_db st))
                     then map_option (\<lambda>st. (\<not> status_ok (rl_status st), st))
                            (flush_recovered sn micros mem (st\<lparr>rl_compactions := rl_compactions st + 1\<rparr>))
                     else Some (False, st))"

text \<open>The reporter sets the status only with \<open>paranoid_checks\<close>.\<close>

definition recovery_report :: "status \<Rightarrow> log_recovery \<Rightarrow> log_recovery" where
  "recovery_report e st =
     (if opt_paranoid_checks (db_options (rl_db st)) \<and> status_ok (rl_status st) then st\<lparr>rl_status := e\<rparr> else st)"

function recover_log_loop :: "snappy \<Rightarrow> int \<Rightarrow> log_reader \<Rightarrow> log_recovery \<Rightarrow> log_recovery option" where
  "recover_log_loop sn micros r st =
     (let (ok, rec, r') = ReadRecord r;
          st = recovery_report (reported r r' (rl_status st)) st
      in if ok \<and> status_ok (rl_status st) then
           if length rec < 12
           then recover_log_loop sn micros r' (recovery_report (Corruption ''log record too small'') st)
           else (case recover_batch sn micros rec st of
                   None \<Rightarrow> None
                 | Some (stop, st) \<Rightarrow> if stop then Some st else recover_log_loop sn micros r' st)
         else Some st)"
  by pat_completeness auto
termination
  by (relation "measure (\<lambda>(sn, micros, r, st). reader_size r)") (auto dest!: ReadRecord_size [OF sym])

declare recover_log_loop.simps [simp del]

text \<open>After the loop, the last log may go on being used.\<close>

definition reuse_log :: "string \<Rightarrow> bool \<Rightarrow> log_recovery \<Rightarrow> log_recovery" where
  "reuse_log fname last_log st =
     (let d = rl_db st in
      if status_ok (rl_status st) \<and> opt_reuse_logs (db_options d) \<and> last_log \<and> rl_compactions st = 0 then
        (case Posix_GetFileSize (rl_disk st) fname of
           None \<Rightarrow> st
         | Some lfile_size \<Rightarrow>
             (case Posix_NewAppendableFile fname (rl_disk st) of
                (Inl s, k) \<Rightarrow> st\<lparr>rl_disk := k\<rparr>
              | (Inr f, k) \<Rightarrow>
                  let mem = (case rl_mem st of None \<Rightarrow> MemTable_Ref MemTable_new | Some m \<Rightarrow> m)
                  in st\<lparr>rl_mem := None, rl_disk := k,
                        rl_db := d\<lparr>db_log := Some (Writer_new_at f lfile_size), db_logfile_number := 1, db_mem := Some mem\<rparr>\<rparr>))
      else st)"

definition RecoverLogFile ::
  "snappy \<Rightarrow> int \<Rightarrow> string \<Rightarrow> bool \<Rightarrow> bool \<Rightarrow> version_edit \<Rightarrow> SequenceNumber \<Rightarrow> db \<Rightarrow> disk \<Rightarrow> log_recovery option" where
  "RecoverLogFile sn micros log_name last_log save edit max_sequence d k =
     (let fname = db_path d @ ''/'' @ log_name;
          st = \<lparr>rl_status = OK, rl_mem = None, rl_compactions = 0, rl_save_manifest = save, rl_edit = edit,
                rl_max_sequence = max_sequence, rl_db = d, rl_disk = k\<rparr>
      in case Posix_NewSequentialFile k fname of
           Inl s \<Rightarrow> Some (st\<lparr>rl_status := MaybeIgnoreError d s\<rparr>)
         | Inr file \<Rightarrow>
             (case recover_log_loop sn micros (Reader_new file True 0) st of
                None \<Rightarrow> None
              | Some st \<Rightarrow>
                  let st = reuse_log fname last_log st
                  in case rl_mem st of
                       None \<Rightarrow> Some st
                     | Some mem \<Rightarrow>
                         if status_ok (rl_status st) then flush_recovered sn micros mem st
                         else Some (st\<lparr>rl_mem := None\<rparr>)))"

section \<open>\<open>Recover\<close>\<close>

definition FILENUMBER_MANIFEST :: u64 where "FILENUMBER_MANIFEST = 1"

text \<open>The logs to recover and the numbers still expected, from the names in the directory.\<close>

definition scan_name :: "u64 \<Rightarrow> u64 \<Rightarrow> string \<Rightarrow> u64 list \<times> string list \<Rightarrow> u64 list \<times> string list" where
  "scan_name min_log prev_log name acc =
     (case acc of (expected, logs) \<Rightarrow>
        case ParseFileName name of
          None \<Rightarrow> (expected, logs)
        | Some (number, type) \<Rightarrow>
            (filter (\<lambda>n. n \<noteq> number) expected,
             if type = kLogFile \<and> (number \<ge> min_log \<or> number = prev_log) then logs @ [name] else logs))"

fun recover_logs :: "snappy \<Rightarrow> int \<Rightarrow> string list \<Rightarrow> log_recovery \<Rightarrow> log_recovery option" where
  "recover_logs sn micros [] st = Some st"
| "recover_logs sn micros (name # names) st =
     (case RecoverLogFile sn micros name (names = []) (rl_save_manifest st) (rl_edit st) (rl_max_sequence st) (rl_db st) (rl_disk st) of
        None \<Rightarrow> None
      | Some st \<Rightarrow>
          if \<not> status_ok (rl_status st) then Some st
          else
            let d = rl_db st
            in recover_logs sn micros names (st\<lparr>rl_db := d\<lparr>db_versions := MarkFileNumberUsed 1 (db_versions d)\<rparr>\<rparr>))"

text \<open>The existence of the manifest tells whether there is a database.\<close>

definition find_or_make_db :: "db \<Rightarrow> disk \<Rightarrow> status \<times> disk" where
  "find_or_make_db d k =
     (if \<not> Posix_FileExists k (DescriptorFileName (db_path d) (db_name d) 1) then
        (if opt_create_if_missing (db_options d) then NewDB d k
         else (InvalidArgument (status_msg (db_path d) ''does not exist (create_if_missing is false)''), k))
      else if opt_error_if_exists (db_options d)
      then (InvalidArgument (status_msg (db_path d) ''exists (error_if_exists is true)''), k)
      else (OK, k))"

definition Recover :: "snappy \<Rightarrow> int \<Rightarrow> version_edit \<Rightarrow> bool \<Rightarrow> db \<Rightarrow> disk \<Rightarrow> log_recovery option" where
  "Recover sn micros edit save d k =
     (let fail = (\<lambda>s save d k. Some \<lparr>rl_status = s, rl_mem = None, rl_compactions = 0, rl_save_manifest = save, rl_edit = edit,
                    rl_max_sequence = 0, rl_db = d, rl_disk = k\<rparr>);
          (s, lock, k) = Posix_LockFile (LockFileName (db_path d) (db_name d)) k;
          d = d\<lparr>db_lock := lock\<rparr>
      in if \<not> status_ok s then fail s save d k
         else
           let (s, k) = find_or_make_db d k
           in if \<not> status_ok s then fail s save d k
              else
                let (s, save', vs) = VersionSet_Recover (posix_env k) (db_versions d);
                    save = (save \<or> save'); d = d\<lparr>db_versions := vs\<rparr>
                in if \<not> status_ok s then fail s save d k
                   else
                     let (s, names) = Posix_GetChildren k (db_path d) (db_name d)
                     in if \<not> status_ok s then fail s save d k
                        else
                          let (expected, logs) = fold (scan_name (vs_log_number vs) (vs_prev_log_number vs)) names
                                ([FILENUMBER_LDB, FILENUMBER_MANIFEST], [])
                          in if expected \<noteq> []
                             then fail (Corruption (status_msg (show_nat (length expected) @ '' missing files; e.g.'')
                                          (TableFileName (db_path d) (db_name d) FILENUMBER_LDB))) save d k
                             else
                               (case recover_logs sn micros (sort_key (map char_code) logs)
                                  \<lparr>rl_status = OK, rl_mem = None, rl_compactions = 0, rl_save_manifest = save, rl_edit = edit,
                                   rl_max_sequence = 0, rl_db = d, rl_disk = k\<rparr> of
                                  None \<Rightarrow> None
                                | Some st \<Rightarrow>
                                    let d = rl_db st
                                    in Some (if status_ok (rl_status st) \<and> vs_last_sequence (db_versions d) < rl_max_sequence st
                                             then st\<lparr>rl_db := d\<lparr>db_versions :=
                                                    VersionSet_SetLastSequence (rl_max_sequence st) (db_versions d)\<rparr>\<rparr>
                                             else st)))"

section \<open>Opening and closing\<close>

text \<open>The info log that \<open>SanitizeOptions\<close> makes when the options have none.\<close>

definition open_info_log :: "options \<Rightarrow> string \<Rightarrow> string \<Rightarrow> disk \<Rightarrow> disk" where
  "open_info_log raw dbpath dbname k =
     (let name = InfoLogFileName dbpath dbname; k = snd (Posix_DeleteFile name k)
      in if opt_read_only raw then k else snd (Posix_NewWritableFile name k))"

text \<open>The destructor: a read-only database removes the lock and info log files; open files are closed.\<close>

definition DBImpl_delete :: "db \<Rightarrow> disk \<Rightarrow> disk" where
  "DBImpl_delete d k =
     (let names = snd (Posix_GetChildren k (db_path d) (db_name d));
          k = (if opt_read_only (db_options d)
               then fold (\<lambda>name k. case ParseFileName name of
                       Some (number, type) \<Rightarrow>
                         if type = kInfoLogFile \<or> type = kDBLockFile then snd (Posix_DeleteFile (db_path d @ ''/'' @ name) k) else k
                     | None \<Rightarrow> k) names k
               else k);
          k = (case db_lock d of None \<Rightarrow> k | Some l \<Rightarrow> snd (Posix_UnlockFile l k));
          k = (case vs_descriptor_log (db_versions d) of None \<Rightarrow> k | Some l \<Rightarrow> wf_release (lw_dest l) k)
      in case db_log d of None \<Rightarrow> k | Some l \<Rightarrow> wf_release (lw_dest l) k)"

text \<open>A new log and memtable, when no log is reused.\<close>

definition open_new_log :: "options \<Rightarrow> version_edit \<Rightarrow> db \<Rightarrow> disk \<Rightarrow> status \<times> version_edit \<times> db \<times> disk" where
  "open_new_log raw edit d k =
     (let (new_log_number, vs) = NewFileNumber (db_versions d); d = d\<lparr>db_versions := vs\<rparr>;
          (s, log, k) =
            (if \<not> opt_read_only raw then
               (case Posix_NewWritableFile (LogFileName (db_path d) (db_name d) new_log_number) k of
                  (Inl s, k) \<Rightarrow> (s, None, k)
                | (Inr f, k) \<Rightarrow> (OK, Some (Writer_new f), k))
             else (OK, None, k))
      in if status_ok s
         then (s, SetLogNumber new_log_number edit,
               d\<lparr>db_logfile_number := new_log_number, db_log := log, db_mem := Some (MemTable_Ref MemTable_new)\<rparr>, k)
         else (s, edit, d, k))"

definition DB_Open ::
  "snappy \<Rightarrow> int \<Rightarrow> options \<Rightarrow> block_cache \<Rightarrow> string \<Rightarrow> string \<Rightarrow> disk \<Rightarrow> (status \<times> db option \<times> disk) option" where
  "DB_Open sn micros raw cache dbpath dbname k =
     (if opt_read_only raw \<and> opt_write_only raw
      then Some (InvalidArgument ''can not read_only mode both write_only mode'', None, k)
      else
        case Recover sn micros VersionEdit_new False (DBImpl_new raw cache dbpath dbname) (open_info_log raw dbpath dbname k) of
          None \<Rightarrow> None
        | Some st \<Rightarrow>
            let (s, edit, d, k) =
                  (if status_ok (rl_status st) \<and> db_mem (rl_db st) = None
                   then open_new_log raw (rl_edit st) (rl_db st) (rl_disk st)
                   else (rl_status st, rl_edit st, rl_db st, rl_disk st));
                (s, d, k) =
                  (if status_ok s \<and> rl_save_manifest st
                   then db_LogAndApply (SetLogNumber (db_logfile_number d) (SetPrevLogNumber 0 edit)) d k
                   else (s, d, k))
            in Some (if status_ok s
                     then let (d, k) = db_DeleteObsoleteFiles d k in (s, Some (MaybeScheduleCompaction d), k)
                     else (s, None, DBImpl_delete d k)))"

text \<open>\<open>DestroyDB\<close>: the files are looked for in \<open>dbpath\<close> and deleted from the directory \<open>dbname\<close>.\<close>

definition DestroyDB :: "string \<Rightarrow> string \<Rightarrow> disk \<Rightarrow> status \<times> disk" where
  "DestroyDB dbpath dbname k =
     (let names = snd (Posix_GetChildren k dbpath dbname)
      in if names = [] then (OK, k)
         else
           let lockname = LockFileName dbpath dbname; (result, lock, k) = Posix_LockFile lockname k
           in if status_ok result then
                let (result, k) =
                      fold (\<lambda>name (result, k). case ParseFileName name of
                          Some (number, type) \<Rightarrow>
                            if type \<noteq> kDBLockFile
                            then (let (del, k) = Posix_DeleteFile (dbname @ ''/'' @ name) k
                                  in (if status_ok result \<and> \<not> status_ok del then del else result, k))
                            else (result, k)
                        | None \<Rightarrow> (result, k)) names (result, k);
                    k = snd (Posix_UnlockFile lockname k);
                    k = snd (Posix_DeleteFile lockname k)
                in (result, k)
              else (result, k))"

end
