(* ===== verification/LogReads.thy ===== *)
theory LogReads
  imports LogRecovery
begin

text \<open>
  The reader of a log one record at a time, for clients that act on each record: a run of reads that all
  succeed without a report, up to the place where a log was cut off.
\<close>

fun reads :: "log_reader \<Rightarrow> bytes list \<Rightarrow> log_reader \<Rightarrow> bool" where
  "reads r [] r' \<longleftrightarrow> r' = r"
| "reads r (x # xs) r' \<longleftrightarrow> (\<exists>r1. ReadRecord r = (True, x, r1) \<and> lr_reports r1 = lr_reports r \<and> reads r1 xs r')"

lemma reads_reports: "reads r xs r' \<Longrightarrow> lr_reports r' = lr_reports r"
  by (induction r xs r' rule: reads.induct) auto

lemma reads_complete:
  assumes "writer_synced w" "reader_view (wf_data (lw_dest (AddRecords xs w)) @ R) (length (wf_data (lw_dest w))) e r"
  shows "\<exists>r' e'. reads r xs r' \<and>
     reader_view (wf_data (lw_dest (AddRecords xs w)) @ R) (length (wf_data (lw_dest (AddRecords xs w)))) e' r'"
  using assms
proof (induction xs w arbitrary: e r rule: AddRecords.induct)
  case (1 w)
  then show ?case by auto
next
  case (2 x xs w)
  define w1 where "w1 = snd (AddRecord x w)"
  have s1: "writer_synced w1" using AddRecord_appends [OF 2(2)] by (simp add: w1_def)
  obtain ext where ext: "wf_data (lw_dest (AddRecords xs w1)) = wf_data (lw_dest w1) @ ext"
    using AddRecords_appends [OF s1] by blast
  have add: "AddRecord_loop True x w = (OK, w1)"
    using AddRecord_appends [OF 2(2)] by (simp add: w1_def AddRecord_def prod_eq_iff)
  have "reader_view (wf_data (lw_dest w1) @ ext @ R) (length (wf_data (lw_dest w))) e r"
    using 2(3) ext by (simp add: w1_def)
  from read_record_complete [OF 2(2) add this, of "[]" 0 "[]"]
  obtain r1 e1 where r1: "ReadRecord_loop [] False 0 [] r = (True, x, r1)"
    "reader_view (wf_data (lw_dest w1) @ ext @ R) (length (wf_data (lw_dest w1))) e1 r1"
    "lr_reports r1 = lr_reports r" by auto
  have "lr_initial_offset r = 0" using 2(3) by (simp add: reader_view_def)
  then have "ReadRecord r = (True, x, r1)" using r1(1) by (simp add: ReadRecord_offset0)
  moreover have "reader_view (wf_data (lw_dest (AddRecords xs w1)) @ R) (length (wf_data (lw_dest w1))) e1 r1"
    using r1(2) ext by simp
  then obtain r' e' where "reads r1 xs r'"
    "reader_view (wf_data (lw_dest (AddRecords xs w1)) @ R) (length (wf_data (lw_dest (AddRecords xs w1)))) e' r'"
    using 2(1) [folded w1_def, OF s1] by blast
  ultimately show ?case using r1(3) by (auto simp: w1_def [symmetric])
qed

text \<open>Which records of a log that is cut off after \<open>m\<close> bytes are complete.\<close>

definition complete_upto :: "bytes list \<Rightarrow> nat \<Rightarrow> nat \<Rightarrow> bool" where
  "complete_upto xs m j \<longleftrightarrow> j \<le> length xs \<and> length (log_file (take j xs)) \<le> m \<and>
     (j < length xs \<longrightarrow> m < length (log_file (take (Suc j) xs)))"

lemma log_reads_cut:
  assumes "length (log_file xs) \<le> m" "m < length (log_file (xs @ [x]))"
  shows "\<exists>r' r2. reads (Reader_new \<lparr>sf_name = n, sf_data = take m (log_file (xs @ x # ys)), sf_answers = []\<rparr> True 0) xs r' \<and>
    ReadRecord r' = (False, [], r2) \<and> lr_reports r2 = lr_reports r'"
proof -
  let ?w0 = "Writer_new \<lparr>wf_name = ''log'', wf_data = [], wf_answers = []\<rparr>"
  let ?r0 = "\<lambda>T. Reader_new \<lparr>sf_name = n, sf_data = T, sf_answers = []\<rparr> True 0"
  define w where "w = AddRecords xs ?w0"
  define w1 where "w1 = snd (AddRecord x w)"
  have s: "writer_synced w" using AddRecords_appends [OF writer_synced_new] by (simp add: w_def)
  have lf: "log_file xs = wf_data (lw_dest w)" "log_file (xs @ [x]) = wf_data (lw_dest w1)"
    by (simp_all add: log_file_def w_def w1_def AddRecords_append)
  obtain e1 where "log_file ((xs @ [x]) @ ys) = log_file (xs @ [x]) @ e1" using log_file_append by blast
  then have T: "take m (log_file (xs @ x # ys)) = take m (wf_data (lw_dest w1))" using assms(2) lf(2) by simp
  define T where "T = take m (wf_data (lw_dest w1))"
  obtain e2 where "wf_data (lw_dest w1) = wf_data (lw_dest w) @ e2"
    using AddRecord_appends(3) [OF s, of x] by (auto simp: w1_def)
  then have T2: "T = wf_data (lw_dest w) @ take (m - length (wf_data (lw_dest w))) e2" using assms(1) lf(1) by (simp add: T_def)
  have "length (wf_data (lw_dest ?w0)) = 0" by (simp add: Writer_new_def)
  from reads_complete [OF writer_synced_new [of "''log''"], of xs, folded w_def,
      of "take (m - length (wf_data (lw_dest w))) e2", folded T2, unfolded this, OF reader_view_new [where n = n]]
  obtain r' e' where r': "reads (?r0 T) xs r'" "reader_view T (length (wf_data (lw_dest w))) e' r'" by blast
  have "AddRecord_loop True x w = (OK, w1)"
    using AddRecord_appends [OF s] by (simp add: w1_def AddRecord_def prod_eq_iff)
  from read_record_truncated [OF s this T_def _ _ r'(2), of "[]" 0 "[]"] assms lf
  obtain r2 where r2: "ReadRecord_loop [] False 0 [] r' = (False, [], r2)" "lr_reports r2 = lr_reports r'" by auto
  have "lr_initial_offset r' = 0" using r'(2) by (simp add: reader_view_def)
  then show ?thesis using r'(1) r2 unfolding T T_def [symmetric] by (auto simp: ReadRecord_offset0)
qed

lemma log_reads_upto:
  assumes "complete_upto xs m j"
  shows "\<exists>r' r2. reads (Reader_new \<lparr>sf_name = n, sf_data = take m (log_file xs), sf_answers = []\<rparr> True 0) (take j xs) r' \<and>
    ReadRecord r' = (False, [], r2) \<and> lr_reports r2 = lr_reports r'"
proof (cases "j < length xs")
  case True
  then have "xs = take j xs @ xs ! j # drop (Suc j) xs" "take (Suc j) xs = take j xs @ [xs ! j]"
    by (simp_all add: id_take_nth_drop [symmetric] take_Suc_conv_app_nth)
  then show ?thesis using log_reads_cut [of "take j xs" m "xs ! j" n "drop (Suc j) xs"] assms True by (simp add: complete_upto_def)
next
  case False
  then have j: "take j xs = xs" "length (log_file xs) \<le> m" using assms by (auto simp: complete_upto_def)
  obtain e1 where e1: "log_file (xs @ [[]]) = log_file xs @ e1" using log_file_append by blast
  have "length (log_file xs) < length (log_file (xs @ [[]]))"
  proof -
    have "writer_synced (AddRecords xs (Writer_new \<lparr>wf_name = ''log'', wf_data = [], wf_answers = []\<rparr>))"
      using AddRecords_appends [OF writer_synced_new] by blast
    from AddRecord_appends(3) [OF this, of "[]"] show ?thesis by (auto simp: log_file_def AddRecords_append)
  qed
  then show ?thesis using log_reads_cut [of xs "length (log_file xs)" "[]" n "[]"] e1 j by simp
qed

end
