(* ===== verification/DbRecoverProofs.thy ===== *)
theory DbRecoverProofs
  imports DbOpen LogReads DbWriteProofs DbFlushProofs
begin

text \<open>
  Crash recovery: a log that was cut off anywhere is recovered into a table with the operations of exactly
  the batches that were completely written before the cut.
\<close>

section \<open>One batch\<close>

lemma holds_Ref: "memtable_holds cmp ok (MemTable_Ref m) adds xs \<longleftrightarrow> memtable_holds cmp ok m adds xs"
  by (simp add: memtable_holds_def MemTable_Ref_def)

lemma MemTable_Adds_append:
  "MemTable_Adds user (a @ b) m = Option.bind (MemTable_Adds user a m) (MemTable_Adds user b)"
proof (induction a arbitrary: m)
  case (Cons x a)
  obtain s t k v where x: "x = (s, t, k, v)" by (metis prod_cases4)
  show ?case using Cons by (auto simp: x split: option.split)
qed simp

definition batch_last :: "commit \<Rightarrow> SequenceNumber" where
  "batch_last c = fst c + word_of_nat (length (snd c)) - 1"

definition commits_last :: "commit list \<Rightarrow> SequenceNumber \<Rightarrow> SequenceNumber" where
  "commits_last cs q = fold (\<lambda>c m. if batch_last c > m then batch_last c else m) cs q"

definition replayed :: "commit list \<Rightarrow> memtable option" where
  "replayed cs = MemTable_Adds BytewiseComparator (commit_adds cs) (MemTable_Ref MemTable_new)"

lemma replayed_snoc: "replayed (cs @ [(q, ops)]) = Option.bind (replayed cs) (MemTable_Adds BytewiseComparator (op_adds q ops))"
  by (simp add: replayed_def commit_adds_def MemTable_Adds_append)

text \<open>The commits of one log, with sequence numbers that go up from \<open>1\<close>.\<close>

definition commits_ok :: "commit list \<Rightarrow> bool" where
  "commits_ok cs \<longleftrightarrow> commits_from 1 cs (unat kMaxSequenceNumber - 1)"

lemma commits_from_take: "commits_from lo cs hi \<Longrightarrow> commits_from lo (take j cs) hi"
proof (induction lo cs hi arbitrary: j rule: commits_from.induct)
  case (1 lo hi)
  then show ?case by simp
next
  case (2 lo q ops cs hi)
  have "lo \<le> hi + 1" using commits_from_bounds [OF 2(2)] by simp
  then show ?case using 2 by (cases j) auto
qed

lemma commit_adds_ok:
  assumes "commits_from lo cs (unat kMaxSequenceNumber - 1)"
  shows "list_all (add_ok short_key) (commit_adds cs) \<and> distinct (map add_id (commit_adds cs))"
  using assms
proof (induction cs arbitrary: lo)
  case Nil
  then show ?case by (simp add: commit_adds_def)
next
  case (Cons c cs)
  obtain q ops where c: "c = (q, ops)" by fastforce
  have f: "lo \<le> unat q" "list_all op_fits ops" "commits_from (unat q + length ops) cs (unat kMaxSequenceNumber - 1)"
    using Cons.prems by (simp_all add: c)
  have m: "unat kMaxSequenceNumber = 2 ^ 56 - 1" by (rule kMax_unat)
  have b: "unat q + length ops \<le> unat kMaxSequenceNumber" using commits_from_bounds [OF f(3)] m by simp
  have ok: "list_all (add_ok short_key) (op_adds q ops)"
    using op_adds_ok [OF b f(2)] by (auto simp: list_all_iff intro: add_ok_short)
  have q64: "unat q + length ops \<le> 2 ^ 64" using b m by simp
  have less: "add_id x \<noteq> add_id y" if "x \<in> set (op_adds q ops)" "y \<in> set (commit_adds cs)" for x y
  proof -
    have "unat (fst x) \<in> set (map (\<lambda>a. unat (fst a)) (op_adds q ops))" using that by auto
    then have "unat (fst x) < unat q + length ops" unfolding op_adds_seqs [OF q64] by simp
    moreover have "unat q + length ops \<le> unat (fst y)" using commit_adds_bounds [OF f(3) _ that(2)] by simp
    ultimately have "fst x \<noteq> fst y" by auto
    then show ?thesis by (cases x; cases y) auto
  qed
  have "distinct (map add_id (op_adds q ops))" by (rule op_adds_distinct [OF q64])
  then show ?case using Cons.IH [OF f(3)] ok less by (fastforce simp: commit_adds_def c)
qed

lemma replayed_holds:
  assumes "commits_ok cs"
  shows "\<exists>m xs. replayed cs = Some m \<and> memtable_holds BytewiseComparator short_key m (commit_adds cs) xs"
proof -
  have h: "memtable_holds BytewiseComparator short_key (MemTable_Ref MemTable_new) [] []"
    using memtable_holds_new by (simp add: holds_Ref)
  show ?thesis
    using bytewise_short.MemTable_Adds_holds [OF h, of "commit_adds cs"] commit_adds_ok [OF assms [unfolded commits_ok_def]]
    by (simp add: replayed_def)
qed

text \<open>The state of the recovery after the commits \<open>cs\<close>.\<close>

definition recovering :: "log_recovery \<Rightarrow> commit list \<Rightarrow> log_recovery" where
  "recovering st cs = st\<lparr>rl_mem := (if cs = [] then rl_mem st else replayed cs), rl_max_sequence := commits_last cs (rl_max_sequence st)\<rparr>"

definition buffer_fits :: "nat \<Rightarrow> commit list \<Rightarrow> bool" where
  "buffer_fits sz cs \<longleftrightarrow> (\<forall>j m. replayed (take j cs) = Some m \<longrightarrow> ApproximateMemoryUsage m \<le> sz)"

lemma recover_batch_commit:
  assumes st: "rl_status st = OK" "rl_mem st = None" and u: "db_user (rl_db st) = BytewiseComparator"
    and ok: "commits_ok (cs @ [(q, ops)])" and buf: "\<And>m. replayed (cs @ [(q, ops)]) = Some m \<Longrightarrow>
      ApproximateMemoryUsage m \<le> opt_write_buffer_size (db_options (rl_db st))"
  shows "recover_batch sn micros (batch_rep q ops) (recovering st cs) = Some (False, recovering st (cs @ [(q, ops)]))"
proof -
  have cs: "commits_ok cs" using commits_from_take [of 1 "cs @ [(q, ops)]" _ "length cs"] ok by (simp add: commits_ok_def)
  have o: "list_all op_fits ops" "length ops < 2 ^ 31"
    using commits_from_bounds [OF ok [unfolded commits_ok_def]] by auto
  have ops: "list_all op_ok ops" using o(1) op_fits_ok by (auto simp: list_all_iff)
  obtain m where m: "replayed cs = Some m" using replayed_holds [OF cs] by blast
  obtain m' where m': "replayed (cs @ [(q, ops)]) = Some m'" using replayed_holds [OF ok] by blast
  have ins: "WriteBatch_InsertInto BytewiseComparator (batch_rep q ops) m = (OK, Some m')"
    using InsertInto_rep [OF ops o(2), of BytewiseComparator q m] m m' by (simp add: replayed_snoc)
  have mem: "(case rl_mem (recovering st cs) of None \<Rightarrow> MemTable_Ref MemTable_new | Some m \<Rightarrow> m) = m"
    using m st by (auto simp: recovering_def replayed_def commit_adds_def)
  have last: "batch_last (q, ops) = q + word_of_nat (length ops) - 1" by (simp add: batch_last_def)
  have cnt: "word_of_int (WriteBatch_Count (batch_rep q ops)) = (word_of_nat (length ops) :: u64)"
    using o(2) by (simp add: sint_count)
  have max: "commits_last (cs @ [(q, ops)]) x = (if commits_last cs x < q + word_of_nat (length ops) - 1 then q + word_of_nat (length ops) - 1
      else commits_last cs x)" for x by (simp add: commits_last_def batch_last_def)
  show ?thesis
    unfolding recover_batch_def Let_def WriteBatch_SetContents_def mem
    using ins cnt buf [OF m'] m' u st(1)
    by (auto simp: recovering_def MaybeIgnoreError_def max not_le [symmetric] simp del: batch_rep_header(3))
qed

section \<open>The log\<close>

lemma reported_none: "lr_reports r' = lr_reports r \<Longrightarrow> reported r r' s = s"
  by (simp add: reported_def)

lemma report_ok: "rl_status st = OK \<Longrightarrow> recovery_report OK st = st"
  by (simp add: recovery_report_def)

lemma recovering_simps [simp]:
  "rl_status (recovering st cs) = rl_status st" "rl_db (recovering st cs) = rl_db st" "rl_disk (recovering st cs) = rl_disk st"
  "rl_edit (recovering st cs) = rl_edit st" "rl_compactions (recovering st cs) = rl_compactions st"
  "rl_save_manifest (recovering st cs) = rl_save_manifest st"
  by (simp_all add: recovering_def)

lemma recover_log_loop_reads:
  assumes st: "rl_status st = OK" "rl_mem st = None" and u: "db_user (rl_db st) = BytewiseComparator"
    and fin: "ReadRecord r' = (False, [], r2)" "lr_reports r2 = lr_reports r'"
  shows "reads r (commit_records cs) r' \<Longrightarrow> commits_ok (ds @ cs) \<Longrightarrow> buffer_fits (opt_write_buffer_size (db_options (rl_db st))) (ds @ cs) \<Longrightarrow>
    recover_log_loop sn micros r (recovering st ds) = Some (recovering st (ds @ cs))"
proof (induction cs arbitrary: r ds)
  case Nil
  then show ?case using fin st(1)
    by (simp add: commit_records_def recover_log_loop.simps reported_none report_ok)
next
  case (Cons c cs)
  obtain q ops where c: "c = (q, ops)" by fastforce
  obtain r1 where r1: "ReadRecord r = (True, batch_rep q ops, r1)" "lr_reports r1 = lr_reports r" "reads r1 (commit_records cs) r'"
    using Cons.prems(1) by (auto simp: commit_records_def c)
  have ok: "commits_ok (ds @ [(q, ops)])"
    using commits_from_take [of 1 "ds @ c # cs" _ "length ds + 1"] Cons.prems(2) by (simp add: commits_ok_def c)
  have buf: "ApproximateMemoryUsage m \<le> opt_write_buffer_size (db_options (rl_db st))" if "replayed (ds @ [(q, ops)]) = Some m" for m
  proof -
    have "take (length ds + 1) (ds @ c # cs) = ds @ [(q, ops)]" by (simp add: c)
    then show ?thesis using Cons.prems(3) that unfolding buffer_fits_def by metis
  qed
  have step: "recover_batch sn micros (batch_rep q ops) (recovering st ds) = Some (False, recovering st (ds @ [(q, ops)]))"
    by (rule recover_batch_commit [OF st u ok buf])
  have len: "\<not> length (batch_rep q ops) < 12" using batch_rep_sizes(2) [of q ops] by (simp add: kHeader_def)
  have "recover_log_loop sn micros r (recovering st ds) = recover_log_loop sn micros r1 (recovering st (ds @ [(q, ops)]))"
    unfolding recover_log_loop.simps [of sn micros r] r1(1) Let_def prod.case
    using st(1) step len by (simp add: reported_none [OF r1(2)] report_ok)
  also have "\<dots> = Some (recovering st ((ds @ [(q, ops)]) @ cs))"
    using Cons.prems(2,3) by (intro Cons.IH [OF r1(3)]) (simp_all add: c)
  finally show ?case by (simp add: c)
qed

text \<open>What is read of a log file that was cut off after \<open>m\<close> bytes.\<close>

definition cut_log :: "disk \<Rightarrow> string \<Rightarrow> commit list \<Rightarrow> nat \<Rightarrow> nat \<Rightarrow> bool" where
  "cut_log k fname cs m j \<longleftrightarrow> disk_file k fname = Some (take m (log_file (commit_records cs))) \<and> disk_works k fname \<and>
     complete_upto (commit_records cs) m j"

lemma recover_cut_log:
  assumes cut: "cut_log k fname cs m j" and u: "db_user d = BytewiseComparator" and ok: "commits_ok cs"
    and buf: "buffer_fits (opt_write_buffer_size (db_options d)) (take j cs)"
    and st: "rl_status st = OK" "rl_mem st = None" "rl_db st = d"
  shows "\<exists>file. Posix_NewSequentialFile k fname = Inr file \<and>
    recover_log_loop sn micros (Reader_new file True 0) st = Some (recovering st (take j cs))"
proof -
  let ?file = "\<lparr>sf_name = fname, sf_data = take m (log_file (commit_records cs)), sf_answers = []\<rparr>"
  obtain r' r2 where r: "reads (Reader_new ?file True 0) (take j (commit_records cs)) r'" "ReadRecord r' = (False, [], r2)"
    "lr_reports r2 = lr_reports r'" using log_reads_upto cut unfolding cut_log_def by blast
  have t: "take j (commit_records cs) = commit_records (take j cs)" by (simp add: commit_records_def take_map)
  have o: "commits_ok ([] @ take j cs)" using ok commits_from_take by (simp add: commits_ok_def)
  have b: "buffer_fits (opt_write_buffer_size (db_options (rl_db st))) ([] @ take j cs)"
    using buf unfolding buffer_fits_def st(3) by simp
  have "recovering st [] = st" by (simp add: recovering_def commits_last_def)
  then have "recover_log_loop sn micros (Reader_new ?file True 0) st = Some (recovering st (take j cs))"
    using recover_log_loop_reads [OF st(1,2) _ r(2,3) r(1) [unfolded t] o b, of sn micros] u st(3) by simp
  moreover have "Posix_NewSequentialFile k fname = Inr ?file"
    using cut by (simp add: cut_log_def disk_works_def Posix_NewSequentialFile_def)
  ultimately show ?thesis by blast
qed

lemma batch_last_bound:
  assumes "unat q + length ops \<le> unat kMaxSequenceNumber" "1 \<le> unat q" "a \<in> set (op_adds q ops)"
  shows "fst a \<le> batch_last (q, ops)"
proof -
  have q: "unat q + length ops \<le> 2 ^ 64" using assms(1) by (simp add: kMax_unat)
  have "unat (fst a) \<in> set (map (\<lambda>a. unat (fst a)) (op_adds q ops))" using assms(3) by auto
  then have l: "unat (fst a) < unat q + length ops" unfolding op_adds_seqs [OF q] by simp
  have "unat (q + word_of_nat (length ops)) = unat q + length ops"
    using assms(1) by (auto simp: kMax_unat unat_word_ariths unat_of_nat)
  moreover from this have "unat (q + word_of_nat (length ops) - 1) = unat q + length ops - 1"
    using assms(2) by (subst unat_minus_one) auto
  ultimately show ?thesis using l by (simp add: batch_last_def word_le_nat_alt)
qed

lemma commits_last_ge:
  assumes "commits_ok cs" "a \<in> set (commit_adds cs)"
  shows "fst a \<le> commits_last cs x"
proof -
  obtain q ops where c: "(q, ops) \<in> set cs" "a \<in> set (op_adds q ops)" using assms(2) by (auto simp: commit_adds_def)
  have "1 \<le> unat q \<and> unat q + length ops \<le> unat kMaxSequenceNumber - 1 + 1"
    using commits_from_bounds [OF assms(1) [unfolded commits_ok_def]] c(1) by auto
  then have "fst a \<le> batch_last (q, ops)" using batch_last_bound [OF _ _ c(2)] by (simp add: kMax_unat)
  moreover have up: "y \<le> commits_last ds y" for ds y
    by (induction ds rule: rev_induct) (auto simp: commits_last_def intro: order.trans less_imp_le)
  moreover have "batch_last c \<le> commits_last ds y" if "c \<in> set ds" for c ds y
    using that by (induction ds rule: rev_induct) (auto simp: commits_last_def not_less intro: order.trans less_imp_le)
  ultimately show ?thesis using c(1) by (meson order.trans)
qed

section \<open>Crash recovery\<close>

text \<open>The database that recovers: just constructed, on the same file system.\<close>

definition fresh_db :: "db \<Rightarrow> bool" where
  "fresh_db d \<longleftrightarrow> db_user d = BytewiseComparator \<and> (\<exists>entries blocks. db_table_cache d = TableCache_new (db_path d) (db_name d) (db_options d) entries blocks \<and> fresh_blocks blocks)"

text \<open>What the files of the recovered database hold.\<close>

lemma RecoverLogFile_flush:
  assumes cut: "cut_log k (db_path d @ ''/'' @ log_name) cs m j" and d: "fresh_db d" and ok: "commits_ok cs"
    and buf: "buffer_fits (opt_write_buffer_size (db_options d)) (take j cs)" and reuse: "\<not> opt_reuse_logs (db_options d)"
    and ne: "commit_adds (take j cs) \<noteq> []" and table: "disk_works k (TableFileName (db_path d) (db_name d) FILENUMBER_LDB)"
    and fit: "\<And>kvs. kvs_sorted (InternalKeyComparator BytewiseComparator) kvs \<Longrightarrow> set kvs = set (map add_kv (commit_adds (take j cs))) \<Longrightarrow>
      flush_fits sn (db_options d) kvs"
  shows "\<exists>st kvss fsize smallest largest. RecoverLogFile sn micros log_name last_log save edit max_sequence d k = Some st \<and>
    rl_status st = OK \<and> rl_save_manifest st \<and> rl_edit st = AddFile 0 FILENUMBER_LDB fsize smallest largest edit \<and>
    stored_table sn (Posix_NewRandomAccessFile (rl_disk st)) (db_path d) (db_name d) (db_options d) kvss fsize \<and>
    set (concat kvss) = set (map add_kv (commit_adds (take j cs))) \<and>
    table_cache_ok sn (db_path d) (db_name d) (db_options d) kvss (db_table_cache (rl_db st)) \<and>
    (\<forall>a\<in>set (commit_adds (take j cs)). fst a \<le> rl_max_sequence st) \<and>
    (\<forall>n. n \<noteq> TableFileName (db_path d) (db_name d) FILENUMBER_LDB \<longrightarrow> disk_file (rl_disk st) n = disk_file k n)"
proof -
  define st0 where "st0 = \<lparr>rl_status = OK, rl_mem = None, rl_compactions = 0, rl_save_manifest = save, rl_edit = edit,
                rl_max_sequence = max_sequence, rl_db = d, rl_disk = k\<rparr>"
  have s0: "rl_status st0 = OK" "rl_mem st0 = None" "rl_db st0 = d" by (simp_all add: st0_def)
  have u: "db_user d = BytewiseComparator" using d by (simp add: fresh_db_def)
  obtain sfile where opened: "Posix_NewSequentialFile k (db_path d @ ''/'' @ log_name) = Inr sfile"
    "recover_log_loop sn micros (Reader_new sfile True 0) st0 = Some (recovering st0 (take j cs))"
    using recover_cut_log [OF cut u ok buf s0] by blast
  have okj: "commits_ok (take j cs)" using ok commits_from_take by (simp add: commits_ok_def)
  obtain mem xs where mem: "replayed (take j cs) = Some mem"
    "memtable_holds BytewiseComparator short_key mem (commit_adds (take j cs)) xs" using replayed_holds [OF okj] by blast
  have tj: "take j cs \<noteq> []" using ne by (cases "take j cs") (simp_all add: commit_adds_def)
  have es: "set (map (mem_kv mem) xs) = set (map add_kv (commit_adds (take j cs)))" by (rule bytewise_short.holds_entries [OF mem(2)])
  have "flush_fits sn (db_options d) (map (mem_kv mem) xs)"
    by (rule fit [OF bytewise_short.holds_sorted(1) [OF mem(2)] es])
  moreover obtain entries blocks where "db_table_cache d = TableCache_new (db_path d) (db_name d) (db_options d) entries blocks" "fresh_blocks blocks"
    using d by (auto simp: fresh_db_def)
  ultimately obtain meta' tc' k' kvss where b:
    "BuildTable (mem_iter_ops BytewiseComparator) sn (db_path d) (db_name d) (db_options d) (MemTable_NewIterator mem)
       (FileMetaData_new FILENUMBER_LDB 0 [] []) (db_table_cache d) k = Some (OK, meta', tc', k')"
    "concat kvss = map (mem_kv mem) xs"
    "stored_table sn (Posix_NewRandomAccessFile k') (db_path d) (db_name d) (db_options d) kvss (fm_file_size meta')"
    "table_cache_ok sn (db_path d) (db_name d) (db_options d) kvss tc'" "0 < fm_file_size meta'" "fm_number meta' = FILENUMBER_LDB"
    "\<forall>n. n \<noteq> TableFileName (db_path d) (db_name d) FILENUMBER_LDB \<longrightarrow> disk_file k' n = disk_file k n"
    using BuildTable_stores [OF mem(2) ne _ table, of sn "db_options d" "db_table_cache d" entries blocks "FileMetaData_new FILENUMBER_LDB 0 [] []"]
    by (auto simp: FileMetaData_new_def)
  have w: "\<exists>d'. WriteLevel0Table sn micros mem edit None d k =
      Some (OK, AddFile 0 FILENUMBER_LDB (fm_file_size meta') (fm_smallest meta') (fm_largest meta') edit, d', k') \<and> db_table_cache d' = tc'"
    using b(1,5,6) u by (simp add: WriteLevel0Table_def Let_def add_stats_def)
  then obtain d' where w: "WriteLevel0Table sn micros mem edit None d k =
      Some (OK, AddFile 0 FILENUMBER_LDB (fm_file_size meta') (fm_smallest meta') (fm_largest meta') edit, d', k')" "db_table_cache d' = tc'"
    by blast
  define st1 where "st1 = recovering st0 (take j cs)"
  have st1: "rl_mem st1 = Some mem" "rl_db st1 = d" "rl_disk st1 = k" "rl_edit st1 = edit" "rl_status st1 = OK"
    "rl_max_sequence st1 = commits_last (take j cs) max_sequence"
    using mem(1) tj by (simp_all add: st1_def recovering_def st0_def)
  have ru: "reuse_log (db_path d @ ''/'' @ log_name) last_log st1 = st1" using reuse st1(2) by (simp add: reuse_log_def)
  have "RecoverLogFile sn micros log_name last_log save edit max_sequence d k = flush_recovered sn micros mem st1"
    unfolding RecoverLogFile_def Let_def opened(1) sum.case st0_def [symmetric] opened(2) option.case st1_def [symmetric] ru
    using st1(1,5) by simp
  also have "\<dots> = Some (st1\<lparr>rl_status := OK, rl_mem := None, rl_save_manifest := True,
      rl_edit := AddFile 0 FILENUMBER_LDB (fm_file_size meta') (fm_smallest meta') (fm_largest meta') edit, rl_db := d', rl_disk := k'\<rparr>)"
    using w(1) st1 by (simp add: flush_recovered_def)
  finally show ?thesis
    using b(2-4,7) es w(2) st1(6) commits_last_ge [OF okj] by (intro exI [of _ kvss] exI conjI) auto
qed

text \<open>The database that wrote the log.\<close>

lemma commits_from_mono: "commits_from lo cs hi \<Longrightarrow> hi \<le> hi' \<Longrightarrow> commits_from lo cs hi'"
  by (induction lo cs hi rule: commits_from.induct) auto

lemma db_holds_log:
  assumes "db_holds d cs"
  shows "commits_ok cs" "wf_data (lw_dest (the (db_log d))) = log_file (commit_records cs)"
proof -
  have "commits_from 1 cs (unat (vs_last_sequence (db_versions d)))" "vs_last_sequence (db_versions d) < kMaxSequenceNumber"
    using assms by (simp_all add: db_holds_def)
  moreover from this(2) have "unat (vs_last_sequence (db_versions d)) \<le> unat kMaxSequenceNumber - 1"
    by (simp add: word_less_nat_alt)
  ultimately show "commits_ok cs" using commits_from_mono by (simp add: commits_ok_def)
  show "wf_data (lw_dest (the (db_log d))) = log_file (commit_records cs)"
    using assms by (auto simp: db_holds_def AddRecords_log_file)
qed

lemma DBImpl_new_fresh: "opt_comparator raw = BytewiseComparator \<Longrightarrow> cache = None \<Longrightarrow> fresh_db (DBImpl_new raw cache dbpath dbname)"
  by (simp add: fresh_db_def fresh_blocks_def DBImpl_new_def SanitizeOptions_def Let_def)
    (intro exI conjI, rule refl, auto)

section \<open>Two commits\<close>

definition example_commits :: "commit list" where
  "example_commits = [(1, [BPut [1] [2]]), (2, [BDelete [1]])]"

lemma example_two_commits: "\<exists>d. db_holds d example_commits"
proof -
  have m: "unat kMaxSequenceNumber = 2 ^ 56 - 1" by (rule kMax_unat)
  obtain d1 where d1: "db_holds d1 [(1, [BPut [1] [2]])]" "vs_last_sequence (db_versions d1) = 1"
  proof -
    obtain d' where "db_holds (d'\<lparr>db_versions := VersionSet_SetLastSequence (0 + word_of_nat (length [BPut [1] [2]])) (db_versions d')\<rparr>)
        ([] @ [(0 + 1, [BPut [1] [2]])])"
      using commit_batch_holds [OF example_db_holds, of "[BPut [1] [2]]" "[]" False] m by (auto simp: example_db_sequence)
    then show ?thesis using that by (auto simp: VersionSet_SetLastSequence_def)
  qed
  then show ?thesis
    using commit_batch_holds [OF d1(1), of "[BDelete [1]]" False] m by (auto simp: example_commits_def)
qed

lemma example_buffer_fits: "buffer_fits 4194304 (take 1 example_commits)"
proof -
  have u: "map_option ApproximateMemoryUsage (replayed []) = Some 4100" by code_simp
  have v: "map_option ApproximateMemoryUsage (replayed [(1, [BPut [1] [2]])]) = Some 4100" by code_simp
  have "ApproximateMemoryUsage m \<le> 4194304" if "replayed (take j (take 1 example_commits)) = Some m" for j m
    using that u v by (cases j) (auto simp: example_commits_def)
  then show ?thesis by (simp add: buffer_fits_def)
qed

lemma example_complete_upto: "complete_upto (commit_records example_commits) 30 1"
proof -
  have b: "length (batch_rep 1 [BPut [1] [2]]) = 17" "length (batch_rep 2 [BDelete [1]]) = 15" by code_simp+
  have "length (log_header t x) = 7" for t x by (simp add: log_header_def Let_def)
  then have "length (log_file [batch_rep 1 [BPut [1] [2]]]) = 24" "length (log_file [batch_rep 1 [BPut [1] [2]], batch_rep 2 [BDelete [1]]]) = 46"
    using b by (simp_all add: log_file_small kBlockSize_def kHeaderSize_def)
  then show ?thesis by (simp add: complete_upto_def example_commits_def commit_records_def)
qed

end
