(* ===== verification/DbIterators.thy ===== *)
theory DbIterators
  imports DbGet DBIter Compaction DbFlushProofs Merging
begin

text \<open>
  Iterators over a version, over the inputs of a compaction and over the whole database: \<open>GetFileIterator\<close>,
  \<open>AddIterators\<close> and \<open>MakeInputIterator\<close> of \<open>db/version_set.cpp\<close>, \<open>NewInternalIterator\<close> and \<open>NewIterator\<close> of
  \<open>db/db_impl.cpp\<close>. An iterator over a level opens the files lazily through a table cache of its own, which
  starts as the one of the database: what a cache holds does not change what an iterator yields. The handles
  that iterators pin stay pinned, since destructors are not modelled.
\<close>

section \<open>Iterators over files\<close>

definition GetFileIterator :: "snappy \<Rightarrow> file_opener \<Rightarrow> (table_iter, table_cache) block_function" where
  "GetFileIterator sn files tc ro file_value =
     (if length file_value \<noteq> 16
      then (Inl (NewErrorIterator (Corruption ''FileReader invoked with unexpected value'')), tc)
      else
        let (it, h, tc) = TableCache_NewIterator sn files ro (DecodeFixed64 file_value) (DecodeFixed64 (drop 8 file_value)) tc
        in (it, tc))"

type_synonym concat_iter = "(level_iter, table_iter, table_cache) two_level"

definition NewConcatenatingIterator :: "comparator \<Rightarrow> read_options \<Rightarrow> file_meta list \<Rightarrow> table_cache \<Rightarrow> concat_iter" where
  "NewConcatenatingIterator user ro flist tc = NewTwoLevelIterator (level_iter_ops user) (LevelFileNumIterator_new flist) tc ro"

text \<open>The classes that the children of an internal iterator have: tables, levels, and memtables.\<close>

type_synonym version_child = "table_iter + concat_iter"
type_synonym db_child = "mem_iter + version_child"

definition concat_ops :: "snappy \<Rightarrow> file_opener \<Rightarrow> comparator \<Rightarrow> concat_iter iter_ops" where
  "concat_ops sn files user =
     two_level_ops (level_iter_ops user) (table_iter_class sn (InternalKeyComparator user)) (GetFileIterator sn files)"

definition version_child_ops :: "snappy \<Rightarrow> file_opener \<Rightarrow> comparator \<Rightarrow> version_child iter_ops" where
  "version_child_ops sn files user =
     either_ops (table_iter_class sn (InternalKeyComparator user)) (concat_ops sn files user)"

definition db_child_ops :: "snappy \<Rightarrow> file_opener \<Rightarrow> comparator \<Rightarrow> db_child iter_ops" where
  "db_child_ops sn files user = either_ops (mem_iter_ops user) (version_child_ops sn files user)"

text \<open>One iterator for each of some files.\<close>

fun file_iterators :: "snappy \<Rightarrow> file_opener \<Rightarrow> read_options \<Rightarrow> file_meta list \<Rightarrow> table_cache \<Rightarrow> table_iter list \<times> table_cache" where
  "file_iterators sn files ro [] tc = ([], tc)"
| "file_iterators sn files ro (f # fs) tc =
     (let (it, h, tc) = TableCache_NewIterator sn files ro (fm_number f) (fm_file_size f) tc;
          (its, tc) = file_iterators sn files ro fs tc
      in (it # its, tc))"

definition AddIterators ::
  "snappy \<Rightarrow> file_opener \<Rightarrow> comparator \<Rightarrow> file_heap \<Rightarrow> version \<Rightarrow> read_options \<Rightarrow> table_cache \<Rightarrow> version_child list \<times> table_cache" where
  "AddIterators sn files user fs v ro tc =
     (let (its, tc) = file_iterators sn files ro (map fs (level_files v 0)) tc
      in (map Inl its @
          map (\<lambda>level. Inr (NewConcatenatingIterator user ro (map fs (level_files v level)) tc))
            (filter (\<lambda>level. level_files v level \<noteq> []) [1..<kNumLevels]), tc))"

text \<open>The inputs of a compaction.\<close>

definition input_iterators ::
  "snappy \<Rightarrow> file_opener \<Rightarrow> comparator \<Rightarrow> read_options \<Rightarrow> nat \<Rightarrow> file_meta list \<Rightarrow> table_cache \<Rightarrow> version_child list \<times> table_cache" where
  "input_iterators sn files user ro level inputs tc =
     (if inputs = [] then ([], tc)
      else if level = 0 then (let (its, tc) = file_iterators sn files ro inputs tc in (map Inl its, tc))
      else ([Inr (NewConcatenatingIterator user ro inputs tc)], tc))"

definition MakeInputIterator ::
  "snappy \<Rightarrow> file_opener \<Rightarrow> version_set \<Rightarrow> compaction \<Rightarrow> table_cache \<Rightarrow> version_child merged \<times> table_cache" where
  "MakeInputIterator sn files vs c tc =
     (let ro = ReadOptions_default\<lparr>ro_verify_checksums := opt_paranoid_checks (vs_options vs), ro_fill_cache := False\<rparr>;
          (its0, tc) = input_iterators sn files (vs_cmp vs) ro (c_level c) (map (file_at vs) (c_inputs0 c)) tc;
          (its1, tc) = input_iterators sn files (vs_cmp vs) ro (c_level c + 1) (map (file_at vs) (c_inputs1 c)) tc
      in (NewMergingIterator (version_child_ops sn files (vs_cmp vs)) (its0 @ its1), tc))"

section \<open>The iterator of the database\<close>

text \<open>The references that the iterator holds are those of \<open>Get\<close>; \<open>CleanupIteratorState\<close> drops them.\<close>

definition NewInternalIterator ::
  "snappy \<Rightarrow> file_opener \<Rightarrow> read_options \<Rightarrow> db \<Rightarrow> db_child merged \<times> SequenceNumber \<times> u32 \<times> db" where
  "NewInternalIterator sn files ro d =
     (let latest_snapshot = vs_last_sequence (db_versions d); current = the (vs_current (db_versions d));
          mems = MemTable_NewIterator (the (db_mem d)) # (case db_imm d of None \<Rightarrow> [] | Some imm \<Rightarrow> [MemTable_NewIterator imm]);
          (its, tc) = AddIterators sn files (db_user d) (file_at (db_versions d)) (version_at (db_versions d) current) ro
                        (db_table_cache d);
          internal_iter = NewMergingIterator (db_child_ops sn files (db_user d)) (map Inl mems @ map Inr its);
          seed = db_seed d + 1
      in (internal_iter, latest_snapshot, seed, get_refs current (d\<lparr>db_table_cache := tc, db_seed := seed\<rparr>)))"

definition CleanupIteratorState :: "nat \<Rightarrow> db \<Rightarrow> db" where
  "CleanupIteratorState version d = get_unrefs version d"

definition DB_NewIterator :: "snappy \<Rightarrow> file_opener \<Rightarrow> read_options \<Rightarrow> db \<Rightarrow> db_child merged dbiter \<times> db" where
  "DB_NewIterator sn files ro d =
     (let (iter, latest_snapshot, seed, d) = NewInternalIterator sn files ro d
      in (NewDBIterator iter (case ro_snapshot ro of Some s \<Rightarrow> s | None \<Rightarrow> latest_snapshot) seed, d))"

definition db_iter_ops :: "snappy \<Rightarrow> file_opener \<Rightarrow> comparator \<Rightarrow> db_child merged dbiter iter_ops" where
  "db_iter_ops sn files user = dbiter_ops user (merged_ops (InternalKeyComparator user) (db_child_ops sn files user))"

end
