(* ===== verification/DbScan.thy ===== *)
theory DbScan
  imports DbIterators
begin

text \<open>
  Scanning: the iterator of a database is a cursor over the user entries that its snapshot can see. The
  contracts of the memtable iterator, the table iterator, the iterator over a level, the merging iterator and
  the database iterator are put together.
\<close>

abbreviation bytewise_internal :: comparator where "bytewise_internal \<equiv> InternalKeyComparator BytewiseComparator"

section \<open>Tables\<close>

lemma iterator_Ex:
  assumes "\<And>t. iterator cmp ok ops (p t)"
  shows "iterator cmp ok ops (\<lambda>s kvs i. \<exists>t. p t s kvs i)"
proof (rule iterator.intro [OF iterator.axioms(1) [OF assms]], unfold_locales)
  fix s kvs i k
  assume "\<exists>t. p t s kvs i"
  then obtain t where t: "p t s kvs i" by blast
  show "i \<le> length kvs"
    using iterator.at_bound [OF assms t] by blast
  show "kvs_sorted cmp kvs"
    using iterator.at_sorted [OF assms t] by blast
  show "keys_ok ok kvs"
    using iterator.at_ok [OF assms t] by blast
  show "it_Valid ops s = (i < length kvs)"
    using iterator.Valid_at [OF assms t] by blast
  show "i < length kvs \<Longrightarrow> it_key ops s = fst (kvs ! i)"
    using iterator.key_at [OF assms t] by blast
  show "i < length kvs \<Longrightarrow> it_value ops s = snd (kvs ! i)"
    using iterator.value_at [OF assms t] by blast
  show "it_status ops s = OK"
    using iterator.status_at [OF assms t] by blast
  show "\<exists>s'. it_SeekToFirst ops s = Some s' \<and> (\<exists>t. p t s' kvs 0)"
    using iterator.SeekToFirst_at [OF assms t] by blast
  show "\<exists>s'. it_SeekToLast ops s = Some s' \<and> (\<exists>t. p t s' kvs (length kvs - 1))"
    using iterator.SeekToLast_at [OF assms t] by blast
  show "ok k \<Longrightarrow> \<exists>s'. it_Seek ops k s = Some s' \<and> (\<exists>t. p t s' kvs (seek_pos cmp kvs k))"
    using iterator.Seek_at [OF assms t] by blast
  show "i < length kvs \<Longrightarrow> \<exists>s'. it_Next ops s = Some s' \<and> (\<exists>t. p t s' kvs (Suc i))"
    using iterator.Next_at [OF assms t] by blast
  show "i < length kvs \<Longrightarrow> \<exists>s'. it_Prev ops s = Some s' \<and> (\<exists>t. p t s' kvs (if i = 0 then length kvs else i - 1))"
    using iterator.Prev_at [OF assms t] by blast
qed

definition table_class_at :: "snappy \<Rightarrow> table_iter \<Rightarrow> kv list \<Rightarrow> nat \<Rightarrow> bool" where
  "table_class_at sn = case_sum empty_at (\<lambda>it kvs i. \<exists>t.
     two_level.tl_at bytewise_internal (internal_ok short_key) (nbi_ops bytewise_internal) (nbi_at bytewise_internal (internal_ok short_key))
       (nbi_ops bytewise_internal) (nbi_at bytewise_internal (internal_ok short_key)) (\<lambda>a. a = t)
       (block_content sn bytewise_internal (internal_ok short_key) t) it kvs i)"

interpretation table_class: iterator bytewise_internal "internal_ok short_key" "table_iter_class sn bytewise_internal" "table_class_at sn" for sn
  unfolding table_iter_class_def table_class_at_def table_iter_ops_def
  by (intro either_iterator bytewise_short.internal.empty_iterator iterator_Ex two_level.two_level_iterator
      comparator_laws.table_two_level [OF bytewise_short.internal.comparator_laws_axioms])

lemma internal_key_short: "internal_ok (\<lambda>_. True) k \<Longrightarrow> short_key (ExtractUserKey k) \<Longrightarrow> internal_ok short_key k"
  by (simp add: internal_ok_def)

lemma TableCache_NewIterator_at:
  assumes ok: "table_cache_ok sn dbpath dbname opt kvss tc" and st: "stored_table sn files dbpath dbname opt kvss fsize"
    and short: "keys_ok (internal_ok short_key) (concat kvss)"
  shows "\<exists>t h tc1. TableCache_NewIterator sn files ro n fsize tc = (t, h, tc1) \<and>
    table_class_at sn t (concat kvss) (length (concat kvss)) \<and> table_cache_ok sn dbpath dbname opt kvss tc1"
proof -
  obtain held bheld where tc: "tc_dbpath tc = dbpath" "tc_dbname tc = dbname" "tc_options tc = opt"
    and holds: "cache_holds (table_cached sn dbpath dbname opt kvss) (tc_cache tc) held" and blocks: "blocks_cached sn opt kvss (tc_block_cache tc) bheld"
    using ok by (auto simp: table_cache_ok_def)
  obtain h tc1 cache_id where f: "FindTable sn files n fsize tc = (OK, Some h, tc1)"
    "Cache_Value h (tc_cache tc1) = opened_table sn opt opt kvss (TableFileName dbpath dbname FILENUMBER_LDB) cache_id"
    "tc_dbpath tc1 = dbpath" "tc_dbname tc1 = dbname" "tc_options tc1 = opt"
    "cache_holds (table_cached sn dbpath dbname opt kvss) (tc_cache tc1) (add_mset h held)" "blocks_cached sn opt kvss (tc_block_cache tc1) bheld"
    using FindTable_stored [OF st tc holds blocks, of n] by blast
  have sn: "snappy_laws sn" "table_fits sn opt kvss" and c: "opt_comparator opt = bytewise_internal"
    and b: "blocks_ok bytewise_internal (internal_ok short_key) kvss"
    using st short by (auto simp: stored_table_def Let_def entries_ok_def blocks_ok_def)
  note it = comparator_laws.Table_NewIterator_at [OF bytewise_short.internal.comparator_laws_axioms sn c c b, of "TableFileName dbpath dbname FILENUMBER_LDB" cache_id ro, folded f(2)]
  have "table_class_at sn (Inr (Table_NewIterator ro (Cache_Value h (tc_cache tc1)))) (concat kvss) (length (concat kvss))"
    unfolding table_class_at_def using it by auto
  moreover have "table_cache_ok sn dbpath dbname opt kvss tc1" using f(3-7) by (auto simp: table_cache_ok_def)
  ultimately show ?thesis using f(1) by (simp add: TableCache_NewIterator_def Let_def)
qed

section \<open>Levels\<close>

definition file_content :: "snappy \<Rightarrow> file_opener \<Rightarrow> string \<Rightarrow> string \<Rightarrow> options \<Rightarrow> kv list list \<Rightarrow> bytes \<Rightarrow> kv list option" where
  "file_content sn files dbpath dbname opt kvss v =
     (if length v = 16 \<and> stored_table sn files dbpath dbname opt kvss (DecodeFixed64 (drop 8 v)) \<and>
         keys_ok (internal_ok short_key) (concat kvss)
      then Some (concat kvss) else None)"

interpretation concat_level: two_level bytewise_internal "internal_ok short_key" "level_iter_ops BytewiseComparator"
  "level_at BytewiseComparator short_key" "table_iter_class sn bytewise_internal" "table_class_at sn" "GetFileIterator sn files"
  "table_cache_ok sn dbpath dbname opt kvss" "file_content sn files dbpath dbname opt kvss" for sn files dbpath dbname opt kvss
proof (intro two_level.intro two_level_axioms.intro user_comparator.level_iterator [OF bytewise_short.user_comparator_axioms] table_class.iterator_axioms)
  fix tc v xs ro
  assume a: "table_cache_ok sn dbpath dbname opt kvss tc" "file_content sn files dbpath dbname opt kvss v = Some xs"
  then have v: "length v = 16" "stored_table sn files dbpath dbname opt kvss (DecodeFixed64 (drop 8 v))"
    "keys_ok (internal_ok short_key) (concat kvss)" "xs = concat kvss"
    by (auto simp: file_content_def split: if_splits)
  obtain t h tc1 where t: "TableCache_NewIterator sn files ro (DecodeFixed64 v) (DecodeFixed64 (drop 8 v)) tc = (t, h, tc1)"
    "table_class_at sn t (concat kvss) (length (concat kvss))" "table_cache_ok sn dbpath dbname opt kvss tc1"
    using TableCache_NewIterator_at [OF a(1) v(2,3)] by blast
  then show "table_cache_ok sn dbpath dbname opt kvss (snd (GetFileIterator sn files tc ro v)) \<and>
      (\<exists>i. table_class_at sn (fst (GetFileIterator sn files tc ro v)) xs i)"
    using v(1,4) by (auto simp: GetFileIterator_def)
qed


definition concat_at :: "snappy \<Rightarrow> file_opener \<Rightarrow> string \<Rightarrow> string \<Rightarrow> options \<Rightarrow> kv list list \<Rightarrow> concat_iter \<Rightarrow> kv list \<Rightarrow> nat \<Rightarrow> bool" where
  "concat_at sn files dbpath dbname opt kvss =
     two_level.tl_at bytewise_internal (internal_ok short_key) (level_iter_ops BytewiseComparator) (level_at BytewiseComparator short_key)
       (table_iter_class sn bytewise_internal) (table_class_at sn) (table_cache_ok sn dbpath dbname opt kvss)
       (file_content sn files dbpath dbname opt kvss)"

definition version_child_at ::
  "snappy \<Rightarrow> file_opener \<Rightarrow> string \<Rightarrow> string \<Rightarrow> options \<Rightarrow> kv list list \<Rightarrow> version_child \<Rightarrow> kv list \<Rightarrow> nat \<Rightarrow> bool" where
  "version_child_at sn files dbpath dbname opt kvss = case_sum (table_class_at sn) (concat_at sn files dbpath dbname opt kvss)"

definition db_child_at ::
  "snappy \<Rightarrow> file_opener \<Rightarrow> string \<Rightarrow> string \<Rightarrow> options \<Rightarrow> kv list list \<Rightarrow> db_child \<Rightarrow> kv list \<Rightarrow> nat \<Rightarrow> bool" where
  "db_child_at sn files dbpath dbname opt kvss =
     case_sum (mem_at BytewiseComparator short_key) (version_child_at sn files dbpath dbname opt kvss)"

interpretation version_child: iterator bytewise_internal "internal_ok short_key" "version_child_ops sn files BytewiseComparator"
  "version_child_at sn files dbpath dbname opt kvss" for sn files dbpath dbname opt kvss
  unfolding version_child_ops_def version_child_at_def concat_ops_def concat_at_def
  by (intro either_iterator table_class.iterator_axioms concat_level.two_level_iterator)

interpretation db_child: iterator bytewise_internal "internal_ok short_key" "db_child_ops sn files BytewiseComparator"
  "db_child_at sn files dbpath dbname opt kvss" for sn files dbpath dbname opt kvss
  unfolding db_child_ops_def db_child_at_def by (intro either_iterator memtable_iter.iterator_axioms version_child.iterator_axioms)

lemma concat_one:
  assumes f: "file_ok BytewiseComparator short_key f" "stored_table sn files dbpath dbname opt kvss (fm_file_size f)"
    and short: "keys_ok (internal_ok short_key) (concat kvss)"
    and le: "\<forall>e\<in>set (concat kvss). InternalKey_Compare BytewiseComparator (fst e) (fm_largest f) \<le> 0"
    and tc: "table_cache_ok sn dbpath dbname opt kvss tc"
  shows "concat_at sn files dbpath dbname opt kvss (NewConcatenatingIterator BytewiseComparator ro [f] tc) (concat kvss) (length (concat kvss))"
proof -
  let ?c = "file_content sn files dbpath dbname opt kvss" and ?idx = "level_entries [f]"
  have c: "?c (level_value f) = Some (concat kvss)" using f(2) short by (simp add: file_content_def level_value_def)
  have all: "all_blocks ?c ?idx = concat kvss" by (simp add: all_blocks_def level_entries_def blk_def c)
  have sorted: "kvs_sorted bytewise_internal (concat kvss)" using f(2) by (simp add: stored_table_def Let_def entries_ok_def)
  have "level_at BytewiseComparator short_key (LevelFileNumIterator_new [f]) ?idx 1"
    using f(1) by (simp add: level_at_def LevelFileNumIterator_new_def level_entries_def files_ok_def level_sorted_def)
  moreover have "layout bytewise_internal ?c ?idx"
    using le c by (simp add: layout_def blk_def level_entries_def)
  ultimately show ?thesis
    using concat_level.NewTwoLevelIterator_at [of "LevelFileNumIterator_new [f]" ?idx 1 sn dbpath dbname opt kvss tc files ro] tc sorted short
    unfolding all concat_at_def NewConcatenatingIterator_def by blast
qed

section \<open>Versions\<close>

text \<open>A version with at most one table, whose keys are short.\<close>

definition one_table :: "kv list list \<Rightarrow> db \<Rightarrow> bool" where
  "one_table kvss d \<longleftrightarrow>
     (let v = vs_current_version (db_versions d) in length (concat (ver_files v)) \<le> 1 \<and>
        version_ok BytewiseComparator short_key (file_at (db_versions d)) v \<and>
        (\<forall>e\<in>version_set_entries kvss d. short_key (entry_user e)))"

definition version_sources :: "kv list list \<Rightarrow> version \<Rightarrow> kv list list" where
  "version_sources kvss v = map (\<lambda>f. concat kvss) (concat (ver_files v))"

lemma set_concat_nth: "set (concat xss) = (\<Union>i<length xss. set (xss ! i))"
proof (intro equalityI subsetI)
  fix x assume "x \<in> set (concat xss)"
  then obtain xs where xs: "xs \<in> set xss" "x \<in> set xs" by auto
  from xs(1) obtain i where "i < length xss" "xss ! i = xs" unfolding in_set_conv_nth by blast
  then show "x \<in> (\<Union>i<length xss. set (xss ! i))" using xs(2) by blast
qed auto

lemma one_file_cases:
  assumes "length (concat xss) \<le> 1"
  obtains "concat xss = []" "\<And>l. l < length xss \<Longrightarrow> xss ! l = []"
  | l f where "l < length xss" "xss ! l = [f]" "concat xss = [f]" "\<And>k. k < length xss \<Longrightarrow> k \<noteq> l \<Longrightarrow> xss ! k = []"
proof (cases "concat xss = []")
  case True
  then have "xss ! l = []" if "l < length xss" for l using nth_mem [OF that] by simp
  then show ?thesis using that(1) True by blast
next
  case False
  then obtain xs where "xs \<in> set xss" "xs \<noteq> []" by auto
  then obtain l where l: "l < length xss" "xss ! l \<noteq> []" by (auto simp: in_set_conv_nth)
  have c: "concat xss = concat (take l xss) @ xss ! l @ concat (drop (Suc l) xss)"
    using id_take_nth_drop [OF l(1)] by (metis concat.simps(2) concat_append)
  have n: "length (xss ! l) \<noteq> 0" using l(2) by simp
  then have len: "length (xss ! l) = 1" "length (concat (take l xss)) = 0" "length (concat (drop (Suc l) xss)) = 0"
    using assms arg_cong [OF c, of length] by (simp_all only: length_append)
  then obtain f where f: "xss ! l = [f]" by (auto simp: length_Suc_conv)
  have "xss ! k = []" if k: "k < length xss" "k \<noteq> l" for k
  proof (cases "k < l")
    case True
    then have "xss ! k \<in> set (take l xss)" using k(1) l(1) by (auto simp: in_set_conv_nth intro!: exI [of _ k])
    then show ?thesis using len(2) by auto
  next
    case False
    then have "xss ! k \<in> set (drop (Suc l) xss)" using k by (auto simp: in_set_conv_nth intro!: exI [of _ "k - Suc l"])
    then show ?thesis using len(3) by auto
  qed
  moreover have "concat xss = [f]" using c len(2,3) unfolding f length_0_conv by simp
  ultimately show ?thesis using that(2) [OF l(1) f] by blast
qed


lemma AddIterators_at:
  assumes one: "one_table kvss d" and t: "db_tables sn files kvss d"
  defines "v \<equiv> vs_current_version (db_versions d)" and "tc \<equiv> db_table_cache d"
  shows "list_all2 (\<lambda>s kvs. \<exists>i. version_child_at sn files (tc_dbpath tc) (tc_dbname tc) (tc_options tc) kvss s kvs i)
      (fst (AddIterators sn files BytewiseComparator (file_at (db_versions d)) v ro tc)) (version_sources kvss v)"
    "(\<Union>xs\<in>set (version_sources kvss v). set xs) = version_set_entries kvss d"
proof -
  let ?fs = "file_at (db_versions d)" and ?c = "concat kvss"
  have vok: "version_ok BytewiseComparator short_key ?fs v" and short: "\<forall>e\<in>version_set_entries kvss d. short_key (entry_user e)"
    and count: "length (concat (ver_files v)) \<le> 1"
    using one by (simp_all add: one_table_def Let_def v_def)
  have tables: "version_tables BytewiseComparator (\<lambda>n fsize. stored_table sn files (tc_dbpath tc) (tc_dbname tc) (tc_options tc) kvss fsize)
      (\<lambda>n. concat kvss) ?fs v" and cache: "table_cache_ok sn (tc_dbpath tc) (tc_dbname tc) (tc_options tc) kvss tc"
    using t by (simp_all add: db_tables_def Let_def v_def tc_def)
  have n: "length (ver_files v) = kNumLevels" using vok by (simp add: version_ok_def)
  show "(\<Union>xs\<in>set (version_sources kvss v). set xs) = version_set_entries kvss d"
  proof -
    have "(\<Union>xs\<in>set (version_sources kvss v). set xs) = (\<Union>f\<in>set (concat (ver_files v)). set ?c)" by (simp add: version_sources_def)
    also have "\<dots> = (\<Union>level<kNumLevels. \<Union>f\<in>set (level_files v level). set ?c)"
      unfolding set_concat_nth n level_files_def by (simp only: UN_UN_flatten)
    finally show ?thesis unfolding version_set_entries_def version_entries_def v_def [symmetric] .
  qed
  from count show "list_all2 (\<lambda>s kvs. \<exists>i. version_child_at sn files (tc_dbpath tc) (tc_dbname tc) (tc_options tc) kvss s kvs i)
      (fst (AddIterators sn files BytewiseComparator ?fs v ro tc)) (version_sources kvss v)"
  proof (cases rule: one_file_cases)
    case 1
    have "filter (\<lambda>level. level_files v level \<noteq> []) [1..<kNumLevels] = []" using 1(2) n by (auto simp: filter_empty_conv level_files_def)
    moreover have "level_files v 0 = []" using 1(2) n by (simp add: level_files_def kNumLevels_def)
    ultimately show ?thesis using 1(1) by (simp add: AddIterators_def version_sources_def)
  next
    case (2 l f)
    have l: "l < kNumLevels" "f \<in> set (level_files v l)" using 2 n by (simp_all add: level_files_def)
    note T = tables [unfolded version_tables_def, rule_format, OF l]
    have st: "stored_table sn files (tc_dbpath tc) (tc_dbname tc) (tc_options tc) kvss (fm_file_size (?fs f))" using T by blast
    have "set ?c \<subseteq> version_set_entries kvss d"
      using l unfolding version_set_entries_def version_entries_def v_def by fastforce
    moreover have "keys_ok (internal_ok (\<lambda>_. True)) ?c" using st by (simp add: stored_table_def Let_def entries_ok_def)
    ultimately have keys: "keys_ok (internal_ok short_key) ?c"
      using short internal_key_short unfolding keys_ok_def entry_user_def by blast
    have fok: "file_ok BytewiseComparator short_key (?fs f)" using vok l by (auto simp: version_ok_def files_ok_def level_metas_def)
    have src: "version_sources kvss v = [?c]" using 2(3) by (simp add: version_sources_def)
    show ?thesis
    proof (cases "l = 0")
      case True
      have "filter (\<lambda>level. level_files v level \<noteq> []) [1..<kNumLevels] = []" using 2(4) n True by (auto simp: filter_empty_conv level_files_def)
      moreover have "level_files v 0 = [f]" using 2(2) True by (simp add: level_files_def)
      ultimately show ?thesis using TableCache_NewIterator_at [OF cache st keys, of ro "fm_number (?fs f)"]
        by (auto simp: AddIterators_def src version_child_at_def)
    next
      case False
      have lf: "level_files v k = (if k = l then [f] else [])" if "k < kNumLevels" for k using 2(2,4) n that by (simp add: level_files_def)
      have split: "[1..<kNumLevels] = [1..<l] @ l # [Suc l..<kNumLevels]"
        using False l(1) by (metis Suc_leI le_add_diff_inverse less_imp_le_nat neq0_conv One_nat_def upt_add_eq_append upt_conv_Cons)
      have "filter (\<lambda>level. level_files v level \<noteq> []) [1..<l] = []" "filter (\<lambda>level. level_files v level \<noteq> []) [Suc l..<kNumLevels] = []"
        using lf l(1) by (auto simp: filter_empty_conv)
      then have "filter (\<lambda>level. level_files v level \<noteq> []) [1..<kNumLevels] = [l]" unfolding split using lf [OF l(1)] by simp
      moreover have "level_files v 0 = []" using lf [of 0] False l(1) by simp
      moreover have "concat_at sn files (tc_dbpath tc) (tc_dbname tc) (tc_options tc) kvss (NewConcatenatingIterator BytewiseComparator ro [?fs f] tc) ?c (length ?c)"
        by (rule concat_one [OF fok st keys _ cache]) (use T in blast)
      ultimately show ?thesis using lf [OF l(1)] by (auto simp: AddIterators_def src version_child_at_def)
    qed
  qed
qed

section \<open>The database\<close>


text \<open>The sequences that are merged, given the nodes of the skip lists.\<close>

lemma newer_disjoint: "set_newer xs ys \<Longrightarrow> xs \<inter> ys = {}"
  by (auto simp: set_newer_def)

lemma sorted_wrt_pairs:
  assumes "sorted_wrt P xs" "symp P" "i < length xs" "j < length xs" "i \<noteq> j"
  shows "P (xs ! i) (xs ! j)"
  using assms by (cases i j rule: linorder_cases) (auto simp: sorted_wrt_iff_nth_less dest: sympD)

lemma NewInternalIterator_at:
  assumes m: "db_memtables d adds iadds" and t: "db_tables sn files kvss d" and lay: "db_layered kvss d adds iadds"
    and one: "one_table kvss d" and user: "db_user d = BytewiseComparator"
    and kvs: "kvs_sorted bytewise_internal kvs" "set kvs = db_entries kvss d adds iadds"
  defines "tc \<equiv> db_table_cache d"
  shows "\<exists>i. merged_at bytewise_internal (internal_ok short_key) (db_child_ops sn files BytewiseComparator)
    (db_child_at sn files (tc_dbpath tc) (tc_dbname tc) (tc_options tc) kvss) (fst (NewInternalIterator sn files ro d)) kvs i"
proof -
  let ?v = "vs_current_version (db_versions d)" and ?at = "db_child_at sn files (tc_dbpath tc) (tc_dbname tc) (tc_options tc) kvss"
  obtain mem xs where mem: "db_mem d = Some mem" "memtable_holds BytewiseComparator short_key mem adds xs" using m by (auto simp: db_memtables_def)
  let ?imms = "case db_imm d of None \<Rightarrow> [] | Some imm \<Rightarrow> [MemTable_NewIterator imm]"
  obtain ikvss where imm: "list_all2 (\<lambda>s kvs. \<exists>i. mem_at BytewiseComparator short_key s kvs i) ?imms ikvss"
    "(\<Union>xs\<in>set ikvss. set xs) = set (map add_kv iadds)" "length ikvss \<le> 1"
  proof (cases "db_imm d")
    case None
    then show ?thesis using that [of "[]"] m by (simp add: db_memtables_def)
  next
    case (Some im)
    then obtain ys where "memtable_holds BytewiseComparator short_key im iadds ys" using m by (auto simp: db_memtables_def)
    then show ?thesis using that [of "[map (mem_kv im) ys]"] Some bytewise_short.NewIterator_at bytewise_short.holds_entries
      by (auto simp del: set_map)
  qed
  let ?vkvss = "version_sources kvss ?v" and ?mkvs = "map (mem_kv mem) xs"
  note add = AddIterators_at(1) [OF one t, of ro, folded tc_def] AddIterators_at(2) [OF one t]
  have m_at: "mem_at BytewiseComparator short_key (MemTable_NewIterator mem) ?mkvs (length xs)" "set ?mkvs = set (map add_kv adds)"
    using bytewise_short.NewIterator_at [OF mem(2)] bytewise_short.holds_entries [OF mem(2)] by auto
  have vlen: "length ?vkvss \<le> 1" using one by (simp add: one_table_def Let_def version_sources_def)
  let ?kvss = "?mkvs # ikvss @ ?vkvss"
  let ?children = "map Inl (MemTable_NewIterator mem # ?imms) @ map Inr (fst (AddIterators sn files BytewiseComparator (file_at (db_versions d)) ?v ro tc))"
  have c: "list_all2 (\<lambda>s kvs. \<exists>i. ?at s kvs i) ?children ?kvss"
    using m_at(1) imm(1) add(1)
    by (auto simp: db_child_at_def list.rel_map intro!: list_all2_appendI elim!: list_all2_mono)
  have "merge_of bytewise_internal ?kvss kvs"
  proof (rule comparator_laws.merge_ofI [OF bytewise_short.internal.comparator_laws_axioms])
    show "kvs_sorted bytewise_internal kvs" by (rule kvs)
    have all: "\<exists>i s. ?at s ys i" if ys: "ys \<in> set ?kvss" for ys
    proof -
      obtain k where "k < length ?kvss" "?kvss ! k = ys" using ys unfolding in_set_conv_nth by blast
      then show ?thesis using list_all2_nthD2 [OF c, of k] by blast
    qed
    show "set kvs = (\<Union>xs\<in>set ?kvss. set xs)" using kvs(2) imm(2) add(2) m_at(2) by (simp add: db_entries_def Un_assoc)
    then have union: "set kvs = (\<Union>xs\<in>set ?kvss. set xs)" .
    show "keys_ok (internal_ok short_key) kvs"
      using all db_child.at_ok unfolding keys_ok_def union by (metis UN_E)
    show "kvs_sorted bytewise_internal ys" if "ys \<in> set ?kvss" for ys using all [OF that] db_child.at_sorted by blast
    have apart: "sorted_wrt (\<lambda>a b. set a \<inter> set b = {}) ?kvss"
    proof -
      have "set (map add_kv adds) \<inter> (set (map add_kv iadds) \<union> version_set_entries kvss d) = {}"
        "set (map add_kv iadds) \<inter> version_set_entries kvss d = {}"
        using lay newer_disjoint unfolding db_layered_def by blast+
      moreover have "sorted_wrt P zs" if "length zs \<le> 1" for P and zs :: "kv list list"
        using that by (cases zs) auto
      ultimately show ?thesis using imm(2,3) add(2) m_at(2) vlen
        by (simp only: sorted_wrt.simps sorted_wrt_append) (fastforce simp del: set_map)
    qed
    show "set (?kvss ! i) \<inter> set (?kvss ! j) = {}" if "i < length ?kvss" "j < length ?kvss" "i \<noteq> j" for i j
      using sorted_wrt_pairs [OF apart _ that] by (simp add: symp_def Int_commute)
  qed
  from db_child.NewMergingIterator_at [OF this c]
  show ?thesis unfolding NewInternalIterator_def Let_def user mem(1) tc_def [symmetric] vs_current_version_def [symmetric]
    by (auto simp: case_prod_beta)
qed


text \<open>The database iterator over them.\<close>

interpretation scan: db_iterator BytewiseComparator short_key "merged_ops bytewise_internal (db_child_ops sn files BytewiseComparator)"
  "merged_at bytewise_internal (internal_ok short_key) (db_child_ops sn files BytewiseComparator)
     (db_child_at sn files dbpath dbname opt kvss)" for sn files dbpath dbname opt kvss
  by (intro db_iterator.intro bytewise_short.user_comparator_axioms db_child.merged_iterator)

lemma add_kv_parses: "add_ok ok a \<Longrightarrow> ParseInternalKey (fst (add_kv a)) \<noteq> None"
  by (cases a) (auto simp: ParseInternalKey_ikey)

lemma db_entries_parse:
  assumes m: "db_memtables d adds iadds" and t: "db_tables sn files kvss d" and e: "e \<in> db_entries kvss d adds iadds"
  shows "ParseInternalKey (fst e) \<noteq> None"
proof -
  have "list_all (add_ok short_key) adds" "list_all (add_ok short_key) iadds"
    using m by (auto simp: db_memtables_def memtable_holds_def split: option.splits)
  moreover have "ParseInternalKey (fst e) \<noteq> None" if "e \<in> version_set_entries kvss d"
    using that t unfolding db_tables_def Let_def version_tables_def version_set_entries_def version_entries_def
    by (fastforce simp: stored_table_def Let_def entries_ok_def)
  ultimately show ?thesis using e add_kv_parses [of short_key] unfolding db_entries_def
    by (auto simp: list_all_iff simp del: add_kv.simps)
qed

lemma DB_NewIterator_at:
  assumes "db_memtables d adds iadds" "db_tables sn files kvss d" "db_layered kvss d adds iadds" "one_table kvss d"
    and "db_user d = BytewiseComparator" "kvs_sorted bytewise_internal kvs" "set kvs = db_entries kvss d adds iadds"
    and "read_snapshot ro d \<le> kMaxSequenceNumber" "list_all (move_ok short_key) ms"
    and "cursor_run BytewiseComparator (db_view (read_snapshot ro d) kvs) ms (length (db_view (read_snapshot ro d) kvs)) = Some es"
  shows "run_moves (db_iter_ops sn files BytewiseComparator) ms (fst (DB_NewIterator sn files ro d)) = Some es"
proof -
  let ?tc = "db_table_cache d"
  obtain it s seed d' where n: "NewInternalIterator sn files ro d = (it, s, seed, d')" by (metis prod_cases4)
  then have s: "s = vs_last_sequence (db_versions d)" by (auto simp: NewInternalIterator_def Let_def split: prod.splits)
  obtain i where at: "merged_at bytewise_internal (internal_ok short_key) (db_child_ops sn files BytewiseComparator)
      (db_child_at sn files (tc_dbpath ?tc) (tc_dbname ?tc) (tc_options ?tc) kvss) it kvs i"
    using NewInternalIterator_at [OF assms(1-7), of ro] n by auto
  have "internal_entries kvs" using db_entries_parse [OF assms(1,2)] assms(7) by (simp add: internal_entries_def)
  note start = scan.NewDBIterator_at [OF at this assms(8), of seed]
  have "fst (DB_NewIterator sn files ro d) = NewDBIterator it (read_snapshot ro d) seed"
    by (simp add: DB_NewIterator_def n s read_snapshot_def)
  then show ?thesis
    using iterator.run_at [OF scan.dbiter_iterator start assms(9,10)] by (simp add: db_iter_ops_def)
qed


section \<open>An example\<close>

text \<open>A database with two entries in its memtable over the table of the example version.\<close>

definition example_adds :: "mem_add list" where
  "example_adds = [(12, kTypeValue, [4], [5]), (13, kTypeDeletion, [1], [])]"

definition scan_db :: "memtable \<Rightarrow> db" where
  "scan_db mem =
     (DBImpl_new Options_default None ''p'' ''d'')\<lparr>db_mem := Some mem, db_table_cache := TableCache_new ''p'' ''d'' example_opt 100 None,
      db_versions := (VersionSet_new ''p'' ''d'' example_opt BytewiseComparator)
        \<lparr>vs_versions := [(0, example_version)], vs_current := Some 0, vs_files := (\<lambda>_. Some example_meta), vs_last_sequence := 13\<rparr>\<rparr>"

lemma example_entry_parts:
  "entry_user (ikey u q t, v) = u" "q \<le> kMaxSequenceNumber \<Longrightarrow> entry_seq (ikey u q t, v) = q"
  by (simp_all add: entry_user_def entry_seq_def drop_bit_Pack)

lemma scan_db_current:
  "vs_current_version (db_versions (scan_db mem)) = example_version" "file_at (db_versions (scan_db mem)) = (\<lambda>_. example_meta)"
  "version_set_entries [example_kvs] (scan_db mem) = set example_kvs"
  "db_user (scan_db mem) = BytewiseComparator" "vs_last_sequence (db_versions (scan_db mem)) = 13"
  "db_entries [example_kvs] (scan_db mem) example_adds [] = set (map add_kv example_adds) \<union> set example_kvs"
proof -
  show c: "vs_current_version (db_versions (scan_db mem)) = example_version" "file_at (db_versions (scan_db mem)) = (\<lambda>_. example_meta)"
    by (simp_all add: scan_db_def vs_current_version_def version_at_def file_at_def fun_eq_iff)
  show v: "version_set_entries [example_kvs] (scan_db mem) = set example_kvs"
    unfolding version_set_entries_def c by (rule example_version_facts(4))
  show "db_user (scan_db mem) = BytewiseComparator" "vs_last_sequence (db_versions (scan_db mem)) = 13"
    by (simp_all add: scan_db_def DBImpl_new_def Options_default_def split: prod.split)
  show "db_entries [example_kvs] (scan_db mem) example_adds [] = set (map add_kv example_adds) \<union> set example_kvs"
    unfolding db_entries_def v by simp
qed

lemma scan_db_layers:
  obtains mem where "db_memtables (scan_db mem) example_adds []" "db_tables port_snappy example_files [example_kvs] (scan_db mem)"
    "db_layered [example_kvs] (scan_db mem) example_adds []" "one_table [example_kvs] (scan_db mem)"
proof -
  obtain mem xs where mem: "memtable_holds BytewiseComparator short_key mem example_adds xs"
    using bytewise_short.MemTable_Adds_holds [OF memtable_holds_new, of example_adds]
    by (auto simp: example_adds_def short_key_def small_sequence_numbers kTypeValue_def kTypeDeletion_def)
  have "db_imm (scan_db mem) = None" "db_mem (scan_db mem) = Some mem"
    by (simp_all add: scan_db_def DBImpl_new_def split: prod.split)
  then have mems: "db_memtables (scan_db mem) example_adds []" using mem by (auto simp: db_memtables_def)
  have "tc_dbpath (db_table_cache (scan_db mem)) = ''p''" "tc_dbname (db_table_cache (scan_db mem)) = ''d''"
    "tc_options (db_table_cache (scan_db mem)) = example_opt" "db_table_cache (scan_db mem) = TableCache_new ''p'' ''d'' example_opt 100 None"
    "vs_current (db_versions (scan_db mem)) = Some 0" "vs_versions (db_versions (scan_db mem)) = [(0, example_version)]"
    by (simp_all add: scan_db_def TableCache_new_def)
  then have tables: "db_tables port_snappy example_files [example_kvs] (scan_db mem)"
    unfolding db_tables_def scan_db_current Let_def using example_version_facts(1-3) example_table_cache by simp
  have lay: "db_layered [example_kvs] (scan_db mem) example_adds []"
    unfolding db_layered_def scan_db_current by (auto simp: set_newer_def example_kvs_def example_adds_def example_entry_parts small_sequence_numbers)
  have "length (ver_files example_version) = kNumLevels" by (simp add: example_version_def kNumLevels_def)
  then have "version_ok BytewiseComparator short_key (\<lambda>_. example_meta) example_version"
    by (rule version_ok_small) (auto simp: example_level_files file_ok_def FileMetaData_new_def InternalKey_Compare_def example_meta_def
        kMaxSequenceNumber_def kTypeValue_def short_key_def)
  then have one: "one_table [example_kvs] (scan_db mem)"
    unfolding one_table_def scan_db_current Let_def
    by (auto simp: example_kvs_def example_entry_parts short_key_def example_version_def)
  show ?thesis by (rule that [OF mems tables lay one])
qed

definition example_all :: "kv list" where
  "example_all =
     [(ikey [1] 13 kTypeDeletion, []), (ikey [1] 9 kTypeValue, [7]), (ikey [4] 12 kTypeValue, [5]), (ikey [4] 8 kTypeValue, [6])]"

lemma example_all:
  "kvs_sorted bytewise_internal example_all" "set example_all = set (map add_kv example_adds) \<union> set example_kvs"
  by (auto simp: example_all_def example_adds_def example_kvs_def kvs_sorted_def InternalKey_Compare_def small_sequence_numbers
      kTypeValue_def kTypeDeletion_def Let_def PackSequenceAndType_def)

lemma example_view: "db_view 10 example_all = [([1], [7]), ([4], [6])]"
  by (simp add: db_view_def shown_def visible_def example_all_def ent_user_def ent_seq_def ent_type_def upt_rec All_less_Suc
      drop_bit_Pack ucast_Pack ExtractValueType_def small_sequence_numbers kTypeValue_def kTypeDeletion_def)

end
