(* ===== verification/CompactionWork.thy ===== *)
theory CompactionWork
  imports DbIterators DbFlush
begin

text \<open>
  The compaction work of \<open>db/db_impl.cpp\<close>: reading the inputs in order, dropping what no snapshot can see,
  writing and installing the outputs, and the background thread that picks the work. While the mutex is
  released, other threads act on the database: \<open>others n\<close> is what they do before turn \<open>n\<close> of the loop. The
  inputs are read as they were when the compaction began. Assertions are left out; the one in
  \<open>FinishCompactionOutputFile\<close> that the number of the output is not 0 never holds.
\<close>

section \<open>The outputs\<close>

record compaction_output =
  co_number :: u64
  co_file_size :: u64
  co_smallest :: bytes
  co_largest :: bytes

text \<open>The builder has the file of the output; there is one if and only if there is an open file.\<close>

record compaction_state =
  cp_compaction :: compaction
  cp_smallest_snapshot :: SequenceNumber
  cp_outputs :: "compaction_output list"
  cp_builder :: "table_builder option"
  cp_total_bytes :: u64

definition CompactionState_new :: "compaction \<Rightarrow> compaction_state" where
  "CompactionState_new c = \<lparr>cp_compaction = c, cp_smallest_snapshot = 0, cp_outputs = [], cp_builder = None, cp_total_bytes = 0\<rparr>"

definition change_output :: "(compaction_output \<Rightarrow> compaction_output) \<Rightarrow> compaction_state \<Rightarrow> compaction_state" where
  "change_output f cs = cs\<lparr>cp_outputs := butlast (cp_outputs cs) @ [f (last (cp_outputs cs))]\<rparr>"

definition OpenCompactionOutputFile :: "compaction_state \<Rightarrow> db \<Rightarrow> disk \<Rightarrow> status \<times> compaction_state \<times> db \<times> disk" where
  "OpenCompactionOutputFile cs d k =
     (let file_number = FILENUMBER_LDB;
          d = d\<lparr>db_pending_outputs := List.insert file_number (db_pending_outputs d)\<rparr>;
          out = \<lparr>co_number = file_number, co_file_size = 0, co_smallest = [], co_largest = []\<rparr>;
          cs = cs\<lparr>cp_outputs := cp_outputs cs @ [out]\<rparr>
      in case Posix_NewWritableFile (TableFileName (db_path d) (db_name d) file_number) k of
           (Inl s, k) \<Rightarrow> (s, cs, d, k)
         | (Inr f, k) \<Rightarrow> (OK, cs\<lparr>cp_builder := Some (TableBuilder_new (db_options d) f)\<rparr>, d, k))"

text \<open>\<open>s\<close> is the status of the input iterator.\<close>

definition FinishCompactionOutputFile ::
  "snappy \<Rightarrow> status \<Rightarrow> compaction_state \<Rightarrow> db \<Rightarrow> disk \<Rightarrow> status \<times> compaction_state \<times> db \<times> disk" where
  "FinishCompactionOutputFile sn s cs d k =
     (let builder = the (cp_builder cs); output_number = co_number (last (cp_outputs cs));
          current_entries = TableBuilder_NumEntries builder;
          (s, builder) = (if status_ok s then TableBuilder_Finish sn builder else (s, TableBuilder_Abandon builder));
          current_bytes = TableBuilder_FileSize builder;
          cs = (change_output (\<lambda>out. out\<lparr>co_file_size := current_bytes\<rparr>) cs)
                 \<lparr>cp_total_bytes := cp_total_bytes cs + current_bytes, cp_builder := None\<rparr>;
          (s, f) = (if status_ok s then wf_Sync (tb_file builder) else (s, tb_file builder));
          (s, k) = (if status_ok s then wf_Close f k else (s, wf_release f k))
      in if status_ok s \<and> current_entries > 0 then
           (case TableCache_NewIterator sn (Posix_NewRandomAccessFile k) ReadOptions_default output_number current_bytes (db_table_cache d) of
              (t, h, tc) \<Rightarrow>
                (it_status (table_iter_class sn (opt_comparator (db_options d))) t, cs,
                 d\<lparr>db_table_cache := (case h of None \<Rightarrow> tc | Some (h, _) \<Rightarrow> tc\<lparr>tc_cache := Cache_Release h (tc_cache tc)\<rparr>)\<rparr>, k))
         else (s, cs, d, k))"

definition InstallCompactionResults :: "compaction_state \<Rightarrow> db \<Rightarrow> disk \<Rightarrow> status \<times> db \<times> disk" where
  "InstallCompactionResults cs d k =
     (let c = cp_compaction cs; level = c_level c;
          edit = AddInputDeletions (file_at (db_versions d)) c (c_edit c);
          edit = fold (\<lambda>out. AddFile (level + 1) (co_number out) (co_file_size out) (co_smallest out) (co_largest out)) (cp_outputs cs) edit
      in db_LogAndApply edit d k)"

definition CleanupCompaction :: "compaction_state \<Rightarrow> db \<Rightarrow> disk \<Rightarrow> db \<times> disk" where
  "CleanupCompaction cs d k =
     (d\<lparr>db_pending_outputs := filter (\<lambda>n. n \<notin> co_number ` set (cp_outputs cs)) (db_pending_outputs d)\<rparr>,
      case cp_builder cs of None \<Rightarrow> k | Some b \<Rightarrow> wf_release (tb_file (TableBuilder_Abandon b)) k)"

section \<open>What is dropped\<close>

text \<open>The variables that the loop keeps about the current user key.\<close>

record compaction_scan =
  sc_user_key :: bytes
  sc_has_user_key :: bool
  sc_last_sequence :: SequenceNumber

definition compaction_scan_new :: compaction_scan where
  "compaction_scan_new = \<lparr>sc_user_key = [], sc_has_user_key = False, sc_last_sequence = kMaxSequenceNumber\<rparr>"

text \<open>\<open>is_base\<close> is the test \<open>IsBaseLevelForKey\<close>, which moves the indices that the compaction keeps.\<close>

definition drop_entry ::
  "comparator \<Rightarrow> (bytes \<Rightarrow> 'c \<Rightarrow> bool \<times> 'c) \<Rightarrow> SequenceNumber \<Rightarrow> bytes \<Rightarrow> compaction_scan \<Rightarrow> 'c \<Rightarrow>
     bool \<times> compaction_scan \<times> 'c" where
  "drop_entry user is_base oldest key sc c =
     (case ParseInternalKey key of
        None \<Rightarrow> (False, compaction_scan_new, c)
      | Some ik \<Rightarrow>
          let sc = (if \<not> sc_has_user_key sc \<or> Compare user (pk_user_key ik) (sc_user_key sc) \<noteq> 0
                    then \<lparr>sc_user_key = pk_user_key ik, sc_has_user_key = True, sc_last_sequence = kMaxSequenceNumber\<rparr>
                    else sc);
              (drop, c) =
                (if sc_last_sequence sc \<le> oldest then (True, c)
                 else if pk_type ik = kTypeDeletion \<and> pk_sequence ik \<le> oldest then is_base (pk_user_key ik) c
                 else (False, c))
          in (drop, sc\<lparr>sc_last_sequence := pk_sequence ik\<rparr>, c))"

section \<open>The loop\<close>

record 's compaction_run =
  cr_input :: 's
  cr_state :: compaction_state
  cr_scan :: compaction_scan
  cr_status :: status
  cr_db :: db
  cr_disk :: disk

text \<open>An entry that is kept goes to the output, which is opened and finished as needed.\<close>

definition keep_entry :: "'s iter_ops \<Rightarrow> snappy \<Rightarrow> 's compaction_run \<Rightarrow> 's compaction_run" where
  "keep_entry ops sn r =
     (let key = it_key ops (cr_input r);
          (s, cs, d, k) =
            (if cp_builder (cr_state r) = None then OpenCompactionOutputFile (cr_state r) (cr_db r) (cr_disk r)
             else (OK, cr_state r, cr_db r, cr_disk r))
      in if \<not> status_ok s then r\<lparr>cr_status := s, cr_state := cs, cr_db := d, cr_disk := k\<rparr>
         else
           let builder = the (cp_builder cs);
               cs = (if TableBuilder_NumEntries builder = 0 then change_output (\<lambda>out. out\<lparr>co_smallest := key\<rparr>) cs else cs);
               cs = change_output (\<lambda>out. out\<lparr>co_largest := key\<rparr>) cs;
               builder = TableBuilder_Add sn key (it_value ops (cr_input r)) builder;
               cs = cs\<lparr>cp_builder := Some builder\<rparr>;
               (s, cs, d, k) =
                 (if TableBuilder_FileSize builder \<ge> c_max_output_file_size (cp_compaction cs)
                  then FinishCompactionOutputFile sn (it_status ops (cr_input r)) cs d k
                  else (OK, cs, d, k))
           in r\<lparr>cr_status := s, cr_state := cs, cr_db := d, cr_disk := k\<rparr>)"

text \<open>One turn: a memtable that waits comes first, then the entry that the input stands at.\<close>

definition compaction_turn :: "'s iter_ops \<Rightarrow> snappy \<Rightarrow> int \<Rightarrow> 's compaction_run \<Rightarrow> 's compaction_run option" where
  "compaction_turn ops sn micros r =
     do {
       (d, k) \<leftarrow> (if db_imm (cr_db r) \<noteq> None then CompactMemTable sn micros (cr_db r) (cr_disk r) else Some (cr_db r, cr_disk r));
       let key = it_key ops (cr_input r);
       let vs = db_versions d;
       let (stop, c) = ShouldStopBefore (vs_cmp vs) (file_at vs) key (cp_compaction (cr_state r));
       let cs = (cr_state r)\<lparr>cp_compaction := c\<rparr>;
       let (s, cs, d, k) = (if stop \<and> cp_builder cs \<noteq> None then FinishCompactionOutputFile sn (it_status ops (cr_input r)) cs d k
                            else (OK, cs, d, k));
       let r = r\<lparr>cr_status := s, cr_state := cs, cr_db := d, cr_disk := k\<rparr>;
       if \<not> status_ok s then Some r
       else do {
         let (drop, sc, c) =
           drop_entry (db_user d) (IsBaseLevelForKey (db_versions d)) (cp_smallest_snapshot cs) key (cr_scan r) (cp_compaction cs);
         let r = r\<lparr>cr_scan := sc, cr_state := cs\<lparr>cp_compaction := c\<rparr>\<rparr>;
         let r = (if drop then r else keep_entry ops sn r);
         if \<not> status_ok (cr_status r) then Some r
         else map_option (\<lambda>it. r\<lparr>cr_input := it\<rparr>) (it_Next ops (cr_input r)) } }"

partial_function (option) compaction_loop ::
  "'s iter_ops \<Rightarrow> snappy \<Rightarrow> int \<Rightarrow> (nat \<Rightarrow> db \<times> disk \<Rightarrow> db \<times> disk) \<Rightarrow> nat \<Rightarrow> 's compaction_run \<Rightarrow> 's compaction_run option" where
  "compaction_loop ops sn micros others n r =
     (let (d, k) = others n (cr_db r, cr_disk r); r = r\<lparr>cr_db := d, cr_disk := k\<rparr>
      in if it_Valid ops (cr_input r) \<and> \<not> db_shutting_down d
         then (case compaction_turn ops sn micros r of
                 None \<Rightarrow> None
               | Some r \<Rightarrow> if status_ok (cr_status r) then compaction_loop ops sn micros others (n + 1) r else Some r)
         else Some r)"

section \<open>\<open>DoCompactionWork\<close>\<close>

definition compaction_bytes_read :: "version_set \<Rightarrow> compaction \<Rightarrow> int" where
  "compaction_bytes_read vs c = sum_list (map (\<lambda>f. uint (fm_file_size (file_at vs f))) (c_inputs0 c @ c_inputs1 c))"

text \<open>After the loop: the last output, the statistics, and the new version.\<close>

definition finish_compaction :: "'s iter_ops \<Rightarrow> snappy \<Rightarrow> int \<Rightarrow> 's compaction_run \<Rightarrow> status \<times> compaction_state \<times> db \<times> disk" where
  "finish_compaction ops sn micros r =
     (let s = (if status_ok (cr_status r) \<and> db_shutting_down (cr_db r) then IOError ''Deleting DB during compaction'' else cr_status r);
          (s, cs, d, k) =
            (if status_ok s \<and> cp_builder (cr_state r) \<noteq> None
             then FinishCompactionOutputFile sn (it_status ops (cr_input r)) (cr_state r) (cr_db r) (cr_disk r)
             else (s, cr_state r, cr_db r, cr_disk r));
          s = (if status_ok s then it_status ops (cr_input r) else s);
          stats = \<lparr>cs_micros = micros, cs_bytes_read = compaction_bytes_read (db_versions d) (cp_compaction cs),
                   cs_bytes_written = sum_list (map (\<lambda>out. uint (co_file_size out)) (cp_outputs cs))\<rparr>;
          d = add_stats (c_level (cp_compaction cs) + 1) stats d;
          (s, d, k) = (if status_ok s then InstallCompactionResults cs d k else (s, d, k))
      in (s, cs, if status_ok s then d else RecordBackgroundError s d, k))"

definition DoCompactionWork ::
  "snappy \<Rightarrow> int \<Rightarrow> (nat \<Rightarrow> db \<times> disk \<Rightarrow> db \<times> disk) \<Rightarrow> compaction_state \<Rightarrow> db \<Rightarrow> disk \<Rightarrow>
     (status \<times> compaction_state \<times> db \<times> disk) option" where
  "DoCompactionWork sn micros others cs d k =
     (let cs = cs\<lparr>cp_smallest_snapshot := smallest_snapshot d\<rparr>;
          files = Posix_NewRandomAccessFile k; vs = db_versions d;
          ops = merged_ops (InternalKeyComparator (vs_cmp vs)) (version_child_ops sn files (vs_cmp vs));
          (input, tc) = MakeInputIterator sn files vs (cp_compaction cs) (db_table_cache d)
      in do {
           input \<leftarrow> it_SeekToFirst ops input;
           r \<leftarrow> compaction_loop ops sn micros others 0
                  \<lparr>cr_input = input, cr_state = cs, cr_scan = compaction_scan_new, cr_status = OK,
                   cr_db = d\<lparr>db_table_cache := tc\<rparr>, cr_disk = k\<rparr>;
           Some (finish_compaction ops sn micros r) })"

end
