(* ===== verification/Background.thy ===== *)
theory Background
  imports CompactionWork
begin

text \<open>
  The background thread of \<open>db/db_impl.cpp\<close> and the manual compactions: \<open>BackgroundCompaction\<close> chooses between
  a waiting memtable, a manual compaction and the compaction that the version set picks; \<open>BackgroundCall\<close> is
  one run of the thread. The calls that wait for the thread are modelled for one client: while it waits the
  background thread runs, if it is scheduled.
\<close>

section \<open>The background thread\<close>

text \<open>A compaction that only moves a file to the next level.\<close>

definition move_file :: "compaction \<Rightarrow> db \<Rightarrow> disk \<Rightarrow> status \<times> db \<times> disk" where
  "move_file c d k =
     (let f = file_at (db_versions d) (hd (c_inputs0 c));
          edit = AddFile (c_level c + 1) (fm_number f) (fm_file_size f) (fm_smallest f) (fm_largest f)
                   (DeleteFile (c_level c) (fm_number f) (c_edit c));
          (s, d, k) = db_LogAndApply edit d k
      in (s, if status_ok s then d else RecordBackgroundError s d, k))"

text \<open>The destructor of a compaction drops the reference to its version if it still holds it.\<close>

definition Compaction_delete :: "compaction \<Rightarrow> db \<Rightarrow> db" where
  "Compaction_delete c d = d\<lparr>db_versions := snd (ReleaseInputs c (db_versions d))\<rparr>"

text \<open>The compaction \<open>c\<close>, if there is work to do.\<close>

definition run_compaction ::
  "snappy \<Rightarrow> int \<Rightarrow> (nat \<Rightarrow> db \<times> disk \<Rightarrow> db \<times> disk) \<Rightarrow> bool \<Rightarrow> compaction \<Rightarrow> db \<Rightarrow> disk \<Rightarrow> (status \<times> db \<times> disk) option" where
  "run_compaction sn micros others is_manual c d k =
     (if \<not> is_manual \<and> IsTrivialMove (file_at (db_versions d)) c
      then (let (s, d, k) = move_file c d k in Some (s, Compaction_delete c d, k))
      else do {
        (s, cs, d, k) \<leftarrow> DoCompactionWork sn micros others (CompactionState_new c) d k;
        let d = (if status_ok s then d else RecordBackgroundError s d);
        let (d, k) = CleanupCompaction cs d k;
        let (c, vs) = ReleaseInputs (cp_compaction cs) (db_versions d);
        let (d, k) = db_DeleteObsoleteFiles (d\<lparr>db_versions := vs\<rparr>) k;
        Some (s, Compaction_delete c d, k) })"

text \<open>The manual compaction as its caller finds it afterwards.\<close>

definition finish_manual :: "status \<Rightarrow> bytes \<Rightarrow> manual_compaction \<Rightarrow> manual_compaction" where
  "finish_manual s manual_end m =
     (let m = (if status_ok s then m else m\<lparr>mc_done := True\<rparr>)
      in if mc_done m then m else m\<lparr>mc_begin := Some manual_end\<rparr>)"

definition BackgroundCompaction ::
  "snappy \<Rightarrow> int \<Rightarrow> (nat \<Rightarrow> db \<times> disk \<Rightarrow> db \<times> disk) \<Rightarrow> db \<Rightarrow> disk \<Rightarrow> (manual_compaction option \<times> db \<times> disk) option" where
  "BackgroundCompaction sn micros others d k =
     (if db_imm d \<noteq> None then map_option (Pair None) (CompactMemTable sn micros d k)
      else
        case db_manual d of
          None \<Rightarrow>
            (case PickCompaction (db_versions d) of
               None \<Rightarrow> None
             | Some (None, vs) \<Rightarrow> Some (None, d\<lparr>db_versions := vs\<rparr>, k)
             | Some (Some c, vs) \<Rightarrow>
                 map_option (\<lambda>(s, d, k). (None, d, k)) (run_compaction sn micros others False c (d\<lparr>db_versions := vs\<rparr>) k))
        | Some m \<Rightarrow>
            (case VersionSet_CompactRange (mc_level m) (mc_begin m) (mc_end m) (db_versions d) of
               None \<Rightarrow> None
             | Some (None, vs) \<Rightarrow> Some (Some (finish_manual OK [] (m\<lparr>mc_done := True\<rparr>)), d\<lparr>db_versions := vs, db_manual := None\<rparr>, k)
             | Some (Some c, vs) \<Rightarrow>
                 let m = m\<lparr>mc_done := False\<rparr>; manual_end = fm_largest (file_at vs (last (c_inputs0 c)))
                 in map_option (\<lambda>(s, d, k). (Some (finish_manual s manual_end m), d\<lparr>db_manual := None\<rparr>, k))
                      (run_compaction sn micros others True c (d\<lparr>db_versions := vs\<rparr>) k)))"

definition BackgroundCall ::
  "snappy \<Rightarrow> int \<Rightarrow> (nat \<Rightarrow> db \<times> disk \<Rightarrow> db \<times> disk) \<Rightarrow> db \<Rightarrow> disk \<Rightarrow> (manual_compaction option \<times> db \<times> disk) option" where
  "BackgroundCall sn micros others d k =
     map_option (\<lambda>(m, d, k). (m, MaybeScheduleCompaction (d\<lparr>db_bg_scheduled := False\<rparr>), k))
       (if db_shutting_down d \<or> \<not> status_ok (db_bg_error d) then Some (None, d, k)
        else BackgroundCompaction sn micros others d k)"

section \<open>Waiting for it\<close>

text \<open>A wait on the condition variable: without a scheduled run nobody would signal it.\<close>

definition wait_background ::
  "snappy \<Rightarrow> int \<Rightarrow> (nat \<Rightarrow> db \<times> disk \<Rightarrow> db \<times> disk) \<Rightarrow> db \<Rightarrow> disk \<Rightarrow> (manual_compaction option \<times> db \<times> disk) option" where
  "wait_background sn micros others d k = (if db_bg_scheduled d then BackgroundCall sn micros others d k else None)"

definition manual_range :: "nat \<Rightarrow> bytes option \<Rightarrow> bytes option \<Rightarrow> manual_compaction" where
  "manual_range level lo hi =
     \<lparr>mc_level = level, mc_done = False, mc_begin = map_option (\<lambda>u. ikey u kMaxSequenceNumber kValueTypeForSeek) lo,
      mc_end = map_option (\<lambda>u. ikey u 0 0) hi\<rparr>"

partial_function (option) manual_loop ::
  "snappy \<Rightarrow> int \<Rightarrow> (nat \<Rightarrow> db \<times> disk \<Rightarrow> db \<times> disk) \<Rightarrow> manual_compaction \<Rightarrow> db \<Rightarrow> disk \<Rightarrow> (db \<times> disk) option" where
  "manual_loop sn micros others m d k =
     (if mc_done m \<or> db_shutting_down d \<or> \<not> status_ok (db_bg_error d) then Some (d\<lparr>db_manual := None\<rparr>, k)
      else if db_manual d = None
      then manual_loop sn micros others m (MaybeScheduleCompaction (d\<lparr>db_manual := Some m\<rparr>)) k
      else (case wait_background sn micros others d k of
              None \<Rightarrow> None
            | Some (m', d, k) \<Rightarrow> manual_loop sn micros others (case m' of None \<Rightarrow> m | Some m' \<Rightarrow> m') d k))"

definition TEST_CompactRange ::
  "snappy \<Rightarrow> int \<Rightarrow> (nat \<Rightarrow> db \<times> disk \<Rightarrow> db \<times> disk) \<Rightarrow> nat \<Rightarrow> bytes option \<Rightarrow> bytes option \<Rightarrow> db \<Rightarrow> disk \<Rightarrow> (db \<times> disk) option" where
  "TEST_CompactRange sn micros others level lo hi d k = manual_loop sn micros others (manual_range level lo hi) d k"

text \<open>The files that a turn of \<open>MakeRoomForWrite\<close> closes and creates: the old log and the new one.\<close>

definition switch_files :: "db \<Rightarrow> db \<Rightarrow> disk \<Rightarrow> disk" where
  "switch_files d d' k =
     (let k = (case db_log d of None \<Rightarrow> k | Some l \<Rightarrow> wf_release (lw_dest l) k)
      in case db_log d' of None \<Rightarrow> k | Some l \<Rightarrow> snd (Posix_NewWritableFile (wf_name (lw_dest l)) k))"

partial_function (option) make_room_waiting ::
  "snappy \<Rightarrow> int \<Rightarrow> (nat \<Rightarrow> db \<times> disk \<Rightarrow> db \<times> disk) \<Rightarrow> bool \<Rightarrow> bool \<Rightarrow> db \<Rightarrow> disk \<Rightarrow> (status \<times> db \<times> disk) option" where
  "make_room_waiting sn micros others force allow_delay d k =
     (case MakeRoom_turn (posix_env k) force allow_delay d of
        (RoomDone s, _, _, d) \<Rightarrow> Some (s, d, k)
      | (RoomSleep, force, allow_delay, d) \<Rightarrow> make_room_waiting sn micros others force allow_delay d k
      | (RoomWait, force, allow_delay, d) \<Rightarrow>
          (case wait_background sn micros others d k of
             None \<Rightarrow> None
           | Some (_, d, k) \<Rightarrow> make_room_waiting sn micros others force allow_delay d k)
      | (RoomAgain, force, allow_delay, d') \<Rightarrow> make_room_waiting sn micros others force allow_delay d' (switch_files d d' k))"

partial_function (option) wait_imm ::
  "snappy \<Rightarrow> int \<Rightarrow> (nat \<Rightarrow> db \<times> disk \<Rightarrow> db \<times> disk) \<Rightarrow> db \<Rightarrow> disk \<Rightarrow> (db \<times> disk) option" where
  "wait_imm sn micros others d k =
     (if db_imm d = None \<or> \<not> status_ok (db_bg_error d) then Some (d, k)
      else (case wait_background sn micros others d k of None \<Rightarrow> None | Some (_, d, k) \<Rightarrow> wait_imm sn micros others d k))"

text \<open>\<open>TEST_CompactMemTable\<close> of a client whose write \<open>i\<close> is the only one in the queue: a write without a batch, then the wait.\<close>

definition TEST_CompactMemTable ::
  "snappy \<Rightarrow> int \<Rightarrow> (nat \<Rightarrow> db \<times> disk \<Rightarrow> db \<times> disk) \<Rightarrow> nat \<Rightarrow> db \<Rightarrow> disk \<Rightarrow> (status \<times> db \<times> disk) option" where
  "TEST_CompactMemTable sn micros others i d k =
     (let (s, d) = Write_enqueue i False None d
      in if \<not> status_ok s then Some (s, d, k)
         else do {
           (s, d, k) \<leftarrow> make_room_waiting sn micros others True False d k;
           let (s, d) = Write_front s d;
           if status_ok s then do {
             (d, k) \<leftarrow> wait_imm sn micros others d k;
             Some (if db_imm d \<noteq> None then db_bg_error d else s, d, k) }
           else Some (s, d, k) })"

fun compact_levels ::
  "snappy \<Rightarrow> int \<Rightarrow> (nat \<Rightarrow> db \<times> disk \<Rightarrow> db \<times> disk) \<Rightarrow> bytes option \<Rightarrow> bytes option \<Rightarrow> nat list \<Rightarrow> db \<Rightarrow> disk \<Rightarrow> (db \<times> disk) option" where
  "compact_levels sn micros others lo hi [] d k = Some (d, k)"
| "compact_levels sn micros others lo hi (level # levels) d k =
     do { (d, k) \<leftarrow> TEST_CompactRange sn micros others level lo hi d k; compact_levels sn micros others lo hi levels d k }"

definition DB_CompactRange ::
  "snappy \<Rightarrow> int \<Rightarrow> (nat \<Rightarrow> db \<times> disk \<Rightarrow> db \<times> disk) \<Rightarrow> nat \<Rightarrow> bytes option \<Rightarrow> bytes option \<Rightarrow> db \<Rightarrow> disk \<Rightarrow> (db \<times> disk) option" where
  "DB_CompactRange sn micros others i lo hi d k =
     (let vs = db_versions d;
          max_level_with_files =
            fold (\<lambda>level n. if OverlapInLevel (vs_cmp vs) (file_at vs) (vs_current_version vs) level lo hi then level else n)
              [1..<kNumLevels] 1
      in do {
           (s, d, k) \<leftarrow> TEST_CompactMemTable sn micros others i d k;
           compact_levels sn micros others lo hi [0..<max_level_with_files] d k })"

end
