(* ===== verification/CompactionDrop.thy ===== *)
theory CompactionDrop
  imports CompactionWork CompactionProofs
begin

text \<open>
  What a compaction may drop. \<open>keeps\<close> is the specification: an entry goes when a newer one of its key is
  already visible to the oldest snapshot, or when it is a deletion that hides nothing in deeper levels. No
  reader at that snapshot or a later one can tell.
\<close>

definition hidden :: "SequenceNumber \<Rightarrow> kv option \<Rightarrow> kv \<Rightarrow> bool" where
  "hidden oldest prev e \<longleftrightarrow>
     (case prev of None \<Rightarrow> False | Some p \<Rightarrow> entry_user p = entry_user e \<and> entry_seq p \<le> oldest)"

inductive keeps :: "SequenceNumber \<Rightarrow> (bytes \<Rightarrow> bool) \<Rightarrow> kv option \<Rightarrow> kv list \<Rightarrow> kv list \<Rightarrow> bool" for oldest base where
  Nil: "keeps oldest base prev [] []"
| Hidden: "hidden oldest prev e \<Longrightarrow> keeps oldest base (Some e) es ks \<Longrightarrow> keeps oldest base prev (e # es) ks"
| Deletion: "entry_type e = kTypeDeletion \<Longrightarrow> entry_seq e \<le> oldest \<Longrightarrow> base (entry_user e) \<Longrightarrow> keeps oldest base (Some e) es ks \<Longrightarrow>
    keeps oldest base prev (e # es) ks"
| Keep: "\<not> hidden oldest prev e \<Longrightarrow> keeps oldest base (Some e) es ks \<Longrightarrow> keeps oldest base prev (e # es) (e # ks)"

inductive_cases keeps_Nil: "keeps oldest base prev [] ks"
inductive_cases keeps_Cons: "keeps oldest base prev (e # es) ks"

text \<open>Entries in the order of a compaction's input: by user key, and the newest of a key first.\<close>

definition newest_first :: "comparator \<Rightarrow> kv list \<Rightarrow> bool" where
  "newest_first cmp kvs \<longleftrightarrow>
     sorted_wrt (\<lambda>a b. Compare cmp (entry_user a) (entry_user b) < 0 \<or> entry_user a = entry_user b \<and> entry_seq b \<le> entry_seq a) kvs"

lemma keeps_subset: "keeps oldest base prev es ks \<Longrightarrow> set ks \<subseteq> set es"
  by (induction rule: keeps.induct) auto

lemma keeps_sorted: "keeps oldest base prev es ks \<Longrightarrow> sorted_wrt P es \<Longrightarrow> sorted_wrt P ks"
  by (induction rule: keeps.induct) (auto dest: keeps_subset)

text \<open>Of the entries of a key that the oldest snapshot can see, the newest stays, or is a deletion without anything deeper.\<close>

definition first_kept :: "SequenceNumber \<Rightarrow> (bytes \<Rightarrow> bool) \<Rightarrow> bytes \<Rightarrow> kv list \<Rightarrow> kv list \<Rightarrow> bool" where
  "first_kept oldest base u es ks \<longleftrightarrow>
     (\<exists>f\<in>set es. entry_user f = u \<and> entry_seq f \<le> oldest \<and>
        (\<forall>x\<in>set es. entry_user x = u \<and> entry_seq x \<le> oldest \<longrightarrow> entry_seq x \<le> entry_seq f) \<and>
        (f \<in> set ks \<or> entry_type f = kTypeDeletion \<and> base u \<and> (\<forall>x\<in>set ks. entry_user x = u \<longrightarrow> oldest < entry_seq x)))"

lemma first_kept_skip:
  assumes "first_kept oldest base u es ks" "\<not> (entry_user x = u \<and> entry_seq x \<le> oldest)"
  shows "first_kept oldest base u (x # es) ks" "first_kept oldest base u (x # es) (x # ks)"
proof -
  obtain f where f: "f \<in> set es" "entry_user f = u" "entry_seq f \<le> oldest"
    "\<forall>x\<in>set es. entry_user x = u \<and> entry_seq x \<le> oldest \<longrightarrow> entry_seq x \<le> entry_seq f"
    "f \<in> set ks \<or> entry_type f = kTypeDeletion \<and> base u \<and> (\<forall>x\<in>set ks. entry_user x = u \<longrightarrow> oldest < entry_seq x)"
    using assms(1) unfolding first_kept_def by blast
  have x: "entry_user x = u \<longrightarrow> oldest < entry_seq x" using assms(2) by auto
  show "first_kept oldest base u (x # es) ks" "first_kept oldest base u (x # es) (x # ks)"
    unfolding first_kept_def using f x assms(2) by (intro bexI [of _ f]; auto)+
qed

context user_comparator
begin

lemma entries_newest_first: "entries_ok cmp ok kvs \<Longrightarrow> newest_first cmp kvs"
  unfolding newest_first_def entries_ok_def kvs_sorted_def sorted_wrt_iff_nth_less
proof (intro allI impI)
  fix i j
  assume a: "(\<forall>i j. i < j \<longrightarrow> j < length kvs \<longrightarrow> Compare (InternalKeyComparator cmp) (fst (kvs ! i)) (fst (kvs ! j)) < 0) \<and>
      keys_ok (internal_ok ok) kvs \<and> (\<forall>e\<in>set kvs. ParseInternalKey (fst e) \<noteq> None)" and ij: "i < j" "j < length kvs"
  have ok: "internal_ok ok (fst (kvs ! i))" "internal_ok ok (fst (kvs ! j))"
    using a ij keys_ok_nth [of "internal_ok ok" kvs] by simp_all
  have c: "InternalKey_Compare cmp (fst (kvs ! i)) (fst (kvs ! j)) < 0" using a ij by simp
  show "Compare cmp (entry_user (kvs ! i)) (entry_user (kvs ! j)) < 0 \<or>
      entry_user (kvs ! i) = entry_user (kvs ! j) \<and> entry_seq (kvs ! j) \<le> entry_seq (kvs ! i)"
  proof (cases "entry_user (kvs ! i) = entry_user (kvs ! j)")
    case True
    then show ?thesis using entry_less_newer [OF ok c] by simp
  next
    case False
    then show ?thesis using InternalKey_Compare_less [OF ok] c by (auto simp: entry_user_def)
  qed
qed

lemma newest_first_passed:
  assumes n: "newest_first cmp (p # e # es)" and ok: "\<forall>x\<in>set (p # e # es). ok (entry_user x)"
    and ne: "entry_user e \<noteq> entry_user p" and x: "x \<in> set (e # es)"
  shows "entry_user x \<noteq> entry_user p"
proof
  assume eq: "entry_user x = entry_user p"
  have lt: "Compare cmp (entry_user p) (entry_user e) < 0" using n ne by (auto simp: newest_first_def)
  have "x \<in> set es" using x ne eq by auto
  then have "Compare cmp (entry_user e) (entry_user x) < 0 \<or> entry_user e = entry_user x" using n by (auto simp: newest_first_def)
  then have "Compare cmp (entry_user e) (entry_user p) < 0" using ne by (simp add: eq)
  then have "Compare cmp (entry_user p) (entry_user p) < 0" using compare_trans [OF _ _ _ lt] ok by auto
  then show False using compare_refl ok by simp
qed

text \<open>Once an entry of the key is visible to the oldest snapshot, all that follow are dropped.\<close>

lemma keeps_after:
  assumes "keeps oldest base prev es ks" "newest_first cmp (p # es)" "prev = Some p" "\<forall>e\<in>set (p # es). ok (entry_user e)"
    "entry_seq p \<le> oldest"
  shows "\<forall>e\<in>set ks. entry_user e \<noteq> entry_user p"
  using assms
proof (induction arbitrary: p rule: keeps.induct)
  case (Keep prev e es ks)
  have "entry_user e \<noteq> entry_user p" using Keep.hyps(1) Keep.prems(2,4) by (auto simp: hidden_def)
  from newest_first_passed [OF Keep.prems(1,3) this] show ?case using keeps_subset [OF Keep.hyps(2)] by auto
next
  case (Hidden prev e es ks)
  have e: "entry_user e = entry_user p" using Hidden.hyps(1) Hidden.prems(2) by (simp add: hidden_def)
  then have "entry_seq e \<le> entry_seq p" using Hidden.prems(1,3) compare_refl by (auto simp: newest_first_def)
  then have "entry_seq e \<le> oldest" using Hidden.prems(4) by simp
  then have "\<forall>x\<in>set ks. entry_user x \<noteq> entry_user e"
    using Hidden.IH [of e] Hidden.prems(1,3) by (simp add: newest_first_def)
  then show ?case by (simp add: e)
next
  case (Deletion e es ks prev)
  show ?case
  proof (cases "entry_user e = entry_user p")
    case True
    have "\<forall>x\<in>set ks. entry_user x \<noteq> entry_user e"
      using Deletion.IH [of e] Deletion.hyps(2) Deletion.prems(1,3) by (simp add: newest_first_def)
    then show ?thesis by (simp add: True)
  next
    case False
    from newest_first_passed [OF Deletion.prems(1,3) this] show ?thesis using keeps_subset [OF Deletion.hyps(4)] by auto
  qed
qed simp

text \<open>Entries above the oldest snapshot stay.\<close>

lemma keeps_recent:
  assumes "keeps oldest base prev es ks" "\<And>p. prev = Some p \<Longrightarrow> newest_first cmp (p # es)" "newest_first cmp es" "\<forall>e\<in>set es. ok (entry_user e)"
    "e \<in> set es" "oldest < entry_seq e"
  shows "e \<in> set ks"
  using assms
proof (induction rule: keeps.induct)
  case (Hidden prev x es ks)
  obtain p where p: "prev = Some p" "entry_user p = entry_user x" "entry_seq p \<le> oldest"
    using Hidden.hyps(1) by (auto simp: hidden_def split: option.splits)
  have "entry_seq x \<le> entry_seq p"
    using Hidden.prems(1) [OF p(1)] Hidden.prems(3) p(2) compare_refl by (auto simp: newest_first_def)
  then have "e \<in> set es" using Hidden.prems(4,5) p(3) by auto
  then show ?case using Hidden.IH Hidden.prems(2,3,5) by (simp add: newest_first_def)
next
  case (Deletion x es ks prev)
  then have "e \<in> set es" by auto
  then show ?case using Deletion.IH Deletion.prems(2,3,5) by (simp add: newest_first_def)
next
  case (Keep prev x es ks)
  then show ?case by (auto simp: newest_first_def)
qed simp

text \<open>Of the others the first of each key stays, unless it is a deletion and nothing of the key is deeper.\<close>

lemma keeps_first:
  assumes "keeps oldest base prev es ks" "newest_first cmp es" "\<forall>e\<in>set es. ok (entry_user e)"
    "\<And>p. prev = Some p \<Longrightarrow> entry_user p = u \<Longrightarrow> oldest < entry_seq p" "\<exists>e\<in>set es. entry_user e = u \<and> entry_seq e \<le> oldest"
  shows "first_kept oldest base u es ks"
  using assms
proof (induction rule: keeps.induct)
  case (Hidden prev x es ks)
  have x: "entry_user x \<noteq> u" using Hidden.hyps(1) Hidden.prems(3) by (fastforce simp: hidden_def split: option.splits)
  then have "first_kept oldest base u es ks"
    by (intro Hidden.IH) (use Hidden.prems(1,2,4) in \<open>auto simp: newest_first_def\<close>)
  then show ?case by (rule first_kept_skip) (simp add: x)
next
  case (Deletion x es ks prev)
  show ?case
  proof (cases "entry_user x = u")
    case True
    have "\<forall>y\<in>set ks. entry_user y \<noteq> u"
      using keeps_after [OF Deletion.hyps(4), of x] Deletion.prems(1,2) Deletion.hyps(2) True by simp
    moreover have "entry_seq y \<le> entry_seq x" if "y \<in> set es" "entry_user y = u" for y
      using Deletion.prems(1,2) that True compare_refl by (auto simp: newest_first_def)
    ultimately show ?thesis using Deletion.hyps(1-3) True unfolding first_kept_def by (intro bexI [of _ x]) auto
  next
    case False
    then have "first_kept oldest base u es ks"
      by (intro Deletion.IH) (use Deletion.prems(1,2,4) in \<open>auto simp: newest_first_def\<close>)
    then show ?thesis by (rule first_kept_skip) (simp add: False)
  qed
next
  case (Keep prev x es ks)
  show ?case
  proof (cases "entry_user x = u \<and> entry_seq x \<le> oldest")
    case True
    have "entry_seq y \<le> entry_seq x" if "y \<in> set es" "entry_user y = u" for y
      using Keep.prems(1,2) that True compare_refl by (auto simp: newest_first_def)
    then show ?thesis using True unfolding first_kept_def by (intro bexI [of _ x]) auto
  next
    case False
    then have "first_kept oldest base u es ks"
      by (intro Keep.IH) (use Keep.prems(1,2,4) in \<open>auto simp: newest_first_def\<close>)
    then show ?thesis by (rule first_kept_skip) (use False in auto)
  qed
qed simp


text \<open>
  Every answer that a read may get after the compaction it may get before. \<open>upper\<close> are the entries above the
  inputs and \<open>deeper\<close> those below them.
\<close>

lemma keeps_answers:
  assumes k: "keeps oldest base None kvs ks" and n: "newest_first cmp kvs" and ok: "\<forall>e\<in>set kvs. ok (entry_user e)"
    and s: "oldest \<le> s" and deeper: "\<forall>e\<in>deeper. \<not> base (entry_user e)"
    and newer: "set_newer upper (set kvs \<union> deeper)" "set_newer (set kvs) deeper"
    and a: "newest_answer (upper \<union> set ks \<union> deeper) u s val a"
  shows "newest_answer (upper \<union> set kvs \<union> deeper) u s val a"
proof -
  have sub: "set ks \<subseteq> set kvs" by (rule keeps_subset [OF k])
  have stays: "e \<in> set ks" if "e \<in> set kvs" "oldest < entry_seq e" for e
    by (rule keeps_recent [OF k _ n ok that]) simp
  consider (upper) x where "x \<in> upper" "visible_to u s x"
    | (recent) x where "\<forall>x\<in>upper. \<not> visible_to u s x" "x \<in> set kvs" "visible_to u s x" "oldest < entry_seq x"
    | (first) x where "\<forall>x\<in>upper. \<not> visible_to u s x" "x \<in> set kvs" "visible_to u s x"
        "\<forall>x\<in>set kvs. visible_to u s x \<longrightarrow> entry_seq x \<le> oldest"
    | (none) "\<forall>x\<in>upper \<union> set kvs. \<not> visible_to u s x"
    by (metis UnE not_le)
  then show ?thesis
  proof cases
    case upper
    then obtain e where e: "entries_newest (upper \<union> set ks \<union> deeper) u s e" "a = get_answer val (Some e)"
      using a unfolding newest_answer_def by (metis UnI1)
    have "e \<in> upper"
    proof (rule ccontr)
      assume "e \<notin> upper"
      then have "e \<in> set kvs \<union> deeper" using e(1) sub by (auto simp: entries_newest_def)
      then have "entry_seq e < entry_seq x" using newer(1) upper e(1) by (auto simp: set_newer_def entries_newest_def visible_to_def)
      then show False using e(1) upper by (auto simp: entries_newest_def)
    qed
    then have "entries_newest upper u s e" using e(1) by (auto simp: entries_newest_def)
    then have "entries_newest (upper \<union> (set kvs \<union> deeper)) u s e" by (rule newest_in_front [OF _ newer(1)])
    then show ?thesis using newest_answerI e(2) by (simp add: Un_assoc)
  next
    case recent
    then have "x \<in> set ks" using stays recent(2,4) by blast
    then obtain e where e: "entries_newest (upper \<union> set ks \<union> deeper) u s e" "a = get_answer val (Some e)"
      using a recent(3) unfolding newest_answer_def by (metis UnI1 UnI2)
    have ge: "entry_seq x \<le> entry_seq e" using e(1) \<open>x \<in> set ks\<close> recent(3) by (auto simp: entries_newest_def)
    have "e \<notin> deeper" using newer(2) recent(2,3) ge e(1) by (fastforce simp: set_newer_def entries_newest_def visible_to_def)
    then have ek: "e \<in> set ks" using e(1) recent(1) by (auto simp: entries_newest_def)
    have "entry_seq y \<le> entry_seq e" if "y \<in> set kvs" "visible_to u s y" for y
      using recent(4) ge e(1) that stays [OF that(1)]
      by (cases "oldest < entry_seq y") (auto simp: entries_newest_def)
    then have "entries_newest (upper \<union> set kvs \<union> deeper) u s e" using e(1) ek sub by (auto simp: entries_newest_def)
    then show ?thesis using newest_answerI e(2) by simp
  next
    case first
    have u: "entry_user x = u" "entry_seq x \<le> oldest" using first(2-4) by (auto simp: visible_to_def)
    have "first_kept oldest base u kvs ks" by (rule keeps_first [OF k n ok]) (use first(2) u in auto)
    then obtain f where f: "f \<in> set kvs" "entry_user f = u" "entry_seq f \<le> oldest"
      "\<forall>x\<in>set kvs. entry_user x = u \<and> entry_seq x \<le> oldest \<longrightarrow> entry_seq x \<le> entry_seq f"
      "f \<in> set ks \<or> entry_type f = kTypeDeletion \<and> base u \<and> (\<forall>x\<in>set ks. entry_user x = u \<longrightarrow> oldest < entry_seq x)"
      unfolding first_kept_def by blast
    have vis: "visible_to u s f" using f(2,3) s by (simp add: visible_to_def)
    have best: "entry_seq y \<le> entry_seq f" if "y \<in> set kvs" "visible_to u s y" for y
      using that first(4) f(4) by (auto simp: visible_to_def)
    have below: "entry_seq y < entry_seq f" if "y \<in> deeper" "visible_to u s y" for y
      using newer(2) that f(1,2) by (auto simp: set_newer_def visible_to_def)
    from f(5) show ?thesis
    proof
      assume fk: "f \<in> set ks"
      then obtain e where e: "entries_newest (upper \<union> set ks \<union> deeper) u s e" "a = get_answer val (Some e)"
        using a vis unfolding newest_answer_def by (metis UnI1 UnI2)
      have ge: "entry_seq f \<le> entry_seq e" using e(1) fk vis by (auto simp: entries_newest_def)
      have "e \<notin> deeper" using below [of e] ge e(1) by (auto simp: entries_newest_def)
      then have "e \<in> set ks" using e(1) first(1) by (auto simp: entries_newest_def)
      then have "entries_newest (upper \<union> set kvs \<union> deeper) u s e"
        using e(1) sub best below ge first(1) unfolding entries_newest_def by (meson UnE UnI1 UnI2 less_imp_le order_trans subsetD)
      then show ?thesis using newest_answerI e(2) by simp
    next
      assume gone: "entry_type f = kTypeDeletion \<and> base u \<and> (\<forall>x\<in>set ks. entry_user x = u \<longrightarrow> oldest < entry_seq x)"
      have "\<not> visible_to u s y" if "y \<in> upper \<union> set ks \<union> deeper" for y
        using that first(1,4) gone deeper sub by (fastforce simp: visible_to_def)
      then have "a = get_answer val None" using a unfolding newest_answer_def by (meson)
      moreover have "get_answer val (Some f) = get_answer val None"
        using gone by (simp add: get_answer_def kTypeDeletion_def kTypeValue_def)
      moreover have "entries_newest (upper \<union> set kvs \<union> deeper) u s f"
        using f(1) vis best below first(1) unfolding entries_newest_def by (meson UnE UnI1 UnI2 less_imp_le)
      ultimately show ?thesis using newest_answerI by metis
    qed
  next
    case none
    have "(\<exists>e\<in>upper \<union> set ks \<union> deeper. visible_to u s e) = (\<exists>e\<in>upper \<union> set kvs \<union> deeper. visible_to u s e)"
      using none sub by blast
    moreover have "entries_newest (upper \<union> set kvs \<union> deeper) u s e" if "entries_newest (upper \<union> set ks \<union> deeper) u s e" for e
      using that none sub unfolding entries_newest_def by blast
    ultimately show ?thesis using a unfolding newest_answer_def by meson
  qed
qed

end

end
