(* ===== verification/CompactionOutputs.thy ===== *)
theory CompactionOutputs
  imports CompactionDrop
begin

text \<open>
  The loop of \<open>DoCompactionWork\<close> implements the specification of what is dropped, and its outputs list exactly
  the kept entries, in order, with the range of each output.
\<close>

section \<open>Which keys are base\<close>

text \<open>
  The contract of the test for deeper entries: asked for keys that do not decrease, it keeps its invariant and
  only says yes for keys without deeper entries.
\<close>

locale base_level_test = user_comparator cmp ok
  for cmp :: comparator and ok :: "bytes \<Rightarrow> bool" +
  fixes is_base :: "bytes \<Rightarrow> 'c \<Rightarrow> bool \<times> 'c" and inv :: "'c \<Rightarrow> bytes \<Rightarrow> bool" and base :: "bytes \<Rightarrow> bool"
  assumes is_base: "ok k \<Longrightarrow> ok k' \<Longrightarrow> Compare cmp k k' \<le> 0 \<Longrightarrow> inv c k \<Longrightarrow> is_base k' c = (b, c') \<Longrightarrow> inv c' k' \<and> (b \<longrightarrow> base k')"

text \<open>What the loop knows after an entry.\<close>

definition scan_after :: "kv option \<Rightarrow> compaction_scan" where
  "scan_after prev =
     (case prev of None \<Rightarrow> compaction_scan_new
      | Some e \<Rightarrow> \<lparr>sc_user_key = entry_user e, sc_has_user_key = True, sc_last_sequence = entry_seq e\<rparr>)"

context base_level_test
begin

lemma drop_entry_at:
  assumes e: "ParseInternalKey (fst e) \<noteq> None" "ok (entry_user e)" and prev: "\<And>p. prev = Some p \<Longrightarrow> ok (entry_user p)"
    and old: "oldest < kMaxSequenceNumber" and c: "ok k" "inv c k" "Compare cmp k (entry_user e) \<le> 0"
    and d: "drop_entry cmp is_base oldest (fst e) (scan_after prev) c = (dr, sc, c')"
  shows "sc = scan_after (Some e)" "\<exists>k'. ok k' \<and> inv c' k' \<and> Compare cmp k' (entry_user e) \<le> 0"
    "keeps oldest base (Some e) es ks \<Longrightarrow> keeps oldest base prev (e # es) (if dr then ks else e # ks)"
proof -
  have p: "ParseInternalKey (fst e) = Some \<lparr>pk_user_key = entry_user e, pk_sequence = entry_seq e, pk_type = entry_type e\<rparr>"
    using Parse_parts(1) [OF e(1)] by (simp add: entry_user_def entry_seq_def entry_type_def)
  have first: "(if \<not> sc_has_user_key (scan_after prev) \<or> Compare cmp (entry_user e) (sc_user_key (scan_after prev)) \<noteq> 0
      then \<lparr>sc_user_key = entry_user e, sc_has_user_key = True, sc_last_sequence = kMaxSequenceNumber\<rparr> else scan_after prev) =
    \<lparr>sc_user_key = entry_user e, sc_has_user_key = True,
     sc_last_sequence = (case prev of None \<Rightarrow> kMaxSequenceNumber
       | Some p \<Rightarrow> if entry_user p = entry_user e then entry_seq p else kMaxSequenceNumber)\<rparr>"
    using compare_eq_iff [OF e(2) prev] by (auto simp: scan_after_def compaction_scan_new_def split: option.split)
  have hid: "(case prev of None \<Rightarrow> kMaxSequenceNumber
       | Some p \<Rightarrow> if entry_user p = entry_user e then entry_seq p else kMaxSequenceNumber) \<le> oldest \<longleftrightarrow> hidden oldest prev e"
    using old by (auto simp: hidden_def split: option.split)
  let ?del = "entry_type e = kTypeDeletion \<and> entry_seq e \<le> oldest"
  obtain b c1 where b: "is_base (entry_user e) c = (b, c1)" by fastforce
  have eq: "(dr, sc, c') = (if hidden oldest prev e then True else if ?del then b else False, scan_after (Some e),
      if hidden oldest prev e then c else if ?del then c1 else c)"
    using d unfolding drop_entry_def p option.case Let_def ParsedInternalKey.select_convs first compaction_scan.select_convs hid b
    by (auto simp: scan_after_def split: if_splits)
  note inv = is_base [OF c(1) e(2) c(3,2) b]
  show "sc = scan_after (Some e)" using eq by simp
  show "\<exists>k'. ok k' \<and> inv c' k' \<and> Compare cmp k' (entry_user e) \<le> 0"
    using eq c inv e(2) compare_refl [OF e(2)] by (cases "c' = c") (auto split: if_splits)
  show "keeps oldest base prev (e # es) (if dr then ks else e # ks)" if "keeps oldest base (Some e) es ks"
    using eq inv keeps.Hidden [OF _ that] keeps.Deletion [OF _ _ _ that] keeps.Keep [OF _ that] by (auto split: if_splits)
qed

end

section \<open>The model's test\<close>

definition base_level :: "version_set \<Rightarrow> nat \<Rightarrow> nat \<Rightarrow> bytes \<Rightarrow> bool" where
  "base_level vs level v u \<longleftrightarrow>
     (\<forall>lvl<kNumLevels. level + 2 \<le> lvl \<longrightarrow>
        (\<forall>f\<in>set (level_files (version_at vs v) lvl). \<not> key_in_file BytewiseComparator u (file_at vs f)))"

definition base_inv :: "version_set \<Rightarrow> nat \<Rightarrow> nat \<Rightarrow> compaction \<Rightarrow> bytes \<Rightarrow> bool" where
  "base_inv vs level v c k \<longleftrightarrow> vs_cmp vs = BytewiseComparator \<and>
     version_ok BytewiseComparator (\<lambda>_. True) (file_at vs) (version_at vs v) \<and>
     c_level c = level \<and> c_input_version c = Some v \<and> ptrs_inv BytewiseComparator vs c k"

interpretation base_level: base_level_test BytewiseComparator "\<lambda>_. True" "IsBaseLevelForKey vs" "base_inv vs level v" "base_level vs level v"
  for vs level v
proof unfold_locales
  fix k k' c b c'
  assume "Compare BytewiseComparator k k' \<le> 0" "base_inv vs level v c k" "IsBaseLevelForKey vs k' c = (b, c')"
  then show "base_inv vs level v c' k' \<and> (b \<longrightarrow> base_level vs level v k')"
    using user_comparator.IsBaseLevelForKey_spec [OF bytewise_user.user_comparator_axioms, of vs c k k']
    by (auto simp: base_inv_def base_level_def)
qed

lemma grandparent_loop_fields:
  "c_level (grandparent_loop cmp fs k c) = c_level c \<and> c_level_ptrs (grandparent_loop cmp fs k c) = c_level_ptrs c \<and>
   c_input_version (grandparent_loop cmp fs k c) = c_input_version c \<and>
   c_max_output_file_size (grandparent_loop cmp fs k c) = c_max_output_file_size c"
proof (induction cmp fs k c rule: grandparent_loop.induct)
  case (1 cmp fs k c)
  then show ?case by (subst (1 2 3 4) grandparent_loop.simps) simp
qed

lemma ShouldStopBefore_inv:
  "ShouldStopBefore cmp fs key c = (stop, c') \<Longrightarrow> base_inv vs level v c' k = base_inv vs level v c k"
  using grandparent_loop_fields [of cmp fs key c]
  by (auto simp: ShouldStopBefore_def Let_def base_inv_def ptrs_inv_def split: if_splits)


section \<open>The outputs\<close>

definition output_range :: "compaction_output \<Rightarrow> kv list \<Rightarrow> bool" where
  "output_range out g \<longleftrightarrow> g \<noteq> [] \<and> co_smallest out = fst (hd g) \<and> co_largest out = fst (last g)"

text \<open>\<open>groups\<close> are the entries of the finished outputs and \<open>cur\<close> those of the open one.\<close>

definition outputs_at :: "compaction_state \<Rightarrow> kv list list \<Rightarrow> kv list \<Rightarrow> bool" where
  "outputs_at cs groups cur \<longleftrightarrow>
     (case cp_builder cs of
        None \<Rightarrow> cur = [] \<and> list_all2 output_range (cp_outputs cs) groups
      | Some b \<Rightarrow> cur \<noteq> [] \<and>
          (\<exists>outs out. cp_outputs cs = outs @ [out] \<and> list_all2 output_range outs groups \<and> co_largest out = fst (last cur) \<and>
             (TableBuilder_ok b \<longrightarrow> tb_num_entries b = length cur \<and> co_smallest out = fst (hd cur))))"

text \<open>Opening and finishing outputs changes nothing else in the database than the table cache and the pending outputs.\<close>

definition same_view :: "db \<Rightarrow> db \<Rightarrow> bool" where
  "same_view d d' \<longleftrightarrow> d'\<lparr>db_table_cache := db_table_cache d, db_pending_outputs := db_pending_outputs d\<rparr> = d"

lemma same_view_refl: "same_view d d"
  by (simp add: same_view_def)

lemma same_view_trans:
  assumes "same_view a b" "same_view b c"
  shows "same_view a c"
proof -
  have "c\<lparr>db_table_cache := db_table_cache a, db_pending_outputs := db_pending_outputs a\<rparr> =
      (c\<lparr>db_table_cache := db_table_cache b, db_pending_outputs := db_pending_outputs b\<rparr>)
        \<lparr>db_table_cache := db_table_cache a, db_pending_outputs := db_pending_outputs a\<rparr>" by simp
  then show ?thesis using assms unfolding same_view_def by simp
qed

lemma same_view_fields:
  assumes "same_view d d'"
  shows "db_versions d' = db_versions d" "db_user d' = db_user d" "db_imm d' = db_imm d" "db_shutting_down d' = db_shutting_down d"
  using arg_cong [OF assms [unfolded same_view_def], of db_versions] arg_cong [OF assms [unfolded same_view_def], of db_user]
    arg_cong [OF assms [unfolded same_view_def], of db_imm] arg_cong [OF assms [unfolded same_view_def], of db_shutting_down]
  by simp_all

definition same_compaction :: "compaction_state \<Rightarrow> compaction_state \<Rightarrow> bool" where
  "same_compaction cs cs' \<longleftrightarrow> cp_compaction cs' = cp_compaction cs \<and> cp_smallest_snapshot cs' = cp_smallest_snapshot cs"

lemma Finish_not_ok: "\<not> TableBuilder_ok b \<Longrightarrow> \<not> status_ok (fst (TableBuilder_Finish sn b))"
  by (auto simp: TableBuilder_Finish_def TableBuilder_Flush_def TableBuilder_ok_def Let_def split: option.splits)

lemma FinishCompaction_frame:
  assumes "FinishCompactionOutputFile sn s cs d k = (s', cs', d', k')"
  shows "same_view d d'" "same_compaction cs cs'" "cp_builder cs' = None"
  using assms
  by (auto simp: FinishCompactionOutputFile_def Let_def change_output_def same_compaction_def same_view_def
      split: prod.splits if_splits)

lemma FinishCompaction_outputs:
  assumes at: "outputs_at cs groups cur" "cp_builder cs \<noteq> None"
    and f: "FinishCompactionOutputFile sn s cs d k = (s', cs', d', k')" "status_ok s'"
  shows "outputs_at cs' (groups @ [cur]) []"
proof -
  obtain b outs out where b: "cp_builder cs = Some b" "cur \<noteq> []" "cp_outputs cs = outs @ [out]" "list_all2 output_range outs groups"
    "co_largest out = fst (last cur)" "TableBuilder_ok b \<longrightarrow> co_smallest out = fst (hd cur)"
    using at by (auto simp: outputs_at_def)
  obtain s1 b1 where fin: "TableBuilder_Finish sn b = (s1, b1)" by fastforce
  have "status_ok s" "status_ok s1"
    using f b(1) fin by (auto simp: FinishCompactionOutputFile_def Let_def split: prod.splits if_splits)
  then have ok: "TableBuilder_ok b" using Finish_not_ok [of b sn] fin by auto
  have "cp_outputs cs' = outs @ [out\<lparr>co_file_size := TableBuilder_FileSize b1\<rparr>]" "cp_builder cs' = None"
    using f b(1,3) fin \<open>status_ok s\<close>
    by (auto simp: FinishCompactionOutputFile_def Let_def change_output_def split: prod.splits if_splits)
  then show ?thesis using b ok by (auto simp: outputs_at_def output_range_def intro!: list_all2_appendI)
qed


section \<open>Keeping an entry\<close>

lemma Flush_num: "tb_num_entries (TableBuilder_Flush sn r) = tb_num_entries r"
  by (auto simp: TableBuilder_Flush_def WriteBlock_def WriteRawBlock_def Let_def split: prod.splits option.splits)

lemma Add_num:
  assumes "TableBuilder_ok (TableBuilder_Add sn k v b)"
  shows "TableBuilder_ok b" "tb_num_entries (TableBuilder_Add sn k v b) = tb_num_entries b + 1"
proof -
  show "TableBuilder_ok b" using assms by (cases "TableBuilder_ok b") (simp_all add: TableBuilder_Add_def)
  then show "tb_num_entries (TableBuilder_Add sn k v b) = tb_num_entries b + 1" by (simp add: TableBuilder_Add_def Let_def Flush_num)
qed

text \<open>With an open output, which may be empty.\<close>

definition open_at :: "compaction_state \<Rightarrow> kv list list \<Rightarrow> kv list \<Rightarrow> bool" where
  "open_at cs groups cur \<longleftrightarrow>
     (\<exists>b outs out. cp_builder cs = Some b \<and> cp_outputs cs = outs @ [out] \<and> list_all2 output_range outs groups \<and>
        (TableBuilder_ok b \<longrightarrow> tb_num_entries b = length cur \<and> (cur \<noteq> [] \<longrightarrow> co_smallest out = fst (hd cur))))"

lemma open_output:
  assumes at: "outputs_at cs groups cur"
    and o1: "(if cp_builder cs = None then OpenCompactionOutputFile cs d k else (OK, cs, d, k)) = (s', cs', d', k')"
  shows "same_view d d'" "same_compaction cs cs'" "status_ok s' \<Longrightarrow> open_at cs' groups cur"
  using o1 at
  by (auto simp: OpenCompactionOutputFile_def Let_def same_view_def same_compaction_def open_at_def outputs_at_def TableBuilder_new_def
      Posix_NewWritableFile_def
      split: if_splits prod.splits sum.splits option.splits)

lemma add_output:
  assumes at: "open_at cs groups cur"
    and cs': "cs' = (change_output (\<lambda>out. out\<lparr>co_largest := fst e\<rparr>)
        (if TableBuilder_NumEntries (the (cp_builder cs)) = 0 then change_output (\<lambda>out. out\<lparr>co_smallest := fst e\<rparr>) cs else cs))
        \<lparr>cp_builder := Some (TableBuilder_Add sn (fst e) (snd e) (the (cp_builder cs)))\<rparr>"
  shows "outputs_at cs' groups (cur @ [e])" "same_compaction cs cs'"
proof -
  obtain b outs out where b: "cp_builder cs = Some b" "cp_outputs cs = outs @ [out]" "list_all2 output_range outs groups"
    "TableBuilder_ok b \<longrightarrow> tb_num_entries b = length cur \<and> (cur \<noteq> [] \<longrightarrow> co_smallest out = fst (hd cur))"
    using at by (auto simp: open_at_def)
  show "same_compaction cs cs'" by (simp add: cs' same_compaction_def change_output_def)
  let ?out = "(if tb_num_entries b = 0 then out\<lparr>co_smallest := fst e\<rparr> else out)\<lparr>co_largest := fst e\<rparr>"
  have o2: "cp_outputs cs' = outs @ [?out]" "cp_builder cs' = Some (TableBuilder_Add sn (fst e) (snd e) b)"
    by (simp_all add: cs' b(1,2) change_output_def TableBuilder_NumEntries_def)
  have "tb_num_entries (TableBuilder_Add sn (fst e) (snd e) b) = length (cur @ [e]) \<and> co_smallest ?out = fst (hd (cur @ [e]))"
    if "TableBuilder_ok (TableBuilder_Add sn (fst e) (snd e) b)"
    using Add_num [OF that] b(4) by (cases cur) auto
  then show "outputs_at cs' groups (cur @ [e])" using b(3) by (auto simp: outputs_at_def o2)
qed

lemma same_compaction_trans: "same_compaction a b \<Longrightarrow> same_compaction b c \<Longrightarrow> same_compaction a c"
  by (simp add: same_compaction_def)

lemma keep_entry_outputs:
  fixes sn :: snappy
  assumes at: "outputs_at (cr_state r) groups cur" and e: "it_key ops (cr_input r) = fst e" "it_value ops (cr_input r) = snd e"
  defines "r' \<equiv> keep_entry ops sn r"
  shows "same_view (cr_db r) (cr_db r')" "same_compaction (cr_state r) (cr_state r')" "cr_input r' = cr_input r" "cr_scan r' = cr_scan r"
    "status_ok (cr_status r') \<Longrightarrow>
      \<exists>groups' cur'. concat groups' @ cur' = concat groups @ cur @ [e] \<and> outputs_at (cr_state r') groups' cur'"
proof -
  obtain s1 cs1 d1 k1 where o1: "(if cp_builder (cr_state r) = None then OpenCompactionOutputFile (cr_state r) (cr_db r) (cr_disk r)
      else (OK, cr_state r, cr_db r, cr_disk r)) = (s1, cs1, d1, k1)" by (metis prod_cases4)
  note o2 = open_output [OF at o1]
  define cs2 where "cs2 = (change_output (\<lambda>out. out\<lparr>co_largest := fst e\<rparr>)
        (if TableBuilder_NumEntries (the (cp_builder cs1)) = 0 then change_output (\<lambda>out. out\<lparr>co_smallest := fst e\<rparr>) cs1 else cs1))
        \<lparr>cp_builder := Some (TableBuilder_Add sn (fst e) (snd e) (the (cp_builder cs1)))\<rparr>"
  obtain s3 cs3 d3 k3 where f: "(if TableBuilder_FileSize (TableBuilder_Add sn (fst e) (snd e) (the (cp_builder cs1)))
        \<ge> c_max_output_file_size (cp_compaction cs2)
      then FinishCompactionOutputFile sn (it_status ops (cr_input r)) cs2 d1 k1 else (OK, cs2, d1, k1)) = (s3, cs3, d3, k3)"
    by (metis prod_cases4)
  have r': "r' = (if \<not> status_ok s1 then r\<lparr>cr_status := s1, cr_state := cs1, cr_db := d1, cr_disk := k1\<rparr>
      else r\<lparr>cr_status := s3, cr_state := cs3, cr_db := d3, cr_disk := k3\<rparr>)"
    unfolding r'_def keep_entry_def Let_def e o1 prod.case cs2_def [symmetric] f ..
  show "cr_input r' = cr_input r" "cr_scan r' = cr_scan r" by (simp_all add: r')
  show "same_view (cr_db r) (cr_db r')" "same_compaction (cr_state r) (cr_state r')"
    "status_ok (cr_status r') \<Longrightarrow>
      \<exists>groups' cur'. concat groups' @ cur' = concat groups @ cur @ [e] \<and> outputs_at (cr_state r') groups' cur'"
  proof -
    have fin: "same_view d1 d3 \<and> same_compaction cs2 cs3"
      using f FinishCompaction_frame [of sn "it_status ops (cr_input r)" cs2 d1 k1 s3 cs3 d3 k3] same_view_refl
      by (auto simp: same_compaction_def split: if_splits)
    have add: "same_compaction cs1 cs2" by (simp add: cs2_def same_compaction_def change_output_def)
    show "same_view (cr_db r) (cr_db r')" using o2(1) fin same_view_trans by (auto simp: r')
    show "same_compaction (cr_state r) (cr_state r')" using o2(2) fin add same_compaction_trans by (auto simp: r')
    assume ok: "status_ok (cr_status r')"
    then have s1: "status_ok s1" and r3: "cr_state r' = cs3" "status_ok s3" by (auto simp: r' split: if_splits)
    note at2 = add_output(1) [OF o2(3) [OF s1] cs2_def]
    show "\<exists>groups' cur'. concat groups' @ cur' = concat groups @ cur @ [e] \<and> outputs_at (cr_state r') groups' cur'"
    proof (cases "(s3, cs3, d3, k3) = (OK, cs2, d1, k1)")
      case True
      then show ?thesis using at2 by (intro exI [of _ groups] exI [of _ "cur @ [e]"]) (simp add: r3)
    next
      case False
      then have "FinishCompactionOutputFile sn (it_status ops (cr_input r)) cs2 d1 k1 = (s3, cs3, d3, k3)" using f by (auto split: if_splits)
      from FinishCompaction_outputs [OF at2 _ this r3(2)] show ?thesis
        by (intro exI [of _ "groups @ [cur @ [e]]"] exI [of _ "[]"]) (simp add: r3 cs2_def)
    qed
  qed
qed


section \<open>The loop\<close>

text \<open>
  Before entry \<open>i\<close>, with the memtables at rest and no other thread acting: the entries so far are kept or dropped
  as specified, whatever is kept of the rest.
\<close>

definition previous :: "kv list \<Rightarrow> nat \<Rightarrow> kv option" where
  "previous kvs i = (if i = 0 then None else Some (kvs ! (i - 1)))"

definition turn_at ::
  "('s \<Rightarrow> kv list \<Rightarrow> nat \<Rightarrow> bool) \<Rightarrow> db \<Rightarrow> compaction_state \<Rightarrow> nat \<Rightarrow> kv list \<Rightarrow> 's compaction_run \<Rightarrow> nat \<Rightarrow> bool" where
  "turn_at iat d cs v kvs r i \<longleftrightarrow>
     (let base = base_level (db_versions d) (c_level (cp_compaction cs)) v; oldest = cp_smallest_snapshot cs in
      iat (cr_input r) kvs i \<and> cr_scan r = scan_after (previous kvs i) \<and> status_ok (cr_status r) \<and> same_view d (cr_db r) \<and>
      cp_smallest_snapshot (cr_state r) = oldest \<and>
      (\<exists>k. base_inv (db_versions d) (c_level (cp_compaction cs)) v (cp_compaction (cr_state r)) k \<and>
         (\<forall>e\<in>set (drop i kvs). Compare BytewiseComparator k (entry_user e) \<le> 0)) \<and>
      (\<exists>groups cur. outputs_at (cr_state r) groups cur \<and>
         (\<forall>ks. keeps oldest base (previous kvs i) (drop i kvs) ks \<longrightarrow> keeps oldest base None kvs (concat groups @ cur @ ks))))"

lemma newest_first_later:
  assumes "newest_first BytewiseComparator (e # es)" "x \<in> set (e # es)"
  shows "Compare BytewiseComparator (entry_user e) (entry_user x) \<le> 0"
  using assms bytewise.compare_refl by (auto simp: newest_first_def intro: less_imp_le)

lemma outputs_at_c: "outputs_at (cs\<lparr>cp_compaction := c\<rparr>) groups cur = outputs_at cs groups cur"
  by (simp add: outputs_at_def split: option.split)


text \<open>The first part of a turn: an output that ends before this entry is finished.\<close>

lemma stop_output:
  assumes at: "outputs_at cs groups cur"
    and f: "(if stop \<and> cp_builder cs \<noteq> None then FinishCompactionOutputFile sn s cs d k else (OK, cs, d, k)) = (s', cs', d', k')"
  shows "same_view d d'" "same_compaction cs cs'"
    "status_ok s' \<Longrightarrow> \<exists>groups' cur'. concat groups' @ cur' = concat groups @ cur \<and> outputs_at cs' groups' cur'"
proof -
  show "same_view d d'" "same_compaction cs cs'"
    using f FinishCompaction_frame [of sn s cs d k s' cs' d' k'] same_view_refl by (auto simp: same_compaction_def split: if_splits)
  show "\<exists>groups' cur'. concat groups' @ cur' = concat groups @ cur \<and> outputs_at cs' groups' cur'" if "status_ok s'"
  proof (cases "stop \<and> cp_builder cs \<noteq> None")
    case True
    then have "FinishCompactionOutputFile sn s cs d k = (s', cs', d', k')" using f by simp
    from FinishCompaction_outputs [OF at _ this that] True show ?thesis
      by (intro exI [of _ "groups @ [cur]"] exI [of _ "[]"]) simp
  next
    case False
    then have "cs' = cs" using f by (auto split: if_splits)
    then show ?thesis using at by blast
  qed
qed

lemma turn_atD:
  assumes "turn_at iat d cs v kvs r i"
  obtains k groups cur where "iat (cr_input r) kvs i" "cr_scan r = scan_after (previous kvs i)" "same_view d (cr_db r)"
    "cp_smallest_snapshot (cr_state r) = cp_smallest_snapshot cs"
    "base_inv (db_versions d) (c_level (cp_compaction cs)) v (cp_compaction (cr_state r)) k"
    "\<forall>e\<in>set (drop i kvs). Compare BytewiseComparator k (entry_user e) \<le> 0" "outputs_at (cr_state r) groups cur"
    "\<And>ks. keeps (cp_smallest_snapshot cs) (base_level (db_versions d) (c_level (cp_compaction cs)) v) (previous kvs i) (drop i kvs) ks \<Longrightarrow>
      keeps (cp_smallest_snapshot cs) (base_level (db_versions d) (c_level (cp_compaction cs)) v) None kvs (concat groups @ cur @ ks)"
  using assms unfolding turn_at_def Let_def by blast

lemma turn_atI:
  assumes "iat (cr_input r) kvs i" "cr_scan r = scan_after (previous kvs i)" "status_ok (cr_status r)" "same_view d (cr_db r)"
    "cp_smallest_snapshot (cr_state r) = cp_smallest_snapshot cs"
    "base_inv (db_versions d) (c_level (cp_compaction cs)) v (cp_compaction (cr_state r)) k"
    "\<forall>e\<in>set (drop i kvs). Compare BytewiseComparator k (entry_user e) \<le> 0" "outputs_at (cr_state r) groups cur"
    "\<And>ks. keeps (cp_smallest_snapshot cs) (base_level (db_versions d) (c_level (cp_compaction cs)) v) (previous kvs i) (drop i kvs) ks \<Longrightarrow>
      keeps (cp_smallest_snapshot cs) (base_level (db_versions d) (c_level (cp_compaction cs)) v) None kvs (concat groups @ cur @ ks)"
  shows "turn_at iat d cs v kvs r i"
  using assms unfolding turn_at_def Let_def by blast

lemma compaction_turn_at:
  assumes it: "iterator (InternalKeyComparator BytewiseComparator) iok ops iat" and kvs: "entries_ok BytewiseComparator (\<lambda>_. True) kvs"
    and d: "db_imm d = None" "db_user d = BytewiseComparator" and old: "cp_smallest_snapshot cs < kMaxSequenceNumber"
    and at: "turn_at iat d cs v kvs r i" and i: "i < length kvs"
  shows "\<exists>r'. compaction_turn ops sn micros r = Some r' \<and> same_view d (cr_db r') \<and>
    (status_ok (cr_status r') \<longrightarrow> turn_at iat d cs v kvs r' (Suc i))"
proof -
  let ?old = "cp_smallest_snapshot cs" and ?L = "c_level (cp_compaction cs)" and ?vs = "db_versions d"
  obtain k groups cur where a: "iat (cr_input r) kvs i" "cr_scan r = scan_after (previous kvs i)" "same_view d (cr_db r)"
    "cp_smallest_snapshot (cr_state r) = ?old" "base_inv ?vs ?L v (cp_compaction (cr_state r)) k"
    "\<forall>e\<in>set (drop i kvs). Compare BytewiseComparator k (entry_user e) \<le> 0" "outputs_at (cr_state r) groups cur"
    "\<And>ks. keeps ?old (base_level ?vs ?L v) (previous kvs i) (drop i kvs) ks \<Longrightarrow> keeps ?old (base_level ?vs ?L v) None kvs (concat groups @ cur @ ks)"
    by (rule turn_atD [OF at]) (rule that)
  let ?e = "kvs ! i" and ?es = "drop (Suc i) kvs"
  have drop: "drop i kvs = ?e # ?es" using i by (simp add: Cons_nth_drop_Suc)
  have key: "it_key ops (cr_input r) = fst ?e" "it_value ops (cr_input r) = snd ?e"
    using iterator.key_at [OF it a(1) i] iterator.value_at [OF it a(1) i] by auto
  note view = same_view_fields [OF a(3)]
  have imm: "db_imm (cr_db r) = None" using view(3) d(1) by simp
  obtain stop c1 where ss: "ShouldStopBefore (vs_cmp ?vs) (file_at ?vs) (fst ?e) (cp_compaction (cr_state r)) = (stop, c1)" by fastforce
  have inv1: "base_inv ?vs ?L v c1 k" using ShouldStopBefore_inv [OF ss] a(5) by simp
  let ?cs1 = "(cr_state r)\<lparr>cp_compaction := c1\<rparr>"
  obtain s2 cs2 d2 k2 where f: "(if stop \<and> cp_builder ?cs1 \<noteq> None then FinishCompactionOutputFile sn (it_status ops (cr_input r)) ?cs1 (cr_db r) (cr_disk r)
      else (OK, ?cs1, cr_db r, cr_disk r)) = (s2, cs2, d2, k2)" by (metis prod_cases4)
  have at1: "outputs_at ?cs1 groups cur" using a(7) by (simp only: outputs_at_c)
  note st = stop_output [OF at1 f]
  have d2: "same_view d d2" using same_view_trans [OF a(3) st(1)] .
  have v2: "db_versions d2 = ?vs" "db_user d2 = BytewiseComparator" using same_view_fields [OF d2] d by simp_all
  have cs2: "cp_compaction cs2 = c1" "cp_smallest_snapshot cs2 = ?old" using st(2) a(4) by (simp_all add: same_compaction_def)
  obtain dr sc c3 where de: "drop_entry BytewiseComparator (IsBaseLevelForKey ?vs) ?old (fst ?e) (scan_after (previous kvs i)) c1 = (dr, sc, c3)"
    by (metis prod_cases3)
  let ?r2 = "r\<lparr>cr_status := s2, cr_state := cs2, cr_db := d2, cr_disk := k2\<rparr>"
  let ?r3 = "?r2\<lparr>cr_scan := sc, cr_state := cs2\<lparr>cp_compaction := c3\<rparr>\<rparr>"
  let ?r4 = "if dr then ?r3 else keep_entry ops sn ?r3"
  have turn: "compaction_turn ops sn micros r =
     (if \<not> status_ok s2 then Some ?r2
      else if \<not> status_ok (cr_status ?r4) then Some ?r4 else map_option (\<lambda>it. ?r4\<lparr>cr_input := it\<rparr>) (it_Next ops (cr_input ?r4)))"
  proof -
    have m: "(if db_imm (cr_db r) \<noteq> None then CompactMemTable sn micros (cr_db r) (cr_disk r) else Some (cr_db r, cr_disk r)) =
        Some (cr_db r, cr_disk r)" using imm by simp
    show ?thesis
      unfolding compaction_turn_def m Option.bind.simps prod.case Let_def key(1) view(1) ss f v2 cs2
      by (simp add: a(2) de)
  qed
  show ?thesis
  proof (cases "status_ok s2")
    case False
    then show ?thesis using turn d2 by simp
  next
    case s2: True
    obtain groups2 cur2 where g2: "concat groups2 @ cur2 = concat groups @ cur" "outputs_at cs2 groups2 cur2" using st(3) [OF s2] by blast
    have e: "ParseInternalKey (fst ?e) \<noteq> None" using kvs i by (simp add: entries_ok_def)
    have ke: "Compare BytewiseComparator k (entry_user ?e) \<le> 0" using a(6) unfolding drop by simp
    note step = base_level.drop_entry_at [OF e TrueI TrueI old TrueI inv1 ke de]
    obtain k' where k': "base_inv ?vs ?L v c3 k'" "Compare BytewiseComparator k' (entry_user ?e) \<le> 0" using step(2) by blast
    have prev: "previous kvs (Suc i) = Some ?e" by (simp add: previous_def)
    have nf: "newest_first BytewiseComparator (?e # ?es)"
      using sorted_wrt_drop [OF bytewise_user.entries_newest_first [OF kvs, unfolded newest_first_def], of i]
      unfolding newest_first_def drop .
    have later: "\<forall>x\<in>set ?es. Compare BytewiseComparator k' (entry_user x) \<le> 0"
    proof
      fix x assume "x \<in> set ?es"
      then have "Compare BytewiseComparator (entry_user ?e) (entry_user x) \<le> 0" using newest_first_later [OF nf] by simp
      then show "Compare BytewiseComparator k' (entry_user x) \<le> 0"
        using bytewise.compare_le_trans [of k' "entry_user ?e" "entry_user x"] k'(2) by simp
    qed
    have at3: "outputs_at (cr_state ?r3) groups2 cur2" using g2(2) by (simp add: outputs_at_c)
    have key3: "it_key ops (cr_input ?r3) = fst ?e" "it_value ops (cr_input ?r3) = snd ?e" using key by simp_all
    note ke4 = keep_entry_outputs [OF at3 key3, of sn]
    have r4: "same_view d (cr_db ?r4)" "cr_input ?r4 = cr_input r" "cr_scan ?r4 = scan_after (Some ?e)"
      "cp_compaction (cr_state ?r4) = c3" "cp_smallest_snapshot (cr_state ?r4) = ?old"
      using d2 same_view_trans [OF d2, of "cr_db (keep_entry ops sn ?r3)"] ke4(1-4) step(1) cs2(2) by (auto simp: same_compaction_def)
    show ?thesis
    proof (cases "status_ok (cr_status ?r4)")
      case False
      then show ?thesis using turn s2 r4(1) by auto
    next
      case ok: True
      obtain it' where it': "it_Next ops (cr_input r) = Some it'" "iat it' kvs (Suc i)" using iterator.Next_at [OF it a(1) i] by blast
      let ?r5 = "?r4\<lparr>cr_input := it'\<rparr>"
      have res: "compaction_turn ops sn micros r = Some ?r5" using turn s2 ok it'(1) r4(2) by simp
      have outs: "\<exists>groups' cur'. concat groups' @ cur' = concat groups @ cur @ (if dr then [] else [?e]) \<and> outputs_at (cr_state ?r4) groups' cur'"
      proof (cases dr)
        case True
        then show ?thesis using g2(1) at3 by (intro exI [of _ groups2] exI [of _ cur2]) simp
      next
        case False
        have "status_ok (cr_status (keep_entry ops sn ?r3))" using ok False by (simp only: if_False)
        from ke4(5) [OF this] obtain g' c' where g: "concat g' @ c' = concat groups2 @ cur2 @ [?e]"
          "outputs_at (cr_state (keep_entry ops sn ?r3)) g' c'" by blast
        have "concat g' @ c' = concat groups @ cur @ [?e]" using g(1) arg_cong [OF g2(1), of "\<lambda>x. x @ [?e]"] by simp
        then show ?thesis using g(2) False by (simp only: if_False) blast
      qed
      then obtain g' c' where g': "concat g' @ c' = concat groups @ cur @ (if dr then [] else [?e])" "outputs_at (cr_state ?r4) g' c'" by blast
      have "turn_at iat d cs v kvs ?r5 (Suc i)"
      proof (rule turn_atI)
        show "cr_scan ?r5 = scan_after (previous kvs (Suc i))" using r4(3) by (simp add: prev)
        show "base_inv ?vs ?L v (cp_compaction (cr_state ?r5)) k'" using k'(1) r4(4) by simp
        show "keeps ?old (base_level ?vs ?L v) None kvs (concat g' @ c' @ ks)"
          if "keeps ?old (base_level ?vs ?L v) (previous kvs (Suc i)) (drop (Suc i) kvs) ks" for ks
        proof -
          have "concat g' @ c' @ ks = concat groups @ cur @ (if dr then ks else ?e # ks)"
            using arg_cong [OF g'(1), of "\<lambda>x. x @ ks"] by (auto split: if_splits)
          then show ?thesis using a(8) [OF step(3) [of ?es ks, folded drop]] that unfolding prev drop by (simp only:)
        qed
      qed (use it'(2) ok r4 later g'(2) in simp_all)
      then show ?thesis using res r4(1) by auto
    qed
  qed
qed


lemma compaction_loop_at:
  assumes it: "iterator (InternalKeyComparator BytewiseComparator) iok ops iat" and kvs: "entries_ok BytewiseComparator (\<lambda>_. True) kvs"
    and d: "db_imm d = None" "db_user d = BytewiseComparator" and run: "\<not> db_shutting_down d"
    and old: "cp_smallest_snapshot cs < kMaxSequenceNumber" and others: "\<And>n x. others n x = x"
  shows "turn_at iat d cs v kvs r i \<Longrightarrow> \<exists>r'. compaction_loop ops sn micros others n r = Some r' \<and> same_view d (cr_db r') \<and>
    (status_ok (cr_status r') \<longrightarrow> turn_at iat d cs v kvs r' (length kvs))"
proof (induction "length kvs - i" arbitrary: i r n)
  case 0
  have a: "iat (cr_input r) kvs i" "same_view d (cr_db r)" using 0(2) by (auto simp: turn_at_def Let_def)
  then have "i = length kvs" using iterator.at_bound [OF it a(1)] 0(1) by simp
  moreover have "\<not> it_Valid ops (cr_input r)" using iterator.Valid_at [OF it a(1)] calculation by simp
  ultimately show ?case using 0(2) a(2) by (subst compaction_loop.simps) (simp add: others)
next
  case (Suc m)
  have a: "iat (cr_input r) kvs i" "same_view d (cr_db r)" using Suc(3) by (auto simp: turn_at_def Let_def)
  have i: "i < length kvs" using Suc(2) by simp
  have go: "it_Valid ops (cr_input r) \<and> \<not> db_shutting_down (cr_db r)"
    using iterator.Valid_at [OF it a(1)] i same_view_fields(4) [OF a(2)] run by simp
  obtain r1 where t: "compaction_turn ops sn micros r = Some r1" "same_view d (cr_db r1)"
    "status_ok (cr_status r1) \<Longrightarrow> turn_at iat d cs v kvs r1 (Suc i)"
    using compaction_turn_at [OF it kvs d old Suc(3) i, of sn micros] by blast
  have step: "compaction_loop ops sn micros others n r =
      (if status_ok (cr_status r1) then compaction_loop ops sn micros others (n + 1) r1 else Some r1)"
    using go t(1) by (subst compaction_loop.simps) (simp add: others)
  show ?case
  proof (cases "status_ok (cr_status r1)")
    case True
    then show ?thesis using Suc(1) [OF _ t(3) [OF True], of "n + 1"] Suc(2) step by simp
  next
    case False
    then show ?thesis using step t(2) by simp
  qed
qed

text \<open>At the start, for a new compaction.\<close>

definition new_compaction :: "version_set \<Rightarrow> nat \<Rightarrow> compaction \<Rightarrow> bool" where
  "new_compaction vs v c \<longleftrightarrow> vs_cmp vs = BytewiseComparator \<and>
     version_ok BytewiseComparator (\<lambda>_. True) (file_at vs) (version_at vs v) \<and>
     c_input_version c = Some v \<and> c_level c < kNumLevels \<and> c_level_ptrs c = replicate kNumLevels 0"

lemma turn_at_start:
  assumes c: "new_compaction (db_versions d) v c" and kvs: "entries_ok BytewiseComparator (\<lambda>_. True) kvs" and it: "iat it kvs 0"
  shows "turn_at iat d ((CompactionState_new c)\<lparr>cp_smallest_snapshot := oldest\<rparr>) v kvs
    \<lparr>cr_input = it, cr_state = (CompactionState_new c)\<lparr>cp_smallest_snapshot := oldest\<rparr>, cr_scan = compaction_scan_new, cr_status = OK,
     cr_db = d, cr_disk = k\<rparr> 0"
proof (rule turn_atI [where k = "entry_user (hd kvs)" and groups = "[]" and cur = "[]"])
  show "\<forall>e\<in>set (drop 0 kvs). Compare BytewiseComparator (entry_user (hd kvs)) (entry_user e) \<le> 0"
    using newest_first_later [of "hd kvs" "tl kvs"] bytewise_user.entries_newest_first [OF kvs] by (cases kvs) auto
  show "base_inv (db_versions d) (c_level (cp_compaction ((CompactionState_new c)\<lparr>cp_smallest_snapshot := oldest\<rparr>))) v
      (cp_compaction (cr_state \<lparr>cr_input = it, cr_state = (CompactionState_new c)\<lparr>cp_smallest_snapshot := oldest\<rparr>, cr_scan = compaction_scan_new,
        cr_status = OK, cr_db = d, cr_disk = k\<rparr>)) (entry_user (hd kvs))"
    using c user_comparator.ptrs_inv_new [OF bytewise_user.user_comparator_axioms, of c]
    by (simp add: base_inv_def new_compaction_def CompactionState_new_def)
qed (use it same_view_refl in \<open>simp_all add: previous_def scan_after_def CompactionState_new_def outputs_at_def\<close>)

lemma finish_compaction_outputs:
  assumes at: "status_ok (cr_status r) \<Longrightarrow> turn_at iat d cs v kvs r (length kvs)"
    and f: "finish_compaction ops sn micros r = (s, cs', d', k')" "status_ok s"
  shows "\<exists>groups. list_all2 output_range (cp_outputs cs') groups \<and>
    keeps (cp_smallest_snapshot cs) (base_level (db_versions d) (c_level (cp_compaction cs)) v) None kvs (concat groups)"
proof -
  let ?s0 = "if status_ok (cr_status r) \<and> db_shutting_down (cr_db r) then IOError ''Deleting DB during compaction'' else cr_status r"
  obtain s1 cs1 d1 k1 where fin: "(if status_ok ?s0 \<and> cp_builder (cr_state r) \<noteq> None
      then FinishCompactionOutputFile sn (it_status ops (cr_input r)) (cr_state r) (cr_db r) (cr_disk r)
      else (?s0, cr_state r, cr_db r, cr_disk r)) = (s1, cs1, d1, k1)" by (metis prod_cases4)
  have r: "cs' = cs1" "status_ok s1"
    using f unfolding finish_compaction_def Let_def fin prod.case by (auto split: if_splits prod.splits)
  have ok: "status_ok ?s0"
  proof (rule ccontr)
    assume "\<not> status_ok ?s0"
    then have "s1 = ?s0" using fin by (auto split: if_splits)
    then show False using r(2) \<open>\<not> status_ok ?s0\<close> by simp
  qed
  then have "status_ok (cr_status r)" by (auto split: if_splits)
  from turn_atD [OF at [OF this]] obtain groups cur where g: "outputs_at (cr_state r) groups cur"
    "keeps (cp_smallest_snapshot cs) (base_level (db_versions d) (c_level (cp_compaction cs)) v) None kvs (concat groups @ cur)"
    using keeps.Nil by (metis append_Nil2 drop_all order_refl)
  show ?thesis
  proof (cases "cp_builder (cr_state r) = None")
    case True
    then have "cs1 = cr_state r" "cur = []" using fin g(1) by (auto simp: outputs_at_def split: if_splits)
    then show ?thesis using g True r(1) by (intro exI [of _ groups]) (simp add: outputs_at_def)
  next
    case False
    then have "FinishCompactionOutputFile sn (it_status ops (cr_input r)) (cr_state r) (cr_db r) (cr_disk r) = (s1, cs1, d1, k1)"
      using fin ok by (auto split: if_splits)
    from FinishCompaction_outputs [OF g(1) False this r(2)] FinishCompaction_frame(3) [OF this]
    show ?thesis using g(2) r(1) by (intro exI [of _ "groups @ [cur]"]) (simp add: outputs_at_def)
  qed
qed

section \<open>Reads after the compaction\<close>

text \<open>
  The outputs of a successful compaction, and that every answer a read may get from them it may get from the inputs:
  for snapshots from the oldest one on, whatever is above the inputs and whatever is in the files below them.
\<close>

definition same_answers :: "(bytes \<Rightarrow> bool) \<Rightarrow> SequenceNumber \<Rightarrow> kv set \<Rightarrow> kv set \<Rightarrow> bool" where
  "same_answers base oldest inputs outputs \<longleftrightarrow>
     (\<forall>upper deeper u s val a. oldest \<le> s \<longrightarrow> (\<forall>e\<in>deeper. \<not> base (entry_user e)) \<longrightarrow>
        set_newer upper (inputs \<union> deeper) \<longrightarrow> set_newer inputs deeper \<longrightarrow>
        newest_answer (upper \<union> outputs \<union> deeper) u s val a \<longrightarrow> newest_answer (upper \<union> inputs \<union> deeper) u s val a)"

lemma compaction_reads:
  assumes it: "iterator (InternalKeyComparator BytewiseComparator) iok ops iat" "iat it kvs 0"
    and kvs: "entries_ok BytewiseComparator (\<lambda>_. True) kvs"
    and d: "db_imm d = None" "db_user d = BytewiseComparator" "\<not> db_shutting_down d"
    and c: "new_compaction (db_versions d) v c" and old: "oldest < kMaxSequenceNumber" and others: "\<And>n x. others n x = x"
  defines "cs \<equiv> (CompactionState_new c)\<lparr>cp_smallest_snapshot := oldest\<rparr>"
  shows "\<exists>r. compaction_loop ops sn micros others 0
      \<lparr>cr_input = it, cr_state = cs, cr_scan = compaction_scan_new, cr_status = OK, cr_db = d, cr_disk = k\<rparr> = Some r \<and>
    (\<forall>s cs' d' k'. finish_compaction ops sn micros r = (s, cs', d', k') \<longrightarrow> status_ok s \<longrightarrow>
      (\<exists>groups. list_all2 output_range (cp_outputs cs') groups \<and> set (concat groups) \<subseteq> set kvs \<and>
        newest_first BytewiseComparator (concat groups) \<and>
        same_answers (base_level (db_versions d) (c_level c) v) oldest (set kvs) (set (concat groups))))"
proof -
  have old': "cp_smallest_snapshot cs < kMaxSequenceNumber" and f: "cp_smallest_snapshot cs = oldest" "cp_compaction cs = c"
    using old by (simp_all add: cs_def CompactionState_new_def)
  note start = turn_at_start [where iat = iat and it = it and oldest = oldest and k = k, OF c kvs it(2), folded cs_def]
  obtain r where r: "compaction_loop ops sn micros others 0
      \<lparr>cr_input = it, cr_state = cs, cr_scan = compaction_scan_new, cr_status = OK, cr_db = d, cr_disk = k\<rparr> = Some r"
    "status_ok (cr_status r) \<Longrightarrow> turn_at iat d cs v kvs r (length kvs)"
    using compaction_loop_at [where others = others, OF it(1) kvs d old' others start, where sn = sn and micros = micros and n = 0] by blast
  have "\<exists>groups. list_all2 output_range (cp_outputs cs') groups \<and> set (concat groups) \<subseteq> set kvs \<and>
        newest_first BytewiseComparator (concat groups) \<and>
        same_answers (base_level (db_versions d) (c_level c) v) oldest (set kvs) (set (concat groups))"
    if fin: "finish_compaction ops sn micros r = (s, cs', d', k')" "status_ok s" for s cs' d' k'
  proof -
    obtain groups where g: "list_all2 output_range (cp_outputs cs') groups"
      "keeps oldest (base_level (db_versions d) (c_level c) v) None kvs (concat groups)"
      using finish_compaction_outputs [OF r(2) fin] unfolding f by blast
    have nf: "newest_first BytewiseComparator kvs" by (rule bytewise_user.entries_newest_first [OF kvs])
    have "same_answers (base_level (db_versions d) (c_level c) v) oldest (set kvs) (set (concat groups))"
      unfolding same_answers_def by (intro allI impI bytewise_user.keeps_answers [OF g(2) nf]) simp_all
    then show ?thesis using g keeps_subset [OF g(2)] keeps_sorted [OF g(2)] nf unfolding newest_first_def by blast
  qed
  then show ?thesis using r(1) by blast
qed

text \<open>A file system without files, for examples.\<close>

definition empty_disk :: disk where
  "empty_disk = \<lparr>dk_files = [], dk_denied = (\<lambda>_. False), dk_io = (\<lambda>_. []), dk_locks = [], dk_busy = (\<lambda>_. False)\<rparr>"

end
