(* ===== verification/Spec2Isabelle.thy ===== *)
theory Spec2Isabelle
  imports Coding HashBloom Crc32c FilterBlock DbFormat LogRecovery SkipList MemTable WriteBatch BlockProofs TableFormat Cache Table VersionEdit FileNames TableIter TableCache Merging VersionRefs CompactionProofs CacheValues TableProofs TableGet VersionGet MemIter DbImpl DbWrite DbWriteProofs DbGet BuildLoop PosixEnv DbFlush DbFlushProofs DbOpen LogReads DbRecoverProofs DbIterators DbScan CompactionWork Background CompactionDrop CompactionOutputs
begin

text \<open>
  A verification development for LevelDB as kept in this repository.
\<close>

section \<open>Recovery\<close>



section \<open>Compaction\<close>



section \<open>Scanning\<close>



section \<open>Reading\<close>



section \<open>Writing\<close>

text \<open>
  C5. Group commit: when the writer at the front of the queue commits, some writers behind it join it, none of
  them a sync write behind an unsynced one. Their operations become one log record and one run of
  insertions with the next sequence numbers, in the order of the queue, whatever the sizes. The log and
  the memtable then hold the same batches, and exactly the writers of the group are answered.
\<close>

theorem group_commit:
  assumes "db_holds d cs" "db_writers d = w # ws"
    and "w_batch w = Some (batch_rep q0 ops0)" "list_all2 writer_has ws opss"
    and "list_all op_fits (concat (ops0 # opss))" "length (concat (ops0 # opss)) < 2 ^ 31"
    and "unat (vs_last_sequence (db_versions d)) + length (concat (ops0 # opss)) < unat kMaxSequenceNumber"
  shows "\<exists>m d'. Write_front OK d = (OK, d') \<and> m \<le> length ws \<and>
    db_holds d' (cs @ [(vs_last_sequence (db_versions d) + 1, concat (ops0 # take m opss))]) \<and>
    unat (vs_last_sequence (db_versions d')) = unat (vs_last_sequence (db_versions d)) + length (concat (ops0 # take m opss)) \<and>
    db_writers d' = drop m ws \<and>
    db_done d' = db_done d @ map (\<lambda>x. x\<lparr>w_status := OK, w_done := True\<rparr>) (w # take m ws) \<and>
    (\<forall>x\<in>set (take m ws). w_sync x \<longrightarrow> w_sync w)"
  using Write_front_commits [OF assms] .

theorem group_commit_witness:
  "\<exists>m d'. m \<le> 1 \<and> Write_front OK (example_db
       [\<lparr>w_id = 1, w_batch = Some (batch_rep 0 [BPut [1] [2]]), w_sync = True, w_done = False, w_status = OK\<rparr>,
        \<lparr>w_id = 2, w_batch = Some (batch_rep 0 [BDelete [1]]), w_sync = True, w_done = False, w_status = OK\<rparr>]) = (OK, d') \<and>
     db_holds d' [(1, concat ([BPut [1] [2]] # take m [[BDelete [1]]]))]"
proof -
  let ?w = "\<lparr>w_id = 1, w_batch = Some (batch_rep 0 [BPut [1] [2]]), w_sync = True, w_done = False, w_status = OK\<rparr>"
  let ?v = "\<lparr>w_id = 2, w_batch = Some (batch_rep 0 [BDelete [1]]), w_sync = True, w_done = False, w_status = OK\<rparr>"
  have "list_all2 writer_has [?v] [[BDelete [1]]]" by (auto simp: writer_has_def)
  from group_commit [where w = ?w and ?q0.0 = 0 and ?ops0.0 = "[BPut [1] [2]]", OF example_db_holds example_db_writers _ this]
  show ?thesis by (auto simp: example_db_sequence kMax_unat)
qed

section \<open>The write-ahead log\<close>

text \<open>
  C6. A log cut off anywhere recovers the records that were completely written before the cut, in
  order, and reports no corruption: the partial record at the end is dropped silently. This is
  what a crash during a write leaves behind.
\<close>

theorem log_crash_prefix:
  assumes "length (log_file xs) \<le> m" "m < length (log_file (xs @ [x]))"
  shows "log_recover (take m (log_file (xs @ x # ys))) = (xs, [])"
  by (rule log_recover_prefix) (use assms in auto)

theorem log_crash_prefix_witness:
  "log_recover (take 12 (log_file ([[1, 2, 3]] @ [4] # [[5]]))) = ([[1, 2, 3]], [])"
  by (rule log_crash_prefix) (simp_all add: log_file_small kBlockSize_def kHeaderSize_def)

text \<open>
  C7. A log written by \<open>AddRecord\<close> reads back, with checksums verified, as the list of records
  added, whatever their lengths and however they were split over blocks.
\<close>

theorem log_roundtrip: "log_recover (log_file xs) = (xs, [])"
  by (rule log_recover_complete)

section \<open>Memtables and write batches\<close>

text \<open>
  C8. A memtable lookup returns the newest entry of the user key that is not newer than the
  snapshot: its value, a \<open>NotFound\<close> status for a deletion, and nothing when there is no such entry.
\<close>

theorem memtable_get_newest:
  assumes "list_all (add_ok (\<lambda>_. True)) adds" "distinct (map add_id adds)"
    and "length u + 8 < 2 ^ 32" "snap \<le> kMaxSequenceNumber"
  shows "\<exists>m. MemTable_Adds BytewiseComparator adds MemTable_new = Some m \<and>
     MemTable_Get BytewiseComparator m (LookupKey_new u snap) val st =
       Some (case mem_newest adds u snap of None \<Rightarrow> (False, val, st)
             | Some (s, t, v) \<Rightarrow> if t = kTypeValue then (True, v, st) else (True, val, NotFound []))"
  using bytewise_table.MemTable_Adds_Get [OF assms(1,2) TrueI assms(3,4)] .

theorem memtable_get_newest_witness:
  "\<exists>m. MemTable_Adds BytewiseComparator [(1, kTypeValue, [7], [1]), (2, kTypeDeletion, [7], []), (3, kTypeValue, [7], [3])]
        MemTable_new = Some m \<and>
     MemTable_Get BytewiseComparator m (LookupKey_new [7] 2) [] OK = Some (True, [], NotFound [])"
  using memtable_get_newest [of "[(1, kTypeValue, [7], [1]), (2, kTypeDeletion, [7], []), (3, kTypeValue, [7], [3])]"
      "[7]" 2 "[]" OK]
  by (simp add: kTypeValue_def kTypeDeletion_def mem_newest_def small_sequence_numbers)

text \<open>
  C9. Replaying a batch calls the handler with exactly the puts and deletions that were added to
  the batch, in order, and returns OK, also after the sequence number has been set.
\<close>

theorem write_batch_replay:
  assumes "list_all op_ok ops" "length ops < 2 ^ 31"
  shows "WriteBatch_Iterate handler (WriteBatch_SetSequence seq (batch_of ops)) h =
     (OK, fold (handle_op handler) ops h)"
  using assms by (simp add: batch_of_rep SetSequence_rep WriteBatch_Iterate_rep)

theorem write_batch_replay_witness:
  "WriteBatch_Iterate \<lparr>bh_Put = (\<lambda>k v h. h @ [(k, Some v)]), bh_Delete = (\<lambda>k h. h @ [(k, None)])\<rparr>
     (WriteBatch_SetSequence 9 (batch_of [BPut [1] [2], BDelete [3]])) [] =
   (OK, [([1 :: byte], Some [2]), ([3], None)])"
  by (subst write_batch_replay) simp_all

text \<open>
  C10. A batch inserted into a fresh memtable is visible at the snapshot after it: a lookup of any
  key gives the batch's last operation on that key. The sequence number of the batch and its
  length must leave the 56 bits of a sequence number room.
\<close>

theorem write_batch_visible:
  assumes "list_all op_fits ops" "length ops < 2 ^ 31" "length u + 8 < 2 ^ 32"
    and "unat seq + length ops \<le> unat kMaxSequenceNumber"
  shows "\<exists>m. WriteBatch_InsertInto BytewiseComparator (WriteBatch_SetSequence seq (batch_of ops)) MemTable_new = (OK, Some m) \<and>
     MemTable_Get BytewiseComparator m (LookupKey_new u (seq + word_of_nat (length ops))) val st =
       Some (case batch_lookup ops u of None \<Rightarrow> (False, val, st)
             | Some (Some v) \<Rightarrow> (True, v, st) | Some None \<Rightarrow> (True, val, NotFound []))"
  using InsertInto_Get [OF assms] by (simp add: batch_of_rep SetSequence_rep)

theorem write_batch_visible_witness:
  "\<exists>m. WriteBatch_InsertInto BytewiseComparator
        (WriteBatch_SetSequence 40 (batch_of [BPut [1] [2], BPut [5] [6], BPut [1] [3]])) MemTable_new = (OK, Some m) \<and>
     MemTable_Get BytewiseComparator m (LookupKey_new [1] 43) [] OK = Some (True, [3], OK)"
  using write_batch_visible [of "[BPut [1] [2], BPut [5] [6], BPut [1] [3]]" "[1]" 40 "[]" OK]
  by (simp add: batch_lookup_def kMaxSequenceNumber_def push_bit_eq_mult)

text \<open>
  C11. The skip list is an ordered set: after inserting keys that are pairwise different, a forward
  iteration reaches exactly them in increasing order and \<open>Contains\<close> decides membership. In
  particular every search of the list returns.
\<close>

theorem skip_list_ordered_set:
  assumes "distinct keys"
  shows "\<exists>sl. SkipList_Inserts Slice_compare keys (SkipList_new []) = Some sl \<and>
     mset (skip_scan sl) = mset keys \<and> sorted_wrt (\<lambda>a b. Slice_compare a b < 0) (skip_scan sl) \<and>
     (\<forall>k. SkipList_Contains Slice_compare sl k = Some (k \<in> set keys))"
proof -
  have "sorted_wrt (\<lambda>a b. Slice_compare a b \<noteq> 0) keys"
    using assms by (auto simp: sorted_wrt_iff_nth_less distinct_conv_nth dest: Slice_compare_eq)
  from slice_keys.SkipList_ordered_set [OF _ this, of "[]"] show ?thesis
    by (simp add: bytewise.compare_eq_iff [simplified] list.pred_True)
qed

theorem skip_list_ordered_set_witness:
  "\<exists>sl. SkipList_Inserts Slice_compare [[3], [1, 2], [1]] (SkipList_new []) = Some sl \<and>
     mset (skip_scan sl) = {#[3], [1, 2], [1]#} \<and> sorted_wrt (\<lambda>a b. Slice_compare a b < 0) (skip_scan sl) \<and>
     (\<forall>k. SkipList_Contains Slice_compare sl k = Some (k \<in> {[3], [1, 2], [1]}))"
  using skip_list_ordered_set [of "[[3], [1, 2], [1]]"] by simp

section \<open>Tables\<close>

text \<open>
  C12. The table round trip: for sorted internal keys the builder succeeds, \<open>Table::Open\<close> opens what it
  wrote, with or without compression and filter, the iterator of the table runs over exactly the entries
  added, and seeking gives the first entry at or after the target.
\<close>

theorem table_roundtrip:
  assumes "snappy_laws sn"
    and "table_input (InternalKeyComparator BytewiseComparator) (internal_ok (\<lambda>_. True)) opt f kvs"
    and "opt_comparator ropt = InternalKeyComparator BytewiseComparator" "opt_filter_policy ropt = opt_filter_policy opt"
    and "TableBuilder_Finish sn (TableBuilder_Adds sn kvs (TableBuilder_new opt f)) = (s, r)"
    and "length (wf_data (tb_file r)) < 2 ^ 32"
  shows "s = OK \<and> (\<exists>t. Table_Open sn ropt (plain_file name (wf_data (tb_file r))) (TableBuilder_FileSize r) cache_id = (OK, Some t) \<and>
    (\<forall>n\<ge>length kvs. it_scan (table_iter_ops sn (InternalKeyComparator BytewiseComparator)) n (Table_NewIterator rd t) = Some kvs) \<and>
    (\<forall>k. internal_ok (\<lambda>_. True) k \<longrightarrow>
       (\<exists>it. it_Seek (table_iter_ops sn (InternalKeyComparator BytewiseComparator)) k (Table_NewIterator rd t) = Some it \<and>
          it_entry (table_iter_ops sn (InternalKeyComparator BytewiseComparator)) it =
            cursor_entry kvs (seek_pos (InternalKeyComparator BytewiseComparator) kvs k))))"
  using bytewise_user.internal.built_table_scan [OF assms(1,2) internal_short assms(3-6)] .

theorem table_roundtrip_witness:
  "\<exists>t. Table_Open port_snappy (Options_default\<lparr>opt_comparator := InternalKeyComparator BytewiseComparator\<rparr>)
      (plain_file ''f'' (wf_data (tb_file (snd (TableBuilder_Finish port_snappy (TableBuilder_Adds port_snappy
        [(ikey [1] 9 kTypeValue, [7]), (ikey [4] 8 kTypeValue, [6])]
        (TableBuilder_new (Options_default\<lparr>opt_comparator := InternalKeyComparator BytewiseComparator\<rparr>) (new_file ''f''))))))))
      (TableBuilder_FileSize (snd (TableBuilder_Finish port_snappy (TableBuilder_Adds port_snappy
        [(ikey [1] 9 kTypeValue, [7]), (ikey [4] 8 kTypeValue, [6])]
        (TableBuilder_new (Options_default\<lparr>opt_comparator := InternalKeyComparator BytewiseComparator\<rparr>) (new_file ''f'')))))) 0
      = (OK, Some t) \<and>
    it_scan (table_iter_ops port_snappy (InternalKeyComparator BytewiseComparator)) 2 (Table_NewIterator ReadOptions_default t) =
      Some [(ikey [1] 9 kTypeValue, [7]), (ikey [4] 8 kTypeValue, [6])]"
proof -
  let ?opt = "Options_default\<lparr>opt_comparator := InternalKeyComparator BytewiseComparator\<rparr>"
  let ?kvs = "[(ikey [1] 9 kTypeValue, [7]), (ikey [4] 8 kTypeValue, [6])] :: kv list"
  obtain s r where fin: "TableBuilder_Finish port_snappy (TableBuilder_Adds port_snappy ?kvs (TableBuilder_new ?opt (new_file ''f''))) = (s, r)"
    by fastforce
  have i: "table_input (InternalKeyComparator BytewiseComparator) (internal_ok (\<lambda>_. True)) ?opt (new_file ''f'') ?kvs"
    by (simp add: table_input_def Options_default_def kvs_sorted_def keys_ok_def raw_size_def new_file_def InternalKey_Compare_def)
  have l: "length (wf_data (tb_file r)) < 2 ^ 32"
    by (rule built_table_small [OF i internal_short _ _ fin]) (simp_all add: raw_size_def Options_default_def)
  show ?thesis
    using table_roundtrip [OF port_snappy.snappy_laws_axioms i _ _ fin l, of ?opt "''f''" 0 ReadOptions_default] by (auto simp: fin)
qed





section \<open>Versions and compactions\<close>

text \<open>
  C15. The overlap test of a level is exact on both of its paths, the linear one of level 0 and the
  binary search of sorted levels: it holds when some file meets the range of user keys, where a missing
  bound is no bound.
\<close>

theorem overlap_test_exact:
  assumes "disjoint \<Longrightarrow> level_sorted BytewiseComparator files"
    and "files_ok BytewiseComparator (\<lambda>_. True) files"
  shows "SomeFileOverlapsRange BytewiseComparator disjoint files lo hi \<longleftrightarrow>
    (\<exists>f\<in>set files. \<not> AfterFile BytewiseComparator lo f \<and> \<not> BeforeFile BytewiseComparator hi f)"
  using bytewise_user.SomeFileOverlapsRange_iff [OF assms, where lo = lo and hi = hi] by (simp add: file_overlaps_def)

theorem overlap_test_exact_witness:
  "\<not> SomeFileOverlapsRange BytewiseComparator True
     [FileMetaData_new 7 10 (ikey [1] 9 kTypeValue) (ikey [3] 8 kTypeValue),
      FileMetaData_new 8 10 (ikey [6] 5 kTypeValue) (ikey [7] 4 kTypeValue)] (Some [4]) (Some [5])"
  using overlap_test_exact [of True
     "[FileMetaData_new 7 10 (ikey [1] 9 kTypeValue) (ikey [3] 8 kTypeValue),
      FileMetaData_new 8 10 (ikey [6] 5 kTypeValue) (ikey [7] 4 kTypeValue)]" "Some [4]" "Some [5]"]
  by (simp add: level_sorted_def files_ok_def file_ok_def FileMetaData_new_def InternalKey_Compare_def
      AfterFile_def BeforeFile_def smallest_user_def largest_user_def kMaxSequenceNumber_def kTypeValue_def)

text \<open>
  C16. Collecting the inputs that overlap a range always ends, although it starts again whenever a file
  of level 0 widens the range: the result holds every file of the level that meets the range, and at
  level 0 the files left out lie apart from every file taken.
\<close>

theorem overlapping_inputs_complete:
  assumes "version_ok BytewiseComparator (\<lambda>_. True) fs v" "level < kNumLevels"
  shows "\<exists>r. GetOverlappingInputs BytewiseComparator fs v level lo hi = Some r \<and> set r \<subseteq> set (level_files v level) \<and>
    (\<forall>f\<in>set (level_files v level).
       file_overlaps BytewiseComparator (user_key_of lo) (user_key_of hi) (fs f) \<longrightarrow> f \<in> set r) \<and>
    (level = 0 \<longrightarrow> (\<forall>f\<in>set r. \<forall>g\<in>set (level_files v level). g \<notin> set r \<longrightarrow> files_apart BytewiseComparator (fs f) (fs g)))"
  by (rule bytewise_user.GetOverlappingInputs_spec [OF assms]) (simp_all add: key_ok_def split: option.split)

theorem overlapping_inputs_complete_witness:
  "\<exists>r. GetOverlappingInputs BytewiseComparator
      (\<lambda>f. if f = 3 then FileMetaData_new 7 10 (ikey [1] 9 kTypeValue) (ikey [3] 8 kTypeValue)
           else FileMetaData_new 8 10 (ikey [3] 5 kTypeValue) (ikey [7] 4 kTypeValue))
      (Version_new\<lparr>ver_files := [3, 4] # replicate 6 []\<rparr>) 0 (Some (ikey [6] 1 kTypeValue)) (Some (ikey [6] 1 kTypeValue)) = Some r \<and> 4 \<in> set r"
proof -
  let ?fs = "\<lambda>f :: fptr. if f = 3 then FileMetaData_new 7 10 (ikey [1] 9 kTypeValue) (ikey [3] 8 kTypeValue)
           else FileMetaData_new 8 10 (ikey [3] 5 kTypeValue) (ikey [7] 4 kTypeValue)"
  let ?v = "Version_new\<lparr>ver_files := [3, 4] # replicate 6 []\<rparr>"
  have files: "level_files ?v level = (if level = 0 then [3, 4] else [])" if "level < kNumLevels" for level
    using that by (auto simp: level_files_def nth_Cons' kNumLevels_def)
  have ok: "version_ok BytewiseComparator (\<lambda>_. True) ?fs ?v"
    by (rule version_ok_small) (auto simp: files file_ok_def FileMetaData_new_def InternalKey_Compare_def kNumLevels_def
        kMaxSequenceNumber_def kTypeValue_def)
  have "file_overlaps BytewiseComparator (user_key_of (Some (ikey [6] 1 kTypeValue))) (user_key_of (Some (ikey [6] 1 kTypeValue))) (?fs 4)"
    by (simp add: file_overlaps_def AfterFile_def BeforeFile_def smallest_user_def largest_user_def user_key_of_def FileMetaData_new_def)
  then show ?thesis
    using overlapping_inputs_complete [OF ok, of 0 "Some (ikey [6] 1 kTypeValue)" "Some (ikey [6] 1 kTypeValue)"] files [of 0]
    by (simp add: kNumLevels_def) blast
qed





text \<open>
  C19. While the keys of a compaction are asked for in order, the test for the base level is exact: it
  holds when no file two levels down or deeper has the key in its range, and the indices it keeps stay
  right for the keys that follow.
\<close>

theorem base_level_exact:
  assumes "vs_cmp vs = BytewiseComparator"
    and "version_ok BytewiseComparator (\<lambda>_. True) (file_at vs) (version_at vs (the (c_input_version c)))"
    and "Compare BytewiseComparator k k' \<le> 0" "ptrs_inv BytewiseComparator vs c k"
  shows "\<exists>c'. IsBaseLevelForKey vs k' c =
      ((\<forall>lvl<kNumLevels. c_level c + 2 \<le> lvl \<longrightarrow>
          (\<forall>f\<in>set (level_files (version_at vs (the (c_input_version c))) lvl).
             \<not> key_in_file BytewiseComparator k' (file_at vs f))), c') \<and>
    ptrs_inv BytewiseComparator vs c' k' \<and> c_level c' = c_level c \<and> c_input_version c' = c_input_version c"
  using bytewise_user.IsBaseLevelForKey_spec [OF assms(1,2) _ _ assms(3,4)] by simp

theorem base_level_exact_witness:
  "fst (IsBaseLevelForKey
     ((VersionSet_new [] ''db'' Options_default BytewiseComparator)\<lparr>vs_current := Some 0,
        vs_versions := [(0, Version_new\<lparr>ver_files := [[], [], [0]] @ replicate 4 []\<rparr>)],
        vs_files := (\<lambda>f. Some (FileMetaData_new 7 10 (ikey [1] 9 kTypeValue) (ikey [3] 8 kTypeValue)))\<rparr>)
     [2] ((Compaction_new 0)\<lparr>c_input_version := Some 0\<rparr>)) = False"
proof -
  let ?v = "Version_new\<lparr>ver_files := [[], [], [0]] @ replicate 4 []\<rparr>"
  let ?m = "FileMetaData_new 7 10 (ikey [1] 9 kTypeValue) (ikey [3] 8 kTypeValue)"
  let ?vs = "(VersionSet_new [] ''db'' Options_default BytewiseComparator)\<lparr>vs_current := Some 0, vs_versions := [(0, ?v)],
      vs_files := (\<lambda>f. Some ?m)\<rparr>"
  let ?c = "(Compaction_new 0)\<lparr>c_input_version := Some 0\<rparr>"
  have cmp: "vs_cmp ?vs = BytewiseComparator" by (simp add: VersionSet_new_def AppendVersion_def Let_def)
  have at: "version_at ?vs (the (c_input_version ?c)) = ?v" by (simp add: version_at_def)
  have fa: "file_at ?vs = (\<lambda>f. ?m)" by (simp add: file_at_def fun_eq_iff)
  have files: "level_files ?v level = (if level = 2 then [0] else [])" if "level < kNumLevels" for level
    using that by (auto simp: level_files_def nth_Cons' kNumLevels_def)
  have m: "file_ok BytewiseComparator (\<lambda>_. True) ?m"
    by (simp add: file_ok_def FileMetaData_new_def InternalKey_Compare_def kMaxSequenceNumber_def kTypeValue_def)
  have ok: "version_ok BytewiseComparator (\<lambda>_. True) (\<lambda>f. ?m) ?v"
    by (rule version_ok_small) (use m files in \<open>auto simp: kNumLevels_def\<close>)
  have inv: "ptrs_inv BytewiseComparator ?vs ?c [2]"
    by (rule bytewise_user.ptrs_inv_new) (simp_all add: Compaction_new_def kNumLevels_def)
  have inside: "key_in_file BytewiseComparator [2] ?m"
    by (simp add: key_in_file_def smallest_user_def largest_user_def FileMetaData_new_def)
  have "(2 :: nat) < kNumLevels" "c_level ?c = 0" "level_files ?v 2 = [0]" using files [of 2] by (simp_all add: kNumLevels_def Compaction_new_def)
  then show ?thesis
    using base_level_exact [OF cmp _ _ inv, unfolded at fa, OF ok, of "[2]"] inside by fastforce
qed

text \<open>
  C20. No file is freed under a reader: in every state the version set reaches by edits, recovery and
  references taken and dropped, a version that is current or referenced is still in the list, and its
  files are allocated and referenced. Each step leaves the number, size and range of the files that
  stay allocated as they were.
\<close>

theorem version_files_alive:
  assumes "vs_reachable (vs, pins)"
  shows "(\<forall>a. vs_current vs = Some a \<or> a \<in># pins \<longrightarrow> a \<in> fst ` set (vs_versions vs)) \<and>
    (\<forall>(a, v)\<in>set (vs_versions vs). \<forall>files\<in>set (ver_files v). \<forall>f\<in>set files.
       \<exists>m. vs_files vs f = Some m \<and> 0 < fm_refs m) \<and>
    (\<forall>vs' pins' f m m'. vs_step (vs, pins) (vs', pins') \<and> vs_files vs f = Some m \<and> vs_files vs' f = Some m' \<longrightarrow>
       fm_number m' = fm_number m \<and> fm_file_size m' = fm_file_size m \<and>
       fm_smallest m' = fm_smallest m \<and> fm_largest m' = fm_largest m)"
proof -
  have ok: "vs_ok (vs, pins)" by (rule vs_reachable_ok [OF assms])
  then have i: "vs_inv vs {#} (cur_pins vs pins)" by (simp add: vs_ok_def)
  have pinned: "a \<in> fst ` set (vs_versions vs)" if "vs_current vs = Some a \<or> a \<in># pins" for a
    by (rule vs_invD(4) [OF i]) (use that in \<open>auto simp: cur_pins_def split: option.split\<close>)
  have alive: "\<exists>m. vs_files vs f = Some m \<and> 0 < fm_refs m"
    if "(a, v) \<in> set (vs_versions vs)" "files \<in> set (ver_files v)" "f \<in> set files" for a v files f
    using live_files [OF i that(1), of f] that(2,3) by auto
  have info: "file_info m' = file_info m"
    if "vs_step (vs, pins) (vs', pins')" "vs_files vs f = Some m" "vs_files vs' f = Some m'" for vs' pins' f m m'
    using vs_step_ok [OF ok that(1)] that(2,3) by (simp add: same_files_def)
  show ?thesis using pinned alive info unfolding file_info_def by blast
qed

theorem version_files_alive_witness:
  "\<exists>vs pins. vs_reachable (vs, pins) \<and> pins \<noteq> {#} \<and> (\<forall>a. vs_current vs = Some a \<longrightarrow> a \<in> fst ` set (vs_versions vs))"
proof -
  let ?vs = "VersionSet_new [] ''db'' Options_default BytewiseComparator"
  obtain c where c: "vs_current ?vs = Some c" by (simp add: VersionSet_new_def AppendVersion_def Let_def)
  have r: "vs_reachable (Version_Ref c ?vs, {#c#})"
    using vs_reachable.step [OF vs_reachable.init vs_step.ref [OF c]] by simp
  have "\<forall>a. vs_current (Version_Ref c ?vs) = Some a \<longrightarrow> a \<in> fst ` set (vs_versions (Version_Ref c ?vs))"
    using version_files_alive [OF r] by blast
  then show ?thesis using r by (intro exI [of _ "Version_Ref c ?vs"] exI [of _ "{#c#}"]) simp
qed



section \<open>Blocks of a sorted table\<close>

text \<open>
  C22. A block built from any entries opens and reads back, from its first entry on, as exactly
  the entries added, whatever the restart interval.
\<close>

theorem block_roundtrip:
  assumes "1 \<le> interval" "list_all kv_fits kvs" "length (build_block interval kvs) < 2 ^ 32"
  shows "\<exists>it. open_block (build_block interval kvs) = Some it \<and> block_scan (BlockIter_SeekToFirst it) = kvs"
  using assms by (rule block_scan_first)

theorem block_roundtrip_witness:
  "\<exists>it. open_block (build_block 2 [([1], [2]), ([1, 2], [3]), ([4], [])]) = Some it \<and>
     block_scan (BlockIter_SeekToFirst it) = [([1], [2]), ([1, 2], [3]), ([4], [])]"
  using build_block_size [of 2 "[([1], [2]), ([1, 2], [3]), ([4], [])]"]
  by (intro block_roundtrip) (simp_all add: kv_fits_def)

text \<open>
  C23. In a block whose internal keys are sorted, \<open>Seek\<close> (binary search over the restart points,
  then a linear scan) stands at the first entry at or after the target.
\<close>

theorem block_seek:
  assumes "1 \<le> interval" "list_all kv_fits kvs" "length (build_block interval kvs) < 2 ^ 32"
    and "sorted_wrt (\<lambda>a b. InternalKey_Compare BytewiseComparator (fst a) (fst b) < 0) kvs"
    and "list_all (\<lambda>kv. 8 \<le> length (fst kv)) kvs" "8 \<le> length target"
  shows "\<exists>it. open_block (build_block interval kvs) = Some it \<and>
    block_scan (BlockIter_Seek (InternalKeyComparator BytewiseComparator) target it) =
      dropWhile (\<lambda>kv. InternalKey_Compare BytewiseComparator (fst kv) target < 0) kvs"
  using bytewise_user.internal.block_scan_seek [of interval kvs target] assms
  by (simp add: internal_ok_def)

theorem block_seek_witness:
  "\<exists>it. open_block (build_block 1 [(ikey [1] 5 kTypeValue, [2]), (ikey [1] 3 kTypeValue, [3]), (ikey [2] 9 kTypeValue, [])]) = Some it \<and>
    block_scan (BlockIter_Seek (InternalKeyComparator BytewiseComparator) (ikey [1] 4 kTypeValue) it) =
      [(ikey [1] 3 kTypeValue, [3]), (ikey [2] 9 kTypeValue, [])]"
proof -
  let ?kvs = "[(ikey [1] 5 kTypeValue, [2]), (ikey [1] 3 kTypeValue, [3]), (ikey [2] 9 kTypeValue, [])]"
  note cmp = InternalKey_Compare_def PackSequenceAndType_def kTypeValue_def Let_def
  have a: "length (build_block 1 ?kvs) < 2 ^ 32" using build_block_size [of 1 ?kvs] by simp
  have b: "sorted_wrt (\<lambda>a b. InternalKey_Compare BytewiseComparator (fst a) (fst b) < 0) ?kvs"
    by (simp add: cmp)
  have c: "dropWhile (\<lambda>kv. InternalKey_Compare BytewiseComparator (fst kv) (ikey [1] 4 kTypeValue) < 0) ?kvs
    = [(ikey [1] 3 kTypeValue, [3]), (ikey [2] 9 kTypeValue, [])]"
    by (simp add: cmp)
  show ?thesis
    using block_seek [OF _ _ a b, of "ikey [1] 4 kTypeValue"] unfolding c by (simp add: kv_fits_def)
qed

text \<open>
  C24. \<open>Prev\<close> undoes \<open>Next\<close>: from the entry numbered \<open>i\<close> it steps to the entry before it, and off the
  block at the first one.
\<close>

theorem block_prev:
  assumes "1 \<le> interval" "list_all kv_fits kvs" "length (build_block interval kvs) < 2 ^ 32" "i < length kvs"
  shows "\<exists>it. open_block (build_block interval kvs) = Some it \<and>
    block_scan (BlockIter_Prev ((BlockIter_Next ^^ i) (BlockIter_SeekToFirst it))) =
      (if i = 0 then [] else drop (i - 1) kvs)"
  using assms by (rule block_scan_prev)

theorem block_prev_witness:
  "\<exists>it. open_block (build_block 16 [([1], [2]), ([1, 2], [3]), ([4], [])]) = Some it \<and>
     block_scan (BlockIter_Prev ((BlockIter_Next ^^ 2) (BlockIter_SeekToFirst it))) = [([1, 2], [3]), ([4], [])]"
  using block_prev [of 16 "[([1], [2]), ([1, 2], [3]), ([4], [])]" 2]
    build_block_size [of 16 "[([1], [2]), ([1, 2], [3]), ([4], [])]"]
  by (simp add: kv_fits_def)

section \<open>Filters\<close>

text \<open>
  C25. The Bloom filter has no false negatives: a key given to \<open>CreateFilter\<close> always may match, as
  long as the number of bits does not reach the range where the 32-bit computation wraps.
\<close>

theorem bloom_no_false_negative:
  assumes "bloom_fits b keys" "k \<in> set keys"
  shows "KeyMayMatch (NewBloomFilterPolicy b) k (CreateFilter (NewBloomFilterPolicy b) keys [])"
  using assms by (rule bloom.no_false_negative)

theorem bloom_no_false_negative_witness:
  "KeyMayMatch (NewBloomFilterPolicy 10) [1, 2] (CreateFilter (NewBloomFilterPolicy 10) [[7], [1, 2], []] [])"
  by (rule bloom_no_false_negative) (simp_all add: bloom_fits_def)

text \<open>
  C26. The filter block of a table has no false negatives: a key added between the start of a data
  block and the next may match at that block's offset, for data blocks started in order.
\<close>

theorem filter_block_finds:
  assumes "sorted (map fb_index blks)" "(off, keys) \<in> set blks" "k \<in> set keys"
    and "bloom_fits b (concat (map snd blks))"
    and "length (FilterBlock_Finish (NewBloomFilterPolicy b) (fb_blocks (NewBloomFilterPolicy b) blks)) < 2 ^ 32"
  shows "FilterBlock_KeyMayMatch (NewBloomFilterPolicy b)
      (FilterBlockReader_new (FilterBlock_Finish (NewBloomFilterPolicy b) (fb_blocks (NewBloomFilterPolicy b) blks))) off k"
  using assms by (rule bloom_block.filter_block_no_false_negative)

theorem filter_block_finds_witness:
  "FilterBlock_KeyMayMatch (NewBloomFilterPolicy 10)
     (FilterBlockReader_new (FilterBlock_Finish (NewBloomFilterPolicy 10)
        (fb_blocks (NewBloomFilterPolicy 10) [(0, [[1], [2]]), (5000, [[3]])]))) 5000 [3]"
proof -
  have "length (FilterBlock_Finish (NewBloomFilterPolicy 10)
      (fb_blocks (NewBloomFilterPolicy 10) [(0, [[1], [2]]), (5000, [[3]])])) < 2 ^ 32"
    by (simp add: FilterBlock_Finish_def fb_blocks_def fb_block_def StartBlock_def StartBlock_loop.simps
        GenerateFilter_def FilterBlockBuilder_new_def kFilterBase_def kFilterBaseLg_def AddKey_def
        tmp_keys_def length_Bloom_CreateFilter bloom_bytes_def Let_def PutFixed32_def)
  then show ?thesis
    using filter_block_finds [of "[(0, [[1], [2]]), (5000, [[3]])]" 5000 "[[3]]" "[3]" 10]
    by (simp add: fb_index_def kFilterBase_def kFilterBaseLg_def bloom_fits_def)
qed

section \<open>Checksums\<close>

text \<open>
  C27. \<open>Extend\<close>, with its four slicing tables, its alignment prologue and its 16-byte loop, computes
  the bitwise CRC-32C (polynomial \<open>0x1EDC6F41\<close>, reflected) whatever the address of the buffer.
\<close>

theorem crc_extend_is_bitwise:
  "Extend address crc buf = crc_reference (crc XOR 0xffffffff) buf XOR 0xffffffff"
  by (rule Extend_eq)


section \<open>Keys\<close>

text \<open>
  C28. A lookup key for snapshot \<open>s\<close> sorts before or at an entry of the same user key exactly when
  the entry is visible, that is not newer than \<open>s\<close>.
\<close>

theorem lookup_key_visibility:
  assumes "s \<le> kMaxSequenceNumber" "s' \<le> kMaxSequenceNumber" "t \<le> kTypeValue"
  shows "InternalKey_Compare BytewiseComparator (lk_internal_key (LookupKey_new u s)) (ikey u s' t) \<le> 0 \<longleftrightarrow> s' \<le> s"
  unfolding LookupKey_views by (rule bytewise_user.lookup_before_entry) (use assms in auto)

theorem lookup_key_visibility_witness:
  "InternalKey_Compare BytewiseComparator (lk_internal_key (LookupKey_new [1] 7)) (ikey [1] 9 kTypeDeletion) \<le> 0 \<longleftrightarrow> (9 :: u64) \<le> 7"
  by (rule lookup_key_visibility) (simp_all add: small_sequence_numbers kTypeDeletion_def kTypeValue_def)

text \<open>
  C29. The separator that goes into an index block lies between its two internal keys: at or after
  the last key of the block and before the first key of the next, and is an internal key.
\<close>

theorem internal_separator_between:
  assumes "8 \<le> length start" "8 \<le> length limit" "InternalKey_Compare BytewiseComparator start limit < 0"
  shows "8 \<le> length (InternalKey_FindShortestSeparator BytewiseComparator start limit) \<and>
    InternalKey_Compare BytewiseComparator start (InternalKey_FindShortestSeparator BytewiseComparator start limit) \<le> 0 \<and>
    InternalKey_Compare BytewiseComparator (InternalKey_FindShortestSeparator BytewiseComparator start limit) limit < 0"
  using bytewise.InternalKey_separator [of start limit] assms by (simp add: internal_ok_def)

theorem internal_separator_between_witness:
  "InternalKey_Compare BytewiseComparator
     (InternalKey_FindShortestSeparator BytewiseComparator (ikey [1, 1, 5] 3 kTypeValue) (ikey [1, 9] 4 kTypeValue)) (ikey [1, 9] 4 kTypeValue) < 0"
  using internal_separator_between [of "ikey [1, 1, 5] 3 kTypeValue" "ikey [1, 9] 4 kTypeValue"]
  by (simp add: InternalKey_Compare_def)

text \<open>C30. Parsing an internal key gives back the parts it was made of.\<close>

theorem internal_key_roundtrip:
  assumes "s \<le> kMaxSequenceNumber" "t \<le> kTypeValue"
  shows "ParseInternalKey (AppendInternalKey [] \<lparr>pk_user_key = u, pk_sequence = s, pk_type = t\<rparr>) =
     Some \<lparr>pk_user_key = u, pk_sequence = s, pk_type = t\<rparr>"
  using ParseInternalKey_ikey [OF assms] by (simp add: ikey_def)

theorem internal_key_roundtrip_witness:
  "ParseInternalKey (AppendInternalKey [] \<lparr>pk_user_key = [1, 2], pk_sequence = 77, pk_type = kTypeDeletion\<rparr>) =
     Some \<lparr>pk_user_key = [1, 2], pk_sequence = 77, pk_type = kTypeDeletion\<rparr>"
  by (rule internal_key_roundtrip) (simp_all add: small_sequence_numbers kTypeDeletion_def kTypeValue_def)

section \<open>Encodings\<close>

text \<open>
  C31. The unrolled 32-bit varint writer and the two readers (the inline fast path and its
  fallback) agree: what was written reads back, with the bytes after it left over, in at most five
  bytes.
\<close>

theorem varint32_roundtrip:
  "GetVarint32 (EncodeVarint32 v @ rest) = Some (v, rest) \<and> length (EncodeVarint32 v) \<le> 5"
  using length_EncodeVarint32_bounds [of v] by simp


section \<open>The block cache\<close>





section \<open>Memory and randomness\<close>



text \<open>
  C36. The random generator's overflow-free step is the multiplication by 16807 modulo
  \<open>2\<^sup>31 - 1\<close>, and stays in range.
\<close>

theorem random_next_is_minstd:
  assumes "seed \<le> 2147483647"
  shows "unat (Random_Next seed) mod 2147483647 = (unat seed * 16807) mod 2147483647 \<and>
    Random_Next seed \<le> 2147483647"
  using Random_Next_mod [OF assms] by blast

theorem random_next_is_minstd_witness:
  "unat (Random_Next 1000000000) mod 2147483647 = 1000000000 * 16807 mod 2147483647"
  using random_next_is_minstd [of 1000000000] by simp

section \<open>Version edits and file names\<close>

text \<open>
  C37. A version edit made with the setters reads back, whatever the target held before: every field
  is the one written, except that decoding keeps the target's compaction pointers and appends the
  ones it reads.
\<close>

theorem version_edit_roundtrip:
  assumes "edit_ok e"
  shows "VersionEdit_DecodeFrom (VersionEdit_EncodeTo [] e) e0 =
    (OK, e\<lparr>ve_compact_pointers := ve_compact_pointers e0 @ ve_compact_pointers e\<rparr>)"
  using assms by (rule VersionEdit_Decode_Encode)

theorem version_edit_roundtrip_witness:
  "VersionEdit_DecodeFrom
     (VersionEdit_EncodeTo [] (AddFile 1 5 100 [1] [2] (DeleteFile 2 7 (SetLogNumber 3 VersionEdit_new))))
     VersionEdit_new =
   (OK, AddFile 1 5 100 [1] [2] (DeleteFile 2 7 (SetLogNumber 3 VersionEdit_new)))"
proof -
  have "edit_ok (AddFile 1 5 100 [1] [2] (DeleteFile 2 7 (SetLogNumber 3 VersionEdit_new)))"
    by (intro edit_ok_setters edit_ok_new) (simp_all add: kNumLevels_def)
  from version_edit_roundtrip [OF this, of VersionEdit_new] show ?thesis
    by (simp add: VersionEdit_new_def AddFile_def DeleteFile_def SetLogNumber_def)
qed

text \<open>
  C38. The names made for a database whose name has no dot parse back to the number and kind of the
  file: write-ahead logs, \<open>sst\<close> tables, temporary files, and the manifest, current, lock and info log.
  A table gets its \<open>ldb\<close> name back only when it is the one unnumbered table; every numbered table
  name is refused.
\<close>

theorem file_names_parse:
  assumes "plain_name db" "db \<noteq> []"
  shows "ParseFileName (LogFileName [] db n) = Some (n, kLogFile) \<and>
    ParseFileName (SSTTableFileName [] db n) = Some (n, kTableFile) \<and>
    ParseFileName (TempFileName [] db n) = Some (n, kTempFile) \<and>
    ParseFileName (DescriptorFileName [] db n) = Some (1, kDescriptorFile) \<and>
    ParseFileName (CurrentFileName [] db) = Some (0, kCurrentFile) \<and>
    ParseFileName (LockFileName [] db) = Some (0, kDBLockFile) \<and>
    ParseFileName (InfoLogFileName [] db) = Some (0, kInfoLogFile) \<and>
    ParseFileName (OldInfoLogFileName [] db) = Some (0, kInfoLogFile) \<and>
    ParseFileName (TableFileName [] db n) = (if n = FILENUMBER_LDB then Some (0, kTableFile) else None)"
  using Parse_numbered_files [OF assms(1)] Parse_unnumbered_files [OF assms] Parse_table_file [OF assms] by blast

theorem file_names_parse_witness:
  "ParseFileName (LogFileName [] ''map'' 12) = Some (12, kLogFile) \<and>
   ParseFileName (TableFileName [] ''map'' 12) = None"
proof -
  have "plain_name ''map''" by (simp add: plain_name_def)
  from file_names_parse [OF this, of 12] show ?thesis by (simp add: FILENUMBER_LDB_def)
qed

end
